(* ===== verification/Prelude.thy ===== *)
theory Prelude
  imports Main "HOL-Library.Word"
begin

text \<open>
  Shared vocabulary of the development: the machine types of the kernel (\<open>uint8_t\<close> to
  \<open>uint64_t\<close> as words of their width), first-match scans of a C array
  (\<open>for (i = 0; i < N; i++) if (P(a[i])) return i;\<close>), tables of slots with a used flag and a
  key, C strings, and the byte order of multi-byte fields. The component theories rest on
  the lemmas proved here.
\<close>

unbundle bit_operations_syntax

type_synonym u8 = "8 word"
type_synonym u16 = "16 word"
type_synonym u32 = "32 word"
type_synonym u64 = "64 word"

text \<open>\<open>kmalloc\<close> as its callers see it: a buffer with arbitrary contents for a size, or nothing.\<close>

type_synonym malloc = "u32 \<Rightarrow> u8 list option"

named_theorems scan \<open>facts on first-match scans\<close>
named_theorems slots \<open>facts on slot tables\<close>
named_theorems wire \<open>facts on byte order and packet fields\<close>

section \<open>First-match scans of an array\<close>

fun first_idx :: "('a \<Rightarrow> bool) \<Rightarrow> 'a list \<Rightarrow> nat option" where
  "first_idx P [] = None"
| "first_idx P (x # xs) = (if P x then Some 0 else map_option Suc (first_idx P xs))"

lemma first_idx_SomeD [scan]:
  "first_idx P xs = Some i \<Longrightarrow> i < length xs \<and> P (xs ! i) \<and> (\<forall>j < i. \<not> P (xs ! j))"
proof (induction xs arbitrary: i)
  case Nil
  then show ?case by simp
next
  case (Cons x xs)
  show ?case
  proof (cases "P x")
    case True
    with Cons.prems show ?thesis by simp
  next
    case False
    with Cons.prems obtain i' where i: "i = Suc i'" and f: "first_idx P xs = Some i'"
      by auto
    from Cons.IH [OF f] False i show ?thesis
      by (auto simp: nth_Cons less_Suc_eq_0_disj)
  qed
qed

lemma first_idx_None [scan]: "first_idx P xs = None \<longleftrightarrow> (\<forall>x \<in> set xs. \<not> P x)"
  by (induction xs) auto

lemma first_idx_SomeI:
  "i < length xs \<Longrightarrow> P (xs ! i) \<Longrightarrow> (\<And>j. j < i \<Longrightarrow> \<not> P (xs ! j)) \<Longrightarrow> first_idx P xs = Some i"
proof (induction xs arbitrary: i)
  case Nil
  then show ?case by simp
next
  case (Cons x xs)
  show ?case
  proof (cases i)
    case 0
    with Cons.prems show ?thesis by simp
  next
    case (Suc i')
    from Cons.prems(3) [of 0] Suc have "\<not> P x" by simp
    moreover have "first_idx P xs = Some i'"
      using Cons.prems Suc by (intro Cons.IH) force+
    ultimately show ?thesis using Suc by simp
  qed
qed

lemma first_idx_Some_iff:
  "first_idx P xs = Some i \<longleftrightarrow> i < length xs \<and> P (xs ! i) \<and> (\<forall>j < i. \<not> P (xs ! j))"
  using first_idx_SomeD [of P xs i] first_idx_SomeI [of i xs P] by blast

lemma first_idx_exists: "x \<in> set xs \<Longrightarrow> P x \<Longrightarrow> \<exists>i. first_idx P xs = Some i"
  using first_idx_None [of P xs] by (metis option.exhaust)

lemma first_idx_length: "first_idx P xs = Some i \<Longrightarrow> i < length xs"
  by (simp add: first_idx_Some_iff)

lemma first_idx_sat: "first_idx P xs = Some i \<Longrightarrow> P (xs ! i)"
  by (simp add: first_idx_Some_iff)

lemmas first_idx_facts = first_idx_length first_idx_sat

lemma nth_update_if: "j < length xs \<Longrightarrow> xs[i := x] ! j = (if i = j then x else xs ! j)"
  by (simp add: nth_list_update)

section \<open>Words\<close>

lemma unat_ucast_up:
  "LENGTH('a::len) \<le> LENGTH('b::len) \<Longrightarrow> unat (ucast (x :: 'a word) :: 'b word) = unat x"
  using unsigned_less [of x, where ?'a = nat] power_increasing [of "LENGTH('a)" "LENGTH('b)" "2 :: nat"]
  unfolding unsigned_ucast_eq by (intro take_bit_nat_eq_self) linarith

lemma unat_pow2: "n < LENGTH('a::len) \<Longrightarrow> unat (2 ^ n :: 'a word) = 2 ^ n"
proof -
  assume "n < LENGTH('a)"
  then have "(2::nat) ^ n < 2 ^ LENGTH('a)" by (rule power_strict_increasing) simp
  then have "(2::nat) ^ n mod 2 ^ LENGTH('a) = 2 ^ n" by (rule mod_less)
  moreover have "unat (of_nat (2 ^ n) :: 'a word) = 2 ^ n mod 2 ^ LENGTH('a)"
    by (simp only: unat_of_nat)
  ultimately show ?thesis by simp
qed

section \<open>Slot tables\<close>

text \<open>
  Most of the kernel's tables (ARP cache, sessions, leases, mounts, users, installed apps)
  are fixed arrays of slots with a used flag and a key. \<open>slots_unique\<close> is their
  well-formedness, and \<open>slot_map\<close> the finite map they implement.
\<close>

definition slots_unique :: "('s \<Rightarrow> bool) \<Rightarrow> ('s \<Rightarrow> 'k) \<Rightarrow> 's list \<Rightarrow> bool" where
  "slots_unique used key xs \<longleftrightarrow>
     (\<forall>i < length xs. \<forall>j < length xs.
        used (xs ! i) \<and> used (xs ! j) \<and> key (xs ! i) = key (xs ! j) \<longrightarrow> i = j)"

definition slot_map :: "('s list \<Rightarrow> 'k \<Rightarrow> nat option) \<Rightarrow> 's list \<Rightarrow> 'k \<rightharpoonup> 's" where
  "slot_map lookup xs k = map_option (\<lambda>i. xs ! i) (lookup xs k)"

lemma slots_uniqueD:
  "\<lbrakk>slots_unique used key xs; i < length xs; j < length xs; used (xs ! i); used (xs ! j);
    key (xs ! i) = key (xs ! j)\<rbrakk> \<Longrightarrow> i = j"
  unfolding slots_unique_def by blast

lemma slots_unique_clear:
  "slots_unique used key xs \<Longrightarrow> \<not> used s \<Longrightarrow> slots_unique used key (xs[i := s])"
  unfolding slots_unique_def by (auto simp: nth_update_if split: if_splits)

lemma slots_unique_all_unused:
  "(\<And>s. s \<in> set xs \<Longrightarrow> \<not> used s) \<Longrightarrow> slots_unique used key xs"
  unfolding slots_unique_def by (meson nth_mem)

text \<open>
  The interface a component offers its clients: a scan \<open>lookup\<close> that returns a used slot with
  the key, or nothing when there is none.
\<close>

locale slot_table =
  fixes used :: "'s \<Rightarrow> bool"
    and key :: "'s \<Rightarrow> 'k"
    and lookup :: "'s list \<Rightarrow> 'k \<Rightarrow> nat option"
  assumes lookup_Some: "lookup xs k = Some i \<Longrightarrow> i < length xs \<and> used (xs ! i) \<and> key (xs ! i) = k"
    and lookup_None: "lookup xs k = None \<Longrightarrow> s \<in> set xs \<Longrightarrow> used s \<Longrightarrow> key s \<noteq> k"
begin

lemma lookup_unique:
  assumes u: "slots_unique used key xs" and i: "i < length xs" "used (xs ! i)"
  shows "lookup xs (key (xs ! i)) = Some i"
proof (cases "lookup xs (key (xs ! i))")
  case None
  from lookup_None [OF None, of "xs ! i"] i show ?thesis by simp
next
  case (Some j)
  from lookup_Some [OF Some] i u have "j = i"
    by (intro slots_uniqueD [OF u]) auto
  with Some show ?thesis by simp
qed

lemma lookup_iff:
  assumes "slots_unique used key xs"
  shows "lookup xs k = Some i \<longleftrightarrow> i < length xs \<and> used (xs ! i) \<and> key (xs ! i) = k"
  using lookup_unique [OF assms] lookup_Some by metis

text \<open>Writing a used slot for key \<open>k\<close> into a slot that is free, or that holds \<open>k\<close>, or whose
  old key is given up (eviction), keeps the table well-formed as long as no other slot
  holds \<open>k\<close>.\<close>

lemma unique_store:
  assumes u: "slots_unique used key xs"
    and own: "\<And>j. lookup xs (key s) = Some j \<Longrightarrow> j = i"
  shows "slots_unique used key (xs[i := s])"
proof -
  have other: "j = i" if "j < length xs" "used (xs ! j)" "key (xs ! j) = key s" for j
    using lookup_unique [OF u that(1,2)] own that(3) by simp
  show ?thesis
    unfolding slots_unique_def
    using other slots_uniqueD [OF u] by (auto simp: nth_update_if split: if_splits)
qed

lemma lookup_store_same:
  assumes u: "slots_unique used key xs" and i: "i < length xs" and s: "used s"
    and own: "\<And>j. lookup xs (key s) = Some j \<Longrightarrow> j = i"
  shows "lookup (xs[i := s]) (key s) = Some i"
proof -
  have "slots_unique used key (xs[i := s])"
    using u own by (rule unique_store)
  from lookup_unique [OF this, of i] i s show ?thesis by simp
qed

lemma lookup_store_other:
  assumes u: "slots_unique used key xs" and s: "used s"
    and own: "\<And>j. lookup xs (key s) = Some j \<Longrightarrow> j = i"
    and k: "k \<noteq> key s"
    and old: "i < length xs \<Longrightarrow> used (xs ! i) \<Longrightarrow> key (xs ! i) \<noteq> k"
  shows "lookup (xs[i := s]) k = lookup xs k"
proof -
  have u': "slots_unique used key (xs[i := s])"
    using u own by (rule unique_store)
  have "lookup (xs[i := s]) k = Some j \<longleftrightarrow> lookup xs k = Some j" for j
    unfolding lookup_iff [OF u] lookup_iff [OF u'] using k old
    by (auto simp: nth_update_if split: if_splits)
  then show ?thesis by (metis option.exhaust)
qed

lemma lookup_clear_same:
  assumes u: "slots_unique used key xs" and s: "\<not> used s" and f: "lookup xs k = Some i"
  shows "lookup (xs[i := s]) k = None"
proof -
  note u' = slots_unique_clear [OF u s, of i]
  have "lookup (xs[i := s]) k \<noteq> Some j" for j
    unfolding lookup_iff [OF u'] using f s slots_uniqueD [OF u] lookup_Some [OF f]
    by (auto simp: nth_update_if split: if_splits)
  then show ?thesis by (metis option.exhaust)
qed

lemma lookup_clear_other:
  assumes u: "slots_unique used key xs" and s: "\<not> used s"
    and old: "i < length xs \<Longrightarrow> used (xs ! i) \<Longrightarrow> key (xs ! i) \<noteq> k"
  shows "lookup (xs[i := s]) k = lookup xs k"
proof -
  note u' = slots_unique_clear [OF u s, of i]
  have "lookup (xs[i := s]) k = Some j \<longleftrightarrow> lookup xs k = Some j" for j
    unfolding lookup_iff [OF u] lookup_iff [OF u'] using s old
    by (auto simp: nth_update_if split: if_splits)
  then show ?thesis by (metis option.exhaust)
qed

end

text \<open>Every table that is scanned for the first used slot with the key is such a table.\<close>

definition scan_lookup :: "('s \<Rightarrow> bool) \<Rightarrow> ('s \<Rightarrow> 'k) \<Rightarrow> 's list \<Rightarrow> 'k \<Rightarrow> nat option" where
  "scan_lookup used key xs k = first_idx (\<lambda>s. used s \<and> key s = k) xs"

lemma scan_lookup_slot_table: "slot_table used key (scan_lookup used key)"
  by unfold_locales (auto simp: scan_lookup_def first_idx_None dest: first_idx_SomeD)

section \<open>Computations that may not return\<close>

text \<open>\<open>after R s m\<close>: whatever state the computation \<open>m\<close> ends in, it is related to \<open>s\<close>;
  \<open>after_pair\<close> is the same for computations that also return a number.\<close>

definition after :: "('s \<Rightarrow> 's \<Rightarrow> bool) \<Rightarrow> 's \<Rightarrow> 's option \<Rightarrow> bool" where
  "after R s m \<longleftrightarrow> (\<forall>t. m = Some t \<longrightarrow> R s t)"

definition after_pair :: "('s \<Rightarrow> 's \<Rightarrow> bool) \<Rightarrow> 's \<Rightarrow> (int \<times> 's) option \<Rightarrow> bool" where
  "after_pair R s m \<longleftrightarrow> (\<forall>r t. m = Some (r, t) \<longrightarrow> R s t)"

lemma after_rules:
  "R s t \<Longrightarrow> after R s (Some t)"
  "after R s m \<Longrightarrow> (\<And>t. R s t \<Longrightarrow> after R s (f t)) \<Longrightarrow> after R s (Option.bind m f)"
  "after_pair R s m2 \<Longrightarrow> (\<And>r t. R s t \<Longrightarrow> after R s (g r t)) \<Longrightarrow> after R s (Option.bind m2 (\<lambda>(r, t). g r t))"
  "after_pair R s m2 \<Longrightarrow> after R s (map_option snd m2)"
  by (auto simp: after_def after_pair_def Option.bind_eq_Some_conv)

lemma after_if: "(b \<Longrightarrow> after R s x) \<Longrightarrow> (\<not> b \<Longrightarrow> after R s y) \<Longrightarrow> after R s (if b then x else y)"
  by simp

lemma after_pair_rules:
  "R s t \<Longrightarrow> after_pair R s (Some (r, t))"
  "after R s m \<Longrightarrow> (\<And>t. R s t \<Longrightarrow> after_pair R s (f2 t)) \<Longrightarrow> after_pair R s (Option.bind m f2)"
  "after_pair R s m2 \<Longrightarrow> (\<And>r t. R s t \<Longrightarrow> after_pair R s (g2 r t)) \<Longrightarrow> after_pair R s (Option.bind m2 (\<lambda>(r, t). g2 r t))"
  by (auto simp: after_def after_pair_def Option.bind_eq_Some_conv)

end
