(* ===== verification/Pmm.thy ===== *)
theory Pmm
  imports Prelude "HOL-Library.Multiset"
begin

text \<open>
  The physical page allocator (\<open>kernel/mm/pmm.c\<close>, constants from \<open>include/pmm.h\<close>): free
  blocks of \<open>2 ^ order\<close> pages on eleven singly linked lists whose links live in the free
  blocks themselves. Physical memory is an explicit store of 32-bit words, so that a write
  through a stale pointer would show. \<open>pmm_wf\<close> is the well-formedness of the allocator and
  \<open>free_page_mset\<close> the multiset of page numbers its lists cover.
\<close>

section \<open>State\<close>

definition PAGE_SIZE :: u32 where "PAGE_SIZE = 4096"
definition PMM_MAX_ORDER :: nat where "PMM_MAX_ORDER = 10"
definition PMM_METADATA_SIZE :: u32 where "PMM_METADATA_SIZE = 131072"
definition PAGE_DIRTY :: u8 where "PAGE_DIRTY = 0x80"
definition PAGE_ORDER_MASK :: u8 where "PAGE_ORDER_MASK = 0x0F"
definition PMM_START_ADDR :: u32 where "PMM_START_ADDR = 0x00800000"
definition PMM_END_ADDR :: u32 where "PMM_END_ADDR = 0x1E000000"

lemmas pmm_consts = PAGE_SIZE_def PMM_MAX_ORDER_def PMM_METADATA_SIZE_def PAGE_DIRTY_def
  PAGE_ORDER_MASK_def PMM_START_ADDR_def PMM_END_ADDR_def

text \<open>\<open>free_lists\<close> holds the heads (0 is NULL); \<open>mem\<close> is physical memory by word address:
  \<open>block->next\<close> is the word at the block's first address.\<close>

record pmm =
  free_lists :: "u32 list"
  total_pages :: u32
  free_pages :: u32
  page_metadata :: "u32 \<Rightarrow> u8"
  mem :: "u32 \<Rightarrow> u32"

section \<open>Operations\<close>

definition pmm_add_to_list :: "u32 \<Rightarrow> nat \<Rightarrow> pmm \<Rightarrow> pmm" where
  "pmm_add_to_list addr order s =
     s\<lparr>mem := (mem s)(addr := free_lists s ! order),
       free_lists := (free_lists s)[order := addr]\<rparr>"

text \<open>The loop of \<open>pmm_init\<close> that cuts maximal blocks. The C loop runs on 32-bit addresses and
  need not stop for an end address near the top of the address space, so the model may not
  return.\<close>

partial_function (option) pmm_init_max :: "u32 \<Rightarrow> u32 \<Rightarrow> pmm \<Rightarrow> (u32 \<times> pmm) option" where
  "pmm_init_max end_addr current s =
     (if current + PAGE_SIZE * 2 ^ PMM_MAX_ORDER \<le> end_addr
      then pmm_init_max end_addr (current + PAGE_SIZE * 2 ^ PMM_MAX_ORDER)
             (pmm_add_to_list current PMM_MAX_ORDER s)
      else Some (current, s))"

text \<open>The loop over the smaller orders, \<open>order = n - 1, \<dots>, 0\<close>.\<close>

fun pmm_init_rest :: "nat \<Rightarrow> u32 \<Rightarrow> u32 \<Rightarrow> pmm \<Rightarrow> u32 \<times> pmm" where
  "pmm_init_rest 0 end_addr current s = (current, s)"
| "pmm_init_rest (Suc order) end_addr current s =
     (if current + PAGE_SIZE * 2 ^ order \<le> end_addr
      then pmm_init_rest order end_addr (current + PAGE_SIZE * 2 ^ order)
             (pmm_add_to_list current order s)
      else pmm_init_rest order end_addr current s)"

definition pmm_end_addr :: "u32 \<Rightarrow> u32" where
  "pmm_end_addr mem_size =
     (if mem_size > 0
      then let ms = mem_size AND NOT (PAGE_SIZE - 1)
           in if ms < PMM_END_ADDR then ms else PMM_END_ADDR
      else PMM_END_ADDR)"

definition pmm_init :: "u32 \<Rightarrow> pmm \<Rightarrow> pmm option" where
  "pmm_init mem_size s0 =
     (let s = s0\<lparr>free_lists := replicate (Suc PMM_MAX_ORDER) 0, total_pages := 0,
                 free_pages := 0, page_metadata := (\<lambda>_. 0)\<rparr>;
          end_addr = pmm_end_addr mem_size
      in if end_addr \<le> PMM_START_ADDR then Some s
         else let n = (end_addr - PMM_START_ADDR) div PAGE_SIZE;
                  s = s\<lparr>total_pages := n, free_pages := n\<rparr>
              in case pmm_init_max end_addr PMM_START_ADDR s of
                   None \<Rightarrow> None
                 | Some (current, s) \<Rightarrow> Some (snd (pmm_init_rest PMM_MAX_ORDER end_addr current s)))"

fun pmm_split :: "u32 \<Rightarrow> nat \<Rightarrow> nat \<Rightarrow> pmm \<Rightarrow> pmm" where
  "pmm_split addr order 0 s = s"
| "pmm_split addr order (Suc j) s =
     (if Suc j > order
      then pmm_split addr order j (pmm_add_to_list (addr + PAGE_SIZE * 2 ^ j) j s)
      else s)"

definition pg_idx :: "u32 \<Rightarrow> u32" where
  "pg_idx addr = (addr - PMM_START_ADDR) div PAGE_SIZE"

text \<open>The scan for the first list with a free block: \<open>j\<close> runs from \<open>order\<close> to
  \<open>PMM_MAX_ORDER\<close>.\<close>

definition pmm_first_list :: "nat \<Rightarrow> pmm \<Rightarrow> nat option" where
  "pmm_first_list order s =
     map_option (\<lambda>i. order + i)
       (first_idx (\<lambda>h. h \<noteq> 0) (drop order (take (Suc PMM_MAX_ORDER) (free_lists s))))"

definition pmm_alloc_page :: "int \<Rightarrow> pmm \<Rightarrow> u32 \<times> pmm" where
  "pmm_alloc_page order s =
     (if order < 0 \<or> order > int PMM_MAX_ORDER then (0, s)
      else case pmm_first_list (nat order) s of
             None \<Rightarrow> (0, s)
           | Some j \<Rightarrow>
               let addr = free_lists s ! j;
                   s1 = s\<lparr>free_lists := (free_lists s)[j := mem s addr]\<rparr>;
                   s2 = pmm_split addr (nat order) j s1;
                   s3 = (if pg_idx addr < PMM_METADATA_SIZE
                         then s2\<lparr>page_metadata := (page_metadata s2)
                                   (pg_idx addr := word_of_int order OR PAGE_DIRTY)\<rparr>
                         else s2)
               in (addr, s3\<lparr>free_pages := free_pages s3 - 2 ^ nat order\<rparr>))"

definition pmm_free_page :: "u32 \<Rightarrow> int \<Rightarrow> pmm \<Rightarrow> pmm" where
  "pmm_free_page ptr order s =
     (if ptr = 0 \<or> order < 0 \<or> order > int PMM_MAX_ORDER then s
      else let s1 = (if pg_idx ptr < PMM_METADATA_SIZE
                     then s\<lparr>page_metadata := (page_metadata s)(pg_idx ptr := 0)\<rparr>
                     else s);
               s2 = pmm_add_to_list ptr (nat order) s1
           in s2\<lparr>free_pages := free_pages s2 + 2 ^ nat order\<rparr>)"

definition pmm_get_order :: "u32 \<Rightarrow> pmm \<Rightarrow> int" where
  "pmm_get_order ptr s =
     (if pg_idx ptr < PMM_METADATA_SIZE \<and> page_metadata s (pg_idx ptr) AND PAGE_DIRTY \<noteq> 0
      then uint (page_metadata s (pg_idx ptr) AND PAGE_ORDER_MASK)
      else -1)"

definition pmm_get_free_pages :: "pmm \<Rightarrow> u32" where
  "pmm_get_free_pages s = free_pages s"

definition pmm_get_total_pages :: "pmm \<Rightarrow> u32" where
  "pmm_get_total_pages s = total_pages s"

section \<open>Well-formedness\<close>

text \<open>The abstract view: a ghost list of block addresses per order. \<open>chain m p as\<close> says that
  following the links from \<open>p\<close> visits \<open>as\<close> and ends in NULL.\<close>

fun chain :: "(u32 \<Rightarrow> u32) \<Rightarrow> u32 \<Rightarrow> u32 list \<Rightarrow> bool" where
  "chain m p [] \<longleftrightarrow> p = 0"
| "chain m p (a # as) \<longleftrightarrow> p = a \<and> a \<noteq> 0 \<and> chain m (m a) as"

definition page_no :: "u32 \<Rightarrow> nat" where
  "page_no a = unat a div 4096"

definition block_pages :: "nat \<Rightarrow> u32 \<Rightarrow> nat list" where
  "block_pages order a = [page_no a ..< page_no a + 2 ^ order]"

definition order_pages :: "nat \<Rightarrow> u32 list \<Rightarrow> nat multiset" where
  "order_pages order as = mset (concat (map (block_pages order) as))"

definition free_page_mset :: "u32 list list \<Rightarrow> nat multiset" where
  "free_page_mset L = (\<Sum>order < length L. order_pages order (L ! order))"

definition block_ok :: "nat \<Rightarrow> nat \<Rightarrow> u32 \<Rightarrow> bool" where
  "block_ok pages order a \<longleftrightarrow>
     4096 dvd unat a \<and> 0x800000 \<le> unat a \<and>
     unat a + 4096 * 2 ^ order \<le> 0x800000 + 4096 * pages"

definition pmm_lists :: "pmm \<Rightarrow> u32 list list \<Rightarrow> bool" where
  "pmm_lists s L \<longleftrightarrow>
     length (free_lists s) = 11 \<and> length L = 11 \<and> unat (total_pages s) \<le> 120832 \<and>
     (\<forall>order < 11. chain (mem s) (free_lists s ! order) (L ! order) \<and>
        (\<forall>a \<in> set (L ! order). block_ok (unat (total_pages s)) order a)) \<and>
     (\<forall>p. count (free_page_mset L) p \<le> 1)"

definition pmm_wf :: "pmm \<Rightarrow> u32 list list \<Rightarrow> bool" where
  "pmm_wf s L \<longleftrightarrow> pmm_lists s L \<and> unat (free_pages s) = size (free_page_mset L)"

lemma pmm_listsI:
  assumes "length (free_lists s) = 11" "length L = 11" "unat (total_pages s) \<le> 120832"
    and "\<And>order. order < 11 \<Longrightarrow> chain (mem s) (free_lists s ! order) (L ! order)"
    and "\<And>order a. order < 11 \<Longrightarrow> a \<in> set (L ! order) \<Longrightarrow> block_ok (unat (total_pages s)) order a"
    and "\<And>p. count (free_page_mset L) p \<le> 1"
  shows "pmm_lists s L"
  unfolding pmm_lists_def using assms by blast

lemma pmm_listsD:
  assumes "pmm_lists s L"
  shows "length (free_lists s) = 11" "length L = 11" "unat (total_pages s) \<le> 120832"
    and "\<And>order. order < 11 \<Longrightarrow> chain (mem s) (free_lists s ! order) (L ! order)"
    and "\<And>order a. order < 11 \<Longrightarrow> a \<in> set (L ! order) \<Longrightarrow> block_ok (unat (total_pages s)) order a"
    and "\<And>p. count (free_page_mset L) p \<le> 1"
  using assms unfolding pmm_lists_def by blast+

lemma chain_upd: "x \<notin> set as \<Longrightarrow> chain (m(x := v)) p as = chain m p as"
  by (induction as arbitrary: p) auto

lemma chain_head: "chain m p as \<Longrightarrow> p \<noteq> 0 \<Longrightarrow> as = p # tl as \<and> chain m (m p) (tl as)"
  by (cases as) auto

lemma chain_head_0: "chain m 0 as \<longleftrightarrow> as = []"
  by (cases as) auto

subsection \<open>Pages of the free lists\<close>

lemma order_pages_Cons: "order_pages n (a # as) = mset (block_pages n a) + order_pages n as"
  by (simp add: order_pages_def)

lemma free_page_mset_update:
  assumes "j < length L"
  shows "free_page_mset (L[j := xs]) + order_pages j (L ! j) = free_page_mset L + order_pages j xs"
proof -
  let ?R = "{..< length L} - {j}"
  have "(\<Sum>n \<in> ?R. order_pages n (L[j := xs] ! n)) = (\<Sum>n \<in> ?R. order_pages n (L ! n))"
    by (intro sum.cong) auto
  then show ?thesis
    using assms unfolding free_page_mset_def
    by (simp add: sum.remove [of "{..< length L}" j] ac_simps)
qed

lemma free_page_mset_push:
  "j < length L \<Longrightarrow> free_page_mset (L[j := a # L ! j]) = free_page_mset L + mset (block_pages j a)"
  using free_page_mset_update [of j L "a # L ! j"] by (simp add: order_pages_Cons)

lemma free_page_mset_pop:
  "j < length L \<Longrightarrow> L ! j = a # as \<Longrightarrow>
     free_page_mset L = free_page_mset (L[j := as]) + mset (block_pages j a)"
  using free_page_mset_update [of j L as] by (simp add: order_pages_Cons)

lemma block_pages_first: "page_no a \<in> set (block_pages order a)"
  by (simp add: block_pages_def)

lemma distinct_block_pages: "distinct (block_pages order a)"
  by (simp add: block_pages_def)

lemma block_pages_in_free:
  assumes "order < length L" "a \<in> set (L ! order)" "p \<in> set (block_pages order a)"
  shows "p \<in># free_page_mset L"
proof -
  have "p \<in># order_pages order (L ! order)"
    using assms(2,3) by (auto simp: order_pages_def)
  then show ?thesis
    using assms(1) unfolding free_page_mset_def
    by (subst sum.remove [of _ order]) auto
qed

lemma unat_block: "j \<le> 10 \<Longrightarrow> unat (PAGE_SIZE * 2 ^ j) = 4096 * 2 ^ j"
proof -
  assume "j \<le> 10"
  then have "(2::nat) ^ j \<le> 2 ^ 10" by (rule power_increasing) simp
  then have lt: "4096 * (2::nat) ^ j < 2 ^ 32" by simp
  have "PAGE_SIZE * 2 ^ j = (of_nat (4096 * 2 ^ j) :: u32)"
    by (simp add: PAGE_SIZE_def)
  then have "unat (PAGE_SIZE * 2 ^ j) = (4096 * 2 ^ j) mod 2 ^ 32"
    by (simp only: unat_of_nat) simp
  also have "\<dots> = 4096 * 2 ^ j" using lt by (rule mod_less)
  finally show ?thesis .
qed

lemma block_end_bound:
  assumes "block_ok pages order a" "pages \<le> 120832"
  shows "unat a + 4096 * 2 ^ order \<le> 0x1E000000"
  using assms unfolding block_ok_def by linarith

lemma unat_block_add:
  assumes "block_ok pages (Suc j) a" "pages \<le> 120832" "j \<le> 10"
  shows "unat (a + PAGE_SIZE * 2 ^ j) = unat a + 4096 * 2 ^ j"
proof -
  from block_end_bound [OF assms(1,2)] have "unat a + 4096 * 2 ^ j < 2 ^ 32" by simp
  then show ?thesis
    using unat_block [OF assms(3)] by (simp add: unat_word_ariths)
qed

lemma block_halves:
  assumes ok: "block_ok pages (Suc j) a" "pages \<le> 120832" "j \<le> 10"
  shows "block_ok pages j a" "block_ok pages j (a + PAGE_SIZE * 2 ^ j)"
    and "block_pages (Suc j) a = block_pages j a @ block_pages j (a + PAGE_SIZE * 2 ^ j)"
proof -
  note u = unat_block_add [OF ok]
  show "block_ok pages j a" "block_ok pages j (a + PAGE_SIZE * 2 ^ j)"
    using ok(1) u by (auto simp: block_ok_def)
  have "page_no (a + PAGE_SIZE * 2 ^ j) = page_no a + 2 ^ j"
    using u by (simp add: page_no_def)
  then show "block_pages (Suc j) a = block_pages j a @ block_pages j (a + PAGE_SIZE * 2 ^ j)"
    using upt_add_eq_append [of "page_no a" "page_no a + 2 ^ j" "2 ^ j"]
    by (simp add: block_pages_def mult_2 add.assoc)
qed

subsection \<open>The list operations keep the lists well-formed\<close>

lemma pmm_lists_push:
  assumes wf: "pmm_lists s L" and j: "j < 11"
    and ok: "block_ok (unat (total_pages s)) j a"
    and fresh: "\<And>p. p \<in> set (block_pages j a) \<Longrightarrow> p \<notin># free_page_mset L"
  shows "pmm_lists (pmm_add_to_list a j s) (L[j := a # L ! j])"
proof (rule pmm_listsI)
  note D = pmm_listsD [OF wf]
  have a0: "a \<noteq> 0" using ok by (auto simp: block_ok_def)
  have notin: "a \<notin> set (L ! n)" if "n < 11" for n
    using block_pages_in_free [of n L a "page_no a"] fresh [of "page_no a"] that D(2)
      block_pages_first by auto
  fix n assume n: "n < (11::nat)"
  show "chain (mem (pmm_add_to_list a j s)) (free_lists (pmm_add_to_list a j s) ! n)
          (L[j := a # L ! j] ! n)"
    using n j D(1,2) D(4) [OF n] notin [OF n] a0
    by (cases "n = j") (auto simp: pmm_add_to_list_def chain_upd)
  show "block_ok (unat (total_pages (pmm_add_to_list a j s))) n b"
    if "b \<in> set (L[j := a # L ! j] ! n)" for b
    using that n j D(2) D(5) [OF n] ok
    by (cases "n = j") (auto simp: pmm_add_to_list_def)
next
  note D = pmm_listsD [OF wf]
  fix p
  have "count (mset (block_pages j a)) p \<le> 1"
    using distinct_block_pages [of j a] by (simp add: distinct_count_atmost_1)
  moreover have "count (mset (block_pages j a)) p = 0 \<or> count (free_page_mset L) p = 0"
    using fresh [of p] by (metis count_inI set_mset_mset)
  moreover have "free_page_mset (L[j := a # L ! j]) = free_page_mset L + mset (block_pages j a)"
    by (rule free_page_mset_push) (use j D(2) in simp)
  ultimately show "count (free_page_mset (L[j := a # L ! j])) p \<le> 1"
    using D(6) [of p] by (simp only: count_union) linarith
qed (use pmm_listsD [OF wf] in \<open>auto simp: pmm_add_to_list_def\<close>)

lemma pmm_lists_pop:
  assumes wf: "pmm_lists s L" and j: "j < 11" and h: "free_lists s ! j = a" "a \<noteq> 0"
  obtains as where "L ! j = a # as"
    and "pmm_lists (s\<lparr>free_lists := (free_lists s)[j := mem s a]\<rparr>) (L[j := as])"
    and "block_ok (unat (total_pages s)) j a"
    and "\<And>p. p \<in> set (block_pages j a) \<Longrightarrow> p \<notin># free_page_mset (L[j := as])"
proof -
  note D = pmm_listsD [OF wf]
  from chain_head [OF D(4) [OF j, unfolded h(1)] h(2)] obtain as
    where as: "L ! j = a # as" "chain (mem s) (mem s a) as" by (metis list.sel(3))
  have pop: "free_page_mset L = free_page_mset (L[j := as]) + mset (block_pages j a)"
    by (rule free_page_mset_pop) (use j D(2) as in auto)
  have "pmm_lists (s\<lparr>free_lists := (free_lists s)[j := mem s a]\<rparr>) (L[j := as])"
  proof (rule pmm_listsI)
    fix n assume n: "n < (11::nat)"
    show "chain (mem (s\<lparr>free_lists := (free_lists s)[j := mem s a]\<rparr>))
            (free_lists (s\<lparr>free_lists := (free_lists s)[j := mem s a]\<rparr>) ! n) (L[j := as] ! n)"
      using n j D(1,2) D(4) [OF n] as by (cases "n = j") auto
    show "block_ok (unat (total_pages (s\<lparr>free_lists := (free_lists s)[j := mem s a]\<rparr>))) n b"
      if "b \<in> set (L[j := as] ! n)" for b
      using that n j D(2) D(5) [OF n] as by (cases "n = j") auto
  next
    fix p show "count (free_page_mset (L[j := as])) p \<le> 1"
      using D(6) [of p] pop by simp
  qed (use D in auto)
  moreover have "p \<notin># free_page_mset (L[j := as])" if "p \<in> set (block_pages j a)" for p
  proof -
    have "0 < count (mset (block_pages j a)) p" using that by (simp add: count_greater_zero_iff)
    then show ?thesis using D(6) [of p] pop by (simp only: not_in_iff count_union)
  qed
  ultimately show ?thesis
    using that as(1) D(5) [OF j] as(1) by auto
qed

lemma pmm_add_to_list_frame [simp]:
  "total_pages (pmm_add_to_list a j s) = total_pages s"
  "free_pages (pmm_add_to_list a j s) = free_pages s"
  "page_metadata (pmm_add_to_list a j s) = page_metadata s"
  by (simp_all add: pmm_add_to_list_def)

lemma pmm_split_frame [simp]:
  "total_pages (pmm_split a order j s) = total_pages s"
  "free_pages (pmm_split a order j s) = free_pages s"
  "page_metadata (pmm_split a order j s) = page_metadata s"
  by (induction j arbitrary: s) auto

lemma pmm_split_lists:
  assumes "pmm_lists s L" "order \<le> j" "j \<le> 10" "block_ok (unat (total_pages s)) j a"
    and "\<And>p. p \<in> set (block_pages j a) \<Longrightarrow> p \<notin># free_page_mset L"
  shows "\<exists>L'. pmm_lists (pmm_split a order j s) L' \<and>
           free_page_mset L' + mset (block_pages order a) = free_page_mset L + mset (block_pages j a) \<and>
           block_ok (unat (total_pages s)) order a \<and>
           (\<forall>x. page_no x \<notin> set (block_pages j a) \<longrightarrow> mem (pmm_split a order j s) x = mem s x)"
  using assms
proof (induction j arbitrary: s L)
  case 0
  then show ?case by auto
next
  case (Suc j)
  show ?case
  proof (cases "order = Suc j")
    case True
    with Suc.prems show ?thesis by auto
  next
    case False
    with Suc.prems(2) have le: "order \<le> j" by simp
    let ?b = "a + PAGE_SIZE * 2 ^ j"
    let ?s = "pmm_add_to_list ?b j s" and ?L = "L[j := ?b # L ! j]"
    note D = pmm_listsD [OF Suc.prems(1)]
    have j: "j \<le> 10" using Suc.prems(3) by simp
    note H = block_halves [OF Suc.prems(4) D(3) j]
    have fresh: "p \<notin># free_page_mset L" if "p \<in> set (block_pages j a) \<or> p \<in> set (block_pages j ?b)" for p
      using Suc.prems(5) [of p] that H(3) by auto
    have dist: "p \<notin> set (block_pages j ?b)" if "p \<in> set (block_pages j a)" for p
      using that H(3) distinct_upt [of "page_no a" "page_no a + 2 ^ Suc j"]
      by (metis block_pages_def disjoint_iff distinct_append)
    have L': "pmm_lists ?s ?L"
      by (rule pmm_lists_push [OF Suc.prems(1) _ H(2)]) (use j fresh in auto)
    have push: "free_page_mset ?L = free_page_mset L + mset (block_pages j ?b)"
      by (rule free_page_mset_push) (use j D(2) in simp)
    have "\<exists>L'. pmm_lists (pmm_split a order j ?s) L' \<and>
        free_page_mset L' + mset (block_pages order a) = free_page_mset ?L + mset (block_pages j a) \<and>
        block_ok (unat (total_pages ?s)) order a \<and>
        (\<forall>x. page_no x \<notin> set (block_pages j a) \<longrightarrow> mem (pmm_split a order j ?s) x = mem ?s x)"
      by (rule Suc.IH [OF L' le j]) (use H(1) fresh dist push in auto)
    then obtain L' where "pmm_lists (pmm_split a order j ?s) L'"
      "free_page_mset L' + mset (block_pages order a) = free_page_mset ?L + mset (block_pages j a)"
      "block_ok (unat (total_pages s)) order a"
      "\<forall>x. page_no x \<notin> set (block_pages j a) \<longrightarrow> mem (pmm_split a order j ?s) x = mem ?s x"
      by auto
    moreover have "mem ?s x = mem s x" if "page_no x \<notin> set (block_pages j ?b)" for x
      using that block_pages_first [of ?b j] by (auto simp: pmm_add_to_list_def)
    ultimately show ?thesis
      using push H(3) le by (intro exI [of _ L']) auto
  qed
qed

section \<open>Allocation and freeing\<close>

lemma pmm_first_list_Some:
  assumes "pmm_first_list order s = Some j" "length (free_lists s) = 11"
  shows "order \<le> j" "j \<le> 10" "free_lists s ! j \<noteq> 0"
    "\<And>i. order \<le> i \<Longrightarrow> i < j \<Longrightarrow> free_lists s ! i = 0"
proof -
  from assms(1) obtain i where i: "j = order + i"
    and f: "first_idx (\<lambda>h. h \<noteq> 0) (drop order (take 11 (free_lists s))) = Some i"
    by (auto simp: pmm_first_list_def PMM_MAX_ORDER_def)
  from first_idx_SomeD [OF f] i assms(2)
  show "order \<le> j" "j \<le> 10" "free_lists s ! j \<noteq> 0" by auto
  show "free_lists s ! n = 0" if "order \<le> n" "n < j" for n
    using first_idx_SomeD [OF f] i assms(2) that by (auto dest!: spec [of _ "n - order"])
qed

lemma pmm_first_list_None:
  assumes "pmm_first_list order s = None" "length (free_lists s) = 11" "order \<le> i" "i \<le> 10"
  shows "free_lists s ! i = 0"
proof -
  have "free_lists s ! i \<in> set (drop order (free_lists s))"
    using assms(2-4) by (auto simp: set_conv_nth intro!: exI [of _ "i - order"])
  then show ?thesis
    using assms(1,2) by (auto simp: pmm_first_list_def PMM_MAX_ORDER_def first_idx_None)
qed

lemma pmm_lists_cong:
  "pmm_lists s L \<Longrightarrow> free_lists s' = free_lists s \<Longrightarrow> mem s' = mem s \<Longrightarrow>
     total_pages s' = total_pages s \<Longrightarrow> pmm_lists s' L"
  by (simp add: pmm_lists_def)

lemma pg_idx_ok:
  assumes "block_ok pages order a" "pages \<le> 120832"
  shows "pg_idx a < PMM_METADATA_SIZE" "unat (pg_idx a) = page_no a - 2048"
proof -
  have 1: "unat (a - PMM_START_ADDR) = unat a - 0x800000"
    using assms(1) by (subst unat_sub) (auto simp: block_ok_def PMM_START_ADDR_def word_le_nat_alt)
  then show u: "unat (pg_idx a) = page_no a - 2048"
    by (simp add: pg_idx_def page_no_def unat_div PAGE_SIZE_def)
  have "unat a < 0x1E000000"
    using block_end_bound [OF assms] zero_less_power [of "2 :: nat" order] by linarith
  then have "unat (pg_idx a) < 131072" using u by (simp add: page_no_def)
  then show "pg_idx a < PMM_METADATA_SIZE"
    by (simp add: word_less_nat_alt PMM_METADATA_SIZE_def)
qed

lemma order_roundtrip:
  "0 \<le> order \<Longrightarrow> order \<le> 10 \<Longrightarrow>
     uint ((word_of_int order OR PAGE_DIRTY) AND PAGE_ORDER_MASK) = order \<and>
     (word_of_int order OR PAGE_DIRTY) AND PAGE_DIRTY \<noteq> 0"
proof -
  assume "0 \<le> order" "order \<le> 10"
  then have "order \<in> {0, 1, 2, 3, 4, 5, 6, 7, 8, 9, 10}"
    by (simp only: insert_iff empty_iff) presburger
  then show ?thesis by (auto simp: PAGE_DIRTY_def PAGE_ORDER_MASK_def)
qed

lemma size_block_pages: "length (block_pages order a) = 2 ^ order"
  by (simp add: block_pages_def)

lemma size_free_pages_bound:
  assumes "pmm_lists s L"
  shows "size (free_page_mset L) \<le> unat (total_pages s)"
proof -
  note D = pmm_listsD [OF assms]
  have sub: "set_mset (free_page_mset L) \<subseteq> {2048 ..< 2048 + unat (total_pages s)}"
  proof
    fix p assume "p \<in># free_page_mset L"
    then obtain n a where n: "n < 11" "a \<in> set (L ! n)" and p: "p \<in> set (block_pages n a)"
      using D(2) by (auto simp: free_page_mset_def order_pages_def set_mset_sum)
    from D(5) [OF n] p show "p \<in> {2048 ..< 2048 + unat (total_pages s)}"
      by (auto simp: block_ok_def block_pages_def page_no_def elim!: dvdE)
  qed
  have "free_page_mset L = mset_set (set_mset (free_page_mset L))"
    by (rule multiset_eqI) (metis D(6) count_mset_set(1,3) count_eq_zero_iff finite_set_mset le_neq_implies_less less_one)
  then have "size (free_page_mset L) = card (set_mset (free_page_mset L))"
    by (metis size_mset_set)
  also have "\<dots> \<le> card {2048 ..< 2048 + unat (total_pages s)}"
    by (rule card_mono [OF _ sub]) simp
  finally show ?thesis by simp
qed

text \<open>A successful allocation: the block handed out is a whole block of managed memory, its
  pages leave the free pages, nothing else does, and memory outside the free pages is
  untouched.\<close>

lemma pmm_alloc_page_Some:
  assumes wf: "pmm_wf s L" and ord: "0 \<le> order" "order \<le> 10"
    and r: "pmm_alloc_page order s = (addr, s')" "addr \<noteq> 0"
  shows "\<exists>L'. pmm_wf s' L' \<and> free_page_mset L = free_page_mset L' + mset (block_pages (nat order) addr) \<and>
      block_ok (unat (total_pages s)) (nat order) addr \<and> total_pages s' = total_pages s \<and>
      (\<forall>x. page_no x \<notin># free_page_mset L \<longrightarrow> mem s' x = mem s x) \<and>
      page_metadata s' = (page_metadata s)(pg_idx addr := word_of_int order OR PAGE_DIRTY)"
proof -
  from wf have l: "pmm_lists s L" and fp: "unat (free_pages s) = size (free_page_mset L)"
    by (auto simp: pmm_wf_def)
  note D = pmm_listsD [OF l]
  from r ord obtain j where j: "pmm_first_list (nat order) s = Some j"
    by (auto simp: pmm_alloc_page_def PMM_MAX_ORDER_def split: option.splits if_splits)
  note J = pmm_first_list_Some [OF j D(1)]
  have addr: "addr = free_lists s ! j"
    using r(1) ord j by (simp add: pmm_alloc_page_def PMM_MAX_ORDER_def Let_def split: if_splits)
  define s1 where "s1 = s\<lparr>free_lists := (free_lists s)[j := mem s addr]\<rparr>"
  from J(2) have j11: "j < 11" by simp
  obtain as where as: "L ! j = addr # as" and l1: "pmm_lists s1 (L[j := as])"
    and ok: "block_ok (unat (total_pages s)) j addr"
    and fresh: "\<And>p. p \<in> set (block_pages j addr) \<Longrightarrow> p \<notin># free_page_mset (L[j := as])"
    using pmm_lists_pop [OF l j11 addr [symmetric] r(2)] unfolding s1_def by metis
  have pop: "free_page_mset L = free_page_mset (L[j := as]) + mset (block_pages j addr)"
    by (rule free_page_mset_pop) (use j11 D(2) as in auto)
  define s2 where "s2 = pmm_split addr (nat order) j s1"
  have "nat order \<le> j" "block_ok (unat (total_pages s1)) j addr"
    using J(1) ok by (auto simp: s1_def)
  from pmm_split_lists [OF l1 this(1) J(2) this(2) fresh] obtain L' where L':
    "pmm_lists s2 L'" "free_page_mset L' + mset (block_pages (nat order) addr) = free_page_mset L"
    "block_ok (unat (total_pages s)) (nat order) addr"
    "\<forall>x. page_no x \<notin> set (block_pages j addr) \<longrightarrow> mem s2 x = mem s1 x"
    using pop by (auto simp: s1_def s2_def)
  note meta = pg_idx_ok(1) [OF L'(3) D(3)]
  have s': "s' = s2\<lparr>page_metadata := (page_metadata s2)(pg_idx addr := word_of_int order OR PAGE_DIRTY),
                    free_pages := free_pages s2 - 2 ^ nat order\<rparr>"
    using r(1) ord j meta addr
    by (simp add: pmm_alloc_page_def PMM_MAX_ORDER_def Let_def s2_def s1_def)
  have sz: "size (free_page_mset L) = size (free_page_mset L') + 2 ^ nat order"
    using arg_cong [OF L'(2), of size] by (simp add: size_block_pages)
  have "pmm_wf s' L'"
    unfolding pmm_wf_def
  proof
    show "pmm_lists s' L'" by (rule pmm_lists_cong [OF L'(1)]) (auto simp: s')
    have p: "unat (2 ^ nat order :: u32) = 2 ^ nat order"
      using ord by (intro unat_pow2) simp
    have "unat (free_pages s - 2 ^ nat order) = unat (free_pages s) - 2 ^ nat order"
      using fp sz p by (subst unat_sub) (auto simp: word_le_nat_alt)
    then show "unat (free_pages s') = size (free_page_mset L')"
      using fp sz by (simp add: s' s2_def s1_def)
  qed
  moreover have "mem s' x = mem s x" if "page_no x \<notin># free_page_mset L" for x
    using that pop L'(4) by (auto simp: s' s1_def)
  ultimately show ?thesis
    using L' by (intro exI [of _ L']) (auto simp: s' s2_def s1_def)
qed

lemma pmm_alloc_page_None:
  assumes wf: "pmm_wf s L" and ord: "0 \<le> order" "order \<le> 10"
    and r: "pmm_alloc_page order s = (0, s')"
  shows "s' = s \<and> (\<forall>j. nat order \<le> j \<longrightarrow> j \<le> 10 \<longrightarrow> L ! j = [])"
proof -
  from wf have l: "pmm_lists s L" by (simp add: pmm_wf_def)
  note D = pmm_listsD [OF l]
  show ?thesis
  proof (cases "pmm_first_list (nat order) s")
    case None
    have "L ! j = []" if "nat order \<le> j" "j \<le> 10" for j
      using pmm_first_list_None [OF None D(1) that] D(4) [of j] that by (simp add: chain_head_0)
    then show ?thesis
      using r ord None by (auto simp: pmm_alloc_page_def PMM_MAX_ORDER_def)
  next
    case (Some j)
    then show ?thesis
      using r ord pmm_first_list_Some [OF Some D(1)]
      by (auto simp: pmm_alloc_page_def PMM_MAX_ORDER_def Let_def split: if_splits)
  qed
qed

text \<open>Freeing a block none of whose pages is free.\<close>

lemma pmm_free_page_wf:
  assumes wf: "pmm_wf s L" and ord: "0 \<le> order" "order \<le> 10"
    and ok: "block_ok (unat (total_pages s)) (nat order) a"
    and fresh: "\<And>p. p \<in> set (block_pages (nat order) a) \<Longrightarrow> p \<notin># free_page_mset L"
  shows "pmm_wf (pmm_free_page a order s) (L[nat order := a # L ! nat order])"
    and "free_page_mset (L[nat order := a # L ! nat order]) =
           free_page_mset L + mset (block_pages (nat order) a)"
    and "total_pages (pmm_free_page a order s) = total_pages s"
    and "x \<noteq> a \<Longrightarrow> mem (pmm_free_page a order s) x = mem s x"
    and "page_metadata (pmm_free_page a order s) = (page_metadata s)(pg_idx a := 0)"
proof -
  from wf have l: "pmm_lists s L" and fp: "unat (free_pages s) = size (free_page_mset L)"
    by (auto simp: pmm_wf_def)
  note D = pmm_listsD [OF l]
  have n: "nat order < 11" using ord by simp
  have a0: "a \<noteq> 0" using ok by (auto simp: block_ok_def)
  note meta = pg_idx_ok(1) [OF ok D(3)]
  let ?L = "L[nat order := a # L ! nat order]"
  let ?s1 = "s\<lparr>page_metadata := (page_metadata s)(pg_idx a := 0)\<rparr>"
  have eq: "pmm_free_page a order s =
      (pmm_add_to_list a (nat order) ?s1)\<lparr>free_pages := free_pages s + 2 ^ nat order\<rparr>"
    using ord a0 meta by (simp add: pmm_free_page_def PMM_MAX_ORDER_def Let_def)
  show push: "free_page_mset ?L = free_page_mset L + mset (block_pages (nat order) a)"
    by (rule free_page_mset_push) (use n D(2) in simp)
  have l1: "pmm_lists ?s1 L" by (rule pmm_lists_cong [OF l]) auto
  have l2: "pmm_lists (pmm_add_to_list a (nat order) ?s1) ?L"
    by (rule pmm_lists_push [OF l1 n]) (use ok fresh in auto)
  have l': "pmm_lists (pmm_free_page a order s) ?L"
    unfolding eq by (rule pmm_lists_cong [OF l2]) auto
  have p: "unat (2 ^ nat order :: u32) = 2 ^ nat order"
    using ord by (intro unat_pow2) simp
  have sz: "size (free_page_mset ?L) = unat (free_pages s) + 2 ^ nat order"
    using push fp by (simp add: size_block_pages)
  have "size (free_page_mset ?L) < 2 ^ 32"
    using size_free_pages_bound [OF l'] D(3) by (simp add: eq)
  then have "unat (free_pages s + 2 ^ nat order) = size (free_page_mset ?L)"
    using sz p by (simp add: unat_word_ariths)
  with l' show "pmm_wf (pmm_free_page a order s) ?L" by (simp add: pmm_wf_def eq)
  show "total_pages (pmm_free_page a order s) = total_pages s" by (simp add: eq)
  show "x \<noteq> a \<Longrightarrow> mem (pmm_free_page a order s) x = mem s x"
    by (simp add: eq pmm_add_to_list_def)
  show "page_metadata (pmm_free_page a order s) = (page_metadata s)(pg_idx a := 0)"
    by (simp add: eq)
qed

section \<open>Initialisation\<close>

text \<open>The state between two steps of \<open>pmm_init\<close>: everything below \<open>current\<close> is on a list,
  nothing above it is.\<close>

definition init_state :: "u32 \<Rightarrow> u32 \<Rightarrow> pmm \<Rightarrow> u32 list list \<Rightarrow> bool" where
  "init_state e cur s L \<longleftrightarrow>
     pmm_lists s L \<and> free_page_mset L = mset [2048 ..< page_no cur] \<and> 4096 dvd unat cur \<and>
     0x800000 \<le> unat cur \<and> unat cur \<le> unat e \<and>
     unat e = 0x800000 + 4096 * unat (total_pages s)"

lemma init_state_guard:
  assumes "init_state e cur s L" "n \<le> 10"
  shows "unat (cur + PAGE_SIZE * 2 ^ n) = unat cur + 4096 * 2 ^ n"
    "cur + PAGE_SIZE * 2 ^ n \<le> e \<longleftrightarrow> unat cur + 4096 * 2 ^ n \<le> unat e"
proof -
  have "(2::nat) ^ n \<le> 2 ^ 10" using assms(2) by (rule power_increasing) simp
  moreover have "unat (total_pages s) \<le> 120832"
    using assms(1) pmm_listsD(3) by (auto simp: init_state_def)
  ultimately have "unat cur + 4096 * 2 ^ n < 2 ^ 32"
    using assms(1) by (simp add: init_state_def)
  then show u: "unat (cur + PAGE_SIZE * 2 ^ n) = unat cur + 4096 * 2 ^ n"
    using unat_block [OF assms(2)] by (simp add: unat_word_ariths)
  show "cur + PAGE_SIZE * 2 ^ n \<le> e \<longleftrightarrow> unat cur + 4096 * 2 ^ n \<le> unat e"
    by (simp add: word_le_nat_alt u)
qed

lemma init_state_step:
  assumes st: "init_state e cur s L" "n \<le> 10" "cur + PAGE_SIZE * 2 ^ n \<le> e"
  shows "init_state e (cur + PAGE_SIZE * 2 ^ n) (pmm_add_to_list cur n s) (L[n := cur # L ! n])"
proof -
  note g = init_state_guard [OF st(1,2)]
  note S = st(1) [unfolded init_state_def]
  have len: "length L = 11" using S pmm_listsD(2) by blast
  have ok: "block_ok (unat (total_pages s)) n cur"
    using S st(3) g by (auto simp: block_ok_def)
  have pn: "page_no (cur + PAGE_SIZE * 2 ^ n) = page_no cur + 2 ^ n"
    using g(1) by (simp add: page_no_def)
  have l: "pmm_lists (pmm_add_to_list cur n s) (L[n := cur # L ! n])"
  proof (rule pmm_lists_push)
    show "pmm_lists s L" "block_ok (unat (total_pages s)) n cur" using S ok by blast+
    show "n < 11" using st(2) by simp
    show "p \<notin># free_page_mset L" if "p \<in> set (block_pages n cur)" for p
      using that S by (simp add: block_pages_def)
  qed
  have "0x800000 \<le> unat cur" using S by blast
  then have "2048 \<le> page_no cur" by (simp add: page_no_def)
  then have up: "[2048 ..< page_no cur + 2 ^ n] = [2048 ..< page_no cur] @ block_pages n cur"
    unfolding block_pages_def by (rule upt_add_eq_append)
  have "free_page_mset (L[n := cur # L ! n]) = mset [2048 ..< page_no (cur + PAGE_SIZE * 2 ^ n)]"
    using S st(2) len by (simp only: free_page_mset_push pn up mset_append)
  with l S g st(3) show ?thesis by (auto simp: init_state_def)
qed

lemma pmm_init_max_total:
  assumes "init_state e cur s L"
  shows "\<exists>cur' s' L'. pmm_init_max e cur s = Some (cur', s') \<and> init_state e cur' s' L' \<and>
           unat e < unat cur' + 4096 * 2 ^ 10 \<and> total_pages s' = total_pages s \<and> free_pages s' = free_pages s \<and>
           page_metadata s' = page_metadata s"
  using assms
proof (induction "unat e - unat cur" arbitrary: cur s L rule: less_induct)
  case less
  let ?c = "cur + PAGE_SIZE * 2 ^ 10" and ?s = "pmm_add_to_list cur 10 s"
  note g = init_state_guard [OF less.prems, of 10]
  show ?case
  proof (cases "?c \<le> e")
    case True
    have st: "init_state e ?c ?s (L[10 := cur # L ! 10])"
      by (rule init_state_step [OF less.prems _ True]) simp
    have "unat e - unat ?c < unat e - unat cur"
      using g True by (simp add: word_le_nat_alt)
    from less.hyps [OF this st] True show ?thesis
      by (subst pmm_init_max.simps) (simp add: PMM_MAX_ORDER_def)
  next
    case False
    with g have "unat e < unat cur + 4096 * 2 ^ 10" by simp
    with False less.prems show ?thesis
      by (subst pmm_init_max.simps) (auto simp: PMM_MAX_ORDER_def)
  qed
qed

lemma pmm_init_rest_total:
  assumes "init_state e cur s L" "n \<le> 10" "unat e < unat cur + 4096 * 2 ^ n"
  shows "\<exists>cur' s' L'. pmm_init_rest n e cur s = (cur', s') \<and> init_state e cur' s' L' \<and>
           unat cur' = unat e \<and> total_pages s' = total_pages s \<and> free_pages s' = free_pages s \<and>
           page_metadata s' = page_metadata s"
  using assms
proof (induction n arbitrary: cur s L)
  case 0
  have "4096 dvd unat e" "4096 dvd unat cur" "unat cur \<le> unat e"
    using 0(1) by (auto simp: init_state_def)
  with 0(3) have "unat cur = unat e" by (auto elim!: dvdE)
  with 0 show ?case by auto
next
  case (Suc n)
  have n: "n \<le> 10" using Suc.prems(2) by simp
  note g = init_state_guard [OF Suc.prems(1) n]
  show ?case
  proof (cases "cur + PAGE_SIZE * 2 ^ n \<le> e")
    case True
    have "unat e < unat (cur + PAGE_SIZE * 2 ^ n) + 4096 * 2 ^ n"
      using Suc.prems(3) g(1) by simp
    from Suc.IH [OF init_state_step [OF Suc.prems(1) n True] n this] True show ?thesis by simp
  next
    case False
    then have "unat e < unat cur + 4096 * 2 ^ n" using g by simp
    from Suc.IH [OF Suc.prems(1) n this] False show ?thesis by simp
  qed
qed

lemma pmm_end_addr_bounds:
  "unat (pmm_end_addr m) \<le> 0x1E000000" "4096 dvd unat (pmm_end_addr m)"
proof -
  have al: "4096 dvd unat (m AND NOT (PAGE_SIZE - 1))"
    using and_mask_dvd_nat [of 12 "m AND NOT (PAGE_SIZE - 1)"]
    by (simp add: PAGE_SIZE_def mask_eq_exp_minus_1 ac_simps flip: and.assoc)
  show "unat (pmm_end_addr m) \<le> 0x1E000000"
    by (auto simp: pmm_end_addr_def PMM_END_ADDR_def word_less_nat_alt Let_def)
  show "4096 dvd unat (pmm_end_addr m)"
    using al by (auto simp: pmm_end_addr_def PMM_END_ADDR_def Let_def)
qed

lemma pmm_init_total:
  "\<exists>s L. pmm_init mem_size s0 = Some s \<and> pmm_wf s L \<and>
     free_page_mset L = mset [2048 ..< 2048 + unat (total_pages s)] \<and>
     unat (total_pages s) = (unat (pmm_end_addr mem_size) - 0x800000) div 4096 \<and>
     page_metadata s = (\<lambda>_. 0)"
proof -
  let ?e = "pmm_end_addr mem_size"
  define s where "s = s0\<lparr>free_lists := replicate (Suc 10) 0, total_pages := 0, free_pages := 0, page_metadata := (\<lambda>_. 0)\<rparr>"
  define L :: "u32 list list" where "L = replicate 11 []"
  have fpm: "free_page_mset L = {#}" by (simp add: L_def free_page_mset_def order_pages_def)
  note e = pmm_end_addr_bounds [of mem_size]
  have init: "pmm_init mem_size s0 = (if ?e \<le> PMM_START_ADDR then Some s
     else case pmm_init_max ?e PMM_START_ADDR
            (s\<lparr>total_pages := (?e - PMM_START_ADDR) div PAGE_SIZE, free_pages := (?e - PMM_START_ADDR) div PAGE_SIZE\<rparr>) of
       None \<Rightarrow> None | Some (c, t) \<Rightarrow> Some (snd (pmm_init_rest 10 ?e c t)))"
    unfolding pmm_init_def s_def PMM_MAX_ORDER_def Let_def by simp
  show ?thesis
  proof (cases "?e \<le> PMM_START_ADDR")
    case True
    have "pmm_lists s L"
      by (rule pmm_listsI) (auto simp: s_def L_def fpm [unfolded L_def])
    then have "pmm_wf s L" by (simp add: pmm_wf_def fpm s_def)
    with True init fpm show ?thesis
      by (intro exI [of _ s] exI [of _ L]) (auto simp: s_def word_le_nat_alt PMM_START_ADDR_def)
  next
    case False
    define n where "n = (?e - PMM_START_ADDR) div PAGE_SIZE"
    define t where "t = s\<lparr>total_pages := n, free_pages := n\<rparr>"
    have sub: "unat (?e - PMM_START_ADDR) = unat ?e - 0x800000"
      using False by (subst unat_sub) (auto simp: PMM_START_ADDR_def)
    then have n: "unat n = (unat ?e - 0x800000) div 4096"
      by (simp add: n_def unat_div PAGE_SIZE_def)
    have gt: "0x800000 < unat ?e" using False by (simp add: word_le_nat_alt PMM_START_ADDR_def)
    have n_e: "unat ?e = 0x800000 + 4096 * unat n"
      using n e(2) gt by (auto elim!: dvdE)
    have lt: "pmm_lists t L"
      by (rule pmm_listsI) (use n_e e(1) in \<open>auto simp: t_def s_def L_def fpm [unfolded L_def]\<close>)
    have "init_state ?e PMM_START_ADDR t L"
      using lt n_e by (simp add: init_state_def fpm PMM_START_ADDR_def page_no_def t_def)
    from pmm_init_max_total [OF this] obtain c1 s1 L1 where
      1: "pmm_init_max ?e PMM_START_ADDR t = Some (c1, s1)" "init_state ?e c1 s1 L1"
        "unat ?e < unat c1 + 4096 * 2 ^ 10" "total_pages s1 = n" "free_pages s1 = n" "page_metadata s1 = (\<lambda>_. 0)"
      by (auto simp: t_def s_def)
    from pmm_init_rest_total [OF 1(2) _ 1(3)] obtain c2 s2 L2 where
      2: "pmm_init_rest 10 ?e c1 s1 = (c2, s2)" "init_state ?e c2 s2 L2" "unat c2 = unat ?e"
        "total_pages s2 = n" "free_pages s2 = n" "page_metadata s2 = (\<lambda>_. 0)"
      using 1 by auto
    have "page_no c2 = 2048 + unat n" using 2(3) n_e by (simp add: page_no_def)
    with 2 have "free_page_mset L2 = mset [2048 ..< 2048 + unat n]" "pmm_lists s2 L2"
      by (auto simp: init_state_def)
    with 2 have "pmm_wf s2 L2" by (simp add: pmm_wf_def)
    with False init 1 2 n \<open>free_page_mset L2 = _\<close> show ?thesis
      by (intro exI [of _ s2] exI [of _ L2]) (auto simp: t_def n_def)
  qed
qed

section \<open>The page-allocator interface\<close>

text \<open>What the allocator promises the code above it (slab caches, page tables, large
  \<open>kmalloc\<close> blocks): \<open>wf s F\<close> is a state whose free pages are \<open>F\<close>, \<open>own s n a\<close> that \<open>a\<close> is a
  block of order \<open>n\<close> of the managed memory.\<close>

locale page_allocator =
  fixes alloc :: "int \<Rightarrow> 's \<Rightarrow> u32 \<times> 's"
    and free :: "u32 \<Rightarrow> int \<Rightarrow> 's \<Rightarrow> 's"
    and wf :: "'s \<Rightarrow> nat multiset \<Rightarrow> bool"
    and own :: "'s \<Rightarrow> int \<Rightarrow> u32 \<Rightarrow> bool"
  assumes wf_distinct: "wf s F \<Longrightarrow> count F p \<le> 1"
    and alloc_ok: "\<lbrakk>wf s F; alloc n s = (a, s'); a \<noteq> 0\<rbrakk> \<Longrightarrow>
      own s n a \<and> own s' = own s \<and> (\<exists>F'. wf s' F' \<and> F = F' + mset (block_pages (nat n) a))"
    and free_ok: "\<lbrakk>wf s F; own s n a; \<And>p. p \<in> set (block_pages (nat n) a) \<Longrightarrow> p \<notin># F\<rbrakk> \<Longrightarrow>
      wf (free a n s) (F + mset (block_pages (nat n) a)) \<and> own (free a n s) = own s"
begin

lemma alloc_fresh:
  assumes "wf s F" "alloc n s = (a, s')" "a \<noteq> 0"
  obtains F' where "wf s' F'" "F = F' + mset (block_pages (nat n) a)"
    "\<And>p. p \<in> set (block_pages (nat n) a) \<Longrightarrow> p \<notin># F'"
proof -
  from alloc_ok [OF assms] obtain F' where F': "wf s' F'" "F = F' + mset (block_pages (nat n) a)"
    by blast
  have "p \<notin># F'" if "p \<in> set (block_pages (nat n) a)" for p
  proof -
    have "0 < count (mset (block_pages (nat n) a)) p" using that by (simp add: count_greater_zero_iff)
    then show ?thesis
      using wf_distinct [OF assms(1), of p] unfolding F'(2) by (simp only: not_in_iff count_union)
  qed
  with F' show ?thesis by (rule that)
qed

lemma alloc_alloc_disjoint:
  assumes "wf s F" "alloc n s = (a, s')" "a \<noteq> 0" "alloc m s' = (b, s'')" "b \<noteq> 0"
  shows "set (block_pages (nat n) a) \<inter> set (block_pages (nat m) b) = {}"
proof -
  obtain F' where F': "wf s' F'" "\<And>p. p \<in> set (block_pages (nat n) a) \<Longrightarrow> p \<notin># F'"
    using alloc_fresh [OF assms(1-3)] by metis
  from alloc_ok [OF F'(1) assms(4,5)] obtain F'' where "F' = F'' + mset (block_pages (nat m) b)"
    by blast
  with F'(2) show ?thesis by fastforce
qed

lemma alloc_then_free:
  assumes "wf s F" "alloc n s = (a, s')" "a \<noteq> 0"
  shows "wf (free a n s') F"
proof -
  obtain F' where F': "wf s' F'" "F = F' + mset (block_pages (nat n) a)"
    "\<And>p. p \<in> set (block_pages (nat n) a) \<Longrightarrow> p \<notin># F'"
    using alloc_fresh [OF assms] by metis
  have "own s' n a" using alloc_ok [OF assms] by simp
  from free_ok [OF F'(1) this F'(3)] F'(2) show ?thesis by simp
qed

end

definition pmm_free_is :: "pmm \<Rightarrow> nat multiset \<Rightarrow> bool" where
  "pmm_free_is s F \<longleftrightarrow> (\<exists>L. pmm_wf s L \<and> free_page_mset L = F)"

definition pmm_block :: "pmm \<Rightarrow> int \<Rightarrow> u32 \<Rightarrow> bool" where
  "pmm_block s n a \<longleftrightarrow> 0 \<le> n \<and> n \<le> 10 \<and> block_ok (unat (total_pages s)) (nat n) a"

lemma pmm_alloc_in_range: "pmm_alloc_page n s = (a, s') \<Longrightarrow> a \<noteq> 0 \<Longrightarrow> 0 \<le> n \<and> n \<le> 10"
  by (auto simp: pmm_alloc_page_def PMM_MAX_ORDER_def split: if_splits)

interpretation pmm: page_allocator pmm_alloc_page pmm_free_page pmm_free_is pmm_block
proof
  fix s F p assume "pmm_free_is s F"
  then show "count F p \<le> 1" unfolding pmm_free_is_def pmm_wf_def using pmm_listsD(6) by blast
next
  fix s F n a s' assume wf: "pmm_free_is s F" and r: "pmm_alloc_page n s = (a, s')" "a \<noteq> 0"
  from wf obtain L where L: "pmm_wf s L" "free_page_mset L = F" by (auto simp: pmm_free_is_def)
  from pmm_alloc_in_range [OF r] have n: "0 \<le> n" "n \<le> 10" by auto
  from pmm_alloc_page_Some [OF L(1) n r] L(2) n
  show "pmm_block s n a \<and> pmm_block s' = pmm_block s \<and>
      (\<exists>F'. pmm_free_is s' F' \<and> F = F' + mset (block_pages (nat n) a))"
    by (auto simp: pmm_free_is_def pmm_block_def fun_eq_iff)
next
  fix s F n a
  assume wf: "pmm_free_is s F" and own: "pmm_block s n a"
    and fresh: "\<And>p. p \<in> set (block_pages (nat n) a) \<Longrightarrow> p \<notin># F"
  from wf obtain L where L: "pmm_wf s L" "free_page_mset L = F" by (auto simp: pmm_free_is_def)
  from own have n: "0 \<le> n" "n \<le> 10" "block_ok (unat (total_pages s)) (nat n) a"
    by (auto simp: pmm_block_def)
  have fresh': "p \<notin># free_page_mset L" if "p \<in> set (block_pages (nat n) a)" for p
    using fresh [OF that] L(2) by simp
  note P = pmm_free_page_wf [OF L(1) n fresh']
  from P(1,2,3) L(2)
  show "pmm_free_is (pmm_free_page a n s) (F + mset (block_pages (nat n) a)) \<and>
      pmm_block (pmm_free_page a n s) = pmm_block s"
    by (auto simp: pmm_free_is_def pmm_block_def fun_eq_iff)
qed

section \<open>Runs of the allocator\<close>

text \<open>A run of the kernel against the allocator: allocations, frees of blocks that are held,
  and aligned writes of the holders into their own blocks. \<open>H\<close> is the multiset of held blocks.\<close>

inductive pmm_run :: "pmm \<Rightarrow> (u32 \<times> int) multiset \<Rightarrow> bool" where
  init: "pmm_init mem_size s0 = Some s \<Longrightarrow> pmm_run s {#}"
| alloc: "pmm_run s H \<Longrightarrow> pmm_alloc_page n s = (a, s') \<Longrightarrow> a \<noteq> 0 \<Longrightarrow> pmm_run s' (add_mset (a, n) H)"
| alloc_fail: "pmm_run s H \<Longrightarrow> pmm_alloc_page n s = (0, s') \<Longrightarrow> pmm_run s' H"
| free: "pmm_run s (add_mset (a, n) H) \<Longrightarrow> pmm_run (pmm_free_page a n s) H"
| store: "pmm_run s H \<Longrightarrow> (a, n) \<in># H \<Longrightarrow> page_no x \<in> set (block_pages (nat n) a) \<Longrightarrow>
    4 dvd unat x \<Longrightarrow> pmm_run (s\<lparr>mem := (mem s)(x := v)\<rparr>) H"

definition held_pages :: "(u32 \<times> int) multiset \<Rightarrow> nat multiset" where
  "held_pages H = (\<Sum>(a, n) \<in># H. mset (block_pages (nat n) a))"

lemma held_pages_add [simp]:
  "held_pages {#} = {#}"
  "held_pages (add_mset (a, n) H) = mset (block_pages (nat n) a) + held_pages H"
  by (simp_all add: held_pages_def)

lemma held_pagesI: "(a, n) \<in># H \<Longrightarrow> p \<in> set (block_pages (nat n) a) \<Longrightarrow> p \<in># held_pages H"
  by (auto simp: held_pages_def intro!: bexI [of _ "(a, n)"])

definition managed_pages :: "pmm \<Rightarrow> nat multiset" where
  "managed_pages s = mset [2048 ..< 2048 + unat (total_pages s)]"

definition pmm_run_inv :: "pmm \<Rightarrow> (u32 \<times> int) multiset \<Rightarrow> bool" where
  "pmm_run_inv s H \<longleftrightarrow>
     (\<exists>L. pmm_wf s L \<and> free_page_mset L + held_pages H = managed_pages s) \<and>
     (\<forall>a n. (a, n) \<in># H \<longrightarrow> pmm_block s n a \<and> pmm_get_order a s = n)"

lemma pmm_run_invI:
  assumes "pmm_wf s L" "free_page_mset L + held_pages H = managed_pages s"
    and "\<And>a n. (a, n) \<in># H \<Longrightarrow> pmm_block s n a" "\<And>a n. (a, n) \<in># H \<Longrightarrow> pmm_get_order a s = n"
  shows "pmm_run_inv s H"
  using assms unfolding pmm_run_inv_def by blast

lemma pmm_run_invE:
  assumes "pmm_run_inv s H"
  obtains L where "pmm_wf s L" "free_page_mset L + held_pages H = managed_pages s"
    "\<And>a n. (a, n) \<in># H \<Longrightarrow> pmm_block s n a" "\<And>a n. (a, n) \<in># H \<Longrightarrow> pmm_get_order a s = n"
  using assms unfolding pmm_run_inv_def by blast

lemma managed_pages_once: "count (managed_pages s) p \<le> 1"
  unfolding managed_pages_def
  using distinct_upt [of 2048 "2048 + unat (total_pages s)"]
  by (simp only: distinct_count_atmost_1 count_mset_0_iff split: if_split) simp

lemma free_held_disjoint:
  assumes "F + G = managed_pages s" "p \<in># F"
  shows "p \<notin># G"
proof -
  have "count (F + G) p \<le> 1" unfolding assms(1) by (rule managed_pages_once)
  moreover have "0 < count F p" using assms(2) by (simp add: count_greater_zero_iff)
  ultimately have "count G p = 0" unfolding count_union by linarith
  then show ?thesis by (simp only: not_in_iff)
qed

text \<open>A change of the metadata of one block leaves the remembered order of another alone.\<close>

lemma pmm_get_order_other:
  assumes L: "pmm_wf s L" and a: "block_ok (unat (total_pages s)) k a" and b: "pmm_block s m b"
    and ne: "page_no b \<noteq> page_no a"
    and s': "page_metadata s' = (page_metadata s)(pg_idx a := v)"
  shows "pmm_get_order b s' = pmm_get_order b s"
proof -
  have t: "unat (total_pages s) \<le> 120832" using L pmm_listsD(3) by (auto simp: pmm_wf_def)
  have okb: "block_ok (unat (total_pages s)) (nat m) b" using b by (simp add: pmm_block_def)
  have "2048 \<le> page_no a" "2048 \<le> page_no b"
    using a okb by (auto simp: block_ok_def page_no_def)
  then have "pg_idx b \<noteq> pg_idx a"
    using pg_idx_ok(2) [OF a t] pg_idx_ok(2) [OF okb t] ne by auto
  then show ?thesis unfolding pmm_get_order_def s' by simp
qed

lemma pmm_run_inv_alloc:
  assumes inv: "pmm_run_inv s H" and r: "pmm_alloc_page n s = (a, s')" "a \<noteq> 0"
  shows "pmm_run_inv s' (add_mset (a, n) H)"
  using inv
proof (rule pmm_run_invE)
  fix L assume L: "pmm_wf s L" "free_page_mset L + held_pages H = managed_pages s"
    and held: "\<And>b m. (b, m) \<in># H \<Longrightarrow> pmm_block s m b" "\<And>b m. (b, m) \<in># H \<Longrightarrow> pmm_get_order b s = m"
  from pmm_alloc_in_range [OF r] have n: "0 \<le> n" "n \<le> 10" by auto
  from pmm_alloc_page_Some [OF L(1) n r] obtain L' where L': "pmm_wf s' L'"
    "free_page_mset L = free_page_mset L' + mset (block_pages (nat n) a)"
    "block_ok (unat (total_pages s)) (nat n) a" "total_pages s' = total_pages s"
    "page_metadata s' = (page_metadata s)(pg_idx a := word_of_int n OR PAGE_DIRTY)"
    by blast
  have blk: "pmm_block s' = pmm_block s" using L'(4) by (simp add: pmm_block_def fun_eq_iff)
  have "page_no a \<in># free_page_mset L"
    using L'(2) block_pages_first [of a "nat n"] by simp
  then have page: "page_no a \<notin># held_pages H" by (rule free_held_disjoint [OF L(2)])
  have t: "unat (total_pages s) \<le> 120832" using L(1) pmm_listsD(3) by (auto simp: pmm_wf_def)
  have new: "pmm_get_order a s' = n"
    using pg_idx_ok(1) [OF L'(3) t] order_roundtrip [OF n] by (simp add: pmm_get_order_def L'(5))
  have old: "pmm_get_order b s' = m" if "(b, m) \<in># H" for b m
    using pmm_get_order_other [OF L(1) L'(3) held(1) [OF that] _ L'(5)] held(2) [OF that]
      held_pagesI [OF that block_pages_first] page by metis
  have own: "pmm_block s' n a" using L'(3,4) n by (simp add: pmm_block_def)
  have "free_page_mset L' + held_pages (add_mset (a, n) H) = managed_pages s'"
    unfolding held_pages_add managed_pages_def L'(4) L(2) [unfolded managed_pages_def, symmetric] L'(2)
    by (simp only: ac_simps)
  with L'(1) show ?thesis
    by (rule pmm_run_invI) (use new old own held blk in auto)
qed

lemma pmm_run_inv_free:
  assumes inv: "pmm_run_inv s (add_mset (a, n) H)"
  shows "pmm_run_inv (pmm_free_page a n s) H"
  using inv
proof (rule pmm_run_invE)
  fix L assume L: "pmm_wf s L" "free_page_mset L + held_pages (add_mset (a, n) H) = managed_pages s"
    and held: "\<And>b m. (b, m) \<in># add_mset (a, n) H \<Longrightarrow> pmm_block s m b"
      "\<And>b m. (b, m) \<in># add_mset (a, n) H \<Longrightarrow> pmm_get_order b s = m"
  from held(1) [of a n] have n: "0 \<le> n" "n \<le> 10" and ok: "block_ok (unat (total_pages s)) (nat n) a"
    by (auto simp: pmm_block_def)
  have fresh: "p \<notin># free_page_mset L" if "p \<in> set (block_pages (nat n) a)" for p
    using free_held_disjoint [OF L(2) [unfolded add.commute [of "free_page_mset L"]], of p] that
    by auto
  note P = pmm_free_page_wf [OF L(1) n ok fresh]
  have H': "mset (block_pages (nat n) a) + (free_page_mset L + held_pages H) = managed_pages s"
    using L(2) by (simp only: held_pages_add ac_simps)
  have page: "page_no a \<notin># held_pages H"
    using free_held_disjoint [OF H', of "page_no a"] block_pages_first [of a "nat n"] by simp
  have old: "pmm_get_order b (pmm_free_page a n s) = m" if "(b, m) \<in># H" for b m
    using pmm_get_order_other [OF L(1) ok held(1) [of b m] _ P(5)] held(2) [of b m] that
      held_pagesI [OF that block_pages_first] page by (metis union_iff add_mset_add_single)
  have eq: "free_page_mset (L[nat n := a # L ! nat n]) + held_pages H = managed_pages (pmm_free_page a n s)"
    using H' P(2,3) by (simp add: managed_pages_def ac_simps del: mset_upt)
  have blk: "pmm_block (pmm_free_page a n s) = pmm_block s"
    using P(3) by (simp add: pmm_block_def fun_eq_iff)
  from P(1) eq show ?thesis
    by (rule pmm_run_invI) (use held old blk in auto)
qed

text \<open>Any change of the memory of held blocks is invisible to the allocator.\<close>

lemma nexts_chain_cong: "(\<And>a. a \<in> set as \<Longrightarrow> m' a = m a) \<Longrightarrow> chain m' p as = chain m p as"
  by (induction as arbitrary: p) auto

lemma pmm_run_inv_mem_low:
  assumes inv: "pmm_run_inv s H" and m': "\<And>x. m' x \<noteq> mem s x \<Longrightarrow> page_no x \<in># held_pages H \<or> page_no x < 2048"
  shows "pmm_run_inv (s\<lparr>mem := m'\<rparr>) H"
  using inv
proof (rule pmm_run_invE)
  fix L assume L: "pmm_wf s L" "free_page_mset L + held_pages H = managed_pages s"
    and held: "\<And>b m. (b, m) \<in># H \<Longrightarrow> pmm_block s m b" "\<And>b m. (b, m) \<in># H \<Longrightarrow> pmm_get_order b s = m"
  let ?s = "s\<lparr>mem := m'\<rparr>"
  from L have l: "pmm_lists s L" by (simp add: pmm_wf_def)
  note D = pmm_listsD [OF l]
  have same: "m' x = mem s x" if "m < 11" "x \<in> set (L ! m)" for m x
  proof -
    have "page_no x \<in># free_page_mset L" using block_pages_in_free [of m L x "page_no x"] that D(2) block_pages_first by simp
    moreover from this have "page_no x \<in># managed_pages s" unfolding L(2) [symmetric] by simp
    then have "2048 \<le> page_no x" by (auto simp: managed_pages_def simp del: mset_upt)
    ultimately show ?thesis using free_held_disjoint [OF L(2), of "page_no x"] m' [of x] by auto
  qed
  have links: "chain m' p (L ! m) = chain (mem s) p (L ! m)" if "m < 11" for m p
    by (rule nexts_chain_cong) (use same that in blast)
  have "pmm_lists ?s L"
    by (rule pmm_listsI) (use D links in auto)
  then have wf: "pmm_wf ?s L" using L(1) by (simp add: pmm_wf_def)
  have "free_page_mset L + held_pages H = managed_pages ?s" using L(2) by (simp add: managed_pages_def)
  with wf show ?thesis
  proof (rule pmm_run_invI)
    fix b m assume "(b, m) \<in># H"
    moreover have "pmm_block ?s m b = pmm_block s m b" "pmm_get_order b ?s = pmm_get_order b s"
      unfolding pmm_block_def pmm_get_order_def by simp_all
    ultimately show "pmm_block ?s m b" "pmm_get_order b ?s = m" using held by simp_all
  qed
qed

lemma pmm_run_inv_mem:
  assumes "pmm_run_inv s H" "\<And>x. m' x \<noteq> mem s x \<Longrightarrow> page_no x \<in># held_pages H"
  shows "pmm_run_inv (s\<lparr>mem := m'\<rparr>) H"
  by (rule pmm_run_inv_mem_low [OF assms(1)]) (simp add: assms(2))

lemma held_pages_high: "pmm_run_inv s H \<Longrightarrow> p \<in># held_pages H \<Longrightarrow> 2048 \<le> p"
proof (rule pmm_run_invE)
  fix L assume "p \<in># held_pages H" "free_page_mset L + held_pages H = managed_pages s"
  then have "p \<in># managed_pages s" by (metis union_iff)
  then show "2048 \<le> p" by (auto simp: managed_pages_def simp del: mset_upt)
qed

lemma pmm_run_inv_store:
  assumes inv: "pmm_run_inv s H" and H: "(a, n) \<in># H" and x: "page_no x \<in> set (block_pages (nat n) a)"
  shows "pmm_run_inv (s\<lparr>mem := (mem s)(x := v)\<rparr>) H"
  by (rule pmm_run_inv_mem [OF inv]) (use held_pagesI [OF H x] in \<open>auto split: if_splits\<close>)

lemma pmm_run_inv_alloc_fresh:
  assumes inv: "pmm_run_inv s H" and r: "pmm_alloc_page n s = (a, s')" "a \<noteq> 0"
  shows "pmm_block s' n a \<and> set (block_pages (nat n) a) \<inter> set_mset (held_pages H) = {} \<and>
    (\<forall>x. page_no x \<in># held_pages H \<longrightarrow> mem s' x = mem s x)"
  using inv
proof (rule pmm_run_invE)
  fix L assume L: "pmm_wf s L" "free_page_mset L + held_pages H = managed_pages s"
  from pmm_alloc_in_range [OF r] have n: "0 \<le> n" "n \<le> 10" by auto
  from pmm_alloc_page_Some [OF L(1) n r] obtain L' where L':
    "free_page_mset L = free_page_mset L' + mset (block_pages (nat n) a)"
    "block_ok (unat (total_pages s)) (nat n) a" "total_pages s' = total_pages s"
    "\<forall>x. page_no x \<notin># free_page_mset L \<longrightarrow> mem s' x = mem s x" by blast
  have "p \<notin># held_pages H" if "p \<in> set (block_pages (nat n) a)" for p
    using free_held_disjoint [OF L(2), of p] L'(1) that by simp
  then have "set (block_pages (nat n) a) \<inter> set_mset (held_pages H) = {}" by blast
  moreover have "mem s' x = mem s x" if "page_no x \<in># held_pages H" for x
    using L'(4) free_held_disjoint [OF L(2)] that by blast
  ultimately show ?thesis using L'(2,3) n by (simp add: pmm_block_def)
qed

lemma pmm_alloc_page_fail_same:
  assumes wf: "pmm_wf s L" and r: "pmm_alloc_page n s = (0, s')"
  shows "s' = s"
proof (cases "n < 0 \<or> n > 10")
  case True
  with r show ?thesis by (auto simp: pmm_alloc_page_def PMM_MAX_ORDER_def)
next
  case False
  with pmm_alloc_page_None [OF wf _ _ r] show ?thesis by auto
qed

lemma pmm_run_invariant: "pmm_run s H \<Longrightarrow> pmm_run_inv s H"
proof (induction rule: pmm_run.induct)
  case (init mem_size s0 s)
  with pmm_init_total [of mem_size s0] show ?case
    unfolding pmm_run_inv_def managed_pages_def by auto
next
  case (alloc s H n a s')
  then show ?case by (blast intro: pmm_run_inv_alloc)
next
  case (alloc_fail s H n s')
  then have "s' = s" using pmm_alloc_page_fail_same by (blast elim: pmm_run_invE)
  with alloc_fail show ?case by simp
next
  case (free s a n H)
  then show ?case by (blast intro: pmm_run_inv_free)
next
  case (store s H a n x v)
  then show ?case by (blast intro: pmm_run_inv_store)
qed

section \<open>Properties\<close>

text \<open>A small machine with two managed pages, on which the properties are exercised.\<close>

definition pmm_boot :: pmm where
  "pmm_boot = \<lparr>free_lists = [], total_pages = 0, free_pages = 0, page_metadata = (\<lambda>_. 0), mem = (\<lambda>_. 0)\<rparr>"

definition pmm_two :: pmm where
  "pmm_two = \<lparr>free_lists = [0, 0x800000, 0, 0, 0, 0, 0, 0, 0, 0, 0], total_pages = 2, free_pages = 2,
     page_metadata = (\<lambda>_. 0), mem = (\<lambda>_. 0)\<rparr>"

lemma pmm_init_rest_numeral [simp]:
  "pmm_init_rest (numeral k) e c s = (let j = pred_numeral k in
     if c + PAGE_SIZE * 2 ^ j \<le> e then pmm_init_rest j e (c + PAGE_SIZE * 2 ^ j) (pmm_add_to_list c j s)
     else pmm_init_rest j e c s)"
  by (simp add: numeral_eq_Suc Let_def)

lemma pmm_init_two: "pmm_init 0x802000 pmm_boot = Some pmm_two"
proof -
  have max: "pmm_init_max 0x802000 0x800000 s = Some (0x800000, s)" for s
    by (subst pmm_init_max.simps) (simp add: pmm_consts)
  have e: "pmm_end_addr 0x802000 = 0x802000"
    by (simp add: pmm_end_addr_def pmm_consts Let_def)
  have heads: "replicate (Suc PMM_MAX_ORDER) (0::u32) = [0, 0, 0, 0, 0, 0, 0, 0, 0, 0, 0]"
    by (simp add: PMM_MAX_ORDER_def numeral_eq_Suc)
  show ?thesis
    unfolding pmm_init_def heads e
    by (simp add: pmm_boot_def pmm_two_def pmm_consts Let_def max pmm_add_to_list_def fun_eq_iff)
qed

lemma pmm_run_two: "pmm_run pmm_two {#}"
  by (rule pmm_run.init [OF pmm_init_two])

lemma pmm_alloc_two:
  "fst (pmm_alloc_page 0 pmm_two) = 0x800000"
  "fst (pmm_alloc_page 0 (snd (pmm_alloc_page 0 pmm_two))) = 0x801000"
  by code_simp+

lemma pmm_run_two_alloc: "pmm_run (snd (pmm_alloc_page 0 pmm_two)) {#(0x800000, 0)#}"
  by (rule pmm_run.alloc [OF pmm_run_two, of 0 "0x800000"])
     (simp_all add: prod_eq_iff pmm_alloc_two)

text \<open>C1: Page accounting. In every run of the kernel against the page allocator (boot,
  allocations, frees of held blocks, writes of the holders into their blocks) the free lists
  are intact, the pages on them and the pages of the held blocks together are exactly the
  managed pages, each once (no page is lost, none is handed out twice), and the metadata
  remembers the order of every held block.\<close>

theorem pmm_run_accounts_for_every_page:
  assumes "pmm_run s H"
  shows "(\<exists>L. pmm_wf s L \<and> free_page_mset L + held_pages H = managed_pages s) \<and>
    (\<forall>p. count (managed_pages s) p \<le> 1) \<and>
    (\<forall>a n. (a, n) \<in># H \<longrightarrow> pmm_block s n a \<and> pmm_get_order a s = n)"
  using pmm_run_invariant [OF assms] managed_pages_once unfolding pmm_run_inv_def by blast

theorem pmm_run_accounts_for_every_page_witness:
  "(\<exists>L. pmm_wf (snd (pmm_alloc_page 0 pmm_two)) L \<and>
      free_page_mset L + held_pages {#(0x800000, 0)#} = managed_pages (snd (pmm_alloc_page 0 pmm_two))) \<and>
   pmm_get_order 0x800000 (snd (pmm_alloc_page 0 pmm_two)) = 0"
  using pmm_run_accounts_for_every_page [OF pmm_run_two_alloc] by auto

text \<open>C2: Initialisation returns for every memory size, and puts exactly the pages between
  8 MB and the end of usable memory on the free lists, each once.\<close>

theorem pmm_init_covers_managed_pages:
  "\<exists>s L. pmm_init mem_size s0 = Some s \<and> pmm_wf s L \<and> free_page_mset L = managed_pages s \<and>
     unat (total_pages s) = (unat (pmm_end_addr mem_size) - 0x800000) div 4096 \<and>
     free_pages s = total_pages s"
proof -
  obtain s L where sL: "pmm_init mem_size s0 = Some s" "pmm_wf s L"
      "free_page_mset L = managed_pages s"
      "unat (total_pages s) = (unat (pmm_end_addr mem_size) - 0x800000) div 4096"
    using pmm_init_total [of mem_size s0] unfolding managed_pages_def by blast
  have "unat (free_pages s) = unat (total_pages s)"
    using sL(2) unfolding pmm_wf_def sL(3) managed_pages_def by (simp only: size_mset length_upt)
  with sL show ?thesis by (auto simp: word_unat_eq_iff)
qed

text \<open>Freshness and isolation. A block handed out during a run lies in managed memory, is
  page aligned, shares no page with a block that is already held, and the allocation changes
  no word of a held block.\<close>

theorem pmm_alloc_is_fresh:
  assumes run: "pmm_run s H" and r: "pmm_alloc_page n s = (a, s')" "a \<noteq> 0"
  shows "pmm_block s' n a \<and> set (block_pages (nat n) a) \<inter> set_mset (held_pages H) = {} \<and>
    (\<forall>x. page_no x \<in># held_pages H \<longrightarrow> mem s' x = mem s x)"
  using pmm_run_inv_alloc_fresh [OF pmm_run_invariant [OF run] r] .

theorem pmm_alloc_is_fresh_witness:
  "set (block_pages 0 0x801000) \<inter> set_mset (held_pages {#(0x800000, 0)#}) = {}"
  using pmm_alloc_is_fresh [OF pmm_run_two_alloc, of 0 "0x801000"
      "snd (pmm_alloc_page 0 (snd (pmm_alloc_page 0 pmm_two)))"]
  by (simp only: pmm_alloc_two prod_eq_iff fst_conv snd_conv nat_zero_as_int) simp

text \<open>Allocating a block and freeing it again restores the free pages exactly.\<close>

theorem pmm_alloc_free_round_trip:
  assumes "pmm_free_is s F" "pmm_alloc_page n s = (a, s')" "a \<noteq> 0"
  shows "pmm_free_is (pmm_free_page a n s') F"
  using assms by (rule pmm.alloc_then_free)

theorem pmm_alloc_free_round_trip_witness:
  "\<exists>F. pmm_free_is (pmm_free_page 0x800000 0 (snd (pmm_alloc_page 0 pmm_two))) F"
proof -
  obtain F where "pmm_free_is pmm_two F"
    using pmm_run_invariant [OF pmm_run_two] unfolding pmm_run_inv_def pmm_free_is_def by blast
  from pmm_alloc_free_round_trip [OF this, of 0 "0x800000" "snd (pmm_alloc_page 0 pmm_two)"]
  show ?thesis by (auto simp: prod_eq_iff pmm_alloc_two)
qed

text \<open>C3: An allocation of a legal order fails only when no free block of that order or a
  larger one exists, and a failed allocation changes nothing.\<close>

theorem pmm_alloc_fails_only_when_exhausted:
  assumes "pmm_wf s L" "0 \<le> n" "n \<le> 10" "pmm_alloc_page n s = (0, s')"
  shows "s' = s \<and> (\<forall>j. nat n \<le> j \<longrightarrow> j \<le> 10 \<longrightarrow> L ! j = [])"
  using assms by (rule pmm_alloc_page_None)

theorem pmm_alloc_fails_only_when_exhausted_witness:
  "\<exists>L. pmm_wf pmm_two L \<and> L ! 2 = [] \<and> snd (pmm_alloc_page 2 pmm_two) = pmm_two"
proof -
  obtain L where L: "pmm_wf pmm_two L"
    using pmm_run_invariant [OF pmm_run_two] unfolding pmm_run_inv_def by blast
  have "fst (pmm_alloc_page 2 pmm_two) = 0"
    by code_simp
  then have "pmm_alloc_page 2 pmm_two = (0, snd (pmm_alloc_page 2 pmm_two))"
    by (simp add: prod_eq_iff)
  from pmm_alloc_fails_only_when_exhausted [OF L _ _ this] L show ?thesis by auto
qed

end
