(* ===== verification/Slab.thy ===== *)
theory Slab
  imports Pmm
begin

text \<open>
  The kernel heap, \<open>kernel/mm/slab.c\<close>: caches of equal objects cut from pages of \<open>Pmm\<close>, and whole blocks of
  pages for larger requests. Slab headers and the free lists of objects are words of the memory of \<open>Pmm\<close>, so that
  a stale pointer would show. A walk over a list and the search for an order may not end: \<open>None\<close>, which also stands
  for following a cache pointer that points to no cache.
\<close>

section \<open>State\<close>

record slab_cache =
  obj_size :: u32
  full_slabs :: u32
  partial_slabs :: u32
  empty_slabs :: u32

text \<open>\<open>caches_at\<close> is the address of the array \<open>generic_caches\<close>; an element has 20 bytes.\<close>

record kheap =
  pm :: pmm
  caches_at :: u32
  generic_caches :: "slab_cache list"
  mm_stat_kmalloc_ok :: u32
  mm_stat_kfree_calls :: u32
  mm_stat_kmalloc_fail :: u32

definition SLAB_MAGIC :: u32 where "SLAB_MAGIC = 0x51AB51AB"
definition GENERIC_CACHE_COUNT :: nat where "GENERIC_CACHE_COUNT = 7"

text \<open>\<open>sizeof(slab_t)\<close> is 20, rounded up to 24. Its fields are at offsets 0 (\<open>magic\<close>), 4 (\<open>cache\<close>), 8 (\<open>next\<close>),
  12 (\<open>free_count\<close>) and 16 (\<open>free_list\<close>).\<close>

definition header_size :: u32 where "header_size = (20 + 7) AND NOT 7"

definition rd :: "u32 \<Rightarrow> kheap \<Rightarrow> u32" where
  "rd a h = mem (pm h) a"

definition wr :: "u32 \<Rightarrow> u32 \<Rightarrow> kheap \<Rightarrow> kheap" where
  "wr a v h = h\<lparr>pm := (pm h)\<lparr>mem := (mem (pm h))(a := v)\<rparr>\<rparr>"

definition cache_ptr :: "kheap \<Rightarrow> nat \<Rightarrow> u32" where
  "cache_ptr h i = caches_at h + 20 * of_nat i"

definition cache_index :: "kheap \<Rightarrow> u32 \<Rightarrow> nat option" where
  "cache_index h p =
     (let d = unat (p - caches_at h)
      in if d mod 20 = 0 \<and> d div 20 < length (generic_caches h) then Some (d div 20) else None)"

text \<open>A \<open>slab_t **\<close> points to a list head in a cache or to the \<open>next\<close> field of a slab.\<close>

datatype slab_list = Full | Partial | Empty

datatype place = Head nat slab_list | Next_of u32

fun cache_head :: "slab_list \<Rightarrow> slab_cache \<Rightarrow> u32" where
  "cache_head Full c = full_slabs c"
| "cache_head Partial c = partial_slabs c"
| "cache_head Empty c = empty_slabs c"

fun set_cache_head :: "slab_list \<Rightarrow> u32 \<Rightarrow> slab_cache \<Rightarrow> slab_cache" where
  "set_cache_head Full p c = c\<lparr>full_slabs := p\<rparr>"
| "set_cache_head Partial p c = c\<lparr>partial_slabs := p\<rparr>"
| "set_cache_head Empty p c = c\<lparr>empty_slabs := p\<rparr>"

fun place_get :: "place \<Rightarrow> kheap \<Rightarrow> u32" where
  "place_get (Head i w) h = cache_head w (generic_caches h ! i)"
| "place_get (Next_of s) h = rd (s + 8) h"

fun place_set :: "place \<Rightarrow> u32 \<Rightarrow> kheap \<Rightarrow> kheap" where
  "place_set (Head i w) p h =
     h\<lparr>generic_caches := (generic_caches h)[i := set_cache_head w p (generic_caches h ! i)]\<rparr>"
| "place_set (Next_of s) p h = wr (s + 8) p h"

section \<open>Operations\<close>

definition slab_init :: "kheap \<Rightarrow> kheap" where
  "slab_init h =
     h\<lparr>generic_caches := map (\<lambda>n. \<lparr>obj_size = n, full_slabs = 0, partial_slabs = 0, empty_slabs = 0\<rparr>)
         [32, 64, 128, 256, 512, 1024, 2048]\<rparr>"

definition link_objs :: "u32 \<Rightarrow> u32 \<Rightarrow> u32 \<Rightarrow> kheap \<Rightarrow> kheap" where
  "link_objs data sz n h =
     fold (\<lambda>i. wr (data + of_nat i * sz) (data + (of_nat i + 1) * sz)) [0 ..< unat (n - 1)] h"

definition slab_create :: "nat \<Rightarrow> kheap \<Rightarrow> u32 \<times> kheap" where
  "slab_create i h =
     (let (page, p) = pmm_alloc_page 0 (pm h);
          h = h\<lparr>pm := p\<rparr>
      in if page = 0 then (0, h)
         else
           let h = wr page SLAB_MAGIC h;
               h = wr (page + 4) (cache_ptr h i) h;
               h = wr (page + 8) 0 h;
               usable = PAGE_SIZE - header_size;
               sz = obj_size (generic_caches h ! i);
               n = usable div sz;
               h = wr (page + 12) n h
           in if n = 0 then (0, h\<lparr>pm := pmm_free_page page 0 (pm h)\<rparr>)
              else
                let data = page + header_size;
                    h = wr (page + 16) data h;
                    h = link_objs data sz n h;
                    h = wr (data + (n - 1) * sz) 0 h
                in (page, h))"

text \<open>The slab to take an object from: the first partial one, else an empty or a new one, which becomes partial.\<close>

definition usable_slab :: "nat \<Rightarrow> kheap \<Rightarrow> u32 \<times> kheap" where
  "usable_slab i h =
     (let slab = place_get (Head i Partial) h
      in if slab \<noteq> 0 then (slab, h)
         else
           let slab = place_get (Head i Empty) h;
               (slab, h) = (if slab = 0 then slab_create i h else (slab, place_set (Head i Empty) (rd (slab + 8) h) h))
           in if slab = 0 then (0, h)
              else
                let h = wr (slab + 8) (place_get (Head i Partial) h) h
                in (slab, place_set (Head i Partial) slab h))"

definition slab_cache_alloc :: "nat \<Rightarrow> kheap \<Rightarrow> u32 \<times> kheap" where
  "slab_cache_alloc i h =
     (let (slab, h) = usable_slab i h
      in if slab = 0 then (0, h)
         else
           let obj = rd (slab + 16) h;
               h = wr (slab + 16) (rd obj h) h;
               h = wr (slab + 12) (rd (slab + 12) h - 1) h
           in if rd (slab + 12) h = 0 then
                let h = place_set (Head i Partial) (rd (slab + 8) h) h;
                    h = wr (slab + 8) (place_get (Head i Full) h) h
                in (obj, place_set (Head i Full) slab h)
              else (obj, h))"

partial_function (option) find_place :: "u32 \<Rightarrow> place \<Rightarrow> kheap \<Rightarrow> place option" where
  "find_place slab prev h =
     (let p = place_get prev h in if p \<noteq> 0 \<and> p \<noteq> slab then find_place slab (Next_of p) h else Some prev)"

definition move_slab :: "nat \<Rightarrow> slab_list \<Rightarrow> slab_list \<Rightarrow> u32 \<Rightarrow> kheap \<Rightarrow> kheap option" where
  "move_slab i a b slab h =
     map_option (\<lambda>prev.
       if place_get prev h \<noteq> 0 then
         let h = place_set prev (rd (slab + 8) h) h;
             h = wr (slab + 8) (place_get (Head i b) h) h
         in place_set (Head i b) slab h
       else h) (find_place slab (Head i a) h)"

definition slab_cache_free :: "nat \<Rightarrow> u32 \<Rightarrow> kheap \<Rightarrow> kheap option" where
  "slab_cache_free i obj h =
     (let slab = obj AND NOT 4095
      in if rd slab h \<noteq> SLAB_MAGIC then Some h
         else
           let h = wr obj (rd (slab + 16) h) h;
               h = wr (slab + 16) obj h;
               old_count = rd (slab + 12) h;
               h = wr (slab + 12) (rd (slab + 12) h + 1) h;
               total_objs = (PAGE_SIZE - header_size) div obj_size (generic_caches h ! i)
           in if old_count = 0 then move_slab i Full Partial slab h
              else if rd (slab + 12) h = total_objs then move_slab i Partial Empty slab h
              else Some h)"

text \<open>The shift of \<open>PAGE_SIZE\<close> drops its bit from order 20 on, so the search does not end for more than 2 GB.\<close>

partial_function (option) order_for :: "u32 \<Rightarrow> nat \<Rightarrow> nat option" where
  "order_for sz order = (if push_bit order PAGE_SIZE < sz then order_for sz (Suc order) else Some order)"

definition count_alloc :: "u32 \<times> kheap \<Rightarrow> u32 \<times> kheap" where
  "count_alloc = (\<lambda>(p, h). (p, if p \<noteq> 0 then h\<lparr>mm_stat_kmalloc_ok := mm_stat_kmalloc_ok h + 1\<rparr>
                              else h\<lparr>mm_stat_kmalloc_fail := mm_stat_kmalloc_fail h + 1\<rparr>))"

definition kmalloc :: "u32 \<Rightarrow> kheap \<Rightarrow> (u32 \<times> kheap) option" where
  "kmalloc sz h =
     (if sz = 0 then Some (0, h)
      else if sz > 2048 then
        map_option (\<lambda>order. let (p, s) = pmm_alloc_page (int order) (pm h) in count_alloc (p, h\<lparr>pm := s\<rparr>)) (order_for sz 0)
      else
        case first_idx (\<lambda>c. obj_size c \<ge> sz) (take GENERIC_CACHE_COUNT (generic_caches h)) of
          Some i \<Rightarrow> Some (count_alloc (slab_cache_alloc i h))
        | None \<Rightarrow> Some (0, h\<lparr>mm_stat_kmalloc_fail := mm_stat_kmalloc_fail h + 1\<rparr>))"

definition kfree :: "u32 \<Rightarrow> kheap \<Rightarrow> kheap option" where
  "kfree ptr h =
     (if ptr = 0 then Some h
      else
        let h = h\<lparr>mm_stat_kfree_calls := mm_stat_kfree_calls h + 1\<rparr>;
            slab = ptr AND NOT 4095
        in if rd slab h = SLAB_MAGIC then
             case cache_index h (rd (slab + 4) h) of
               Some i \<Rightarrow> slab_cache_free i ptr h
             | None \<Rightarrow> None
           else
             let order = pmm_get_order ptr (pm h)
             in if order \<ge> 0 then Some (h\<lparr>pm := pmm_free_page ptr order (pm h)\<rparr>)
                else Some (h\<lparr>pm := pmm_free_page ptr 0 (pm h)\<rparr>))"

definition mm_kmalloc_stats :: "kheap \<Rightarrow> u32 \<times> u32 \<times> u32" where
  "mm_kmalloc_stats h = (mm_stat_kmalloc_ok h, mm_stat_kfree_calls h, mm_stat_kmalloc_fail h)"

section \<open>Geometry of a slab\<close>

definition osize :: "nat \<Rightarrow> nat" where "osize i = 32 * 2 ^ i"
definition cap :: "nat \<Rightarrow> nat" where "cap i = 4072 div osize i"

definition objs :: "nat \<Rightarrow> u32 \<Rightarrow> u32 list" where
  "objs i s = map (\<lambda>k. s + of_nat (24 + k * osize i)) [0 ..< cap i]"

definition slab_page :: "u32 \<Rightarrow> bool" where
  "slab_page s \<longleftrightarrow> 4096 dvd unat s \<and> 0 < unat s \<and> unat s + 4096 < 2 ^ 32"

lemma header_24: "header_size = 24"
  by (simp add: header_size_def)

lemma cap_facts:
  assumes "i < 7"
  shows "0 < cap i" "cap i \<le> 127" "cap i * osize i \<le> 4072" "32 \<le> osize i" "osize i \<le> 2048"
    "(PAGE_SIZE - header_size) div of_nat (osize i) = of_nat (cap i)" "unat (of_nat (cap i) :: u32) = cap i"
proof -
  have "i = 0 \<or> i = 1 \<or> i = 2 \<or> i = 3 \<or> i = 4 \<or> i = 5 \<or> i = 6" using assms by linarith
  then show "0 < cap i" "cap i \<le> 127" "cap i * osize i \<le> 4072" "32 \<le> osize i" "osize i \<le> 2048"
    "(PAGE_SIZE - header_size) div of_nat (osize i) = of_nat (cap i)" "unat (of_nat (cap i) :: u32) = cap i"
    by (elim disjE, simp_all add: cap_def osize_def header_24 PAGE_SIZE_def)+
qed

lemma in_page:
  assumes "slab_page s" "k < 4096"
  shows "unat (s + of_nat k) = unat s + k" "page_no (s + of_nat k) = page_no s"
proof -
  have k: "unat (of_nat k :: u32) = k" using assms(2) by (simp add: unat_of_nat)
  show u: "unat (s + of_nat k) = unat s + k"
    using assms k by (subst unat_add_lem [THEN iffD1]) (auto simp: slab_page_def)
  obtain q where "unat s = 4096 * q" using assms(1) by (auto simp: slab_page_def dvd_def)
  then show "page_no (s + of_nat k) = page_no s" unfolding page_no_def u using assms(2) by simp
qed

lemma slab_words:
  assumes "slab_page s"
  shows "unat (s + 4) = unat s + 4" "unat (s + 8) = unat s + 8" "unat (s + 12) = unat s + 12" "unat (s + 16) = unat s + 16"
    and "page_no (s + 4) = page_no s" "page_no (s + 8) = page_no s" "page_no (s + 12) = page_no s" "page_no (s + 16) = page_no s"
  using in_page [OF assms, of 4] in_page [OF assms, of 8] in_page [OF assms, of 12] in_page [OF assms, of 16] by simp_all

lemma slab_page_inj:
  assumes "slab_page s" "slab_page t" "page_no s = page_no t"
  shows "s = t"
proof -
  obtain q r where "unat s = 4096 * q" "unat t = 4096 * r" using assms(1,2) by (auto simp: slab_page_def dvd_def)
  then show ?thesis using assms(3) by (simp add: page_no_def word_unat_eq_iff)
qed

text \<open>Objects lie behind the header, inside the page, and apart from each other.\<close>

lemma objs_at:
  assumes s: "slab_page s" and i: "i < 7" and a: "a \<in> set (objs i s)"
  obtains k where "k < cap i" "unat a = unat s + 24 + k * osize i" "unat a + osize i \<le> unat s + 4096" "page_no a = page_no s"
proof -
  from a obtain k where k: "k < cap i" "a = s + of_nat (24 + k * osize i)" by (auto simp: objs_def)
  have le: "24 + Suc k * osize i \<le> 4096"
    using mult_le_mono1 [of "Suc k" "cap i" "osize i"] k(1) cap_facts(3) [OF i] by simp
  then have lt: "24 + k * osize i < 4096" using cap_facts(4) [OF i] by simp
  from in_page [OF s lt] show ?thesis using k le by (intro that [of k]) auto
qed

lemma objs_facts:
  assumes s: "slab_page s" and i: "i < 7" and a: "a \<in> set (objs i s)"
  shows "a \<noteq> 0" "page_no a = page_no s" "unat s + 24 \<le> unat a" "unat a + osize i \<le> unat s + 4096" "a \<noteq> s"
    "a \<noteq> s + 4" "a \<noteq> s + 8" "a \<noteq> s + 12" "a \<noteq> s + 16"
proof -
  obtain k where k: "unat a = unat s + 24 + k * osize i" "unat a + osize i \<le> unat s + 4096" "page_no a = page_no s"
    by (rule objs_at [OF s i a])
  show "a \<noteq> 0" "a \<noteq> s" using k(1) by (auto simp: word_unat_eq_iff)
  show "page_no a = page_no s" "unat s + 24 \<le> unat a" "unat a + osize i \<le> unat s + 4096" using k by auto
  show "a \<noteq> s + 4" "a \<noteq> s + 8" "a \<noteq> s + 12" "a \<noteq> s + 16"
    using k(1) slab_words [OF s] by (auto simp: word_unat_eq_iff)
qed

lemma objs_apart:
  assumes s: "slab_page s" and i: "i < 7" and a: "a \<in> set (objs i s)" and b: "b \<in> set (objs i s)" and "a \<noteq> b"
  shows "unat a + osize i \<le> unat b \<or> unat b + osize i \<le> unat a"
proof -
  obtain k where k: "unat a = unat s + 24 + k * osize i" by (rule objs_at [OF s i a])
  obtain l where l: "unat b = unat s + 24 + l * osize i" by (rule objs_at [OF s i b])
  have "k \<noteq> l" using k l assms(5) by (auto simp: word_unat_eq_iff)
  then consider "Suc k \<le> l" | "Suc l \<le> k" by linarith
  then show ?thesis
  proof cases
    case 1
    then show ?thesis using mult_le_mono1 [OF 1, of "osize i"] k l by simp
  next
    case 2
    then show ?thesis using mult_le_mono1 [OF 2, of "osize i"] k l by simp
  qed
qed

lemma objs_distinct:
  assumes s: "slab_page s" and i: "i < 7"
  shows "distinct (objs i s)" "length (objs i s) = cap i"
proof -
  have "inj_on (\<lambda>k. s + of_nat (24 + k * osize i)) {0 ..< cap i}"
  proof (rule inj_onI)
    fix k l assume kl: "k \<in> {0 ..< cap i}" "l \<in> {0 ..< cap i}" "s + of_nat (24 + k * osize i) = s + of_nat (24 + l * osize i)"
    have "24 + m * osize i < 4096" if "m < cap i" for m
      using mult_le_mono1 [of "Suc m" "cap i" "osize i"] that cap_facts(3,4) [OF i] by simp
    from in_page(1) [OF s this] have u: "unat (s + of_nat (24 + m * osize i)) = unat s + (24 + m * osize i)" if "m < cap i" for m
      using that by blast
    have "unat s + (24 + k * osize i) = unat s + (24 + l * osize i)"
      using arg_cong [OF kl(3), of unat] kl(1,2) by (simp only: u atLeastLessThan_iff)
    then have "k * osize i = l * osize i" by simp
    then show "k = l" using cap_facts(4) [OF i] by simp
  qed
  then show "distinct (objs i s)" by (simp add: objs_def distinct_map)
qed (simp add: objs_def)

text \<open>The slab of an object is found by rounding its address down.\<close>

lemma round_down:
  assumes "slab_page s" "page_no a = page_no s"
  shows "a AND NOT 4095 = s"
proof -
  obtain q where q: "unat s = 4096 * q" using assms(1) by (auto simp: slab_page_def dvd_def)
  have "a AND NOT 4095 = a AND NOT (mask 12)" by (simp add: mask_eq_exp_minus_1)
  also have "\<dots> = push_bit 12 (drop_bit 12 a)" by (rule bit_eqI) (auto simp: bit_simps)
  finally have "unat (a AND NOT 4095) = take_bit 32 (push_bit 12 (drop_bit 12 (unat a)))"
    using take_bit_nat_eq_self [OF unsigned_less [of a, where 'a = nat]] by (simp add: unsigned_push_bit_eq unsigned_drop_bit_eq)
  also have "\<dots> = 4096 * (unat a div 4096)"
  proof -
    have "4096 * (unat a div 4096) < 2 ^ 32" using unsigned_less [of a, where 'a = nat] by simp
    then show ?thesis by (simp add: take_bit_eq_mod push_bit_eq_mult drop_bit_eq_div mult.commute)
  qed
  also have "\<dots> = unat s" using assms(2) q by (simp add: page_no_def)
  finally show ?thesis by (simp add: word_unat_eq_iff)
qed

section \<open>The lists of slabs\<close>

text \<open>\<open>W s = Some (i, w)\<close>: the slab \<open>s\<close> belongs to cache \<open>i\<close> and is on its list \<open>w\<close>.\<close>

type_synonym slab_where = "u32 \<Rightarrow> (nat \<times> slab_list) option"

definition nexts :: "kheap \<Rightarrow> u32 \<Rightarrow> u32" where
  "nexts h a = rd (a + 8) h"

definition list_at :: "kheap \<Rightarrow> slab_where \<Rightarrow> nat \<Rightarrow> slab_list \<Rightarrow> u32 list \<Rightarrow> bool" where
  "list_at h W i w l \<longleftrightarrow> chain (nexts h) (place_get (Head i w) h) l \<and> distinct l \<and> set l = {s. W s = Some (i, w)}"

definition lists_ok :: "kheap \<Rightarrow> slab_where \<Rightarrow> bool" where
  "lists_ok h W \<longleftrightarrow> length (generic_caches h) = 7 \<and> (\<forall>i < 7. \<forall>w. \<exists>l. list_at h W i w l)"

declare place_get.simps(1) [simp del] place_set.simps(1) [simp del]

lemma rd_wr: "rd x (wr a v h) = (if x = a then v else rd x h)"
  by (simp add: rd_def wr_def)

lemma wr_frame [simp]: "generic_caches (wr a v h) = generic_caches h" "caches_at (wr a v h) = caches_at h"
  "cache_ptr (wr a v h) i = cache_ptr h i"
  by (simp_all add: wr_def cache_ptr_def)

lemma nexts_wr: "nexts (wr (s + 8) v h) = (nexts h)(s := v)"
  by (auto simp: nexts_def rd_wr fun_eq_iff)

lemma rd_place_set_head [simp]: "rd x (place_set (Head i w) p h) = rd x h"
  by (simp add: rd_def place_set.simps)

lemma nexts_place_set_head [simp]: "nexts (place_set (Head i w) p h) = nexts h"
  by (simp add: nexts_def fun_eq_iff)

lemma place_get_wr [simp]: "place_get (Head j w') (wr a v h) = place_get (Head j w') h"
  by (simp add: place_get.simps)

lemma cache_head_set: "cache_head w' (set_cache_head w p c) = (if w' = w then p else cache_head w' c)"
  by (cases w; cases w') simp_all

lemma obj_size_set [simp]: "obj_size (set_cache_head w p c) = obj_size c"
  by (cases w) simp_all

lemma place_get_set_head:
  "i < length (generic_caches h) \<Longrightarrow>
     place_get (Head j w') (place_set (Head i w) p h) = (if j = i \<and> w' = w then p else place_get (Head j w') h)"
  by (simp add: nth_list_update cache_head_set place_get.simps place_set.simps)

text \<open>What the list operations may change: memory and list heads.\<close>

definition heads_only :: "kheap \<Rightarrow> kheap \<Rightarrow> bool" where
  "heads_only h h' \<longleftrightarrow> caches_at h' = caches_at h \<and> map obj_size (generic_caches h') = map obj_size (generic_caches h) \<and>
     free_lists (pm h') = free_lists (pm h) \<and> total_pages (pm h') = total_pages (pm h) \<and> free_pages (pm h') = free_pages (pm h) \<and>
     page_metadata (pm h') = page_metadata (pm h)"

lemma heads_only_refl [simp]: "heads_only h h"
  by (simp add: heads_only_def)

lemma heads_only_trans: "heads_only h h1 \<Longrightarrow> heads_only h1 h2 \<Longrightarrow> heads_only h h2"
  by (simp add: heads_only_def)

lemma heads_only_wr [simp]: "heads_only h (wr a v h)"
  by (simp add: heads_only_def wr_def)

lemma heads_only_head [simp]: "heads_only h (place_set (Head i w) p h)"
proof -
  have "map obj_size ((generic_caches h)[i := set_cache_head w p (generic_caches h ! i)]) = map obj_size (generic_caches h)"
    by (rule nth_equalityI) (simp_all add: nth_update_if)
  then show ?thesis by (simp add: heads_only_def place_set.simps)
qed

lemma heads_onlyD:
  assumes "heads_only h h'"
  shows "pm h' = (pm h)\<lparr>mem := mem (pm h')\<rparr>" "caches_at h' = caches_at h" "length (generic_caches h') = length (generic_caches h)"
    "cache_ptr h' i = cache_ptr h i" "i < length (generic_caches h) \<Longrightarrow> obj_size (generic_caches h' ! i) = obj_size (generic_caches h ! i)"
proof -
  from assms show len: "length (generic_caches h') = length (generic_caches h)" "caches_at h' = caches_at h"
    using map_eq_imp_length_eq by (auto simp: heads_only_def)
  then show "cache_ptr h' i = cache_ptr h i" by (simp add: cache_ptr_def)
  show "pm h' = (pm h)\<lparr>mem := mem (pm h')\<rparr>" using assms by (intro pmm.equality) (auto simp: heads_only_def)
  have "map obj_size (generic_caches h') ! i = map obj_size (generic_caches h) ! i" using assms by (simp add: heads_only_def)
  then show "i < length (generic_caches h) \<Longrightarrow> obj_size (generic_caches h' ! i) = obj_size (generic_caches h ! i)"
    using len(1) by simp
qed

lemma chain_append_in: "chain m p (xs @ s # ys) \<Longrightarrow> chain m (m s) ys \<and> s \<noteq> 0"
  by (induction xs arbitrary: p) auto

lemma chain_bypass: "chain m p (xs @ s # ys) \<Longrightarrow> distinct (xs @ s # ys) \<Longrightarrow> xs \<noteq> [] \<Longrightarrow> chain (m(last xs := m s)) p (xs @ ys)"
proof (induction xs arbitrary: p)
  case (Cons x xs)
  show ?case
  proof (cases "xs = []")
    case True
    with Cons.prems have p: "p = x" "x \<noteq> 0" "x \<notin> set ys" "chain m (m s) ys" by auto
    have "chain (m(x := m s)) (m s) ys" using p(3,4) chain_upd [of x ys m] by blast
    with p(1,2) show ?thesis unfolding True
      by (simp only: append_Nil append_Cons chain.simps last.simps fun_upd_same if_True simp_thms)
  next
    case False
    with Cons.prems Cons.IH [of "m x"] last_in_set [OF False] show ?thesis by auto
  qed
qed simp

lemma find_place_chain:
  "chain (nexts h) (place_get p h) (xs @ s # ys) \<Longrightarrow> s \<notin> set xs \<Longrightarrow>
     find_place s p h = Some (if xs = [] then p else Next_of (last xs)) \<and>
     place_get (if xs = [] then p else Next_of (last xs)) h = s"
proof (induction xs arbitrary: p)
  case Nil
  then show ?case by (subst find_place.simps) (auto simp: Let_def)
next
  case (Cons x xs)
  have "find_place s p h = find_place s (Next_of x) h"
    using Cons.prems by (subst find_place.simps) (auto simp: Let_def)
  moreover have "chain (nexts h) (place_get (Next_of x) h) (xs @ s # ys)" using Cons.prems by (simp add: nexts_def [of h x])
  ultimately show ?case using Cons.IH [of "Next_of x"] Cons.prems(2) by (auto split: if_splits)
qed

text \<open>Moving a slab from one list of its cache to another.\<close>

lemma list_at_frame:
  assumes "list_at h W j w l" "\<And>t. t \<in> set l \<Longrightarrow> nexts h' t = nexts h t" "place_get (Head j w) h' = place_get (Head j w) h"
    "\<And>t. W' t = Some (j, w) \<longleftrightarrow> W t = Some (j, w)"
  shows "list_at h' W' j w l"
  using assms nexts_chain_cong [of l "nexts h'" "nexts h"] by (simp add: list_at_def)

lemma list_at_push:
  assumes l: "list_at h W i b l" and s: "W s = None \<or> W s = Some (i, c) \<and> c \<noteq> b" "s \<noteq> 0" and i: "i < length (generic_caches h)"
  shows "list_at (place_set (Head i b) s (wr (s + 8) (place_get (Head i b) h) h)) (W(s \<mapsto> (i, b))) i b (s # l)"
proof -
  have ns: "s \<notin> set l" using l s(1) by (auto simp: list_at_def)
  have "chain ((nexts h)(s := place_get (Head i b) h)) (place_get (Head i b) h) l"
    using l chain_upd [OF ns, of "nexts h"] by (simp add: list_at_def)
  then show ?thesis using l ns s i by (auto simp: list_at_def nexts_wr place_get_set_head)
qed

lemma unlinked:
  assumes l: "list_at h W i a (xs @ s # ys)" and i: "i < length (generic_caches h)"
  defines "P \<equiv> if xs = [] then Head i a else Next_of (last xs)"
  shows "chain (nexts (place_set P (nexts h s) h)) (place_get (Head i a) (place_set P (nexts h s) h)) (xs @ ys)"
    and "t \<notin> set xs \<Longrightarrow> nexts (place_set P (nexts h s) h) t = nexts h t"
    and "(j, w) \<noteq> (i, a) \<Longrightarrow> place_get (Head j w) (place_set P (nexts h s) h) = place_get (Head j w) h"
    and "heads_only h (place_set P (nexts h s) h)"
    and "rd x (place_set P (nexts h s) h) \<noteq> rd x h \<Longrightarrow> \<exists>t \<in> set xs. x = t + 8"
proof -
  have c: "chain (nexts h) (place_get (Head i a) h) (xs @ s # ys)" "distinct (xs @ s # ys)" using l by (auto simp: list_at_def)
  show "chain (nexts (place_set P (nexts h s) h)) (place_get (Head i a) (place_set P (nexts h s) h)) (xs @ ys)"
    using chain_bypass [OF c] chain_append_in [OF c(1)] i by (simp add: P_def nexts_wr place_get_set_head)
  show "heads_only h (place_set P (nexts h s) h)" by (simp add: P_def)
  show "t \<notin> set xs \<Longrightarrow> nexts (place_set P (nexts h s) h) t = nexts h t"
    using last_in_set [of xs] by (auto simp: P_def nexts_wr)
  show "(j, w) \<noteq> (i, a) \<Longrightarrow> place_get (Head j w) (place_set P (nexts h s) h) = place_get (Head j w) h"
    using i by (auto simp: P_def place_get_set_head)
  show "rd x (place_set P (nexts h s) h) \<noteq> rd x h \<Longrightarrow> \<exists>t \<in> set xs. x = t + 8"
    using last_in_set [of xs] by (auto simp: P_def rd_wr split: if_splits)
qed

lemma lists_okE:
  assumes "lists_ok h W" "i < 7"
  obtains l where "list_at h W i w l"
  using assms by (auto simp: lists_ok_def)

lemma relinked:
  assumes ok: "lists_ok h W" and l: "list_at h W i a (xs @ s # ys)" and i: "i < 7" and ab: "a \<noteq> b"
  defines "P \<equiv> if xs = [] then Head i a else Next_of (last xs)"
  defines "h1 \<equiv> place_set P (nexts h s) h"
  defines "h' \<equiv> place_set (Head i b) s (wr (s + 8) (place_get (Head i b) h1) h1)"
  shows "lists_ok h' (W(s \<mapsto> (i, b))) \<and> heads_only h h' \<and> (\<forall>x. rd x h' \<noteq> rd x h \<longrightarrow> (\<exists>t \<in> dom W. x = t + 8)) \<and>
    place_get (Head i b) h' = s"
proof -
  have len: "i < length (generic_caches h)" "length (generic_caches h) = 7" using ok i by (simp_all add: lists_ok_def)
  note U = unlinked [OF l len(1), folded P_def, folded h1_def]
  note H1 = heads_onlyD(3) [OF U(4)]
  have Ws: "W s = Some (i, a)" "s \<noteq> 0" and dist: "distinct (xs @ s # ys)" and set: "set (xs @ s # ys) = {t. W t = Some (i, a)}"
    using l chain_append_in [of "nexts h" _ xs s ys] by (auto simp: list_at_def)
  have nexts': "nexts h' = (nexts h1)(s := place_get (Head i b) h1)" by (simp add: h'_def nexts_wr)
  have head': "place_get (Head j w) h' = (if (j, w) = (i, b) then s else place_get (Head j w) h1)" for j w
    using len H1 by (simp add: h'_def place_get_set_head)
  have "\<exists>k. list_at h' (W(s \<mapsto> (i, b))) j w k" if j: "j < 7" for j w
  proof (cases "(j, w) = (i, a)")
    case True
    have "chain (nexts h') (place_get (Head i a) h') (xs @ ys)"
      using U(1) dist ab chain_upd [of s "xs @ ys" "nexts h1"] unfolding nexts' by (simp add: head')
    moreover have "set (xs @ ys) = {t. (W(s \<mapsto> (i, b))) t = Some (i, a)}" using set dist ab by auto
    ultimately have "list_at h' (W(s \<mapsto> (i, b))) i a (xs @ ys)" using dist by (simp add: list_at_def)
    then show ?thesis using True by blast
  next
    case ja: False
    obtain k where k: "list_at h W j w k" by (rule lists_okE [OF ok j])
    have "W t = Some (i, a)" if "t \<in> set xs" for t using set that by auto
    then have "t \<notin> set xs" if "t \<in> set k" for t using k that ja by (fastforce simp: list_at_def)
    then have k1: "list_at h1 W j w k"
      using U(2,3) ja by (intro list_at_frame [OF k]) auto
    show ?thesis
    proof (cases "(j, w) = (i, b)")
      case True
      have "list_at h' (W(s \<mapsto> (i, b))) i b (s # k)"
        unfolding h'_def using k1 True Ws ab len H1 by (intro list_at_push [where c = a]) auto
      then show ?thesis using True by blast
    next
      case False
      have "s \<notin> set k" using k Ws ja by (auto simp: list_at_def)
      then have "list_at h' (W(s \<mapsto> (i, b))) j w k"
        using False ja Ws by (intro list_at_frame [OF k1]) (auto simp: nexts' head')
      then show ?thesis by blast
    qed
  qed
  moreover have "length (generic_caches h') = 7" using H1 len by (simp add: h'_def place_set.simps)
  moreover have "heads_only h h'" unfolding h'_def by (intro heads_only_trans [OF U(4)] heads_only_trans [OF heads_only_wr heads_only_head])
  moreover have "\<exists>t \<in> dom W. x = t + 8" if d: "rd x h' \<noteq> rd x h" for x
  proof (cases "x = s + 8")
    case False
    then have "rd x h1 \<noteq> rd x h" using d by (simp add: h'_def rd_wr)
    from U(5) [OF this] show ?thesis using set by auto
  qed (use Ws in auto)
  moreover have "place_get (Head i b) h' = s" by (simp add: head')
  ultimately show ?thesis unfolding lists_ok_def by blast
qed

lemma move_slab_ok:
  assumes ok: "lists_ok h W" and s: "W s = Some (i, a)" and i: "i < 7" and ab: "a \<noteq> b"
  shows "\<exists>h'. move_slab i a b s h = Some h' \<and> lists_ok h' (W(s \<mapsto> (i, b))) \<and> heads_only h h' \<and>
    (\<forall>x. rd x h' \<noteq> rd x h \<longrightarrow> (\<exists>t \<in> dom W. x = t + 8))"
proof -
  obtain l where l: "list_at h W i a l" by (rule lists_okE [OF ok i])
  then have "s \<in> set l" using s by (simp add: list_at_def)
  then obtain xs ys where l': "l = xs @ s # ys" by (meson split_list)
  have c: "chain (nexts h) (place_get (Head i a) h) (xs @ s # ys)" "s \<notin> set xs" "s \<noteq> 0"
    using l l' chain_append_in [of "nexts h" _ xs s ys] by (auto simp: list_at_def)
  note F = find_place_chain [OF c(1,2)]
  have "rd (s + 8) h = nexts h s" by (simp add: nexts_def)
  with F c(3) relinked [OF ok l [unfolded l'] i ab] show ?thesis by (simp add: move_slab_def Let_def)
qed

section \<open>The heap invariant\<close>

text \<open>\<open>F s\<close> are the free objects of the slab \<open>s\<close>, in the order of its list.\<close>

definition slab_ok :: "kheap \<Rightarrow> nat \<Rightarrow> u32 \<Rightarrow> u32 list \<Rightarrow> bool" where
  "slab_ok h i s fs \<longleftrightarrow> rd s h = SLAB_MAGIC \<and> rd (s + 4) h = cache_ptr h i \<and> unat (rd (s + 12) h) = length fs \<and>
     chain (\<lambda>a. rd a h) (rd (s + 16) h) fs \<and> distinct fs \<and> set fs \<subseteq> set (objs i s)"

fun list_fits :: "nat \<Rightarrow> slab_list \<Rightarrow> u32 list \<Rightarrow> bool" where
  "list_fits i Full fs \<longleftrightarrow> fs = []"
| "list_fits i Partial fs \<longleftrightarrow> fs \<noteq> []"
| "list_fits i Empty fs \<longleftrightarrow> length fs = cap i"

definition slab_blocks :: "slab_where \<Rightarrow> (u32 \<times> int) multiset" where
  "slab_blocks W = image_mset (\<lambda>s. (s, 0)) (mset_set (dom W))"

definition heap_ok :: "kheap \<Rightarrow> slab_where \<Rightarrow> (u32 \<Rightarrow> u32 list) \<Rightarrow> (u32 \<times> int) multiset \<Rightarrow> bool" where
  "heap_ok h W F D \<longleftrightarrow> finite (dom W) \<and> pmm_run_inv (pm h) (slab_blocks W + D) \<and> lists_ok h W \<and>
     (\<forall>i < 7. obj_size (generic_caches h ! i) = of_nat (osize i)) \<and>
     (\<forall>s i w. W s = Some (i, w) \<longrightarrow> i < 7 \<and> slab_ok h i s (F s) \<and> list_fits i w (F s))"

lemma heap_okI:
  assumes "finite (dom W)" "pmm_run_inv (pm h) (slab_blocks W + D)" "lists_ok h W" "\<And>i. i < 7 \<Longrightarrow> obj_size (generic_caches h ! i) = of_nat (osize i)"
    "\<And>s i w. W s = Some (i, w) \<Longrightarrow> i < 7 \<and> slab_ok h i s (F s) \<and> list_fits i w (F s)"
  shows "heap_ok h W F D"
  using assms by (auto simp: heap_ok_def)

lemma heap_okD:
  assumes "heap_ok h W F D"
  shows "finite (dom W)" "pmm_run_inv (pm h) (slab_blocks W + D)" "lists_ok h W" "i < 7 \<Longrightarrow> obj_size (generic_caches h ! i) = of_nat (osize i)"
    "W s = Some (i, w) \<Longrightarrow> i < 7" "W s = Some (i, w) \<Longrightarrow> slab_ok h i s (F s)" "W s = Some (i, w) \<Longrightarrow> list_fits i w (F s)"
    "length (generic_caches h) = 7"
  using assms by (auto simp: heap_ok_def lists_ok_def)

text \<open>Pages: each slab has its own, apart from the blocks.\<close>

lemma held_pages_union: "held_pages (A + B) = held_pages A + held_pages B"
  by (simp add: held_pages_def)

lemma block_pages_0: "block_pages 0 s = [page_no s]"
  by (simp add: block_pages_def)

lemma held_slab_blocks: "held_pages (slab_blocks W) = image_mset page_no (mset_set (dom W))"
  by (simp add: held_pages_def slab_blocks_def multiset.map_comp comp_def block_pages_0)

lemma held_once:
  assumes "pmm_run_inv s (A + B)"
  shows "p \<in># held_pages A \<Longrightarrow> p \<notin># held_pages B" "count (held_pages A) p \<le> 1"
proof -
  from assms obtain L where L: "free_page_mset L + held_pages (A + B) = managed_pages s" by (rule pmm_run_invE)
  have "count (free_page_mset L + held_pages (A + B)) p \<le> 1" unfolding L by (rule managed_pages_once)
  then have "count (held_pages A) p + count (held_pages B) p \<le> 1" by (simp add: held_pages_union)
  then show "p \<in># held_pages A \<Longrightarrow> p \<notin># held_pages B" "count (held_pages A) p \<le> 1"
    by (auto simp: not_in_iff simp flip: count_greater_zero_iff)
qed

lemma slab_in_blocks: "finite (dom W) \<Longrightarrow> W s = Some x \<Longrightarrow> (s, 0) \<in># slab_blocks W"
  by (auto simp: slab_blocks_def)

lemma pmm_block_page: "pmm_run_inv p (A + B) \<Longrightarrow> (s, n) \<in># A + B \<Longrightarrow> slab_page s"
proof -
  assume inv: "pmm_run_inv p (A + B)" and s: "(s, n) \<in># A + B"
  obtain L where L: "pmm_wf p L" by (rule pmm_run_invE [OF inv])
  have b: "pmm_block p n s" using inv s by (auto simp: pmm_run_inv_def)
  have t: "unat (total_pages p) \<le> 120832" using L pmm_listsD(3) by (auto simp: pmm_wf_def)
  have ok: "block_ok (unat (total_pages p)) (nat n) s" using b by (simp add: pmm_block_def)
  have "4096 * 1 \<le> (4096 :: nat) * 2 ^ nat n" by (intro mult_le_mono2) simp
  then show "slab_page s" using ok block_end_bound [OF ok t] by (auto simp: slab_page_def block_ok_def)
qed

lemma slab_pages:
  assumes "heap_ok h W F D" "W s = Some x"
  shows "slab_page s" "page_no s \<in># held_pages (slab_blocks W)" "page_no s \<notin># held_pages D"
proof -
  note D = heap_okD [OF assms(1)]
  have b: "(s, 0) \<in># slab_blocks W" by (rule slab_in_blocks [OF D(1) assms(2)])
  then show "slab_page s" by (intro pmm_block_page [OF D(2), of s 0]) simp
  show p: "page_no s \<in># held_pages (slab_blocks W)" using held_pagesI [OF b, of "page_no s"] by (simp add: block_pages_0)
  show "page_no s \<notin># held_pages D" using held_once(1) [OF D(2) p] .
qed

lemma slab_page_unique: "heap_ok h W F D \<Longrightarrow> W s = Some x \<Longrightarrow> W t = Some y \<Longrightarrow> page_no s = page_no t \<Longrightarrow> s = t"
  using slab_pages(1) slab_page_inj by blast

section \<open>What the clients hold\<close>

text \<open>Address and size of every object in use and of every block.\<close>

definition held_objs :: "slab_where \<Rightarrow> (u32 \<Rightarrow> u32 list) \<Rightarrow> (u32 \<times> nat) set" where
  "held_objs W F = {(a, osize i) |a i s w. W s = Some (i, w) \<and> a \<in> set (objs i s) - set (F s)}"

definition held_blocks :: "(u32 \<times> int) multiset \<Rightarrow> (u32 \<times> nat) set" where
  "held_blocks D = {(a, 4096 * 2 ^ nat n) |a n. (a, n) \<in># D}"

lemma held_blocks_add: "held_blocks (add_mset (a, n) D) = insert (a, 4096 * 2 ^ nat n) (held_blocks D)"
proof -
  have "held_blocks E = (\<lambda>(a, n). (a, 4096 * 2 ^ nat n)) ` set_mset E" for E by (auto simp: held_blocks_def)
  then show ?thesis by simp
qed

definition inside :: "u32 \<Rightarrow> u32 \<times> nat \<Rightarrow> bool" where
  "inside x b \<longleftrightarrow> unat (fst b) \<le> unat x \<and> unat x < unat (fst b) + snd b"

text \<open>The words the heap itself uses: slab headers and the first words of free objects.\<close>

definition own_word :: "slab_where \<Rightarrow> (u32 \<Rightarrow> u32 list) \<Rightarrow> u32 \<Rightarrow> bool" where
  "own_word W F x \<longleftrightarrow> (\<exists>s i w. W s = Some (i, w) \<and> (x \<in> {s, s + 4, s + 8, s + 12, s + 16} \<or> x \<in> set (F s)))"

lemma inside_page:
  assumes "slab_page s" "unat s \<le> unat x" "unat x < unat s + 4096"
  shows "page_no x = page_no s"
proof -
  have "x = s + of_nat (unat x - unat s)" using assms(2) by (simp add: word_unat_eq_iff [symmetric] of_nat_diff)
  moreover have "unat x - unat s < 4096" using assms(2,3) by linarith
  ultimately show ?thesis using in_page(2) [OF assms(1)] by metis
qed

lemma inside_block:
  assumes "slab_page a" "inside x (a, 4096 * 2 ^ nat n)"
  shows "page_no x \<in> set (block_pages (nat n) a)"
proof -
  obtain q where q: "unat a = 4096 * q" using assms(1) by (auto simp: slab_page_def dvd_def)
  then have "q \<le> unat x div 4096" "unat x div 4096 < q + 2 ^ nat n" using assms(2) by (auto simp: inside_def)
  then show ?thesis using q by (simp add: block_pages_def page_no_def)
qed

lemma inside_obj:
  assumes ok: "heap_ok h W F D" and s: "W s = Some (i, w)" and a: "a \<in> set (objs i s)" and x: "inside x (a, osize i)"
  shows "page_no x = page_no s" "unat s + 24 \<le> unat x"
proof -
  note page = slab_pages(1) [OF ok s]
  note O = objs_facts [OF page heap_okD(5) [OF ok s] a]
  show "page_no x = page_no s" using x O(3,4) by (intro inside_page [OF page]) (auto simp: inside_def)
  show "unat s + 24 \<le> unat x" using x O(3) by (simp add: inside_def)
qed

lemma own_word_page: "heap_ok h W F D \<Longrightarrow> W s = Some (i, w) \<Longrightarrow> x \<in> {s, s + 4, s + 8, s + 12, s + 16} \<or> x \<in> set (F s) \<Longrightarrow>
    page_no x = page_no s"
  using slab_words(5-) [OF slab_pages(1)] objs_facts(2) [OF slab_pages(1) heap_okD(5)] heap_okD(6) [of h W F D s i w]
  by (auto simp: slab_ok_def)

text \<open>The heap's own words are in no object or block that is held, and no two of these overlap.\<close>

lemma own_word_free:
  assumes ok: "heap_ok h W F D" and x: "own_word W F x" and b: "b \<in> held_objs W F \<union> held_blocks D"
  shows "\<not> inside x b"
proof
  assume ins: "inside x b"
  obtain s i w where s: "W s = Some (i, w)" and xs: "x \<in> {s, s + 4, s + 8, s + 12, s + 16} \<or> x \<in> set (F s)"
    using x by (auto simp: own_word_def)
  note page = own_word_page [OF ok s xs]
  note sp = slab_pages [OF ok s]
  from b show False
  proof
    assume "b \<in> held_objs W F"
    then obtain a j t v where t: "b = (a, osize j)" "W t = Some (j, v)" "a \<in> set (objs j t)" "a \<notin> set (F t)" by (auto simp: held_objs_def)
    note I = inside_obj [OF ok t(2,3) ins [unfolded t(1)]]
    have eq: "t = s" using slab_page_unique [OF ok t(2) s] I(1) page by simp
    with s t have ij: "j = i" by simp
    have "x \<in> set (F s)" using I(2) xs slab_words [OF sp(1)] by (auto simp: eq)
    then have "x \<in> set (objs i s)" "x \<noteq> a" using heap_okD(6) [OF ok s] t(4) eq by (auto simp: slab_ok_def)
    with objs_apart [OF sp(1) heap_okD(5) [OF ok s] _ _ this(2)] t(3) eq ij ins cap_facts(4) [OF heap_okD(5) [OF ok s]]
    show False by (auto simp: t(1) inside_def)
  next
    assume "b \<in> held_blocks D"
    then obtain a n where a: "b = (a, 4096 * 2 ^ nat n)" "(a, n) \<in># D" by (auto simp: held_blocks_def)
    have "slab_page a" by (rule pmm_block_page [OF heap_okD(2) [OF ok], of a n]) (simp add: a(2))
    from inside_block [OF this ins [unfolded a(1)]] held_pagesI [OF a(2)] page sp(3) show False by simp
  qed
qed

lemma mset_member_sub: "(a, n) \<in># D \<Longrightarrow> (b, m) \<in># D \<Longrightarrow> (a, n) \<noteq> (b, m) \<Longrightarrow> \<exists>E. D = add_mset (a, n) (add_mset (b, m) E)"
  by (metis insert_DiffM insert_noteq_member)

lemma held_apart:
  assumes ok: "heap_ok h W F D" and b: "b \<in> held_objs W F \<union> held_blocks D" "c \<in> held_objs W F \<union> held_blocks D" "b \<noteq> c"
  shows "\<not> (inside x b \<and> inside x c)"
proof -
  note D = heap_okD [OF ok]
  have obj: "\<exists>s i w. b = (a, osize i) \<and> W s = Some (i, w) \<and> a \<in> set (objs i s) \<and> page_no x = page_no s"
    if "b \<in> held_objs W F" "inside x b" "b = (a, k)" for b a k
    using that inside_obj(1) [OF ok] by (fastforce simp: held_objs_def)
  have blk: "\<exists>n. (fst c, n) \<in># D \<and> c = (fst c, 4096 * 2 ^ nat n) \<and> page_no x \<in> set (block_pages (nat n) (fst c))"
    if c: "c \<in> held_blocks D" "inside x c" for c
  proof -
    obtain a n where a: "c = (a, 4096 * 2 ^ nat n)" "(a, n) \<in># D" using c(1) by (auto simp: held_blocks_def)
    have "slab_page a" by (rule pmm_block_page [OF D(2), of a n]) (simp add: a(2))
    from inside_block [OF this c(2) [unfolded a(1)]] a show ?thesis by auto
  qed
  have mixed: False if mx: "b \<in> held_objs W F" "inside x b" "c \<in> held_blocks D" "inside x c" for b c
  proof -
    obtain s i w where "W s = Some (i, w)" "page_no x = page_no s" using obj [OF mx(1,2)] by (metis surj_pair)
    moreover obtain n where "(fst c, n) \<in># D" "page_no x \<in> set (block_pages (nat n) (fst c))" using blk [OF mx(3,4)] by blast
    ultimately show False using slab_pages(3) [OF ok] held_pagesI by metis
  qed
  have objects: False if oo: "b \<in> held_objs W F" "inside x b" "c \<in> held_objs W F" "inside x c"
  proof -
    obtain s i w where s: "b = (fst b, osize i)" "W s = Some (i, w)" "fst b \<in> set (objs i s)" "page_no x = page_no s"
      using obj [OF oo(1,2)] by (metis prod.collapse)
    obtain t j v where t: "c = (fst c, osize j)" "W t = Some (j, v)" "fst c \<in> set (objs j t)" "page_no x = page_no t"
      using obj [OF oo(3,4)] by (metis prod.collapse)
    have "t = s" using slab_page_unique [OF ok t(2) s(2)] s(4) t(4) by simp
    then have ij: "j = i" using s(2) t(2) by simp
    then have "fst b \<noteq> fst c" using b(3) s(1) t(1) by metis
    moreover have "fst c \<in> set (objs i s)" using t(3) \<open>t = s\<close> ij by simp
    ultimately have "unat (fst b) + osize i \<le> unat (fst c) \<or> unat (fst c) + osize i \<le> unat (fst b)"
      using objs_apart [OF slab_pages(1) [OF ok s(2)] D(5) [OF s(2)] s(3)] by blast
    moreover have "snd b = osize i" "snd c = osize i" using s(1) t(1) ij by (metis snd_conv)+
    ultimately show False using oo(2,4) by (auto simp: inside_def)
  qed
  have blocks: False if bb: "b \<in> held_blocks D" "inside x b" "c \<in> held_blocks D" "inside x c"
  proof -
    obtain n where n: "(fst b, n) \<in># D" "b = (fst b, 4096 * 2 ^ nat n)" "page_no x \<in> set (block_pages (nat n) (fst b))" using blk [OF bb(1,2)] by blast
    obtain m where m: "(fst c, m) \<in># D" "c = (fst c, 4096 * 2 ^ nat m)" "page_no x \<in> set (block_pages (nat m) (fst c))" using blk [OF bb(3,4)] by blast
    have "(fst b, n) \<noteq> (fst c, m)" using b(3) n(2) m(2) by auto
    from mset_member_sub [OF n(1) m(1) this] obtain E where E: "D = {#(fst b, n)#} + add_mset (fst c, m) E" by auto
    have "pmm_run_inv (pm h) ({#(fst b, n)#} + (add_mset (fst c, m) E + slab_blocks W))" using D(2) unfolding E by (simp add: ac_simps)
    from held_once(1) [OF this, of "page_no x"] n(3) m(3) show False by (simp add: held_pages_union)
  qed
  show ?thesis using b mixed objects blocks by blast
qed

section \<open>Steps keep the invariant\<close>

lemma heap_update:
  assumes ok: "heap_ok h W F D" and heads: "heads_only h h'" and lists: "lists_ok h' W'" and dom: "dom W' = dom W"
    and mem: "\<And>x. rd x h' \<noteq> rd x h \<Longrightarrow> page_no x \<in># held_pages (slab_blocks W + D)"
    and slabs: "\<And>s i w. W' s = Some (i, w) \<Longrightarrow> i < 7 \<and> slab_ok h' i s (F' s) \<and> list_fits i w (F' s)"
  shows "heap_ok h' W' F' D"
proof (rule heap_okI)
  note D = heap_okD [OF ok] and H = heads_onlyD [OF heads]
  have "slab_blocks W' = slab_blocks W" by (simp add: slab_blocks_def dom)
  moreover have "pmm_run_inv ((pm h)\<lparr>mem := mem (pm h')\<rparr>) (slab_blocks W + D)"
    by (rule pmm_run_inv_mem [OF D(2)]) (use mem in \<open>simp add: rd_def\<close>)
  ultimately show "pmm_run_inv (pm h') (slab_blocks W' + D)" using H(1) by simp
  show "finite (dom W')" using D(1) dom by simp
  show "i < 7 \<Longrightarrow> obj_size (generic_caches h' ! i) = of_nat (osize i)" for i using H(5) D(4,8) by simp
qed (use lists slabs in blast)+

text \<open>A slab stays as it is when only its \<open>next\<close> field changes on its page.\<close>

lemma slab_ok_frame:
  assumes ok: "slab_ok h i s fs" and page: "slab_page s" and i: "i < 7" and caches: "caches_at h' = caches_at h"
    and mem: "\<And>x. page_no x = page_no s \<Longrightarrow> rd x h' \<noteq> rd x h \<Longrightarrow> x = s + 8"
  shows "slab_ok h' i s fs"
proof -
  have eq: "rd x h' = rd x h" if "page_no x = page_no s" "x \<noteq> s + 8" for x using mem [OF that(1)] that(2) by blast
  note H = slab_words [OF page]
  have ne: "s \<noteq> s + 8" "s + 4 \<noteq> s + 8" "s + 12 \<noteq> s + 8" "s + 16 \<noteq> s + 8" by simp_all
  have "chain (\<lambda>a. rd a h') p fs = chain (\<lambda>a. rd a h) p fs" for p
    using ok objs_facts(2,7) [OF page i] by (intro nexts_chain_cong eq) (auto simp: slab_ok_def)
  then show ?thesis using ok H ne caches by (simp add: slab_ok_def eq cache_ptr_def)
qed

lemma free_obj_place:
  assumes "slab_ok h i s fs" "slab_page s" "i < 7" "b \<in> set fs"
  shows "page_no b = page_no s \<and> b \<noteq> s \<and> b \<noteq> s + 8 \<and> b \<noteq> s + 12 \<and> b \<noteq> s + 16"
proof -
  have "b \<in> set (objs i s)" using assms(1,4) by (auto simp: slab_ok_def)
  with objs_facts [OF assms(2,3) this] show ?thesis by simp
qed

lemma slab_ok_take:
  assumes ok: "slab_ok h i s (a # fs)" and page: "slab_page s" and i: "i < 7" and caches: "caches_at h' = caches_at h"
    and mem: "rd (s + 16) h' = rd a h" "rd (s + 12) h' = rd (s + 12) h - 1"
      "\<And>x. page_no x = page_no s \<Longrightarrow> x \<noteq> s + 8 \<Longrightarrow> x \<noteq> s + 12 \<Longrightarrow> x \<noteq> s + 16 \<Longrightarrow> rd x h' = rd x h"
  shows "slab_ok h' i s fs"
proof -
  note H = slab_words [OF page]
  have ne: "s \<noteq> s + 8" "s + 4 \<noteq> s + 8" "s \<noteq> s + 12" "s + 4 \<noteq> s + 12" "s \<noteq> s + 16" "s + 4 \<noteq> s + 16" by simp_all
  have "chain (\<lambda>b. rd b h') p fs = chain (\<lambda>b. rd b h) p fs" for p
    using free_obj_place [OF ok page i] by (intro nexts_chain_cong mem(3)) auto
  moreover have "unat (rd (s + 12) h - 1) = length fs"
    using ok by (subst unat_sub) (auto simp: slab_ok_def word_le_nat_alt)
  ultimately show ?thesis using ok H ne caches by (simp add: slab_ok_def mem cache_ptr_def)
qed

lemma slab_ok_put:
  assumes ok: "slab_ok h i s fs" and page: "slab_page s" and i: "i < 7" and caches: "caches_at h' = caches_at h" and a: "a \<in> set (objs i s)" "a \<notin> set fs"
    and mem: "rd a h' = rd (s + 16) h" "rd (s + 16) h' = a" "rd (s + 12) h' = rd (s + 12) h + 1"
      "\<And>x. page_no x = page_no s \<Longrightarrow> x \<noteq> a \<Longrightarrow> x \<noteq> s + 8 \<Longrightarrow> x \<noteq> s + 12 \<Longrightarrow> x \<noteq> s + 16 \<Longrightarrow> rd x h' = rd x h"
  shows "slab_ok h' i s (a # fs)"
proof -
  note H = slab_words [OF page] and A = objs_facts [OF page i a(1)]
  have ne: "s \<noteq> s + 8" "s + 4 \<noteq> s + 8" "s \<noteq> s + 12" "s + 4 \<noteq> s + 12" "s \<noteq> s + 16" "s + 4 \<noteq> s + 16" by simp_all
  have "chain (\<lambda>b. rd b h') p fs = chain (\<lambda>b. rd b h) p fs" for p
    using free_obj_place [OF ok page i] a(2) by (intro nexts_chain_cong mem(4)) auto
  moreover have "unat (rd (s + 12) h + 1) = Suc (length fs)"
  proof -
    have "length fs \<le> cap i"
      using ok card_mono [of "set (objs i s)" "set fs"] distinct_card [of fs] card_length [of "objs i s"] objs_distinct(2) [OF page i]
      by (simp add: slab_ok_def)
    then have "unat (rd (s + 12) h) \<le> 127" using ok cap_facts(2) [OF i] by (simp add: slab_ok_def)
    then show ?thesis using ok by (simp add: slab_ok_def unat_word_ariths)
  qed
  ultimately show ?thesis using ok H ne A a caches by (simp add: slab_ok_def mem cache_ptr_def)
qed

text \<open>What is held depends on the cache of each slab only, not on its list.\<close>

definition same_caches :: "slab_where \<Rightarrow> slab_where \<Rightarrow> bool" where
  "same_caches W W' \<longleftrightarrow> (\<forall>s. map_option fst (W' s) = map_option fst (W s))"

lemma same_cachesD:
  assumes "same_caches W W'"
  shows "dom W' = dom W" "(\<exists>w. W' s = Some (i, w)) \<longleftrightarrow> (\<exists>w. W s = Some (i, w))"
proof -
  have eq: "map_option fst (W' s) = map_option fst (W s)" for s using assms by (simp add: same_caches_def)
  show "dom W' = dom W"
  proof (intro set_eqI)
    fix s show "s \<in> dom W' \<longleftrightarrow> s \<in> dom W" using eq [of s] by (cases "W s"; cases "W' s") auto
  qed
  show "(\<exists>w. W' s = Some (i, w)) \<longleftrightarrow> (\<exists>w. W s = Some (i, w))" using eq [of s] by (cases "W s"; cases "W' s") auto
qed

lemma same_caches_upd: "W s = Some (i, a) \<Longrightarrow> same_caches W (W(s \<mapsto> (i, b)))"
  by (simp add: same_caches_def)

lemma same_caches_refl [simp]: "same_caches W W"
  by (simp add: same_caches_def)

lemma held_objs_same: "same_caches W W' \<Longrightarrow> held_objs W' F = held_objs W F"
  unfolding held_objs_def using same_cachesD(2) by blast

lemma own_word_same: "same_caches W W' \<Longrightarrow> own_word W' F = own_word W F"
  unfolding own_word_def fun_eq_iff using same_cachesD(2) by blast

lemma held_objs_take:
  assumes "W s = Some (i, w)" "F s = a # fs" "distinct (F s)" "set (F s) \<subseteq> set (objs i s)"
  shows "held_objs W (F(s := fs)) = insert (a, osize i) (held_objs W F)"
proof (intro set_eqI iffI)
  fix b assume "b \<in> held_objs W (F(s := fs))"
  then obtain c j t v where t: "b = (c, osize j)" "W t = Some (j, v)" "c \<in> set (objs j t)" "c \<notin> set ((F(s := fs)) t)" by (auto simp: held_objs_def)
  show "b \<in> insert (a, osize i) (held_objs W F)"
  proof (cases "t = s \<and> c = a")
    case True
    then show ?thesis using t(1,2) assms(1) by simp
  next
    case False
    then have "c \<notin> set (F t)" using t(4) assms(2) by (auto split: if_splits)
    then show ?thesis using t by (auto simp: held_objs_def)
  qed
next
  fix b assume "b \<in> insert (a, osize i) (held_objs W F)"
  then show "b \<in> held_objs W (F(s := fs))"
  proof
    assume "b = (a, osize i)"
    then show ?thesis using assms by (auto simp: held_objs_def intro!: exI [of _ s])
  next
    assume "b \<in> held_objs W F"
    then obtain c j t v where t: "b = (c, osize j)" "W t = Some (j, v)" "c \<in> set (objs j t)" "c \<notin> set (F t)" by (auto simp: held_objs_def)
    then have "c \<notin> set ((F(s := fs)) t)" using assms(2) by auto
    then show ?thesis using t(1-3) unfolding held_objs_def by blast
  qed
qed

lemma own_word_held_page:
  assumes "heap_ok h W F D" "own_word W F x"
  shows "page_no x \<in># held_pages (slab_blocks W + D)"
proof -
  obtain s i w where s: "W s = Some (i, w)" "x \<in> {s, s + 4, s + 8, s + 12, s + 16} \<or> x \<in> set (F s)"
    using assms(2) by (auto simp: own_word_def)
  from own_word_page [OF assms(1) s] slab_pages(2) [OF assms(1) s(1)] show ?thesis by (simp add: held_pages_union)
qed

lemma lists_ok_frame:
  assumes ok: "lists_ok h W" and nexts: "\<And>t. t \<in> dom W \<Longrightarrow> nexts h' t = nexts h t" and caches: "generic_caches h' = generic_caches h"
  shows "lists_ok h' W"
proof -
  have "\<exists>l. list_at h' W i w l" if i: "i < 7" for i w
  proof -
    obtain l where l: "list_at h W i w l" by (rule lists_okE [OF ok i])
    then have "t \<in> dom W" if "t \<in> set l" for t using that by (auto simp: list_at_def)
    then have "list_at h' W i w l" using nexts by (intro list_at_frame [OF l]) (auto simp: caches place_get.simps)
    then show ?thesis by blast
  qed
  then show ?thesis using ok caches by (auto simp: lists_ok_def)
qed

text \<open>Fields of a slab are not the \<open>next\<close> field of another.\<close>

lemma next_field_apart:
  assumes ok: "heap_ok h W F D" and s: "W s = Some x" "W t = Some y"
  shows "t + 8 \<noteq> s + 12" "t + 8 \<noteq> s + 16" "t + 8 \<noteq> s"
proof -
  note P = slab_pages(1) [OF ok s(1)] slab_pages(1) [OF ok s(2)]
  have "t = s" if "page_no (t + 8) = page_no s" using that slab_words(6) [OF P(2)] slab_page_unique [OF ok s(2,1)] by simp
  then show "t + 8 \<noteq> s + 12" "t + 8 \<noteq> s + 16" "t + 8 \<noteq> s"
    using slab_words [OF P(1)] by (metis add_left_imp_eq numeral_eq_iff semiring_norm(85,87,89,90) zero_neq_numeral add.right_neutral)+
qed

lemma first_partial:
  assumes "lists_ok h W" "W s = Some (i, a)" "i < 7" "place_get (Head i a) h = s"
  obtains ys where "list_at h W i a (s # ys)"
proof -
  obtain l where l: "list_at h W i a l" by (rule lists_okE [OF assms(1,3)])
  then have "l \<noteq> []" using assms(2) by (auto simp: list_at_def)
  then have "l = s # tl l" using l assms(4) by (cases l) (auto simp: list_at_def)
  then show ?thesis using l that [of "tl l"] by simp
qed

text \<open>Taking an object from the first partial slab.\<close>

definition take_from :: "nat \<Rightarrow> u32 \<Rightarrow> kheap \<Rightarrow> u32 \<times> kheap" where
  "take_from i slab h =
     (let obj = rd (slab + 16) h;
          h = wr (slab + 16) (rd obj h) h;
          h = wr (slab + 12) (rd (slab + 12) h - 1) h
      in if rd (slab + 12) h = 0 then
           let h = place_set (Head i Partial) (rd (slab + 8) h) h;
               h = wr (slab + 8) (place_get (Head i Full) h) h
           in (obj, place_set (Head i Full) slab h)
         else (obj, h))"

lemma slab_cache_alloc_take: "slab_cache_alloc i h = (let (slab, h) = usable_slab i h in if slab = 0 then (0, h) else take_from i slab h)"
  unfolding slab_cache_alloc_def take_from_def by (rule refl)

lemma take_from_ok:
  assumes ok: "heap_ok h W F D" and s: "W s = Some (i, Partial)" and head: "place_get (Head i Partial) h = s"
    and run: "take_from i s h = (a, h')"
  shows "\<exists>W' F'. heap_ok h' W' F' D \<and> held_objs W' F' = insert (a, osize i) (held_objs W F) \<and> a \<noteq> 0 \<and>
    (\<forall>x. rd x h' \<noteq> rd x h \<longrightarrow> own_word W F x)"
proof -
  note D = heap_okD [OF ok]
  note i = D(5) [OF s] and page = slab_pages(1) [OF ok s] and S = D(6) [OF s]
  obtain b fs where F: "F s = b # fs" using D(7) [OF s] by (cases "F s") auto
  have b: "rd (s + 16) h = b" "b \<in> set (objs i s)" "b \<noteq> 0" using S F by (auto simp: slab_ok_def)
  define h1 where "h1 = wr (s + 12) (rd (s + 12) (wr (s + 16) (rd b h) h) - 1) (wr (s + 16) (rd b h) h)"
  have rd1: "rd x h1 = (if x = s + 12 then rd (s + 12) h - 1 else if x = s + 16 then rd b h else rd x h)" for x
    by (simp add: h1_def rd_wr)
  have caches1: "generic_caches h1 = generic_caches h" "heads_only h h1"
    by (simp add: h1_def) (auto simp: h1_def intro: heads_only_trans [OF heads_only_wr heads_only_wr])
  have "nexts h1 t = nexts h t" if "W t = Some y" for t y
    using next_field_apart [OF ok s that] by (simp add: nexts_def rd1)
  then have lists1: "lists_ok h1 W" using caches1(1) by (intro lists_ok_frame [OF D(3)]) auto
  let ?h2 = "if fs = [] then place_set (Head i Full) s (wr (s + 8) (place_get (Head i Full) (place_set (Head i Partial) (nexts h1 s) h1))
      (place_set (Head i Partial) (nexts h1 s) h1)) else h1"
  let ?W = "if fs = [] then W(s \<mapsto> (i, Full)) else W"
  have cnt: "rd (s + 12) h1 = 0 \<longleftrightarrow> fs = []"
  proof -
    have "unat (rd (s + 12) h - 1) = length fs"
      using S F by (subst unat_sub) (auto simp: slab_ok_def word_le_nat_alt)
    moreover have "rd (s + 12) h1 = rd (s + 12) h - 1" by (simp add: rd1)
    ultimately show ?thesis by (metis length_0_conv unat_eq_zero unat_0)
  qed
  have "take_from i s h = (b, ?h2)"
    unfolding take_from_def Let_def b(1) h1_def [symmetric] using cnt by (simp add: nexts_def)
  then have run': "a = b" "h' = ?h2" using run by simp_all
  have L: "lists_ok h' ?W \<and> heads_only h1 h' \<and> (\<forall>x. rd x h' \<noteq> rd x h1 \<longrightarrow> (\<exists>t \<in> dom W. x = t + 8))"
  proof (cases "fs = []")
    case True
    obtain ys where "list_at h1 W i Partial (s # ys)"
      by (rule first_partial [OF lists1 s i]) (use head caches1 in \<open>auto simp: place_get.simps\<close>)
    then have "list_at h1 W i Partial ([] @ s # ys)" by simp
    from relinked [OF lists1 this i, of Full] True show ?thesis by (simp add: run')
  next
    case False
    then show ?thesis using lists1 by (simp add: run')
  qed
  have heads: "heads_only h h'" using L caches1(2) heads_only_trans by blast
  have own: "own_word W F x" if "rd x h' \<noteq> rd x h" for x
  proof (cases "rd x h' = rd x h1")
    case True
    then show ?thesis using that s by (auto simp: rd1 own_word_def split: if_splits)
  next
    case False
    then show ?thesis using L by (fastforce simp: own_word_def)
  qed
  have only8: "rd x h' = rd x h1" if "W t = Some y" "page_no x = page_no t" "x \<noteq> t + 8" for x t y
  proof (rule ccontr)
    assume "rd x h' \<noteq> rd x h1"
    then obtain u z where u: "W u = Some z" "x = u + 8" using L by blast
    then have "u = t" using slab_page_unique [OF ok u(1) that(1)] slab_words(6) [OF slab_pages(1) [OF ok u(1)]] that(2) by simp
    with u that show False by simp
  qed
  have slabs: "j < 7 \<and> slab_ok h' j t ((F(s := fs)) t) \<and> list_fits j w ((F(s := fs)) t)" if t: "?W t = Some (j, w)" for t j w
  proof (cases "t = s")
    case True
    with t s have ji: "j = i" and fits: "list_fits i w fs" by (auto split: if_splits)
    have "slab_ok h' i s fs"
      using only8 [OF s] slab_words [OF page]
      by (intro slab_ok_take [OF S [unfolded F] page i heads_onlyD(2) [OF heads]]) (auto simp: rd1)
    then show ?thesis using True ji i fits by simp
  next
    case False
    then have t': "W t = Some (j, w)" using t by (auto split: if_splits)
    have "rd x h' = rd x h" if "page_no x = page_no t" "x \<noteq> t + 8" for x
      using only8 [OF t' that] that(1) slab_words [OF page] slab_page_unique [OF ok t' s] False by (auto simp: rd1)
    then have "slab_ok h' j t (F t)"
      by (intro slab_ok_frame [OF D(6) [OF t'] slab_pages(1) [OF ok t'] D(5) [OF t'] heads_onlyD(2) [OF heads]]) blast
    then show ?thesis using False D(5,7) [OF t'] by simp
  qed
  have same: "same_caches W ?W" using same_caches_upd [of W s i Partial Full] s by simp
  have "heap_ok h' ?W (F(s := fs)) D"
    by (rule heap_update [OF ok heads _ same_cachesD(1) [OF same] own_word_held_page [OF ok own] slabs]) (use L in blast)
  moreover have "held_objs ?W (F(s := fs)) = insert (b, osize i) (held_objs W F)"
    unfolding held_objs_same [OF same] using S F s by (intro held_objs_take [where W = W and F = F and s = s and w = Partial]) (auto simp: slab_ok_def)
  ultimately show ?thesis using own b(3) run'(1) by blast
qed

section \<open>New slabs\<close>

lemma wr_fold_rd:
  assumes "distinct (map f ks)"
  shows "x \<notin> f ` set ks \<Longrightarrow> rd x (fold (\<lambda>k. wr (f k) (g k)) ks h) = rd x h"
    and "k \<in> set ks \<Longrightarrow> rd (f k) (fold (\<lambda>k. wr (f k) (g k)) ks h) = g k"
proof -
  show keep: "x \<notin> f ` set ks \<Longrightarrow> rd x (fold (\<lambda>k. wr (f k) (g k)) ks h) = rd x h" for x h and ks :: "'a list"
    by (induction ks arbitrary: h) (auto simp: rd_wr)
  show "k \<in> set ks \<Longrightarrow> rd (f k) (fold (\<lambda>k. wr (f k) (g k)) ks h) = g k"
    using assms
  proof (induction ks arbitrary: h)
    case (Cons j ks)
    show ?case
    proof (cases "k = j")
      case True
      then show ?thesis using Cons.prems keep [of "f j" ks] by (auto simp: rd_wr)
    next
      case False
      then show ?thesis using Cons by auto
    qed
  qed simp
qed

lemma wr_fold_frame:
  "heads_only h (fold (\<lambda>k. wr (f k) (g k)) ks h) \<and> generic_caches (fold (\<lambda>k. wr (f k) (g k)) ks h) = generic_caches h"
proof (induction ks arbitrary: h)
  case (Cons k ks)
  have "heads_only h (wr (f k) (g k) h)" by simp
  with Cons [of "wr (f k) (g k) h"] heads_only_trans show ?case by fastforce
qed simp

lemma chain_linked:
  assumes "\<And>k. Suc k < n \<Longrightarrow> m (f k) = f (Suc k)" "m (f (n - 1)) = 0" "\<And>k. k < n \<Longrightarrow> f k \<noteq> 0" "j < n"
  shows "chain m (f j) (map f [j ..< n])"
  using assms(4)
proof (induction "n - j" arbitrary: j)
  case (Suc d)
  show ?case
  proof (cases "Suc j < n")
    case True
    then have "chain m (f (Suc j)) (map f [Suc j ..< n])" using Suc by (intro Suc.hyps(1)) auto
    then show ?thesis using assms(1) [OF True] assms(3) [OF Suc.prems] Suc.prems by (simp add: upt_conv_Cons)
  next
    case False
    then have "n = Suc j" using Suc.prems by simp
    then show ?thesis using assms(2,3) by simp
  qed
qed simp

lemma slab_create_ok:
  assumes ok: "heap_ok h W F D" and i: "i < 7" and run: "slab_create i h = (s, h')"
  shows "if s = 0 then h' = h
    else slab_page s \<and> page_no s \<notin># held_pages (slab_blocks W + D) \<and> slab_ok h' i s (objs i s) \<and>
      generic_caches h' = generic_caches h \<and> caches_at h' = caches_at h \<and> pmm_run_inv (pm h') (add_mset (s, 0) (slab_blocks W + D)) \<and>
      (\<forall>x. page_no x \<in># held_pages (slab_blocks W + D) \<longrightarrow> rd x h' = rd x h)"
proof -
  note D = heap_okD [OF ok]
  obtain page p where al: "pmm_alloc_page 0 (pm h) = (page, p)" by fastforce
  show ?thesis
  proof (cases "page = 0")
    case True
    obtain L where "pmm_wf (pm h) L" by (rule pmm_run_invE [OF D(2)])
    from pmm_alloc_page_fail_same [OF this al [unfolded True]] show ?thesis using run al True by (simp add: slab_create_def)
  next
    case False
    let ?H = "slab_blocks W + D" and ?n = "of_nat (cap i) :: u32" and ?z = "of_nat (osize i) :: u32"
    note inv = pmm_run_inv_alloc [OF D(2) al False] and fresh = pmm_run_inv_alloc_fresh [OF D(2) al False]
    have "pmm_run_inv p ({#(page, 0)#} + ?H)" using inv by simp
    from pmm_block_page [OF this, of page 0] have sp: "slab_page page" by simp
    have new: "page_no page \<notin># held_pages ?H" using fresh by (simp add: block_pages_0)
    define h0 where "h0 = h\<lparr>pm := p\<rparr>"
    define h1 where "h1 = wr (page + 16) (page + header_size) (wr (page + 12) ?n (wr (page + 8) 0 (wr (page + 4) (cache_ptr h i) (wr page SLAB_MAGIC h0))))"
    define f where "f k = page + of_nat (24 + k * osize i)" for k
    have f: "page + header_size + of_nat k * ?z = f k" for k by (simp add: f_def header_24)
    have f': "page + header_size + (of_nat k + 1) * ?z = f (Suc k)" for k using f [of "Suc k"] by (simp add: add.commute)
    have objs: "objs i page = map f [0 ..< cap i]" by (simp add: objs_def f_def)
    have in_objs: "f k \<in> set (objs i page)" if "k < cap i" for k using that by (simp add: objs)
    have n1: "unat (?n - 1) = cap i - 1" using cap_facts [OF i] by (subst unat_sub) (auto simp: word_le_nat_alt)
    have last: "page + header_size + (?n - 1) * ?z = f (cap i - 1)"
    proof -
      have "?n - 1 = of_nat (cap i - 1)" using cap_facts(1) [OF i] by (simp add: of_nat_diff)
      then show ?thesis using f [of "cap i - 1"] by simp
    qed
    define h2 where "h2 = fold (\<lambda>k. wr (f k) (f (Suc k))) [0 ..< cap i - 1] h1"
    have link: "link_objs (page + header_size) ?z ?n h1 = h2"
      unfolding link_objs_def f f' n1 by (simp add: h2_def)
    have n0: "?n \<noteq> 0" using cap_facts(1,7) [OF i] by (metis less_irrefl unat_0)
    have create: "slab_create i h = (page, wr (f (cap i - 1)) 0 h2)"
      using al False D(4) [OF i] cap_facts(6) [OF i] n0
      by (simp add: slab_create_def Let_def h0_def [symmetric] h1_def [symmetric] link last cache_ptr_def)
         (simp add: h0_def h1_def link [unfolded h1_def h0_def cache_ptr_def] last cache_ptr_def)
    define hE where "hE = wr (f (cap i - 1)) 0 h2"
    have inj: "inj_on f {0 ..< cap i}" using objs_distinct(1) [OF sp i] by (simp add: objs distinct_map)
    have dist: "distinct (map f [0 ..< cap i - 1])"
      using inj_on_subset [OF inj, of "{0 ..< cap i - 1}"] by (auto simp: distinct_map)
    note fold_rd = wr_fold_rd [OF dist, where g = "\<lambda>k. f (Suc k)" and h = h1, folded h2_def]
    have links: "rd (f k) hE = (if k = cap i - 1 then 0 else f (Suc k))" if "k < cap i" for k
    proof -
      have "f k \<noteq> f (cap i - 1)" if "k \<noteq> cap i - 1"
        using inj_onD [OF inj, of k "cap i - 1"] that \<open>k < cap i\<close> by auto
      then show ?thesis using fold_rd(2) [of k] that by (auto simp: hE_def rd_wr)
    qed
    have other: "rd x hE = rd x h1" if "x \<notin> set (objs i page)" for x
    proof -
      have "x \<notin> f ` set [0 ..< cap i - 1]" "x \<noteq> f (cap i - 1)" using that cap_facts(1) [OF i] by (auto simp: objs)
      then show ?thesis using fold_rd(1) by (simp add: hE_def rd_wr)
    qed
    have caches: "generic_caches hE = generic_caches h" "heads_only h1 hE" "caches_at hE = caches_at h"
      using wr_fold_frame [of h1 f "\<lambda>k. f (Suc k)" "[0 ..< cap i - 1]", folded h2_def] heads_onlyD(2) [of h1 h2]
        heads_only_trans [of h1 h2] by (auto simp: hE_def h1_def h0_def)
    note O = objs_facts [OF sp i] and HW = slab_words [OF sp]
    have hdr: "x \<notin> set (objs i page)" if "x \<in> {page, page + 4, page + 8, page + 12, page + 16}" for x
      using that O(5-) by blast
    have ok': "slab_ok hE i page (objs i page)"
    proof -
      have "chain (\<lambda>a. rd a hE) (f 0) (map f [0 ..< cap i])"
        by (rule chain_linked) (use links cap_facts(1) [OF i] in_objs O(1) in auto)
      moreover have "f 0 = page + header_size" by (simp add: f_def header_24)
      ultimately show ?thesis
        using objs_distinct [OF sp i] cap_facts(7) [OF i] caches(3)
        by (simp add: slab_ok_def other [OF hdr] objs [symmetric] cache_ptr_def) (simp add: h1_def rd_wr cache_ptr_def)
    qed
    have far: "rd x hE = rd x h0" if "page_no x \<noteq> page_no page" for x
    proof -
      have "x \<notin> set (objs i page)" using that O(2) by blast
      moreover have "x \<notin> {page, page + 4, page + 8, page + 12, page + 16}" using that HW by auto
      ultimately show ?thesis using other by (simp add: h1_def rd_wr)
    qed
    have "rd x hE = rd x h" if "page_no x \<in># held_pages ?H" for x
    proof -
      have "page_no x \<noteq> page_no page" using that new by auto
      moreover have "rd x h0 = rd x h" using fresh that by (simp add: h0_def rd_def)
      ultimately show ?thesis using far by simp
    qed
    moreover have "pmm_run_inv (pm hE) (add_mset (page, 0) ?H)"
    proof -
      have "heads_only h0 hE" using caches(2) unfolding h1_def by (meson heads_only_trans heads_only_wr)
      moreover have "pmm_run_inv (p\<lparr>mem := mem (pm hE)\<rparr>) (add_mset (page, 0) ?H)"
        by (rule pmm_run_inv_mem [OF inv]) (use far in \<open>auto simp: rd_def h0_def block_pages_0\<close>)
      ultimately show ?thesis using heads_onlyD(1) [of h0 hE] by (simp add: h0_def)
    qed
    ultimately show ?thesis using run create [folded hE_def] False sp new ok' caches(1,3) by simp
  qed
qed

section \<open>Allocation\<close>

lemma held_in_pages:
  assumes ok: "heap_ok h W F D" and b: "b \<in> held_objs W F \<union> held_blocks D" and x: "inside x b"
  shows "page_no x \<in># held_pages (slab_blocks W + D)"
  using b
proof
  assume "b \<in> held_objs W F"
  then obtain a i s w where s: "b = (a, osize i)" "W s = Some (i, w)" "a \<in> set (objs i s)" by (auto simp: held_objs_def)
  from inside_obj(1) [OF ok s(2,3) x [unfolded s(1)]] slab_pages(2) [OF ok s(2)] show ?thesis by (simp add: held_pages_union)
next
  assume "b \<in> held_blocks D"
  then obtain a n where a: "b = (a, 4096 * 2 ^ nat n)" "(a, n) \<in># D" by (auto simp: held_blocks_def)
  have "slab_page a" using pmm_block_page [OF heap_okD(2) [OF ok], of a n] a(2) by simp
  from inside_block [OF this x [unfolded a(1)]] held_pagesI [OF a(2)] show ?thesis by (simp add: held_pages_union)
qed

text \<open>Whatever happens, the contents of what is held stay.\<close>

definition contents_kept :: "(u32 \<times> nat) set \<Rightarrow> kheap \<Rightarrow> kheap \<Rightarrow> bool" where
  "contents_kept H h h' \<longleftrightarrow> (\<forall>b \<in> H. \<forall>x. inside x b \<longrightarrow> rd x h' = rd x h)"

lemma contents_kept_own:
  assumes "heap_ok h W F D" "\<And>x. rd x h' \<noteq> rd x h \<Longrightarrow> own_word W F x"
  shows "contents_kept (held_objs W F \<union> held_blocks D) h h'"
  using own_word_free [OF assms(1)] assms(2) unfolding contents_kept_def by blast

lemma contents_kept_trans: "contents_kept H h h1 \<Longrightarrow> contents_kept H h1 h2 \<Longrightarrow> contents_kept H h h2"
  by (simp add: contents_kept_def)

lemma dom_next: "heap_ok h W F D \<Longrightarrow> \<forall>x. rd x h' \<noteq> rd x h \<longrightarrow> (\<exists>t \<in> dom W. x = t + 8) \<Longrightarrow> rd x h' \<noteq> rd x h \<Longrightarrow> own_word W F x"
  unfolding own_word_def by fastforce

lemma usable_empty:
  assumes ok: "heap_ok h W F D" and s: "W s = Some (i, Empty)" and head: "place_get (Head i Empty) h = s"
  defines "h1 \<equiv> place_set (Head i Empty) (rd (s + 8) h) h"
  defines "h' \<equiv> place_set (Head i Partial) s (wr (s + 8) (place_get (Head i Partial) h1) h1)"
  shows "heap_ok h' (W(s \<mapsto> (i, Partial))) F D \<and> place_get (Head i Partial) h' = s \<and> contents_kept (held_objs W F \<union> held_blocks D) h h'"
proof -
  note D = heap_okD [OF ok]
  obtain ys where l: "list_at h W i Empty ([] @ s # ys)"
    using first_partial [OF D(3) s D(5) [OF s] head] by (metis append_Nil)
  have R: "lists_ok h' (W(s \<mapsto> (i, Partial))) \<and> heads_only h h' \<and> (\<forall>x. rd x h' \<noteq> rd x h \<longrightarrow> (\<exists>t \<in> dom W. x = t + 8)) \<and>
      place_get (Head i Partial) h' = s"
    using relinked [OF D(3) l D(5) [OF s], of Partial] by (simp add: h'_def h1_def nexts_def)
  have own: "own_word W F x" if "rd x h' \<noteq> rd x h" for x using dom_next [OF ok _ that] R by blast
  have same: "same_caches W (W(s \<mapsto> (i, Partial)))" by (simp add: same_caches_def s)
  have "j < 7 \<and> slab_ok h' j t (F t) \<and> list_fits j w (F t)" if t: "(W(s \<mapsto> (i, Partial))) t = Some (j, w)" for t j w
  proof -
    obtain v where v: "W t = Some (j, v)" using t s by (auto split: if_splits)
    have "slab_ok h' j t (F t)"
    proof (rule slab_ok_frame [OF D(6) [OF v] slab_pages(1) [OF ok v] D(5) [OF v]])
      show "caches_at h' = caches_at h" using R heads_onlyD(2) by blast
      fix x assume x: "page_no x = page_no t" "rd x h' \<noteq> rd x h"
      then obtain u y where u: "W u = Some y" "x = u + 8" using R by blast
      then have "u = t" using slab_page_unique [OF ok u(1) v] slab_words(6) [OF slab_pages(1) [OF ok u(1)]] x(1) by simp
      with u show "x = t + 8" by simp
    qed
    moreover have "list_fits j w (F t)"
    proof (cases "t = s")
      case True
      then have "j = i" "w = Partial" "length (F s) = cap i" using t D(7) [OF s] by auto
      then show ?thesis using True cap_facts(1) [OF D(5) [OF s]] by auto
    next
      case False
      then show ?thesis using t D(7) by simp
    qed
    ultimately show ?thesis using D(5) [OF v] by blast
  qed
  then have "heap_ok h' (W(s \<mapsto> (i, Partial))) F D"
    using R by (intro heap_update [OF ok _ _ same_cachesD(1) [OF same] own_word_held_page [OF ok own]]) auto
  then show ?thesis using R contents_kept_own [OF ok own] by blast
qed

lemma usable_new:
  assumes ok: "heap_ok h W F D" and i: "i < 7" and run: "slab_create i h = (s, h1)" "s \<noteq> 0"
  defines "h' \<equiv> place_set (Head i Partial) s (wr (s + 8) (place_get (Head i Partial) h1) h1)"
  shows "heap_ok h' (W(s \<mapsto> (i, Partial))) (F(s := objs i s)) D \<and> place_get (Head i Partial) h' = s \<and>
    held_objs (W(s \<mapsto> (i, Partial))) (F(s := objs i s)) = held_objs W F \<and> contents_kept (held_objs W F \<union> held_blocks D) h h'"
proof -
  note D = heap_okD [OF ok]
  let ?W = "W(s \<mapsto> (i, Partial))" and ?F = "F(s := objs i s)" and ?H = "slab_blocks W + D"
  have C: "slab_page s" "page_no s \<notin># held_pages ?H" "slab_ok h1 i s (objs i s)" "generic_caches h1 = generic_caches h"
      "caches_at h1 = caches_at h" "pmm_run_inv (pm h1) (add_mset (s, 0) ?H)" "\<And>x. page_no x \<in># held_pages ?H \<Longrightarrow> rd x h1 = rd x h"
    using slab_create_ok [OF ok i run(1)] run(2) by auto
  have Ws: "W s = None" using C(2) slab_pages(2) [OF ok, of s] by (cases "W s") (auto simp: held_pages_union)
  have page8: "page_no (s + 8) = page_no s" by (rule slab_words(6) [OF C(1)])
  have rd': "rd x h' = (if x = s + 8 then place_get (Head i Partial) h1 else rd x h1)" for x by (simp add: h'_def rd_wr)
  have held: "rd x h' = rd x h" if "page_no x \<in># held_pages ?H" for x
    using that C(2,7) page8 by (auto simp: rd')
  have slab_held: "rd x h' = rd x h" if "W t = Some y" "page_no x = page_no t" for x t y
    using held [of x] slab_pages(2) [OF ok that(1)] that(2) by (simp add: held_pages_union)
  have caches: "caches_at h' = caches_at h" "length (generic_caches h') = 7"
    using C(4,5) D(8) by (simp_all add: h'_def place_set.simps)
  have nexts1: "nexts h1 t = nexts h t" if "W t = Some y" for t y
    using C(7) [of "t + 8"] slab_pages(2) [OF ok that] slab_words(6) [OF slab_pages(1) [OF ok that]] by (simp add: nexts_def held_pages_union)
  have lists: "lists_ok h' ?W"
  proof -
    have "\<exists>l. list_at h' ?W j w l" if j: "j < 7" for j w
    proof -
      obtain l where l: "list_at h W j w l" by (rule lists_okE [OF D(3) j])
      have l1: "list_at h1 W j w l"
        by (rule list_at_frame [OF l]) (use l nexts1 C(4) in \<open>auto simp: list_at_def place_get.simps\<close>)
      show ?thesis
      proof (cases "(j, w) = (i, Partial)")
        case True
        then have "list_at h' ?W i Partial (s # l)" unfolding h'_def using l1 Ws run(2) C(4) D(8) i by (intro list_at_push) auto
        then show ?thesis using True by blast
      next
        case False
        have "s \<notin> set l" using l Ws by (auto simp: list_at_def)
        then have "list_at h' ?W j w l"
          using False Ws C(4) D(8) i by (intro list_at_frame [OF l1]) (auto simp: h'_def nexts_wr place_get_set_head)
        then show ?thesis by blast
      qed
    qed
    then show ?thesis using caches(2) by (auto simp: lists_ok_def)
  qed
  have blocks: "slab_blocks ?W = add_mset (s, 0) (slab_blocks W)"
    using D(1) Ws by (simp add: slab_blocks_def mset_set.insert_remove) (metis Diff_empty Diff_insert0 domIff)
  have ok': "heap_ok h' ?W ?F D"
  proof (rule heap_okI)
    show "finite (dom ?W)" using D(1) by simp
    have "pmm_run_inv ((pm h1)\<lparr>mem := (mem (pm h1))(s + 8 := place_get (Head i Partial) h1)\<rparr>) (add_mset (s, 0) ?H)"
      by (rule pmm_run_inv_mem [OF C(6)]) (simp add: block_pages_0 page8 split: if_splits)
    moreover have "pm h' = (pm h1)\<lparr>mem := (mem (pm h1))(s + 8 := place_get (Head i Partial) h1)\<rparr>"
      by (simp add: h'_def place_set.simps wr_def)
    ultimately show "pmm_run_inv (pm h') (slab_blocks ?W + D)" by (simp add: blocks)
    show "lists_ok h' ?W" by (rule lists)
    show "obj_size (generic_caches h' ! j) = of_nat (osize j)" if "j < 7" for j
      using D(4) [OF that] C(4) that D(8) by (auto simp: h'_def place_set.simps nth_update_if)
    show "j < 7 \<and> slab_ok h' j t (?F t) \<and> list_fits j w (?F t)" if t: "?W t = Some (j, w)" for t j w
    proof (cases "t = s")
      case True
      then have jw: "j = i" "w = Partial" using t by auto
      have "slab_ok h' i s (objs i s)"
        by (rule slab_ok_frame [OF C(3,1) i]) (use caches C(5) in \<open>auto simp: rd' split: if_splits\<close>)
      moreover have "objs i s \<noteq> []" using objs_distinct(2) [OF C(1) i] cap_facts(1) [OF i] by auto
      ultimately show ?thesis using True jw i by simp
    next
      case False
      then have t': "W t = Some (j, w)" using t by simp
      have "slab_ok h' j t (F t)"
        by (rule slab_ok_frame [OF D(6) [OF t'] slab_pages(1) [OF ok t'] D(5) [OF t'] caches(1)]) (use slab_held [OF t'] in blast)
      then show ?thesis using False D(5,7) [OF t'] by simp
    qed
  qed
  have "held_objs ?W ?F = held_objs W F"
  proof (intro set_eqI iffI)
    fix b assume "b \<in> held_objs ?W ?F"
    then obtain a j t w where t: "b = (a, osize j)" "?W t = Some (j, w)" "a \<in> set (objs j t)" "a \<notin> set (?F t)" by (auto simp: held_objs_def)
    then have "t \<noteq> s" by auto
    then show "b \<in> held_objs W F" using t unfolding held_objs_def by auto
  next
    fix b assume "b \<in> held_objs W F"
    then obtain a j t w where t: "b = (a, osize j)" "W t = Some (j, w)" "a \<in> set (objs j t)" "a \<notin> set (F t)" by (auto simp: held_objs_def)
    then have "t \<noteq> s" using Ws by auto
    then have "?W t = Some (j, w)" "a \<notin> set (?F t)" using t by auto
    then show "b \<in> held_objs ?W ?F" using t(1,3) unfolding held_objs_def by blast
  qed
  moreover have "place_get (Head i Partial) h' = s" using C(4) D(8) i by (simp add: h'_def place_get_set_head)
  moreover have "contents_kept (held_objs W F \<union> held_blocks D) h h'"
    using held held_in_pages [OF ok] by (simp add: contents_kept_def)
  ultimately show ?thesis using ok' by blast
qed

lemma usable_slab_ok:
  assumes ok: "heap_ok h W F D" and i: "i < 7" and run: "usable_slab i h = (s, h')"
  shows "if s = 0 then h' = h
    else \<exists>W' F'. heap_ok h' W' F' D \<and> W' s = Some (i, Partial) \<and> place_get (Head i Partial) h' = s \<and>
      held_objs W' F' = held_objs W F \<and> contents_kept (held_objs W F \<union> held_blocks D) h h'"
proof -
  note D = heap_okD [OF ok]
  have on_list: "\<exists>w. W t = Some (i, w) \<and> w = v" if "place_get (Head i v) h = t" "t \<noteq> 0" for v t
  proof -
    obtain l where l: "list_at h W i v l" by (rule lists_okE [OF D(3) i])
    then have "chain (nexts h) t l" using that(1) by (simp add: list_at_def)
    from chain_head [OF this that(2)] have "t \<in> set l" by (metis list.set_intros(1))
    then show ?thesis using l by (auto simp: list_at_def)
  qed
  let ?p = "place_get (Head i Partial) h" and ?e = "place_get (Head i Empty) h"
  consider "?p \<noteq> 0" | "?p = 0" "?e \<noteq> 0" | "?p = 0" "?e = 0" by blast
  then show ?thesis
  proof cases
    case 1
    then have "s = ?p" "h' = h" using run by (auto simp: usable_slab_def)
    moreover have "contents_kept (held_objs W F \<union> held_blocks D) h h" by (simp add: contents_kept_def)
    moreover have "W ?p = Some (i, Partial)" using on_list [OF refl 1] by auto
    ultimately show ?thesis using 1 ok by auto
  next
    case 2
    then have s: "W ?e = Some (i, Empty)" using on_list [OF refl 2(2)] by auto
    let ?h1 = "place_set (Head i Empty) (rd (?e + 8) h) h"
    have run': "s = ?e" "h' = place_set (Head i Partial) ?e (wr (?e + 8) (place_get (Head i Partial) ?h1) ?h1)"
      using run 2 by (auto simp: usable_slab_def Let_def)
    have "held_objs (W(?e \<mapsto> (i, Partial))) F = held_objs W F"
      using s by (intro held_objs_same) (simp add: same_caches_def)
    moreover have "(W(?e \<mapsto> (i, Partial))) ?e = Some (i, Partial)" by simp
    moreover note usable_empty [OF ok s refl]
    ultimately show ?thesis unfolding run' if_not_P [OF 2(2)] by blast
  next
    case 3
    obtain t h1 where c: "slab_create i h = (t, h1)" by fastforce
    show ?thesis
    proof (cases "t = 0")
      case True
      then show ?thesis using run 3 c slab_create_ok [OF ok i c] by (simp add: usable_slab_def)
    next
      case False
      then have run': "s = t" "h' = place_set (Head i Partial) t (wr (t + 8) (place_get (Head i Partial) h1) h1)"
        using run 3 c by (auto simp: usable_slab_def Let_def)
      moreover have "(W(t \<mapsto> (i, Partial))) t = Some (i, Partial)" by simp
      moreover note usable_new [OF ok i c False]
      ultimately show ?thesis unfolding run' if_not_P [OF False] by blast
    qed
  qed
qed

lemma slab_cache_alloc_ok:
  assumes ok: "heap_ok h W F D" and i: "i < 7" and run: "slab_cache_alloc i h = (a, h')"
  shows "if a = 0 then h' = h
    else \<exists>W' F'. heap_ok h' W' F' D \<and> (a, osize i) \<notin> held_objs W F \<and>
      held_objs W' F' = insert (a, osize i) (held_objs W F) \<and> contents_kept (held_objs W F \<union> held_blocks D) h h'"
proof -
  obtain s h1 where u: "usable_slab i h = (s, h1)" by fastforce
  show ?thesis
  proof (cases "s = 0")
    case True
    then show ?thesis using run u usable_slab_ok [OF ok i u] by (simp add: slab_cache_alloc_take)
  next
    case False
    then obtain W1 F1 where W1: "heap_ok h1 W1 F1 D" "W1 s = Some (i, Partial)" "place_get (Head i Partial) h1 = s"
        "held_objs W1 F1 = held_objs W F" "contents_kept (held_objs W F \<union> held_blocks D) h h1"
      using usable_slab_ok [OF ok i u] by auto
    have t: "take_from i s h1 = (a, h')" using run u False by (simp add: slab_cache_alloc_take)
    obtain W' F' where W': "heap_ok h' W' F' D" "held_objs W' F' = insert (a, osize i) (held_objs W1 F1)" "a \<noteq> 0"
        "\<And>x. rd x h' \<noteq> rd x h1 \<Longrightarrow> own_word W1 F1 x"
      using take_from_ok [OF W1(1-3) t] by blast
    have "F1 s \<noteq> [] \<and> a = hd (F1 s)"
    proof -
      have "slab_ok h1 i s (F1 s)" "F1 s \<noteq> []" using heap_okD(6,7) [OF W1(1,2)] by auto
      moreover have "a = rd (s + 16) h1" using t by (auto simp: take_from_def Let_def split: if_splits)
      ultimately show ?thesis by (cases "F1 s") (auto simp: slab_ok_def)
    qed
    then have "a \<in> set (F1 s)" by simp
    then have "own_word W1 F1 a" using W1(2) unfolding own_word_def by blast
    from own_word_free [OF W1(1) this, of "(a, osize i)"] have new: "(a, osize i) \<notin> held_objs W F"
      using cap_facts(4) [OF i] W1(4) by (auto simp: inside_def)
    have "contents_kept (held_objs W1 F1 \<union> held_blocks D) h1 h'" by (rule contents_kept_own [OF W1(1) W'(4)])
    then have "contents_kept (held_objs W F \<union> held_blocks D) h h'" using W1(4,5) contents_kept_trans by simp
    then show ?thesis using W' W1(4) new by auto
  qed
qed

section \<open>Freeing an object\<close>

lemma slab_cache_free_ok:
  assumes ok: "heap_ok h W F D" and s: "W s = Some (i, w)" and a: "a \<in> set (objs i s)" "a \<notin> set (F s)"
  shows "\<exists>h' W' F'. slab_cache_free i a h = Some h' \<and> heap_ok h' W' F' D \<and> held_objs W' F' = held_objs W F - {(a, osize i)} \<and>
    contents_kept ((held_objs W F \<union> held_blocks D) - {(a, osize i)}) h h'"
proof -
  note D = heap_okD [OF ok]
  note i = D(5) [OF s] and page = slab_pages(1) [OF ok s] and S = D(6) [OF s]
  note A = objs_facts [OF page i a(1)] and HW = slab_words [OF page]
  have round: "a AND NOT 4095 = s" by (rule round_down [OF page A(2)])
  let ?fs = "F s"
  define h1 where "h1 = (let h = wr a (rd (s + 16) h) h; h = wr (s + 16) a h in wr (s + 12) (rd (s + 12) h + 1) h)"
  have rd1: "rd x h1 = (if x = s + 12 then rd (s + 12) h + 1 else if x = s + 16 then a else if x = a then rd (s + 16) h else rd x h)" for x
    using A(8) by (auto simp: h1_def Let_def rd_wr)
  have caches1: "generic_caches h1 = generic_caches h" "heads_only h h1"
    by (simp add: h1_def Let_def) (auto simp: h1_def Let_def intro: heads_only_trans [OF heads_only_trans [OF heads_only_wr heads_only_wr] heads_only_wr])
  have apart: "t + 8 \<noteq> a" if "W t = Some y" for t y
  proof
    assume eq: "t + 8 = a"
    then have "t = s" using slab_page_unique [OF ok that s] slab_words(6) [OF slab_pages(1) [OF ok that]] A(2) by simp
    then show False using eq A(7) by simp
  qed
  have "nexts h1 t = nexts h t" if "W t = Some y" for t y
    using next_field_apart [OF ok s that] apart [OF that] by (simp add: nexts_def rd1)
  then have lists1: "lists_ok h1 W" using caches1(1) by (intro lists_ok_frame [OF D(3)]) auto
  have count: "length ?fs < cap i"
  proof -
    have "card (set ?fs) < card (set (objs i s))" using S a by (intro psubset_card_mono) (auto simp: slab_ok_def)
    then show ?thesis using S objs_distinct [OF page i] by (simp add: slab_ok_def distinct_card)
  qed
  have old: "rd (s + 12) (wr (s + 16) a (wr a (rd (s + 16) h) h)) = rd (s + 12) h" using A(8) by (simp add: rd_wr)
  have full: "rd (s + 12) h = 0 \<longleftrightarrow> ?fs = []" using S by (simp add: slab_ok_def) (metis length_0_conv unat_0 unat_eq_zero)
  have total: "rd (s + 12) h + 1 = of_nat (cap i) \<longleftrightarrow> Suc (length ?fs) = cap i"
  proof -
    have "unat (rd (s + 12) h + 1) = Suc (length ?fs)"
      using S count cap_facts(2) [OF i] by (simp add: slab_ok_def unat_word_ariths)
    then show ?thesis using cap_facts(7) [OF i] by (metis word_unat_eq_iff)
  qed
  let ?W = "if ?fs = [] then W(s \<mapsto> (i, Partial)) else if Suc (length ?fs) = cap i then W(s \<mapsto> (i, Empty)) else W"
  have free: "slab_cache_free i a h = (if ?fs = [] then move_slab i Full Partial s h1
      else if Suc (length ?fs) = cap i then move_slab i Partial Empty s h1 else Some h1)"
  proof -
    have "rd s h = SLAB_MAGIC" using S by (simp add: slab_ok_def)
    moreover have "rd (s + 12) h1 = rd (s + 12) h + 1" by (simp add: rd1)
    moreover have "(PAGE_SIZE - header_size) div obj_size (generic_caches h1 ! i) = of_nat (cap i)"
      using D(4) [OF i] cap_facts(6) [OF i] caches1(1) by simp
    ultimately show ?thesis unfolding slab_cache_free_def round Let_def old h1_def [unfolded Let_def old, symmetric] using full total by simp
  qed
  have where_s: "?fs = [] \<Longrightarrow> w = Full" "?fs \<noteq> [] \<Longrightarrow> w = Partial"
    using D(7) [OF s] count cap_facts(1) [OF i] by (cases w; auto)+
  obtain h' where h': "slab_cache_free i a h = Some h'" "lists_ok h' ?W" "heads_only h1 h'"
      "\<And>x. rd x h' \<noteq> rd x h1 \<Longrightarrow> \<exists>t \<in> dom W. x = t + 8"
  proof -
    have m: "\<exists>h'. move_slab i x y s h1 = Some h' \<and> lists_ok h' (W(s \<mapsto> (i, y))) \<and> heads_only h1 h' \<and>
        (\<forall>x. rd x h' \<noteq> rd x h1 \<longrightarrow> (\<exists>t \<in> dom W. x = t + 8))" if "w = x" "x \<noteq> y" for x y
      by (rule move_slab_ok [OF lists1 _ i that(2)]) (use s that(1) in simp)
    consider "?fs = []" | "?fs \<noteq> []" "Suc (length ?fs) = cap i" | "?fs \<noteq> []" "Suc (length ?fs) \<noteq> cap i" by blast
    then show ?thesis
    proof cases
      case 1
      obtain k where "move_slab i Full Partial s h1 = Some k" "lists_ok k (W(s \<mapsto> (i, Partial)))" "heads_only h1 k"
          "\<And>x. rd x k \<noteq> rd x h1 \<Longrightarrow> \<exists>t \<in> dom W. x = t + 8"
        using m [of Full Partial] where_s(1) [OF 1] by blast
      with 1 show ?thesis by (intro that [of k]) (auto simp: free)
    next
      case 2
      obtain k where "move_slab i Partial Empty s h1 = Some k" "lists_ok k (W(s \<mapsto> (i, Empty)))" "heads_only h1 k"
          "\<And>x. rd x k \<noteq> rd x h1 \<Longrightarrow> \<exists>t \<in> dom W. x = t + 8"
        using m [of Partial Empty] where_s(2) [OF 2(1)] by blast
      with 2 show ?thesis by (intro that [of k]) (auto simp: free)
    next
      case 3
      with lists1 show ?thesis by (intro that [of h1]) (auto simp: free)
    qed
  qed
  have heads: "heads_only h h'" using h'(3) caches1(2) heads_only_trans by blast
  have changed: "own_word W F x \<or> x = a" if "rd x h' \<noteq> rd x h" for x
  proof (cases "rd x h' = rd x h1")
    case True
    then show ?thesis using that s by (auto simp: rd1 own_word_def split: if_splits)
  next
    case False
    then show ?thesis using h'(4) by (fastforce simp: own_word_def)
  qed
  have held_a: "(a, osize i) \<in> held_objs W F" using s a unfolding held_objs_def by blast
  have ins_a: "inside a (a, osize i)" using cap_facts(4) [OF i] by (simp add: inside_def)
  have only8: "rd x h' = rd x h1" if "W t = Some y" "page_no x = page_no t" "x \<noteq> t + 8" for x t y
  proof (rule ccontr)
    assume "rd x h' \<noteq> rd x h1"
    then obtain u z where u: "W u = Some z" "x = u + 8" using h'(4) by blast
    then have "u = t" using slab_page_unique [OF ok u(1) that(1)] slab_words(6) [OF slab_pages(1) [OF ok u(1)]] that(2) by simp
    with u that show False by simp
  qed
  have same: "same_caches W ?W" using s by (simp add: same_caches_def)
  have slabs: "j < 7 \<and> slab_ok h' j t ((F(s := a # ?fs)) t) \<and> list_fits j v ((F(s := a # ?fs)) t)" if t: "?W t = Some (j, v)" for t j v
  proof (cases "t = s")
    case True
    with t s have ji: "j = i" by (auto split: if_splits)
    have fits: "list_fits i v (a # ?fs)" using t True where_s s by (cases v) (auto split: if_splits)
    have "slab_ok h' i s (a # ?fs)"
      using only8 [OF s] HW A
      by (intro slab_ok_put [OF S page i heads_onlyD(2) [OF heads] a]) (auto simp: rd1)
    then show ?thesis using True ji i fits by simp
  next
    case False
    then have t': "W t = Some (j, v)" using t by (auto split: if_splits)
    have "rd x h' = rd x h" if "page_no x = page_no t" "x \<noteq> t + 8" for x
      using only8 [OF t' that] that(1) HW A(2) slab_page_unique [OF ok t' s] False by (auto simp: rd1)
    then have "slab_ok h' j t (F t)"
      by (intro slab_ok_frame [OF D(6) [OF t'] slab_pages(1) [OF ok t'] D(5) [OF t'] heads_onlyD(2) [OF heads]]) blast
    then show ?thesis using False D(5,7) [OF t'] by simp
  qed
  have ok': "heap_ok h' ?W (F(s := a # ?fs)) D"
  proof (rule heap_update [OF ok heads h'(2) same_cachesD(1) [OF same] _ slabs])
    fix x assume "rd x h' \<noteq> rd x h"
    then show "page_no x \<in># held_pages (slab_blocks W + D)"
      using changed own_word_held_page [OF ok] held_in_pages [OF ok _ ins_a] held_a by blast
  qed
  have objs': "held_objs ?W (F(s := a # ?fs)) = held_objs W F - {(a, osize i)}"
  proof -
    have "held_objs W F = insert (a, osize i) (held_objs W (F(s := a # ?fs)))"
      using held_objs_take [of W s i w "F(s := a # ?fs)" a ?fs] s S a by (simp add: slab_ok_def)
    moreover have "own_word ?W (F(s := a # ?fs)) a" unfolding own_word_same [OF same] own_word_def using s by auto
    then have "(a, osize i) \<notin> held_objs W (F(s := a # ?fs))"
      using own_word_free [OF ok' _ UnI1] ins_a held_objs_same [OF same] by blast
    ultimately show ?thesis using held_objs_same [OF same] by simp
  qed
  have "contents_kept ((held_objs W F \<union> held_blocks D) - {(a, osize i)}) h h'"
    unfolding contents_kept_def
  proof (intro ballI allI impI)
    fix b x assume b: "b \<in> (held_objs W F \<union> held_blocks D) - {(a, osize i)}" and x: "inside x b"
    have "\<not> own_word W F x" using own_word_free [OF ok] b x by blast
    moreover have "x \<noteq> a" using held_apart [OF ok, of b "(a, osize i)" a] b x held_a ins_a by blast
    ultimately show "rd x h' = rd x h" using changed by blast
  qed
  then show ?thesis using h'(1) ok' objs' by blast
qed

section \<open>kmalloc and kfree\<close>

text \<open>Changes of the page allocator outside the slab pages.\<close>

lemma heap_pages_step:
  assumes ok: "heap_ok h W F D" and inv: "pmm_run_inv p (slab_blocks W + E)"
    and mem: "\<And>x. page_no x \<in># held_pages (slab_blocks W) \<Longrightarrow> mem p x = rd x h"
  shows "heap_ok (h\<lparr>pm := p\<rparr>) W F E"
proof (rule heap_okI)
  note D = heap_okD [OF ok]
  let ?h = "h\<lparr>pm := p\<rparr>"
  have same: "rd x ?h = rd x h" if "W t = Some y" "page_no x = page_no t" for x t y
    using mem slab_pages(2) [OF ok that(1)] that(2) by (simp add: rd_def)
  have nexts: "nexts ?h t = nexts h t" if "t \<in> dom W" for t
    using that same [of t _ "t + 8"] slab_words(6) [OF slab_pages(1) [OF ok]] by (auto simp: nexts_def)
  show "lists_ok ?h W" by (rule lists_ok_frame [OF D(3) nexts]) simp_all
  show "i < 7 \<and> slab_ok ?h i s (F s) \<and> list_fits i w (F s)" if s: "W s = Some (i, w)" for s i w
  proof -
    have "slab_ok ?h i s (F s)"
      by (rule slab_ok_frame [OF D(6) [OF s] slab_pages(1) [OF ok s] D(5) [OF s]]) (use same [OF s] in auto)
    then show ?thesis using D(5,7) [OF s] by blast
  qed
qed (use heap_okD [OF ok] inv in auto)

definition set_stats :: "u32 \<Rightarrow> u32 \<Rightarrow> u32 \<Rightarrow> kheap \<Rightarrow> kheap" where
  "set_stats x y z h = h\<lparr>mm_stat_kmalloc_ok := x, mm_stat_kfree_calls := y, mm_stat_kmalloc_fail := z\<rparr>"

lemma set_stats_frame [simp]:
  "rd x (set_stats a b c h) = rd x h" "pm (set_stats a b c h) = pm h" "generic_caches (set_stats a b c h) = generic_caches h"
  "caches_at (set_stats a b c h) = caches_at h" "place_get p (set_stats a b c h) = place_get p h" "cache_index (set_stats a b c h) x = cache_index h x"
  by (simp_all add: set_stats_def rd_def cache_index_def) (cases p; simp add: place_get.simps rd_def)

lemma heap_stats [simp]: "heap_ok (set_stats a b c h) W F D = heap_ok h W F D"
proof -
  have "nexts (set_stats a b c h) = nexts h" by (simp add: nexts_def fun_eq_iff)
  then show ?thesis by (simp add: heap_ok_def lists_ok_def list_at_def slab_ok_def cache_ptr_def)
qed

lemma contents_kept_stats [simp]: "contents_kept H h (set_stats a b c h') = contents_kept H h h'"
  "contents_kept H (set_stats a b c h) h' = contents_kept H h h'"
  by (simp_all add: contents_kept_def)

lemma count_alloc_stats: "\<exists>a b c. count_alloc (p, h) = (p, set_stats a b c h)"
proof (cases "p = 0")
  case True
  have "count_alloc (p, h) = (p, set_stats (mm_stat_kmalloc_ok h) (mm_stat_kfree_calls h) (mm_stat_kmalloc_fail h + 1) h)"
    using True by (simp add: count_alloc_def set_stats_def)
  then show ?thesis by blast
next
  case False
  have "count_alloc (p, h) = (p, set_stats (mm_stat_kmalloc_ok h + 1) (mm_stat_kfree_calls h) (mm_stat_kmalloc_fail h) h)"
    using False by (simp add: count_alloc_def set_stats_def)
  then show ?thesis by blast
qed

text \<open>The order found is large enough; the search ends exactly for requests of at most 2 GB.\<close>

lemma order_for_enough: "order_for n k = Some r \<Longrightarrow> n \<le> push_bit r PAGE_SIZE"
proof (erule order_for.raw_induct [where P = "\<lambda>n k r. n \<le> push_bit r PAGE_SIZE", rotated])
  fix f n k r
  assume "\<And>n k r. f n k = Some r \<Longrightarrow> n \<le> push_bit r PAGE_SIZE" "(if push_bit k PAGE_SIZE < n then f n (Suc k) else Some k) = Some r"
  then show "n \<le> push_bit r PAGE_SIZE" by (auto split: if_splits)
qed

lemma page_shift: "r \<le> 19 \<Longrightarrow> unat (push_bit r PAGE_SIZE) = 4096 * 2 ^ r"
proof -
  assume r: "r \<le> 19"
  then have "(2 :: nat) ^ r \<le> 2 ^ 19" by (rule power_increasing) simp
  then have lt: "4096 * (2 :: nat) ^ r < 2 ^ 32" by simp
  have "unat (push_bit r PAGE_SIZE) = take_bit 32 (push_bit r 4096)" by (simp add: PAGE_SIZE_def unsigned_push_bit_eq)
  then show ?thesis using lt by (simp add: take_bit_eq_mod push_bit_eq_mult mult.commute)
qed

lemma page_shift_lost: "20 \<le> r \<Longrightarrow> push_bit r PAGE_SIZE = (0 :: u32)"
proof -
  assume r: "20 \<le> r"
  have "push_bit r PAGE_SIZE = (2 :: u32) ^ (12 + r)" by (simp add: PAGE_SIZE_def push_bit_eq_mult power_add mult.commute)
  also have "\<dots> = 0" using r by (subst exp_eq_zero_iff) simp
  finally show ?thesis .
qed

lemma order_for_returns: "n \<le> 0x80000000 \<Longrightarrow> k \<le> 19 \<Longrightarrow> \<exists>r. order_for n k = Some r"
proof (induction "19 - k" arbitrary: k)
  case 0
  have "unat (push_bit k PAGE_SIZE) = 0x80000000" using page_shift [of k] 0 by simp
  then have "\<not> push_bit k PAGE_SIZE < n" using 0(2) by (simp add: word_less_nat_alt word_le_nat_alt)
  then show ?case by (subst order_for.simps) simp
next
  case (Suc d)
  then show ?case by (subst order_for.simps) (simp add: Suc_diff_le)
qed

lemma order_for_loops:
  assumes "n > 0x80000000"
  shows "order_for n k = None"
proof (rule ccontr)
  assume "order_for n k \<noteq> None"
  then obtain r where "order_for n k = Some r" by blast
  then have le: "n \<le> push_bit r PAGE_SIZE" by (rule order_for_enough)
  show False
  proof (cases "r \<le> 19")
    case True
    then have "(2 :: nat) ^ r \<le> 2 ^ 19" by (rule power_increasing) simp
    then show False using le assms page_shift [OF True] by (simp add: word_less_nat_alt word_le_nat_alt)
  next
    case False
    then show False using le assms page_shift_lost [of r] by (simp add: word_less_nat_alt word_le_nat_alt)
  qed
qed

text \<open>An allocation of \<open>n\<close> bytes: an object of a cache whose size is at least \<open>n\<close>, or a block of at least \<open>n\<close> bytes.\<close>

lemma kmalloc_ok:
  assumes ok: "heap_ok h W F D" and run: "kmalloc n h = Some (a, h')"
  shows "if a = 0 then heap_ok h' W F D \<and> (\<forall>x. rd x h' = rd x h)
    else \<exists>W' F' D' m. heap_ok h' W' F' D' \<and> unat n \<le> m \<and> (a, m) \<notin> held_objs W F \<union> held_blocks D \<and>
      contents_kept (held_objs W F \<union> held_blocks D) h h' \<and>
      (if n \<le> 2048 then held_objs W' F' = insert (a, m) (held_objs W F) \<and> held_blocks D' = held_blocks D
       else held_objs W' F' = held_objs W F \<and> held_blocks D' = insert (a, m) (held_blocks D))"
proof -
  note D = heap_okD [OF ok]
  consider "n = 0" | "n \<noteq> 0" "n \<le> 2048" | "n > 2048" by force
  then show ?thesis
  proof cases
    case 1
    then show ?thesis using run ok by (simp add: kmalloc_def)
  next
    case 2
    show ?thesis
    proof (cases "first_idx (\<lambda>c. obj_size c \<ge> n) (take GENERIC_CACHE_COUNT (generic_caches h))")
      case None
      then have "a = 0" "h' = set_stats (mm_stat_kmalloc_ok h) (mm_stat_kfree_calls h) (mm_stat_kmalloc_fail h + 1) h"
        using run 2 None leD [OF 2(2)] by (auto simp: kmalloc_def set_stats_def)
      then show ?thesis using ok by simp
    next
      case (Some i)
      have i: "i < 7" "n \<le> of_nat (osize i)"
        using first_idx_SomeD [OF Some] D(4,8) by (auto simp: GENERIC_CACHE_COUNT_def)
      obtain b h1 where r: "slab_cache_alloc i h = (b, h1)" by fastforce
      obtain x y z where c: "count_alloc (b, h1) = (b, set_stats x y z h1)" using count_alloc_stats by blast
      have run': "a = b" "h' = set_stats x y z h1" using run 2 Some r c leD [OF 2(2)] by (auto simp: kmalloc_def)
      have size: "unat n \<le> osize i"
        using i cap_facts(5) [OF i(1)] by (simp add: word_le_nat_alt unat_of_nat)
      have nb: "(b, osize i) \<notin> held_blocks D"
      proof
        assume "(b, osize i) \<in> held_blocks D"
        then obtain k where "osize i = 4096 * 2 ^ k" by (auto simp: held_blocks_def)
        moreover have "(1 :: nat) \<le> 2 ^ k" by simp
        ultimately show False using cap_facts(5) [OF i(1)] by linarith
      qed
      note A = slab_cache_alloc_ok [OF ok i(1) r]
      show ?thesis
      proof (cases "b = 0")
        case True
        then show ?thesis using A(1) run' ok by simp
      next
        case False
        then show ?thesis using A nb size unfolding run' if_not_P [OF False] if_P [OF 2(2)] heap_stats contents_kept_stats by blast
      qed
    qed
  next
    case 3
    then have n0: "n \<noteq> 0" "\<not> n \<le> 2048" by auto
    obtain r where r: "order_for n 0 = Some r" using run 3 n0 by (auto simp: kmalloc_def)
    obtain b p where al: "pmm_alloc_page (int r) (pm h) = (b, p)" by fastforce
    obtain x y z where c: "count_alloc (b, h\<lparr>pm := p\<rparr>) = (b, set_stats x y z (h\<lparr>pm := p\<rparr>))" using count_alloc_stats by blast
    have run': "a = b" "h' = set_stats x y z (h\<lparr>pm := p\<rparr>)" using run 3 n0 r al c by (simp_all add: kmalloc_def)
    show ?thesis
    proof (cases "b = 0")
      case True
      obtain L where "pmm_wf (pm h) L" by (rule pmm_run_invE [OF D(2)])
      from pmm_alloc_page_fail_same [OF this al [unfolded True]] show ?thesis using run' True ok by simp
    next
      case False
      from pmm_alloc_in_range [OF al False] have "r \<le> 10" by simp
      then have size: "unat n \<le> 4096 * 2 ^ r" using order_for_enough [OF r] page_shift [of r] by (simp add: word_le_nat_alt)
      note inv = pmm_run_inv_alloc [OF D(2) al False] and fresh = pmm_run_inv_alloc_fresh [OF D(2) al False]
      let ?E = "add_mset (b, int r) D"
      have keep: "rd x (h\<lparr>pm := p\<rparr>) = rd x h" if "page_no x \<in># held_pages (slab_blocks W + D)" for x
        using fresh that by (simp add: rd_def)
      have "heap_ok (h\<lparr>pm := p\<rparr>) W F ?E"
        using inv keep by (intro heap_pages_step [OF ok]) (auto simp: held_pages_union rd_def)
      moreover have new: "(b, 4096 * 2 ^ r) \<notin> held_objs W F \<union> held_blocks D"
      proof
        assume b: "(b, 4096 * 2 ^ r) \<in> held_objs W F \<union> held_blocks D"
        have "inside b (b, 4096 * 2 ^ r)" by (simp add: inside_def)
        from held_in_pages [OF ok b this] fresh block_pages_first show False by blast
      qed
      moreover have "contents_kept (held_objs W F \<union> held_blocks D) h (h\<lparr>pm := p\<rparr>)"
        using keep held_in_pages [OF ok] by (simp add: contents_kept_def)
      moreover have "held_blocks ?E = insert (b, 4096 * 2 ^ r) (held_blocks D)" by (simp add: held_blocks_add)
      moreover have "unat n \<le> 4096 * 2 ^ r" by (rule size)
      ultimately show ?thesis unfolding run' if_not_P [OF False] if_not_P [OF n0(2)] heap_stats contents_kept_stats by blast
    qed
  qed
qed

text \<open>Freeing.\<close>

lemma cache_index_ptr: "length (generic_caches h) = 7 \<Longrightarrow> i < 7 \<Longrightarrow> cache_index h (cache_ptr h i) = Some i"
proof -
  assume "length (generic_caches h) = 7" "i < 7"
  moreover have "unat (20 * of_nat i :: u32) = 20 * i" using \<open>i < 7\<close> by (simp add: unat_word_ariths unat_of_nat)
  ultimately show ?thesis by (simp add: cache_index_def cache_ptr_def)
qed

lemma kfree_obj_ok:
  assumes ok: "heap_ok h W F D" and a: "(a, m) \<in> held_objs W F"
  shows "\<exists>h' W' F'. kfree a h = Some h' \<and> heap_ok h' W' F' D \<and> held_objs W' F' = held_objs W F - {(a, m)} \<and>
    contents_kept ((held_objs W F \<union> held_blocks D) - {(a, m)}) h h'"
proof -
  obtain i s w where s: "m = osize i" "W s = Some (i, w)" "a \<in> set (objs i s)" "a \<notin> set (F s)" using a by (auto simp: held_objs_def)
  note D = heap_okD [OF ok]
  note O = objs_facts [OF slab_pages(1) [OF ok s(2)] D(5) [OF s(2)] s(3)]
  have round: "a AND NOT 4095 = s" by (rule round_down [OF slab_pages(1) [OF ok s(2)] O(2)])
  define k where "k = set_stats (mm_stat_kmalloc_ok h) (mm_stat_kfree_calls h + 1) (mm_stat_kmalloc_fail h) h"
  have k: "h\<lparr>mm_stat_kfree_calls := mm_stat_kfree_calls h + 1\<rparr> = k" by (simp add: k_def set_stats_def)
  have okk: "heap_ok k W F D" using ok by (simp add: k_def)
  have S: "slab_ok k i s (F s)" by (rule heap_okD(6) [OF okk s(2)])
  then have "kfree a h = slab_cache_free i a k"
    using O(1) cache_index_ptr [OF heap_okD(8) [OF okk] D(5) [OF s(2)]] by (simp add: kfree_def k round [simplified] slab_ok_def Let_def)
  with slab_cache_free_ok [OF okk s(2-)] show ?thesis by (simp add: k_def s(1))
qed

lemma kfree_pages_ok:
  assumes ok: "heap_ok h W F (add_mset (a, n) E)" and magic: "rd a h \<noteq> SLAB_MAGIC"
  shows "\<exists>h'. kfree a h = Some h' \<and> heap_ok h' W F E \<and> (\<forall>x. x \<noteq> a \<longrightarrow> rd x h' = rd x h)"
proof -
  note D = heap_okD [OF ok]
  have inv: "pmm_run_inv (pm h) (add_mset (a, n) (slab_blocks W + E))" using D(2) by simp
  have page: "slab_page a" using pmm_block_page [OF D(2), of a n] by simp
  have round: "a AND NOT 4095 = a" by (rule round_down [OF page refl])
  have blk: "pmm_block (pm h) n a" "pmm_get_order a (pm h) = n" using inv by (auto simp: pmm_run_inv_def)
  have n0: "0 \<le> n" "n \<le> 10" "block_ok (unat (total_pages (pm h))) (nat n) a" using blk(1) by (auto simp: pmm_block_def)
  obtain L where L: "pmm_wf (pm h) L" "free_page_mset L + held_pages (add_mset (a, n) (slab_blocks W + E)) = managed_pages (pm h)"
    by (rule pmm_run_invE [OF inv])
  have fresh: "p \<notin># free_page_mset L" if "p \<in> set (block_pages (nat n) a)" for p
    using free_held_disjoint [OF L(2), of p] that by auto
  have mem: "mem (pmm_free_page a n (pm h)) x = mem (pm h) x" if "x \<noteq> a" for x
    using pmm_free_page_wf(4) [OF L(1) n0] fresh that by blast
  define k where "k = set_stats (mm_stat_kmalloc_ok h) (mm_stat_kfree_calls h + 1) (mm_stat_kmalloc_fail h) h"
  have k: "h\<lparr>mm_stat_kfree_calls := mm_stat_kfree_calls h + 1\<rparr> = k" by (simp add: k_def set_stats_def)
  have okk: "heap_ok k W F (add_mset (a, n) E)" using ok by (simp add: k_def)
  let ?h = "k\<lparr>pm := pmm_free_page a n (pm k)\<rparr>"
  have a0: "a \<noteq> 0" using page by (auto simp: slab_page_def)
  have "kfree a h = Some ?h"
    using a0 magic blk(2) n0(1) by (simp add: kfree_def k round [simplified] Let_def) (simp add: k_def)
  moreover have other: "rd x ?h = rd x h" if "x \<noteq> a" for x
    using mem [OF that] by (simp add: rd_def k_def)
  moreover have "heap_ok ?h W F E"
  proof (rule heap_pages_step [OF okk])
    show "pmm_run_inv (pmm_free_page a n (pm k)) (slab_blocks W + E)"
      using pmm_run_inv_free [OF inv] by (simp add: k_def)
    fix x assume x: "page_no x \<in># held_pages (slab_blocks W)"
    have "page_no a \<notin># held_pages (slab_blocks W)"
      using held_once(1) [OF D(2), of "page_no a"] held_pagesI [OF _ block_pages_first, of a n] block_pages_first [of a "nat n"] by auto
    then have "x \<noteq> a" using x by blast
    then show "mem (pmm_free_page a n (pm k)) x = rd x k" using mem by (simp add: rd_def k_def)
  qed
  ultimately show ?thesis by blast
qed

lemma kfree_block_ok:
  assumes ok: "heap_ok h W F D" and a: "(a, m) \<in> held_blocks D" and magic: "rd a h \<noteq> SLAB_MAGIC"
  shows "\<exists>h' E. kfree a h = Some h' \<and> heap_ok h' W F E \<and> held_blocks E = held_blocks D - {(a, m)} \<and>
    contents_kept ((held_objs W F \<union> held_blocks D) - {(a, m)}) h h'"
proof -
  obtain n where n: "m = 4096 * 2 ^ nat n" "(a, n) \<in># D" using a by (auto simp: held_blocks_def)
  then obtain E where E: "D = add_mset (a, n) E" by (metis insert_DiffM)
  note D = heap_okD [OF ok]
  obtain h' where h': "kfree a h = Some h'" "heap_ok h' W F E" and other: "\<And>x. x \<noteq> a \<Longrightarrow> rd x h' = rd x h"
    using kfree_pages_ok [OF ok [unfolded E] magic] by blast
  have "held_blocks E = held_blocks D - {(a, m)}"
  proof -
    have once: "page_no a \<notin># held_pages E"
    proof -
      have "pmm_run_inv (pm h) ({#(a, n)#} + (slab_blocks W + E))" using D(2) by (simp add: E)
      from held_once(1) [OF this, of "page_no a"] block_pages_first [of a "nat n"] show ?thesis by (simp add: held_pages_union)
    qed
    have "(a, m) \<notin> held_blocks E"
      using once held_pagesI [OF _ block_pages_first] by (auto simp: held_blocks_def)
    moreover have "held_blocks D = insert (a, m) (held_blocks E)" using n(1) by (auto simp: E held_blocks_def)
    ultimately show ?thesis by blast
  qed
  moreover have "contents_kept ((held_objs W F \<union> held_blocks D) - {(a, m)}) h h'"
    unfolding contents_kept_def
  proof (intro ballI allI impI)
    fix b x assume b: "b \<in> (held_objs W F \<union> held_blocks D) - {(a, m)}" and x: "inside x b"
    have "inside a (a, m)" using n(1) by (simp add: inside_def)
    then have "x \<noteq> a" using held_apart [OF ok, of b "(a, m)" a] b x a by blast
    then show "rd x h' = rd x h" by (rule other)
  qed
  ultimately show ?thesis using h' by blast
qed

section \<open>Runs of the heap\<close>

text \<open>A run of the kernel against the heap: boot, \<open>kmalloc\<close>, \<open>kfree\<close> of what is held, and writes of the holders
  into what they asked for. \<open>H\<close> holds the addresses with the sizes asked for. The holder of a large block must not
  leave the slab magic in its first word when freeing it.\<close>

inductive heap_run :: "kheap \<Rightarrow> (u32 \<times> u32) set \<Rightarrow> bool" where
  boot: "pmm_init mem_size s0 = Some s \<Longrightarrow> heap_run (slab_init (h0\<lparr>pm := s\<rparr>)) {}"
| alloc: "heap_run h H \<Longrightarrow> kmalloc n h = Some (a, h') \<Longrightarrow> a \<noteq> 0 \<Longrightarrow> heap_run h' (insert (a, n) H)"
| alloc_fail: "heap_run h H \<Longrightarrow> kmalloc n h = Some (0, h') \<Longrightarrow> heap_run h' H"
| free: "heap_run h H \<Longrightarrow> (a, n) \<in> H \<Longrightarrow> n \<le> 2048 \<or> rd a h \<noteq> SLAB_MAGIC \<Longrightarrow> kfree a h = Some h' \<Longrightarrow> heap_run h' (H - {(a, n)})"
| store: "heap_run h H \<Longrightarrow> (a, n) \<in> H \<Longrightarrow> inside x (a, unat n) \<Longrightarrow> heap_run (wr x v h) H"

text \<open>Every address in \<open>H\<close> is backed by an object or a block of at least the size asked for, and the other way round.\<close>

definition backed :: "(u32 \<times> u32) set \<Rightarrow> (u32 \<times> nat) set \<Rightarrow> (u32 \<times> nat) set \<Rightarrow> bool" where
  "backed H Q B \<longleftrightarrow> inj_on fst H \<and> fst ` H = fst ` (Q \<union> B) \<and>
     (\<forall>(a, n) \<in> H. \<exists>m. unat n \<le> m \<and> (a, m) \<in> (if n \<le> 2048 then Q else B))"

definition heap_run_inv :: "kheap \<Rightarrow> (u32 \<times> u32) set \<Rightarrow> bool" where
  "heap_run_inv h H \<longleftrightarrow> (\<exists>W F D. heap_ok h W F D \<and> backed H (held_objs W F) (held_blocks D))"

lemma held_positive: "heap_ok h W F D \<Longrightarrow> (a, m) \<in> held_objs W F \<union> held_blocks D \<Longrightarrow> inside a (a, m)"
  using cap_facts(4) [OF heap_okD(5)] by (fastforce simp: inside_def held_objs_def held_blocks_def)

lemma held_same_address:
  assumes "heap_ok h W F D" "(a, m) \<in> held_objs W F \<union> held_blocks D" "(a, k) \<in> held_objs W F \<union> held_blocks D"
  shows "m = k"
  using held_apart [OF assms] held_positive [OF assms(1,2)] held_positive [OF assms(1,3)] by blast

lemma backedE:
  assumes "backed H Q B" "(a, n) \<in> H"
  obtains m where "unat n \<le> m" "(a, m) \<in> Q \<union> B" "n \<le> 2048 \<longrightarrow> (a, m) \<in> Q" "n > 2048 \<longrightarrow> (a, m) \<in> B"
  using assms unfolding backed_def by (fastforce split: if_splits)

lemma backed_insert:
  assumes "backed H Q B" "(a, m) \<notin> Q \<union> B" "a \<notin> fst ` (Q \<union> B)" "unat n \<le> m"
    and "if n \<le> 2048 then Q' = insert (a, m) Q \<and> B' = B else Q' = Q \<and> B' = insert (a, m) B"
  shows "backed (insert (a, n) H) Q' B'"
proof -
  have "a \<notin> fst ` H" using assms(1,3) by (simp add: backed_def)
  then have "inj_on fst (insert (a, n) H)" using assms(1) by (auto simp: backed_def inj_on_def)
  moreover have "fst ` insert (a, n) H = fst ` (Q' \<union> B')" using assms(1,5) by (auto simp: backed_def image_Un split: if_splits)
  moreover have "\<exists>l. unat k \<le> l \<and> (b, l) \<in> (if k \<le> 2048 then Q' else B')" if "(b, k) \<in> insert (a, n) H" for b k
    using that assms(1,4,5) by (fastforce simp: backed_def split: if_splits)
  ultimately show ?thesis unfolding backed_def by blast
qed

lemma backed_remove:
  assumes b: "backed H Q B" and a: "(a, n) \<in> H" and m: "(a, m) \<in> Q \<union> B" and one: "\<And>c k l. (c, k) \<in> Q \<union> B \<Longrightarrow> (c, l) \<in> Q \<union> B \<Longrightarrow> k = l"
    and Q': "Q' = Q - {(a, m)}" "B' = B - {(a, m)}"
  shows "backed (H - {(a, n)}) Q' B'"
proof -
  have inj: "inj_on fst H" and im: "fst ` H = fst ` (Q \<union> B)" using b by (auto simp: backed_def)
  have "fst ` (H - {(a, n)}) = fst ` H - fst ` {(a, n)}" using inj_on_image_set_diff [OF inj, of H "{(a, n)}"] a by simp
  also have "\<dots> = fst ` H - {a}" by simp
  also have "\<dots> = fst ` ((Q \<union> B) - {(a, m)})"
  proof -
    have "inj_on fst (Q \<union> B)" using one by (intro inj_onI) (metis prod.collapse)
    from inj_on_image_set_diff [OF this, of "Q \<union> B" "{(a, m)}"] m show ?thesis unfolding im by simp
  qed
  also have "(Q \<union> B) - {(a, m)} = Q' \<union> B'" unfolding Q' by blast
  finally have "fst ` (H - {(a, n)}) = fst ` (Q' \<union> B')" .
  moreover have "\<exists>l. unat k \<le> l \<and> (c, l) \<in> (if k \<le> 2048 then Q' else B')" if "(c, k) \<in> H - {(a, n)}" for c k
  proof -
    have "c \<noteq> a" using that a inj_onD [OF inj, of "(c, k)" "(a, n)"] by auto
    then show ?thesis using that b unfolding Q' backed_def by fastforce
  qed
  moreover have "inj_on fst (H - {(a, n)})" using inj by (rule inj_on_subset) blast
  ultimately show ?thesis unfolding backed_def by blast
qed

text \<open>Writes of a holder.\<close>

lemma heap_store:
  assumes ok: "heap_ok h W F D" and b: "b \<in> held_objs W F \<union> held_blocks D" and x: "inside x b"
  shows "heap_ok (wr x v h) W F D"
proof (rule heap_update [OF ok])
  note D = heap_okD [OF ok]
  have no: "\<not> own_word W F x" using own_word_free [OF ok _ b] x by blast
  have eq: "rd y (wr x v h) = rd y h" if "own_word W F y" for y using that no by (auto simp: rd_wr)
  show "lists_ok (wr x v h) W"
  proof (rule lists_ok_frame [OF D(3)])
    fix t assume "t \<in> dom W"
    then have "own_word W F (t + 8)" unfolding own_word_def by force
    then show "nexts (wr x v h) t = nexts h t" by (simp add: nexts_def eq)
  qed simp
  show "page_no y \<in># held_pages (slab_blocks W + D)" if "rd y (wr x v h) \<noteq> rd y h" for y
    using that held_in_pages [OF ok b x] by (auto simp: rd_wr split: if_splits)
  show "i < 7 \<and> slab_ok (wr x v h) i s (F s) \<and> list_fits i w (F s)" if s: "W s = Some (i, w)" for s i w
  proof -
    have own: "own_word W F y" if "y \<in> {s, s + 4, s + 12, s + 16} \<or> y \<in> set (F s)" for y
      using s that unfolding own_word_def by blast
    have "chain (\<lambda>a. rd a (wr x v h)) p (F s) = chain (\<lambda>a. rd a h) p (F s)" for p
      by (rule nexts_chain_cong) (rule eq [OF own], simp)
    then have "slab_ok (wr x v h) i s (F s)" using D(6) [OF s] eq [OF own] by (simp add: slab_ok_def)
    then show ?thesis using D(5,7) [OF s] by blast
  qed
qed simp_all

lemma heap_boot:
  assumes "pmm_init mem_size s0 = Some s"
  shows "heap_ok (slab_init (h0\<lparr>pm := s\<rparr>)) (\<lambda>_. None) (\<lambda>_. []) {#}"
proof (rule heap_okI)
  let ?h = "slab_init (h0\<lparr>pm := s\<rparr>)"
  have seven: "i = 0 \<or> i = 1 \<or> i = 2 \<or> i = 3 \<or> i = 4 \<or> i = 5 \<or> i = 6" if "i < 7" for i :: nat using that by linarith
  show "pmm_run_inv (pm ?h) (slab_blocks (\<lambda>_. None) + {#})"
    using pmm_run_invariant [OF pmm_run.init [OF assms]] by (simp add: slab_init_def slab_blocks_def)
  have "list_at ?h (\<lambda>_. None) i w []" if "i < 7" for i w
    using seven [OF that] by (cases w; elim disjE; simp add: list_at_def slab_init_def place_get.simps)
  then show "lists_ok ?h (\<lambda>_. None)" by (auto simp: lists_ok_def slab_init_def)
  show "obj_size (generic_caches ?h ! i) = of_nat (osize i)" if "i < 7" for i
    using seven [OF that] by (elim disjE; simp add: slab_init_def osize_def)
qed simp_all

lemma heap_run_invariant: "heap_run h H \<Longrightarrow> heap_run_inv h H"
proof (induction rule: heap_run.induct)
  case (boot mem_size s0 s h0)
  have "backed {} (held_objs (\<lambda>_. None) (\<lambda>_. [])) (held_blocks {#})" by (simp add: backed_def held_objs_def held_blocks_def)
  then show ?case using heap_boot [OF boot] unfolding heap_run_inv_def by blast
next
  case (alloc h H n a h')
  obtain W F D where ok: "heap_ok h W F D" and b: "backed H (held_objs W F) (held_blocks D)"
    using alloc.IH by (auto simp: heap_run_inv_def)
  obtain W' F' D' m where A: "heap_ok h' W' F' D'" "unat n \<le> m" "(a, m) \<notin> held_objs W F \<union> held_blocks D"
      "if n \<le> 2048 then held_objs W' F' = insert (a, m) (held_objs W F) \<and> held_blocks D' = held_blocks D
       else held_objs W' F' = held_objs W F \<and> held_blocks D' = insert (a, m) (held_blocks D)"
    using kmalloc_ok [OF ok alloc.hyps(2)] alloc.hyps(3) by (metis (no_types, lifting))
  have "a \<notin> fst ` (held_objs W F \<union> held_blocks D)"
  proof
    assume "a \<in> fst ` (held_objs W F \<union> held_blocks D)"
    then obtain k where k: "(a, k) \<in> held_objs W F \<union> held_blocks D" by (metis imageE prod.collapse)
    have "(a, m) \<in> held_objs W' F' \<union> held_blocks D'" "(a, k) \<in> held_objs W' F' \<union> held_blocks D'" using A(4) k by (auto split: if_splits)
    from held_same_address [OF A(1) this] k A(3) show False by simp
  qed
  from backed_insert [OF b A(3) this A(2,4)] A(1) show ?case unfolding heap_run_inv_def by blast
next
  case (alloc_fail h H n h')
  then show ?case using kmalloc_ok [of h _ _ _ n 0 h'] unfolding heap_run_inv_def by (metis (no_types, lifting))
next
  case (free h H a n h')
  obtain W F D where ok: "heap_ok h W F D" and b: "backed H (held_objs W F) (held_blocks D)"
    using free.IH by (auto simp: heap_run_inv_def)
  obtain m where m: "(a, m) \<in> held_objs W F \<union> held_blocks D" "n \<le> 2048 \<longrightarrow> (a, m) \<in> held_objs W F" "n > 2048 \<longrightarrow> (a, m) \<in> held_blocks D"
    by (rule backedE [OF b free.hyps(2)])
  note rm = backed_remove [OF b free.hyps(2) m(1) held_same_address [OF ok]]
  show ?case
  proof (cases "n \<le> 2048")
    case True
    then have "(a, m) \<in> held_objs W F" using m(2) by blast
    from kfree_obj_ok [OF ok this] free.hyps(4) obtain W' F' where
      f: "heap_ok h' W' F' D" "held_objs W' F' = held_objs W F - {(a, m)}" by auto
    have "(a, m) \<notin> held_blocks D"
    proof
      assume "(a, m) \<in> held_blocks D"
      then obtain k where "m = 4096 * 2 ^ k" by (auto simp: held_blocks_def)
      moreover obtain i where "m = osize i" "i < 7" using \<open>(a, m) \<in> held_objs W F\<close> heap_okD(5) [OF ok] by (auto simp: held_objs_def)
      moreover have "(1 :: nat) \<le> 2 ^ k" by simp
      ultimately show False using cap_facts(5) [of i] by linarith
    qed
    then have "backed (H - {(a, n)}) (held_objs W' F') (held_blocks D)" by (intro rm) (auto simp: f(2))
    then show ?thesis using f(1) unfolding heap_run_inv_def by blast
  next
    case False
    then have a: "(a, m) \<in> held_blocks D" "rd a h \<noteq> SLAB_MAGIC" using m(3) free.hyps(3) by auto
    from kfree_block_ok [OF ok a] free.hyps(4) obtain E where
      f: "heap_ok h' W F E" "held_blocks E = held_blocks D - {(a, m)}" by auto
    have "(a, m) \<notin> held_objs W F"
    proof
      assume "(a, m) \<in> held_objs W F"
      then obtain i where "m = osize i" "i < 7" using heap_okD(5) [OF ok] by (auto simp: held_objs_def)
      moreover obtain k where "m = 4096 * 2 ^ k" using a(1) by (auto simp: held_blocks_def)
      moreover have "(1 :: nat) \<le> 2 ^ k" by simp
      ultimately show False using cap_facts(5) [of i] by linarith
    qed
    then have "backed (H - {(a, n)}) (held_objs W F) (held_blocks E)" by (intro rm) (auto simp: f(2))
    then show ?thesis using f(1) unfolding heap_run_inv_def by blast
  qed
next
  case (store h H a n x v)
  obtain W F D where ok: "heap_ok h W F D" and b: "backed H (held_objs W F) (held_blocks D)"
    using store.IH by (auto simp: heap_run_inv_def)
  obtain m where m: "unat n \<le> m" "(a, m) \<in> held_objs W F \<union> held_blocks D" by (rule backedE [OF b store.hyps(2)])
  have "inside x (a, m)" using store.hyps(3) m(1) by (auto simp: inside_def)
  from heap_store [OF ok m(2) this] b show ?case unfolding heap_run_inv_def by blast
qed

section \<open>Properties\<close>

lemma held_bounds:
  assumes ok: "heap_ok h W F D" and a: "(a, m) \<in> held_objs W F \<union> held_blocks D"
  shows "0x800000 \<le> unat a \<and> unat a + m \<le> 0x1E000000"
proof -
  have block: "0x800000 \<le> unat b \<and> unat b + 4096 * 2 ^ nat n \<le> 0x1E000000" if "(b, n) \<in># slab_blocks W + D" for b n
  proof -
    obtain L where L: "pmm_wf (pm h) L" by (rule pmm_run_invE [OF heap_okD(2) [OF ok]])
    have "pmm_block (pm h) n b" using heap_okD(2) [OF ok] that by (auto simp: pmm_run_inv_def)
    moreover have "unat (total_pages (pm h)) \<le> 120832" using L pmm_listsD(3) by (auto simp: pmm_wf_def)
    ultimately show ?thesis using block_end_bound by (auto simp: pmm_block_def block_ok_def)
  qed
  from a show ?thesis
  proof
    assume "(a, m) \<in> held_objs W F"
    then obtain i s w where s: "m = osize i" "W s = Some (i, w)" "a \<in> set (objs i s)" by (auto simp: held_objs_def)
    have "(s, 0) \<in># slab_blocks W + D" using slab_in_blocks [OF heap_okD(1) [OF ok] s(2)] by simp
    from block [OF this] objs_facts(3,4) [OF slab_pages(1) [OF ok s(2)] heap_okD(5) [OF ok s(2)] s(3)] s(1) show ?thesis by simp
  next
    assume "(a, m) \<in> held_blocks D"
    then obtain n where "m = 4096 * 2 ^ nat n" "(a, n) \<in># D" by (auto simp: held_blocks_def)
    then show ?thesis using block [of a n] by simp
  qed
qed

lemma smaller_inside: "inside x (a, k) \<Longrightarrow> k \<le> m \<Longrightarrow> inside x (a, m)"
  by (auto simp: inside_def)

text \<open>C4: What \<open>kmalloc\<close> returns in any run is memory between 8 MB and 480 MB that overlaps nothing that is held, and
  no word of what is held changes, although headers and free lists live between the objects.\<close>

theorem kmalloc_is_fresh:
  assumes run: "heap_run h H" and r: "kmalloc n h = Some (a, h')" "a \<noteq> 0"
  shows "0x800000 \<le> unat a \<and> unat a + unat n \<le> 0x1E000000 \<and>
    (\<forall>(b, m) \<in> H. (unat a + unat n \<le> unat b \<or> unat b + unat m \<le> unat a) \<and>
       (\<forall>x. inside x (b, unat m) \<longrightarrow> rd x h' = rd x h))"
proof -
  obtain W F D where ok: "heap_ok h W F D" and b: "backed H (held_objs W F) (held_blocks D)"
    using heap_run_invariant [OF run] by (auto simp: heap_run_inv_def)
  let ?R = "held_objs W F \<union> held_blocks D"
  obtain W' F' D' k where A: "heap_ok h' W' F' D'" "unat n \<le> k" "(a, k) \<notin> ?R" "contents_kept ?R h h'"
      "if n \<le> 2048 then held_objs W' F' = insert (a, k) (held_objs W F) \<and> held_blocks D' = held_blocks D
       else held_objs W' F' = held_objs W F \<and> held_blocks D' = insert (a, k) (held_blocks D)"
    using kmalloc_ok [OF ok r(1)] r(2) by (metis (no_types, lifting))
  let ?R' = "held_objs W' F' \<union> held_blocks D'"
  have R': "(a, k) \<in> ?R'" "?R \<subseteq> ?R'" using A(5) by (auto split: if_splits)
  have "(unat a + unat n \<le> unat c \<or> unat c + unat m \<le> unat a) \<and> (\<forall>x. inside x (c, unat m) \<longrightarrow> rd x h' = rd x h)"
    if c: "(c, m) \<in> H" for c m
  proof -
    obtain l where l: "unat m \<le> l" "(c, l) \<in> ?R" by (rule backedE [OF b c])
    have "\<not> (inside x (a, k) \<and> inside x (c, l))" for x
      by (rule held_apart [OF A(1) R'(1)]) (use R'(2) l(2) A(3) in auto)
    from this [of a] this [of c] have "unat a + k \<le> unat c \<or> unat c + l \<le> unat a"
      using held_positive [OF A(1) R'(1)] held_positive [OF ok l(2)] by (auto simp: inside_def)
    moreover have "rd x h' = rd x h" if "inside x (c, unat m)" for x
      using A(4) smaller_inside [OF that l(1)] l(2) unfolding contents_kept_def by blast
    ultimately show ?thesis using A(2) l(1) by auto
  qed
  then show ?thesis using held_bounds [OF A(1) R'(1)] A(2) by auto
qed

text \<open>A machine with two managed pages.\<close>

definition heap_two :: kheap where
  "heap_two = slab_init (\<lparr>pm = pmm_two, caches_at = 0x100000, generic_caches = [], mm_stat_kmalloc_ok = 0, mm_stat_kfree_calls = 0, mm_stat_kmalloc_fail = 0\<rparr>)"

lemma heap_two_run: "heap_run heap_two {}"
  using heap_run.boot [OF pmm_init_two, of "\<lparr>pm = pmm_two, caches_at = 0x100000, generic_caches = [], mm_stat_kmalloc_ok = 0, mm_stat_kfree_calls = 0, mm_stat_kmalloc_fail = 0\<rparr>"]
  by (simp add: heap_two_def)

text \<open>The first allocation of 1024 bytes takes the first page and its first object.\<close>

definition heap_two' :: kheap where
  "heap_two' = snd (the (kmalloc 1024 heap_two))"

lemma heap_two_sizes: "map obj_size (generic_caches heap_two) = [32, 64, 128, 256, 512, 1024, 2048]"
  by (simp add: heap_two_def slab_init_def)

lemma kmalloc_1024:
  assumes "map obj_size (generic_caches h) = [32, 64, 128, 256, 512, 1024, 2048]"
  shows "kmalloc 1024 h = Some (count_alloc (slab_cache_alloc 5 h))"
proof -
  have F: "first_idx (\<lambda>c. obj_size c \<ge> 1024) cs = first_idx (\<lambda>n. n \<ge> 1024) (map obj_size cs)" for cs by (induction cs) simp_all
  have T: "take GENERIC_CACHE_COUNT (generic_caches h) = generic_caches h"
    using arg_cong [OF assms, of length] by (simp add: GENERIC_CACHE_COUNT_def)
  have "first_idx (\<lambda>c. obj_size c \<ge> 1024) (take GENERIC_CACHE_COUNT (generic_caches h)) = Some 5"
    unfolding T F assms by simp
  then show ?thesis by (simp add: kmalloc_def)
qed

lemma count_alloc_fst: "fst (count_alloc r) = fst r"
  by (cases r) (simp add: count_alloc_def)

definition first_slab :: kheap where
  "first_slab = (let h = heap_two\<lparr>pm := snd (pmm_alloc_page 0 pmm_two)\<rparr>;
     h = wr 0x80000C 3 (wr 0x800008 0 (wr 0x800004 (cache_ptr h 5) (wr 0x800000 SLAB_MAGIC h)))
     in wr 0x800818 0 (wr 0x800418 0x800818 (wr 0x800018 0x800418 (wr 0x800010 0x800018 h))))"

lemma first_slab_heads: "length (generic_caches first_slab) = 7" "place_get (Head 5 w) first_slab = 0"
  by (simp_all add: first_slab_def heap_two_def slab_init_def Let_def place_get.simps) (cases w; simp)

lemma heap_two_create: "slab_create 5 heap_two = (0x800000, first_slab)"
proof -
  let ?p = "snd (pmm_alloc_page 0 pmm_two)"
  have al: "pmm_alloc_page 0 (pm heap_two) = (0x800000, ?p)" using pmm_alloc_two(1) by (simp add: prod_eq_iff heap_two_def slab_init_def)
  have sz: "obj_size (generic_caches heap_two ! 5) = 1024" by (simp add: heap_two_def slab_init_def)
  have two: "[0 ..< 2] = [0, 1 :: nat]" by (simp add: upt_rec)
  have n: "(PAGE_SIZE - 24) div 1024 = 3" by (simp add: PAGE_SIZE_def)
  show ?thesis
    by (simp add: slab_create_def al sz n two header_24 link_objs_def Let_def first_slab_def)
qed

definition partial_slab :: kheap where
  "partial_slab = place_set (Head 5 Partial) 0x800000 (wr 0x800008 0 first_slab)"

lemma heap_two_usable: "usable_slab 5 heap_two = (0x800000, partial_slab)"
proof -
  have "place_get (Head 5 w) heap_two = 0" for w by (cases w) (simp_all add: heap_two_def slab_init_def place_get.simps)
  then show ?thesis by (simp add: usable_slab_def Let_def heap_two_create partial_slab_def first_slab_heads)
qed

lemma partial_slab_words: "rd 0x800010 partial_slab = 0x800018" "rd 0x800018 partial_slab = 0x800418" "rd 0x80000C partial_slab = 3"
    "rd 0x800418 partial_slab = 0x800818" "place_get (Head 5 Partial) partial_slab = 0x800000"
  using first_slab_heads(1) by (simp_all add: partial_slab_def place_get_set_head) (simp_all add: rd_wr first_slab_def Let_def)

definition one_taken :: kheap where
  "one_taken = wr 0x80000C 2 (wr 0x800010 0x800418 partial_slab)"

lemma heap_two_alloc: "slab_cache_alloc 5 heap_two = (0x800018, one_taken)"
  by (simp add: slab_cache_alloc_take heap_two_usable take_from_def Let_def partial_slab_words rd_wr one_taken_def)

lemma heap_two_kmalloc: "kmalloc 1024 heap_two = Some (0x800018, heap_two')" "\<exists>h'. kmalloc 1024 heap_two' = Some (0x800418, h')"
proof -
  have k: "kmalloc 1024 heap_two = Some (count_alloc (0x800018, one_taken))"
    using kmalloc_1024 [OF heap_two_sizes] heap_two_alloc by simp
  obtain x y z where c: "count_alloc (0x800018, one_taken) = (0x800018, set_stats x y z one_taken)" using count_alloc_stats by blast
  then show "kmalloc 1024 heap_two = Some (0x800018, heap_two')" by (simp add: heap_two'_def k)
  have h': "heap_two' = set_stats x y z one_taken" by (simp add: heap_two'_def k c)
  have "usable_slab 5 heap_two' = (0x800000, heap_two')"
    by (simp add: usable_slab_def h' one_taken_def partial_slab_words)
  then have "fst (slab_cache_alloc 5 heap_two') = 0x800418"
    by (simp add: slab_cache_alloc_take take_from_def Let_def h' one_taken_def rd_wr)
  moreover have "map obj_size (generic_caches heap_two') = [32, 64, 128, 256, 512, 1024, 2048]"
    by (simp add: h' one_taken_def partial_slab_def place_set.simps map_update first_slab_def Let_def heap_two_def slab_init_def)
  ultimately show "\<exists>h'. kmalloc 1024 heap_two' = Some (0x800418, h')"
    by (simp add: kmalloc_1024 prod_eq_iff count_alloc_fst)
qed

lemma heap_two_run': "heap_run heap_two' {(0x800018, 1024)}"
  using heap_run.alloc [OF heap_two_run heap_two_kmalloc(1)] by simp

theorem kmalloc_is_fresh_witness:
  "\<exists>h'. kmalloc 1024 heap_two' = Some (0x800418, h') \<and> (\<forall>x. inside x (0x800018, 1024) \<longrightarrow> rd x h' = rd x heap_two')"
proof -
  obtain h' where h': "kmalloc 1024 heap_two' = Some (0x800418, h')" using heap_two_kmalloc(2) by blast
  from kmalloc_is_fresh [OF heap_two_run' this] h' show ?thesis by auto
qed

text \<open>C5: \<open>kfree\<close> of anything held returns (the walks over the slab lists end) and changes no word of what is still
  held, provided a block of pages does not start with the slab magic.\<close>

theorem kfree_returns:
  assumes run: "heap_run h H" and a: "(a, n) \<in> H" "n \<le> 2048 \<or> rd a h \<noteq> SLAB_MAGIC"
  shows "\<exists>h'. kfree a h = Some h' \<and> heap_run h' (H - {(a, n)}) \<and>
    (\<forall>(b, m) \<in> H - {(a, n)}. \<forall>x. inside x (b, unat m) \<longrightarrow> rd x h' = rd x h)"
proof -
  obtain W F D where ok: "heap_ok h W F D" and b: "backed H (held_objs W F) (held_blocks D)"
    using heap_run_invariant [OF run] by (auto simp: heap_run_inv_def)
  let ?R = "held_objs W F \<union> held_blocks D"
  obtain k where k: "(a, k) \<in> ?R" "n \<le> 2048 \<longrightarrow> (a, k) \<in> held_objs W F" "n > 2048 \<longrightarrow> (a, k) \<in> held_blocks D"
    by (rule backedE [OF b a(1)])
  have "\<exists>h'. kfree a h = Some h' \<and> contents_kept (?R - {(a, k)}) h h'"
  proof (cases "n \<le> 2048")
    case True
    then show ?thesis using kfree_obj_ok [OF ok, of a k] k(2) by blast
  next
    case False
    then show ?thesis using kfree_block_ok [OF ok, of a k] k(3) a(2) by auto
  qed
  then obtain h' where h': "kfree a h = Some h'" "contents_kept (?R - {(a, k)}) h h'" by blast
  have "rd x h' = rd x h" if c: "(c, m) \<in> H - {(a, n)}" "inside x (c, unat m)" for c m x
  proof -
    obtain l where l: "unat m \<le> l" "(c, l) \<in> ?R" using backedE [OF b, of c m] c(1) by blast
    have "inj_on fst H" using b by (simp add: backed_def)
    then have "c \<noteq> a" using inj_onD [of fst H "(c, m)" "(a, n)"] a(1) c(1) by auto
    then show ?thesis using h'(2) l smaller_inside [OF c(2) l(1)] unfolding contents_kept_def by blast
  qed
  then show ?thesis using h'(1) heap_run.free [OF run a h'(1)] by blast
qed

theorem kfree_returns_witness: "\<exists>h'. kfree 0x800018 heap_two' = Some h' \<and> heap_run h' {}"
  using kfree_returns [OF heap_two_run', of "0x800018" 1024] by auto

text \<open>\<open>kmalloc\<close> returns exactly for requests of at most 2 GB; for larger ones the search for an order never ends.\<close>

theorem kmalloc_returns: "(\<exists>r. kmalloc n h = Some r) \<longleftrightarrow> n \<le> 0x80000000"
proof (cases "n \<le> 2048")
  case True
  then have "n \<le> 0x80000000" by (simp add: word_le_nat_alt)
  moreover have "\<exists>r. kmalloc n h = Some r" using leD [OF True] by (simp add: kmalloc_def split: option.split)
  ultimately show ?thesis by blast
next
  case False
  then have "n \<noteq> 0" by auto
  then have "(\<exists>r. kmalloc n h = Some r) \<longleftrightarrow> (\<exists>r. order_for n 0 = Some r)" using False
    by (cases "order_for n 0") (simp_all add: kmalloc_def not_le count_alloc_def split: prod.split)
  also have "\<dots> \<longleftrightarrow> n \<le> 0x80000000" using order_for_returns [of n 0] order_for_loops [of n 0] by (cases "n \<le> 0x80000000") (auto simp: not_le)
  finally show ?thesis .
qed

text \<open>A block of pages that starts with the slab magic is taken for a slab: its second word is followed as a pointer to
  a cache.\<close>

lemma kfree_trusts_contents:
  assumes "ptr AND NOT 4095 = ptr" "ptr \<noteq> 0" "rd ptr h = SLAB_MAGIC" "cache_index h (rd (ptr + 4) h) = None"
  shows "kfree ptr h = None"
proof -
  have "cache_index (h\<lparr>mm_stat_kfree_calls := k\<rparr>) p = cache_index h p" "rd x (h\<lparr>mm_stat_kfree_calls := k\<rparr>) = rd x h" for k p x
    by (simp_all add: cache_index_def rd_def)
  then show ?thesis using assms(2-) unfolding kfree_def Let_def assms(1) by simp
qed

end
