(* ===== verification/Paging.thy ===== *)
theory Paging
  imports Slab
begin

text \<open>
  Page tables (\<open>kernel/mm/paging.c\<close>) on the memory of \<open>Slab\<close>: a page directory and its tables are pages
  of 1024 words. The static variable \<open>kernel_pd\<close> is an argument; loading the control register and
  flushing the TLB is left to the callers (theory \<open>Process\<close>). \<open>mmu\<close> is the processor's page walk.

  Shown: what a program in user mode can reach through a directory made by \<open>vmm_create_user_pd\<close> is
  exactly the frames of its window; making, changing and destroying directories takes and gives back
  pages without touching anything held elsewhere; a mapping that was made translates to its frame.
\<close>

section \<open>Definitions\<close>

definition VMM_PRESENT :: u32 where "VMM_PRESENT = 1"
definition VMM_WRITABLE :: u32 where "VMM_WRITABLE = 2"
definition VMM_USER :: u32 where "VMM_USER = 4"
definition VMM_PWT :: u32 where "VMM_PWT = 8"
definition VMM_PCD :: u32 where "VMM_PCD = 16"

lemmas vmm_flags = VMM_PRESENT_def VMM_WRITABLE_def VMM_USER_def VMM_PWT_def VMM_PCD_def

text \<open>\<open>pmm_alloc_page(0)\<close> and \<open>pmm_free_page(p, 0)\<close> on the state of the heap, and element \<open>i\<close> of a table.\<close>

definition page_alloc :: "kheap \<Rightarrow> u32 \<times> kheap" where
  "page_alloc h = (let (a, p) = pmm_alloc_page 0 (pm h) in (a, h\<lparr>pm := p\<rparr>))"

definition page_free :: "u32 \<Rightarrow> kheap \<Rightarrow> kheap" where
  "page_free a h = h\<lparr>pm := pmm_free_page a 0 (pm h)\<rparr>"

definition entry :: "u32 \<Rightarrow> nat \<Rightarrow> u32" where
  "entry base i = base + 4 * of_nat i"

definition pde_idx :: "u32 \<Rightarrow> nat" where "pde_idx v = unat (drop_bit 22 v)"
definition pte_idx :: "u32 \<Rightarrow> nat" where "pte_idx v = unat (drop_bit 12 v AND 0x3FF)"

definition get_page_table :: "u32 \<Rightarrow> u32 \<Rightarrow> bool \<Rightarrow> u32 \<Rightarrow> kheap \<Rightarrow> u32 \<times> kheap" where
  "get_page_table pd virt mk flags h =
     (let e = entry pd (pde_idx virt)
      in if rd e h AND VMM_PRESENT \<noteq> 0 then
           let h = (if flags AND VMM_USER \<noteq> 0 then wr e (rd e h OR VMM_USER) h else h)
           in (rd e h AND 0xFFFFF000, h)
         else if \<not> mk then (0, h)
         else
           let (pt, h) = page_alloc h
           in if pt = 0 then (0, h)
              else
                let h = fold (\<lambda>i. wr (entry pt i) 0) [0 ..< 1024] h
                in (pt, wr e (pt OR VMM_PRESENT OR VMM_WRITABLE OR (flags AND VMM_USER)) h))"

definition vmm_map_page :: "u32 \<Rightarrow> u32 \<Rightarrow> u32 \<Rightarrow> u32 \<Rightarrow> kheap \<Rightarrow> int \<times> kheap" where
  "vmm_map_page pd virt phys flags h =
     (let (pt, h) = get_page_table pd virt True flags h
      in if pt = 0 then (-1, h)
         else (0, wr (entry pt (pte_idx virt)) ((phys AND 0xFFFFF000) OR flags OR VMM_PRESENT) h))"

definition vmm_unmap_page :: "u32 \<Rightarrow> u32 \<Rightarrow> kheap \<Rightarrow> int \<times> kheap" where
  "vmm_unmap_page pd virt h =
     (let (pt, h) = get_page_table pd virt False 0 h
      in if pt = 0 then (-1, h) else (0, wr (entry pt (pte_idx virt)) 0 h))"

text \<open>\<open>None\<close> is not returning: the address wraps when the end lies in the last page.\<close>

partial_function (option) vmm_map_range :: "u32 \<Rightarrow> u32 \<Rightarrow> u32 \<Rightarrow> u32 \<Rightarrow> kheap \<Rightarrow> kheap option" where
  "vmm_map_range pd addr end_addr flags h =
     (if addr < end_addr
      then vmm_map_range pd (addr + PAGE_SIZE) end_addr flags (snd (vmm_map_page pd addr addr flags h))
      else Some h)"

definition paging_init :: "kheap \<Rightarrow> (u32 \<times> kheap) option" where
  "paging_init h =
     (let (kpd, h) = page_alloc h;
          h = fold (\<lambda>i. wr (entry kpd i) 0) [0 ..< 1024] h
      in map_option (\<lambda>h.
           let h = snd (vmm_map_page kpd 0xB8000 0xB8000 VMM_WRITABLE h);
               h = fold (\<lambda>i h. let a = 0xA0000 + of_nat i * PAGE_SIZE in snd (vmm_map_page kpd a a VMM_WRITABLE h)) [0 ..< 16] h
           in (kpd, h))
         (vmm_map_range kpd 0 0x1E000000 (VMM_WRITABLE OR VMM_USER) h))"

definition paging_map_mmio_4mb :: "u32 \<Rightarrow> u32 \<Rightarrow> u32 \<Rightarrow> kheap \<Rightarrow> kheap" where
  "paging_map_mmio_4mb kpd virt_base phys_base h =
     fold (\<lambda>i h. snd (vmm_map_page kpd (virt_base + of_nat i * PAGE_SIZE) (phys_base + of_nat i * PAGE_SIZE)
       (VMM_WRITABLE OR VMM_PCD OR VMM_PWT) h)) [0 ..< 1024] h"

definition paging_map_framebuffer :: "u32 \<Rightarrow> u32 \<Rightarrow> u32 \<Rightarrow> kheap \<Rightarrow> kheap option" where
  "paging_map_framebuffer kpd phys sz h =
     (if kpd = 0 \<or> sz = 0 then Some h
      else
        let start = phys AND NOT (PAGE_SIZE - 1);
            end_addr = (phys + sz + PAGE_SIZE - 1) AND NOT (PAGE_SIZE - 1)
        in vmm_map_range kpd start end_addr (VMM_WRITABLE OR VMM_PCD OR VMM_PWT) h)"

text \<open>User directories. \<open>put_window\<close> is the loop that both \<open>vmm_build_window_pt\<close> and \<open>vmm_remap_window\<close> have.\<close>

definition window_pte :: "u32 \<Rightarrow> u32" where
  "window_pte f = (if f \<noteq> 0 then (f AND 0xFFFFF000) OR VMM_PRESENT OR VMM_WRITABLE OR VMM_USER else 0)"

definition put_window :: "u32 \<Rightarrow> u32 list \<Rightarrow> u32 \<Rightarrow> kheap \<Rightarrow> kheap" where
  "put_window pt frames win_virt h =
     fold (\<lambda>i. wr (entry pt (pte_idx (win_virt + of_nat i * PAGE_SIZE))) (window_pte (frames ! i))) [0 ..< length frames] h"

definition vmm_build_window_pt :: "u32 list \<Rightarrow> u32 \<Rightarrow> kheap \<Rightarrow> u32 \<times> kheap" where
  "vmm_build_window_pt frames win_virt h =
     (let (pt, h) = page_alloc h
      in if pt = 0 then (0, h)
         else
           let h = fold (\<lambda>i. wr (entry pt i) (push_bit 12 (of_nat i) OR VMM_PRESENT OR VMM_WRITABLE)) [0 ..< 1024] h
           in (pt, put_window pt frames win_virt h))"

definition user_pde :: "u32 \<Rightarrow> u32 \<Rightarrow> u32 \<Rightarrow> kheap \<Rightarrow> nat \<Rightarrow> u32" where
  "user_pde kpd pt win_virt h i =
     (if i = pde_idx win_virt then pt OR VMM_PRESENT OR VMM_WRITABLE OR VMM_USER
      else if rd (entry kpd i) h AND VMM_PRESENT \<noteq> 0 then rd (entry kpd i) h AND NOT VMM_USER
      else 0)"

definition vmm_create_user_pd :: "u32 \<Rightarrow> u32 list \<Rightarrow> u32 \<Rightarrow> kheap \<Rightarrow> u32 \<times> kheap" where
  "vmm_create_user_pd kpd frames win_virt h =
     (if kpd = 0 \<or> frames = [] then (0, h)
      else
        let (pt, h) = vmm_build_window_pt frames win_virt h
        in if pt = 0 then (0, h)
           else
             let (pd, h) = page_alloc h
             in if pd = 0 then (0, page_free pt h)
                else (pd, fold (\<lambda>i h. wr (entry pd i) (user_pde kpd pt win_virt h i) h) [0 ..< 1024] h))"

definition vmm_remap_window :: "u32 \<Rightarrow> u32 list \<Rightarrow> u32 \<Rightarrow> kheap \<Rightarrow> kheap" where
  "vmm_remap_window pd frames win_virt h =
     (if pd = 0 then h else put_window (rd (entry pd (pde_idx win_virt)) h AND 0xFFFFF000) frames win_virt h)"

definition vmm_destroy_user_pd :: "u32 \<Rightarrow> u32 \<Rightarrow> kheap \<Rightarrow> kheap" where
  "vmm_destroy_user_pd kpd pd h =
     (if pd = 0 \<or> pd = kpd then h
      else
        let pt = rd pd h AND 0xFFFFF000;
            h = (if pt \<noteq> 0 then page_free pt h else h)
        in page_free pd h)"

text \<open>The page walk of the processor: the physical address of \<open>v\<close>, for an access in user or kernel mode.\<close>

definition mmu :: "kheap \<Rightarrow> u32 \<Rightarrow> bool \<Rightarrow> u32 \<Rightarrow> u32 option" where
  "mmu h pd user v =
     (let pde = rd (entry pd (pde_idx v)) h
      in if pde AND VMM_PRESENT = 0 \<or> user \<and> pde AND VMM_USER = 0 then None
         else
           let pte = rd (entry (pde AND 0xFFFFF000) (pte_idx v)) h
           in if pte AND VMM_PRESENT = 0 \<or> user \<and> pte AND VMM_USER = 0 then None
              else Some ((pte AND 0xFFFFF000) OR (v AND 0xFFF)))"

section \<open>Pages on the heap\<close>

text \<open>\<open>holds h D Q\<close>: the heap is well-formed, \<open>D\<close> are the blocks of pages that are held besides its
  slabs and \<open>Q\<close> are objects of the slabs that are in use. \<open>keeps D h h'\<close>: the contents of the blocks \<open>D\<close> is the same.\<close>

definition holds :: "kheap \<Rightarrow> (u32 \<times> int) multiset \<Rightarrow> (u32 \<times> nat) set \<Rightarrow> bool" where
  "holds h D Q \<longleftrightarrow> (\<exists>W F. heap_ok h W F D \<and> Q \<subseteq> held_objs W F)"

definition keeps :: "(u32 \<times> int) multiset \<Rightarrow> kheap \<Rightarrow> kheap \<Rightarrow> bool" where
  "keeps D h h' \<longleftrightarrow> (\<forall>x. page_no x \<in># held_pages D \<longrightarrow> rd x h' = rd x h)"

lemma keeps_refl [simp]: "keeps D h h" by (simp add: keeps_def)

lemma keeps_trans: "keeps D h h1 \<Longrightarrow> keeps D h1 h2 \<Longrightarrow> keeps D h h2" by (simp add: keeps_def)

lemma keeps_sub: "keeps (A + B) h h' \<Longrightarrow> keeps A h h'" by (simp add: keeps_def held_pages_union)

lemma keeps_mono: "A \<subseteq># B \<Longrightarrow> keeps B h h' \<Longrightarrow> keeps A h h'" using keeps_sub by (metis subset_mset.add_diff_inverse)

lemma keepsD: "keeps D h h' \<Longrightarrow> page_no x \<in># held_pages D \<Longrightarrow> rd x h' = rd x h" by (simp add: keeps_def)

lemma holds_inv:
  assumes "holds h D Q" obtains W F where "heap_ok h W F D" "pmm_run_inv (pm h) (slab_blocks W + D)" "Q \<subseteq> held_objs W F"
  using assms heap_okD(2) unfolding holds_def by blast

lemma holds_fewer: "holds h D Q \<Longrightarrow> Q' \<subseteq> Q \<Longrightarrow> holds h D Q'" unfolding holds_def by blast

lemma holds_block:
  assumes h: "holds h D Q" and a: "(a, n) \<in># D"
  shows "slab_page a" "set (block_pages (nat n) a) \<subseteq> set_mset (held_pages D)" "0 \<le> n" "n \<le> 10" "0x800000 \<le> unat a"
    "unat a + 4096 * 2 ^ nat n \<le> 0x1E000000"
proof -
  obtain W F where W: "heap_ok h W F D" "pmm_run_inv (pm h) (slab_blocks W + D)" using holds_inv [OF h] .
  show "slab_page a" by (rule pmm_block_page [OF W(2), of a n]) (use a in simp)
  show "set (block_pages (nat n) a) \<subseteq> set_mset (held_pages D)" using held_pagesI [OF a] by blast
  obtain L where L: "pmm_wf (pm h) L" and b: "\<And>a n. (a, n) \<in># slab_blocks W + D \<Longrightarrow> pmm_block (pm h) n a" by (rule pmm_run_invE [OF W(2)]) blast
  have t: "unat (total_pages (pm h)) \<le> 120832" using L pmm_listsD(3) by (auto simp: pmm_wf_def)
  have blk: "pmm_block (pm h) n a" using b a by simp
  then have ok: "block_ok (unat (total_pages (pm h))) (nat n) a" and n: "0 \<le> n" "n \<le> 10" by (simp_all add: pmm_block_def)
  show "0 \<le> n" "n \<le> 10" by (fact n)+
  show "0x800000 \<le> unat a" "unat a + 4096 * 2 ^ nat n \<le> 0x1E000000"
    using block_end_bound [OF ok t] ok by (auto simp: block_ok_def PMM_START_ADDR_def)
qed

text \<open>Held pages are held once.\<close>

lemma holds_once:
  assumes "holds h (A + B) Q" "p \<in># held_pages A" shows "p \<notin># held_pages B"
proof -
  obtain W F where "pmm_run_inv (pm h) (slab_blocks W + (A + B))" using holds_inv [OF assms(1)] .
  then have "pmm_run_inv (pm h) (A + (B + slab_blocks W))" by (simp add: ac_simps)
  from held_once(1) [OF this assms(2)] show ?thesis by (simp add: held_pages_union)
qed

lemma holds_alloc:
  assumes h: "holds h D Q" and r: "page_alloc h = (a, h')"
  shows "a = 0 \<Longrightarrow> h' = h" "a \<noteq> 0 \<Longrightarrow> holds h' (add_mset (a, 0) D) Q" "keeps D h h'"
    "a \<noteq> 0 \<Longrightarrow> page_no a \<notin># held_pages D"
proof -
  obtain W F where W: "heap_ok h W F D" "pmm_run_inv (pm h) (slab_blocks W + D)" "Q \<subseteq> held_objs W F" using holds_inv [OF h] .
  obtain p where p: "pmm_alloc_page 0 (pm h) = (a, p)" "h' = h\<lparr>pm := p\<rparr>" using r by (auto simp: page_alloc_def split: prod.splits)
  obtain L where L: "pmm_wf (pm h) L" by (rule pmm_run_invE [OF W(2)])
  show same: "a = 0 \<Longrightarrow> h' = h" using pmm_alloc_page_fail_same [OF L, of 0 p] p by simp
  show "a \<noteq> 0 \<Longrightarrow> holds h' (add_mset (a, 0) D) Q"
  proof -
    assume a: "a \<noteq> 0"
    note inv = pmm_run_inv_alloc [OF W(2) p(1) a] and fresh = pmm_run_inv_alloc_fresh [OF W(2) p(1) a]
    have "heap_ok (h\<lparr>pm := p\<rparr>) W F (add_mset (a, 0) D)"
      using inv fresh by (intro heap_pages_step [OF W(1)]) (auto simp: held_pages_union rd_def)
    then show ?thesis using W(3) by (auto simp: holds_def p(2))
  qed
  show "keeps D h h'"
  proof (cases "a = 0")
    case True
    then show ?thesis using same by simp
  next
    case False
    from pmm_run_inv_alloc_fresh [OF W(2) p(1) this] show ?thesis by (simp add: keeps_def p(2) rd_def held_pages_union)
  qed
  show "a \<noteq> 0 \<Longrightarrow> page_no a \<notin># held_pages D"
    using pmm_run_inv_alloc_fresh [OF W(2) p(1)] block_pages_first [of a 0] by (auto simp: held_pages_union)
qed

lemma holds_free:
  assumes h: "holds h (add_mset (a, 0) D) Q"
  shows "holds (page_free a h) D Q" "keeps D h (page_free a h)"
proof -
  obtain W F where W: "heap_ok h W F (add_mset (a, 0) D)" "pmm_run_inv (pm h) (slab_blocks W + add_mset (a, 0) D)" "Q \<subseteq> held_objs W F"
    using holds_inv [OF h] .
  have inv: "pmm_run_inv (pm h) (add_mset (a, 0) (slab_blocks W + D))" using W(2) by simp
  obtain L where L: "pmm_wf (pm h) L" "free_page_mset L + held_pages (add_mset (a, 0) (slab_blocks W + D)) = managed_pages (pm h)"
    and held: "\<And>b m. (b, m) \<in># add_mset (a, 0) (slab_blocks W + D) \<Longrightarrow> pmm_block (pm h) m b"
    by (rule pmm_run_invE [OF inv]) blast
  have ok: "block_ok (unat (total_pages (pm h))) 0 a" using held [of a 0] by (simp add: pmm_block_def)
  have fresh: "p \<notin># free_page_mset L" if "p \<in> set (block_pages 0 a)" for p
    using free_held_disjoint [OF L(2), of p] that by auto
  have mem: "mem (pmm_free_page a 0 (pm h)) x = mem (pm h) x" if "x \<noteq> a" for x
    using pmm_free_page_wf(4) [OF L(1), of 0 a] ok fresh that by simp
  have out: "page_no a \<notin># held_pages (slab_blocks W + D)"
    using held_once(1) [of "pm h" "{#(a, 0)#}" "slab_blocks W + D" "page_no a"] inv block_pages_first [of a 0] by simp
  have "heap_ok (h\<lparr>pm := pmm_free_page a 0 (pm h)\<rparr>) W F D"
  proof (rule heap_pages_step [OF W(1) pmm_run_inv_free [OF inv]])
    fix x assume "page_no x \<in># held_pages (slab_blocks W)"
    then have "x \<noteq> a" using out by (auto simp: held_pages_union)
    then show "mem (pmm_free_page a 0 (pm h)) x = rd x h" using mem by (simp add: rd_def)
  qed
  then show "holds (page_free a h) D Q" using W(3) by (auto simp: holds_def page_free_def)
  show "keeps D h (page_free a h)"
    unfolding keeps_def
  proof (intro allI impI)
    fix x assume "page_no x \<in># held_pages D"
    then have "x \<noteq> a" using out by (auto simp: held_pages_union)
    then show "rd x (page_free a h) = rd x h" using mem by (simp add: rd_def page_free_def)
  qed
qed

text \<open>Writes to a page that is held.\<close>

lemma block_inside:
  assumes "slab_page a" "page_no x \<in> set (block_pages n a)" shows "inside x (a, 4096 * 2 ^ n)"
proof -
  obtain q where q: "unat a = 4096 * q" using assms(1) by (auto simp: slab_page_def dvd_def)
  then have "q \<le> unat x div 4096" "unat x div 4096 < q + 2 ^ n" using assms(2) by (auto simp: block_pages_def page_no_def)
  then have "4096 * q \<le> unat x" "unat x < 4096 * (q + 2 ^ n)" by simp_all
  then show ?thesis by (simp add: inside_def q algebra_simps)
qed

lemma in_held_pages: "p \<in># held_pages D \<longleftrightarrow> (\<exists>a n. (a, n) \<in># D \<and> p \<in> set (block_pages (nat n) a))"
  by (induction D) (auto simp: held_pages_def [of "{#}"], blast+)

lemma holds_wr:
  assumes h: "holds h D Q" and x: "page_no x \<in># held_pages D"
  shows "holds (wr x v h) D Q"
proof -
  obtain W F where W: "heap_ok h W F D" "Q \<subseteq> held_objs W F" using holds_inv [OF h] .
  obtain a n where a: "(a, n) \<in># D" "page_no x \<in> set (block_pages (nat n) a)" using x by (auto simp: in_held_pages)
  have "(a, 4096 * 2 ^ nat n) \<in> held_blocks D" using a(1) by (auto simp: held_blocks_def)
  then have "heap_ok (wr x v h) W F D"
    using block_inside [OF holds_block(1) [OF h a(1)] a(2)] by (intro heap_store [OF W(1)]) auto
  then show ?thesis using W(2) by (auto simp: holds_def)
qed

lemma keeps_wr: "page_no x \<notin># held_pages D \<Longrightarrow> keeps D h (wr x v h)" by (auto simp: keeps_def rd_wr)

lemma holds_fill:
  assumes "holds h D Q" "\<And>k. k \<in> set ks \<Longrightarrow> page_no (f k) \<in># held_pages D"
  shows "holds (fold (\<lambda>k. wr (f k) (g k)) ks h) D Q"
  using assms by (induction ks arbitrary: h) (auto intro: holds_wr)

lemma keeps_fill:
  assumes "\<And>k. k \<in> set ks \<Longrightarrow> page_no (f k) \<notin># held_pages D"
  shows "keeps D h (fold (\<lambda>k. wr (f k) (g k)) ks h)"
  using assms
proof (induction ks arbitrary: h)
  case (Cons k ks)
  have "keeps D h (wr (f k) (g k) h)" using Cons.prems by (intro keeps_wr) simp
  then show ?case using Cons.IH Cons.prems keeps_trans by fastforce
qed simp

text \<open>Large requests of \<open>kmalloc\<close> are blocks.\<close>

lemma pmm_split_link: "j \<le> 10 \<Longrightarrow> mem (pmm_split a n j p) a = mem p a"
proof (induction j arbitrary: p)
  case (Suc j)
  have "unat (PAGE_SIZE * 2 ^ j) \<noteq> 0" using unat_block [of j] Suc.prems by simp
  then have "a + PAGE_SIZE * 2 ^ j \<noteq> a" by auto
  then show ?case using Suc by (simp add: pmm_add_to_list_def)
qed simp

lemma pmm_alloc_link:
  assumes wf: "pmm_wf p L" and r: "pmm_alloc_page n p = (a, p')" "a \<noteq> 0"
  shows "4096 dvd unat (mem p' a)"
proof -
  have l: "pmm_lists p L" using wf by (simp add: pmm_wf_def)
  note D = pmm_listsD [OF l]
  obtain j where j: "pmm_first_list (nat n) p = Some j" using r by (auto simp: pmm_alloc_page_def split: option.splits if_splits)
  have j10: "j \<le> 10" using pmm_first_list_Some(2) [OF j D(1)] by simp
  have a: "a = free_lists p ! j" "mem p' a = mem p a"
    using r j pmm_split_link [OF j10, of a "nat n"] by (auto simp: pmm_alloc_page_def Let_def split: if_splits)
  have c: "chain (mem p) a (L ! j)" using D(4) [of j] j10 a(1) by simp
  then obtain as where as: "L ! j = a # as" "chain (mem p) (mem p a) as" using chain_head [OF c r(2)] by (metis list.sel(3))
  show ?thesis
  proof (cases as)
    case Nil
    then show ?thesis using as(2) a(2) by simp
  next
    case (Cons b bs)
    then have "mem p a \<in> set (L ! j)" using as by simp
    then show ?thesis using D(5) [of j "mem p a"] j10 a(2) by (simp add: block_ok_def)
  qed
qed

lemma holds_set_stats [simp]: "holds (set_stats x y z h) D Q = holds h D Q" "keeps D h (set_stats x y z k) = keeps D h k"
  by (simp_all add: holds_def keeps_def)

lemma holds_kmalloc:
  assumes h: "holds h D Q" and n: "2048 < n" and run: "kmalloc n h = Some (a, h')" and r: "order_for n 0 = Some r"
  shows "keeps D h h'" "a = 0 \<Longrightarrow> holds h' D Q"
    "a \<noteq> 0 \<Longrightarrow> holds h' (add_mset (a, int r) D) Q \<and> set (block_pages r a) \<inter> set_mset (held_pages D) = {} \<and> rd a h' \<noteq> SLAB_MAGIC"
proof -
  obtain W F where W: "heap_ok h W F D" "pmm_run_inv (pm h) (slab_blocks W + D)" "Q \<subseteq> held_objs W F" using holds_inv [OF h] .
  have n0: "n \<noteq> 0" using n by auto
  obtain b p where al: "pmm_alloc_page (int r) (pm h) = (b, p)" by fastforce
  obtain x y z where c: "count_alloc (b, h\<lparr>pm := p\<rparr>) = (b, set_stats x y z (h\<lparr>pm := p\<rparr>))" using count_alloc_stats by blast
  have run': "a = b" "h' = set_stats x y z (h\<lparr>pm := p\<rparr>)" using run n n0 r al c by (simp_all add: kmalloc_def)
  obtain L where L: "pmm_wf (pm h) L" by (rule pmm_run_invE [OF W(2)])
  have same: "p = pm h" if "b = 0" using pmm_alloc_page_fail_same [OF L al [unfolded that]] .
  then show "a = 0 \<Longrightarrow> holds h' D Q" using h run' by simp
  show "keeps D h h'"
  proof (cases "b = 0")
    case True
    then show ?thesis using same run' by simp
  next
    case False
    from pmm_run_inv_alloc_fresh [OF W(2) al this] show ?thesis by (simp add: run') (simp add: keeps_def rd_def held_pages_union)
  qed
  assume "a \<noteq> 0"
  then have b: "b \<noteq> 0" using run' by simp
  note inv = pmm_run_inv_alloc [OF W(2) al b] and fresh = pmm_run_inv_alloc_fresh [OF W(2) al b]
  have "heap_ok (h\<lparr>pm := p\<rparr>) W F (add_mset (b, int r) D)"
    using inv fresh by (intro heap_pages_step [OF W(1)]) (auto simp: held_pages_union rd_def)
  then have "holds h' (add_mset (a, int r) D) Q" using W(3) unfolding run' holds_set_stats by (auto simp: holds_def)
  moreover have "rd a h' \<noteq> SLAB_MAGIC"
  proof
    assume "rd a h' = SLAB_MAGIC"
    then have "mem p b = SLAB_MAGIC" by (simp add: run' rd_def set_stats_def)
    then show False using pmm_alloc_link [OF L al b] by (simp add: SLAB_MAGIC_def)
  qed
  ultimately show "holds h' (add_mset (a, int r) D) Q \<and> set (block_pages r a) \<inter> set_mset (held_pages D) = {} \<and> rd a h' \<noteq> SLAB_MAGIC"
    using fresh by (auto simp: held_pages_union run')
qed

lemma holds_kfree:
  assumes h: "holds h (add_mset (a, n) D) Q" and magic: "rd a h \<noteq> SLAB_MAGIC"
  shows "\<exists>h'. kfree a h = Some h' \<and> holds h' D Q \<and> keeps D h h'"
proof -
  obtain W F where W: "heap_ok h W F (add_mset (a, n) D)" "Q \<subseteq> held_objs W F" using holds_inv [OF h] .
  from kfree_pages_ok [OF W(1) magic] obtain h' where h': "kfree a h = Some h'" "heap_ok h' W F D" "\<forall>x. x \<noteq> a \<longrightarrow> rd x h' = rd x h"
    by blast
  have "page_no a \<notin># held_pages D"
    using holds_once [of h "{#(a, n)#}" D Q "page_no a"] h block_pages_first [of a "nat n"] by simp
  then have "keeps D h h'" using h'(3) by (auto simp: keeps_def)
  then show ?thesis using h' W(2) by (auto simp: holds_def)
qed

lemma holds_kfree_obj:
  assumes h: "holds h D (insert (a, m) Q)" and Q: "(a, m) \<notin> Q"
  shows "\<exists>h'. kfree a h = Some h' \<and> holds h' D Q \<and> keeps D h h'"
proof -
  obtain W F where W: "heap_ok h W F D" "insert (a, m) Q \<subseteq> held_objs W F" using holds_inv [OF h] .
  then have a: "(a, m) \<in> held_objs W F" by blast
  from kfree_obj_ok [OF W(1) a] obtain h' W' F' where h': "kfree a h = Some h'" "heap_ok h' W' F' D"
    "held_objs W' F' = held_objs W F - {(a, m)}" "contents_kept ((held_objs W F \<union> held_blocks D) - {(a, m)}) h h'" by blast
  have "keeps D h h'"
    unfolding keeps_def
  proof (intro allI impI)
    fix x assume "page_no x \<in># held_pages D"
    then obtain b n where b: "(b, n) \<in># D" "page_no x \<in> set (block_pages (nat n) b)" by (auto simp: in_held_pages)
    let ?b = "(b, 4096 * 2 ^ nat n) :: u32 \<times> nat"
    have "?b \<in> held_blocks D" using b(1) by (auto simp: held_blocks_def)
    moreover have "inside x ?b" using block_inside [OF holds_block(1) [OF h b(1)] b(2)] .
    moreover have "?b \<noteq> (a, m)"
    proof
      assume "?b = (a, m)"
      moreover obtain i where "m = osize i" "i < 7" using a heap_okD(5) [OF W(1)] by (auto simp: held_objs_def)
      ultimately have "4096 * 2 ^ nat n \<le> (2048 :: nat)" using cap_facts(5) by auto
      moreover have "(1 :: nat) \<le> 2 ^ nat n" by simp
      ultimately show False by linarith
    qed
    ultimately show "rd x h' = rd x h" using h'(4) unfolding contents_kept_def by blast
  qed
  then show ?thesis using h' W(2) Q by (auto simp: holds_def)
qed

section \<open>Tables\<close>

lemma entry_at:
  assumes "slab_page b" "i < 1024"
  shows "unat (entry b i) = unat b + 4 * i" "page_no (entry b i) = page_no b"
proof -
  have "entry b i = b + of_nat (4 * i)" by (simp add: entry_def)
  then show "unat (entry b i) = unat b + 4 * i" "page_no (entry b i) = page_no b"
    using in_page [OF assms(1), of "4 * i"] assms(2) by simp_all
qed

lemma entry_inj: "slab_page b \<Longrightarrow> i < 1024 \<Longrightarrow> j < 1024 \<Longrightarrow> entry b i = entry b j \<longleftrightarrow> i = j"
proof -
  assume b: "slab_page b" "i < 1024" "j < 1024"
  have "unat b + 4 * i = unat b + 4 * j" if "entry b i = entry b j" using that entry_at(1) [OF b(1)] b(2,3) by metis
  then show ?thesis by auto
qed

lemma entry_distinct: "slab_page b \<Longrightarrow> distinct ks \<Longrightarrow> set ks \<subseteq> {..< 1024} \<Longrightarrow> distinct (map (entry b) ks)"
  unfolding distinct_map inj_on_def using entry_inj by blast

lemma entry_0 [simp]: "entry b 0 = b" by (simp add: entry_def)

lemma page_bits:
  fixes a :: u32
  assumes "4096 dvd unat a"
  shows "a AND 0xFFFFF000 = a" "a AND 0xFFF = 0"
proof -
  have "take_bit 12 a = 0" using assms by (simp add: unsigned_take_bit_eq word_unat_eq_iff take_bit_eq_0_iff)
  then show z: "a AND 0xFFF = 0" using take_bit_eq_mask [of 12 a] by (simp add: mask_eq_exp_minus_1)
  have m: "(0xFFFFF000 OR 0xFFF :: u32) = - 1" by simp
  have "a = a AND (0xFFFFF000 OR 0xFFF)" unfolding m by (rule and.right_neutral [symmetric])
  also have "\<dots> = (a AND 0xFFFFF000) OR (a AND 0xFFF)" by (rule bit.conj_disj_distrib)
  finally show "a AND 0xFFFFF000 = a" using z by simp
qed

lemma page_or_flags:
  fixes a :: u32
  assumes "4096 dvd unat a" "f AND 0xFFFFF000 = 0"
  shows "(a OR f) AND 0xFFFFF000 = a" "(a OR f) AND 0xFFF = f AND 0xFFF"
  using page_bits [OF assms(1)] assms(2) by (simp_all add: bit.conj_disj_distrib2)

lemma flags_of: "(a OR f) AND VMM_PRESENT = f AND VMM_PRESENT" "(a OR f) AND VMM_USER = f AND VMM_USER" if "4096 dvd unat a"
proof -
  have "a AND m = 0" if "m AND 0xFFF = m" for m
  proof -
    have "a AND m = (a AND 0xFFF) AND m" using that by (metis and.assoc and.commute)
    then show ?thesis using page_bits(2) [OF \<open>4096 dvd unat a\<close>] by simp
  qed
  from this [of VMM_PRESENT] this [of VMM_USER] show "(a OR f) AND VMM_PRESENT = f AND VMM_PRESENT" "(a OR f) AND VMM_USER = f AND VMM_USER"
    by (simp_all add: bit.conj_disj_distrib2 vmm_flags)
qed

lemma slab_page_dvd: "slab_page a \<Longrightarrow> 4096 dvd unat a \<and> a \<noteq> 0" by (auto simp: slab_page_def)

text \<open>Filling a whole table and part of it.\<close>

lemma fill_table:
  assumes b: "slab_page b" and ks: "distinct ks" "set ks \<subseteq> {..< 1024}" and j: "j < 1024"
  shows "rd (entry b j) (fold (\<lambda>i. wr (entry b i) (g i)) ks h) = (if j \<in> set ks then g j else rd (entry b j) h)"
proof -
  have "entry b j \<in> entry b ` set ks \<longleftrightarrow> j \<in> set ks" using entry_inj [OF b j] ks(2) by (metis image_iff lessThan_iff subsetD)
  then show ?thesis using wr_fold_rd [OF entry_distinct [OF b ks]] by auto
qed

lemma holds_table:
  assumes "holds h D Q" "(b, 0) \<in># D" "set ks \<subseteq> {..< 1024}"
  shows "holds (fold (\<lambda>i. wr (entry b i) (g i)) ks h) D Q"
proof (rule holds_fill [OF assms(1)])
  fix k assume "k \<in> set ks"
  then show "page_no (entry b k) \<in># held_pages D"
    using entry_at(2) [OF holds_block(1) [OF assms(1,2)]] assms(3) held_pagesI [OF assms(2) block_pages_first] by auto
qed

lemma keeps_table:
  assumes "slab_page b" "set ks \<subseteq> {..< 1024}" "page_no b \<notin># held_pages D"
  shows "keeps D h (fold (\<lambda>i. wr (entry b i) (g i)) ks h)"
  by (rule keeps_fill) (use assms entry_at(2) in auto)

section \<open>User directories\<close>

text \<open>The window lies in the first four megabytes. \<open>win_at win k\<close>: the place of address index \<open>k\<close> in it.\<close>

definition window_ok :: "u32 \<Rightarrow> nat \<Rightarrow> bool" where
  "window_ok win n \<longleftrightarrow> 4096 dvd unat win \<and> unat win + 4096 * n \<le> 0x400000"

lemma window_idx:
  assumes "window_ok win n" "i < n"
  shows "pte_idx (win + of_nat i * PAGE_SIZE) = unat win div 4096 + i" "unat win div 4096 + i < 1024"
proof -
  obtain q where q: "unat win = 4096 * q" using assms(1) by (auto simp: window_ok_def dvd_def)
  then have b: "q + i < 1024" using assms by (simp add: window_ok_def)
  have "unat (win + of_nat i * PAGE_SIZE) = 4096 * (q + i)"
    using b q by (simp add: unat_word_ariths PAGE_SIZE_def unat_of_nat)
  then have "unat (drop_bit 12 (win + of_nat i * PAGE_SIZE)) = q + i" by (simp add: unsigned_drop_bit_eq drop_bit_eq_div unat_div)
  moreover have "unat (w AND 0x3FF) = unat w mod 1024" for w :: u32
  proof -
    have "w AND 0x3FF = take_bit 10 w" by (simp add: take_bit_eq_mask mask_eq_exp_minus_1)
    then show ?thesis by (simp add: unsigned_take_bit_eq take_bit_eq_mod unat_mod)
  qed
  ultimately have "pte_idx (win + of_nat i * PAGE_SIZE) = (q + i) mod 1024" by (simp only: pte_idx_def)
  then show "pte_idx (win + of_nat i * PAGE_SIZE) = unat win div 4096 + i" "unat win div 4096 + i < 1024" using b q by simp_all
qed

lemma window_pde: "window_ok win n \<Longrightarrow> 0 < n \<Longrightarrow> pde_idx win = 0"
  
proof -
  assume "window_ok win n" "0 < n"
  then have "unat win < 4194304" by (auto simp: window_ok_def)
  then show ?thesis by (simp add: pde_idx_def unsigned_drop_bit_eq drop_bit_eq_div unat_div)
qed

definition win_entry :: "u32 \<Rightarrow> u32 list \<Rightarrow> nat \<Rightarrow> u32" where
  "win_entry win fs j =
     (let k = unat win div 4096
      in if k \<le> j \<and> j < k + length fs then window_pte (fs ! (j - k)) else push_bit 12 (of_nat j) OR VMM_PRESENT OR VMM_WRITABLE)"

definition window_table :: "kheap \<Rightarrow> u32 \<Rightarrow> u32 \<Rightarrow> u32 list \<Rightarrow> bool" where
  "window_table h pt win fs \<longleftrightarrow> (\<forall>j < 1024. rd (entry pt j) h = win_entry win fs j)"

definition user_space :: "kheap \<Rightarrow> u32 \<Rightarrow> u32 \<Rightarrow> u32 \<Rightarrow> u32 list \<Rightarrow> bool" where
  "user_space h pd pt win fs \<longleftrightarrow> slab_page pd \<and> slab_page pt \<and> window_ok win (length fs) \<and>
     rd pd h = pt OR VMM_PRESENT OR VMM_WRITABLE OR VMM_USER \<and>
     (\<forall>i. 0 < i \<longrightarrow> i < 1024 \<longrightarrow> rd (entry pd i) h AND VMM_USER = 0) \<and> window_table h pt win fs"

lemma put_window_fold:
  assumes "window_ok win (length fs)"
  shows "put_window pt fs win h = fold (\<lambda>j. wr (entry pt j) (window_pte (fs ! (j - unat win div 4096))))
    [unat win div 4096 ..< unat win div 4096 + length fs] h"
proof -
  let ?k = "unat win div 4096"
  have "[?k ..< ?k + length fs] = map (\<lambda>i. ?k + i) [0 ..< length fs]" by (simp add: map_add_upt add.commute)
  then have "fold (\<lambda>j. wr (entry pt j) (window_pte (fs ! (j - ?k)))) [?k ..< ?k + length fs] h =
    fold (\<lambda>i. wr (entry pt (?k + i)) (window_pte (fs ! i))) [0 ..< length fs] h" by (simp add: fold_map comp_def)
  also have "\<dots> = put_window pt fs win h"
    unfolding put_window_def by (intro fold_cong) (use window_idx(1) [OF assms] in auto)
  finally show ?thesis ..
qed

lemma put_window_table:
  assumes "slab_page pt" "window_ok win (length fs)" "j < 1024"
  shows "rd (entry pt j) (put_window pt fs win h) =
    (if unat win div 4096 \<le> j \<and> j < unat win div 4096 + length fs then window_pte (fs ! (j - unat win div 4096)) else rd (entry pt j) h)"
proof -
  have "set [unat win div 4096 ..< unat win div 4096 + length fs] \<subseteq> {..< 1024}"
    using assms(2) by (auto simp: window_ok_def)
  from fill_table [OF assms(1) distinct_upt this assms(3)] show ?thesis
    unfolding put_window_fold [OF assms(2)] by auto
qed

lemma put_window_holds:
  assumes "holds h D Q" "(pt, 0) \<in># D" "window_ok win (length fs)"
  shows "holds (put_window pt fs win h) D Q"
  unfolding put_window_fold [OF assms(3)] by (rule holds_table [OF assms(1,2)]) (use assms(3) in \<open>auto simp: window_ok_def\<close>)

lemma put_window_keeps:
  assumes "slab_page pt" "page_no pt \<notin># held_pages D" "window_ok win (length fs)"
  shows "keeps D h (put_window pt fs win h)"
  unfolding put_window_fold [OF assms(3)] by (rule keeps_table [OF assms(1) _ assms(2)]) (use assms(3) in \<open>auto simp: window_ok_def\<close>)

text \<open>A new directory gives user mode the window and nothing else.\<close>

lemma frame_dvd: "4096 dvd unat (push_bit 12 x :: u32)"
proof -
  have "unat (push_bit 12 x) = (4096 * unat x) mod 4294967296" by (simp add: unat_word_ariths push_bit_eq_mult mult.commute)
  then show ?thesis by (simp add: dvd_mod)
qed

lemma pte_flags: "(push_bit 12 x OR VMM_PRESENT OR VMM_WRITABLE :: u32) AND VMM_USER = 0"
  using flags_of(2) [OF frame_dvd] by (simp add: vmm_flags or.assoc)

lemma vmm_build_window_pt_ok:
  assumes h: "holds h D Q" and win: "window_ok win (length fs)" and r: "vmm_build_window_pt fs win h = (pt, h')"
  shows "pt = 0 \<Longrightarrow> h' = h" "keeps D h h'"
    "pt \<noteq> 0 \<Longrightarrow> holds h' (add_mset (pt, 0) D) Q \<and> window_table h' pt win fs \<and> page_no pt \<notin># held_pages D"
proof -
  obtain a h1 where a: "page_alloc h = (a, h1)" by fastforce
  note A = holds_alloc [OF h a]
  have pt: "pt = a" using r a by (simp add: vmm_build_window_pt_def Let_def split: if_splits)
  show "pt = 0 \<Longrightarrow> h' = h" using r a A(1) pt by (simp add: vmm_build_window_pt_def)
  define h2 where "h2 = fold (\<lambda>i. wr (entry a i) (push_bit 12 (of_nat i) OR VMM_PRESENT OR VMM_WRITABLE)) [0 ..< 1024] h1"
  have h': "h' = put_window pt fs win h2" if "pt \<noteq> 0" using r a that pt by (simp add: vmm_build_window_pt_def Let_def h2_def)
  have page: "slab_page a" if "pt \<noteq> 0" using holds_block(1) [OF A(2)] that pt by auto
  have all: "set [0 ..< 1024] \<subseteq> {..< 1024 :: nat}" by auto
  show "keeps D h h'"
  proof (cases "pt = 0")
    case True
    then show ?thesis using \<open>pt = 0 \<Longrightarrow> h' = h\<close> by simp
  next
    case False
    have "keeps D h1 h2" unfolding h2_def by (rule keeps_table [OF page [OF False] all A(4)]) (use False pt in simp)
    moreover have "keeps D h2 h'"
      unfolding h' [OF False] by (rule put_window_keeps) (use page A(4) False pt win in auto)
    ultimately show ?thesis using A(3) keeps_trans by blast
  qed
  assume p: "pt \<noteq> 0"
  have a0: "a \<noteq> 0" using p pt by simp
  have "holds h2 (add_mset (a, 0) D) Q" unfolding h2_def by (rule holds_table [OF A(2) [OF a0] _ all]) simp
  then have "holds h' (add_mset (pt, 0) D) Q" unfolding h' [OF p] pt by (intro put_window_holds win) simp_all
  moreover have "rd (entry pt j) h' = win_entry win fs j" if j: "j < 1024" for j
  proof -
    have "rd (entry a j) h2 = push_bit 12 (of_nat j) OR VMM_PRESENT OR VMM_WRITABLE"
      unfolding h2_def fill_table [OF page [OF p] distinct_upt all j] using j by simp
    then show ?thesis unfolding h' [OF p] pt put_window_table [OF page [OF p] win j] by (simp add: win_entry_def Let_def)
  qed
  ultimately show "holds h' (add_mset (pt, 0) D) Q \<and> window_table h' pt win fs \<and> page_no pt \<notin># held_pages D"
    using A(4) [OF a0] pt by (simp add: window_table_def)
qed

text \<open>The directory is filled from the kernel's, which is another page.\<close>

lemma user_pde_fold:
  assumes "slab_page pd" "slab_page kpd" "page_no pd \<noteq> page_no kpd" "set ks \<subseteq> {..< 1024}"
  shows "fold (\<lambda>i h. wr (entry pd i) (user_pde kpd pt win h i) h) ks h = fold (\<lambda>i. wr (entry pd i) (user_pde kpd pt win h i)) ks h"
proof -
  have same: "user_pde kpd pt win (wr (entry pd i) v g) j = user_pde kpd pt win g j" if "i < 1024" "j < 1024" for i j v g
  proof -
    have "entry kpd j \<noteq> entry pd i"
      using entry_at(2) [OF assms(1) that(1)] entry_at(2) [OF assms(2) that(2)] assms(3) by metis
    then show ?thesis by (simp add: user_pde_def rd_wr)
  qed
  have "\<forall>j < 1024. user_pde kpd pt win g j = user_pde kpd pt win h j \<Longrightarrow>
    fold (\<lambda>i h. wr (entry pd i) (user_pde kpd pt win h i) h) ks g = fold (\<lambda>i. wr (entry pd i) (user_pde kpd pt win h i)) ks g" for g
    using assms(4) by (induction ks arbitrary: g) (auto simp: same)
  then show ?thesis by simp
qed

lemma vmm_create_user_pd_ok:
  assumes h: "holds h D Q" and kpd: "(kpd, 0) \<in># D" and win: "window_ok win (length fs)"
    and r: "vmm_create_user_pd kpd fs win h = (pd, h')"
  shows "keeps D h h'" "pd = 0 \<Longrightarrow> holds h' D Q"
    "pd \<noteq> 0 \<Longrightarrow> \<exists>pt. holds h' (add_mset (pd, 0) (add_mset (pt, 0) D)) Q \<and> user_space h' pd pt win fs \<and>
      (\<forall>i. 0 < i \<longrightarrow> i < 1024 \<longrightarrow> rd (entry pd i) h' = user_pde kpd pt win h i)"
proof -
  obtain pt h1 where b: "vmm_build_window_pt fs win h = (pt, h1)" by fastforce
  obtain a h2 where a: "page_alloc h1 = (a, h2)" by fastforce
  note B = vmm_build_window_pt_ok [OF h win b]
  have kp: "slab_page kpd" "kpd \<noteq> 0" using holds_block(1) [OF h kpd] slab_page_dvd by auto
  consider "fs = [] \<or> pt = 0" "pd = 0" "h' = h" | "pt \<noteq> 0" "fs \<noteq> []" "a = 0" "pd = 0" "h' = page_free pt h2"
    | "pt \<noteq> 0" "fs \<noteq> []" "a \<noteq> 0" "pd = a" "h' = fold (\<lambda>i h. wr (entry pd i) (user_pde kpd pt win h i) h) [0 ..< 1024] h2"
    using r b a B(1) kp(2) by (auto simp: vmm_create_user_pd_def Let_def split: if_splits)
  then have "keeps D h h' \<and> (pd = 0 \<longrightarrow> holds h' D Q) \<and>
    (pd \<noteq> 0 \<longrightarrow> (\<exists>pt. holds h' (add_mset (pd, 0) (add_mset (pt, 0) D)) Q \<and> user_space h' pd pt win fs \<and>
      (\<forall>i. 0 < i \<longrightarrow> i < 1024 \<longrightarrow> rd (entry pd i) h' = user_pde kpd pt win h i)))"
  proof cases
    case 1
    then show ?thesis using h by simp
  next
    case 2
    have hp: "holds h1 (add_mset (pt, 0) D) Q" using B(3) 2 by blast
    have "h2 = h1" using holds_alloc(1) [OF hp a] 2 by simp
    then show ?thesis using holds_free [OF hp] 2 B(2) keeps_trans by metis
  next
    case 3
    have hp: "holds h1 (add_mset (pt, 0) D) Q" "window_table h1 pt win fs" using B(3) 3 by blast+
    note A = holds_alloc [OF hp(1) a]
    have hq: "holds h2 (add_mset (pd, 0) (add_mset (pt, 0) D)) Q" using A(2) 3 by simp
    have pages: "slab_page pd" "slab_page pt" using holds_block(1) [OF hq] by auto
    have out: "page_no pd \<notin># held_pages (add_mset (pt, 0) D)" using A(4) 3 by simp
    have "page_no pd \<noteq> page_no kpd" using out held_pagesI [OF kpd block_pages_first] by auto
    note fold = user_pde_fold [OF pages(1) kp(1) this]
    have all: "set [0 ..< 1024] \<subseteq> {..< 1024 :: nat}" by auto
    have h': "h' = fold (\<lambda>i. wr (entry pd i) (user_pde kpd pt win h2 i)) [0 ..< 1024] h2" using 3(5) fold [OF all] by simp
    have k: "keeps (add_mset (pt, 0) D) h2 h'" unfolding h' by (rule keeps_table [OF pages(1) all out])
    have keepD: "keeps D h1 h2" "keeps D h2 h'"
      using keeps_mono [OF _ A(3), of D] keeps_mono [OF _ k, of D] by simp_all
    have "holds h' (add_mset (pd, 0) (add_mset (pt, 0) D)) Q" unfolding h' by (rule holds_table [OF hq _ all]) simp
    moreover have pde: "rd (entry pd i) h' = user_pde kpd pt win h i" if i: "i < 1024" for i
    proof -
      have "page_no (entry kpd i) \<in># held_pages D" using entry_at(2) [OF kp(1) i] held_pagesI [OF kpd block_pages_first] by auto
      then have "rd (entry kpd i) h2 = rd (entry kpd i) h" using keepsD [OF B(2)] keepsD [OF keepD(1)] by simp
      then show ?thesis unfolding h' fill_table [OF pages(1) distinct_upt all i] using i by (simp add: user_pde_def)
    qed
    moreover have "user_space h' pd pt win fs"
    proof -
      have idx: "pde_idx win = 0" using window_pde [OF win] 3(2) by simp
      have "rd (entry pd i) h' AND VMM_USER = 0" if "0 < i" "i < 1024" for i
        using that idx by (simp add: pde user_pde_def and.assoc)
      moreover have "rd pd h' = pt OR VMM_PRESENT OR VMM_WRITABLE OR VMM_USER"
        using pde [of 0] idx by (simp add: user_pde_def)
      moreover have "window_table h' pt win fs"
        unfolding window_table_def
      proof (intro allI impI)
        fix j :: nat assume j: "j < 1024"
        have "page_no (entry pt j) \<in># held_pages (add_mset (pt, 0) D)" using entry_at(2) [OF pages(2) j] by (simp add: block_pages_0)
        then have "rd (entry pt j) h' = rd (entry pt j) h1" using keepsD [OF A(3)] keepsD [OF k] by simp
        then show "rd (entry pt j) h' = win_entry win fs j" using hp(2) j by (simp add: window_table_def)
      qed
      ultimately show ?thesis using pages win by (simp add: user_space_def)
    qed
    moreover have "keeps D h h'" by (rule keeps_trans [OF B(2) keeps_trans [OF keepD]])
    ultimately show ?thesis using 3(3,4) by blast
  qed
  then show "keeps D h h'" "pd = 0 \<Longrightarrow> holds h' D Q"
    "pd \<noteq> 0 \<Longrightarrow> \<exists>pt. holds h' (add_mset (pd, 0) (add_mset (pt, 0) D)) Q \<and> user_space h' pd pt win fs \<and>
      (\<forall>i. 0 < i \<longrightarrow> i < 1024 \<longrightarrow> rd (entry pd i) h' = user_pde kpd pt win h i)" by blast+
qed

section \<open>Translation\<close>

lemma idx_bounds: "pde_idx v < 1024" "pte_idx v < 1024"
proof -
  have "unat v div 4194304 < 1024" using unsigned_less [where 'a = nat, of v] by simp
  then show "pde_idx v < 1024" by (simp add: pde_idx_def unsigned_drop_bit_eq drop_bit_eq_div unat_div)
  have "unat (drop_bit 12 v AND 0x3FF) \<le> unat (0x3FF :: u32)"
    using word_and_le1 [where y = "drop_bit 12 v" and a = "0x3FF"] by (simp only: word_le_nat_alt)
  then show "pte_idx v < 1024" by (simp add: pte_idx_def)
qed

lemma idx_low:
  "pde_idx v = 0 \<longleftrightarrow> unat v < 0x400000" "pde_idx v = 0 \<Longrightarrow> pte_idx v = unat v div 4096"
proof -
  have p: "pde_idx v = unat v div 4194304" by (simp add: pde_idx_def unsigned_drop_bit_eq drop_bit_eq_div unat_div)
  then show "pde_idx v = 0 \<longleftrightarrow> unat v < 0x400000" by auto
  assume "pde_idx v = 0"
  then have v: "unat v < 4194304" using p by auto
  have "drop_bit 12 v AND 0x3FF = take_bit 10 (drop_bit 12 v)" by (simp add: take_bit_eq_mask mask_eq_exp_minus_1)
  then have "pte_idx v = take_bit 10 (unat (drop_bit 12 v))" unfolding pte_idx_def by (simp only: unsigned_take_bit_eq)
  moreover have "unat (drop_bit 12 v) = unat v div 4096" by (simp add: drop_bit_eq_div unat_div)
  ultimately show "pte_idx v = unat v div 4096" using v by (simp add: take_bit_eq_mod)
qed

text \<open>The end of a translation, and the low entries of the window table.\<close>

definition frame_of :: "u32 list \<Rightarrow> u32 \<Rightarrow> u32 \<Rightarrow> u32" where
  "frame_of fs win v = fs ! (unat v div 4096 - unat win div 4096)"

definition in_window :: "u32 \<Rightarrow> nat \<Rightarrow> u32 \<Rightarrow> bool" where
  "in_window win n v \<longleftrightarrow> unat win \<le> unat v \<and> unat v < unat win + 4096 * n"

lemma in_window_idx:
  assumes "window_ok win n"
  shows "unat win div 4096 \<le> unat v div 4096 \<and> unat v div 4096 < unat win div 4096 + n \<longleftrightarrow> in_window win n v"
proof -
  obtain q where "unat win = 4096 * q" using assms by (auto simp: window_ok_def dvd_def)
  then show ?thesis by (auto simp: in_window_def)
qed

lemma walk_low:
  assumes u: "user_space h pd pt win fs" and v: "pde_idx v = 0"
  shows "mmu h pd user v = (let e = win_entry win fs (unat v div 4096)
    in if e AND VMM_PRESENT = 0 \<or> user \<and> e AND VMM_USER = 0 then None else Some ((e AND 0xFFFFF000) OR (v AND 0xFFF)))"
proof -
  have pt: "4096 dvd unat pt" and pde: "rd pd h = pt OR (VMM_PRESENT OR VMM_WRITABLE OR VMM_USER)" and t: "window_table h pt win fs"
    using u slab_page_dvd by (auto simp: user_space_def or.assoc)
  have "(pt OR (VMM_PRESENT OR VMM_WRITABLE OR VMM_USER)) AND 0xFFFFF000 = pt"
    "(pt OR (VMM_PRESENT OR VMM_WRITABLE OR VMM_USER)) AND VMM_PRESENT \<noteq> 0"
    "(pt OR (VMM_PRESENT OR VMM_WRITABLE OR VMM_USER)) AND VMM_USER \<noteq> 0"
    using page_or_flags(1) [OF pt] flags_of [OF pt] by (simp_all add: vmm_flags)
  moreover have "rd (entry pt (unat v div 4096)) h = win_entry win fs (unat v div 4096)"
    using t idx_bounds(2) [of v] idx_low(2) [OF v] by (simp add: window_table_def)
  ultimately show ?thesis by (simp add: mmu_def pde v idx_low(2) Let_def)
qed

lemma window_pte_flags:
  assumes "4096 dvd unat f"
  shows "window_pte f AND VMM_PRESENT = 0 \<longleftrightarrow> f = 0" "window_pte f AND VMM_USER = 0 \<longleftrightarrow> f = 0"
    "f \<noteq> 0 \<Longrightarrow> window_pte f AND 0xFFFFF000 = f"
  using page_bits(1) [OF assms] flags_of [OF assms, of "VMM_PRESENT OR (VMM_WRITABLE OR VMM_USER)"]
    page_or_flags(1) [OF assms, of "VMM_PRESENT OR (VMM_WRITABLE OR VMM_USER)"]
  by (auto simp: window_pte_def or.assoc) (simp_all add: vmm_flags)

lemma user_walk:
  assumes u: "user_space h pd pt win fs" and fs: "\<And>f. f \<in> set fs \<Longrightarrow> 4096 dvd unat f"
  shows "mmu h pd True v = (if in_window win (length fs) v \<and> frame_of fs win v \<noteq> 0 then Some (frame_of fs win v OR (v AND 0xFFF)) else None)"
proof (cases "pde_idx v = 0")
  case True
  have win: "window_ok win (length fs)" using u by (simp add: user_space_def)
  show ?thesis
  proof (cases "in_window win (length fs) v")
    case i: True
    then have k: "unat v div 4096 - unat win div 4096 < length fs" using in_window_idx [OF win, of v] by auto
    then have "frame_of fs win v \<in> set fs" by (simp add: frame_of_def)
    note f = window_pte_flags [OF fs [OF this]]
    have "win_entry win fs (unat v div 4096) = window_pte (frame_of fs win v)"
      using in_window_idx [OF win, of v] i by (simp add: win_entry_def frame_of_def)
    then show ?thesis using i f by (simp add: walk_low [OF u True] Let_def)
  next
    case False
    then have "win_entry win fs (unat v div 4096) = push_bit 12 (of_nat (unat v div 4096)) OR VMM_PRESENT OR VMM_WRITABLE"
      unfolding win_entry_def Let_def in_window_idx [OF win] by simp
    then show ?thesis using False by (simp add: walk_low [OF u True] Let_def pte_flags)
  qed
next
  case False
  then have "rd (entry pd (pde_idx v)) h AND VMM_USER = 0" using u idx_bounds(1) [of v] by (simp add: user_space_def)
  moreover have "\<not> in_window win (length fs) v"
    using False u unfolding idx_low(1) by (auto simp: in_window_def user_space_def window_ok_def)
  ultimately show ?thesis by (simp add: mmu_def)
qed

lemma kernel_walk_low:
  assumes u: "user_space h pd pt win fs" and v: "pde_idx v = 0" "\<not> in_window win (length fs) v"
  shows "mmu h pd False v = Some v"
proof -
  have win: "window_ok win (length fs)" using u by (simp add: user_space_def)
  let ?p = "push_bit 12 (of_nat (unat v div 4096)) :: u32"
  have e: "win_entry win fs (unat v div 4096) = ?p OR (VMM_PRESENT OR VMM_WRITABLE)"
    using v(2) unfolding win_entry_def Let_def in_window_idx [OF win] by (simp add: or.assoc)
  have "unat v div 4096 < 4294967296" using unsigned_less [where 'a = nat, of v] by simp
  then have "(of_nat (unat v div 4096) :: u32) = drop_bit 12 v"
    by (simp add: word_unat_eq_iff unsigned_drop_bit_eq drop_bit_eq_div unat_of_nat unat_div)
  moreover have "push_bit 12 (drop_bit 12 v) OR (v AND mask 12) = v" by (rule bit_word_eqI) (auto simp: bit_simps)
  moreover have "(0xFFF :: u32) = mask 12" by (simp add: mask_eq_exp_minus_1)
  ultimately have "?p OR (v AND 0xFFF) = v" by (simp only:)
  then show ?thesis
    using page_or_flags(1) [OF frame_dvd [of "of_nat (unat v div 4096)"], of "VMM_PRESENT OR VMM_WRITABLE"]
      flags_of(1) [OF frame_dvd [of "of_nat (unat v div 4096)"]]
    by (simp add: walk_low [OF u v(1)] e Let_def) (simp add: vmm_flags)
qed

lemma kernel_walk_high:
  assumes pde: "rd (entry pd (pde_idx v)) h = user_pde kpd pt win h (pde_idx v)" and i: "pde_idx v \<noteq> pde_idx win"
  shows "mmu h pd False v = mmu h kpd False v"
proof -
  let ?e = "rd (entry kpd (pde_idx v)) h"
  have "(?e AND NOT VMM_USER) AND VMM_PRESENT = ?e AND (NOT VMM_USER AND VMM_PRESENT)"
    "(?e AND NOT VMM_USER) AND 0xFFFFF000 = ?e AND (NOT VMM_USER AND 0xFFFFF000)" by (simp_all only: and.assoc)
  then have "(?e AND NOT VMM_USER) AND VMM_PRESENT = ?e AND VMM_PRESENT" "(?e AND NOT VMM_USER) AND 0xFFFFF000 = ?e AND 0xFFFFF000"
    by (simp_all add: vmm_flags)
  then show ?thesis using pde i by (simp add: mmu_def user_pde_def Let_def)
qed

section \<open>Remapping and destroying\<close>

lemma vmm_remap_window_ok:
  assumes h: "holds h (add_mset (pd, 0) (add_mset (pt, 0) D)) Q" and u: "user_space h pd pt win fs"
    and gs: "length gs = length fs" "0 < length fs"
  shows "holds (vmm_remap_window pd gs win h) (add_mset (pd, 0) (add_mset (pt, 0) D)) Q"
    "user_space (vmm_remap_window pd gs win h) pd pt win gs" "keeps (add_mset (pd, 0) D) h (vmm_remap_window pd gs win h)"
proof -
  have win: "window_ok win (length fs)" "window_ok win (length gs)" using u gs by (simp_all add: user_space_def)
  have pages: "slab_page pd" "slab_page pt" using u by (simp_all add: user_space_def)
  have pt: "rd (entry pd (pde_idx win)) h AND 0xFFFFF000 = pt"
    using u window_pde [OF win(1) gs(2)] page_or_flags(1) [of pt "VMM_PRESENT OR (VMM_WRITABLE OR VMM_USER)"] slab_page_dvd [OF pages(2)]
    by (simp add: user_space_def or.assoc) (simp add: vmm_flags)
  then have r: "vmm_remap_window pd gs win h = put_window pt gs win h"
    using slab_page_dvd [OF pages(1)] by (simp add: vmm_remap_window_def)
  show "holds (vmm_remap_window pd gs win h) (add_mset (pd, 0) (add_mset (pt, 0) D)) Q"
    unfolding r by (rule put_window_holds [OF h _ win(2)]) simp
  have out: "page_no pt \<notin># held_pages (add_mset (pd, 0) D)"
    by (rule holds_once [of h "{#(pt, 0)#}" "add_mset (pd, 0) D" Q]) (use h in \<open>simp_all add: block_pages_0 add_mset_commute\<close>)
  show "keeps (add_mset (pd, 0) D) h (vmm_remap_window pd gs win h)"
    unfolding r by (rule put_window_keeps [OF pages(2) out win(2)])
  have "page_no pd \<noteq> page_no pt" using out by (auto simp: block_pages_0)
  then have k: "keeps {#(pd, 0)#} h (put_window pt gs win h)" by (intro put_window_keeps [OF pages(2) _ win(2)]) (simp add: block_pages_0)
  have same: "rd (entry pd i) (put_window pt gs win h) = rd (entry pd i) h" if "i < 1024" for i
    using keepsD [OF k, of "entry pd i"] entry_at(2) [OF pages(1) that] by (simp add: block_pages_0)
  show "user_space (vmm_remap_window pd gs win h) pd pt win gs"
    using u win(2) same same [of 0] unfolding r user_space_def window_table_def
    by (auto simp: put_window_table [OF pages(2) win(2)] win_entry_def gs(1))
qed

lemma vmm_destroy_user_pd_ok:
  assumes h: "holds h (add_mset (pd, 0) (add_mset (pt, 0) D)) Q" and u: "user_space h pd pt win fs" and k: "pd \<noteq> kpd"
  shows "holds (vmm_destroy_user_pd kpd pd h) D Q" "keeps D h (vmm_destroy_user_pd kpd pd h)"
proof -
  have pages: "slab_page pd" "slab_page pt" using u by (simp_all add: user_space_def)
  note pt = slab_page_dvd [OF pages(2)] and pd = slab_page_dvd [OF pages(1)]
  have "rd pd h AND 0xFFFFF000 = pt"
    using u page_or_flags(1) [of pt "VMM_PRESENT OR (VMM_WRITABLE OR VMM_USER)"] pt by (simp add: user_space_def or.assoc) (simp add: vmm_flags)
  then have r: "vmm_destroy_user_pd kpd pd h = page_free pd (page_free pt h)"
    using pt pd k by (simp add: vmm_destroy_user_pd_def Let_def)
  have h': "holds h (add_mset (pt, 0) (add_mset (pd, 0) D)) Q" using h by (simp add: add_mset_commute)
  note A = holds_free [OF h'] and B = holds_free [OF holds_free(1) [OF h']]
  show "holds (vmm_destroy_user_pd kpd pd h) D Q" unfolding r by (rule B(1))
  show "keeps D h (vmm_destroy_user_pd kpd pd h)"
    unfolding r using keeps_mono [OF _ A(2), of D] B(2) by (auto intro: keeps_trans)
qed

section \<open>Mapping pages\<close>

text \<open>\<open>dir_ok\<close>: the present entries of a directory lead to tables that are held, each to its own.\<close>

definition present :: "kheap \<Rightarrow> u32 \<Rightarrow> nat \<Rightarrow> bool" where
  "present h pd i \<longleftrightarrow> rd (entry pd i) h AND VMM_PRESENT \<noteq> 0"

definition table_of :: "kheap \<Rightarrow> u32 \<Rightarrow> nat \<Rightarrow> u32" where
  "table_of h pd i = rd (entry pd i) h AND 0xFFFFF000"

definition dir_ok :: "kheap \<Rightarrow> u32 \<Rightarrow> (u32 \<times> int) multiset \<Rightarrow> bool" where
  "dir_ok h pd D \<longleftrightarrow> (\<forall>i < 1024. present h pd i \<longrightarrow> (table_of h pd i, 0) \<in># D) \<and>
     (\<forall>i < 1024. \<forall>j < 1024. present h pd i \<longrightarrow> present h pd j \<longrightarrow> table_of h pd i = table_of h pd j \<longrightarrow> i = j)"

lemma mmu_tables:
  "mmu h pd user v = (if \<not> present h pd (pde_idx v) \<or> user \<and> rd (entry pd (pde_idx v)) h AND VMM_USER = 0 then None
     else let pte = rd (entry (table_of h pd (pde_idx v)) (pte_idx v)) h
       in if pte AND VMM_PRESENT = 0 \<or> user \<and> pte AND VMM_USER = 0 then None else Some ((pte AND 0xFFFFF000) OR (v AND 0xFFF)))"
  by (simp add: mmu_def present_def table_of_def Let_def)

lemma or_user: "(e OR VMM_USER) AND VMM_PRESENT = e AND VMM_PRESENT" "(e OR VMM_USER) AND 0xFFFFF000 = e AND 0xFFFFF000"
  "(e OR VMM_USER) AND VMM_USER \<noteq> 0"
proof -
  have "(e OR VMM_USER) AND VMM_USER = VMM_USER" by (rule bit_word_eqI) (auto simp: bit_simps)
  then show "(e OR VMM_USER) AND VMM_USER \<noteq> 0" by (simp add: vmm_flags)
qed (simp_all add: bit.conj_disj_distrib2, simp_all add: vmm_flags)

text \<open>The effect on the directory: entry \<open>i\<close> is present, leads to \<open>pt\<close> and has the user bit when asked for; nothing else changes.\<close>

definition dir_step :: "kheap \<Rightarrow> kheap \<Rightarrow> u32 \<Rightarrow> nat \<Rightarrow> u32 \<Rightarrow> bool \<Rightarrow> bool" where
  "dir_step h h' pd i pt user \<longleftrightarrow> present h' pd i \<and> table_of h' pd i = pt \<and>
     (user \<longrightarrow> rd (entry pd i) h' AND VMM_USER \<noteq> 0) \<and> (present h pd i \<longrightarrow> table_of h pd i = pt) \<and>
     (\<forall>j < 1024. j \<noteq> i \<longrightarrow> rd (entry pd j) h' = rd (entry pd j) h)"

lemma dir_step_ok:
  assumes "dir_step h h' pd i pt user" "dir_ok h pd D" "i < 1024" "(pt, 0) \<in># D'" "D \<subseteq># D'"
    and "\<And>j. j < 1024 \<Longrightarrow> j \<noteq> i \<Longrightarrow> present h pd j \<Longrightarrow> table_of h pd j \<noteq> pt"
  shows "dir_ok h' pd D'"
proof -
  have same: "present h' pd j = present h pd j" "table_of h' pd j = table_of h pd j" if "j < 1024" "j \<noteq> i" for j
    using assms(1) that by (auto simp: dir_step_def present_def table_of_def)
  have i: "table_of h' pd i = pt" using assms(1) by (simp add: dir_step_def)
  show ?thesis
    unfolding dir_ok_def
  proof (intro conjI allI impI)
    fix j :: nat assume j: "j < 1024" "present h' pd j"
    then show "(table_of h' pd j, 0) \<in># D'"
      using i assms(2,4,5) same [of j] mset_subset_eqD [OF assms(5)] by (cases "j = i") (auto simp: dir_ok_def)
  next
    fix j k :: nat assume j: "j < 1024" "k < 1024" "present h' pd j" "present h' pd k" "table_of h' pd j = table_of h' pd k"
    have jk: "j = k" if "j \<noteq> i" "k \<noteq> i" using j same that assms(2) unfolding dir_ok_def by metis
    have "j = i \<longleftrightarrow> k = i" using j same i assms(6) by metis
    with jk show "j = k" by blast
  qed
qed

lemma get_page_table_ok:
  assumes h: "holds h (add_mset (pd, 0) D) Q" and d: "dir_ok h pd D" and r: "get_page_table pd v mk fl h = (pt, h')"
  shows "pt = 0 \<Longrightarrow> h' = h"
    "pt \<noteq> 0 \<Longrightarrow> \<exists>D'. holds h' (add_mset (pd, 0) D') Q \<and> dir_ok h' pd D' \<and> (pt, 0) \<in># D' \<and> keeps D h h' \<and>
      dir_step h h' pd (pde_idx v) pt (fl AND VMM_USER \<noteq> 0) \<and>
      D' = (if present h pd (pde_idx v) then D else add_mset (pt, 0) D) \<and>
      (\<not> present h pd (pde_idx v) \<longrightarrow> (\<forall>j < 1024. rd (entry pt j) h' = 0))"
proof -
  let ?i = "pde_idx v"
  let ?e = "entry pd ?i"
  note i = idx_bounds(1) [of v]
  have page: "slab_page pd" using holds_block(1) [OF h, of pd 0] by simp
  have out: "page_no pd \<notin># held_pages D"
    using holds_once [of h "{#(pd, 0)#}" D Q "page_no pd"] h by (simp add: block_pages_0)
  have eo: "page_no (entry pd j) = page_no pd" if "j < 1024" for j by (rule entry_at(2) [OF page that])
  have other: "rd (entry pd j) (wr ?e x g) = rd (entry pd j) g" if "j < 1024" "j \<noteq> ?i" for j x g
    using entry_inj [OF page that(1) i] that by (simp add: rd_wr)
  have own: "(table_of h pd j, 0) \<in># D" if "j < 1024" "present h pd j" for j using d that by (simp add: dir_ok_def)
  consider (there) "present h pd ?i" | (none) "\<not> present h pd ?i" "pt = 0" "h' = h"
    | (new) h1 where "\<not> present h pd ?i" "page_alloc h = (pt, h1)" "pt \<noteq> 0"
      "h' = wr ?e (pt OR VMM_PRESENT OR VMM_WRITABLE OR (fl AND VMM_USER)) (fold (\<lambda>i. wr (entry pt i) 0) [0 ..< 1024] h1)"
    using r holds_alloc(1) [OF h] by (fastforce simp: get_page_table_def present_def Let_def split: if_splits prod.splits)
  then have "(pt = 0 \<longrightarrow> h' = h) \<and> (pt \<noteq> 0 \<longrightarrow> (\<exists>D'. holds h' (add_mset (pd, 0) D') Q \<and> dir_ok h' pd D' \<and> (pt, 0) \<in># D' \<and> keeps D h h' \<and>
      dir_step h h' pd (pde_idx v) pt (fl AND VMM_USER \<noteq> 0) \<and> D' = (if present h pd (pde_idx v) then D else add_mset (pt, 0) D) \<and>
      (\<not> present h pd (pde_idx v) \<longrightarrow> (\<forall>j < 1024. rd (entry pt j) h' = 0))))"
  proof cases
    case there
    have h': "h' = (if fl AND VMM_USER \<noteq> 0 then wr ?e (rd ?e h OR VMM_USER) h else h)" and pt: "pt = rd ?e h' AND 0xFFFFF000"
      using r there by (auto simp: get_page_table_def present_def Let_def split: if_splits)
    have pt': "pt = table_of h pd ?i" using h' pt or_user(2) by (auto simp: table_of_def rd_wr)
    have step: "dir_step h h' pd ?i pt (fl AND VMM_USER \<noteq> 0)"
      using there pt pt' h' other or_user by (auto simp: dir_step_def present_def table_of_def rd_wr)
    have in_D: "(pt, 0) \<in># D" using own [OF i there] pt' by simp
    have "table_of h pd j \<noteq> pt" if "j < 1024" "j \<noteq> ?i" "present h pd j" for j
      using d that there i unfolding dir_ok_def pt' by blast
    from dir_step_ok [OF step d i in_D _ this] have "dir_ok h' pd D" by simp
    moreover have "holds h' (add_mset (pd, 0) D) Q"
    proof (cases "fl AND VMM_USER = 0")
      case False
      then show ?thesis using h' holds_wr [OF h, of ?e] eo [OF i] by (simp add: block_pages_0)
    qed (use h h' in simp)
    moreover have "keeps D h h'" using keeps_wr [of ?e D] eo [OF i] out h' by simp
    moreover have "slab_page pt" using holds_block(1) [OF h, of pt 0] in_D by simp
    then have "pt \<noteq> 0" using slab_page_dvd by blast
    ultimately show ?thesis using step in_D there by (intro conjI impI exI [of _ D]) simp_all
  next
    case none
    then show ?thesis by simp
  next
    case new
    note A = holds_alloc [OF h new(2)]
    let ?D = "add_mset (pt, 0) D"
    let ?h = "fold (\<lambda>i. wr (entry pt i) 0) [0 ..< 1024] h1"
    have h1: "holds h1 (add_mset (pd, 0) ?D) Q" using A(2) new(3) by (simp add: add_mset_commute)
    have pp: "slab_page pt" using holds_block(1) [OF h1, of pt 0] by simp
    have all: "set [0 ..< 1024] \<subseteq> {..< 1024 :: nat}" by auto
    have no: "page_no pt \<notin># held_pages (add_mset (pd, 0) D)" using A(4) new(3) .
    have h2: "holds ?h (add_mset (pd, 0) ?D) Q" by (rule holds_table [OF h1 _ all]) simp
    have k: "keeps (add_mset (pd, 0) D) h1 ?h" by (rule keeps_table [OF pp all no])
    have same: "rd (entry pd j) ?h = rd (entry pd j) h" if "j < 1024" for j
      using keepsD [OF k] keepsD [OF A(3)] eo [OF that] by (simp add: block_pages_0)
    have "holds h' (add_mset (pd, 0) ?D) Q"
      unfolding new(4) by (rule holds_wr [OF h2]) (simp add: eo [OF i] block_pages_0)
    moreover have step: "dir_step h h' pd ?i pt (fl AND VMM_USER \<noteq> 0)"
    proof -
      let ?f = "VMM_PRESENT OR (VMM_WRITABLE OR (fl AND VMM_USER))"
      have f: "?f AND 0xFFFFF000 = 0" "?f AND VMM_PRESENT \<noteq> 0" "?f AND VMM_USER = fl AND VMM_USER"
        by (simp_all add: bit.conj_disj_distrib2 and.assoc) (simp_all add: vmm_flags)
      have "rd ?e h' = pt OR ?f" by (simp add: new(4) rd_wr or.assoc)
      then show ?thesis
        using page_or_flags(1) [OF _ f(1), of pt] flags_of [of pt ?f] f slab_page_dvd [OF pp] new(1) other same
        by (simp add: dir_step_def present_def table_of_def) (simp add: new(4))
    qed
    moreover have "dir_ok h' pd ?D"
    proof (rule dir_step_ok [OF step d i])
      fix j assume "j < 1024" "present h pd j"
      then have "page_no (table_of h pd j) \<in># held_pages D" using held_pagesI [OF own block_pages_first] by simp
      then show "table_of h pd j \<noteq> pt" using no by auto
    qed simp_all
    moreover have "keeps D h h'"
    proof -
      have "keeps D h h1" "keeps D h1 ?h" using keeps_mono [OF _ A(3), of D] keeps_mono [OF _ k, of D] by simp_all
      moreover have "keeps D ?h h'" unfolding new(4) by (rule keeps_wr) (simp add: eo [OF i] out)
      ultimately show ?thesis using keeps_trans by blast
    qed
    moreover have "rd (entry pt j) h' = 0" if j: "j < 1024" for j
    proof -
      have "entry pt j \<noteq> ?e" using entry_at(2) [OF pp j] eo [OF i] no by (auto simp: block_pages_0)
      then show ?thesis using fill_table [OF pp distinct_upt all j, of "\<lambda>_. 0"] j by (simp add: new(4) rd_wr)
    qed
    ultimately show ?thesis using new(1,3) by (intro conjI impI exI [of _ ?D]) simp_all
  qed
  then show "pt = 0 \<Longrightarrow> h' = h"
    "pt \<noteq> 0 \<Longrightarrow> \<exists>D'. holds h' (add_mset (pd, 0) D') Q \<and> dir_ok h' pd D' \<and> (pt, 0) \<in># D' \<and> keeps D h h' \<and>
      dir_step h h' pd (pde_idx v) pt (fl AND VMM_USER \<noteq> 0) \<and>
      D' = (if present h pd (pde_idx v) then D else add_mset (pt, 0) D) \<and>
      (\<not> present h pd (pde_idx v) \<longrightarrow> (\<forall>j < 1024. rd (entry pt j) h' = 0))" by blast+
qed

text \<open>A page that is mapped translates to its frame, and the kernel sees every other page as before.\<close>

definition same_page :: "u32 \<Rightarrow> u32 \<Rightarrow> bool" where
  "same_page u v \<longleftrightarrow> pde_idx u = pde_idx v \<and> pte_idx u = pte_idx v"

lemma entry_store:
  fixes x :: u32
  assumes h: "holds h (add_mset (pd, 0) D) Q" and d: "dir_ok h pd D" and p: "present h pd (pde_idx v)"
  defines "h' \<equiv> wr (entry (table_of h pd (pde_idx v)) (pte_idx v)) x h"
  shows "holds h' (add_mset (pd, 0) D) Q" "dir_ok h' pd D"
    "i < 1024 \<Longrightarrow> rd (entry pd i) h' = rd (entry pd i) h"
    "same_page u v \<Longrightarrow> mmu h' pd user u = (if user \<and> rd (entry pd (pde_idx v)) h AND VMM_USER = 0 \<or> x AND VMM_PRESENT = 0 \<or>
       user \<and> x AND VMM_USER = 0 then None else Some ((x AND 0xFFFFF000) OR (u AND 0xFFF)))"
    "\<not> same_page u v \<Longrightarrow> mmu h' pd user u = mmu h pd user u"
proof -
  let ?t = "table_of h pd (pde_idx v)"
  note i = idx_bounds [of v]
  have t: "(?t, 0) \<in># D" using d p i by (simp add: dir_ok_def)
  have pages: "slab_page pd" "slab_page ?t" using holds_block(1) [OF h, of pd 0] holds_block(1) [OF h, of ?t 0] t by auto
  have at: "page_no (entry ?t (pte_idx v)) = page_no ?t" by (rule entry_at(2) [OF pages(2) i(2)])
  have td: "page_no ?t \<in># held_pages D" using held_pagesI [OF t block_pages_first] .
  have out: "page_no pd \<noteq> page_no ?t" using holds_once [of h "{#(pd, 0)#}" D Q "page_no pd"] h td by (auto simp: block_pages_0)
  show "holds h' (add_mset (pd, 0) D) Q" unfolding h'_def by (rule holds_wr [OF h]) (simp add: at td)
  show e: "rd (entry pd i) h' = rd (entry pd i) h" if "i < 1024" for i
    using entry_at(2) [OF pages(1) that] out at by (auto simp: h'_def rd_wr)
  have same: "present h' pd i = present h pd i" "table_of h' pd i = table_of h pd i" if "i < 1024" for i
    using e [OF that] by (simp_all add: present_def table_of_def)
  then show "dir_ok h' pd D" using d by (simp add: dir_ok_def)
  show "mmu h' pd user u = (if user \<and> rd (entry pd (pde_idx v)) h AND VMM_USER = 0 \<or> x AND VMM_PRESENT = 0 \<or>
       user \<and> x AND VMM_USER = 0 then None else Some ((x AND 0xFFFFF000) OR (u AND 0xFFF)))" if "same_page u v"
    using p that by (auto simp: mmu_tables same_page_def same [OF i(1)] e [OF i(1)] Let_def) (simp_all add: h'_def rd_wr)
  assume u: "\<not> same_page u v"
  note j = idx_bounds [of u]
  have "rd (entry (table_of h pd (pde_idx u)) (pte_idx u)) h' = rd (entry (table_of h pd (pde_idx u)) (pte_idx u)) h"
    if pu: "present h pd (pde_idx u)"
  proof -
    have tu: "(table_of h pd (pde_idx u), 0) \<in># D" using d pu j by (simp add: dir_ok_def)
    then have pgu: "slab_page (table_of h pd (pde_idx u))" using holds_block(1) [OF h, of "table_of h pd (pde_idx u)" 0] by simp
    have "entry (table_of h pd (pde_idx u)) (pte_idx u) \<noteq> entry ?t (pte_idx v)"
    proof
      assume eq: "entry (table_of h pd (pde_idx u)) (pte_idx u) = entry ?t (pte_idx v)"
      then have "table_of h pd (pde_idx u) = ?t"
        using entry_at(2) [OF pgu j(2)] at slab_page_inj [OF pgu pages(2)] by simp
      moreover from this have "pte_idx u = pte_idx v" using eq entry_inj [OF pages(2) j(2) i(2)] by simp
      moreover have "pde_idx u = pde_idx v" using calculation d pu p i j unfolding dir_ok_def by blast
      ultimately show False using u by (simp add: same_page_def)
    qed
    then show ?thesis by (simp add: h'_def rd_wr)
  qed
  then show "mmu h' pd user u = mmu h pd user u"
    by (auto simp: mmu_tables same [OF j(1)] e [OF j(1)] Let_def)
qed

lemma dir_step_mmu:
  assumes step: "dir_step h h' pd (pde_idx v) pt user'" and d: "dir_ok h pd D" and k: "keeps D h h'" and h: "holds h (add_mset (pd, 0) D) Q"
    and new: "\<not> present h pd (pde_idx v) \<Longrightarrow> \<forall>j < 1024. rd (entry pt j) h' = 0"
  shows "mmu h' pd False u = mmu h pd False u"
proof (cases "pde_idx u = pde_idx v")
  case other: False
  have e: "rd (entry pd (pde_idx u)) h' = rd (entry pd (pde_idx u)) h" using step other idx_bounds(1) by (simp add: dir_step_def)
  have "rd (entry (table_of h pd (pde_idx u)) (pte_idx u)) h' = rd (entry (table_of h pd (pde_idx u)) (pte_idx u)) h" if "present h pd (pde_idx u)"
  proof -
    have t: "(table_of h pd (pde_idx u), 0) \<in># D" using d that idx_bounds(1) by (simp add: dir_ok_def)
    then have "slab_page (table_of h pd (pde_idx u))" using holds_block(1) [OF h, of "table_of h pd (pde_idx u)" 0] by simp
    then show ?thesis using keepsD [OF k] entry_at(2) [OF _ idx_bounds(2)] held_pagesI [OF t block_pages_first] by simp
  qed
  then show ?thesis using e by (auto simp: mmu_tables present_def table_of_def Let_def)
next
  case True
  note eq = True
  have now: "present h' pd (pde_idx u)" "table_of h' pd (pde_idx u) = pt" using step eq by (simp_all add: dir_step_def)
  show ?thesis
  proof (cases "present h pd (pde_idx v)")
    case True
    have t: "table_of h pd (pde_idx v) = pt" using True step by (simp add: dir_step_def)
    have t2: "(pt, 0) \<in># D" using d True idx_bounds(1) unfolding t [symmetric] dir_ok_def by blast
    then have "slab_page pt" using holds_block(1) [OF h, of pt 0] by simp
    then have "rd (entry pt (pte_idx u)) h' = rd (entry pt (pte_idx u)) h"
      using keepsD [OF k] entry_at(2) [OF _ idx_bounds(2)] held_pagesI [OF t2 block_pages_first] by simp
    then show ?thesis using now t True eq by (simp add: mmu_tables)
  next
    case False
    then have "rd (entry pt (pte_idx u)) h' = 0" using new idx_bounds(2) by simp
    then show ?thesis using now False eq by (simp add: mmu_tables)
  qed
qed

lemma vmm_map_page_ok:
  assumes h: "holds h (add_mset (pd, 0) D) Q" and d: "dir_ok h pd D" and fl: "fl AND 0xFFFFF000 = 0"
    and r: "vmm_map_page pd v ph fl h = (rc, h')"
  shows "rc = - 1 \<and> h' = h \<and> \<not> present h pd (pde_idx v) \<or>
    rc = 0 \<and> (\<exists>pt. let D' = (if present h pd (pde_idx v) then D else add_mset (pt, 0) D)
      in holds h' (add_mset (pd, 0) D') Q \<and> dir_ok h' pd D' \<and> keeps (D - {#(pt, 0)#}) h h' \<and>
        (\<forall>i < 1024. present h' pd i \<longleftrightarrow> present h pd i \<or> i = pde_idx v)) \<and>
      (\<forall>user. (user \<longrightarrow> fl AND VMM_USER \<noteq> 0) \<longrightarrow>
        (\<forall>u. same_page u v \<longrightarrow> mmu h' pd user u = Some ((ph AND 0xFFFFF000) OR (u AND 0xFFF)))) \<and>
      (\<forall>u. \<not> same_page u v \<longrightarrow> mmu h' pd False u = mmu h pd False u)"
proof -
  obtain pt h1 where g: "get_page_table pd v True fl h = (pt, h1)" by fastforce
  note G = get_page_table_ok [OF h d g]
  note i = idx_bounds [of v]
  show ?thesis
  proof (cases "pt = 0")
    case True
    have "\<not> present h pd (pde_idx v)"
    proof
      assume p: "present h pd (pde_idx v)"
      then have "(table_of h pd (pde_idx v), 0) \<in># D" using d i by (simp add: dir_ok_def)
      then have "table_of h pd (pde_idx v) \<noteq> 0" using holds_block(1) [OF h, of "table_of h pd (pde_idx v)" 0] slab_page_dvd by auto
      then show False using g True p or_user(2)
        by (auto simp: get_page_table_def present_def table_of_def Let_def rd_wr split: if_splits)
    qed
    then show ?thesis using r g True G(1) by (simp add: vmm_map_page_def)
  next
    case False
    define D' where "D' = (if present h pd (pde_idx v) then D else add_mset (pt, 0) D)"
    have G': "holds h1 (add_mset (pd, 0) D') Q" "dir_ok h1 pd D'" "(pt, 0) \<in># D'" "keeps D h h1"
      "dir_step h h1 pd (pde_idx v) pt (fl AND VMM_USER \<noteq> 0)"
      "\<not> present h pd (pde_idx v) \<Longrightarrow> \<forall>j < 1024. rd (entry pt j) h1 = 0"
      using G(2) [OF False] unfolding D'_def by auto
    have now: "present h1 pd (pde_idx v)" "table_of h1 pd (pde_idx v) = pt" using G'(5) by (simp_all add: dir_step_def)
    let ?x = "(ph AND 0xFFFFF000) OR fl OR VMM_PRESENT"
    have h': "rc = 0" "h' = wr (entry (table_of h1 pd (pde_idx v)) (pte_idx v)) ?x h1"
      using r g False now(2) by (simp_all add: vmm_map_page_def)
    note E = entry_store [OF G'(1,2) now(1), where x = ?x, folded h'(2)]
    have bits: "?x AND VMM_PRESENT \<noteq> 0" "?x AND 0xFFFFF000 = ph AND 0xFFFFF000" "fl AND VMM_USER \<noteq> 0 \<Longrightarrow> ?x AND VMM_USER \<noteq> 0"
    proof -
      show "?x AND VMM_PRESENT \<noteq> 0"
      proof
        assume "?x AND VMM_PRESENT = 0"
        then have "bit (?x AND VMM_PRESENT) 0 = bit (0 :: u32) 0" by (rule arg_cong)
        then show False by (simp add: bit_simps vmm_flags)
      qed
      show "?x AND 0xFFFFF000 = ph AND 0xFFFFF000" using fl by (simp add: bit.conj_disj_distrib2 and.assoc) (simp add: vmm_flags)
      have "?x AND VMM_USER = fl AND VMM_USER" by (simp add: bit.conj_disj_distrib2 and.assoc) (simp add: vmm_flags)
      then show "fl AND VMM_USER \<noteq> 0 \<Longrightarrow> ?x AND VMM_USER \<noteq> 0" by simp
    qed
    have "mmu h' pd user u = Some ((ph AND 0xFFFFF000) OR (u AND 0xFFF))" if "user \<longrightarrow> fl AND VMM_USER \<noteq> 0" "same_page u v" for user u
      using that bits G'(5) unfolding E(4) [OF that(2)] by (auto simp: dir_step_def)
    moreover have "mmu h' pd False u = mmu h pd False u" if "\<not> same_page u v" for u
      using E(5) [OF that] dir_step_mmu [OF G'(5) d G'(4) h G'(6)] by simp
    moreover have "keeps (D - {#(pt, 0)#}) h h'"
    proof -
      have pg: "slab_page pt" using holds_block(1) [OF G'(1), of pt 0] G'(3) by simp
      have "holds h1 ({#(pt, 0)#} + add_mset (pd, 0) (D' - {#(pt, 0)#})) Q"
        using G'(1,3) by (simp add: add_mset_commute insert_DiffM)
      from holds_once [OF this, of "page_no pt"] have "page_no pt \<notin># held_pages (D' - {#(pt, 0)#})" by (simp add: block_pages_0)
      moreover have "D - {#(pt, 0)#} \<subseteq># D' - {#(pt, 0)#}" by (auto simp: D'_def subseteq_mset_def)
      ultimately have "page_no pt \<notin># held_pages (D - {#(pt, 0)#})"
        using subset_mset.add_diff_inverse held_pages_union by (metis UnCI set_mset_union)
      then have "keeps (D - {#(pt, 0)#}) h1 h'"
        unfolding h'(2) now(2) by (intro keeps_wr) (simp add: entry_at(2) [OF pg i(2)])
      then show ?thesis using keeps_trans keeps_mono [OF diff_subset_eq_self G'(4)] by blast
    qed
    moreover have "present h' pd j \<longleftrightarrow> present h pd j \<or> j = pde_idx v" if "j < 1024" for j
      using E(3) [OF that] G'(5) that by (auto simp: present_def dir_step_def)
    ultimately show ?thesis using E(1,2) h'(1) unfolding D'_def by (intro disjI2 conjI exI [of _ pt]) (simp_all add: Let_def)
  qed
qed

section \<open>The identity map\<close>

lemma idx_split: "unat v div 4096 = 1024 * pde_idx v + pte_idx v"
proof -
  have p: "pde_idx v = unat v div 4194304" by (simp add: pde_idx_def unsigned_drop_bit_eq drop_bit_eq_div unat_div)
  have "drop_bit 12 v AND 0x3FF = take_bit 10 (drop_bit 12 v)" by (simp add: take_bit_eq_mask mask_eq_exp_minus_1)
  then have "pte_idx v = take_bit 10 (unat (drop_bit 12 v))" unfolding pte_idx_def by (simp only: unsigned_take_bit_eq)
  then have "pte_idx v = unat v div 4096 mod 1024" by (simp add: take_bit_eq_mod drop_bit_eq_div unat_div)
  moreover have "unat v div 4194304 = unat v div 4096 div 1024" by (simp add: div_mult2_eq [symmetric])
  ultimately show ?thesis using p by simp
qed

lemma same_page_iff: "same_page u v \<longleftrightarrow> unat u div 4096 = unat v div 4096"
proof -
  have "p = p' \<and> q = q'" if "q < 1024" "q' < 1024" "1024 * p + q = 1024 * p' + q'" for p q p' q' :: nat
  proof -
    have "p = p'" using that by linarith
    then show ?thesis using that(3) by simp
  qed
  then show ?thesis unfolding same_page_def idx_split using idx_bounds(2) by metis
qed

lemma page_offset: "4096 dvd unat a \<Longrightarrow> unat v div 4096 = unat a div 4096 \<Longrightarrow> a OR (v AND 0xFFF) = v" for a v :: u32
proof -
  assume a: "4096 dvd unat a" "unat v div 4096 = unat a div 4096"
  have "drop_bit 12 v = drop_bit 12 a" using a(2) by (simp add: word_unat_eq_iff unsigned_drop_bit_eq drop_bit_eq_div unat_div)
  moreover have "a AND mask 12 = 0" using page_bits(2) [OF a(1)] by (simp add: mask_eq_exp_minus_1)
  ultimately have eqs: "bit (drop_bit 12 v) i = bit (drop_bit 12 a) i" "bit (a AND mask 12) i = bit (0 :: u32) i" for i by simp_all
  then have b: "bit v (12 + i) = bit a (12 + i)" for i using eqs(1) [of i] by (simp add: bit_simps)
  have c: "\<not> bit a i" if "i < 12" for i using eqs(2) [of i] that by (simp add: bit_simps)
  have "bit a n \<or> bit v n \<and> n < 12 \<longleftrightarrow> bit v n" for n
    using b [of "n - 12"] c [of n] by (cases "n < 12") auto
  then have "a OR (v AND mask 12) = v" by (intro bit_word_eqI) (auto simp: bit_simps)
  then show ?thesis by (simp add: mask_eq_exp_minus_1)
qed

text \<open>Memory is exhausted when an allocation fails, and stays so.\<close>

definition full :: "kheap \<Rightarrow> bool" where "full h \<longleftrightarrow> free_pages (pm h) = 0"

lemma full_wr [simp]: "full (wr a v h) = full h" by (simp add: full_def wr_def)

lemma full_fill [simp]: "full (fold (\<lambda>k. wr (f k) (g k)) ks h) = full h"
  by (induction ks arbitrary: h) simp_all

lemma page_alloc_full:
  assumes h: "holds h D Q" and r: "page_alloc h = (a, h')"
  shows "a = 0 \<longleftrightarrow> full h"
proof -
  obtain W F where W: "heap_ok h W F D" "pmm_run_inv (pm h) (slab_blocks W + D)" using holds_inv [OF h] .
  obtain p where p: "pmm_alloc_page 0 (pm h) = (a, p)" using r by (auto simp: page_alloc_def split: prod.splits)
  obtain L where L: "pmm_wf (pm h) L" by (rule pmm_run_invE [OF W(2)])
  have fp: "unat (free_pages (pm h)) = size (free_page_mset L)" using L by (simp add: pmm_wf_def)
  show ?thesis
  proof
    assume "a = 0"
    have len: "length L = 11" using L pmm_listsD(2) by (auto simp: pmm_wf_def)
    have "L ! j = []" if "j < 11" for j using pmm_alloc_page_None [OF L _ _ p [unfolded \<open>a = 0\<close>]] that by simp
    then have "free_page_mset L = {#}" using len by (simp add: free_page_mset_def order_pages_def)
    then show "full h" using fp by (simp add: full_def word_unat_eq_iff)
  next
    assume f: "full h"
    show "a = 0"
    proof (rule ccontr)
      assume "a \<noteq> 0"
      from pmm_alloc_page_Some [OF L _ _ p this] obtain L' where "free_page_mset L = free_page_mset L' + mset (block_pages 0 a)" by auto
      then show False using fp f by (simp add: full_def block_pages_0)
    qed
  qed
qed

definition free_count :: "kheap \<Rightarrow> nat" where "free_count h = unat (free_pages (pm h))"

lemma full_count: "full h \<longleftrightarrow> free_count h = 0" by (simp add: full_def free_count_def word_unat_eq_iff)

lemma free_count_wr [simp]: "free_count (wr a v h) = free_count h" by (simp add: free_count_def wr_def)

lemma free_count_fill [simp]: "free_count (fold (\<lambda>k. wr (f k) (g k)) ks h) = free_count h"
  by (induction ks arbitrary: h) simp_all

lemma page_alloc_count:
  assumes h: "holds h D Q" and r: "page_alloc h = (a, h')"
  shows "free_count h' = free_count h - 1"
proof (cases "a = 0")
  case True
  then show ?thesis using page_alloc_full [OF h r] holds_alloc(1) [OF h r] by (simp add: full_count)
next
  case False
  obtain W F where W: "heap_ok h W F D" "pmm_run_inv (pm h) (slab_blocks W + D)" using holds_inv [OF h] .
  obtain p where p: "pmm_alloc_page 0 (pm h) = (a, p)" "h' = h\<lparr>pm := p\<rparr>" using r by (auto simp: page_alloc_def split: prod.splits)
  obtain L where L: "pmm_wf (pm h) L" by (rule pmm_run_invE [OF W(2)])
  from pmm_alloc_page_Some [OF L _ _ p(1) False] obtain L' where
    "pmm_wf p L'" "free_page_mset L = free_page_mset L' + mset (block_pages 0 a)" by auto
  then show ?thesis using L by (simp add: pmm_wf_def free_count_def p(2) block_pages_0)
qed

lemma vmm_map_page_full:
  assumes h: "holds h (add_mset (pd, 0) D) Q" and r: "vmm_map_page pd v ph fl h = (rc, h')"
  shows "full h \<Longrightarrow> full h'" "rc = - 1 \<Longrightarrow> \<not> present h pd (pde_idx v) \<Longrightarrow> full h"
    "present h pd (pde_idx v) \<Longrightarrow> free_count h' = free_count h" "free_count h - 1 \<le> free_count h'"
proof -
  obtain a h1 where a: "page_alloc h = (a, h1)" by fastforce
  note A = page_alloc_full [OF h a] and same = holds_alloc(1) [OF h a]
  show "full h \<Longrightarrow> full h'"
    using r a A same by (auto simp: vmm_map_page_def get_page_table_def Let_def split: if_splits)
  show "rc = - 1 \<Longrightarrow> \<not> present h pd (pde_idx v) \<Longrightarrow> full h"
    using r a A by (auto simp: vmm_map_page_def get_page_table_def present_def Let_def split: if_splits)
  show "present h pd (pde_idx v) \<Longrightarrow> free_count h' = free_count h" "free_count h - 1 \<le> free_count h'"
    using r a page_alloc_count [OF h a]
    by (auto simp: vmm_map_page_def get_page_table_def present_def Let_def split: if_splits)
qed

definition ident :: "kheap \<Rightarrow> u32 \<Rightarrow> nat \<Rightarrow> bool" where
  "ident h pd n \<longleftrightarrow> (\<forall>v. unat v < 4096 * n \<longrightarrow> mmu h pd False v = Some v)"

text \<open>The first \<open>n\<close> pages are mapped or the memory is full; \<open>C\<close> bounds what is left and what the entries took.\<close>

definition mapping :: "nat \<Rightarrow> kheap \<Rightarrow> u32 \<Rightarrow> (u32 \<times> int) multiset \<Rightarrow> (u32 \<times> nat) set \<Rightarrow> nat \<Rightarrow> bool" where
  "mapping C h pd D Q n \<longleftrightarrow> holds h (add_mset (pd, 0) D) Q \<and> dir_ok h pd D \<and> (full h \<or> ident h pd n) \<and>
     C \<le> free_count h + card {i. i < 120 \<and> present h pd i}"

lemma map_step:
  assumes m: "mapping C h pd D Q n" and a: "4096 dvd unat a" "unat a \<le> 4096 * n" "unat a < 0x1E000000" and fl: "fl AND 0xFFFFF000 = 0"
  shows "\<exists>D'. D \<subseteq># D' \<and> mapping C (snd (vmm_map_page pd a a fl h)) pd D' Q (max n (Suc (unat a div 4096)))"
proof -
  have h: "holds h (add_mset (pd, 0) D) Q" and d: "dir_ok h pd D" and i: "full h \<or> ident h pd n"
    and C: "C \<le> free_count h + card {i. i < 120 \<and> present h pd i}" using m by (simp_all add: mapping_def)
  obtain rc h' where r: "vmm_map_page pd a a fl h = (rc, h')" by fastforce
  note F = vmm_map_page_full [OF h r]
  have low: "pde_idx a < 120" using idx_split [of a] a(3) by linarith
  from vmm_map_page_ok [OF h d fl r] show ?thesis
  proof
    assume "rc = - 1 \<and> h' = h \<and> \<not> present h pd (pde_idx a)"
    then show ?thesis using F h d r C by (intro exI [of _ D]) (simp add: mapping_def)
  next
    assume ok: "rc = 0 \<and> (\<exists>pt. let D' = (if present h pd (pde_idx a) then D else add_mset (pt, 0) D)
      in holds h' (add_mset (pd, 0) D') Q \<and> dir_ok h' pd D' \<and> keeps (D - {#(pt, 0)#}) h h' \<and>
        (\<forall>i < 1024. present h' pd i \<longleftrightarrow> present h pd i \<or> i = pde_idx a)) \<and>
      (\<forall>user. (user \<longrightarrow> fl AND VMM_USER \<noteq> 0) \<longrightarrow>
        (\<forall>u. same_page u a \<longrightarrow> mmu h' pd user u = Some ((a AND 0xFFFFF000) OR (u AND 0xFFF)))) \<and>
      (\<forall>u. \<not> same_page u a \<longrightarrow> mmu h' pd False u = mmu h pd False u)"
    then obtain pt where pt: "let D' = (if present h pd (pde_idx a) then D else add_mset (pt, 0) D)
      in holds h' (add_mset (pd, 0) D') Q \<and> dir_ok h' pd D' \<and> keeps (D - {#(pt, 0)#}) h h' \<and>
        (\<forall>i < 1024. present h' pd i \<longleftrightarrow> present h pd i \<or> i = pde_idx a)" by blast
    have "D \<subseteq># (if present h pd (pde_idx a) then D else add_mset (pt, 0) D)" by simp
    with pt obtain D' where D': "D \<subseteq># D'" "holds h' (add_mset (pd, 0) D') Q" "dir_ok h' pd D'"
      and P: "\<forall>i < 1024. present h' pd i \<longleftrightarrow> present h pd i \<or> i = pde_idx a" unfolding Let_def by blast
    have "C \<le> free_count h' + card {i. i < 120 \<and> present h' pd i}"
    proof (cases "present h pd (pde_idx a)")
      case True
      then have "{i. i < 120 \<and> present h' pd i} = {i. i < 120 \<and> present h pd i}" using P by auto
      then show ?thesis using C F(3) [OF True] by simp
    next
      case False
      then have "{i. i < 120 \<and> present h' pd i} = insert (pde_idx a) {i. i < 120 \<and> present h pd i}" using P low by auto
      then show ?thesis using C F(4) False by simp
    qed
    note C' = this
    have "ident h' pd (max n (Suc (unat a div 4096)))" if "ident h pd n"
      unfolding ident_def
    proof (intro allI impI)
      fix v :: u32 assume v: "unat v < 4096 * max n (Suc (unat a div 4096))"
      show "mmu h' pd False v = Some v"
      proof (cases "same_page v a")
        case True
        then have "mmu h' pd False v = Some ((a AND 0xFFFFF000) OR (v AND 0xFFF))" using ok by blast
        then show ?thesis using page_offset [OF a(1)] True page_bits(1) [OF a(1)] by (simp add: same_page_iff)
      next
        case False
        then have "unat v div 4096 \<noteq> unat a div 4096" by (simp add: same_page_iff)
        then have "unat v < 4096 * n" using v a by (auto simp: max_def split: if_splits)
        then show ?thesis using ok False that by (simp add: ident_def)
      qed
    qed
    then have "mapping C h' pd D' Q (max n (Suc (unat a div 4096)))" using D'(2,3) i F(1) C' unfolding mapping_def by blast
    then show ?thesis using D'(1) r by auto
  qed
qed

text \<open>The loop returns: the addresses stay below the end, a multiple of the page size.\<close>

lemma vmm_map_range_ok:
  assumes "mapping C h pd D Q n" "4096 dvd unat a" "4096 dvd unat e" "unat a \<le> unat e" "unat a \<le> 4096 * n" "fl AND 0xFFFFF000 = 0"
    "unat e \<le> 0x1E000000"
  shows "\<exists>h' D'. vmm_map_range pd a e fl h = Some h' \<and> D \<subseteq># D' \<and> mapping C h' pd D' Q (max n (unat e div 4096))"
  using assms
proof (induction "unat e - unat a" arbitrary: a h D n rule: less_induct)
  case less
  show ?case
  proof (cases "a < e")
    case True
    obtain D1 where D1: "D \<subseteq># D1" "mapping C (snd (vmm_map_page pd a a fl h)) pd D1 Q (max n (Suc (unat a div 4096)))"
      using map_step [OF less.prems(1,2,5) _ less.prems(6)] True less.prems(7) by (auto simp: word_less_nat_alt)
    have lt: "unat a < unat e" using True by (simp add: word_less_nat_alt)
    obtain q r where q: "unat a = 4096 * q" "unat e = 4096 * r" using less.prems(2,3) by (auto simp: dvd_def)
    have bound: "unat e < 4294967296" using unsigned_less [where 'a = nat, of e] by simp
    have up: "unat (a + PAGE_SIZE) = 4096 * Suc q" using q lt bound by (simp add: unat_word_ariths PAGE_SIZE_def)
    have "\<exists>h' D'. vmm_map_range pd (a + PAGE_SIZE) e fl (snd (vmm_map_page pd a a fl h)) = Some h' \<and> D1 \<subseteq># D' \<and>
        mapping C h' pd D' Q (max (max n (Suc (unat a div 4096))) (unat e div 4096))"
    proof (rule less.hyps [OF _ D1(2)])
      have "4096 * Suc q \<le> 4096 * max n (Suc q)" by (intro mult_le_mono2) simp
      then show "unat (a + PAGE_SIZE) \<le> 4096 * max n (Suc (unat a div 4096))" unfolding up q(1) by simp
    qed (use up q lt less.prems in auto)
    moreover have "max (max n (Suc (unat a div 4096))) (unat e div 4096) = max n (unat e div 4096)" using q lt by simp
    ultimately show ?thesis using True D1(1) subset_mset.order_trans by (subst vmm_map_range.simps) fastforce
  next
    case False
    then have "unat e div 4096 \<le> n" using less.prems(4,5) by (simp add: word_less_nat_alt)
    then show ?thesis using False less.prems(1) by (subst vmm_map_range.simps) (auto simp: max_absorb1)
  qed
qed

lemma fold_mapping:
  assumes "mapping C h pd D Q n" "\<And>i. i \<in> set ks \<Longrightarrow> 4096 dvd unat (f i) \<and> unat (f i) < 4096 * n" "fl AND 0xFFFFF000 = 0"
    "n \<le> 122880"
  shows "\<exists>D'. D \<subseteq># D' \<and> mapping C (fold (\<lambda>i h. snd (vmm_map_page pd (f i) (f i) fl h)) ks h) pd D' Q n"
  using assms
proof (induction ks arbitrary: h D)
  case (Cons i ks)
  have i: "4096 dvd unat (f i)" "unat (f i) < 4096 * n" using Cons.prems(2) by simp_all
  then have "max n (Suc (unat (f i) div 4096)) = n" by (auto simp: max_def)
  then obtain D1 where D1: "D \<subseteq># D1" "mapping C (snd (vmm_map_page pd (f i) (f i) fl h)) pd D1 Q n"
    using map_step [OF Cons.prems(1) i(1) _ _ Cons.prems(3)] i(2) Cons.prems(4) by auto
  from Cons.IH [OF D1(2)] Cons.prems(2-4) obtain D' where "D1 \<subseteq># D'"
    "mapping C (fold (\<lambda>i h. snd (vmm_map_page pd (f i) (f i) fl h)) ks (snd (vmm_map_page pd (f i) (f i) fl h))) pd D' Q n" by auto
  then show ?case using D1(1) subset_mset.order_trans by fastforce
qed auto

lemma paging_init_ok:
  assumes h: "holds h D Q" and r: "page_alloc h = (kpd, h1)" and k: "kpd \<noteq> 0"
  shows "\<exists>h' D'. paging_init h = Some (kpd, h') \<and> D \<subseteq># D' \<and> mapping (free_count h1) h' kpd D' Q 122880"
proof -
  let ?C = "free_count h1"
  note A = holds_alloc [OF h r]
  have h1: "holds h1 (add_mset (kpd, 0) D) Q" using A(2) k by simp
  have page: "slab_page kpd" using holds_block(1) [OF h1, of kpd 0] by simp
  have all: "set [0 ..< 1024] \<subseteq> {..< 1024 :: nat}" by auto
  let ?h = "fold (\<lambda>i. wr (entry kpd i) 0) [0 ..< 1024] h1"
  have "rd (entry kpd i) ?h = 0" if "i < 1024" for i using fill_table [OF page distinct_upt all that, of "\<lambda>_. 0"] that by simp
  then have "dir_ok ?h kpd D" by (simp add: dir_ok_def present_def)
  moreover have "holds ?h (add_mset (kpd, 0) D) Q" by (rule holds_table [OF h1 _ all]) simp
  ultimately have m: "mapping ?C ?h kpd D Q 0" by (simp add: mapping_def ident_def)
  have fl: "(VMM_WRITABLE OR VMM_USER) AND 0xFFFFF000 = 0" "VMM_WRITABLE AND 0xFFFFF000 = 0" by (simp_all add: vmm_flags)
  from vmm_map_range_ok [OF m, of 0 "0x1E000000", OF _ _ _ _ fl(1)] obtain h2 D2 where
    h2: "vmm_map_range kpd 0 0x1E000000 (VMM_WRITABLE OR VMM_USER) ?h = Some h2" "D \<subseteq># D2" "mapping ?C h2 kpd D2 Q 122880" by auto
  let ?h3 = "snd (vmm_map_page kpd 0xB8000 0xB8000 VMM_WRITABLE h2)"
  obtain D3 where D3: "D2 \<subseteq># D3" "mapping ?C ?h3 kpd D3 Q 122880"
    using map_step [OF h2(3), of "0xB8000", OF _ _ _ fl(2)] by auto
  let ?f = "\<lambda>i. 0xA0000 + of_nat i * PAGE_SIZE :: u32"
  have "4096 dvd unat (?f i) \<and> unat (?f i) < 4096 * 122880" if i: "i \<in> set [0 ..< 16]" for i
  proof -
    have "unat (?f i) = 4096 * (160 + i)" using i by (simp add: unat_word_ariths PAGE_SIZE_def unat_of_nat)
    then show ?thesis using i by simp
  qed
  from fold_mapping [where f = ?f and ks = "[0 ..< 16]", OF D3(2) this fl(2)] obtain D4 where
    "D3 \<subseteq># D4" "mapping ?C (fold (\<lambda>i h. snd (vmm_map_page kpd (?f i) (?f i) VMM_WRITABLE h)) [0 ..< 16] ?h3) kpd D4 Q 122880" by auto
  moreover have "D \<subseteq># D4" using h2(2) D3(1) calculation(1) subset_mset.order_trans by blast
  ultimately show ?thesis using r h2(1) by (auto simp: paging_init_def Let_def)
qed

lemma mapping_enough:
  assumes "mapping C h pd D Q n" "120 < C" shows "\<not> full h \<and> ident h pd n"
proof -
  have "card {i. i < 120 \<and> present h pd i} \<le> card {..< 120 :: nat}" by (rule card_mono) auto
  then show ?thesis using assms by (auto simp: mapping_def full_count)
qed

text \<open>With two pages left a directory is made.\<close>

lemma vmm_create_user_pd_succeeds:
  assumes h: "holds h D Q" and kpd: "kpd \<noteq> 0" and fs: "fs \<noteq> []" "window_ok win (length fs)" and free: "2 \<le> free_count h"
  shows "fst (vmm_create_user_pd kpd fs win h) \<noteq> 0"
proof -
  obtain a h1 where a: "page_alloc h = (a, h1)" by fastforce
  have a0: "a \<noteq> 0" using page_alloc_full [OF h a] free by (simp add: full_count)
  obtain pt h2 where b: "vmm_build_window_pt fs win h = (pt, h2)" by fastforce
  have pt: "pt = a" using a b by (simp add: vmm_build_window_pt_def Let_def split: if_splits)
  have "free_count h2 = free_count h1"
    using b a a0 by (auto simp: vmm_build_window_pt_def Let_def put_window_def)
  then have nf: "\<not> full h2" using page_alloc_count [OF h a] free by (simp add: full_count)
  have h2: "holds h2 (add_mset (pt, 0) D) Q" using vmm_build_window_pt_ok(3) [OF h fs(2) b] pt a0 by blast
  obtain pd h3 where c: "page_alloc h2 = (pd, h3)" by fastforce
  have "pd \<noteq> 0" using page_alloc_full [OF h2 c] nf by simp
  then show ?thesis using kpd fs(1) b c pt a0 by (simp add: vmm_create_user_pd_def)
qed

section \<open>Properties\<close>

text \<open>The machine after boot, with all of its memory.\<close>

definition heap_big :: kheap where
  "heap_big = slab_init (\<lparr>pm = the (pmm_init 0 pmm_boot), caches_at = 0x100000, generic_caches = [],
     mm_stat_kmalloc_ok = 0, mm_stat_kfree_calls = 0, mm_stat_kmalloc_fail = 0\<rparr>)"

lemma heap_big: "holds heap_big {#} {}" "free_count heap_big = 120832"
proof -
  obtain s L where s: "pmm_init 0 pmm_boot = Some s" "pmm_wf s L" "free_page_mset L = mset [2048 ..< 2048 + unat (total_pages s)]"
    "unat (total_pages s) = (unat (pmm_end_addr 0) - 0x800000) div 4096"
    using pmm_init_total [of 0 pmm_boot] by blast
  define h0 where "h0 = \<lparr>pm = s, caches_at = 0x100000, generic_caches = [],
     mm_stat_kmalloc_ok = 0, mm_stat_kfree_calls = 0, mm_stat_kmalloc_fail = 0\<rparr>"
  have big: "heap_big = slab_init (h0\<lparr>pm := s\<rparr>)" by (simp add: heap_big_def h0_def s(1))
  show "holds heap_big {#} {}" unfolding big holds_def using heap_boot [OF s(1)] by blast
  have "unat (pmm_end_addr 0) = 0x1E000000" by (simp add: pmm_end_addr_def PMM_END_ADDR_def)
  then have t: "unat (total_pages s) = 120832" using s(4) by simp
  have "size (free_page_mset L) = unat (total_pages s)" unfolding s(3) by (simp only: size_mset length_upt add_diff_cancel_left')
  then show "free_count heap_big = 120832" using s(2) unfolding t by (simp add: big free_count_def slab_init_def pmm_wf_def)
qed

text \<open>C7: The kernel's page tables. On a heap with 122 free pages \<open>paging_init\<close> returns (its loops end) a directory
  under which every address below 480 MB translates to itself, and touches nothing that was held.\<close>

theorem paging_init_maps_memory:
  assumes "holds h D Q" "122 \<le> free_count h"
  shows "\<exists>kpd h' E. paging_init h = Some (kpd, h') \<and> holds h' (add_mset (kpd, 0) E) Q \<and> D \<subseteq># E \<and>
    (\<forall>v < 0x1E000000. mmu h' kpd False v = Some v)"
proof -
  obtain kpd h1 where r: "page_alloc h = (kpd, h1)" by fastforce
  have k: "kpd \<noteq> 0" using page_alloc_full [OF assms(1) r] assms(2) by (simp add: full_count)
  obtain h' E where h': "paging_init h = Some (kpd, h')" "D \<subseteq># E" "mapping (free_count h1) h' kpd E Q 122880"
    using paging_init_ok [OF assms(1) r k] by blast
  then have "ident h' kpd 122880" using mapping_enough [OF h'(3)] page_alloc_count [OF assms(1) r] assms(2) by simp
  then have "\<forall>v < 0x1E000000. mmu h' kpd False v = Some v" by (simp add: ident_def word_less_nat_alt)
  then show ?thesis using h' by (auto simp: mapping_def)
qed

theorem paging_init_maps_memory_witness:
  "\<exists>kpd h' E. paging_init heap_big = Some (kpd, h') \<and> holds h' (add_mset (kpd, 0) E) {} \<and> (\<forall>v < 0x1E000000. mmu h' kpd False v = Some v)"
  using paging_init_maps_memory [OF heap_big(1)] heap_big(2) by auto

text \<open>C6: What a program can reach. Through a directory made by \<open>vmm_create_user_pd\<close> user mode reaches the frames of
  its window, each at its place, and nothing else; the kernel sees everything outside the window's four
  megabytes as under its own directory, and those as themselves. Making it succeeds with two free pages, and
  changes nothing that is held.\<close>

theorem user_mode_reaches_window_only:
  assumes h: "holds h D Q" and kpd: "(kpd, 0) \<in># D" and win: "window_ok win (length fs)" "fs \<noteq> []"
    and fs: "\<forall>f \<in> set fs. 4096 dvd unat f" and free: "2 \<le> free_count h"
  shows "\<exists>pd h'. vmm_create_user_pd kpd fs win h = (pd, h') \<and> pd \<noteq> 0 \<and> keeps D h h' \<and>
    (\<forall>v. mmu h' pd True v = (if in_window win (length fs) v \<and> frame_of fs win v \<noteq> 0 then Some (frame_of fs win v OR (v AND 0xFFF)) else None)) \<and>
    (\<forall>v. mmu h' pd False v = (if pde_idx v \<noteq> 0 then mmu h' kpd False v else if in_window win (length fs) v then mmu h' pd True v else Some v))"
proof -
  obtain pd h' where r: "vmm_create_user_pd kpd fs win h = (pd, h')" by fastforce
  have kpd0: "kpd \<noteq> 0" using holds_block(1) [OF h kpd] slab_page_dvd by blast
  have pd: "pd \<noteq> 0" using vmm_create_user_pd_succeeds [OF h kpd0 win(2,1) free] r by simp
  note C = vmm_create_user_pd_ok [OF h kpd win(1) r]
  obtain pt where pt: "user_space h' pd pt win fs" "\<And>i. 0 < i \<Longrightarrow> i < 1024 \<Longrightarrow> rd (entry pd i) h' = user_pde kpd pt win h i"
    using C(3) [OF pd] by blast
  note U = user_walk [OF pt(1)]
  have walk: "mmu h' pd True v = (if in_window win (length fs) v \<and> frame_of fs win v \<noteq> 0 then Some (frame_of fs win v OR (v AND 0xFFF)) else None)" for v
    using U fs by blast
  have "mmu h' pd False v = (if pde_idx v \<noteq> 0 then mmu h' kpd False v else if in_window win (length fs) v then mmu h' pd True v else Some v)" for v
  proof (cases "pde_idx v = 0")
    case True
    note low = True
    show ?thesis
    proof (cases "in_window win (length fs) v")
      case True
      then have "frame_of fs win v \<in> set fs" using in_window_idx [OF win(1), of v] by (auto simp: frame_of_def)
      moreover have "win_entry win fs (unat v div 4096) = window_pte (frame_of fs win v)"
        using in_window_idx [OF win(1), of v] True by (simp add: win_entry_def frame_of_def)
      ultimately have "mmu h' pd False v = mmu h' pd True v"
        using window_pte_flags [of "frame_of fs win v"] fs by (simp add: walk_low [OF pt(1) low] Let_def)
      then show ?thesis using low True by simp
    qed (use kernel_walk_low [OF pt(1) low] low in simp)
  next
    case False
    have "rd (entry kpd (pde_idx v)) h' = rd (entry kpd (pde_idx v)) h"
      using keepsD [OF C(1)] entry_at(2) [OF holds_block(1) [OF h kpd] idx_bounds(1)] held_pagesI [OF kpd block_pages_first] by simp
    then have "rd (entry pd (pde_idx v)) h' = user_pde kpd pt win h' (pde_idx v)"
      using pt(2) [of "pde_idx v"] False idx_bounds(1) by (simp add: user_pde_def)
    moreover have "pde_idx win = 0" using window_pde [OF win(1)] win(2) by simp
    ultimately have "mmu h' pd False v = mmu h' kpd False v" using False by (intro kernel_walk_high [of pd v h' kpd pt win]) simp_all
    then show ?thesis using False by simp
  qed
  then show ?thesis using r pd walk C(1) by blast
qed

theorem user_mode_reaches_window_only_witness:
  "\<exists>kpd f h pd h'. vmm_create_user_pd kpd [f] 0x300000 h = (pd, h') \<and> pd \<noteq> 0 \<and> mmu h' pd True 0x300010 = Some (f OR 0x10) \<and>
    mmu h' pd True 0x301000 = None \<and> mmu h' pd False 0x301000 = Some 0x301000"
proof -
  obtain kpd h1 where k: "page_alloc heap_big = (kpd, h1)" by fastforce
  have kpd: "kpd \<noteq> 0" using page_alloc_full [OF heap_big(1) k] heap_big(2) by (simp add: full_count)
  have h1: "holds h1 {#(kpd, 0)#} {}" "free_count h1 = 120831"
    using holds_alloc(2) [OF heap_big(1) k kpd] page_alloc_count [OF heap_big(1) k] heap_big(2) by simp_all
  obtain f h2 where f: "page_alloc h1 = (f, h2)" by fastforce
  have f0: "f \<noteq> 0" using page_alloc_full [OF h1(1) f] h1(2) by (simp add: full_count)
  have h2: "holds h2 {#(f, 0), (kpd, 0)#} {}" "free_count h2 = 120830"
    using holds_alloc(2) [OF h1(1) f f0] page_alloc_count [OF h1(1) f] h1(2) by simp_all
  have dvd: "4096 dvd unat f" using holds_block(1) [OF h2(1), of f 0] slab_page_dvd by simp
  have "(kpd, 0) \<in># {#(f, 0), (kpd, 0)#}" "window_ok 0x300000 (length [f])" "[f] \<noteq> []" "\<forall>g \<in> set [f]. 4096 dvd unat g"
    using dvd by (simp_all add: window_ok_def)
  from user_mode_reaches_window_only [OF h2(1) this] h2(2) obtain pd h' where
    "vmm_create_user_pd kpd [f] 0x300000 h2 = (pd, h')" "pd \<noteq> 0"
    and u: "\<And>v. mmu h' pd True v = (if in_window 0x300000 (length [f]) v \<and> frame_of [f] 0x300000 v \<noteq> 0 then Some (frame_of [f] 0x300000 v OR (v AND 0xFFF)) else None)"
    and k: "\<And>v. mmu h' pd False v = (if pde_idx v \<noteq> 0 then mmu h' kpd False v else if in_window 0x300000 (length [f]) v then mmu h' pd True v else Some v)"
    by auto
  moreover have "mmu h' pd True 0x300010 = Some (f OR 0x10)" "mmu h' pd True 0x301000 = None"
    unfolding u using f0 by (simp_all add: in_window_def frame_of_def)
  moreover have "mmu h' pd False 0x301000 = Some 0x301000" unfolding k by (simp add: in_window_def pde_idx_def)
  ultimately show ?thesis by blast
qed

text \<open>After \<open>vmm_map_page\<close> returned 0 the page translates to the frame asked for, in user mode too when the flags
  ask for that, and the kernel sees all other pages as before; it fails only when the table is missing and the memory
  is full, and then changes nothing.\<close>

theorem vmm_map_page_translates:
  assumes "holds h (add_mset (pd, 0) D) Q" "dir_ok h pd D" "fl AND 0xFFFFF000 = 0" "vmm_map_page pd v ph fl h = (rc, h')"
  shows "if rc = 0 then (\<forall>u. same_page u v \<longrightarrow> mmu h' pd (fl AND VMM_USER \<noteq> 0) u = Some ((ph AND 0xFFFFF000) OR (u AND 0xFFF))) \<and>
      (\<forall>u. \<not> same_page u v \<longrightarrow> mmu h' pd False u = mmu h pd False u)
    else rc = - 1 \<and> h' = h \<and> full h \<and> mmu h pd False v = None"
  using vmm_map_page_ok [OF assms]
proof
  assume "rc = - 1 \<and> h' = h \<and> \<not> present h pd (pde_idx v)"
  then show ?thesis using vmm_map_page_full(2) [OF assms(1,4)] by (simp add: mmu_tables)
next
  assume r: "rc = 0 \<and> (\<exists>pt. let D' = (if present h pd (pde_idx v) then D else add_mset (pt, 0) D)
      in holds h' (add_mset (pd, 0) D') Q \<and> dir_ok h' pd D' \<and> keeps (D - {#(pt, 0)#}) h h' \<and>
        (\<forall>i < 1024. present h' pd i \<longleftrightarrow> present h pd i \<or> i = pde_idx v)) \<and>
      (\<forall>user. (user \<longrightarrow> fl AND VMM_USER \<noteq> 0) \<longrightarrow>
        (\<forall>u. same_page u v \<longrightarrow> mmu h' pd user u = Some ((ph AND 0xFFFFF000) OR (u AND 0xFFF)))) \<and>
      (\<forall>u. \<not> same_page u v \<longrightarrow> mmu h' pd False u = mmu h pd False u)"
  then have "\<forall>u. same_page u v \<longrightarrow> mmu h' pd (fl AND VMM_USER \<noteq> 0) u = Some ((ph AND 0xFFFFF000) OR (u AND 0xFFF))" by blast
  then show ?thesis using r by simp
qed

theorem vmm_map_page_translates_witness:
  "\<exists>pd h h'. vmm_map_page pd 0xC0000000 0x5000 VMM_WRITABLE h = (0, h') \<and> mmu h' pd False 0xC0000123 = Some 0x5123"
proof -
  obtain pd h1 where k: "page_alloc heap_big = (pd, h1)" by fastforce
  have pd: "pd \<noteq> 0" using page_alloc_full [OF heap_big(1) k] heap_big(2) by (simp add: full_count)
  have h1: "holds h1 {#(pd, 0)#} {}" "free_count h1 = 120831"
    using holds_alloc(2) [OF heap_big(1) k pd] page_alloc_count [OF heap_big(1) k] heap_big(2) by simp_all
  have page: "slab_page pd" using holds_block(1) [OF h1(1), of pd 0] by simp
  have all: "set [0 ..< 1024] \<subseteq> {..< 1024 :: nat}" by auto
  define h where "h = fold (\<lambda>i. wr (entry pd i) 0) [0 ..< 1024] h1"
  have z: "rd (entry pd i) h = 0" if "i < 1024" for i
    unfolding h_def using fill_table [OF page distinct_upt all that, of "\<lambda>_. 0"] that by simp
  then have d: "dir_ok h pd {#}" by (simp add: dir_ok_def present_def)
  have hh: "holds h {#(pd, 0)#} {}" unfolding h_def by (rule holds_table [OF h1(1) _ all]) simp
  obtain rc h' where r: "vmm_map_page pd 0xC0000000 0x5000 VMM_WRITABLE h = (rc, h')" by fastforce
  have fl: "VMM_WRITABLE AND 0xFFFFF000 = 0" by (simp add: vmm_flags)
  have "\<not> full h" using h1(2) by (simp add: h_def full_count)
  with vmm_map_page_translates [OF hh d fl r] have "rc = 0"
    and "\<forall>u. same_page u 0xC0000000 \<longrightarrow> mmu h' pd (VMM_WRITABLE AND VMM_USER \<noteq> 0) u = Some ((0x5000 AND 0xFFFFF000) OR (u AND 0xFFF))"
    by (auto split: if_splits)
  moreover have "same_page 0xC0000123 0xC0000000" by (simp add: same_page_iff)
  moreover have "(VMM_WRITABLE AND VMM_USER \<noteq> 0) = False" by (simp add: vmm_flags)
  ultimately have "rc = 0" "mmu h' pd False 0xC0000123 = Some 0x5123" by (metis, simp)
  then show ?thesis using r by blast
qed

end
