(* ===== verification/Process.thy ===== *)
theory Process
  imports Paging "HOL-Library.Monad_Syntax"
begin

text \<open>
  Processes (\<open>kernel.c\<close>): the process table, creation (\<open>process_alloc\<close>, \<open>kthread_create\<close>, \<open>user_spawn\<close>,
  \<open>sys_fork\<close>), \<open>sys_execve\<close>, exit, \<open>sys_waitpid\<close>, \<open>cmd_kill\<close>, the scheduler with the timer's part in it, and the socket
  descriptors that die with a process, on the memory of \<open>Paging\<close>.

  A \<open>struct process *\<close> is the index of its slot; \<open>current_process\<close> may be a null pointer. The addresses of code
  (\<open>isr_user_exit\<close>, \<open>kthread_entry\<close>) are fields of the state. The control register \<open>cr3\<close> and the ring-0 stack of the
  task segment are fields too; \<open>switch_to\<close> stores the stack pointer of the task that stops, which is an argument.
  An operation that does not return (because \<open>kfree\<close> or \<open>kmalloc\<close> does not, or a page fault stops the kernel) is \<open>None\<close>.
  Reading a file (\<open>fat12_read_file_to_ram\<close>, theory \<open>Fat\<close>) is an argument of \<open>sys_execve\<close>; \<open>tcp_close\<close> (theory \<open>Tcp\<close>) is
  recorded as the list of blocks it was called on.

  Here: bytes in the memory of words, writing and filling the frames of a window, kernel stacks. The invariant and the
  runs are in the theories \<open>Process_Run\<close>, \<open>Kernel_Run\<close> and \<open>Kernel_Properties\<close>.
\<close>

section \<open>State\<close>

definition USER_WIN_BASE :: u32 where "USER_WIN_BASE = 0x00300000"
definition USER_WIN_PAGES :: nat where "USER_WIN_PAGES = 64"
definition USER_WIN_SIZE :: u32 where "USER_WIN_SIZE = of_nat USER_WIN_PAGES * 4096"
definition USER_STACK_TOP :: u32 where "USER_STACK_TOP = 0x00330000"
definition USER_IMAGE_MAX :: u32 where "USER_IMAGE_MAX = 0x0002F000"
definition USER_CS_SEL :: u32 where "USER_CS_SEL = 0x1B"
definition USER_DS_SEL :: u32 where "USER_DS_SEL = 0x23"
definition USER_KSTACK_SIZE :: u32 where "USER_KSTACK_SIZE = 8192"
definition MAX_PROCESSES :: nat where "MAX_PROCESSES = 32"
definition PROCESS_NAME_LEN :: nat where "PROCESS_NAME_LEN = 32"
definition MAX_SOCKETS :: nat where "MAX_SOCKETS = 16"
definition SOCKET_FD_BASE :: int where "SOCKET_FD_BASE = 3"
definition PIT_HZ :: u32 where "PIT_HZ = 100"
definition FAILED :: u32 where "FAILED = 0xFFFFFFFF"

lemmas user_consts = USER_WIN_BASE_def USER_WIN_PAGES_def USER_WIN_SIZE_def USER_STACK_TOP_def USER_IMAGE_MAX_def
  USER_KSTACK_SIZE_def MAX_PROCESSES_def

datatype proc_state = PROC_STATE_DEAD | PROC_STATE_RUNNING | PROC_STATE_SLEEPING | PROC_STATE_WAITING | PROC_STATE_ZOMBIE

record process =
  p_pid :: u32
  p_ppid :: u32
  p_state :: proc_state
  p_in_use :: bool
  p_name :: "u8 list"
  p_start_ticks :: u32
  p_cpu_ticks :: u32
  p_page_dir :: u32
  p_is_background :: bool
  p_esp :: u32
  p_kernel_stack :: u32
  p_frames :: "u32 list"
  p_pd :: u32
  p_kernel_stack_size :: u32
  p_exit_code :: u32
  p_wake_tick :: u32
  p_is_user_prog :: bool

record socket_fd =
  s_in_use :: bool
  s_pcb :: "nat option"
  s_pid :: u32

record regs =
  r_gs :: u32
  r_fs :: u32
  r_es :: u32
  r_ds :: u32
  r_edi :: u32
  r_esi :: u32
  r_ebp :: u32
  r_esp :: u32
  r_ebx :: u32
  r_edx :: u32
  r_ecx :: u32
  r_eax :: u32
  r_int_no :: u32
  r_err_code :: u32
  r_eip :: u32
  r_cs :: u32
  r_efl :: u32
  r_useresp :: u32
  r_ss :: u32

record kern =
  kh :: kheap
  kpd :: u32
  cr3 :: u32
  esp0 :: u32
  procs :: "process list"
  next_pid :: u32
  cur :: "nat option"
  current_user_pid :: u32
  pit_ticks :: u32
  scheduler_ticks :: u32
  socks :: "socket_fd list"
  tcp_closed :: "nat list"
  isr_user_exit :: u32
  kthread_entry :: u32

definition upd :: "nat \<Rightarrow> (process \<Rightarrow> process) \<Rightarrow> kern \<Rightarrow> kern" where
  "upd i f k = k\<lparr>procs := (procs k)[i := f (procs k ! i)]\<rparr>"

text \<open>C strings are byte lists without the terminator. Bytes in the memory of words.\<close>

definition ld8 :: "u32 \<Rightarrow> kheap \<Rightarrow> u8" where
  "ld8 a h = ucast (drop_bit (8 * unat (a AND 3)) (rd (a AND NOT 3) h))"

definition st8 :: "u32 \<Rightarrow> u8 \<Rightarrow> kheap \<Rightarrow> kheap" where
  "st8 a v h = (let w = a AND NOT 3; s = 8 * unat (a AND 3)
     in wr w ((rd w h AND NOT (push_bit s 0xFF)) OR push_bit s (ucast v)) h)"

definition mem_copy_heap :: "u32 \<Rightarrow> u32 \<Rightarrow> nat \<Rightarrow> kheap \<Rightarrow> kheap" where
  "mem_copy_heap d s n h = fold (\<lambda>i h. st8 (d + of_nat i) (ld8 (s + of_nat i) h) h) [0 ..< n] h"

text \<open>\<open>mem_copy\<close> from a buffer whose bytes are given.\<close>

definition store_bytes :: "u32 \<Rightarrow> u8 list \<Rightarrow> kheap \<Rightarrow> kheap" where
  "store_bytes d bs h = fold (\<lambda>i. st8 (d + of_nat i) (bs ! i)) [0 ..< length bs] h"

section \<open>The process table\<close>

definition name_field :: "u8 list \<Rightarrow> u8 list" where
  "name_field s = take (PROCESS_NAME_LEN - 1) s"

definition process_init :: "kern \<Rightarrow> kern" where
  "process_init k =
     (let ps = map (\<lambda>p. p\<lparr>p_pid := 0, p_state := PROC_STATE_DEAD, p_in_use := False, p_name := []\<rparr>) (procs k);
          start = (\<lambda>n p. p\<lparr>p_pid := n, p_ppid := 0, p_state := PROC_STATE_RUNNING, p_in_use := True, p_start_ticks := pit_ticks k,
            p_cpu_ticks := 0, p_page_dir := 0, p_esp := 0, p_kernel_stack := 0\<rparr>);
          ps = ps[0 := (start 0 (ps ! 0))\<lparr>p_name := name_field [107, 101, 114, 110, 101, 108]\<rparr>];
          ps = ps[1 := (start 1 (ps ! 1))\<lparr>p_name := name_field [115, 104, 101, 108, 108], p_is_background := False\<rparr>]
      in k\<lparr>procs := ps, cur := Some 1, next_pid := 2\<rparr>)"

definition process_alloc :: "u8 list \<Rightarrow> kern \<Rightarrow> u32 \<times> kern" where
  "process_alloc name k =
     (case first_idx (\<lambda>p. \<not> p_in_use p) (procs k) of
        None \<Rightarrow> (0, k)
      | Some i \<Rightarrow>
          let pid = next_pid k;
              k = k\<lparr>next_pid := next_pid k + 1\<rparr>;
              parent = (if current_user_pid k \<noteq> 0 then current_user_pid k
                        else case cur k of Some c \<Rightarrow> p_pid ((procs k)[i := (procs k ! i)\<lparr>p_pid := pid\<rparr>] ! c) | None \<Rightarrow> 0)
          in (pid, upd i (\<lambda>p. p\<lparr>p_pid := pid, p_ppid := parent, p_state := PROC_STATE_RUNNING, p_in_use := True,
                p_name := name_field name, p_start_ticks := pit_ticks k, p_cpu_ticks := 0, p_page_dir := 0, p_is_background := False,
                p_esp := 0, p_kernel_stack := 0, p_frames := replicate USER_WIN_PAGES 0, p_pd := 0, p_kernel_stack_size := 0,
                p_exit_code := 0, p_wake_tick := 0, p_is_user_prog := False\<rparr>) k))"

definition process_get :: "u32 \<Rightarrow> kern \<Rightarrow> nat option" where
  "process_get pid k = first_idx (\<lambda>p. p_pid p = pid \<and> p_in_use p) (procs k)"

definition vmm_load_pd :: "u32 \<Rightarrow> kern \<Rightarrow> kern" where
  "vmm_load_pd pd k = (if pd \<noteq> 0 \<and> pd \<noteq> cr3 k then k\<lparr>cr3 := pd\<rparr> else k)"

text \<open>The loop that frees the frames of a window.\<close>

definition free_frames :: "u32 list \<Rightarrow> kheap \<Rightarrow> kheap" where
  "free_frames fs h = fold (\<lambda>f h. if f \<noteq> 0 then page_free f h else h) fs h"

definition user_free_memory :: "nat \<Rightarrow> kern \<Rightarrow> kern" where
  "user_free_memory i k =
     (let pd = p_pd (procs k ! i);
          k = (if pd \<noteq> 0
               then let k = (if pd = cr3 k then vmm_load_pd (kpd k) k else k);
                        k = k\<lparr>kh := vmm_destroy_user_pd (kpd k) pd (kh k)\<rparr>
                    in upd i (\<lambda>p. p\<lparr>p_pd := 0\<rparr>) k
               else k);
          fs = p_frames (procs k ! i);
          k = k\<lparr>kh := free_frames fs (kh k)\<rparr>
      in upd i (\<lambda>p. p\<lparr>p_frames := map (\<lambda>_. 0) fs\<rparr>) k)"

section \<open>Sockets of a process\<close>

definition socket_alloc_fd :: "nat option \<Rightarrow> u32 \<Rightarrow> socket_fd list \<Rightarrow> int \<times> socket_fd list" where
  "socket_alloc_fd pcb pid ss =
     (case first_idx (\<lambda>s. \<not> s_in_use s) ss of
        None \<Rightarrow> (-1, ss)
      | Some i \<Rightarrow> (SOCKET_FD_BASE + int i, ss[i := \<lparr>s_in_use = True, s_pcb = pcb, s_pid = pid\<rparr>]))"

definition socket_get_fd :: "int \<Rightarrow> socket_fd list \<Rightarrow> nat option" where
  "socket_get_fd fd ss =
     (if fd < SOCKET_FD_BASE \<or> fd \<ge> SOCKET_FD_BASE + int MAX_SOCKETS then None
      else let i = nat (fd - SOCKET_FD_BASE) in if s_in_use (ss ! i) then Some i else None)"

definition socket_free_fd :: "int \<Rightarrow> socket_fd list \<Rightarrow> socket_fd list" where
  "socket_free_fd fd ss =
     (case socket_get_fd fd ss of None \<Rightarrow> ss | Some i \<Rightarrow> ss[i := \<lparr>s_in_use = False, s_pcb = None, s_pid = 0\<rparr>])"

definition close_sockets :: "u32 \<Rightarrow> kern \<Rightarrow> kern" where
  "close_sockets pid k =
     (let mine = (\<lambda>s. s_in_use s \<and> s_pid s = pid)
      in k\<lparr>socks := map (\<lambda>s. if mine s then s\<lparr>s_in_use := False\<rparr> else s) (socks k),
           tcp_closed := tcp_closed k @ List.map_filter s_pcb (filter mine (socks k))\<rparr>)"

section \<open>The end of a process\<close>

definition process_free :: "u32 \<Rightarrow> kern \<Rightarrow> kern option" where
  "process_free pid k =
     (case process_get pid k of
        None \<Rightarrow> Some k
      | Some i \<Rightarrow>
          let prev_current = cur k;
              k = close_sockets (p_pid (procs k ! i)) k;
              k = k\<lparr>cur := (if prev_current = Some i then Some 0 else prev_current)\<rparr>;
              k = upd i (\<lambda>p. p\<lparr>p_state := PROC_STATE_DEAD, p_in_use := False\<rparr>) k;
              k = user_free_memory i k;
              stack = p_kernel_stack (procs k ! i)
          in do {
            h \<leftarrow> (if stack \<noteq> 0 \<and> prev_current \<noteq> Some i then kfree stack (kh k) else Some (kh k));
            Some (upd i (\<lambda>p. p\<lparr>p_kernel_stack := 0, p_kernel_stack_size := 0, p_esp := 0, p_is_user_prog := False, p_exit_code := 0,
              p_name := []\<rparr>) (k\<lparr>kh := h\<rparr>))
          })"

definition user_process_exit :: "u32 \<Rightarrow> kern \<Rightarrow> kern" where
  "user_process_exit code k =
     (case cur k of
        None \<Rightarrow> k
      | Some i \<Rightarrow> (upd i (\<lambda>p. p\<lparr>p_exit_code := code, p_state := PROC_STATE_ZOMBIE\<rparr>) (user_free_memory i k))\<lparr>current_user_pid := 0\<rparr>)"

definition cmd_kill :: "u32 \<Rightarrow> kern \<Rightarrow> kern option" where
  "cmd_kill pid k =
     (if pid = 0 \<or> pid = 1 then Some k
      else case process_get pid k of
             None \<Rightarrow> Some k
           | Some i \<Rightarrow>
               if p_state (procs k ! i) = PROC_STATE_DEAD \<or> cur k = Some i then Some k
               else process_free pid (upd i (\<lambda>p. p\<lparr>p_state := PROC_STATE_ZOMBIE\<rparr>) k))"

section \<open>Images\<close>

text \<open>\<open>win_write\<close> on the frames of a process: \<open>off\<close> is the offset in the window.\<close>

function win_write_at :: "u32 list \<Rightarrow> nat \<Rightarrow> u8 list \<Rightarrow> kheap \<Rightarrow> bool \<times> kheap" where
  "win_write_at fs off bs h =
     (if bs = [] then (True, h)
      else
        let pg = off div 4096; po = off mod 4096; n = min (4096 - po) (length bs)
        in if fs ! pg = 0 then (False, h)
           else win_write_at fs (off + n) (drop n bs) (store_bytes (fs ! pg + of_nat po) (take n bs) h))"
  by pat_completeness auto
termination
proof (relation "measure (\<lambda>(fs, off, bs, h). length bs)")
  fix fs :: "u32 list" and off po n pg :: nat and bs :: "u8 list" and h :: kheap
  assume a: "bs \<noteq> []" "pg = off div 4096" "po = off mod 4096" "n = min (4096 - po) (length bs)"
  have "off mod 4096 < 4096" by simp
  then have "0 < n" using a by simp
  then show "((fs, off + n, drop n bs, store_bytes (fs ! pg + of_nat po) (take n bs) h), fs, off, bs, h) \<in> measure (\<lambda>(fs, off, bs, h). length bs)"
    using a(1) by simp
qed simp

declare win_write_at.simps [simp del]

definition win_write :: "u32 list \<Rightarrow> u32 \<Rightarrow> u8 list \<Rightarrow> kheap \<Rightarrow> bool \<times> kheap" where
  "win_write fs vaddr bs h =
     (if vaddr < USER_WIN_BASE \<or> vaddr + of_nat (length bs) > USER_WIN_BASE + USER_WIN_SIZE \<or> bs = [] then (False, h)
      else win_write_at fs (unat (vaddr - USER_WIN_BASE)) bs h)"

definition le32 :: "u32 \<Rightarrow> u8 list" where
  "le32 x = map (\<lambda>i. ucast (drop_bit (8 * i) x)) [0 ..< 4]"

definition from_le32 :: "u8 list \<Rightarrow> u32" where
  "from_le32 bs = fold (\<lambda>i x. x OR push_bit (8 * i) (ucast (bs ! i))) [0 ..< 4] 0"

definition entry_off :: "u8 list \<Rightarrow> u32" where
  "entry_off img = from_le32 (drop 8 img)"

definition ajos_bin_valid :: "u8 list \<Rightarrow> bool" where
  "ajos_bin_valid img \<longleftrightarrow>
     \<not> (length img < 20 \<or> length img > unat USER_IMAGE_MAX) \<and>
     take 7 img = [65, 74, 79, 83, 66, 73, 78] \<and> unat (entry_off img) < length img"

text \<open>The strings of \<open>argv\<close> are written below the top of the stack, at most 16, each cut after 257 bytes with the terminator.\<close>

definition arg_bytes :: "u8 list \<Rightarrow> u8 list" where
  "arg_bytes s = take (min (length s) 256 + 1) (s @ [0])"

fun push_args :: "u32 list \<Rightarrow> u8 list list \<Rightarrow> u32 \<Rightarrow> u32 list \<Rightarrow> kheap \<Rightarrow> u32 \<times> u32 list \<times> kheap" where
  "push_args fs [] sp argp h = (sp, argp, h)"
| "push_args fs (s # ss) sp argp h =
     (let sp = sp - of_nat (length (arg_bytes s))
      in push_args fs ss sp (argp @ [sp]) (snd (win_write fs sp (arg_bytes s) h)))"

definition push_words :: "u32 list \<Rightarrow> u32 list \<Rightarrow> u32 \<Rightarrow> kheap \<Rightarrow> u32 \<times> kheap" where
  "push_words fs ws sp h = fold (\<lambda>w (sp, h). (sp - 4, snd (win_write fs (sp - 4) (le32 w) h))) ws (sp, h)"

definition clear_page :: "u32 \<Rightarrow> kheap \<Rightarrow> kheap" where
  "clear_page f h = fold (\<lambda>w. wr (entry f w) 0) [0 ..< 1024] h"

definition user_load_image :: "u32 list \<Rightarrow> u8 list \<Rightarrow> u8 list list \<Rightarrow> kheap \<Rightarrow> u32 \<times> u32 \<times> kheap" where
  "user_load_image fs img argv h =
     (let h = fold clear_page fs h;
          pages = (length img + 4095) div 4096;
          h = fold (\<lambda>pg. store_bytes (fs ! pg) (take 4096 (drop (4096 * pg) img))) [0 ..< pages] h;
          (sp, argp, h) = push_args fs (take 16 argv) USER_STACK_TOP [] h;
          (sp, h) = push_words fs ([0] @ rev argp @ [of_nat (length argp)]) (sp AND NOT 3) h
      in (USER_WIN_BASE + entry_off img, sp, h))"

section \<open>New processes\<close>

definition push_stack :: "u32 list \<Rightarrow> u32 \<Rightarrow> kheap \<Rightarrow> u32 \<times> kheap" where
  "push_stack ws ks h = fold (\<lambda>w (ks, h). (ks - 4, wr (ks - 4) w h)) ws (ks, h)"

definition kstack_push_user_frame :: "u32 \<Rightarrow> u32 \<Rightarrow> regs \<Rightarrow> u32 \<Rightarrow> kheap \<Rightarrow> u32 \<times> kheap" where
  "kstack_push_user_frame resume ks fr eax h =
     push_stack [r_ss fr, r_useresp fr, r_efl fr, r_cs fr, r_eip fr, r_err_code fr, r_int_no fr,
       eax, r_ecx fr, r_edx fr, r_ebx fr, r_esp fr, r_ebp fr, r_esi fr, r_edi fr,
       r_ds fr, r_es fr, r_fs fr, r_gs fr, resume, 0, 0, 0, 0] ks h"

text \<open>The loops that fill the frames of a window: with \<open>old\<close> the frame that was there is freed first, \<open>fill\<close> is what
  is done with a new one.\<close>

fun take_frames :: "bool \<Rightarrow> (nat \<Rightarrow> u32 \<Rightarrow> kheap \<Rightarrow> kheap) \<Rightarrow> nat list \<Rightarrow> u32 list \<Rightarrow> kheap \<Rightarrow> bool \<times> u32 list \<times> kheap" where
  "take_frames old fill [] fs h = (True, fs, h)"
| "take_frames old fill (j # js) fs h =
     (let h = (if old \<and> fs ! j \<noteq> 0 then page_free (fs ! j) h else h);
          (a, h) = page_alloc h;
          fs = fs[j := a]
      in if a = 0 then (False, fs, h) else take_frames old fill js fs (fill j a h))"

definition kthread_create :: "u8 list \<Rightarrow> u32 \<Rightarrow> u32 \<Rightarrow> kern \<Rightarrow> (u32 \<times> kern) option" where
  "kthread_create name fn arg k =
     (let (pid, k) = process_alloc name k
      in if pid = 0 then Some (0, k)
         else case process_get pid k of
                None \<Rightarrow> None
              | Some i \<Rightarrow> do {
                  (stack, h) \<leftarrow> kmalloc 4096 (kh k);
                  let k = k\<lparr>kh := h\<rparr>;
                  if stack = 0 then do { k \<leftarrow> process_free pid k; Some (0, k) }
                  else
                    let (sp, h) = push_stack [arg, fn, 0, kthread_entry k, 0, 0, 0, 0] (stack + 4096) (kh k)
                    in Some (pid, upd i (\<lambda>p. p\<lparr>p_kernel_stack := stack, p_kernel_stack_size := 4096, p_esp := sp, p_state := PROC_STATE_RUNNING\<rparr>)
                         (k\<lparr>kh := h\<rparr>))
                })"

definition zero_regs :: regs where
  "zero_regs = \<lparr>r_gs = 0, r_fs = 0, r_es = 0, r_ds = 0, r_edi = 0, r_esi = 0, r_ebp = 0, r_esp = 0, r_ebx = 0, r_edx = 0, r_ecx = 0,
     r_eax = 0, r_int_no = 0, r_err_code = 0, r_eip = 0, r_cs = 0, r_efl = 0, r_useresp = 0, r_ss = 0\<rparr>"

definition user_spawn :: "u8 list \<Rightarrow> u8 list \<Rightarrow> u8 list list \<Rightarrow> bool \<Rightarrow> kern \<Rightarrow> (u32 \<times> kern) option" where
  "user_spawn name img argv bg k =
     (if \<not> ajos_bin_valid img then Some (0, k)
      else let (pid, k) = process_alloc name k
      in if pid = 0 then Some (0, k)
         else case process_get pid k of
                None \<Rightarrow> Some (0, k)
              | Some i \<Rightarrow> do {
                  (stack, h) \<leftarrow> kmalloc USER_KSTACK_SIZE (kh k);
                  let k = k\<lparr>kh := h\<rparr>;
                  let fail = (\<lambda>k. do { k \<leftarrow> process_free pid k; Some (0, k) });
                  if stack = 0 then fail k
                  else
                    let k = upd i (\<lambda>p. p\<lparr>p_kernel_stack := stack, p_kernel_stack_size := USER_KSTACK_SIZE\<rparr>) k
                    in if pmm_get_free_pages (pm (kh k)) < of_nat USER_WIN_PAGES + 8 then fail k
                       else
                         let (ok, fs, h) = take_frames False (\<lambda>_ _ h. h) [0 ..< USER_WIN_PAGES] (p_frames (procs k ! i)) (kh k);
                             k = upd i (\<lambda>p. p\<lparr>p_frames := fs\<rparr>) (k\<lparr>kh := h\<rparr>)
                         in if \<not> ok then fail k
                            else
                              let (pd, h) = vmm_create_user_pd (kpd k) fs USER_WIN_BASE (kh k);
                                  k = upd i (\<lambda>p. p\<lparr>p_pd := pd\<rparr>) (k\<lparr>kh := h\<rparr>)
                              in if pd = 0 then fail k
                                 else
                                   let (eip, esp, h) = user_load_image fs img argv (kh k);
                                       fr = zero_regs\<lparr>r_ss := USER_DS_SEL, r_useresp := esp, r_efl := 0x202, r_cs := USER_CS_SEL,
                                         r_eip := eip, r_ds := USER_DS_SEL, r_es := USER_DS_SEL, r_fs := USER_DS_SEL, r_gs := USER_DS_SEL,
                                         r_int_no := 0x80\<rparr>;
                                       (sp, h) = kstack_push_user_frame (isr_user_exit k) (stack + USER_KSTACK_SIZE) fr 0 h
                                   in Some (pid, upd i (\<lambda>p. p\<lparr>p_esp := sp, p_is_user_prog := True, p_is_background := bg,
                                        p_state := PROC_STATE_RUNNING\<rparr>) (k\<lparr>kh := h\<rparr>))
                })"

definition sys_fork :: "regs \<Rightarrow> kern \<Rightarrow> (u32 \<times> kern) option" where
  "sys_fork r k =
     (case cur k of
        None \<Rightarrow> Some (FAILED, k)
      | Some c \<Rightarrow>
          let parent = procs k ! c
          in if \<not> p_is_user_prog parent \<or> p_pd parent = 0 then Some (FAILED, k)
          else if pmm_get_free_pages (pm (kh k)) < of_nat USER_WIN_PAGES + 8 then Some (FAILED, k)
          else let (pid, k) = process_alloc (p_name parent) k
          in if pid = 0 then Some (FAILED, k)
             else case process_get pid k of
                    None \<Rightarrow> Some (FAILED, k)
                  | Some i \<Rightarrow> do {
                      (stack, h) \<leftarrow> kmalloc USER_KSTACK_SIZE (kh k);
                      let k = k\<lparr>kh := h\<rparr>;
                      let fail = (\<lambda>k. do { k \<leftarrow> process_free pid k; Some (FAILED, k) });
                      if stack = 0 then fail k
                      else
                        let k = upd i (\<lambda>p. p\<lparr>p_kernel_stack := stack, p_kernel_stack_size := USER_KSTACK_SIZE\<rparr>) k;
                            (ok, fs, h) = take_frames False (\<lambda>j a. mem_copy_heap a (p_frames parent ! j) 4096) [0 ..< USER_WIN_PAGES]
                              (p_frames (procs k ! i)) (kh k);
                            k = upd i (\<lambda>p. p\<lparr>p_frames := fs\<rparr>) (k\<lparr>kh := h\<rparr>)
                        in if \<not> ok then fail k
                           else
                             let (pd, h) = vmm_create_user_pd (kpd k) fs USER_WIN_BASE (kh k);
                                 k = upd i (\<lambda>p. p\<lparr>p_pd := pd\<rparr>) (k\<lparr>kh := h\<rparr>)
                             in if pd = 0 then fail k
                                else
                                  let (sp, h) = kstack_push_user_frame (isr_user_exit k) (stack + USER_KSTACK_SIZE) r 0 (kh k)
                                  in Some (pid, upd i (\<lambda>p. p\<lparr>p_esp := sp, p_is_user_prog := True,
                                       p_is_background := p_is_background parent, p_state := PROC_STATE_RUNNING\<rparr>) (k\<lparr>kh := h\<rparr>))
                    })"

section \<open>Memory of the running program as the kernel reads and writes it\<close>

definition is_user_addr :: "u32 \<Rightarrow> bool" where
  "is_user_addr a \<longleftrightarrow> a \<ge> USER_WIN_BASE \<and> a < USER_WIN_BASE + USER_WIN_SIZE"

text \<open>Access in kernel mode through the directory in use; \<open>None\<close> is a page fault.\<close>

definition vread :: "kern \<Rightarrow> u32 \<Rightarrow> u8 option" where
  "vread k a = map_option (\<lambda>x. ld8 x (kh k)) (mmu (kh k) (cr3 k) False a)"

definition vread32 :: "kern \<Rightarrow> u32 \<Rightarrow> u32 option" where
  "vread32 k a = do { b0 \<leftarrow> vread k a; b1 \<leftarrow> vread k (a + 1); b2 \<leftarrow> vread k (a + 2); b3 \<leftarrow> vread k (a + 3); Some (from_le32 [b0, b1, b2, b3]) }"

definition vwrite :: "u32 \<Rightarrow> u8 \<Rightarrow> kern \<Rightarrow> kern option" where
  "vwrite a v k = map_option (\<lambda>x. k\<lparr>kh := st8 x v (kh k)\<rparr>) (mmu (kh k) (cr3 k) False a)"

fun vwrite_list :: "u32 \<Rightarrow> u8 list \<Rightarrow> kern \<Rightarrow> kern option" where
  "vwrite_list a [] k = Some k"
| "vwrite_list a (v # vs) k = do { k \<leftarrow> vwrite a v k; vwrite_list (a + 1) vs k }"

text \<open>\<open>copy_str_from_user\<close>: the outer option is a page fault, the inner one the result 0. Only the first address is checked.\<close>

fun copy_str_loop :: "kern \<Rightarrow> u32 \<Rightarrow> nat \<Rightarrow> u8 list \<Rightarrow> u8 list option option" where
  "copy_str_loop k a 0 out = Some (Some out)"
| "copy_str_loop k a (Suc n) out =
     (case vread k a of
        None \<Rightarrow> None
      | Some c \<Rightarrow> if c = 0 then Some (Some out)
                 else if c < 0x20 \<or> c > 0x7E then Some None
                 else copy_str_loop k (a + 1) n (out @ [c]))"

definition copy_str_from_user :: "u32 \<Rightarrow> nat \<Rightarrow> kern \<Rightarrow> u8 list option option" where
  "copy_str_from_user uaddr n k = (if \<not> is_user_addr uaddr \<or> n = 0 then Some None else copy_str_loop k uaddr (n - 1) [])"

section \<open>execve\<close>

text \<open>The loop over \<open>argv\<close>; \<open>n\<close> is the number of pointers still looked at.\<close>

fun copy_argv :: "kern \<Rightarrow> u32 \<Rightarrow> nat \<Rightarrow> u8 list list \<Rightarrow> u8 list list option option" where
  "copy_argv k a 0 out = Some (Some out)"
| "copy_argv k a (Suc n) out = do {
     ptr \<leftarrow> vread32 k a;
     if ptr = 0 then Some (Some out)
     else do {
       s \<leftarrow> copy_str_from_user ptr 96 k;
       case s of None \<Rightarrow> Some None | Some s \<Rightarrow> copy_argv k (a + 4) n (out @ [s])
     }
   }"

definition basename :: "u8 list \<Rightarrow> u8 list" where
  "basename path = rev (takeWhile (\<lambda>c. c \<noteq> 47 \<and> c \<noteq> 92) (rev path))"

text \<open>\<open>fat12_read_file_to_ram\<close>: the address of the buffer with the contents, or the result 0.\<close>

type_synonym reader = "u8 list \<Rightarrow> kheap \<Rightarrow> (u32 \<times> u8 list) option \<times> kheap"

definition sys_execve :: "reader \<Rightarrow> regs \<Rightarrow> u32 \<Rightarrow> u32 \<Rightarrow> kern \<Rightarrow> (u32 \<times> regs \<times> kern) option" where
  "sys_execve read_file r path_u argv_u k =
     (case cur k of
        None \<Rightarrow> Some (FAILED, r, k)
      | Some i \<Rightarrow>
          if \<not> p_is_user_prog (procs k ! i) \<or> p_pd (procs k ! i) = 0 then Some (FAILED, r, k)
          else do {
            path \<leftarrow> copy_str_from_user path_u 64 k;
            case path of
              None \<Rightarrow> Some (FAILED, r, k)
            | Some path \<Rightarrow> do {
                argv \<leftarrow> (if argv_u \<noteq> 0 \<and> argv_u \<ge> USER_WIN_BASE \<and> argv_u \<le> USER_WIN_BASE + USER_WIN_SIZE - 68
                        then copy_argv k argv_u 16 [] else Some (Some []));
                case argv of
                  None \<Rightarrow> Some (FAILED, r, k)
                | Some argv \<Rightarrow>
                    (case read_file path (kh k) of
                       (None, h) \<Rightarrow> Some (FAILED, r, k\<lparr>kh := h\<rparr>)
                     | (Some (buf, img), h) \<Rightarrow>
                         if \<not> ajos_bin_valid img \<or> pmm_get_free_pages (pm h) < of_nat USER_WIN_PAGES + 8
                         then do { h \<leftarrow> kfree buf h; Some (FAILED, r, k\<lparr>kh := h\<rparr>) }
                         else
                           let (ok, fs, h) = take_frames True (\<lambda>_ _ h. h) [0 ..< USER_WIN_PAGES] (p_frames (procs k ! i)) h;
                               k = upd i (\<lambda>p. p\<lparr>p_frames := fs\<rparr>) (k\<lparr>kh := h\<rparr>);
                               pd = p_pd (procs k ! i)
                           in if \<not> ok then do {
                                h \<leftarrow> kfree buf (vmm_remap_window pd fs USER_WIN_BASE (kh k));
                                Some (FAILED, r, k\<lparr>kh := h\<rparr>) }
                              else do {
                                let (eip, esp, h) = user_load_image fs img argv (kh k);
                                h \<leftarrow> kfree buf h;
                                let h = vmm_remap_window pd fs USER_WIN_BASE h;
                                let base = basename path;
                                let k = upd i (\<lambda>p. if base \<noteq> [] then p\<lparr>p_name := name_field base\<rparr> else p) (k\<lparr>kh := h\<rparr>);
                                Some (0, r\<lparr>r_eip := eip, r_useresp := esp, r_efl := 0x202, r_cs := USER_CS_SEL, r_ss := USER_DS_SEL,
                                  r_ds := USER_DS_SEL, r_es := USER_DS_SEL, r_fs := USER_DS_SEL, r_gs := USER_DS_SEL,
                                  r_eax := 0, r_ecx := 0, r_edx := 0, r_ebx := 0\<rparr>, k)
                              })
              }
          })"

section \<open>waitpid\<close>

text \<open>One pass over the table: the inner \<open>None\<close> means that a child lives and the caller goes on waiting.\<close>

definition sys_waitpid :: "u32 \<Rightarrow> u32 \<Rightarrow> kern \<Rightarrow> (u32 option \<times> kern) option" where
  "sys_waitpid pid status_u k =
     (case cur k of
        None \<Rightarrow> Some (Some FAILED, k)
      | Some i \<Rightarrow>
          let parent = procs k ! i;
              child = (\<lambda>j. let c = procs k ! j in p_in_use c \<and> j \<noteq> i \<and> p_ppid c = p_pid parent \<and> (pid = 0 \<or> p_pid c = pid));
              all = filter child [0 ..< MAX_PROCESSES]
          in if \<not> p_is_user_prog parent then Some (Some FAILED, k)
             else case filter (\<lambda>j. p_state (procs k ! j) = PROC_STATE_ZOMBIE) all of
                    [] \<Rightarrow> if all = [] then Some (Some FAILED, k) else Some (None, k)
                  | j # _ \<Rightarrow>
                      let reaped = p_pid (procs k ! j); code = p_exit_code (procs k ! j)
                      in do {
                        k \<leftarrow> (if status_u \<noteq> 0 \<and> is_user_addr status_u then vwrite_list status_u (le32 code) k else Some k);
                        k \<leftarrow> process_free reaped k;
                        Some (Some reaped, k)
                      })"

section \<open>The scheduler\<close>

definition runnable :: "process \<Rightarrow> bool" where
  "runnable p \<longleftrightarrow> p_in_use p \<and> p_state p = PROC_STATE_RUNNING \<and> p_esp p \<noteq> 0 \<and> p_esp p \<ge> 0x1000 \<and> p_esp p < 0x1E000000"

definition next_task :: "kern \<Rightarrow> nat \<Rightarrow> nat option" where
  "next_task k c = find (\<lambda>j. runnable (procs k ! j)) (map (\<lambda>i. (c + i) mod MAX_PROCESSES) [1 ..< MAX_PROCESSES + 1])"

text \<open>\<open>sp\<close> is the stack pointer that \<open>switch_to\<close> stores for the task that stops.\<close>

definition schedule :: "u32 \<Rightarrow> kern \<Rightarrow> kern" where
  "schedule sp k =
     (case cur k of
        None \<Rightarrow> k
      | Some c \<Rightarrow>
          (case next_task k c of
             None \<Rightarrow> k
           | Some n \<Rightarrow>
               if n = c then k
               else
                 let p = procs k ! n;
                     k = k\<lparr>cur := Some n, current_user_pid := (if p_is_user_prog p then p_pid p else 0)\<rparr>;
                     k = vmm_load_pd (if p_pd p \<noteq> 0 then p_pd p else kpd k) k;
                     k = (if p_kernel_stack p \<noteq> 0 then k\<lparr>esp0 := p_kernel_stack p + p_kernel_stack_size p\<rparr> else k)
                 in upd c (\<lambda>p. p\<lparr>p_esp := sp\<rparr>) k))"

text \<open>The part of \<open>timer_handler\<close> that concerns processes: waking sleepers and, when ring 3 was interrupted, preemption.\<close>

definition wake :: "u32 \<Rightarrow> process \<Rightarrow> process" where
  "wake now p = (if p_in_use p \<and> p_state p = PROC_STATE_SLEEPING \<and> sint (now - p_wake_tick p) \<ge> 0 then p\<lparr>p_state := PROC_STATE_RUNNING\<rparr> else p)"

definition timer_tick :: "bool \<Rightarrow> u32 \<Rightarrow> kern \<Rightarrow> kern" where
  "timer_tick ring3 sp k =
     (let k = k\<lparr>pit_ticks := pit_ticks k + 1\<rparr>;
          k = k\<lparr>procs := map (wake (pit_ticks k)) (procs k)\<rparr>
      in if \<not> ring3 then k
         else
           let k = (case cur k of None \<Rightarrow> k | Some c \<Rightarrow> upd c (\<lambda>p. p\<lparr>p_cpu_ticks := p_cpu_ticks p + 1\<rparr>) k);
               k = k\<lparr>scheduler_ticks := scheduler_ticks k + 1\<rparr>
           in if scheduler_ticks k mod 10 = 0 then schedule sp k else k)"

text \<open>\<open>sys_sleep\<close> of a program, before it waits.\<close>

definition sys_sleep :: "u32 \<Rightarrow> kern \<Rightarrow> kern" where
  "sys_sleep ms k =
     (case cur k of
        None \<Rightarrow> k
      | Some c \<Rightarrow>
          if p_is_user_prog (procs k ! c) \<and> p_in_use (procs k ! c) then
            let t = (ms * PIT_HZ + 999) div 1000; t = (if t = 0 then 1 else t)
            in upd c (\<lambda>p. p\<lparr>p_state := PROC_STATE_SLEEPING, p_wake_tick := pit_ticks k + t\<rparr>) k
          else k)"

section \<open>Bytes\<close>

lemma word_base: "unat (a AND NOT 3) = 4 * (unat a div 4)" "unat (a AND 3) = unat a mod 4" for a :: u32
proof -
  have "a AND 3 = take_bit 2 a" by (simp add: take_bit_eq_mask mask_eq_exp_minus_1)
  then show "unat (a AND 3) = unat a mod 4" by (simp only: unsigned_take_bit_eq) (simp add: take_bit_eq_mod)
  have "a AND NOT 3 = a AND NOT (mask 2)" by (simp add: mask_eq_exp_minus_1)
  also have "\<dots> = push_bit 2 (drop_bit 2 a)"
  proof (rule bit_word_eqI)
    fix n assume "n < LENGTH(32)"
    moreover have "2 + (n - 2) = n" if "\<not> n < 2" using that by simp
    ultimately show "bit (a AND NOT (mask 2)) n \<longleftrightarrow> bit (push_bit 2 (drop_bit 2 a)) n"
      by (cases "n < 2") (simp_all only: bit_simps, simp_all)
  qed
  finally have "unat (a AND NOT 3) = take_bit 32 (push_bit 2 (drop_bit 2 (unat a)))"
    using take_bit_nat_eq_self [OF unsigned_less [of a, where 'a = nat]] by (simp add: unsigned_push_bit_eq unsigned_drop_bit_eq)
  also have "\<dots> = 4 * (unat a div 4)"
  proof -
    have "4 * (unat a div 4) < 2 ^ 32" using unsigned_less [of a, where 'a = nat] by simp
    then show ?thesis by (simp add: take_bit_eq_mod push_bit_eq_mult drop_bit_eq_div mult.commute)
  qed
  finally show "unat (a AND NOT 3) = 4 * (unat a div 4)" .
qed

lemma page_word_base [simp]: "page_no (a AND NOT 3) = page_no a"
  unfolding page_no_def word_base by (simp add: div_mult2_eq [of _ 4 1024, simplified])

lemmas page_word_base' = page_word_base [simplified]

declare page_word_base' [simp]

text \<open>A byte in a word.\<close>

lemma byte_in_word:
  fixes w :: u32 and v :: u8
  assumes "s \<in> {0, 8, 16, 24}" "t \<in> {0, 8, 16, 24}"
  shows "ucast (drop_bit s ((w AND NOT (push_bit t 0xFF)) OR push_bit t (ucast v))) = (if s = t then v else ucast (drop_bit s w) :: u8)"
proof (rule bit_word_eqI)
  fix n assume "n < LENGTH(8)"
  then have n: "n < 8" by simp
  have ff: "(0xFF :: u32) = mask 8" by (simp add: mask_eq_exp_minus_1)
  have sn: "s + n < 32" using n assms(1) by auto
  have far: "s = t \<or> s + n < t \<or> t + 8 \<le> s + n" using n assms by auto
  have "bit (ucast (drop_bit s ((w AND NOT (push_bit t 0xFF)) OR push_bit t (ucast v))) :: u8) n \<longleftrightarrow>
    bit w (s + n) \<and> \<not> (t \<le> s + n \<and> s + n - t < 8) \<or> t \<le> s + n \<and> bit v (s + n - t)"
    unfolding ff using n sn by (auto simp: bit_simps)
  also have "\<dots> \<longleftrightarrow> bit (if s = t then v else ucast (drop_bit s w) :: u8) n"
    using far n by (auto simp: bit_simps dest: bit_imp_le_length)
  finally show "bit (ucast (drop_bit s ((w AND NOT (push_bit t 0xFF)) OR push_bit t (ucast v))) :: u8) n \<longleftrightarrow>
    bit (if s = t then v else ucast (drop_bit s w) :: u8) n" .
qed

lemma ld8_st8: "ld8 a (st8 b v h) = (if a = b then v else ld8 a h)"
proof (cases "a AND NOT 3 = b AND NOT 3")
  case True
  have sh: "8 * unat (x AND 3) \<in> {0, 8, 16, 24}" for x :: u32
  proof -
    have "unat x mod 4 < 4" by simp
    then have "unat x mod 4 = 0 \<or> unat x mod 4 = 1 \<or> unat x mod 4 = 2 \<or> unat x mod 4 = 3" by linarith
    then show ?thesis unfolding word_base by auto
  qed
  have "unat a div 4 = unat b div 4" using arg_cong [OF True, of unat] unfolding word_base by simp
  then have "unat a mod 4 = unat b mod 4 \<longleftrightarrow> a = b" by (metis div_mult_mod_eq word_unat_eq_iff)
  then have eq: "8 * unat (a AND 3) = 8 * unat (b AND 3) \<longleftrightarrow> a = b" unfolding word_base by simp
  have "ld8 a (st8 b v h) = ucast (drop_bit (8 * unat (a AND 3))
      ((rd (b AND NOT 3) h AND NOT (push_bit (8 * unat (b AND 3)) 0xFF)) OR push_bit (8 * unat (b AND 3)) (ucast v)))"
    unfolding ld8_def st8_def Let_def rd_wr True by (simp only: simp_thms if_True)
  also have "\<dots> = (if a = b then v else ld8 a h)" unfolding byte_in_word [OF sh [of a] sh [of b]] eq ld8_def True ..
  finally show ?thesis .
next
  case False
  then show ?thesis by (auto simp: ld8_def st8_def Let_def rd_wr)
qed

lemma st8_wr: "\<exists>x. st8 a v h = wr (a AND NOT 3) x h" by (auto simp: st8_def Let_def)

lemma holds_st8: "holds h D Q \<Longrightarrow> page_no a \<in># held_pages D \<Longrightarrow> holds (st8 a v h) D Q"
  using st8_wr [of a v h] holds_wr [of h D Q "a AND NOT 3"] by auto

lemma keeps_st8: "page_no a \<notin># held_pages D \<Longrightarrow> keeps D h (st8 a v h)"
  using st8_wr [of a v h] keeps_wr [of "a AND NOT 3" D h] by auto

lemma keeps_ld8: "keeps D h h' \<Longrightarrow> page_no a \<in># held_pages D \<Longrightarrow> ld8 a h' = ld8 a h"
  by (simp add: ld8_def keepsD)

text \<open>Writing bytes inside a page.\<close>

lemma page_byte:
  assumes "slab_page f" "i < 4096" shows "unat (f + of_nat i) = unat f + i" "page_no (f + of_nat i) = page_no f"
  using in_page [OF assms] .

lemma store_bytes_ok:
  assumes "slab_page f" "po + length bs \<le> 4096"
  shows "holds h D Q \<Longrightarrow> page_no f \<in># held_pages D \<Longrightarrow> holds (store_bytes (f + of_nat po) bs h) D Q"
    "page_no f \<notin># held_pages E \<Longrightarrow> keeps E h (store_bytes (f + of_nat po) bs h)"
    "i < 4096 \<Longrightarrow> ld8 (f + of_nat i) (store_bytes (f + of_nat po) bs h) =
      (if po \<le> i \<and> i < po + length bs then bs ! (i - po) else ld8 (f + of_nat i) h)"
proof -
  define st where "st j = st8 (f + of_nat (po + j)) (bs ! j)" for j
  have st: "store_bytes (f + of_nat po) bs h = fold st [0 ..< length bs] h"
    unfolding store_bytes_def st_def by (simp add: add.assoc)
  have pg: "page_no (f + of_nat (po + j)) = page_no f" if "j < length bs" for j using page_byte(2) [OF assms(1), of "po + j"] that assms(2) by simp
  have H: "holds (fold st ks h) D Q" if "set ks \<subseteq> {..< length bs}" "holds h D Q" "page_no f \<in># held_pages D" for ks h
    using that
  proof (induction ks arbitrary: h)
    case (Cons j ks)
    have "holds (st j h) D Q" unfolding st_def by (rule holds_st8) (use Cons.prems pg [of j] in simp_all)
    then show ?case using Cons.IH [of "st j h"] Cons.prems by simp
  qed simp
  show "holds (store_bytes (f + of_nat po) bs h) D Q" if "holds h D Q" "page_no f \<in># held_pages D"
    unfolding st by (rule H [OF _ that]) auto
  have K: "keeps E h (fold st ks h)" if "set ks \<subseteq> {..< length bs}" "page_no f \<notin># held_pages E" for ks h
    using that
  proof (induction ks arbitrary: h)
    case (Cons j ks)
    have "keeps E h (st j h)" unfolding st_def by (rule keeps_st8) (use Cons.prems pg [of j] in simp_all)
    then show ?case using Cons.IH [of "st j h"] Cons.prems keeps_trans by simp
  qed simp
  show "keeps E h (store_bytes (f + of_nat po) bs h)" if "page_no f \<notin># held_pages E"
    unfolding st by (rule K [OF _ that]) auto
  assume i: "i < 4096"
  have inj: "f + of_nat i = f + of_nat (po + j) \<longleftrightarrow> i = po + j" if "j < length bs" for j
    using page_byte(1) [OF assms(1) i] page_byte(1) [OF assms(1), of "po + j"] that assms(2) by (metis add_left_cancel add_less_cancel_left order_less_le_trans)
  have L: "ld8 (f + of_nat i) (fold st ks h) = (if po \<le> i \<and> i - po \<in> set ks then bs ! (i - po) else ld8 (f + of_nat i) h)"
    if "set ks \<subseteq> {..< length bs}" for ks h
    using that
  proof (induction ks arbitrary: h)
    case (Cons j ks)
    have "ld8 (f + of_nat i) (st j h) = (if i = po + j then bs ! j else ld8 (f + of_nat i) h)"
      unfolding st_def ld8_st8 using inj [of j] Cons.prems by simp
    then show ?case using Cons.IH [of "st j h"] Cons.prems by auto
  qed simp
  have sub: "set [0 ..< length bs] \<subseteq> {..< length bs}" by auto
  have "(po \<le> i \<and> i - po \<in> set [0 ..< length bs]) = (po \<le> i \<and> i < po + length bs)" by auto
  then show "ld8 (f + of_nat i) (store_bytes (f + of_nat po) bs h) =
      (if po \<le> i \<and> i < po + length bs then bs ! (i - po) else ld8 (f + of_nat i) h)"
    unfolding st L [OF sub] by (simp only:)
qed

section \<open>Frames of a window\<close>

definition frame_blocks :: "u32 list \<Rightarrow> (u32 \<times> int) multiset" where
  "frame_blocks fs = image_mset (\<lambda>f. (f, 0)) (filter_mset (\<lambda>f. f \<noteq> 0) (mset fs))"

lemma frame_blocks_simps [simp]:
  "frame_blocks [] = {#}" "frame_blocks (f # fs) = (if f = 0 then frame_blocks fs else add_mset (f, 0) (frame_blocks fs))"
  "frame_blocks (replicate n 0) = {#}"
proof -
  show "frame_blocks (replicate n 0) = {#}" by (induction n) (simp_all add: frame_blocks_def)
qed (simp_all add: frame_blocks_def)

lemma in_frame_blocks: "f \<in> set fs \<Longrightarrow> f \<noteq> 0 \<Longrightarrow> (f, 0) \<in># frame_blocks fs"
  by (auto simp: frame_blocks_def)

lemma frame_blocks_take:
  assumes "j < length fs"
  shows "frame_blocks fs = frame_blocks (fs[j := 0]) + (if fs ! j = 0 then {#} else {#(fs ! j, 0)#})"
    "frame_blocks (fs[j := a]) = frame_blocks (fs[j := 0]) + (if a = 0 then {#} else {#(a, 0)#})"
proof -
  define R where "R = mset fs - {#fs ! j#}"
  have m: "mset (fs[j := b]) = add_mset b R" for b unfolding R_def using assms by (rule mset_update)
  have "mset fs = add_mset (fs ! j) R" unfolding R_def using assms by (simp add: insert_DiffM)
  then show "frame_blocks fs = frame_blocks (fs[j := 0]) + (if fs ! j = 0 then {#} else {#(fs ! j, 0)#})"
    unfolding frame_blocks_def m by simp
  show "frame_blocks (fs[j := a]) = frame_blocks (fs[j := 0]) + (if a = 0 then {#} else {#(a, 0)#})"
    unfolding frame_blocks_def m by simp
qed

text \<open>Writing to a frame that is held touches nothing else that is held.\<close>

lemma frame_page:
  assumes "holds h (frame_blocks fs + D) Q" "f \<in> set fs" "f \<noteq> 0"
  shows "slab_page f" "page_no f \<in># held_pages (frame_blocks fs + D)" "page_no f \<notin># held_pages D"
proof -
  have b: "(f, 0) \<in># frame_blocks fs" by (rule in_frame_blocks [OF assms(2,3)])
  then show "slab_page f" using holds_block(1) [OF assms(1), of f 0] by simp
  have p: "page_no f \<in># held_pages (frame_blocks fs)" by (rule held_pagesI [OF b block_pages_first])
  then show "page_no f \<in># held_pages (frame_blocks fs + D)" by (simp add: held_pages_union)
  show "page_no f \<notin># held_pages D" using holds_once [OF assms(1) p] .
qed

lemma win_write_at_ok:
  "holds h (frame_blocks fs + D) Q \<Longrightarrow> off + length bs \<le> 4096 * length fs \<Longrightarrow>
    holds (snd (win_write_at fs off bs h)) (frame_blocks fs + D) Q \<and> keeps D h (snd (win_write_at fs off bs h))"
proof (induction fs off bs h rule: win_write_at.induct)
  case (1 fs off bs h)
  let ?pg = "off div 4096" and ?po = "off mod 4096" and ?n = "min (4096 - off mod 4096) (length bs)"
  show ?case
  proof (cases "bs = [] \<or> fs ! ?pg = 0")
    case True
    then show ?thesis using 1(2) by (subst (1 2) win_write_at.simps) (auto simp: Let_def)
  next
    case False
    then have "0 < length bs" by simp
    then have "off < length fs * 4096" using 1(3) by linarith
    then have "?pg < length fs" by (rule less_mult_imp_div_less)
    then have f: "fs ! ?pg \<in> set fs" "fs ! ?pg \<noteq> 0" using False by auto
    note F = frame_page [OF 1(2) f]
    have "?po < 4096" by simp
    then have le: "?po + length (take ?n bs) \<le> 4096" by simp
    let ?h = "store_bytes (fs ! ?pg + of_nat ?po) (take ?n bs) h"
    note S = store_bytes_ok [OF F(1) le]
    have "holds (snd (win_write_at fs (off + ?n) (drop ?n bs) ?h)) (frame_blocks fs + D) Q \<and> keeps D ?h (snd (win_write_at fs (off + ?n) (drop ?n bs) ?h))"
    proof (rule 1(1) [OF _ refl refl refl])
      show "holds ?h (frame_blocks fs + D) Q" by (rule S(1) [OF 1(2) F(2)])
      show "off + ?n + length (drop ?n bs) \<le> 4096 * length fs" using 1(3) by simp
    qed (use False in blast)+
    moreover have "keeps D h ?h" by (rule S(2) [OF F(3)])
    moreover have eq: "win_write_at fs off bs h = win_write_at fs (off + ?n) (drop ?n bs) ?h"
      using False by (subst win_write_at.simps) (simp add: Let_def)
    ultimately show ?thesis unfolding eq using keeps_trans [of D h ?h] by blast
  qed
qed

lemma win_write_ok:
  assumes "holds h (frame_blocks fs + D) Q" "length fs = 64" "unat vaddr + length bs < 2 ^ 32"
  shows "holds (snd (win_write fs vaddr bs h)) (frame_blocks fs + D) Q \<and> keeps D h (snd (win_write fs vaddr bs h))"
proof (cases "vaddr < USER_WIN_BASE \<or> vaddr + of_nat (length bs) > USER_WIN_BASE + USER_WIN_SIZE \<or> bs = []")
  case True
  then show ?thesis using assms(1) by (simp add: win_write_def)
next
  case False
  have "unat (vaddr + of_nat (length bs)) = unat vaddr + length bs" using assms(3) by (simp add: unat_word_ariths unat_of_nat)
  then have "unat vaddr + length bs \<le> 0x340000" "0x300000 \<le> unat vaddr"
    using False by (simp_all add: not_le not_less user_consts word_le_nat_alt)
  moreover from this have "unat (vaddr - USER_WIN_BASE) = unat vaddr - 0x300000"
    by (simp add: user_consts unat_sub word_le_nat_alt)
  ultimately have "unat (vaddr - USER_WIN_BASE) + length bs \<le> 4096 * length fs" using assms(2) by simp
  from win_write_at_ok [OF assms(1) this] show ?thesis unfolding win_write_def if_not_P [OF False] .
qed

lemma arg_bytes_length: "length (arg_bytes s) \<le> 257" by (simp add: arg_bytes_def)

lemma push_args_ok:
  "holds h (frame_blocks fs + D) Q \<Longrightarrow> length fs = 64 \<Longrightarrow> 257 * length ss \<le> unat sp \<Longrightarrow> unat sp \<le> 0x330000 \<Longrightarrow>
    push_args fs ss sp argp h = (sp', argp', h') \<Longrightarrow>
    holds h' (frame_blocks fs + D) Q \<and> keeps D h h' \<and> unat sp - 257 * length ss \<le> unat sp' \<and> unat sp' \<le> unat sp \<and>
    length argp' = length argp + length ss"
proof (induction ss arbitrary: sp argp h)
  case (Cons s ss)
  let ?b = "arg_bytes s"
  let ?sp = "sp - of_nat (length ?b)"
  have l: "length ?b \<le> 257" by (rule arg_bytes_length)
  then have u: "unat ?sp = unat sp - length ?b"
    using Cons.prems(3) by (subst unat_sub) (simp_all add: unat_of_nat word_le_nat_alt)
  have "unat ?sp + length ?b < 2 ^ 32" using u l Cons.prems(4) by simp
  note W = win_write_ok [OF Cons.prems(1,2) this]
  let ?h = "snd (win_write fs ?sp ?b h)"
  have "holds h' (frame_blocks fs + D) Q \<and> keeps D ?h h' \<and> unat ?sp - 257 * length ss \<le> unat sp' \<and> unat sp' \<le> unat ?sp \<and>
    length argp' = length (argp @ [?sp]) + length ss"
    by (rule Cons.IH) (use W Cons.prems u l in \<open>simp_all add: Let_def\<close>)
  then show ?case using W u l keeps_trans [of D h ?h h'] by (elim conjE) (intro conjI, simp_all)
qed simp

lemma push_words_ok:
  "holds h (frame_blocks fs + D) Q \<Longrightarrow> length fs = 64 \<Longrightarrow> 4 * length ws \<le> unat sp \<Longrightarrow> unat sp \<le> 0x330000 \<Longrightarrow>
    push_words fs ws sp h = (sp', h') \<Longrightarrow> holds h' (frame_blocks fs + D) Q \<and> keeps D h h'"
proof (induction ws arbitrary: sp h)
  case Nil
  then show ?case by (simp add: push_words_def)
next
  case (Cons w ws)
  have u: "unat (sp - 4) = unat sp - 4" using Cons.prems(3) by (subst unat_sub) (simp_all add: word_le_nat_alt)
  have "unat (sp - 4) + length (le32 w) < 2 ^ 32" using u Cons.prems(4) by (simp add: le32_def)
  note W = win_write_ok [OF Cons.prems(1,2) this]
  let ?h = "snd (win_write fs (sp - 4) (le32 w) h)"
  have "holds h' (frame_blocks fs + D) Q \<and> keeps D ?h h'"
    by (rule Cons.IH [of ?h "sp - 4"]) (use W Cons.prems u in \<open>simp_all add: push_words_def\<close>)
  then show ?case using W keeps_trans by blast
qed

lemma clear_page_ok:
  assumes "slab_page f"
  shows "holds h D Q \<Longrightarrow> (f, 0) \<in># D \<Longrightarrow> holds (clear_page f h) D Q" "page_no f \<notin># held_pages E \<Longrightarrow> keeps E h (clear_page f h)"
proof -
  have all: "set [0 ..< 1024] \<subseteq> {..< 1024 :: nat}" by auto
  show "holds h D Q \<Longrightarrow> (f, 0) \<in># D \<Longrightarrow> holds (clear_page f h) D Q" unfolding clear_page_def by (rule holds_table [OF _ _ all])
  show "page_no f \<notin># held_pages E \<Longrightarrow> keeps E h (clear_page f h)" unfolding clear_page_def by (rule keeps_table [OF assms all])
qed

lemma clear_pages_ok:
  "holds h (frame_blocks fs + D) Q \<Longrightarrow> set gs \<subseteq> set fs \<Longrightarrow> 0 \<notin> set gs \<Longrightarrow>
    holds (fold clear_page gs h) (frame_blocks fs + D) Q \<and> keeps D h (fold clear_page gs h)"
proof (induction gs arbitrary: h)
  case (Cons g gs)
  have g: "g \<in> set fs" "g \<noteq> 0" using Cons.prems by auto
  note F = frame_page [OF Cons.prems(1) g]
  have "holds (clear_page g h) (frame_blocks fs + D) Q" "keeps D h (clear_page g h)"
    using clear_page_ok(1) [OF F(1) Cons.prems(1)] clear_page_ok(2) [OF F(1,3)] in_frame_blocks [OF g] by auto
  then show ?case using Cons.IH [of "clear_page g h"] Cons.prems keeps_trans by auto
qed simp

lemma load_pages_ok:
  assumes "\<And>g n. length (img g n :: u8 list) \<le> 4096"
  shows "holds h (frame_blocks fs + D) Q \<Longrightarrow> set ps \<subseteq> {..< length fs} \<Longrightarrow> 0 \<notin> set fs \<Longrightarrow>
    holds (fold (\<lambda>pg. store_bytes (fs ! pg) (img pg n)) ps h) (frame_blocks fs + D) Q \<and>
    keeps D h (fold (\<lambda>pg. store_bytes (fs ! pg) (img pg n)) ps h)"
proof (induction ps arbitrary: h)
  case (Cons p ps)
  have g: "fs ! p \<in> set fs" "fs ! p \<noteq> 0" using Cons.prems by (auto simp: in_set_conv_nth)
  note F = frame_page [OF Cons.prems(1) g]
  have "0 + length (img p n) \<le> 4096" using assms by simp
  note S = store_bytes_ok [OF F(1) this, simplified]
  have "holds (store_bytes (fs ! p) (img p n) h) (frame_blocks fs + D) Q" "keeps D h (store_bytes (fs ! p) (img p n) h)"
    using S(1) [OF Cons.prems(1)] F(2) S(2) [OF F(3)] by simp_all
  then show ?case using Cons.IH [of "store_bytes (fs ! p) (img p n) h"] Cons.prems keeps_trans by auto
qed simp

lemma user_load_image_ok:
  assumes h: "holds h (frame_blocks fs + D) Q" and fs: "length fs = 64" "0 \<notin> set fs" and v: "ajos_bin_valid img"
    and r: "user_load_image fs img argv h = (eip, esp, h')"
  shows "holds h' (frame_blocks fs + D) Q" "keeps D h h'"
proof -
  let ?n = "(length img + 4095) div 4096"
  define h1 where "h1 = fold clear_page fs h"
  define h2 where "h2 = fold (\<lambda>pg. store_bytes (fs ! pg) (take 4096 (drop (4096 * pg) img))) [0 ..< ?n] h1"
  obtain sp argp h3 where a: "push_args fs (take 16 argv) USER_STACK_TOP [] h2 = (sp, argp, h3)" by (metis surj_pair)
  obtain sp' h4 where w: "push_words fs ([0] @ rev argp @ [of_nat (length argp)]) (sp AND NOT 3) h3 = (sp', h4)" by fastforce
  have h': "h' = h4" using r a w by (simp add: user_load_image_def h1_def h2_def Let_def)
  have len: "length img \<le> 0x2F000" using v by (simp add: ajos_bin_valid_def user_consts)
  have 1: "holds h1 (frame_blocks fs + D) Q \<and> keeps D h h1" unfolding h1_def by (rule clear_pages_ok [OF h]) (use fs in auto)
  have sub: "set [0 ..< ?n] \<subseteq> {..< length fs}" using len fs(1) by auto
  have 2: "holds h2 (frame_blocks fs + D) Q \<and> keeps D h1 h2"
    unfolding h2_def using load_pages_ok [of "\<lambda>pg n. take 4096 (drop (4096 * pg) img)" h1 fs D Q "[0 ..< ?n]" "0 :: nat"] 1 sub fs(2) by simp
  have 3: "holds h3 (frame_blocks fs + D) Q \<and> keeps D h2 h3 \<and> unat USER_STACK_TOP - 257 * length (take 16 argv) \<le> unat sp \<and>
    unat sp \<le> unat USER_STACK_TOP \<and> length argp = length ([] :: u32 list) + length (take 16 argv)"
    by (rule push_args_ok [OF _ fs(1) _ _ a]) (use 2 in \<open>auto simp: user_consts\<close>)
  have "unat (sp AND NOT 3) \<le> 0x330000" "4 * 18 \<le> unat (sp AND NOT 3)"
    using 3 unfolding word_base by (auto simp: user_consts)
  moreover have "length ([0] @ rev argp @ [of_nat (length argp)]) \<le> 18" using 3 by simp
  ultimately have 4: "holds h4 (frame_blocks fs + D) Q \<and> keeps D h3 h4"
    using push_words_ok [OF _ fs(1) _ _ w] 3 by fastforce
  show "holds h' (frame_blocks fs + D) Q" "keeps D h h'"
    using 1 2 3 4 keeps_trans unfolding h' by blast+
qed

text \<open>Pushing words on a kernel stack of \<open>2 ^ n\<close> pages: all stay above its first word.\<close>

lemma push_stack_ok:
  "holds h (add_mset (st, n) D) Q \<Longrightarrow> 4 * length ws < unat ks - unat st \<Longrightarrow> unat ks \<le> unat st + 4096 * 2 ^ nat n \<Longrightarrow>
    push_stack ws ks h = (sp, h') \<Longrightarrow>
    holds h' (add_mset (st, n) D) Q \<and> keeps D h h' \<and> rd st h' = rd st h \<and> unat sp = unat ks - 4 * length ws"
proof (induction ws arbitrary: ks h)
  case Nil
  then show ?case by (simp add: push_stack_def)
next
  case (Cons w ws)
  have u: "unat (ks - 4) = unat ks - 4" using Cons.prems(2) by (subst unat_sub) (simp_all add: word_le_nat_alt)
  have page: "slab_page st" using holds_block(1) [OF Cons.prems(1), of st n] by simp
  have "4 * length ws + 4 < unat ks - unat st" using Cons.prems(2) by simp
  then have "unat st \<le> unat ks - 4 \<and> unat ks - 4 < unat st + 4096 * 2 ^ nat n" using Cons.prems(3) by auto
  then have "inside (ks - 4) (st, 4096 * 2 ^ nat n)" using u by (simp add: inside_def)
  note b = inside_block [OF page this]
  have p: "page_no (ks - 4) \<in># held_pages (add_mset (st, n) D)" using b by simp
  have out: "page_no (ks - 4) \<notin># held_pages D"
    using holds_once [of h "{#(st, n)#}" D Q "page_no (ks - 4)"] Cons.prems(1) b by simp
  let ?h = "wr (ks - 4) w h"
  have ne: "st \<noteq> ks - 4" using u Cons.prems(2) by auto
  have "holds h' (add_mset (st, n) D) Q \<and> keeps D ?h h' \<and> rd st h' = rd st ?h \<and> unat sp = unat (ks - 4) - 4 * length ws"
    by (rule Cons.IH [OF holds_wr [OF Cons.prems(1) p]]) (use Cons.prems u in \<open>simp_all add: push_stack_def\<close>)
  then show ?case using keeps_wr [OF out, of h w] keeps_trans ne u by (auto simp: rd_wr)
qed

text \<open>Copying between pages.\<close>

lemma mem_copy_heap_ok:
  assumes "slab_page d" "n \<le> 4096"
  shows "holds h D Q \<Longrightarrow> page_no d \<in># held_pages D \<Longrightarrow> holds (mem_copy_heap d s n h) D Q"
    "page_no d \<notin># held_pages E \<Longrightarrow> keeps E h (mem_copy_heap d s n h)"
    "(\<And>i. i < n \<Longrightarrow> page_no (s + of_nat i) \<noteq> page_no d) \<Longrightarrow> i < n \<Longrightarrow>
      ld8 (d + of_nat i) (mem_copy_heap d s n h) = ld8 (s + of_nat i) h"
proof -
  define st where "st = (\<lambda>j h. st8 (d + of_nat j) (ld8 (s + of_nat j) h) h)"
  have st: "mem_copy_heap d s n h = fold st [0 ..< n] h" by (simp add: mem_copy_heap_def st_def)
  have pg: "page_no (d + of_nat j) = page_no d" "unat (d + of_nat j) = unat d + j" if "j < n" for j
    using page_byte [OF assms(1), of j] that assms(2) by simp_all
  have H: "holds (fold st ks h) D Q" if "set ks \<subseteq> {..< n}" "holds h D Q" "page_no d \<in># held_pages D" for ks h
    using that
  proof (induction ks arbitrary: h)
    case (Cons j ks)
    have "holds (st j h) D Q" unfolding st_def by (rule holds_st8) (use Cons.prems pg(1) [of j] in simp_all)
    then show ?case using Cons.IH [of "st j h"] Cons.prems by simp
  qed simp
  have all: "set [0 ..< n] \<subseteq> {..< n}" by auto
  show "holds (mem_copy_heap d s n h) D Q" if "holds h D Q" "page_no d \<in># held_pages D"
    unfolding st by (rule H [OF all that])
  have K: "keeps E h (fold st ks h)" if "set ks \<subseteq> {..< n}" "page_no d \<notin># held_pages E" for ks h
    using that
  proof (induction ks arbitrary: h)
    case (Cons j ks)
    have "keeps E h (st j h)" unfolding st_def by (rule keeps_st8) (use Cons.prems pg(1) [of j] in simp_all)
    then show ?case using Cons.IH [of "st j h"] Cons.prems keeps_trans by simp
  qed simp
  show "keeps E h (mem_copy_heap d s n h)" if "page_no d \<notin># held_pages E" unfolding st by (rule K [OF all that])
  assume apart: "\<And>i. i < n \<Longrightarrow> page_no (s + of_nat i) \<noteq> page_no d" and i: "i < n"
  have src: "ld8 (s + of_nat i) (st j h) = ld8 (s + of_nat i) h" if "j < n" "i < n" for i j h
    using apart [OF that(2)] pg(1) [OF that(1)] by (auto simp: st_def ld8_st8)
  have dst: "ld8 (d + of_nat i) (st j h) = (if i = j then ld8 (s + of_nat j) h else ld8 (d + of_nat i) h)" if "j < n" for j h
    using pg(2) [OF that] pg(2) [OF i] by (auto simp: st_def ld8_st8)
  have "ld8 (d + of_nat i) (fold st ks h) = (if i \<in> set ks then ld8 (s + of_nat i) h else ld8 (d + of_nat i) h)"
    if "set ks \<subseteq> {..< n}" "distinct ks" for ks h
    using that
  proof (induction ks arbitrary: h)
    case (Cons j ks)
    then show ?case using Cons.IH [of "st j h"] src [of j i h] dst [of j h] i by auto
  qed simp
  from this [OF all] show "ld8 (d + of_nat i) (mem_copy_heap d s n h) = ld8 (s + of_nat i) h" unfolding st using i by simp
qed

text \<open>The frames that a loop over \<open>js\<close> leaves alone.\<close>

definition other_frames :: "nat list \<Rightarrow> u32 list \<Rightarrow> u32 list" where
  "other_frames js fs = map (\<lambda>i. if i \<in> set js then 0 else fs ! i) [0 ..< length fs]"

lemma other_frames_step:
  assumes "j < length fs" "j \<notin> set js"
  shows "other_frames js (fs[j := a]) = (other_frames (j # js) fs)[j := a]" "(other_frames (j # js) fs)[j := 0] = other_frames (j # js) fs"
proof -
  show "other_frames js (fs[j := a]) = (other_frames (j # js) fs)[j := a]"
    by (rule nth_equalityI) (use assms in \<open>auto simp: other_frames_def nth_list_update\<close>)
  have "other_frames (j # js) fs ! j = 0" using assms(1) by (simp add: other_frames_def)
  then show "(other_frames (j # js) fs)[j := 0] = other_frames (j # js) fs" using list_update_id by metis
qed

lemma frame_blocks_mono: "length gs = length fs \<Longrightarrow> (\<And>i. i < length fs \<Longrightarrow> gs ! i = 0 \<or> gs ! i = fs ! i) \<Longrightarrow> frame_blocks gs \<subseteq># frame_blocks fs"
proof (induction gs fs rule: list_induct2)
  case (Cons g gs f fs)
  have "frame_blocks gs \<subseteq># frame_blocks fs" using Cons.IH Cons.prems [of "Suc _"] by simp
  moreover have "g = 0 \<or> g = f" using Cons.prems [of 0] by simp
  ultimately show ?case by (auto intro: subset_mset.trans)
qed simp

lemma other_frames_sub: "j < length fs \<Longrightarrow> frame_blocks (other_frames (j # js) fs) \<subseteq># frame_blocks (fs[j := 0])"
  by (rule frame_blocks_mono) (auto simp: other_frames_def nth_list_update)

text \<open>What a fill may do.\<close>

definition fills :: "(nat \<Rightarrow> u32 \<Rightarrow> kheap \<Rightarrow> kheap) \<Rightarrow> bool" where
  "fills fill \<longleftrightarrow> (\<forall>j a h D Q. holds h D Q \<longrightarrow> (a, 0) \<in># D \<longrightarrow> holds (fill j a h) D Q) \<and>
     (\<forall>j a h E. slab_page a \<longrightarrow> page_no a \<notin># held_pages E \<longrightarrow> keeps E h (fill j a h))"

lemma fills_nothing: "fills (\<lambda>_ _ h. h)" by (simp add: fills_def)

lemma fills_copy: "fills (\<lambda>j a. mem_copy_heap a (src j) 4096)"
proof -
  have "holds (mem_copy_heap a (src j) 4096 h) D Q" if "holds h D Q" "(a, 0) \<in># D" for j a h D Q
    by (rule mem_copy_heap_ok(1) [OF holds_block(1) [OF that] order_refl that(1)]) (rule held_pagesI [OF that(2) block_pages_first])
  then show ?thesis using mem_copy_heap_ok(2) [OF _ order_refl] by (simp add: fills_def)
qed

lemma take_frames_ok:
  assumes "fills fill"
  shows "holds h (frame_blocks fs + D) Q \<Longrightarrow> old \<or> (\<forall>j \<in> set js. fs ! j = 0) \<Longrightarrow> distinct js \<Longrightarrow> set js \<subseteq> {..< length fs} \<Longrightarrow>
    take_frames old fill js fs h = (ok, fs', h') \<Longrightarrow>
    holds h' (frame_blocks fs' + D) Q \<and> keeps (frame_blocks (other_frames js fs) + D) h h' \<and> length fs' = length fs \<and>
    (\<forall>j < length fs. j \<notin> set js \<longrightarrow> fs' ! j = fs ! j) \<and> (ok \<longrightarrow> (\<forall>j \<in> set js. fs' ! j \<noteq> 0))"
proof (induction js arbitrary: fs h)
  case (Cons j js)
  have j: "j < length fs" "j \<notin> set js" using Cons.prems by auto
  let ?R = "frame_blocks (fs[j := 0]) + D"
  define h1 where "h1 = (if old \<and> fs ! j \<noteq> 0 then page_free (fs ! j) h else h)"
  have 1: "holds h1 ?R Q" "keeps ?R h h1"
  proof -
    have e: "fs ! j \<noteq> 0 \<Longrightarrow> frame_blocks fs + D = add_mset (fs ! j, 0) ?R" "fs ! j = 0 \<Longrightarrow> frame_blocks fs + D = ?R"
      using frame_blocks_take(1) [OF j(1)] by simp_all
    show "holds h1 ?R Q" "keeps ?R h h1"
      using Cons.prems(1,2) holds_free [of h "fs ! j" ?R Q] e by (auto simp: h1_def)
  qed
  obtain a h2 where a: "page_alloc h1 = (a, h2)" by fastforce
  note A = holds_alloc [OF 1(1) a]
  have sub: "frame_blocks (other_frames (j # js) fs) + D \<subseteq># ?R" using other_frames_sub [OF j(1)] by simp
  have k2: "keeps ?R h h2" using 1(2) A(3) keeps_trans by blast
  show ?case
  proof (cases "a = 0")
    case True
    then have "ok = False" "fs' = fs[j := 0]" "h' = h1" using Cons.prems(5) a A(1) by (auto simp: h1_def [symmetric])
    then show ?thesis using 1 keeps_mono [OF sub 1(2)] j by auto
  next
    case False
    have b: "frame_blocks (fs[j := a]) + D = add_mset (a, 0) ?R" using frame_blocks_take(2) [OF j(1), of a] False by simp
    define h3 where "h3 = fill j a h2"
    have 2: "holds h2 (add_mset (a, 0) ?R) Q" using A(2) False by simp
    have 3: "holds h3 (frame_blocks (fs[j := a]) + D) Q"
      unfolding h3_def b using assms 2 by (simp add: fills_def)
    have "slab_page a" using holds_block(1) [OF 2, of a 0] by simp
    then have 4: "keeps ?R h2 h3" unfolding h3_def using assms A(4) False by (simp add: fills_def)
    have r: "take_frames old fill js (fs[j := a]) h3 = (ok, fs', h')"
      using Cons.prems(5) a False by (simp add: h1_def [symmetric] h3_def)
    have IH: "holds h' (frame_blocks fs' + D) Q \<and> keeps (frame_blocks (other_frames js (fs[j := a])) + D) h3 h' \<and> length fs' = length (fs[j := a]) \<and>
      (\<forall>i < length (fs[j := a]). i \<notin> set js \<longrightarrow> fs' ! i = fs[j := a] ! i) \<and> (ok \<longrightarrow> (\<forall>i \<in> set js. fs' ! i \<noteq> 0))"
    proof (rule Cons.IH [OF 3 _ _ _ r])
      show "old \<or> (\<forall>i \<in> set js. fs[j := a] ! i = 0)" using Cons.prems(2) j(2) by (metis list.set_intros(2) nth_list_update_neq)
    qed (use Cons.prems in auto)
    have "length (other_frames (j # js) fs) = length fs" by (simp add: other_frames_def)
    then have "frame_blocks (other_frames (j # js) fs) \<subseteq># frame_blocks (other_frames js (fs[j := a]))"
      using frame_blocks_take(2) [of j "other_frames (j # js) fs" a] j unfolding other_frames_step [OF j] by simp
    then have "keeps (frame_blocks (other_frames (j # js) fs) + D) h3 h'"
      using IH by (auto intro: keeps_mono [OF subset_mset.add_right_mono])
    moreover have "keeps (frame_blocks (other_frames (j # js) fs) + D) h h3"
      using keeps_mono [OF sub] k2 4 keeps_trans by blast
    ultimately have "keeps (frame_blocks (other_frames (j # js) fs) + D) h h'" using keeps_trans by blast
    moreover have "fs' ! j \<noteq> 0" using IH j False by simp
    moreover have "\<forall>i < length fs. i \<notin> set (j # js) \<longrightarrow> fs' ! i = fs ! i" using IH by simp
    ultimately show ?thesis using IH by simp
  qed
qed (simp add: other_frames_def)

text \<open>Freeing all frames.\<close>

lemma free_frames_ok: "holds h (frame_blocks fs + D) Q \<Longrightarrow> holds (free_frames fs h) D Q \<and> keeps D h (free_frames fs h)"
proof (induction fs arbitrary: h)
  case (Cons f fs)
  let ?h = "if f \<noteq> 0 then page_free f h else h"
  have "holds ?h (frame_blocks fs + D) Q" "keeps (frame_blocks fs + D) h ?h"
    using Cons.prems holds_free [of h f "frame_blocks fs + D" Q] by auto
  moreover from this have "keeps D h ?h" by (auto intro: keeps_mono [rotated])
  moreover have "holds (free_frames fs ?h) D Q \<and> keeps D ?h (free_frames fs ?h)" by (rule Cons.IH) (rule calculation(1))
  moreover have "free_frames (f # fs) h = free_frames fs ?h" by (simp add: free_frames_def)
  ultimately show ?case using keeps_trans [of D h ?h] by metis
qed (simp add: free_frames_def)

end
