(* ===== verification/Process_Run.thy ===== *)
theory Process_Run
  imports Process
begin

text \<open>
  Processes in a run of the kernel: the invariant of the process table and of the memory the processes hold, each
  operation of theory \<open>Process\<close> keeping it. The runs are in theory \<open>Kernel_Run\<close>.
\<close>

section \<open>The invariant\<close>

text \<open>What a process holds: its kernel stack, the frames of its window, its directory with the window's table \<open>t\<close>.\<close>

definition stack_blocks :: "process \<Rightarrow> (u32 \<times> int) multiset" where
  "stack_blocks p = (if p_kernel_stack p = 0 then {#} else {#(p_kernel_stack p, if p_kernel_stack_size p = 4096 then 0 else 1)#})"

definition dir_blocks :: "u32 \<Rightarrow> u32 \<Rightarrow> (u32 \<times> int) multiset" where
  "dir_blocks pd t = (if pd = 0 then {#} else {#(pd, 0), (t, 0)#})"

definition blocks :: "process \<Rightarrow> u32 \<Rightarrow> (u32 \<times> int) multiset" where
  "blocks p t = stack_blocks p + frame_blocks (p_frames p) + dir_blocks (p_pd p) t"

definition user_dir :: "kheap \<Rightarrow> u32 \<Rightarrow> u32 \<Rightarrow> u32 \<Rightarrow> u32 list \<Rightarrow> bool" where
  "user_dir h kp pd t fs \<longleftrightarrow> user_space h pd t USER_WIN_BASE fs \<and>
     (\<forall>i. 0 < i \<longrightarrow> i < 1024 \<longrightarrow> rd (entry pd i) h = user_pde kp t USER_WIN_BASE h i)"

definition slot_ok :: "kheap \<Rightarrow> u32 \<Rightarrow> process \<Rightarrow> u32 \<Rightarrow> bool" where
  "slot_ok h kp p t \<longleftrightarrow> length (p_frames p) = USER_WIN_PAGES \<and>
     (p_kernel_stack p \<noteq> 0 \<longrightarrow> p_kernel_stack_size p \<in> {4096, 8192} \<and> rd (p_kernel_stack p) h \<noteq> SLAB_MAGIC) \<and>
     (p_pd p \<noteq> 0 \<longrightarrow> user_dir h kp (p_pd p) t (p_frames p)) \<and>
     (\<not> p_in_use p \<longrightarrow> blocks p t = {#})"

definition kernel_dir :: "kheap \<Rightarrow> u32 \<Rightarrow> (u32 \<times> int) multiset \<Rightarrow> bool" where
  "kernel_dir h kp K \<longleftrightarrow> (\<exists>E. K = add_mset (kp, 0) E \<and> dir_ok h kp E) \<and> (\<forall>v < 0x1E000000. mmu h kp False v = Some v)"

definition all_blocks :: "process list \<Rightarrow> (nat \<Rightarrow> u32) \<Rightarrow> (u32 \<times> int) multiset" where
  "all_blocks ps T = (\<Sum>i < length ps. blocks (ps ! i) (T i))"

text \<open>\<open>K\<close> are the kernel's directory and tables, \<open>R\<close> the pages other parts of the kernel hold.\<close>

definition mem_inv :: "(u32 \<times> int) multiset \<Rightarrow> (u32 \<times> int) multiset \<Rightarrow> process list \<Rightarrow> kheap \<Rightarrow> u32 \<Rightarrow> bool" where
  "mem_inv K R ps h kp \<longleftrightarrow> length ps = MAX_PROCESSES \<and> kernel_dir h kp K \<and>
     (\<exists>T. holds h (all_blocks ps T + (K + R)) {} \<and> (\<forall>i < MAX_PROCESSES. slot_ok h kp (ps ! i) (T i)))"

text \<open>All of it is kept when the contents of the blocks is.\<close>

lemma entry_kept: "keeps D h h' \<Longrightarrow> (b, 0) \<in># D \<Longrightarrow> slab_page b \<Longrightarrow> i < 1024 \<Longrightarrow> rd (entry b i) h' = rd (entry b i) h"
  using keepsD [of D h h' "entry b i"] entry_at(2) [of b i] held_pagesI [of b 0 D "page_no b"] block_pages_first [of b 0] by simp

lemma kernel_dir_keeps:
  assumes k: "kernel_dir h kp K" and keep: "keeps D h h'" and sub: "K \<subseteq># D" and h: "holds h (B + D) Q"
  shows "kernel_dir h' kp K"
proof -
  obtain E where E: "K = add_mset (kp, 0) E" "dir_ok h kp E" using k by (auto simp: kernel_dir_def)
  have in_D: "(b, n) \<in># D" if "(b, n) \<in># K" for b n using mset_subset_eqD [OF sub that] .
  have kp: "(kp, 0) \<in># D" "slab_page kp" using in_D [of kp 0] holds_block(1) [OF h, of kp 0] E(1) by auto
  have e: "rd (entry kp i) h' = rd (entry kp i) h" if "i < 1024" for i by (rule entry_kept [OF keep kp that])
  then have d: "present h' kp i = present h kp i" "table_of h' kp i = table_of h kp i" if "i < 1024" for i
    using that by (simp_all add: present_def table_of_def)
  have "dir_ok h' kp E" using E(2) d by (simp add: dir_ok_def)
  moreover have "mmu h' kp False v = mmu h kp False v" for v
  proof (cases "present h kp (pde_idx v)")
    case True
    let ?t = "table_of h kp (pde_idx v)"
    have "(?t, 0) \<in># E" using E(2) True idx_bounds(1) by (simp add: dir_ok_def)
    then have t: "(?t, 0) \<in># D" using in_D E(1) by simp
    have "rd (entry ?t (pte_idx v)) h' = rd (entry ?t (pte_idx v)) h"
      using entry_kept [OF keep t _ idx_bounds(2)] holds_block(1) [OF h, of ?t 0] t by simp
    then show ?thesis using idx_bounds(1) [of v] by (simp add: mmu_tables d e)
  next
    case False
    then show ?thesis using idx_bounds(1) [of v] by (simp add: mmu_tables d)
  qed
  ultimately show ?thesis using k E(1) by (auto simp: kernel_dir_def)
qed

lemma user_dir_keeps:
  assumes u: "user_dir h kp pd t fs" and keep: "keeps D h h'" and b: "(pd, 0) \<in># D" "(t, 0) \<in># D" "(kp, 0) \<in># D" and kp: "slab_page kp"
  shows "user_dir h' kp pd t fs"
proof -
  have pages: "slab_page pd" "slab_page t" using u by (simp_all add: user_dir_def user_space_def)
  have e: "rd (entry pd i) h' = rd (entry pd i) h" "rd (entry t i) h' = rd (entry t i) h" "rd (entry kp i) h' = rd (entry kp i) h" if "i < 1024" for i
    using entry_kept [OF keep b(1) pages(1) that] entry_kept [OF keep b(2) pages(2) that] entry_kept [OF keep b(3) kp that] by simp_all
  have "rd pd h' = rd pd h" using e(1) [of 0] by simp
  moreover have "rd (entry pd i) h' AND VMM_USER = 0" if "0 < i" "i < 1024" for i
    using u that unfolding e(1) [OF that(2)] user_dir_def user_space_def by blast
  moreover have "window_table h' t USER_WIN_BASE fs" using u e(2) by (simp add: user_dir_def user_space_def window_table_def)
  ultimately have "user_space h' pd t USER_WIN_BASE fs" using u unfolding user_dir_def user_space_def by simp
  moreover have "user_pde kp t USER_WIN_BASE h' i = user_pde kp t USER_WIN_BASE h i" if "i < 1024" for i using e(3) [OF that] by (simp add: user_pde_def)
  then have "rd (entry pd i) h' = user_pde kp t USER_WIN_BASE h' i" if "0 < i" "i < 1024" for i using u e(1) that by (simp add: user_dir_def)
  ultimately show ?thesis by (simp add: user_dir_def)
qed

lemma slot_ok_keeps:
  assumes s: "slot_ok h kp p t" and keep: "keeps D h h'" and sub: "blocks p t \<subseteq># D" and kp: "(kp, 0) \<in># D" "slab_page kp"
  shows "slot_ok h' kp p t"
proof -
  have in_D: "(b, n) \<in># D" if "(b, n) \<in># blocks p t" for b n using mset_subset_eqD [OF sub that] .
  have "rd (p_kernel_stack p) h' = rd (p_kernel_stack p) h" if "p_kernel_stack p \<noteq> 0"
  proof -
    have "(p_kernel_stack p, if p_kernel_stack_size p = 4096 then 0 else 1) \<in># D"
      by (rule in_D) (use that in \<open>simp add: blocks_def stack_blocks_def\<close>)
    from held_pagesI [OF this block_pages_first] show ?thesis by (rule keepsD [OF keep])
  qed
  moreover have "user_dir h' kp (p_pd p) t (p_frames p)" if "p_pd p \<noteq> 0"
  proof (rule user_dir_keeps [OF _ keep _ _ kp])
    show "user_dir h kp (p_pd p) t (p_frames p)" using s that by (simp add: slot_ok_def)
    show "(p_pd p, 0) \<in># D" "(t, 0) \<in># D" using in_D that by (auto simp: blocks_def dir_blocks_def)
  qed
  ultimately show ?thesis using s by (simp add: slot_ok_def)
qed

text \<open>Looking at one slot: \<open>D\<close> is everything else, and any change of the slot that keeps \<open>D\<close> keeps the invariant.\<close>

lemma mem_inv_slot:
  assumes m: "mem_inv K R ps h kp" and i: "i < MAX_PROCESSES"
  obtains t D where "holds h (blocks (ps ! i) t + D) {}" "slot_ok h kp (ps ! i) t" "K + R \<subseteq># D" "(kp, 0) \<in># D"
    "\<And>j. j < MAX_PROCESSES \<Longrightarrow> j \<noteq> i \<Longrightarrow> \<exists>u. blocks (ps ! j) u \<subseteq># D \<and> slot_ok h kp (ps ! j) u"
    "\<And>p' t' h'. holds h' (blocks p' t' + D) {} \<Longrightarrow> keeps D h h' \<Longrightarrow> slot_ok h' kp p' t' \<Longrightarrow> mem_inv K R (ps[i := p']) h' kp"
proof -
  obtain T where len: "length ps = MAX_PROCESSES" and k: "kernel_dir h kp K"
    and T: "holds h (all_blocks ps T + (K + R)) {}" "\<And>j. j < MAX_PROCESSES \<Longrightarrow> slot_ok h kp (ps ! j) (T j)"
    using m by (auto simp: mem_inv_def)
  define Rest where "Rest = (\<Sum>j \<in> {..< MAX_PROCESSES} - {i}. blocks (ps ! j) (T j))"
  let ?D = "Rest + (K + R)"
  have all: "all_blocks (ps[i := p']) (T(i := t')) = blocks p' t' + Rest" for p' t'
  proof -
    have "all_blocks (ps[i := p']) (T(i := t')) = blocks (ps[i := p'] ! i) ((T(i := t')) i) +
        (\<Sum>j \<in> {..< MAX_PROCESSES} - {i}. blocks (ps[i := p'] ! j) ((T(i := t')) j))"
      unfolding all_blocks_def using i len by (simp add: sum.remove)
    also have "(\<Sum>j \<in> {..< MAX_PROCESSES} - {i}. blocks (ps[i := p'] ! j) ((T(i := t')) j)) = Rest"
      unfolding Rest_def by (rule sum.cong) auto
    finally have "all_blocks (ps[i := p']) (T(i := t')) = blocks (ps[i := p'] ! i) ((T(i := t')) i) + Rest" .
    moreover have "ps[i := p'] ! i = p'" using i len by simp
    ultimately show ?thesis by (simp only: fun_upd_same)
  qed
  have h: "holds h (blocks (ps ! i) (T i) + ?D) {}" using T(1) all [of "ps ! i" "T i"] by (simp add: ac_simps)
  have kp: "(kp, 0) \<in># ?D" using k by (auto simp: kernel_dir_def)
  have page: "slab_page kp" using holds_block(1) [OF h, of kp 0] kp by simp
  have sub: "blocks (ps ! j) (T j) \<subseteq># ?D" if "j < MAX_PROCESSES" "j \<noteq> i" for j
  proof -
    have "Rest = blocks (ps ! j) (T j) + (\<Sum>l \<in> {..< MAX_PROCESSES} - {i} - {j}. blocks (ps ! l) (T l))"
      unfolding Rest_def using that by (simp add: sum.remove)
    then show ?thesis by (simp add: ac_simps)
  qed
  show ?thesis
  proof (rule that [OF h T(2) [OF i] _ kp])
    show "K + R \<subseteq># ?D" by simp
    show "\<exists>u. blocks (ps ! j) u \<subseteq># ?D \<and> slot_ok h kp (ps ! j) u" if "j < MAX_PROCESSES" "j \<noteq> i" for j
      using sub [OF that] T(2) [OF that(1)] by blast
    fix p' t' h'
    assume n: "holds h' (blocks p' t' + ?D) {}" "keeps ?D h h'" "slot_ok h' kp p' t'"
    have "slot_ok h' kp (ps[i := p'] ! j) ((T(i := t')) j)" if j: "j < MAX_PROCESSES" for j
    proof (cases "j = i")
      case True
      then show ?thesis using n(3) i len by simp
    next
      case False
      then show ?thesis using slot_ok_keeps [OF T(2) [OF j] n(2) sub [OF j] kp page] by simp
    qed
    moreover have "kernel_dir h' kp K"
    proof (rule kernel_dir_keeps [OF k n(2) _ h])
      show "K \<subseteq># Rest + (K + R)" using mset_subset_eq_add_left [of K "Rest + R"] by (simp only: ac_simps)
    qed
    moreover have "holds h' (all_blocks (ps[i := p']) (T(i := t')) + (K + R)) {}" using n(1) all [of p' t'] by (simp add: ac_simps)
    ultimately show "mem_inv K R (ps[i := p']) h' kp" using len unfolding mem_inv_def by auto
  qed
qed

section \<open>The operations keep the invariant\<close>

lemma upd_frame [simp]:
  "kh (upd i f k) = kh k" "kpd (upd i f k) = kpd k" "cr3 (upd i f k) = cr3 k" "cur (upd i f k) = cur k" "next_pid (upd i f k) = next_pid k"
  "current_user_pid (upd i f k) = current_user_pid k" "socks (upd i f k) = socks k" "isr_user_exit (upd i f k) = isr_user_exit k"
  "kthread_entry (upd i f k) = kthread_entry k" "pit_ticks (upd i f k) = pit_ticks k" "tcp_closed (upd i f k) = tcp_closed k"
  "scheduler_ticks (upd i f k) = scheduler_ticks k" "esp0 (upd i f k) = esp0 k"
  "procs (upd i f k) = (procs k)[i := f (procs k ! i)]"
  by (simp_all add: upd_def)

definition table_ok :: "kern \<Rightarrow> bool" where
  "table_ok k \<longleftrightarrow> 2 \<le> unat (next_pid k) \<and>
     (\<exists>c < MAX_PROCESSES. cur k = Some c \<and> p_in_use (procs k ! c) \<and> cr3 k = (if p_pd (procs k ! c) \<noteq> 0 then p_pd (procs k ! c) else kpd k)) \<and>
     (\<forall>i < MAX_PROCESSES. p_in_use (procs k ! i) \<longrightarrow> unat (p_pid (procs k ! i)) < unat (next_pid k)) \<and>
     (\<forall>i < MAX_PROCESSES. \<forall>j < MAX_PROCESSES. p_in_use (procs k ! i) \<longrightarrow> p_in_use (procs k ! j) \<longrightarrow>
        p_pid (procs k ! i) = p_pid (procs k ! j) \<longrightarrow> i = j)"

definition kern_inv :: "(u32 \<times> int) multiset \<Rightarrow> (u32 \<times> int) multiset \<Rightarrow> kern \<Rightarrow> bool" where
  "kern_inv K R k \<longleftrightarrow> mem_inv K R (procs k) (kh k) (kpd k) \<and> table_ok k"

lemma kern_inv_length: "kern_inv K R k \<Longrightarrow> length (procs k) = 32"
  by (simp add: kern_inv_def mem_inv_def MAX_PROCESSES_def)

text \<open>A slot that changes but stays in use with its number, not being the current one or keeping its directory.\<close>

lemma table_ok_slot:
  assumes "table_ok k" "i < MAX_PROCESSES" "length (procs k) = MAX_PROCESSES"
    and "p_in_use p' \<longrightarrow> p_in_use (procs k ! i) \<and> p_pid p' = p_pid (procs k ! i)"
    and "cur k = Some i \<longrightarrow> p_in_use p' \<and> cr' = (if p_pd p' \<noteq> 0 then p_pd p' else kpd k)" "cur k \<noteq> Some i \<longrightarrow> cr' = cr3 k"
  shows "table_ok (k\<lparr>procs := (procs k)[i := p'], cr3 := cr'\<rparr>)"
proof -
  obtain c where c: "c < MAX_PROCESSES" "cur k = Some c" "p_in_use (procs k ! c)" "cr3 k = (if p_pd (procs k ! c) \<noteq> 0 then p_pd (procs k ! c) else kpd k)"
    using assms(1) by (auto simp: table_ok_def)
  have "\<exists>c < MAX_PROCESSES. cur k = Some c \<and> p_in_use ((procs k)[i := p'] ! c) \<and>
      cr' = (if p_pd ((procs k)[i := p'] ! c) \<noteq> 0 then p_pd ((procs k)[i := p'] ! c) else kpd k)"
    using c assms(2,3,5,6) by (cases "c = i") auto
  moreover have "p_in_use ((procs k)[i := p'] ! j) \<longrightarrow> p_in_use (procs k ! j) \<and> p_pid ((procs k)[i := p'] ! j) = p_pid (procs k ! j)" for j
    using assms(2-4) by (cases "j = i") auto
  ultimately show ?thesis using assms(1) unfolding table_ok_def by simp metis
qed

lemma table_ok_cong:
  assumes "table_ok k" "procs k' = procs k" "cur k' = cur k" "cr3 k' = cr3 k" "kpd k' = kpd k" "next_pid k' = next_pid k"
  shows "table_ok k'"
  using assms(1) unfolding table_ok_def assms(2-) .

lemma kern_inv_cong:
  "kern_inv K R k \<Longrightarrow> procs k' = procs k \<Longrightarrow> cur k' = cur k \<Longrightarrow> cr3 k' = cr3 k \<Longrightarrow> kpd k' = kpd k \<Longrightarrow> next_pid k' = next_pid k \<Longrightarrow>
    kh k' = kh k \<Longrightarrow> kern_inv K R k'"
  unfolding kern_inv_def using table_ok_cong [of k k'] by simp

text \<open>Finding a process by its number.\<close>

lemma process_get_Some:
  assumes "process_get pid k = Some i" "length (procs k) = 32"
  shows "i < 32" "p_pid (procs k ! i) = pid" "p_in_use (procs k ! i)"
  using first_idx_SomeD [OF assms(1) [unfolded process_get_def]] assms(2) by auto

lemma process_get_eq:
  assumes t: "table_ok k" and l: "length (procs k) = 32" and i: "i < 32" "p_in_use (procs k ! i)"
  shows "process_get (p_pid (procs k ! i)) k = Some i"
proof (cases "process_get (p_pid (procs k ! i)) k")
  case None
  then have "\<forall>p \<in> set (procs k). \<not> (p_pid p = p_pid (procs k ! i) \<and> p_in_use p)" by (simp add: process_get_def first_idx_None)
  then show ?thesis using i l by (metis nth_mem)
next
  case (Some j)
  note J = process_get_Some [OF Some l]
  have "j = i" using t J i unfolding table_ok_def MAX_PROCESSES_def by blast
  then show ?thesis using Some by simp
qed

text \<open>Releasing the memory of a process.\<close>

lemma user_free_memory_eq:
  assumes "i < length (procs k)" "kpd k \<noteq> 0"
  shows "user_free_memory i k = upd i (\<lambda>p. p\<lparr>p_pd := 0, p_frames := map (\<lambda>_. 0) (p_frames p)\<rparr>)
    (k\<lparr>kh := free_frames (p_frames (procs k ! i)) (if p_pd (procs k ! i) \<noteq> 0 then vmm_destroy_user_pd (kpd k) (p_pd (procs k ! i)) (kh k) else kh k),
       cr3 := (if p_pd (procs k ! i) \<noteq> 0 \<and> p_pd (procs k ! i) = cr3 k then kpd k else cr3 k)\<rparr>)"
proof -
  show ?thesis
  proof (cases "p_pd (procs k ! i) = 0")
    case True
    have e: "(procs k ! i)\<lparr>p_pd := 0, p_frames := fs\<rparr> = (procs k ! i)\<lparr>p_frames := fs\<rparr>" for fs
      using True by (cases "procs k ! i") simp
    show ?thesis using True by (simp add: user_free_memory_def Let_def upd_def e)
  next
    case False
    then show ?thesis using assms by (simp add: user_free_memory_def Let_def upd_def vmm_load_pd_def)
  qed
qed

lemma holds_head: "holds h (add_mset (a, n) D) Q \<Longrightarrow> page_no a \<notin># held_pages D"
  using holds_once [of h "{#(a, n)#}" D Q "page_no a"] block_pages_first [of a "nat n"] by simp

lemma release_ok:
  assumes h: "holds h (S + frame_blocks fs + dir_blocks pd t + D) {}" and u: "pd \<noteq> 0 \<longrightarrow> user_dir h kp pd t fs" and kp: "(kp, 0) \<in># D"
  shows "holds (free_frames fs (if pd \<noteq> 0 then vmm_destroy_user_pd kp pd h else h)) (S + D) {}"
    "keeps (S + D) h (free_frames fs (if pd \<noteq> 0 then vmm_destroy_user_pd kp pd h else h))"
proof -
  let ?h = "if pd \<noteq> 0 then vmm_destroy_user_pd kp pd h else h"
  have "holds ?h (frame_blocks fs + (S + D)) {} \<and> keeps (frame_blocks fs + (S + D)) h ?h"
  proof (cases "pd = 0")
    case True
    then show ?thesis using h by (simp add: dir_blocks_def ac_simps)
  next
    case False
    have h': "holds h (add_mset (pd, 0) (add_mset (t, 0) (frame_blocks fs + (S + D)))) {}"
    proof -
      have "S + frame_blocks fs + dir_blocks pd t + D = add_mset (pd, 0) (add_mset (t, 0) (frame_blocks fs + (S + D)))"
        by (rule multiset_eqI) (use False in \<open>simp add: dir_blocks_def\<close>)
      from h [unfolded this] show ?thesis .
    qed
    from holds_head [OF h'] have "page_no pd \<notin># held_pages D" by (simp add: held_pages_union)
    then have "pd \<noteq> kp" using held_pagesI [OF kp block_pages_first] by auto
    moreover have "user_space h pd t USER_WIN_BASE fs" using u False by (simp add: user_dir_def)
    ultimately show ?thesis using vmm_destroy_user_pd_ok [OF h'] False by simp
  qed
  then have 1: "holds ?h (frame_blocks fs + (S + D)) {}" "keeps (S + D) h ?h" by (auto intro: keeps_mono [rotated])
  from free_frames_ok [OF 1(1)] 1(2) show "holds (free_frames fs ?h) (S + D) {}" "keeps (S + D) h (free_frames fs ?h)"
    using keeps_trans by blast+
qed

text \<open>The end of a process that is not the current one: its slot becomes empty.\<close>

definition freed :: "process \<Rightarrow> process" where
  "freed p = p\<lparr>p_state := PROC_STATE_DEAD, p_in_use := False, p_pd := 0, p_frames := map (\<lambda>_. 0) (p_frames p),
     p_kernel_stack := 0, p_kernel_stack_size := 0, p_esp := 0, p_is_user_prog := False, p_exit_code := 0, p_name := []\<rparr>"

lemma blocks_freed: "blocks (freed p) t = {#}"
proof -
  have "frame_blocks (map (\<lambda>_. 0) fs) = {#}" for fs :: "u32 list" by (induction fs) simp_all
  then show ?thesis by (simp add: blocks_def freed_def stack_blocks_def dir_blocks_def)
qed

text \<open>The slot may be in the middle of being filled, so its conditions are stated for the heap only.\<close>

lemma process_free_ok:
  assumes inv: "kern_inv K R k" and g: "process_get pid k = Some i" and c: "cur k \<noteq> Some i"
  shows "\<exists>k'. process_free pid k = Some k' \<and> kern_inv K R k' \<and> procs k' = (procs k)[i := freed (procs k ! i)] \<and> cur k' = cur k \<and>
    next_pid k' = next_pid k \<and> kpd k' = kpd k \<and> cr3 k' = cr3 k"
proof -
  have len: "length (procs k) = 32" by (rule kern_inv_length [OF inv])
  note G = process_get_Some [OF g len]
  have m: "mem_inv K R (procs k) (kh k) (kpd k)" and t: "table_ok k" using inv by (simp_all add: kern_inv_def)
  let ?p = "procs k ! i"
  have i: "i < MAX_PROCESSES" using G(1) by (simp add: MAX_PROCESSES_def)
  obtain u D where slot: "holds (kh k) (blocks ?p u + D) {}" "slot_ok (kh k) (kpd k) ?p u" "K + R \<subseteq># D" "(kpd k, 0) \<in># D"
    "\<And>j. j < MAX_PROCESSES \<Longrightarrow> j \<noteq> i \<Longrightarrow> \<exists>u. blocks (procs k ! j) u \<subseteq># D \<and> slot_ok (kh k) (kpd k) (procs k ! j) u"
    "\<And>p' t' h'. holds h' (blocks p' t' + D) {} \<Longrightarrow> keeps D (kh k) h' \<Longrightarrow> slot_ok h' (kpd k) p' t' \<Longrightarrow> mem_inv K R ((procs k)[i := p']) h' (kpd k)"
    using mem_inv_slot [OF m i] by blast
  have kp0: "kpd k \<noteq> 0" using holds_block(1) [OF slot(1), of "kpd k" 0] slot(4) slab_page_dvd by simp
  have not_live: "\<not> (p_pd ?p \<noteq> 0 \<and> p_pd ?p = cr3 k)"
  proof
    assume pd: "p_pd ?p \<noteq> 0 \<and> p_pd ?p = cr3 k"
    obtain c' where c': "c' < MAX_PROCESSES" "cur k = Some c'" "cr3 k = (if p_pd (procs k ! c') \<noteq> 0 then p_pd (procs k ! c') else kpd k)"
      using t by (auto simp: table_ok_def)
    have "(cr3 k, 0) \<in># D"
    proof (cases "p_pd (procs k ! c') = 0")
      case False
      obtain v where "blocks (procs k ! c') v \<subseteq># D" using slot(5) [OF c'(1)] c'(2) c by auto
      moreover have "(p_pd (procs k ! c'), 0) \<in># blocks (procs k ! c') v" using False by (simp add: blocks_def dir_blocks_def)
      ultimately show ?thesis using mset_subset_eqD c'(3) False by fastforce
    qed (use c'(3) slot(4) in simp)
    then have "page_no (cr3 k) \<in># held_pages D" by (rule held_pagesI [OF _ block_pages_first])
    moreover have "(cr3 k, 0) \<in># blocks ?p u" using pd by (auto simp: blocks_def dir_blocks_def)
    then have "page_no (cr3 k) \<in># held_pages (blocks ?p u)" by (rule held_pagesI [OF _ block_pages_first])
    ultimately show False using holds_once [OF slot(1)] by blast
  qed
  let ?fs = "p_frames ?p"
  define h1 where "h1 = free_frames ?fs (if p_pd ?p \<noteq> 0 then vmm_destroy_user_pd (kpd k) (p_pd ?p) (kh k) else kh k)"
  have rel: "holds h1 (stack_blocks ?p + D) {}" "keeps (stack_blocks ?p + D) (kh k) h1"
  proof -
    have a: "holds (kh k) (stack_blocks ?p + frame_blocks ?fs + dir_blocks (p_pd ?p) u + D) {}" using slot(1) by (simp add: blocks_def)
    have b: "p_pd ?p \<noteq> 0 \<longrightarrow> user_dir (kh k) (kpd k) (p_pd ?p) u ?fs" using slot(2) by (simp add: slot_ok_def)
    show "holds h1 (stack_blocks ?p + D) {}" "keeps (stack_blocks ?p + D) (kh k) h1"
      unfolding h1_def using release_ok [OF a b slot(4)] by blast+
  qed
  obtain h2 where h2: "(if p_kernel_stack ?p \<noteq> 0 then kfree (p_kernel_stack ?p) h1 else Some h1) = Some h2" "holds h2 D {}" "keeps D h1 h2"
  proof (cases "p_kernel_stack ?p = 0")
    case True
    then show ?thesis using rel(1) that [of h1] by (simp add: stack_blocks_def)
  next
    case False
    let ?n = "if p_kernel_stack_size ?p = 4096 then 0 else 1 :: int"
    have b: "stack_blocks ?p = {#(p_kernel_stack ?p, ?n)#}" using False by (simp add: stack_blocks_def)
    have "rd (p_kernel_stack ?p) h1 = rd (p_kernel_stack ?p) (kh k)"
      by (rule keepsD [OF rel(2)], rule held_pagesI [OF _ block_pages_first, of _ ?n]) (simp add: b)
    then have "rd (p_kernel_stack ?p) h1 \<noteq> SLAB_MAGIC" using slot(2) False by (simp add: slot_ok_def)
    moreover have "holds h1 (add_mset (p_kernel_stack ?p, ?n) D) {}" using rel(1) by (simp add: b)
    ultimately show ?thesis using holds_kfree that False by (metis (no_types, lifting))
  qed
  define k' where "k' = (close_sockets pid k)\<lparr>kh := h2, procs := (procs k)[i := freed ?p]\<rparr>"
  have live: "(p_pd ?p \<noteq> 0 \<and> p_pd ?p = cr3 k) = False" using not_live by simp
  have "process_free pid k = (if p_kernel_stack ?p \<noteq> 0 then kfree (p_kernel_stack ?p) h1 else Some h1) \<bind>
      (\<lambda>h. Some ((close_sockets pid k)\<lparr>kh := h, procs := (procs k)[i := freed ?p]\<rparr>))"
    using g c G kp0 len
    by (simp add: process_free_def Let_def user_free_memory_eq upd_def close_sockets_def h1_def freed_def live split del: if_split cong: if_cong)
  then have "process_free pid k = Some k'" unfolding h2(1) by (simp add: k'_def)
  moreover have "kern_inv K R k'"
    unfolding kern_inv_def
  proof
    have "slot_ok h2 (kpd k) (freed ?p) u"
      using slot(2) blocks_freed [of ?p u] by (simp add: slot_ok_def freed_def)
    moreover have "holds h2 (blocks (freed ?p) u + D) {}" using h2(2) by (simp add: blocks_freed)
    moreover have "keeps D (kh k) h2" using keeps_mono [OF _ rel(2), of D] h2(3) keeps_trans by simp
    ultimately show "mem_inv K R (procs k') (kh k') (kpd k')" using slot(6) by (simp add: k'_def close_sockets_def)
    have "table_ok (k\<lparr>procs := (procs k)[i := freed ?p], cr3 := cr3 k\<rparr>)"
      by (rule table_ok_slot [OF t i]) (use len c in \<open>simp_all add: MAX_PROCESSES_def freed_def\<close>)
    then show "table_ok k'" by (rule table_ok_cong) (simp_all add: k'_def close_sockets_def)
  qed
  ultimately show ?thesis by (simp add: k'_def close_sockets_def)
qed

text \<open>Changing one slot in a state that satisfies the invariant.\<close>

lemma upd_kh [simp]: "(upd i f k)\<lparr>kh := h\<rparr> = upd i f (k\<lparr>kh := h\<rparr>)" by (simp add: upd_def)

lemma upd_upd: "i < length (procs k) \<Longrightarrow> upd i g (upd i f k) = upd i (\<lambda>p. g (f p)) k" by (simp add: upd_def)

lemma kern_inv_slot:
  assumes inv: "kern_inv K R k" and i: "i < 32" and use: "p_in_use (procs k ! i)"
  obtains t D where "holds (kh k) (blocks (procs k ! i) t + D) {}" "slot_ok (kh k) (kpd k) (procs k ! i) t" "K + R \<subseteq># D" "(kpd k, 0) \<in># D"
    "\<And>j. j < 32 \<Longrightarrow> j \<noteq> i \<Longrightarrow> \<exists>u. blocks (procs k ! j) u \<subseteq># D \<and> slot_ok (kh k) (kpd k) (procs k ! j) u"
    "\<And>f t' h'. holds h' (blocks (f (procs k ! i)) t' + D) {} \<Longrightarrow> keeps D (kh k) h' \<Longrightarrow> slot_ok h' (kpd k) (f (procs k ! i)) t' \<Longrightarrow>
      p_in_use (f (procs k ! i)) \<Longrightarrow> p_pid (f (procs k ! i)) = p_pid (procs k ! i) \<Longrightarrow>
      (cur k = Some i \<longrightarrow> cr3 k = (if p_pd (f (procs k ! i)) \<noteq> 0 then p_pd (f (procs k ! i)) else kpd k)) \<Longrightarrow>
      kern_inv K R (upd i f (k\<lparr>kh := h'\<rparr>))"
proof -
  have len: "length (procs k) = 32" by (rule kern_inv_length [OF inv])
  have m: "mem_inv K R (procs k) (kh k) (kpd k)" and t: "table_ok k" using inv by (simp_all add: kern_inv_def)
  have i': "i < MAX_PROCESSES" using i by (simp add: MAX_PROCESSES_def)
  obtain u D where slot: "holds (kh k) (blocks (procs k ! i) u + D) {}" "slot_ok (kh k) (kpd k) (procs k ! i) u" "K + R \<subseteq># D" "(kpd k, 0) \<in># D"
    "\<And>j. j < MAX_PROCESSES \<Longrightarrow> j \<noteq> i \<Longrightarrow> \<exists>u. blocks (procs k ! j) u \<subseteq># D \<and> slot_ok (kh k) (kpd k) (procs k ! j) u"
    "\<And>p' t' h'. holds h' (blocks p' t' + D) {} \<Longrightarrow> keeps D (kh k) h' \<Longrightarrow> slot_ok h' (kpd k) p' t' \<Longrightarrow> mem_inv K R ((procs k)[i := p']) h' (kpd k)"
    using mem_inv_slot [OF m i'] by blast
  show ?thesis
  proof (rule that [OF slot(1-4)])
    show "\<exists>u. blocks (procs k ! j) u \<subseteq># D \<and> slot_ok (kh k) (kpd k) (procs k ! j) u" if "j < 32" "j \<noteq> i" for j
      using slot(5) that by (simp add: MAX_PROCESSES_def)
    fix f t' h'
    assume n: "holds h' (blocks (f (procs k ! i)) t' + D) {}" "keeps D (kh k) h'" "slot_ok h' (kpd k) (f (procs k ! i)) t'"
      "p_in_use (f (procs k ! i))" "p_pid (f (procs k ! i)) = p_pid (procs k ! i)"
      "cur k = Some i \<longrightarrow> cr3 k = (if p_pd (f (procs k ! i)) \<noteq> 0 then p_pd (f (procs k ! i)) else kpd k)"
    have "table_ok (k\<lparr>procs := (procs k)[i := f (procs k ! i)], cr3 := cr3 k\<rparr>)"
      by (rule table_ok_slot [OF t i']) (use len use n(4-6) in \<open>simp_all add: MAX_PROCESSES_def\<close>)
    then have "table_ok (upd i f (k\<lparr>kh := h'\<rparr>))" by (rule table_ok_cong) simp_all
    then show "kern_inv K R (upd i f (k\<lparr>kh := h'\<rparr>))" using slot(6) [OF n(1-3)] by (simp add: kern_inv_def)
  qed
qed

text \<open>A new process.\<close>

definition blank :: "process \<Rightarrow> bool" where
  "blank p \<longleftrightarrow> p_in_use p \<and> p_kernel_stack p = 0 \<and> p_frames p = replicate 64 0 \<and> p_pd p = 0"

lemma process_alloc_ok:
  assumes inv: "kern_inv K R k" and r: "process_alloc name k = (pid, k')" and n: "unat (next_pid k) + 1 < 2 ^ 32"
  shows "pid = 0 \<and> k' = k \<or> pid = next_pid k \<and> pid \<noteq> 0 \<and> kern_inv K R k' \<and> kh k' = kh k \<and> kpd k' = kpd k \<and> cur k' = cur k \<and> cr3 k' = cr3 k \<and>
    isr_user_exit k' = isr_user_exit k \<and> kthread_entry k' = kthread_entry k \<and>
    (\<exists>i < 32. process_get pid k' = Some i \<and> cur k \<noteq> Some i \<and> \<not> p_in_use (procs k ! i) \<and> blank (procs k' ! i) \<and> p_pid (procs k' ! i) = pid \<and>
       (\<forall>j. j \<noteq> i \<longrightarrow> procs k' ! j = procs k ! j))"
proof (cases "first_idx (\<lambda>p. \<not> p_in_use p) (procs k)")
  case None
  then show ?thesis using r by (simp add: process_alloc_def)
next
  case (Some i)
  have len: "length (procs k) = 32" by (rule kern_inv_length [OF inv])
  have m: "mem_inv K R (procs k) (kh k) (kpd k)" and t: "table_ok k" using inv by (simp_all add: kern_inv_def)
  have i: "i < 32" "\<not> p_in_use (procs k ! i)" using first_idx_SomeD [OF Some] len by auto
  then have i': "i < MAX_PROCESSES" by (simp add: MAX_PROCESSES_def)
  have two: "2 \<le> unat (next_pid k)" using t by (simp add: table_ok_def)
  have c: "cur k \<noteq> Some i" using t i(2) by (auto simp: table_ok_def)
  have pid: "pid = next_pid k" "pid \<noteq> 0" using r Some two by (auto simp: process_alloc_def Let_def)
  define p' where "p' = procs k' ! i"
  have k': "procs k' = (procs k)[i := p']" "kh k' = kh k" "kpd k' = kpd k" "cur k' = cur k" "cr3 k' = cr3 k" "next_pid k' = next_pid k + 1"
      "isr_user_exit k' = isr_user_exit k" "kthread_entry k' = kthread_entry k"
    and p': "blank p'" "p_pid p' = pid" "p_in_use p'"
    using r Some i len by (auto simp: process_alloc_def Let_def upd_def p'_def blank_def USER_WIN_PAGES_def)
  have np: "unat (next_pid k') = unat (next_pid k) + 1" using n by (simp add: k' unat_word_ariths)
  have old: "unat (p_pid (procs k ! j)) < unat (next_pid k)" if "j < 32" "p_in_use (procs k ! j)" for j
    using t that by (simp add: table_ok_def MAX_PROCESSES_def)
  have nth: "procs k' ! j = (if j = i then p' else procs k ! j)" for j using len i by (simp add: k')
  have "table_ok k'"
    unfolding table_ok_def
  proof (intro conjI allI impI)
    show "2 \<le> unat (next_pid k')" using two np by simp
    show "\<exists>c < MAX_PROCESSES. cur k' = Some c \<and> p_in_use (procs k' ! c) \<and>
        cr3 k' = (if p_pd (procs k' ! c) \<noteq> 0 then p_pd (procs k' ! c) else kpd k')"
    proof -
      obtain c where cc: "c < MAX_PROCESSES" "cur k = Some c" "p_in_use (procs k ! c)"
        "cr3 k = (if p_pd (procs k ! c) \<noteq> 0 then p_pd (procs k ! c) else kpd k)" using t by (auto simp: table_ok_def)
      have "c \<noteq> i" using cc(3) i(2) by auto
      then have "procs k' ! c = procs k ! c" by (simp add: nth)
      then show ?thesis using cc k'(3-6) by auto
    qed
    show "unat (p_pid (procs k' ! j)) < unat (next_pid k')" if "j < MAX_PROCESSES" "p_in_use (procs k' ! j)" for j
      using that old [of j] np p'(2) pid(1) unfolding nth MAX_PROCESSES_def by (auto split: if_splits)
    fix a b assume ab: "a < MAX_PROCESSES" "b < MAX_PROCESSES" "p_in_use (procs k' ! a)" "p_in_use (procs k' ! b)" "p_pid (procs k' ! a) = p_pid (procs k' ! b)"
    show "a = b"
    proof (cases "a = i \<or> b = i")
      case True
      have ne: "p_pid p' \<noteq> p_pid (procs k ! j)" if "j < MAX_PROCESSES" "p_in_use (procs k ! j)" for j
        using old [of j] that p'(2) pid(1) by (auto simp: MAX_PROCESSES_def)
      have "False" if "a \<noteq> b"
      proof (cases "a = i")
        case True
        then show False using that ab ne [of b] by (simp add: nth)
      next
        case False
        then show False using \<open>a = i \<or> b = i\<close> ab ne [of a] by (simp add: nth)
      qed
      then show ?thesis by blast
    next
      case False
      then have "procs k' ! a = procs k ! a" "procs k' ! b = procs k ! b" by (simp_all add: nth)
      then show ?thesis using ab t unfolding table_ok_def by metis
    qed
  qed
  moreover have "mem_inv K R (procs k') (kh k') (kpd k')"
  proof -
    obtain u D where slot: "holds (kh k) (blocks (procs k ! i) u + D) {}" "slot_ok (kh k) (kpd k) (procs k ! i) u"
      "\<And>p' t' h'. holds h' (blocks p' t' + D) {} \<Longrightarrow> keeps D (kh k) h' \<Longrightarrow> slot_ok h' (kpd k) p' t' \<Longrightarrow> mem_inv K R ((procs k)[i := p']) h' (kpd k)"
      using mem_inv_slot [OF m i'] by metis
    have "blocks (procs k ! i) u = {#}" using slot(2) i(2) by (simp add: slot_ok_def)
    moreover have "blocks p' u = {#}" using p'(1) by (simp add: blank_def blocks_def stack_blocks_def dir_blocks_def)
    moreover have "slot_ok (kh k) (kpd k) p' u" using p'(1) by (simp add: slot_ok_def blank_def USER_WIN_PAGES_def)
    ultimately have "mem_inv K R ((procs k)[i := p']) (kh k) (kpd k)" using slot(1) by (intro slot(3) [of "kh k" p' u]) simp_all
    then show ?thesis by (simp add: k')
  qed
  ultimately have ki: "kern_inv K R k'" by (simp add: kern_inv_def)
  have "process_get pid k' = Some i"
    using process_get_eq [of k' i] ki i p' by (simp add: kern_inv_def nth k'(1) len)
  then show ?thesis using pid ki k' c i p' nth by (intro disjI2) auto
qed

text \<open>Kernel stacks.\<close>

lemma stack_orders: "order_for 4096 0 = Some 0" "order_for 8192 0 = Some 1"
  by (simp_all add: order_for.simps PAGE_SIZE_def)

lemma kmalloc_pages:
  assumes h: "holds h D Q" and n: "(n, r) = (4096, 0) \<or> (n, r) = (8192, 1)"
  obtains st h1 where "kmalloc n h = Some (st, h1)" "keeps D h h1" "st = 0 \<longrightarrow> holds h1 D Q"
    "st \<noteq> 0 \<longrightarrow> holds h1 (add_mset (st, int r) D) Q \<and> rd st h1 \<noteq> SLAB_MAGIC"
proof -
  have o: "order_for n 0 = Some r" "2048 < n" using n stack_orders by auto
  then obtain st h1 where k: "kmalloc n h = Some (st, h1)" by (fastforce simp: kmalloc_def split: prod.splits)
  from holds_kmalloc [OF h o(2) k o(1)] that k show ?thesis by blast
qed

lemma push_kernel_stack:
  assumes h: "holds h (add_mset (st, n) D) Q" and top: "(n, sz) = (0, 4096) \<or> (n, sz) = (1, 8192)" and ws: "length ws \<le> 24"
    and r: "push_stack ws (st + sz) h = (sp, h')"
  shows "holds h' (add_mset (st, n) D) Q" "keeps D h h'" "rd st h' = rd st h"
proof -
  have b: "unat st + 4096 * 2 ^ nat n \<le> 0x1E000000" using holds_block(6) [OF h, of st n] by simp
  have "unat sz = 4096 * 2 ^ nat n" using top by auto
  then have "unat (st + sz) = unat st + 4096 * 2 ^ nat n" using b by (simp add: unat_word_ariths)
  moreover have "4096 * 1 \<le> (4096 :: nat) * 2 ^ nat n" by (intro mult_le_mono2) simp
  ultimately have "4 * length ws < unat (st + sz) - unat st" "unat (st + sz) \<le> unat st + 4096 * 2 ^ nat n" using ws by linarith+
  from push_stack_ok [OF h this r] show "holds h' (add_mset (st, n) D) Q" "keeps D h h'" "rd st h' = rd st h" by blast+
qed

lemma blocks_parts:
  "p_kernel_stack p \<noteq> 0 \<Longrightarrow> blocks p t = add_mset (p_kernel_stack p, if p_kernel_stack_size p = 4096 then 0 else 1) (frame_blocks (p_frames p) + dir_blocks (p_pd p) t)"
  "p_kernel_stack p = 0 \<Longrightarrow> blocks p t = frame_blocks (p_frames p) + dir_blocks (p_pd p) t"
  by (simp_all add: blocks_def stack_blocks_def)

lemma dir_blocks_0 [simp]: "dir_blocks 0 t = {#}" by (simp add: dir_blocks_def)

lemma kthread_create_ok:
  assumes inv: "kern_inv K R k" and n: "unat (next_pid k) + 1 < 2 ^ 32"
  shows "\<exists>pid k'. kthread_create name fn arg k = Some (pid, k') \<and> kern_inv K R k'"
proof -
  obtain pid k1 where a: "process_alloc name k = (pid, k1)" by fastforce
  from process_alloc_ok [OF inv a n] consider "pid = 0" "k1 = k" | i where "pid \<noteq> 0" "kern_inv K R k1" "cur k1 = cur k" "i < 32" "process_get pid k1 = Some i"
    "cur k \<noteq> Some i" "blank (procs k1 ! i)" "p_pid (procs k1 ! i) = pid" by blast
  then show ?thesis
  proof cases
    case 1
    then show ?thesis using inv a by (simp add: kthread_create_def)
  next
    case 2
    let ?p = "procs k1 ! i"
    have bl: "p_in_use ?p" "p_kernel_stack ?p = 0" "p_frames ?p = replicate 64 0" "p_pd ?p = 0" using 2(7) by (simp_all add: blank_def)
    obtain t D where slot: "holds (kh k1) (blocks ?p t + D) {}" "slot_ok (kh k1) (kpd k1) ?p t"
      "\<And>f t' h'. holds h' (blocks (f ?p) t' + D) {} \<Longrightarrow> keeps D (kh k1) h' \<Longrightarrow> slot_ok h' (kpd k1) (f ?p) t' \<Longrightarrow>
        p_in_use (f ?p) \<Longrightarrow> p_pid (f ?p) = p_pid ?p \<Longrightarrow>
        (cur k1 = Some i \<longrightarrow> cr3 k1 = (if p_pd (f ?p) \<noteq> 0 then p_pd (f ?p) else kpd k1)) \<Longrightarrow> kern_inv K R (upd i f (k1\<lparr>kh := h'\<rparr>))"
      using kern_inv_slot [OF 2(2,4) bl(1)] by metis
    have D: "holds (kh k1) D {}" using slot(1) bl by (simp add: blocks_parts)
    obtain st h1 where km: "kmalloc 4096 (kh k1) = Some (st, h1)" "keeps D (kh k1) h1" "st = 0 \<longrightarrow> holds h1 D {}"
      "st \<noteq> 0 \<longrightarrow> holds h1 (add_mset (st, int 0) D) {} \<and> rd st h1 \<noteq> SLAB_MAGIC"
      using kmalloc_pages [OF D, of 4096 0] by auto
    have c: "cur k1 \<noteq> Some i" using 2(3,6) by simp
    show ?thesis
    proof (cases "st = 0")
      case True
      have "kern_inv K R (upd i (\<lambda>p. p) (k1\<lparr>kh := h1\<rparr>))"
      proof (rule slot(3) [of h1 "\<lambda>p. p" t])
        show "holds h1 (blocks ?p t + D) {}" using km(3) True bl by (simp add: blocks_parts)
        show "slot_ok h1 (kpd k1) ?p t" using slot(2) bl by (simp add: slot_ok_def)
      qed (use km(2) bl c in simp_all)
      then have k2: "kern_inv K R (k1\<lparr>kh := h1\<rparr>)" by (rule kern_inv_cong) simp_all
      have g: "process_get pid (k1\<lparr>kh := h1\<rparr>) = Some i" using 2(5) by (simp add: process_get_def)
      from process_free_ok [OF k2 g] c obtain k3 where "process_free pid (k1\<lparr>kh := h1\<rparr>) = Some k3" "kern_inv K R k3" by auto
      then show ?thesis using a 2(1,5) km(1) True by (simp add: kthread_create_def)
    next
      case False
      obtain sp h2 where p: "push_stack [arg, fn, 0, kthread_entry k1, 0, 0, 0, 0] (st + 4096) h1 = (sp, h2)" by fastforce
      have h1: "holds h1 (add_mset (st, 0) D) {}" using km(4) False by simp
      note P = push_kernel_stack [OF h1 _ _ p]
      let ?f = "\<lambda>p. p\<lparr>p_kernel_stack := st, p_kernel_stack_size := 4096, p_esp := sp, p_state := PROC_STATE_RUNNING\<rparr>"
      have "kern_inv K R (upd i ?f (k1\<lparr>kh := h2\<rparr>))"
      proof (rule slot(3) [of h2 ?f t])
        show "holds h2 (blocks (?f ?p) t + D) {}" using P(1) False bl by (simp add: blocks_parts)
        show "slot_ok h2 (kpd k1) (?f ?p) t" using slot(2) bl P(3) km(4) False by (simp add: slot_ok_def)
        show "keeps D (kh k1) h2" using km(2) P(2) keeps_trans by simp
      qed (use bl c in simp_all)
      then show ?thesis using a 2(1,5) km(1) False p by (simp add: kthread_create_def)
    qed
  qed
qed

text \<open>The parts of making a program: stack, frames, directory. \<open>S\<close> is the stack.\<close>

lemma user_window: "window_ok USER_WIN_BASE 64" "pde_idx USER_WIN_BASE = 0" by (simp_all add: window_ok_def user_consts pde_idx_def)

lemma new_frames:
  assumes h: "holds h (add_mset (st, n) D) {}" and f: "fills fill" and r: "take_frames False fill [0 ..< 64] (replicate 64 0) h = (ok, fs, h1)"
  shows "holds h1 (add_mset (st, n) (frame_blocks fs + D)) {}" "keeps (add_mset (st, n) D) h h1" "length fs = 64" "ok \<Longrightarrow> 0 \<notin> set fs"
proof -
  have h': "holds h (frame_blocks (replicate 64 0) + add_mset (st, n) D) {}" using h by simp
  have o: "other_frames [0 ..< 64] (replicate 64 0) = replicate 64 0" by (simp add: other_frames_def list_eq_iff_nth_eq)
  have T: "holds h1 (frame_blocks fs + add_mset (st, n) D) {} \<and> keeps (frame_blocks (other_frames [0 ..< 64] (replicate 64 0)) + add_mset (st, n) D) h h1 \<and>
    length fs = length (replicate 64 (0 :: u32)) \<and>
    (\<forall>j < length (replicate 64 (0 :: u32)). j \<notin> set [0 ..< 64] \<longrightarrow> fs ! j = replicate 64 0 ! j) \<and> (ok \<longrightarrow> (\<forall>j \<in> set [0 ..< 64]. fs ! j \<noteq> 0))"
    by (rule take_frames_ok [OF f h' _ _ _ r]) (simp_all, auto)
  then show "holds h1 (add_mset (st, n) (frame_blocks fs + D)) {}" "keeps (add_mset (st, n) D) h h1" "length fs = 64"
    unfolding o by simp_all
  show "ok \<Longrightarrow> 0 \<notin> set fs" using T by (auto simp: in_set_conv_nth)
qed

lemma new_dir:
  assumes h: "holds h E {}" and kp: "(kp, 0) \<in># E" and fs: "length fs = 64" and r: "vmm_create_user_pd kp fs USER_WIN_BASE h = (pd, h1)"
  shows "keeps E h h1" "pd = 0 \<Longrightarrow> holds h1 E {}" "pd \<noteq> 0 \<Longrightarrow> \<exists>t. holds h1 (dir_blocks pd t + E) {} \<and> user_dir h1 kp pd t fs"
proof -
  have w: "window_ok USER_WIN_BASE (length fs)" using user_window(1) fs by simp
  note C = vmm_create_user_pd_ok [OF h kp w r]
  show k: "keeps E h h1" by (rule C(1))
  show "pd = 0 \<Longrightarrow> holds h1 E {}" by (rule C(2))
  assume pd: "pd \<noteq> 0"
  obtain t where t: "holds h1 (add_mset (pd, 0) (add_mset (t, 0) E)) {}" "user_space h1 pd t USER_WIN_BASE fs"
    "\<And>i. 0 < i \<Longrightarrow> i < 1024 \<Longrightarrow> rd (entry pd i) h1 = user_pde kp t USER_WIN_BASE h i" using C(3) [OF pd] by blast
  have "user_pde kp t USER_WIN_BASE h i = user_pde kp t USER_WIN_BASE h1 i" if "i < 1024" for i
    using entry_kept [OF k kp holds_block(1) [OF h kp] that] by (simp add: user_pde_def)
  then have "user_dir h1 kp pd t fs" using t(2,3) by (simp add: user_dir_def)
  moreover have "holds h1 (dir_blocks pd t + E) {}" using t(1) pd by (simp add: dir_blocks_def)
  ultimately show "\<exists>t. holds h1 (dir_blocks pd t + E) {} \<and> user_dir h1 kp pd t fs" by blast
qed

text \<open>A program while it is made: what its slot \<open>i\<close> holds so far, beside \<open>D\<close>.\<close>

definition fills_slot :: "(u32 \<times> int) multiset \<Rightarrow> (u32 \<times> int) multiset \<Rightarrow> kern \<Rightarrow> nat \<Rightarrow> (u32 \<times> int) multiset \<Rightarrow> bool" where
  "fills_slot K R k i D \<longleftrightarrow> (kpd k, 0) \<in># D \<and> (\<forall>f t h. holds h (blocks (f (procs k ! i)) t + D) {} \<longrightarrow> keeps D (kh k) h \<longrightarrow>
     slot_ok h (kpd k) (f (procs k ! i)) t \<longrightarrow> p_in_use (f (procs k ! i)) \<longrightarrow> p_pid (f (procs k ! i)) = p_pid (procs k ! i) \<longrightarrow>
     kern_inv K R (upd i f (k\<lparr>kh := h\<rparr>)))"

definition partial :: "kheap \<Rightarrow> kheap \<Rightarrow> u32 \<Rightarrow> (u32 \<times> int) multiset \<Rightarrow> u32 \<Rightarrow> u32 list \<Rightarrow> u32 \<Rightarrow> u32 \<Rightarrow> bool" where
  "partial h0 h kp D st fs pd t \<longleftrightarrow> st \<noteq> 0 \<and> length fs = 64 \<and> (kp, 0) \<in># D \<and> slab_page kp \<and>
     holds h (add_mset (st, 1) (frame_blocks fs + dir_blocks pd t + D)) {} \<and> rd st h \<noteq> SLAB_MAGIC \<and> keeps D h0 h \<and>
     (pd \<noteq> 0 \<longrightarrow> user_dir h kp pd t fs)"

lemma partial_inv:
  assumes F: "fills_slot K R k i D" and p: "partial (kh k) h (kpd k) D st fs pd t"
    and f: "p_kernel_stack (f (procs k ! i)) = st" "p_kernel_stack_size (f (procs k ! i)) = 8192" "p_frames (f (procs k ! i)) = fs"
      "p_pd (f (procs k ! i)) = pd" "p_in_use (f (procs k ! i))" "p_pid (f (procs k ! i)) = p_pid (procs k ! i)"
  shows "kern_inv K R (upd i f (k\<lparr>kh := h\<rparr>))"
proof -
  have "blocks (f (procs k ! i)) t + D = add_mset (st, 1) (frame_blocks fs + dir_blocks pd t + D)"
    using p f by (simp add: blocks_parts partial_def)
  moreover have "slot_ok h (kpd k) (f (procs k ! i)) t" using p f by (simp add: slot_ok_def partial_def USER_WIN_PAGES_def)
  ultimately show ?thesis using F p f(5,6) unfolding fills_slot_def partial_def by metis
qed

lemma stage_stack:
  assumes inv: "kern_inv K R k" and i: "i < 32" "cur k \<noteq> Some i" and bl: "blank (procs k ! i)"
  obtains D st h where "fills_slot K R k i D" "kmalloc USER_KSTACK_SIZE (kh k) = Some (st, h)" "st = 0 \<Longrightarrow> kern_inv K R (k\<lparr>kh := h\<rparr>)"
    "st \<noteq> 0 \<Longrightarrow> partial (kh k) h (kpd k) D st (replicate 64 0) 0 0"
    "\<And>j. j < 32 \<Longrightarrow> j \<noteq> i \<Longrightarrow> \<exists>u. blocks (procs k ! j) u \<subseteq># D \<and> slot_ok (kh k) (kpd k) (procs k ! j) u"
proof -
  let ?p = "procs k ! i"
  have bl: "p_in_use ?p" "p_kernel_stack ?p = 0" "p_frames ?p = replicate 64 0" "p_pd ?p = 0" using bl by (simp_all add: blank_def)
  obtain t D where slot: "holds (kh k) (blocks ?p t + D) {}" "slot_ok (kh k) (kpd k) ?p t" "(kpd k, 0) \<in># D"
    "\<And>f t' h'. holds h' (blocks (f ?p) t' + D) {} \<Longrightarrow> keeps D (kh k) h' \<Longrightarrow> slot_ok h' (kpd k) (f ?p) t' \<Longrightarrow>
      p_in_use (f ?p) \<Longrightarrow> p_pid (f ?p) = p_pid ?p \<Longrightarrow>
      (cur k = Some i \<longrightarrow> cr3 k = (if p_pd (f ?p) \<noteq> 0 then p_pd (f ?p) else kpd k)) \<Longrightarrow> kern_inv K R (upd i f (k\<lparr>kh := h'\<rparr>))"
    "\<And>j. j < 32 \<Longrightarrow> j \<noteq> i \<Longrightarrow> \<exists>u. blocks (procs k ! j) u \<subseteq># D \<and> slot_ok (kh k) (kpd k) (procs k ! j) u"
    using kern_inv_slot [OF inv i(1) bl(1)] by metis
  have F: "fills_slot K R k i D" using slot(3,4) i(2) by (simp add: fills_slot_def)
  have D: "holds (kh k) D {}" using slot(1) bl by (simp add: blocks_parts)
  obtain st h where km: "kmalloc 8192 (kh k) = Some (st, h)" "keeps D (kh k) h" "st = 0 \<longrightarrow> holds h D {}"
    "st \<noteq> 0 \<longrightarrow> holds h (add_mset (st, int 1) D) {} \<and> rd st h \<noteq> SLAB_MAGIC"
    using kmalloc_pages [OF D, of 8192 1] by auto
  show ?thesis
  proof (rule that [OF F])
    show "kmalloc USER_KSTACK_SIZE (kh k) = Some (st, h)" using km(1) by (simp add: USER_KSTACK_SIZE_def)
    have "slot_ok h (kpd k) ?p t" using slot(2) bl by (simp add: slot_ok_def)
    then have "st = 0 \<Longrightarrow> kern_inv K R (upd i (\<lambda>p. p) (k\<lparr>kh := h\<rparr>))"
      by (intro slot(4) [of h "\<lambda>p. p" t]) (use km(2,3) bl i(2) in \<open>simp_all add: blocks_parts\<close>)
    then show "st = 0 \<Longrightarrow> kern_inv K R (k\<lparr>kh := h\<rparr>)" by (simp add: upd_def)
    show "st \<noteq> 0 \<Longrightarrow> partial (kh k) h (kpd k) D st (replicate 64 0) 0 0"
      using km(2,4) slot(3) holds_block(1) [OF D slot(3)] by (simp add: partial_def)
    show "\<And>j. j < 32 \<Longrightarrow> j \<noteq> i \<Longrightarrow> \<exists>u. blocks (procs k ! j) u \<subseteq># D \<and> slot_ok (kh k) (kpd k) (procs k ! j) u" by (rule slot(5))
  qed
qed

lemma stage_frames:
  assumes p: "partial h0 h kp D st (replicate 64 0) 0 t" and f: "fills fill" and r: "take_frames False fill [0 ..< 64] (replicate 64 0) h = (ok, fs, h1)"
  shows "partial h0 h1 kp D st fs 0 t" "ok \<Longrightarrow> 0 \<notin> set fs" "keeps D h h1"
proof -
  have "holds h (add_mset (st, 1) D) {}" using p by (simp add: partial_def)
  note T = new_frames [OF this f r]
  have "rd st h1 = rd st h" using keepsD [OF T(2), of st] block_pages_first [of st 1] by simp
  moreover show k: "keeps D h h1" using keeps_mono [OF _ T(2), of D] by simp
  ultimately show "partial h0 h1 kp D st fs 0 t" using p T(1,3) keeps_trans [of D h0 h h1] by (simp add: partial_def)
  show "ok \<Longrightarrow> 0 \<notin> set fs" by (rule T(4))
qed

lemma stage_dir:
  assumes p: "partial h0 h kp D st fs 0 t" and r: "vmm_create_user_pd kp fs USER_WIN_BASE h = (pd, h1)"
  obtains u where "partial h0 h1 kp D st fs pd u"
proof -
  let ?E = "add_mset (st, 1) (frame_blocks fs + D)"
  have E: "holds h ?E {}" "(kp, 0) \<in># ?E" "length fs = 64" using p by (simp_all add: partial_def)
  note C = new_dir [OF E r]
  have "rd st h1 = rd st h" using keepsD [OF C(1), of st] block_pages_first [of st 1] by simp
  moreover have "keeps D h h1" by (rule keeps_mono [OF _ C(1)]) simp
  ultimately have k: "keeps D h0 h1" "rd st h1 \<noteq> SLAB_MAGIC" using p keeps_trans by (auto simp: partial_def)
  show ?thesis
  proof (cases "pd = 0")
    case True
    then show ?thesis using that [of 0] C(2) k p by (simp add: partial_def)
  next
    case False
    then obtain u where "holds h1 (dir_blocks pd u + ?E) {}" "user_dir h1 kp pd u fs" using C(3) by blast
    then show ?thesis using that [of u] k p by (simp add: partial_def ac_simps)
  qed
qed

text \<open>Later steps change the frames' or the stack's contents only.\<close>

lemma partial_step:
  assumes p: "partial h0 h kp D st fs pd t" and k: "keeps (dir_blocks pd t + D) h h1" and m: "rd st h1 = rd st h"
    and h: "holds h1 (add_mset (st, 1) (frame_blocks fs + dir_blocks pd t + D)) {}"
  shows "partial h0 h1 kp D st fs pd t"
proof -
  have "keeps D h h1" by (rule keeps_mono [OF _ k]) simp
  moreover have "user_dir h1 kp pd t fs" if "pd \<noteq> 0"
    by (rule user_dir_keeps [OF _ k]) (use p that in \<open>simp_all add: partial_def dir_blocks_def\<close>)
  ultimately show ?thesis using p h m keeps_trans [of D h0 h h1] by (simp add: partial_def)
qed

lemma stage_image:
  assumes p: "partial h0 h kp D st fs pd t" and n: "0 \<notin> set fs" and v: "ajos_bin_valid img" and r: "user_load_image fs img argv h = (eip, esp, h1)"
  shows "partial h0 h1 kp D st fs pd t"
proof -
  let ?E = "add_mset (st, 1) (dir_blocks pd t + D)"
  have "holds h (frame_blocks fs + ?E) {}" "length fs = 64" using p by (simp_all add: partial_def ac_simps)
  note L = user_load_image_ok [OF this n v r]
  show ?thesis
  proof (rule partial_step [OF p])
    show "keeps (dir_blocks pd t + D) h h1" by (rule keeps_mono [OF _ L(2)]) simp
    show "rd st h1 = rd st h" using keepsD [OF L(2), of st] block_pages_first [of st 1] by simp
    show "holds h1 (add_mset (st, 1) (frame_blocks fs + dir_blocks pd t + D)) {}" using L(1) by (simp add: ac_simps)
  qed
qed

lemma stage_push:
  assumes p: "partial h0 h kp D st fs pd t" and r: "kstack_push_user_frame resume (st + USER_KSTACK_SIZE) fr eax h = (sp, h1)"
  shows "partial h0 h1 kp D st fs pd t"
proof -
  have h: "holds h (add_mset (st, 1) (frame_blocks fs + dir_blocks pd t + D)) {}" using p by (simp add: partial_def)
  note P = push_kernel_stack [OF h _ _ r [unfolded kstack_push_user_frame_def USER_KSTACK_SIZE_def], simplified]
  show ?thesis
    by (rule partial_step [OF p _ P(3) P(1)]) (rule keeps_mono [OF _ P(2)], simp add: ac_simps)
qed

text \<open>Every failure after \<open>process_alloc\<close> ends in \<open>process_free\<close>.\<close>

lemma fail_exit:
  assumes inv: "kern_inv K R k" and i: "i < 32" "p_in_use (procs k ! i)" "p_pid (procs k ! i) = pid" "cur k \<noteq> Some i"
  shows "\<exists>k'. process_free pid k = Some k' \<and> kern_inv K R k'"
proof -
  have "process_get pid k = Some i"
    using process_get_eq [of k i] inv kern_inv_length [OF inv] i by (simp add: kern_inv_def)
  from process_free_ok [OF inv this i(4)] show ?thesis by blast
qed

lemma partial_fail:
  assumes F: "fills_slot K R k i D" and p: "partial (kh k) h (kpd k) D st fs pd t" and i: "i < length (procs k)" "i < 32" "cur k \<noteq> Some i" "p_pid (procs k ! i) = pid"
    and f: "p_kernel_stack (f (procs k ! i)) = st" "p_kernel_stack_size (f (procs k ! i)) = 8192" "p_frames (f (procs k ! i)) = fs"
      "p_pd (f (procs k ! i)) = pd" "p_in_use (f (procs k ! i))" "p_pid (f (procs k ! i)) = p_pid (procs k ! i)"
  shows "\<exists>k'. process_free pid (upd i f (k\<lparr>kh := h\<rparr>)) = Some k' \<and> kern_inv K R k'"
proof (rule fail_exit [OF _ i(2)])
  show "kern_inv K R (upd i f (k\<lparr>kh := h\<rparr>))" by (rule partial_inv [where f = f, OF F p]) (use f in simp_all)
qed (use i f in simp_all)

lemma user_spawn_ok:
  assumes inv: "kern_inv K R k" and n: "unat (next_pid k) + 1 < 2 ^ 32"
  shows "\<exists>pid k'. user_spawn name img argv bg k = Some (pid, k') \<and> kern_inv K R k'"
proof (cases "ajos_bin_valid img")
  case False
  then show ?thesis using inv by (simp add: user_spawn_def)
next
  case valid: True
  obtain pid k1 where a: "process_alloc name k = (pid, k1)" by fastforce
  from process_alloc_ok [OF inv a n] consider "pid = 0" "k1 = k" | i where "pid \<noteq> 0" "kern_inv K R k1" "cur k1 \<noteq> Some i" "i < 32" "process_get pid k1 = Some i"
    "blank (procs k1 ! i)" "p_pid (procs k1 ! i) = pid" by auto
  then show ?thesis
  proof cases
    case 1
    then show ?thesis using inv a valid by (simp add: user_spawn_def)
  next
    case (2 i)
    have i: "i < length (procs k1)" "i < 32" "cur k1 \<noteq> Some i" "p_pid (procs k1 ! i) = pid" using 2 kern_inv_length [OF 2(2)] by simp_all
    have bl: "p_in_use (procs k1 ! i)" "p_frames (procs k1 ! i) = replicate 64 0" "p_pd (procs k1 ! i) = 0" using 2(6) by (simp_all add: blank_def)
    obtain D st h1 where S: "fills_slot K R k1 i D" "kmalloc USER_KSTACK_SIZE (kh k1) = Some (st, h1)" "st = 0 \<Longrightarrow> kern_inv K R (k1\<lparr>kh := h1\<rparr>)"
      "st \<noteq> 0 \<Longrightarrow> partial (kh k1) h1 (kpd k1) D st (replicate 64 0) 0 0" using stage_stack [OF 2(2,4,3,6)] by metis
    note fail = partial_fail [OF S(1) _ i]
    obtain okf fs h2 where tf: "take_frames False (\<lambda>_ _ h. h) [0 ..< 64] (replicate 64 0) h1 = (okf, fs, h2)" by (metis surj_pair)
    obtain pd h3 where cr: "vmm_create_user_pd (kpd k1) fs USER_WIN_BASE h2 = (pd, h3)" by fastforce
    obtain eip esp h4 where li: "user_load_image fs img argv h3 = (eip, esp, h4)" by (metis surj_pair)
    let ?fr = "zero_regs\<lparr>r_ss := USER_DS_SEL, r_useresp := esp, r_efl := 0x202, r_cs := USER_CS_SEL,
      r_eip := eip, r_ds := USER_DS_SEL, r_es := USER_DS_SEL, r_fs := USER_DS_SEL, r_gs := USER_DS_SEL, r_int_no := 0x80\<rparr>"
    obtain sp h5 where pu: "kstack_push_user_frame (isr_user_exit k1) (st + USER_KSTACK_SIZE) ?fr 0 h4 = (sp, h5)" by fastforce
    show ?thesis
    proof (cases "st = 0")
      case True
      from fail_exit [OF S(3) [OF True] i(2)] i bl obtain k' where "process_free pid (k1\<lparr>kh := h1\<rparr>) = Some k'" "kern_inv K R k'" by auto
      then show ?thesis using a 2(1,5) S(2) True valid by (simp add: user_spawn_def)
    next
      case st: False
      note P1 = S(4) [OF st]
      let ?f1 = "\<lambda>p. p\<lparr>p_kernel_stack := st, p_kernel_stack_size := 8192\<rparr>"
      let ?f2 = "\<lambda>p. (?f1 p)\<lparr>p_frames := fs\<rparr>"
      let ?f3 = "\<lambda>p. (?f2 p)\<lparr>p_pd := pd\<rparr>"
      let ?f4 = "\<lambda>p. (?f3 p)\<lparr>p_esp := sp, p_is_user_prog := True, p_is_background := bg, p_state := PROC_STATE_RUNNING\<rparr>"
      obtain k2 where e1: "process_free pid (upd i ?f1 (k1\<lparr>kh := h1\<rparr>)) = Some k2" "kern_inv K R k2" using fail [OF P1, of ?f1] bl by auto
      note P2 = stage_frames [OF P1 fills_nothing tf]
      obtain k3 where e2: "process_free pid (upd i ?f2 (k1\<lparr>kh := h2\<rparr>)) = Some k3" "kern_inv K R k3" using fail [OF P2(1), of ?f2] bl by auto
      obtain t where P3: "partial (kh k1) h3 (kpd k1) D st fs pd t" using stage_dir [OF P2(1) cr] by blast
      obtain k4 where e3: "process_free pid (upd i ?f3 (k1\<lparr>kh := h3\<rparr>)) = Some k4" "kern_inv K R k4" using fail [OF P3, of ?f3] bl by auto
      have "kern_inv K R (upd i ?f4 (k1\<lparr>kh := h5\<rparr>))" if "okf"
        by (rule partial_inv [OF S(1) stage_push [OF stage_image [OF P3 P2(2) [OF that] valid li] pu]]) (use bl in simp_all)
      then show ?thesis using a 2(1,5) S(2) st valid tf cr li pu bl i(1) e1 e2 e3
        by (cases "pd = 0") (simp_all add: user_spawn_def USER_KSTACK_SIZE_def USER_WIN_PAGES_def upd_upd Let_def)
    qed
  qed
qed

lemma sys_fork_ok:
  assumes inv: "kern_inv K R k" and n: "unat (next_pid k) + 1 < 2 ^ 32"
  shows "\<exists>pid k'. sys_fork r k = Some (pid, k') \<and> kern_inv K R k'"
proof -
  obtain c where c: "cur k = Some c" using inv by (auto simp: kern_inv_def table_ok_def)
  let ?q = "procs k ! c"
  show ?thesis
  proof (cases "\<not> p_is_user_prog ?q \<or> p_pd ?q = 0 \<or> pmm_get_free_pages (pm (kh k)) < of_nat USER_WIN_PAGES + 8")
    case True
    then show ?thesis using inv c by (auto simp: sys_fork_def Let_def)
  next
    case user: False
    obtain pid k1 where a: "process_alloc (p_name ?q) k = (pid, k1)" by fastforce
    from process_alloc_ok [OF inv a n] consider "pid = 0" "k1 = k" | i where "pid \<noteq> 0" "kern_inv K R k1" "cur k1 \<noteq> Some i" "i < 32" "process_get pid k1 = Some i"
      "blank (procs k1 ! i)" "p_pid (procs k1 ! i) = pid" by auto
    then show ?thesis
    proof cases
      case 1
      then show ?thesis using inv a user c by (simp add: sys_fork_def)
    next
      case (2 i)
      have i: "i < length (procs k1)" "i < 32" "cur k1 \<noteq> Some i" "p_pid (procs k1 ! i) = pid" using 2 kern_inv_length [OF 2(2)] by simp_all
      have bl: "p_in_use (procs k1 ! i)" "p_frames (procs k1 ! i) = replicate 64 0" "p_pd (procs k1 ! i) = 0" using 2(6) by (simp_all add: blank_def)
      obtain D st h1 where S: "fills_slot K R k1 i D" "kmalloc USER_KSTACK_SIZE (kh k1) = Some (st, h1)" "st = 0 \<Longrightarrow> kern_inv K R (k1\<lparr>kh := h1\<rparr>)"
        "st \<noteq> 0 \<Longrightarrow> partial (kh k1) h1 (kpd k1) D st (replicate 64 0) 0 0" using stage_stack [OF 2(2,4,3,6)] by metis
      note fail = partial_fail [OF S(1) _ i]
      let ?fill = "\<lambda>j a. mem_copy_heap a (p_frames ?q ! j) 4096"
      obtain okf fs h2 where tf: "take_frames False ?fill [0 ..< 64] (replicate 64 0) h1 = (okf, fs, h2)" by (metis surj_pair)
      obtain pd h3 where cr: "vmm_create_user_pd (kpd k1) fs USER_WIN_BASE h2 = (pd, h3)" by fastforce
      obtain sp h5 where pu: "kstack_push_user_frame (isr_user_exit k1) (st + USER_KSTACK_SIZE) r 0 h3 = (sp, h5)" by fastforce
      show ?thesis
      proof (cases "st = 0")
        case True
        from fail_exit [OF S(3) [OF True] i(2)] i bl obtain k' where "process_free pid (k1\<lparr>kh := h1\<rparr>) = Some k'" "kern_inv K R k'" by auto
        then show ?thesis using a 2(1,5) S(2) True user c by (simp add: sys_fork_def)
      next
        case st: False
        note P1 = S(4) [OF st]
        let ?f2 = "\<lambda>p. p\<lparr>p_kernel_stack := st, p_kernel_stack_size := 8192, p_frames := fs\<rparr>"
        let ?f3 = "\<lambda>p. (?f2 p)\<lparr>p_pd := pd\<rparr>"
        let ?f4 = "\<lambda>p. (?f3 p)\<lparr>p_esp := sp, p_is_user_prog := True, p_is_background := p_is_background ?q, p_state := PROC_STATE_RUNNING\<rparr>"
        note P2 = stage_frames [OF P1 fills_copy tf]
        obtain k3 where e2: "process_free pid (upd i ?f2 (k1\<lparr>kh := h2\<rparr>)) = Some k3" "kern_inv K R k3" using fail [OF P2(1), of ?f2] bl by auto
        obtain t where P3: "partial (kh k1) h3 (kpd k1) D st fs pd t" using stage_dir [OF P2(1) cr] by blast
        obtain k4 where e3: "process_free pid (upd i ?f3 (k1\<lparr>kh := h3\<rparr>)) = Some k4" "kern_inv K R k4" using fail [OF P3, of ?f3] bl by auto
        have "kern_inv K R (upd i ?f4 (k1\<lparr>kh := h5\<rparr>))"
          by (rule partial_inv [OF S(1) stage_push [OF P3 pu]]) (use bl in simp_all)
        then show ?thesis using a 2(1,5) S(2) st user c tf cr pu bl i(1) e2 e3
          by (cases "pd = 0"; cases okf) (simp_all add: sys_fork_def USER_KSTACK_SIZE_def USER_WIN_PAGES_def upd_upd Let_def)
      qed
    qed
  qed
qed

text \<open>Changes of the table that leave alone what the processes hold.\<close>

definition same_slot :: "process \<Rightarrow> process \<Rightarrow> bool" where
  "same_slot p q \<longleftrightarrow> p_in_use q = p_in_use p \<and> p_pid q = p_pid p \<and> p_kernel_stack q = p_kernel_stack p \<and>
     p_kernel_stack_size q = p_kernel_stack_size p \<and> p_frames q = p_frames p \<and> p_pd q = p_pd p"

lemma same_slot_refl [simp]: "same_slot p p" by (simp add: same_slot_def)

lemma kern_inv_same:
  assumes inv: "kern_inv K R k" and len: "length (procs k') = length (procs k)" and same: "\<And>i. i < 32 \<Longrightarrow> same_slot (procs k ! i) (procs k' ! i)"
    and k': "kh k' = kh k" "kpd k' = kpd k" "next_pid k' = next_pid k"
    and c: "c < 32" "cur k' = Some c" "p_in_use (procs k ! c)" "cr3 k' = (if p_pd (procs k ! c) \<noteq> 0 then p_pd (procs k ! c) else kpd k)"
  shows "kern_inv K R k'"
proof -
  have m: "mem_inv K R (procs k) (kh k) (kpd k)" and t: "table_ok k" using inv by (simp_all add: kern_inv_def)
  obtain T where T: "holds (kh k) (all_blocks (procs k) T + (K + R)) {}" "\<And>i. i < 32 \<Longrightarrow> slot_ok (kh k) (kpd k) (procs k ! i) (T i)"
    using m by (auto simp: mem_inv_def MAX_PROCESSES_def)
  have b: "blocks (procs k' ! i) u = blocks (procs k ! i) u" if "i < 32" for i u
    using same [OF that] by (simp add: same_slot_def blocks_def stack_blocks_def)
  have "all_blocks (procs k') T = all_blocks (procs k) T"
    unfolding all_blocks_def len using b kern_inv_length [OF inv] by (intro sum.cong) simp_all
  moreover have "slot_ok (kh k) (kpd k) (procs k' ! i) (T i)" if "i < 32" for i
    using T(2) [OF that] b [OF that] same [OF that] by (simp add: same_slot_def slot_ok_def)
  moreover have "length (procs k') = 32" "kernel_dir (kh k) (kpd k) K" using m len by (simp_all add: mem_inv_def MAX_PROCESSES_def)
  ultimately have "mem_inv K R (procs k') (kh k') (kpd k')"
    using T(1) unfolding mem_inv_def MAX_PROCESSES_def k' by metis
  moreover have "table_ok k'"
    unfolding table_ok_def
  proof (intro conjI)
    show "\<exists>c < MAX_PROCESSES. cur k' = Some c \<and> p_in_use (procs k' ! c) \<and> cr3 k' = (if p_pd (procs k' ! c) \<noteq> 0 then p_pd (procs k' ! c) else kpd k')"
      using c same [OF c(1)] k'(2) by (intro exI [of _ c]) (simp add: same_slot_def MAX_PROCESSES_def)
    show "2 \<le> unat (next_pid k')" using t k'(3) by (simp add: table_ok_def)
    show "\<forall>i < MAX_PROCESSES. p_in_use (procs k' ! i) \<longrightarrow> unat (p_pid (procs k' ! i)) < unat (next_pid k')"
      using t same k'(3) by (simp add: same_slot_def table_ok_def MAX_PROCESSES_def)
    show "\<forall>i < MAX_PROCESSES. \<forall>j < MAX_PROCESSES. p_in_use (procs k' ! i) \<longrightarrow> p_in_use (procs k' ! j) \<longrightarrow>
        p_pid (procs k' ! i) = p_pid (procs k' ! j) \<longrightarrow> i = j"
      using t same by (simp add: same_slot_def table_ok_def MAX_PROCESSES_def)
  qed
  ultimately show ?thesis by (simp add: kern_inv_def)
qed

text \<open>The current process and its directory.\<close>

lemma current:
  assumes "kern_inv K R k"
  obtains c where "c < 32" "cur k = Some c" "p_in_use (procs k ! c)" "cr3 k = (if p_pd (procs k ! c) \<noteq> 0 then p_pd (procs k ! c) else kpd k)"
  using assms by (auto simp: kern_inv_def table_ok_def MAX_PROCESSES_def)

lemma upd_same:
  assumes inv: "kern_inv K R k" and f: "\<And>p. same_slot p (f p)"
  shows "kern_inv K R (upd i f k)"
proof -
  obtain c where c: "c < 32" "cur k = Some c" "p_in_use (procs k ! c)" "cr3 k = (if p_pd (procs k ! c) \<noteq> 0 then p_pd (procs k ! c) else kpd k)"
    using current [OF inv] .
  show ?thesis
  proof (rule kern_inv_same [OF inv _ _ _ _ _ c(1)])
    show "same_slot (procs k ! j) (procs (upd i f k) ! j)" for j
      by (cases "j = i"; cases "i < length (procs k)") (simp_all add: f list_update_beyond)
  qed (use c in simp_all)
qed

lemma schedule_ok:
  assumes inv: "kern_inv K R k" and kp: "kpd k \<noteq> 0"
  shows "kern_inv K R (schedule sp k)"
proof -
  obtain c where c: "c < 32" "cur k = Some c" using current [OF inv] by blast
  show ?thesis
  proof (cases "next_task k c")
    case (Some n)
    show ?thesis
    proof (cases "n = c")
      case False
      from Some have n: "n < 32" "runnable (procs k ! n)"
        by (auto simp: next_task_def find_Some_iff MAX_PROCESSES_def)
      let ?k = "schedule sp k"
      have e: "procs ?k = (procs k)[c := (procs k ! c)\<lparr>p_esp := sp\<rparr>]" "kh ?k = kh k" "kpd ?k = kpd k" "next_pid ?k = next_pid k" "cur ?k = Some n"
        "cr3 ?k = (if p_pd (procs k ! n) \<noteq> 0 then p_pd (procs k ! n) else kpd k)"
        using c Some False kp by (auto simp: schedule_def Let_def vmm_load_pd_def)
      have "same_slot (procs k ! i) (procs ?k ! i)" if "i < 32" for i
        using that c(1) kern_inv_length [OF inv] by (simp add: e nth_list_update same_slot_def)
      then show ?thesis using n e by (intro kern_inv_same [OF inv, of ?k n]) (simp_all add: runnable_def)
    qed (use inv c Some in \<open>simp add: schedule_def\<close>)
  qed (use inv c in \<open>simp add: schedule_def\<close>)
qed

lemma wake_same: "same_slot p (wake now p)" by (simp add: wake_def same_slot_def)

lemma timer_tick_ok:
  assumes inv: "kern_inv K R k" and kp: "kpd k \<noteq> 0"
  shows "kern_inv K R (timer_tick ring3 sp k)"
proof -
  obtain c where c: "c < 32" "cur k = Some c" "p_in_use (procs k ! c)" "cr3 k = (if p_pd (procs k ! c) \<noteq> 0 then p_pd (procs k ! c) else kpd k)"
    using current [OF inv] .
  let ?k1 = "k\<lparr>pit_ticks := pit_ticks k + 1, procs := map (wake (pit_ticks k + 1)) (procs k)\<rparr>"
  have 1: "kern_inv K R ?k1"
    by (rule kern_inv_same [OF inv _ _ _ _ _ c(1)]) (use c wake_same kern_inv_length [OF inv] in simp_all)
  let ?k2 = "(upd c (\<lambda>p. p\<lparr>p_cpu_ticks := p_cpu_ticks p + 1\<rparr>) ?k1)\<lparr>scheduler_ticks := scheduler_ticks k + 1\<rparr>"
  have "kern_inv K R (upd c (\<lambda>p. p\<lparr>p_cpu_ticks := p_cpu_ticks p + 1\<rparr>) ?k1)" by (rule upd_same [OF 1]) (simp add: same_slot_def)
  then have 2: "kern_inv K R ?k2" by (rule kern_inv_cong) simp_all
  have "timer_tick ring3 sp k = (if \<not> ring3 then ?k1 else if scheduler_ticks ?k2 mod 10 = 0 then schedule sp ?k2 else ?k2)"
    using c by (simp add: timer_tick_def Let_def)
  then show ?thesis using 1 2 schedule_ok [OF 2] kp by simp
qed

lemma sys_sleep_ok: "kern_inv K R k \<Longrightarrow> kern_inv K R (sys_sleep ms k)"
  using upd_same [of K R k] by (auto simp: sys_sleep_def Let_def same_slot_def split: option.split)

text \<open>The end of the current process, and of another one.\<close>

lemma user_process_exit_ok:
  assumes inv: "kern_inv K R k"
  shows "kern_inv K R (user_process_exit code k)"
proof -
  obtain i where c: "i < 32" "cur k = Some i" "p_in_use (procs k ! i)" "cr3 k = (if p_pd (procs k ! i) \<noteq> 0 then p_pd (procs k ! i) else kpd k)"
    using current [OF inv] .
  have m: "mem_inv K R (procs k) (kh k) (kpd k)" and t: "table_ok k" using inv by (simp_all add: kern_inv_def)
  have i: "i < MAX_PROCESSES" "i < length (procs k)" using c(1) kern_inv_length [OF inv] by (simp_all add: MAX_PROCESSES_def)
  let ?p = "procs k ! i"
  obtain u D where slot: "holds (kh k) (blocks ?p u + D) {}" "slot_ok (kh k) (kpd k) ?p u" "(kpd k, 0) \<in># D"
    "\<And>p' t' h'. holds h' (blocks p' t' + D) {} \<Longrightarrow> keeps D (kh k) h' \<Longrightarrow> slot_ok h' (kpd k) p' t' \<Longrightarrow> mem_inv K R ((procs k)[i := p']) h' (kpd k)"
    using mem_inv_slot [OF m i(1)] by metis
  have kp0: "kpd k \<noteq> 0" using holds_block(1) [OF slot(1), of "kpd k" 0] slot(3) slab_page_dvd by simp
  let ?h = "free_frames (p_frames ?p) (if p_pd ?p \<noteq> 0 then vmm_destroy_user_pd (kpd k) (p_pd ?p) (kh k) else kh k)"
  have "holds (kh k) (stack_blocks ?p + frame_blocks (p_frames ?p) + dir_blocks (p_pd ?p) u + D) {}" using slot(1) by (simp add: blocks_def)
  moreover have "p_pd ?p \<noteq> 0 \<longrightarrow> user_dir (kh k) (kpd k) (p_pd ?p) u (p_frames ?p)" using slot(2) by (simp add: slot_ok_def)
  ultimately have rel: "holds ?h (stack_blocks ?p + D) {}" "keeps (stack_blocks ?p + D) (kh k) ?h"
    using release_ok slot(3) by blast+
  let ?q = "?p\<lparr>p_pd := 0, p_frames := map (\<lambda>_. 0) (p_frames ?p), p_exit_code := code, p_state := PROC_STATE_ZOMBIE\<rparr>"
  have zero: "frame_blocks (map (\<lambda>_. 0) fs) = {#}" for fs :: "u32 list" by (induction fs) simp_all
  have b: "blocks ?q u = stack_blocks ?p" by (simp add: blocks_def zero stack_blocks_def)
  have "slot_ok ?h (kpd k) ?q u"
  proof -
    let ?n = "if p_kernel_stack_size ?p = 4096 then 0 else 1 :: int"
    have "rd (p_kernel_stack ?p) ?h = rd (p_kernel_stack ?p) (kh k)" if "p_kernel_stack ?p \<noteq> 0"
      by (rule keepsD [OF rel(2)], rule held_pagesI [OF _ block_pages_first, of _ ?n]) (simp add: that stack_blocks_def)
    then show ?thesis using slot(2) c(3) by (auto simp: slot_ok_def)
  qed
  then have "mem_inv K R ((procs k)[i := ?q]) ?h (kpd k)"
    using rel(1) keeps_mono [OF _ rel(2), of D] by (intro slot(4) [where t' = u]) (simp_all add: b)
  moreover have "table_ok (k\<lparr>procs := (procs k)[i := ?q], cr3 := kpd k\<rparr>)"
    by (rule table_ok_slot [OF t i(1)]) (use kern_inv_length [OF inv] c in \<open>simp_all add: MAX_PROCESSES_def\<close>)
  moreover have "user_process_exit code k = k\<lparr>kh := ?h, procs := (procs k)[i := ?q], cr3 := kpd k, current_user_pid := 0\<rparr>"
    using c i(2) by (simp add: user_process_exit_def user_free_memory_eq [OF i(2) kp0] upd_def)
  ultimately show ?thesis using table_ok_cong unfolding kern_inv_def by simp
qed

lemma process_free_zombie:
  assumes inv: "kern_inv K R k" and g: "process_get pid k = Some i" and c: "cur k \<noteq> Some i" and f: "\<And>p. same_slot p (f p)"
  shows "\<exists>k'. process_free pid (upd i f k) = Some k' \<and> kern_inv K R k'"
proof (rule fail_exit [OF upd_same [OF inv f]])
  have len: "length (procs k) = 32" by (rule kern_inv_length [OF inv])
  note G = process_get_Some [OF g len]
  show "i < 32" "p_in_use (procs (upd i f k) ! i)" "p_pid (procs (upd i f k) ! i) = pid" "cur (upd i f k) \<noteq> Some i"
    using G c f [of "procs k ! i"] len by (simp_all add: same_slot_def)
qed

lemma cmd_kill_ok:
  assumes inv: "kern_inv K R k"
  shows "\<exists>k'. cmd_kill pid k = Some k' \<and> kern_inv K R k'"
proof (cases "pid = 0 \<or> pid = 1 \<or> process_get pid k = None")
  case True
  then show ?thesis using inv by (auto simp: cmd_kill_def)
next
  case False
  then obtain i where i: "process_get pid k = Some i" "pid \<noteq> 0" "pid \<noteq> 1" by auto
  show ?thesis
  proof (cases "p_state (procs k ! i) = PROC_STATE_DEAD \<or> cur k = Some i")
    case False
    then show ?thesis
      using i process_free_zombie [OF inv i(1), of "\<lambda>p. p\<lparr>p_state := PROC_STATE_ZOMBIE\<rparr>"] by (simp add: cmd_kill_def same_slot_def)
  qed (use i inv in \<open>auto simp: cmd_kill_def\<close>)
qed

text \<open>Stores through the directory in use. Below the pages of the allocator nothing of the model lives.\<close>

lemma holds_st8_low:
  assumes h: "holds h D Q" and x: "page_no x < 2048"
  shows "holds (st8 x v h) D Q" "keeps D h (st8 x v h)"
proof -
  obtain W F where W: "heap_ok h W F D" "pmm_run_inv (pm h) (slab_blocks W + D)" "Q \<subseteq> held_objs W F" using holds_inv [OF h] .
  obtain w where w: "st8 x v h = wr (x AND NOT 3) w h" using st8_wr by blast
  have y: "page_no (x AND NOT 3) < 2048" using x by simp
  then have out: "page_no (x AND NOT 3) \<notin># held_pages (slab_blocks W + D)" using held_pages_high [OF W(2)] by fastforce
  have "pmm_run_inv ((pm h)\<lparr>mem := (mem (pm h))((x AND NOT 3) := w)\<rparr>) (slab_blocks W + D)"
    by (rule pmm_run_inv_mem_low [OF W(2)]) (use y in \<open>auto split: if_splits\<close>)
  then have "heap_ok (wr (x AND NOT 3) w h) W F D"
    unfolding wr_def by (rule heap_pages_step [OF W(1)]) (use out in \<open>auto simp: rd_def held_pages_union\<close>)
  then show "holds (st8 x v h) D Q" using W(3) w by (auto simp: holds_def)
  show "keeps D h (st8 x v h)" using out keeps_wr [of "x AND NOT 3" D h w] w by (simp add: held_pages_union)
qed

lemma page_of_frame: "4096 dvd unat f \<Longrightarrow> page_no (f OR (v AND 0xFFF)) = page_no f" for f v :: u32
proof -
  have "(0xFFF :: u32) = mask 12" by (simp add: mask_eq_exp_minus_1)
  moreover have "drop_bit 12 (f OR (v AND mask 12)) = drop_bit 12 f" by (rule bit_word_eqI) (auto simp: bit_simps)
  ultimately have "unat (drop_bit 12 (f OR (v AND 0xFFF))) = unat (drop_bit 12 f)" by (simp only:)
  moreover have "unat (drop_bit 12 a) = page_no a" for a :: u32 by (simp add: page_no_def unsigned_drop_bit_eq drop_bit_eq_div unat_div)
  ultimately show ?thesis by (simp only:)
qed

text \<open>Where an access below 4 MB goes.\<close>

lemma walk_target:
  assumes u: "user_space h pd pt win fs" and fs: "\<And>f. f \<in> set fs \<Longrightarrow> 4096 dvd unat f" and v: "pde_idx v = 0" and m: "mmu h pd user v = Some x"
  shows "in_window win (length fs) v \<and> frame_of fs win v \<in> set fs \<and> frame_of fs win v \<noteq> 0 \<and> x = frame_of fs win v OR (v AND 0xFFF) \<or>
    \<not> in_window win (length fs) v \<and> x = v"
proof (cases "in_window win (length fs) v")
  case True
  have win: "window_ok win (length fs)" using u by (simp add: user_space_def)
  have k: "unat v div 4096 - unat win div 4096 < length fs" using in_window_idx [OF win, of v] True by auto
  then have f: "frame_of fs win v \<in> set fs" by (simp add: frame_of_def)
  have "win_entry win fs (unat v div 4096) = window_pte (frame_of fs win v)"
    using in_window_idx [OF win, of v] True by (simp add: win_entry_def frame_of_def)
  then have "frame_of fs win v \<noteq> 0 \<and> x = frame_of fs win v OR (v AND 0xFFF)"
    using m window_pte_flags [OF fs [OF f]] by (simp add: walk_low [OF u v] Let_def split: if_splits)
  then show ?thesis using f True by blast
next
  case False
  then show ?thesis using m kernel_walk_low [OF u v False] user_walk [OF u fs, of v] by (cases user) auto
qed

lemma store_ok:
  assumes inv: "kern_inv K R k" and v: "pde_idx v = 0" and m: "mmu (kh k) (cr3 k) user v = Some x" and kernel: "cr3 k = kpd k \<Longrightarrow> \<not> user"
  shows "kern_inv K R (k\<lparr>kh := st8 x b (kh k)\<rparr>)"
proof -
  obtain c where c: "c < 32" "cur k = Some c" "p_in_use (procs k ! c)" "cr3 k = (if p_pd (procs k ! c) \<noteq> 0 then p_pd (procs k ! c) else kpd k)"
    using current [OF inv] .
  let ?p = "procs k ! c"
  let ?h = "st8 x b (kh k)"
  obtain t D where slot: "holds (kh k) (blocks ?p t + D) {}" "slot_ok (kh k) (kpd k) ?p t" "(kpd k, 0) \<in># D"
    "\<And>f t' h'. holds h' (blocks (f ?p) t' + D) {} \<Longrightarrow> keeps D (kh k) h' \<Longrightarrow> slot_ok h' (kpd k) (f ?p) t' \<Longrightarrow>
      p_in_use (f ?p) \<Longrightarrow> p_pid (f ?p) = p_pid ?p \<Longrightarrow>
      (cur k = Some c \<longrightarrow> cr3 k = (if p_pd (f ?p) \<noteq> 0 then p_pd (f ?p) else kpd k)) \<Longrightarrow> kern_inv K R (upd c f (k\<lparr>kh := h'\<rparr>))"
    using kern_inv_slot [OF inv c(1,3)] by metis
  have kp: "slab_page (kpd k)" using holds_block(1) [OF slot(1), of "kpd k" 0] slot(3) by simp
  have low: "page_no v < 2048" using v unfolding idx_low(1) by (simp add: page_no_def)
  have stored: "kern_inv K R (k\<lparr>kh := ?h\<rparr>)" if h: "holds ?h (blocks ?p t + D) {}" and k: "keeps (stack_blocks ?p + dir_blocks (p_pd ?p) t + D) (kh k) ?h"
  proof -
    have "rd (p_kernel_stack ?p) ?h = rd (p_kernel_stack ?p) (kh k)" if "p_kernel_stack ?p \<noteq> 0"
      by (rule keepsD [OF k], rule held_pagesI [OF _ block_pages_first, of _ "if p_kernel_stack_size ?p = 4096 then 0 else 1"])
        (simp add: that stack_blocks_def)
    moreover have "user_dir ?h (kpd k) (p_pd ?p) t (p_frames ?p)" if "p_pd ?p \<noteq> 0"
      by (rule user_dir_keeps [OF _ k _ _ _ kp]) (use slot(2,3) that in \<open>simp_all add: slot_ok_def dir_blocks_def\<close>)
    ultimately have "slot_ok ?h (kpd k) ?p t" using slot(2) by (simp add: slot_ok_def)
    moreover have "keeps D (kh k) ?h" by (rule keeps_mono [OF _ k]) simp
    ultimately have "kern_inv K R (upd c (\<lambda>p. p) (k\<lparr>kh := ?h\<rparr>))" using h c by (intro slot(4) [of ?h "\<lambda>p. p" t]) simp_all
    then show ?thesis by (simp add: upd_def)
  qed
  have through: "kern_inv K R (k\<lparr>kh := ?h\<rparr>)" if "page_no x < 2048"
    using stored holds_st8_low [OF slot(1) that, of b] keeps_mono [of "stack_blocks ?p + dir_blocks (p_pd ?p) t + D" "blocks ?p t + D"]
    by (simp add: blocks_def)
  show ?thesis
  proof (cases "p_pd ?p = 0")
    case True
    have "\<forall>v < 0x1E000000. mmu (kh k) (kpd k) False v = Some v" using inv by (simp add: kern_inv_def mem_inv_def kernel_dir_def)
    moreover have "v < 0x1E000000" using v unfolding idx_low(1) by (simp add: word_less_nat_alt)
    ultimately have "x = v" using m kernel c(4) True by auto
    then show ?thesis using through low by simp
  next
    case False
    let ?fs = "p_frames ?p"
    have u: "user_space (kh k) (p_pd ?p) t USER_WIN_BASE ?fs" using slot(2) False by (simp add: slot_ok_def user_dir_def)
    have fb: "(f, 0) \<in># frame_blocks ?fs" if "f \<in> set ?fs" "f \<noteq> 0" for f using that by (simp add: frame_blocks_def)
    have dvd: "4096 dvd unat f" if "f \<in> set ?fs" for f
      using holds_block(1) [OF slot(1), of f 0] fb [OF that] slab_page_dvd [of f] by (cases "f = 0") (simp_all add: blocks_def)
    have "mmu (kh k) (p_pd ?p) user v = Some x" using m c(4) False by simp
    from walk_target [OF u _ v this] dvd consider (frame) "frame_of ?fs USER_WIN_BASE v \<in> set ?fs" "frame_of ?fs USER_WIN_BASE v \<noteq> 0"
        "x = frame_of ?fs USER_WIN_BASE v OR (v AND 0xFFF)" | (low) "x = v" by blast
    then show ?thesis
    proof cases
      assume f: "frame_of ?fs USER_WIN_BASE v \<in> set ?fs" "frame_of ?fs USER_WIN_BASE v \<noteq> 0" "x = frame_of ?fs USER_WIN_BASE v OR (v AND 0xFFF)"
      then have p: "page_no x = page_no (frame_of ?fs USER_WIN_BASE v)" using page_of_frame [OF dvd [OF f(1)]] by simp
      then have x: "page_no x \<in># held_pages (frame_blocks ?fs)" using held_pagesI [OF fb [OF f(1,2)] block_pages_first] by simp
      have e: "blocks ?p t + D = frame_blocks ?fs + (stack_blocks ?p + dir_blocks (p_pd ?p) t + D)" by (simp add: blocks_def ac_simps)
      have "page_no x \<notin># held_pages (stack_blocks ?p + dir_blocks (p_pd ?p) t + D)"
        using holds_once [OF slot(1) [unfolded e] x] .
      moreover have "holds ?h (blocks ?p t + D) {}" by (rule holds_st8 [OF slot(1)]) (use x in \<open>simp add: blocks_def held_pages_union\<close>)
      ultimately show ?thesis using stored keeps_st8 by blast
    next
      assume "x = v"
      then show ?thesis using through low by simp
    qed
  qed
qed

text \<open>Waiting for a child.\<close>

lemma vwrite_list_ok:
  "kern_inv K R k \<Longrightarrow> unat a + length bs < 0x400000 \<Longrightarrow> vwrite_list a bs k = Some k' \<Longrightarrow>
    kern_inv K R k' \<and> procs k' = procs k \<and> cur k' = cur k \<and> next_pid k' = next_pid k"
proof (induction bs arbitrary: a k)
  case (Cons b bs)
  obtain x where x: "mmu (kh k) (cr3 k) False a = Some x" "vwrite_list (a + 1) bs (k\<lparr>kh := st8 x b (kh k)\<rparr>) = Some k'"
    using Cons.prems(3) by (auto simp: vwrite_def split: Option.bind_splits)
  have "pde_idx a = 0" using Cons.prems(2) unfolding idx_low(1) by simp
  from store_ok [OF Cons.prems(1) this x(1)] have 1: "kern_inv K R (k\<lparr>kh := st8 x b (kh k)\<rparr>)" by simp
  have "unat (a + 1) = unat a + 1" using Cons.prems(2) by (simp add: unat_word_ariths)
  then show ?case using Cons.IH [OF 1 _ x(2)] Cons.prems(2) by simp
qed simp

lemma user_addr_low: "is_user_addr a \<Longrightarrow> unat a < 0x340000"
  by (simp add: is_user_addr_def user_consts word_less_nat_alt)

lemma sys_waitpid_ok:
  assumes inv: "kern_inv K R k" and r: "sys_waitpid pid status k = Some (x, k')"
  shows "kern_inv K R k'"
proof -
  obtain c where c: "c < 32" "cur k = Some c" "p_in_use (procs k ! c)" using current [OF inv] .
  let ?child = "\<lambda>j. p_in_use (procs k ! j) \<and> j \<noteq> c \<and> p_ppid (procs k ! j) = p_pid (procs k ! c) \<and> (pid = 0 \<or> p_pid (procs k ! j) = pid)"
  let ?zs = "filter (\<lambda>j. p_state (procs k ! j) = PROC_STATE_ZOMBIE) (filter ?child [0 ..< MAX_PROCESSES])"
  show ?thesis
  proof (cases "p_is_user_prog (procs k ! c) \<and> ?zs \<noteq> []")
    case False
    then show ?thesis using r inv c by (auto simp: sys_waitpid_def Let_def split: if_splits)
  next
    case True
    then obtain j js where z: "?zs = j # js" by (cases ?zs) auto
    then have "j \<in> set ?zs" by simp
    then have j: "j < 32" "?child j" by (auto simp: MAX_PROCESSES_def)
    obtain k1 where k1: "(if status \<noteq> 0 \<and> is_user_addr status then vwrite_list status (le32 (p_exit_code (procs k ! j))) k else Some k) = Some k1"
        "process_free (p_pid (procs k ! j)) k1 = Some k'"
      using r c True z by (auto simp: sys_waitpid_def Let_def split: Option.bind_splits)
    have "length (le32 w) = 4" for w by (simp add: le32_def)
    then have 1: "kern_inv K R k1 \<and> procs k1 = procs k \<and> cur k1 = cur k"
      using k1(1) inv vwrite_list_ok [OF inv _, of status "le32 (p_exit_code (procs k ! j))" k1] user_addr_low [of status]
      by (auto split: if_splits)
    then show ?thesis using fail_exit [of K R k1 j "p_pid (procs k ! j)"] j c(2) k1(2) by auto
  qed
qed

text \<open>Loading another image. A buffer is an object of a slab or a block of pages whose first word is not that of a slab.\<close>

definition buffer :: "kheap \<Rightarrow> (u32 \<times> int) multiset \<Rightarrow> u32 \<Rightarrow> bool" where
  "buffer h D b \<longleftrightarrow> (\<exists>m. holds h D {(b, m)}) \<or> (\<exists>n. holds h (add_mset (b, n) D) {} \<and> rd b h \<noteq> SLAB_MAGIC)"

definition reader_ok :: "reader \<Rightarrow> bool" where
  "reader_ok read_file \<longleftrightarrow> (\<forall>path h D h'. holds h D {} \<longrightarrow>
     (read_file path h = (None, h') \<longrightarrow> holds h' D {} \<and> keeps D h h') \<and>
     (\<forall>b img. read_file path h = (Some (b, img), h') \<longrightarrow> buffer h' D b \<and> keeps D h h'))"

lemma buffer_step:
  assumes b: "buffer h (A + D) b" and step: "\<And>E Q. holds h (A + E) Q \<Longrightarrow> holds h' (A' + E) Q \<and> keeps E h h'"
  shows "buffer h' (A' + D) b" "keeps D h h'"
proof -
  from b [unfolded buffer_def] have "buffer h' (A' + D) b \<and> keeps D h h'"
  proof (elim disjE exE conjE)
    fix m assume "holds h (A + D) {(b, m)}"
    from step [OF this] show "buffer h' (A' + D) b \<and> keeps D h h'" by (auto simp: buffer_def)
  next
    fix n assume n: "holds h (add_mset (b, n) (A + D)) {}" "rd b h \<noteq> SLAB_MAGIC"
    have S: "holds h' (A' + add_mset (b, n) D) {} \<and> keeps (add_mset (b, n) D) h h'" by (rule step) (use n(1) in simp)
    then have "rd b h' = rd b h" using keepsD [of "add_mset (b, n) D" h h' b] block_pages_first [of b "nat n"] by simp
    moreover have "keeps D h h'" by (rule keeps_mono [of D "add_mset (b, n) D"]) (use S in simp_all)
    ultimately show "buffer h' (A' + D) b \<and> keeps D h h'" using S n(2) by (auto simp: buffer_def)
  qed
  then show "buffer h' (A' + D) b" "keeps D h h'" by blast+
qed

lemma buffer_kfree:
  assumes "buffer h D b" obtains h' where "kfree b h = Some h'" "holds h' D {}" "keeps D h h'"
  using assms holds_kfree_obj [of h D b _ "{}"] holds_kfree [of h b _ D "{}"] unfolding buffer_def by fastforce

lemma remap_user_dir:
  assumes h: "holds h (dir_blocks pd t + D) Q" and pd: "pd \<noteq> 0" and u: "user_dir h kp pd t fs" and kp: "(kp, 0) \<in># D" and gs: "length fs = 64" "length gs = 64"
  shows "holds (vmm_remap_window pd gs USER_WIN_BASE h) (dir_blocks pd t + D) Q" "user_dir (vmm_remap_window pd gs USER_WIN_BASE h) kp pd t gs"
    "keeps D h (vmm_remap_window pd gs USER_WIN_BASE h)"
proof -
  let ?h = "vmm_remap_window pd gs USER_WIN_BASE h"
  have h': "holds h (add_mset (pd, 0) (add_mset (t, 0) D)) Q" using h pd by (simp add: dir_blocks_def)
  have us: "user_space h pd t USER_WIN_BASE fs" using u by (simp add: user_dir_def)
  note R = vmm_remap_window_ok [OF h' us, of gs, unfolded gs, simplified]
  show "holds ?h (dir_blocks pd t + D) Q" using R(1) pd by (simp add: dir_blocks_def)
  show "keeps D h ?h" by (rule keeps_mono [OF _ R(3)]) simp
  have page: "slab_page pd" "slab_page kp" using us holds_block(1) [OF h, of kp 0] kp by (simp_all add: user_space_def)
  have "rd (entry pd i) ?h = rd (entry pd i) h" "rd (entry kp i) ?h = rd (entry kp i) h" if "i < 1024" for i
    using entry_kept [OF R(3) _ page(1) that] entry_kept [OF R(3) _ page(2) that] kp by simp_all
  then have "rd (entry pd i) ?h = user_pde kp t USER_WIN_BASE ?h i" if "0 < i" "i < 1024" for i
    using u that unfolding user_dir_def user_pde_def by simp
  then show "user_dir ?h kp pd t gs" using R(2) by (simp add: user_dir_def)
qed

text \<open>The outcomes of \<open>sys_execve\<close> for the current process \<open>c\<close>.\<close>

lemma sys_execve_cases:
  assumes r: "sys_execve read_file rg pu au k = Some (x, rg', k')" and c: "cur k = Some c"
  obtains "k' = k"
  | path h where "read_file path (kh k) = (None, h)" "k' = k\<lparr>kh := h\<rparr>"
  | path b img h h2 where "read_file path (kh k) = (Some (b, img), h)" "kfree b h = Some h2" "k' = k\<lparr>kh := h2\<rparr>" "p_pd (procs k ! c) \<noteq> 0"
  | path b img h fs h1 h2 where "p_pd (procs k ! c) \<noteq> 0" "read_file path (kh k) = (Some (b, img), h)"
      "take_frames True (\<lambda>_ _ h. h) [0 ..< USER_WIN_PAGES] (p_frames (procs k ! c)) h = (False, fs, h1)"
      "kfree b (vmm_remap_window (p_pd (procs k ! c)) fs USER_WIN_BASE h1) = Some h2"
      "k' = upd c (\<lambda>p. p\<lparr>p_frames := fs\<rparr>) (k\<lparr>kh := h2\<rparr>)"
  | path b img h fs h1 argv eip esp h2 h3 where "p_pd (procs k ! c) \<noteq> 0" "read_file path (kh k) = (Some (b, img), h)" "ajos_bin_valid img"
      "take_frames True (\<lambda>_ _ h. h) [0 ..< USER_WIN_PAGES] (p_frames (procs k ! c)) h = (True, fs, h1)"
      "user_load_image fs img argv h1 = (eip, esp, h2)" "kfree b h2 = Some h3"
      "k' = upd c (\<lambda>p. if basename path \<noteq> [] then p\<lparr>p_name := name_field (basename path)\<rparr> else p)
        (upd c (\<lambda>p. p\<lparr>p_frames := fs\<rparr>) (k\<lparr>kh := vmm_remap_window (p_pd (procs k ! c)) fs USER_WIN_BASE h3\<rparr>))"
proof -
  let ?p = "procs k ! c"
  show ?thesis
  proof (cases "\<not> p_is_user_prog ?p \<or> p_pd ?p = 0")
    case True
    then show ?thesis using r c that(1) by (auto simp: sys_execve_def)
  next
    case user: False
    then have pd: "p_pd (procs (upd c (\<lambda>p. p\<lparr>p_frames := fs\<rparr>) (k\<lparr>kh := h\<rparr>)) ! c) = p_pd ?p" for fs h
      by (cases "c < length (procs k)") (simp_all add: list_update_beyond)
    from r user c obtain pth where path: "copy_str_from_user pu 64 k = Some pth" by (auto simp: sys_execve_def split: Option.bind_splits)
    show ?thesis
    proof (cases pth)
      case None
      then show ?thesis using r c user path that(1) by (simp add: sys_execve_def)
    next
      case (Some path)
      let ?argv = "if au \<noteq> 0 \<and> au \<ge> USER_WIN_BASE \<and> au \<le> USER_WIN_BASE + USER_WIN_SIZE - 68 then copy_argv k au 16 [] else Some (Some [])"
      obtain av where av: "?argv = Some av"
        using r c user \<open>copy_str_from_user pu 64 k = Some pth\<close> Some by (cases ?argv) (simp_all add: sys_execve_def split del: if_split)
      show ?thesis
      proof (cases av)
        case None
        then show ?thesis using r c user path Some av that(1) by (simp add: sys_execve_def split del: if_split)
      next
        case (Some argv)
        note start = r c user path \<open>pth = Some path\<close> av Some
        obtain res h where rd: "read_file path (kh k) = (res, h)" by fastforce
        show ?thesis
        proof (cases res)
          case None
          then show ?thesis using start rd that(2) by (simp add: sys_execve_def split del: if_split)
        next
          case (Some bi)
          obtain b img where bi: "res = Some (b, img)" using Some by (cases bi) auto
          obtain ok fs h1 where tf: "take_frames True (\<lambda>_ _ h. h) [0 ..< USER_WIN_PAGES] (p_frames ?p) h = (ok, fs, h1)" by (metis surj_pair)
          obtain eip esp h2 where li: "user_load_image fs img argv h1 = (eip, esp, h2)" by (metis surj_pair)
          show ?thesis
          proof (cases "\<not> ajos_bin_valid img \<or> pmm_get_free_pages (pm h) < of_nat USER_WIN_PAGES + 8")
            case True
            then show ?thesis using start rd bi that(3)
              by (simp add: sys_execve_def split del: if_split) (auto split: Option.bind_splits)
          next
            case False
            then show ?thesis using start rd bi tf li pd that(4) [of path b img h fs h1] that(5) [of path b img h fs h1 argv eip esp h2]
              by (cases ok) (simp_all add: sys_execve_def Let_def split del: if_split, (auto split: Option.bind_splits)+)
          qed
        qed
      qed
    qed
  qed
qed

text \<open>The current slot with other frames: \<open>S\<close> is the stack.\<close>

definition window_swap :: "kern \<Rightarrow> nat \<Rightarrow> u32 \<Rightarrow> (u32 \<times> int) multiset \<Rightarrow> bool" where
  "window_swap k c t D \<longleftrightarrow> (kpd k, 0) \<in># D \<and> stack_blocks (procs k ! c) \<subseteq># D \<and>
     holds (kh k) (frame_blocks (p_frames (procs k ! c)) + dir_blocks (p_pd (procs k ! c)) t + D) {} \<and> length (p_frames (procs k ! c)) = 64 \<and>
     (p_pd (procs k ! c) \<noteq> 0 \<longrightarrow> user_dir (kh k) (kpd k) (p_pd (procs k ! c)) t (p_frames (procs k ! c)))"

lemma window_swap:
  assumes inv: "kern_inv K R k" and c: "cur k = Some c"
  obtains t D where "window_swap k c t D"
    "\<And>fs h. holds h (frame_blocks fs + dir_blocks (p_pd (procs k ! c)) t + D) {} \<Longrightarrow> keeps D (kh k) h \<Longrightarrow> length fs = 64 \<Longrightarrow>
      (p_pd (procs k ! c) \<noteq> 0 \<longrightarrow> user_dir h (kpd k) (p_pd (procs k ! c)) t fs) \<Longrightarrow>
      kern_inv K R (upd c (\<lambda>p. p\<lparr>p_frames := fs\<rparr>) (k\<lparr>kh := h\<rparr>))"
proof -
  let ?p = "procs k ! c"
  have c': "c < 32" "p_in_use ?p" "cr3 k = (if p_pd ?p \<noteq> 0 then p_pd ?p else kpd k)"
    by (rule current [OF inv]; use c in simp)+
  obtain t D where slot: "holds (kh k) (blocks ?p t + D) {}" "slot_ok (kh k) (kpd k) ?p t" "(kpd k, 0) \<in># D"
    "\<And>f t' h'. holds h' (blocks (f ?p) t' + D) {} \<Longrightarrow> keeps D (kh k) h' \<Longrightarrow> slot_ok h' (kpd k) (f ?p) t' \<Longrightarrow>
      p_in_use (f ?p) \<Longrightarrow> p_pid (f ?p) = p_pid ?p \<Longrightarrow>
      (cur k = Some c \<longrightarrow> cr3 k = (if p_pd (f ?p) \<noteq> 0 then p_pd (f ?p) else kpd k)) \<Longrightarrow> kern_inv K R (upd c f (k\<lparr>kh := h'\<rparr>))"
    using kern_inv_slot [OF inv c'(1,2)] by metis
  let ?D = "stack_blocks ?p + D"
  show ?thesis
  proof (rule that)
    have "blocks ?p t + D = frame_blocks (p_frames ?p) + dir_blocks (p_pd ?p) t + ?D" unfolding blocks_def by (simp only: ac_simps)
    with slot(1) have "holds (kh k) (frame_blocks (p_frames ?p) + dir_blocks (p_pd ?p) t + ?D) {}" by simp
    then show "window_swap k c t ?D"
      using slot(2,3) by (simp add: window_swap_def slot_ok_def USER_WIN_PAGES_def)
    fix fs h
    assume n: "holds h (frame_blocks fs + dir_blocks (p_pd ?p) t + ?D) {}" "keeps ?D (kh k) h" "length fs = 64"
      "p_pd ?p \<noteq> 0 \<longrightarrow> user_dir h (kpd k) (p_pd ?p) t fs"
    let ?f = "\<lambda>p. p\<lparr>p_frames := fs\<rparr>"
    have b: "blocks (?f ?p) t = stack_blocks ?p + frame_blocks fs + dir_blocks (p_pd ?p) t" by (simp add: blocks_def stack_blocks_def)
    have "rd (p_kernel_stack ?p) h = rd (p_kernel_stack ?p) (kh k)" if "p_kernel_stack ?p \<noteq> 0"
      by (rule keepsD [OF n(2)], rule held_pagesI [OF _ block_pages_first, of _ "if p_kernel_stack_size ?p = 4096 then 0 else 1"])
        (simp add: that stack_blocks_def)
    then have "slot_ok h (kpd k) (?f ?p) t" using slot(2) n(3,4) c'(2) by (auto simp: slot_ok_def USER_WIN_PAGES_def)
    moreover have "holds h (blocks (?f ?p) t + D) {}" using n(1) unfolding b by (simp add: ac_simps)
    moreover have "keeps D (kh k) h" by (rule keeps_mono [OF _ n(2)]) simp
    ultimately show "kern_inv K R (upd c ?f (k\<lparr>kh := h\<rparr>))" using c' by (intro slot(4) [of h ?f t]) simp_all
  qed
qed

end
