(* ===== verification/Kernel_Run.thy ===== *)
theory Kernel_Run
  imports Process_Run
begin

text \<open>
  Runs of the kernel's processes from boot: programs are loaded in place (\<open>sys_execve\<close>), every step keeps the invariant of
  theory \<open>Process_Run\<close>, and what fork copies. The properties are in theory \<open>Kernel_Properties\<close>.
\<close>

section \<open>Loading another image keeps the invariant\<close>

lemma frames_swap:
  assumes f: "take_frames True (\<lambda>_ _ h. h) [0 ..< USER_WIN_PAGES] fs h = (ok, gs, h1)" and fs: "length fs = 64"
    and h: "holds h (frame_blocks fs + E) Q"
  shows "holds h1 (frame_blocks gs + E) Q" "keeps E h h1" "length gs = 64" "ok \<Longrightarrow> 0 \<notin> set gs"
proof -
  have T: "holds h1 (frame_blocks gs + E) Q \<and> keeps (frame_blocks (other_frames [0 ..< USER_WIN_PAGES] fs) + E) h h1 \<and> length gs = length fs \<and>
    (\<forall>j < length fs. j \<notin> set [0 ..< USER_WIN_PAGES] \<longrightarrow> gs ! j = fs ! j) \<and> (ok \<longrightarrow> (\<forall>j \<in> set [0 ..< USER_WIN_PAGES]. gs ! j \<noteq> 0))"
    by (rule take_frames_ok [OF fills_nothing h _ _ _ f]) (use fs in \<open>auto simp: USER_WIN_PAGES_def\<close>)
  show "holds h1 (frame_blocks gs + E) Q" "length gs = 64" using T fs by simp_all
  show "keeps E h h1" by (rule keeps_mono [of E "frame_blocks (other_frames [0 ..< USER_WIN_PAGES] fs) + E"]) (use T in simp_all)
  show "ok \<Longrightarrow> 0 \<notin> set gs" using T fs by (auto simp: in_set_conv_nth USER_WIN_PAGES_def)
qed

text \<open>Remapping, when the buffer is still held.\<close>

lemma buffer_holds:
  assumes "buffer h (A + D) b" obtains E Q where "holds h (A + E) Q" "D \<subseteq># E"
proof -
  from assms consider m where "holds h (A + D) {(b, m)}" | n where "holds h (A + add_mset (b, n) D) {}" unfolding buffer_def by auto
  then show ?thesis by cases (use that [of D] that [of "add_mset (b, _) D"] in auto)
qed

lemma buffer_remap:
  assumes b: "buffer h (dir_blocks pd t + D) b" and pd: "pd \<noteq> 0" and u: "user_dir h kp pd t fs" and kp: "(kp, 0) \<in># D" and l: "length fs = 64" "length gs = 64"
  shows "buffer (vmm_remap_window pd gs USER_WIN_BASE h) (dir_blocks pd t + D) b" "user_dir (vmm_remap_window pd gs USER_WIN_BASE h) kp pd t gs"
    "keeps D h (vmm_remap_window pd gs USER_WIN_BASE h)"
proof -
  let ?h = "vmm_remap_window pd gs USER_WIN_BASE h"
  have us: "user_space h pd t USER_WIN_BASE fs" using u by (simp add: user_dir_def)
  have "holds ?h (dir_blocks pd t + E) Q \<and> keeps E h ?h" if "holds h (dir_blocks pd t + E) Q" for E Q
  proof -
    have e: "dir_blocks pd t + E = add_mset (pd, 0) (add_mset (t, 0) E)" using pd by (simp add: dir_blocks_def)
    note R = vmm_remap_window_ok [OF that [unfolded e] us, of gs, unfolded l, simplified]
    show ?thesis using R(1) keeps_mono [OF _ R(3), of E] unfolding e by simp
  qed
  from buffer_step [OF b this] show "buffer ?h (dir_blocks pd t + D) b" "keeps D h ?h" by blast+
  obtain E Q where E: "holds h (dir_blocks pd t + E) Q" "D \<subseteq># E" using buffer_holds [OF b] .
  show "user_dir ?h kp pd t gs" by (rule remap_user_dir(2) [OF E(1) pd u mset_subset_eqD [OF E(2) kp] l])
qed

lemma sys_execve_ok:
  assumes inv: "kern_inv K R k" and rd: "reader_ok read_file" and r: "sys_execve read_file rg pu au k = Some (x, rg', k')"
  shows "kern_inv K R k'"
proof -
  obtain c where c: "c < 32" "cur k = Some c" using current [OF inv] by blast
  let ?p = "procs k ! c" and ?pd = "p_pd (procs k ! c)" and ?fs = "p_frames (procs k ! c)"
  obtain t D where W: "window_swap k c t D" and fin: "\<And>fs h. holds h (frame_blocks fs + dir_blocks ?pd t + D) {} \<Longrightarrow> keeps D (kh k) h \<Longrightarrow> length fs = 64 \<Longrightarrow>
      (?pd \<noteq> 0 \<longrightarrow> user_dir h (kpd k) ?pd t fs) \<Longrightarrow> kern_inv K R (upd c (\<lambda>p. p\<lparr>p_frames := fs\<rparr>) (k\<lparr>kh := h\<rparr>))"
    using window_swap [OF inv c(2)] by metis
  have h: "holds (kh k) (frame_blocks ?fs + dir_blocks ?pd t + D) {}" and fs: "length ?fs = 64" and kp: "(kpd k, 0) \<in># D"
    and ud: "?pd \<noteq> 0 \<Longrightarrow> user_dir (kh k) (kpd k) ?pd t ?fs" using W by (simp_all add: window_swap_def)
  let ?G = "frame_blocks ?fs + dir_blocks ?pd t + D"
  have page: "slab_page (kpd k)" using holds_block(1) [OF h, of "kpd k" 0] kp by simp
  have ud_keeps: "user_dir h2 (kpd k) ?pd t gs" if "user_dir h1 (kpd k) ?pd t gs" "keeps (dir_blocks ?pd t + D) h1 h2" "?pd \<noteq> 0" for h1 h2 gs
    by (rule user_dir_keeps [OF that(1,2) _ _ _ page]) (use that(3) kp in \<open>simp_all add: dir_blocks_def\<close>)
  have same: "kern_inv K R (k\<lparr>kh := h2\<rparr>)" if "holds h2 ?G {}" "keeps ?G (kh k) h2" for h2
  proof -
    have "keeps (dir_blocks ?pd t + D) (kh k) h2" by (rule keeps_mono [OF _ that(2)]) (simp add: ac_simps)
    then have "?pd \<noteq> 0 \<longrightarrow> user_dir h2 (kpd k) ?pd t ?fs" using ud ud_keeps by blast
    then have "kern_inv K R (upd c (\<lambda>p. p\<lparr>p_frames := ?fs\<rparr>) (k\<lparr>kh := h2\<rparr>))"
      using that(1) keeps_mono [OF _ that(2), of D] fs by (intro fin) simp_all
    moreover have "(?p)\<lparr>p_frames := ?fs\<rparr> = ?p" by simp
    ultimately show ?thesis by (simp add: upd_def)
  qed
  have reads: "buffer h1 ?G b" "keeps ?G (kh k) h1" if "read_file path (kh k) = (Some (b, img), h1)" for path b img h1
    using rd h that unfolding reader_ok_def by blast+
  have swapped: "buffer h2 (dir_blocks ?pd t + (frame_blocks gs + D)) b" "keeps (dir_blocks ?pd t + D) (kh k) h2" "length gs = 64" "ok \<Longrightarrow> 0 \<notin> set gs"
      "user_dir h2 (kpd k) ?pd t ?fs"
    if "read_file path (kh k) = (Some (b, img), h1)" "take_frames True (\<lambda>_ _ h. h) [0 ..< USER_WIN_PAGES] ?fs h1 = (ok, gs, h2)" "?pd \<noteq> 0"
    for path b img h1 ok gs h2
  proof -
    note B = reads [OF that(1)] and S = frames_swap [OF that(2) fs]
    have b: "buffer h1 (frame_blocks ?fs + (dir_blocks ?pd t + D)) b" using B(1) by (simp add: ac_simps)
    have "buffer h2 (frame_blocks gs + (dir_blocks ?pd t + D)) b" and k2: "keeps (dir_blocks ?pd t + D) h1 h2"
      using buffer_step [OF b, of h2 "frame_blocks gs"] S(1,2) by blast+
    then show "buffer h2 (dir_blocks ?pd t + (frame_blocks gs + D)) b" by (simp add: ac_simps)
    have "keeps (dir_blocks ?pd t + D) (kh k) h1" by (rule keeps_mono [OF _ B(2)]) (simp add: ac_simps)
    then show e: "keeps (dir_blocks ?pd t + D) (kh k) h2" using k2 by (rule keeps_trans)
    show "user_dir h2 (kpd k) ?pd t ?fs" using ud_keeps [OF ud e] that(3) by blast
    obtain E Q where "holds h1 (frame_blocks ?fs + E) Q" using buffer_holds [OF b] .
    from S(3,4) [OF this] show "length gs = 64" "ok \<Longrightarrow> 0 \<notin> set gs" by blast+
  qed
  have ending: "kern_inv K R (upd c (\<lambda>p. p\<lparr>p_frames := gs\<rparr>) (k\<lparr>kh := h3\<rparr>))"
    if "holds h3 (dir_blocks ?pd t + (frame_blocks gs + D)) {}" "keeps D (kh k) h3" "length gs = 64" "user_dir h3 (kpd k) ?pd t gs" for gs h3
    using that by (intro fin) (simp_all add: ac_simps)
  have kp': "(kpd k, 0) \<in># frame_blocks gs + D" for gs using kp by simp
  from r c(2) show ?thesis
  proof (cases rule: sys_execve_cases)
    case 1
    then show ?thesis using inv by simp
  next
    case (2 path h1)
    then show ?thesis using same [of h1] rd h unfolding reader_ok_def by blast
  next
    case (3 path b img h1 h2)
    obtain h3 where "kfree b h1 = Some h3" "holds h3 ?G {}" "keeps ?G h1 h3" using buffer_kfree [OF reads(1) [OF 3(1)]] .
    then show ?thesis using same [of h3] 3 keeps_trans [OF reads(2) [OF 3(1)]] by simp
  next
    case (4 path b img h1 gs h2 h4)
    note S = swapped [OF 4(2,3,1)]
    let ?h3 = "vmm_remap_window ?pd gs USER_WIN_BASE h2"
    note R = buffer_remap [OF S(1) 4(1) S(5) kp' fs S(3)]
    obtain h5 where h5: "kfree b ?h3 = Some h5" "holds h5 (dir_blocks ?pd t + (frame_blocks gs + D)) {}"
      "keeps (dir_blocks ?pd t + (frame_blocks gs + D)) ?h3 h5" using buffer_kfree [OF R(1)] .
    have "keeps D (kh k) h2" "keeps D h2 ?h3" "keeps D ?h3 h5" "keeps (dir_blocks ?pd t + D) ?h3 h5"
      using keeps_mono [OF _ S(2), of D] keeps_mono [OF _ R(3), of D] keeps_mono [OF _ h5(3)] by simp_all
    then have "keeps D (kh k) h5" "user_dir h5 (kpd k) ?pd t gs" using ud_keeps [OF R(2) _ 4(1)] keeps_trans by blast+
    then show ?thesis using ending [OF h5(2) _ S(3)] h5(1) 4(4,5) by simp
  next
    case (5 path b img h1 gs h2 argv eip esp h3 h4)
    note S = swapped [OF 5(2,4,1)]
    have L: "holds h3 (frame_blocks gs + E) Q \<and> keeps E h2 h3" if "holds h2 (frame_blocks gs + E) Q" for E Q
      using user_load_image_ok [OF that S(3) S(4) 5(3,5)] by blast
    have "buffer h2 (frame_blocks gs + (dir_blocks ?pd t + D)) b" using S(1) by (simp add: ac_simps)
    from buffer_step [OF this L] have h3: "buffer h3 (frame_blocks gs + (dir_blocks ?pd t + D)) b" "keeps (dir_blocks ?pd t + D) h2 h3" by blast+
    obtain h5 where h5: "kfree b h3 = Some h5" "holds h5 (frame_blocks gs + (dir_blocks ?pd t + D)) {}"
      "keeps (frame_blocks gs + (dir_blocks ?pd t + D)) h3 h5" using buffer_kfree [OF h3(1)] .
    have k5: "keeps (dir_blocks ?pd t + D) h2 h5" using keeps_trans [OF h3(2)] keeps_mono [OF _ h5(3), of "dir_blocks ?pd t + D"] by simp
    have "holds h5 (dir_blocks ?pd t + (frame_blocks gs + D)) {}" using h5(2) by (simp add: ac_simps)
    note R = remap_user_dir [OF this 5(1) ud_keeps [OF S(5) k5 5(1)] kp' fs S(3)]
    have "keeps (dir_blocks ?pd t + D) (kh k) h5" using S(2) k5 by (rule keeps_trans)
    then have "keeps D (kh k) (vmm_remap_window ?pd gs USER_WIN_BASE h5)"
      using keeps_mono [of D "dir_blocks ?pd t + D" "kh k" h5] keeps_mono [OF _ R(3), of D] keeps_trans by simp
    from upd_same [OF ending [OF R(1) this S(3) R(2)], of "\<lambda>p. if basename path \<noteq> [] then p\<lparr>p_name := name_field (basename path)\<rparr> else p"]
    show ?thesis using 5(6,7) h5(1) by (simp add: same_slot_def)
  qed
qed

section \<open>Runs\<close>

text \<open>The table before \<open>process_init\<close>: zeroed memory.\<close>

definition zero_slot :: "process \<Rightarrow> bool" where
  "zero_slot p \<longleftrightarrow> p_kernel_stack p = 0 \<and> p_frames p = replicate 64 0 \<and> p_pd p = 0"

text \<open>What other parts of the kernel do between steps: with what they hold, \<open>R\<close>, and with what they allocate and free, and
  leaving alone what others hold. \<open>kmalloc\<close>, \<open>kfree\<close> and stores to held memory are such steps.\<close>

definition other_step :: "kheap \<Rightarrow> (u32 \<times> int) multiset \<Rightarrow> kheap \<Rightarrow> (u32 \<times> int) multiset \<Rightarrow> bool" where
  "other_step h R h' R' \<longleftrightarrow> (\<forall>D. holds h (D + R) {} \<longrightarrow> holds h' (D + R') {} \<and> keeps D h h')"

text \<open>The kernel's pages are \<open>K\<close>. A program is the current process while its directory is in use; its instructions and the
  system calls that copy to its window store through it, and the kernel runs on its stack, above the stack's first word. Numbers of processes do not wrap.\<close>

inductive kern_run :: "(u32 \<times> int) multiset \<Rightarrow> (u32 \<times> int) multiset \<Rightarrow> kern \<Rightarrow> bool" where
  boot: "holds h0 D {} \<Longrightarrow> paging_init h0 = Some (kp, h) \<Longrightarrow> holds h (K + R) {} \<Longrightarrow> kernel_dir h kp K \<Longrightarrow>
    kh k = h \<Longrightarrow> kpd k = kp \<Longrightarrow> cr3 k = kp \<Longrightarrow> length (procs k) = 32 \<Longrightarrow> (\<forall>p \<in> set (procs k). zero_slot p) \<Longrightarrow>
    kern_run K R (process_init k)"
| thread: "kern_run K R k \<Longrightarrow> unat (next_pid k) + 1 < 2 ^ 32 \<Longrightarrow> kthread_create name fn arg k = Some (pid, k') \<Longrightarrow> kern_run K R k'"
| spawn: "kern_run K R k \<Longrightarrow> unat (next_pid k) + 1 < 2 ^ 32 \<Longrightarrow> user_spawn name img argv bg k = Some (pid, k') \<Longrightarrow> kern_run K R k'"
| fork: "kern_run K R k \<Longrightarrow> unat (next_pid k) + 1 < 2 ^ 32 \<Longrightarrow> sys_fork r k = Some (pid, k') \<Longrightarrow> kern_run K R k'"
| slot: "kern_run K R k \<Longrightarrow> unat (next_pid k) + 1 < 2 ^ 32 \<Longrightarrow> process_alloc name k = (pid, k') \<Longrightarrow> kern_run K R k'"
| exec: "kern_run K R k \<Longrightarrow> reader_ok read_file \<Longrightarrow> sys_execve read_file r pu au k = Some (x, r', k') \<Longrightarrow> kern_run K R k'"
| exit: "kern_run K R k \<Longrightarrow> kern_run K R (user_process_exit code k)"
| wait: "kern_run K R k \<Longrightarrow> sys_waitpid pid status k = Some (x, k') \<Longrightarrow> kern_run K R k'"
| kill: "kern_run K R k \<Longrightarrow> cmd_kill pid k = Some k' \<Longrightarrow> kern_run K R k'"
| reap: "kern_run K R k \<Longrightarrow> process_get pid k = Some i \<Longrightarrow> cur k \<noteq> Some i \<Longrightarrow> process_free pid k = Some k' \<Longrightarrow> kern_run K R k'"
| sleep: "kern_run K R k \<Longrightarrow> kern_run K R (sys_sleep ms k)"
| yield: "kern_run K R k \<Longrightarrow> kern_run K R (schedule sp k)"
| tick: "kern_run K R k \<Longrightarrow> kern_run K R (timer_tick ring3 sp k)"
| store: "kern_run K R k \<Longrightarrow> cr3 k \<noteq> kpd k \<Longrightarrow> mmu (kh k) (cr3 k) True v = Some x \<Longrightarrow> kern_run K R (k\<lparr>kh := st8 x b (kh k)\<rparr>)"
| stack: "kern_run K R k \<Longrightarrow> cur k = Some c \<Longrightarrow> page_no x \<in># held_pages (stack_blocks (procs k ! c)) \<Longrightarrow> x AND NOT 3 \<noteq> p_kernel_stack (procs k ! c) \<Longrightarrow>
    kern_run K R (k\<lparr>kh := st8 x b (kh k)\<rparr>)"
| other: "kern_run K R k \<Longrightarrow> other_step (kh k) R h R' \<Longrightarrow> kern_run K R' (k\<lparr>kh := h\<rparr>)"

lemma kern_kpd:
  assumes "kern_inv K R k" shows "slab_page (kpd k)" "kpd k \<noteq> 0"
proof -
  obtain T where "holds (kh k) (all_blocks (procs k) T + (K + R)) {}" "(kpd k, 0) \<in># K"
    using assms by (auto simp: kern_inv_def mem_inv_def kernel_dir_def)
  then show "slab_page (kpd k)" using holds_block(1) [of "kh k" _ "{}" "kpd k" 0] by simp
  then show "kpd k \<noteq> 0" using slab_page_dvd by blast
qed

lemma boot_inv:
  assumes h: "holds (kh k) (K + R) {}" and d: "kernel_dir (kh k) (kpd k) K" and c: "cr3 k = kpd k" and l: "length (procs k) = 32" and z: "\<forall>p \<in> set (procs k). zero_slot p"
  shows "kern_inv K R (process_init k)"
proof -
  let ?ps = "procs (process_init k)"
  have len: "length ?ps = 32" using l by (simp add: process_init_def Let_def)
  have s: "zero_slot (?ps ! i) \<and> (p_in_use (?ps ! i) \<longleftrightarrow> i \<le> 1) \<and> (i \<le> 1 \<longrightarrow> unat (p_pid (?ps ! i)) = i)" if "i < 32" for i
    using z that l by (auto simp: process_init_def Let_def zero_slot_def nth_list_update)
  have e: "blocks (?ps ! i) t = {#}" if "i < 32" for i t
    using s [OF that] by (simp add: zero_slot_def blocks_def stack_blocks_def)
  then have "all_blocks ?ps (\<lambda>_. 0) = {#}" by (simp add: all_blocks_def len)
  moreover have "slot_ok (kh k) (kpd k) (?ps ! i) 0" if "i < 32" for i
    using s [OF that] e [OF that] by (simp add: slot_ok_def zero_slot_def USER_WIN_PAGES_def)
  moreover have "kh (process_init k) = kh k" "kpd (process_init k) = kpd k" by (simp_all add: process_init_def Let_def)
  ultimately have "mem_inv K R ?ps (kh (process_init k)) (kpd (process_init k))"
    using h d len unfolding mem_inv_def MAX_PROCESSES_def by (intro conjI exI [of _ "\<lambda>_. 0"]) simp_all
  moreover have "cur (process_init k) = Some 1" "next_pid (process_init k) = 2" "cr3 (process_init k) = kpd (process_init k)"
    using c by (simp_all add: process_init_def Let_def)
  moreover have "i = j" if "i < 32" "j < 32" "p_in_use (?ps ! i)" "p_in_use (?ps ! j)" "p_pid (?ps ! i) = p_pid (?ps ! j)" for i j
    using s [OF that(1)] s [OF that(2)] that(3-5) by metis
  moreover have "unat (p_pid (?ps ! i)) < 2" if "i < 32" "p_in_use (?ps ! i)" for i using s [OF that(1)] that(2) by auto
  ultimately have "table_ok (process_init k)"
    using s [of 1] unfolding table_ok_def MAX_PROCESSES_def by (auto simp: zero_slot_def)
  with \<open>mem_inv K R ?ps _ _\<close> show ?thesis by (simp add: kern_inv_def)
qed

lemma other_ok:
  assumes inv: "kern_inv K R k" and o: "other_step (kh k) R h R'"
  shows "kern_inv K R' (k\<lparr>kh := h\<rparr>)"
proof -
  have m: "mem_inv K R (procs k) (kh k) (kpd k)" and t: "table_ok k" using inv by (simp_all add: kern_inv_def)
  obtain T where T: "holds (kh k) (all_blocks (procs k) T + (K + R)) {}" "\<And>i. i < 32 \<Longrightarrow> slot_ok (kh k) (kpd k) (procs k ! i) (T i)"
    and K: "kernel_dir (kh k) (kpd k) K" using m by (auto simp: mem_inv_def MAX_PROCESSES_def)
  let ?D = "all_blocks (procs k) T + K"
  have "holds (kh k) (?D + R) {}" using T(1) by (simp only: ac_simps)
  then have h: "holds h (?D + R') {}" "keeps ?D (kh k) h" using o unfolding other_step_def by blast+
  have H: "holds (kh k) (R + ?D) {}" using T(1) by (simp only: ac_simps)
  have kp: "(kpd k, 0) \<in># ?D" using K by (auto simp: kernel_dir_def)
  have "blocks (procs k ! i) (T i) \<subseteq># all_blocks (procs k) T" if "i < 32" for i
    unfolding all_blocks_def by (subst sum.remove [of _ i]) (use that kern_inv_length [OF inv] in auto)
  then have "blocks (procs k ! i) (T i) \<subseteq># ?D" if "i < 32" for i using that by (simp add: subset_mset.add_increasing2)
  then have "slot_ok h (kpd k) (procs k ! i) (T i)" if "i < 32" for i
    using slot_ok_keeps [OF T(2) [OF that] h(2) _ kp kern_kpd(1) [OF inv]] that by blast
  moreover have "kernel_dir h (kpd k) K" by (rule kernel_dir_keeps [OF K h(2) _ H]) simp
  moreover have "holds h (all_blocks (procs k) T + (K + R')) {}" using h(1) by (simp add: ac_simps)
  ultimately have "mem_inv K R' (procs k) h (kpd k)" using m unfolding mem_inv_def MAX_PROCESSES_def by blast
  moreover have "table_ok (k\<lparr>kh := h\<rparr>)" by (rule table_ok_cong [OF t]) simp_all
  ultimately show ?thesis by (simp add: kern_inv_def)
qed

text \<open>A directory of a program leads a user access to a frame of its window.\<close>

lemma user_access:
  assumes u: "user_space h pd t win fs" and fs: "\<And>f. f \<in> set fs \<Longrightarrow> 4096 dvd unat f" and m: "mmu h pd True v = Some x"
  shows "pde_idx v = 0" "in_window win (length fs) v" "frame_of fs win v \<in> set fs" "frame_of fs win v \<noteq> 0" "x = frame_of fs win v OR (v AND 0xFFF)"
proof -
  have w: "in_window win (length fs) v \<and> frame_of fs win v \<noteq> 0 \<and> x = frame_of fs win v OR (v AND 0xFFF)"
    using m user_walk [OF u fs, of v] by (simp split: if_splits)
  show "pde_idx v = 0" using u w unfolding idx_low(1) by (auto simp: in_window_def user_space_def window_ok_def)
  from walk_target [OF u fs this m] w show "in_window win (length fs) v" "frame_of fs win v \<in> set fs" "frame_of fs win v \<noteq> 0" "x = frame_of fs win v OR (v AND 0xFFF)"
    by blast+
qed

lemma frames_dvd:
  assumes "holds h (blocks p t + D) {}" "f \<in> set (p_frames p)" shows "4096 dvd unat f"
proof (cases "f = 0")
  case False
  then have "(f, 0) \<in># blocks p t + D" using assms(2) by (simp add: blocks_def frame_blocks_def)
  from slab_page_dvd [OF holds_block(1) [OF assms(1) this]] show ?thesis by blast
qed simp

lemma user_store_ok:
  assumes inv: "kern_inv K R k" and d: "cr3 k \<noteq> kpd k" and m: "mmu (kh k) (cr3 k) True v = Some x"
  shows "kern_inv K R (k\<lparr>kh := st8 x b (kh k)\<rparr>)"
proof -
  obtain c where c: "c < 32" "cur k = Some c" "p_in_use (procs k ! c)" "cr3 k = (if p_pd (procs k ! c) \<noteq> 0 then p_pd (procs k ! c) else kpd k)"
    using current [OF inv] .
  obtain t D where s: "holds (kh k) (blocks (procs k ! c) t + D) {}" "slot_ok (kh k) (kpd k) (procs k ! c) t"
    using kern_inv_slot [OF inv c(1,3)] by metis
  have "user_space (kh k) (cr3 k) t USER_WIN_BASE (p_frames (procs k ! c))" using s(2) c(4) d by (simp add: slot_ok_def user_dir_def split: if_splits)
  from user_access(1) [OF this frames_dvd [OF s(1)] m] have "pde_idx v = 0" .
  from store_ok [OF inv this m] d show ?thesis by blast
qed

lemma stack_store_ok:
  assumes inv: "kern_inv K R k" and c: "cur k = Some c" and x: "page_no x \<in># held_pages (stack_blocks (procs k ! c))" "x AND NOT 3 \<noteq> p_kernel_stack (procs k ! c)"
  shows "kern_inv K R (k\<lparr>kh := st8 x b (kh k)\<rparr>)"
proof -
  let ?p = "procs k ! c" and ?h = "st8 x b (kh k)"
  have c': "c < 32" "p_in_use ?p" "cr3 k = (if p_pd ?p \<noteq> 0 then p_pd ?p else kpd k)"
    by (rule current [OF inv]; use c in simp)+
  obtain t D where slot: "holds (kh k) (blocks ?p t + D) {}" "slot_ok (kh k) (kpd k) ?p t" "(kpd k, 0) \<in># D"
    "\<And>f t' h'. holds h' (blocks (f ?p) t' + D) {} \<Longrightarrow> keeps D (kh k) h' \<Longrightarrow> slot_ok h' (kpd k) (f ?p) t' \<Longrightarrow>
      p_in_use (f ?p) \<Longrightarrow> p_pid (f ?p) = p_pid ?p \<Longrightarrow>
      (cur k = Some c \<longrightarrow> cr3 k = (if p_pd (f ?p) \<noteq> 0 then p_pd (f ?p) else kpd k)) \<Longrightarrow> kern_inv K R (upd c f (k\<lparr>kh := h'\<rparr>))"
    using kern_inv_slot [OF inv c'(1,2)] by metis
  have e: "blocks ?p t + D = stack_blocks ?p + (frame_blocks (p_frames ?p) + dir_blocks (p_pd ?p) t + D)" by (simp only: blocks_def ac_simps)
  have "page_no x \<notin># held_pages (frame_blocks (p_frames ?p) + dir_blocks (p_pd ?p) t + D)" by (rule holds_once [OF slot(1) [unfolded e] x(1)])
  from keeps_st8 [OF this] have k: "keeps (dir_blocks (p_pd ?p) t + D) (kh k) ?h" by (rule keeps_mono [rotated]) (simp add: ac_simps)
  have h: "holds ?h (blocks ?p t + D) {}" by (rule holds_st8 [OF slot(1)]) (use x(1) in \<open>simp add: blocks_def held_pages_union\<close>)
  have "rd (p_kernel_stack ?p) ?h = rd (p_kernel_stack ?p) (kh k)" using st8_wr [of x b "kh k"] x(2) by (auto simp: rd_wr)
  moreover have "user_dir ?h (kpd k) (p_pd ?p) t (p_frames ?p)" if "p_pd ?p \<noteq> 0"
    by (rule user_dir_keeps [OF _ k _ _ _ kern_kpd(1) [OF inv]]) (use slot(2,3) that in \<open>simp_all add: slot_ok_def dir_blocks_def\<close>)
  ultimately have "slot_ok ?h (kpd k) ?p t" using slot(2) by (simp add: slot_ok_def)
  moreover have "keeps D (kh k) ?h" by (rule keeps_mono [OF _ k]) simp
  ultimately have "kern_inv K R (upd c (\<lambda>p. p) (k\<lparr>kh := ?h\<rparr>))" using h c' by (intro slot(4) [of ?h "\<lambda>p. p" t]) simp_all
  then show ?thesis by (simp add: upd_def)
qed

lemma kern_run_inv: "kern_run K R k \<Longrightarrow> kern_inv K R k"
proof (induction rule: kern_run.induct)
  case (boot h0 D kp h K R k)
  then show ?case by (intro boot_inv) simp_all
next
  case (thread K R k name fn arg pid k')
  then show ?case using kthread_create_ok [of K R k name fn arg] by auto
next
  case (spawn K R k name img argv bg pid k')
  then show ?case using user_spawn_ok [of K R k name img argv bg] by auto
next
  case (fork K R k r pid k')
  then show ?case using sys_fork_ok [of K R k r] by auto
next
  case (slot K R k name pid k')
  then show ?case using process_alloc_ok [of K R k name pid k'] by auto
next
  case (wait K R k pid status x k')
  then show ?case using sys_waitpid_ok by blast
next
  case (kill K R k pid k')
  then show ?case using cmd_kill_ok [of K R k pid] by auto
next
  case (reap K R k pid i k')
  then show ?case using process_free_ok [of K R k pid i] by auto
next
  case (exec K R k read_file r pu au x r' k')
  then show ?case using sys_execve_ok by blast
next
  case (exit K R k code)
  then show ?case using user_process_exit_ok by blast
next
  case (sleep K R k ms)
  then show ?case using sys_sleep_ok by blast
next
  case (yield K R k sp)
  then show ?case using schedule_ok kern_kpd(2) by blast
next
  case (tick K R k ring3 sp)
  then show ?case using timer_tick_ok kern_kpd(2) by blast
next
  case (store K R k v x b)
  then show ?case using user_store_ok by blast
next
  case (stack K R k c x b)
  then show ?case using stack_store_ok by blast
next
  case (other K R k h R')
  then show ?case using other_ok by blast
qed

section \<open>What fork copies\<close>

lemma take_frames_copies:
  "holds h (frame_blocks fs + D) Q \<Longrightarrow> \<forall>j \<in> set js. fs ! j = 0 \<Longrightarrow> distinct js \<Longrightarrow> set js \<subseteq> {..< length fs} \<Longrightarrow>
    take_frames False (\<lambda>j a. mem_copy_heap a (src j) 4096) js fs h = (True, fs', h') \<Longrightarrow> i \<in> set js \<Longrightarrow> (src i, 0) \<in># D \<Longrightarrow> b < 4096 \<Longrightarrow>
    ld8 (fs' ! i + of_nat b) h' = ld8 (src i + of_nat b) h"
proof (induction js arbitrary: fs h)
  case (Cons j js)
  obtain a h2 where a: "page_alloc h = (a, h2)" by fastforce
  then have a0: "a \<noteq> 0" and r: "take_frames False (\<lambda>j a. mem_copy_heap a (src j) 4096) js (fs[j := a]) (mem_copy_heap a (src j) 4096 h2) = (True, fs', h')"
    using Cons.prems(5) by (auto simp: Let_def split: if_splits)
  let ?h = "mem_copy_heap a (src j) 4096 h2"
  have j: "j < length fs" "fs ! j = 0" "j \<notin> set js" using Cons.prems(2-4) by auto
  have fs0: "fs[j := 0] = fs" using j by (metis list_update_id)
  note A = holds_alloc [OF Cons.prems(1) a]
  have h2: "holds h2 (add_mset (a, 0) (frame_blocks fs + D)) Q" using A(2) a0 by simp
  have page: "slab_page a" using holds_block(1) [OF h2, of a 0] by simp
  have out: "page_no a \<notin># held_pages (frame_blocks fs + D)" by (rule holds_head [OF h2])
  have e: "frame_blocks (fs[j := a]) + D = add_mset (a, 0) (frame_blocks fs + D)"
    using frame_blocks_take(2) [OF j(1), of a] a0 unfolding fs0 by simp
  have h3: "holds ?h (frame_blocks (fs[j := a]) + D) Q" using fills_copy h2 unfolding e fills_def by simp
  have k3: "keeps (frame_blocks fs + D) h ?h" using A(3) mem_copy_heap_ok(2) [OF page order_refl out] keeps_trans by blast
  have src: "page_no (src i + of_nat b) \<in># held_pages D"
    using holds_block(1) [OF Cons.prems(1), of "src i" 0] Cons.prems(7,8) page_byte(2) [of "src i" b] held_pagesI [OF Cons.prems(7) block_pages_first] by simp
  have src_kept: "ld8 (src i + of_nat b) h'' = ld8 (src i + of_nat b) h" if "keeps (frame_blocks fs + D) h h''" for h''
    using keeps_ld8 [OF that, of "src i + of_nat b"] src by (simp add: held_pages_union)
  have fills: "fills (\<lambda>j a. mem_copy_heap a (src j) 4096)" by (rule fills_copy)
  have rest: "\<forall>l \<in> set js. fs[j := a] ! l = 0" "distinct js" "set js \<subseteq> {..< length (fs[j := a])}" using Cons.prems(2-4) j by (auto simp: nth_list_update)
  show ?case
  proof (cases "i = j")
    case False
    then show ?thesis using Cons.IH [OF h3 rest r] Cons.prems(6-8) src_kept [OF k3] by simp
  next
    case True
    have T: "keeps (frame_blocks (other_frames js (fs[j := a])) + D) ?h h'" "fs' ! j = a"
      using take_frames_ok [OF fills h3 _ rest(2,3) r] rest(1) j by auto
    have "a \<in> set (other_frames js (fs[j := a]))" using j by (auto simp: other_frames_def intro!: image_eqI [of _ _ j])
    then have "(a, 0) \<in># frame_blocks (other_frames js (fs[j := a]))" using a0 by (simp add: frame_blocks_def)
    from held_pagesI [OF this block_pages_first] have "page_no (a + of_nat b) \<in># held_pages (frame_blocks (other_frames js (fs[j := a])) + D)"
      using page_byte(2) [OF page Cons.prems(8)] by (simp add: held_pages_union)
    from keeps_ld8 [OF T(1) this] have "ld8 (fs' ! i + of_nat b) h' = ld8 (a + of_nat b) ?h" using T(2) True by simp
    also have "\<dots> = ld8 (src j + of_nat b) h2"
    proof (rule mem_copy_heap_ok(3) [OF page order_refl _ Cons.prems(8)])
      fix n :: nat assume "n < 4096"
      then have "page_no (src j + of_nat n) = page_no (src j)"
        using holds_block(1) [OF Cons.prems(1), of "src j" 0] Cons.prems(7) True page_byte(2) [of "src j" n] by simp
      moreover have "page_no (src j) \<in># held_pages D" using held_pagesI [OF Cons.prems(7) block_pages_first] True by simp
      ultimately show "page_no (src j + of_nat n) \<noteq> page_no a" using out by (auto simp: held_pages_union)
    qed
    also have "\<dots> = ld8 (src i + of_nat b) h" using src_kept [OF A(3)] True by simp
    finally show ?thesis .
  qed
qed simp

text \<open>The frame on a new kernel stack: \<open>eax\<close> and where the program goes on.\<close>

lemma user_frame:
  assumes "kstack_push_user_frame resume ks fr eax h = (sp, h')"
  shows "sp = ks - 96" "rd (sp + 64) h' = eax" "rd (sp + 76) h' = r_eip fr" "rd (sp + 88) h' = r_useresp fr" "rd (sp + 16) h' = resume"
  using assms by (auto simp: kstack_push_user_frame_def push_stack_def rd_wr)

text \<open>A successful fork, step by step: child slot \<open>i\<close>, stack \<open>st\<close>, frames \<open>fs\<close>, directory \<open>pd\<close>.\<close>

lemma sys_fork_success:
  assumes inv: "kern_inv K R k" and n: "unat (next_pid k) + 1 < 2 ^ 32" and c: "cur k = Some c" and r: "sys_fork rg k = Some (pid, k')" and ok: "pid \<noteq> FAILED"
  obtains i k1 st h1 fs h2 pd h3 sp h4 where "p_is_user_prog (procs k ! c)" "p_pd (procs k ! c) \<noteq> 0"
    "process_alloc (p_name (procs k ! c)) k = (pid, k1)" "pid = next_pid k" "kern_inv K R k1" "kh k1 = kh k" "kpd k1 = kpd k" "cur k1 = cur k" "cr3 k1 = cr3 k" "i < 32" "i \<noteq> c" "\<not> p_in_use (procs k ! i)"
    "blank (procs k1 ! i)" "p_pid (procs k1 ! i) = pid" "\<And>j. j \<noteq> i \<Longrightarrow> procs k1 ! j = procs k ! j"
    "kmalloc USER_KSTACK_SIZE (kh k) = Some (st, h1)" "st \<noteq> 0"
    "take_frames False (\<lambda>j a. mem_copy_heap a (p_frames (procs k ! c) ! j) 4096) [0 ..< 64] (replicate 64 0) h1 = (True, fs, h2)"
    "vmm_create_user_pd (kpd k) fs USER_WIN_BASE h2 = (pd, h3)" "pd \<noteq> 0"
    "kstack_push_user_frame (isr_user_exit k) (st + USER_KSTACK_SIZE) rg 0 h3 = (sp, h4)"
    "k' = upd i (\<lambda>p. p\<lparr>p_kernel_stack := st, p_kernel_stack_size := USER_KSTACK_SIZE, p_frames := fs, p_pd := pd, p_esp := sp,
      p_is_user_prog := True, p_is_background := p_is_background (procs k ! c), p_state := PROC_STATE_RUNNING\<rparr>) (k1\<lparr>kh := h4\<rparr>)"
proof -
  let ?q = "procs k ! c"
  have user: "p_is_user_prog ?q" "p_pd ?q \<noteq> 0" "\<not> pmm_get_free_pages (pm (kh k)) < of_nat USER_WIN_PAGES + 8"
    using r c ok by (auto simp: sys_fork_def Let_def split: if_splits)
  obtain p k1 where a: "process_alloc (p_name ?q) k = (p, k1)" by fastforce
  have p0: "p \<noteq> 0" using r c ok user a by (auto simp: sys_fork_def Let_def)
  from process_alloc_ok [OF inv a n] p0 obtain i where i: "p = next_pid k" "kern_inv K R k1" "kh k1 = kh k" "kpd k1 = kpd k" "cur k1 = cur k" "cr3 k1 = cr3 k"
    "isr_user_exit k1 = isr_user_exit k" "i < 32" "process_get p k1 = Some i" "cur k \<noteq> Some i" "\<not> p_in_use (procs k ! i)" "blank (procs k1 ! i)" "p_pid (procs k1 ! i) = p"
    "\<And>j. j \<noteq> i \<Longrightarrow> procs k1 ! j = procs k ! j" by auto
  have bl: "p_frames (procs k1 ! i) = replicate 64 0" and len: "i < length (procs k1)" using i(8,12) kern_inv_length [OF i(2)] by (simp_all add: blank_def)
  obtain st h1 where km: "kmalloc USER_KSTACK_SIZE (kh k) = Some (st, h1)"
    using stage_stack [OF i(2,8) _ i(12)] i(3,5,10) by metis
  obtain okf fs h2 where tf: "take_frames False (\<lambda>j a. mem_copy_heap a (p_frames ?q ! j) 4096) [0 ..< 64] (replicate 64 0) h1 = (okf, fs, h2)" by (metis surj_pair)
  obtain pd h3 where cr: "vmm_create_user_pd (kpd k) fs USER_WIN_BASE h2 = (pd, h3)" by fastforce
  obtain sp h4 where pu: "kstack_push_user_frame (isr_user_exit k) (st + USER_KSTACK_SIZE) rg 0 h3 = (sp, h4)" by fastforce
  note start = r c user p0 a i(3,4,7,9) km
  have st: "st \<noteq> 0"
  proof
    assume "st = 0"
    then have "\<exists>k2. Some (pid, k') = Some (FAILED, k2)" using start by (auto simp: sys_fork_def Let_def split: Option.bind_splits)
    then show False using ok by simp
  qed
  note start = start tf cr pu bl len st
  have okf: okf
  proof (rule ccontr)
    assume "\<not> okf"
    then have "\<exists>k2. Some (pid, k') = Some (FAILED, k2)" using start by (auto simp: sys_fork_def Let_def USER_WIN_PAGES_def split: Option.bind_splits)
    then show False using ok by simp
  qed
  have pd: "pd \<noteq> 0"
  proof
    assume "pd = 0"
    then have "\<exists>k2. Some (pid, k') = Some (FAILED, k2)" using start okf by (auto simp: sys_fork_def Let_def USER_WIN_PAGES_def split: Option.bind_splits)
    then show False using ok by simp
  qed
  have k': "pid = p" "k' = upd i (\<lambda>p. p\<lparr>p_kernel_stack := st, p_kernel_stack_size := USER_KSTACK_SIZE, p_frames := fs, p_pd := pd, p_esp := sp,
      p_is_user_prog := True, p_is_background := p_is_background ?q, p_state := PROC_STATE_RUNNING\<rparr>) (k1\<lparr>kh := h4\<rparr>)"
    using start okf pd by (simp_all add: sys_fork_def Let_def USER_WIN_PAGES_def upd_upd)
  have ic: "i \<noteq> c" using i(10) c by simp
  show ?thesis
    by (rule that [of k1 i st h1 fs h2 pd h3 sp h4]) (use user a i km st tf okf cr pd pu k' ic in simp_all)
qed

text \<open>What user mode of process \<open>i\<close> reaches at \<open>v\<close>.\<close>

definition reaches :: "kern \<Rightarrow> nat \<Rightarrow> u32 \<Rightarrow> u32 \<Rightarrow> bool" where
  "reaches k i v x \<longleftrightarrow> p_pd (procs k ! i) \<noteq> 0 \<and> mmu (kh k) (p_pd (procs k ! i)) True v = Some x"

lemma frame_byte: "4096 dvd unat f \<Longrightarrow> f OR (v AND 0xFFF) = f + of_nat (unat v mod 4096)" for f v :: u32
proof -
  assume f: "4096 dvd unat f"
  have m: "(0xFFF :: u32) = mask 12" by (simp add: mask_eq_exp_minus_1)
  have "f AND 0xFFF = 0" using page_bits(2) [OF f] by simp
  moreover have "f AND (v AND 0xFFF) = (f AND 0xFFF) AND v" by (simp only: ac_simps)
  ultimately have "f AND (v AND 0xFFF) = 0" by simp
  then have "f OR (v AND 0xFFF) = f + (v AND 0xFFF)" by (simp add: disjunctive_add_eq_or)
  moreover have "unat (v AND 0xFFF) = take_bit 12 (unat v)" unfolding m by (simp only: take_bit_eq_mask [symmetric] unsigned_take_bit_eq)
  then have "(of_nat (unat (v AND 0xFFF)) :: u32) = of_nat (unat v mod 4096)" by (simp only: take_bit_eq_mod) simp
  then have "v AND 0xFFF = of_nat (unat v mod 4096)" by (simp only: of_nat_unat ucast_id)
  ultimately show ?thesis by simp
qed

text \<open>The frames of a slot and where its directory leads.\<close>

lemma reaches_frame:
  assumes s: "slot_ok (kh k) kp (procs k ! i) t" and h: "holds (kh k) (blocks (procs k ! i) t + D) {}" and r: "reaches k i v x"
  obtains n where "n < 64" "n = unat v div 4096 - unat USER_WIN_BASE div 4096" "in_window USER_WIN_BASE 64 v" "(p_frames (procs k ! i) ! n, 0) \<in># frame_blocks (p_frames (procs k ! i))"
    "x = p_frames (procs k ! i) ! n + of_nat (unat v mod 4096)" "page_no x = page_no (p_frames (procs k ! i) ! n)"
proof -
  let ?fs = "p_frames (procs k ! i)"
  have u: "user_space (kh k) (p_pd (procs k ! i)) t USER_WIN_BASE ?fs" and l: "length ?fs = 64"
    using s r by (simp_all add: slot_ok_def user_dir_def reaches_def USER_WIN_PAGES_def)
  have m: "mmu (kh k) (p_pd (procs k ! i)) True v = Some x" using r by (simp add: reaches_def)
  note dvd = frames_dvd [OF h]
  have A: "in_window USER_WIN_BASE 64 v" "frame_of ?fs USER_WIN_BASE v \<in> set ?fs" "frame_of ?fs USER_WIN_BASE v \<noteq> 0" "x = frame_of ?fs USER_WIN_BASE v OR (v AND 0xFFF)"
    using user_access(2-5) [OF u dvd m] l by simp_all
  have n: "unat v div 4096 - unat USER_WIN_BASE div 4096 < 64"
    using A(1) by (auto simp: in_window_def user_consts)
  have "(frame_of ?fs USER_WIN_BASE v, 0) \<in># frame_blocks ?fs" using in_frame_blocks [OF A(2,3)] .
  moreover have "x = frame_of ?fs USER_WIN_BASE v + of_nat (unat v mod 4096)" unfolding A(4) by (rule frame_byte [OF dvd [OF A(2)]])
  moreover have "page_no x = page_no (frame_of ?fs USER_WIN_BASE v)" unfolding A(4) by (rule page_of_frame [OF dvd [OF A(2)]])
  ultimately show ?thesis unfolding frame_of_def by (rule that [OF n refl A(1)])
qed

lemma reaches_iff:
  assumes u: "user_dir (kh k) kp (p_pd (procs k ! i)) t (p_frames (procs k ! i))" and pd: "p_pd (procs k ! i) \<noteq> 0"
    and fs: "length (p_frames (procs k ! i)) = 64" "\<And>f. f \<in> set (p_frames (procs k ! i)) \<Longrightarrow> 4096 dvd unat f" and v: "in_window USER_WIN_BASE 64 v"
    and n: "n = unat v div 4096 - unat USER_WIN_BASE div 4096" "p_frames (procs k ! i) ! n \<noteq> 0"
  shows "reaches k i v (p_frames (procs k ! i) ! n + of_nat (unat v mod 4096))"
proof -
  have us: "user_space (kh k) (p_pd (procs k ! i)) t USER_WIN_BASE (p_frames (procs k ! i))" using u by (simp add: user_dir_def)
  have "n < 64" using v n(1) by (auto simp: in_window_def user_consts)
  then have "p_frames (procs k ! i) ! n \<in> set (p_frames (procs k ! i))" using fs(1) by simp
  from frame_byte [OF fs(2) [OF this]] show ?thesis
    using user_walk [OF us fs(2), of v] pd v n fs(1) by (simp add: reaches_def frame_of_def)
qed

lemma fork_window:
  assumes inv: "kern_inv K R k" and n: "unat (next_pid k) + 1 < 2 ^ 32" and c: "cur k = Some c" and r: "sys_fork rg k = Some (pid, k')" and ok: "pid \<noteq> FAILED"
  shows "\<exists>i < 32. i \<noteq> c \<and> \<not> p_in_use (procs k ! i) \<and> (\<forall>j. j \<noteq> i \<longrightarrow> procs k' ! j = procs k ! j) \<and>
    p_in_use (procs k' ! i) \<and> p_pid (procs k' ! i) = pid \<and> p_state (procs k' ! i) = PROC_STATE_RUNNING \<and>
    rd (p_esp (procs k' ! i) + 64) (kh k') = 0 \<and> rd (p_esp (procs k' ! i) + 76) (kh k') = r_eip rg \<and>
    (\<forall>v x. reaches k c v x \<longrightarrow> reaches k' c v x \<and> ld8 x (kh k') = ld8 x (kh k) \<and> (\<exists>y. reaches k' i v y \<and> ld8 y (kh k') = ld8 x (kh k)))"
proof -
  let ?q = "procs k ! c"
  obtain i k1 st h1 fs h2 pd h3 sp h4 where S: "p_is_user_prog ?q" "p_pd ?q \<noteq> 0" "process_alloc (p_name ?q) k = (pid, k1)" "pid = next_pid k" "kern_inv K R k1"
    "kh k1 = kh k" "kpd k1 = kpd k" "cur k1 = cur k" "cr3 k1 = cr3 k" "i < 32" "i \<noteq> c" "\<not> p_in_use (procs k ! i)" "blank (procs k1 ! i)" "p_pid (procs k1 ! i) = pid"
    "\<And>j. j \<noteq> i \<Longrightarrow> procs k1 ! j = procs k ! j" "kmalloc USER_KSTACK_SIZE (kh k) = Some (st, h1)" "st \<noteq> 0"
    "take_frames False (\<lambda>j a. mem_copy_heap a (p_frames ?q ! j) 4096) [0 ..< 64] (replicate 64 0) h1 = (True, fs, h2)"
    "vmm_create_user_pd (kpd k) fs USER_WIN_BASE h2 = (pd, h3)" "pd \<noteq> 0" "kstack_push_user_frame (isr_user_exit k) (st + USER_KSTACK_SIZE) rg 0 h3 = (sp, h4)"
    "k' = upd i (\<lambda>p. p\<lparr>p_kernel_stack := st, p_kernel_stack_size := USER_KSTACK_SIZE, p_frames := fs, p_pd := pd, p_esp := sp,
      p_is_user_prog := True, p_is_background := p_is_background ?q, p_state := PROC_STATE_RUNNING\<rparr>) (k1\<lparr>kh := h4\<rparr>)"
    by (rule sys_fork_success [OF inv n c r ok]) blast
  have c32: "c < 32" by (rule current [OF inv]; use c in simp)
  have ci: "cur k1 \<noteq> Some i" using S(8,11) c by simp
  obtain D st' h' where D': "kmalloc USER_KSTACK_SIZE (kh k1) = Some (st', h')" "st' \<noteq> 0 \<Longrightarrow> partial (kh k1) h' (kpd k1) D st' (replicate 64 0) 0 0"
    "\<And>j. j < 32 \<Longrightarrow> j \<noteq> i \<Longrightarrow> \<exists>u. blocks (procs k1 ! j) u \<subseteq># D \<and> slot_ok (kh k1) (kpd k1) (procs k1 ! j) u"
    by (rule stage_stack [OF S(5,10) ci S(13)]) blast
  have e: "st' = st" "h' = h1" using D'(1) S(6,16) by simp_all
  have D: "partial (kh k) h1 (kpd k) D st (replicate 64 0) 0 0"
    "\<And>j. j < 32 \<Longrightarrow> j \<noteq> i \<Longrightarrow> \<exists>u. blocks (procs k1 ! j) u \<subseteq># D \<and> slot_ok (kh k) (kpd k) (procs k1 ! j) u"
    using D'(2,3) S(6,7,17) unfolding e by simp_all
  note P2 = stage_frames [OF D(1) fills_copy S(18)]
  obtain t where P3: "partial (kh k) h3 (kpd k) D st fs pd t" using stage_dir [OF P2(1) S(19)] by blast
  note P4 = stage_push [OF P3 S(21)]
  obtain u where U: "blocks ?q u \<subseteq># D" "slot_ok (kh k) (kpd k) ?q u" using D(2) [OF c32] S(11,15) by metis
  have kp: "(kpd k, 0) \<in># D" "slab_page (kpd k)" using P4 by (simp_all add: partial_def)
  have keep: "keeps D (kh k) h4" "keeps D (kh k) h1" using P4 D(1) by (simp_all add: partial_def)
  have len: "i < length (procs k1)" using S(10) kern_inv_length [OF S(5)] by simp
  have k': "kh k' = h4" "procs k' ! c = ?q" "p_frames (procs k' ! i) = fs" "p_pd (procs k' ! i) = pd" "p_esp (procs k' ! i) = sp" "p_pid (procs k' ! i) = pid"
      "p_state (procs k' ! i) = PROC_STATE_RUNNING" "p_in_use (procs k' ! i)" "\<forall>j. j \<noteq> i \<longrightarrow> procs k' ! j = procs k ! j"
    using S(10-15) len unfolding S(22) by (simp_all add: blank_def)
  obtain t0 D0 where h0: "holds (kh k) (blocks ?q t0 + D0) {}" "slot_ok (kh k) (kpd k) ?q t0"
  proof -
    have "p_in_use ?q" by (rule current [OF inv]; use c in simp)
    from kern_inv_slot [OF inv c32 this] that show ?thesis by metis
  qed
  note dvd = frames_dvd [OF h0(1)]
  have l: "length (p_frames ?q) = 64" "length fs = 64" using U(2) P4 by (simp_all add: slot_ok_def partial_def USER_WIN_PAGES_def)
  have fs0: "0 \<notin> set fs" using P2(2) by simp
  have in_D: "b \<in># D" if "b \<in># blocks ?q u" for b using mset_subset_eqD [OF U(1) that] .
  have ud: "user_dir h4 (kpd k) (p_pd ?q) u (p_frames ?q)"
    by (rule user_dir_keeps [OF _ keep(1) _ _ kp]) (use U(2) S(2) in_D in \<open>simp_all add: slot_ok_def blocks_def dir_blocks_def\<close>)
  have ud': "user_dir h4 (kpd k) pd t fs" and h4: "holds h4 (add_mset (st, 1) (frame_blocks fs + dir_blocks pd t + D)) {}"
    using P4 S(20) by (simp_all add: partial_def)
  have dvd': "4096 dvd unat f" if "f \<in> set fs" for f
    using slab_page_dvd [OF holds_block(1) [OF h4, of f 0]] in_frame_blocks [OF that] by (cases "f = 0") simp_all
  have later: "ld8 a h4 = ld8 a h2" if "page_no a \<in># held_pages (frame_blocks fs)" for a
  proof -
    have E: "holds h2 (add_mset (st, 1) (frame_blocks fs + D)) {}" using P2(1) by (simp add: partial_def)
    have "keeps (add_mset (st, 1) (frame_blocks fs + D)) h2 h3" by (rule new_dir(1) [OF E _ l(2) S(19)]) (use kp in simp)
    moreover have "holds h3 (add_mset (st, 1) (frame_blocks fs + dir_blocks pd t + D)) {}" using P3 by (simp add: partial_def)
    then have "keeps (frame_blocks fs + dir_blocks pd t + D) h3 h4"
      using push_kernel_stack(2) [OF _ _ _ S(21) [unfolded kstack_push_user_frame_def USER_KSTACK_SIZE_def]] by simp
    ultimately show ?thesis using keeps_ld8 [of _ h2 h3 a] keeps_ld8 [of _ h3 h4 a] that by (simp add: held_pages_union)
  qed
  have "reaches k' c v x \<and> ld8 x h4 = ld8 x (kh k) \<and> (\<exists>y. reaches k' i v y \<and> ld8 y h4 = ld8 x (kh k))" if R: "reaches k c v x" for v x
  proof -
    obtain m where m: "m < 64" "m = unat v div 4096 - unat USER_WIN_BASE div 4096" "in_window USER_WIN_BASE 64 v" "(p_frames ?q ! m, 0) \<in># frame_blocks (p_frames ?q)"
      "x = p_frames ?q ! m + of_nat (unat v mod 4096)" "page_no x = page_no (p_frames ?q ! m)"
      by (rule reaches_frame [OF h0(2,1) R]) blast
    let ?f = "p_frames ?q ! m" and ?b = "unat v mod 4096"
    have f0: "?f \<noteq> 0" using m(4) by (auto simp: frame_blocks_def)
    have fD: "(?f, 0) \<in># D" using in_D m(4) by (simp add: blocks_def)
    have "page_no x \<in># held_pages D" using held_pagesI [OF fD block_pages_first] m(6) by simp
    then have x: "ld8 x h4 = ld8 x (kh k)" "ld8 x h1 = ld8 x (kh k)" using keeps_ld8 keep by blast+
    have 1: "reaches k' c v x"
      using reaches_iff [of k' "kpd k" c u v m] ud k' S(2) l(1) dvd m(2,3) f0 unfolding m(5) by simp
    let ?y = "fs ! m + of_nat ?b"
    have m0: "fs ! m \<noteq> 0" "fs ! m \<in> set fs" using fs0 l(2) m(1) by (metis nth_mem)+
    have 2: "reaches k' i v ?y" using reaches_iff [of k' "kpd k" i t v m] ud' k' S(20) l(2) dvd' m(2,3) m0(1) by simp
    have b: "?b < 4096" by simp
    have "slab_page (fs ! m)" using holds_block(1) [OF h4, of "fs ! m" 0] in_frame_blocks [OF m0(2,1)] by simp
    then have "page_no ?y \<in># held_pages (frame_blocks fs)"
      using page_byte(2) [OF _ b] held_pagesI [OF in_frame_blocks [OF m0(2,1)] block_pages_first] by simp
    then have "ld8 ?y h4 = ld8 ?y h2" by (rule later)
    also have "\<dots> = ld8 (?f + of_nat ?b) h1"
    proof (rule take_frames_copies [OF _ _ _ _ S(18) _ _ b])
      show "holds h1 (frame_blocks (replicate 64 0) + add_mset (st, 1) D) {}" using D(1) by (simp add: partial_def)
    qed (use fD m(1) in simp_all, auto)
    finally show ?thesis using 1 2 x m(5) by auto
  qed
  then show ?thesis using S(10-12) k' user_frame(2,3) [OF S(21)] by (intro exI [of _ i]) simp
qed

end
