(* ===== verification/Kernel_Properties.thy ===== *)
theory Kernel_Properties
  imports Kernel_Run
begin

text \<open>
  Properties of the kernel's processes in every run, each shown at work on a machine of 28 MB that has started two programs.
\<close>

section \<open>Memory that suffices\<close>

text \<open>Giving back a block of 4 MB that another part of the kernel held.\<close>

definition give_back :: "u32 \<Rightarrow> kheap \<Rightarrow> kheap" where
  "give_back b h = the (kfree b (wr b 0 h))"

lemma kfree_large:
  assumes h: "holds h (add_mset (b, 10) D) {}" and m: "rd b h \<noteq> SLAB_MAGIC"
  shows "pm (the (kfree b h)) = pmm_free_page b 10 (pm h)" "free_lists (pm (the (kfree b h))) ! 10 = b" "1024 \<le> free_count (the (kfree b h))"
proof -
  obtain W F where W: "heap_ok h W F (add_mset (b, 10) D)" using h by (auto simp: holds_def)
  have inv: "pmm_run_inv (pm h) (add_mset (b, 10) (slab_blocks W + D))" using heap_okD(2) [OF W] by simp
  have page: "slab_page b" using holds_block(1) [OF h, of b 10] by simp
  have round: "b AND NOT 4095 = b" by (rule round_down [OF page refl])
  have blk: "pmm_block (pm h) 10 b" "pmm_get_order b (pm h) = 10" using inv by (auto simp: pmm_run_inv_def)
  have b0: "b \<noteq> 0" using page by (auto simp: slab_page_def)
  show e: "pm (the (kfree b h)) = pmm_free_page b 10 (pm h)"
    using b0 m blk(2) by (simp add: kfree_def round [simplified] Let_def rd_def)
  obtain L where L: "pmm_wf (pm h) L" "free_page_mset L + held_pages (add_mset (b, 10) (slab_blocks W + D)) = managed_pages (pm h)"
    by (rule pmm_run_invE [OF inv])
  have fresh: "p \<notin># free_page_mset L" if "p \<in> set (block_pages (nat 10) b)" for p
    using free_held_disjoint [OF L(2), of p] that by auto
  have ok: "block_ok (unat (total_pages (pm h))) (nat 10) b" using blk(1) by (auto simp: pmm_block_def)
  note P = pmm_free_page_wf [OF L(1) _ _ ok fresh, simplified]
  have l: "length (free_lists (pm h)) = 11" using L(1) pmm_listsD(1) by (auto simp: pmm_wf_def)
  then show "free_lists (pm (the (kfree b h))) ! 10 = b"
    using b0 unfolding e by (simp add: pmm_free_page_def pmm_add_to_list_def PMM_MAX_ORDER_def Let_def)
  have "unat (free_pages (pmm_free_page b 10 (pm h))) = size (free_page_mset L) + 2 ^ 10"
    using P(1,2) by (simp add: pmm_wf_def size_block_pages)
  then show "1024 \<le> free_count (the (kfree b h))" unfolding free_count_def e by simp
qed

lemma give_back_step:
  assumes h: "holds h (add_mset (b, 10) D) {}"
  shows "other_step h (add_mset (b, 10) R) (give_back b h) R" "free_lists (pm (give_back b h)) ! 10 = b" "1024 \<le> free_count (give_back b h)"
proof -
  have p: "page_no b \<in># held_pages (add_mset (b, 10) E)" for E using block_pages_first [of b 10] by simp
  have m: "rd b (wr b 0 h) \<noteq> SLAB_MAGIC" by (simp add: rd_wr SLAB_MAGIC_def)
  have w: "holds (wr b 0 h) (add_mset (b, 10) E) {}" if "holds h (add_mset (b, 10) E) {}" for E by (rule holds_wr [OF that p])
  show "other_step h (add_mset (b, 10) R) (give_back b h) R"
    unfolding other_step_def
  proof (intro allI impI)
    fix E assume "holds h (E + add_mset (b, 10) R) {}"
    then have E: "holds h (add_mset (b, 10) (E + R)) {}" by simp
    from holds_kfree [OF w [OF E] m] obtain h' where h': "kfree b (wr b 0 h) = Some h'" "holds h' (E + R) {}" "keeps (E + R) (wr b 0 h) h'" by blast
    have "keeps (E + R) h h'" using keeps_wr [OF holds_head [OF E]] h'(3) keeps_trans by blast
    then show "holds (give_back b h) (E + R) {} \<and> keeps E h (give_back b h)" using h'(1,2) keeps_sub by (auto simp: give_back_def)
  qed
  show "free_lists (pm (give_back b h)) ! 10 = b" "1024 \<le> free_count (give_back b h)"
    unfolding give_back_def using kfree_large [OF w [OF h] m] by simp_all
qed

text \<open>With such a block a kernel stack can be had.\<close>

lemma kmalloc_stack:
  assumes h: "holds h D Q" and l: "free_lists (pm h) ! 10 \<noteq> 0" and r: "kmalloc USER_KSTACK_SIZE h = Some (st, h1)"
  shows "st \<noteq> 0" "free_count h - 2 \<le> free_count h1"
proof -
  obtain W F where W: "heap_ok h W F D" "pmm_run_inv (pm h) (slab_blocks W + D)" using holds_inv [OF h] .
  obtain L where L: "pmm_wf (pm h) L" by (rule pmm_run_invE [OF W(2)])
  have len: "length (free_lists (pm h)) = 11" using L pmm_listsD(1) by (auto simp: pmm_wf_def)
  obtain a s where a: "pmm_alloc_page 1 (pm h) = (a, s)" by fastforce
  have a0: "a \<noteq> 0"
  proof
    assume "a = 0"
    from pmm_alloc_page_None [OF L _ _ a [unfolded this]] have "L ! 10 = []" by simp
    then show False using l L pmm_listsD(4) [of "pm h" L 10] by (auto simp: pmm_wf_def)
  qed
  have "order_for USER_KSTACK_SIZE 0 = Some 1" using stack_orders(2) by (simp add: USER_KSTACK_SIZE_def)
  then have e: "(st, h1) = count_alloc (a, h\<lparr>pm := s\<rparr>)" using r a by (simp add: kmalloc_def USER_KSTACK_SIZE_def)
  then show "st \<noteq> 0" using a0 by (simp add: count_alloc_def)
  from pmm_alloc_page_Some [OF L _ _ a a0] obtain L' where "pmm_wf s L'" "free_page_mset L = free_page_mset L' + mset (block_pages 1 a)" by auto
  moreover have "pm h1 = s" using e a0 by (simp add: count_alloc_def)
  ultimately show "free_count h - 2 \<le> free_count h1" using L by (simp add: free_count_def pmm_wf_def size_block_pages)
qed

text \<open>With enough free pages the frames of a window can be had.\<close>

lemma free_count_copy [simp]: "free_count (mem_copy_heap a s n h) = free_count h"
proof -
  have st: "free_count (st8 x v g) = free_count g" for x v g using st8_wr [of x v g] by auto
  have "free_count (fold (\<lambda>i h. st8 (a + of_nat i) (ld8 (s + of_nat i) h) h) ns h) = free_count h" for ns :: "nat list"
    by (induction ns arbitrary: h) (simp_all add: st)
  then show ?thesis by (simp add: mem_copy_heap_def)
qed

lemma take_frames_succeeds:
  assumes f: "fills fill" and c: "\<And>j a h. free_count (fill j a h) = free_count h"
  shows "holds h (frame_blocks fs + D) Q \<Longrightarrow> \<forall>j \<in> set js. fs ! j = 0 \<Longrightarrow> distinct js \<Longrightarrow> set js \<subseteq> {..< length fs} \<Longrightarrow>
    length js \<le> free_count h \<Longrightarrow> take_frames False fill js fs h = (ok, fs', h') \<Longrightarrow> ok \<and> free_count h' = free_count h - length js"
proof (induction js arbitrary: fs h)
  case (Cons j js)
  obtain a h2 where a: "page_alloc h = (a, h2)" by fastforce
  have a0: "a \<noteq> 0" using page_alloc_full [OF Cons.prems(1) a] Cons.prems(5) by (auto simp: full_count)
  note A = holds_alloc [OF Cons.prems(1) a] and n = page_alloc_count [OF Cons.prems(1) a]
  have j: "j < length fs" "fs ! j = 0" "j \<notin> set js" using Cons.prems(2-4) by auto
  have fs0: "fs[j := 0] = fs" using j by (metis list_update_id)
  have e: "frame_blocks (fs[j := a]) + D = add_mset (a, 0) (frame_blocks fs + D)"
    using frame_blocks_take(2) [OF j(1), of a] a0 unfolding fs0 by simp
  have H: "holds (fill j a h2) (frame_blocks (fs[j := a]) + D) Q" using f A(2) a0 unfolding e fills_def by simp
  have T: "take_frames False fill js (fs[j := a]) (fill j a h2) = (ok, fs', h')" using Cons.prems(6) a a0 by (simp add: Let_def)
  have "ok \<and> free_count h' = free_count (fill j a h2) - length js"
    by (rule Cons.IH [OF H _ _ _ _ T]) (use Cons.prems(2-5) j n c in \<open>auto simp: nth_list_update\<close>)
  then show ?case using c n by simp
qed simp

text \<open>Everything a new program needs, when a block of 4 MB is free.\<close>

definition room :: "kern \<Rightarrow> bool" where
  "room k \<longleftrightarrow> free_lists (pm (kh k)) ! 10 \<noteq> 0 \<and> 1024 \<le> free_count (kh k) \<and> unat (next_pid k) + 1 < 2 ^ 32 \<and> (\<exists>i < 32. \<not> p_in_use (procs k ! i))"

lemma new_slot:
  assumes inv: "kern_inv K R k" and m: "room k"
  obtains i k1 where "process_alloc name k = (next_pid k, k1)" "next_pid k \<noteq> 0" "kern_inv K R k1" "kh k1 = kh k" "kpd k1 = kpd k" "cur k1 = cur k" "i < 32" "process_get (next_pid k) k1 = Some i"
    "cur k \<noteq> Some i" "\<not> p_in_use (procs k ! i)" "blank (procs k1 ! i)" "p_pid (procs k1 ! i) = next_pid k" "\<And>j. j \<noteq> i \<Longrightarrow> procs k1 ! j = procs k ! j"
    "next_pid k1 = next_pid k + 1" "isr_user_exit k1 = isr_user_exit k"
proof -
  obtain p k1 where a: "process_alloc name k = (p, k1)" by fastforce
  obtain j where j: "j < 32" "\<not> p_in_use (procs k ! j)" using m by (auto simp: room_def)
  then have "\<exists>p \<in> set (procs k). \<not> p_in_use p" using kern_inv_length [OF inv] nth_mem [of j "procs k"] by auto
  then obtain l where l: "first_idx (\<lambda>p. \<not> p_in_use p) (procs k) = Some l"
    by (cases "first_idx (\<lambda>p. \<not> p_in_use p) (procs k)") (auto simp: first_idx_None)
  have "2 \<le> unat (next_pid k)" using inv by (simp add: kern_inv_def table_ok_def)
  then have "p \<noteq> 0" "next_pid k1 = next_pid k + 1" using a l by (auto simp: process_alloc_def Let_def)
  with process_alloc_ok [OF inv a] m a that show ?thesis unfolding room_def by fastforce
qed

text \<open>The stages of \<open>user_spawn\<close> and \<open>sys_fork\<close> for slot \<open>i\<close> succeed.\<close>

lemma stages_succeed:
  assumes inv: "kern_inv K R k1" and i: "i < 32" "cur k1 \<noteq> Some i" "blank (procs k1 ! i)" and l: "free_lists (pm (kh k1)) ! 10 \<noteq> 0" "1024 \<le> free_count (kh k1)"
    and fill: "fills fill" "\<And>j a h. free_count (fill j a h) = free_count h"
  obtains st h1 fs h2 pd h3 where "kmalloc USER_KSTACK_SIZE (kh k1) = Some (st, h1)" "st \<noteq> 0" "1022 \<le> free_count h1" "slab_page st" "unat st + 8192 \<le> 0x1E000000"
    "take_frames False fill [0 ..< 64] (replicate 64 0) h1 = (True, fs, h2)" "length fs = 64" "0 \<notin> set fs"
    "vmm_create_user_pd (kpd k1) fs USER_WIN_BASE h2 = (pd, h3)" "pd \<noteq> 0"
proof -
  obtain D st h1 where S: "kmalloc USER_KSTACK_SIZE (kh k1) = Some (st, h1)" "st \<noteq> 0 \<Longrightarrow> partial (kh k1) h1 (kpd k1) D st (replicate 64 0) 0 0"
    by (rule stage_stack [OF inv i]) blast
  obtain E where "holds (kh k1) E {}" using inv by (auto simp: kern_inv_def mem_inv_def)
  from kmalloc_stack [OF this l(1) S(1)] l(2) have st: "st \<noteq> 0" "1022 \<le> free_count h1" by simp_all
  have P: "partial (kh k1) h1 (kpd k1) D st (replicate 64 0) 0 0" by (rule S(2) [OF st(1)])
  then have H: "holds h1 (add_mset (st, 1) D) {}" by (simp add: partial_def)
  have H': "holds h1 (frame_blocks (replicate 64 0) + add_mset (st, 1) D) {}" using H by simp
  obtain okf fs h2 where tf: "take_frames False fill [0 ..< 64] (replicate 64 0) h1 = (okf, fs, h2)" by (metis surj_pair)
  have T: "okf \<and> free_count h2 = free_count h1 - length [0 ..< 64]"
    by (rule take_frames_succeeds [OF fill H' _ _ _ _ tf]) (use st(2) in simp_all, auto)
  have tf': "take_frames False fill [0 ..< 64] (replicate 64 0) h1 = (True, fs, h2)" using tf T by simp
  note P2 = stage_frames [OF P fill(1) tf']
  have h2: "holds h2 (add_mset (st, 1) (frame_blocks fs + D)) {}" and fs: "length fs = 64" using P2(1) by (simp_all add: partial_def)
  obtain pd h3 where cr: "vmm_create_user_pd (kpd k1) fs USER_WIN_BASE h2 = (pd, h3)" by fastforce
  have "fst (vmm_create_user_pd (kpd k1) fs USER_WIN_BASE h2) \<noteq> 0"
    by (rule vmm_create_user_pd_succeeds [OF h2 kern_kpd(2) [OF inv]]) (use fs user_window(1) T st(2) in auto)
  then have pd: "pd \<noteq> 0" using cr by simp
  have "slab_page st" "unat st + 4096 * 2 ^ nat 1 \<le> 0x1E000000" using holds_block(1,6) [OF H, of st 1] by simp_all
  then show ?thesis by (intro that [OF S(1) st _ _ tf' fs P2(2) cr pd]) simp_all
qed

lemma room_pages:
  assumes "1022 \<le> free_count h" shows "\<not> pmm_get_free_pages (pm h) < of_nat USER_WIN_PAGES + 8"
proof -
  have "(of_nat USER_WIN_PAGES + 8 :: u32) = 72" by (simp add: USER_WIN_PAGES_def)
  then show ?thesis using assms by (simp add: pmm_get_free_pages_def free_count_def word_less_nat_alt)
qed

lemma stack_pointer:
  assumes "slab_page st" "unat st + 8192 \<le> 0x1E000000" and r: "kstack_push_user_frame resume (st + USER_KSTACK_SIZE) fr eax h = (sp, h')"
  shows "sp \<noteq> 0 \<and> 0x1000 \<le> sp \<and> sp < 0x1E000000"
proof -
  obtain q where q: "unat st = 4096 * q" "st \<noteq> 0" using slab_page_dvd [OF assms(1)] by (auto elim!: dvdE)
  then have "4096 \<le> unat st" by (cases q) (auto simp: unat_eq_zero)
  moreover have "sp = st + 8096" using user_frame(1) [OF r] by (simp add: USER_KSTACK_SIZE_def)
  ultimately have "unat sp = unat st + 8096" using assms(2) by (simp add: unat_word_ariths)
  then show ?thesis using \<open>4096 \<le> unat st\<close> assms(2) by (auto simp: word_le_nat_alt word_less_nat_alt)
qed

text \<open>A program as it is when it was started.\<close>

definition started :: "process \<Rightarrow> u32 \<Rightarrow> bool" where
  "started p pid \<longleftrightarrow> p_in_use p \<and> p_pid p = pid \<and> p_is_user_prog p \<and> p_state p = PROC_STATE_RUNNING \<and> p_pd p \<noteq> 0 \<and> 0 \<notin> set (p_frames p) \<and> runnable p"

lemma user_spawn_succeeds:
  assumes inv: "kern_inv K R k" and m: "room k" and v: "ajos_bin_valid img"
  shows "\<exists>i < 32. \<exists>k'. user_spawn name img argv bg k = Some (next_pid k, k') \<and> \<not> p_in_use (procs k ! i) \<and> cur k' = cur k \<and> kpd k' = kpd k \<and>
    started (procs k' ! i) (next_pid k) \<and> (\<forall>j. j \<noteq> i \<longrightarrow> procs k' ! j = procs k ! j) \<and> next_pid k' = next_pid k + 1"
proof -
  obtain i k1 where A: "process_alloc name k = (next_pid k, k1)" "next_pid k \<noteq> 0" "kern_inv K R k1" "kh k1 = kh k" "kpd k1 = kpd k" "cur k1 = cur k" "i < 32" "process_get (next_pid k) k1 = Some i"
    "cur k \<noteq> Some i" "\<not> p_in_use (procs k ! i)" "blank (procs k1 ! i)" "p_pid (procs k1 ! i) = next_pid k" "\<And>j. j \<noteq> i \<Longrightarrow> procs k1 ! j = procs k ! j"
    "next_pid k1 = next_pid k + 1" "isr_user_exit k1 = isr_user_exit k" by (rule new_slot [OF inv m]) blast
  have c: "cur k1 \<noteq> Some i" using A(6,9) by simp
  obtain st h1 fs h2 pd h3 where S: "kmalloc USER_KSTACK_SIZE (kh k1) = Some (st, h1)" "st \<noteq> 0" "1022 \<le> free_count h1" "slab_page st" "unat st + 8192 \<le> 0x1E000000"
    "take_frames False (\<lambda>_ _ h. h) [0 ..< 64] (replicate 64 0) h1 = (True, fs, h2)" "length fs = 64" "0 \<notin> set fs"
    "vmm_create_user_pd (kpd k1) fs USER_WIN_BASE h2 = (pd, h3)" "pd \<noteq> 0"
    by (rule stages_succeed [OF A(3,7) c A(11) _ _ fills_nothing refl]) (use m A(4) in \<open>auto simp: room_def\<close>)
  obtain eip esp h4 where li: "user_load_image fs img argv h3 = (eip, esp, h4)" by (metis surj_pair)
  let ?fr = "zero_regs\<lparr>r_ss := USER_DS_SEL, r_useresp := esp, r_efl := 0x202, r_cs := USER_CS_SEL,
    r_eip := eip, r_ds := USER_DS_SEL, r_es := USER_DS_SEL, r_fs := USER_DS_SEL, r_gs := USER_DS_SEL, r_int_no := 0x80\<rparr>"
  obtain sp h5 where pu: "kstack_push_user_frame (isr_user_exit k1) (st + USER_KSTACK_SIZE) ?fr 0 h4 = (sp, h5)" by fastforce
  let ?f = "\<lambda>p. p\<lparr>p_kernel_stack := st, p_kernel_stack_size := USER_KSTACK_SIZE, p_frames := fs, p_pd := pd, p_esp := sp,
      p_is_user_prog := True, p_is_background := bg, p_state := PROC_STATE_RUNNING\<rparr>"
  have len: "i < length (procs k1)" using A(7) kern_inv_length [OF A(3)] by simp
  have bl: "p_frames (procs k1 ! i) = replicate 64 0" "p_in_use (procs k1 ! i)" using A(11) by (simp_all add: blank_def)
  have "user_spawn name img argv bg k = Some (next_pid k, upd i ?f (k1\<lparr>kh := h5\<rparr>))"
    using v A(1,2,8) S(1,2) S(6,9,10) li pu bl len room_pages [OF S(3)]
    by (simp add: user_spawn_def Let_def USER_WIN_PAGES_def upd_upd)
  moreover have "started (?f (procs k1 ! i)) (next_pid k)"
    using bl S(8,10) A(12) stack_pointer [OF S(4,5) pu] by (simp add: started_def runnable_def)
  ultimately show ?thesis using A(5-7,10,13,14) len
    by (intro exI [of _ i] conjI exI [of _ "upd i ?f (k1\<lparr>kh := h5\<rparr>)"]) simp_all
qed

lemma sys_fork_succeeds:
  assumes inv: "kern_inv K R k" and m: "room k" and c: "cur k = Some c" and u: "p_is_user_prog (procs k ! c)" "p_pd (procs k ! c) \<noteq> 0"
  shows "\<exists>k'. sys_fork rg k = Some (next_pid k, k')"
proof -
  let ?q = "procs k ! c"
  obtain i k1 where A: "process_alloc (p_name ?q) k = (next_pid k, k1)" "next_pid k \<noteq> 0" "kern_inv K R k1" "kh k1 = kh k" "kpd k1 = kpd k" "cur k1 = cur k" "i < 32" "process_get (next_pid k) k1 = Some i"
    "cur k \<noteq> Some i" "\<not> p_in_use (procs k ! i)" "blank (procs k1 ! i)" "p_pid (procs k1 ! i) = next_pid k" "\<And>j. j \<noteq> i \<Longrightarrow> procs k1 ! j = procs k ! j"
    "next_pid k1 = next_pid k + 1" "isr_user_exit k1 = isr_user_exit k" by (rule new_slot [OF inv m]) blast
  have ci: "cur k1 \<noteq> Some i" using A(6,9) by simp
  obtain st h1 fs h2 pd h3 where S: "kmalloc USER_KSTACK_SIZE (kh k1) = Some (st, h1)" "st \<noteq> 0" "1022 \<le> free_count h1" "slab_page st" "unat st + 8192 \<le> 0x1E000000"
    "take_frames False (\<lambda>j a. mem_copy_heap a (p_frames ?q ! j) 4096) [0 ..< 64] (replicate 64 0) h1 = (True, fs, h2)" "length fs = 64" "0 \<notin> set fs"
    "vmm_create_user_pd (kpd k1) fs USER_WIN_BASE h2 = (pd, h3)" "pd \<noteq> 0"
    by (rule stages_succeed [OF A(3,7) ci A(11) _ _ fills_copy [of "\<lambda>j. p_frames ?q ! j"] free_count_copy]) (use m A(4) in \<open>auto simp: room_def\<close>)
  have free: "\<not> pmm_get_free_pages (pm (kh k)) < of_nat USER_WIN_PAGES + 8" by (rule room_pages) (use m in \<open>simp add: room_def\<close>)
  obtain sp h5 where pu: "kstack_push_user_frame (isr_user_exit k1) (st + USER_KSTACK_SIZE) rg 0 h3 = (sp, h5)" by fastforce
  have len: "i < length (procs k1)" using A(7) kern_inv_length [OF A(3)] by simp
  have bl: "p_frames (procs k1 ! i) = replicate 64 0" using A(11) by (simp add: blank_def)
  then show ?thesis using c u free A(1,2,8) S(1,2) S(6,9,10) pu len
    by (simp add: sys_fork_def Let_def USER_WIN_PAGES_def upd_upd)
qed

section \<open>A machine with two programs\<close>

text \<open>28 MB of memory: five blocks of 4 MB, two of which another part of the kernel takes before paging is set up.\<close>

definition pmm_five :: pmm where
  "pmm_five = \<lparr>free_lists = [0, 0, 0, 0, 0, 0, 0, 0, 0, 0, 0x1800000], total_pages = 5120, free_pages = 5120, page_metadata = (\<lambda>_. 0),
     mem = (\<lambda>_. 0)(0xC00000 := 0x800000, 0x1000000 := 0xC00000, 0x1400000 := 0x1000000, 0x1800000 := 0x1400000)\<rparr>"

definition heap_five :: kheap where
  "heap_five = slab_init \<lparr>pm = pmm_five, caches_at = 0x100000, generic_caches = [], mm_stat_kmalloc_ok = 0, mm_stat_kfree_calls = 0, mm_stat_kmalloc_fail = 0\<rparr>"

lemma pmm_init_five: "pmm_init 0x1C00000 pmm_boot = Some pmm_five"
proof -
  have e: "pmm_end_addr 0x1C00000 = 0x1C00000" by (simp add: pmm_end_addr_def pmm_consts Let_def)
  have heads: "replicate (Suc PMM_MAX_ORDER) (0::u32) = [0, 0, 0, 0, 0, 0, 0, 0, 0, 0, 0]" by (simp add: PMM_MAX_ORDER_def numeral_eq_Suc)
  have step: "pmm_init_max 0x1C00000 c s = (if c + 0x400000 \<le> 0x1C00000
      then pmm_init_max 0x1C00000 (c + 0x400000) (pmm_add_to_list c 10 s) else Some (c, s))" for c s
    by (subst pmm_init_max.simps) (simp add: pmm_consts)
  have max: "pmm_init_max 0x1C00000 0x800000 s = Some (0x1C00000, pmm_add_to_list 0x1800000 10 (pmm_add_to_list 0x1400000 10
      (pmm_add_to_list 0x1000000 10 (pmm_add_to_list 0xC00000 10 (pmm_add_to_list 0x800000 10 s)))))" for s
    by (subst step, simp)+
  show ?thesis
    unfolding pmm_init_def heads e
    by (simp add: pmm_boot_def pmm_five_def pmm_consts Let_def max pmm_add_to_list_def fun_eq_iff)
qed

lemma heap_five: "holds heap_five {#} {}"
  unfolding heap_five_def holds_def using heap_boot [OF pmm_init_five, of "\<lparr>pm = pmm_five, caches_at = 0x100000, generic_caches = [],
    mm_stat_kmalloc_ok = 0, mm_stat_kfree_calls = 0, mm_stat_kmalloc_fail = 0\<rparr>"] by auto

lemma order_4mb: "order_for 0x400000 0 = Some 10" by (simp add: order_for.simps PAGE_SIZE_def)

lemma take_large:
  assumes h: "holds h D {}" and a: "free_lists (pm h) ! 10 = a" "a \<noteq> 0"
  obtains h' where "kmalloc 0x400000 h = Some (a, h')" "holds h' (add_mset (a, 10) D) {}" "free_lists (pm h') ! 10 = mem (pm h) a" "mem (pm h') = mem (pm h)"
    "free_count h' = free_count h - 1024"
proof -
  obtain W F where W: "heap_ok h W F D" "pmm_run_inv (pm h) (slab_blocks W + D)" using holds_inv [OF h] .
  obtain L where L: "pmm_wf (pm h) L" by (rule pmm_run_invE [OF W(2)])
  have len: "length (free_lists (pm h)) = 11" using L pmm_listsD(1) by (auto simp: pmm_wf_def)
  have first: "pmm_first_list 10 (pm h) = Some 10"
    using pmm_first_list_None [OF _ len, of 10 10] pmm_first_list_Some(1,2) [OF _ len, of 10] a by (cases "pmm_first_list 10 (pm h)") auto
  have split: "pmm_split b 10 10 s = s" for b s using pmm_split.simps(2) [of b 10 9 s] by simp
  obtain s where s: "pmm_alloc_page 10 (pm h) = (a, s)" "free_lists s = (free_lists (pm h))[10 := mem (pm h) a]" "mem s = mem (pm h)"
    using a first split by (simp add: pmm_alloc_page_def PMM_MAX_ORDER_def Let_def)
  obtain h' where k: "kmalloc 0x400000 h = Some (a, h')" "pm h' = s"
    using s(1) a(2) order_4mb by (simp add: kmalloc_def count_alloc_def)
  from holds_kmalloc [OF h _ k(1) order_4mb] a(2) have H: "holds h' (add_mset (a, 10) D) {}" by simp
  from pmm_alloc_page_Some [OF L _ _ s(1) a(2)] obtain L' where "pmm_wf s L'" "free_page_mset L = free_page_mset L' + mset (block_pages 10 a)" by auto
  then have "free_count h' = free_count h - 1024" using L by (simp add: k(2) free_count_def pmm_wf_def size_block_pages)
  with k H s(2,3) len that show ?thesis by simp
qed

text \<open>After boot: the kernel's pages \<open>K\<close>, the two blocks of the other part, the table of processes.\<close>

definition zero_process :: process where
  "zero_process = \<lparr>p_pid = 0, p_ppid = 0, p_state = PROC_STATE_DEAD, p_in_use = False, p_name = [], p_start_ticks = 0, p_cpu_ticks = 0, p_page_dir = 0,
     p_is_background = False, p_esp = 0, p_kernel_stack = 0, p_frames = replicate 64 0, p_pd = 0, p_kernel_stack_size = 0, p_exit_code = 0, p_wake_tick = 0,
     p_is_user_prog = False\<rparr>"

definition boot_kern :: "kheap \<Rightarrow> u32 \<Rightarrow> kern" where
  "boot_kern h kp = \<lparr>kh = h, kpd = kp, cr3 = kp, esp0 = 0, procs = replicate 32 zero_process, next_pid = 1, cur = None, current_user_pid = 0, pit_ticks = 0,
     scheduler_ticks = 0, socks = [], tcp_closed = [], isr_user_exit = 0x100000, kthread_entry = 0x100010\<rparr>"

lemma booted:
  obtains K k b1 b2 where "kern_run K {#(b1, 10), (b2, 10)#} k" "cur k = Some 1" "next_pid k = 2" "\<And>i. i < 32 \<Longrightarrow> p_in_use (procs k ! i) \<longleftrightarrow> i < 2"
    "\<And>i. i < 32 \<Longrightarrow> p_esp (procs k ! i) = 0"
proof -
  have f: "free_lists (pm heap_five) ! 10 = 0x1800000" "mem (pm heap_five) 0x1800000 = 0x1400000" "free_count heap_five = 5120"
    by (simp_all add: heap_five_def slab_init_def pmm_five_def free_count_def)
  obtain h1 where h1: "holds h1 {#(0x1800000, 10)#} {}" "free_lists (pm h1) ! 10 = 0x1400000" "free_count h1 = 4096"
    by (rule take_large [OF heap_five f(1)]) (use f in simp_all)
  obtain h2 where h2: "holds h2 {#(0x1400000, 10), (0x1800000, 10)#} {}" "free_count h2 = 3072"
    by (rule take_large [OF h1(1,2)]) (use h1 in simp_all)
  let ?R = "{#(0x1400000, 10), (0x1800000, 10)#} :: (u32 \<times> int) multiset"
  obtain kp h3 where r: "page_alloc h2 = (kp, h3)" by fastforce
  have k: "kp \<noteq> 0" using page_alloc_full [OF h2(1) r] h2(2) by (simp add: full_count)
  obtain h E where h: "paging_init h2 = Some (kp, h)" "?R \<subseteq># E" "mapping (free_count h3) h kp E {} 122880"
    using paging_init_ok [OF h2(1) r k] by blast
  have id: "ident h kp 122880" using mapping_enough [OF h(3)] page_alloc_count [OF h2(1) r] h2(2) by simp
  have E: "holds h (add_mset (kp, 0) E) {}" "dir_ok h kp E" using h(3) by (simp_all add: mapping_def)
  let ?K = "add_mset (kp, 0) (E - ?R)"
  have "E - ?R + ?R = E" by (rule subset_mset.diff_add [OF h(2)])
  then have e: "?K + ?R = add_mset (kp, 0) E" by (simp only: union_mset_add_mset_left)
  have holds: "holds h (?K + ?R) {}" unfolding e by (rule E(1))
  have "(t, 0) \<in># E \<Longrightarrow> (t, 0) \<in># E - ?R" for t by (simp add: in_diff_count)
  then have "dir_ok h kp (E - ?R)" using E(2) unfolding dir_ok_def by blast
  then have d: "kernel_dir h kp ?K" using id unfolding kernel_dir_def by (auto simp: ident_def word_less_nat_alt)
  let ?k = "process_init (boot_kern h kp)"
  have R: "kern_run ?K ?R ?k"
    by (rule kern_run.boot [OF h2(1) h(1) holds d]) (simp_all add: boot_kern_def zero_slot_def zero_process_def)
  have C: "cur ?k = Some 1" "next_pid ?k = 2" by (simp_all add: process_init_def Let_def)
  have S: "(p_in_use (procs ?k ! i) \<longleftrightarrow> i < 2) \<and> p_esp (procs ?k ! i) = 0" if "i < 32" for i
    using that by (auto simp: process_init_def boot_kern_def zero_process_def Let_def nth_list_update)
  show ?thesis by (rule that [OF R C]) (use S in blast)+
qed

text \<open>The image of a program that does nothing.\<close>

definition tiny_image :: "u8 list" where
  "tiny_image = [65, 74, 79, 83, 66, 73, 78, 1] @ replicate 12 0"

lemma tiny_image: "ajos_bin_valid tiny_image"
proof -
  have "drop 8 tiny_image = replicate 12 0" "length tiny_image = 20" "take 7 tiny_image = [65, 74, 79, 83, 66, 73, 78]"
    by (simp_all add: tiny_image_def)
  moreover have "from_le32 (replicate 12 0) = 0" by (simp add: from_le32_def upt_rec)
  ultimately show ?thesis by (simp add: ajos_bin_valid_def entry_off_def USER_IMAGE_MAX_def)
qed

text \<open>Giving back a block makes room.\<close>

lemma make_room:
  assumes run: "kern_run K (add_mset (b, 10) R) k" and n: "unat (next_pid k) + 1 < 2 ^ 32" and f: "i < 32" "\<not> p_in_use (procs k ! i)"
  shows "kern_run K R (k\<lparr>kh := give_back b (kh k)\<rparr>)" "room (k\<lparr>kh := give_back b (kh k)\<rparr>)"
proof -
  obtain T where "holds (kh k) (all_blocks (procs k) T + (K + add_mset (b, 10) R)) {}"
    using kern_run_inv [OF run] by (auto simp: kern_inv_def mem_inv_def)
  then have h: "holds (kh k) (add_mset (b, 10) (all_blocks (procs k) T + (K + R))) {}" by simp
  note G = give_back_step [OF h]
  show "kern_run K R (k\<lparr>kh := give_back b (kh k)\<rparr>)" by (rule kern_run.other [OF run G(1)])
  have "b \<noteq> 0" using holds_block(1) [OF h, of b 10] slab_page_dvd [of b] by simp
  then show "room (k\<lparr>kh := give_back b (kh k)\<rparr>)" using G(2,3) n f by (auto simp: room_def)
qed

text \<open>One program, and then the other.\<close>

lemma one_program:
  obtains K b k i where "kern_run K {#(b, 10)#} k" "i < 32" "2 \<le> i" "started (procs k ! i) 2" "cur k = Some 1" "next_pid k = 3"
    "\<And>j. j < 32 \<Longrightarrow> j \<noteq> i \<Longrightarrow> (p_in_use (procs k ! j) \<longleftrightarrow> j < 2) \<and> p_esp (procs k ! j) = 0"
proof -
  obtain K k b1 b2 where B: "kern_run K {#(b1, 10), (b2, 10)#} k" "cur k = Some 1" "next_pid k = 2" "\<And>i. i < 32 \<Longrightarrow> p_in_use (procs k ! i) \<longleftrightarrow> i < 2"
    "\<And>i. i < 32 \<Longrightarrow> p_esp (procs k ! i) = 0" by (rule booted) blast
  let ?k1 = "k\<lparr>kh := give_back b1 (kh k)\<rparr>"
  have M: "kern_run K {#(b2, 10)#} ?k1" "room ?k1" using make_room [OF B(1), of 2] B(3,4) by simp_all
  from user_spawn_succeeds [OF kern_run_inv [OF M(1)] M(2) tiny_image, of "[97]" "[]" True] obtain i k2 where
    S: "i < 32" "user_spawn [97] tiny_image [] True ?k1 = Some (next_pid ?k1, k2)" "\<not> p_in_use (procs k ! i)" "cur k2 = cur k" "started (procs k2 ! i) 2"
      "\<forall>j. j \<noteq> i \<longrightarrow> procs k2 ! j = procs k ! j" "next_pid k2 = 3" using B(3) by auto
  have "kern_run K {#(b2, 10)#} k2" by (rule kern_run.spawn [OF M(1) _ S(2)]) (simp add: B(3))
  moreover have "2 \<le> i" using S(1,3) B(4) [of i] by simp
  ultimately show ?thesis by (rule that [OF _ S(1) _ S(5)]) (use S B in simp_all)
qed

lemma two_programs:
  obtains K k i j where "kern_run K {#} k" "i < 32" "j < 32" "i \<noteq> j" "started (procs k ! i) 2" "started (procs k ! j) 3"
proof -
  obtain K b k i where O: "kern_run K {#(b, 10)#} k" "i < 32" "2 \<le> i" "started (procs k ! i) 2" "cur k = Some 1" "next_pid k = 3"
    "\<And>j. j < 32 \<Longrightarrow> j \<noteq> i \<Longrightarrow> (p_in_use (procs k ! j) \<longleftrightarrow> j < 2) \<and> p_esp (procs k ! j) = 0" by (rule one_program) blast
  obtain l where l: "l < 32" "l \<noteq> i" "2 \<le> l" by (cases "i = 2") (use that [of 3] that [of 2] in auto)
  let ?k1 = "k\<lparr>kh := give_back b (kh k)\<rparr>"
  have M: "kern_run K {#} ?k1" "room ?k1" using make_room [OF O(1), of l] O(6) O(7) [OF l(1,2)] l by simp_all
  from user_spawn_succeeds [OF kern_run_inv [OF M(1)] M(2) tiny_image, of "[98]" "[]" True] obtain j k2 where
    S: "j < 32" "user_spawn [98] tiny_image [] True ?k1 = Some (next_pid ?k1, k2)" "\<not> p_in_use (procs k ! j)" "started (procs k2 ! j) 3"
      "\<forall>l. l \<noteq> j \<longrightarrow> procs k2 ! l = procs k ! l" using O(6) by auto
  have "kern_run K {#} k2" by (rule kern_run.spawn [OF M(1) _ S(2)]) (simp add: O(6))
  moreover have ij: "i \<noteq> j" using S(3) O(4) by (auto simp: started_def)
  ultimately show ?thesis by (rule that [OF _ O(2) S(1)]) (use S O(4) ij in simp_all)
qed

text \<open>A program that was started reaches the start of its window.\<close>

lemma started_reaches:
  assumes inv: "kern_inv K R k" and i: "i < 32" "started (procs k ! i) pid"
  shows "\<exists>x. reaches k i USER_WIN_BASE x"
proof -
  let ?p = "procs k ! i"
  have p: "p_in_use ?p" "p_pd ?p \<noteq> 0" "0 \<notin> set (p_frames ?p)" using i(2) by (simp_all add: started_def)
  obtain t D where s: "holds (kh k) (blocks ?p t + D) {}" "slot_ok (kh k) (kpd k) ?p t" using kern_inv_slot [OF inv i(1) p(1)] by metis
  have l: "length (p_frames ?p) = 64" and u: "user_dir (kh k) (kpd k) (p_pd ?p) t (p_frames ?p)" using s(2) p(2) by (simp_all add: slot_ok_def USER_WIN_PAGES_def)
  have "p_frames ?p ! 0 \<noteq> 0" using p(3) l by (metis nth_mem zero_less_numeral)
  then show ?thesis using reaches_iff [OF u p(2) l frames_dvd [OF s(1)], of USER_WIN_BASE 0] by (auto simp: in_window_def)
qed

text \<open>The scheduler's choice.\<close>

lemma next_task_runnable: "next_task k c = Some n \<Longrightarrow> n < 32 \<and> runnable (procs k ! n)"
  by (auto simp: next_task_def find_Some_iff MAX_PROCESSES_def)

lemma next_task_between:
  assumes c: "c < 32" and j: "j < 32" "j \<noteq> c" "runnable (procs k ! j)"
  shows "\<exists>i. 1 \<le> i \<and> i \<le> (j + 32 - c) mod 32 \<and> next_task k c = Some ((c + i) mod 32)"
proof -
  let ?d = "(j + 32 - c) mod 32" and ?P = "\<lambda>j. runnable (procs k ! j)"
  have d: "1 \<le> ?d" "?d < 32" "(c + ?d) mod 32 = j"
    using c j(1,2) by (cases "c \<le> j"; simp add: mod_if; arith?)+
  let ?xs = "map (\<lambda>i. (c + i) mod 32) [1 ..< 33]"
  have x: "?xs ! (?d - 1) = j" "?d - 1 < length ?xs" using d by simp_all
  have "find ?P ?xs \<noteq> None" using x j(3) unfolding find_None_iff by (metis nth_mem)
  then obtain n where n: "find ?P ?xs = Some n" by auto
  then obtain i where i: "i < length ?xs" "n = ?xs ! i" "\<forall>l < i. \<not> ?P (?xs ! l)" by (auto simp: find_Some_iff)
  have "i \<le> ?d - 1" using i(3) x(1) j(3) by (metis not_le)
  then have "1 \<le> i + 1" "i + 1 \<le> ?d" using d(1) by simp_all
  moreover have "n = (c + (i + 1)) mod 32" using i(1,2) by simp
  ultimately show ?thesis using n unfolding next_task_def MAX_PROCESSES_def by auto
qed

lemma schedule_nearer:
  assumes k: "cur k = Some c" "c < 32" and j: "j < 32" "j \<noteq> c" "runnable (procs k ! j)"
  shows "\<exists>n < 32. cur (schedule sp k) = Some n \<and> (j + 32 - n) mod 32 < (j + 32 - c) mod 32"
proof -
  obtain i where i: "1 \<le> i" "i \<le> (j + 32 - c) mod 32" "next_task k c = Some ((c + i) mod 32)" using next_task_between [OF k(2) j] by blast
  let ?n = "(c + i) mod 32"
  have i32: "i < 32" using i(2) by (metis mod_less_divisor order_le_less_trans zero_less_numeral)
  have "?n \<noteq> c" using i(1) i32 k(2) by (auto simp: mod_if split: if_splits)
  then have "cur (schedule sp k) = Some ?n" using k(1) i(3) by (simp add: schedule_def Let_def upd_def vmm_load_pd_def)
  moreover have "(j + 32 - ?n) mod 32 < (j + 32 - c) mod 32" using i(1,2) i32 k(2) j(1) by (auto simp: mod_if split: if_splits)
  ultimately show ?thesis by (intro exI [of _ ?n]) simp
qed

section \<open>Isolation\<close>

text \<open>The page a program reaches, among all that is held.\<close>

lemma reached_page:
  assumes inv: "kern_inv K R k" and i: "i < 32" and r: "reaches k i v x"
  shows "page_no x \<notin># held_pages (K + R)" "2048 \<le> page_no x" "page_no x \<notin># held_pages (stack_blocks (procs k ! i))"
    "page_no x \<noteq> page_no (p_pd (procs k ! i))" "j < 32 \<Longrightarrow> j \<noteq> i \<Longrightarrow> \<exists>u. slot_ok (kh k) (kpd k) (procs k ! j) u \<and> page_no x \<notin># held_pages (blocks (procs k ! j) u) \<and>
      (\<exists>D. holds (kh k) (blocks (procs k ! j) u + D) {})"
proof -
  have m: "mem_inv K R (procs k) (kh k) (kpd k)" and i': "i < MAX_PROCESSES" using inv i by (simp_all add: kern_inv_def MAX_PROCESSES_def)
  let ?p = "procs k ! i"
  obtain t D where s: "holds (kh k) (blocks ?p t + D) {}" "slot_ok (kh k) (kpd k) ?p t" "K + R \<subseteq># D"
    "\<And>j. j < MAX_PROCESSES \<Longrightarrow> j \<noteq> i \<Longrightarrow> \<exists>u. blocks (procs k ! j) u \<subseteq># D \<and> slot_ok (kh k) (kpd k) (procs k ! j) u"
    using mem_inv_slot [OF m i'] by metis
  obtain n where n: "(p_frames ?p ! n, 0) \<in># frame_blocks (p_frames ?p)" "page_no x = page_no (p_frames ?p ! n)"
    by (rule reaches_frame [OF s(2,1) r]) blast
  have held: "page_no x \<in># held_pages (frame_blocks (p_frames ?p))" using held_pagesI [OF n(1) block_pages_first] n(2) by simp
  have h: "holds (kh k) (frame_blocks (p_frames ?p) + (stack_blocks ?p + dir_blocks (p_pd ?p) t + D)) {}"
    using s(1) by (simp add: blocks_def ac_simps)
  have out: "page_no x \<notin># held_pages (stack_blocks ?p + dir_blocks (p_pd ?p) t + D)" by (rule holds_once [OF h held])
  have sub: "page_no x \<notin># held_pages E" if "E \<subseteq># D" for E
  proof -
    have "D = E + (D - E)" using subset_mset.add_diff_inverse [OF that] by simp
    then obtain F where "D = E + F" by blast
    then show ?thesis using out by (simp add: held_pages_union)
  qed
  show "page_no x \<notin># held_pages (K + R)" by (rule sub [OF s(3)])
  obtain W F where "pmm_run_inv (pm (kh k)) (slab_blocks W + (frame_blocks (p_frames ?p) + (stack_blocks ?p + dir_blocks (p_pd ?p) t + D)))"
    using holds_inv [OF h] by blast
  then show "2048 \<le> page_no x" using held_pages_high held by (auto simp: held_pages_union)
  show "page_no x \<notin># held_pages (stack_blocks ?p)" using out by (simp add: held_pages_union)
  have pd: "p_pd ?p \<noteq> 0" using r by (simp add: reaches_def)
  then have "page_no (p_pd ?p) \<in># held_pages (dir_blocks (p_pd ?p) t)"
    using held_pagesI [of "p_pd ?p" 0 "dir_blocks (p_pd ?p) t", OF _ block_pages_first] by (simp add: dir_blocks_def)
  then show "page_no x \<noteq> page_no (p_pd ?p)" using out by (auto simp: held_pages_union)
  show "\<exists>u. slot_ok (kh k) (kpd k) (procs k ! j) u \<and> page_no x \<notin># held_pages (blocks (procs k ! j) u) \<and> (\<exists>D. holds (kh k) (blocks (procs k ! j) u + D) {})"
    if j: "j < 32" "j \<noteq> i"
  proof -
    obtain u where u: "blocks (procs k ! j) u \<subseteq># D" "slot_ok (kh k) (kpd k) (procs k ! j) u" using s(4) [of j] j unfolding MAX_PROCESSES_def by blast
    have "D = blocks (procs k ! j) u + (D - blocks (procs k ! j) u)" using subset_mset.add_diff_inverse [OF u(1)] by simp
    then obtain F where "D = blocks (procs k ! j) u + F" by blast
    then have "holds (kh k) (blocks (procs k ! j) u + (blocks ?p t + F)) {}" using s(1) by (simp only: ac_simps)
    with sub [OF u(1)] u(2) show ?thesis by blast
  qed
qed

text \<open>C8: In every run of the kernel from boot, what a program reaches through its page directory belongs to it alone. Its page is none that
  another program reaches, none of the kernel's page directory and tables or of the blocks other parts of the kernel hold, no part of
  any process's kernel stack and no page directory, and it lies above the kernel.\<close>

theorem programs_isolated:
  assumes run: "kern_run K R k" and i: "i < 32" and r: "reaches k i v x"
  shows "page_no x \<notin># held_pages (K + R) \<and> 2048 \<le> page_no x \<and>
    (\<forall>j < 32. page_no x \<notin># held_pages (stack_blocks (procs k ! j)) \<and> (p_pd (procs k ! j) \<noteq> 0 \<longrightarrow> page_no x \<noteq> page_no (p_pd (procs k ! j))) \<and>
      (\<forall>w y. j \<noteq> i \<longrightarrow> reaches k j w y \<longrightarrow> page_no y \<noteq> page_no x))"
proof -
  note P = reached_page [OF kern_run_inv [OF run] i r]
  have other: "page_no x \<notin># held_pages (stack_blocks (procs k ! j)) \<and> (p_pd (procs k ! j) \<noteq> 0 \<longrightarrow> page_no x \<noteq> page_no (p_pd (procs k ! j))) \<and>
      (\<forall>w y. reaches k j w y \<longrightarrow> page_no y \<noteq> page_no x)" if j: "j < 32" "j \<noteq> i" for j
  proof -
    obtain u D where u: "slot_ok (kh k) (kpd k) (procs k ! j) u" "page_no x \<notin># held_pages (blocks (procs k ! j) u)" "holds (kh k) (blocks (procs k ! j) u + D) {}"
      using P(5) [OF j] by blast
    have "page_no y \<noteq> page_no x" if y: "reaches k j w y" for w y
    proof -
      obtain n where n: "(p_frames (procs k ! j) ! n, 0) \<in># frame_blocks (p_frames (procs k ! j))" "page_no y = page_no (p_frames (procs k ! j) ! n)"
        by (rule reaches_frame [OF u(1,3) y]) blast
      have "page_no y \<in># held_pages (blocks (procs k ! j) u)"
        using held_pagesI [OF n(1) block_pages_first] n(2) by (simp add: blocks_def held_pages_union)
      then show ?thesis using u(2) by auto
    qed
    moreover have "page_no x \<noteq> page_no (p_pd (procs k ! j))" if "p_pd (procs k ! j) \<noteq> 0"
    proof -
      have "(p_pd (procs k ! j), 0) \<in># blocks (procs k ! j) u" using that by (simp add: blocks_def dir_blocks_def)
      from held_pagesI [OF this block_pages_first] u(2) show ?thesis by auto
    qed
    ultimately show ?thesis using u(2) by (simp add: blocks_def held_pages_union)
  qed
  then show ?thesis using P(1-4) by metis
qed

theorem programs_isolated_witness:
  "\<exists>K k i j x y. kern_run K {#} k \<and> i < 32 \<and> j < 32 \<and> i \<noteq> j \<and> reaches k i USER_WIN_BASE x \<and> reaches k j USER_WIN_BASE y \<and> page_no x \<noteq> page_no y"
proof -
  obtain K k i j where T: "kern_run K {#} k" "i < 32" "j < 32" "i \<noteq> j" "started (procs k ! i) 2" "started (procs k ! j) 3" by (rule two_programs)
  obtain x where x: "reaches k i USER_WIN_BASE x" using started_reaches [OF kern_run_inv [OF T(1)] T(2,5)] by blast
  obtain y where y: "reaches k j USER_WIN_BASE y" using started_reaches [OF kern_run_inv [OF T(1)] T(3,6)] by blast
  show ?thesis using programs_isolated [OF T(1,2) x] T x y by metis
qed

section \<open>Accounting\<close>

text \<open>C9: In every run of the kernel from boot, with fork, exec, exit, kill and wait in any order, the free pages, the pages of the slabs, those of
  the processes' stacks, windows and directories, of the kernel's directory and of the other parts of the kernel are, each counted once, the
  managed pages: nothing is lost and nothing is held twice. A process whose slot is free holds none.\<close>

theorem memory_accounted:
  assumes run: "kern_run K R k"
  shows "\<exists>T W F L. heap_ok (kh k) W F (all_blocks (procs k) T + (K + R)) \<and> pmm_wf (pm (kh k)) L \<and>
    free_page_mset L + held_pages (slab_blocks W + (all_blocks (procs k) T + (K + R))) = managed_pages (pm (kh k)) \<and>
    (\<forall>i < 32. slot_ok (kh k) (kpd k) (procs k ! i) (T i) \<and> (\<not> p_in_use (procs k ! i) \<longrightarrow> blocks (procs k ! i) (T i) = {#}))"
proof -
  obtain T where T: "holds (kh k) (all_blocks (procs k) T + (K + R)) {}" "\<forall>i < 32. slot_ok (kh k) (kpd k) (procs k ! i) (T i)"
    using kern_run_inv [OF run] by (auto simp: kern_inv_def mem_inv_def MAX_PROCESSES_def)
  obtain W F where W: "heap_ok (kh k) W F (all_blocks (procs k) T + (K + R))" "pmm_run_inv (pm (kh k)) (slab_blocks W + (all_blocks (procs k) T + (K + R)))"
    using holds_inv [OF T(1)] .
  obtain L where "pmm_wf (pm (kh k)) L" "free_page_mset L + held_pages (slab_blocks W + (all_blocks (procs k) T + (K + R))) = managed_pages (pm (kh k))"
    by (rule pmm_run_invE [OF W(2)])
  with W(1) T(2) show ?thesis unfolding slot_ok_def by blast
qed

theorem memory_accounted_witness:
  "\<exists>K k i T W L. kern_run K {#} k \<and> i < 32 \<and> started (procs k ! i) 2 \<and>
    free_page_mset L + held_pages (slab_blocks W + (all_blocks (procs k) T + (K + {#}))) = managed_pages (pm (kh k))"
proof -
  obtain K k i j where T: "kern_run K {#} k" "i < 32" "j < 32" "i \<noteq> j" "started (procs k ! i) 2" "started (procs k ! j) 3" by (rule two_programs)
  then show ?thesis using memory_accounted [OF T(1)] by blast
qed

section \<open>The table of processes\<close>

lemma frames_free: "frame_blocks fs = {#} \<Longrightarrow> fs = replicate (length fs) 0"
  by (induction fs) (auto simp: frame_blocks_def split: if_splits)

lemma slot_typed:
  assumes "slot_ok h kp p t"
  shows "length (p_frames p) = 64" "p_kernel_stack p \<noteq> 0 \<Longrightarrow> p_kernel_stack_size p \<in> {4096, 8192}"
    "\<not> p_in_use p \<Longrightarrow> p_kernel_stack p = 0 \<and> p_pd p = 0 \<and> p_frames p = replicate 64 0"
proof -
  show l: "length (p_frames p) = 64" and "p_kernel_stack p \<noteq> 0 \<Longrightarrow> p_kernel_stack_size p \<in> {4096, 8192}"
    using assms by (simp_all add: slot_ok_def USER_WIN_PAGES_def)
  assume "\<not> p_in_use p"
  then have "blocks p t = {#}" using assms by (simp add: slot_ok_def)
  then have "stack_blocks p = {#}" "frame_blocks (p_frames p) = {#}" "dir_blocks (p_pd p) t = {#}" by (simp_all add: blocks_def)
  then show "p_kernel_stack p = 0 \<and> p_pd p = 0 \<and> p_frames p = replicate 64 0"
    using frames_free [of "p_frames p"] l by (auto simp: stack_blocks_def dir_blocks_def split: if_splits)
qed

text \<open>C10: In every run the table of processes is well formed: it has 32 slots; the current process is one in use and the processor's page directory
  is its own, or the kernel's if it has none; no two processes have the same number and all numbers are below the next one; every slot has 64 frames,
  a kernel stack of 4096 or 8192 bytes if any, and a slot that is not in use has neither stack nor directory nor frames.\<close>

theorem processes_well_formed:
  assumes run: "kern_run K R k"
  shows "length (procs k) = 32 \<and>
    (\<exists>c < 32. cur k = Some c \<and> p_in_use (procs k ! c) \<and> cr3 k = (if p_pd (procs k ! c) \<noteq> 0 then p_pd (procs k ! c) else kpd k)) \<and>
    (\<forall>i < 32. length (p_frames (procs k ! i)) = 64 \<and> (p_kernel_stack (procs k ! i) \<noteq> 0 \<longrightarrow> p_kernel_stack_size (procs k ! i) \<in> {4096, 8192}) \<and>
      (if p_in_use (procs k ! i) then p_pid (procs k ! i) < next_pid k \<and> (\<forall>j < 32. p_in_use (procs k ! j) \<and> p_pid (procs k ! j) = p_pid (procs k ! i) \<longrightarrow> j = i)
       else p_kernel_stack (procs k ! i) = 0 \<and> p_pd (procs k ! i) = 0 \<and> p_frames (procs k ! i) = replicate 64 0))"
proof -
  note inv = kern_run_inv [OF run]
  have t: "table_ok k" and "\<exists>T. \<forall>i < 32. slot_ok (kh k) (kpd k) (procs k ! i) (T i)"
    using inv by (auto simp: kern_inv_def mem_inv_def MAX_PROCESSES_def)
  then obtain T where T: "\<And>i. i < 32 \<Longrightarrow> slot_ok (kh k) (kpd k) (procs k ! i) (T i)" by blast
  have pids: "p_pid (procs k ! i) < next_pid k \<and> (\<forall>j < 32. p_in_use (procs k ! j) \<and> p_pid (procs k ! j) = p_pid (procs k ! i) \<longrightarrow> j = i)"
    if "i < 32" "p_in_use (procs k ! i)" for i
    using t that by (simp add: table_ok_def MAX_PROCESSES_def word_less_nat_alt)
  show ?thesis
  proof (intro conjI allI impI)
    show "length (procs k) = 32" by (rule kern_inv_length [OF inv])
    show "\<exists>c < 32. cur k = Some c \<and> p_in_use (procs k ! c) \<and> cr3 k = (if p_pd (procs k ! c) \<noteq> 0 then p_pd (procs k ! c) else kpd k)"
      by (rule current [OF inv]) blast
  next
    fix i :: nat assume i: "i < 32"
    note S = slot_typed [OF T [OF i]]
    show "length (p_frames (procs k ! i)) = 64" by (rule S(1))
    show "p_kernel_stack (procs k ! i) \<noteq> 0 \<Longrightarrow> p_kernel_stack_size (procs k ! i) \<in> {4096, 8192}" by (rule S(2))
    show "if p_in_use (procs k ! i) then p_pid (procs k ! i) < next_pid k \<and> (\<forall>j < 32. p_in_use (procs k ! j) \<and> p_pid (procs k ! j) = p_pid (procs k ! i) \<longrightarrow> j = i)
       else p_kernel_stack (procs k ! i) = 0 \<and> p_pd (procs k ! i) = 0 \<and> p_frames (procs k ! i) = replicate 64 0"
      using pids [OF i] S(3) by auto
  qed
qed

theorem processes_well_formed_witness:
  "\<exists>K k i. kern_run K {#} k \<and> i < 32 \<and> started (procs k ! i) 2 \<and> p_pid (procs k ! i) < next_pid k \<and> length (p_frames (procs k ! i)) = 64"
proof -
  obtain K k i j where T: "kern_run K {#} k" "i < 32" "j < 32" "i \<noteq> j" "started (procs k ! i) 2" "started (procs k ! j) 3" by (rule two_programs)
  then have "p_in_use (procs k ! i)" by (simp add: started_def)
  with processes_well_formed [OF T(1)] T show ?thesis by metis
qed

section \<open>Fork\<close>

text \<open>The first program, running.\<close>

lemma program_running:
  obtains K k i where "kern_run K {#} k" "room k" "i < 32" "cur k = Some i" "started (procs k ! i) 2" "next_pid k = 3"
proof -
  obtain K b k i where O: "kern_run K {#(b, 10)#} k" "i < 32" "2 \<le> i" "started (procs k ! i) 2" "cur k = Some 1" "next_pid k = 3"
    "\<And>j. j < 32 \<Longrightarrow> j \<noteq> i \<Longrightarrow> (p_in_use (procs k ! j) \<longleftrightarrow> j < 2) \<and> p_esp (procs k ! j) = 0" by (rule one_program) blast
  have r: "runnable (procs k ! i)" using O(4) by (simp add: started_def)
  have i1: "i \<noteq> 1" using O(3) by simp
  obtain n where n: "next_task k 1 = Some n" using next_task_between [OF _ O(2) i1 r] by auto
  have "n < 32" "runnable (procs k ! n)" using next_task_runnable [OF n] by simp_all
  then have "n = i" using O(7) [of n] by (auto simp: runnable_def)
  let ?k = "schedule 0 k"
  have S: "cur ?k = Some i" "next_pid ?k = 3" "\<And>j. j \<noteq> 1 \<Longrightarrow> procs ?k ! j = procs k ! j"
    using n O(5,6) i1 unfolding \<open>n = i\<close> by (simp_all add: schedule_def Let_def upd_def vmm_load_pd_def)
  obtain l where l: "l < 32" "l \<noteq> i" "2 \<le> l" by (cases "i = 2") (use that [of 3] that [of 2] in auto)
  have R: "kern_run K {#(b, 10)#} ?k" by (rule kern_run.yield [OF O(1)])
  have free: "\<not> p_in_use (procs ?k ! l)" using O(7) [OF l(1,2)] S(3) [of l] l(3) by simp
  have nx: "unat (next_pid ?k) + 1 < 2 ^ 32" unfolding S(2) by simp
  note M = make_room [OF R nx l(1) free]
  show ?thesis by (rule that [OF M O(2)]) (use S O(4) i1 in simp_all)
qed

text \<open>C11: When \<open>sys_fork\<close> succeeds, in any run, exactly one slot changes: a free one, which is now a running process with the number it returns.
  Its saved context has 0 as the system call's result and the parent's instruction pointer. Every address the parent could reach, it still reaches at
  the same place with the same byte there, and the child reaches a byte of the same value at the same address.\<close>

theorem fork_copies_program:
  assumes run: "kern_run K R k" and n: "unat (next_pid k) + 1 < 2 ^ 32" and c: "cur k = Some c" and r: "sys_fork rg k = Some (pid, k')" and ok: "pid \<noteq> FAILED"
  shows "\<exists>i < 32. i \<noteq> c \<and> \<not> p_in_use (procs k ! i) \<and> (\<forall>j. j \<noteq> i \<longrightarrow> procs k' ! j = procs k ! j) \<and>
    p_in_use (procs k' ! i) \<and> p_pid (procs k' ! i) = pid \<and> p_state (procs k' ! i) = PROC_STATE_RUNNING \<and>
    rd (p_esp (procs k' ! i) + 64) (kh k') = 0 \<and> rd (p_esp (procs k' ! i) + 76) (kh k') = r_eip rg \<and>
    (\<forall>v x. reaches k c v x \<longrightarrow> reaches k' c v x \<and> ld8 x (kh k') = ld8 x (kh k) \<and> (\<exists>y. reaches k' i v y \<and> ld8 y (kh k') = ld8 x (kh k)))"
  by (rule fork_window [OF kern_run_inv [OF run] n c r ok])

theorem fork_copies_program_witness:
  "\<exists>K k rg k' c i x y. kern_run K {#} k \<and> cur k = Some c \<and> sys_fork rg k = Some (3, k') \<and> i \<noteq> c \<and> p_pid (procs k' ! i) = 3 \<and>
    reaches k c USER_WIN_BASE x \<and> reaches k' i USER_WIN_BASE y \<and> ld8 y (kh k') = ld8 x (kh k)"
proof -
  obtain K k c where P: "kern_run K {#} k" "room k" "c < 32" "cur k = Some c" "started (procs k ! c) 2" "next_pid k = 3" by (rule program_running) blast
  note inv = kern_run_inv [OF P(1)]
  have u: "p_is_user_prog (procs k ! c)" "p_pd (procs k ! c) \<noteq> 0" using P(5) by (simp_all add: started_def)
  obtain k' where k': "sys_fork zero_regs k = Some (3, k')" using sys_fork_succeeds [OF inv P(2,4) u, of zero_regs] P(6) by auto
  obtain x where x: "reaches k c USER_WIN_BASE x" using started_reaches [OF inv P(3,5)] by blast
  have n: "unat (next_pid k) + 1 < 2 ^ 32" unfolding P(6) by simp
  have "(3 :: u32) \<noteq> FAILED" by (simp add: FAILED_def)
  from fork_copies_program [OF P(1) n P(4) k' this] obtain i where i: "i \<noteq> c" "p_pid (procs k' ! i) = 3"
    "reaches k c USER_WIN_BASE x \<longrightarrow> (\<exists>y. reaches k' i USER_WIN_BASE y \<and> ld8 y (kh k') = ld8 x (kh k))" by blast
  with P(1,4) k' x show ?thesis by blast
qed

section \<open>Fairness\<close>

text \<open>C12: No runnable process waits for ever. In a sequence of states each of which has the current process that \<open>schedule\<close> chose in the state before,
  whatever else happened in between, a process that stays runnable is the current one after at most 31 calls.\<close>

theorem runnable_is_scheduled:
  assumes step: "\<And>n. n < 31 \<Longrightarrow> cur (s n) \<noteq> Some j \<Longrightarrow> runnable (procs (s n) ! j) \<and> cur (s (Suc n)) = cur (schedule (sp n) (s n))"
    and c: "cur (s 0) = Some c" "c < 32" and j: "j < 32"
  shows "\<exists>n \<le> 31. cur (s n) = Some j"
proof -
  have near: "\<exists>n. n \<le> d \<and> cur (s (m + n)) = Some j" if "cur (s m) = Some i" "i < 32" "(j + 32 - i) mod 32 \<le> d" "m + d \<le> 31" for d m i
    using that
  proof (induction d arbitrary: m i)
    case 0
    then have "i = j" using j by (cases "i \<le> j"; simp add: mod_if split: if_splits)
    then show ?case using 0 by auto
  next
    case (Suc d)
    show ?case
    proof (cases "i = j")
      case False
      then have S: "runnable (procs (s m) ! j)" "cur (s (Suc m)) = cur (schedule (sp m) (s m))" using step [of m] Suc.prems(1,4) by simp_all
      from schedule_nearer [OF Suc.prems(1,2) j False [symmetric] S(1)] obtain n where
        n: "n < 32" "cur (s (Suc m)) = Some n" "(j + 32 - n) mod 32 < (j + 32 - i) mod 32" using S(2) by metis
      have nearer: "(j + 32 - n) mod 32 \<le> d" using n(3) Suc.prems(3) by linarith
      have "Suc m + d \<le> 31" using Suc.prems(4) by simp
      from Suc.IH [OF n(2,1) nearer this] obtain l where "l \<le> d" "cur (s (Suc m + l)) = Some j" by blast
      then show ?thesis by (intro exI [of _ "Suc l"]) simp
    qed (use Suc.prems(1) in \<open>auto intro: exI [of _ 0]\<close>)
  qed
  have "(j + 32 - c) mod 32 \<le> 31" using mod_less_divisor [of 32 "j + 32 - c"] by linarith
  from near [OF c this] show ?thesis by simp
qed

theorem runnable_is_scheduled_witness:
  "\<exists>K R k i. kern_run K R k \<and> cur k \<noteq> Some i \<and> started (procs k ! i) 2 \<and> (\<exists>n \<le> 31. cur ((schedule 0 ^^ n) k) = Some i)"
proof -
  obtain K b k i where O: "kern_run K {#(b, 10)#} k" "i < 32" "2 \<le> i" "started (procs k ! i) 2" "cur k = Some 1" "next_pid k = 3"
    "\<And>j. j < 32 \<Longrightarrow> j \<noteq> i \<Longrightarrow> (p_in_use (procs k ! j) \<longleftrightarrow> j < 2) \<and> p_esp (procs k ! j) = 0" by (rule one_program) blast
  have keep: "runnable (procs (schedule 0 g) ! i)" if "runnable (procs g ! i)" "cur g \<noteq> Some i" for g
    using that by (cases "cur g") (auto simp: schedule_def Let_def upd_def vmm_load_pd_def split: option.splits)
  let ?s = "\<lambda>n. (schedule 0 ^^ n) k"
  have r: "runnable (procs (?s n) ! i) \<or> (\<exists>m < n. cur (?s m) = Some i)" for n
  proof (induction n)
    case 0
    then show ?case using O(4) by (simp add: started_def)
  next
    case (Suc n)
    then show ?case using keep [of "?s n"] by (cases "cur (?s n) = Some i") (auto simp: less_Suc_eq)
  qed
  have "\<exists>n \<le> 31. cur (?s n) = Some i"
  proof (rule ccontr)
    assume no: "\<not> ?thesis"
    then have step: "runnable (procs (?s n) ! i) \<and> cur (?s (Suc n)) = cur (schedule 0 (?s n))" if "n < 31" for n
      using r [of n] that by (auto dest: less_trans)
    have "cur (?s 0) = Some 1" using O(5) by simp
    from runnable_is_scheduled [where s = ?s and sp = "\<lambda>_. 0", OF step this _ O(2)] no show False by simp
  qed
  moreover have "cur k \<noteq> Some i" using O(3,5) by simp
  ultimately show ?thesis using O(1,4) by (intro exI [of _ K] exI [of _ "{#(b, 10)#}"] exI [of _ k] exI [of _ i]) simp
qed

end
