(* ===== verification/KString.thy ===== *)
theory KString
  imports Prelude "HOL-Library.Signed_Division"
begin

text \<open>
  The kernel's own C runtime (\<open>src/kernel.c\<close>): memory copies over an explicit byte store, so
  that overlapping regions matter, string helpers, decimal parsing, and the 64-bit division
  routines the compiler calls on the 32-bit target.

  A C string is the list of its bytes; the terminator is a 0 byte or the end of the list, and
  \<open>cstr\<close> is its abstract value. A destination buffer is a list of its full size, and a write
  outside it is the result \<open>None\<close>.
\<close>

section \<open>Memory blocks\<close>

type_synonym bytes = "nat \<Rightarrow> u8"

function copy_up :: "nat \<Rightarrow> nat \<Rightarrow> nat \<Rightarrow> nat \<Rightarrow> bytes \<Rightarrow> bytes" where
  "copy_up d s i n m = (if i < n then copy_up d s (Suc i) n (m(d + i := m (s + i))) else m)"
  by pat_completeness auto
termination by (relation "measure (\<lambda>(d, s, i, n, m). n - i)") auto

declare copy_up.simps [simp del]

fun copy_down :: "nat \<Rightarrow> nat \<Rightarrow> nat \<Rightarrow> bytes \<Rightarrow> bytes" where
  "copy_down d s 0 m = m"
| "copy_down d s (Suc i) m = copy_down d s i (m(d + i := m (s + i)))"

definition mem_copy :: "nat \<Rightarrow> nat \<Rightarrow> nat \<Rightarrow> bytes \<Rightarrow> bytes" where
  "mem_copy dest src n m = copy_up dest src 0 n m"

definition memcpy :: "nat \<Rightarrow> nat \<Rightarrow> nat \<Rightarrow> bytes \<Rightarrow> bytes" where
  "memcpy dest src n m = mem_copy dest src n m"

definition kmemcpy :: "nat \<Rightarrow> nat \<Rightarrow> nat \<Rightarrow> bytes \<Rightarrow> bytes" where
  "kmemcpy dest src n m = copy_up dest src 0 n m"

function mem_set_from :: "nat \<Rightarrow> u8 \<Rightarrow> nat \<Rightarrow> nat \<Rightarrow> bytes \<Rightarrow> bytes" where
  "mem_set_from dst v i n m = (if i < n then mem_set_from dst v (Suc i) n (m(dst + i := v)) else m)"
  by pat_completeness auto
termination by (relation "measure (\<lambda>(dst, v, i, n, m). n - i)") auto

declare mem_set_from.simps [simp del]

definition mem_set :: "nat \<Rightarrow> u8 \<Rightarrow> nat \<Rightarrow> bytes \<Rightarrow> bytes" where
  "mem_set dst v n m = mem_set_from dst v 0 n m"

definition memset :: "nat \<Rightarrow> int \<Rightarrow> nat \<Rightarrow> bytes \<Rightarrow> bytes" where
  "memset s c n m = mem_set s (word_of_int c) n m"

definition memmove :: "nat \<Rightarrow> nat \<Rightarrow> nat \<Rightarrow> bytes \<Rightarrow> bytes" where
  "memmove d s n m =
     (if d < s then copy_up d s 0 n m
      else if d > s then copy_down d s n m
      else m)"

function memcmp_from :: "nat \<Rightarrow> nat \<Rightarrow> nat \<Rightarrow> nat \<Rightarrow> bytes \<Rightarrow> int" where
  "memcmp_from p1 p2 i n m =
     (if i < n then
        if m (p1 + i) < m (p2 + i) then -1
        else if m (p1 + i) > m (p2 + i) then 1
        else memcmp_from p1 p2 (Suc i) n m
      else 0)"
  by pat_completeness auto
termination by (relation "measure (\<lambda>(p1, p2, i, n, m). n - i)") auto

declare memcmp_from.simps [simp del]

definition memcmp :: "nat \<Rightarrow> nat \<Rightarrow> nat \<Rightarrow> bytes \<Rightarrow> int" where
  "memcmp s1 s2 n m = memcmp_from s1 s2 0 n m"

function memchr_from :: "nat \<Rightarrow> u8 \<Rightarrow> nat \<Rightarrow> nat \<Rightarrow> bytes \<Rightarrow> nat option" where
  "memchr_from p c i n m =
     (if i < n then if m (p + i) = c then Some (p + i) else memchr_from p c (Suc i) n m else None)"
  by pat_completeness auto
termination by (relation "measure (\<lambda>(p, c, i, n, m). n - i)") auto

declare memchr_from.simps [simp del]

definition memchr :: "nat \<Rightarrow> int \<Rightarrow> nat \<Rightarrow> bytes \<Rightarrow> nat option" where
  "memchr s c n m = memchr_from s (word_of_int c) 0 n m"

section \<open>Strings\<close>

definition cstr :: "u8 list \<Rightarrow> u8 list" where
  "cstr s = takeWhile (\<lambda>c. c \<noteq> 0) s"

fun kstrlen :: "u8 list \<Rightarrow> nat" where
  "kstrlen [] = 0"
| "kstrlen (c # s) = (if c \<noteq> 0 then Suc (kstrlen s) else 0)"

definition strlen :: "u8 list \<Rightarrow> nat" where
  "strlen s = kstrlen s"

definition c_at :: "u8 list \<Rightarrow> nat \<Rightarrow> u8" where
  "c_at s i = (if i < length s then s ! i else 0)"

fun kstrcmp_n :: "u8 list \<Rightarrow> u8 list \<Rightarrow> nat \<Rightarrow> int" where
  "kstrcmp_n a b 0 = 0"
| "kstrcmp_n a b (Suc n) =
     (if c_at a 0 \<noteq> c_at b 0 then uint (c_at a 0) - uint (c_at b 0)
      else if c_at a 0 = 0 then 0
      else kstrcmp_n (tl a) (tl b) n)"

text \<open>\<open>dest\<close> is the destination buffer from the current position on, \<open>k\<close> the number of bytes
  that may still be copied (\<open>n - 1 - i\<close>, where \<open>n - 1\<close> wraps around for \<open>n = 0\<close>).\<close>

fun kstrncpy_loop :: "u8 list \<Rightarrow> u8 list \<Rightarrow> nat \<Rightarrow> u8 list option" where
  "kstrncpy_loop dest src 0 = (case dest of [] \<Rightarrow> None | _ # ds \<Rightarrow> Some (0 # ds))"
| "kstrncpy_loop dest src (Suc k) =
     (case dest of
        [] \<Rightarrow> None
      | _ # ds \<Rightarrow>
          if c_at src 0 \<noteq> 0
          then map_option (Cons (c_at src 0)) (kstrncpy_loop ds (tl src) k)
          else Some (0 # ds))"

definition kstrncpy :: "u8 list \<Rightarrow> u8 list \<Rightarrow> u32 \<Rightarrow> u8 list option" where
  "kstrncpy dest src n = kstrncpy_loop dest src (unat (n - 1))"

fun skip_spaces :: "u8 list \<Rightarrow> u8 list" where
  "skip_spaces [] = []"
| "skip_spaces (c # s) = (if c \<noteq> 0 \<and> c \<le> 32 then skip_spaces s else c # s)"

fun kstreq :: "u8 list \<Rightarrow> u8 list \<Rightarrow> bool" where
  "kstreq [] bs = (c_at bs 0 = 0)"
| "kstreq (a # as) [] = (a = 0)"
| "kstreq (a # as) (b # bs) = (if a \<noteq> 0 \<and> b \<noteq> 0 \<and> a = b then kstreq as bs else a = 0 \<and> b = 0)"

definition is_digit :: "u8 \<Rightarrow> bool" where
  "is_digit c \<longleftrightarrow> 48 \<le> c \<and> c \<le> 57"

fun katoi_loop :: "u8 list \<Rightarrow> u32 \<Rightarrow> u32" where
  "katoi_loop [] res = res"
| "katoi_loop (c # s) res = (if is_digit c then katoi_loop s (res * 10 + (ucast c - 48)) else res)"

text \<open>The result is an \<open>int\<close>; it is kept as a 32-bit word, read with \<open>sint\<close>.\<close>

definition katoi :: "u8 list \<Rightarrow> u32" where
  "katoi s = katoi_loop s 0"

fun parse_u32_loop :: "u8 list \<Rightarrow> u32 \<Rightarrow> u32 option" where
  "parse_u32_loop [] v = Some v"
| "parse_u32_loop (c # s) v =
     (if is_digit c then
        if v > 0xFFFFFFFF div 10 then None
        else parse_u32_loop s (v * 10 + (ucast c - 48))
      else if c \<noteq> 0 \<and> c > 32 then None
      else Some v)"

definition parse_u32 :: "u8 list \<Rightarrow> u32 option" where
  "parse_u32 s =
     (let s = skip_spaces s
      in if c_at s 0 = 0 then None else parse_u32_loop s 0)"

section \<open>64-bit division\<close>

fun udiv_loop :: "nat \<Rightarrow> u64 \<Rightarrow> u64 \<Rightarrow> u64 \<Rightarrow> u64 \<Rightarrow> u64 \<times> u64" where
  "udiv_loop 0 num den quot rem = (quot, rem)"
| "udiv_loop (Suc i) num den quot rem =
     (let rem = push_bit 1 rem OR (drop_bit i num AND 1)
      in if rem \<ge> den
         then udiv_loop i num den (quot OR push_bit i 1) (rem - den)
         else udiv_loop i num den quot rem)"

definition udivdi3 :: "u64 \<Rightarrow> u64 \<Rightarrow> u64" where
  "udivdi3 num den = fst (udiv_loop 64 num den 0 0)"

fun umod_loop :: "nat \<Rightarrow> u64 \<Rightarrow> u64 \<Rightarrow> u64 \<Rightarrow> u64" where
  "umod_loop 0 num den rem = rem"
| "umod_loop (Suc i) num den rem =
     (let rem = push_bit 1 rem OR (drop_bit i num AND 1)
      in umod_loop i num den (if rem \<ge> den then rem - den else rem))"

definition umoddi3 :: "u64 \<Rightarrow> u64 \<Rightarrow> u64" where
  "umoddi3 num den = umod_loop 64 num den 0"

definition divdi3 :: "u64 \<Rightarrow> u64 \<Rightarrow> u64" where
  "divdi3 num den =
     (let neg1 = num <s 0; num = (if neg1 then - num else num);
          neg = (if den <s 0 then \<not> neg1 else neg1); den = (if den <s 0 then - den else den);
          q = udivdi3 num den
      in if neg then - q else q)"

definition moddi3 :: "u64 \<Rightarrow> u64 \<Rightarrow> u64" where
  "moddi3 num den =
     (let neg = num <s 0; num = (if neg then - num else num);
          den = (if den <s 0 then - den else den);
          r = umoddi3 num den
      in if neg then - r else r)"

section \<open>Copies and comparisons\<close>

lemma copy_up_apply:
  "d \<le> s \<or> s + n \<le> d \<Longrightarrow>
   copy_up d s i n m a = (if d + i \<le> a \<and> a < d + n then m (s + (a - d)) else m a)"
proof (induction d s i n m rule: copy_up.induct)
  case (1 d s i n m)
  show ?case
  proof (cases "i < n")
    case True
    then have "copy_up d s i n m = copy_up d s (Suc i) n (m(d + i := m (s + i)))"
      by (subst copy_up.simps) simp
    with "1.IH" [OF True "1.prems"] True "1.prems" show ?thesis
      by (auto simp del: fun_upd_apply) (auto simp: le_eq_less_or_eq)
  qed (auto simp: copy_up.simps)
qed

lemma copy_down_apply:
  "s < d \<Longrightarrow> copy_down d s i m a = (if d \<le> a \<and> a < d + i then m (s + (a - d)) else m a)"
  by (induction i arbitrary: m) auto

lemma mem_set_from_apply:
  "mem_set_from dst v i n m a = (if dst + i \<le> a \<and> a < dst + n then v else m a)"
proof (induction dst v i n m rule: mem_set_from.induct)
  case (1 dst v i n m)
  show ?case
  proof (cases "i < n")
    case True
    then have "mem_set_from dst v i n m = mem_set_from dst v (Suc i) n (m(dst + i := v))"
      by (subst mem_set_from.simps) simp
    with "1.IH" [OF True] True show ?thesis by (auto simp del: fun_upd_apply) (auto simp: le_eq_less_or_eq)
  qed (auto simp: mem_set_from.simps)
qed

lemma memcmp_from_0: "memcmp_from p1 p2 i n m = 0 \<longleftrightarrow> (\<forall>j. i \<le> j \<longrightarrow> j < n \<longrightarrow> m (p1 + j) = m (p2 + j))"
proof (induction p1 p2 i n m rule: memcmp_from.induct)
  case (1 p1 p2 i n m)
  show ?case
  proof (cases "i < n \<and> m (p1 + i) = m (p2 + i)")
    case True
    then have "memcmp_from p1 p2 i n m = memcmp_from p1 p2 (Suc i) n m"
      by (subst memcmp_from.simps) simp
    with 1 True show ?thesis by (auto simp: Suc_le_eq) (metis le_neq_implies_less)
  next
    case False
    then show ?thesis by (subst memcmp_from.simps) (auto simp: not_less_iff_gr_or_eq)
  qed
qed

section \<open>Strings and numbers\<close>

lemma kstrlen_cstr: "kstrlen s = length (cstr s)"
  by (induction s) (auto simp: cstr_def)

lemma c_at_cstr: "c_at s 0 = (case cstr s of [] \<Rightarrow> 0 | c # _ \<Rightarrow> c)"
  by (cases s) (auto simp: c_at_def cstr_def)

lemma cstr_Cons: "cstr (c # s) = (if c = 0 then [] else c # cstr s)"
  by (simp add: cstr_def)

lemma cstr_Nil [simp]: "cstr [] = []"
  by (simp add: cstr_def)

lemma cstr_no_nul: "0 \<notin> set (cstr s)"
  unfolding cstr_def using set_takeWhileD by fastforce

lemma cstr_id: "0 \<notin> set s \<Longrightarrow> cstr s = s"
  unfolding cstr_def by (auto simp: takeWhile_eq_all_conv)

lemma cstr_empty: "c_at s 0 = 0 \<longleftrightarrow> cstr s = []"
  by (cases s) (auto simp: c_at_def cstr_Cons)

lemma kstreq_cstr: "kstreq a b \<longleftrightarrow> cstr a = cstr b"
  by (induction a b rule: kstreq.induct) (auto simp: cstr_Cons cstr_empty)

lemma kstrcmp_n_cstr: "kstrcmp_n a b n = 0 \<longleftrightarrow> take n (cstr a) = take n (cstr b)"
proof (induction a b n rule: kstrcmp_n.induct)
  case (2 a b n)
  then show ?case
    by (cases a; cases b) (auto simp: c_at_def cstr_Cons word_uint_eq_iff)
qed simp

lemma kstrncpy_loop_ok:
  "k < length dest \<Longrightarrow>
   \<exists>out. kstrncpy_loop dest src k = Some out \<and> length out = length dest \<and>
     cstr out = take k (cstr src) \<and> drop (Suc k) out = drop (Suc k) dest"
proof (induction dest src k rule: kstrncpy_loop.induct)
  case (1 dest src)
  then show ?case by (cases dest) (auto simp: cstr_Cons)
next
  case (2 dest src k)
  from 2(2) obtain d ds where dest: "dest = d # ds" by (cases dest) auto
  show ?case
  proof (cases "c_at src 0 = 0")
    case True
    then have "cstr src = []" by (cases src) (auto simp: c_at_def cstr_Cons split: if_splits)
    with True dest show ?thesis by (simp add: cstr_Cons)
  next
    case False
    then have "cstr src = c_at src 0 # cstr (tl src)"
      by (cases src) (auto simp: c_at_def cstr_Cons)
    moreover from 2(1) [OF dest False] 2(2) dest obtain out where
      "kstrncpy_loop ds (tl src) k = Some out" "length out = length ds"
      "cstr out = take k (cstr (tl src))" "drop (Suc k) out = drop (Suc k) ds" by auto
    ultimately show ?thesis using dest False by (auto simp: cstr_Cons)
  qed
qed

text \<open>The value a digit string denotes.\<close>

fun dec_value :: "nat \<Rightarrow> u8 list \<Rightarrow> nat" where
  "dec_value v [] = v"
| "dec_value v (c # s) = dec_value (v * 10 + (unat c - 48)) s"

lemma dec_value_mono: "v \<le> dec_value v s"
proof (induction s arbitrary: v)
  case (Cons c s)
  from Cons [of "v * 10 + (unat c - 48)"] show ?case by simp
qed simp

lemma unat_digit:
  assumes "is_digit c" shows "unat (ucast c - 48 :: u32) = unat c - 48" "unat c - 48 < 10"
proof -
  from assms have b: "48 \<le> unat c" "unat c \<le> 57" by (auto simp: is_digit_def word_le_nat_alt)
  have "unat (ucast c :: u32) = unat c" by (rule unat_ucast_up) simp
  with b show "unat (ucast c - 48 :: u32) = unat c - 48"
    by (subst unat_sub) (auto simp: word_le_nat_alt)
  from b show "unat c - 48 < 10" by simp
qed

lemma parse_u32_loop_ok:
  assumes "list_all is_digit ds" "dec_value (unat v) ds < 2 ^ 32" "t = [] \<or> hd t \<le> 32"
  shows "parse_u32_loop (ds @ t) v = Some (of_nat (dec_value (unat v) ds))"
  using assms
proof (induction ds arbitrary: v)
  case Nil
  then show ?case by (cases t) (auto simp: is_digit_def word_le_nat_alt word_less_nat_alt)
next
  case (Cons c ds)
  from Cons.prems have d: "is_digit c" by simp
  note D = unat_digit [OF d]
  have le: "unat v * 10 + (unat c - 48) < 2 ^ 32"
    using Cons.prems(2) dec_value_mono [of "unat v * 10 + (unat c - 48)" ds] by simp
  then have v: "\<not> v > 0xFFFFFFFF div 10" by (simp add: word_less_nat_alt)
  have e: "unat (v * 10 + (ucast c - 48)) = unat v * 10 + (unat c - 48)"
    using le D by (simp add: unat_word_ariths)
  from Cons.IH [of "v * 10 + (ucast c - 48)"] Cons.prems d v show ?case
    by (simp add: e)
qed

section \<open>Division\<close>

text \<open>Before the step for bit \<open>i\<close> the loop has divided \<open>num div 2 ^ (i + 1)\<close>; the shifted
  remainder never overflows, because it is at most \<open>num div 2 ^ i\<close>.\<close>

lemma div_step_rem:
  assumes r: "unat rem = (unat num div 2 ^ Suc i) mod D"
  shows "unat (push_bit 1 rem OR (drop_bit i num AND 1) :: u64) =
     2 * ((unat num div 2 ^ Suc i) mod D) + unat num div 2 ^ i mod 2"
proof -
  have "unat num div 2 ^ Suc i \<le> unat num div 2 ^ 1"
    by (rule div_le_mono2) (auto intro: one_le_power)
  also have "\<dots> < 2 ^ 63" using unsigned_less [of num, where ?'a = nat] by simp
  finally have lt: "unat rem < 2 ^ 63" using r by (metis le_less_trans mod_less_eq_dividend)
  have low: "unat (drop_bit i num AND 1) = unat num div 2 ^ i mod 2"
    unfolding unsigned_and_eq unat_drop_bit_eq by (simp add: drop_bit_eq_div and_one_eq)
  have "push_bit 1 rem AND (drop_bit i num AND 1) = 0"
    by (rule bit_eqI) (unfold bit_and_iff bit_push_bit_iff, auto simp: bit_1_iff)
  from disjunctive_add_eq_or [OF this]
  have "unat (push_bit 1 rem OR (drop_bit i num AND 1)) = unat (push_bit 1 rem + (drop_bit i num AND 1))"
    by simp
  also have "unat (push_bit 1 rem) = 2 * unat rem"
    using lt by (simp add: unat_word_ariths)
  then have "unat (push_bit 1 rem + (drop_bit i num AND 1)) = 2 * unat rem + unat num div 2 ^ i mod 2"
    using lt low by (simp add: unat_word_ariths)
  finally show ?thesis using r by simp
qed

lemma nat_div_step:
  fixes D N :: nat
  assumes "D > 0"
  defines "R \<equiv> 2 * (N div 2 mod D) + N mod 2"
  shows "N mod D = (if D \<le> R then R - D else R)"
    and "N div D = 2 * (N div 2 div D) + (if D \<le> R then 1 else 0)"
proof -
  have "N = 2 * (N div 2) + N mod 2" by simp
  moreover have "N div 2 = (N div 2 div D) * D + N div 2 mod D" by simp
  ultimately have "N = 2 * ((N div 2 div D) * D + N div 2 mod D) + N mod 2" by metis
  then have N: "N = (2 * (N div 2 div D)) * D + R" by (simp only: R_def distrib_left mult.assoc add.assoc)
  have "N div 2 mod D < D" using assms by simp
  then have R: "R < 2 * D" unfolding R_def by linarith
  have "N mod D = R mod D" by (subst N) (rule mod_mult_self3)
  moreover have "R mod D = (if D \<le> R then R - D else R)" using R by (simp add: mod_if)
  ultimately show "N mod D = (if D \<le> R then R - D else R)" by simp
  have "N div D = 2 * (N div 2 div D) + R div D"
    using assms(1) by (subst N) (rule div_mult_self3, simp)
  moreover have "R div D = (if D \<le> R then 1 else 0)"
    using R assms(1) by (auto simp: div_if)
  ultimately show "N div D = 2 * (N div 2 div D) + (if D \<le> R then 1 else 0)" by simp
qed

lemma unat_or_push_bit:
  fixes q :: u64
  assumes q: "unat q = (2 * k) * 2 ^ i" and i: "i < 64"
  shows "unat (q OR push_bit i 1) = (2 * k + 1) * 2 ^ i"
proof -
  have "bit q i \<longleftrightarrow> bit (unat q) i" by (simp add: bit_unsigned_iff)
  also have "\<dots> \<longleftrightarrow> odd (unat q div 2 ^ i)" by (rule bit_iff_odd)
  finally have nb: "\<not> bit q i" by (simp add: q)
  have "q AND push_bit i 1 = 0"
    by (rule bit_eqI) (use nb in \<open>auto simp: bit_simps\<close>)
  from disjunctive_add_eq_or [OF this] have e: "unat (q OR push_bit i 1) = unat (q + 2 ^ i)"
    by (simp add: push_bit_eq_mult)
  have "2 * k + 1 \<le> 2 ^ (64 - i) \<longleftrightarrow> 2 * k < 2 ^ (64 - i)" by (simp add: Suc_le_eq)
  moreover have "2 * k < 2 ^ (64 - i)"
  proof -
    have "(2 * k) * 2 ^ i < 2 ^ (64 - i) * 2 ^ i"
      using unsigned_less [of q, where ?'a = nat] i unfolding q by (simp flip: power_add)
    then show ?thesis by simp
  qed
  moreover have "even ((2::nat) ^ (64 - i))" using i by simp
  ultimately have "2 * k + 1 < 2 ^ (64 - i)"
    by (metis even_plus_one_iff dvd_triv_left le_neq_implies_less)
  then have "(2 * k + 1) * 2 ^ i < 2 ^ (64 - i) * 2 ^ i" by (rule mult_less_mono1) simp
  also have "\<dots> = (2 :: nat) ^ 64" using i by (simp flip: power_add)
  finally have lt: "unat q + 2 ^ i < 2 ^ 64" by (simp add: q)
  have "unat (2 ^ i :: u64) = 2 ^ i" using i by (simp add: unat_pow2)
  with lt show ?thesis unfolding e by (simp add: unat_word_ariths q)
qed

lemma udiv_loop_ok:
  assumes "i \<le> 64" "unat den > 0" "unat rem = (unat num div 2 ^ i) mod unat den"
    "unat quot = (unat num div 2 ^ i div unat den) * 2 ^ i"
  shows "unat (fst (udiv_loop i num den quot rem)) = unat num div unat den \<and>
         unat (snd (udiv_loop i num den quot rem)) = unat num mod unat den"
  using assms
proof (induction i arbitrary: quot rem)
  case (Suc i)
  let ?N = "unat num div 2 ^ i" and ?D = "unat den"
  let ?r = "push_bit 1 rem OR (drop_bit i num AND 1)"
  let ?R = "2 * (?N div 2 mod ?D) + ?N mod 2"
  have N2: "unat num div 2 ^ Suc i = ?N div 2"
    by (simp add: div_mult2_eq [symmetric] mult.commute)
  have r: "unat ?r = ?R" using div_step_rem [of rem num i ?D] Suc.prems(3) unfolding N2 by simp
  note S = nat_div_step [OF Suc.prems(2), of ?N]
  have q: "unat quot = (2 * (?N div 2 div ?D)) * 2 ^ i"
    using Suc.prems(4) unfolding N2 by (simp add: algebra_simps)
  show ?case
  proof (cases "den \<le> ?r")
    case True
    then have ge: "?D \<le> ?R" using r by (simp add: word_le_nat_alt)
    have "unat (?r - den) = ?N mod ?D"
      using True ge S(1) r by (subst unat_sub) auto
    moreover have "unat (quot OR push_bit i 1) = (?N div ?D) * 2 ^ i"
      using unat_or_push_bit [OF q] Suc.prems(1) ge S(2) by simp
    ultimately show ?thesis using Suc.IH [of "?r - den" "quot OR push_bit i 1"] Suc.prems True
      by (simp add: Let_def)
  next
    case False
    then have lt: "\<not> ?D \<le> ?R" using r by (simp add: word_le_nat_alt)
    then have "unat ?r = ?N mod ?D" "unat quot = (?N div ?D) * 2 ^ i"
      using S r q by auto
    with Suc.IH [of ?r quot] Suc.prems False show ?thesis by (simp add: Let_def)
  qed
qed simp

lemma umod_loop_snd: "umod_loop i num den rem = snd (udiv_loop i num den quot rem)"
  by (induction i arbitrary: quot rem) (auto simp: Let_def)

lemma udivdi3_unat: "den \<noteq> 0 \<Longrightarrow> unat (udivdi3 num den) = unat num div unat den"
  and umoddi3_unat: "den \<noteq> 0 \<Longrightarrow> unat (umoddi3 num den) = unat num mod unat den"
proof -
  assume "den \<noteq> 0"
  then have d: "unat den > 0" by (simp add: unat_gt_0)
  have "unat num div 2 ^ 64 = 0" using unsigned_less [of num, where ?'a = nat] by simp
  with udiv_loop_ok [of 64 den 0 num 0] d
  show "unat (udivdi3 num den) = unat num div unat den" "unat (umoddi3 num den) = unat num mod unat den"
    by (simp_all add: udivdi3_def umoddi3_def umod_loop_snd [where quot = 0])
qed

text \<open>The signed value of a word and its magnitude.\<close>

definition magn :: "u64 \<Rightarrow> u64" where
  "magn x = (if x <s 0 then - x else x)"

lemma sless_0: "x <s 0 \<longleftrightarrow> sint x < 0" for x :: u64
  by (simp add: word_sless_alt)

lemma sint_bounds64: "- (2 ^ 63) \<le> sint x" "sint x < 2 ^ 63" for x :: u64
  using sint_ge [of x] sint_lt [of x] by simp_all

lemma uint_magn: "uint (magn x) = \<bar>sint x\<bar>"
proof (cases "sint x < 0")
  case True
  have "uint (- x) = (- sint x) mod 2 ^ 64"
    using uint_word_of_int [of "- sint x", where ?'a = 64] by simp
  with True sint_bounds64 [of x] show ?thesis by (simp add: magn_def sless_0)
next
  case False
  have "uint x = sint x mod 2 ^ 64" by (simp add: uint_sint take_bit_eq_mod)
  with False sint_bounds64 [of x] show ?thesis by (simp add: magn_def sless_0)
qed

lemma sint_signed_magn:
  fixes q :: u64
  shows "uint q \<le> 2 ^ 63 \<Longrightarrow> sint (- q) = - uint q"
    and "uint q < 2 ^ 63 \<Longrightarrow> sint q = uint q"
proof -
  show "sint q = uint q" if "uint q < 2 ^ 63"
    using that int_word_sint [of "uint q", where ?'a = 64] by simp
  show "sint (- q) = - uint q" if "uint q \<le> 2 ^ 63"
  proof -
    have *: "(2 ^ 63 - k) mod 2 ^ 64 = 2 ^ 63 - k" if "0 \<le> k" "k \<le> 2 ^ 63" for k :: int
      using that by (intro mod_pos_pos_trivial) simp_all
    from that have "(2 ^ 63 - uint q) mod 2 ^ 64 = 2 ^ 63 - uint q"
      by (intro *) simp_all
    with int_word_sint [of "- uint q", where ?'a = 64] show ?thesis by simp
  qed
qed

lemma divdi3_magn: "divdi3 num den = (if (num <s 0) \<noteq> (den <s 0) then - udivdi3 (magn num) (magn den)
    else udivdi3 (magn num) (magn den))"
  by (simp add: divdi3_def magn_def Let_def)

lemma moddi3_magn: "moddi3 num den = (if num <s 0 then - umoddi3 (magn num) (magn den)
    else umoddi3 (magn num) (magn den))"
  by (simp add: moddi3_def magn_def Let_def)

lemma uint_udivdi3: "den \<noteq> 0 \<Longrightarrow> uint (udivdi3 num den) = uint num div uint den"
  and uint_umoddi3: "den \<noteq> 0 \<Longrightarrow> uint (umoddi3 num den) = uint num mod uint den"
  by (metis udivdi3_unat of_nat_div uint_nat) (metis umoddi3_unat of_nat_mod uint_nat)

lemma magn_0: "magn x = 0 \<longleftrightarrow> x = 0"
  by (simp add: magn_def)

section \<open>Properties\<close>

text \<open>\<open>memmove\<close> copies the old contents of the source region to the destination and
  touches nothing else, also when the regions overlap.\<close>

theorem memmove_moves:
  "memmove d s n m a = (if d \<le> a \<and> a < d + n then m (s + (a - d)) else m a)"
  using copy_up_apply [of d s n 0 m a] copy_down_apply [of s d n m a]
  by (cases d s rule: linorder_cases) (auto simp: memmove_def)

text \<open>The 64-bit division routines the compiler calls compute the unsigned quotient and
  remainder of every non-zero divisor.\<close>

theorem udivdi3_umoddi3_correct:
  assumes "den \<noteq> 0"
  shows "unat (udivdi3 num den) = unat num div unat den \<and> unat (umoddi3 num den) = unat num mod unat den"
  using udivdi3_unat [OF assms] umoddi3_unat [OF assms] by blast

theorem udivdi3_umoddi3_correct_witness:
  "unat (udivdi3 100 7) = 14 \<and> unat (umoddi3 100 7) = 2"
  using udivdi3_umoddi3_correct [of 7 100] by simp

text \<open>Signed division and remainder truncate towards zero, as C requires, for every
  dividend and non-zero divisor whose quotient is representable.\<close>

theorem divdi3_moddi3_truncate:
  assumes den: "den \<noteq> 0" and ov: "\<not> (sint num = - (2 ^ 63) \<and> sint den = -1)"
  shows "sint (divdi3 num den) = sint num sdiv sint den \<and> sint (moddi3 num den) = sint num smod sint den"
proof -
  have d: "magn den \<noteq> 0" using den by (simp add: magn_0)
  have d': "\<bar>sint den\<bar> > 0" using den by (simp add: signed_eq_0_iff)
  let ?q = "udivdi3 (magn num) (magn den)" and ?r = "umoddi3 (magn num) (magn den)"
  have q: "uint ?q = \<bar>sint num\<bar> div \<bar>sint den\<bar>" by (simp only: uint_udivdi3 [OF d] uint_magn)
  have r: "uint ?r = \<bar>sint num\<bar> mod \<bar>sint den\<bar>" by (simp only: uint_umoddi3 [OF d] uint_magn)
  note b = sint_bounds64 [of num] sint_bounds64 [of den]
  have q_le: "uint ?q \<le> \<bar>sint num\<bar>" unfolding q using zdiv_mono2 [of "\<bar>sint num\<bar>" 1 "\<bar>sint den\<bar>"] d' by simp
  have q_lt: "uint ?q < 2 ^ 63" if "(num <s 0) = (den <s 0)"
  proof (cases "sint num = - (2 ^ 63)")
    case True
    with that ov den have "\<bar>sint den\<bar> \<ge> 2" by (auto simp: sless_0 signed_eq_0_iff)
    with zdiv_mono2 [of "\<bar>sint num\<bar>" 2 "\<bar>sint den\<bar>"] True show ?thesis unfolding q by simp
  next
    case False
    with q_le b show ?thesis by linarith
  qed
  have r_lt: "uint ?r < 2 ^ 63"
    unfolding r using d' b pos_mod_bound [of "\<bar>sint den\<bar>" "\<bar>sint num\<bar>"]
    by linarith
  have "uint ?q \<le> 2 ^ 63" "uint ?r \<le> 2 ^ 63" using q_le r_lt b by linarith+
  note neg = sint_signed_magn(1) [OF this(1)] sint_signed_magn(1) [OF this(2)]
  have "sint (divdi3 num den) = sint num sdiv sint den"
    using neg sint_signed_magn(2) [OF q_lt] d' unfolding divdi3_magn signed_divide_int_def q sless_0
    by (auto simp: sgn_if)
  moreover have "sint (moddi3 num den) = sint num smod sint den"
    using neg sint_signed_magn(2) [OF r_lt] unfolding moddi3_magn signed_modulo_int_def r sless_0
    by (auto simp: sgn_if)
  ultimately show ?thesis ..
qed

theorem divdi3_moddi3_truncate_witness:
  "sint (divdi3 (- 7) 2) = - 3 \<and> sint (moddi3 (- 7) 2) = - 1"
  using divdi3_moddi3_truncate [of 2 "- 7"] by (simp add: signed_divide_int_def signed_modulo_int_def)

text \<open>The string comparisons decide equality of the strings: \<open>kstreq\<close> of the whole
  strings, \<open>kstrcmp_n\<close> of their first \<open>n\<close> characters; \<open>kstrlen\<close> is the length.\<close>

theorem kstring_comparisons_correct:
  "kstreq a b = (cstr a = cstr b) \<and> (kstrcmp_n a b n = 0) = (take n (cstr a) = take n (cstr b)) \<and>
   kstrlen a = length (cstr a)"
  using kstreq_cstr kstrcmp_n_cstr kstrlen_cstr by blast

text \<open>\<open>kstrncpy\<close> into a buffer of at least \<open>n > 0\<close> bytes stays inside the first \<open>n\<close> bytes,
  terminates the copy and truncates it to \<open>n - 1\<close> characters.\<close>

theorem kstrncpy_bounded:
  assumes "0 < n" "unat n \<le> length dest"
  shows "\<exists>out. kstrncpy dest src n = Some out \<and> length out = length dest \<and>
    cstr out = take (unat n - 1) (cstr src) \<and> drop (unat n) out = drop (unat n) dest"
proof -
  from assms(1) have "0 < unat n" by (simp add: unat_gt_0 word_gt_0)
  moreover from assms(1) have "unat (n - 1) = unat n - 1"
    by (simp add: unat_minus_one word_gt_0)
  ultimately show ?thesis
    using kstrncpy_loop_ok [of "unat n - 1" dest src] assms(2) by (simp add: kstrncpy_def)
qed

theorem kstrncpy_bounded_witness:
  "\<exists>out. kstrncpy [9, 9, 9, 9] [97, 98, 99, 100] 3 = Some out \<and> cstr out = [97, 98] \<and> drop 3 out = [9]"
  using kstrncpy_bounded [of 3 "[9, 9, 9, 9]" "[97, 98, 99, 100]"] by (auto simp: cstr_def)

text \<open>\<open>parse_u32\<close> returns the value of a decimal number that fits 32 bits, after leading
  and before trailing blanks.\<close>

theorem parse_u32_correct:
  assumes "list_all is_digit ds" "ds \<noteq> []" "dec_value 0 ds < 2 ^ 32"
    and "list_all (\<lambda>c. c \<noteq> 0 \<and> c \<le> 32) sp" "t = [] \<or> hd t \<le> 32"
  shows "parse_u32 (sp @ ds @ t) = Some (of_nat (dec_value 0 ds))"
proof -
  obtain d ds' where ds: "ds = d # ds'" using assms(2) by (cases ds) auto
  have d: "\<not> d \<le> 32" "d \<noteq> 0" using assms(1) ds
    by (auto simp: is_digit_def word_le_nat_alt)
  have "skip_spaces (sp @ ds @ t) = ds @ t"
    using assms(4) d by (induction sp) (auto simp: ds)
  with parse_u32_loop_ok [of ds 0 t] assms(1,3,5) d show ?thesis
    by (simp add: parse_u32_def c_at_def ds)
qed

theorem parse_u32_correct_witness:
  "parse_u32 ([32] @ [52, 50] @ [10]) = Some 42"
  using parse_u32_correct [of "[52, 50]" "[32]" "[10]"] by (simp add: is_digit_def)

text \<open>The overflow check of \<open>parse_u32\<close> looks at the value before the last digit only: a
  number just above \<open>2 ^ 32 - 1\<close> is accepted with a wrapped value.\<close>

lemma parse_u32_wraps: "parse_u32 [52, 50, 57, 52, 57, 54, 55, 50, 57, 54] = Some 0"
  by code_simp

end
