(* ===== verification/Wire.thy ===== *)
theory Wire
  imports Prelude
begin

text \<open>
  Byte order and the Internet checksum (\<open>include/net.h\<close>, \<open>src/ip4.c\<close>). Packet memory is a
  function from byte positions to bytes; the CPU is little-endian, so a header field is a
  little-endian load or store and \<open>htons\<close>/\<open>htonl\<close> swap it to network order.
\<close>

section \<open>Loads, stores and byte swaps\<close>

type_synonym pmem = "nat \<Rightarrow> u8"

definition ld16 :: "pmem \<Rightarrow> nat \<Rightarrow> u16" where
  "ld16 m a = ucast (m a) OR push_bit 8 (ucast (m (a + 1)))"

definition ld32 :: "pmem \<Rightarrow> nat \<Rightarrow> u32" where
  "ld32 m a = ucast (m a) OR push_bit 8 (ucast (m (a + 1))) OR push_bit 16 (ucast (m (a + 2)))
     OR push_bit 24 (ucast (m (a + 3)))"

definition st16 :: "nat \<Rightarrow> u16 \<Rightarrow> pmem \<Rightarrow> pmem" where
  "st16 a v m = m(a := ucast v, a + 1 := ucast (drop_bit 8 v))"

definition st32 :: "nat \<Rightarrow> u32 \<Rightarrow> pmem \<Rightarrow> pmem" where
  "st32 a v m = m(a := ucast v, a + 1 := ucast (drop_bit 8 v), a + 2 := ucast (drop_bit 16 v),
     a + 3 := ucast (drop_bit 24 v))"

definition htons :: "u16 \<Rightarrow> u16" where
  "htons v = push_bit 8 v OR drop_bit 8 v"

abbreviation ntohs :: "u16 \<Rightarrow> u16" where "ntohs \<equiv> htons"

definition htonl :: "u32 \<Rightarrow> u32" where
  "htonl v = drop_bit 24 (v AND 0xFF000000) OR drop_bit 8 (v AND 0x00FF0000) OR
     push_bit 8 (v AND 0x0000FF00) OR push_bit 24 (v AND 0x000000FF)"

abbreviation ntohl :: "u32 \<Rightarrow> u32" where "ntohl \<equiv> htonl"

definition get_bytes :: "nat \<Rightarrow> nat \<Rightarrow> pmem \<Rightarrow> u8 list" where
  "get_bytes a n m = map m [a ..< a + n]"

definition set_bytes :: "nat \<Rightarrow> u8 list \<Rightarrow> pmem \<Rightarrow> pmem" where
  "set_bytes a bs m = (\<lambda>x. if a \<le> x \<and> x < a + length bs then bs ! (x - a) else m x)"

section \<open>The Internet checksum\<close>

text \<open>The summing loop of \<open>net_checksum\<close>: 16-bit little-endian loads, then an odd last byte.
  \<open>len\<close> is a C \<open>int\<close>; a negative length sums nothing.\<close>

function sum16 :: "pmem \<Rightarrow> nat \<Rightarrow> nat \<Rightarrow> u32 \<Rightarrow> u32" where
  "sum16 m a len acc =
     (if len > 1 then sum16 m (a + 2) (len - 2) (acc + ucast (ld16 m a))
      else if len > 0 then acc + ucast (m a)
      else acc)"
  by pat_completeness auto
termination by (relation "measure (\<lambda>(m, a, len, acc). len)") auto

declare sum16.simps [simp del]

lemma unat_low16: "unat (acc AND 0xFFFF :: u32) = unat acc mod 65536"
proof -
  have "unat (acc AND 0xFFFF) = unat acc AND mask 16" by (simp add: unsigned_and_eq mask_eq_exp_minus_1)
  then show ?thesis by (simp only: flip: take_bit_eq_mask) (simp add: take_bit_eq_mod)
qed

lemma fold16_step:
  fixes acc :: u32
  shows "unat ((acc AND 0xFFFF) + drop_bit 16 acc) = unat acc mod 65536 + unat acc div 65536"
    and "drop_bit 16 acc = 0 \<longleftrightarrow> unat acc < 65536"
proof -
  have d: "unat (drop_bit 16 acc) = unat acc div 65536"
    unfolding unat_drop_bit_eq by (simp add: drop_bit_eq_div)
  have b: "unat acc div 65536 < 65536" using unsigned_less [of acc, where ?'a = nat] by simp
  have "unat acc mod 65536 < 65536" by simp
  then show "unat ((acc AND 0xFFFF) + drop_bit 16 acc) = unat acc mod 65536 + unat acc div 65536"
    using unat_low16 [of acc] d b by (simp add: unat_word_ariths)
  have "drop_bit 16 acc = 0 \<longleftrightarrow> unat (drop_bit 16 acc) = 0" by (simp add: unat_eq_zero)
  then show "drop_bit 16 acc = 0 \<longleftrightarrow> unat acc < 65536" unfolding d by (simp add: div_eq_0_iff)
qed

lemma fold16_decreases:
  assumes "drop_bit 16 acc \<noteq> (0 :: u32)"
  shows "unat ((acc AND 0xFFFF) + drop_bit 16 acc) < unat acc"
proof -
  have "0 < unat acc div 65536" using assms fold16_step(2) [of acc] by simp
  moreover have "unat acc = 65536 * (unat acc div 65536) + unat acc mod 65536" by simp
  ultimately show ?thesis unfolding fold16_step(1) by linarith
qed

text \<open>The folding loop: it ends because every round makes the sum smaller.\<close>

function fold16 :: "u32 \<Rightarrow> u32" where
  "fold16 acc = (if drop_bit 16 acc \<noteq> 0 then fold16 ((acc AND 0xFFFF) + drop_bit 16 acc) else acc)"
  by pat_completeness auto
termination by (relation "measure unat") (simp_all add: fold16_decreases)

declare fold16.simps [simp del]

definition net_checksum :: "pmem \<Rightarrow> nat \<Rightarrow> int \<Rightarrow> u16" where
  "net_checksum m a len = ucast (NOT (fold16 (sum16 m a (nat len) 0)))"

section \<open>Round trips\<close>

lemma ld16_st16 [wire]: "ld16 (st16 a v m) a = v"
  unfolding ld16_def st16_def by (rule bit_word_eqI) (auto simp: bit_simps)

lemma ld16_cong: "m a = m' a' \<Longrightarrow> m (a + 1) = m' (a' + 1) \<Longrightarrow> ld16 m a = ld16 m' a'"
  by (simp add: ld16_def)

lemma ld16_st16_other [wire]: "b + 1 < a \<or> a + 1 < b \<Longrightarrow> ld16 (st16 a v m) b = ld16 m b"
  by (rule ld16_cong) (auto simp: st16_def)

lemma ld32_st32 [wire]: "ld32 (st32 a v m) a = v"
proof (rule bit_word_eqI)
  fix n assume n: "n < LENGTH(32)"
  consider "n < 8" | "8 \<le> n" "n < 16" | "16 \<le> n" "n < 24" | "24 \<le> n" by linarith
  then show "bit (ld32 (st32 a v m) a) n = bit v n"
    by cases (use n in \<open>auto simp: ld32_def st32_def bit_simps\<close>)
qed

lemma htons_htons [wire]: "htons (htons v) = v"
  unfolding htons_def by (rule bit_word_eqI) (auto simp: bit_simps)

lemma htonl_htonl [wire]: "htonl (htonl v) = v"
proof (rule bit_word_eqI)
  have c: "(0xFF000000 :: u32) = push_bit 24 (mask 8)" "(0x00FF0000 :: u32) = push_bit 16 (mask 8)"
    "(0x0000FF00 :: u32) = push_bit 8 (mask 8)" "(0x000000FF :: u32) = mask 8"
    by (simp_all add: mask_eq_exp_minus_1 push_bit_eq_mult)
  fix n assume n: "n < LENGTH(32)"
  consider "n < 8" | "8 \<le> n" "n < 16" | "16 \<le> n" "n < 24" | "24 \<le> n" by linarith
  then show "bit (htonl (htonl v)) n = bit v n"
    unfolding htonl_def c by cases (use n in \<open>auto simp: bit_simps\<close>)
qed

lemma ntohs_be: "ntohs (ld16 m a) = push_bit 8 (ucast (m a)) OR ucast (m (a + 1))"
  unfolding htons_def ld16_def by (rule bit_word_eqI) (auto simp: bit_simps dest: bit_imp_le_length)

lemma st16_same: "b \<noteq> a \<Longrightarrow> b \<noteq> a + 1 \<Longrightarrow> st16 a v m b = m b"
  by (simp add: st16_def)

lemma st32_same: "b < a \<or> a + 3 < b \<Longrightarrow> st32 a v m b = m b"
  by (auto simp: st32_def)

lemma ld32_st32_other: "b + 3 < a \<or> a + 3 < b \<Longrightarrow> ld32 (st32 a v m) b = ld32 m b"
  by (auto simp: ld32_def st32_same)

section \<open>The checksum as a sum modulo 65535\<close>

function nsum :: "pmem \<Rightarrow> nat \<Rightarrow> nat \<Rightarrow> nat" where
  "nsum m a len =
     (if len > 1 then unat (ld16 m a) + nsum m (a + 2) (len - 2)
      else if len > 0 then unat (m a)
      else 0)"
  by pat_completeness auto
termination by (relation "measure (\<lambda>(m, a, len). len)") auto

declare nsum.simps [simp del]

lemma unat_byte_less: "unat (x :: u8) < 256" and unat_u16_less: "unat (y :: u16) < 65536"
  using unsigned_less [of x, where ?'a = nat] unsigned_less [of y, where ?'a = nat] by simp_all

lemma nsum_bound: "nsum m a len \<le> len * 65535"
proof (induction m a len rule: nsum.induct)
  case (1 m a len)
  show ?case
  proof (cases "len > 1")
    case True
    then have "nsum m a len = unat (ld16 m a) + nsum m (a + 2) (len - 2)" by (subst nsum.simps) simp
    moreover have "(len - 2) * 65535 + 65535 \<le> len * 65535" using True by (simp add: diff_mult_distrib)
    ultimately show ?thesis using 1 [OF True] unat_u16_less [of "ld16 m a"] by linarith
  next
    case False
    then show ?thesis using unat_byte_less [of "m a"] by (subst nsum.simps) (cases len; simp)
  qed
qed

lemma sum16_nsum: "unat acc + nsum m a len < 2 ^ 32 \<Longrightarrow> unat (sum16 m a len acc) = unat acc + nsum m a len"
proof (induction m a len acc rule: sum16.induct)
  case (1 m a len acc)
  have u: "unat (ucast (ld16 m a) :: u32) = unat (ld16 m a)" "unat (ucast (m a) :: u32) = unat (m a)"
    by (simp_all add: unat_ucast_up)
  show ?case
  proof (cases "len > 1")
    case True
    have n: "nsum m a len = unat (ld16 m a) + nsum m (a + 2) (len - 2)"
      using True by (subst nsum.simps) simp
    have e: "unat (acc + ucast (ld16 m a)) = unat acc + unat (ld16 m a)"
      using "1.prems" n u by (simp add: unat_word_ariths)
    have s: "sum16 m a len acc = sum16 m (a + 2) (len - 2) (acc + ucast (ld16 m a))"
      using True by (subst sum16.simps) simp
    from "1.IH" [OF True] "1.prems" show ?thesis unfolding s n e by simp
  next
    case False
    then show ?thesis using "1.prems" u
      by (subst sum16.simps, subst nsum.simps) (auto simp: unat_word_ariths nsum.simps [of m a len])
  qed
qed

lemma nsum_st16:
  assumes "2 * j + 1 < len"
  shows "nsum (st16 (a + 2 * j) v m) a len + unat (ld16 m (a + 2 * j)) = nsum m a len + unat v"
  using assms
proof (induction m a len arbitrary: j rule: nsum.induct)
  case (1 m a len)
  then have len: "len > 1" by simp
  have n: "nsum m' a len = unat (ld16 m' a) + nsum m' (a + 2) (len - 2)" for m'
    using len by (subst nsum.simps) simp
  show ?case
  proof (cases j)
    case 0
    have "nsum (st16 a v m) b k = nsum m b k" if "a + 2 \<le> b" for b k
      using that
    proof (induction m b k rule: nsum.induct)
      case (1 m b k)
      then show ?case
        by (subst nsum.simps, subst (2) nsum.simps) (auto simp: ld16_st16_other st16_same)
    qed
    with 0 show ?thesis by (simp add: n ld16_st16)
  next
    case (Suc i)
    have "2 * i + 1 < len - 2" using "1.prems" Suc by simp
    from "1.IH" [OF len this] Suc show ?thesis by (simp add: n ld16_st16_other)
  qed
qed

text \<open>Folding reduces modulo 65535, with 65535 for the non-zero multiples.\<close>

definition ones_sum :: "nat \<Rightarrow> nat" where
  "ones_sum N = (if N = 0 then 0 else if N mod 65535 = 0 then 65535 else N mod 65535)"

lemma ones_sum_fold: "ones_sum (N mod 65536 + N div 65536) = ones_sum N"
proof -
  have "N = 65535 * (N div 65536) + (N mod 65536 + N div 65536)"
    using mult_div_mod_eq [of 65536 N] by linarith
  then have "N mod 65535 = (N mod 65536 + N div 65536) mod 65535" by (metis mod_mult_self4)
  moreover have "N = 0 \<longleftrightarrow> N mod 65536 + N div 65536 = 0" by (metis add_is_0 div_0 mod_0 mult_div_mod_eq mult_zero_right)
  ultimately show ?thesis by (simp add: ones_sum_def)
qed

lemma ones_sum_small: "N < 65536 \<Longrightarrow> ones_sum N = N"
  by (cases "N = 65535") (auto simp: ones_sum_def)

lemma fold16_ones_sum: "unat (fold16 acc) = ones_sum (unat acc)"
proof (induction acc rule: fold16.induct)
  case (1 acc)
  show ?case
  proof (cases "drop_bit 16 acc = 0")
    case True
    then show ?thesis using ones_sum_small fold16_step(2) [of acc] by (simp add: fold16.simps)
  next
    case False
    then have "fold16 acc = fold16 ((acc AND 0xFFFF) + drop_bit 16 acc)" by (subst fold16.simps) simp
    with 1 [OF False] show ?thesis unfolding fold16_step(1) ones_sum_fold by simp
  qed
qed

lemma ones_sum_le: "ones_sum N \<le> 65535"
  using mod_less_divisor [of 65535 N] by (auto simp: ones_sum_def)

lemma unat_not_fold16: "unat (ucast (NOT (fold16 acc)) :: u16) = 65535 - ones_sum (unat acc)"
proof -
  let ?x = "fold16 acc"
  have x: "ucast (NOT ?x) = NOT (ucast ?x :: u16)"
    by (rule bit_word_eqI) (auto simp: bit_simps)
  have "unat (ucast ?x :: u16) = ones_sum (unat acc)"
    using fold16_ones_sum [of acc] ones_sum_le [of "unat acc"] by (simp add: unsigned_ucast_eq take_bit_eq_mod)
  moreover have "unat (NOT y) = 65535 - unat y" for y :: u16
  proof -
    have "NOT y = - 1 - y" by (simp add: not_eq_complement)
    also have "- 1 = (0xFFFF :: u16)" by simp
    finally have "NOT y = 0xFFFF - y" .
    then show ?thesis using unat_u16_less [of y] by (simp add: unat_sub word_le_nat_alt)
  qed
  ultimately show ?thesis by (simp add: x)
qed

lemma net_checksum_unat:
  assumes "len \<le> 65535"
  shows "unat (net_checksum m a (int len)) = 65535 - ones_sum (nsum m a len)"
proof -
  have "nsum m a len \<le> len * 65535" by (rule nsum_bound)
  also have "\<dots> \<le> 65535 * 65535" using assms by (intro mult_le_mono) auto
  finally have "unat (sum16 m a len 0) = nsum m a len" using sum16_nsum [of 0 m a len] by simp
  then show ?thesis by (simp add: net_checksum_def unat_not_fold16)
qed

lemma ones_sum_complement: "65535 - ones_sum (N + (65535 - ones_sum N)) = 0"
proof (cases "N = 0 \<or> N mod 65535 = 0")
  case True
  then show ?thesis by (auto simp: ones_sum_def)
next
  case False
  have "(N + (65535 - N mod 65535)) mod 65535 = 0"
  proof -
    have *: "65535 * q + r + (65535 - r) = (q + 1) * 65535" if "r < 65535" for q r :: nat
      using that by simp
    have "N + (65535 - N mod 65535) = (N div 65535 + 1) * 65535"
      using * [of "N mod 65535" "N div 65535"] unfolding mult_div_mod_eq by simp
    then show ?thesis by simp
  qed
  with False show ?thesis by (simp add: ones_sum_def)
qed

lemma checksum_patch:
  assumes "2 * j + 1 < len" "len \<le> 65535"
  shows "net_checksum (st16 (a + 2 * j) (net_checksum (st16 (a + 2 * j) 0 m) a (int len))
           (st16 (a + 2 * j) 0 m)) a (int len) = 0"
proof -
  let ?m = "st16 (a + 2 * j) 0 m"
  let ?c = "net_checksum ?m a (int len)" and ?N = "nsum ?m a len"
  have c: "unat ?c = 65535 - ones_sum ?N" by (rule net_checksum_unat [OF assms(2)])
  have n: "nsum (st16 (a + 2 * j) ?c ?m) a len = ?N + (65535 - ones_sum ?N)"
    using nsum_st16 [OF assms(1), of a ?c ?m] c by (simp add: ld16_st16)
  have "unat (net_checksum (st16 (a + 2 * j) ?c ?m) a (int len)) = 0"
    unfolding net_checksum_unat [OF assms(2)] n by (rule ones_sum_complement)
  then show ?thesis by (simp add: unat_eq_zero)
qed

section \<open>Properties\<close>

text \<open>A message whose checksum field was zeroed and then filled with its checksum verifies:
  the checksum over it is 0. The field may be at any even position; messages are at most 65535
  bytes long.\<close>

theorem checksum_round_trip:
  assumes "2 * j + 1 < len" "len \<le> 65535" "k = a + 2 * j"
  shows "net_checksum (st16 k (net_checksum (st16 k 0 m) a (int len)) (st16 k 0 m)) a (int len) = 0"
  using checksum_patch [OF assms(1,2)] assms(3) by simp

theorem checksum_round_trip_witness:
  "net_checksum (st16 10 (net_checksum (st16 10 0 (\<lambda>_. 7)) 0 (int 20)) (st16 10 0 (\<lambda>_. 7))) 0 (int 20) = 0"
  by (rule checksum_round_trip [of 5 20]) simp_all

text \<open>Byte order: reading a field in network order gives back what was written in network
  order, and a field is stored most significant byte first.\<close>

theorem wire_fields_round_trip:
  "ntohs (ld16 (st16 a (htons v) m) a) = v \<and> ntohl (ld32 (st32 a (htonl w) m) a) = w \<and>
   st16 a (htons v) m a = ucast (drop_bit 8 v) \<and> st16 a (htons v) m (a + 1) = ucast v"
proof -
  have "ucast (htons v) = (ucast (drop_bit 8 v) :: u8)"
    unfolding htons_def by (rule bit_word_eqI) (auto simp: bit_simps)
  moreover have "ucast (drop_bit 8 (htons v)) = (ucast v :: u8)"
    unfolding htons_def by (rule bit_word_eqI) (auto simp: bit_simps)
  ultimately have "st16 a (htons v) m a = ucast (drop_bit 8 v)" "st16 a (htons v) m (a + 1) = ucast v"
    by (simp_all add: st16_def)
  then show ?thesis by (simp add: wire)
qed

end
