(* ===== verification/Auth.thy ===== *)
theory Auth
  imports Prelude
begin

text \<open>
  The table of authenticated source addresses (\<open>src/auth.c\<close>), which the IPv4 policy filter
  consults. \<open>pit_ticks\<close> is an argument \<open>now\<close>; it is a 32-bit counter and idle times are
  differences modulo \<open>2 ^ 32\<close>, as in the code.
\<close>

section \<open>State and operations\<close>

definition MAX_AUTH_IPS :: nat where "MAX_AUTH_IPS = 50"
definition AUTH_TIMEOUT_TICKS :: u32 where "AUTH_TIMEOUT_TICKS = 5 * 60 * 100"

record auth_entry =
  ip :: u32
  last_seen :: u32
  valid :: bool

type_synonym sessions = "auth_entry list"

definition auth_init :: "sessions \<Rightarrow> sessions" where
  "auth_init ss = map (\<lambda>e. e\<lparr>valid := False\<rparr>) ss"

definition auth_find :: "sessions \<Rightarrow> u32 \<Rightarrow> nat option" where
  "auth_find ss a = first_idx (\<lambda>e. valid e \<and> ip e = a) ss"

definition auth_slot :: "u32 \<Rightarrow> sessions \<Rightarrow> nat option" where
  "auth_slot now ss =
     (case first_idx (\<lambda>e. \<not> valid e) ss of
        Some i \<Rightarrow> Some i
      | None \<Rightarrow> first_idx (\<lambda>e. now - last_seen e > AUTH_TIMEOUT_TICKS) ss)"

definition auth_set_authenticated :: "u32 \<Rightarrow> u32 \<Rightarrow> sessions \<Rightarrow> sessions" where
  "auth_set_authenticated now a ss =
     (case auth_find ss a of
        Some i \<Rightarrow> ss[i := (ss ! i)\<lparr>last_seen := now\<rparr>]
      | None \<Rightarrow>
          (case auth_slot now ss of
             None \<Rightarrow> ss
           | Some slot \<Rightarrow> ss[slot := (ss ! slot)\<lparr>ip := a, last_seen := now, valid := True\<rparr>]))"

definition auth_is_authenticated :: "u32 \<Rightarrow> u32 \<Rightarrow> sessions \<Rightarrow> bool \<times> sessions" where
  "auth_is_authenticated now a ss =
     (case auth_find ss a of
        Some i \<Rightarrow>
          if now - last_seen (ss ! i) > AUTH_TIMEOUT_TICKS
          then (False, ss[i := (ss ! i)\<lparr>valid := False\<rparr>])
          else (True, ss[i := (ss ! i)\<lparr>last_seen := now\<rparr>])
      | None \<Rightarrow> (False, ss))"

definition auth_logout :: "u32 \<Rightarrow> sessions \<Rightarrow> sessions" where
  "auth_logout a ss =
     (case auth_find ss a of
        Some i \<Rightarrow> ss[i := (ss ! i)\<lparr>valid := False\<rparr>]
      | None \<Rightarrow> ss)"

text \<open>The count and the lines \<open>auth_stat\<close> prints: address and idle ticks of each session.\<close>

definition auth_stat :: "u32 \<Rightarrow> sessions \<Rightarrow> (u32 \<times> u32) list" where
  "auth_stat now ss = map (\<lambda>e. (ip e, now - last_seen e)) (filter valid ss)"

section \<open>The table as a map\<close>

interpretation auth: slot_table valid ip auth_find
  using scan_lookup_slot_table [of valid ip]
  by (simp add: scan_lookup_def [abs_def] auth_find_def [abs_def])

definition auth_ok :: "sessions \<Rightarrow> bool" where
  "auth_ok ss \<longleftrightarrow> length ss = MAX_AUTH_IPS \<and> slots_unique valid ip ss"

definition auth_last :: "sessions \<Rightarrow> u32 \<rightharpoonup> u32" where
  "auth_last ss a = map_option (\<lambda>i. last_seen (ss ! i)) (auth_find ss a)"

lemma auth_set_own:
  assumes "auth_find ss a = None \<or> auth_find ss a = Some i" "auth_find ss a = Some j"
  shows "j = i"
  using assms by auto

lemma auth_slot_length: "auth_slot now ss = Some i \<Longrightarrow> i < length ss"
  by (auto simp: auth_slot_def split: option.splits dest: first_idx_length)

lemma auth_set_ok:
  assumes "auth_ok ss" shows "auth_ok (auth_set_authenticated now a ss)"
proof (cases "auth_find ss a")
  case None
  then show ?thesis
    using assms auth.unique_store [of ss "(ss ! i)\<lparr>ip := a, last_seen := now, valid := True\<rparr>" i for i]
    by (auto simp: auth_set_authenticated_def auth_ok_def split: option.splits)
next
  case (Some i)
  from auth.lookup_Some [OF Some] have "ip (ss ! i) = a" by simp
  with Some assms auth.unique_store [of ss "(ss ! i)\<lparr>last_seen := now\<rparr>" i]
  show ?thesis by (auto simp: auth_set_authenticated_def auth_ok_def)
qed

lemma auth_is_ok:
  assumes "auth_ok ss" shows "auth_ok (snd (auth_is_authenticated now a ss))"
proof (cases "auth_find ss a")
  case None
  with assms show ?thesis by (simp add: auth_is_authenticated_def)
next
  case (Some i)
  from auth.lookup_Some [OF Some] have "ip (ss ! i) = a" by simp
  with Some assms auth.unique_store [of ss "(ss ! i)\<lparr>last_seen := now\<rparr>" i]
    slots_unique_clear [of valid ip ss "(ss ! i)\<lparr>valid := False\<rparr>" i]
  show ?thesis by (auto simp: auth_is_authenticated_def auth_ok_def)
qed

lemma auth_logout_ok:
  assumes "auth_ok ss" shows "auth_ok (auth_logout a ss)"
  using assms slots_unique_clear [of valid ip ss "(ss ! i)\<lparr>valid := False\<rparr>" i for i]
  by (auto simp: auth_logout_def auth_ok_def split: option.splits)

lemma auth_init_ok: "length ss = MAX_AUTH_IPS \<Longrightarrow> auth_ok (auth_init ss)"
  by (auto simp: auth_ok_def auth_init_def intro!: slots_unique_all_unused)

section \<open>Runs\<close>

text \<open>\<open>auth_run ss L\<close>: the table after a run, with the addresses that logged in and have not
  logged out since.\<close>

inductive auth_run :: "sessions \<Rightarrow> u32 set \<Rightarrow> bool" where
  init: "length ss = MAX_AUTH_IPS \<Longrightarrow> auth_run (auth_init ss) {}"
| login: "auth_run ss L \<Longrightarrow> auth_run (auth_set_authenticated now a ss) (insert a L)"
| check: "auth_run ss L \<Longrightarrow> auth_run (snd (auth_is_authenticated now a ss)) L"
| logout: "auth_run ss L \<Longrightarrow> auth_run (auth_logout a ss) (L - {a})"

definition auth_ips :: "sessions \<Rightarrow> u32 set" where
  "auth_ips ss = {a. \<exists>i. auth_find ss a = Some i}"

lemma auth_ips_valid:
  "a \<in> auth_ips ss \<longleftrightarrow> (\<exists>e \<in> set ss. valid e \<and> ip e = a)"
proof
  assume "a \<in> auth_ips ss"
  then obtain i where "auth_find ss a = Some i" by (auto simp: auth_ips_def)
  from auth.lookup_Some [OF this] show "\<exists>e \<in> set ss. valid e \<and> ip e = a" by (auto intro!: bexI [of _ "ss ! i"])
next
  assume "\<exists>e \<in> set ss. valid e \<and> ip e = a"
  then show "a \<in> auth_ips ss"
    using auth.lookup_None [of ss a] by (cases "auth_find ss a") (auto simp: auth_ips_def)
qed

lemma auth_ips_update:
  assumes "a \<in> auth_ips (ss[i := e])"
  shows "a \<in> auth_ips ss \<or> (valid e \<and> ip e = a)"
  using assms set_update_subset_insert [of ss i e] unfolding auth_ips_valid by blast

lemma auth_find_ips: "auth_find ss a = Some i \<Longrightarrow> valid (ss ! i) \<and> ip (ss ! i) = a \<and> a \<in> auth_ips ss"
  using auth.lookup_Some [of ss a i] by (auto simp: auth_ips_def)

lemma auth_run_inv: "auth_run ss L \<Longrightarrow> auth_ok ss \<and> auth_ips ss \<subseteq> L"
proof (induction rule: auth_run.induct)
  case (init ss)
  then show ?case using auth_init_ok [OF init] by (auto simp: auth_ips_valid auth_init_def)
next
  case (login ss L now a)
  have "b \<in> insert a L" if "b \<in> auth_ips (auth_set_authenticated now a ss)" for b
    using that login.IH auth_find_ips
    by (auto simp: auth_set_authenticated_def split: option.splits dest!: auth_ips_update)
  then show ?case using auth_set_ok login.IH by blast
next
  case (check ss L now a)
  have "b \<in> L" if "b \<in> auth_ips (snd (auth_is_authenticated now a ss))" for b
    using that check.IH auth_find_ips
    by (auto simp: auth_is_authenticated_def split: option.splits if_splits dest!: auth_ips_update)
  then show ?case using auth_is_ok check.IH by blast
next
  case (logout ss L a)
  note ok = auth_logout_ok [of ss a]
  have "b \<in> L - {a}" if b: "b \<in> auth_ips (auth_logout a ss)" for b
  proof (cases "auth_find ss a")
    case None
    with b logout.IH show ?thesis by (auto simp: auth_logout_def auth_ips_def)
  next
    case (Some i)
    have u: "slots_unique valid ip ss" using logout.IH by (simp add: auth_ok_def)
    have "auth_find (auth_logout a ss) a = None"
      using auth.lookup_clear_same [OF u _ Some, of "(ss ! i)\<lparr>valid := False\<rparr>"] Some
      by (simp add: auth_logout_def)
    with b have "b \<noteq> a" by (auto simp: auth_ips_def)
    moreover have "b \<in> auth_ips ss"
      using b Some by (auto simp: auth_logout_def dest: auth_ips_update)
    ultimately show ?thesis using logout.IH by auto
  qed
  then show ?case using ok logout.IH by blast
qed

section \<open>Properties\<close>

definition auth_blank :: sessions where
  "auth_blank = replicate MAX_AUTH_IPS \<lparr>ip = 0, last_seen = 0, valid = False\<rparr>"

lemma auth_blank_run: "auth_run (auth_init auth_blank) {}"
  by (rule auth_run.init) (simp add: auth_blank_def)

text \<open>C13: No address is treated as authenticated unless it logged in and has not logged out
  since, whatever logins, checks and logouts happened before; the table keeps at most one
  session per address.\<close>

theorem auth_only_after_login:
  assumes "auth_run ss L" "fst (auth_is_authenticated now a ss)"
  shows "a \<in> L \<and> auth_ok ss"
proof -
  from assms(2) obtain i where "auth_find ss a = Some i"
    by (auto simp: auth_is_authenticated_def split: option.splits)
  with auth_run_inv [OF assms(1)] show ?thesis by (auto simp: auth_ips_def)
qed

theorem auth_only_after_login_witness:
  "10 \<in> insert (10::u32) {} \<and> auth_ok (auth_set_authenticated 0 10 (auth_init auth_blank))"
proof (rule auth_only_after_login [of _ _ 5])
  show "auth_run (auth_set_authenticated 0 10 (auth_init auth_blank)) (insert 10 {})"
    by (intro auth_run.login auth_blank_run)
  show "fst (auth_is_authenticated 5 10 (auth_set_authenticated 0 10 (auth_init auth_blank)))"
    by code_simp
qed

text \<open>The session window. When the table has a free or expired slot, or already a session
  of the address, then after a login at tick \<open>now\<close> a check at tick \<open>later\<close> succeeds exactly when
  at most \<open>AUTH_TIMEOUT_TICKS\<close> ticks (modulo the counter's width) have passed.\<close>

theorem auth_session_window:
  assumes ok: "auth_ok ss" and room: "auth_find ss a \<noteq> None \<or> auth_slot now ss \<noteq> None"
  shows "fst (auth_is_authenticated later a (auth_set_authenticated now a ss))
     \<longleftrightarrow> later - now \<le> AUTH_TIMEOUT_TICKS"
proof -
  have u: "slots_unique valid ip ss" using ok by (simp add: auth_ok_def)
  obtain i e where set: "auth_set_authenticated now a ss = ss[i := e]" and i: "i < length ss"
    and e: "valid e" "ip e = a" "last_seen e = now" and own: "\<And>j. auth_find ss a = Some j \<Longrightarrow> j = i"
  proof (cases "auth_find ss a")
    case None
    with room obtain i where "auth_slot now ss = Some i" by auto
    with None auth_slot_length [OF this] show ?thesis
      by (intro that [of i "(ss ! i)\<lparr>ip := a, last_seen := now, valid := True\<rparr>"])
         (auto simp: auth_set_authenticated_def)
  next
    case (Some i)
    from auth.lookup_Some [OF Some] Some show ?thesis
      by (intro that [of i "(ss ! i)\<lparr>last_seen := now\<rparr>"]) (auto simp: auth_set_authenticated_def)
  qed
  have "auth_find (ss[i := e]) a = Some i"
    using auth.lookup_store_same [OF u i e(1)] own e(2) by simp
  with i e show ?thesis
    by (auto simp: set auth_is_authenticated_def not_less)
qed

theorem auth_session_window_witness:
  "fst (auth_is_authenticated 30000 7 (auth_set_authenticated 0 7 (auth_init auth_blank))) \<and>
   \<not> fst (auth_is_authenticated 30001 7 (auth_set_authenticated 0 7 (auth_init auth_blank)))"
proof -
  have ok: "auth_ok (auth_init auth_blank)" by (rule auth_init_ok) (simp add: auth_blank_def)
  have "auth_slot 0 (auth_init auth_blank) \<noteq> None" by code_simp
  with auth_session_window [OF ok, of 7 0 30000] auth_session_window [OF ok, of 7 0 30001]
  show ?thesis by (simp add: AUTH_TIMEOUT_TICKS_def)
qed

end
