(* ===== verification/Netstate.thy ===== *)
theory Netstate
  imports Wire Auth
begin

text \<open>
  The state the network stack shares and the packet buffers (\<open>src/pbuf.c\<close>, \<open>include/pbuf.h\<close>).

  A packet buffer is passed from layer to layer by pointer and exactly one layer must free it.
  The model passes its contents by value together with its identity \<open>pid\<close>; \<open>live\<close> holds the
  identities that are allocated, and \<open>bad_free\<close> records a free of a buffer that is not. The
  buffer's bytes are a function of the position relative to \<open>buffer_s\<close>; positions from
  \<open>PBUF_SIZE\<close> on are the memory after it, so an access out of bounds shows as an access there.

  \<open>kmalloc\<close> and the network card are the environment: \<open>kmalloc_ok n\<close> tells whether the \<open>n\<close>-th
  buffer allocation succeeds and \<open>junk n\<close> what its bytes are before anything is written, \<open>tx_ok n\<close> what the \<open>n\<close>-th call of \<open>e1000_tx_send_raw\<close> returns, and
  \<open>tx_log\<close> records the frames handed to the card, last first, with the device used.
\<close>

section \<open>Packet buffers\<close>

definition PBUF_SIZE :: nat where "PBUF_SIZE = 2048"
definition PBUF_HEADROOM :: nat where "PBUF_HEADROOM = 64"

record pbuf =
  pid :: nat
  nexts :: "nat list"
  payload :: nat
  plen :: u32
  tot_len :: u32
  buf :: pmem

record arp_entry =
  ae_ip :: u32
  ae_mac :: "u8 list"
  ae_last_tick :: u32
  ae_valid :: bool

record net =
  live :: "nat set"
  next_id :: nat
  bad_free :: bool
  allocs :: nat
  kmalloc_ok :: "nat \<Rightarrow> bool"
  junk :: "nat \<Rightarrow> pmem"
  tx_ok :: "nat \<Rightarrow> bool"
  tx_log :: "(int \<times> u8 list) list"
  pit_ticks :: u32
  e1000_mac :: "u8 list list"
  e1000_default_device :: int
  e1000_active_rx_device :: int
  eth_rx_count :: u32
  eth_tx_count :: u32
  eth_tx_attempt_count :: u32
  eth_tx_fail_count :: u32
  arp_cache :: "arp_entry list"
  ajos_ip :: "u32 list"
  ip4_rx_count :: u32
  ip4_tx_count :: u32
  ip4_policy_drop_count :: u32
  ip4_netmask :: u32
  ip4_gateway :: u32
  ip4_if_nm :: "u32 list"
  ip4_if_gw :: "u32 list"
  net_sessions :: sessions
  dhcp_offered_ip :: u32
  icmp_last_echo_reply_src :: u32
  icmp_last_echo_reply_id :: u16
  icmp_last_echo_reply_seq :: u16
  icmp_last_echo_reply_ttl :: u8
  icmp_echo_reply_count :: u32
  icmp_last_time_exceeded_src :: u32
  icmp_last_time_exceeded_tick :: u32
  icmp_last_time_exceeded_id :: u16
  icmp_last_time_exceeded_seq :: u16

definition pbuf_alloc :: "'z net_scheme \<Rightarrow> pbuf option \<times> 'z net_scheme" where
  "pbuf_alloc s =
     (let s1 = s\<lparr>allocs := Suc (allocs s)\<rparr>
      in if kmalloc_ok s (allocs s)
         then (Some \<lparr>pid = next_id s, nexts = [], payload = PBUF_HEADROOM, plen = 0, tot_len = 0,
                     buf = junk s (allocs s)\<rparr>,
               s1\<lparr>live := insert (next_id s) (live s), next_id := Suc (next_id s)\<rparr>)
         else (None, s1))"

definition kfree_pbuf :: "nat \<Rightarrow> 'z net_scheme \<Rightarrow> 'z net_scheme" where
  "kfree_pbuf i s = (if i \<in> live s then s\<lparr>live := live s - {i}\<rparr> else s\<lparr>bad_free := True\<rparr>)"

definition pbuf_free :: "pbuf \<Rightarrow> 'z net_scheme \<Rightarrow> 'z net_scheme" where
  "pbuf_free p s = fold kfree_pbuf (pid p # nexts p) s"

text \<open>\<open>pbuf_header\<close> moves the payload pointer; \<open>None\<close> is the return value -1.\<close>

definition pbuf_header :: "pbuf \<Rightarrow> int \<Rightarrow> pbuf option" where
  "pbuf_header p off =
     (let n = int (payload p) + off
      in if n < 0 \<or> n \<ge> int PBUF_SIZE then None else Some (p\<lparr>payload := nat n\<rparr>))"

text \<open>The callers that ignore the return value of \<open>pbuf_header\<close> go on with the old pointer.\<close>

definition pbuf_header_or_same :: "pbuf \<Rightarrow> int \<Rightarrow> pbuf" where
  "pbuf_header_or_same p off = (case pbuf_header p off of Some q \<Rightarrow> q | None \<Rightarrow> p)"

section \<open>Header fields\<close>

definition h8 :: "pbuf \<Rightarrow> nat \<Rightarrow> u8" where "h8 p k = buf p (payload p + k)"
definition h16 :: "pbuf \<Rightarrow> nat \<Rightarrow> u16" where "h16 p k = ld16 (buf p) (payload p + k)"
definition h32 :: "pbuf \<Rightarrow> nat \<Rightarrow> u32" where "h32 p k = ld32 (buf p) (payload p + k)"
definition hbytes :: "pbuf \<Rightarrow> nat \<Rightarrow> nat \<Rightarrow> u8 list" where
  "hbytes p k n = get_bytes (payload p + k) n (buf p)"

definition w8 :: "nat \<Rightarrow> u8 \<Rightarrow> pbuf \<Rightarrow> pbuf" where
  "w8 k v p = p\<lparr>buf := (buf p)(payload p + k := v)\<rparr>"
definition w16 :: "nat \<Rightarrow> u16 \<Rightarrow> pbuf \<Rightarrow> pbuf" where
  "w16 k v p = p\<lparr>buf := st16 (payload p + k) v (buf p)\<rparr>"
definition w32 :: "nat \<Rightarrow> u32 \<Rightarrow> pbuf \<Rightarrow> pbuf" where
  "w32 k v p = p\<lparr>buf := st32 (payload p + k) v (buf p)\<rparr>"
definition wbytes :: "nat \<Rightarrow> u8 list \<Rightarrow> pbuf \<Rightarrow> pbuf" where
  "wbytes k bs p = p\<lparr>buf := set_bytes (payload p + k) bs (buf p)\<rparr>"

text \<open>Writes keep everything of a buffer but its bytes.\<close>

lemma pbuf_writes [simp]:
  "pid (w8 k x p) = pid p" "nexts (w8 k x p) = nexts p" "payload (w8 k x p) = payload p" "plen (w8 k x p) = plen p"
  "pid (w16 k y p) = pid p" "nexts (w16 k y p) = nexts p" "payload (w16 k y p) = payload p" "plen (w16 k y p) = plen p"
  "pid (w32 k z p) = pid p" "nexts (w32 k z p) = nexts p" "payload (w32 k z p) = payload p" "plen (w32 k z p) = plen p"
  "pid (wbytes k bs p) = pid p" "nexts (wbytes k bs p) = nexts p" "payload (wbytes k bs p) = payload p"
  "plen (wbytes k bs p) = plen p"
  by (simp_all add: w8_def w16_def w32_def wbytes_def)

lemma pbuf_header_Some:
  assumes "pbuf_header p off = Some q"
  shows "pid q = pid p" "nexts q = nexts p" "plen q = plen p" "buf q = buf p"
    "int (payload q) = int (payload p) + off" "payload q < PBUF_SIZE"
  using assms by (auto simp: pbuf_header_def Let_def PBUF_SIZE_def split: if_splits)

lemma pbuf_header_or_same [simp]:
  "pid (pbuf_header_or_same p off) = pid p" "nexts (pbuf_header_or_same p off) = nexts p"
  "plen (pbuf_header_or_same p off) = plen p" "buf (pbuf_header_or_same p off) = buf p"
  by (auto simp: pbuf_header_or_same_def split: option.splits dest: pbuf_header_Some)

section \<open>Ownership\<close>

definition ids_ok :: "'z net_scheme \<Rightarrow> bool" where
  "ids_ok s \<longleftrightarrow> (\<forall>i \<in> live s. i < next_id s)"

definition owned :: "pbuf \<Rightarrow> 'z net_scheme \<Rightarrow> bool" where
  "owned p s \<longleftrightarrow> ids_ok s \<and> pid p \<in> live s \<and> nexts p = []"

text \<open>What a layer that takes a buffer must do with it: free it, exactly once, and leave every
  other buffer alone.\<close>

definition released :: "pbuf \<Rightarrow> 'z net_scheme \<Rightarrow> 'z net_scheme \<Rightarrow> bool" where
  "released p s s' \<longleftrightarrow> ids_ok s' \<and> live s' = live s - {pid p} \<and> bad_free s' = bad_free s \<and> next_id s \<le> next_id s'"

lemma released_cong:
  "pid p = pid q \<Longrightarrow> released p s s' \<longleftrightarrow> released q s s'"
  by (simp add: released_def)

lemma owned_cong:
  "pid p = pid q \<Longrightarrow> nexts p = nexts q \<Longrightarrow> owned p s \<longleftrightarrow> owned q s"
  by (simp add: owned_def)

text \<open>Steps that do not touch the buffers at all.\<close>

definition same_bufs :: "'z net_scheme \<Rightarrow> 'z net_scheme \<Rightarrow> bool" where
  "same_bufs s s' \<longleftrightarrow> live s' = live s \<and> bad_free s' = bad_free s \<and> next_id s \<le> next_id s'"

lemma same_bufs_refl [simp]: "same_bufs s s" by (simp add: same_bufs_def)

lemma same_bufs_trans: "same_bufs s t \<Longrightarrow> same_bufs t u \<Longrightarrow> same_bufs s u"
  by (auto simp: same_bufs_def)

lemma same_bufs_ids: "same_bufs s s' \<Longrightarrow> ids_ok s \<Longrightarrow> ids_ok s'"
  by (auto simp: same_bufs_def ids_ok_def)

lemma same_bufs_owned: "same_bufs s s' \<Longrightarrow> owned p s \<Longrightarrow> owned p s'"
  by (auto simp: owned_def same_bufs_ids) (auto simp: same_bufs_def)

lemma released_after_same: "same_bufs s t \<Longrightarrow> released p t u \<Longrightarrow> released p s u"
  by (auto simp: same_bufs_def released_def)

lemma released_then_same: "released p s t \<Longrightarrow> same_bufs t u \<Longrightarrow> released p s u"
  unfolding same_bufs_def released_def ids_ok_def by (metis less_le_trans order_trans)

lemma pbuf_free_released: "owned p s \<Longrightarrow> released p s (pbuf_free p s)"
  by (auto simp: owned_def released_def pbuf_free_def kfree_pbuf_def ids_ok_def)

lemma pbuf_alloc_None: "pbuf_alloc s = (None, s') \<Longrightarrow> same_bufs s s'"
  by (auto simp: pbuf_alloc_def Let_def same_bufs_def split: if_splits)

text \<open>A buffer allocated and released on the way leaves the caller's buffers as they were.\<close>

lemma pbuf_alloc_release:
  assumes ids: "ids_ok s" and a: "pbuf_alloc s = (Some p, t)"
  shows "owned p t" "pid q = pid p \<Longrightarrow> released q t u \<Longrightarrow> same_bufs s u"
  using assms by (auto simp: pbuf_alloc_def Let_def owned_def released_def ids_ok_def same_bufs_def
      less_Suc_eq split: if_splits)

section \<open>A machine for examples\<close>

text \<open>The machine 10.0.2.15 with one received buffer, number 0, an empty ARP cache and no
  authenticated client.\<close>

definition net_boot :: net where
  "net_boot = \<lparr>live = {0}, next_id = 1, bad_free = False, allocs = 0, kmalloc_ok = (\<lambda>_. True),
     junk = (\<lambda>_ _. 0), tx_ok = (\<lambda>_. True), tx_log = [], pit_ticks = 1000,
     e1000_mac = [[2, 0, 0, 0, 0, 1], [2, 0, 0, 0, 0, 2]], e1000_default_device = 0, e1000_active_rx_device = 0,
     eth_rx_count = 0, eth_tx_count = 0, eth_tx_attempt_count = 0, eth_tx_fail_count = 0,
     arp_cache = replicate 16 \<lparr>ae_ip = 0, ae_mac = [], ae_last_tick = 0, ae_valid = False\<rparr>,
     ajos_ip = [0x0A00020F, 0], ip4_rx_count = 0, ip4_tx_count = 0, ip4_policy_drop_count = 0,
     ip4_netmask = 0xFFFFFF00, ip4_gateway = 0x0A000202, ip4_if_nm = [0, 0], ip4_if_gw = [0, 0],
     net_sessions = auth_blank, dhcp_offered_ip = 0, icmp_last_echo_reply_src = 0,
     icmp_last_echo_reply_id = 0, icmp_last_echo_reply_seq = 0, icmp_last_echo_reply_ttl = 0,
     icmp_echo_reply_count = 0, icmp_last_time_exceeded_src = 0, icmp_last_time_exceeded_tick = 0,
     icmp_last_time_exceeded_id = 0, icmp_last_time_exceeded_seq = 0\<rparr>"

definition pbuf_with :: "u8 list \<Rightarrow> pbuf" where
  "pbuf_with bs = \<lparr>pid = 0, nexts = [], payload = PBUF_HEADROOM, plen = of_nat (length bs),
     tot_len = of_nat (length bs), buf = set_bytes PBUF_HEADROOM bs (\<lambda>_. 0)\<rparr>"

lemma net_boot_owned: "owned (pbuf_with bs) net_boot"
  by (simp add: owned_def ids_ok_def net_boot_def pbuf_with_def)

end
