(* ===== verification/Arp.thy ===== *)
theory Arp
  imports Netstate
begin

text \<open>
  Ethernet output and the address resolution protocol (\<open>src/eth.c\<close>, \<open>src/arp.c\<close>). The cache is a
  table of sixteen slots keyed by IP address; when it is full the least recently used entry is
  evicted, except that the default gateway is never evicted.
\<close>

section \<open>Ethernet output\<close>

text \<open>The network card: the frame is recorded with the device, and \<open>tx_ok\<close> is the answer.\<close>

definition e1000_tx_send_raw :: "u8 list \<Rightarrow> 'z net_scheme \<Rightarrow> int \<times> 'z net_scheme" where
  "e1000_tx_send_raw frame s =
     ((if tx_ok s (length (tx_log s)) then 1 else 0),
      s\<lparr>tx_log := (e1000_default_device s, frame) # tx_log s\<rparr>)"

definition eth_txd :: "'z net_scheme \<Rightarrow> nat" where
  "eth_txd s = (if e1000_default_device s \<ge> 0 \<and> e1000_default_device s < 2
                then nat (e1000_default_device s) else 0)"

definition ethernet_output :: "pbuf \<Rightarrow> u8 list \<Rightarrow> u16 \<Rightarrow> 'z net_scheme \<Rightarrow> int \<times> 'z net_scheme" where
  "ethernet_output p dst type s =
     (case pbuf_header p (- 14) of
        None \<Rightarrow> (-1, pbuf_free p s)
      | Some p \<Rightarrow>
          let p = wbytes 0 dst p;
              p = wbytes 6 (e1000_mac s ! eth_txd s) p;
              p = w16 12 (htons type) p;
              p = p\<lparr>plen := plen p + 14\<rparr>;
              s = s\<lparr>eth_tx_attempt_count := eth_tx_attempt_count s + 1\<rparr>;
              (ret, s) = e1000_tx_send_raw (hbytes p 0 (unat (ucast (plen p) :: u16))) s;
              s = (if ret \<noteq> 0 then s\<lparr>eth_tx_count := eth_tx_count s + 1\<rparr>
                   else s\<lparr>eth_tx_fail_count := eth_tx_fail_count s + 1\<rparr>)
          in (ret, pbuf_free p s))"

definition eth_get_rx_count :: "'z net_scheme \<Rightarrow> u32" where "eth_get_rx_count s = eth_rx_count s"
definition eth_get_tx_count :: "'z net_scheme \<Rightarrow> u32" where "eth_get_tx_count s = eth_tx_count s"
definition eth_get_tx_attempt_count :: "'z net_scheme \<Rightarrow> u32" where
  "eth_get_tx_attempt_count s = eth_tx_attempt_count s"
definition eth_get_tx_fail_count :: "'z net_scheme \<Rightarrow> u32" where
  "eth_get_tx_fail_count s = eth_tx_fail_count s"

section \<open>The cache\<close>

definition ETHTYPE_ARP :: u16 where "ETHTYPE_ARP = 0x0806"
definition ETHTYPE_IP :: u16 where "ETHTYPE_IP = 0x0800"
definition ARP_CACHE_SIZE :: nat where "ARP_CACHE_SIZE = 16"

definition arp_init :: "'z net_scheme \<Rightarrow> 'z net_scheme" where
  "arp_init s = s\<lparr>arp_cache := map (\<lambda>e. e\<lparr>ae_valid := False\<rparr>) (arp_cache s),
     ajos_ip := (ajos_ip s)[0 := push_bit 24 10 OR push_bit 16 0 OR push_bit 8 2 OR 15]\<rparr>"

definition arp_find :: "arp_entry list \<Rightarrow> u32 \<Rightarrow> nat option" where
  "arp_find es a = first_idx (\<lambda>e. ae_valid e \<and> ae_ip e = a) es"

text \<open>The scan for the least recently used entry that is not the gateway: \<open>i\<close> is the index of the
  first entry of the list.\<close>

fun arp_victim :: "u32 \<Rightarrow> nat \<Rightarrow> arp_entry list \<Rightarrow> u32 \<Rightarrow> nat option \<Rightarrow> nat option" where
  "arp_victim gw i [] oldest victim = victim"
| "arp_victim gw i (e # es) oldest victim =
     (if \<not> ae_valid e then arp_victim gw (Suc i) es oldest victim
      else if gw \<noteq> 0 \<and> ae_ip e = gw then arp_victim gw (Suc i) es oldest victim
      else if ae_last_tick e \<le> oldest then arp_victim gw (Suc i) es (ae_last_tick e) (Some i)
      else arp_victim gw (Suc i) es oldest victim)"

definition arp_update :: "u32 \<Rightarrow> u32 \<Rightarrow> u32 \<Rightarrow> u8 list \<Rightarrow> arp_entry list \<Rightarrow> arp_entry list" where
  "arp_update gw now a mac es =
     (case arp_find es a of
        Some i \<Rightarrow> es[i := (es ! i)\<lparr>ae_mac := mac, ae_last_tick := now\<rparr>]
      | None \<Rightarrow>
          (case (case first_idx (\<lambda>e. \<not> ae_valid e) es of
                   Some i \<Rightarrow> Some i
                 | None \<Rightarrow> arp_victim gw 0 es 0xFFFFFFFF None) of
             None \<Rightarrow> es
           | Some i \<Rightarrow> es[i := \<lparr>ae_ip = a, ae_mac = mac, ae_last_tick = now, ae_valid = True\<rparr>]))"

definition arp_update_cache :: "u32 \<Rightarrow> u8 list \<Rightarrow> 'z net_scheme \<Rightarrow> 'z net_scheme" where
  "arp_update_cache a mac s =
     s\<lparr>arp_cache := arp_update (ip4_gateway s) (pit_ticks s) a mac (arp_cache s)\<rparr>"

section \<open>Protocol\<close>

definition arp_get_ajos_ip :: "'z net_scheme \<Rightarrow> u32" where
  "arp_get_ajos_ip s = ajos_ip s ! 0"

definition arp_get_if_ip :: "int \<Rightarrow> 'z net_scheme \<Rightarrow> u32" where
  "arp_get_if_ip iface s = (if iface \<ge> 0 \<and> iface < 2 then ajos_ip s ! nat iface else 0)"

definition arp_set_if_ip :: "int \<Rightarrow> u32 \<Rightarrow> 'z net_scheme \<Rightarrow> 'z net_scheme" where
  "arp_set_if_ip iface a s =
     (if iface \<ge> 0 \<and> iface < 2 then s\<lparr>ajos_ip := (ajos_ip s)[nat iface := a]\<rparr> else s)"

definition arp_set_ajos_ip :: "u32 \<Rightarrow> 'z net_scheme \<Rightarrow> 'z net_scheme" where
  "arp_set_ajos_ip a s = s\<lparr>ajos_ip := (ajos_ip s)[0 := a]\<rparr>"

definition arp_get_ajos_mac :: "'z net_scheme \<Rightarrow> u8 list" where
  "arp_get_ajos_mac s = e1000_mac s ! eth_txd s"

definition arp_is_our_ip :: "u32 \<Rightarrow> 'z net_scheme \<Rightarrow> bool" where
  "arp_is_our_ip a s \<longleftrightarrow> a = arp_get_ajos_ip s \<or> a = arp_get_if_ip 1 s"

definition arp_get_ip_at :: "nat \<Rightarrow> 'z net_scheme \<Rightarrow> u32" where
  "arp_get_ip_at idx s =
     (if idx < ARP_CACHE_SIZE \<and> ae_valid (arp_cache s ! idx) then ae_ip (arp_cache s ! idx) else 0)"

definition arp_get_mac_at :: "nat \<Rightarrow> 'z net_scheme \<Rightarrow> u8 list option" where
  "arp_get_mac_at idx s =
     (if idx < ARP_CACHE_SIZE \<and> ae_valid (arp_cache s ! idx) then Some (ae_mac (arp_cache s ! idx)) else None)"

definition arp_input :: "pbuf \<Rightarrow> 'z net_scheme \<Rightarrow> 'z net_scheme" where
  "arp_input p s =
     (if plen p < 28 then pbuf_free p s
      else
        let opcode = ntohs (h16 p 6);
            src_ip = ntohl (h32 p 14);
            dst_ip = ntohl (h32 p 24);
            s = arp_update_cache src_ip (hbytes p 8 6) s
        in if dst_ip \<noteq> ajos_ip s ! 0 \<and> dst_ip \<noteq> ajos_ip s ! 1 then pbuf_free p s
           else if opcode = 2 then pbuf_free p s
           else
             let s = (if e1000_active_rx_device s \<ge> 0 \<and> e1000_active_rx_device s < 2
                      then s\<lparr>e1000_default_device := e1000_active_rx_device s\<rparr> else s)
             in if opcode = 1 then
                  let p = w16 6 (htons 2) p;
                      p = wbytes 18 (hbytes p 8 6) p;
                      p = wbytes 8 (e1000_mac s ! eth_txd s) p;
                      tmp = h32 p 14;
                      p = w32 14 (h32 p 24) p;
                      p = w32 24 tmp p
                  in snd (ethernet_output p (hbytes p 18 6) ETHTYPE_ARP s)
                else pbuf_free p s)"

definition arp_query :: "u32 \<Rightarrow> 'z net_scheme \<Rightarrow> bool \<times> 'z net_scheme" where
  "arp_query a s =
     (case arp_find (arp_cache s) a of
        Some _ \<Rightarrow> (True, s)
      | None \<Rightarrow>
          (case pbuf_alloc s of
             (None, s) \<Rightarrow> (False, s)
           | (Some p, s) \<Rightarrow>
               (case pbuf_header p 14 of
                  None \<Rightarrow> (False, pbuf_free p s)
                | Some p \<Rightarrow>
                    let p = w16 0 (htons 1) p;
                        p = w16 2 (htons 0x0800) p;
                        p = w8 4 6 p;
                        p = w8 5 4 p;
                        p = w16 6 (htons 1) p;
                        p = wbytes 8 (e1000_mac s ! eth_txd s) p;
                        p = wbytes 18 [0, 0, 0, 0, 0, 0] p;
                        p = w32 14 (htonl (arp_get_if_ip (int (eth_txd s)) s)) p;
                        p = w32 24 (htonl a) p;
                        p = p\<lparr>plen := 28, tot_len := 28\<rparr>
                    in (False, snd (ethernet_output p (replicate 6 0xFF) ETHTYPE_ARP s)))))"

definition arp_get_mac_for_ip :: "u32 \<Rightarrow> 'z net_scheme \<Rightarrow> u8 list option" where
  "arp_get_mac_for_ip a s =
     (if a = 0xFFFFFFFF \<or> a AND 0xFF000000 = 0xFF000000 then Some (replicate 6 0xFF)
      else map_option (\<lambda>i. ae_mac (arp_cache s ! i)) (arp_find (arp_cache s) a))"

section \<open>The cache as a map\<close>

interpretation arp: slot_table ae_valid ae_ip arp_find
  using scan_lookup_slot_table [of ae_valid ae_ip]
  by (simp add: scan_lookup_def [abs_def] arp_find_def [abs_def])

definition arp_ok :: "arp_entry list \<Rightarrow> bool" where
  "arp_ok es \<longleftrightarrow> length es = ARP_CACHE_SIZE \<and> slots_unique ae_valid ae_ip es"

definition arp_lookup :: "arp_entry list \<Rightarrow> u32 \<rightharpoonup> u8 list" where
  "arp_lookup es a = map_option (\<lambda>i. ae_mac (es ! i)) (arp_find es a)"

definition evictable :: "u32 \<Rightarrow> arp_entry \<Rightarrow> bool" where
  "evictable gw e \<longleftrightarrow> ae_valid e \<and> \<not> (gw \<noteq> 0 \<and> ae_ip e = gw)"

lemma arp_victim_cases:
  "(arp_victim gw i es oldest v = v \<and> (\<forall>e \<in> set es. evictable gw e \<longrightarrow> oldest < ae_last_tick e)) \<or>
   (\<exists>k < length es. arp_victim gw i es oldest v = Some (i + k) \<and> evictable gw (es ! k) \<and>
      ae_last_tick (es ! k) \<le> oldest \<and>
      (\<forall>e \<in> set es. evictable gw e \<longrightarrow> ae_last_tick (es ! k) \<le> ae_last_tick e))"
proof (induction es arbitrary: i oldest v)
  case (Cons e es)
  show ?case
  proof (cases "evictable gw e \<and> ae_last_tick e \<le> oldest")
    case True
    then have r: "arp_victim gw i (e # es) oldest v = arp_victim gw (Suc i) es (ae_last_tick e) (Some i)"
      by (auto simp: evictable_def)
    from Cons [of "Suc i" "ae_last_tick e" "Some i"] show ?thesis
    proof (elim disjE exE conjE)
      assume "arp_victim gw (Suc i) es (ae_last_tick e) (Some i) = Some i"
        "\<forall>x \<in> set es. evictable gw x \<longrightarrow> ae_last_tick e < ae_last_tick x"
      with True r show ?thesis by (intro disjI2 exI [of _ 0]) (auto intro: less_imp_le)
    next
      fix k assume "k < length es" "arp_victim gw (Suc i) es (ae_last_tick e) (Some i) = Some (Suc i + k)"
        "evictable gw (es ! k)" "ae_last_tick (es ! k) \<le> ae_last_tick e"
        "\<forall>x \<in> set es. evictable gw x \<longrightarrow> ae_last_tick (es ! k) \<le> ae_last_tick x"
      with True r show ?thesis by (intro disjI2 exI [of _ "Suc k"]) auto
    qed
  next
    case False
    then have r: "arp_victim gw i (e # es) oldest v = arp_victim gw (Suc i) es oldest v"
      by (auto simp: evictable_def)
    from Cons [of "Suc i" oldest v] show ?thesis
    proof (elim disjE exE conjE)
      fix k assume "k < length es" "arp_victim gw (Suc i) es oldest v = Some (Suc i + k)"
        "evictable gw (es ! k)" "ae_last_tick (es ! k) \<le> oldest"
        "\<forall>x \<in> set es. evictable gw x \<longrightarrow> ae_last_tick (es ! k) \<le> ae_last_tick x"
      with False r show ?thesis by (intro disjI2 exI [of _ "Suc k"]) auto
    qed (use False r in auto)
  qed
qed simp

text \<open>In a full cache at most one entry is the gateway, so there is always a victim, and it is
  the least recently used of the others.\<close>

lemma arp_victim_full:
  assumes ok: "arp_ok es" and full: "\<And>e. e \<in> set es \<Longrightarrow> ae_valid e"
  obtains k where "arp_victim gw 0 es 0xFFFFFFFF None = Some k" "k < length es" "evictable gw (es ! k)"
    "\<And>e. e \<in> set es \<Longrightarrow> evictable gw e \<Longrightarrow> ae_last_tick (es ! k) \<le> ae_last_tick e"
proof -
  have len: "length es = 16" using ok by (simp add: arp_ok_def ARP_CACHE_SIZE_def)
  have "es ! 0 \<in> set es" "es ! 1 \<in> set es" using len by simp_all
  moreover have "ae_ip (es ! 0) \<noteq> ae_ip (es ! 1)"
    using slots_uniqueD [of ae_valid ae_ip es 0 1] ok len full by (auto simp: arp_ok_def)
  ultimately have "\<exists>e \<in> set es. evictable gw e"
    using full by (metis evictable_def)
  moreover have "ae_last_tick e \<le> 0xFFFFFFFF" for e :: arp_entry
    using unsigned_less [of "ae_last_tick e", where ?'a = nat] by (simp add: word_le_nat_alt)
  ultimately show thesis
    using arp_victim_cases [of gw 0 es "0xFFFFFFFF" None] that by (auto simp: not_less [symmetric])
qed

text \<open>An update always finds a slot: the entry of the address, a free one, or the victim.\<close>

lemma arp_update_slot:
  assumes ok: "arp_ok es"
  obtains i e where "arp_update gw now a mac es = es[i := e]" "i < length es"
    "ae_valid e" "ae_ip e = a" "ae_mac e = mac" "\<And>j. arp_find es a = Some j \<Longrightarrow> j = i"
    "arp_find es a = Some i \<or> \<not> ae_valid (es ! i) \<or>
       ((\<forall>x \<in> set es. ae_valid x) \<and> evictable gw (es ! i) \<and>
        (\<forall>x \<in> set es. evictable gw x \<longrightarrow> ae_last_tick (es ! i) \<le> ae_last_tick x))"
proof (cases "arp_find es a")
  case (Some i)
  from arp.lookup_Some [OF Some] Some show ?thesis
    by (intro that [of i "(es ! i)\<lparr>ae_mac := mac, ae_last_tick := now\<rparr>"]) (auto simp: arp_update_def)
next
  case None
  let ?e = "\<lparr>ae_ip = a, ae_mac = mac, ae_last_tick = now, ae_valid = True\<rparr>"
  show ?thesis
  proof (cases "first_idx (\<lambda>e. \<not> ae_valid e) es")
    case (Some i)
    with None first_idx_facts [OF Some] show ?thesis
      by (intro that [of i ?e]) (auto simp: arp_update_def)
  next
    case none: None
    then have full: "\<And>e. e \<in> set es \<Longrightarrow> ae_valid e" by (simp add: first_idx_None)
    obtain k where "arp_victim gw 0 es 0xFFFFFFFF None = Some k" "k < length es" "evictable gw (es ! k)"
      "\<And>e. e \<in> set es \<Longrightarrow> evictable gw e \<Longrightarrow> ae_last_tick (es ! k) \<le> ae_last_tick e"
      using arp_victim_full [OF ok full] by blast
    with None none full show ?thesis
      by (intro that [of k ?e]) (auto simp: arp_update_def)
  qed
qed

lemma arp_update_ok:
  assumes ok: "arp_ok es"
  shows "arp_ok (arp_update gw now a mac es)" "arp_lookup (arp_update gw now a mac es) a = Some mac"
proof -
  obtain i e where u: "arp_update gw now a mac es = es[i := e]" "i < length es" "ae_valid e" "ae_ip e = a"
    "ae_mac e = mac" "\<And>j. arp_find es a = Some j \<Longrightarrow> j = i"
    using arp_update_slot [OF ok, of gw now a mac] by metis
  from ok have s: "slots_unique ae_valid ae_ip es" by (simp add: arp_ok_def)
  from arp.unique_store [OF s, of e i] u ok show "arp_ok (arp_update gw now a mac es)"
    by (simp add: arp_ok_def)
  from arp.lookup_store_same [OF s u(2,3)] u show "arp_lookup (arp_update gw now a mac es) a = Some mac"
    by (simp add: arp_lookup_def)
qed

lemma arp_update_other:
  assumes ok: "arp_ok es" and b: "b \<noteq> a" and l: "arp_lookup es b = Some m"
  shows "arp_lookup (arp_update gw now a mac es) b = Some m \<or>
    (\<exists>i. arp_find es b = Some i \<and> (\<forall>x \<in> set es. ae_valid x) \<and> evictable gw (es ! i) \<and>
       (\<forall>x \<in> set es. evictable gw x \<longrightarrow> ae_last_tick (es ! i) \<le> ae_last_tick x))"
proof -
  obtain i e where u: "arp_update gw now a mac es = es[i := e]" "i < length es" "ae_valid e" "ae_ip e = a"
    "ae_mac e = mac" "\<And>j. arp_find es a = Some j \<Longrightarrow> j = i"
    "arp_find es a = Some i \<or> \<not> ae_valid (es ! i) \<or>
       ((\<forall>x \<in> set es. ae_valid x) \<and> evictable gw (es ! i) \<and>
        (\<forall>x \<in> set es. evictable gw x \<longrightarrow> ae_last_tick (es ! i) \<le> ae_last_tick x))"
    using arp_update_slot [OF ok, of gw now a mac] by blast
  from ok have s: "slots_unique ae_valid ae_ip es" by (simp add: arp_ok_def)
  from l obtain j where j: "arp_find es b = Some j" "ae_mac (es ! j) = m" by (auto simp: arp_lookup_def)
  note J = arp.lookup_Some [OF j(1)]
  show ?thesis
  proof (cases "i = j")
    case True
    with u(7) J j b show ?thesis by (auto dest: arp.lookup_Some)
  next
    case False
    have "arp_find (es[i := e]) b = arp_find es b"
    proof (rule arp.lookup_store_other [OF s u(3)])
      show "b \<noteq> ae_ip e" using u(4) b by simp
      show "ae_ip (es ! i) \<noteq> b" if "i < length es" "ae_valid (es ! i)"
        using slots_uniqueD [OF s that(1) _ that(2), of j] J False by auto
    qed (use u in auto)
    with u(1) j False show ?thesis by (simp add: arp_lookup_def)
  qed
qed

section \<open>Ownership of the buffers\<close>

lemma e1000_tx_same: "same_bufs s (snd (e1000_tx_send_raw frame s))"
  by (simp add: e1000_tx_send_raw_def same_bufs_def)

lemma ethernet_output_releases:
  assumes "owned p s" shows "released p s (snd (ethernet_output p dst type s))"
proof (cases "pbuf_header p (- 14)")
  case None
  with pbuf_free_released [OF assms] show ?thesis by (simp add: ethernet_output_def)
next
  case (Some q)
  note Q = pbuf_header_Some [OF Some]
  define r where "r = (w16 12 (htons type) (wbytes 6 (e1000_mac s ! eth_txd s) (wbytes 0 dst q)))
    \<lparr>plen := plen q + 14\<rparr>"
  define t where "t = s\<lparr>eth_tx_attempt_count := eth_tx_attempt_count s + 1\<rparr>"
  define u where "u = snd (e1000_tx_send_raw (hbytes r 0 (unat (ucast (plen r) :: u16))) t)"
  define v where "v = (if fst (e1000_tx_send_raw (hbytes r 0 (unat (ucast (plen r) :: u16))) t) \<noteq> 0
    then u\<lparr>eth_tx_count := eth_tx_count u + 1\<rparr> else u\<lparr>eth_tx_fail_count := eth_tx_fail_count u + 1\<rparr>)"
  have eq: "snd (ethernet_output p dst type s) = pbuf_free r v"
    by (simp add: ethernet_output_def Some Let_def split_beta r_def t_def u_def v_def)
  have "same_bufs s v" unfolding v_def u_def t_def by (simp add: e1000_tx_send_raw_def same_bufs_def)
  moreover have r: "pid r = pid p" "nexts r = nexts p" using Q by (simp_all add: r_def)
  ultimately have "released r s (pbuf_free r v)"
    using assms owned_cong [of r p s] pbuf_free_released same_bufs_owned released_after_same by metis
  then show ?thesis unfolding eq using released_cong [OF r(1)] by blast
qed

lemma arp_update_cache_same: "same_bufs s (arp_update_cache a mac s)"
  by (simp add: arp_update_cache_def same_bufs_def)

lemma arp_input_releases:
  assumes o: "owned p s" shows "released p s (arp_input p s)"
proof -
  define t where "t = arp_update_cache (ntohl (h32 p 14)) (hbytes p 8 6) s"
  define u where "u = (if e1000_active_rx_device t \<ge> 0 \<and> e1000_active_rx_device t < 2
    then t\<lparr>e1000_default_device := e1000_active_rx_device t\<rparr> else t)"
  have t: "same_bufs s t" unfolding t_def by (rule arp_update_cache_same)
  then have u: "same_bufs s u" unfolding u_def by (auto simp: same_bufs_def)
  have fr: "released p s (pbuf_free p x)" if "same_bufs s x" for x
    using released_after_same [OF that pbuf_free_released [OF same_bufs_owned [OF that o]]] .
  have out: "released p s (snd (ethernet_output q dst type u))" if "pid q = pid p" "nexts q = nexts p" for q dst type
    using released_after_same [OF u ethernet_output_releases [OF same_bufs_owned [OF u]]]
      owned_cong [OF that] released_cong [OF that(1)] o by blast
  show ?thesis
    unfolding arp_input_def Let_def t_def [symmetric] u_def [symmetric]
    using fr [OF same_bufs_refl] fr [OF t] fr [OF u] out by simp
qed

lemma arp_query_same:
  assumes ids: "ids_ok s" shows "same_bufs s (snd (arp_query a s))"
proof (cases "arp_find (arp_cache s) a")
  case None
  show ?thesis
  proof (cases "pbuf_alloc s")
    case (Pair r t)
    show ?thesis
    proof (cases r)
      case none: None
      with None Pair pbuf_alloc_None [of s t] show ?thesis by (simp add: arp_query_def)
    next
      case (Some p)
      with Pair have al: "pbuf_alloc s = (Some p, t)" by simp
      note A = pbuf_alloc_release [OF ids al]
      have out: "same_bufs s (snd (ethernet_output q dst type t))" if "pid q = pid p" "nexts q = nexts p" for q dst type
        using A(2) [OF that(1) ethernet_output_releases] A(1) owned_cong [OF that] by blast
      have fr: "same_bufs s (pbuf_free p t)" using A(2) [OF refl pbuf_free_released [OF A(1)]] .
      show ?thesis
      proof (cases "pbuf_header p 14")
        case none: None
        with None al fr show ?thesis by (simp add: arp_query_def)
      next
        case (Some q)
        note Q = pbuf_header_Some [OF Some]
        show ?thesis
          unfolding arp_query_def None al Some Let_def prod.case option.case snd_conv
          by (rule out) (simp_all add: Q)
      qed
    qed
  qed
qed (simp add: arp_query_def)

section \<open>Properties\<close>

definition arp_blank :: "arp_entry list" where
  "arp_blank = replicate ARP_CACHE_SIZE \<lparr>ae_ip = 0, ae_mac = [], ae_last_tick = 0, ae_valid = False\<rparr>"

lemma arp_blank_ok: "arp_ok arp_blank"
  by (auto simp: arp_ok_def arp_blank_def intro!: slots_unique_all_unused)

text \<open>A full cache: addresses 1 to 16, learnt at ticks 1 to 16.\<close>

definition arp_full :: "arp_entry list" where
  "arp_full = foldl (\<lambda>es n. arp_update 1 (of_nat n) (of_nat n) [of_nat n] es) arp_blank [1 ..< 17]"

lemma arp_full_ok: "arp_ok arp_full"
proof -
  have "arp_ok es \<Longrightarrow> arp_ok (foldl (\<lambda>es n. arp_update 1 (of_nat n) (of_nat n) [of_nat n] es) es ns)" for es ns
    by (induction ns arbitrary: es) (simp_all add: arp_update_ok(1))
  then show ?thesis unfolding arp_full_def using arp_blank_ok by blast
qed

text \<open>Learning an address always succeeds: after an update the cache holds the new
  hardware address, and still at most one entry per IP address, even when it was full.\<close>

theorem arp_update_learns:
  assumes "arp_ok es"
  shows "arp_ok (arp_update gw now a mac es) \<and> arp_lookup (arp_update gw now a mac es) a = Some mac"
  using arp_update_ok [OF assms] by blast

theorem arp_update_learns_witness:
  "arp_lookup (arp_update 1 99 99 [99] arp_full) 99 = Some [99]"
  using arp_update_learns [OF arp_full_ok] by blast

text \<open>C14: Learning an address never loses the entry of the default gateway.\<close>

theorem arp_update_keeps_gateway:
  assumes ok: "arp_ok es" and gw: "gw \<noteq> 0" and l: "arp_lookup es gw = Some m" and a: "a \<noteq> gw"
  shows "arp_lookup (arp_update gw now a mac es) gw = Some m"
  using arp_update_other [OF ok _ l, of a gw now mac] a gw
  by (auto simp: evictable_def dest: arp.lookup_Some)

theorem arp_update_keeps_gateway_witness:
  "arp_lookup (arp_update 1 99 99 [99] arp_full) 1 = Some [1]"
proof (rule arp_update_keeps_gateway [OF arp_full_ok])
  show "arp_lookup arp_full 1 = Some [1]" by code_simp
qed simp_all

text \<open>An update loses the entry of another address only when the cache is full, and then
  it is an entry that was not used more recently than any other that may be evicted.\<close>

theorem arp_update_evicts_lru:
  assumes ok: "arp_ok es" and b: "b \<noteq> a" and l: "arp_lookup es b = Some m"
    and lost: "arp_lookup (arp_update gw now a mac es) b \<noteq> Some m"
  shows "\<exists>i. arp_find es b = Some i \<and> list_all ae_valid es \<and>
    (\<forall>x \<in> set es. evictable gw x \<longrightarrow> ae_last_tick (es ! i) \<le> ae_last_tick x)"
  using arp_update_other [OF ok b l, of gw now mac] lost by (auto simp: list_all_iff)

theorem arp_update_evicts_lru_witness:
  "\<exists>i. arp_find arp_full 2 = Some i \<and> list_all ae_valid arp_full"
proof -
  have "arp_lookup arp_full 2 = Some [2]" by code_simp
  moreover have "arp_lookup (arp_update 1 99 99 [99] arp_full) 2 \<noteq> Some [2]" by code_simp
  ultimately show ?thesis
    using arp_update_evicts_lru [OF arp_full_ok, of 2 99 "[2]" 1 99 "[99]"] by auto
qed

end
