(* ===== verification/Ip4.thy ===== *)
theory Ip4
  imports Arp
begin

text \<open>
  IPv4, ICMP and UDP (\<open>src/ip4.c\<close>, \<open>src/icmp.c\<close>, \<open>src/udp.c\<close>) and Ethernet input (\<open>src/eth.c\<close>).

  The protocols call each other: \<open>ip4_input\<close> hands a packet to ICMP, UDP or TCP, these answer
  through \<open>ip4_output\<close>, and \<open>ip4_output\<close> hands a packet for one of the machine's own addresses
  straight back to \<open>ip4_input\<close>. Each layer therefore takes the function below or above it as an
  argument, and \<open>ip4_in\<close> ties the knot with fuel; \<open>None\<close> means that the C recursion is deeper
  than the fuel. The servers above UDP and TCP are the fields of \<open>handlers\<close>.
\<close>

section \<open>Configuration\<close>

definition IP_PROTO_ICMP :: u8 where "IP_PROTO_ICMP = 1"
definition IP_PROTO_TCP :: u8 where "IP_PROTO_TCP = 6"
definition IP_PROTO_UDP :: u8 where "IP_PROTO_UDP = 17"
definition IP_ADDR_LOOPBACK :: u32 where "IP_ADDR_LOOPBACK = 0x7F000001"
definition IP_ADDR_BROADCAST :: u32 where "IP_ADDR_BROADCAST = 0xFFFFFFFF"

lemmas ip_consts = IP_PROTO_ICMP_def IP_PROTO_TCP_def IP_PROTO_UDP_def IP_ADDR_LOOPBACK_def IP_ADDR_BROADCAST_def

definition ip4_init :: "'z net_scheme \<Rightarrow> 'z net_scheme" where
  "ip4_init s = s\<lparr>ip4_netmask := 0xFFFFFF00, ip4_gateway := 0x0A000202\<rparr>"

definition ip4_set_netmask_ip :: "int \<Rightarrow> u32 \<Rightarrow> 'z net_scheme \<Rightarrow> 'z net_scheme" where
  "ip4_set_netmask_ip iface nm s =
     (let s = (if iface = 0 then s\<lparr>ip4_netmask := nm\<rparr> else s)
      in if iface \<ge> 0 \<and> iface < 2 then s\<lparr>ip4_if_nm := (ip4_if_nm s)[nat iface := nm]\<rparr> else s)"

definition ip4_set_netmask :: "u32 \<Rightarrow> 'z net_scheme \<Rightarrow> 'z net_scheme" where
  "ip4_set_netmask nm s = ip4_set_netmask_ip 0 nm s"

definition ip4_set_gateway_ip :: "int \<Rightarrow> u32 \<Rightarrow> 'z net_scheme \<Rightarrow> 'z net_scheme" where
  "ip4_set_gateway_ip iface gw s =
     (let s = (if iface = 0 then s\<lparr>ip4_gateway := gw\<rparr> else s)
      in if iface \<ge> 0 \<and> iface < 2 then s\<lparr>ip4_if_gw := (ip4_if_gw s)[nat iface := gw]\<rparr> else s)"

definition ip4_set_gateway :: "u32 \<Rightarrow> 'z net_scheme \<Rightarrow> 'z net_scheme" where
  "ip4_set_gateway gw s = ip4_set_gateway_ip 0 gw s"

definition ip4_get_if_netmask :: "int \<Rightarrow> 'z net_scheme \<Rightarrow> u32" where
  "ip4_get_if_netmask iface s = (if iface \<ge> 0 \<and> iface < 2 then ip4_if_nm s ! nat iface else 0)"

definition ip4_get_if_gw :: "int \<Rightarrow> 'z net_scheme \<Rightarrow> u32" where
  "ip4_get_if_gw iface s = (if iface \<ge> 0 \<and> iface < 2 then ip4_if_gw s ! nat iface else 0)"

definition ip4_get_netmask :: "'z net_scheme \<Rightarrow> u32" where "ip4_get_netmask s = ip4_netmask s"
definition ip4_get_gateway :: "'z net_scheme \<Rightarrow> u32" where "ip4_get_gateway s = ip4_gateway s"
definition ip4_get_rx_count :: "'z net_scheme \<Rightarrow> u32" where "ip4_get_rx_count s = ip4_rx_count s"
definition ip4_get_tx_count :: "'z net_scheme \<Rightarrow> u32" where "ip4_get_tx_count s = ip4_tx_count s"
definition ip4_get_policy_drop_count :: "'z net_scheme \<Rightarrow> u32" where
  "ip4_get_policy_drop_count s = ip4_policy_drop_count s"

section \<open>The policy filter\<close>

definition ip4_policy_filter :: "pbuf \<Rightarrow> u8 \<Rightarrow> 'z net_scheme \<Rightarrow> bool \<times> 'z net_scheme" where
  "ip4_policy_filter p hl s =
     (let src = ntohl (h32 p 12);
          (authd, ss) = auth_is_authenticated (pit_ticks s) src (net_sessions s);
          s = s\<lparr>net_sessions := ss\<rparr>
      in if authd then (True, s)
         else
           let dst = ntohl (h32 p 16)
           in if dst = arp_get_ajos_ip s then (True, s)
              else if h8 p 9 = IP_PROTO_UDP then
                if plen p < ucast hl + 8 then (False, s)
                else let dport = ntohs (h16 p (unat hl + 2))
                     in (dport = 67 \<or> dport = 68 \<or> dport = 53, s)
              else if h8 p 9 = IP_PROTO_TCP then
                if plen p < ucast hl + 20 then (False, s)
                else let dport = ntohs (h16 p (unat hl + 2))
                     in (dport = 80 \<or> dport = 22, s)
              else (False, s))"

section \<open>Output\<close>

type_synonym 's outfn = "pbuf \<Rightarrow> u32 \<Rightarrow> u8 \<Rightarrow> 's \<Rightarrow> (int \<times> 's) option"
type_synonym 's infn = "pbuf \<Rightarrow> 's \<Rightarrow> 's option"

definition ip4_route_if :: "u32 \<Rightarrow> 'z net_scheme \<Rightarrow> int" where
  "ip4_route_if dst s =
     (let on_link = (\<lambda>ri. arp_get_if_ip ri s \<noteq> 0 \<and> ip4_get_if_netmask ri s \<noteq> 0 \<and>
                       dst AND ip4_get_if_netmask ri s = arp_get_if_ip ri s AND ip4_get_if_netmask ri s);
          route_if = (if on_link 1 then 1 else 0)
      in if route_if = 0 \<and> arp_get_if_ip 0 s = 0 \<and> arp_get_if_ip 1 s \<noteq> 0 then 1 else route_if)"

definition ip4_src_ip :: "u32 \<Rightarrow> 'z net_scheme \<Rightarrow> u32" where
  "ip4_src_ip dst s =
     (if ip4_route_if dst s = 0 then arp_get_ajos_ip s else arp_get_if_ip (ip4_route_if dst s) s)"

definition ip4_put_hdr :: "u32 \<Rightarrow> u32 \<Rightarrow> u8 \<Rightarrow> u8 \<Rightarrow> pbuf \<Rightarrow> pbuf" where
  "ip4_put_hdr src dst proto ttl p =
     (let p = w8 0 0x45 p;
          p = w8 1 0 p;
          p = w16 2 (htons (ucast (plen p) + 20)) p;
          p = w16 4 0 p;
          p = w16 6 0 p;
          p = w8 8 ttl p;
          p = w8 9 proto p;
          p = w32 12 (htonl src) p;
          p = w32 16 (htonl dst) p;
          p = w16 10 0 p
      in w16 10 (net_checksum (buf p) (payload p) 20) p)"

definition ip4_next_hop :: "u32 \<Rightarrow> 'z net_scheme \<Rightarrow> u32" where
  "ip4_next_hop dst s =
     (let route_if = ip4_route_if dst s;
          ajos_ip = ip4_src_ip dst s;
          nm = ip4_get_if_netmask route_if s;
          gw = ip4_get_if_gw route_if s;
          nm = (if nm = 0 then ip4_netmask s else nm);
          gw = (if gw = 0 then ip4_gateway s else gw)
      in if ajos_ip \<noteq> 0 \<and> nm \<noteq> 0 \<and> gw \<noteq> 0 \<and> dst AND nm \<noteq> ajos_ip AND nm then gw else dst)"

definition ip4_output_ttl :: "'z net_scheme infn \<Rightarrow> pbuf \<Rightarrow> u32 \<Rightarrow> u8 \<Rightarrow> u8 \<Rightarrow> 'z net_scheme \<Rightarrow>
    (int \<times> 'z net_scheme) option" where
  "ip4_output_ttl inp p dst proto ttl s =
     (let s = s\<lparr>ip4_tx_count := ip4_tx_count s + 1\<rparr>
      in case pbuf_header p (- 20) of
           None \<Rightarrow> Some (-1, pbuf_free p s)
         | Some p \<Rightarrow>
             let p = ip4_put_hdr (ip4_src_ip dst s) dst proto ttl p;
                 p = p\<lparr>plen := plen p + 20\<rparr>
             in if dst AND 0xFF000000 = 0x7F000000 \<or> dst = arp_get_ajos_ip s \<or> dst = arp_get_if_ip 1 s
                then map_option (Pair 0) (inp p s)
                else if dst = 0xFFFFFFFF then
                  let (er, s) = ethernet_output p (replicate 6 0xFF) ETHTYPE_IP s
                  in Some (if er \<noteq> 0 then 0 else -1, s)
                else
                  let next_hop = ip4_next_hop dst s;
                      s = s\<lparr>e1000_default_device := ip4_route_if dst s\<rparr>
                  in case arp_get_mac_for_ip next_hop s of
                       Some mac \<Rightarrow>
                         let (er, s) = ethernet_output p mac ETHTYPE_IP s
                         in Some (if er \<noteq> 0 then 0 else -1, s)
                     | None \<Rightarrow> Some (-1, pbuf_free p (snd (arp_query next_hop s))))"

definition ip4_output :: "'z net_scheme infn \<Rightarrow> 'z net_scheme outfn" where
  "ip4_output inp p dst proto s = ip4_output_ttl inp p dst proto 64 s"

section \<open>ICMP and UDP\<close>

definition icmp_input :: "'z net_scheme outfn \<Rightarrow> pbuf \<Rightarrow> u32 \<Rightarrow> u8 \<Rightarrow> 'z net_scheme \<Rightarrow> 'z net_scheme option" where
  "icmp_input out p src ttl s =
     (if plen p < 8 then Some (pbuf_free p s)
      else if h8 p 0 = 8 then
        let p = w8 0 0 p;
            p = w16 2 0 p;
            p = w16 2 (net_checksum (buf p) (payload p) (sint (plen p))) p
        in map_option snd (out p src IP_PROTO_ICMP s)
      else if h8 p 0 = 0 then
        Some (pbuf_free p
          (s\<lparr>icmp_last_echo_reply_src := src, icmp_last_echo_reply_id := ntohs (h16 p 4),
             icmp_last_echo_reply_seq := ntohs (h16 p 6), icmp_last_echo_reply_ttl := ttl,
             icmp_echo_reply_count := icmp_echo_reply_count s + 1\<rparr>))
      else if h8 p 0 = 11 then
        let s =
          (if plen p \<ge> 8 + 20 + 8 then
             let orig_ihl = (h8 p 8 AND 0x0F) * 4
             in if plen p \<ge> 8 + ucast orig_ihl + 8 then
                  if h8 p (8 + unat orig_ihl) = 8 then
                    s\<lparr>icmp_last_time_exceeded_src := src, icmp_last_time_exceeded_tick := pit_ticks s,
                      icmp_last_time_exceeded_id := ntohs (h16 p (8 + unat orig_ihl + 4)),
                      icmp_last_time_exceeded_seq := ntohs (h16 p (8 + unat orig_ihl + 6))\<rparr>
                  else s
                else s
           else s)
        in Some (pbuf_free p s)
      else Some (pbuf_free p s))"

record 's handlers =
  dhcp_input_h :: "pbuf \<Rightarrow> u32 \<Rightarrow> u32 \<Rightarrow> 's \<Rightarrow> 's option"
  dhcpd_handle_h :: "pbuf \<Rightarrow> 's \<Rightarrow> 's option"
  dnsd_handle_h :: "pbuf \<Rightarrow> u32 \<Rightarrow> u16 \<Rightarrow> u16 \<Rightarrow> 's \<Rightarrow> 's option"
  dns_input_h :: "pbuf \<Rightarrow> 's \<Rightarrow> 's option"
  tcp_input_h :: "pbuf \<Rightarrow> u32 \<Rightarrow> u32 \<Rightarrow> 's \<Rightarrow> 's option"

definition udp_output :: "'z net_scheme outfn \<Rightarrow> pbuf \<Rightarrow> u32 \<Rightarrow> u16 \<Rightarrow> u16 \<Rightarrow> 'z net_scheme \<Rightarrow>
    (int \<times> 'z net_scheme) option" where
  "udp_output out p dst src_port dst_port s =
     (case pbuf_header p (- 8) of
        None \<Rightarrow> Some (-1, pbuf_free p s)
      | Some p \<Rightarrow>
          let p = w16 0 (htons src_port) p;
              p = w16 2 (htons dst_port) p;
              p = w16 4 (htons (ucast (plen p) + 8)) p;
              p = w16 6 0 p;
              p = p\<lparr>plen := plen p + 8\<rparr>
          in out p dst IP_PROTO_UDP s)"

definition udp_strip :: "pbuf \<Rightarrow> pbuf" where
  "udp_strip p = (let p = pbuf_header_or_same p 8 in p\<lparr>plen := plen p - 8\<rparr>)"

definition udp_input :: "'z net_scheme handlers \<Rightarrow> 'z net_scheme outfn \<Rightarrow> pbuf \<Rightarrow> u32 \<Rightarrow> u32 \<Rightarrow>
    'z net_scheme \<Rightarrow> 'z net_scheme option" where
  "udp_input H out p src dst s =
     (if plen p < 8 then Some (pbuf_free p s)
      else
        let src_port = ntohs (h16 p 0);
            dst_port = ntohs (h16 p 2)
        in if dst_port = 7 then map_option snd (udp_output out (udp_strip p) src dst_port src_port s)
           else if dst_port = 68 then dhcp_input_h H (udp_strip p) src dst s
           else if dst_port = 67 then dhcpd_handle_h H (udp_strip p) s
           else if dst_port = 53 then dnsd_handle_h H (udp_strip p) src src_port dst_port s
           else if src_port = 53 then dns_input_h H (udp_strip p) s
           else Some (pbuf_free p s))"

section \<open>Input\<close>

definition ip4_accepts :: "pbuf \<Rightarrow> u8 \<Rightarrow> 'z net_scheme \<Rightarrow> bool" where
  "ip4_accepts p hl s =
     (let dst = ntohl (h32 p 16)
      in if arp_get_ajos_ip s \<noteq> 0 \<or> arp_get_if_ip 1 s \<noteq> 0
         then dst = arp_get_ajos_ip s \<or> dst = arp_get_if_ip 1 s \<or> dst = IP_ADDR_BROADCAST \<or> dst = IP_ADDR_LOOPBACK
         else (h8 p 9 = IP_PROTO_UDP \<and> plen p \<ge> ucast hl + 8 \<and> ntohs (h16 p (unat hl + 2)) = 68) \<or>
              dst = IP_ADDR_BROADCAST \<or> dst = IP_ADDR_LOOPBACK \<or> dst = 0 \<or>
              (dhcp_offered_ip s \<noteq> 0 \<and> dst = dhcp_offered_ip s))"

definition ip4_deliver :: "'z net_scheme handlers \<Rightarrow> 'z net_scheme outfn \<Rightarrow> u8 \<Rightarrow> 'z net_scheme infn" where
  "ip4_deliver H out hl p s =
     (let src = ntohl (h32 p 12); dst = ntohl (h32 p 16); ttl = h8 p 8;
          q = pbuf_header_or_same p (uint hl);
          q = q\<lparr>plen := plen q - ucast hl\<rparr>
      in if h8 p 9 = IP_PROTO_ICMP then icmp_input out q src ttl s
         else if h8 p 9 = IP_PROTO_UDP then udp_input H out q src dst s
         else if h8 p 9 = IP_PROTO_TCP then tcp_input_h H q src dst s
         else Some (pbuf_free p s))"

definition ip4_input :: "'z net_scheme handlers \<Rightarrow> 'z net_scheme outfn \<Rightarrow> 'z net_scheme infn" where
  "ip4_input H out p s =
     (let s = s\<lparr>ip4_rx_count := ip4_rx_count s + 1\<rparr>
      in if plen p < 20 then Some (pbuf_free p s)
         else if drop_bit 4 (h8 p 0) \<noteq> 4 then Some (pbuf_free p s)
         else
           let hl = (h8 p 0 AND 0x0F) * 4
           in if plen p < ucast hl then Some (pbuf_free p s)
              else if net_checksum (buf p) (payload p) (uint hl) \<noteq> 0 then Some (pbuf_free p s)
              else
                let (allow, s) = ip4_policy_filter p hl s
                in if \<not> allow
                   then Some (pbuf_free p (s\<lparr>ip4_policy_drop_count := ip4_policy_drop_count s + 1\<rparr>))
                   else
                     let ip_len = ntohs (h16 p 2);
                         q = (if plen p > ucast ip_len then p\<lparr>plen := ucast ip_len, tot_len := ucast ip_len\<rparr> else p)
                     in if plen p < ucast ip_len then Some (pbuf_free p s)
                        else if \<not> ip4_accepts q hl s then Some (pbuf_free q s)
                        else ip4_deliver H out hl q s)"

definition ethernet_input :: "'z net_scheme infn \<Rightarrow> 'z net_scheme infn" where
  "ethernet_input ip_in p s =
     (if plen p < 14 then Some (pbuf_free p s)
      else
        let type = ntohs (h16 p 12);
            s = s\<lparr>eth_rx_count := eth_rx_count s + 1\<rparr>
        in case (if type = ETHTYPE_ARP \<or> type = ETHTYPE_IP then pbuf_header p 14 else None) of
             None \<Rightarrow> Some (pbuf_free p s)
           | Some q \<Rightarrow>
               let q = (if plen q \<ge> 14 then q\<lparr>plen := plen q - 14\<rparr> else q)
               in if type = ETHTYPE_ARP then Some (arp_input q s) else ip_in q s)"

text \<open>The knot. \<open>H\<close> builds the handlers of the servers from the output function they call.\<close>

primrec ip4_in :: "nat \<Rightarrow> ('z net_scheme outfn \<Rightarrow> 'z net_scheme handlers) \<Rightarrow> 'z net_scheme infn" where
  "ip4_in 0 H p s = None"
| "ip4_in (Suc n) H p s = ip4_input (H (ip4_output (ip4_in n H))) (ip4_output (ip4_in n H)) p s"

section \<open>Header fields after writes\<close>

lemma fields_w8 [wire]:
  "h8 (w8 k v p) j = (if j = k then v else h8 p j)"
  "k < j \<or> j + 1 < k \<Longrightarrow> h16 (w8 k v p) j = h16 p j"
  "k < j \<or> j + 3 < k \<Longrightarrow> h32 (w8 k v p) j = h32 p j"
  by (auto simp: h8_def h16_def h32_def w8_def ld16_def ld32_def)

lemma fields_w16 [wire]:
  "j < k \<or> k + 1 < j \<Longrightarrow> h8 (w16 k u p) j = h8 p j"
  "h16 (w16 k u p) k = u"
  "k + 1 < j \<or> j + 1 < k \<Longrightarrow> h16 (w16 k u p) j = h16 p j"
  "k + 1 < j \<or> j + 3 < k \<Longrightarrow> h32 (w16 k u p) j = h32 p j"
  by (auto simp: h8_def h16_def h32_def w16_def ld16_st16 ld16_st16_other ld32_def st16_same)

lemma fields_w32 [wire]:
  "j < k \<or> k + 3 < j \<Longrightarrow> h8 (w32 k x p) j = h8 p j"
  "k + 3 < j \<or> j + 1 < k \<Longrightarrow> h16 (w32 k x p) j = h16 p j"
  "h32 (w32 k x p) k = x"
  "k + 3 < j \<or> j + 3 < k \<Longrightarrow> h32 (w32 k x p) j = h32 p j"
  by (auto simp: h8_def h16_def h32_def w32_def ld32_st32 ld16_def ld32_st32_other st32_same)

lemma fields_plen [simp]:
  "h8 (p\<lparr>plen := n\<rparr>) j = h8 p j" "h16 (p\<lparr>plen := n\<rparr>) j = h16 p j" "h32 (p\<lparr>plen := n\<rparr>) j = h32 p j"
  "h8 (p\<lparr>tot_len := n\<rparr>) j = h8 p j" "h16 (p\<lparr>tot_len := n\<rparr>) j = h16 p j" "h32 (p\<lparr>tot_len := n\<rparr>) j = h32 p j"
  by (simp_all add: h8_def h16_def h32_def)

text \<open>Moving the payload pointer re-bases the fields.\<close>

lemma fields_moved:
  assumes "buf q = buf p" "payload q = payload p + k"
  shows "h8 q j = h8 p (k + j)" "h16 q j = h16 p (k + j)" "h32 q j = h32 p (k + j)"
  using assms by (simp_all add: h8_def h16_def h32_def ac_simps)

lemma checksum_field:
  assumes "2 * j + 1 < len" "len \<le> 65535" "k = 2 * j"
  shows "net_checksum (buf (w16 k (net_checksum (buf (w16 k 0 p)) (payload p) (int len)) (w16 k 0 p)))
    (payload p) (int len) = 0"
  using checksum_patch [OF assms(1,2), of "payload p" "buf p"] assms(3) by (simp add: w16_def)

lemma ip4_put_hdr_fields:
  fixes src dst proto ttl p
  defines "q \<equiv> ip4_put_hdr src dst proto ttl p"
  shows "pid q = pid p" "nexts q = nexts p" "payload q = payload p" "plen q = plen p"
    and "h8 q 0 = 0x45" "h16 q 2 = htons (ucast (plen p) + 20)" "h8 q 8 = ttl" "h8 q 9 = proto"
    and "h32 q 12 = htonl src" "h32 q 16 = htonl dst"
    and "net_checksum (buf q) (payload q) 20 = 0"
    and "20 \<le> j \<Longrightarrow> h8 q j = h8 p j" "20 \<le> j \<Longrightarrow> h16 q j = h16 p j"
proof -
  define r where "r = w32 16 (htonl dst) (w32 12 (htonl src) (w8 9 proto (w8 8 ttl (w16 6 0 (w16 4 0
    (w16 2 (htons (ucast (plen p) + 20)) (w8 1 0 (w8 0 0x45 p))))))))"
  have c: "q = w16 10 (net_checksum (buf (w16 10 0 r)) (payload r) 20) (w16 10 0 r)"
    by (simp add: q_def r_def ip4_put_hdr_def Let_def)
  show "net_checksum (buf q) (payload q) 20 = 0"
    unfolding c pbuf_writes
    by (rule checksum_field [of 5 20 10 r, unfolded of_nat_numeral]) simp_all
  from c obtain x where q: "q = w16 10 x (w16 10 0 r)" by blast
  have "pid r = pid p" "nexts r = nexts p" "payload r = payload p" "plen r = plen p"
    "h8 r 0 = 0x45" "h16 r 2 = htons (ucast (plen p) + 20)" "h8 r 8 = ttl" "h8 r 9 = proto"
    "h32 r 12 = htonl src" "h32 r 16 = htonl dst"
    by (simp_all add: r_def wire)
  then show "pid q = pid p" "nexts q = nexts p" "payload q = payload p" "plen q = plen p"
    "h8 q 0 = 0x45" "h16 q 2 = htons (ucast (plen p) + 20)" "h8 q 8 = ttl" "h8 q 9 = proto"
    "h32 q 12 = htonl src" "h32 q 16 = htonl dst"
    by (simp_all add: q wire)
  show "h8 q j = h8 p j" "h16 q j = h16 p j" if "20 \<le> j"
    using that by (simp_all add: q r_def wire)
qed

section \<open>What lies beyond the network state\<close>

text \<open>The layers below the servers do not touch the state that other components add to the network
  state.\<close>

lemma net_more [simp]:
  "net.more (kfree_pbuf i s) = net.more s"
  "net.more (pbuf_free p s) = net.more s"
  "net.more (snd (pbuf_alloc s)) = net.more s"
  "net.more (snd (e1000_tx_send_raw f s)) = net.more s"
  "net.more (arp_update_cache a mac s) = net.more s"
proof -
  show k: "net.more (kfree_pbuf i s) = net.more s" for i and s :: "'a net_scheme" by (simp add: kfree_pbuf_def)
  have "net.more (fold kfree_pbuf is s) = net.more s" for "is" and s :: "'a net_scheme"
    by (induction "is" arbitrary: s) (simp_all add: k)
  then show "net.more (pbuf_free p s) = net.more s" by (simp only: pbuf_free_def)
qed (simp_all add: pbuf_alloc_def e1000_tx_send_raw_def arp_update_cache_def Let_def)

lemma net_more_alloc: "pbuf_alloc s = (a, t) \<Longrightarrow> net.more t = net.more s"
  using net_more(3) [of s] by simp

lemma net_more_eth [simp]: "net.more (snd (ethernet_output p mac type s)) = net.more s"
  using net_more(4) by (auto simp: ethernet_output_def Let_def split_beta split: option.split)

lemma net_more_arp [simp]: "net.more (snd (arp_query a s)) = net.more s" "net.more (arp_input p s) = net.more s"
  by (auto simp: arp_query_def arp_input_def Let_def net_more_alloc split: option.split prod.split)

lemma net_more_policy [simp]: "net.more (snd (ip4_policy_filter p hl s)) = net.more s"
  by (auto simp: ip4_policy_filter_def Let_def split_beta)

text \<open>What the servers and the input function keep, the whole stack keeps.\<close>

definition handlers_keep :: "('z net_scheme \<Rightarrow> 'z net_scheme \<Rightarrow> bool) \<Rightarrow> 'z net_scheme handlers \<Rightarrow> bool" where
  "handlers_keep R H \<longleftrightarrow> (\<forall>p s. (\<forall>a b. after R s (dhcp_input_h H p a b s)) \<and> after R s (dhcpd_handle_h H p s) \<and>
     (\<forall>a b c. after R s (dnsd_handle_h H p a b c s)) \<and> after R s (dns_input_h H p s) \<and>
     (\<forall>a b. after R s (tcp_input_h H p a b s)))"

lemma handlers_keepD:
  assumes "handlers_keep R H"
  shows "after R s (dhcp_input_h H p a b s)" "after R s (dhcpd_handle_h H p s)"
    "after R s (dnsd_handle_h H p a c d s)" "after R s (dns_input_h H p s)" "after R s (tcp_input_h H p a b s)"
  using assms by (simp_all add: handlers_keep_def)

locale stack_keeps =
  fixes R :: "'z net_scheme \<Rightarrow> 'z net_scheme \<Rightarrow> bool"
  assumes frame: "net.more t = net.more s \<Longrightarrow> R s t"
    and trans: "R s t \<Longrightarrow> R t u \<Longrightarrow> R s u"
begin

lemma after_frame: "net.more t = net.more s \<Longrightarrow> after R t m \<Longrightarrow> after R s m"
  unfolding after_def using frame trans by blast

lemma after_free: "net.more t = net.more s \<Longrightarrow> after R s (Some (pbuf_free p t))"
  by (auto simp: after_def intro: frame)

lemma output_keeps:
  assumes inp: "\<And>p s. after R s (inp p s)"
  shows "after_pair R s (ip4_output inp p dst proto s)"
proof -
  have m: "after_pair R s (map_option (Pair 0) (inp q t))" if "net.more t = net.more s" for q t
    using after_frame [OF that inp] by (auto simp: after_def after_pair_def)
  have e: "after_pair R s (case ethernet_output q mac type t of (er, u) \<Rightarrow> Some (f er, u))"
    if "net.more t = net.more s" for q mac type t f
    using frame [of "snd (ethernet_output q mac type t)" s] that
    by (auto simp: after_pair_def split_beta)
  show ?thesis
    unfolding ip4_output_def ip4_output_ttl_def Let_def [of "s\<lparr>ip4_tx_count := ip4_tx_count s + 1\<rparr>"]
    by (auto simp: Let_def [of "_ :: pbuf"] Let_def [of "ip4_next_hop _ _"] Let_def [of "_\<lparr>e1000_default_device := _\<rparr>"]
        intro!: m e after_pair_rules(1) frame split: option.split)
qed

lemma icmp_keeps:
  assumes out: "\<And>p d pr s. after_pair R s (out p d pr s)"
  shows "after R s (icmp_input out p src ttl s)"
  unfolding icmp_input_def Let_def by (auto intro!: after_rules(4) out after_free)

lemma udp_keeps:
  assumes out: "\<And>p d pr s. after_pair R s (out p d pr s)" and H: "handlers_keep R H"
  shows "after R s (udp_input H out p src dst s)"
  unfolding udp_input_def udp_output_def Let_def
  by (auto intro!: after_rules(4) after_pair_rules(1) out handlers_keepD [OF H] after_free frame split: option.split)

lemma input_keeps:
  assumes out: "\<And>p d pr s. after_pair R s (out p d pr s)" and H: "handlers_keep R H"
  shows "after R s (ip4_input H out p s)"
proof -
  have d: "after R s (ip4_deliver H out hl q t)" if "net.more t = net.more s" for hl q t
    unfolding ip4_deliver_def Let_def
    by (auto simp: that intro!: after_frame [OF that] icmp_keeps udp_keeps out H handlers_keepD [OF H] after_free)
  have "net.more (snd (ip4_policy_filter p hl (s\<lparr>ip4_rx_count := ip4_rx_count s + 1\<rparr>))) = net.more s" for hl
    by simp
  then show ?thesis
    unfolding ip4_input_def Let_def split_beta by (auto intro!: after_free d)
qed

lemma in_keeps:
  assumes H: "\<And>out. (\<And>p d pr s. after_pair R s (out p d pr s)) \<Longrightarrow> handlers_keep R (H out)"
  shows "after R s (ip4_in n H p s)"
proof (induction n arbitrary: p s)
  case 0
  then show ?case by (simp add: after_def)
next
  case (Suc n)
  have out: "after_pair R s (ip4_output (ip4_in n H) p d pr s)" for p d pr s
    by (rule output_keeps) (rule Suc)
  show ?case unfolding ip4_in.simps by (rule input_keeps [OF out H]) (rule out)
qed

lemma ethernet_keeps:
  assumes ip: "\<And>p s. after R s (ip_in p s)"
  shows "after R s (ethernet_input ip_in p s)"
  unfolding ethernet_input_def Let_def
  by (auto intro!: after_free after_frame [OF _ ip] after_rules(1) frame split: option.split)

end

section \<open>Ownership through the stack\<close>

definition consumes :: "'z net_scheme infn \<Rightarrow> bool" where
  "consumes f \<longleftrightarrow> (\<forall>p s s'. owned p s \<longrightarrow> f p s = Some s' \<longrightarrow> released p s s')"

definition sends :: "'z net_scheme outfn \<Rightarrow> bool" where
  "sends out \<longleftrightarrow> (\<forall>p d pr s r s'. owned p s \<longrightarrow> out p d pr s = Some (r, s') \<longrightarrow> released p s s')"

definition handlers_ok :: "'z net_scheme handlers \<Rightarrow> bool" where
  "handlers_ok H \<longleftrightarrow> (\<forall>a b. consumes (\<lambda>p. dhcp_input_h H p a b)) \<and> consumes (dhcpd_handle_h H) \<and>
     (\<forall>a b c. consumes (\<lambda>p. dnsd_handle_h H p a b c)) \<and> consumes (dns_input_h H) \<and>
     (\<forall>a b. consumes (\<lambda>p. tcp_input_h H p a b))"

lemma handlers_okD:
  assumes "handlers_ok H"
  shows "consumes (\<lambda>p. dhcp_input_h H p a b)" "consumes (dhcpd_handle_h H)"
    "consumes (\<lambda>p. dnsd_handle_h H p a c d)" "consumes (dns_input_h H)" "consumes (\<lambda>p. tcp_input_h H p a b)"
  using assms unfolding handlers_ok_def by blast+

text \<open>The three ways a layer gives a buffer away: it frees it, hands it to an input function or
  hands it to an output function, after steps that leave the buffers alone.\<close>

lemma release_free:
  "owned p s \<Longrightarrow> same_bufs s t \<Longrightarrow> pid q = pid p \<Longrightarrow> nexts q = nexts p \<Longrightarrow> released p s (pbuf_free q t)"
  using released_after_same pbuf_free_released same_bufs_owned owned_cong released_cong by metis

lemma release_in:
  "f q t = Some u \<Longrightarrow> consumes f \<Longrightarrow> owned p s \<Longrightarrow> same_bufs s t \<Longrightarrow> pid q = pid p \<Longrightarrow> nexts q = nexts p \<Longrightarrow>
   released p s u"
  unfolding consumes_def using released_after_same same_bufs_owned owned_cong released_cong by metis

lemma release_out:
  "out q d pr t = Some (r, u) \<Longrightarrow> sends out \<Longrightarrow> owned p s \<Longrightarrow> same_bufs s t \<Longrightarrow> pid q = pid p \<Longrightarrow> nexts q = nexts p \<Longrightarrow>
   released p s u"
  unfolding sends_def using released_after_same same_bufs_owned owned_cong released_cong by metis

lemma release_eth:
  "owned p s \<Longrightarrow> same_bufs s t \<Longrightarrow> pid q = pid p \<Longrightarrow> nexts q = nexts p \<Longrightarrow>
   released p s (snd (ethernet_output q dst type t))"
  using ethernet_output_releases released_after_same same_bufs_owned owned_cong released_cong by metis

lemma policy_same: "same_bufs s (snd (ip4_policy_filter p hl s))"
  by (auto simp: ip4_policy_filter_def Let_def split_beta same_bufs_def)

lemma ip4_output_sends:
  assumes inp: "consumes inp" shows "sends (ip4_output inp)"
  unfolding sends_def
proof (intro allI impI)
  fix p dst proto s r s'
  assume o: "owned p s" and r: "ip4_output inp p dst proto s = Some (r, s')"
  define t where "t = s\<lparr>ip4_tx_count := ip4_tx_count s + 1\<rparr>"
  have t: "same_bufs s t" by (simp add: t_def same_bufs_def)
  show "released p s s'"
  proof (cases "pbuf_header p (- 20)")
    case None
    with r release_free [OF o t] show ?thesis
      by (auto simp: ip4_output_def ip4_output_ttl_def Let_def t_def [symmetric])
  next
    case (Some p0)
    define q where "q = (ip4_put_hdr (ip4_src_ip dst t) dst proto 64 p0)\<lparr>plen := plen p0 + 20\<rparr>"
    have q: "pid q = pid p" "nexts q = nexts p"
      using pbuf_header_Some [OF Some] by (simp_all add: q_def ip4_put_hdr_fields)
    define u where "u = t\<lparr>e1000_default_device := ip4_route_if dst t\<rparr>"
    have u: "same_bufs s u" using t by (simp add: u_def same_bufs_def)
    have "ids_ok u" using o same_bufs_ids [OF u] by (simp add: owned_def)
    then have qu: "same_bufs s (snd (arp_query a u))" for a
      using same_bufs_trans [OF u arp_query_same] by blast
    note steps = release_in [OF _ inp o t q] release_eth [OF o t q] release_eth [OF o u q]
      release_free [OF o qu q]
    from r show ?thesis
      unfolding ip4_output_def ip4_output_ttl_def Let_def t_def [symmetric] Some option.case
        ip4_put_hdr_fields(4) q_def [symmetric] u_def [symmetric]
      by (auto simp: split_beta split: if_splits option.splits elim: steps(1) intro: steps(2-))
  qed
qed

lemma icmp_input_consumes:
  assumes out: "sends out" shows "consumes (\<lambda>p. icmp_input out p src ttl)"
  unfolding consumes_def
proof (intro allI impI)
  fix p s s' assume o: "owned p s" and r: "icmp_input out p src ttl s = Some s'"
  note fr = release_free [OF o _ refl refl] and snd = release_out [OF _ out o same_bufs_refl]
  from r show "released p s s'"
    unfolding icmp_input_def Let_def
    by (auto split: if_splits intro!: fr elim: snd simp: same_bufs_def)
qed

lemma udp_output_sends:
  assumes out: "sends out" and o: "owned p s" and r: "udp_output out p dst sp dp s = Some (x, s')"
  shows "released p s s'"
proof (cases "pbuf_header p (- 8)")
  case None
  with r release_free [OF o same_bufs_refl] show ?thesis by (auto simp: udp_output_def)
next
  case (Some q)
  from r pbuf_header_Some(1,2) [OF Some] show ?thesis
    by (auto simp: udp_output_def Let_def Some elim!: release_out [OF _ out o same_bufs_refl])
qed

lemma udp_strip_frame [simp]: "pid (udp_strip p) = pid p" "nexts (udp_strip p) = nexts p"
  by (simp_all add: udp_strip_def Let_def)

lemma udp_input_consumes:
  assumes out: "sends out" and H: "handlers_ok H" shows "consumes (\<lambda>p. udp_input H out p src dst)"
  unfolding consumes_def
proof (intro allI impI)
  fix p s s' assume o: "owned p s" and r: "udp_input H out p src dst s = Some s'"
  have o': "owned (udp_strip p) s" using o by (simp add: owned_def)
  note echo = udp_output_sends [OF out o'] released_cong [of "udp_strip p" p]
  note up = handlers_okD(1-4) [OF H, THEN release_in [rotated], OF o same_bufs_refl udp_strip_frame, rotated]
  from r release_free [OF o same_bufs_refl refl refl] show "released p s s'"
    unfolding udp_input_def Let_def
    by (auto split: if_splits elim: up dest: echo(1) simp: echo(2))
qed

lemma ip4_deliver_releases:
  assumes out: "sends out" and H: "handlers_ok H" shows "consumes (ip4_deliver H out hl)"
  unfolding consumes_def
proof (intro allI impI)
  fix p s s' assume o: "owned p s" and r: "ip4_deliver H out hl p s = Some s'"
  note up = icmp_input_consumes [OF out] udp_input_consumes [OF out H] handlers_okD(5) [OF H]
  note up' = up [THEN release_in [OF _ _ o same_bufs_refl, rotated]]
  from r release_free [OF o same_bufs_refl refl refl] show "released p s s'"
    unfolding ip4_deliver_def Let_def by (auto split: if_splits elim: up' [rotated -1])
qed

lemma ip4_input_consumes:
  assumes out: "sends out" and H: "handlers_ok H" shows "consumes (ip4_input H out)"
  unfolding consumes_def
proof (intro allI impI)
  fix p s s' assume o: "owned p s" and r: "ip4_input H out p s = Some s'"
  define t where "t = s\<lparr>ip4_rx_count := ip4_rx_count s + 1\<rparr>"
  let ?hl = "(h8 p 0 AND 0x0F) * 4"
  define u where "u = snd (ip4_policy_filter p ?hl t)"
  have t: "same_bufs s t" by (simp add: t_def same_bufs_def)
  have u: "same_bufs s u" unfolding u_def using same_bufs_trans [OF t policy_same] .
  have u': "same_bufs s (u\<lparr>ip4_policy_drop_count := x\<rparr>)" for x using u by (simp add: same_bufs_def)
  note steps = release_free [OF o t] release_free [OF o u] release_free [OF o u']
  note deliver = release_in [OF _ ip4_deliver_releases [OF out H] o u]
  from r show "released p s s'"
    unfolding ip4_input_def Let_def split_beta t_def [symmetric] u_def [symmetric]
    by (auto split: if_splits intro: steps elim: deliver)
qed

text \<open>By induction on the fuel: however deep the loopback recursion goes, a packet is freed
  exactly once, as long as the servers keep the contract.\<close>

lemma ip4_in_consumes:
  assumes H: "\<And>out. sends out \<Longrightarrow> handlers_ok (H out)"
  shows "consumes (ip4_in n H)"
proof (induction n)
  case 0
  then show ?case by (simp add: consumes_def)
next
  case (Suc n)
  from ip4_output_sends [OF Suc] have "consumes (ip4_input (H (ip4_output (ip4_in n H))) (ip4_output (ip4_in n H)))"
    using H ip4_input_consumes by blast
  then show ?case by (simp add: consumes_def)
qed

lemma ethernet_input_consumes:
  assumes f: "consumes f" shows "consumes (ethernet_input f)"
  unfolding consumes_def
proof (intro allI impI)
  fix p s s' assume o: "owned p s" and r: "ethernet_input f p s = Some s'"
  define t where "t = s\<lparr>eth_rx_count := eth_rx_count s + 1\<rparr>"
  have t: "same_bufs s t" by (simp add: t_def same_bufs_def)
  note steps = release_free [OF o t] release_free [OF o same_bufs_refl]
  note up = release_in [OF _ f o t]
  have arp: "released p s (arp_input q t)" if "pid q = pid p" "nexts q = nexts p" for q
    using arp_input_releases [of q t] released_after_same [OF t] same_bufs_owned [OF t o]
      owned_cong [OF that] released_cong [OF that(1)] by blast
  from r show "released p s s'"
    unfolding ethernet_input_def Let_def t_def [symmetric]
    by (auto split: if_splits option.splits simp: pbuf_header_Some(1,2) intro: steps arp elim: up)
qed

section \<open>Filtering\<close>

definition authenticated :: "u32 \<Rightarrow> 'z net_scheme \<Rightarrow> bool" where
  "authenticated a s \<longleftrightarrow> fst (auth_is_authenticated (pit_ticks s) a (net_sessions s))"

text \<open>The services an unauthenticated source may reach: anything addressed to the router
  itself, DHCP and DNS over UDP, HTTP and SSH over TCP.\<close>

definition bootstrap_packet :: "pbuf \<Rightarrow> 'z net_scheme \<Rightarrow> bool" where
  "bootstrap_packet p s \<longleftrightarrow>
     (let dport = ntohs (h16 p (unat ((h8 p 0 AND 0x0F) * 4) + 2))
      in ntohl (h32 p 16) = arp_get_ajos_ip s \<or>
         (h8 p 9 = IP_PROTO_UDP \<and> dport \<in> {53, 67, 68}) \<or>
         (h8 p 9 = IP_PROTO_TCP \<and> dport \<in> {22, 80}))"

lemma policy_filter_sound:
  "fst (ip4_policy_filter p ((h8 p 0 AND 0x0F) * 4) s) \<Longrightarrow> authenticated (ntohl (h32 p 12)) s \<or> bootstrap_packet p s"
  by (auto simp: ip4_policy_filter_def authenticated_def bootstrap_packet_def Let_def split_beta arp_get_ajos_ip_def
      IP_PROTO_UDP_def IP_PROTO_TCP_def split: if_splits)

lemma policy_filter_frame:
  "tx_log (snd (ip4_policy_filter p hl s)) = tx_log s" "ajos_ip (snd (ip4_policy_filter p hl s)) = ajos_ip s"
  by (auto simp: ip4_policy_filter_def Let_def split_beta)

lemma pbuf_free_frame [simp]:
  "tx_log (pbuf_free p s) = tx_log s" "ajos_ip (pbuf_free p s) = ajos_ip s"
proof -
  have "tx_log (fold kfree_pbuf is s) = tx_log s \<and> ajos_ip (fold kfree_pbuf is s) = ajos_ip s" for "is"
    by (induction "is" arbitrary: s) (auto simp: kfree_pbuf_def)
  then show "tx_log (pbuf_free p s) = tx_log s" "ajos_ip (pbuf_free p s) = ajos_ip s"
    unfolding pbuf_free_def by blast+
qed

section \<open>Echo\<close>

text \<open>A UDP datagram from the machine to itself, from port 7 to port 7.\<close>

definition echo_packet :: "u32 \<Rightarrow> pbuf \<Rightarrow> bool" where
  "echo_packet own p \<longleftrightarrow>
     payload p + 28 < PBUF_SIZE \<and> 28 \<le> plen p \<and> plen p < 65536 \<and> h8 p 0 = 0x45 \<and>
     net_checksum (buf p) (payload p) 20 = 0 \<and> h8 p 9 = IP_PROTO_UDP \<and>
     ntohl (h32 p 12) = own \<and> ntohl (h32 p 16) = own \<and> ntohs (h16 p 2) = ucast (plen p) \<and>
     ntohs (h16 p 20) = 7 \<and> ntohs (h16 p 22) = 7"

definition echo_answer :: "u32 \<Rightarrow> pbuf \<Rightarrow> pbuf" where
  "echo_answer own p =
     (let u = p\<lparr>payload := payload p + 20, plen := plen p - 28\<rparr>;
          u = w16 0 (htons 7) u;
          u = w16 2 (htons 7) u;
          u = w16 4 (htons (ucast (plen u) + 8)) u;
          u = w16 6 0 u;
          u = u\<lparr>payload := payload p, plen := plen p - 20\<rparr>
      in (ip4_put_hdr own own IP_PROTO_UDP 64 u)\<lparr>plen := plen p\<rparr>)"

lemma ucast16_plen: assumes "n < 65536" shows "ucast (ucast (n :: u32) :: u16) = n"
proof (rule word_unat_eq_iff [THEN iffD2])
  have "unat (ucast (ucast n :: u16) :: u32) = unat (ucast n :: u16)" by (rule unat_ucast_up) simp
  also have "\<dots> = take_bit 16 (unat n)" by (simp only: unsigned_ucast_eq) simp
  also have "\<dots> = unat n" using assms by (intro take_bit_nat_eq_self) (simp add: word_less_nat_alt)
  finally show "unat (ucast (ucast n :: u16) :: u32) = unat n" .
qed

lemma ucast16_minus: "ucast (n - 20 :: u32) + 20 = (ucast n :: u16)"
proof -
  have *: "(a mod 4294967296 + 20) mod 65536 = (a + 20) mod 65536" for a :: int
    by (subst mod_add_left_eq [symmetric]) (simp add: mod_mod_cancel mod_add_left_eq)
  show ?thesis by transfer (simp add: take_bit_eq_mod mod_simps mod_mod_cancel *)
qed

lemma echo_answer_packet:
  assumes "echo_packet own p" shows "echo_packet own (echo_answer own p)"
proof -
  let ?u0 = "p\<lparr>payload := payload p + 20, plen := plen p - 28\<rparr>"
  define u where "u = w16 6 0 (w16 4 (htons (ucast (plen p - 28) + 8)) (w16 2 (htons 7) (w16 0 (htons 7) ?u0)))"
  define v where "v = u\<lparr>payload := payload p, plen := plen p - 20\<rparr>"
  have u: "h16 u 0 = htons 7" "h16 u 2 = htons 7" by (simp_all add: u_def wire)
  have "h16 v 20 = h16 u 0" "h16 v 22 = h16 u 2"
    by (simp_all add: v_def h16_def u_def add.commute)
  with u have v: "h16 v 20 = htons 7" "h16 v 22 = htons 7" by simp_all
  have a: "echo_answer own p = (ip4_put_hdr own own IP_PROTO_UDP 64 v)\<lparr>plen := plen p\<rparr>"
    by (simp add: echo_answer_def Let_def v_def u_def)
  have l: "ucast (plen v) + 20 = (ucast (plen p) :: u16)"
    by (simp add: v_def ucast16_minus)
  have "net_checksum (buf (ip4_put_hdr own own IP_PROTO_UDP 64 v)) (payload p) 20 = 0"
    using ip4_put_hdr_fields(11) [of own own IP_PROTO_UDP 64 v] by (simp add: ip4_put_hdr_fields(3) v_def)
  moreover have "payload v = payload p" by (simp add: v_def)
  ultimately show ?thesis
    using assms v l unfolding a echo_packet_def by (simp add: ip4_put_hdr_fields wire)
qed

lemma policy_filter_own:
  "ntohl (h32 p 16) = arp_get_ajos_ip s \<Longrightarrow> fst (ip4_policy_filter p hl s)"
  by (auto simp: ip4_policy_filter_def Let_def split_beta arp_get_ajos_ip_def)

text \<open>One round of the echo: the packet goes up through IP and UDP, comes back as its own
  answer, and is handed to \<open>inp\<close> again.\<close>

lemma echo_round:
  assumes e: "echo_packet own p" and own: "ajos_ip s = [own, 0]" "own \<noteq> 0"
  shows "\<exists>s'. ip4_input H (ip4_output inp) p s = inp (echo_answer own p) s' \<and> ajos_ip s' = [own, 0]"
proof -
  note E = e [unfolded echo_packet_def]
  define t where "t = s\<lparr>ip4_rx_count := ip4_rx_count s + 1\<rparr>"
  define u where "u = snd (ip4_policy_filter p 20 t)"
  define v where "v = u\<lparr>ip4_tx_count := ip4_tx_count u + 1\<rparr>"
  have t: "ajos_ip t = [own, 0]" by (simp add: t_def own)
  have u: "ajos_ip u = [own, 0]" using t by (simp add: u_def policy_filter_frame)
  have v: "ajos_ip v = [own, 0]" using u by (simp add: v_def)
  have allow: "fst (ip4_policy_filter p 20 t)"
    by (rule policy_filter_own) (use E t in \<open>simp add: arp_get_ajos_ip_def\<close>)
  have len: "\<not> plen p < 20" "\<not> plen p < 28" "\<not> plen p - 20 < 8" "ucast (ntohs (h16 p 2)) = plen p"
    using E ucast16_plen [of "plen p"] by (auto simp: word_less_nat_alt word_le_nat_alt unat_sub)
  define q where "q = p\<lparr>payload := payload p + 20, plen := plen p - 20\<rparr>"
  have hdr: "pbuf_header_or_same p 20 = p\<lparr>payload := payload p + 20\<rparr>"
    using E by (simp add: pbuf_header_or_same_def pbuf_header_def PBUF_SIZE_def Let_def nat_add_distrib)
  have acc: "ip4_accepts p 20 u"
    using E u own by (simp add: ip4_accepts_def arp_get_ajos_ip_def Let_def)
  have "ip4_input H (ip4_output inp) p s = ip4_deliver H (ip4_output inp) 20 p u"
    using E allow len acc
    by (simp add: ip4_input_def Let_def split_beta t_def [symmetric] u_def [symmetric])
  also have "\<dots> = udp_input H (ip4_output inp) q own own u"
    using E by (simp add: ip4_deliver_def Let_def hdr q_def ip_consts)
  also have "\<dots> = map_option snd (udp_output (ip4_output inp) (udp_strip q) own 7 7 u)"
  proof -
    have "h16 q 0 = h16 p 20" "h16 q 2 = h16 p 22" by (simp_all add: q_def h16_def add.commute)
    then show ?thesis using E len by (simp add: udp_input_def Let_def q_def)
  qed
  also have "\<dots> = inp (echo_answer own p) v"
  proof -
    have strip: "udp_strip q = q\<lparr>payload := payload p + 28, plen := plen p - 28\<rparr>"
      using E by (simp add: udp_strip_def pbuf_header_or_same_def pbuf_header_def PBUF_SIZE_def Let_def q_def
          nat_add_distrib)
    define x where "x = w16 6 0 (w16 4 (htons (ucast (plen p - 28) + 8)) (w16 2 (htons 7) (w16 0 (htons 7)
      (q\<lparr>payload := payload p + 20, plen := plen p - 28\<rparr>))))"
    have up: "pbuf_header (udp_strip q) (- 8) = Some (q\<lparr>payload := payload p + 20, plen := plen p - 28\<rparr>)"
      unfolding strip using E by (simp add: pbuf_header_def PBUF_SIZE_def Let_def)
    have ip: "pbuf_header (x\<lparr>plen := plen p - 20\<rparr>) (- 20) = Some (x\<lparr>payload := payload p, plen := plen p - 20\<rparr>)"
      using E by (simp add: pbuf_header_def PBUF_SIZE_def Let_def x_def)
    have src: "ip4_src_ip own v = own"
      using v own(2) by (simp add: ip4_src_ip_def ip4_route_if_def arp_get_if_ip_def arp_get_ajos_ip_def Let_def)
    have ans: "echo_answer own p =
        (ip4_put_hdr own own IP_PROTO_UDP 64 (x\<lparr>payload := payload p, plen := plen p - 20\<rparr>))\<lparr>plen := plen p\<rparr>"
      by (simp add: echo_answer_def Let_def x_def q_def)
    have "udp_output (ip4_output inp) (udp_strip q) own 7 7 u =
        ip4_output inp (x\<lparr>plen := plen p - 20\<rparr>) own IP_PROTO_UDP u"
      by (simp add: udp_output_def up Let_def x_def)
    also have "\<dots> = map_option (Pair 0) (inp (echo_answer own p) v)"
      using v src
      by (simp add: ip4_output_def ip4_output_ttl_def Let_def v_def [symmetric] ip ip4_put_hdr_fields(4) ans
          arp_get_ajos_ip_def)
    finally show ?thesis by (simp add: option.map_comp comp_def option.map_ident)
  qed
  finally show ?thesis using v by blast
qed

lemma echo_never_returns:
  "echo_packet own p \<Longrightarrow> ajos_ip s = [own, 0] \<Longrightarrow> own \<noteq> 0 \<Longrightarrow> ip4_in n H p s = None"
proof (induction n arbitrary: p s)
  case (Suc n)
  from echo_round [OF Suc.prems, of "H (ip4_output (ip4_in n H))" "ip4_in n H"] obtain s' where
    "ip4_in (Suc n) H p s = ip4_in n H (echo_answer own p) s'" "ajos_ip s' = [own, 0]" by auto
  with Suc.IH [OF echo_answer_packet [OF Suc.prems(1)]] Suc.prems(3) show ?case by simp
qed simp

section \<open>Properties\<close>

definition udp_echo_frame :: "u8 list" where
  "udp_echo_frame = [0x45, 0, 0, 28, 0, 0, 0, 0, 64, 17, 0x62, 0xB4, 10, 0, 2, 15, 10, 0, 2, 15,
     0, 7, 0, 7, 0, 8, 0, 0]"

definition no_handlers :: "'z net_scheme handlers" where
  "no_handlers = \<lparr>dhcp_input_h = (\<lambda>p _ _ s. Some (pbuf_free p s)), dhcpd_handle_h = (\<lambda>p s. Some (pbuf_free p s)),
     dnsd_handle_h = (\<lambda>p _ _ _ s. Some (pbuf_free p s)), dns_input_h = (\<lambda>p s. Some (pbuf_free p s)),
     tcp_input_h = (\<lambda>p _ _ s. Some (pbuf_free p s))\<rparr>"

lemma no_handlers_ok: "handlers_ok no_handlers"
  by (auto simp: handlers_ok_def consumes_def no_handlers_def intro: pbuf_free_released)

lemma udp_echo_packet: "echo_packet 0x0A00020F (pbuf_with udp_echo_frame)"
  by code_simp

text \<open>The IPv4 header that output builds verifies: its checksum over the twenty bytes is 0,
  its fields read back as given, and the payload behind it is untouched.\<close>

theorem ip4_header_verifies:
  fixes src dst proto ttl p
  defines "q \<equiv> ip4_put_hdr src dst proto ttl p"
  shows "net_checksum (buf q) (payload q) 20 = 0 \<and> ntohl (h32 q 12) = src \<and> ntohl (h32 q 16) = dst \<and>
    h8 q 9 = proto \<and> h8 q 8 = ttl \<and> ntohs (h16 q 2) = ucast (plen p) + 20 \<and> (\<forall>j. h8 q (20 + j) = h8 p (20 + j))"
proof
  show "net_checksum (buf q) (payload q) 20 = 0" unfolding q_def by (rule ip4_put_hdr_fields(11))
qed (simp add: q_def ip4_put_hdr_fields(5-10,12) wire)

text \<open>Every received frame is freed exactly once, and no other buffer is touched: through
  Ethernet, ARP, IP, ICMP, UDP and any depth of loopback, provided the servers behind UDP and
  TCP free the buffers they are handed.\<close>

theorem stack_frees_exactly_once:
  assumes H: "\<And>out. sends out \<Longrightarrow> handlers_ok (H out)"
    and o: "owned p s" and r: "ethernet_input (ip4_in n H) p s = Some s'"
  shows "live s' = live s - {pid p} \<and> bad_free s' = bad_free s"
proof -
  have "consumes (ip4_in n H)" by (rule ip4_in_consumes) (rule H)
  from ethernet_input_consumes [OF this] o r show ?thesis unfolding consumes_def released_def by blast
qed

theorem stack_frees_exactly_once_witness:
  "\<exists>s'. ethernet_input (ip4_in 3 (\<lambda>_. no_handlers)) (pbuf_with (replicate 12 0xFF @ [8, 0] @ udp_echo_frame)) 
      (net_boot\<lparr>ajos_ip := [0x0A000210, 0]\<rparr>) = Some s' \<and> live s' = {} \<and> \<not> bad_free s'"
proof -
  let ?p = "pbuf_with (replicate 12 0xFF @ [8, 0] @ udp_echo_frame)"
    and ?s = "net_boot\<lparr>ajos_ip := [0x0A000210, 0]\<rparr>" and ?H = "\<lambda>_. no_handlers"
  have "owned ?p ?s" by (simp add: owned_def ids_ok_def net_boot_def pbuf_with_def)
  moreover have "ethernet_input (ip4_in 3 ?H) ?p ?s \<noteq> None" by code_simp
  ultimately show ?thesis
    using stack_frees_exactly_once [of ?H ?p ?s 3] no_handlers_ok
    by (auto simp: net_boot_def pbuf_with_def)
qed



text \<open>An ICMP echo request is answered with an echo reply whose checksum verifies and whose
  code, identifier, sequence number and data are those of the request.\<close>

theorem icmp_echo_reply_correct:
  assumes "h8 p 0 = 8" "8 \<le> plen p" "plen p < 65536"
  shows "\<exists>q. icmp_input out p src ttl s = map_option snd (out q src IP_PROTO_ICMP s) \<and>
    h8 q 0 = 0 \<and> h8 q 1 = h8 p 1 \<and> (\<forall>j \<ge> 4. h8 q j = h8 p j) \<and>
    payload q = payload p \<and> plen q = plen p \<and> net_checksum (buf q) (payload q) (uint (plen q)) = 0"
proof -
  define r where "r = w8 0 0 p"
  define q where "q = w16 2 (net_checksum (buf (w16 2 0 r)) (payload r) (uint (plen p))) (w16 2 0 r)"
  have n: "unat (plen p) \<le> 65535" "3 < unat (plen p)" using assms by (auto simp: word_less_nat_alt word_le_nat_alt)
  have "uint (plen p) < 65536" using assms(3) by (simp add: word_less_def)
  then have si: "sint (plen p) = uint (plen p)"
    using int_word_sint [of "uint (plen p)", where ?'a = 32] by simp
  have in1: "icmp_input out p src ttl s = map_option snd (out q src IP_PROTO_ICMP s)"
    using assms not_less [of "plen p" 8] by (simp add: icmp_input_def Let_def q_def r_def si)
  have "net_checksum (buf q) (payload r) (int (unat (plen p))) = 0"
    unfolding q_def uint_nat
  proof (rule checksum_field)
    show "2 * 1 + 1 < unat (plen p)" "unat (plen p) \<le> 65535" "2 = 2 * (1::nat)" using n by simp_all
  qed
  then have ck: "net_checksum (buf q) (payload q) (uint (plen q)) = 0" by (simp add: q_def r_def)
  show ?thesis
    by (intro exI [of _ q] conjI in1 ck) (simp_all add: q_def r_def wire)
qed

theorem icmp_echo_reply_correct_witness:
  "\<exists>q. icmp_input (ip4_output (\<lambda>_ _. None)) (pbuf_with [8, 0, 0, 0, 1, 2, 3, 4]) 5 64 net_boot =
     map_option snd (ip4_output (\<lambda>_ _. None) q 5 IP_PROTO_ICMP net_boot) \<and> h8 q 0 = 0"
  using icmp_echo_reply_correct [of "pbuf_with [8, 0, 0, 0, 1, 2, 3, 4]" "ip4_output (\<lambda>_ _. None)" 5 64 net_boot]
  by (auto simp: pbuf_with_def h8_def set_bytes_def PBUF_HEADROOM_def)

text \<open>The UDP echo service answers a datagram that claims to come from the machine itself,
  port 7, to port 7, by sending the same datagram to itself: the recursion through loopback
  never ends, whatever stack depth is allowed.\<close>

theorem udp_echo_to_self_diverges:
  assumes "echo_packet own p" "ajos_ip s = [own, 0]" "own \<noteq> 0"
  shows "ip4_in n H p s = None"
  using assms by (rule echo_never_returns)

theorem udp_echo_to_self_diverges_witness:
  "ip4_in 1000 (\<lambda>_. no_handlers) (pbuf_with udp_echo_frame) net_boot = None"
  using udp_echo_to_self_diverges [OF udp_echo_packet, of net_boot 1000 "\<lambda>_. no_handlers"]
  by (simp add: net_boot_def)

text \<open>Two packets that \<open>ip4_input\<close> should refuse. The header length of the first is two words,
  below the minimum of five; the checksum covers eight bytes only and the packet is delivered. The total
  length of the second is less than its header, and the length handed to the protocol wraps around to
  almost \<open>2 ^ 32\<close>.\<close>

definition ihl2_frame :: "u8 list" where
  "ihl2_frame = [0x42, 0, 0, 20, 0xBD, 0xEB, 0, 0, 64, 6, 0, 0, 10, 0, 2, 15, 10, 0, 2, 15]"

definition short_frame :: "u8 list" where
  "short_frame = [0x45, 0, 0, 4, 0, 0, 0, 0, 64, 6, 0x62, 0xD7, 10, 0, 2, 15, 10, 0, 2, 15]"

text \<open>The handler sees the packet: with a TCP handler that records the length it is given.\<close>

definition probe :: "'z net_scheme handlers" where
  "probe = no_handlers\<lparr>tcp_input_h := (\<lambda>p _ _ s. Some (s\<lparr>pit_ticks := plen p\<rparr>))\<rparr>"

lemma ihl_below_minimum_accepted:
  "map_option pit_ticks (ip4_input probe (ip4_output (\<lambda>_ _. None)) (pbuf_with ihl2_frame) net_boot) = Some 12"
  by code_simp

lemma total_length_below_header_wraps:
  "map_option pit_ticks (ip4_input probe (ip4_output (\<lambda>_ _. None)) (pbuf_with short_frame) net_boot) = Some (- 16)"
  by code_simp

end
