(* ===== verification/Tcp.thy ===== *)
theory Tcp
  imports Ip4 "HOL-Library.Monad_Syntax"
begin

text \<open>
  TCP (\<open>src/tcp.c\<close>, \<open>struct tcp_pcb\<close> of \<open>include/net.h\<close>): the table of sixteen protocol control
  blocks, segment output with the peer's window, the input state machine, and the timer with
  retransmission and the reaper of dead connections.

  A \<open>struct tcp_pcb *\<close> is an index into the table, NULL is \<open>None\<close>. Every function that sends takes
  the output function of IP as an argument (\<open>None\<close>: the recursion through loopback is deeper than
  the stack, see \<open>ip4_in\<close>), and re-reads the block after it, because a segment to the machine
  itself is processed before the output function returns. SSH, HTTP and TLS are the fields of
  \<open>apps\<close>. A \<open>const uint8_t *\<close> is a function from the offset to the byte.
\<close>

section \<open>State\<close>

definition TCP_MAX_PCBS :: nat where "TCP_MAX_PCBS = 16"
definition TCP_MSS :: u16 where "TCP_MSS = 1460"
definition TCP_RTX_TIMEOUT_TICKS :: u32 where "TCP_RTX_TIMEOUT_TICKS = 100"
definition PIT_HZ :: u32 where "PIT_HZ = 100"
definition TCP_RTX_MAX :: u8 where "TCP_RTX_MAX = 3"
definition TCP_RTX_DATA_MAX :: u16 where "TCP_RTX_DATA_MAX = 256"
definition TCP_APP_RX_MAX :: u16 where "TCP_APP_RX_MAX = 49152"

definition TCP_FIN :: u16 where "TCP_FIN = 0x01"
definition TCP_SYN :: u16 where "TCP_SYN = 0x02"
definition TCP_RST :: u16 where "TCP_RST = 0x04"
definition TCP_PSH :: u16 where "TCP_PSH = 0x08"
definition TCP_ACK :: u16 where "TCP_ACK = 0x10"

lemmas tcp_flags = TCP_FIN_def TCP_SYN_def TCP_RST_def TCP_PSH_def TCP_ACK_def
lemmas tcp_consts = TCP_MAX_PCBS_def TCP_MSS_def TCP_RTX_TIMEOUT_TICKS_def PIT_HZ_def TCP_RTX_MAX_def
  TCP_RTX_DATA_MAX_def TCP_APP_RX_MAX_def

datatype tcp_state = TCP_CLOSED | TCP_LISTEN | TCP_SYN_SENT | TCP_SYN_RCVD | TCP_ESTABLISHED
  | TCP_FIN_WAIT_1 | TCP_FIN_WAIT_2 | TCP_CLOSE_WAIT | TCP_CLOSING | TCP_LAST_ACK | TCP_TIME_WAIT

record tcp_pcb =
  local_ip :: u32
  remote_ip :: u32
  local_port :: u16
  remote_port :: u16
  pcb_state :: tcp_state
  state_tick :: u32
  snd_nxt :: u32
  snd_una :: u32
  rcv_nxt :: u32
  peer_wnd :: u16
  last_tx_tick :: u32
  last_tx_flags :: u16
  rtx_count :: u8
  last_tx_seq :: u32
  last_tx_len :: u16
  last_tx_data :: pmem
  app_rx_len :: u16
  app_rx_buf :: pmem

record tnet = net +
  tcp_pcbs :: "tcp_pcb list"
  tcp_local_port_next :: u16

abbreviation pcb_at :: "nat \<Rightarrow> 'z tnet_scheme \<Rightarrow> tcp_pcb" where
  "pcb_at i s \<equiv> tcp_pcbs s ! i"

definition pcb_upd :: "nat \<Rightarrow> (tcp_pcb \<Rightarrow> tcp_pcb) \<Rightarrow> 'z tnet_scheme \<Rightarrow> 'z tnet_scheme" where
  "pcb_upd i f s = s\<lparr>tcp_pcbs := (tcp_pcbs s)[i := f (pcb_at i s)]\<rparr>"

section \<open>The table\<close>

definition tcp_init :: "'z tnet_scheme \<Rightarrow> 'z tnet_scheme" where
  "tcp_init s = s\<lparr>tcp_pcbs := map (\<lambda>p. p\<lparr>pcb_state := TCP_CLOSED, last_tx_tick := 0, last_tx_flags := 0,
     rtx_count := 0, last_tx_seq := 0, last_tx_len := 0, app_rx_len := 0, peer_wnd := 65535,
     state_tick := 0\<rparr>) (tcp_pcbs s)\<rparr>"

fun closing :: "tcp_state \<Rightarrow> bool" where
  "closing TCP_CLOSE_WAIT = True"
| "closing TCP_LAST_ACK = True"
| "closing TCP_FIN_WAIT_1 = True"
| "closing TCP_FIN_WAIT_2 = True"
| "closing TCP_CLOSING = True"
| "closing TCP_TIME_WAIT = True"
| "closing _ = False"

text \<open>The reclaiming scan: \<open>i\<close> is the index of the first block of the list, \<open>old\<close> the oldest closing
  block so far with its tick.\<close>

fun oldest_closing :: "nat \<Rightarrow> tcp_pcb list \<Rightarrow> (nat \<times> u32) option \<Rightarrow> (nat \<times> u32) option" where
  "oldest_closing i [] old = old"
| "oldest_closing i (p # ps) old =
     (if closing (pcb_state p) \<and>
         (case old of None \<Rightarrow> True | Some (_, t) \<Rightarrow> sint (state_tick p - t) < 0)
      then oldest_closing (Suc i) ps (Some (i, state_tick p))
      else oldest_closing (Suc i) ps old)"

definition pcb_drop :: "tcp_pcb \<Rightarrow> tcp_pcb" where
  "pcb_drop p = p\<lparr>pcb_state := TCP_CLOSED, last_tx_flags := 0, last_tx_len := 0, app_rx_len := 0\<rparr>"

definition tcp_get_free_pcb :: "'z tnet_scheme \<Rightarrow> nat option \<times> 'z tnet_scheme" where
  "tcp_get_free_pcb s =
     (case first_idx (\<lambda>p. pcb_state p = TCP_CLOSED) (tcp_pcbs s) of
        Some i \<Rightarrow> (Some i, s)
      | None \<Rightarrow>
          (case oldest_closing 0 (tcp_pcbs s) None of
             Some (i, _) \<Rightarrow> (Some i, pcb_upd i pcb_drop s)
           | None \<Rightarrow> (None, s)))"

definition tcp_get_pcb_at :: "int \<Rightarrow> nat option" where
  "tcp_get_pcb_at idx = (if idx \<ge> 0 \<and> idx < int TCP_MAX_PCBS then Some (nat idx) else None)"

fun tcp_find_from :: "u32 \<Rightarrow> u16 \<Rightarrow> u32 \<Rightarrow> u16 \<Rightarrow> nat \<Rightarrow> tcp_pcb list \<Rightarrow> nat option \<Rightarrow> nat option" where
  "tcp_find_from lip lport rip rport i [] listener = listener"
| "tcp_find_from lip lport rip rport i (p # ps) listener =
     (if pcb_state p = TCP_CLOSED then tcp_find_from lip lport rip rport (Suc i) ps listener
      else if local_port p = lport \<and> remote_port p = rport \<and> remote_ip p = rip \<and> local_ip p = lip then Some i
      else tcp_find_from lip lport rip rport (Suc i) ps
             (if local_port p = lport \<and> pcb_state p = TCP_LISTEN \<and> (local_ip p = 0 \<or> local_ip p = lip)
              then Some i else listener))"

definition tcp_find_pcb :: "u32 \<Rightarrow> u16 \<Rightarrow> u32 \<Rightarrow> u16 \<Rightarrow> 'z tnet_scheme \<Rightarrow> nat option" where
  "tcp_find_pcb lip lport rip rport s = tcp_find_from lip lport rip rport 0 (tcp_pcbs s) None"

section \<open>Output\<close>

text \<open>The checksum sums big-endian words: the pseudo header, then the segment.\<close>

function sum_be :: "pmem \<Rightarrow> nat \<Rightarrow> nat \<Rightarrow> u32 \<Rightarrow> u32" where
  "sum_be m a len acc =
     (if len > 1 then sum_be m (a + 2) (len - 2) (acc + ucast (ntohs (ld16 m a)))
      else if len > 0 then acc + push_bit 8 (ucast (m a))
      else acc)"
  by pat_completeness auto
termination by (relation "measure (\<lambda>(m, a, len, acc). len)") auto

declare sum_be.simps [simp del]

definition tcp_pseudo :: "u32 \<Rightarrow> u32 \<Rightarrow> u16 \<Rightarrow> pmem" where
  "tcp_pseudo src dst len =
     st16 10 (htons len) ((st32 4 (htonl dst) (st32 0 (htonl src) (\<lambda>_. 0)))(8 := 0, 9 := IP_PROTO_TCP))"

definition tcp_checksum :: "pbuf \<Rightarrow> u32 \<Rightarrow> u32 \<Rightarrow> u16" where
  "tcp_checksum p src dst =
     htons (ucast (NOT (fold16 (sum_be (buf p) (payload p) (nat (sint (plen p)))
       (sum_be (tcp_pseudo src dst (ucast (plen p))) 0 12 0)))))"

definition tcp_track_tx :: "nat \<Rightarrow> u16 \<Rightarrow> u32 \<Rightarrow> pmem option \<Rightarrow> u16 \<Rightarrow> 'z tnet_scheme \<Rightarrow> 'z tnet_scheme" where
  "tcp_track_tx i flags seqno data data_len s =
     pcb_upd i (\<lambda>p.
       (case data of
          Some d \<Rightarrow> if data_len > 0 \<and> data_len \<le> TCP_RTX_DATA_MAX
                    then \<lambda>p. p\<lparr>last_tx_len := data_len,
                               last_tx_data := set_bytes 0 (map d [0 ..< unat data_len]) (last_tx_data p)\<rparr>
                    else id
        | None \<Rightarrow> id)
       (p\<lparr>last_tx_tick := pit_ticks s, last_tx_flags := flags, last_tx_seq := seqno, rtx_count := 0,
          last_tx_len := 0\<rparr>)) s"

definition tcp_can_send :: "tcp_pcb \<Rightarrow> u32" where
  "tcp_can_send p =
     (let flight = snd_nxt p - snd_una p; wnd = ucast (peer_wnd p)
      in if flight < wnd then wnd - flight else 0)"

definition tcp_window :: "tcp_pcb \<Rightarrow> u16" where
  "tcp_window p =
     (let free_space = (if app_rx_len p < TCP_APP_RX_MAX then ucast TCP_APP_RX_MAX - ucast (app_rx_len p) else 0 :: u32)
      in if free_space > 65535 then 65535 else ucast free_space)"

definition tcp_put_hdr :: "tcp_pcb \<Rightarrow> u16 \<Rightarrow> u32 \<Rightarrow> pbuf \<Rightarrow> pbuf" where
  "tcp_put_hdr pcb flags seqno p =
     (let p = w16 0 (htons (local_port pcb)) p;
          p = w16 2 (htons (remote_port pcb)) p;
          p = w32 4 (htonl seqno) p;
          p = w32 8 (htonl (rcv_nxt pcb)) p;
          p = w16 14 (htons (tcp_window pcb)) p;
          p = w16 16 0 p;
          p = w16 18 0 p
      in w16 12 (htons (push_bit 12 5 OR flags)) p)"

definition tcp_avail :: "pbuf \<Rightarrow> u16" where
  "tcp_avail p = (if PBUF_SIZE > payload p + 20 then of_nat (PBUF_SIZE - (payload p + 20)) else 0)"

definition tcp_segment :: "tcp_pcb \<Rightarrow> u16 \<Rightarrow> u32 \<Rightarrow> pmem option \<Rightarrow> u16 \<Rightarrow> pbuf \<Rightarrow> pbuf" where
  "tcp_segment pcb flags seqno data copy_len p =
     (let p = tcp_put_hdr pcb flags seqno p;
          p = wbytes 20 (map (case data of Some d \<Rightarrow> d | None \<Rightarrow> (\<lambda>_. 0)) [0 ..< unat copy_len]) p;
          p = p\<lparr>plen := ucast (20 + copy_len)\<rparr>
      in w16 16 (tcp_checksum p (local_ip pcb) (remote_ip pcb)) p)"

definition tcp_output_segment_at :: "'z tnet_scheme outfn \<Rightarrow> nat \<Rightarrow> u16 \<Rightarrow> u32 \<Rightarrow> pmem option \<Rightarrow> u16 \<Rightarrow>
    bool \<Rightarrow> 'z tnet_scheme \<Rightarrow> (int \<times> 'z tnet_scheme) option" where
  "tcp_output_segment_at out i flags seqno data data_len advance_seq s =
     (if data_len > 0 \<and> advance_seq \<and> ucast data_len > tcp_can_send (pcb_at i s) then Some (-1, s)
      else
        case pbuf_alloc s of
          (None, s) \<Rightarrow> Some (-1, s)
        | (Some p, s) \<Rightarrow>
            let p = pbuf_header_or_same p (- 20);
                copy_len = (if data_len > tcp_avail p then tcp_avail p else data_len);
                p = tcp_segment (pcb_at i s) flags seqno data copy_len p
            in do {
                 (ipr, s) \<leftarrow> out p (remote_ip (pcb_at i s)) IP_PROTO_TCP s;
                 if ipr \<noteq> 0 then Some (-1, s)
                 else
                   let s = (if advance_seq \<and> flags AND (TCP_SYN OR TCP_FIN) \<noteq> 0
                            then pcb_upd i (\<lambda>p. p\<lparr>snd_nxt := snd_nxt p + 1\<rparr>) s else s);
                       s = (if advance_seq \<and> copy_len > 0
                            then pcb_upd i (\<lambda>p. p\<lparr>snd_nxt := snd_nxt p + ucast copy_len\<rparr>) s else s)
                   in Some (0, s)
               })"

definition tcp_send_ack :: "'z tnet_scheme outfn \<Rightarrow> nat \<Rightarrow> u16 \<Rightarrow> 'z tnet_scheme \<Rightarrow> 'z tnet_scheme option" where
  "tcp_send_ack out i flags s =
     map_option snd (tcp_output_segment_at out i flags (snd_nxt (pcb_at i s)) None 0 False s)"

definition tcp_announce_window :: "'z tnet_scheme outfn \<Rightarrow> nat option \<Rightarrow> 'z tnet_scheme \<Rightarrow> 'z tnet_scheme option" where
  "tcp_announce_window out pcb s =
     (case pcb of
        None \<Rightarrow> Some s
      | Some i \<Rightarrow> if pcb_state (pcb_at i s) \<noteq> TCP_ESTABLISHED then Some s else tcp_send_ack out i TCP_ACK s)"

section \<open>Connections\<close>

text \<open>The busy wait for the next hop's address. Interrupts run between its rounds: \<open>env k\<close> is what
  they do in round \<open>k\<close> (the clock advances, ARP replies arrive).\<close>

partial_function (option) tcp_arp_wait ::
    "(nat \<Rightarrow> 'z tnet_scheme \<Rightarrow> 'z tnet_scheme) \<Rightarrow> nat \<Rightarrow> u32 \<Rightarrow> u32 \<Rightarrow> 'z tnet_scheme \<Rightarrow> 'z tnet_scheme option" where
  "tcp_arp_wait env k next_hop start s =
     (if arp_get_mac_for_ip next_hop s \<noteq> None then Some s
      else
        let s = snd (arp_query next_hop s)
        in if pit_ticks s - start > TCP_RTX_TIMEOUT_TICKS then Some s
           else tcp_arp_wait env (Suc k) next_hop start (env k s))"

definition tcp_next_hop :: "u32 \<Rightarrow> u32 \<Rightarrow> 'z net_scheme \<Rightarrow> u32" where
  "tcp_next_hop lip rip s =
     (let nm = ip4_get_netmask s; gw = ip4_get_gateway s
      in if lip \<noteq> 0 \<and> nm \<noteq> 0 \<and> gw \<noteq> 0 \<and> rip AND nm \<noteq> lip AND nm then gw else rip)"

definition tcp_open :: "nat \<Rightarrow> u32 \<Rightarrow> u16 \<Rightarrow> 'z tnet_scheme \<Rightarrow> 'z tnet_scheme" where
  "tcp_open i rip rport s =
     (let port = tcp_local_port_next s; nextp = port + 1;
          s = s\<lparr>tcp_local_port_next := (if nextp > 60000 then 10000 else nextp)\<rparr>
      in pcb_upd i (\<lambda>p. p\<lparr>local_ip := arp_get_ajos_ip s, remote_ip := rip, local_port := port, remote_port := rport,
           pcb_state := TCP_SYN_SENT, snd_nxt := 100, snd_una := 100, rcv_nxt := 0, app_rx_len := 0,
           peer_wnd := 65535\<rparr>) s)"

definition tcp_connect :: "'z tnet_scheme outfn \<Rightarrow> (nat \<Rightarrow> 'z tnet_scheme \<Rightarrow> 'z tnet_scheme) \<Rightarrow> nat option \<Rightarrow>
    u32 \<Rightarrow> u16 \<Rightarrow> 'z tnet_scheme \<Rightarrow> (int \<times> 'z tnet_scheme) option" where
  "tcp_connect out env pcb rip rport s =
     (case pcb of
        None \<Rightarrow> Some (-1, s)
      | Some i \<Rightarrow>
          let s = tcp_open i rip rport s
          in do {
               s \<leftarrow> tcp_arp_wait env 0 (tcp_next_hop (local_ip (pcb_at i s)) rip s) (pit_ticks s) s;
               let seq = snd_nxt (pcb_at i s);
               (r, s) \<leftarrow> tcp_output_segment_at out i TCP_SYN seq None 0 True s;
               if r \<noteq> 0 then Some (-1, s) else Some (0, tcp_track_tx i TCP_SYN seq None 0 s)
             })"

function tcp_send_loop :: "'z tnet_scheme outfn \<Rightarrow> nat \<Rightarrow> pmem \<Rightarrow> u16 \<Rightarrow> 'z tnet_scheme \<Rightarrow>
    (int \<times> 'z tnet_scheme) option" where
  "tcp_send_loop out i data len s =
     (if len = 0 then Some (0, s)
      else
        let n = (if len > TCP_MSS then TCP_MSS else len);
            seq = snd_nxt (pcb_at i s)
        in case tcp_output_segment_at out i (TCP_PSH OR TCP_ACK) seq (Some data) n True s of
             None \<Rightarrow> None
           | Some (r, s) \<Rightarrow>
               if r \<noteq> 0 then Some (-1, s)
               else tcp_send_loop out i (\<lambda>k. data (unat n + k)) (len - n)
                      (tcp_track_tx i (TCP_PSH OR TCP_ACK) seq (Some data) n s))"
  by pat_completeness auto
termination
proof (relation "measure (\<lambda>(out, i, data, len, s). unat len)", goal_cases)
  case (2 out i data len s n seq x r t)
  then have "n \<noteq> 0" "n \<le> len" by (auto simp: TCP_MSS_def split: if_splits)
  then have "unat n \<noteq> 0" "unat n \<le> unat len" by (simp_all add: unat_eq_zero word_le_nat_alt)
  then show ?case using \<open>n \<le> len\<close> by (simp add: unat_sub)
qed simp

declare tcp_send_loop.simps [simp del]

definition tcp_send :: "'z tnet_scheme outfn \<Rightarrow> nat option \<Rightarrow> pmem \<Rightarrow> u16 \<Rightarrow> 'z tnet_scheme \<Rightarrow>
    (int \<times> 'z tnet_scheme) option" where
  "tcp_send out pcb data len s =
     (case pcb of
        None \<Rightarrow> Some (-1, s)
      | Some i \<Rightarrow> if pcb_state (pcb_at i s) \<noteq> TCP_ESTABLISHED then Some (-1, s) else tcp_send_loop out i data len s)"

definition tcp_send_data :: "'z tnet_scheme outfn \<Rightarrow> nat option \<Rightarrow> pmem \<Rightarrow> u16 \<Rightarrow> 'z tnet_scheme \<Rightarrow>
    (int \<times> 'z tnet_scheme) option" where
  "tcp_send_data out pcb data len s =
     (case pcb of
        None \<Rightarrow> Some (-1, s)
      | Some i \<Rightarrow>
          if pcb_state (pcb_at i s) \<noteq> TCP_ESTABLISHED then Some (-1, s)
          else do {
            let seq = snd_nxt (pcb_at i s);
            (r, s) \<leftarrow> tcp_output_segment_at out i (TCP_PSH OR TCP_ACK) seq (Some data) len True s;
            Some (if r \<noteq> 0 then -1 else 0, tcp_track_tx i (TCP_PSH OR TCP_ACK) seq (Some data) len s)
          })"

definition tcp_close :: "'z tnet_scheme outfn \<Rightarrow> nat option \<Rightarrow> 'z tnet_scheme \<Rightarrow> (int \<times> 'z tnet_scheme) option" where
  "tcp_close out pcb s =
     (case pcb of
        None \<Rightarrow> Some (-1, s)
      | Some i \<Rightarrow>
          if pcb_state (pcb_at i s) \<noteq> TCP_ESTABLISHED \<and> pcb_state (pcb_at i s) \<noteq> TCP_CLOSE_WAIT then Some (-1, s)
          else do {
            let seq = snd_nxt (pcb_at i s);
            (r, s) \<leftarrow> tcp_output_segment_at out i (TCP_FIN OR TCP_ACK) seq None 0 True s;
            if r \<noteq> 0 then Some (-1, s)
            else Some (0, tcp_track_tx i (TCP_FIN OR TCP_ACK) seq None 0
                            (pcb_upd i (\<lambda>p. p\<lparr>snd_una := seq, pcb_state := TCP_LAST_ACK\<rparr>) s))
          })"

section \<open>The timer\<close>

definition tcp_dead :: "u32 \<Rightarrow> tcp_pcb \<Rightarrow> bool" where
  "tcp_dead now p \<longleftrightarrow>
     (pcb_state p = TCP_ESTABLISHED \<and> local_port p \<noteq> 22 \<and> state_tick p \<noteq> 0 \<and> now - state_tick p > PIT_HZ * 60) \<or>
     (closing (pcb_state p) \<and> state_tick p \<noteq> 0 \<and> now - state_tick p > PIT_HZ * 30)"

definition tcp_outstanding :: "tcp_pcb \<Rightarrow> bool" where
  "tcp_outstanding p \<longleftrightarrow>
     snd_una p < snd_nxt p \<or>
     (if last_tx_len p > 0 \<and> snd_nxt p = last_tx_seq p then True
      else last_tx_flags p AND (TCP_SYN OR TCP_FIN) \<noteq> 0 \<and> snd_nxt p = last_tx_seq p)"

definition tcp_give_up :: "tcp_pcb \<Rightarrow> tcp_pcb" where
  "tcp_give_up p =
     (let p = p\<lparr>last_tx_flags := 0, last_tx_len := 0\<rparr>
      in if pcb_state p = TCP_SYN_SENT \<or> pcb_state p = TCP_SYN_RCVD \<or> pcb_state p = TCP_LAST_ACK
         then p\<lparr>pcb_state := TCP_CLOSED\<rparr> else p)"

definition tcp_bump :: "tcp_pcb \<Rightarrow> u32" where
  "tcp_bump p =
     (if snd_nxt p = last_tx_seq p
      then if last_tx_flags p AND (TCP_SYN OR TCP_FIN) \<noteq> 0 then 1 else ucast (last_tx_len p)
      else 0)"

definition tcp_tick_pcb :: "'z tnet_scheme outfn \<Rightarrow> nat \<Rightarrow> 'z tnet_scheme \<Rightarrow> 'z tnet_scheme option" where
  "tcp_tick_pcb out i s =
     (let p = pcb_at i s
      in if tcp_dead (pit_ticks s) p then Some (pcb_upd i pcb_drop s)
         else if last_tx_flags p = 0 then Some s
         else if \<not> tcp_outstanding p then Some s
         else if pit_ticks s - last_tx_tick p < TCP_RTX_TIMEOUT_TICKS then Some s
         else if rtx_count p \<ge> TCP_RTX_MAX then Some (pcb_upd i tcp_give_up s)
         else
           let s = pcb_upd i (\<lambda>p. p\<lparr>rtx_count := rtx_count p + 1, last_tx_tick := pit_ticks s\<rparr>) s;
               bump = tcp_bump (pcb_at i s)
           in do {
                (r, s) \<leftarrow> tcp_output_segment_at out i (last_tx_flags p) (last_tx_seq p)
                            (if last_tx_len p \<noteq> 0 then Some (last_tx_data p) else None) (last_tx_len p) False s;
                Some (if r = 0 \<and> bump \<noteq> 0 then pcb_upd i (\<lambda>p. p\<lparr>snd_nxt := snd_nxt p + bump\<rparr>) s else s)
              })"

fun tcp_tick_from :: "'z tnet_scheme outfn \<Rightarrow> nat list \<Rightarrow> 'z tnet_scheme \<Rightarrow> 'z tnet_scheme option" where
  "tcp_tick_from out [] s = Some s"
| "tcp_tick_from out (i # is) s = Option.bind (tcp_tick_pcb out i s) (tcp_tick_from out is)"

definition tcp_tick :: "'z tnet_scheme outfn \<Rightarrow> u32 \<Rightarrow> 'z tnet_scheme \<Rightarrow> 'z tnet_scheme option" where
  "tcp_tick out now_ticks s = tcp_tick_from out [0 ..< TCP_MAX_PCBS] s"

section \<open>Input\<close>

definition TCP_HDR_OFFSET :: "pbuf \<Rightarrow> u16" where "TCP_HDR_OFFSET p = drop_bit 12 (ntohs (h16 p 12))"
definition TCP_HDR_FLAGS :: "pbuf \<Rightarrow> u16" where "TCP_HDR_FLAGS p = ntohs (h16 p 12) AND 0x0FFF"

text \<open>The applications above TCP. They get the connection and, where they are handed data, its
  bytes.\<close>

record 's apps =
  ssh_handle_new_connection :: "nat \<Rightarrow> 's \<Rightarrow> 's option"
  ssh_handle_connection :: "nat \<Rightarrow> u8 list \<Rightarrow> 's \<Rightarrow> 's option"
  ssh_handle_connection_close :: "nat \<Rightarrow> 's \<Rightarrow> 's option"
  http_handle_connection :: "nat \<Rightarrow> u8 list \<Rightarrow> 's \<Rightarrow> 's option"
  tls_server_input :: "nat \<Rightarrow> 's \<Rightarrow> 's option"

definition crlf_crlf :: "pmem \<Rightarrow> nat \<Rightarrow> nat option" where
  "crlf_crlf b n = first_idx (\<lambda>i. b i = 13 \<and> b (i + 1) = 10 \<and> b (i + 2) = 13 \<and> b (i + 3) = 10) [0 ..< n - 3]"

definition content_length_at :: "pmem \<Rightarrow> nat \<Rightarrow> nat option" where
  "content_length_at b n =
     first_idx (\<lambda>i. get_bytes i 15 b = [67, 111, 110, 116, 101, 110, 116, 45, 76, 101, 110, 103, 116, 104, 58])
       [0 ..< n - 15]"

fun parse_digits :: "u8 list \<Rightarrow> u32 \<Rightarrow> u32" where
  "parse_digits [] acc = acc"
| "parse_digits (c # cs) acc =
     (if c \<ge> 48 \<and> c \<le> 57 then parse_digits cs (acc * 10 + (ucast c - 48)) else acc)"

text \<open>The value of the \<open>Content-Length\<close> header, -1 without one. The C \<open>int\<close> wraps on overflow.\<close>

definition content_length :: "pmem \<Rightarrow> nat \<Rightarrow> int" where
  "content_length b n =
     (case content_length_at b n of
        None \<Rightarrow> -1
      | Some i \<Rightarrow> sint (parse_digits (dropWhile (\<lambda>c. c = 32) (get_bytes (i + 15) (n - (i + 15)) b)) 0))"

definition http_request_complete :: "pmem \<Rightarrow> nat \<Rightarrow> bool" where
  "http_request_complete b n \<longleftrightarrow>
     n \<ge> 14 \<and>
     (case crlf_crlf b n of
        None \<Rightarrow> False
      | Some body \<Rightarrow>
          \<not> (get_bytes 0 4 b = [80, 79, 83, 84] \<and> content_length b n \<ge> 0 \<and>
             int n - int (body + 4) < content_length b n))"

definition tcp_check_http_data :: "'z tnet_scheme apps \<Rightarrow> nat \<Rightarrow> 'z tnet_scheme \<Rightarrow> 'z tnet_scheme option" where
  "tcp_check_http_data A i s =
     (let p = pcb_at i s; n = unat (app_rx_len p)
      in if local_port p \<noteq> 80 then Some s
         else if \<not> http_request_complete (app_rx_buf p) n then Some s
         else map_option (pcb_upd i (\<lambda>p. p\<lparr>app_rx_len := 0\<rparr>))
                (http_handle_connection A i (get_bytes 0 n (app_rx_buf p)) s))"

text \<open>The staging of received bytes, shared by the two receiving states.\<close>

definition app_rx_append :: "u8 list \<Rightarrow> tcp_pcb \<Rightarrow> tcp_pcb" where
  "app_rx_append bs p =
     (let avail = int (unat TCP_APP_RX_MAX) - int (unat (app_rx_len p));
          n = (if int (length bs) > avail then avail else int (length bs))
      in p\<lparr>app_rx_buf := set_bytes (unat (app_rx_len p)) (take (nat n) bs) (app_rx_buf p),
           app_rx_len := app_rx_len p + word_of_int n\<rparr>)"

text \<open>A SYN on a listening block.\<close>

definition tcp_accept :: "'z tnet_scheme outfn \<Rightarrow> nat \<Rightarrow> pbuf \<Rightarrow> u32 \<Rightarrow> u32 \<Rightarrow> 'z tnet_scheme \<Rightarrow> 'z tnet_scheme option" where
  "tcp_accept out i p src dst s =
     (case tcp_get_free_pcb s of
        (None, s) \<Rightarrow> Some (pbuf_free p s)
      | (Some j, s) \<Rightarrow>
          let isn = 1000 + pit_ticks s mod 10000;
              lport = local_port (pcb_at i s);
              s = pcb_upd j (\<lambda>q. q\<lparr>local_ip := dst, local_port := lport, remote_ip := src,
                    remote_port := ntohs (h16 p 0), rcv_nxt := ntohl (h32 p 4) + 1, snd_nxt := isn, snd_una := isn,
                    pcb_state := TCP_SYN_RCVD, state_tick := pit_ticks s, app_rx_len := 0, peer_wnd := 65535\<rparr>) s
          in do {
               (r, s) \<leftarrow> tcp_output_segment_at out j (TCP_SYN OR TCP_ACK) (snd_nxt (pcb_at j s)) None 0 True s;
               if r \<noteq> 0 then Some (pbuf_free p (pcb_upd j (\<lambda>q. q\<lparr>pcb_state := TCP_CLOSED\<rparr>) s))
               else Some (pbuf_free p (tcp_track_tx j (TCP_SYN OR TCP_ACK) (snd_una (pcb_at j s)) None 0 s))
             })"

definition tcp_in_syn_sent :: "'z tnet_scheme outfn \<Rightarrow> nat \<Rightarrow> pbuf \<Rightarrow> 'z tnet_scheme \<Rightarrow> 'z tnet_scheme option" where
  "tcp_in_syn_sent out i p s =
     (let flags = TCP_HDR_FLAGS p; seq = ntohl (h32 p 4); ack = ntohl (h32 p 8)
      in if flags AND (TCP_SYN OR TCP_ACK) = TCP_SYN OR TCP_ACK then
           if ack = snd_nxt (pcb_at i s)
           then tcp_send_ack out i TCP_ACK
                  (pcb_upd i (\<lambda>q. q\<lparr>rcv_nxt := seq + 1, snd_una := ack, pcb_state := TCP_ESTABLISHED,
                     last_tx_flags := 0, last_tx_len := 0, peer_wnd := ntohs (h16 p 14)\<rparr>) s)
           else Some s
         else if flags AND TCP_RST \<noteq> 0 then Some (pcb_upd i (\<lambda>q. q\<lparr>pcb_state := TCP_CLOSED\<rparr>) s)
         else Some s)"

text \<open>The payload of a segment: \<open>None\<close> unless the header lies within the segment; the C length is an
  \<open>int\<close> and may be negative.\<close>

definition tcp_data_len :: "pbuf \<Rightarrow> u16 \<Rightarrow> int" where
  "tcp_data_len p hl = sint (plen p - ucast hl)"

definition tcp_payload :: "pbuf \<Rightarrow> u16 \<Rightarrow> u8 list" where
  "tcp_payload p hl = hbytes p (unat hl) (nat (tcp_data_len p hl))"

text \<open>The data that some clients send with the segment that completes the handshake.\<close>

definition tcp_first_data :: "'z tnet_scheme apps \<Rightarrow> 'z tnet_scheme outfn \<Rightarrow> nat \<Rightarrow> u16 \<Rightarrow> pbuf \<Rightarrow>
    'z tnet_scheme \<Rightarrow> 'z tnet_scheme option" where
  "tcp_first_data A out i hl p s =
     (if hl \<ge> 20 \<and> ucast hl \<le> plen p \<and> tcp_data_len p hl > 0 \<and> ntohl (h32 p 4) = rcv_nxt (pcb_at i s) then
        do {
          let s = pcb_upd i (\<lambda>q. q\<lparr>rcv_nxt := rcv_nxt q + word_of_int (tcp_data_len p hl)\<rparr>) s;
          s \<leftarrow> (if local_port (pcb_at i s) = 22 then ssh_handle_connection A i (tcp_payload p hl) s
                else
                  let s = pcb_upd i (app_rx_append (tcp_payload p hl)) s
                  in if local_port (pcb_at i s) = 80 then tcp_check_http_data A i s else Some s);
          tcp_send_ack out i TCP_ACK s
        }
      else Some s)"

definition tcp_in_syn_rcvd :: "'z tnet_scheme apps \<Rightarrow> 'z tnet_scheme outfn \<Rightarrow> nat \<Rightarrow> u16 \<Rightarrow> pbuf \<Rightarrow>
    'z tnet_scheme \<Rightarrow> 'z tnet_scheme option" where
  "tcp_in_syn_rcvd A out i hl p s =
     (let flags = TCP_HDR_FLAGS p; ack = ntohl (h32 p 8)
      in if flags AND TCP_ACK \<noteq> 0 then
           if ack = snd_nxt (pcb_at i s) then
             do {
               let s = pcb_upd i (\<lambda>q. q\<lparr>pcb_state := TCP_ESTABLISHED, snd_una := ack, last_tx_flags := 0,
                         last_tx_len := 0, peer_wnd := ntohs (h16 p 14)\<rparr>) s;
               s \<leftarrow> (if local_port (pcb_at i s) = 22 then ssh_handle_new_connection A i s else Some s);
               tcp_first_data A out i hl p s
             }
           else Some s
         else if flags AND TCP_RST \<noteq> 0 then Some (pcb_upd i (\<lambda>q. q\<lparr>pcb_state := TCP_CLOSED\<rparr>) s)
         else Some s)"

text \<open>Acknowledgement processing in the established state.\<close>

definition tcp_tracked_end :: "tcp_pcb \<Rightarrow> u32" where
  "tcp_tracked_end q = last_tx_seq q +
     (if last_tx_flags q AND (TCP_SYN OR TCP_FIN) \<noteq> 0 then 1 else ucast (last_tx_len q))"

definition tcp_acked :: "u32 \<Rightarrow> tcp_pcb \<Rightarrow> tcp_pcb" where
  "tcp_acked ack q =
     (let q = (if ack > snd_una q then q\<lparr>snd_una := ack\<rparr> else q)
      in if last_tx_flags q \<noteq> 0 \<and> ack \<ge> tcp_tracked_end q
         then q\<lparr>last_tx_flags := 0, last_tx_len := 0, rtx_count := 0\<rparr> else q)"

definition tcp_in_data :: "'z tnet_scheme apps \<Rightarrow> 'z tnet_scheme outfn \<Rightarrow> nat \<Rightarrow> u16 \<Rightarrow> pbuf \<Rightarrow>
    'z tnet_scheme \<Rightarrow> 'z tnet_scheme option" where
  "tcp_in_data A out i hl p s =
     (if hl < 20 \<or> ucast hl > plen p \<or> tcp_data_len p hl \<le> 0 then Some s
      else do {
        s \<leftarrow> (if ntohl (h32 p 4) = rcv_nxt (pcb_at i s) then
                let s = pcb_upd i (\<lambda>q. q\<lparr>rcv_nxt := rcv_nxt q + word_of_int (tcp_data_len p hl)\<rparr>) s
                in if local_port (pcb_at i s) = 22 then ssh_handle_connection A i (tcp_payload p hl) s
                   else do {
                     let s = pcb_upd i (app_rx_append (tcp_payload p hl)) s;
                     s \<leftarrow> (if app_rx_len (pcb_at i s) < TCP_APP_RX_MAX \<and> local_port (pcb_at i s) = 80
                           then tcp_check_http_data A i s else Some s);
                     if local_port (pcb_at i s) = 443 then tls_server_input A i s else Some s
                   }
              else Some s);
        tcp_send_ack out i TCP_ACK s
      })"

definition tcp_in_fin :: "'z tnet_scheme apps \<Rightarrow> 'z tnet_scheme outfn \<Rightarrow> nat \<Rightarrow> pbuf \<Rightarrow>
    'z tnet_scheme \<Rightarrow> 'z tnet_scheme option" where
  "tcp_in_fin A out i p s =
     do {
       s \<leftarrow> tcp_send_ack out i TCP_ACK (pcb_upd i (\<lambda>q. q\<lparr>rcv_nxt := ntohl (h32 p 4) + 1\<rparr>) s);
       let s = pcb_upd i (\<lambda>q. q\<lparr>pcb_state := TCP_CLOSE_WAIT\<rparr>) s;
       if local_port (pcb_at i s) = 22 then ssh_handle_connection_close A i s
       else map_option snd (tcp_close out (Some i) s)
     }"

definition tcp_in_established :: "'z tnet_scheme apps \<Rightarrow> 'z tnet_scheme outfn \<Rightarrow> nat \<Rightarrow> u16 \<Rightarrow> pbuf \<Rightarrow>
    'z tnet_scheme \<Rightarrow> 'z tnet_scheme option" where
  "tcp_in_established A out i hl p s =
     (let flags = TCP_HDR_FLAGS p
      in if flags AND TCP_RST \<noteq> 0 then
           let s = pcb_upd i (\<lambda>q. q\<lparr>pcb_state := TCP_CLOSED, last_tx_flags := 0, last_tx_len := 0\<rparr>) s
           in if local_port (pcb_at i s) = 22 then ssh_handle_connection_close A i s else Some s
         else
           let s = (if flags AND TCP_ACK \<noteq> 0 then pcb_upd i (tcp_acked (ntohl (h32 p 8))) s else s);
               s = pcb_upd i (\<lambda>q. q\<lparr>peer_wnd := ntohs (h16 p 14)\<rparr>) s
           in if flags AND TCP_FIN \<noteq> 0 then tcp_in_fin A out i p s else tcp_in_data A out i hl p s)"

definition tcp_in_last_ack :: "'z tnet_scheme apps \<Rightarrow> nat \<Rightarrow> pbuf \<Rightarrow> 'z tnet_scheme \<Rightarrow> 'z tnet_scheme option" where
  "tcp_in_last_ack A i p s =
     (if TCP_HDR_FLAGS p AND TCP_ACK \<noteq> 0 then
        let s = pcb_upd i (\<lambda>q. q\<lparr>pcb_state := TCP_CLOSED, last_tx_flags := 0, last_tx_len := 0\<rparr>) s
        in if local_port (pcb_at i s) = 22 then ssh_handle_connection_close A i s else Some s
      else Some s)"

definition tcp_input :: "'z tnet_scheme apps \<Rightarrow> 'z tnet_scheme outfn \<Rightarrow> pbuf \<Rightarrow> u32 \<Rightarrow> u32 \<Rightarrow>
    'z tnet_scheme \<Rightarrow> 'z tnet_scheme option" where
  "tcp_input A out p src dst s =
     (if plen p < 20 then Some (pbuf_free p s)
      else
        let flags = TCP_HDR_FLAGS p;
            off_words = TCP_HDR_OFFSET p
        in if off_words < 5 \<or> off_words > 15 then Some (pbuf_free p s)
           else
             let hl = off_words * 4
             in case tcp_find_pcb dst (ntohs (h16 p 2)) src (ntohs (h16 p 0)) s of
                  None \<Rightarrow> Some (pbuf_free p s)
                | Some i \<Rightarrow>
                    let s = pcb_upd i (\<lambda>q. q\<lparr>state_tick := pit_ticks s\<rparr>) s
                    in if pcb_state (pcb_at i s) = TCP_LISTEN then
                         if flags AND TCP_SYN \<noteq> 0 then tcp_accept out i p src dst s else Some (pbuf_free p s)
                       else
                         map_option (pbuf_free p)
                           (case pcb_state (pcb_at i s) of
                              TCP_SYN_SENT \<Rightarrow> tcp_in_syn_sent out i p s
                            | TCP_SYN_RCVD \<Rightarrow> tcp_in_syn_rcvd A out i hl p s
                            | TCP_ESTABLISHED \<Rightarrow> tcp_in_established A out i hl p s
                            | TCP_LAST_ACK \<Rightarrow> tcp_in_last_ack A i p s
                            | _ \<Rightarrow> Some s))"

end
