(* ===== verification/Tcp_Keeps.thy ===== *)
theory Tcp_Keeps
  imports Tcp
begin

text \<open>
  What the operations of TCP keep. Their contract with the output function below them and the
  applications above them is the locale \<open>tcp_keeps\<close>; its instances show that no packet buffer is
  lost, that the arrays of the protocol control blocks are never left, and that nothing but a
  handshake establishes a connection.
\<close>

section \<open>What every operation keeps\<close>

lemma tcp_acked_fields [simp]:
  "app_rx_len (tcp_acked a q) = app_rx_len q" "app_rx_buf (tcp_acked a q) = app_rx_buf q"
  "last_tx_data (tcp_acked a q) = last_tx_data q" "pcb_state (tcp_acked a q) = pcb_state q"
  "rcv_nxt (tcp_acked a q) = rcv_nxt q" "local_port (tcp_acked a q) = local_port q"
  "remote_port (tcp_acked a q) = remote_port q" "local_ip (tcp_acked a q) = local_ip q"
  "remote_ip (tcp_acked a q) = remote_ip q" "snd_nxt (tcp_acked a q) = snd_nxt q"
  "last_tx_len (tcp_acked a q) = last_tx_len q \<or> last_tx_len (tcp_acked a q) = 0"
  by (auto simp: tcp_acked_def Let_def)

lemma app_rx_append_fields [simp]:
  "pcb_state (app_rx_append bs q) = pcb_state q" "rcv_nxt (app_rx_append bs q) = rcv_nxt q"
  "local_port (app_rx_append bs q) = local_port q" "remote_port (app_rx_append bs q) = remote_port q"
  "local_ip (app_rx_append bs q) = local_ip q" "remote_ip (app_rx_append bs q) = remote_ip q"
  by (simp_all add: app_rx_append_def Let_def)

text \<open>\<open>freed p R s m\<close>: the computation ends by freeing the received buffer \<open>p\<close>.\<close>

definition freed :: "pbuf \<Rightarrow> ('z tnet_scheme \<Rightarrow> 'z tnet_scheme \<Rightarrow> bool) \<Rightarrow> 'z tnet_scheme \<Rightarrow> 'z tnet_scheme option \<Rightarrow> bool" where
  "freed p R s m \<longleftrightarrow> after (\<lambda>s u. \<exists>t. R s t \<and> u = pbuf_free p t) s m"

lemma freed_rules:
  "R s t \<Longrightarrow> freed p R s (Some (pbuf_free p t))"
  "after R s m \<Longrightarrow> freed p R s (map_option (pbuf_free p) m)"
  "after_pair R s m2 \<Longrightarrow> (\<And>r t. R s t \<Longrightarrow> freed p R s (g r t)) \<Longrightarrow> freed p R s (Option.bind m2 (\<lambda>(r, t). g r t))"
  by (auto simp: freed_def after_def after_pair_def Option.bind_eq_Some_conv)

definition apps_keep :: "('z tnet_scheme \<Rightarrow> 'z tnet_scheme \<Rightarrow> bool) \<Rightarrow> 'z tnet_scheme apps \<Rightarrow> bool" where
  "apps_keep R A \<longleftrightarrow> (\<forall>i s. after R s (ssh_handle_new_connection A i s) \<and>
     (\<forall>bs. after R s (ssh_handle_connection A i bs s)) \<and> after R s (ssh_handle_connection_close A i s) \<and>
     (\<forall>bs. after R s (http_handle_connection A i bs s)) \<and> after R s (tls_server_input A i s))"

lemma apps_keepD:
  assumes "apps_keep R A"
  shows "after R s (ssh_handle_new_connection A i s)" "after R s (ssh_handle_connection A i bs s)"
    "after R s (ssh_handle_connection_close A i s)" "after R s (http_handle_connection A i bs s)"
    "after R s (tls_server_input A i s)"
  using assms by (simp_all add: apps_keep_def)

text \<open>Applications that do nothing.\<close>

definition no_apps :: "'s apps" where
  "no_apps = \<lparr>ssh_handle_new_connection = (\<lambda>_. Some), ssh_handle_connection = (\<lambda>_ _. Some),
     ssh_handle_connection_close = (\<lambda>_. Some), http_handle_connection = (\<lambda>_ _. Some), tls_server_input = (\<lambda>_. Some)\<rparr>"

lemma no_apps_keep: "(\<And>s. R s s) \<Longrightarrow> apps_keep R no_apps"
  by (simp add: apps_keep_def no_apps_def after_def)

text \<open>The contract of the operations of TCP with the functions around them. \<open>R\<close> is what is kept,
  \<open>Q\<close> what it asks of a change of one block, \<open>out_ok\<close> what it asks of the output function; the
  operations then keep \<open>R\<close>.\<close>

locale tcp_keeps =
  fixes R :: "'z tnet_scheme \<Rightarrow> 'z tnet_scheme \<Rightarrow> bool"
    and Q :: "tcp_pcb \<Rightarrow> tcp_pcb \<Rightarrow> bool"
    and out_ok :: "'z tnet_scheme outfn \<Rightarrow> bool"
  assumes R_refl: "R s s"
    and R_trans: "R s t \<Longrightarrow> R t u \<Longrightarrow> R s u"
    and R_upd: "(\<And>x. Q x (f x)) \<Longrightarrow> R s (pcb_upd i f s)"
    and R_port: "R s (s\<lparr>tcp_local_port_next := n\<rparr>)"
    and R_query: "R s (snd (arp_query a s))"
    and R_no_buffer: "pbuf_alloc s = (None, t) \<Longrightarrow> R s t"
    and R_out: "\<lbrakk>out_ok out; pbuf_alloc s = (Some p, t); pid q = pid p; nexts q = nexts p; out q d pr t = Some (r, u)\<rbrakk> \<Longrightarrow> R s u"
    and Q_clear: "\<lbrakk>app_rx_len y = app_rx_len x \<or> app_rx_len y = 0; last_tx_len y = last_tx_len x \<or> last_tx_len y = 0;
      app_rx_buf y = app_rx_buf x; last_tx_data y = last_tx_data x;
      pcb_state y = TCP_ESTABLISHED \<Longrightarrow> pcb_state x = TCP_ESTABLISHED\<rbrakk> \<Longrightarrow> Q x y"
    and Q_track: "\<lbrakk>last_tx_len y \<le> TCP_RTX_DATA_MAX; \<And>k. 256 \<le> k \<Longrightarrow> last_tx_data y k = last_tx_data x k;
      app_rx_len y = app_rx_len x; app_rx_buf y = app_rx_buf x; pcb_state y = pcb_state x\<rbrakk> \<Longrightarrow> Q x y"
    and Q_append: "Q x (app_rx_append bs x)"
begin

lemma upd: "R s t \<Longrightarrow> (\<And>p. Q p (f p)) \<Longrightarrow> R s (pcb_upd i f t)"
  using R_trans R_upd by blast

lemma upd_clear:
  "R s t \<Longrightarrow> (\<And>p. (app_rx_len (f p) = app_rx_len p \<or> app_rx_len (f p) = 0) \<and>
     (last_tx_len (f p) = last_tx_len p \<or> last_tx_len (f p) = 0) \<and>
     app_rx_buf (f p) = app_rx_buf p \<and> last_tx_data (f p) = last_tx_data p \<and>
     (pcb_state (f p) = TCP_ESTABLISHED \<longrightarrow> pcb_state p = TCP_ESTABLISHED)) \<Longrightarrow> R s (pcb_upd i f t)"
  using upd Q_clear by blast

lemma append: "R s t \<Longrightarrow> R s (pcb_upd i (app_rx_append bs) t)"
  using upd Q_append by blast

lemma track: "R s t \<Longrightarrow> R s (tcp_track_tx i flags seqno data n t)"
  unfolding tcp_track_tx_def
  by (rule upd) (auto simp: set_bytes_def word_le_nat_alt TCP_RTX_DATA_MAX_def intro: Q_track Q_clear split: option.splits)

lemma after_trans: "R s t \<Longrightarrow> after R t m \<Longrightarrow> after R s m"
  unfolding after_def using R_trans by blast

lemma after_pair_trans: "R s t \<Longrightarrow> after_pair R t m \<Longrightarrow> after_pair R s m"
  unfolding after_pair_def using R_trans by blast

lemma output_segment:
  assumes out: "out_ok out"
  shows "after_pair R s (tcp_output_segment_at out i flags seqno data n adv s)"
proof (cases "n > 0 \<and> adv \<and> ucast n > tcp_can_send (pcb_at i s)")
  case True
  then show ?thesis by (auto simp: tcp_output_segment_at_def after_pair_def R_refl)
next
  case False
  show ?thesis
  proof (cases "pbuf_alloc s")
    case (Pair a t)
    show ?thesis
    proof (cases a)
      case None
      with Pair R_no_buffer [of s t] False show ?thesis
        by (auto simp: tcp_output_segment_at_def after_pair_def)
    next
      case (Some p)
      let ?p = "pbuf_header_or_same p (- 20)"
      let ?n = "if n > tcp_avail ?p then tcp_avail ?p else n"
      let ?q = "tcp_segment (pcb_at i t) flags seqno data ?n ?p"
      have q: "pid ?q = pid p" "nexts ?q = nexts p"
        by (simp_all add: tcp_segment_def tcp_put_hdr_def Let_def)
      have o: "after_pair R s (out ?q (remote_ip (pcb_at i t)) IP_PROTO_TCP t)"
        unfolding after_pair_def using R_out [OF out _ q] Pair Some by blast
      show ?thesis
        unfolding tcp_output_segment_at_def if_not_P [OF False] Pair Some
        by (simp only: prod.case option.case Let_def)
          (rule after_pair_rules(3) [OF o], auto intro!: after_pair_rules(1) upd_clear)
    qed
  qed
qed

lemma send_ack: "out_ok out \<Longrightarrow> R s t \<Longrightarrow> after R s (tcp_send_ack out i flags t)"
  unfolding tcp_send_ack_def by (intro after_rules(4) after_pair_trans [of s t] output_segment)

lemma announce_window: "out_ok out \<Longrightarrow> after R s (tcp_announce_window out pcb s)"
  by (auto simp: tcp_announce_window_def split: option.split intro!: after_rules(1) send_ack R_refl)

lemma send_data: "out_ok out \<Longrightarrow> after_pair R s (tcp_send_data out pcb data len s)"
  unfolding tcp_send_data_def Let_def
  by (auto split: option.split intro!: after_pair_rules(1,3) output_segment track R_refl)

lemma send_loop: "out_ok out \<Longrightarrow> after_pair R s (tcp_send_loop out i data len s)"
proof (induction out i data len s rule: tcp_send_loop.induct)
  case (1 out i data len s)
  let ?n = "if len > TCP_MSS then TCP_MSS else len" and ?seq = "snd_nxt (pcb_at i s)"
  have o: "after_pair R s (tcp_output_segment_at out i (TCP_PSH OR TCP_ACK) ?seq (Some data) ?n True s)"
    by (rule output_segment) (rule "1.prems")
  show ?case
  proof (cases "len = 0")
    case True
    then show ?thesis by (simp add: tcp_send_loop.simps after_pair_rules R_refl)
  next
    case False
    show ?thesis
    proof (cases "tcp_output_segment_at out i (TCP_PSH OR TCP_ACK) ?seq (Some data) ?n True s")
      case None
      with False show ?thesis by (subst tcp_send_loop.simps) (simp add: after_pair_def Let_def)
    next
      case (Some x)
      obtain r t where x: "x = (r, t)" by (cases x)
      have st: "R s t" using o Some x by (simp add: after_pair_def)
      let ?t = "tcp_track_tx i (TCP_PSH OR TCP_ACK) ?seq (Some data) ?n t"
      have "after_pair R ?t (tcp_send_loop out i (\<lambda>k. data (unat ?n + k)) (len - ?n) ?t)" if "r = 0"
        by (rule "1.IH" [OF False refl refl Some x [symmetric] _ "1.prems"]) (use that in simp)
      from after_pair_trans [OF track [OF st] this] False Some x st show ?thesis
        by (subst tcp_send_loop.simps) (auto simp: Let_def after_pair_rules)
    qed
  qed
qed

lemma send: "out_ok out \<Longrightarrow> after_pair R s (tcp_send out pcb data len s)"
  by (auto simp: tcp_send_def split: option.split intro!: after_pair_rules(1) send_loop R_refl)

lemma close: "out_ok out \<Longrightarrow> after_pair R s (tcp_close out pcb s)"
  unfolding tcp_close_def Let_def
  by (auto split: option.split intro!: after_pair_rules(1,3) output_segment track upd_clear R_refl)

lemma tick_pcb: "out_ok out \<Longrightarrow> after R s (tcp_tick_pcb out i s)"
  unfolding tcp_tick_pcb_def Let_def
  by (auto simp: pcb_drop_def tcp_give_up_def Let_def split: if_splits
      intro!: after_rules(1,3) after_pair_trans [OF upd_clear output_segment] upd_clear R_refl)

lemma tick: "out_ok out \<Longrightarrow> after R s (tcp_tick out now s)"
proof -
  assume o: "out_ok out"
  have "after R s (tcp_tick_from out is s)" for "is"
    by (induction "is" arbitrary: s) (auto intro!: after_rules(1,2) tick_pcb o R_refl intro: after_trans)
  then show ?thesis by (simp add: tcp_tick_def)
qed

lemma free_pcb: "R s (snd (tcp_get_free_pcb s))"
  by (auto simp: tcp_get_free_pcb_def pcb_drop_def split: option.split intro!: upd_clear R_refl)

lemma arp_wait:
  assumes "\<And>k t. R t (env k t)" "tcp_arp_wait env k nh start s = Some t"
  shows "R s t"
proof -
  have "(\<forall>k t. R t (env k t)) \<longrightarrow> R s t" if "tcp_arp_wait env k nh start s = Some t" for env k nh start s t
    using that
  proof (induction env k nh start s t rule: tcp_arp_wait.raw_induct [rotated 1, consumes 1, case_names step])
    case (step w env k nh start s t)
    let ?s = "snd (arp_query nh s)"
    show ?case
    proof
      assume env: "\<forall>k t. R t (env k t)"
      then have "R s (env k ?s)" using R_query R_trans by blast
      moreover have "R (env k ?s) t" if "w env (Suc k) nh start (env k ?s) = Some t"
        using step(1) [OF that] env by blast
      ultimately show "R s t" using step(2) R_refl R_query R_trans [of s "env k ?s" t]
        by (auto simp: Let_def split: if_splits)
    qed
  qed
  with assms show ?thesis by blast
qed

lemma connect:
  assumes "out_ok out" "\<And>k t. R t (env k t)"
  shows "after_pair R s (tcp_connect out env pcb rip rport s)"
proof (cases pcb)
  case None
  then show ?thesis by (simp add: tcp_connect_def after_pair_rules R_refl)
next
  case (Some i)
  have o: "R s (tcp_open i rip rport s)"
    unfolding tcp_open_def Let_def by (rule upd_clear [OF R_port]) simp
  have w: "after R t (tcp_arp_wait env k nh start t)" for k nh start t
    using arp_wait [OF assms(2)] by (auto simp: after_def)
  show ?thesis
    unfolding tcp_connect_def Some option.case Let_def
    by (rule after_pair_trans [OF o]) (auto intro!: after_pair_rules w track output_segment [OF assms(1)]
        intro: after_pair_trans)
qed

lemma accept:
  assumes out: "out_ok out" and st: "R s t"
  shows "freed p R s (tcp_accept out i p src dst t)"
proof (cases "tcp_get_free_pcb t")
  case (Pair j u)
  have "R s u" using free_pcb [of t] Pair st R_trans by auto
  then show ?thesis
    unfolding tcp_accept_def Pair Let_def
    by (cases j) (auto intro!: freed_rules(1,3) track upd_clear after_pair_trans [OF upd_clear output_segment [OF out]])
qed

lemma check_http:
  assumes A: "apps_keep R A" and st: "R s t"
  shows "after R s (tcp_check_http_data A i t)"
proof -
  have "after R s (map_option (pcb_upd i (\<lambda>p. p\<lparr>app_rx_len := 0\<rparr>)) (http_handle_connection A i bs t))" for bs
    using after_trans [OF st apps_keepD(4) [OF A]] by (auto simp: after_def intro!: upd_clear)
  with st show ?thesis by (auto simp: tcp_check_http_data_def Let_def intro: after_rules(1))
qed

lemma first_data:
  assumes "out_ok out" "apps_keep R A" "R s t"
  shows "after R s (tcp_first_data A out i hl p t)"
  unfolding tcp_first_data_def Let_def
  by (intro after_if after_rules(1,2) send_ack check_http append assms
      after_trans [OF _ apps_keepD(2) [OF assms(2)]];
      (assumption | rule upd_clear, (assumption | rule assms), simp)+)

lemma in_data:
  assumes "out_ok out" "apps_keep R A" "R s t"
  shows "after R s (tcp_in_data A out i hl p t)"
  unfolding tcp_in_data_def Let_def
  by (intro after_if after_rules(1,2) send_ack check_http append assms
      after_trans [OF _ apps_keepD(5) [OF assms(2)]] after_trans [OF _ apps_keepD(2) [OF assms(2)]];
      (assumption | rule upd_clear, (assumption | rule assms), simp)+)

lemma in_fin:
  assumes "out_ok out" "apps_keep R A" "R s t"
  shows "after R s (tcp_in_fin A out i p t)"
  unfolding tcp_in_fin_def Let_def
  by (auto intro!: after_rules(1,2,4) send_ack upd_clear assms after_pair_trans [OF _ close]
      after_trans [OF _ apps_keepD(3) [OF assms(2)]])

lemma acked: "R s t \<Longrightarrow> R s (if b then pcb_upd i (tcp_acked a) t else t)"
  by (cases b) (simp_all add: upd_clear)

lemma in_established:
  assumes "out_ok out" "apps_keep R A" "R s t"
  shows "after R s (tcp_in_established A out i hl p t)"
  unfolding tcp_in_established_def Let_def
  by (intro after_if after_rules(1) in_fin in_data assms after_trans [OF _ apps_keepD(3) [OF assms(2)]];
      rule upd_clear, (rule acked)?, rule assms, simp)

lemma in_last_ack:
  assumes "apps_keep R A" "R s t"
  shows "after R s (tcp_in_last_ack A i p t)"
  unfolding tcp_in_last_ack_def Let_def
  by (auto intro!: after_rules(1,2) upd_clear assms after_trans [OF _ apps_keepD(3) [OF assms(1)]])

end

text \<open>The two steps that establish a connection ask more of \<open>Q\<close>.\<close>

locale tcp_keeps_all = tcp_keeps +
  assumes Q_establish: "\<lbrakk>app_rx_len y = app_rx_len x; last_tx_len y = 0; app_rx_buf y = app_rx_buf x;
    last_tx_data y = last_tx_data x\<rbrakk> \<Longrightarrow> Q x y"
begin

lemma in_syn_sent:
  assumes "out_ok out" "R s t"
  shows "after R s (tcp_in_syn_sent out i p t)"
  unfolding tcp_in_syn_sent_def Let_def
  by (intro after_if after_rules(1) send_ack assms;
      ((rule upd_clear, rule assms, simp; fail) | rule upd [OF _ Q_establish], rule assms, simp_all))

lemma in_syn_rcvd:
  assumes "out_ok out" "apps_keep R A" "R s t"
  shows "after R s (tcp_in_syn_rcvd A out i hl p t)"
  unfolding tcp_in_syn_rcvd_def Let_def
  by (intro after_if after_rules(1,2) first_data assms after_trans [OF _ apps_keepD(1) [OF assms(2)]];
      (assumption | (rule upd_clear, rule assms, simp; fail) | rule upd [OF _ Q_establish], rule assms, simp_all)+)

lemma input_keeps:
  assumes out: "out_ok out" and A: "apps_keep R A"
  shows "freed p R s (tcp_input A out p src dst s)"
proof -
  have t: "R s (pcb_upd i (\<lambda>q. q\<lparr>state_tick := n\<rparr>) s)" for i n by (rule upd_clear [OF R_refl]) simp
  show ?thesis
    unfolding tcp_input_def Let_def
    by (auto split: option.split tcp_state.split intro!: freed_rules(1,2) accept in_syn_sent in_syn_rcvd
        in_established in_last_ack after_rules(1) t out A R_refl)
qed

end

text \<open>Instance: no operation of TCP keeps or loses a packet buffer of its own.\<close>

definition bufs_kept :: "'z tnet_scheme \<Rightarrow> 'z tnet_scheme \<Rightarrow> bool" where
  "bufs_kept s t \<longleftrightarrow> (ids_ok s \<longrightarrow> same_bufs s t)"

interpretation tcp_bufs: tcp_keeps_all bufs_kept "\<lambda>_ _. True" sends
proof
  fix s t u :: "'z tnet_scheme"
  show "bufs_kept s s" by (simp add: bufs_kept_def)
  show "bufs_kept s t \<Longrightarrow> bufs_kept t u \<Longrightarrow> bufs_kept s u"
    unfolding bufs_kept_def using same_bufs_trans same_bufs_ids by blast
  show "bufs_kept s (pcb_upd i f s)" for i f by (simp add: bufs_kept_def same_bufs_def pcb_upd_def)
  show "bufs_kept s (s\<lparr>tcp_local_port_next := n\<rparr>)" for n by (simp add: bufs_kept_def same_bufs_def)
  show "bufs_kept s (snd (arp_query a s))" for a by (simp add: bufs_kept_def arp_query_same)
  show "pbuf_alloc s = (None, t) \<Longrightarrow> bufs_kept s t" by (simp add: bufs_kept_def pbuf_alloc_None)
  fix out :: "'z tnet_scheme outfn" and p q d pr r
  assume a: "sends out" "pbuf_alloc s = (Some p, t)" "pid q = pid p" "nexts q = nexts p" "out q d pr t = Some (r, u)"
  show "bufs_kept s u" unfolding bufs_kept_def
  proof
    assume "ids_ok s"
    note alloc = pbuf_alloc_release [OF this a(2)]
    have "owned q t" using alloc(1) owned_cong [OF a(3,4)] by blast
    with a(1,5) have "released q t u" unfolding sends_def by blast
    with alloc(2) [OF a(3)] show "same_bufs s u" by blast
  qed
qed simp_all

lemma tcp_input_consumes:
  assumes "sends out" "apps_keep bufs_kept A"
  shows "consumes (\<lambda>p. tcp_input A out p src dst)"
  unfolding consumes_def
proof (intro allI impI)
  fix p s s' assume o: "owned p s" and r: "tcp_input A out p src dst s = Some s'"
  from tcp_bufs.input_keeps [OF assms, of p s src dst] r obtain t where "bufs_kept s t" "s' = pbuf_free p t"
    by (auto simp: freed_def after_def)
  with o show "released p s s'" by (auto simp: bufs_kept_def owned_def intro!: release_free)
qed

text \<open>Instance: the lengths stay within the arrays of the block, and no operation writes behind
  \<open>app_rx_buf\<close> or \<open>last_tx_data\<close>.\<close>

definition pcb_ok :: "tcp_pcb \<Rightarrow> bool" where
  "pcb_ok p \<longleftrightarrow> app_rx_len p \<le> TCP_APP_RX_MAX \<and> last_tx_len p \<le> TCP_RTX_DATA_MAX"

definition pcb_inside :: "tcp_pcb \<Rightarrow> tcp_pcb \<Rightarrow> bool" where
  "pcb_inside p q \<longleftrightarrow> (pcb_ok p \<longrightarrow> pcb_ok q \<and>
     (\<forall>k \<ge> 49152. app_rx_buf q k = app_rx_buf p k) \<and> (\<forall>k \<ge> 256. last_tx_data q k = last_tx_data p k))"

definition tcp_inside :: "'z tnet_scheme \<Rightarrow> 'z tnet_scheme \<Rightarrow> bool" where
  "tcp_inside s t \<longleftrightarrow> length (tcp_pcbs t) = length (tcp_pcbs s) \<and>
     (\<forall>i < length (tcp_pcbs s). pcb_inside (pcb_at i s) (pcb_at i t))"

definition out_inside :: "'z tnet_scheme outfn \<Rightarrow> bool" where
  "out_inside out \<longleftrightarrow> (\<forall>p d pr s. after_pair tcp_inside s (out p d pr s))"

lemma pcb_inside_refl: "pcb_inside p p" by (simp add: pcb_inside_def)

lemma pcb_inside_trans: "pcb_inside p q \<Longrightarrow> pcb_inside q r \<Longrightarrow> pcb_inside p r"
  by (simp add: pcb_inside_def)

lemma pcb_inside_append: "pcb_inside p (app_rx_append bs p)"
  unfolding pcb_inside_def
proof
  assume ok: "pcb_ok p"
  define n where "n = min (length bs) (49152 - unat (app_rx_len p))"
  have l: "unat (app_rx_len p) \<le> 49152" using ok by (simp add: pcb_ok_def TCP_APP_RX_MAX_def word_le_nat_alt)
  have m: "(if int b > int 49152 - int a then int 49152 - int a else int b) = int (min b (49152 - a))"
    if "a \<le> 49152" for a b using that by auto
  have rx: "unat TCP_APP_RX_MAX = 49152" by (simp add: TCP_APP_RX_MAX_def)
  have n: "(if int (length bs) > int (unat TCP_APP_RX_MAX) - int (unat (app_rx_len p))
      then int (unat TCP_APP_RX_MAX) - int (unat (app_rx_len p)) else int (length bs)) = int n"
    using m [OF l, of "length bs"] rx unfolding n_def by (simp only: rx)
  have e: "app_rx_append bs p = p\<lparr>app_rx_buf := set_bytes (unat (app_rx_len p)) (take n bs) (app_rx_buf p),
      app_rx_len := app_rx_len p + of_nat n\<rparr>"
    unfolding app_rx_append_def Let_def n by simp
  have "unat (of_nat n :: u16) = n" using l by (simp add: unat_of_nat n_def)
  then have "unat (app_rx_len p + of_nat n) = unat (app_rx_len p) + n"
    using l by (simp add: unat_word_ariths n_def)
  with ok l show "pcb_ok (app_rx_append bs p) \<and> (\<forall>k \<ge> 49152. app_rx_buf (app_rx_append bs p) k = app_rx_buf p k) \<and>
      (\<forall>k \<ge> 256. last_tx_data (app_rx_append bs p) k = last_tx_data p k)"
    by (auto simp: e pcb_ok_def TCP_APP_RX_MAX_def word_le_nat_alt set_bytes_def n_def)
qed

lemma pcb_inside_clear:
  "\<lbrakk>app_rx_len y = app_rx_len x \<or> app_rx_len y = 0; last_tx_len y = last_tx_len x \<or> last_tx_len y = 0;
    app_rx_buf y = app_rx_buf x; last_tx_data y = last_tx_data x\<rbrakk> \<Longrightarrow> pcb_inside x y"
  by (auto simp: pcb_inside_def pcb_ok_def)

lemma tcp_inside_frame: "tcp_pcbs t = tcp_pcbs s \<Longrightarrow> tcp_inside s t"
  by (simp add: tcp_inside_def pcb_inside_refl)

lemma tcp_pcbs_more: "net.more s = net.more t \<Longrightarrow> tcp_pcbs s = tcp_pcbs t"
  by (cases s; cases t) simp

lemma tcp_inside_more: "net.more t = net.more s \<Longrightarrow> tcp_inside s t"
  by (rule tcp_inside_frame) (rule tcp_pcbs_more)

lemma tcp_inside_upd: "(\<And>x. pcb_inside x (f x)) \<Longrightarrow> tcp_inside s (pcb_upd i f s)"
  by (simp add: tcp_inside_def pcb_upd_def nth_update_if pcb_inside_refl)

lemma tcp_inside_trans: "tcp_inside s t \<Longrightarrow> tcp_inside t u \<Longrightarrow> tcp_inside s u"
  unfolding tcp_inside_def using pcb_inside_trans by metis

interpretation tcp_bounds: tcp_keeps_all tcp_inside pcb_inside out_inside
proof
  fix s t u :: "'z tnet_scheme"
  show "tcp_inside s s" by (simp add: tcp_inside_frame)
  show "tcp_inside s (s\<lparr>tcp_local_port_next := n\<rparr>)" for n by (simp add: tcp_inside_frame)
  show "tcp_inside s (snd (arp_query a s))" for a by (rule tcp_inside_more) simp
  show "pbuf_alloc s = (None, t) \<Longrightarrow> tcp_inside s t" by (intro tcp_inside_more net_more_alloc)
  fix out :: "'z tnet_scheme outfn" and p q d pr r
  assume a: "out_inside out" "pbuf_alloc s = (Some p, t)" "out q d pr t = Some (r, u)"
  have "tcp_inside s t" using a(2) by (intro tcp_inside_more net_more_alloc)
  moreover have "tcp_inside t u" using a(1,3) unfolding out_inside_def after_pair_def by blast
  ultimately show "tcp_inside s u" by (rule tcp_inside_trans)
next
  fix x y :: tcp_pcb
  show "last_tx_len y \<le> TCP_RTX_DATA_MAX \<Longrightarrow> (\<And>k. 256 \<le> k \<Longrightarrow> last_tx_data y k = last_tx_data x k) \<Longrightarrow>
      app_rx_len y = app_rx_len x \<Longrightarrow> app_rx_buf y = app_rx_buf x \<Longrightarrow> pcb_state y = pcb_state x \<Longrightarrow> pcb_inside x y"
    by (simp add: pcb_inside_def pcb_ok_def)
qed (blast intro: tcp_inside_trans tcp_inside_upd pcb_inside_clear pcb_inside_append)+

section \<open>Events\<close>

text \<open>One event of the TCP component: a call of its interface, or a segment from IP.\<close>

inductive tcp_event :: "'z tnet_scheme apps \<Rightarrow> 'z tnet_scheme outfn \<Rightarrow> (nat \<Rightarrow> 'z tnet_scheme \<Rightarrow> 'z tnet_scheme) \<Rightarrow>
    'z tnet_scheme \<Rightarrow> 'z tnet_scheme \<Rightarrow> bool" for A out env where
  segment: "tcp_input A out p src dst s = Some t \<Longrightarrow> tcp_event A out env s t"
| ticked: "tcp_tick out now s = Some t \<Longrightarrow> tcp_event A out env s t"
| connected: "tcp_connect out env pcb rip rport s = Some (r, t) \<Longrightarrow> tcp_event A out env s t"
| sent: "tcp_send out pcb data len s = Some (r, t) \<Longrightarrow> tcp_event A out env s t"
| sent_data: "tcp_send_data out pcb data len s = Some (r, t) \<Longrightarrow> tcp_event A out env s t"
| closed: "tcp_close out pcb s = Some (r, t) \<Longrightarrow> tcp_event A out env s t"
| announced: "tcp_announce_window out pcb s = Some t \<Longrightarrow> tcp_event A out env s t"
| reclaimed: "tcp_event A out env s (snd (tcp_get_free_pcb s))"

lemma tcp_event_inside:
  assumes "tcp_event A out env s t" and out: "out_inside out" and A: "apps_keep tcp_inside A"
    and env: "\<And>k s. tcp_inside s (env k s)"
  shows "tcp_inside s t"
  using assms(1)
proof cases
  case (segment p src dst)
  with tcp_bounds.input_keeps [OF out A, of p s src dst] obtain u where "tcp_inside s u" "t = pbuf_free p u"
    by (auto simp: freed_def after_def)
  then show ?thesis using tcp_inside_trans [OF _ tcp_inside_more [OF net_more(2)]] by blast
next
  case (connected pcb rip rport r)
  with tcp_bounds.connect [OF out env] show ?thesis by (auto simp: after_pair_def)
qed (use tcp_bounds.tick [OF out] tcp_bounds.send [OF out] tcp_bounds.send_data [OF out] tcp_bounds.close [OF out]
    tcp_bounds.announce_window [OF out] tcp_bounds.free_pcb in \<open>auto simp: after_def after_pair_def\<close>)

lemma tcp_events_inside:
  assumes "(tcp_event A out env)\<^sup>*\<^sup>* s t" and "out_inside out" "apps_keep tcp_inside A" "\<And>k s. tcp_inside s (env k s)"
  shows "tcp_inside s t"
  using assms(1)
  by (induction rule: rtranclp_induct) (blast intro: tcp_inside_frame tcp_inside_trans tcp_event_inside assms)+

text \<open>The output function of the stack keeps the blocks within bounds when the servers above UDP do
  not touch them.\<close>

interpretation tcp_stack: stack_keeps tcp_inside
  by unfold_locales (blast intro: tcp_inside_more tcp_inside_trans)+

section \<open>Establishing a connection\<close>

text \<open>Instance: nothing but the two handshake steps makes block \<open>j\<close> established.\<close>

definition not_established :: "nat \<Rightarrow> 'z tnet_scheme \<Rightarrow> 'z tnet_scheme \<Rightarrow> bool" where
  "not_established j s t \<longleftrightarrow> (j < length (tcp_pcbs s) \<longrightarrow> pcb_state (pcb_at j t) = TCP_ESTABLISHED \<longrightarrow>
     pcb_state (pcb_at j s) = TCP_ESTABLISHED) \<and> length (tcp_pcbs t) = length (tcp_pcbs s)"

definition out_not_established :: "nat \<Rightarrow> 'z tnet_scheme outfn \<Rightarrow> bool" where
  "out_not_established j out \<longleftrightarrow> (\<forall>p d pr s. after_pair (not_established j) s (out p d pr s))"

lemma not_established_frame: "tcp_pcbs t = tcp_pcbs s \<Longrightarrow> not_established j s t"
  by (simp add: not_established_def)

lemma not_established_more: "net.more t = net.more s \<Longrightarrow> not_established j s t"
  by (rule not_established_frame) (rule tcp_pcbs_more)

lemma not_established_trans: "not_established j s t \<Longrightarrow> not_established j t u \<Longrightarrow> not_established j s u"
  by (simp add: not_established_def)

lemma not_established_upd:
  "(\<forall>x. pcb_state (f x) = TCP_ESTABLISHED \<longrightarrow> pcb_state x = TCP_ESTABLISHED) \<or> i \<noteq> j \<Longrightarrow>
   not_established j s (pcb_upd i f s)"
  by (auto simp: not_established_def pcb_upd_def nth_update_if split: if_splits)

interpretation tcp_handshake: tcp_keeps "not_established j"
  "\<lambda>x y. pcb_state y = TCP_ESTABLISHED \<longrightarrow> pcb_state x = TCP_ESTABLISHED" "out_not_established j" for j
proof
  fix s t u :: "'z tnet_scheme" and j
  show "not_established j s (snd (arp_query a s))" for a by (rule not_established_more) simp
  show "pbuf_alloc s = (None, t) \<Longrightarrow> not_established j s t" by (intro not_established_more net_more_alloc)
  show "not_established j s (pcb_upd i f s)"
    if "\<And>x. pcb_state (f x) = TCP_ESTABLISHED \<longrightarrow> pcb_state x = TCP_ESTABLISHED" for i f
    using that by (intro not_established_upd) blast
  fix out :: "'z tnet_scheme outfn" and p q d pr r
  assume a: "out_not_established j out" "pbuf_alloc s = (Some p, t)" "out q d pr t = Some (r, u)"
  have "not_established j s t" using a(2) by (intro not_established_more net_more_alloc)
  moreover have "not_established j t u" using a(1,3) unfolding out_not_established_def after_pair_def by blast
  ultimately show "not_established j s u" by (rule not_established_trans)
qed (auto intro: not_established_frame not_established_trans)

lemma tcp_find_exact:
  assumes "tcp_find_pcb lip lport rip rport s = Some i"
  shows "i < length (tcp_pcbs s)" "local_port (pcb_at i s) = lport" "pcb_state (pcb_at i s) \<noteq> TCP_CLOSED"
    "pcb_state (pcb_at i s) \<noteq> TCP_LISTEN \<Longrightarrow>
       remote_port (pcb_at i s) = rport \<and> remote_ip (pcb_at i s) = rip \<and> local_ip (pcb_at i s) = lip"
proof -
  define ok where "ok p \<longleftrightarrow> local_port p = lport \<and> pcb_state p \<noteq> TCP_CLOSED \<and>
    (pcb_state p \<noteq> TCP_LISTEN \<longrightarrow> remote_port p = rport \<and> remote_ip p = rip \<and> local_ip p = lip)" for p :: tcp_pcb
  have "(\<exists>k < length ps. i = j + k \<and> ok (ps ! k)) \<or> listener = Some i"
    if "tcp_find_from lip lport rip rport j ps listener = Some i" for j ps listener
    using that
  proof (induction ps arbitrary: j listener)
    case (Cons p ps)
    have tl: "\<exists>k < length (p # ps). i = j + k \<and> ok ((p # ps) ! k)" if "\<exists>k < length ps. i = Suc j + k \<and> ok (ps ! k)"
      using that by (metis add_Suc_shift length_Cons not_less_eq nth_Cons_Suc)
    have hd: "\<exists>k < length (p # ps). i = j + k \<and> ok ((p # ps) ! k)" if "i = j" "ok p"
      using that by (intro exI [of _ 0]) simp
    let ?F = "tcp_find_from lip lport rip rport (Suc j) ps"
    let ?exact = "local_port p = lport \<and> remote_port p = rport \<and> remote_ip p = rip \<and> local_ip p = lip"
    let ?listen = "local_port p = lport \<and> pcb_state p = TCP_LISTEN \<and> (local_ip p = 0 \<or> local_ip p = lip)"
    have F: "(\<exists>k < length (p # ps). i = j + k \<and> ok ((p # ps) ! k)) \<or> l = Some i" if "?F l = Some i" for l
      using Cons.IH [OF that] tl by blast
    have eq: "tcp_find_from lip lport rip rport j (p # ps) listener =
      (if pcb_state p = TCP_CLOSED then ?F listener else if ?exact then Some j
       else ?F (if ?listen then Some j else listener))" by simp
    consider "pcb_state p = TCP_CLOSED" | "pcb_state p \<noteq> TCP_CLOSED" "?exact" |
      "pcb_state p \<noteq> TCP_CLOSED" "\<not> ?exact" "?listen" | "pcb_state p \<noteq> TCP_CLOSED" "\<not> ?exact" "\<not> ?listen" by blast
    then show ?case
    proof cases
      case 1
      with eq Cons.prems have "?F listener = Some i" by simp
      then show ?thesis by (rule F)
    next
      case 2
      with eq Cons.prems have "i = j" by simp
      with 2 hd show ?thesis by (simp add: ok_def)
    next
      case 3
      with eq Cons.prems have "?F (Some j) = Some i" by (simp only: if_False if_True simp_thms)
      from F [OF this] hd 3 show ?thesis by (auto simp: ok_def)
    next
      case 4
      with eq Cons.prems have "?F listener = Some i" by (simp only: if_False simp_thms)
      then show ?thesis by (rule F)
    qed
  qed simp
  from this [of 0 "tcp_pcbs s" None] assms show "i < length (tcp_pcbs s)" "local_port (pcb_at i s) = lport"
    "pcb_state (pcb_at i s) \<noteq> TCP_CLOSED"
    "pcb_state (pcb_at i s) \<noteq> TCP_LISTEN \<Longrightarrow>
       remote_port (pcb_at i s) = rport \<and> remote_ip (pcb_at i s) = rip \<and> local_ip (pcb_at i s) = lip"
    by (auto simp: tcp_find_pcb_def ok_def)
qed

text \<open>What completes a handshake.\<close>

definition handshake_ack :: "pbuf \<Rightarrow> tcp_pcb \<Rightarrow> bool" where
  "handshake_ack p q \<longleftrightarrow> ntohl (h32 p 8) = snd_nxt q \<and>
     (pcb_state q = TCP_SYN_SENT \<and> TCP_HDR_FLAGS p AND (TCP_SYN OR TCP_ACK) = TCP_SYN OR TCP_ACK \<or>
      pcb_state q = TCP_SYN_RCVD \<and> TCP_HDR_FLAGS p AND TCP_ACK \<noteq> 0)"

lemma syn_sent_not_established:
  assumes out: "out_not_established j out" and st: "not_established j s t"
    and no: "i \<noteq> j \<or> \<not> handshake_ack p (pcb_at i t)" and q: "pcb_state (pcb_at i t) = TCP_SYN_SENT"
  shows "after (not_established j) s (tcp_in_syn_sent out i p t)"
proof (cases "TCP_HDR_FLAGS p AND (TCP_SYN OR TCP_ACK) = TCP_SYN OR TCP_ACK \<and> ntohl (h32 p 8) = snd_nxt (pcb_at i t)")
  case True
  with no q have "i \<noteq> j" by (auto simp: handshake_ack_def)
  then have "not_established j s (pcb_upd i f t)" for f
    using not_established_trans [OF st not_established_upd] by blast
  then show ?thesis using True by (simp add: tcp_in_syn_sent_def tcp_handshake.send_ack [OF out])
next
  case False
  have "not_established j s (pcb_upd i (\<lambda>q. q\<lparr>pcb_state := TCP_CLOSED\<rparr>) t)"
    using tcp_handshake.upd_clear [OF st] by simp
  with False st show ?thesis by (auto simp: tcp_in_syn_sent_def Let_def intro: after_rules(1))
qed

lemma syn_rcvd_not_established:
  assumes out: "out_not_established j out" and A: "apps_keep (not_established j) A" and st: "not_established j s t"
    and no: "i \<noteq> j \<or> \<not> handshake_ack p (pcb_at i t)" and q: "pcb_state (pcb_at i t) = TCP_SYN_RCVD"
  shows "after (not_established j) s (tcp_in_syn_rcvd A out i hl p t)"
proof (cases "TCP_HDR_FLAGS p AND TCP_ACK \<noteq> 0 \<and> ntohl (h32 p 8) = snd_nxt (pcb_at i t)")
  case True
  with no q have "i \<noteq> j" by (auto simp: handshake_ack_def)
  then have u: "not_established j s (pcb_upd i f t)" for f
    using not_established_trans [OF st not_established_upd] by blast
  show ?thesis using True unfolding tcp_in_syn_rcvd_def Let_def
    by (auto intro!: after_rules(1,2) tcp_handshake.first_data [OF out A]
        tcp_handshake.after_trans [OF u apps_keepD(1) [OF A]] u)
next
  case False
  have "not_established j s (pcb_upd i (\<lambda>q. q\<lparr>pcb_state := TCP_CLOSED\<rparr>) t)"
    using tcp_handshake.upd_clear [OF st] by simp
  with False st show ?thesis by (auto simp: tcp_in_syn_rcvd_def Let_def intro: after_rules(1))
qed

lemma tcp_input_not_established:
  assumes out: "out_not_established j out" and A: "apps_keep (not_established j) A"
    and no: "\<And>i. tcp_find_pcb dst (ntohs (h16 p 2)) src (ntohs (h16 p 0)) s = Some i \<Longrightarrow>
      i \<noteq> j \<or> \<not> handshake_ack p (pcb_at i s)"
  shows "freed p (not_established j) s (tcp_input A out p src dst s)"
proof (cases "tcp_find_pcb dst (ntohs (h16 p 2)) src (ntohs (h16 p 0)) s")
  case None
  then show ?thesis by (auto simp: tcp_input_def Let_def intro!: freed_rules(1) not_established_frame)
next
  case (Some i)
  define t where "t = pcb_upd i (\<lambda>q. q\<lparr>state_tick := pit_ticks s\<rparr>) s"
  have st: "not_established j s t" unfolding t_def by (rule not_established_upd) simp
  have "i < length (tcp_pcbs s)" using tcp_find_exact(1) [OF Some] .
  then have "handshake_ack p (pcb_at i t) = handshake_ack p (pcb_at i s)"
    by (simp add: t_def pcb_upd_def handshake_ack_def)
  with no [OF Some] have no: "i \<noteq> j \<or> \<not> handshake_ack p (pcb_at i t)" by simp
  show ?thesis
    unfolding tcp_input_def Let_def Some option.case t_def [symmetric]
    by (auto split: tcp_state.split intro!: freed_rules(1,2) tcp_handshake.accept syn_sent_not_established
        syn_rcvd_not_established tcp_handshake.in_established tcp_handshake.in_last_ack after_rules(1) out A st no
        intro: not_established_frame)
qed

end
