(* ===== verification/Tcp_Stream.thy ===== *)
theory Tcp_Stream
  imports Tcp_Keeps
begin

text \<open>
  The behaviour of TCP over several events: the streams it receives and sends, giving up on peers
  that do not answer, and the properties of the component.
\<close>

section \<open>Receiving a stream\<close>

text \<open>An output function that answers and leaves the blocks and the clock alone: that of IP for every
  address but the machine's own.\<close>

definition out_frame :: "'z tnet_scheme outfn \<Rightarrow> bool" where
  "out_frame out \<longleftrightarrow> (\<forall>p d pr s. \<exists>r t. out p d pr s = Some (r, t) \<and> tcp_pcbs t = tcp_pcbs s \<and> pit_ticks t = pit_ticks s)"

lemma pbuf_alloc_frame: "pbuf_alloc s = (a, t) \<Longrightarrow> tcp_pcbs t = tcp_pcbs s \<and> pit_ticks t = pit_ticks s"
  by (auto simp: pbuf_alloc_def Let_def split: if_splits)

lemma output_no_advance:
  assumes "out_frame out"
  obtains r t where "tcp_output_segment_at out i flags seqno data n False s = Some (r, t)"
    "tcp_pcbs t = tcp_pcbs s" "pit_ticks t = pit_ticks s"
proof (cases "pbuf_alloc s")
  case (Pair a u)
  note u = pbuf_alloc_frame [OF Pair]
  show ?thesis
  proof (cases a)
    case None
    with u Pair that show ?thesis by (simp add: tcp_output_segment_at_def)
  next
    case (Some q)
    let ?p = "pbuf_header_or_same q (- 20)"
    let ?seg = "tcp_segment (pcb_at i u) flags seqno data (if n > tcp_avail ?p then tcp_avail ?p else n) ?p"
    from assms obtain r t where "out ?seg (remote_ip (pcb_at i u)) IP_PROTO_TCP u = Some (r, t)"
      "tcp_pcbs t = tcp_pcbs u" "pit_ticks t = pit_ticks u" unfolding out_frame_def by blast
    with u Pair Some show ?thesis
      by (intro that [of "if r \<noteq> 0 then -1 else 0" t]) (simp_all add: tcp_output_segment_at_def Let_def)
  qed
qed

lemma send_ack_frame:
  assumes "out_frame out"
  obtains t where "tcp_send_ack out i flags s = Some t" "tcp_pcbs t = tcp_pcbs s" "pit_ticks t = pit_ticks s"
  using output_no_advance [OF assms, of i flags "snd_nxt (pcb_at i s)" None 0 s]
  by (metis option.simps(9) snd_conv tcp_send_ack_def)

definition rx_stream :: "tcp_pcb \<Rightarrow> u8 list" where
  "rx_stream q = get_bytes 0 (unat (app_rx_len q)) (app_rx_buf q)"

lemma rx_stream_append:
  assumes "length (rx_stream q) + length bs \<le> 49152"
  shows "rx_stream (app_rx_append bs q) = rx_stream q @ bs"
proof -
  let ?a = "unat (app_rx_len q)"
  have a: "?a + length bs \<le> 49152" using assms by (simp add: rx_stream_def get_bytes_def)
  have rx: "unat TCP_APP_RX_MAX = 49152" by (simp add: TCP_APP_RX_MAX_def)
  have m: "(if int b > int 49152 - int a then int 49152 - int a else int b) = int b" if "a + b \<le> 49152" for a b
    using that by auto
  have e: "app_rx_append bs q = q\<lparr>app_rx_buf := set_bytes ?a bs (app_rx_buf q), app_rx_len := app_rx_len q + of_nat (length bs)\<rparr>"
    unfolding app_rx_append_def Let_def rx m [OF a] by simp
  have "unat (app_rx_len q + of_nat (length bs)) = ?a + length bs"
    using a by (simp add: unat_word_ariths unat_of_nat)
  then have "rx_stream (app_rx_append bs q) = get_bytes 0 (?a + length bs) (set_bytes ?a bs (app_rx_buf q))"
    by (simp add: e rx_stream_def)
  also have "\<dots> = rx_stream q @ bs"
    by (rule nth_equalityI) (auto simp: rx_stream_def get_bytes_def set_bytes_def nth_append)
  finally show ?thesis .
qed

text \<open>What \<open>tcp_find_pcb\<close> looks at.\<close>

definition pcb_key :: "tcp_pcb \<Rightarrow> tcp_state \<times> u32 \<times> u16 \<times> u32 \<times> u16" where
  "pcb_key q = (pcb_state q, local_ip q, local_port q, remote_ip q, remote_port q)"

lemma tcp_find_cong:
  assumes e: "map pcb_key (tcp_pcbs t) = map pcb_key (tcp_pcbs s)"
  shows "tcp_find_pcb lip lport rip rport t = tcp_find_pcb lip lport rip rport s"
proof -
  have "map pcb_key ps = map pcb_key qs \<Longrightarrow> tcp_find_from lip lport rip rport i ps l = tcp_find_from lip lport rip rport i qs l" for ps qs i l
  proof (induction ps arbitrary: qs i l)
    case (Cons p ps)
    then obtain q qs' where q: "qs = q # qs'" "pcb_key p = pcb_key q" "map pcb_key ps = map pcb_key qs'" by auto
    note IH = Cons.IH [OF q(3)]
    have k: "pcb_state p = pcb_state q" "local_ip p = local_ip q" "local_port p = local_port q"
      "remote_ip p = remote_ip q" "remote_port p = remote_port q" using q(2) by (simp_all add: pcb_key_def)
    show ?case unfolding q(1) tcp_find_from.simps k IH ..
  qed simp
  from this [OF e] show ?thesis by (simp only: tcp_find_pcb_def)
qed

text \<open>An established connection of no particular service.\<close>

definition plain_connection :: "nat \<Rightarrow> u32 \<Rightarrow> u16 \<Rightarrow> u32 \<Rightarrow> u16 \<Rightarrow> 'z tnet_scheme \<Rightarrow> bool" where
  "plain_connection i dst lport src rport s \<longleftrightarrow> tcp_find_pcb dst lport src rport s = Some i \<and>
     pcb_state (pcb_at i s) = TCP_ESTABLISHED \<and> lport \<noteq> 22 \<and> lport \<noteq> 80 \<and> lport \<noteq> 443"

text \<open>A segment that carries the bytes of the stream \<open>S\<close> from offset \<open>k\<close> on, where \<open>base\<close> is the sequence
  number of the first byte.\<close>

definition carries :: "u8 list \<Rightarrow> u32 \<Rightarrow> u16 \<Rightarrow> u16 \<Rightarrow> pbuf \<Rightarrow> nat \<Rightarrow> nat \<Rightarrow> bool" where
  "carries S base lport rport p k n \<longleftrightarrow>
     ntohs (h16 p 0) = rport \<and> ntohs (h16 p 2) = lport \<and> 20 \<le> plen p \<and> 5 \<le> TCP_HDR_OFFSET p \<and>
     TCP_HDR_FLAGS p AND TCP_RST = 0 \<and> TCP_HDR_FLAGS p AND TCP_FIN = 0 \<and> ucast (TCP_HDR_OFFSET p * 4) \<le> plen p \<and>
     tcp_data_len p (TCP_HDR_OFFSET p * 4) = int n \<and> k + n \<le> length S \<and> ntohl (h32 p 4) = base + of_nat k \<and>
     tcp_payload p (TCP_HDR_OFFSET p * 4) = take n (drop k S)"

lemma header_words: "unat (TCP_HDR_OFFSET p) < 16"
proof -
  have "unat (TCP_HDR_OFFSET p) = unat (ntohs (h16 p 12)) div 4096"
    unfolding TCP_HDR_OFFSET_def unat_drop_bit_eq by (simp add: drop_bit_eq_div)
  then show ?thesis using unat_u16_less [of "ntohs (h16 p 12)"] by simp
qed

lemma header_at_least_20: "5 \<le> TCP_HDR_OFFSET p \<Longrightarrow> \<not> TCP_HDR_OFFSET p * 4 < 20"
  using header_words [of p] by (simp add: word_less_nat_alt word_le_nat_alt unat_word_ariths)

lemma tcp_input_established:
  assumes c: "plain_connection i dst lport src rport s" and seg: "carries S base lport rport p k n"
  shows "\<exists>f. tcp_input A out p src dst s = map_option (pbuf_free p)
      (tcp_in_data A out i (TCP_HDR_OFFSET p * 4) p (pcb_upd i f s)) \<and>
    (\<forall>x. pcb_key (f x) = pcb_key x \<and> rcv_nxt (f x) = rcv_nxt x \<and> rx_stream (f x) = rx_stream x)"
proof -
  have i: "i < length (tcp_pcbs s)" using tcp_find_exact(1) c by (auto simp: plain_connection_def)
  define f where "f x = (let x = x\<lparr>state_tick := pit_ticks s\<rparr>;
      x = (if TCP_HDR_FLAGS p AND TCP_ACK \<noteq> 0 then tcp_acked (ntohl (h32 p 8)) x else x) in x\<lparr>peer_wnd := ntohs (h16 p 14)\<rparr>)" for x
  have off: "\<not> TCP_HDR_OFFSET p < 5" "\<not> TCP_HDR_OFFSET p > 15" "\<not> plen p < 20"
  proof -
    show "\<not> TCP_HDR_OFFSET p > 15" using header_words [of p] by (simp add: word_less_nat_alt)
  qed (use seg in \<open>auto simp: carries_def\<close>)
  have "tcp_input A out p src dst s = map_option (pbuf_free p) (tcp_in_data A out i (TCP_HDR_OFFSET p * 4) p (pcb_upd i f s))"
    using c seg off i unfolding tcp_input_def f_def
    by (simp add: plain_connection_def carries_def Let_def tcp_in_established_def pcb_upd_def)
  moreover have "pcb_key (f x) = pcb_key x \<and> rcv_nxt (f x) = rcv_nxt x \<and> rx_stream (f x) = rx_stream x" for x
    by (simp add: f_def Let_def pcb_key_def rx_stream_def)
  ultimately show ?thesis by blast
qed

lemma plain_connection_cong:
  "map pcb_key (tcp_pcbs t) = map pcb_key (tcp_pcbs s) \<Longrightarrow> plain_connection i dst lport src rport s \<Longrightarrow>
   plain_connection i dst lport src rport t"
proof -
  assume e: "map pcb_key (tcp_pcbs t) = map pcb_key (tcp_pcbs s)" and c: "plain_connection i dst lport src rport s"
  have i: "i < length (tcp_pcbs s)" using c tcp_find_exact(1) by (auto simp: plain_connection_def)
  have l: "length (tcp_pcbs t) = length (tcp_pcbs s)" using arg_cong [OF e, of length] by simp
  have "pcb_key (pcb_at i t) = pcb_key (pcb_at i s)" using arg_cong [OF e, of "\<lambda>xs. xs ! i"] i l by simp
  then have "pcb_state (pcb_at i t) = pcb_state (pcb_at i s)" by (simp add: pcb_key_def)
  with c tcp_find_cong [OF e] show ?thesis by (simp add: plain_connection_def)
qed

lemma pcb_key_upd: "(\<And>x. pcb_key (f x) = pcb_key x) \<Longrightarrow> map pcb_key (tcp_pcbs (pcb_upd i f s)) = map pcb_key (tcp_pcbs s)"
  by (rule nth_equalityI) (auto simp: pcb_upd_def nth_update_if)

text \<open>One segment: it is appended if it starts where the stream stands, and ignored otherwise.\<close>

lemma tcp_stream_step:
  assumes out: "out_frame out" and c: "plain_connection i dst lport src rport s"
    and seg: "carries S base lport rport p k n" and S: "length S \<le> 49152"
    and rx: "rx_stream (pcb_at i s) = take m S" "rcv_nxt (pcb_at i s) = base + of_nat m" "m \<le> length S"
  obtains t m' where "tcp_input A out p src dst s = Some t" "plain_connection i dst lport src rport t"
    "rx_stream (pcb_at i t) = take m' S" "rcv_nxt (pcb_at i t) = base + of_nat m'" "m' = (if k = m then m + n else m)"
proof -
  let ?hl = "TCP_HDR_OFFSET p * 4"
  have i: "i < length (tcp_pcbs s)" using tcp_find_exact(1) c by (auto simp: plain_connection_def)
  obtain f where f: "tcp_input A out p src dst s = map_option (pbuf_free p) (tcp_in_data A out i ?hl p (pcb_upd i f s))"
    "\<And>x. pcb_key (f x) = pcb_key x" "\<And>x. rcv_nxt (f x) = rcv_nxt x" "\<And>x. rx_stream (f x) = rx_stream x"
    using tcp_input_established [OF c seg, of A out] by blast
  define u where "u = pcb_upd i f s"
  have u: "pcb_at i u = f (pcb_at i s)" "i < length (tcp_pcbs u)" using i by (simp_all add: u_def pcb_upd_def)
  have cu: "plain_connection i dst lport src rport u"
    unfolding u_def by (rule plain_connection_cong [OF _ c]) (rule pcb_key_upd, rule f(2))
  have port: "local_port (pcb_at i u) = lport" using cu tcp_find_exact(2) by (auto simp: plain_connection_def)
  have hl: "\<not> ?hl < 20" by (rule header_at_least_20) (use seg in \<open>simp add: carries_def\<close>)
  have D: "tcp_data_len p ?hl = int n" "tcp_payload p ?hl = take n (drop k S)" "\<not> ucast ?hl > plen p"
    "ntohl (h32 p 4) = base + of_nat k" "k + n \<le> length S"
    using seg by (auto simp: carries_def)
  have ru: "rx_stream (pcb_at i u) = take m S" "rcv_nxt (pcb_at i u) = base + of_nat m" using u(1) f(3,4) rx by simp_all
  have km: "(of_nat k = (of_nat m :: u32)) \<longleftrightarrow> k = m"
    using D(5) rx(3) S by (simp add: word_of_nat_eq_iff take_bit_nat_eq_self)
  show ?thesis
  proof (cases "n > 0 \<and> k = m")
    case True
    define w where "w = pcb_upd i (app_rx_append (take n (drop k S)))
      (pcb_upd i (\<lambda>q. q\<lparr>rcv_nxt := rcv_nxt q + of_nat n\<rparr>) u)"
    have w: "pcb_at i w = app_rx_append (take n (drop k S)) ((pcb_at i u)\<lparr>rcv_nxt := rcv_nxt (pcb_at i u) + of_nat n\<rparr>)"
      using u(2) by (simp add: w_def pcb_upd_def)
    have wk: "map pcb_key (tcp_pcbs w) = map pcb_key (tcp_pcbs u)"
      unfolding w_def by (subst pcb_key_upd, simp add: pcb_key_def, rule pcb_key_upd, simp add: pcb_key_def)
    have nowp: "local_port (pcb_at i w) = lport" using w port by simp
    obtain t where t: "tcp_send_ack out i TCP_ACK w = Some t" "tcp_pcbs t = tcp_pcbs w"
      using send_ack_frame [OF out] by metis
    have r: "tcp_in_data A out i ?hl p u = Some t"
      using True D hl ru(2) port nowp c t(1) u(2)
      by (simp add: tcp_in_data_def Let_def w_def plain_connection_def pcb_upd_def)
    show ?thesis
    proof
      show "tcp_input A out p src dst s = Some (pbuf_free p t)" using f(1) r by (simp add: u_def)
      have P: "tcp_pcbs (pbuf_free p t) = tcp_pcbs w" using t(2) tcp_pcbs_more [OF net_more(2)] by metis
      show "plain_connection i dst lport src rport (pbuf_free p t)"
        by (rule plain_connection_cong [OF _ cu]) (simp add: P wk)
      have x: "rx_stream (q\<lparr>rcv_nxt := z\<rparr>) = rx_stream q" for q z by (simp add: rx_stream_def)
      show "rx_stream (pcb_at i (pbuf_free p t)) = take (m + n) S"
        unfolding P w using True D(5) S ru(1) by (subst rx_stream_append) (simp_all add: x take_add)
      show "rcv_nxt (pcb_at i (pbuf_free p t)) = base + of_nat (m + n)" unfolding P w using ru(2) by simp
    qed (use True in simp)
  next
    case False
    obtain t where t: "tcp_send_ack out i TCP_ACK u = Some t" "tcp_pcbs t = tcp_pcbs u"
      using send_ack_frame [OF out] by metis
    define w where "w = (if n = 0 then u else t)"
    have r: "tcp_in_data A out i ?hl p u = Some w"
      using False D hl ru(2) km t(1) by (auto simp: tcp_in_data_def w_def)
    have P: "tcp_pcbs (pbuf_free p w) = tcp_pcbs u" using t(2) tcp_pcbs_more [OF net_more(2)] by (metis w_def)
    show ?thesis
    proof
      show "tcp_input A out p src dst s = Some (pbuf_free p w)" using f(1) r by (simp add: u_def)
      show "plain_connection i dst lport src rport (pbuf_free p w)"
        by (rule plain_connection_cong [OF _ cu]) (simp add: P)
      show "rx_stream (pcb_at i (pbuf_free p w)) = take m S" "rcv_nxt (pcb_at i (pbuf_free p w)) = base + of_nat m"
        unfolding P by (fact ru)+
    qed (use False in auto)
  qed
qed

fun tcp_inputs :: "'z tnet_scheme apps \<Rightarrow> 'z tnet_scheme outfn \<Rightarrow> pbuf list \<Rightarrow> u32 \<Rightarrow> u32 \<Rightarrow>
    'z tnet_scheme \<Rightarrow> 'z tnet_scheme option" where
  "tcp_inputs A out [] src dst s = Some s"
| "tcp_inputs A out (p # ps) src dst s = Option.bind (tcp_input A out p src dst s) (tcp_inputs A out ps src dst)"

text \<open>How far the stream stands after segments at the given offsets and lengths.\<close>

fun stream_pos :: "nat \<Rightarrow> (nat \<times> nat) list \<Rightarrow> nat" where
  "stream_pos m [] = m"
| "stream_pos m ((k, n) # ks) = stream_pos (if k = m then m + n else m) ks"

lemma tcp_stream_run:
  assumes out: "out_frame out" and S: "length S \<le> 49152"
    and "list_all2 (\<lambda>p (k, n). carries S base lport rport p k n) ps ks"
    and "plain_connection i dst lport src rport s" "rx_stream (pcb_at i s) = take m S"
      "rcv_nxt (pcb_at i s) = base + of_nat m" "m \<le> length S"
  shows "\<exists>t. tcp_inputs A out ps src dst s = Some t \<and> rx_stream (pcb_at i t) = take (stream_pos m ks) S \<and>
    rcv_nxt (pcb_at i t) = base + of_nat (stream_pos m ks)"
  using assms(3-)
proof (induction ps ks arbitrary: m s rule: list_all2_induct)
  case (Cons p ps kn ks)
  obtain k n where kn: "kn = (k, n)" by (cases kn)
  with Cons.hyps have seg: "carries S base lport rport p k n" by simp
  obtain t m' where t: "tcp_input A out p src dst s = Some t" "plain_connection i dst lport src rport t"
    "rx_stream (pcb_at i t) = take m' S" "rcv_nxt (pcb_at i t) = base + of_nat m'" "m' = (if k = m then m + n else m)"
    using tcp_stream_step [OF out Cons.prems(1) seg S Cons.prems(2-4)] by metis
  have "m' \<le> length S" using t(5) Cons.prems(4) seg by (auto simp: carries_def)
  from Cons.IH [OF t(2-4) this] t(1,5) kn show ?case by simp
qed simp

section \<open>Sending a stream\<close>

text \<open>An output function that records the segments it is given, to observe what TCP sends.\<close>

record recorded = tnet +
  sent :: "pbuf list"

definition record_out :: "'z recorded_scheme outfn" where
  "record_out p d pr s = Some (0, s\<lparr>sent := sent s @ [p]\<rparr>)"

definition seg_seq :: "pbuf \<Rightarrow> u32" where "seg_seq p = ntohl (h32 p 4)"
definition seg_data :: "pbuf \<Rightarrow> u8 list" where "seg_data p = hbytes p 20 (unat (plen p) - 20)"

lemma fields_wbytes [wire]:
  "j + 3 < k \<Longrightarrow> h32 (wbytes k bs p) j = h32 p j"
  "j + 1 < k \<Longrightarrow> h16 (wbytes k bs p) j = h16 p j"
  "hbytes (wbytes k bs p) k (length bs) = bs"
  "j + 1 < k \<Longrightarrow> hbytes (w16 j v p) k n = hbytes p k n"
  by (auto simp: h32_def h16_def ld32_def ld16_def wbytes_def set_bytes_def hbytes_def get_bytes_def w16_def st16_def
      intro!: nth_equalityI)

lemma tcp_put_hdr_fields:
  "h16 (tcp_put_hdr pcb flags seqno p) 0 = htons (local_port pcb)"
  "h16 (tcp_put_hdr pcb flags seqno p) 2 = htons (remote_port pcb)"
  "h32 (tcp_put_hdr pcb flags seqno p) 4 = htonl seqno"
  "h32 (tcp_put_hdr pcb flags seqno p) 8 = htonl (rcv_nxt pcb)"
  "h16 (tcp_put_hdr pcb flags seqno p) 12 = htons (push_bit 12 5 OR flags)"
  "h16 (tcp_put_hdr pcb flags seqno p) 14 = htons (tcp_window pcb)"
  "h16 (tcp_put_hdr pcb flags seqno p) 16 = 0"
  "payload (tcp_put_hdr pcb flags seqno p) = payload p"
  by (simp_all add: tcp_put_hdr_def Let_def wire)

lemma tcp_segment_fields:
  assumes "unat n \<le> 65000"
  shows "seg_seq (tcp_segment pcb flags seqno (Some d) n p) = seqno"
    and "seg_data (tcp_segment pcb flags seqno (Some d) n p) = map d [0 ..< unat n]"
proof -
  have l: "unat (ucast (20 + n) :: u32) = 20 + unat n"
    using assms by (simp add: unat_ucast_up unat_word_ariths)
  have h: "hbytes (p\<lparr>plen := z\<rparr>) = hbytes p" for p z by (simp add: hbytes_def [abs_def])
  show "seg_seq (tcp_segment pcb flags seqno (Some d) n p) = seqno"
    by (simp add: seg_seq_def tcp_segment_def Let_def wire tcp_put_hdr_fields)
  have "hbytes (wbytes 20 (map d [0 ..< unat n]) q) 20 (unat n) = map d [0 ..< unat n]" for q
    using fields_wbytes(3) [of 20 "map d [0 ..< unat n]" q] by simp
  then show "seg_data (tcp_segment pcb flags seqno (Some d) n p) = map d [0 ..< unat n]"
    by (simp add: seg_data_def tcp_segment_def Let_def wire l h)
qed

lemma tcp_can_send_step:
  assumes "ucast (n :: u16) \<le> tcp_can_send q"
  shows "unat (tcp_can_send (q\<lparr>snd_nxt := snd_nxt q + ucast n\<rparr>)) = unat (tcp_can_send q) - unat n"
proof -
  let ?f = "snd_nxt q - snd_una q" and ?w = "ucast (peer_wnd q) :: u32" and ?n = "ucast n :: u32"
  have w: "unat ?w < 65536" using unat_u16_less [of "peer_wnd q"] by (simp add: unat_ucast_up)
  have e: "snd_nxt q + ?n - snd_una q = ?f + ?n" by simp
  show ?thesis
  proof (cases "?f < ?w")
    case True
    then have f: "unat ?f < unat ?w" by (simp add: word_less_nat_alt)
    have c: "tcp_can_send q = ?w - ?f" "unat (?w - ?f) = unat ?w - unat ?f"
      using True by (simp_all add: tcp_can_send_def unat_sub less_imp_le)
    have n: "unat ?n \<le> unat ?w - unat ?f" "unat ?n = unat n"
      using assms c by (simp_all add: word_le_nat_alt unat_ucast_up)
    then have fn: "unat (?f + ?n) = unat ?f + unat n"
      using f w by (subst unat_add_lem [THEN iffD1]) simp_all
    show ?thesis
    proof (cases "?f + ?n < ?w")
      case lt: True
      then have "unat (?w - (?f + ?n)) = unat ?w - unat (?f + ?n)" by (simp add: unat_sub less_imp_le)
      with lt c fn show ?thesis by (simp add: tcp_can_send_def [of "q\<lparr>snd_nxt := _\<rparr>"] e Let_def)
    next
      case ge: False
      then have "unat ?w \<le> unat ?f + unat n" using fn by (simp add: word_less_nat_alt)
      with ge c show ?thesis by (simp add: tcp_can_send_def [of "q\<lparr>snd_nxt := _\<rparr>"] e Let_def)
    qed
  next
    case False
    then have "tcp_can_send q = 0" by (simp add: tcp_can_send_def)
    with assms have "unat ?n = 0" by simp
    then have "n = 0" by (simp add: unat_ucast_up unat_eq_zero)
    with False show ?thesis by (simp add: tcp_can_send_def)
  qed
qed

lemma tcp_can_send_flight:
  assumes "ucast (n :: u16) \<le> tcp_can_send q" "n \<noteq> 0"
  shows "snd_nxt q + ucast n - snd_una q \<le> ucast (peer_wnd q)"
proof -
  let ?f = "snd_nxt q - snd_una q" and ?w = "ucast (peer_wnd q) :: u32" and ?n = "ucast n :: u32"
  have w: "unat ?w < 65536" using unat_u16_less [of "peer_wnd q"] by (simp add: unat_ucast_up)
  have "unat ?n = unat n" by (simp add: unat_ucast_up)
  then have "?n \<noteq> 0" using assms(2) by (metis unat_0 unat_eq_zero)
  then have f: "?f < ?w" using assms(1) by (auto simp: tcp_can_send_def Let_def split: if_splits)
  then have "tcp_can_send q = ?w - ?f" "unat (?w - ?f) = unat ?w - unat ?f"
    by (simp_all add: tcp_can_send_def unat_sub less_imp_le)
  with assms(1) have "unat ?n \<le> unat ?w - unat ?f" by (simp add: word_le_nat_alt)
  moreover have "unat ?f < unat ?w" using f by (simp only: word_less_nat_alt)
  ultimately have s: "unat ?f + unat ?n \<le> unat ?w" by linarith
  then have "unat (?f + ?n) = unat ?f + unat ?n" using w by (subst unat_add_lem [THEN iffD1]) simp_all
  with s have "?f + ?n \<le> ?w" by (simp only: word_le_nat_alt)
  then show ?thesis by (simp add: add_diff_eq diff_add_eq)
qed

text \<open>One segment that fits the window and the buffer.\<close>

lemma record_out_segment:
  assumes i: "i < length (tcp_pcbs s)" and k: "kmalloc_ok s = (\<lambda>_. True)"
    and n: "ucast n \<le> tcp_can_send (pcb_at i s)" "n \<le> TCP_MSS"
  obtains seg t where
    "tcp_output_segment_at record_out i (TCP_PSH OR TCP_ACK) seqno (Some d) n True s = Some (0, t)"
    "sent t = sent s @ [seg]" "seg_seq seg = seqno" "seg_data seg = map d [0 ..< unat n]"
    "tcp_pcbs t = (tcp_pcbs s)[i := (pcb_at i s)\<lparr>snd_nxt := snd_nxt (pcb_at i s) + ucast n\<rparr>]"
    "kmalloc_ok t = (\<lambda>_. True)"
proof -
  obtain p u where a: "pbuf_alloc s = (Some p, u)" "payload p = 64" "tcp_pcbs u = tcp_pcbs s" "sent u = sent s"
    "kmalloc_ok u = kmalloc_ok s"
    using k by (auto simp: pbuf_alloc_def PBUF_HEADROOM_def Let_def)
  let ?p = "pbuf_header_or_same p (- 20)"
  have av: "tcp_avail ?p = 1984"
    using a(2) by (simp add: pbuf_header_or_same_def pbuf_header_def Let_def PBUF_SIZE_def tcp_avail_def)
  have nn: "\<not> n > tcp_avail ?p" "unat n \<le> 65000" "\<not> ucast n > tcp_can_send (pcb_at i s)"
    using n by (auto simp: av TCP_MSS_def word_le_nat_alt word_less_nat_alt)
  let ?seg = "tcp_segment (pcb_at i s) (TCP_PSH OR TCP_ACK) seqno (Some d) n ?p"
  let ?v = "u\<lparr>sent := sent s @ [?seg]\<rparr>"
  let ?t = "if n > 0 then pcb_upd i (\<lambda>p. p\<lparr>snd_nxt := snd_nxt p + ucast n\<rparr>) ?v else ?v"
  have "(TCP_PSH OR TCP_ACK) AND (TCP_SYN OR TCP_FIN) = 0" by (simp add: tcp_flags)
  then have "tcp_output_segment_at record_out i (TCP_PSH OR TCP_ACK) seqno (Some d) n True s = Some (0, ?t)"
    using nn a(1,3,4) by (simp add: tcp_output_segment_at_def Let_def record_out_def)
  then show ?thesis
  proof (rule that)
    show "seg_seq ?seg = seqno" "seg_data ?seg = map d [0 ..< unat n]" using tcp_segment_fields [OF nn(2)] by simp_all
    have "n = 0" if "\<not> n > 0" using that by (simp add: word_gt_0)
    then show "tcp_pcbs ?t = (tcp_pcbs s)[i := (pcb_at i s)\<lparr>snd_nxt := snd_nxt (pcb_at i s) + ucast n\<rparr>]"
      using a(3) by (auto simp: pcb_upd_def)
  qed (use a k in \<open>simp_all add: pcb_upd_def\<close>)
qed

text \<open>A list of segments that carries the bytes \<open>bs\<close> from sequence number \<open>seqno\<close> on.\<close>

fun consecutive :: "u32 \<Rightarrow> pbuf list \<Rightarrow> bool" where
  "consecutive seqno [] \<longleftrightarrow> True"
| "consecutive seqno (p # ps) \<longleftrightarrow> seg_seq p = seqno \<and> length (seg_data p) \<le> 1460 \<and>
     consecutive (seqno + of_nat (length (seg_data p))) ps"

lemma tcp_send_loop_records:
  assumes "i < length (tcp_pcbs s)" "kmalloc_ok s = (\<lambda>_. True)" "ucast len \<le> tcp_can_send (pcb_at i s)"
  shows "\<exists>t segs. tcp_send_loop record_out i d len s = Some (0, t) \<and> sent t = sent s @ segs \<and>
    concat (map seg_data segs) = map d [0 ..< unat len] \<and> consecutive (snd_nxt (pcb_at i s)) segs \<and>
    snd_nxt (pcb_at i t) = snd_nxt (pcb_at i s) + ucast len \<and> snd_una (pcb_at i t) = snd_una (pcb_at i s) \<and>
    peer_wnd (pcb_at i t) = peer_wnd (pcb_at i s)"
  using assms
proof (induction "unat len" arbitrary: len d s rule: less_induct)
  case less
  show ?case
  proof (cases "len = 0")
    case True
    then show ?thesis by (simp add: tcp_send_loop.simps)
  next
    case False
    define n where "n = (if len > TCP_MSS then TCP_MSS else len)"
    have n: "n \<le> TCP_MSS" "n \<le> len" "n \<noteq> 0" "unat n \<le> unat len" "unat n \<noteq> 0" "unat n \<le> 1460"
      using False by (auto simp: n_def TCP_MSS_def word_le_nat_alt word_less_nat_alt unat_eq_zero)
    have le: "unat (len - n) = unat len - unat n" using n(2) by (simp add: unat_sub)
    let ?q = "pcb_at i s"
    have cs: "unat len \<le> unat (tcp_can_send ?q)" using less.prems(3) by (simp add: word_le_nat_alt unat_ucast_up)
    have can: "ucast n \<le> tcp_can_send ?q" using cs n(4) by (simp add: word_le_nat_alt unat_ucast_up)
    obtain seg t where t: "tcp_output_segment_at record_out i (TCP_PSH OR TCP_ACK) (snd_nxt ?q) (Some d) n True s = Some (0, t)"
      "sent t = sent s @ [seg]" "seg_seq seg = snd_nxt ?q" "seg_data seg = map d [0 ..< unat n]"
      "tcp_pcbs t = (tcp_pcbs s)[i := ?q\<lparr>snd_nxt := snd_nxt ?q + ucast n\<rparr>]" "kmalloc_ok t = (\<lambda>_. True)"
      using record_out_segment [OF less.prems(1,2) can n(1)] by metis
    define u where "u = tcp_track_tx i (TCP_PSH OR TCP_ACK) (snd_nxt ?q) (Some d) n t"
    have u: "sent u = sent t" "kmalloc_ok u = kmalloc_ok t" "length (tcp_pcbs u) = length (tcp_pcbs s)"
      "snd_nxt (pcb_at i u) = snd_nxt ?q + ucast n" "snd_una (pcb_at i u) = snd_una ?q" "peer_wnd (pcb_at i u) = peer_wnd ?q"
      using t(5) less.prems(1) by (simp_all add: u_def tcp_track_tx_def pcb_upd_def)
    have "tcp_can_send (pcb_at i u) = tcp_can_send (?q\<lparr>snd_nxt := snd_nxt ?q + ucast n\<rparr>)"
      using u by (simp add: tcp_can_send_def)
    then have "unat (tcp_can_send (pcb_at i u)) = unat (tcp_can_send ?q) - unat n"
      using tcp_can_send_step [OF can] by simp
    then have c2: "ucast (len - n) \<le> tcp_can_send (pcb_at i u)"
      using cs le by (simp add: word_le_nat_alt unat_ucast_up)
    obtain v segs where v: "tcp_send_loop record_out i (\<lambda>k. d (unat n + k)) (len - n) u = Some (0, v)" "sent v = sent u @ segs"
      "concat (map seg_data segs) = map (\<lambda>k. d (unat n + k)) [0 ..< unat (len - n)]" "consecutive (snd_nxt (pcb_at i u)) segs"
      "snd_nxt (pcb_at i v) = snd_nxt (pcb_at i u) + ucast (len - n)" "snd_una (pcb_at i v) = snd_una (pcb_at i u)"
      "peer_wnd (pcb_at i v) = peer_wnd (pcb_at i u)"
      using less.hyps [of "len - n" u "\<lambda>k. d (unat n + k)"] le n less.prems(1) u(2,3) t(6) c2 by auto
    have "tcp_send_loop record_out i d len s = Some (0, v)"
      using False t(1) v(1) by (subst tcp_send_loop.simps) (simp add: n_def [symmetric] u_def Let_def)
    moreover have "sent v = sent s @ seg # segs" using v(2) u(1) t(2) by simp
    moreover have "map d [0 ..< unat n] @ map (\<lambda>k. d (unat n + k)) [0 ..< unat (len - n)] = map d [0 ..< unat len]"
      using le n(4) by (intro nth_equalityI) (auto simp: nth_append)
    then have "concat (map seg_data (seg # segs)) = map d [0 ..< unat len]" using t(4) v(3) by simp
    moreover have "consecutive (snd_nxt ?q) (seg # segs)" using t(3,4) v(4) u(4) n(6) by simp
    moreover have "ucast n + ucast (len - n) = (ucast len :: u32)"
    proof -
      have "(of_nat (unat n) :: u32) + of_nat (unat (len - n)) = of_nat (unat len)"
        using le n(4) by (simp only: of_nat_add [symmetric]) simp
      then show ?thesis by simp
    qed
    then have "snd_nxt (pcb_at i v) = snd_nxt ?q + ucast len" using v(5) u(4) by (simp add: add.assoc)
    ultimately show ?thesis using v(6,7) u(5,6) by (intro exI [of _ v] exI [of _ "seg # segs"]) simp
  qed
qed

section \<open>The checksum of a segment\<close>

function nsum_be :: "pmem \<Rightarrow> nat \<Rightarrow> nat \<Rightarrow> nat" where
  "nsum_be m a len =
     (if len > 1 then unat (ntohs (ld16 m a)) + nsum_be m (a + 2) (len - 2)
      else if len > 0 then 256 * unat (m a)
      else 0)"
  by pat_completeness auto
termination by (relation "measure (\<lambda>(m, a, len). len)") auto

declare nsum_be.simps [simp del]

lemma nsum_be_bound: "nsum_be m a len \<le> len * 65535"
proof (induction m a len rule: nsum_be.induct)
  case (1 m a len)
  show ?case
  proof (cases "len > 1")
    case True
    then have "nsum_be m a len = unat (ntohs (ld16 m a)) + nsum_be m (a + 2) (len - 2)" by (subst nsum_be.simps) simp
    moreover have "(len - 2) * 65535 + 65535 \<le> len * 65535" using True by (simp add: diff_mult_distrib)
    ultimately show ?thesis using 1 [OF True] unat_u16_less [of "ntohs (ld16 m a)"] by linarith
  next
    case False
    then show ?thesis using unat_byte_less [of "m a"] by (subst nsum_be.simps) (cases len; simp)
  qed
qed

lemma sum_be_nsum: "unat acc + nsum_be m a len < 2 ^ 32 \<Longrightarrow> unat (sum_be m a len acc) = unat acc + nsum_be m a len"
proof (induction m a len acc rule: sum_be.induct)
  case (1 m a len acc)
  have u: "unat (ucast (ntohs (ld16 m a)) :: u32) = unat (ntohs (ld16 m a))" by (simp add: unat_ucast_up)
  have b: "unat (push_bit 8 (ucast (m a)) :: u32) = 256 * unat (m a)"
    using unat_byte_less [of "m a"] by (simp add: push_bit_eq_mult unat_word_ariths unat_ucast_up)
  show ?case
  proof (cases "len > 1")
    case True
    have n: "nsum_be m a len = unat (ntohs (ld16 m a)) + nsum_be m (a + 2) (len - 2)"
      using True by (subst nsum_be.simps) simp
    have e: "unat (acc + ucast (ntohs (ld16 m a))) = unat acc + unat (ntohs (ld16 m a))"
      using "1.prems" n u by (simp add: unat_word_ariths)
    have s: "sum_be m a len acc = sum_be m (a + 2) (len - 2) (acc + ucast (ntohs (ld16 m a)))"
      using True by (subst sum_be.simps) simp
    from "1.IH" [OF True] "1.prems" show ?thesis unfolding s n e by simp
  next
    case False
    then show ?thesis using "1.prems" b
      by (subst sum_be.simps, subst nsum_be.simps) (auto simp: unat_word_ariths nsum_be.simps [of m a len])
  qed
qed

lemma nsum_be_st16:
  assumes "2 * j + 1 < len"
  shows "nsum_be (st16 (a + 2 * j) v m) a len + unat (ntohs (ld16 m (a + 2 * j))) = nsum_be m a len + unat (ntohs v)"
  using assms
proof (induction m a len arbitrary: j rule: nsum_be.induct)
  case (1 m a len)
  then have len: "len > 1" by simp
  have n: "nsum_be m' a len = unat (ntohs (ld16 m' a)) + nsum_be m' (a + 2) (len - 2)" for m'
    using len by (subst nsum_be.simps) simp
  show ?case
  proof (cases j)
    case 0
    have "nsum_be (st16 a v m) b k = nsum_be m b k" if "a + 2 \<le> b" for b k
      using that
    proof (induction m b k rule: nsum_be.induct)
      case (1 m b k)
      then show ?case
        by (subst nsum_be.simps, subst (2) nsum_be.simps) (auto simp: ld16_st16_other st16_same)
    qed
    with 0 show ?thesis by (simp add: n ld16_st16)
  next
    case (Suc i)
    have "2 * i + 1 < len - 2" using "1.prems" Suc by simp
    from "1.IH" [OF len this] Suc show ?thesis by (simp add: n ld16_st16_other)
  qed
qed

lemma tcp_checksum_unat:
  assumes "plen p \<le> 2048"
  shows "unat (ntohs (tcp_checksum p src dst)) =
    65535 - ones_sum (nsum_be (tcp_pseudo src dst (ucast (plen p))) 0 12 + nsum_be (buf p) (payload p) (unat (plen p)))"
proof -
  let ?P = "nsum_be (tcp_pseudo src dst (ucast (plen p))) 0 12" and ?N = "nsum_be (buf p) (payload p) (unat (plen p))"
  have n: "unat (plen p) \<le> 2048" "nat (sint (plen p)) = unat (plen p)"
  proof -
    show n: "unat (plen p) \<le> 2048" using assms by (simp add: word_le_nat_alt)
    have "uint (plen p) \<le> 2048" using assms by (simp add: word_le_def)
    then have "sint (plen p) = uint (plen p)" using int_word_sint [of "uint (plen p)", where ?'a = 32] by simp
    then show "nat (sint (plen p)) = unat (plen p)" by simp
  qed
  have P: "?P \<le> 12 * 65535" by (rule nsum_be_bound)
  have N: "?N \<le> unat (plen p) * 65535" by (rule nsum_be_bound)
  also have "\<dots> \<le> 2048 * 65535" using n(1) by (intro mult_le_mono) auto
  finally have N: "?N \<le> 2048 * 65535" .
  have p: "unat (sum_be (tcp_pseudo src dst (ucast (plen p))) 0 12 0) = ?P"
    using sum_be_nsum [of 0 "tcp_pseudo src dst (ucast (plen p))" 0 12] P by simp
  have "unat (sum_be (buf p) (payload p) (unat (plen p)) (sum_be (tcp_pseudo src dst (ucast (plen p))) 0 12 0)) = ?P + ?N"
    using sum_be_nsum [of "sum_be (tcp_pseudo src dst (ucast (plen p))) 0 12 0" "buf p" "payload p" "unat (plen p)"] p P N
    by simp
  then show ?thesis unfolding tcp_checksum_def htons_htons n(2) unat_not_fold16 by simp
qed

lemma tcp_checksum_fill:
  assumes "16 + 1 < unat (plen p)" "plen p \<le> 2048" "h16 p 16 = 0"
  shows "tcp_checksum (w16 16 (tcp_checksum p src dst) p) src dst = 0"
proof -
  let ?c = "tcp_checksum p src dst"
  let ?P = "nsum_be (tcp_pseudo src dst (ucast (plen p))) 0 12" and ?N = "nsum_be (buf p) (payload p) (unat (plen p))"
  have "nsum_be (buf (w16 16 ?c p)) (payload p) (unat (plen p)) = ?N + unat (ntohs ?c)"
    using nsum_be_st16 [of 8 "unat (plen p)" "payload p" ?c "buf p"] assms(1,3) by (simp add: w16_def h16_def htons_def)
  then have "unat (ntohs (tcp_checksum (w16 16 ?c p) src dst)) = 65535 - ones_sum (?P + ?N + (65535 - ones_sum (?P + ?N)))"
    using tcp_checksum_unat [of "w16 16 ?c p" src dst] tcp_checksum_unat [OF assms(2), of src dst] assms(2)
    by (simp add: add.assoc)
  also have "\<dots> = 0" by (simp only: ones_sum_complement)
  finally have "ntohs (tcp_checksum (w16 16 ?c p) src dst) = 0" by (simp only: unat_eq_zero)
  then show ?thesis by (metis htons_htons htons_def push_bit_of_0 drop_bit_of_0 or.right_neutral)
qed

section \<open>Giving up\<close>

text \<open>A block that waits for the answer to its SYN or FIN, and one that was given up.\<close>

definition awaiting :: "tcp_pcb \<Rightarrow> bool" where
  "awaiting q \<longleftrightarrow> (pcb_state q = TCP_SYN_SENT \<or> pcb_state q = TCP_SYN_RCVD \<or> pcb_state q = TCP_LAST_ACK) \<and>
     last_tx_flags q \<noteq> 0 \<and> snd_una q < snd_nxt q \<and> snd_nxt q \<noteq> last_tx_seq q"

definition given_up :: "tcp_pcb \<Rightarrow> bool" where
  "given_up q \<longleftrightarrow> pcb_state q = TCP_CLOSED \<and> last_tx_flags q = 0"

definition tick_result :: "u32 \<Rightarrow> tcp_pcb \<Rightarrow> tcp_pcb \<Rightarrow> bool" where
  "tick_result now q r \<longleftrightarrow> (given_up q \<longrightarrow> given_up r) \<and>
     (awaiting q \<longrightarrow> now - last_tx_tick q = TCP_RTX_TIMEOUT_TICKS \<longrightarrow>
        given_up r \<or> rtx_count q < TCP_RTX_MAX \<and> awaiting r \<and> rtx_count r = rtx_count q + 1 \<and> last_tx_tick r = now)"

text \<open>The timer touches one block at a time.\<close>

lemma tick_pcb_own:
  assumes out: "out_frame out"
  obtains t where "tcp_tick_pcb out i s = Some t" "\<And>j. j \<noteq> i \<Longrightarrow> pcb_at j t = pcb_at j s"
    "length (tcp_pcbs t) = length (tcp_pcbs s)" "pit_ticks t = pit_ticks s"
    "i < length (tcp_pcbs s) \<Longrightarrow> tick_result (pit_ticks s) (pcb_at i s) (pcb_at i t)"
proof -
  let ?q = "pcb_at i s" and ?now = "pit_ticks s"
  define u where "u = pcb_upd i (\<lambda>p. p\<lparr>rtx_count := rtx_count p + 1, last_tx_tick := ?now\<rparr>) s"
  obtain r v where v: "tcp_output_segment_at out i (last_tx_flags ?q) (last_tx_seq ?q)
      (if last_tx_len ?q \<noteq> 0 then Some (last_tx_data ?q) else None) (last_tx_len ?q) False u = Some (r, v)"
    "tcp_pcbs v = tcp_pcbs u" "pit_ticks v = pit_ticks u"
    using output_no_advance [OF out] by metis
  define w where "w = (if r = 0 \<and> tcp_bump (pcb_at i u) \<noteq> 0
    then pcb_upd i (\<lambda>p. p\<lparr>snd_nxt := snd_nxt p + tcp_bump (pcb_at i u)\<rparr>) v else v)"
  define t where "t =
    (if tcp_dead ?now ?q then pcb_upd i pcb_drop s
     else if last_tx_flags ?q = 0 \<or> \<not> tcp_outstanding ?q \<or> ?now - last_tx_tick ?q < TCP_RTX_TIMEOUT_TICKS then s
     else if rtx_count ?q \<ge> TCP_RTX_MAX then pcb_upd i tcp_give_up s else w)"
  have r: "tcp_tick_pcb out i s = Some t"
    by (auto simp: tcp_tick_pcb_def t_def w_def Let_def u_def [symmetric] v(1))
  have res: "tick_result ?now ?q (pcb_at i t)" if i: "i < length (tcp_pcbs s)"
  proof -
    have w: "pcb_at i w = ?q\<lparr>rtx_count := rtx_count ?q + 1, last_tx_tick := ?now\<rparr>" if "awaiting ?q"
      using that i v(2) by (auto simp: w_def u_def pcb_upd_def tcp_bump_def awaiting_def)
    have "\<not> tcp_dead ?now ?q" "last_tx_flags ?q = 0" if "given_up ?q"
      using that by (auto simp: given_up_def tcp_dead_def)
    then have "given_up (pcb_at i t)" if "given_up ?q" using that by (simp add: t_def)
    moreover have "given_up (pcb_at i t) \<or> rtx_count ?q < TCP_RTX_MAX \<and> awaiting (pcb_at i t) \<and>
        rtx_count (pcb_at i t) = rtx_count ?q + 1 \<and> last_tx_tick (pcb_at i t) = ?now"
      if a: "awaiting ?q" "?now - last_tx_tick ?q = TCP_RTX_TIMEOUT_TICKS"
    proof -
      have o: "tcp_outstanding ?q" "last_tx_flags ?q \<noteq> 0" using a(1) by (auto simp: tcp_outstanding_def awaiting_def)
      have d: "given_up (pcb_drop ?q)" "given_up (tcp_give_up ?q)"
        using a(1) by (auto simp: given_up_def pcb_drop_def tcp_give_up_def awaiting_def)
      have "awaiting (pcb_at i w)" using a(1) w [OF a(1)] by (simp add: awaiting_def)
      with o d w [OF a(1)] i a(2) show ?thesis by (auto simp: t_def pcb_upd_def)
    qed
    ultimately show ?thesis by (simp add: tick_result_def)
  qed
  have "pcb_at j t = pcb_at j s \<and> length (tcp_pcbs t) = length (tcp_pcbs s) \<and> pit_ticks t = ?now" if "j \<noteq> i" for j
    using that v(2,3) by (auto simp: t_def w_def u_def pcb_upd_def)
  from that [OF r _ _ _ res] this this [of "Suc i"] show ?thesis by simp
qed

lemma tick_from_own:
  assumes out: "out_frame out" and "distinct js" "i < length (tcp_pcbs s)"
  shows "\<exists>t. tcp_tick_from out js s = Some t \<and> length (tcp_pcbs t) = length (tcp_pcbs s) \<and> pit_ticks t = pit_ticks s \<and>
    (if i \<in> set js then tick_result (pit_ticks s) (pcb_at i s) (pcb_at i t) else pcb_at i t = pcb_at i s)"
  using assms(2,3)
proof (induction js arbitrary: s)
  case (Cons j js)
  obtain u where u: "tcp_tick_pcb out j s = Some u" "\<And>k. k \<noteq> j \<Longrightarrow> pcb_at k u = pcb_at k s"
    "length (tcp_pcbs u) = length (tcp_pcbs s)" "pit_ticks u = pit_ticks s"
    "j < length (tcp_pcbs s) \<Longrightarrow> tick_result (pit_ticks s) (pcb_at j s) (pcb_at j u)"
    using tick_pcb_own [OF out, of j s] by blast
  have "\<exists>t. tcp_tick_from out js u = Some t \<and> length (tcp_pcbs t) = length (tcp_pcbs u) \<and> pit_ticks t = pit_ticks u \<and>
    (if i \<in> set js then tick_result (pit_ticks u) (pcb_at i u) (pcb_at i t) else pcb_at i t = pcb_at i u)"
    by (rule Cons.IH) (use Cons.prems u(3) in simp_all)
  with u Cons.prems show ?case by (cases "i = j") auto
qed simp

text \<open>Rounds of the timer, one time-out apart, without any input.\<close>

fun tcp_rounds :: "'z tnet_scheme outfn \<Rightarrow> nat \<Rightarrow> 'z tnet_scheme \<Rightarrow> 'z tnet_scheme option" where
  "tcp_rounds out 0 s = Some s"
| "tcp_rounds out (Suc n) s =
     Option.bind (tcp_tick out 0 (s\<lparr>pit_ticks := pit_ticks s + TCP_RTX_TIMEOUT_TICKS\<rparr>)) (tcp_rounds out n)"

lemma tcp_round:
  assumes "out_frame out" "i < length (tcp_pcbs s)" "length (tcp_pcbs s) = TCP_MAX_PCBS"
  obtains t where "tcp_tick out 0 (s\<lparr>pit_ticks := pit_ticks s + TCP_RTX_TIMEOUT_TICKS\<rparr>) = Some t"
    "length (tcp_pcbs t) = TCP_MAX_PCBS" "pit_ticks t = pit_ticks s + TCP_RTX_TIMEOUT_TICKS"
    "tick_result (pit_ticks t) (pcb_at i s) (pcb_at i t)"
  using tick_from_own [OF assms(1), of "[0 ..< TCP_MAX_PCBS]" i "s\<lparr>pit_ticks := pit_ticks s + TCP_RTX_TIMEOUT_TICKS\<rparr>"] assms(2,3)
  by (auto simp: tcp_tick_def)

lemma tcp_rounds_give_up:
  assumes out: "out_frame out"
  shows "\<lbrakk>length (tcp_pcbs s) = TCP_MAX_PCBS; i < TCP_MAX_PCBS;
      given_up (pcb_at i s) \<or> awaiting (pcb_at i s) \<and> last_tx_tick (pcb_at i s) = pit_ticks s \<and> 4 \<le> unat (rtx_count (pcb_at i s)) + n\<rbrakk> \<Longrightarrow>
    \<exists>t. tcp_rounds out n s = Some t \<and> (n = 0 \<or> given_up (pcb_at i t))"
proof (induction n arbitrary: s)
  case (Suc n)
  obtain t where t: "tcp_tick out 0 (s\<lparr>pit_ticks := pit_ticks s + TCP_RTX_TIMEOUT_TICKS\<rparr>) = Some t"
    "length (tcp_pcbs t) = TCP_MAX_PCBS" "pit_ticks t = pit_ticks s + TCP_RTX_TIMEOUT_TICKS"
    "tick_result (pit_ticks t) (pcb_at i s) (pcb_at i t)"
    using tcp_round [OF out, of i s] Suc.prems by auto
  have u: "unat (rtx_count q + 1) = unat (rtx_count q) + 1" if "rtx_count q < TCP_RTX_MAX" for q :: tcp_pcb
    using that by (simp add: TCP_RTX_MAX_def word_less_nat_alt unat_word_ariths)
  have st: "given_up (pcb_at i t) \<or> awaiting (pcb_at i t) \<and> last_tx_tick (pcb_at i t) = pit_ticks t \<and>
      4 \<le> unat (rtx_count (pcb_at i t)) + n \<and> unat (rtx_count (pcb_at i t)) \<le> 3"
    using Suc.prems(3) t(3,4) u by (auto simp: tick_result_def TCP_RTX_MAX_def word_less_nat_alt)
  show ?case
  proof (cases n)
    case 0
    with st t(1) show ?thesis by (auto simp: TCP_RTX_MAX_def)
  next
    case (Suc m)
    from Suc.IH [OF t(2) Suc.prems(2)] st t(1) Suc show ?thesis by auto
  qed
qed simp

section \<open>Reclaiming a block\<close>

text \<open>The states of a connection that is being torn down.\<close>

definition teardown_states :: "tcp_state set" where
  "teardown_states = {TCP_FIN_WAIT_1, TCP_FIN_WAIT_2, TCP_CLOSE_WAIT, TCP_CLOSING, TCP_LAST_ACK, TCP_TIME_WAIT}"

lemma teardown_iff: "st \<in> teardown_states \<longleftrightarrow> closing st"
  by (cases st) (simp_all add: teardown_states_def)

definition pcb_age :: "u32 \<Rightarrow> tcp_pcb \<Rightarrow> nat" where
  "pcb_age now q = unat (now - state_tick q)"

text \<open>Ticks that are less than half the range old compare by age.\<close>

lemma older_iff:
  assumes "pcb_age now p < 2 ^ 31" "unat (now - t) < 2 ^ 31"
  shows "sint (state_tick p - t) < 0 \<longleftrightarrow> unat (now - t) < pcb_age now p"
proof -
  have "int (unat (now - t)) < int (2 ^ 31)" "int (unat (now - state_tick p)) < int (2 ^ 31)"
    using assms unfolding pcb_age_def by (simp_all only: of_nat_less_iff)
  then have u: "uint (now - t) < 2 ^ 31" "uint (now - state_tick p) < 2 ^ 31" by simp_all
  have g: "sint (x - y) = uint x - uint y" if "uint x < 2 ^ 31" "uint y < 2 ^ 31" for x y :: u32
  proof -
    have "sint x = uint x" "sint y = uint y"
      using that int_word_sint [of "uint x", where ?'a = 32] int_word_sint [of "uint y", where ?'a = 32] by simp_all
    moreover have "- (2 ^ 31) \<le> uint x - uint y" "uint x - uint y < 2 ^ 31"
      using that unsigned_greater_eq [of x, where ?'a = int] unsigned_greater_eq [of y, where ?'a = int] by linarith+
    ultimately show ?thesis unfolding sint_word_ariths by (simp add: signed_take_bit_int_eq_self)
  qed
  have "state_tick p - t = (now - t) - (now - state_tick p)" by simp
  then have "sint (state_tick p - t) = uint (now - t) - uint (now - state_tick p)" using g [OF u] by metis
  then show ?thesis by (simp add: pcb_age_def flip: word_less_def word_less_nat_alt)
qed

lemma oldest_closing_cases:
  assumes "\<And>q. q \<in> set ps \<Longrightarrow> closing (pcb_state q) \<Longrightarrow> pcb_age now q < 2 ^ 31"
    and "case old of None \<Rightarrow> True | Some (_, t) \<Rightarrow> unat (now - t) < 2 ^ 31"
  shows "case oldest_closing i ps old of
      None \<Rightarrow> old = None \<and> (\<forall>q \<in> set ps. \<not> closing (pcb_state q))
    | Some (j, t) \<Rightarrow> (\<forall>q \<in> set ps. closing (pcb_state q) \<longrightarrow> pcb_age now q \<le> unat (now - t)) \<and>
        (case old of None \<Rightarrow> True | Some (_, t') \<Rightarrow> unat (now - t') \<le> unat (now - t)) \<and>
        (old = Some (j, t) \<or> (\<exists>k < length ps. j = i + k \<and> closing (pcb_state (ps ! k)) \<and> t = state_tick (ps ! k)))"
  using assms
proof (induction ps arbitrary: i old)
  case Nil
  then show ?case by (auto split: option.split)
next
  case (Cons p ps)
  let ?take = "closing (pcb_state p) \<and> (case old of None \<Rightarrow> True | Some (_, t) \<Rightarrow> sint (state_tick p - t) < 0)"
  let ?old = "if ?take then Some (i, state_tick p) else old"
  have r: "oldest_closing i (p # ps) old = oldest_closing (Suc i) ps ?old" by simp
  have age: "case ?old of None \<Rightarrow> True | Some (_, t) \<Rightarrow> unat (now - t) < 2 ^ 31"
    using Cons.prems by (auto simp: pcb_age_def split: option.split)
  have cmp: "sint (state_tick p - t) < 0 \<longleftrightarrow> unat (now - t) < pcb_age now p"
    if "closing (pcb_state p)" "old = Some (x, t)" for x t
    using older_iff [of now p t] Cons.prems that by simp
  note IH = Cons.IH [of ?old "Suc i", OF _ age]
  show ?case
  proof (cases "oldest_closing (Suc i) ps ?old")
    case None
    with IH Cons.prems(1) show ?thesis unfolding r by (auto split: if_splits option.splits)
  next
    case (Some jt)
    obtain j t where jt: "jt = (j, t)" by (cases jt)
    from IH Some jt Cons.prems(1)
    have a: "\<forall>q \<in> set ps. closing (pcb_state q) \<longrightarrow> pcb_age now q \<le> unat (now - t)"
      and b: "case ?old of None \<Rightarrow> True | Some (_, t') \<Rightarrow> unat (now - t') \<le> unat (now - t)"
      and c: "?old = Some (j, t) \<or> (\<exists>k < length ps. j = Suc i + k \<and> closing (pcb_state (ps ! k)) \<and> t = state_tick (ps ! k))"
      by auto
    have "closing (pcb_state p) \<longrightarrow> pcb_age now p \<le> unat (now - t)"
      using b cmp by (cases old) (auto simp: pcb_age_def split: if_splits)
    moreover have "case old of None \<Rightarrow> True | Some (_, t') \<Rightarrow> unat (now - t') \<le> unat (now - t)"
      using b cmp by (cases old) (auto simp: pcb_age_def split: if_splits)
    moreover have "old = Some (j, t) \<or> (\<exists>k < length (p # ps). j = i + k \<and> closing (pcb_state ((p # ps) ! k)) \<and> t = state_tick ((p # ps) ! k))"
      using c by (auto split: if_splits intro: exI [of _ 0] exI [of _ "Suc _"])
    ultimately show ?thesis unfolding r Some jt using a by simp
  qed
qed

text \<open>Sending always returns.\<close>

lemma output_total:
  assumes "out_frame out"
  shows "\<exists>r t. tcp_output_segment_at out i flags seqno data n adv s = Some (r, t)"
proof (cases "n > 0 \<and> adv \<and> ucast n > tcp_can_send (pcb_at i s)")
  case True
  then show ?thesis by (simp add: tcp_output_segment_at_def)
next
  case False
  obtain a u where a: "pbuf_alloc s = (a, u)" by (cases "pbuf_alloc s")
  show ?thesis
  proof (cases a)
    case None
    with a False show ?thesis by (simp add: tcp_output_segment_at_def)
  next
    case (Some q)
    let ?p = "pbuf_header_or_same q (- 20)"
    let ?seg = "tcp_segment (pcb_at i u) flags seqno data (if n > tcp_avail ?p then tcp_avail ?p else n) ?p"
    from assms obtain r t where "out ?seg (remote_ip (pcb_at i u)) IP_PROTO_TCP u = Some (r, t)"
      unfolding out_frame_def by blast
    then show ?thesis
      unfolding tcp_output_segment_at_def if_not_P [OF False] a Some by (simp add: Let_def)
  qed
qed

lemma tcp_send_total:
  assumes out: "out_frame out"
  shows "\<exists>r t. tcp_send out pcb data len s = Some (r, t)"
proof -
  have "\<exists>r t. tcp_send_loop out i data len s = Some (r, t)" for i
    using out
  proof (induction out i data len s rule: tcp_send_loop.induct)
    case (1 out i data len s)
    obtain r t where t: "tcp_output_segment_at out i (TCP_PSH OR TCP_ACK) (snd_nxt (pcb_at i s)) (Some data)
        (if len > TCP_MSS then TCP_MSS else len) True s = Some (r, t)" using output_total [OF "1.prems"] by blast
    show ?case
    proof (cases "len = 0")
      case False
      show ?thesis
        using "1.IH" [OF False refl refl t refl _ "1.prems"] False t by (subst tcp_send_loop.simps) (auto simp: Let_def)
    qed (simp add: tcp_send_loop.simps)
  qed
  then show ?thesis by (auto simp: tcp_send_def split: option.split)
qed

section \<open>A machine for examples\<close>

text \<open>The stack without local delivery, and a machine with one established connection from
  10.0.2.15:5000 to 10.0.2.2:6000 that expects byte 500.\<close>

lemma clock_frame [simp]:
  "pit_ticks (kfree_pbuf i s) = pit_ticks s" "pit_ticks (pbuf_free p s) = pit_ticks s"
  "pit_ticks (snd (pbuf_alloc s)) = pit_ticks s" "pit_ticks (snd (e1000_tx_send_raw f s)) = pit_ticks s"
proof -
  show k: "pit_ticks (kfree_pbuf i s) = pit_ticks s" for i and s :: "'a net_scheme" by (simp add: kfree_pbuf_def)
  have "pit_ticks (fold kfree_pbuf is s) = pit_ticks s" for "is" and s :: "'a net_scheme"
    by (induction "is" arbitrary: s) (simp_all add: k)
  then show "pit_ticks (pbuf_free p s) = pit_ticks s" by (simp only: pbuf_free_def)
qed (simp_all add: pbuf_alloc_def e1000_tx_send_raw_def Let_def)

lemma clock_frame_alloc: "pbuf_alloc s = (a, t) \<Longrightarrow> pit_ticks t = pit_ticks s"
  using clock_frame(3) [of s] by simp

lemma clock_frame_eth [simp]: "pit_ticks (snd (ethernet_output p mac type s)) = pit_ticks s"
  using clock_frame(4) by (auto simp: ethernet_output_def Let_def split_beta split: option.split)

lemma clock_frame_arp [simp]: "pit_ticks (snd (arp_query a s)) = pit_ticks s"
  by (auto simp: arp_query_def Let_def clock_frame_alloc split: option.split prod.split)

definition drop_in :: "'z net_scheme infn" where
  "drop_in p s = Some (pbuf_free p s)"

lemma out_frame_ip4: "out_frame (ip4_output drop_in)"
  unfolding out_frame_def
proof (intro allI)
  fix p :: pbuf and d :: u32 and pr :: u8 and s :: "'z tnet_scheme"
  have "\<exists>r t. ip4_output drop_in p d pr s = Some (r, t) \<and> net.more t = net.more s \<and> pit_ticks t = pit_ticks s"
    unfolding ip4_output_def ip4_output_ttl_def drop_in_def Let_def
    by (simp add: split_beta split: option.split)
  then show "\<exists>r t. ip4_output drop_in p d pr s = Some (r, t) \<and> tcp_pcbs t = tcp_pcbs s \<and> pit_ticks t = pit_ticks s"
    using tcp_pcbs_more by metis
qed

definition pcb_closed :: tcp_pcb where
  "pcb_closed = \<lparr>local_ip = 0, remote_ip = 0, local_port = 0, remote_port = 0, pcb_state = TCP_CLOSED, state_tick = 0,
     snd_nxt = 0, snd_una = 0, rcv_nxt = 0, peer_wnd = 65535, last_tx_tick = 0, last_tx_flags = 0, rtx_count = 0,
     last_tx_seq = 0, last_tx_len = 0, last_tx_data = (\<lambda>_. 0), app_rx_len = 0, app_rx_buf = (\<lambda>_. 0)\<rparr>"

definition pcb_example :: tcp_pcb where
  "pcb_example = pcb_closed\<lparr>local_ip := 0x0A00020F, remote_ip := 0x0A000202, local_port := 5000, remote_port := 6000,
     pcb_state := TCP_ESTABLISHED, snd_nxt := 101, snd_una := 101, rcv_nxt := 500\<rparr>"

definition tcp_machine :: "tcp_pcb \<Rightarrow> tnet" where
  "tcp_machine q = net.extend net_boot (tnet.fields (q # replicate 15 pcb_closed) 10000)"

text \<open>A segment from 10.0.2.2:6000 to port 5000.\<close>

definition tcp_frame :: "u32 \<Rightarrow> u32 \<Rightarrow> u16 \<Rightarrow> u8 list \<Rightarrow> pbuf" where
  "tcp_frame seq ack flags data =
     (let p = (pbuf_with (replicate 20 0 @ data))\<lparr>plen := of_nat (20 + length data)\<rparr>
      in w16 14 (htons 8192) (w16 12 (htons (push_bit 12 5 OR flags)) (w32 8 (htonl ack) (w32 4 (htonl seq)
           (w16 2 (htons 5000) (w16 0 (htons 6000) p))))))"

lemma tcp_machine_pcbs: "tcp_pcbs (tcp_machine q) = q # replicate 15 pcb_closed"
  by (simp add: tcp_machine_def net.extend_def tnet.fields_def net_boot_def)

section \<open>Properties\<close>


lemma out_not_established_ip4: "out_not_established j (ip4_output drop_in)"
  using out_frame_ip4 unfolding out_not_established_def out_frame_def after_pair_def
  by (metis not_established_frame option.inject prod.inject)

text \<open>Conversely, the SYN and ACK that answers the machine's SYN establishes the connection.\<close>

lemma syn_ack_establishes:
  assumes out: "out_frame out" and f: "tcp_find_pcb dst (ntohs (h16 p 2)) src (ntohs (h16 p 0)) s = Some i"
    and p: "20 \<le> plen p" "5 \<le> TCP_HDR_OFFSET p"
    and h: "handshake_ack p (pcb_at i s)" "pcb_state (pcb_at i s) = TCP_SYN_SENT"
  obtains t where "tcp_input A out p src dst s = Some t" "pcb_state (pcb_at i t) = TCP_ESTABLISHED"
proof -
  have i: "i < length (tcp_pcbs s)" by (rule tcp_find_exact(1) [OF f])
  define u where "u = pcb_upd i (\<lambda>q. q\<lparr>rcv_nxt := ntohl (h32 p 4) + 1, snd_una := ntohl (h32 p 8), pcb_state := TCP_ESTABLISHED,
     last_tx_flags := 0, last_tx_len := 0, peer_wnd := ntohs (h16 p 14)\<rparr>) (pcb_upd i (\<lambda>q. q\<lparr>state_tick := pit_ticks s\<rparr>) s)"
  obtain t where t: "tcp_send_ack out i TCP_ACK u = Some t" "tcp_pcbs t = tcp_pcbs u"
    using send_ack_frame [OF out] by metis
  have "\<not> TCP_HDR_OFFSET p > 15" using header_words [of p] by (simp add: word_less_nat_alt)
  then have "tcp_input A out p src dst s = Some (pbuf_free p t)"
    using i f p h t(1) by (simp add: tcp_input_def Let_def tcp_in_syn_sent_def pcb_upd_def u_def handshake_ack_def)
  moreover have "tcp_pcbs (pbuf_free p t) = tcp_pcbs u" using t(2) tcp_pcbs_more [OF net_more(2)] by metis
  then have "pcb_state (pcb_at i (pbuf_free p t)) = TCP_ESTABLISHED" using i by (simp add: u_def pcb_upd_def)
  ultimately show ?thesis by (rule that)
qed


text \<open>C22: Received data is a gapless copy of what the peer sent: segments of a stream \<open>S\<close> may be lost,
  repeated and reordered at will; the receive buffer of the connection holds a prefix of \<open>S\<close>, it grows
  exactly with the segments that start where it stands, and the next expected sequence number
  moves with it, also across the wrap-around of sequence numbers. Every segment is processed.\<close>

theorem tcp_stream_in_order:
  assumes "out_frame out" "length S \<le> unat TCP_APP_RX_MAX"
    and "list_all2 (\<lambda>p (k, n). carries S base lport rport p k n) ps ks"
    and "plain_connection i dst lport src rport s" "app_rx_len (pcb_at i s) = 0" "rcv_nxt (pcb_at i s) = base"
  shows "\<exists>t. tcp_inputs A out ps src dst s = Some t \<and> rx_stream (pcb_at i t) = take (stream_pos 0 ks) S \<and>
    rcv_nxt (pcb_at i t) = base + of_nat (stream_pos 0 ks)"
proof -
  have S: "length S \<le> 49152" using assms(2) by (simp add: TCP_APP_RX_MAX_def)
  have rx: "rx_stream (pcb_at i s) = take 0 S" "rcv_nxt (pcb_at i s) = base + of_nat 0"
    using assms(5,6) by (simp_all add: rx_stream_def get_bytes_def)
  show ?thesis by (rule tcp_stream_run [OF assms(1) S assms(3,4) rx]) simp
qed

lemma tcp_example_segments:
  "list_all2 (\<lambda>p (k, n). carries [7, 8, 9] 500 5000 6000 p k n)
     [tcp_frame 502 101 TCP_ACK [9], tcp_frame 500 101 TCP_ACK [7, 8], tcp_frame 500 101 TCP_ACK [7], tcp_frame 502 101 TCP_ACK [9]]
     [(2, 1), (0, 2), (0, 1), (2, 1)]"
  by code_simp

lemma tcp_example_connection: "plain_connection 0 0x0A00020F 5000 0x0A000202 6000 (tcp_machine pcb_example)"
  by (simp add: plain_connection_def tcp_find_pcb_def tcp_machine_pcbs pcb_example_def)

theorem tcp_stream_in_order_witness:
  "\<exists>t. tcp_inputs no_apps (ip4_output drop_in)
     [tcp_frame 502 101 TCP_ACK [9], tcp_frame 500 101 TCP_ACK [7, 8], tcp_frame 500 101 TCP_ACK [7], tcp_frame 502 101 TCP_ACK [9]]
     0x0A000202 0x0A00020F (tcp_machine pcb_example) = Some t \<and> rx_stream (pcb_at 0 t) = [7, 8, 9]"
  using tcp_stream_in_order [OF out_frame_ip4 _ tcp_example_segments tcp_example_connection, of no_apps]
  by (simp add: TCP_APP_RX_MAX_def tcp_machine_pcbs pcb_example_def pcb_closed_def) blast

text \<open>C25: A connection attempt or a close that nobody answers is given up: after the segment was sent,
  four rounds of the timer at the retransmission time-out leave the block closed and free for
  reuse, whether or not the retransmissions could be sent. Holds for blocks whose
  sequence numbers have not wrapped around.\<close>

theorem tcp_unanswered_is_closed:
  assumes "out_frame out" "length (tcp_pcbs s) = TCP_MAX_PCBS" "i < TCP_MAX_PCBS"
    and "awaiting (pcb_at i s)" "last_tx_tick (pcb_at i s) = pit_ticks s" "rtx_count (pcb_at i s) = 0"
  shows "\<exists>t. tcp_rounds out 4 s = Some t \<and> pcb_state (pcb_at i t) = TCP_CLOSED \<and> last_tx_flags (pcb_at i t) = 0"
  using tcp_rounds_give_up [OF assms(1-3), of 4] assms(4-6) by (simp add: given_up_def)

theorem tcp_unanswered_is_closed_witness:
  "\<exists>t. tcp_rounds (ip4_output drop_in) 4 (tcp_machine (pcb_example\<lparr>pcb_state := TCP_SYN_SENT, snd_una := 100, last_tx_seq := 100,
     last_tx_flags := TCP_SYN, last_tx_tick := 1000\<rparr>)) = Some t \<and> pcb_state (pcb_at 0 t) = TCP_CLOSED"
proof -
  let ?q = "pcb_example\<lparr>pcb_state := TCP_SYN_SENT, snd_una := 100, last_tx_seq := 100, last_tx_flags := TCP_SYN, last_tx_tick := 1000\<rparr>"
  have t: "pit_ticks (tcp_machine q) = 1000" for q
    by (simp add: tcp_machine_def net.extend_def tnet.fields_def net_boot_def)
  have "awaiting ?q" "last_tx_tick ?q = 1000" "rtx_count ?q = 0"
    by (simp_all add: awaiting_def pcb_example_def pcb_closed_def TCP_SYN_def)
  then show ?thesis
    using tcp_unanswered_is_closed [OF out_frame_ip4, of "tcp_machine ?q" 0]
    by (auto simp: tcp_machine_pcbs t TCP_MAX_PCBS_def)
qed

text \<open>C24: Sending: a write that fits the peer's window is cut into segments of at most one MSS whose
  sequence numbers are consecutive and whose payloads, put together, are exactly the bytes written;
  the whole write succeeds and the bytes in flight stay within the window.\<close>

theorem tcp_send_transmits_all:
  assumes "pcb_state (pcb_at i s) = TCP_ESTABLISHED" "i < length (tcp_pcbs s)" "kmalloc_ok s = (\<lambda>_. True)"
    and "ucast len \<le> tcp_can_send (pcb_at i s)"
  shows "\<exists>t segs. tcp_send record_out (Some i) data len s = Some (0, t) \<and> sent t = sent s @ segs \<and>
    concat (map seg_data segs) = map data [0 ..< unat len] \<and> consecutive (snd_nxt (pcb_at i s)) segs \<and>
    snd_nxt (pcb_at i t) = snd_nxt (pcb_at i s) + ucast len \<and>
    (len \<noteq> 0 \<longrightarrow> snd_nxt (pcb_at i t) - snd_una (pcb_at i t) \<le> ucast (peer_wnd (pcb_at i t)))"
proof -
  obtain t segs where t: "tcp_send_loop record_out i data len s = Some (0, t)" "sent t = sent s @ segs"
    "concat (map seg_data segs) = map data [0 ..< unat len]" "consecutive (snd_nxt (pcb_at i s)) segs"
    "snd_nxt (pcb_at i t) = snd_nxt (pcb_at i s) + ucast len" "snd_una (pcb_at i t) = snd_una (pcb_at i s)"
    "peer_wnd (pcb_at i t) = peer_wnd (pcb_at i s)"
    using tcp_send_loop_records [OF assms(2-4)] by metis
  have "snd_nxt (pcb_at i s) + ucast len - snd_una (pcb_at i s) \<le> ucast (peer_wnd (pcb_at i s))" if "len \<noteq> 0"
    by (rule tcp_can_send_flight [OF assms(4) that])
  with t assms(1) show ?thesis by (intro exI [of _ t] exI [of _ segs]) (simp add: tcp_send_def)
qed

definition recording_machine :: recorded where
  "recording_machine = tnet.extend (tcp_machine pcb_example) (recorded.fields [])"

lemma recording_machine_fields:
  "tcp_pcbs recording_machine = pcb_example # replicate 15 pcb_closed" "kmalloc_ok recording_machine = (\<lambda>_. True)"
  "sent recording_machine = []"
  by (simp_all add: recording_machine_def tnet.extend_def recorded.fields_def tcp_machine_def net.extend_def
      tnet.fields_def net_boot_def)

theorem tcp_send_transmits_all_witness:
  "\<exists>t segs. tcp_send record_out (Some 0) of_nat 3000 recording_machine = Some (0, t) \<and>
     concat (map seg_data segs) = map of_nat [0 ..< 3000] \<and> sent t = segs"
  using tcp_send_transmits_all [where i = 0 and s = recording_machine and len = 3000 and data = of_nat]
  by (auto simp: recording_machine_fields pcb_example_def pcb_closed_def tcp_can_send_def)

text \<open>Every segment TCP builds verifies: its checksum over pseudo header, header and data is
  0, so that a peer accepts it.\<close>

theorem tcp_segment_verifies:
  assumes "n \<le> 1984"
  shows "tcp_checksum (tcp_segment pcb flags seqno data n p) (local_ip pcb) (remote_ip pcb) = 0"
proof -
  define q where "q = (wbytes 20 (map (case data of Some d \<Rightarrow> d | None \<Rightarrow> (\<lambda>_. 0)) [0 ..< unat n])
    (tcp_put_hdr pcb flags seqno p))\<lparr>plen := ucast (20 + n)\<rparr>"
  have n: "unat n \<le> 1984" using assms by (simp add: word_le_nat_alt)
  then have l: "unat (plen q) = 20 + unat n" by (simp add: q_def unat_ucast_up unat_word_ariths)
  have "tcp_checksum (w16 16 (tcp_checksum q (local_ip pcb) (remote_ip pcb)) q) (local_ip pcb) (remote_ip pcb) = 0"
    using l n by (intro tcp_checksum_fill) (simp_all add: word_le_nat_alt, simp add: q_def wire tcp_put_hdr_fields)
  then show ?thesis by (simp add: tcp_segment_def Let_def q_def)
qed

theorem tcp_segment_verifies_witness:
  "tcp_checksum (tcp_segment pcb_example TCP_ACK 101 (Some of_nat) 1000 (pbuf_with [])) 0x0A00020F 0x0A000202 = 0"
  using tcp_segment_verifies [of 1000 pcb_example TCP_ACK 101 "Some of_nat" "pbuf_with []"]
  by (simp add: pcb_example_def)

text \<open>A new connection never displaces a live one: the block handed out was closed, or closing for
  longest among all closing ones, and every other block is left alone; there is none only when
  all blocks are neither closed nor closing.\<close>

theorem tcp_free_pcb_spares_connections:
  assumes "\<And>q. q \<in> set (tcp_pcbs s) \<Longrightarrow> pcb_state q \<in> teardown_states \<Longrightarrow> pcb_age now q < 2 ^ 31"
  shows "case tcp_get_free_pcb s of
      (None, t) \<Rightarrow> t = s \<and> (\<forall>q \<in> set (tcp_pcbs s). pcb_state q \<noteq> TCP_CLOSED \<and> pcb_state q \<notin> teardown_states)
    | (Some i, t) \<Rightarrow> i < length (tcp_pcbs s) \<and> pcb_state (pcb_at i t) = TCP_CLOSED \<and>
        (\<forall>j. j \<noteq> i \<longrightarrow> pcb_at j t = pcb_at j s) \<and>
        (pcb_state (pcb_at i s) = TCP_CLOSED \<or> pcb_state (pcb_at i s) \<in> teardown_states \<and>
           (\<forall>q \<in> set (tcp_pcbs s). pcb_state q \<in> teardown_states \<longrightarrow> pcb_age now q \<le> pcb_age now (pcb_at i s)))"
proof (cases "first_idx (\<lambda>p. pcb_state p = TCP_CLOSED) (tcp_pcbs s)")
  case (Some i)
  with first_idx_facts [OF Some] show ?thesis by (simp add: teardown_iff tcp_get_free_pcb_def)
next
  case none: None
  have age: "pcb_age now q < 2 ^ 31" if "q \<in> set (tcp_pcbs s)" "closing (pcb_state q)" for q
    using assms [OF that(1)] that(2) by (simp add: teardown_iff)
  have live: "\<forall>q \<in> set (tcp_pcbs s). pcb_state q \<noteq> TCP_CLOSED" using none by (simp add: first_idx_None)
  note c = oldest_closing_cases [of "tcp_pcbs s" now None 0, OF age]
  show ?thesis
  proof (cases "oldest_closing 0 (tcp_pcbs s) None")
    case None
    with c none live show ?thesis by (simp add: teardown_iff tcp_get_free_pcb_def)
  next
    case (Some x)
    obtain i t where x: "x = (i, t)" by (cases x)
    from c Some x have "i < length (tcp_pcbs s)" "closing (pcb_state (pcb_at i s))"
      "\<forall>q \<in> set (tcp_pcbs s). closing (pcb_state q) \<longrightarrow> pcb_age now q \<le> pcb_age now (pcb_at i s)"
      by (auto simp: pcb_age_def)
    with none Some x show ?thesis by (simp add: teardown_iff tcp_get_free_pcb_def pcb_upd_def pcb_drop_def)
  qed
qed

theorem tcp_free_pcb_spares_connections_witness:
  "fst (tcp_get_free_pcb (tcp_machine pcb_example)) = Some 1 \<and>
   pcb_state (pcb_at 1 (snd (tcp_get_free_pcb (tcp_machine pcb_example)))) = TCP_CLOSED"
proof -
  have "fst (tcp_get_free_pcb (tcp_machine pcb_example)) = Some 1"
    by (simp add: tcp_get_free_pcb_def tcp_machine_pcbs pcb_example_def pcb_closed_def numeral_eq_Suc)
  moreover have "pcb_state q \<in> teardown_states \<Longrightarrow> pcb_age 1000 q < 2 ^ 31" if "q \<in> set (tcp_pcbs (tcp_machine pcb_example))" for q
    using that by (auto simp: tcp_machine_pcbs pcb_example_def pcb_closed_def teardown_states_def)
  ultimately show ?thesis
    using tcp_free_pcb_spares_connections [of "tcp_machine pcb_example" 1000] by (auto simp: split_beta split: option.splits)
qed

text \<open>C26: The arrays of the protocol control blocks are never left: in every run of segments, timer
  ticks and calls of the interface the lengths stay within \<open>app_rx_buf\<close> and \<open>last_tx_data\<close>, and no
  byte behind these arrays changes, provided the applications and the layers below keep to that
  too.\<close>

theorem tcp_stays_in_bounds:
  assumes "(tcp_event A out env)\<^sup>*\<^sup>* s t" "out_inside out" "apps_keep tcp_inside A" "\<And>k s. tcp_inside s (env k s)"
    and "i < length (tcp_pcbs s)" "pcb_ok (pcb_at i s)"
  shows "app_rx_len (pcb_at i t) \<le> TCP_APP_RX_MAX \<and> last_tx_len (pcb_at i t) \<le> TCP_RTX_DATA_MAX \<and>
    (\<forall>k \<ge> 49152. app_rx_buf (pcb_at i t) k = app_rx_buf (pcb_at i s) k) \<and>
    (\<forall>k \<ge> 256. last_tx_data (pcb_at i t) k = last_tx_data (pcb_at i s) k)"
  using tcp_events_inside [OF assms(1-4)] assms(5,6) by (simp add: tcp_inside_def pcb_inside_def pcb_ok_def)

lemma out_inside_ip4: "out_inside (ip4_output drop_in)"
  using out_frame_ip4 unfolding out_inside_def out_frame_def after_pair_def
  by (metis tcp_inside_frame option.inject prod.inject)

theorem tcp_stays_in_bounds_witness:
  "\<exists>t r. tcp_send (ip4_output drop_in) (Some 0) of_nat 100 (tcp_machine pcb_example) = Some (r, t) \<and>
     last_tx_len (pcb_at 0 t) \<le> TCP_RTX_DATA_MAX"
proof -
  let ?s = "tcp_machine pcb_example"
  obtain r t where t: "tcp_send (ip4_output drop_in) (Some 0) of_nat 100 ?s = Some (r, t)"
    using tcp_send_total [OF out_frame_ip4] by blast
  have ev: "(tcp_event no_apps (ip4_output drop_in) (\<lambda>_ s. s))\<^sup>*\<^sup>* ?s t" using tcp_event.sent [OF t] by blast
  have A: "apps_keep tcp_inside no_apps" by (rule no_apps_keep) (simp add: tcp_inside_frame)
  have "pcb_ok (pcb_at 0 ?s)" "0 < length (tcp_pcbs ?s)"
    by (simp_all add: tcp_machine_pcbs pcb_ok_def pcb_example_def pcb_closed_def)
  from tcp_stays_in_bounds [OF ev out_inside_ip4 A _ this(2,1)] t show ?thesis by (auto simp: tcp_inside_frame)
qed

section \<open>Where the code falls short\<close>

text \<open>A reset that refuses the machine's SYN closes the block but leaves the SYN tracked, so the
  timer goes on retransmitting it from the closed block.\<close>

lemma refused_syn_still_outstanding:
  assumes "i < length (tcp_pcbs s)" "TCP_HDR_FLAGS p AND (TCP_SYN OR TCP_ACK) \<noteq> TCP_SYN OR TCP_ACK"
    "TCP_HDR_FLAGS p AND TCP_RST \<noteq> 0" "last_tx_flags (pcb_at i s) \<noteq> 0" "tcp_outstanding (pcb_at i s)"
  shows "\<exists>t. tcp_in_syn_sent out i p s = Some t \<and> pcb_state (pcb_at i t) = TCP_CLOSED \<and>
    last_tx_flags (pcb_at i t) \<noteq> 0 \<and> tcp_outstanding (pcb_at i t)"
  using assms by (auto simp: tcp_in_syn_sent_def Let_def pcb_upd_def tcp_outstanding_def split: if_splits)

text \<open>A segment of more than 256 bytes is not kept for retransmission: the timer resends an empty
  segment in its place.\<close>

lemma large_segment_not_tracked:
  assumes "i < length (tcp_pcbs s)" "n > TCP_RTX_DATA_MAX"
  shows "last_tx_len (pcb_at i (tcp_track_tx i flags seqno (Some d) n s)) = 0"
  using assms by (auto simp: tcp_track_tx_def pcb_upd_def)

text \<open>A FIN moves the expected sequence number to the one after its own first byte, whatever data it
  carries and wherever it starts, and the data is not delivered.\<close>

lemma fin_skips_its_data:
  assumes "out_frame out" "i < length (tcp_pcbs s)" "local_port (pcb_at i s) = 22"
  shows "\<exists>t. tcp_in_fin no_apps out i p s = Some t \<and> rcv_nxt (pcb_at i t) = ntohl (h32 p 4) + 1 \<and>
    rx_stream (pcb_at i t) = rx_stream (pcb_at i s)"
proof -
  obtain t where "tcp_send_ack out i TCP_ACK (pcb_upd i (\<lambda>q. q\<lparr>rcv_nxt := ntohl (h32 p 4) + 1\<rparr>) s) = Some t"
    "tcp_pcbs t = tcp_pcbs (pcb_upd i (\<lambda>q. q\<lparr>rcv_nxt := ntohl (h32 p 4) + 1\<rparr>) s)"
    using send_ack_frame [OF assms(1)] by metis
  with assms(2,3) show ?thesis by (simp add: tcp_in_fin_def Let_def pcb_upd_def no_apps_def rx_stream_def)
qed

end
