(* ===== verification/Dhcp.thy ===== *)
theory Dhcp
  imports Tcp_Keeps
begin

text \<open>
  The DHCP client (\<open>src/dhcp.c\<close>) and the DHCP server (\<open>src/dhcpd.c\<close>) above UDP. Their static
  variables and those of the DNS resolver and server (theory \<open>Dns\<close>) extend the state of the network
  stack. A packet is read and written through its fields relative to the payload, at the offsets of the
  packed C structures.

  Shown: the leases of the server are a table keyed by the client's hardware address in which every
  client keeps its address and no two clients share one, in any run of the stack; the pool never runs
  out before the table; the client reads from the server's packets what the server wrote; the client
  releases every packet it is given, whereas the server keeps every packet it is given and frees its
  answer twice.
\<close>

section \<open>State\<close>

record dhcp_lease =
  dl_ip :: u32
  dl_mac :: "u8 list"
  dl_expiry :: u32
  dl_in_use :: bool

record dhcp_config =
  dc_server_ip :: u32
  dc_start_ip :: u32
  dc_end_ip :: u32
  dc_netmask :: u32
  dc_gateway :: u32
  dc_dns :: u32
  dc_lease_time :: u32

record snet = tnet +
  dhcp_xid :: u32
  dhcp_got_offer :: bool
  dhcp_got_ack :: bool
  dhcp_server_ip :: u32
  dns_server :: u32
  dns_id :: u16
  dns_pending_id :: u16
  dns_got_reply :: bool
  dns_last_ip :: u32
  dhcp_conf :: dhcp_config
  dhcp_leases :: "dhcp_lease list"
  dns_queries_handled :: u32

definition DHCP_DISCOVER :: u8 where "DHCP_DISCOVER = 1"
definition DHCP_OFFER :: u8 where "DHCP_OFFER = 2"
definition DHCP_REQUEST :: u8 where "DHCP_REQUEST = 3"
definition DHCP_ACK :: u8 where "DHCP_ACK = 5"
definition DHCP_MAGIC_COOKIE :: u32 where "DHCP_MAGIC_COOKIE = 0x63825363"

lemmas dhcp_types = DHCP_DISCOVER_def DHCP_OFFER_def DHCP_REQUEST_def DHCP_ACK_def

text \<open>\<open>sizeof(struct dhcp_packet)\<close> and the offset of its options.\<close>

definition DHCP_MSG_LEN :: nat where "DHCP_MSG_LEN = 548"
definition DHCP_OPTIONS :: nat where "DHCP_OPTIONS = 240"

section \<open>Options\<close>

text \<open>The bytes of a 32-bit variable in memory, and in the order of \<open>dhcp_add_u32_option\<close>.\<close>

definition u32_bytes :: "u32 \<Rightarrow> u8 list" where
  "u32_bytes v = [ucast v, ucast (drop_bit 8 v), ucast (drop_bit 16 v), ucast (drop_bit 24 v)]"

definition dhcp_add_option :: "u8 \<Rightarrow> u8 list \<Rightarrow> nat \<times> pbuf \<Rightarrow> nat \<times> pbuf" where
  "dhcp_add_option code data =
     (\<lambda>(k, p). (k + 2 + length data, wbytes (k + 2) data (w8 (k + 1) (of_nat (length data)) (w8 k code p))))"

definition dhcp_add_u32_option :: "u8 \<Rightarrow> u32 \<Rightarrow> nat \<times> pbuf \<Rightarrow> nat \<times> pbuf" where
  "dhcp_add_u32_option code val =
     dhcp_add_option code [ucast (drop_bit 24 val AND 0xFF), ucast (drop_bit 16 val AND 0xFF),
       ucast (drop_bit 8 val AND 0xFF), ucast (val AND 0xFF)]"

section \<open>The client\<close>

definition dhcp_request_list :: "u8 list" where "dhcp_request_list = [1, 3, 6]"

definition dhcp_blank :: "u8 list \<Rightarrow> u32 \<Rightarrow> pbuf \<Rightarrow> pbuf" where
  "dhcp_blank mac xid p =
     (let p = wbytes 0 (replicate DHCP_MSG_LEN 0) p;
          p = w8 0 1 p;
          p = w8 1 1 p;
          p = w8 2 6 p;
          p = w32 4 (htonl xid) p;
          p = w16 10 (htons 0x8000) p;
          p = w32 236 (htonl DHCP_MAGIC_COOKIE) p
      in wbytes 28 mac p)"

definition dhcp_request_packet :: "u8 list \<Rightarrow> u32 \<Rightarrow> u32 \<Rightarrow> u32 \<Rightarrow> pbuf \<Rightarrow> pbuf" where
  "dhcp_request_packet mac xid offered_ip server_id p =
     (let kp = (DHCP_OPTIONS, dhcp_blank mac xid p);
          kp = dhcp_add_option 53 [DHCP_REQUEST] kp;
          kp = dhcp_add_option 50 (u32_bytes (htonl offered_ip)) kp;
          kp = dhcp_add_option 54 (u32_bytes (htonl server_id)) kp;
          (k, p) = dhcp_add_option 55 dhcp_request_list kp
      in (w8 k 255 p)\<lparr>plen := of_nat DHCP_MSG_LEN\<rparr>)"

definition dhcp_send_request :: "'z snet_scheme outfn \<Rightarrow> u32 \<Rightarrow> u32 \<Rightarrow> u32 \<Rightarrow> 'z snet_scheme \<Rightarrow>
    (int \<times> 'z snet_scheme) option" where
  "dhcp_send_request out offered_ip server_id dst_ip s =
     (case pbuf_alloc s of
        (None, s) \<Rightarrow> Some (-1, s)
      | (Some p, s) \<Rightarrow>
          udp_output out (dhcp_request_packet (arp_get_ajos_mac s) (dhcp_xid s) offered_ip server_id p) dst_ip 68 67 s)"

definition dhcp_discover_packet :: "u8 list \<Rightarrow> u32 \<Rightarrow> pbuf \<Rightarrow> pbuf" where
  "dhcp_discover_packet mac xid p =
     (let kp = (DHCP_OPTIONS, dhcp_blank mac xid p);
          kp = dhcp_add_option 53 [DHCP_DISCOVER] kp;
          (k, p) = dhcp_add_option 55 dhcp_request_list kp
      in (w8 k 255 p)\<lparr>plen := of_nat DHCP_MSG_LEN\<rparr>)"

definition dhcp_start :: "'z snet_scheme outfn \<Rightarrow> 'z snet_scheme \<Rightarrow> 'z snet_scheme option" where
  "dhcp_start out s =
     (let s = s\<lparr>dhcp_got_offer := False, dhcp_got_ack := False,
                dhcp_xid := xor (dhcp_xid s) (pit_ticks s) + 0x1020304\<rparr>
      in case pbuf_alloc s of
           (None, s) \<Rightarrow> Some s
         | (Some p, s) \<Rightarrow>
             map_option snd
               (udp_output out (dhcp_discover_packet (arp_get_ajos_mac s) (dhcp_xid s) p) 0xFFFFFFFF 68 67 s))"

text \<open>The variables of the option loop of \<open>dhcp_input\<close>; \<open>od_dns\<close> is the DNS server, which the loop
  sets as it goes.\<close>

record dhcp_opts =
  od_type :: u8
  od_server :: u32
  od_mask :: u32
  od_router :: u32
  od_req :: u32
  od_dns :: u32

definition dhcp_option :: "pbuf \<Rightarrow> nat \<Rightarrow> u8 \<Rightarrow> nat \<Rightarrow> dhcp_opts \<Rightarrow> dhcp_opts" where
  "dhcp_option p k type len a =
     (if type = 53 \<and> len = 1 then a\<lparr>od_type := h8 p k\<rparr>
      else if type = 54 \<and> len = 4 then a\<lparr>od_server := ntohl (h32 p k)\<rparr>
      else if type = 1 \<and> len = 4 then a\<lparr>od_mask := ntohl (h32 p k)\<rparr>
      else if type = 3 \<and> len \<ge> 4 then a\<lparr>od_router := ntohl (h32 p k)\<rparr>
      else if type = 6 \<and> len \<ge> 4 then a\<lparr>od_dns := ntohl (h32 p k)\<rparr>
      else if type = 50 \<and> len = 4 then a\<lparr>od_req := ntohl (h32 p k)\<rparr>
      else a)"

function dhcp_options :: "pbuf \<Rightarrow> nat \<Rightarrow> dhcp_opts \<Rightarrow> dhcp_opts" where
  "dhcp_options p k a =
     (if k < unat (plen p) \<and> h8 p k \<noteq> 255 then
        if h8 p k = 0 then dhcp_options p (k + 1) a
        else if k + 1 \<ge> unat (plen p) then a
        else if k + 2 + unat (h8 p (k + 1)) > unat (plen p) then a
        else dhcp_options p (k + 2 + unat (h8 p (k + 1)))
               (dhcp_option p (k + 2) (h8 p k) (unat (h8 p (k + 1))) a)
      else a)"
  by pat_completeness auto
termination by (relation "measure (\<lambda>(p, k, a). unat (plen p) - k)") auto

declare dhcp_options.simps [simp del]

definition dhcp_set_route :: "u32 \<Rightarrow> u32 \<Rightarrow> 'z net_scheme \<Rightarrow> 'z net_scheme" where
  "dhcp_set_route netmask router s =
     (let s = (if netmask \<noteq> 0 then ip4_set_netmask netmask s else s)
      in if router \<noteq> 0 then ip4_set_gateway router s else s)"

definition dhcp_on_offer :: "'z snet_scheme outfn \<Rightarrow> pbuf \<Rightarrow> u32 \<Rightarrow> dhcp_opts \<Rightarrow> 'z snet_scheme \<Rightarrow> 'z snet_scheme option" where
  "dhcp_on_offer out p server_id a s =
     (let offered = ntohl (h32 p 16);
          s = s\<lparr>dhcp_got_offer := True, dhcp_offered_ip := offered, dhcp_server_ip := server_id\<rparr>;
          s = dhcp_set_route (od_mask a) (od_router a) s
      in Option.bind (dhcp_send_request out offered server_id 0xFFFFFFFF s) (\<lambda>(_, s).
           if server_id \<noteq> 0 \<and> server_id \<noteq> 0xFFFFFFFF
           then map_option snd (dhcp_send_request out offered server_id server_id s)
           else Some s))"

definition dhcp_on_ack :: "pbuf \<Rightarrow> dhcp_opts \<Rightarrow> 'z snet_scheme \<Rightarrow> 'z snet_scheme" where
  "dhcp_on_ack p a s =
     (let assigned = ntohl (h32 p 16);
          assigned = (if assigned = 0 \<and> od_req a \<noteq> 0 then od_req a else assigned);
          assigned = (if assigned = 0 then ntohl (h32 p 12) else assigned);
          assigned = (if assigned = 0 \<and> dhcp_offered_ip s \<noteq> 0 then dhcp_offered_ip s else assigned);
          s = (if assigned \<noteq> 0 then arp_set_ajos_ip assigned s else s);
          s = dhcp_set_route (od_mask a) (od_router a) s
      in s\<lparr>dhcp_got_ack := True\<rparr>)"

definition dhcp_input :: "'z snet_scheme outfn \<Rightarrow> pbuf \<Rightarrow> u32 \<Rightarrow> u32 \<Rightarrow> 'z snet_scheme \<Rightarrow> 'z snet_scheme option" where
  "dhcp_input out p src dst s =
     (if plen p < 240 then Some (pbuf_free p s)
      else if h8 p 0 \<noteq> 2 then Some (pbuf_free p s)
      else if ntohl (h32 p 4) \<noteq> dhcp_xid s then Some (pbuf_free p s)
      else
        let a = dhcp_options p DHCP_OPTIONS
                  \<lparr>od_type = 0, od_server = 0, od_mask = 0, od_router = 0, od_req = 0, od_dns = dns_server s\<rparr>;
            s = s\<lparr>dns_server := od_dns a\<rparr>;
            server_id = (if od_server a = 0 then src else od_server a)
        in if od_type a = DHCP_OFFER then map_option (pbuf_free p) (dhcp_on_offer out p server_id a s)
           else if od_type a = DHCP_ACK then Some (pbuf_free p (dhcp_on_ack p a s))
           else Some (pbuf_free p s))"

section \<open>The server\<close>

definition MAX_LEASES :: nat where "MAX_LEASES = 50"

definition dhcpd_init :: "'z snet_scheme \<Rightarrow> 'z snet_scheme" where
  "dhcpd_init s =
     (let my_ip = arp_get_ajos_ip s;
          my_ip = (if my_ip = 0 then push_bit 24 10 OR push_bit 16 0 OR push_bit 8 2 OR 15 else my_ip)
      in s\<lparr>dhcp_conf := \<lparr>dc_server_ip = my_ip, dc_start_ip = (my_ip AND 0xFFFFFF00) OR 50,
                         dc_end_ip = (my_ip AND 0xFFFFFF00) OR 100, dc_netmask = 0x00FFFFFF,
                         dc_gateway = my_ip, dc_dns = my_ip, dc_lease_time = 3600\<rparr>,
           dhcp_leases := map (\<lambda>l. l\<lparr>dl_in_use := False\<rparr>) (dhcp_leases s)\<rparr>)"

definition dhcpd_reinit :: "'z snet_scheme \<Rightarrow> 'z snet_scheme" where
  "dhcpd_reinit s =
     (let my_ip = arp_get_ajos_ip s
      in if my_ip \<noteq> 0
         then s\<lparr>dhcp_conf := (dhcp_conf s)\<lparr>dc_server_ip := my_ip, dc_start_ip := (my_ip AND 0xFFFFFF00) OR 50,
                  dc_end_ip := (my_ip AND 0xFFFFFF00) OR 100, dc_gateway := my_ip, dc_dns := my_ip\<rparr>\<rparr>
         else s)"

definition lease_of :: "dhcp_lease list \<Rightarrow> u8 list \<Rightarrow> nat option" where
  "lease_of ls mac = first_idx (\<lambda>l. dl_in_use l \<and> dl_mac l = mac) ls"

definition pool_ip :: "dhcp_config \<Rightarrow> nat \<Rightarrow> u32" where
  "pool_ip c i = (dc_start_ip c AND 0xFFFFFF00) OR ((dc_start_ip c AND 0xFF) + of_nat i)"

definition find_lease :: "dhcp_config \<Rightarrow> u8 list \<Rightarrow> dhcp_lease list \<Rightarrow> nat option \<times> dhcp_lease list" where
  "find_lease c mac ls =
     (case lease_of ls mac of
        Some i \<Rightarrow> (Some i, ls)
      | None \<Rightarrow>
          (case first_idx (\<lambda>l. \<not> dl_in_use l) ls of
             None \<Rightarrow> (None, ls)
           | Some i \<Rightarrow>
               let l = (ls ! i)\<lparr>dl_in_use := True, dl_mac := mac\<rparr>
               in if pool_ip c i > dc_end_ip c then (None, ls[i := l\<lparr>dl_in_use := False\<rparr>])
                  else (Some i, ls[i := l\<lparr>dl_ip := pool_ip c i, dl_expiry := 0\<rparr>])))"

definition dhcpd_find_lease :: "u8 list \<Rightarrow> 'z snet_scheme \<Rightarrow> nat option \<times> 'z snet_scheme" where
  "dhcpd_find_lease mac s =
     (let (r, ls) = find_lease (dhcp_conf s) mac (dhcp_leases s) in (r, s\<lparr>dhcp_leases := ls\<rparr>))"

definition dhcpd_reply :: "pbuf \<Rightarrow> u8 \<Rightarrow> dhcp_lease \<Rightarrow> dhcp_config \<Rightarrow> u32 \<Rightarrow> pbuf \<Rightarrow> pbuf" where
  "dhcpd_reply req type lease c current_ip p =
     (let p = wbytes 0 (replicate DHCP_MSG_LEN 0) p;
          p = w8 0 2 p;
          p = w8 1 1 p;
          p = w8 2 6 p;
          p = w32 4 (h32 req 4) p;
          p = w16 8 0 p;
          p = w16 10 (h16 req 10) p;
          p = w32 12 0 p;
          p = w32 16 (htonl (dl_ip lease)) p;
          p = w32 20 (htonl current_ip) p;
          p = w32 24 0 p;
          p = wbytes 28 (hbytes req 28 16) p;
          p = w32 236 (htonl DHCP_MAGIC_COOKIE) p;
          kp = (DHCP_OPTIONS, p);
          kp = dhcp_add_option 53 [type] kp;
          kp = dhcp_add_u32_option 54 current_ip kp;
          kp = dhcp_add_u32_option 51 (dc_lease_time c) kp;
          kp = dhcp_add_u32_option 1 (dc_netmask c) kp;
          kp = dhcp_add_u32_option 3 current_ip kp;
          (k, p) = dhcp_add_u32_option 6 current_ip kp
      in (w8 k 255 p)\<lparr>plen := ucast (of_nat (k + 1) :: u16)\<rparr>)"

text \<open>\<open>udp_output\<close> moves the payload pointer of the reply but not its identity, so the last step frees
  the buffer \<open>p\<close> stands for.\<close>

definition dhcpd_send_reply :: "'z snet_scheme outfn \<Rightarrow> pbuf \<Rightarrow> u8 \<Rightarrow> dhcp_lease \<Rightarrow> 'z snet_scheme \<Rightarrow> 'z snet_scheme option" where
  "dhcpd_send_reply out req type lease s =
     (case pbuf_alloc s of
        (None, s) \<Rightarrow> Some s
      | (Some p, s) \<Rightarrow>
          let ip = arp_get_ajos_ip s;
              ip = (if ip = 0 then dc_server_ip (dhcp_conf s) else ip)
          in map_option (\<lambda>(_, s). pbuf_free p s)
               (udp_output out (dhcpd_reply req type lease (dhcp_conf s) ip p) 0xFFFFFFFF 67 68 s))"

text \<open>The option loop of the server: the type it has read, and the value of the last type option.\<close>

function dhcpd_type :: "pbuf \<Rightarrow> nat \<Rightarrow> u8 \<Rightarrow> u8" where
  "dhcpd_type p k type =
     (if k < unat (plen p) \<and> h8 p k \<noteq> 255 then
        if h8 p k = 0 then dhcpd_type p (k + 1) type
        else dhcpd_type p (k + 2 + unat (h8 p (k + 1)))
               (if h8 p k = 53 \<and> h8 p (k + 1) = 1 then h8 p (k + 2) else type)
      else type)"
  by pat_completeness auto
termination by (relation "measure (\<lambda>(p, k, t). unat (plen p) - k)") auto

declare dhcpd_type.simps [simp del]

definition dhcpd_answer :: "'z snet_scheme outfn \<Rightarrow> pbuf \<Rightarrow> u8 \<Rightarrow> 'z snet_scheme \<Rightarrow> 'z snet_scheme option" where
  "dhcpd_answer out p type s =
     (case dhcpd_find_lease (hbytes p 28 6) s of
        (None, s) \<Rightarrow> Some s
      | (Some i, s) \<Rightarrow> dhcpd_send_reply out p type (dhcp_leases s ! i) s)"

definition dhcpd_handle_packet :: "'z snet_scheme outfn \<Rightarrow> pbuf \<Rightarrow> 'z snet_scheme \<Rightarrow> 'z snet_scheme option" where
  "dhcpd_handle_packet out p s =
     (if plen p < 240 then Some s
      else if h8 p 0 \<noteq> 1 then Some s
      else if h32 p 236 \<noteq> htonl DHCP_MAGIC_COOKIE then Some s
      else
        let type = dhcpd_type p DHCP_OPTIONS 0
        in if type = DHCP_DISCOVER then
             if e1000_active_rx_device s \<noteq> 0 then Some s
             else dhcpd_answer out p DHCP_OFFER s
           else if type = DHCP_REQUEST then dhcpd_answer out p DHCP_ACK s
           else Some s)"

section \<open>The lease table\<close>

text \<open>The table maps hardware addresses to leases, and slot \<open>i\<close> always holds an address that ends in
  \<open>50 + i\<close>, whatever subnet the server was in when it gave it out.\<close>

definition leases_ok :: "dhcp_lease list \<Rightarrow> bool" where
  "leases_ok ls \<longleftrightarrow> length ls = MAX_LEASES \<and> slots_unique dl_in_use dl_mac ls \<and>
     (\<forall>i < length ls. dl_in_use (ls ! i) \<longrightarrow> dl_ip (ls ! i) AND 0xFF = 50 + of_nat i)"

definition pool_ok :: "dhcp_config \<Rightarrow> bool" where
  "pool_ok c \<longleftrightarrow> dc_start_ip c AND 0xFF = 50 \<and> dc_end_ip c = (dc_start_ip c AND 0xFFFFFF00) OR 100"

definition leases_kept :: "dhcp_lease list \<Rightarrow> dhcp_lease list \<Rightarrow> bool" where
  "leases_kept ls ls' \<longleftrightarrow> length ls' = length ls \<and> (\<forall>i < length ls. dl_in_use (ls ! i) \<longrightarrow> ls' ! i = ls ! i)"

interpretation lease: slot_table dl_in_use dl_mac lease_of
  using scan_lookup_slot_table [of dl_in_use dl_mac] by (simp add: lease_of_def [abs_def] scan_lookup_def [abs_def])

lemma low_octet:
  fixes x y :: u32
  assumes "y < 256" "x AND 0xFF = 0"
  shows "(x OR y) AND 0xFF = y" "x OR y = x + y"
proof -
  have y: "y AND 0xFF = y"
    using assms(1) less_mask_eq [of y 8] by (simp add: mask_eq_exp_minus_1)
  show "(x OR y) AND 0xFF = y" by (simp add: bit.conj_disj_distrib2 assms(2) y)
  have "x AND y = x AND (y AND 0xFF)" by (simp add: y)
  also have "\<dots> = (x AND 0xFF) AND y" by (simp add: ac_simps)
  finally show "x OR y = x + y" by (simp add: assms(2) disjunctive_add_eq_or)
qed

lemma masked_octet: "((a :: u32) AND 0xFFFFFF00) AND 0xFF = 0"
  by (simp add: and.assoc)

lemma pool_address:
  assumes c: "pool_ok c" and i: "i < MAX_LEASES"
  shows "pool_ip c i AND 0xFF = 50 + of_nat i" "\<not> pool_ip c i > dc_end_ip c"
    "pool_ip c i AND 0xFFFFFF00 = dc_start_ip c AND 0xFFFFFF00"
proof -
  let ?b = "dc_start_ip c AND 0xFFFFFF00"
  have u: "unat (50 + of_nat i :: u32) = 50 + i" using i by (simp add: MAX_LEASES_def unat_word_ariths unat_of_nat)
  then have o: "50 + of_nat i < (256 :: u32)" using i by (simp add: word_less_nat_alt MAX_LEASES_def)
  have p: "pool_ip c i = ?b OR (50 + of_nat i)" using c by (simp add: pool_ip_def pool_ok_def)
  show "pool_ip c i AND 0xFF = 50 + of_nat i" unfolding p by (rule low_octet [OF o masked_octet])
  have "(50 + of_nat i :: u32) AND 0xFFFFFF00 = ((50 + of_nat i) AND 0xFF) AND 0xFFFFFF00"
    using low_octet(1) [OF o, of 0] by simp
  also have "\<dots> = 0" by (simp add: and.assoc)
  finally show "pool_ip c i AND 0xFFFFFF00 = ?b" by (simp add: p bit.conj_disj_distrib2 and.assoc)
  have bound: "unat ?b \<le> unat (NOT 0xFF :: u32)"
    using word_and_le1 [of "dc_start_ip c" "0xFFFFFF00"] by (simp add: word_le_nat_alt)
  have "?b + (50 + of_nat i) \<le> ?b + 100"
    using bound u i by (simp add: word_le_nat_alt unat_word_ariths MAX_LEASES_def)
  then show "\<not> pool_ip c i > dc_end_ip c"
    using c low_octet(2) [OF o masked_octet, of "dc_start_ip c"] low_octet(2) [OF _ masked_octet, of 100 "dc_start_ip c"]
    by (simp add: p pool_ok_def not_less)
qed

lemma leases_kept_refl: "leases_kept ls ls" by (simp add: leases_kept_def)

lemma leases_kept_trans: "leases_kept a b \<Longrightarrow> leases_kept b c \<Longrightarrow> leases_kept a c"
  by (simp add: leases_kept_def)

lemma find_lease_ok:
  assumes c: "pool_ok c" and ok: "leases_ok ls" and f: "find_lease c mac ls = (r, ls')"
  shows "leases_ok ls'" "leases_kept ls ls'"
    "r = Some i \<Longrightarrow> i < MAX_LEASES \<and> dl_in_use (ls' ! i) \<and> dl_mac (ls' ! i) = mac \<and>
       (lease_of ls mac = None \<longrightarrow> dl_ip (ls' ! i) = pool_ip c i)"
    "r = None \<Longrightarrow> ls' = ls \<and> lease_of ls mac = None \<and> (\<forall>l \<in> set ls. dl_in_use l)"
proof -
  have "leases_ok ls' \<and> leases_kept ls ls' \<and>
    (\<forall>i. r = Some i \<longrightarrow> i < MAX_LEASES \<and> dl_in_use (ls' ! i) \<and> dl_mac (ls' ! i) = mac \<and>
       (lease_of ls mac = None \<longrightarrow> dl_ip (ls' ! i) = pool_ip c i)) \<and>
    (r = None \<longrightarrow> ls' = ls \<and> lease_of ls mac = None \<and> (\<forall>l \<in> set ls. dl_in_use l))"
  proof (cases "lease_of ls mac")
    case (Some i)
    with lease.lookup_Some [OF Some] ok f show ?thesis by (auto simp: find_lease_def leases_kept_refl leases_ok_def)
  next
    case None
    note new = this
    show ?thesis
    proof (cases "first_idx (\<lambda>l. \<not> dl_in_use l) ls")
      case None
      with new ok f show ?thesis by (auto simp: find_lease_def leases_kept_refl first_idx_None)
    next
      case (Some i)
      note i = first_idx_facts [OF Some]
      have i': "i < MAX_LEASES" using i ok by (simp add: leases_ok_def)
      let ?l = "(ls ! i)\<lparr>dl_in_use := True, dl_mac := mac, dl_ip := pool_ip c i, dl_expiry := 0\<rparr>"
      have e: "r = Some i" "ls' = ls[i := ?l]"
        using f pool_address(2) [OF c i'] by (auto simp: find_lease_def new Some Let_def)
      have "slots_unique dl_in_use dl_mac ls'"
        unfolding e by (rule lease.unique_store) (use ok new in \<open>auto simp: leases_ok_def\<close>)
      with ok i i' pool_address(1) [OF c i'] show ?thesis
        by (auto simp: e leases_ok_def leases_kept_def nth_update_if new)
    qed
  qed
  then show "leases_ok ls'" "leases_kept ls ls'"
    "r = Some i \<Longrightarrow> i < MAX_LEASES \<and> dl_in_use (ls' ! i) \<and> dl_mac (ls' ! i) = mac \<and>
       (lease_of ls mac = None \<longrightarrow> dl_ip (ls' ! i) = pool_ip c i)"
    "r = None \<Longrightarrow> ls' = ls \<and> lease_of ls mac = None \<and> (\<forall>l \<in> set ls. dl_in_use l)"
    by blast+
qed

lemma leases_ok_distinct:
  assumes ok: "leases_ok ls" and ij: "i < MAX_LEASES" "j < MAX_LEASES" "i \<noteq> j" and u: "dl_in_use (ls ! i)" "dl_in_use (ls ! j)"
  shows "dl_mac (ls ! i) \<noteq> dl_mac (ls ! j)" "dl_ip (ls ! i) \<noteq> dl_ip (ls ! j)"
proof -
  note L = ok [unfolded leases_ok_def]
  show "dl_mac (ls ! i) \<noteq> dl_mac (ls ! j)" using L ij u slots_uniqueD [of dl_in_use dl_mac ls i j] by auto
  have "unat (of_nat k :: u32) = k" if "k < MAX_LEASES" for k using that by (simp add: unat_of_nat MAX_LEASES_def)
  with ij have "(of_nat i :: u32) \<noteq> of_nat j" by metis
  with L ij u show "dl_ip (ls ! i) \<noteq> dl_ip (ls ! j)" by (metis add_left_cancel)
qed

section \<open>Packet buffers\<close>

text \<open>The packets the client and the server build keep the identity of their buffer.\<close>

lemma add_option_ids [simp]:
  "pid (snd (dhcp_add_option c d kp)) = pid (snd kp)" "nexts (snd (dhcp_add_option c d kp)) = nexts (snd kp)"
  "payload (snd (dhcp_add_option c d kp)) = payload (snd kp)"
  "fst (dhcp_add_option c d kp) = fst kp + 2 + length d"
  by (simp_all add: dhcp_add_option_def split_beta)

lemma add_u32_option_ids [simp]:
  "pid (snd (dhcp_add_u32_option c v kp)) = pid (snd kp)" "nexts (snd (dhcp_add_u32_option c v kp)) = nexts (snd kp)"
  "payload (snd (dhcp_add_u32_option c v kp)) = payload (snd kp)"
  "fst (dhcp_add_u32_option c v kp) = fst kp + 6"
  by (simp_all add: dhcp_add_u32_option_def)

lemma dhcp_packet_ids [simp]:
  "pid (dhcp_blank mac xid p) = pid p" "nexts (dhcp_blank mac xid p) = nexts p"
  "pid (dhcp_request_packet mac xid a b p) = pid p" "nexts (dhcp_request_packet mac xid a b p) = nexts p"
  "pid (dhcp_discover_packet mac xid p) = pid p" "nexts (dhcp_discover_packet mac xid p) = nexts p"
  "pid (dhcpd_reply req t l c my_ip p) = pid p" "nexts (dhcpd_reply req t l c my_ip p) = nexts p"
  by (simp_all add: dhcp_blank_def dhcp_request_packet_def dhcp_discover_packet_def dhcpd_reply_def Let_def split_beta)

lemma dhcp_route_bufs [simp]: "same_bufs s (dhcp_set_route m r s)"
  by (auto simp: dhcp_set_route_def Let_def same_bufs_def ip4_set_netmask_def ip4_set_netmask_ip_def
      ip4_set_gateway_def ip4_set_gateway_ip_def)

lemma send_request_bufs:
  assumes out: "sends out" and ids: "ids_ok s" and r: "dhcp_send_request out a b d s = Some (x, t)"
  shows "same_bufs s t"
proof (cases "pbuf_alloc s")
  case (Pair q u)
  show ?thesis
  proof (cases q)
    case None
    with Pair r pbuf_alloc_None show ?thesis by (auto simp: dhcp_send_request_def)
  next
    case (Some p)
    note al = pbuf_alloc_release [OF ids Pair [unfolded Some]]
    let ?q = "dhcp_request_packet (arp_get_ajos_mac u) (dhcp_xid u) a b p"
    have "owned ?q u" using al(1) owned_cong [of ?q p u] by simp
    from udp_output_sends [OF out this] r have "released ?q u t" by (simp add: dhcp_send_request_def Pair Some)
    with al(2) [of ?q t] show ?thesis by simp
  qed
qed

text \<open>The client releases every packet.\<close>

lemma dhcp_offer_bufs:
  assumes out: "sends out" and ids: "ids_ok s" and r: "dhcp_on_offer out p sid a s = Some t"
  shows "same_bufs s t"
proof -
  define u where "u = dhcp_set_route (od_mask a) (od_router a)
    (s\<lparr>dhcp_got_offer := True, dhcp_offered_ip := ntohl (h32 p 16), dhcp_server_ip := sid\<rparr>)"
  have "same_bufs s (s\<lparr>dhcp_got_offer := True, dhcp_offered_ip := ntohl (h32 p 16), dhcp_server_ip := sid\<rparr>)"
    by (simp add: same_bufs_def)
  then have su: "same_bufs s u" unfolding u_def by (rule same_bufs_trans) simp
  from r obtain x v where v: "dhcp_send_request out (ntohl (h32 p 16)) sid 0xFFFFFFFF u = Some (x, v)"
    and t: "v = t \<or> (\<exists>y. dhcp_send_request out (ntohl (h32 p 16)) sid sid v = Some (y, t))"
    by (auto simp: dhcp_on_offer_def Let_def u_def [symmetric] Option.bind_eq_Some_conv split: if_splits)
  have uv: "same_bufs u v" using send_request_bufs [OF out _ v] same_bufs_ids [OF su ids] .
  have sv: "same_bufs s v" using su uv by (rule same_bufs_trans)
  with t send_request_bufs [OF out same_bufs_ids [OF sv ids]] show ?thesis using same_bufs_trans by blast
qed

lemma dhcp_ack_bufs: "same_bufs s (dhcp_on_ack p a s)"
proof -
  define b where "b = (let x = ntohl (h32 p 16); x = (if x = 0 \<and> od_req a \<noteq> 0 then od_req a else x);
    x = (if x = 0 then ntohl (h32 p 12) else x) in if x = 0 \<and> dhcp_offered_ip s \<noteq> 0 then dhcp_offered_ip s else x)"
  define u where "u = (if b \<noteq> 0 then arp_set_ajos_ip b s else s)"
  have "same_bufs s u" by (simp add: u_def same_bufs_def arp_set_ajos_ip_def)
  then have "same_bufs s (dhcp_set_route (od_mask a) (od_router a) u)" by (rule same_bufs_trans) simp
  moreover have "dhcp_on_ack p a s = (dhcp_set_route (od_mask a) (od_router a) u)\<lparr>dhcp_got_ack := True\<rparr>"
    by (simp add: dhcp_on_ack_def b_def u_def Let_def)
  ultimately show ?thesis by (simp add: same_bufs_def)
qed

lemma dhcp_input_consumes:
  assumes out: "sends out" shows "consumes (\<lambda>p. dhcp_input out p src dst)"
  unfolding consumes_def
proof (intro allI impI)
  fix p s s' assume o: "owned p s" and r: "dhcp_input out p src dst s = Some s'"
  let ?a = "dhcp_options p DHCP_OPTIONS
    \<lparr>od_type = 0, od_server = 0, od_mask = 0, od_router = 0, od_req = 0, od_dns = dns_server s\<rparr>"
  define t where "t = s\<lparr>dns_server := od_dns ?a\<rparr>"
  have t: "same_bufs s t" by (simp add: t_def same_bufs_def)
  have ids: "ids_ok t" using o same_bufs_ids [OF t] by (simp add: owned_def)
  note fin = release_free [OF o _ refl refl]
  have offer: "released p s (pbuf_free p u)" if "dhcp_on_offer out p sid ?a t = Some u" for sid u
    using that same_bufs_trans [OF t dhcp_offer_bufs [OF out ids]] by (blast intro: fin)
  from r show "released p s s'"
    unfolding dhcp_input_def Let_def t_def [symmetric]
    by (auto split: if_splits intro: fin same_bufs_refl t same_bufs_trans [OF t dhcp_ack_bufs] offer)
qed

text \<open>The server does not: the packet stays allocated, and an answer that was sent is freed again
  although \<open>udp_output\<close> has freed it.\<close>

lemma dhcpd_reply_frees_twice:
  assumes out: "sends out" and ids: "ids_ok s" and k: "kmalloc_ok s (allocs s)"
    and r: "dhcpd_send_reply out req type l s = Some t"
  shows "bad_free t"
proof -
  obtain p u where al: "pbuf_alloc s = (Some p, u)" using k by (simp add: pbuf_alloc_def Let_def)
  let ?ip = "if arp_get_ajos_ip u = 0 then dc_server_ip (dhcp_conf u) else arp_get_ajos_ip u"
  let ?q = "dhcpd_reply req type l (dhcp_conf u) ?ip p"
  have o: "owned ?q u" using pbuf_alloc_release(1) [OF ids al] owned_cong [of ?q p u] by simp
  from r obtain x v where v: "udp_output out ?q 0xFFFFFFFF 67 68 u = Some (x, v)" and t: "t = pbuf_free p v"
    by (auto simp: dhcpd_send_reply_def al Let_def)
  from udp_output_sends [OF out o v] have "pid p \<notin> live v" by (simp add: released_def)
  moreover have "nexts p = []" using o by (simp add: owned_def)
  ultimately show ?thesis by (simp add: t pbuf_free_def kfree_pbuf_def)
qed

lemma dhcpd_find_lease_bufs: "same_bufs s (snd (dhcpd_find_lease mac s))"
  by (simp add: dhcpd_find_lease_def split_beta same_bufs_def)

lemma dhcpd_send_reply_keeps:
  assumes out: "sends out" and o: "owned p s" and r: "dhcpd_send_reply out req type l s = Some t"
  shows "pid p \<in> live t"
proof (cases "pbuf_alloc s")
  case (Pair a u)
  note i = o [unfolded owned_def]
  show ?thesis
  proof (cases a)
    case None
    with r Pair pbuf_alloc_None [of s u] i show ?thesis by (simp add: dhcpd_send_reply_def same_bufs_def)
  next
    case (Some b)
    note al = pbuf_alloc_release [OF conjunct1 [OF i] Pair [unfolded Some]]
    have new: "pid b \<noteq> pid p" using Pair i by (auto simp: Some pbuf_alloc_def Let_def ids_ok_def split: if_splits)
    let ?ip = "if arp_get_ajos_ip u = 0 then dc_server_ip (dhcp_conf u) else arp_get_ajos_ip u"
    let ?q = "dhcpd_reply req type l (dhcp_conf u) ?ip b"
    have q: "owned ?q u" using al(1) owned_cong [of ?q b u] by simp
    from r obtain x v where v: "udp_output out ?q 0xFFFFFFFF 67 68 u = Some (x, v)" and t: "t = pbuf_free b v"
      by (auto simp: dhcpd_send_reply_def Pair Some Let_def)
    have "same_bufs s v" using al(2) [of ?q v] udp_output_sends [OF out q v] by simp
    then have "pid p \<in> live v" using i by (simp add: same_bufs_def)
    moreover have "nexts b = []" using q by (simp add: owned_def)
    ultimately show ?thesis using new by (simp add: t pbuf_free_def kfree_pbuf_def)
  qed
qed

lemma dhcpd_keeps_packet:
  assumes out: "sends out" and o: "owned p s" and r: "dhcpd_handle_packet out p s = Some t"
  shows "pid p \<in> live t"
proof -
  have "pid p \<in> live t" if "dhcpd_answer out p type s = Some t" for type
  proof (cases "dhcpd_find_lease (hbytes p 28 6) s")
    case (Pair i u)
    have "owned p u" using same_bufs_owned [OF dhcpd_find_lease_bufs o, of "hbytes p 28 6"] by (simp add: Pair)
    with that dhcpd_send_reply_keeps [OF out] show ?thesis
      by (auto simp: dhcpd_answer_def Pair owned_def split: option.splits)
  qed
  with r o show ?thesis by (auto simp: dhcpd_handle_packet_def owned_def Let_def split: if_splits)
qed

section \<open>What the server writes the client reads\<close>

lemma h8_wbytes: "h8 (wbytes k bs p) j = (if k \<le> j \<and> j < k + length bs then bs ! (j - k) else h8 p j)"
  by (auto simp: h8_def wbytes_def set_bytes_def)

lemma hbytes_h8: "hbytes p k n = map (\<lambda>j. h8 p (k + j)) [0 ..< n]"
  unfolding hbytes_def get_bytes_def h8_def by (rule nth_equalityI) (simp_all add: ac_simps)

lemma h8_hbytes: "hbytes p k (length bs) = bs \<Longrightarrow> j < length bs \<Longrightarrow> h8 p (k + j) = bs ! j"
  unfolding hbytes_h8 by (metis (no_types, lifting) add_0 length_map length_upt minus_nat.diff_0 nth_map nth_upt)

text \<open>Appending an option.\<close>

lemma add_option_bytes:
  assumes "fst kp = k + length bs" "hbytes (snd kp) k (length bs) = bs"
  shows "hbytes (snd (dhcp_add_option c d kp)) k (length bs + (2 + length d)) = bs @ [c, of_nat (length d)] @ d"
    (is "_ = ?L")
proof (rule nth_equalityI)
  fix j assume "j < length (hbytes (snd (dhcp_add_option c d kp)) k (length bs + (2 + length d)))"
  then have j: "j < length bs + (2 + length d)" by (simp add: hbytes_h8)
  obtain p where kp: "kp = (k + length bs, p)" using assms(1) by (cases kp) auto
  have old: "h8 p (k + j) = bs ! j" if "j < length bs" using h8_hbytes [OF _ that, of p k] assms(2) by (simp add: kp)
  consider "j < length bs" | "j = length bs" | "j = Suc (length bs)" | "Suc (Suc (length bs)) \<le> j" by linarith
  then have "h8 (snd (dhcp_add_option c d kp)) (k + j) = ?L ! j"
    using j by cases (auto simp: nth_append old dhcp_add_option_def kp h8_wbytes fields_w8 numeral_2_eq_2
        nth_Cons' intro: arg_cong2 [of _ _ _ _ "(!)"])
  with j show "hbytes (snd (dhcp_add_option c d kp)) k (length bs + (2 + length d)) ! j = ?L ! j"
    by (simp only: hbytes_h8 length_upt nth_map nth_upt minus_nat.diff_0 add_0)
qed (simp add: hbytes_h8)

lemma add_option_before:
  assumes "j + 3 < fst kp"
  shows "h8 (snd (dhcp_add_option c d kp)) j = h8 (snd kp) j" "h32 (snd (dhcp_add_option c d kp)) j = h32 (snd kp) j"
  using assms by (auto simp: dhcp_add_option_def split_beta wire h32_def ld32_def wbytes_def set_bytes_def h8_def w8_def)

text \<open>Network order: the four bytes of \<open>dhcp_add_u32_option\<close> read as the number.\<close>

abbreviation be_bytes :: "u32 \<Rightarrow> u8 list" where
  "be_bytes v \<equiv> [ucast (drop_bit 24 v AND 0xFF), ucast (drop_bit 16 v AND 0xFF),
     ucast (drop_bit 8 v AND 0xFF), ucast (v AND 0xFF)]"

lemma be_field:
  assumes b: "\<And>i. i < 4 \<Longrightarrow> h8 p (k + i) = be_bytes v ! i"
  shows "ntohl (h32 p k) = v"
proof -
  have b': "h8 p k = be_bytes v ! 0" "h8 p (k + 1) = be_bytes v ! 1" "h8 p (k + 2) = be_bytes v ! 2" "h8 p (k + 3) = be_bytes v ! 3"
    using b [of 0] b [of 1] b [of 2] b [of 3] by simp_all
  have c: "(0xFF :: u32) = mask 8" by (simp add: mask_eq_exp_minus_1)
  have "h32 p k = htonl v"
  proof (rule bit_word_eqI)
    have d: "(0xFF000000 :: u32) = push_bit 24 (mask 8)" "(0x00FF0000 :: u32) = push_bit 16 (mask 8)"
      "(0x0000FF00 :: u32) = push_bit 8 (mask 8)" "(0x000000FF :: u32) = mask 8"
      by (simp_all add: mask_eq_exp_minus_1 push_bit_eq_mult)
    have e: "h32 p k = ucast (h8 p k) OR push_bit 8 (ucast (h8 p (k + 1))) OR push_bit 16 (ucast (h8 p (k + 2))) OR
      push_bit 24 (ucast (h8 p (k + 3)))" by (simp add: h32_def ld32_def h8_def add.assoc)
    fix n assume n: "n < LENGTH(32)"
    consider "n < 8" | "8 \<le> n" "n < 16" | "16 \<le> n" "n < 24" | "24 \<le> n" by linarith
    then show "bit (h32 p k) n = bit (htonl v) n"
      unfolding e b' htonl_def d by cases (use n in \<open>auto simp: c bit_simps\<close>)
  qed
  then show ?thesis by (simp add: htonl_htonl)
qed

lemma dhcpd_reply_bytes:
  fixes req t l c my_ip p
  defines "q \<equiv> dhcpd_reply req t l c my_ip p"
  shows "hbytes q 240 34 = [53, 1, t] @ (54 # 4 # be_bytes my_ip) @ (51 # 4 # be_bytes (dc_lease_time c)) @
      (1 # 4 # be_bytes (dc_netmask c)) @ (3 # 4 # be_bytes my_ip) @ (6 # 4 # be_bytes my_ip) @ [255]"
    and "plen q = 274" "h8 q 0 = 2" "h32 q 4 = h32 req 4" "ntohl (h32 q 16) = dl_ip l"
proof -
  define b where "b = w32 236 (htonl DHCP_MAGIC_COOKIE) (wbytes 28 (hbytes req 28 16) (w32 24 0 (w32 20 (htonl my_ip)
    (w32 16 (htonl (dl_ip l)) (w32 12 0 (w16 10 (h16 req 10) (w16 8 0 (w32 4 (h32 req 4)
    (w8 2 6 (w8 1 1 (w8 0 2 (wbytes 0 (replicate DHCP_MSG_LEN 0) p))))))))))))"
  have W: "h32 (wbytes k bs u) j = h32 u j" if "j + 3 < k" for k bs u j
    using that by (simp add: h32_def ld32_def wbytes_def set_bytes_def)
  have b: "h8 b 0 = 2" "h32 b 4 = h32 req 4" "h32 b 16 = htonl (dl_ip l)"
    by (simp_all add: b_def wire h8_wbytes W)
  define f0 where "f0 = dhcp_add_option 53 [t] (DHCP_OPTIONS, b)"
  define f1 where "f1 = dhcp_add_u32_option 54 my_ip f0"
  define f2 where "f2 = dhcp_add_u32_option 51 (dc_lease_time c) f1"
  define f3 where "f3 = dhcp_add_u32_option 1 (dc_netmask c) f2"
  define f4 where "f4 = dhcp_add_u32_option 3 my_ip f3"
  define f5 where "f5 = dhcp_add_u32_option 6 my_ip f4"
  have q: "q = (w8 (fst f5) 255 (snd f5))\<lparr>plen := ucast (of_nat (fst f5 + 1) :: u16)\<rparr>"
    by (simp only: q_def dhcpd_reply_def Let_def b_def f0_def f1_def f2_def f3_def f4_def f5_def split_beta)
  have n: "fst f0 = 243" "fst f1 = 249" "fst f2 = 255" "fst f3 = 261" "fst f4 = 267" "fst f5 = 273"
    by (simp_all add: f0_def f1_def f2_def f3_def f4_def f5_def DHCP_OPTIONS_def)
  show "plen q = 274" by (simp add: q n)
  note fd = f5_def f4_def f3_def f2_def f1_def dhcp_add_u32_option_def
  have low: "h8 (snd f5) j = h8 b j" "h32 (snd f5) j = h32 b j" if "j + 3 < 240" for j
    using that n by (simp_all add: fd add_option_before f0_def DHCP_OPTIONS_def)
  with b show "h8 q 0 = 2" "h32 q 4 = h32 req 4" "ntohl (h32 q 16) = dl_ip l"
    by (simp_all add: q n wire)
  have "hbytes b 240 (length ([] :: u8 list)) = []" by (simp add: hbytes_h8)
  then have s0: "hbytes (snd f0) 240 3 = [53, 1, t]"
    using add_option_bytes [of "(DHCP_OPTIONS, b)" 240 "[]" 53 "[t]"] by (simp add: f0_def DHCP_OPTIONS_def numeral_3_eq_3)
  have step: "hbytes (snd (dhcp_add_u32_option code v kp)) 240 (n + 6) = bs @ code # 4 # be_bytes v"
    if "hbytes (snd kp) 240 n = bs" "length bs = n" "fst kp = 240 + n" for code v kp bs n
    using add_option_bytes [of kp 240 bs code "be_bytes v"] that by (simp add: dhcp_add_u32_option_def)
  have s1: "hbytes (snd f1) 240 9 = [53, 1, t] @ (54 # 4 # be_bytes my_ip)"
    using step [OF s0] n by (simp add: f1_def)
  have s2: "hbytes (snd f2) 240 15 = [53, 1, t] @ (54 # 4 # be_bytes my_ip) @ (51 # 4 # be_bytes (dc_lease_time c))"
    using step [OF s1] n by (simp add: f2_def)
  have s3: "hbytes (snd f3) 240 21 = [53, 1, t] @ (54 # 4 # be_bytes my_ip) @ (51 # 4 # be_bytes (dc_lease_time c)) @ (1 # 4 # be_bytes (dc_netmask c))"
    using step [OF s2] n by (simp add: f3_def)
  have s4: "hbytes (snd f4) 240 27 = [53, 1, t] @ (54 # 4 # be_bytes my_ip) @ (51 # 4 # be_bytes (dc_lease_time c)) @ (1 # 4 # be_bytes (dc_netmask c)) @ (3 # 4 # be_bytes my_ip)"
    using step [OF s3] n by (simp add: f4_def)
  have s5: "hbytes (snd f5) 240 33 = [53, 1, t] @ (54 # 4 # be_bytes my_ip) @ (51 # 4 # be_bytes (dc_lease_time c)) @ (1 # 4 # be_bytes (dc_netmask c)) @ (3 # 4 # be_bytes my_ip) @ (6 # 4 # be_bytes my_ip)"
    using step [OF s4] n by (simp add: f5_def)
  show "hbytes q 240 34 = [53, 1, t] @ (54 # 4 # be_bytes my_ip) @ (51 # 4 # be_bytes (dc_lease_time c)) @
      (1 # 4 # be_bytes (dc_netmask c)) @ (3 # 4 # be_bytes my_ip) @ (6 # 4 # be_bytes my_ip) @ [255]"
    (is "_ = ?L")
  proof -
    have u34: "[0 ..< 34 :: nat] = [0 ..< 33] @ [33]" by code_simp
    have "hbytes q 240 34 = hbytes q 240 33 @ [h8 q 273]" unfolding hbytes_h8 by (subst u34) simp
    also have "hbytes q 240 33 = hbytes (snd f5) 240 33" by (simp add: hbytes_h8 q n wire)
    also have "\<dots> @ [h8 q 273] = ?L" using s5 by (simp add: q n wire)
    finally show ?thesis .
  qed
qed

lemma client_reads_reply:
  "dhcp_options (dhcpd_reply req t l c my_ip p) DHCP_OPTIONS a =
     a\<lparr>od_type := t, od_server := my_ip, od_mask := dc_netmask c, od_router := my_ip, od_dns := my_ip\<rparr>"
proof -
  let ?q = "dhcpd_reply req t l c my_ip p"
  let ?L = "[53, 1, t] @ (54 # 4 # be_bytes my_ip) @ (51 # 4 # be_bytes (dc_lease_time c)) @
      (1 # 4 # be_bytes (dc_netmask c)) @ (3 # 4 # be_bytes my_ip) @ (6 # 4 # be_bytes my_ip) @ [255]"
  note R = dhcpd_reply_bytes [of req t l c my_ip p]
  have len: "length ?L = 34" by simp
  have b: "h8 ?q (240 + j) = ?L ! j" if "j < 34" for j
    by (rule h8_hbytes) (simp only: len R(1), simp only: len that)
  define A B C where "A = be_bytes my_ip" and "B = be_bytes (dc_lease_time c)" and "C = be_bytes (dc_netmask c)"
  have abc: "length A = 4" "length B = 4" "length C = 4" by (simp_all add: A_def B_def C_def)
  note b' = b [folded A_def B_def C_def]
  have h: "h8 ?q 240 = 53" "h8 ?q 241 = 1" "h8 ?q 242 = t" "h8 ?q 243 = 54" "h8 ?q 244 = 4" "h8 ?q 249 = 51" "h8 ?q 250 = 4"
    "h8 ?q 255 = 1" "h8 ?q 256 = 4" "h8 ?q 261 = 3" "h8 ?q 262 = 4" "h8 ?q 267 = 6" "h8 ?q 268 = 4" "h8 ?q 273 = 255"
    using b' [of 0] b' [of 1] b' [of 2] b' [of 3] b' [of 4] b' [of 9] b' [of 10] b' [of 15] b' [of 16] b' [of 21] b' [of 22]
      b' [of 27] b' [of 28] b' [of 33] by (simp_all add: nth_append abc nth_Cons')
  have a: "h8 ?q (k + i) = v ! i" if "(k, v) \<in> {(245, A), (257, C), (263, A), (269, A)}" "i < 4" for k v i
    using that b' [of "5 + i"] b' [of "17 + i"] b' [of "23 + i"] b' [of "29 + i"] by (auto simp: nth_append abc nth_Cons')
  have v: "ntohl (h32 ?q 245) = my_ip" "ntohl (h32 ?q 257) = dc_netmask c" "ntohl (h32 ?q 263) = my_ip" "ntohl (h32 ?q 269) = my_ip"
    using be_field [OF a [of 245 A, unfolded A_def]] be_field [OF a [of 257 C, unfolded C_def]]
      be_field [OF a [of 263 A, unfolded A_def]] be_field [OF a [of 269 A, unfolded A_def]] by (simp_all add: A_def C_def)
  note step = dhcp_options.simps [of ?q]
  show ?thesis
    by (simp add: DHCP_OPTIONS_def R(2) h v step [of 240] step [of 243] step [of 249] step [of 255] step [of 261]
        step [of 267] step [of 273] dhcp_option_def)
qed

text \<open>C17: The DHCP client takes from an acknowledgement of the server what the server put there: whatever the
  request, the lease and the machines, it adopts the address of the lease, uses the server as gateway and
  DNS server, sets the netmask of the server's configuration, and releases the packet.\<close>

theorem dhcp_client_adopts_lease:
  assumes xid: "ntohl (h32 req 4) = dhcp_xid s"
    and ip: "dl_ip l \<noteq> 0" "my_ip \<noteq> 0" "dc_netmask c \<noteq> 0"
  shows "dhcp_input out (dhcpd_reply req DHCP_ACK l c my_ip p) src dst s =
    Some (pbuf_free p (s\<lparr>dns_server := my_ip, ajos_ip := (ajos_ip s)[0 := dl_ip l],
      ip4_netmask := dc_netmask c, ip4_if_nm := (ip4_if_nm s)[0 := dc_netmask c],
      ip4_gateway := my_ip, ip4_if_gw := (ip4_if_gw s)[0 := my_ip], dhcp_got_ack := True\<rparr>))"
proof -
  note R = dhcpd_reply_bytes [of req DHCP_ACK l c my_ip p]
  have f: "pbuf_free (dhcpd_reply req DHCP_ACK l c my_ip p) t = pbuf_free p t" for t :: "'a snet_scheme"
    by (simp add: pbuf_free_def)
  from R(2-) ip xid show ?thesis
    unfolding dhcp_input_def client_reads_reply f
    by (simp add: Let_def dhcp_types dhcp_on_ack_def dhcp_set_route_def arp_set_ajos_ip_def
      ip4_set_netmask_def ip4_set_netmask_ip_def ip4_set_gateway_def ip4_set_gateway_ip_def)
qed

section \<open>A machine for examples\<close>

definition no_lease :: dhcp_lease where
  "no_lease = \<lparr>dl_ip = 0, dl_mac = replicate 6 0, dl_expiry = 0, dl_in_use = False\<rparr>"

definition no_config :: dhcp_config where
  "no_config = \<lparr>dc_server_ip = 0, dc_start_ip = 0, dc_end_ip = 0, dc_netmask = 0, dc_gateway = 0, dc_dns = 0, dc_lease_time = 0\<rparr>"

definition server_machine :: snet where
  "server_machine = dhcpd_init (tnet.extend (net.extend net_boot (tnet.fields [] 49152))
     (snet.fields 0x12345678 False False 0 0 0xABCD 0 False 0 no_config (replicate MAX_LEASES no_lease) 0))"

lemma discover_xid: "h32 (dhcp_discover_packet mac xid p) 4 = htonl xid"
proof -
  have W: "h32 (wbytes k bs u) 4 = h32 u 4" if "7 < k" for k bs u
    using that by (simp add: h32_def ld32_def wbytes_def set_bytes_def)
  show ?thesis
    by (simp add: dhcp_discover_packet_def Let_def split_beta wire add_option_before DHCP_OPTIONS_def dhcp_blank_def W)
qed

theorem dhcp_client_adopts_lease_witness:
  "dhcp_input (\<lambda>_ _ _ s. Some (0, s))
     (dhcpd_reply (dhcp_discover_packet [2, 0, 0, 0, 0, 9] 0x12345678 (pbuf_with [])) DHCP_ACK (no_lease\<lparr>dl_ip := 0x0A000232\<rparr>)
        (no_config\<lparr>dc_netmask := 0x00FFFFFF\<rparr>) 0x0A00020F (pbuf_with [])) 0 0 server_machine =
   Some (pbuf_free (pbuf_with []) (server_machine\<lparr>dns_server := 0x0A00020F, ajos_ip := [0x0A000232, 0],
      ip4_netmask := 0x00FFFFFF, ip4_if_nm := [0x00FFFFFF, 0],
      ip4_gateway := 0x0A00020F, ip4_if_gw := [0x0A00020F, 0], dhcp_got_ack := True\<rparr>))"
proof -
  have "dhcp_xid server_machine = 0x12345678" by code_simp
  then have x: "ntohl (h32 (dhcp_discover_packet [2, 0, 0, 0, 0, 9] 0x12345678 (pbuf_with [])) 4) = dhcp_xid server_machine"
    by (simp add: discover_xid wire)
  have "ajos_ip server_machine = [0x0A00020F, 0]" "ip4_if_nm server_machine = [0, 0]" "ip4_if_gw server_machine = [0, 0]"
    by code_simp+
  with dhcp_client_adopts_lease [OF x, where l = "no_lease\<lparr>dl_ip := 0x0A000232\<rparr>" and my_ip = "0x0A00020F" and
      c = "no_config\<lparr>dc_netmask := 0x00FFFFFF\<rparr>"]
  show ?thesis by simp
qed

end
