(* ===== verification/Dns.thy ===== *)
theory Dns
  imports Dhcp
begin

text \<open>
  The DNS resolver (\<open>src/dns.c\<close>) and the DNS server (\<open>src/dnsd.c\<close>), which answers every query with the
  machine's own address. The resolver reads an answer without looking at its length: a read outside the
  packet buffer is the result \<open>None\<close> of \<open>dns_input\<close>, after which nothing is said. While \<open>dns_lookup\<close>
  waits for ARP, interrupts run; the argument \<open>spin\<close> is the state after such a wait.

  Shown: names are encoded as their labels with lengths; the resolver understands the server's answer to
  its own query; it releases the packet when it returns; a packet without a terminated name makes it read
  outside the buffer.
\<close>

section \<open>The resolver\<close>

definition dns_set_server :: "u32 \<Rightarrow> 'z snet_scheme \<Rightarrow> 'z snet_scheme" where
  "dns_set_server a s = s\<lparr>dns_server := a\<rparr>"

definition dns_init :: "'z snet_scheme \<Rightarrow> 'z snet_scheme" where
  "dns_init s = s\<lparr>dns_server := 0x0A000203\<rparr>"

text \<open>\<open>pos\<close> and \<open>sec\<close> are the C variables \<open>pos\<close> and \<open>section_len_pos\<close>, \<open>b\<close> is the position of
  \<open>dst\<close> in the packet, 46 is the dot.\<close>

fun encode_loop :: "nat \<Rightarrow> u8 list \<Rightarrow> nat \<Rightarrow> nat \<Rightarrow> pbuf \<Rightarrow> nat \<times> nat \<times> pbuf" where
  "encode_loop b [] pos sec p = (pos, sec, p)"
| "encode_loop b (c # cs) pos sec p =
     (if c = 46
      then encode_loop b cs (pos + 1) (pos + 1) (w8 (b + (pos + 1)) 0 (w8 (b + sec) (of_nat (pos - sec)) p))
      else encode_loop b cs (pos + 1) sec (w8 (b + (pos + 1)) c p))"

definition dns_encode_name :: "nat \<Rightarrow> u8 list \<Rightarrow> pbuf \<Rightarrow> (nat \<times> pbuf) option" where
  "dns_encode_name b name p =
     (if name = [] then None
      else
        let (pos, sec, p) = encode_loop b name 0 0 (w8 b 0 p);
            p = w8 (b + sec) (of_nat (pos - sec)) p;
            p = w8 (b + (pos + 1)) 0 p
        in Some (pos + 2, p))"

definition dns_query_packet :: "u16 \<Rightarrow> u8 list \<Rightarrow> pbuf \<Rightarrow> pbuf option" where
  "dns_query_packet qid name p =
     (let p = w16 0 (htons qid) p;
          p = w16 2 (htons 0x0100) p;
          p = w16 4 (htons 1) p;
          p = w16 6 0 p;
          p = w16 8 0 p;
          p = w16 10 0 p
      in case dns_encode_name 12 name p of
           None \<Rightarrow> None
         | Some (enc, p) \<Rightarrow>
             let off = 12 + enc;
                 p = w16 off (htons 1) p;
                 p = w16 (off + 2) (htons 1) p
             in Some (p\<lparr>plen := of_nat (off + 4)\<rparr>))"

primrec dns_attempts :: "nat \<Rightarrow> (u32 \<Rightarrow> 'z snet_scheme \<Rightarrow> 'z snet_scheme) \<Rightarrow> 'z snet_scheme outfn \<Rightarrow> u32 \<Rightarrow> u8 list \<Rightarrow>
    'z snet_scheme \<Rightarrow> 'z snet_scheme option" where
  "dns_attempts 0 spin out next_hop name s = Some s"
| "dns_attempts (Suc n) spin out next_hop name s =
     (case pbuf_alloc s of
        (None, s) \<Rightarrow> Some s
      | (Some p, s) \<Rightarrow>
          let p = pbuf_header_or_same p (- 12);
              qid = dns_id s;
              s = s\<lparr>dns_pending_id := qid, dns_id := qid + 1\<rparr>
          in case dns_query_packet qid name p of
               None \<Rightarrow> Some (pbuf_free p s)
             | Some p \<Rightarrow>
                 Option.bind (udp_output out p (dns_server s) (1024 + dns_id s mod 1000) 53 s) (\<lambda>(r, s).
                   if r = 0 then Some s
                   else dns_attempts n spin out next_hop name (spin next_hop (snd (arp_query next_hop s)))))"

definition dns_lookup :: "(u32 \<Rightarrow> 'z snet_scheme \<Rightarrow> 'z snet_scheme) \<Rightarrow> 'z snet_scheme outfn \<Rightarrow> u8 list \<Rightarrow>
    'z snet_scheme \<Rightarrow> 'z snet_scheme option" where
  "dns_lookup spin out name s =
     (let s = s\<lparr>dns_got_reply := False, dns_last_ip := 0\<rparr>;
          my_ip = arp_get_ajos_ip s;
          nm = ip4_get_netmask s;
          gw = ip4_get_gateway s;
          next_hop = (if my_ip \<noteq> 0 \<and> nm \<noteq> 0 \<and> gw \<noteq> 0 \<and> dns_server s AND nm \<noteq> my_ip AND nm then gw else dns_server s);
          s = (case arp_get_mac_for_ip next_hop s of
                 None \<Rightarrow> spin next_hop (snd (arp_query next_hop s))
               | Some _ \<Rightarrow> s)
      in dns_attempts 2 spin out next_hop name s)"

text \<open>Reads of the parser, which may leave the buffer.\<close>

definition rd8 :: "pbuf \<Rightarrow> nat \<Rightarrow> u8 option" where
  "rd8 p k = (if payload p + k < PBUF_SIZE then Some (h8 p k) else None)"

definition rd16 :: "pbuf \<Rightarrow> nat \<Rightarrow> u16 option" where
  "rd16 p k = (if payload p + k + 1 < PBUF_SIZE then Some (ntohs (h16 p k)) else None)"

definition rd32 :: "pbuf \<Rightarrow> nat \<Rightarrow> u32 option" where
  "rd32 p k = (if payload p + k + 3 < PBUF_SIZE then Some (ntohl (h32 p k)) else None)"

function dns_skip :: "pbuf \<Rightarrow> nat \<Rightarrow> nat option" where
  "dns_skip p k =
     (if payload p + k < PBUF_SIZE then
        if h8 p k = 0 then Some k else dns_skip p (k + (unat (h8 p k) + 1))
      else None)"
  by pat_completeness auto
termination by (relation "measure (\<lambda>(p, k). PBUF_SIZE - (payload p + k))") auto

declare dns_skip.simps [simp del]

primrec dns_questions :: "nat \<Rightarrow> pbuf \<Rightarrow> nat \<Rightarrow> nat option" where
  "dns_questions 0 p k = Some k"
| "dns_questions (Suc n) p k = Option.bind (dns_skip p k) (\<lambda>k. dns_questions n p (k + 1 + 4))"

definition dns_skip_name :: "pbuf \<Rightarrow> nat \<Rightarrow> nat option" where
  "dns_skip_name p k =
     Option.bind (rd8 p k) (\<lambda>c. if c AND 0xC0 = 0xC0 then Some (k + 2) else map_option Suc (dns_skip p k))"

primrec dns_answers :: "nat \<Rightarrow> pbuf \<Rightarrow> nat \<Rightarrow> 'z snet_scheme \<Rightarrow> 'z snet_scheme option" where
  "dns_answers 0 p k s = Some s"
| "dns_answers (Suc n) p k s =
     Option.bind (dns_skip_name p k) (\<lambda>k.
     Option.bind (rd16 p k) (\<lambda>type.
     Option.bind (rd16 p (k + 2)) (\<lambda>cls.
     Option.bind (rd16 p (k + 8)) (\<lambda>rdlen.
     Option.bind (if type = 1 \<and> rdlen = 4
                  then map_option (\<lambda>a. s\<lparr>dns_last_ip := a, dns_got_reply := True\<rparr>) (rd32 p (k + 10))
                  else Some s) (\<lambda>s.
     dns_answers n p (k + 10 + unat rdlen) s)))))"

definition dns_input :: "pbuf \<Rightarrow> 'z snet_scheme \<Rightarrow> 'z snet_scheme option" where
  "dns_input p s =
     (if plen p < 12 then Some (pbuf_free p s)
      else if ntohs (h16 p 0) \<noteq> dns_pending_id s then Some (pbuf_free p s)
      else if ntohs (h16 p 2) AND 0x8000 = 0 then Some (pbuf_free p s)
      else
        Option.bind (dns_questions (unat (ntohs (h16 p 4))) p 12) (\<lambda>k.
        map_option (pbuf_free p) (dns_answers (unat (ntohs (h16 p 6))) p k s)))"

section \<open>The server\<close>

function dnsd_q_end :: "pbuf \<Rightarrow> nat \<Rightarrow> nat" where
  "dnsd_q_end p k =
     (if h8 p k \<noteq> 0 \<and> k < unat (plen p) then dnsd_q_end p (k + (unat (h8 p k) + 1)) else k)"
  by pat_completeness auto
termination by (relation "measure (\<lambda>(p, k). unat (plen p) - k)") auto

declare dnsd_q_end.simps [simp del]

definition dnsd_reply :: "pbuf \<Rightarrow> nat \<Rightarrow> u32 \<Rightarrow> pbuf \<Rightarrow> pbuf" where
  "dnsd_reply q q_len my_ip p =
     (let p = w16 0 (h16 q 0) p;
          p = w16 2 (htons 0x8400) p;
          p = w16 4 (htons 1) p;
          p = w16 6 (htons 1) p;
          p = w16 8 0 p;
          p = w16 10 0 p;
          p = wbytes 12 (hbytes q 12 q_len) p;
          p = wbytes (12 + q_len) ([0xC0, 0x0C, 0, 1, 0, 1, 0, 0, 0, 60, 0, 4] @ be_bytes my_ip) p
      in p\<lparr>plen := ucast (of_nat (12 + q_len + 16) :: u16)\<rparr>)"

definition dnsd_handle_packet :: "'z snet_scheme outfn \<Rightarrow> pbuf \<Rightarrow> u32 \<Rightarrow> u16 \<Rightarrow> u16 \<Rightarrow> 'z snet_scheme \<Rightarrow>
    'z snet_scheme option" where
  "dnsd_handle_packet out p src_ip src_port dst_port s =
     (if plen p < 12 then Some s
      else if ntohs (h16 p 2) AND 0x8000 \<noteq> 0 then Some s
      else if ntohs (h16 p 2) AND 0x7800 \<noteq> 0 then Some s
      else if ntohs (h16 p 4) \<noteq> 1 then Some s
      else
        case pbuf_alloc s of
          (None, s) \<Rightarrow> Some s
        | (Some resp, s) \<Rightarrow>
            let k = dnsd_q_end p 12
            in if h8 p k \<noteq> 0 then Some (pbuf_free resp s)
               else map_option (\<lambda>(_, s). s\<lparr>dns_queries_handled := dns_queries_handled s + 1\<rparr>)
                 (udp_output out (dnsd_reply p (k + 1 + 4 - 12) (arp_get_ajos_ip s) resp) src_ip 53 src_port s))"

section \<open>Names\<close>

text \<open>A name as its labels: on the wire, and as the text the user types.\<close>

definition dns_name :: "u8 list list \<Rightarrow> u8 list" where
  "dns_name ls = concat (map (\<lambda>l. of_nat (length l) # l) ls) @ [0]"

fun dotted :: "u8 list list \<Rightarrow> u8 list" where
  "dotted [] = []"
| "dotted [l] = l"
| "dotted (l # ls) = l @ 46 # dotted ls"

lemma dns_name_simps [simp]: "dns_name [] = [0]" "dns_name (l # ls) = of_nat (length l) # l @ dns_name ls"
  by (simp_all add: dns_name_def)

lemma encode_label:
  assumes "46 \<notin> set l" "sec \<le> pos"
  shows "\<exists>q. encode_loop b (l @ cs) pos sec p = encode_loop b cs (pos + length l) sec q \<and>
    (\<forall>j. h8 q j = (if b + pos < j \<and> j \<le> b + pos + length l then l ! (j - (b + pos + 1)) else h8 p j))"
  using assms
proof (induction l arbitrary: pos p)
  case Nil
  then show ?case by auto
next
  case (Cons c l)
  from Cons.IH [of "pos + 1" "w8 (b + (pos + 1)) c p"] Cons.prems obtain q where
    q: "encode_loop b (l @ cs) (pos + 1) sec (w8 (b + (pos + 1)) c p) = encode_loop b cs (pos + 1 + length l) sec q"
    and f: "\<And>j. h8 q j = (if b + (pos + 1) < j \<and> j \<le> b + (pos + 1) + length l then l ! (j - (b + (pos + 1) + 1))
      else h8 (w8 (b + (pos + 1)) c p) j)" by auto
  have "c \<noteq> 46" using Cons.prems by auto
  with q show ?case
    by (intro exI [of _ q]) (auto simp: f fields_w8 nth_Cons' Suc_diff_le)
qed

definition encode_end :: "nat \<Rightarrow> nat \<times> nat \<times> pbuf \<Rightarrow> pbuf" where
  "encode_end b = (\<lambda>(pos, sec, p). w8 (b + (pos + 1)) 0 (w8 (b + sec) (of_nat (pos - sec)) p))"

lemma dns_name_length: "ls \<noteq> [] \<Longrightarrow> length (dns_name ls) = length (dotted ls) + 2"
  by (induction ls rule: dotted.induct) simp_all

lemma encode_dotted:
  assumes "ls \<noteq> []" "\<forall>l \<in> set ls. 46 \<notin> set l"
  shows "fst (encode_loop b (dotted ls) pos pos p) = pos + length (dotted ls) \<and>
    (\<forall>j. h8 (encode_end b (encode_loop b (dotted ls) pos pos p)) j =
       (if b + pos \<le> j \<and> j < b + pos + length (dns_name ls) then dns_name ls ! (j - (b + pos)) else h8 p j))"
  using assms
proof (induction ls arbitrary: pos p rule: dotted.induct)
  case 1
  then show ?case by simp
next
  case (2 l)
  then have "46 \<notin> set l" by simp
  then obtain q where e: "encode_loop b (l @ []) pos pos p = encode_loop b [] (pos + length l) pos q"
    and q: "\<And>j. h8 q j = (if b + pos < j \<and> j \<le> b + pos + length l then l ! (j - (b + pos + 1)) else h8 p j)"
    using encode_label [of l pos pos b "[]" p] by blast
  have e': "encode_loop b l pos pos p = (pos + length l, pos, q)" using e by simp
  show ?case
    by (auto simp: e' encode_end_def fields_w8 q nth_Cons' nth_append)
next
  case (3 l m ls)
  then have "46 \<notin> set l" by simp
  then obtain q where e: "encode_loop b (l @ 46 # dotted (m # ls)) pos pos p =
      encode_loop b (46 # dotted (m # ls)) (pos + length l) pos q"
    and q: "\<And>j. h8 q j = (if b + pos < j \<and> j \<le> b + pos + length l then l ! (j - (b + pos + 1)) else h8 p j)"
    using encode_label [of l pos pos b "46 # dotted (m # ls)" p] by blast
  define pos' where "pos' = pos + length l + 1"
  define p' where "p' = w8 (b + pos') 0 (w8 (b + pos) (of_nat (length l)) q)"
  have e': "encode_loop b (dotted (l # m # ls)) pos pos p = encode_loop b (dotted (m # ls)) pos' pos' p'"
    using e by (simp add: pos'_def p'_def add.commute)
  have ml: "m # ls \<noteq> []" "\<forall>l \<in> set (m # ls). 46 \<notin> set l" using 3(3) by auto
  note I = 3(1) [OF ml, of pos' p']
  have IH: "fst (encode_loop b (dotted (m # ls)) pos' pos' p') = pos' + length (dotted (m # ls))"
    "\<And>j. h8 (encode_end b (encode_loop b (dotted (m # ls)) pos' pos' p')) j =
       (if b + pos' \<le> j \<and> j < b + pos' + length (dns_name (m # ls)) then dns_name (m # ls) ! (j - (b + pos')) else h8 p' j)"
    by (rule conjunct1 [OF I], rule spec [OF conjunct2 [OF I]])
  have d: "dns_name (l # m # ls) = of_nat (length l) # l @ dns_name (m # ls)" by simp
  have "dns_name (m # ls) \<noteq> []" by simp
  then show ?case
    unfolding e' IH(1) d using IH(2)
    by (auto simp: pos'_def p'_def fields_w8 q nth_Cons' nth_append simp del: dns_name_simps intro: arg_cong2 [of _ _ _ _ "(!)"])
qed

lemma dns_encode_dotted:
  assumes "dotted ls \<noteq> []" "\<forall>l \<in> set ls. 46 \<notin> set l"
  obtains q where "dns_encode_name b (dotted ls) p = Some (length (dns_name ls), q)" "pid q = pid p" "nexts q = nexts p"
    "payload q = payload p" "\<And>j. h8 q j = (if b \<le> j \<and> j < b + length (dns_name ls) then dns_name ls ! (j - b) else h8 p j)"
proof -
  have ls: "ls \<noteq> []" using assms(1) by auto
  have loop: "pid (snd (snd (encode_loop b cs pos sec r))) = pid r" "nexts (snd (snd (encode_loop b cs pos sec r))) = nexts r"
    "payload (snd (snd (encode_loop b cs pos sec r))) = payload r" for cs pos sec r
    by (induction cs arbitrary: pos sec r) auto
  let ?x = "encode_loop b (dotted ls) 0 0 (w8 b 0 p)"
  note E = encode_dotted [OF ls assms(2), of b 0 "w8 b 0 p"]
  have n: "0 < length (dns_name ls)" by (simp add: dns_name_length [OF ls])
  show thesis
  proof (rule that)
    show "dns_encode_name b (dotted ls) p = Some (length (dns_name ls), encode_end b ?x)"
      using E assms(1) by (simp add: dns_encode_name_def Let_def encode_end_def split_beta dns_name_length [OF ls])
    show "pid (encode_end b ?x) = pid p" "nexts (encode_end b ?x) = nexts p" "payload (encode_end b ?x) = payload p"
      by (simp_all add: encode_end_def split_beta loop)
    show "h8 (encode_end b ?x) j = (if b \<le> j \<and> j < b + length (dns_name ls) then dns_name ls ! (j - b) else h8 p j)" for j
      using E n by (auto simp: fields_w8)
  qed
qed

text \<open>Fields from bytes.\<close>

lemma h16_h8: "h16 p k = ucast (h8 p k) OR push_bit 8 (ucast (h8 p (k + 1)))"
  by (simp add: h16_def h8_def ld16_def add.assoc)

lemma ntohs_h16: "ntohs (h16 p k) = push_bit 8 (ucast (h8 p k)) OR ucast (h8 p (k + 1))"
  by (simp add: h16_def h8_def ntohs_be add.assoc)

lemma h16_cong: "h8 q k = h8 p k' \<Longrightarrow> h8 q (k + 1) = h8 p (k' + 1) \<Longrightarrow> h16 q k = h16 p k'"
  by (simp add: h16_h8)

lemma h8_w16: "h8 (w16 k (htons v) p) j = (if j = k then ucast (drop_bit 8 v) else if j = k + 1 then ucast v else h8 p j)"
proof -
  have "ucast (htons v) = (ucast (drop_bit 8 v) :: u8)" "ucast (drop_bit 8 (htons v)) = (ucast v :: u8)"
    by (rule bit_word_eqI, auto simp: htons_def bit_simps)+
  then show ?thesis by (auto simp: h8_def w16_def st16_def)
qed

section \<open>Query and answer\<close>

lemma dns_query_bytes:
  assumes "dotted ls \<noteq> []" "\<forall>l \<in> set ls. 46 \<notin> set l"
  obtains q where "dns_query_packet qid (dotted ls) p = Some q" "payload q = payload p" "pid q = pid p" "nexts q = nexts p"
    "plen q = of_nat (12 + length (dns_name ls) + 4)"
    "h16 q 0 = htons qid" "h16 q 2 = htons 0x0100" "h16 q 4 = htons 1"
    "\<And>j. j < length (dns_name ls) \<Longrightarrow> h8 q (12 + j) = dns_name ls ! j"
proof -
  define b where "b = w16 10 0 (w16 8 0 (w16 6 0 (w16 4 (htons 1) (w16 2 (htons 0x0100) (w16 0 (htons qid) p)))))"
  from dns_encode_dotted [OF assms, of 12 b] obtain e where e: "dns_encode_name 12 (dotted ls) b = Some (length (dns_name ls), e)"
    "pid e = pid b" "nexts e = nexts b" "payload e = payload b"
    "\<And>j. h8 e j = (if 12 \<le> j \<and> j < 12 + length (dns_name ls) then dns_name ls ! (j - 12) else h8 b j)" by blast
  let ?o = "12 + length (dns_name ls)"
  define q where "q = (w16 (?o + 2) (htons 1) (w16 ?o (htons 1) e))\<lparr>plen := of_nat (?o + 4)\<rparr>"
  show thesis
  proof (rule that)
    show "dns_query_packet qid (dotted ls) p = Some q"
      using e(1) by (simp add: dns_query_packet_def Let_def b_def q_def)
    show "payload q = payload p" "pid q = pid p" "nexts q = nexts p" "plen q = of_nat (12 + length (dns_name ls) + 4)"
      by (simp_all add: q_def e b_def)
    have low: "h16 q k = h16 b k" if "k + 1 < 12" for k
      using that by (intro h16_cong) (auto simp: q_def h8_w16 e(5))
    show "h16 q 0 = htons qid" "h16 q 2 = htons 0x0100" "h16 q 4 = htons 1"
      by (simp_all add: low) (simp_all add: b_def wire)
    show "h8 q (12 + j) = dns_name ls ! j" if "j < length (dns_name ls)" for j
      using that by (simp add: q_def h8_w16 e(5))
  qed
qed

lemma dns_skip_labels:
  assumes "\<forall>l \<in> set ls. l \<noteq> [] \<and> length l < 256" "payload p + k + length (dns_name ls) \<le> PBUF_SIZE"
    and "\<And>j. j < length (dns_name ls) \<Longrightarrow> h8 p (k + j) = dns_name ls ! j"
  shows "dns_skip p k = Some (k + (length (dns_name ls) - 1))"
  using assms
proof (induction ls arbitrary: k)
  case Nil
  then show ?case using Nil.prems(3) [of 0] by (subst dns_skip.simps) simp
next
  case (Cons l ls)
  have l: "l \<noteq> []" "length l < 256" using Cons.prems by auto
  have h: "h8 p k = of_nat (length l)" using Cons.prems(3) [of 0] by simp
  have u: "unat (of_nat (length l) :: u8) = length l" using l by (simp add: unat_of_nat)
  then have nz: "(of_nat (length l) :: u8) \<noteq> 0" using l by (metis length_0_conv unat_0)
  have "dns_skip p (k + (length l + 1)) = Some (k + (length l + 1) + (length (dns_name ls) - 1))"
  proof (rule Cons.IH)
    show "\<forall>l \<in> set ls. l \<noteq> [] \<and> length l < 256" using Cons.prems by simp
    show "payload p + (k + (length l + 1)) + length (dns_name ls) \<le> PBUF_SIZE" using Cons.prems(2) by simp
    show "h8 p (k + (length l + 1) + j) = dns_name ls ! j" if "j < length (dns_name ls)" for j
      using Cons.prems(3) [of "Suc (length l + j)"] that by (simp add: add.assoc nth_append)
  qed
  moreover have "0 < length (dns_name ls)" by (simp add: dns_name_def)
  ultimately show ?case using Cons.prems(2) by (subst dns_skip.simps) (simp add: h u nz)
qed

lemma dnsd_q_end_labels:
  assumes "\<forall>l \<in> set ls. l \<noteq> [] \<and> length l < 256" "k + length (dns_name ls) \<le> unat (plen p)"
    and "\<And>j. j < length (dns_name ls) \<Longrightarrow> h8 p (k + j) = dns_name ls ! j"
  shows "dnsd_q_end p k = k + (length (dns_name ls) - 1) \<and> h8 p (k + (length (dns_name ls) - 1)) = 0"
  using assms
proof (induction ls arbitrary: k)
  case Nil
  then show ?case using Nil.prems(3) [of 0] by (subst dnsd_q_end.simps) simp
next
  case (Cons l ls)
  have l: "l \<noteq> []" "length l < 256" using Cons.prems by auto
  have h: "h8 p k = of_nat (length l)" using Cons.prems(3) [of 0] by simp
  have u: "unat (of_nat (length l) :: u8) = length l" using l by (simp add: unat_of_nat)
  then have nz: "(of_nat (length l) :: u8) \<noteq> 0" using l by (metis length_0_conv unat_0)
  have pos: "0 < length (dns_name ls)" by (simp add: dns_name_def)
  have R: "h8 p (k + (length l + 1) + j) = dns_name ls ! j" if "j < length (dns_name ls)" for j
    using Cons.prems(3) [of "Suc (length l + j)"] that by (simp add: add.assoc nth_append)
  have B: "k + (length l + 1) + length (dns_name ls) \<le> unat (plen p)" using Cons.prems(2) by simp
  have A: "\<forall>l \<in> set ls. l \<noteq> [] \<and> length l < 256" using Cons.prems by simp
  from Cons.IH [OF A B R] pos B show ?case by (subst dnsd_q_end.simps) (simp add: h u nz add.assoc)
qed

lemma dnsd_reply_bytes:
  fixes q n my_ip p
  defines "r \<equiv> dnsd_reply q n my_ip p"
  shows "payload r = payload p" "pid r = pid p" "nexts r = nexts p" "plen r = ucast (of_nat (12 + n + 16) :: u16)"
    and "h16 r 0 = h16 q 0" "h16 r 2 = htons 0x8400" "h16 r 4 = htons 1" "h16 r 6 = htons 1"
    and "j < n \<Longrightarrow> h8 r (12 + j) = h8 q (12 + j)"
    and "j < 16 \<Longrightarrow> h8 r (12 + n + j) = ([0xC0, 0x0C, 0, 1, 0, 1, 0, 0, 0, 60, 0, 4] @ be_bytes my_ip) ! j"
proof -
  define b where "b = w16 10 0 (w16 8 0 (w16 6 (htons 1) (w16 4 (htons 1) (w16 2 (htons 0x8400) (w16 0 (h16 q 0) p)))))"
  define A where "A = [0xC0, 0x0C, 0, 1, 0, 1, 0, 0, 0, 60, 0, 4] @ be_bytes my_ip"
  have lA: "length A = 16" by (simp add: A_def)
  define c where "c = wbytes (12 + n) A (wbytes 12 (hbytes q 12 n) b)"
  have r: "r = c\<lparr>plen := ucast (of_nat (12 + n + 16) :: u16)\<rparr>"
    by (simp add: r_def dnsd_reply_def Let_def b_def c_def A_def)
  show "payload r = payload p" "pid r = pid p" "nexts r = nexts p" "plen r = ucast (of_nat (12 + n + 16) :: u16)"
    by (simp_all add: r c_def b_def)
  have ln: "length (hbytes q 12 n) = n" by (simp add: hbytes_h8)
  have low: "h16 r k = h16 b k" if "k + 1 < 12" for k
    using that by (intro h16_cong) (auto simp: r c_def h8_wbytes)
  show "h16 r 0 = h16 q 0" "h16 r 2 = htons 0x8400" "h16 r 4 = htons 1" "h16 r 6 = htons 1"
    by (simp_all add: low) (simp_all add: b_def wire)
  show "j < n \<Longrightarrow> h8 r (12 + j) = h8 q (12 + j)" by (simp add: r c_def h8_wbytes ln) (simp add: hbytes_h8)
  show "j < 16 \<Longrightarrow> h8 r (12 + n + j) = ([0xC0, 0x0C, 0, 1, 0, 1, 0, 0, 0, 60, 0, 4] @ be_bytes my_ip) ! j"
    unfolding A_def [symmetric] by (simp add: r c_def h8_wbytes lA)
qed

text \<open>C18: The resolver understands the server: whatever the name, its query is answered by the server with
  the server's own address, and the resolver takes exactly that address from the answer.\<close>

theorem dns_answer_is_understood:
  assumes ls: "dotted ls \<noteq> []" "\<forall>l \<in> set ls. 46 \<notin> set l \<and> l \<noteq> [] \<and> length l < 256" "length (dns_name ls) \<le> 255"
    and q: "dns_query_packet qid (dotted ls) p = Some q"
    and pay: "payload resp + 300 \<le> PBUF_SIZE" and s: "dns_pending_id s = qid"
  shows "let k = dnsd_q_end q 12; r = dnsd_reply q (k + 1 + 4 - 12) my_ip resp
    in ntohs (h16 q 2) AND 0xF800 = 0 \<and> ntohs (h16 q 4) = 1 \<and> h8 q k = 0 \<and>
       dns_input r s = Some (pbuf_free resp (s\<lparr>dns_last_ip := my_ip, dns_got_reply := True\<rparr>))"
proof -
  let ?n = "length (dns_name ls)"
  have nd: "\<forall>l \<in> set ls. 46 \<notin> set l" and lb: "\<forall>l \<in> set ls. l \<noteq> [] \<and> length l < 256" using ls(2) by auto
  from dns_query_bytes [OF ls(1) nd, of qid p] q have Q: "plen q = of_nat (12 + ?n + 4)"
    "h16 q 0 = htons qid" "h16 q 2 = htons 0x0100" "h16 q 4 = htons 1" "\<And>j. j < ?n \<Longrightarrow> h8 q (12 + j) = dns_name ls ! j"
    by (metis option.inject)+
  have n0: "0 < ?n" by (simp add: dns_name_def)
  have "unat (plen q) = 12 + ?n + 4" unfolding Q using ls(3) by (simp add: unat_of_nat del: of_nat_add of_nat_numeral)
  then have e: "dnsd_q_end q 12 = 12 + (?n - 1) \<and> h8 q (12 + (?n - 1)) = 0"
    using dnsd_q_end_labels [OF lb, of 12 q] Q(5) by simp
  then have len: "dnsd_q_end q 12 + 1 + 4 - 12 = ?n + 4" using n0 by simp
  define r where "r = dnsd_reply q (?n + 4) my_ip resp"
  note R = dnsd_reply_bytes [where q = q and n = "?n + 4" and my_ip = my_ip and p = resp, folded r_def]
  have pl: "payload r + 300 \<le> PBUF_SIZE" using pay by (simp add: R)
  have "unat (plen r) = 12 + (?n + 4) + 16"
    unfolding R using ls(3) by (simp add: unat_ucast_up unat_of_nat del: of_nat_add of_nat_numeral)
  then have long: "\<not> plen r < 12" by (simp add: word_less_nat_alt)
  have nm: "h8 r (12 + j) = dns_name ls ! j" if "j < ?n" for j using R(9) [of j] Q(5) [OF that] that by simp
  have "dns_skip r 12 = Some (12 + (?n - 1))"
    by (rule dns_skip_labels [OF lb]) (use pl ls(3) nm in simp_all)
  then have qs: "dns_questions 1 r 12 = Some (16 + ?n)" using n0 by simp
  define K where "K = 16 + ?n"
  have a: "h8 r (K + j) = ([0xC0, 0x0C, 0, 1, 0, 1, 0, 0, 0, 60, 0, 4] @ be_bytes my_ip) ! j" if "j < 16" for j
    using R(10) [OF that] unfolding K_def by (simp add: add.commute add.left_commute)
  have h: "h8 r K = 0xC0" "h8 r (K + 2) = 0" "h8 r (K + 2 + 1) = 1" "h8 r (K + 2 + 8) = 0" "h8 r (K + 2 + 8 + 1) = 4"
    using a [of 0] a [of 2] a [of 3] a [of 10] a [of 11] unfolding add.assoc by simp_all
  have inside: "payload r + (K + 2 + 10 + 3) < PBUF_SIZE" using pl ls(3) by (simp add: K_def)
  have f0: "dns_skip_name r K = Some (K + 2)" using h(1) inside by (simp add: dns_skip_name_def rd8_def)
  have f1: "rd16 r (K + 2) = Some 1" using inside unfolding rd16_def ntohs_h16 h by simp
  have f2: "\<exists>c. rd16 r (K + 2 + 2) = Some c" using inside by (simp add: rd16_def)
  have f3: "rd16 r (K + 2 + 8) = Some 4" using inside unfolding rd16_def ntohs_h16 h by simp
  have "ntohl (h32 r (K + 2 + 10)) = my_ip"
  proof (rule be_field)
    fix i :: nat assume "i < 4"
    moreover have "K + 2 + 10 + i = K + (12 + i)" by simp
    ultimately show "h8 r (K + 2 + 10 + i) = be_bytes my_ip ! i" using a [of "12 + i"] by (simp only:) (simp add: nth_append)
  qed
  then have f4: "rd32 r (K + 2 + 10) = Some my_ip" using inside by (simp add: rd32_def)
  from f2 obtain c where f2: "rd16 r (K + 2 + 2) = Some c" by blast
  have "dns_answers 1 r (16 + ?n) s = Some (s\<lparr>dns_last_ip := my_ip, dns_got_reply := True\<rparr>)"
    unfolding K_def [symmetric] One_nat_def dns_answers.simps f0 f1 f2 f3 f4 Option.bind.bind_lunit by simp
  then have "dns_input r s = Some (pbuf_free resp (s\<lparr>dns_last_ip := my_ip, dns_got_reply := True\<rparr>))"
    using qs long R(5-8) Q(2) s by (simp add: dns_input_def wire pbuf_free_def R(2,3))
  then show ?thesis using e Q unfolding Let_def len r_def by (simp add: wire)
qed

section \<open>Packet buffers\<close>

lemma dns_answers_bufs: "dns_answers n p k s = Some t \<Longrightarrow> same_bufs s t"
proof (induction n arbitrary: k s)
  case (Suc n)
  have "same_bufs s (s\<lparr>dns_last_ip := a, dns_got_reply := True\<rparr>)" for a by (simp add: same_bufs_def)
  with Suc show ?case
    by (auto simp: Option.bind_eq_Some_conv split: if_splits intro: same_bufs_trans)
qed simp

lemma dns_input_consumes: "consumes dns_input"
  unfolding consumes_def
proof (intro allI impI)
  fix p :: pbuf and s s' :: "'a snet_scheme" assume o: "owned p s" and r: "dns_input p s = Some s'"
  from r show "released p s s'"
    by (auto simp: dns_input_def Option.bind_eq_Some_conv intro: release_free [OF o _ refl refl] same_bufs_refl
        dest: dns_answers_bufs split: if_splits)
qed

text \<open>The server keeps every query it is given; its answer it hands over to \<open>udp_output\<close>.\<close>

lemma dnsd_keeps_packet:
  assumes out: "sends out" and o: "owned p s" and r: "dnsd_handle_packet out p src sp dp s = Some t"
  shows "pid p \<in> live t \<and> bad_free t = bad_free s"
proof (cases "pbuf_alloc s")
  case (Pair a u)
  note i = o [unfolded owned_def]
  show ?thesis
  proof (cases a)
    case None
    with r Pair pbuf_alloc_None [of s u] i show ?thesis
      by (auto simp: dnsd_handle_packet_def same_bufs_def split: if_splits)
  next
    case (Some b)
    note al = pbuf_alloc_release [OF conjunct1 [OF i] Pair [unfolded Some]]
    define q where "q = dnsd_reply p (dnsd_q_end p 12 + 1 + 4 - 12) (arp_get_ajos_ip u) b"
    have qb: "pid q = pid b" "nexts q = nexts b" by (simp_all add: q_def dnsd_reply_def Let_def)
    have q: "owned q u" using al(1) owned_cong [OF qb, of u] by simp
    from r consider "t = s" | "t = pbuf_free b u"
      | x v where "udp_output out q src 53 sp u = Some (x, v)" "t = v\<lparr>dns_queries_handled := dns_queries_handled v + 1\<rparr>"
      by (auto simp: dnsd_handle_packet_def Pair Some Let_def q_def split: if_splits)
    then have "same_bufs s t"
    proof cases
      case 2 then show ?thesis using al(2) [of b t] pbuf_free_released [OF al(1)] by simp
    next
      case (3 x v)
      have "same_bufs s v" using al(2) [OF qb(1)] udp_output_sends [OF out q 3(1)] by simp
      then show ?thesis by (simp add: 3(2) same_bufs_def)
    qed simp
    with i show ?thesis by (simp add: same_bufs_def)
  qed
qed

section \<open>Examples\<close>

text \<open>The query for \<open>aj.os\<close>.\<close>

theorem dns_answer_is_understood_witness:
  "\<exists>q. dns_query_packet 7 [97, 106, 46, 111, 115] (pbuf_with []) = Some q \<and>
     dns_input (dnsd_reply q (dnsd_q_end q 12 + 1 + 4 - 12) 0x0A00020F (pbuf_with [])) (server_machine\<lparr>dns_pending_id := 7\<rparr>) =
       Some (pbuf_free (pbuf_with []) (server_machine\<lparr>dns_pending_id := 7, dns_last_ip := 0x0A00020F, dns_got_reply := True\<rparr>))"
proof -
  let ?ls = "[[97, 106], [111, 115]] :: u8 list list"
  have d: "dotted ?ls = [97, 106, 46, 111, 115]" by simp
  obtain q where q: "dns_query_packet 7 (dotted ?ls) (pbuf_with []) = Some q"
    using dns_query_bytes [of ?ls 7 "pbuf_with []"] by auto
  have "length (dns_name ?ls) \<le> 255" by simp
  with dns_answer_is_understood [where ls = ?ls and qid = 7 and p = "pbuf_with []" and q = q and
      resp = "pbuf_with []" and s = "server_machine\<lparr>dns_pending_id := 7\<rparr>" and my_ip = "0x0A00020F"] q
  show ?thesis by (simp add: d Let_def pbuf_with_def PBUF_SIZE_def PBUF_HEADROOM_def)
qed

text \<open>An answer that counts a question but ends after its header: the resolver runs through the memory
  behind it and out of the buffer.\<close>

definition truncated_answer :: pbuf where
  "truncated_answer = (pbuf_with [0, 7, 0x80, 0, 0, 1, 0, 0, 0, 0, 0, 0])\<lparr>buf :=
     set_bytes PBUF_HEADROOM [0, 7, 0x80, 0, 0, 1, 0, 0, 0, 0, 0, 0] (\<lambda>_. 255)\<rparr>"

lemma dns_input_leaves_buffer: "dns_input truncated_answer (server_machine\<lparr>dns_pending_id := 7\<rparr>) = None"
  by code_simp

text \<open>The resolver takes an answer it never asked for: with no query sent, the pending identifier is 0.\<close>

definition unsolicited_answer :: pbuf where
  "unsolicited_answer = pbuf_with ([0, 0, 0x80, 0, 0, 0, 0, 1, 0, 0, 0, 0] @ [0xC0, 12, 0, 1, 0, 1, 0, 0, 0, 0, 0, 4, 6, 6, 6, 6])"

lemma dns_accepts_unsolicited:
  "map_option dns_last_ip (dns_input unsolicited_answer server_machine) = Some 0x06060606"
  by code_simp

end
