(* ===== verification/Servers.thy ===== *)
theory Servers
  imports Dns
begin

text \<open>
  The stack with the servers that \<open>udp_input\<close> calls: DHCP client and server, DNS resolver and server, and
  TCP. Shown for all of them together, through any depth of loopback: no lease of the DHCP server is ever
  changed or given to a second client.
\<close>

definition with_servers :: "('z snet_scheme outfn \<Rightarrow> 'z snet_scheme apps) \<Rightarrow> 'z snet_scheme outfn \<Rightarrow> 'z snet_scheme handlers" where
  "with_servers A out = \<lparr>dhcp_input_h = dhcp_input out, dhcpd_handle_h = dhcpd_handle_packet out,
     dnsd_handle_h = dnsd_handle_packet out, dns_input_h = dns_input, tcp_input_h = tcp_input (A out) out\<rparr>"

definition dhcp_ok :: "'z snet_scheme \<Rightarrow> bool" where
  "dhcp_ok s \<longleftrightarrow> leases_ok (dhcp_leases s) \<and> pool_ok (dhcp_conf s)"

definition leases_grow :: "'z snet_scheme \<Rightarrow> 'z snet_scheme \<Rightarrow> bool" where
  "leases_grow s t \<longleftrightarrow> (dhcp_ok s \<longrightarrow> dhcp_ok t \<and> leases_kept (dhcp_leases s) (dhcp_leases t))"

definition out_grows :: "'z snet_scheme outfn \<Rightarrow> bool" where
  "out_grows out \<longleftrightarrow> (\<forall>p d pr s. after_pair leases_grow s (out p d pr s))"

lemma leases_grow_frame: "dhcp_leases t = dhcp_leases s \<Longrightarrow> dhcp_conf t = dhcp_conf s \<Longrightarrow> leases_grow s t"
  by (simp add: leases_grow_def dhcp_ok_def leases_kept_refl)

lemma leases_more: "net.more t = net.more s \<Longrightarrow> dhcp_leases t = dhcp_leases s \<and> dhcp_conf t = dhcp_conf s"
  by (cases s; cases t) simp

lemma leases_grow_more: "net.more t = net.more s \<Longrightarrow> leases_grow s t"
  using leases_grow_frame leases_more by blast

lemma leases_grow_trans: "leases_grow s t \<Longrightarrow> leases_grow t u \<Longrightarrow> leases_grow s u"
  unfolding leases_grow_def using leases_kept_trans by blast

interpretation servers_stack: stack_keeps leases_grow
  by unfold_locales (blast intro: leases_grow_more leases_grow_trans)+

interpretation servers_tcp: tcp_keeps_all leases_grow "\<lambda>_ _. True" out_grows
proof
  fix s t u :: "'z snet_scheme"
  show "leases_grow s s" by (simp add: leases_grow_frame)
  show "leases_grow s t \<Longrightarrow> leases_grow t u \<Longrightarrow> leases_grow s u" by (rule leases_grow_trans)
  show "leases_grow s (pcb_upd i f s)" for i f by (simp add: leases_grow_frame pcb_upd_def)
  show "leases_grow s (s\<lparr>tcp_local_port_next := n\<rparr>)" for n by (simp add: leases_grow_frame)
  show "leases_grow s (snd (arp_query a s))" for a by (rule leases_grow_more) simp
  show "pbuf_alloc s = (None, t) \<Longrightarrow> leases_grow s t" by (intro leases_grow_more net_more_alloc)
  fix out :: "'z snet_scheme outfn" and p q d pr r
  assume a: "out_grows out" "pbuf_alloc s = (Some p, t)" "out q d pr t = Some (r, u)"
  have "leases_grow s t" using a(2) by (intro leases_grow_more net_more_alloc)
  moreover have "leases_grow t u" using a(1,3) unfolding out_grows_def after_pair_def by blast
  ultimately show "leases_grow s u" by (rule leases_grow_trans)
qed simp_all

section \<open>Every server\<close>

lemma after_grow: "leases_grow s t \<Longrightarrow> after leases_grow t m \<Longrightarrow> after leases_grow s m"
  unfolding after_def using leases_grow_trans by blast

lemma after_grow_map: "after_pair leases_grow t m \<Longrightarrow> leases_grow s t \<Longrightarrow> (\<And>r u. leases_grow u (f (r, u))) \<Longrightarrow>
    after leases_grow s (map_option f m)"
  by (auto simp: after_def after_pair_def) (metis leases_grow_trans)

lemma grow_free: "leases_grow s t \<Longrightarrow> leases_grow s (pbuf_free p t)"
  using leases_grow_trans leases_grow_more [OF net_more(2)] by blast

lemma grow_alloc: "pbuf_alloc s = (a, t) \<Longrightarrow> leases_grow s t"
  using net_more_alloc leases_grow_more by blast

lemma udp_output_grows: "out_grows out \<Longrightarrow> after_pair leases_grow s (udp_output out p d a b s)"
  by (auto simp: udp_output_def Let_def out_grows_def intro!: after_pair_rules(1) leases_grow_more split: option.split)

lemma send_request_grows:
  assumes "out_grows out" shows "after_pair leases_grow s (dhcp_send_request out a b d s)"
proof (cases "pbuf_alloc s")
  case (Pair x u)
  note u = grow_alloc [OF Pair]
  show ?thesis
    by (auto simp: dhcp_send_request_def Pair split: option.split
        intro: after_pair_rules(1) u servers_tcp.after_pair_trans [OF u udp_output_grows [OF assms]])
qed

lemma route_grows [simp]: "leases_grow s t \<Longrightarrow> leases_grow s (dhcp_set_route m r t)"
  by (erule leases_grow_trans)
    (simp add: leases_grow_frame dhcp_set_route_def Let_def ip4_set_netmask_def ip4_set_netmask_ip_def
      ip4_set_gateway_def ip4_set_gateway_ip_def)

lemma dhcp_input_grows:
  assumes out: "out_grows out" shows "after leases_grow s (dhcp_input out p src dst s)"
proof -
  have offer: "after leases_grow s (dhcp_on_offer out p sid a t)" if "leases_grow s t" for s t :: "'a snet_scheme" and sid a
  proof -
    define u where "u = dhcp_set_route (od_mask a) (od_router a)
      (t\<lparr>dhcp_got_offer := True, dhcp_offered_ip := ntohl (h32 p 16), dhcp_server_ip := sid\<rparr>)"
    have "leases_grow t (t\<lparr>dhcp_got_offer := True, dhcp_offered_ip := ntohl (h32 p 16), dhcp_server_ip := sid\<rparr>)"
      by (simp add: leases_grow_frame)
    then have u: "leases_grow s u" unfolding u_def using that leases_grow_trans route_grows by blast
    have "after leases_grow u (if sid \<noteq> 0 \<and> sid \<noteq> 0xFFFFFFFF
         then map_option snd (dhcp_send_request out (ntohl (h32 p 16)) sid sid v) else Some v)" if "leases_grow u v" for v
      using that by (intro after_if after_grow [OF that] after_rules(4) send_request_grows out after_rules(1))
        (simp_all add: leases_grow_frame)
    then have "after leases_grow u (dhcp_on_offer out p sid a t)"
      unfolding dhcp_on_offer_def Let_def u_def [symmetric]
      by (intro after_rules(3) [OF send_request_grows [OF out]])
    with u show ?thesis by (rule after_grow)
  qed
  have ack: "leases_grow t (dhcp_on_ack p a t)" for t :: "'a snet_scheme" and a
    by (simp add: dhcp_on_ack_def Let_def leases_grow_frame arp_set_ajos_ip_def dhcp_set_route_def ip4_set_netmask_def
        ip4_set_netmask_ip_def ip4_set_gateway_def ip4_set_gateway_ip_def)
  have dns: "leases_grow s (s\<lparr>dns_server := x\<rparr>)" for x by (simp add: leases_grow_frame)
  have free: "after leases_grow s (map_option (pbuf_free p) m)" if "after leases_grow s m" for m
    using that grow_free by (fastforce simp: after_def)
  show ?thesis
    unfolding dhcp_input_def Let_def
    by (intro after_if free offer dns after_rules(1) grow_free leases_grow_trans [OF dns ack])
      (simp_all add: leases_grow_frame)
qed

lemma find_lease_grows: "leases_grow s (snd (dhcpd_find_lease mac s))"
  using find_lease_ok(1,2) [of "dhcp_conf s" "dhcp_leases s" mac "fst (find_lease (dhcp_conf s) mac (dhcp_leases s))"
    "snd (find_lease (dhcp_conf s) mac (dhcp_leases s))"]
  by (auto simp: leases_grow_def dhcp_ok_def dhcpd_find_lease_def split_beta)

lemma send_reply_grows:
  assumes out: "out_grows out" shows "after leases_grow s (dhcpd_send_reply out req type l s)"
proof (cases "pbuf_alloc s")
  case (Pair a u)
  have "leases_grow s u" using grow_alloc [OF Pair] .
  moreover have "leases_grow v (case (r, v) of (_, s) \<Rightarrow> pbuf_free p s)" for r :: int and v and p
    by (simp add: leases_grow_more)
  ultimately show ?thesis
    by (auto simp: dhcpd_send_reply_def Pair Let_def split: option.split intro!: after_rules(1)
        after_grow_map [OF udp_output_grows [OF out]])
qed

lemma dhcpd_grows:
  assumes out: "out_grows out" shows "after leases_grow s (dhcpd_handle_packet out p s)"
proof -
  have a: "after leases_grow s (dhcpd_answer out p type s)" for type
  proof (cases "dhcpd_find_lease (hbytes p 28 6) s")
    case (Pair i u)
    have u: "leases_grow s u" using find_lease_grows [of s "hbytes p 28 6"] by (simp add: Pair)
    show ?thesis
      by (auto simp: dhcpd_answer_def Pair split: option.split intro: after_rules(1) u after_grow [OF u send_reply_grows [OF out]])
  qed
  show ?thesis
    unfolding dhcpd_handle_packet_def Let_def by (intro after_if a after_rules(1)) (simp_all add: leases_grow_frame)
qed

lemma dnsd_grows:
  assumes out: "out_grows out" shows "after leases_grow s (dnsd_handle_packet out p a b c s)"
proof (cases "pbuf_alloc s")
  case (Pair x u)
  have u: "leases_grow s u" using grow_alloc [OF Pair] .
  moreover have "leases_grow v (case (r, v) of (_, s) \<Rightarrow> s\<lparr>dns_queries_handled := dns_queries_handled s + 1\<rparr>)"
    for r :: int and v by (simp add: leases_grow_frame)
  ultimately have "after leases_grow s (map_option (\<lambda>(_, s). s\<lparr>dns_queries_handled := dns_queries_handled s + 1\<rparr>)
      (udp_output out q d e f u))" for q d e f
    by (intro after_grow_map [OF udp_output_grows [OF out]])
  with u grow_free [OF u] show ?thesis
    unfolding dnsd_handle_packet_def Pair prod.case Let_def
    by (auto split: option.split intro: after_rules(1) simp: leases_grow_frame)
qed

lemma dns_input_grows: "after leases_grow s (dns_input p s)"
proof -
  have "after leases_grow s (dns_answers n p k s)" for n k and s :: "'a snet_scheme"
  proof (induction n arbitrary: k s)
    case (Suc n)
    have "leases_grow s (s\<lparr>dns_last_ip := a, dns_got_reply := True\<rparr>)" for a by (simp add: leases_grow_frame)
    note g = this
    have IH: "dns_answers n p k s = Some t \<Longrightarrow> leases_grow s t" for k t and s :: "'a snet_scheme"
      using Suc unfolding after_def by blast
    show ?case
      by (auto simp: after_def Option.bind_eq_Some_conv split: if_splits intro: IH leases_grow_trans [OF g IH])
  qed (simp add: after_def leases_grow_frame)
  then show ?thesis
    by (auto simp: dns_input_def after_def Option.bind_eq_Some_conv leases_grow_more intro!: grow_free split: if_splits)
qed

lemma servers_grow:
  assumes out: "\<And>p d pr s. after_pair leases_grow s (out p d pr s)" and A: "\<And>out. out_grows out \<Longrightarrow> apps_keep leases_grow (A out)"
  shows "handlers_keep leases_grow (with_servers A out)"
proof -
  have o: "out_grows out" using out by (simp add: out_grows_def)
  have "after leases_grow s (tcp_input (A out) out p a b s)" for p a b s
    using servers_tcp.input_keeps [OF o A [OF o], of p s a b] grow_free by (fastforce simp: freed_def after_def)
  then show ?thesis
    by (simp add: handlers_keep_def with_servers_def dhcp_input_grows dhcpd_grows dnsd_grows dns_input_grows o)
qed

section \<open>Runs\<close>

text \<open>What can happen to the machine: a frame arrives, the machine changes its address, starts its DHCP
  client, or anything else changes in the state below the servers and in the clock.\<close>

inductive server_step :: "nat \<Rightarrow> ('z snet_scheme outfn \<Rightarrow> 'z snet_scheme apps) \<Rightarrow> 'z snet_scheme \<Rightarrow> 'z snet_scheme \<Rightarrow> bool"
  for n A where
  frame: "ethernet_input (ip4_in n (with_servers A)) p s = Some t \<Longrightarrow> server_step n A s t"
| reinit: "server_step n A s (dhcpd_reinit s)"
| client: "dhcp_start (ip4_output (ip4_in n (with_servers A))) s = Some t \<Longrightarrow> server_step n A s t"
| below: "net.more t = net.more s \<Longrightarrow> server_step n A s t"

lemma pool_start:
  fixes a :: u32
  shows "((a AND 0xFFFFFF00) OR 50) AND 0xFF = 50" "((a AND 0xFFFFFF00) OR 50) AND 0xFFFFFF00 = a AND 0xFFFFFF00"
  by (rule low_octet(1) [OF _ masked_octet], simp) (simp add: bit.conj_disj_distrib2 and.assoc)

lemma server_step_grows:
  assumes "server_step n A s t" and A: "\<And>out. out_grows out \<Longrightarrow> apps_keep leases_grow (A out)"
  shows "leases_grow s t"
  using assms(1)
proof cases
  case (frame p)
  have "after leases_grow s (ethernet_input (ip4_in n (with_servers A)) p s)"
    by (rule servers_stack.ethernet_keeps, rule servers_stack.in_keeps) (rule servers_grow [OF _ A])
  with frame show ?thesis by (simp add: after_def)
next
  case reinit
  then show ?thesis
    by (simp add: leases_grow_def dhcp_ok_def dhcpd_reinit_def Let_def leases_kept_refl pool_ok_def pool_start)
next
  case client
  let ?out = "ip4_output (ip4_in n (with_servers A))"
  have out: "out_grows ?out"
    unfolding out_grows_def
    by (intro allI servers_stack.output_keeps servers_stack.in_keeps) (rule servers_grow [OF _ A])
  define u where "u = s\<lparr>dhcp_got_offer := False, dhcp_got_ack := False, dhcp_xid := xor (dhcp_xid s) (pit_ticks s) + 0x1020304\<rparr>"
  have u: "leases_grow s u" by (simp add: u_def leases_grow_frame)
  show ?thesis
  proof (cases "pbuf_alloc u")
    case (Pair x v)
    have v: "leases_grow s v" using leases_grow_trans [OF u grow_alloc [OF Pair]] .
    have "after leases_grow s (dhcp_start ?out s)"
      unfolding dhcp_start_def Let_def u_def [symmetric] Pair prod.case
      by (auto split: option.split intro: after_rules(1) v after_grow [OF v after_rules(4) [OF udp_output_grows [OF out]]])
    with client show ?thesis by (simp add: after_def)
  qed
next
  case below
  then show ?thesis by (rule leases_grow_more)
qed

lemma dhcpd_init_ok: "length (dhcp_leases s) = MAX_LEASES \<Longrightarrow> dhcp_ok (dhcpd_init s)"
  by (auto simp: dhcp_ok_def dhcpd_init_def Let_def leases_ok_def pool_ok_def pool_start intro!: slots_unique_all_unused)

text \<open>C16: Once the DHCP server is initialised, in any run of the whole stack a client keeps the address it was
  given, and no other client is ever given the same address, even when the machine moves to another subnet.\<close>

theorem dhcp_leases_never_clash:
  assumes A: "\<And>out. out_grows out \<Longrightarrow> apps_keep leases_grow (A out)" and s: "dhcp_ok s"
    and run: "(server_step n A)\<^sup>*\<^sup>* s t" and i: "i < MAX_LEASES" "dl_in_use (dhcp_leases s ! i)"
  shows "dhcp_leases t ! i = dhcp_leases s ! i \<and>
    (\<forall>j < MAX_LEASES. j \<noteq> i \<and> dl_in_use (dhcp_leases t ! j) \<longrightarrow>
       dl_mac (dhcp_leases t ! j) \<noteq> dl_mac (dhcp_leases s ! i) \<and> dl_ip (dhcp_leases t ! j) \<noteq> dl_ip (dhcp_leases s ! i))"
proof -
  have "leases_grow s t"
    using run
  proof induction
    case (step u v)
    have "leases_grow u v" by (rule server_step_grows [OF step(2) A])
    with step(3) show ?case by (rule leases_grow_trans)
  qed (simp add: leases_grow_frame)
  with s have t: "dhcp_ok t" "leases_kept (dhcp_leases s) (dhcp_leases t)" by (simp_all add: leases_grow_def)
  have e: "dhcp_leases t ! i = dhcp_leases s ! i"
    using t(2) i s by (simp add: leases_kept_def dhcp_ok_def leases_ok_def)
  have "leases_ok (dhcp_leases t)" using t(1) by (simp add: dhcp_ok_def)
  from leases_ok_distinct [OF this] i e show ?thesis by metis
qed

text \<open>Client 2:0:0:0:0:9 has a lease when the machine changes its address.\<close>

definition leased_machine :: snet where
  "leased_machine = snd (dhcpd_find_lease [2, 0, 0, 0, 0, 9] server_machine)"

theorem dhcp_leases_never_clash_witness:
  "dhcp_leases (dhcpd_reinit (leased_machine\<lparr>ajos_ip := [0xC0A80001, 0]\<rparr>)) ! 0 =
     no_lease\<lparr>dl_ip := 0x0A000232, dl_mac := [2, 0, 0, 0, 0, 9], dl_in_use := True\<rparr>"
proof -
  let ?u = "leased_machine\<lparr>ajos_ip := [0xC0A80001, 0]\<rparr>"
  let ?R = "server_step 1 (\<lambda>_. no_apps)"
  have "?R leased_machine ?u" by (rule server_step.below) simp
  then have "?R\<^sup>*\<^sup>* leased_machine ?u" by blast
  then have run: "?R\<^sup>*\<^sup>* leased_machine (dhcpd_reinit ?u)"
    by (rule rtranclp.rtrancl_into_rtrancl) (rule server_step.reinit)
  have "dhcp_ok server_machine"
    unfolding server_machine_def by (rule dhcpd_init_ok) (simp add: tnet.extend_def snet.fields_def)
  then have ok: "dhcp_ok leased_machine"
    using find_lease_grows [of server_machine] by (simp add: leases_grow_def leased_machine_def)
  have first: "dhcp_leases leased_machine ! 0 = no_lease\<lparr>dl_ip := 0x0A000232, dl_mac := [2, 0, 0, 0, 0, 9], dl_in_use := True\<rparr>"
    by code_simp
  have A: "apps_keep leases_grow no_apps" by (rule no_apps_keep) (simp add: leases_grow_frame)
  from dhcp_leases_never_clash [of "\<lambda>_. no_apps", OF A ok run, of 0] first show ?thesis
    by (simp add: MAX_LEASES_def)
qed

end
