(* ===== verification/Netdev.thy ===== *)
theory Netdev
  imports Prelude
begin

text \<open>
  The registry of network drivers and its polling loop (\<open>src/netdev.c\<close>). A driver is a pair of
  callbacks over the state \<open>'w\<close> of the world: whether it has work scheduled, and a poll that
  handles at most the given number of packets.
\<close>

section \<open>Registry\<close>

definition NETDEV_MAX :: int where "NETDEV_MAX = 4"

record 'w napi_entry =
  nd_name :: string
  nd_is_scheduled :: "('w \<Rightarrow> bool) option"
  nd_poll :: "int \<Rightarrow> 'w \<Rightarrow> int \<times> 'w"

text \<open>An empty slot has NULL callbacks and is never polled; it is \<open>None\<close>.\<close>

record 'w netdev =
  g_netdevs :: "'w napi_entry option list"
  g_netdev_count :: int
  napi_inited :: bool

definition netdev_napi_register :: "string \<Rightarrow> ('w \<Rightarrow> bool) option \<Rightarrow> (int \<Rightarrow> 'w \<Rightarrow> int \<times> 'w) option \<Rightarrow>
    'w netdev \<Rightarrow> bool \<times> 'w netdev" where
  "netdev_napi_register name is_sched poll d =
     (let d = (if napi_inited d then d
               else d\<lparr>napi_inited := True, g_netdev_count := 0, g_netdevs := replicate (nat NETDEV_MAX) None\<rparr>)
      in case poll of
           None \<Rightarrow> (False, d)
         | Some f \<Rightarrow>
             let d = (if g_netdev_count d < 0 \<or> g_netdev_count d \<ge> NETDEV_MAX
                      then d\<lparr>g_netdev_count := 0\<rparr> else d)
             in if g_netdev_count d \<ge> NETDEV_MAX then (False, d)
                else (True, d\<lparr>g_netdevs := (g_netdevs d)[nat (g_netdev_count d) :=
                              Some \<lparr>nd_name = name, nd_is_scheduled = is_sched, nd_poll = f\<rparr>],
                            g_netdev_count := g_netdev_count d + 1\<rparr>))"

text \<open>The entries the loops \<open>for (i = 0; i < g_netdev_count; i++)\<close> visit.\<close>

definition registered :: "'w netdev \<Rightarrow> 'w napi_entry list" where
  "registered d = List.map_filter id (take (nat (g_netdev_count d)) (g_netdevs d))"

definition nd_scheduled :: "'w \<Rightarrow> 'w napi_entry \<Rightarrow> bool" where
  "nd_scheduled w e = (case nd_is_scheduled e of None \<Rightarrow> False | Some f \<Rightarrow> f w)"

definition netdev_napi_any_scheduled :: "'w netdev \<Rightarrow> 'w \<Rightarrow> bool" where
  "netdev_napi_any_scheduled d w = list_ex (nd_scheduled w) (registered d)"

definition netdev_napi_registry_count :: "'w netdev \<Rightarrow> int" where
  "netdev_napi_registry_count d =
     (if g_netdev_count d < 0 \<or> g_netdev_count d > NETDEV_MAX then 0 else g_netdev_count d)"

section \<open>Polling\<close>

fun poll_scheduled :: "'w napi_entry list \<Rightarrow> int \<Rightarrow> int \<Rightarrow> 'w \<Rightarrow> int \<times> 'w" where
  "poll_scheduled [] remaining tot w = (tot, w)"
| "poll_scheduled (e # es) remaining tot w =
     (if \<not> remaining > 0 then (tot, w)
      else if nd_is_scheduled e \<noteq> None \<and> \<not> nd_scheduled w e then poll_scheduled es remaining tot w
      else let (got, w) = nd_poll e remaining w; got = (if got < 0 then 0 else got)
           in poll_scheduled es (remaining - got) (tot + got) w)"

fun poll_slices :: "'w napi_entry list \<Rightarrow> int \<Rightarrow> int \<Rightarrow> 'w \<Rightarrow> int \<times> 'w" where
  "poll_slices [] remaining tot w = (tot, w)"
| "poll_slices (e # es) remaining tot w =
     (if \<not> remaining > 0 then (tot, w)
      else let slice = (if remaining > 32 then 32 else remaining);
               (got, w) = nd_poll e slice w; got = (if got < 0 then 0 else got)
           in poll_slices es (remaining - got) (tot + got) w)"

definition netdev_napi_poll :: "'w netdev \<Rightarrow> int \<Rightarrow> 'w \<Rightarrow> int \<times> 'w" where
  "netdev_napi_poll d budget w =
     (if budget \<le> 0 then (0, w)
      else if g_netdev_count d \<le> 0 then (0, w)
      else if netdev_napi_any_scheduled d w then poll_scheduled (registered d) budget 0 w
      else poll_slices (registered d) budget 0 w)"

section \<open>The budget\<close>

text \<open>The contract of a driver: it handles at most as many packets as it is allowed.\<close>

definition within_budget :: "'w napi_entry \<Rightarrow> bool" where
  "within_budget e \<longleftrightarrow> (\<forall>n w. 0 < n \<longrightarrow> fst (nd_poll e n w) \<le> n)"

lemma poll_scheduled_budget:
  "\<forall>e \<in> set es. within_budget e \<Longrightarrow> 0 \<le> remaining \<Longrightarrow>
   tot \<le> fst (poll_scheduled es remaining tot w) \<and> fst (poll_scheduled es remaining tot w) \<le> tot + remaining"
proof (induction es arbitrary: remaining tot w)
  case (Cons e es)
  obtain g w' where g: "nd_poll e remaining w = (g, w')" by fastforce
  have le: "0 < remaining \<Longrightarrow> g \<le> remaining"
    using Cons.prems(1) g by (auto simp: within_budget_def dest!: spec [of _ remaining] spec [of _ w])
  show ?case
    using Cons.IH [of remaining tot w] Cons.IH [of "remaining - max 0 g" "tot + max 0 g" w'] Cons.prems le
    by (auto simp: g max_def)
qed simp

lemma poll_slices_budget:
  "\<forall>e \<in> set es. within_budget e \<Longrightarrow> 0 \<le> remaining \<Longrightarrow>
   tot \<le> fst (poll_slices es remaining tot w) \<and> fst (poll_slices es remaining tot w) \<le> tot + remaining"
proof (induction es arbitrary: remaining tot w)
  case (Cons e es)
  let ?n = "if remaining > 32 then 32 else remaining"
  obtain g w' where g: "nd_poll e ?n w = (g, w')" by fastforce
  have le: "0 < remaining \<Longrightarrow> g \<le> remaining"
    using Cons.prems(1) g by (auto simp: within_budget_def dest!: spec [of _ ?n] spec [of _ w] split: if_splits)
  show ?case
    using Cons.IH [of "remaining - max 0 g" "tot + max 0 g" w'] Cons.prems le
    by (auto simp: g max_def Let_def)
qed simp

section \<open>Properties\<close>

text \<open>One poll handles between 0 and \<open>budget\<close> packets in total, over all drivers, when every
  driver respects the limit it is given.\<close>

theorem netdev_poll_within_budget:
  assumes "\<forall>e \<in> set (registered d). within_budget e" "0 \<le> budget"
  shows "0 \<le> fst (netdev_napi_poll d budget w) \<and> fst (netdev_napi_poll d budget w) \<le> budget"
  using poll_scheduled_budget [OF assms, of 0 w] poll_slices_budget [OF assms, of 0 w] assms(2)
  by (auto simp: netdev_napi_poll_def)

definition nd_example :: "int netdev" where
  "nd_example = snd (netdev_napi_register ''e1000'' None (Some (\<lambda>n w. (min n w, w - min n w)))
     \<lparr>g_netdevs = [], g_netdev_count = 0, napi_inited = False\<rparr>)"

theorem netdev_poll_within_budget_witness:
  "fst (netdev_napi_poll nd_example 64 100) \<le> 64 \<and> fst (netdev_napi_poll nd_example 64 100) = 32"
proof -
  have r: "registered nd_example = [\<lparr>nd_name = ''e1000'', nd_is_scheduled = None, nd_poll = (\<lambda>n w. (min n w, w - min n w))\<rparr>]"
    by (simp add: nd_example_def netdev_napi_register_def registered_def NETDEV_MAX_def Let_def numeral_eq_Suc
        map_filter_def)
  have "\<forall>e \<in> set (registered nd_example). within_budget e" by (simp add: r within_budget_def)
  moreover have "fst (netdev_napi_poll nd_example 64 100) = 32"
    by (simp add: netdev_napi_poll_def r netdev_napi_any_scheduled_def nd_scheduled_def)
       (simp add: nd_example_def netdev_napi_register_def Let_def NETDEV_MAX_def)
  ultimately show ?thesis using netdev_poll_within_budget [of nd_example 64 100] by simp
qed

text \<open>Registering a fifth driver does not fail, as the check after it intends: the count is reset
  first, so the new driver replaces the first one and the other three are no longer polled.\<close>

lemma register_when_full_resets:
  assumes "napi_inited d" "g_netdev_count d = NETDEV_MAX"
  shows "netdev_napi_register n i (Some f) d =
    (True, d\<lparr>g_netdevs := (g_netdevs d)[0 := Some \<lparr>nd_name = n, nd_is_scheduled = i, nd_poll = f\<rparr>],
             g_netdev_count := 1\<rparr>)"
  using assms by (simp add: netdev_napi_register_def Let_def NETDEV_MAX_def)

end
