(* ===== verification/Ramfs.thy ===== *)
theory Ramfs
  imports KString
begin

text \<open>
  The in-memory file system (\<open>src/ramfs.c\<close>): a table of 256 file entries with a name buffer and
  an allocated data buffer. \<open>kmalloc\<close> is the parameter \<open>mal\<close>: for a size it gives a buffer with
  arbitrary contents, or nothing; what the code relies on is that a buffer has the size asked
  for. The abstract view \<open>ramfs_abs\<close> is a map from names to contents, and the operations refine
  the operations of the map.
\<close>

section \<open>State\<close>

definition RAMFS_MAX_FILES :: nat where "RAMFS_MAX_FILES = 256"
definition RAMFS_MAX_NAME_LEN :: nat where "RAMFS_MAX_NAME_LEN = 255"

record ramfs_file =
  rf_name :: "u8 list"
  rf_data :: "u8 list option"
  rf_size :: u32
  rf_capacity :: u32
  rf_mode :: u32
  rf_mtime :: u32
  rf_in_use :: bool

record ramfs_ctx =
  rf_files :: "ramfs_file list"
  rf_file_count :: u32
  rf_total_size :: u32

text \<open>\<open>blit bs b\<close>: \<open>bs\<close> copied to the start of the buffer \<open>b\<close>.\<close>

definition blit :: "u8 list \<Rightarrow> u8 list \<Rightarrow> u8 list" where
  "blit bs b = bs @ drop (length bs) b"

definition zero_file :: ramfs_file where
  "zero_file = \<lparr>rf_name = replicate 256 0, rf_data = None, rf_size = 0, rf_capacity = 0, rf_mode = 0,
     rf_mtime = 0, rf_in_use = False\<rparr>"

section \<open>Operations\<close>

definition ramfs_init :: "ramfs_ctx \<Rightarrow> ramfs_ctx" where
  "ramfs_init c = \<lparr>rf_files = replicate RAMFS_MAX_FILES zero_file, rf_file_count = 0, rf_total_size = 0\<rparr>"

text \<open>\<open>ramfs_deinit\<close> also returns the buffers it frees.\<close>

definition ramfs_deinit :: "ramfs_ctx \<Rightarrow> u8 list list \<times> ramfs_ctx" where
  "ramfs_deinit c =
     (List.map_filter (\<lambda>f. if rf_in_use f then rf_data f else None) (rf_files c),
      \<lparr>rf_files = replicate RAMFS_MAX_FILES zero_file, rf_file_count = 0, rf_total_size = 0\<rparr>)"

definition ramfs_find_file :: "ramfs_ctx \<Rightarrow> u8 list \<Rightarrow> nat option" where
  "ramfs_find_file c name = first_idx (\<lambda>f. rf_in_use f \<and> kstreq (rf_name f) name) (rf_files c)"

definition ramfs_find_free_slot :: "ramfs_ctx \<Rightarrow> nat option" where
  "ramfs_find_free_slot c = first_idx (\<lambda>f. \<not> rf_in_use f) (rf_files c)"

definition ramfs_create_file :: "malloc \<Rightarrow> u8 list \<Rightarrow> u8 list option \<Rightarrow> u32 \<Rightarrow> ramfs_ctx \<Rightarrow> bool \<times> ramfs_ctx" where
  "ramfs_create_file mal name data sz c =
     (case ramfs_find_file c name of
        Some _ \<Rightarrow> (False, c)
      | None \<Rightarrow>
          (case ramfs_find_free_slot c of
             None \<Rightarrow> (False, c)
           | Some i \<Rightarrow>
               let file = rf_files c ! i;
                   name_len = kstrlen name;
                   name_len = (if name_len > RAMFS_MAX_NAME_LEN then RAMFS_MAX_NAME_LEN else name_len);
                   file = file\<lparr>rf_name := blit (take name_len name @ [0]) (rf_name file)\<rparr>;
                   capacity = (if sz < 64 then 64 else sz);
                   file = file\<lparr>rf_data := mal capacity\<rparr>
               in case mal capacity of
                    None \<Rightarrow> (False, c\<lparr>rf_files := (rf_files c)[i := file]\<rparr>)
                  | Some b \<Rightarrow>
                      let b = (case data of
                                 Some d \<Rightarrow> if sz > 0 then blit (take (unat sz) d) b else b
                               | None \<Rightarrow> b);
                          file = file\<lparr>rf_data := Some b, rf_size := sz, rf_capacity := capacity,
                                      rf_mode := 420, rf_mtime := 0, rf_in_use := True\<rparr>
                      in (True, c\<lparr>rf_files := (rf_files c)[i := file], rf_file_count := rf_file_count c + 1,
                                  rf_total_size := rf_total_size c + sz\<rparr>)))"

definition ramfs_read_file :: "malloc \<Rightarrow> u8 list \<Rightarrow> ramfs_ctx \<Rightarrow> (u8 list \<times> u32) option" where
  "ramfs_read_file mal name c =
     (case ramfs_find_file c name of
        None \<Rightarrow> None
      | Some i \<Rightarrow>
          let file = rf_files c ! i
          in case mal (if rf_size file \<noteq> 0 then rf_size file else 1) of
               None \<Rightarrow> None
             | Some b \<Rightarrow>
                 let b = (case rf_data file of
                            Some d \<Rightarrow> if rf_size file > 0 then blit (take (unat (rf_size file)) d) b else b
                          | None \<Rightarrow> b)
                 in Some (b, rf_size file))"

definition ramfs_write_file :: "malloc \<Rightarrow> u8 list \<Rightarrow> u8 list \<Rightarrow> u32 \<Rightarrow> ramfs_ctx \<Rightarrow> bool \<times> ramfs_ctx" where
  "ramfs_write_file mal name data sz c =
     (case ramfs_find_file c name of
        None \<Rightarrow> ramfs_create_file mal name (Some data) sz c
      | Some i \<Rightarrow>
          let file = rf_files c ! i;
              tot = rf_total_size c - rf_size file + sz;
              finish = (\<lambda>d cap. (True,
                c\<lparr>rf_total_size := tot,
                  rf_files := (rf_files c)[i := file\<lparr>rf_data := Some (blit (take (unat sz) data) d), rf_capacity := cap,
                                                    rf_size := sz, rf_mtime := 0\<rparr>]\<rparr>))
          in if sz > rf_capacity file then
               case mal sz of
                 None \<Rightarrow> (False, c)
               | Some nd \<Rightarrow>
                   let nd = (case rf_data file of
                               Some d \<Rightarrow> if rf_size file > 0
                                         then blit (take (unat (if rf_size file < sz then rf_size file else sz)) d) nd
                                         else nd
                             | None \<Rightarrow> nd)
                   in finish nd sz
             else finish (case rf_data file of Some d \<Rightarrow> d | None \<Rightarrow> []) (rf_capacity file))"

definition ramfs_delete_file :: "u8 list \<Rightarrow> ramfs_ctx \<Rightarrow> bool \<times> ramfs_ctx" where
  "ramfs_delete_file name c =
     (case ramfs_find_file c name of
        None \<Rightarrow> (False, c)
      | Some i \<Rightarrow>
          (True, c\<lparr>rf_total_size := rf_total_size c - rf_size (rf_files c ! i), rf_file_count := rf_file_count c - 1,
                   rf_files := (rf_files c)[i := zero_file]\<rparr>))"

definition ramfs_file_exists :: "u8 list \<Rightarrow> ramfs_ctx \<Rightarrow> bool" where
  "ramfs_file_exists name c \<longleftrightarrow> ramfs_find_file c name \<noteq> None"

definition ramfs_get_file_size :: "u8 list \<Rightarrow> ramfs_ctx \<Rightarrow> u32 option" where
  "ramfs_get_file_size name c = map_option (\<lambda>i. rf_size (rf_files c ! i)) (ramfs_find_file c name)"

text \<open>The list of names; the two allocations (the array of pointers, then the block of
  characters) may fail.\<close>

definition ramfs_list_files :: "malloc \<Rightarrow> ramfs_ctx \<Rightarrow> u8 list list option" where
  "ramfs_list_files mal c =
     (let used = filter rf_in_use (rf_files c);
          count = length used;
          total_len = (\<Sum>f \<leftarrow> used. of_nat (kstrlen (rf_name f) + 1))
      in if count = 0 then Some []
         else if mal (of_nat count * 4) = None then None
         else if mal total_len = None then None
         else Some (map (\<lambda>f. take (kstrlen (rf_name f)) (rf_name f)) used))"

section \<open>Invariant and abstract view\<close>

abbreviation rf_key :: "ramfs_file \<Rightarrow> u8 list" where "rf_key f \<equiv> cstr (rf_name f)"

definition rf_find :: "ramfs_file list \<Rightarrow> u8 list \<Rightarrow> nat option" where
  "rf_find = scan_lookup rf_in_use rf_key"

interpretation rf: slot_table rf_in_use rf_key rf_find
  unfolding rf_find_def by (rule scan_lookup_slot_table)

lemma ramfs_find_file_key: "ramfs_find_file c name = rf_find (rf_files c) (cstr name)"
  by (simp add: ramfs_find_file_def rf_find_def scan_lookup_def kstreq_cstr)

definition rf_ok :: "ramfs_file \<Rightarrow> bool" where
  "rf_ok f \<longleftrightarrow> length (rf_name f) = 256 \<and>
     (rf_in_use f \<longrightarrow> (\<exists>d. rf_data f = Some d \<and> length d = unat (rf_capacity f) \<and> rf_size f \<le> rf_capacity f))"

definition ramfs_ok :: "ramfs_ctx \<Rightarrow> bool" where
  "ramfs_ok c \<longleftrightarrow> length (rf_files c) = RAMFS_MAX_FILES \<and> slots_unique rf_in_use rf_key (rf_files c) \<and>
     list_all rf_ok (rf_files c)"

definition rf_content :: "ramfs_file \<Rightarrow> u8 list" where
  "rf_content f = take (unat (rf_size f)) (case rf_data f of Some d \<Rightarrow> d | None \<Rightarrow> [])"

definition ramfs_abs :: "ramfs_ctx \<Rightarrow> u8 list \<rightharpoonup> u8 list" where
  "ramfs_abs c n = map_option (\<lambda>i. rf_content (rf_files c ! i)) (rf_find (rf_files c) n)"

definition malloc_ok :: "malloc \<Rightarrow> bool" where
  "malloc_ok mal \<longleftrightarrow> (\<forall>n b. mal n = Some b \<longrightarrow> length b = unat n)"

text \<open>The names the file system can hold: those that fit the name buffer.\<close>

definition name_fits :: "u8 list \<Rightarrow> bool" where
  "name_fits name \<longleftrightarrow> length (cstr name) \<le> RAMFS_MAX_NAME_LEN"

lemma rf_files_nth: "ramfs_ok c \<Longrightarrow> i < length (rf_files c) \<Longrightarrow> rf_ok (rf_files c ! i)"
  by (simp add: ramfs_ok_def list_all_length)

lemma length_blit: "length bs \<le> length b \<Longrightarrow> length (blit bs b) = length b"
  by (simp add: blit_def)

lemma take_blit: "take (length bs) (blit bs b) = bs"
  by (simp add: blit_def)

lemma take_kstrlen_cstr: "take (kstrlen s) s = cstr s"
  unfolding kstrlen_cstr cstr_def by (rule takeWhile_eq_take [symmetric])

lemma cstr_append_nul: "0 \<notin> set a \<Longrightarrow> cstr (a @ 0 # b) = a"
  by (induction a) (auto simp: cstr_def)

text \<open>Storing a file record for a name that no other slot holds.\<close>

lemma ramfs_store:
  assumes ok: "ramfs_ok c" and i: "i < length (rf_files c)"
    and f: "rf_ok f" "rf_in_use f"
    and own: "\<And>j. rf_find (rf_files c) (rf_key f) = Some j \<Longrightarrow> j = i"
    and old: "rf_in_use (rf_files c ! i) \<Longrightarrow> rf_key (rf_files c ! i) = rf_key f"
    and c': "rf_files c' = (rf_files c)[i := f]"
  shows "ramfs_ok c'" "ramfs_abs c' = (ramfs_abs c)(rf_key f \<mapsto> rf_content f)"
proof -
  from ok have u: "slots_unique rf_in_use rf_key (rf_files c)" by (simp add: ramfs_ok_def)
  have u': "slots_unique rf_in_use rf_key ((rf_files c)[i := f])" using u own by (rule rf.unique_store)
  have "list_all rf_ok ((rf_files c)[i := f])"
    using ok f(1) i by (auto simp: ramfs_ok_def list_all_iff dest!: set_update_subset_insert [THEN subsetD])
  with ok u' show "ramfs_ok c'" by (simp add: ramfs_ok_def c')
  have same: "rf_find ((rf_files c)[i := f]) (rf_key f) = Some i"
    using rf.lookup_store_same [OF u i f(2)] own by blast
  show "ramfs_abs c' = (ramfs_abs c)(rf_key f \<mapsto> rf_content f)"
  proof
    fix n
    show "ramfs_abs c' n = ((ramfs_abs c)(rf_key f \<mapsto> rf_content f)) n"
    proof (cases "n = rf_key f")
      case True
      with same i show ?thesis by (simp add: ramfs_abs_def c')
    next
      case False
      have "rf_find ((rf_files c)[i := f]) n = rf_find (rf_files c) n"
        by (rule rf.lookup_store_other [OF u f(2)]) (use own old False in auto)
      moreover have "rf_find (rf_files c) n \<noteq> Some i" using False old rf.lookup_Some by metis
      ultimately show ?thesis using False by (cases "rf_find (rf_files c) n") (auto simp: ramfs_abs_def c')
    qed
  qed
qed

lemma ramfs_clear:
  assumes ok: "ramfs_ok c" and f: "rf_ok f" "\<not> rf_in_use f"
    and c': "rf_files c' = (rf_files c)[i := f]"
  shows "ramfs_ok c'"
    and "rf_find (rf_files c) n = Some i \<Longrightarrow> ramfs_abs c' = (ramfs_abs c)(n := None)"
    and "i < length (rf_files c) \<Longrightarrow> \<not> rf_in_use (rf_files c ! i) \<Longrightarrow> ramfs_abs c' = ramfs_abs c"
proof -
  from ok have u: "slots_unique rf_in_use rf_key (rf_files c)" by (simp add: ramfs_ok_def)
  have "list_all rf_ok ((rf_files c)[i := f])"
    using ok f(1) by (auto simp: ramfs_ok_def list_all_iff dest!: set_update_subset_insert [THEN subsetD])
  with slots_unique_clear [OF u f(2)] ok show "ramfs_ok c'" by (simp add: ramfs_ok_def c')
  have other: "ramfs_abs c' m = ramfs_abs c m"
    if "\<And>i'. i' = i \<Longrightarrow> i < length (rf_files c) \<Longrightarrow> rf_in_use (rf_files c ! i) \<Longrightarrow> rf_key (rf_files c ! i) \<noteq> m" for m
  proof -
    have "rf_find ((rf_files c)[i := f]) m = rf_find (rf_files c) m"
      by (rule rf.lookup_clear_other [OF u f(2)]) (use that in auto)
    moreover have "rf_find (rf_files c) m \<noteq> Some i" using that rf.lookup_Some by metis
    ultimately show ?thesis by (cases "rf_find (rf_files c) m") (auto simp: ramfs_abs_def c')
  qed
  show "ramfs_abs c' = (ramfs_abs c)(n := None)" if n: "rf_find (rf_files c) n = Some i"
  proof
    fix m
    show "ramfs_abs c' m = ((ramfs_abs c)(n := None)) m"
    proof (cases "m = n")
      case True
      with rf.lookup_clear_same [OF u f(2) n] show ?thesis by (simp add: ramfs_abs_def c')
    next
      case False
      with rf.lookup_Some [OF n] show ?thesis by (simp add: other)
    qed
  qed
  show "ramfs_abs c' = ramfs_abs c" if "i < length (rf_files c)" "\<not> rf_in_use (rf_files c ! i)"
    using other that by (auto simp: fun_eq_iff)
qed

lemma name_buffer:
  assumes "name_fits name" "length b = 256"
  defines "n \<equiv> (if kstrlen name > RAMFS_MAX_NAME_LEN then RAMFS_MAX_NAME_LEN else kstrlen name)"
  shows "cstr (blit (take n name @ [0]) b) = cstr name" "length (blit (take n name @ [0]) b) = 256"
proof -
  have n: "take n name = cstr name"
    using assms(1) take_kstrlen_cstr [of name] by (simp add: n_def name_fits_def kstrlen_cstr)
  show "cstr (blit (take n name @ [0]) b) = cstr name"
    using cstr_append_nul [OF cstr_no_nul] by (simp add: n blit_def)
  show "length (blit (take n name @ [0]) b) = 256"
    using assms(1,2) by (subst length_blit) (auto simp: n name_fits_def RAMFS_MAX_NAME_LEN_def)
qed

lemma take_blit_take: "n \<le> length d \<Longrightarrow> take n (blit (take n d) b) = take n d"
  using take_blit [of "take n d" b] by simp

text \<open>The record a successful creation puts into the free slot \<open>i\<close>.\<close>

definition rf_new :: "u8 list \<Rightarrow> u8 list option \<Rightarrow> u32 \<Rightarrow> u8 list \<Rightarrow> ramfs_file \<Rightarrow> ramfs_file" where
  "rf_new name data sz b f = f\<lparr>
     rf_name := blit (take (if kstrlen name > RAMFS_MAX_NAME_LEN then RAMFS_MAX_NAME_LEN else kstrlen name) name @ [0])
       (rf_name f),
     rf_data := Some (case data of Some d \<Rightarrow> if sz > 0 then blit (take (unat sz) d) b else b | None \<Rightarrow> b),
     rf_size := sz, rf_capacity := (if sz < 64 then 64 else sz), rf_mode := 420, rf_mtime := 0, rf_in_use := True\<rparr>"

definition data_fits :: "u8 list option \<Rightarrow> u32 \<Rightarrow> bool" where
  "data_fits data sz \<longleftrightarrow> (case data of Some d \<Rightarrow> unat sz \<le> length d | None \<Rightarrow> sz = 0)"

definition new_content :: "u8 list option \<Rightarrow> u32 \<Rightarrow> u8 list" where
  "new_content data sz = (case data of Some d \<Rightarrow> take (unat sz) d | None \<Rightarrow> [])"

lemma rf_new_ok:
  assumes name: "name_fits name" and f: "length (rf_name f) = 256" and d: "data_fits data sz"
    and b: "length b = unat (if sz < 64 then 64 else sz)"
  shows "rf_ok (rf_new name data sz b f)" "rf_key (rf_new name data sz b f) = cstr name"
    "rf_content (rf_new name data sz b f) = new_content data sz" "rf_in_use (rf_new name data sz b f)"
proof -
  note nb = name_buffer [OF name f]
  have cap: "sz \<le> (if sz < 64 then 64 else sz)" "unat sz \<le> length b"
    by (auto simp: b word_le_nat_alt word_less_nat_alt)
  show "rf_key (rf_new name data sz b f) = cstr name" "rf_in_use (rf_new name data sz b f)"
    using nb(1) by (simp_all add: rf_new_def)
  show "rf_ok (rf_new name data sz b f)"
    using nb(2) cap d b by (auto simp: rf_ok_def rf_new_def data_fits_def length_blit split: option.splits)
  show "rf_content (rf_new name data sz b f) = new_content data sz"
    using d by (auto simp: rf_content_def rf_new_def data_fits_def new_content_def take_blit_take word_gt_0
        split: option.splits)
qed

lemma ramfs_create_cases:
  obtains "ramfs_create_file mal name data sz c = (False, c)"
  | i nm where "ramfs_create_file mal name data sz c = (False, c\<lparr>rf_files := (rf_files c)[i := (rf_files c ! i)\<lparr>rf_name := nm, rf_data := None\<rparr>]\<rparr>)"
      "i < length (rf_files c)" "\<not> rf_in_use (rf_files c ! i)"
      "nm = rf_name (rf_new name data sz [] (rf_files c ! i))"
  | i b where "ramfs_create_file mal name data sz c =
        (True, c\<lparr>rf_files := (rf_files c)[i := rf_new name data sz b (rf_files c ! i)],
                 rf_file_count := rf_file_count c + 1, rf_total_size := rf_total_size c + sz\<rparr>)"
      "i < length (rf_files c)" "\<not> rf_in_use (rf_files c ! i)" "mal (if sz < 64 then 64 else sz) = Some b"
      "rf_find (rf_files c) (cstr name) = None"
proof (cases "ramfs_find_file c name")
  case (Some j)
  then show ?thesis by (intro that(1)) (simp add: ramfs_create_file_def)
next
  case none: None
  show ?thesis
  proof (cases "ramfs_find_free_slot c")
    case None
    with none show ?thesis by (intro that(1)) (simp add: ramfs_create_file_def)
  next
    case (Some i)
    then have i: "i < length (rf_files c)" "\<not> rf_in_use (rf_files c ! i)"
      by (auto simp: ramfs_find_free_slot_def dest: first_idx_facts)
    show ?thesis
    proof (cases "mal (if sz < 64 then 64 else sz)")
      case None
      with none Some i show ?thesis by (intro that(2) [of i]) (simp_all add: ramfs_create_file_def Let_def rf_new_def)
    next
      case b: (Some b)
      with none Some i show ?thesis
        by (intro that(3) [of i b]) (simp_all add: ramfs_create_file_def Let_def rf_new_def ramfs_find_file_key)
    qed
  qed
qed

lemma ramfs_create_refines:
  assumes ok: "ramfs_ok c" and mal: "malloc_ok mal" and name: "name_fits name" and data: "data_fits data sz"
    and r: "ramfs_create_file mal name data sz c = (done', c')"
  shows "ramfs_ok c' \<and> (if done' then ramfs_abs c (cstr name) = None \<and>
       ramfs_abs c' = (ramfs_abs c)(cstr name \<mapsto> new_content data sz) else ramfs_abs c' = ramfs_abs c)"
proof (cases rule: ramfs_create_cases [of mal name data sz c])
  case 1
  with r ok show ?thesis by simp
next
  case (2 i nm)
  let ?f = "(rf_files c ! i)\<lparr>rf_name := nm, rf_data := None\<rparr>"
  have c': "\<not> done'" "rf_files c' = (rf_files c)[i := ?f]" using r 2(1) by auto
  have "length (rf_name (rf_files c ! i)) = 256" using rf_files_nth [OF ok 2(2)] by (simp add: rf_ok_def)
  from name_buffer(2) [OF name this] have f: "rf_ok ?f" "\<not> rf_in_use ?f"
    using 2(3,4) by (simp_all add: rf_ok_def rf_new_def)
  from ramfs_clear(1) [OF ok f c'(2)] ramfs_clear(3) [OF ok f c'(2) 2(2,3)] c'(1) show ?thesis by simp
next
  case (3 i b)
  let ?f = "rf_new name data sz b (rf_files c ! i)"
  have c': "done'" "rf_files c' = (rf_files c)[i := ?f]" using r 3(1) by auto
  have "length b = unat (if sz < 64 then 64 else sz)" using mal 3(4) by (simp add: malloc_ok_def)
  moreover have "length (rf_name (rf_files c ! i)) = 256" using rf_files_nth [OF ok 3(2)] by (simp add: rf_ok_def)
  ultimately have f: "rf_ok ?f" "rf_key ?f = cstr name" "rf_content ?f = new_content data sz" "rf_in_use ?f"
    using rf_new_ok [OF name _ data] by blast+
  have own: "\<And>j. rf_find (rf_files c) (rf_key ?f) = Some j \<Longrightarrow> j = i" using 3(5) f(2) by simp
  have old: "rf_in_use (rf_files c ! i) \<Longrightarrow> rf_key (rf_files c ! i) = rf_key ?f" using 3(3) by simp
  note st = ramfs_store [OF ok 3(2) f(1,4) own old c'(2)]
  from st c'(1) f 3(5) show ?thesis by (simp add: ramfs_abs_def)
qed

lemma ramfs_write_refines:
  assumes ok: "ramfs_ok c" and mal: "malloc_ok mal" and name: "name_fits name" and data: "unat sz \<le> length data"
    and r: "ramfs_write_file mal name data sz c = (done', c')"
  shows "ramfs_ok c' \<and> ramfs_abs c' = (if done' then (ramfs_abs c)(cstr name \<mapsto> take (unat sz) data) else ramfs_abs c)"
proof (cases "ramfs_find_file c name")
  case None
  then have "ramfs_create_file mal name (Some data) sz c = (done', c')" using r by (simp add: ramfs_write_file_def)
  from ramfs_create_refines [OF ok mal name _ this] data show ?thesis
    by (auto simp: data_fits_def new_content_def split: if_splits)
next
  case (Some i)
  then have find: "rf_find (rf_files c) (cstr name) = Some i" by (simp add: ramfs_find_file_key)
  note I = rf.lookup_Some [OF find]
  let ?file = "rf_files c ! i"
  obtain d where d: "rf_data ?file = Some d" "length d = unat (rf_capacity ?file)" "rf_size ?file \<le> rf_capacity ?file"
    "length (rf_name ?file) = 256"
    using rf_files_nth [OF ok] I by (auto simp: rf_ok_def)
  show ?thesis
  proof (cases "sz > rf_capacity ?file \<and> mal sz = None")
    case True
    with r Some ok show ?thesis by (simp add: ramfs_write_file_def Let_def)
  next
    case False
    obtain b cap where b: "length b = unat cap" "sz \<le> cap" "done'"
      "rf_files c' = (rf_files c)[i := ?file\<lparr>rf_data := Some (blit (take (unat sz) data) b), rf_capacity := cap,
         rf_size := sz, rf_mtime := 0\<rparr>]"
    proof (cases "sz > rf_capacity ?file")
      case True
      with False obtain nd where nd: "mal sz = Some nd" by auto
      then have "length nd = unat sz" using mal by (simp add: malloc_ok_def)
      moreover have "unat (rf_size ?file) \<le> unat sz" "unat (rf_size ?file) \<le> length d"
        using True d by (auto simp: word_le_nat_alt word_less_nat_alt)
      ultimately show ?thesis using r Some True nd d(1)
        by (intro that [of "if rf_size ?file > 0 then blit (take (unat (if rf_size ?file < sz then rf_size ?file else sz)) d) nd
              else nd" sz])
           (auto simp: ramfs_write_file_def Let_def length_blit)
    next
      case small: False
      with r Some d show ?thesis
        by (intro that [of d "rf_capacity ?file"]) (auto simp: ramfs_write_file_def Let_def not_less)
    qed
    define f where "f = ?file\<lparr>rf_data := Some (blit (take (unat sz) data) b), rf_capacity := cap,
         rf_size := sz, rf_mtime := 0\<rparr>"
    have c': "rf_files c' = (rf_files c)[i := f]" using b(4) by (simp add: f_def)
    have key: "rf_key f = cstr name" using I by (simp add: f_def)
    have "unat sz \<le> length b" using b by (simp add: word_le_nat_alt)
    then have f: "rf_ok f" "rf_in_use f" "rf_content f = take (unat sz) data"
      using d b(1,2) I data by (simp_all add: rf_ok_def f_def length_blit rf_content_def take_blit_take)
    have own: "\<And>j. rf_find (rf_files c) (rf_key f) = Some j \<Longrightarrow> j = i" using find key by simp
    have old: "rf_in_use (rf_files c ! i) \<Longrightarrow> rf_key (rf_files c ! i) = rf_key f" using I key by simp
    note st = ramfs_store [OF ok _ f(1,2) own old c']
    from st I key f(3) b(3) show ?thesis by simp
  qed
qed

lemma ramfs_delete_refines:
  assumes ok: "ramfs_ok c" and r: "ramfs_delete_file name c = (done', c')"
  shows "ramfs_ok c' \<and> ramfs_abs c' = (ramfs_abs c)(cstr name := None) \<and> done' = (ramfs_abs c (cstr name) \<noteq> None)"
proof (cases "ramfs_find_file c name")
  case None
  with r ok show ?thesis by (auto simp: ramfs_delete_file_def ramfs_find_file_key ramfs_abs_def fun_eq_iff)
next
  case (Some i)
  then have find: "rf_find (rf_files c) (cstr name) = Some i" by (simp add: ramfs_find_file_key)
  have c': "done'" "rf_files c' = (rf_files c)[i := zero_file]" using r Some by (auto simp: ramfs_delete_file_def)
  have z: "rf_ok zero_file" "\<not> rf_in_use zero_file" by (simp_all add: rf_ok_def zero_file_def)
  from ramfs_clear(1) [OF ok z c'(2)] ramfs_clear(2) [OF ok z c'(2) find] find c'(1) show ?thesis
    by (auto simp: ramfs_abs_def)
qed

lemma ramfs_init_ok: "ramfs_ok (ramfs_init c) \<and> ramfs_abs (ramfs_init c) = Map.empty"
proof -
  have "\<not> rf_in_use f" "rf_ok f" if "f \<in> set (rf_files (ramfs_init c))" for f
    using that by (auto simp: ramfs_init_def zero_file_def rf_ok_def)
  then have "ramfs_ok (ramfs_init c)" "rf_find (rf_files (ramfs_init c)) n = None" for n
    by (auto simp: ramfs_ok_def ramfs_init_def list_all_iff rf_find_def scan_lookup_def first_idx_None
        intro: slots_unique_all_unused)
  then show ?thesis by (auto simp: ramfs_abs_def)
qed

section \<open>Runs against the map\<close>

inductive ramfs_run :: "ramfs_ctx \<Rightarrow> (u8 list \<rightharpoonup> u8 list) \<Rightarrow> bool" where
  init: "ramfs_run (ramfs_init c) Map.empty"
| create: "ramfs_run c A \<Longrightarrow> malloc_ok mal \<Longrightarrow> name_fits n \<Longrightarrow> data_fits data sz \<Longrightarrow>
    ramfs_create_file mal n data sz c = (done', c') \<Longrightarrow>
    ramfs_run c' (if done' then A(cstr n \<mapsto> new_content data sz) else A)"
| overwrite: "ramfs_run c A \<Longrightarrow> malloc_ok mal \<Longrightarrow> name_fits n \<Longrightarrow> unat sz \<le> length d \<Longrightarrow>
    ramfs_write_file mal n d sz c = (done', c') \<Longrightarrow>
    ramfs_run c' (if done' then A(cstr n \<mapsto> take (unat sz) d) else A)"
| delete: "ramfs_run c A \<Longrightarrow> ramfs_delete_file n c = (done', c') \<Longrightarrow> ramfs_run c' (A(cstr n := None))"

lemma ramfs_run_refines: "ramfs_run c A \<Longrightarrow> ramfs_ok c \<and> ramfs_abs c = A"
proof (induction rule: ramfs_run.induct)
  case (create c A mal n data sz done' c')
  then show ?case using ramfs_create_refines [of c mal n data sz done' c'] by auto
next
  case (overwrite c A mal n sz d done' c')
  then show ?case using ramfs_write_refines [of c mal n sz d done' c'] by auto
next
  case (delete c A n done' c')
  then show ?case using ramfs_delete_refines [of c n done' c'] by auto
qed (use ramfs_init_ok in blast)

lemma ramfs_read_content:
  assumes ok: "ramfs_ok c" and mal: "malloc_ok mal" and r: "ramfs_read_file mal name c = Some (b, sz)"
  shows "length b \<ge> unat sz \<and> ramfs_abs c (cstr name) = Some (take (unat sz) b)"
proof -
  from r obtain i where find: "rf_find (rf_files c) (cstr name) = Some i"
    by (auto simp: ramfs_read_file_def ramfs_find_file_key split: option.splits)
  note I = rf.lookup_Some [OF find]
  let ?f = "rf_files c ! i"
  obtain d where d: "rf_data ?f = Some d" "length d = unat (rf_capacity ?f)" "rf_size ?f \<le> rf_capacity ?f"
    using rf_files_nth [OF ok] I by (auto simp: rf_ok_def)
  then have le: "unat (rf_size ?f) \<le> length d" by (simp add: word_le_nat_alt)
  from r find d obtain b0 where b0: "mal (if rf_size ?f \<noteq> 0 then rf_size ?f else 1) = Some b0" "sz = rf_size ?f"
    "b = (if rf_size ?f > 0 then blit (take (unat (rf_size ?f)) d) b0 else b0)"
    by (auto simp: ramfs_read_file_def ramfs_find_file_key Let_def split: option.splits)
  have "length b0 = unat (if rf_size ?f \<noteq> 0 then rf_size ?f else 1)" using mal b0(1) unfolding malloc_ok_def by blast
  with b0 le d find show ?thesis
    by (auto simp: ramfs_abs_def rf_content_def blit_def word_gt_0)
qed

lemma ramfs_read_available:
  assumes ex: "ramfs_abs c (cstr n) \<noteq> None" and all: "\<forall>k. mal k \<noteq> None"
  shows "ramfs_read_file mal n c \<noteq> None"
proof -
  from ex obtain i where "ramfs_find_file c n = Some i"
    by (auto simp: ramfs_find_file_key ramfs_abs_def)
  moreover obtain b where "mal (if rf_size (rf_files c ! i) \<noteq> 0 then rf_size (rf_files c ! i) else 1) = Some b"
    using all by blast
  ultimately show ?thesis by (simp add: ramfs_read_file_def Let_def)
qed

section \<open>Properties\<close>


definition mal_zero :: malloc where "mal_zero n = Some (replicate (unat n) 0)"

lemma mal_zero_ok: "malloc_ok mal_zero" by (simp add: malloc_ok_def mal_zero_def)

definition ramfs_empty :: ramfs_ctx where
  "ramfs_empty = ramfs_init \<lparr>rf_files = [], rf_file_count = 0, rf_total_size = 0\<rparr>"

lemma ramfs_empty_slots: "ramfs_find_file ramfs_empty n = None" "ramfs_find_free_slot ramfs_empty = Some 0"
    "length (rf_files ramfs_empty) = 256" "i < 256 \<Longrightarrow> rf_files ramfs_empty ! i = zero_file"
  by (auto simp: ramfs_empty_def ramfs_init_def ramfs_find_file_def ramfs_find_free_slot_def first_idx_None
      zero_file_def RAMFS_MAX_FILES_def intro!: first_idx_SomeI)

definition ramfs_example :: ramfs_ctx where
  "ramfs_example = snd (ramfs_write_file mal_zero [47, 97] [1, 2, 3] 2 ramfs_empty)"

lemma ramfs_example_run: "ramfs_run ramfs_example ([[47, 97] \<mapsto> [1, 2]])"
proof -
  have f: "fst (ramfs_write_file mal_zero [47, 97] [1, 2, 3] 2 ramfs_empty)"
    by (simp add: ramfs_write_file_def ramfs_create_file_def ramfs_empty_slots mal_zero_def Let_def)
  have "ramfs_run ramfs_example (if True then Map.empty(cstr [47, 97] \<mapsto> take (unat (2 :: u32)) [1, 2, 3]) else Map.empty)"
  proof (rule ramfs_run.overwrite [OF _ mal_zero_ok])
    show "ramfs_run ramfs_empty Map.empty" unfolding ramfs_empty_def by (rule ramfs_run.init)
    show "ramfs_write_file mal_zero [47, 97] [1, 2, 3] 2 ramfs_empty = (True, ramfs_example)"
      using f by (simp add: ramfs_example_def prod_eq_iff)
  qed (simp_all add: name_fits_def cstr_def RAMFS_MAX_NAME_LEN_def)
  then show ?thesis by (simp add: cstr_def take_Cons')
qed


text \<open>A name longer than the buffer is stored truncated but looked up in full, so a file created
  under it is not found again, and creating it a second time makes a second entry.\<close>

lemma ramfs_long_name_lost:
  assumes long: "255 < length (cstr n)"
  defines "r \<equiv> ramfs_create_file mal_zero n None 0 ramfs_empty"
  shows "fst r \<and> \<not> ramfs_file_exists n (snd r)"
proof -
  let ?f = "rf_new n None 0 (replicate 64 0) zero_file"
  have r: "r = (True, ramfs_empty\<lparr>rf_files := (rf_files ramfs_empty)[0 := ?f],
      rf_file_count := rf_file_count ramfs_empty + 1, rf_total_size := rf_total_size ramfs_empty + 0\<rparr>)"
    by (simp add: r_def ramfs_create_file_def ramfs_empty_slots mal_zero_def Let_def rf_new_def)
  have "take 255 n = take 255 (cstr n)" unfolding cstr_def using long
    by (metis cstr_def less_imp_le_nat takeWhile_eq_take take_take min.absorb1)
  moreover have "0 \<notin> set (take 255 (cstr n))" using cstr_no_nul [of n] in_set_takeD by metis
  ultimately have "rf_key ?f = take 255 (cstr n)"
    using long cstr_append_nul by (simp add: rf_new_def blit_def kstrlen_cstr RAMFS_MAX_NAME_LEN_def)
  then have k: "rf_key ?f \<noteq> cstr n" using long by (metis length_take min.absorb2 less_imp_le_nat less_irrefl)
  have "\<not> (rf_in_use f \<and> kstreq (rf_name f) n)" if "f \<in> set ((rf_files ramfs_empty)[0 := ?f])" for f
    using that k set_update_subset_insert [of "rf_files ramfs_empty" 0 ?f] ramfs_empty_slots(3,4)
    by (auto simp: kstreq_cstr in_set_conv_nth nth_list_update zero_file_def split: if_splits)
  then show ?thesis by (simp add: r ramfs_file_exists_def ramfs_find_file_def first_idx_None)
qed

end
