(* ===== verification/Vfs.thy ===== *)
theory Vfs
  imports Ramfs
begin

text \<open>
  The virtual file system (\<open>src/vfs.c\<close>, \<open>include/vfs.h\<close>): a table of mounts, longest-prefix path
  resolution, a table of 64 file descriptors and the adapters to the in-memory file system and to
  FAT. The FAT driver is the parameter \<open>fat_api\<close>; the in-memory file systems are those of
  \<open>Ramfs\<close>, addressed by the context pointer of their mount.

  An adapter opens a file by reading all of it into a fresh buffer, which becomes the handle;
  \<open>Marker\<close> is the handle \<open>(void *)1\<close> of a file just created. \<open>Fault\<close> is an access outside a buffer.
\<close>

section \<open>State\<close>

definition VFS_MAX_MOUNTS :: nat where "VFS_MAX_MOUNTS = 8"
definition VFS_MAX_FDS :: nat where "VFS_MAX_FDS = 64"
definition VFS_MAX_PATH_LEN :: nat where "VFS_MAX_PATH_LEN = 256"
definition VFS_FD_CREATE :: u32 where "VFS_FD_CREATE = 8"
definition VFS_FSTYPE_FAT :: int where "VFS_FSTYPE_FAT = 1"
definition VFS_FSTYPE_RAMFS :: int where "VFS_FSTYPE_RAMFS = 2"

lemmas vfs_consts = VFS_MAX_MOUNTS_def VFS_MAX_FDS_def VFS_MAX_PATH_LEN_def VFS_FSTYPE_FAT_def VFS_FSTYPE_RAMFS_def

datatype handle = Null | Marker | Buf "u8 list"

datatype 'a io = Fault | Fail | Done 'a

record vfs_fd =
  fd_in_use :: bool
  fd_mount_id :: nat
  fd_offset :: u32
  fd_flags :: u32
  fd_private :: handle
  fd_fstype :: int

record vfs_mount =
  m_in_use :: bool
  m_point :: "u8 list"
  m_fstype :: int
  m_ctx :: nat

record 'f vfs_ctx =
  v_mounts :: "vfs_mount list"
  v_fds :: "vfs_fd list"
  v_next_fd :: u32
  v_initialized :: bool
  w_ramfs :: "nat \<Rightarrow> ramfs_ctx"
  w_fat :: "nat \<Rightarrow> 'f"
  w_mal :: malloc

record 'f fat_api =
  fat12_reload :: "'f \<Rightarrow> 'f"
  fat12_read_file_to_ram_ex :: "u8 list \<Rightarrow> 'f \<Rightarrow> (u8 list \<times> u32) option"
  fat12_write_file_ex :: "u8 list \<Rightarrow> u8 list \<Rightarrow> 'f \<Rightarrow> bool \<times> 'f"
  fat12_read_root_dir :: "'f \<Rightarrow> u8 list option"
  fat12_resolve_dir :: "u8 list \<Rightarrow> 'f \<Rightarrow> u16 option"
  fat12_read_dir_cluster :: "u16 \<Rightarrow> 'f \<Rightarrow> u8 list option"
  fat12_display_name :: "u8 list \<Rightarrow> nat \<Rightarrow> u8 list"

section \<open>The FAT adapter\<close>

definition vfs_fat_open :: "'f fat_api \<Rightarrow> u8 list \<Rightarrow> u32 \<Rightarrow> 'f \<Rightarrow> handle option \<times> 'f" where
  "vfs_fat_open F path flags f =
     (let f = fat12_reload F f
      in case fat12_read_file_to_ram_ex F path f of
           Some (data, _) \<Rightarrow> (Some (Buf data), f)
         | None \<Rightarrow>
             if flags AND VFS_FD_CREATE \<noteq> 0 then
               let (ok, f) = fat12_write_file_ex F path [] f
               in (if ok then Some Marker else None, f)
             else (None, f))"

text \<open>Both adapters read without looking at the size of the file: the bytes from \<open>offset\<close> on.\<close>

definition vfs_fat_read :: "handle \<Rightarrow> u32 \<Rightarrow> u32 \<Rightarrow> (u8 list \<times> u32) io" where
  "vfs_fat_read h sz offset =
     (case h of
        Null \<Rightarrow> Fail
      | Marker \<Rightarrow> Done ([], 0)
      | Buf d \<Rightarrow> if unat offset + unat sz \<le> length d then Done (take (unat sz) (drop (unat offset) d), sz) else Fault)"

definition vfs_fat_write :: "handle \<Rightarrow> u8 list \<Rightarrow> u32 \<Rightarrow> u32 \<Rightarrow> u32 io" where
  "vfs_fat_write h b sz offset = Fail"

definition vfs_fat_stat :: "'f fat_api \<Rightarrow> u8 list \<Rightarrow> 'f \<Rightarrow> u32 option \<times> 'f" where
  "vfs_fat_stat F path f =
     (let f = fat12_reload F f in (map_option snd (fat12_read_file_to_ram_ex F path f), f))"

text \<open>The directory scan of \<open>vfs_fat_list\<close>: entries of 32 bytes, up to the first with a 0 name
  byte; deleted entries (0xE5) and volume labels (attribute 0x08) are skipped.\<close>

fun fat_scan :: "(nat \<Rightarrow> u8 list) \<Rightarrow> u8 list \<Rightarrow> nat \<Rightarrow> nat \<Rightarrow> u8 list list" where
  "fat_scan disp dir i 0 = []"
| "fat_scan disp dir i (Suc n) =
     (if dir ! (i * 32) = 0 then []
      else if dir ! (i * 32) = 0xE5 \<or> dir ! (i * 32 + 11) AND 0x08 \<noteq> 0 then fat_scan disp dir (Suc i) n
      else cstr (disp (i * 32)) # fat_scan disp dir (Suc i) n)"

text \<open>The second pass copies the names into the block of \<open>total_len\<close> characters.\<close>

fun fat_pack :: "nat \<Rightarrow> nat \<Rightarrow> u8 list list \<Rightarrow> u8 list list" where
  "fat_pack total_len off [] = []"
| "fat_pack total_len off (n # ns) =
     (if off + (length n + 1) \<le> total_len then n # fat_pack total_len (off + (length n + 1)) ns
      else fat_pack total_len off ns)"

definition vfs_fat_list :: "'f fat_api \<Rightarrow> malloc \<Rightarrow> u8 list \<Rightarrow> 'f \<Rightarrow> u8 list list option \<times> 'f" where
  "vfs_fat_list F mal path f =
     (let f = fat12_reload F f;
          dir = (if c_at path 0 = 0 \<or> kstreq path [47] then fat12_read_root_dir F f
                 else case fat12_resolve_dir F path f of
                        None \<Rightarrow> None
                      | Some cluster \<Rightarrow> fat12_read_dir_cluster F cluster f)
      in case dir of
           None \<Rightarrow> (None, f)
         | Some d \<Rightarrow>
             let names = fat_scan (fat12_display_name F d) d 0 (length d div 32);
                 total_len = (\<Sum>n \<leftarrow> names. length n + 1)
             in if names = [] then (Some [], f)
                else if mal (of_nat (length names) * 4) = None then (None, f)
                else if mal (of_nat total_len) = None then (None, f)
                else (Some (fat_pack total_len 0 names), f))"

section \<open>The in-memory adapter\<close>

definition vfs_ramfs_open :: "malloc \<Rightarrow> u8 list \<Rightarrow> u32 \<Rightarrow> ramfs_ctx \<Rightarrow> handle option \<times> ramfs_ctx" where
  "vfs_ramfs_open mal path flags c =
     (case ramfs_read_file mal path c of
        Some (data, _) \<Rightarrow> (Some (Buf data), c)
      | None \<Rightarrow>
          if flags AND VFS_FD_CREATE \<noteq> 0 then
            let (ok, c) = ramfs_create_file mal path None 0 c
            in (if ok then Some Marker else None, c)
          else (None, c))"

definition vfs_ramfs_read :: "handle \<Rightarrow> u32 \<Rightarrow> u32 \<Rightarrow> (u8 list \<times> u32) io" where
  "vfs_ramfs_read h sz offset =
     (case h of
        Null \<Rightarrow> Fail
      | Marker \<Rightarrow> Done ([], 0)
      | Buf d \<Rightarrow> if unat offset + unat sz \<le> length d then Done (take (unat sz) (drop (unat offset) d), sz) else Fault)"

definition vfs_ramfs_write :: "handle \<Rightarrow> u8 list \<Rightarrow> u32 \<Rightarrow> u32 \<Rightarrow> u32 io" where
  "vfs_ramfs_write h b sz offset = Fail"

definition vfs_ramfs_stat :: "u8 list \<Rightarrow> ramfs_ctx \<Rightarrow> u32 option" where
  "vfs_ramfs_stat path c = ramfs_get_file_size path c"

definition vfs_ramfs_list :: "malloc \<Rightarrow> u8 list \<Rightarrow> ramfs_ctx \<Rightarrow> u8 list list option" where
  "vfs_ramfs_list mal path c = ramfs_list_files mal c"

section \<open>Mounts and paths\<close>

definition zero_mount :: vfs_mount where
  "zero_mount = \<lparr>m_in_use = False, m_point = replicate 256 0, m_fstype = 0, m_ctx = 0\<rparr>"

definition zero_fd :: vfs_fd where
  "zero_fd = \<lparr>fd_in_use = False, fd_mount_id = 0, fd_offset = 0, fd_flags = 0, fd_private = Null, fd_fstype = 0\<rparr>"

definition vfs_init :: "'f vfs_ctx \<Rightarrow> 'f vfs_ctx" where
  "vfs_init v = v\<lparr>v_mounts := replicate VFS_MAX_MOUNTS zero_mount, v_fds := replicate VFS_MAX_FDS zero_fd,
     v_next_fd := 3, v_initialized := True\<rparr>"

definition vfs_mount_point :: "u8 list \<Rightarrow> u8 list \<Rightarrow> u8 list" where
  "vfs_mount_point mp b =
     (let len = kstrlen mp; len = (if len \<ge> VFS_MAX_PATH_LEN then VFS_MAX_PATH_LEN - 1 else len)
      in blit (take len mp @ [0]) b)"

definition vfs_mount :: "u8 list \<Rightarrow> int \<Rightarrow> nat \<Rightarrow> 'f vfs_ctx \<Rightarrow> bool \<times> 'f vfs_ctx" where
  "vfs_mount mp fstype fs v =
     (case first_idx (\<lambda>m. \<not> m_in_use m) (v_mounts v) of
        None \<Rightarrow> (False, v)
      | Some slot \<Rightarrow>
          let m = (v_mounts v ! slot)\<lparr>m_point := vfs_mount_point mp (m_point (v_mounts v ! slot)), m_in_use := True,
                    m_fstype := fstype, m_ctx := fs\<rparr>
          in if fstype = VFS_FSTYPE_FAT \<or> fstype = VFS_FSTYPE_RAMFS
             then (True, v\<lparr>v_mounts := (v_mounts v)[slot := m]\<rparr>)
             else (False, v\<lparr>v_mounts := (v_mounts v)[slot := m\<lparr>m_in_use := False\<rparr>]\<rparr>))"

fun vfs_find_from :: "u8 list \<Rightarrow> nat \<Rightarrow> vfs_mount list \<Rightarrow> nat option \<Rightarrow> nat \<Rightarrow> nat option" where
  "vfs_find_from path i [] best best_len = best"
| "vfs_find_from path i (m # ms) best best_len =
     (let path_len = kstrlen path; mount_len = kstrlen (m_point m)
      in if m_in_use m \<and> path_len \<ge> mount_len \<and> take mount_len path = take mount_len (m_point m) \<and>
            (mount_len = 1 \<or> path_len = mount_len \<or> c_at path mount_len = 47) \<and> mount_len > best_len
         then vfs_find_from path (Suc i) ms (Some i) mount_len
         else vfs_find_from path (Suc i) ms best best_len)"

definition vfs_find_mount :: "u8 list \<Rightarrow> 'f vfs_ctx \<Rightarrow> nat option" where
  "vfs_find_mount path v = vfs_find_from path 0 (v_mounts v) None 0"

text \<open>The path inside the mounted file system, written to a buffer of \<open>VFS_MAX_PATH_LEN\<close> bytes;
  prepending the slash moves the bytes up to and including the terminator by one.\<close>

definition vfs_fs_path :: "u8 list \<Rightarrow> nat \<Rightarrow> u8 list io" where
  "vfs_fs_path path mount_len =
     (let path_len = kstrlen path
      in if path_len \<le> mount_len then Done [47]
         else
           let n = path_len - mount_len;
               n = (if n \<ge> VFS_MAX_PATH_LEN then VFS_MAX_PATH_LEN - 1 else n);
               out = take n (drop mount_len path)
           in if c_at out 0 = 47 then Done out
              else if n + 1 < VFS_MAX_PATH_LEN then Done (47 # out)
              else Fault)"

definition vfs_resolve_path :: "u8 list \<Rightarrow> 'f vfs_ctx \<Rightarrow> (nat \<times> u8 list) io" where
  "vfs_resolve_path path v =
     (case vfs_find_mount path v of
        None \<Rightarrow> Fail
      | Some i \<Rightarrow>
          (case vfs_fs_path path (kstrlen (m_point (v_mounts v ! i))) of
             Done p \<Rightarrow> Done (i, p)
           | Fail \<Rightarrow> Fail
           | Fault \<Rightarrow> Fault))"

section \<open>Descriptors\<close>

text \<open>The dispatch through the function pointers of the mount.\<close>

definition mount_open :: "'f fat_api \<Rightarrow> vfs_mount \<Rightarrow> u8 list \<Rightarrow> u32 \<Rightarrow> 'f vfs_ctx \<Rightarrow> handle option \<times> 'f vfs_ctx" where
  "mount_open F m path flags v =
     (if m_fstype m = VFS_FSTYPE_FAT then
        let (h, f) = vfs_fat_open F path flags (w_fat v (m_ctx m)) in (h, v\<lparr>w_fat := (w_fat v)(m_ctx m := f)\<rparr>)
      else
        let (h, c) = vfs_ramfs_open (w_mal v) path flags (w_ramfs v (m_ctx m))
        in (h, v\<lparr>w_ramfs := (w_ramfs v)(m_ctx m := c)\<rparr>))"

definition vfs_open :: "'f fat_api \<Rightarrow> u8 list \<Rightarrow> u32 \<Rightarrow> 'f vfs_ctx \<Rightarrow> (int \<times> 'f vfs_ctx) io" where
  "vfs_open F path flags v =
     (case vfs_resolve_path path v of
        Fault \<Rightarrow> Fault
      | Fail \<Rightarrow> Done (-1, v)
      | Done (mount_id, fs_path) \<Rightarrow>
          let m = v_mounts v ! mount_id
          in case first_idx (\<lambda>d. \<not> fd_in_use d) (v_fds v) of
               None \<Rightarrow> Done (-1, v)
             | Some fd \<Rightarrow>
                 (case mount_open F m fs_path flags v of
                    (None, v) \<Rightarrow> Done (-1, v)
                  | (Some h, v) \<Rightarrow>
                      Done (int fd, v\<lparr>v_fds := (v_fds v)[fd := \<lparr>fd_in_use = True, fd_mount_id = mount_id, fd_offset = 0,
                        fd_flags = flags, fd_private = h, fd_fstype = m_fstype m\<rparr>]\<rparr>)))"

definition fd_valid :: "int \<Rightarrow> 'f vfs_ctx \<Rightarrow> bool" where
  "fd_valid fd v \<longleftrightarrow> 0 \<le> fd \<and> fd < int VFS_MAX_FDS \<and> fd_in_use (v_fds v ! nat fd)"

definition vfs_read :: "int \<Rightarrow> u32 \<Rightarrow> 'f vfs_ctx \<Rightarrow> (u8 list option \<times> 'f vfs_ctx) io" where
  "vfs_read fd sz v =
     (if \<not> fd_valid fd v then Done (None, v)
      else
        let d = v_fds v ! nat fd; m = v_mounts v ! fd_mount_id d
        in case (if m_fstype m = VFS_FSTYPE_FAT then vfs_fat_read (fd_private d) sz (fd_offset d)
                 else vfs_ramfs_read (fd_private d) sz (fd_offset d)) of
             Fault \<Rightarrow> Fault
           | Fail \<Rightarrow> Done (None, v)
           | Done (bs, n) \<Rightarrow> Done (Some bs, v\<lparr>v_fds := (v_fds v)[nat fd := d\<lparr>fd_offset := fd_offset d + n\<rparr>]\<rparr>))"

definition vfs_write :: "int \<Rightarrow> u8 list \<Rightarrow> u32 \<Rightarrow> 'f vfs_ctx \<Rightarrow> (int \<times> 'f vfs_ctx) io" where
  "vfs_write fd b sz v =
     (if \<not> fd_valid fd v then Done (-1, v)
      else
        let d = v_fds v ! nat fd; m = v_mounts v ! fd_mount_id d
        in case (if m_fstype m = VFS_FSTYPE_FAT then vfs_fat_write (fd_private d) b sz (fd_offset d)
                 else vfs_ramfs_write (fd_private d) b sz (fd_offset d)) of
             Fault \<Rightarrow> Fault
           | Fail \<Rightarrow> Done (-1, v)
           | Done n \<Rightarrow> Done (uint n, v\<lparr>v_fds := (v_fds v)[nat fd := d\<lparr>fd_offset := fd_offset d + n\<rparr>]\<rparr>))"

text \<open>Closing frees the handle's buffer (\<open>vfs_fat_close\<close>, \<open>vfs_ramfs_close\<close>), which the descriptor
  owns; the buffers are not part of the model's state beyond the handle.\<close>

definition vfs_close :: "int \<Rightarrow> 'f vfs_ctx \<Rightarrow> int \<times> 'f vfs_ctx" where
  "vfs_close fd v =
     (if \<not> fd_valid fd v then (-1, v)
      else (0, v\<lparr>v_fds := (v_fds v)[nat fd := (v_fds v ! nat fd)\<lparr>fd_in_use := False\<rparr>]\<rparr>))"

definition vfs_seek :: "int \<Rightarrow> u32 \<Rightarrow> 'f vfs_ctx \<Rightarrow> int \<times> 'f vfs_ctx" where
  "vfs_seek fd offset v =
     (if \<not> fd_valid fd v then (-1, v)
      else (0, v\<lparr>v_fds := (v_fds v)[nat fd := (v_fds v ! nat fd)\<lparr>fd_offset := offset\<rparr>]\<rparr>))"

definition close_mount_fds :: "nat \<Rightarrow> 'f vfs_ctx \<Rightarrow> 'f vfs_ctx" where
  "close_mount_fds i v =
     fold (\<lambda>j v. if fd_in_use (v_fds v ! j) \<and> fd_mount_id (v_fds v ! j) = i then snd (vfs_close (int j) v) else v)
       [0 ..< VFS_MAX_FDS] v"

definition vfs_umount :: "u8 list \<Rightarrow> 'f vfs_ctx \<Rightarrow> bool \<times> 'f vfs_ctx" where
  "vfs_umount mp v =
     (case first_idx (\<lambda>m. m_in_use m \<and> kstreq (m_point m) mp) (v_mounts v) of
        None \<Rightarrow> (False, v)
      | Some i \<Rightarrow>
          let v = close_mount_fds i v
          in (True, v\<lparr>v_mounts := (v_mounts v)[i := (v_mounts v ! i)\<lparr>m_in_use := False\<rparr>]\<rparr>))"

definition vfs_deinit :: "'f vfs_ctx \<Rightarrow> 'f vfs_ctx" where
  "vfs_deinit v =
     (let v = fold (\<lambda>i v. if m_in_use (v_mounts v ! i) then snd (vfs_umount (m_point (v_mounts v ! i)) v) else v)
                [0 ..< VFS_MAX_MOUNTS] v;
          v = fold (\<lambda>i v. if fd_in_use (v_fds v ! i) then snd (vfs_close (int i) v) else v) [0 ..< VFS_MAX_FDS] v
      in v\<lparr>v_mounts := replicate VFS_MAX_MOUNTS zero_mount, v_fds := replicate VFS_MAX_FDS zero_fd,
           v_next_fd := 0, v_initialized := False\<rparr>)"

definition vfs_stat :: "'f fat_api \<Rightarrow> u8 list \<Rightarrow> 'f vfs_ctx \<Rightarrow> (u32 option \<times> 'f vfs_ctx) io" where
  "vfs_stat F path v =
     (case vfs_resolve_path path v of
        Fault \<Rightarrow> Fault
      | Fail \<Rightarrow> Done (None, v)
      | Done (i, p) \<Rightarrow>
          let m = v_mounts v ! i
          in if m_fstype m = VFS_FSTYPE_FAT then
               let (r, f) = vfs_fat_stat F p (w_fat v (m_ctx m)) in Done (r, v\<lparr>w_fat := (w_fat v)(m_ctx m := f)\<rparr>)
             else Done (vfs_ramfs_stat p (w_ramfs v (m_ctx m)), v))"

definition vfs_list :: "'f fat_api \<Rightarrow> u8 list \<Rightarrow> 'f vfs_ctx \<Rightarrow> (u8 list list option \<times> 'f vfs_ctx) io" where
  "vfs_list F path v =
     (case vfs_resolve_path path v of
        Fault \<Rightarrow> Fault
      | Fail \<Rightarrow> Done (None, v)
      | Done (i, p) \<Rightarrow>
          let m = v_mounts v ! i
          in if m_fstype m = VFS_FSTYPE_FAT then
               let (r, f) = vfs_fat_list F (w_mal v) p (w_fat v (m_ctx m))
               in Done (r, v\<lparr>w_fat := (w_fat v)(m_ctx m := f)\<rparr>)
             else Done (vfs_ramfs_list (w_mal v) p (w_ramfs v (m_ctx m)), v))"

definition vfs_get_global :: "'f vfs_ctx \<Rightarrow> 'f vfs_ctx" where
  "vfs_get_global v = (if v_initialized v then v else vfs_init v)"

section \<open>Path resolution\<close>

definition path_under :: "u8 list \<Rightarrow> u8 list \<Rightarrow> bool" where
  "path_under mp path \<longleftrightarrow> mp \<noteq> [] \<and> length mp \<le> length path \<and> take (length mp) path = mp \<and>
     (length mp = 1 \<or> length path = length mp \<or> path ! length mp = 47)"

definition mount_matches :: "u8 list \<Rightarrow> vfs_mount \<Rightarrow> bool" where
  "mount_matches path m \<longleftrightarrow> m_in_use m \<and> path_under (cstr (m_point m)) (cstr path)"

definition mount_len :: "vfs_mount \<Rightarrow> nat" where
  "mount_len m = length (cstr (m_point m))"

lemma take_cstr: "n \<le> kstrlen s \<Longrightarrow> take n s = take n (cstr s)"
  using take_kstrlen_cstr [of s] by (metis min.absorb1 take_take)

lemma c_at_cstr_nth: "i < kstrlen s \<Longrightarrow> c_at s i = cstr s ! i"
proof -
  assume i: "i < kstrlen s"
  then have "i < length s" using length_takeWhile_le [of "\<lambda>c. c \<noteq> 0" s] by (simp add: kstrlen_cstr cstr_def)
  with i show ?thesis by (simp add: c_at_def kstrlen_cstr cstr_def takeWhile_nth)
qed

lemma mount_step:
  "(m_in_use m \<and> kstrlen path \<ge> kstrlen (m_point m) \<and>
      take (kstrlen (m_point m)) path = take (kstrlen (m_point m)) (m_point m) \<and>
      (kstrlen (m_point m) = 1 \<or> kstrlen path = kstrlen (m_point m) \<or> c_at path (kstrlen (m_point m)) = 47) \<and>
      kstrlen (m_point m) > best_len) \<longleftrightarrow> mount_matches path m \<and> mount_len m > best_len"
proof (cases "kstrlen (m_point m) \<le> kstrlen path")
  case True
  have t: "take (kstrlen (m_point m)) path = take (kstrlen (m_point m)) (cstr path)" by (rule take_cstr [OF True])
  have c: "kstrlen path \<noteq> kstrlen (m_point m) \<Longrightarrow> c_at path (kstrlen (m_point m)) = cstr path ! kstrlen (m_point m)"
    using True by (intro c_at_cstr_nth) simp
  show ?thesis
    unfolding mount_matches_def path_under_def mount_len_def t take_kstrlen_cstr using True c
    by (cases "kstrlen path = kstrlen (m_point m)") (auto simp: kstrlen_cstr)
qed (auto simp: mount_matches_def path_under_def mount_len_def kstrlen_cstr)

lemma vfs_find_from_Cons:
  "vfs_find_from path i (m # ms) best best_len =
     (if mount_matches path m \<and> mount_len m > best_len then vfs_find_from path (Suc i) ms (Some i) (mount_len m)
      else vfs_find_from path (Suc i) ms best best_len)"
  by (simp only: vfs_find_from.simps Let_def mount_step) (simp add: mount_len_def kstrlen_cstr)

declare vfs_find_from.simps(2) [simp del]

lemma vfs_find_from_cases:
  "(vfs_find_from path i ms best n = best \<and> (\<forall>m \<in> set ms. mount_matches path m \<longrightarrow> mount_len m \<le> n)) \<or>
   (\<exists>k < length ms. vfs_find_from path i ms best n = Some (i + k) \<and> mount_matches path (ms ! k) \<and>
      n < mount_len (ms ! k) \<and> (\<forall>m \<in> set ms. mount_matches path m \<longrightarrow> mount_len m \<le> mount_len (ms ! k)))"
proof (induction ms arbitrary: i best n)
  case (Cons m ms)
  show ?case
  proof (cases "mount_matches path m \<and> mount_len m > n")
    case True
    from Cons [of "Suc i" "Some i" "mount_len m"] show ?thesis
    proof (elim disjE exE conjE)
      assume "vfs_find_from path (Suc i) ms (Some i) (mount_len m) = Some i"
        "\<forall>x \<in> set ms. mount_matches path x \<longrightarrow> mount_len x \<le> mount_len m"
      with True show ?thesis by (intro disjI2 exI [of _ 0]) (auto simp: vfs_find_from_Cons)
    next
      fix k assume "k < length ms" "vfs_find_from path (Suc i) ms (Some i) (mount_len m) = Some (Suc i + k)"
        "mount_matches path (ms ! k)" "mount_len m < mount_len (ms ! k)"
        "\<forall>x \<in> set ms. mount_matches path x \<longrightarrow> mount_len x \<le> mount_len (ms ! k)"
      with True show ?thesis by (intro disjI2 exI [of _ "Suc k"]) (auto simp: vfs_find_from_Cons)
    qed
  next
    case False
    from Cons [of "Suc i" best n] show ?thesis
    proof (elim disjE exE conjE)
      fix k assume "k < length ms" "vfs_find_from path (Suc i) ms best n = Some (Suc i + k)"
        "mount_matches path (ms ! k)" "n < mount_len (ms ! k)"
        "\<forall>x \<in> set ms. mount_matches path x \<longrightarrow> mount_len x \<le> mount_len (ms ! k)"
      with False show ?thesis by (intro disjI2 exI [of _ "Suc k"]) (auto simp: vfs_find_from_Cons)
    qed (use False in \<open>auto simp: vfs_find_from_Cons\<close>)
  qed
qed simp

lemma vfs_find_mount_Some:
  assumes "vfs_find_mount path v = Some i"
  shows "i < length (v_mounts v)" "mount_matches path (v_mounts v ! i)"
    "m \<in> set (v_mounts v) \<Longrightarrow> mount_matches path m \<Longrightarrow> mount_len m \<le> mount_len (v_mounts v ! i)"
  using vfs_find_from_cases [of path 0 "v_mounts v" None 0] assms by (auto simp: vfs_find_mount_def)

lemma vfs_find_mount_None:
  "vfs_find_mount path v = None \<Longrightarrow> m \<in> set (v_mounts v) \<Longrightarrow> \<not> mount_matches path m"
  using vfs_find_from_cases [of path 0 "v_mounts v" None 0]
  by (fastforce simp: vfs_find_mount_def mount_matches_def path_under_def mount_len_def)

text \<open>The path below a mount point, with the slash in front.\<close>

definition below_mount :: "nat \<Rightarrow> u8 list \<Rightarrow> u8 list" where
  "below_mount n path =
     (let rest = drop n (cstr path) in if rest = [] then [47] else if hd rest = 47 then rest else 47 # rest)"

lemma drop_cstr: "n \<le> kstrlen s \<Longrightarrow> take (kstrlen s - n) (drop n s) = drop n (cstr s)"
  using take_kstrlen_cstr [of s] by (metis drop_take)

lemma vfs_fs_path_short:
  assumes p: "kstrlen path < VFS_MAX_PATH_LEN" and n: "1 \<le> n"
  shows "vfs_fs_path path n = Done (below_mount n path)" "length (below_mount n path) < VFS_MAX_PATH_LEN"
    "hd (below_mount n path) = 47"
proof -
  show "length (below_mount n path) < VFS_MAX_PATH_LEN" "hd (below_mount n path) = 47"
    using p n by (auto simp: below_mount_def Let_def VFS_MAX_PATH_LEN_def kstrlen_cstr)
  show "vfs_fs_path path n = Done (below_mount n path)"
  proof (cases "kstrlen path \<le> n")
    case True
    then show ?thesis by (simp add: vfs_fs_path_def below_mount_def kstrlen_cstr Let_def)
  next
    case False
    then have d: "take (kstrlen path - n) (drop n path) = drop n (cstr path)" by (intro drop_cstr) simp
    have "drop n (cstr path) \<noteq> []" using False by (simp add: kstrlen_cstr)
    then have c: "c_at (drop n (cstr path)) 0 = hd (drop n (cstr path))" by (simp add: c_at_def hd_conv_nth)
    have lt: "\<not> kstrlen path - n \<ge> VFS_MAX_PATH_LEN" "kstrlen path - n + 1 < VFS_MAX_PATH_LEN" using p n False by linarith+
    show ?thesis
      using False lt c \<open>drop n (cstr path) \<noteq> []\<close> by (simp add: vfs_fs_path_def below_mount_def Let_def d)
  qed
qed

lemma vfs_resolve_short:
  assumes "kstrlen path < VFS_MAX_PATH_LEN" "vfs_find_mount path v = Some i"
  shows "vfs_resolve_path path v = Done (i, below_mount (mount_len (v_mounts v ! i)) path) \<and>
    length (below_mount (mount_len (v_mounts v ! i)) path) < VFS_MAX_PATH_LEN \<and>
    hd (below_mount (mount_len (v_mounts v ! i)) path) = 47"
proof -
  have "1 \<le> mount_len (v_mounts v ! i)"
    using vfs_find_mount_Some(2) [OF assms(2)] by (cases "cstr (m_point (v_mounts v ! i))")
      (auto simp: mount_matches_def path_under_def mount_len_def)
  from vfs_fs_path_short [OF assms(1) this] assms(2) show ?thesis
    by (simp add: vfs_resolve_path_def mount_len_def kstrlen_cstr)
qed

section \<open>The descriptor table\<close>

definition vfs_ok :: "'f vfs_ctx \<Rightarrow> bool" where
  "vfs_ok v \<longleftrightarrow> length (v_mounts v) = VFS_MAX_MOUNTS \<and> length (v_fds v) = VFS_MAX_FDS \<and>
     (\<forall>j < VFS_MAX_FDS. fd_in_use (v_fds v ! j) \<longrightarrow>
        fd_mount_id (v_fds v ! j) < VFS_MAX_MOUNTS \<and> m_in_use (v_mounts v ! fd_mount_id (v_fds v ! j)))"

lemma vfs_okD:
  assumes "vfs_ok v"
  shows "length (v_mounts v) = VFS_MAX_MOUNTS" "length (v_fds v) = VFS_MAX_FDS"
    "j < VFS_MAX_FDS \<Longrightarrow> fd_in_use (v_fds v ! j) \<Longrightarrow>
       fd_mount_id (v_fds v ! j) < VFS_MAX_MOUNTS \<and> m_in_use (v_mounts v ! fd_mount_id (v_fds v ! j))"
  using assms unfolding vfs_ok_def by blast+

text \<open>Changing one descriptor keeps the invariant if it is closed, keeps its mount, or names a
  mount in use.\<close>

lemma vfs_ok_fd:
  assumes ok: "vfs_ok v" and m: "v_mounts w = v_mounts v" and f: "v_fds w = (v_fds v)[j := d]"
    and d: "fd_in_use d \<Longrightarrow> fd_mount_id d < VFS_MAX_MOUNTS \<and> m_in_use (v_mounts v ! fd_mount_id d)"
  shows "vfs_ok w"
  unfolding vfs_ok_def
proof (intro conjI allI impI)
  fix k assume "k < VFS_MAX_FDS" "fd_in_use (v_fds w ! k)"
  then show "fd_mount_id (v_fds w ! k) < VFS_MAX_MOUNTS" "m_in_use (v_mounts w ! fd_mount_id (v_fds w ! k))"
    using vfs_okD [OF ok] d by (auto simp: m f nth_update_if split: if_splits)
qed (use vfs_okD [OF ok] m f in auto)

lemma vfs_ok_mount:
  assumes ok: "vfs_ok v" and f: "v_fds w = v_fds v" and m: "v_mounts w = (v_mounts v)[i := x]"
    and free: "\<not> m_in_use (v_mounts v ! i) \<or> (\<forall>j < VFS_MAX_FDS. fd_in_use (v_fds v ! j) \<longrightarrow> fd_mount_id (v_fds v ! j) \<noteq> i)"
  shows "vfs_ok w"
  unfolding vfs_ok_def
proof (intro conjI allI impI)
  fix k assume "k < VFS_MAX_FDS" "fd_in_use (v_fds w ! k)"
  then show "fd_mount_id (v_fds w ! k) < VFS_MAX_MOUNTS" "m_in_use (v_mounts w ! fd_mount_id (v_fds w ! k))"
    using vfs_okD [OF ok] free by (auto simp: m f nth_update_if)
qed (use vfs_okD [OF ok] m f in auto)

lemma vfs_close_ok: "vfs_ok v \<Longrightarrow> vfs_ok (snd (vfs_close fd v))"
  by (auto simp: vfs_close_def intro: vfs_ok_fd)

lemma vfs_close_fds:
  assumes "vfs_ok v" "j < VFS_MAX_FDS" "k < VFS_MAX_FDS"
  shows "v_fds (snd (vfs_close (int j) v)) ! k =
    (if k = j then (v_fds v ! j)\<lparr>fd_in_use := False\<rparr> else v_fds v ! k)"
  using assms vfs_okD(2) [OF assms(1)] by (auto simp: vfs_close_def fd_valid_def nth_update_if)

lemma vfs_close_mounts: "v_mounts (snd (vfs_close fd v)) = v_mounts v"
  by (simp add: vfs_close_def)

lemma close_fds_fold:
  fixes i :: nat and v :: "'f vfs_ctx"
  assumes "vfs_ok v" "set js \<subseteq> {..< VFS_MAX_FDS}"
  defines "g \<equiv> \<lambda>j v. if fd_in_use (v_fds v ! j) \<and> fd_mount_id (v_fds v ! j) = i then snd (vfs_close (int j) v) else v"
  shows "vfs_ok (fold g js v) \<and> v_mounts (fold g js v) = v_mounts v \<and>
    (\<forall>k < VFS_MAX_FDS. v_fds (fold g js v) ! k =
       (if k \<in> set js \<and> fd_in_use (v_fds v ! k) \<and> fd_mount_id (v_fds v ! k) = i
        then (v_fds v ! k)\<lparr>fd_in_use := False\<rparr> else v_fds v ! k))"
  using assms(1,2)
proof (induction js arbitrary: v)
  case (Cons j js)
  have ok: "vfs_ok (g j v)" using Cons.prems(1) vfs_close_ok by (auto simp: g_def)
  have j: "j < VFS_MAX_FDS" "set js \<subseteq> {..< VFS_MAX_FDS}" using Cons.prems(2) by auto
  have m: "v_mounts (g j v) = v_mounts v" by (simp add: g_def vfs_close_mounts)
  have f: "v_fds (g j v) ! k = (if k = j \<and> fd_in_use (v_fds v ! j) \<and> fd_mount_id (v_fds v ! j) = i
      then (v_fds v ! j)\<lparr>fd_in_use := False\<rparr> else v_fds v ! k)" if "k < VFS_MAX_FDS" for k
    using vfs_close_fds [OF Cons.prems(1) j(1) that] by (auto simp: g_def)
  from Cons.IH [OF ok j(2)] show ?case unfolding fold.simps comp_apply using m f by auto
qed simp

lemma close_mount_fds_ok:
  assumes "vfs_ok v"
  shows "vfs_ok (close_mount_fds i v)" "v_mounts (close_mount_fds i v) = v_mounts v"
    "k < VFS_MAX_FDS \<Longrightarrow> fd_in_use (v_fds (close_mount_fds i v) ! k) \<Longrightarrow> fd_mount_id (v_fds (close_mount_fds i v) ! k) \<noteq> i"
    "k < VFS_MAX_FDS \<Longrightarrow> fd_mount_id (v_fds v ! k) \<noteq> i \<Longrightarrow> v_fds (close_mount_fds i v) ! k = v_fds v ! k"
proof -
  have "set [0 ..< VFS_MAX_FDS] \<subseteq> {..< VFS_MAX_FDS}" by auto
  note C = close_fds_fold [OF assms this, where i = i, folded close_mount_fds_def]
  from C show "vfs_ok (close_mount_fds i v)" "v_mounts (close_mount_fds i v) = v_mounts v" by blast+
  from C have *: "v_fds (close_mount_fds i v) ! k = (if fd_in_use (v_fds v ! k) \<and> fd_mount_id (v_fds v ! k) = i
      then (v_fds v ! k)\<lparr>fd_in_use := False\<rparr> else v_fds v ! k)" if "k < VFS_MAX_FDS"
    using that by simp
  then show "k < VFS_MAX_FDS \<Longrightarrow> fd_in_use (v_fds (close_mount_fds i v) ! k) \<Longrightarrow>
      fd_mount_id (v_fds (close_mount_fds i v) ! k) \<noteq> i"
    "k < VFS_MAX_FDS \<Longrightarrow> fd_mount_id (v_fds v ! k) \<noteq> i \<Longrightarrow> v_fds (close_mount_fds i v) ! k = v_fds v ! k"
    by (auto split: if_splits)
qed

lemma vfs_umount_ok:
  assumes ok: "vfs_ok v" shows "vfs_ok (snd (vfs_umount mp v))"
proof (cases "first_idx (\<lambda>m. m_in_use m \<and> kstreq (m_point m) mp) (v_mounts v)")
  case (Some i)
  note C = close_mount_fds_ok [OF ok, where i = i]
  show ?thesis
    by (rule vfs_ok_mount [OF C(1)]) (use Some C(3) in \<open>auto simp: vfs_umount_def Let_def\<close>)
qed (simp add: vfs_umount_def ok)

lemma vfs_mount_ok:
  assumes ok: "vfs_ok v" shows "vfs_ok (snd (vfs_mount mp t fs v))"
proof (cases "first_idx (\<lambda>m. \<not> m_in_use m) (v_mounts v)")
  case (Some i)
  then have "\<not> m_in_use (v_mounts v ! i)" by (auto dest: first_idx_sat)
  with Some show ?thesis
    by (auto simp: vfs_mount_def Let_def intro: vfs_ok_mount [OF ok])
qed (simp add: vfs_mount_def ok)

lemma mount_open_frame:
  "v_mounts (snd (mount_open F m p fl v)) = v_mounts v" "v_fds (snd (mount_open F m p fl v)) = v_fds v"
  by (auto simp: mount_open_def split_beta Let_def)

lemma vfs_resolve_Done:
  assumes "vfs_resolve_path path v = Done (i, p)"
  shows "vfs_find_mount path v = Some i" "vfs_fs_path path (mount_len (v_mounts v ! i)) = Done p"
  using assms by (auto simp: vfs_resolve_path_def mount_len_def kstrlen_cstr split: option.splits io.splits)

text \<open>A successful open takes a descriptor that was free, for the mount found.\<close>

lemma vfs_open_Done:
  assumes r: "vfs_open F path flags v = Done (fd, w)" and fd: "fd \<noteq> -1"
  obtains i p h u where "vfs_resolve_path path v = Done (i, p)" "0 \<le> fd"
    "first_idx (\<lambda>d. \<not> fd_in_use d) (v_fds v) = Some (nat fd)" "mount_open F (v_mounts v ! i) p flags v = (Some h, u)"
    "w = u\<lparr>v_fds := (v_fds u)[nat fd := \<lparr>fd_in_use = True, fd_mount_id = i, fd_offset = 0, fd_flags = flags,
        fd_private = h, fd_fstype = m_fstype (v_mounts v ! i)\<rparr>]\<rparr>"
  using assms
  by (auto simp: vfs_open_def Let_def split: io.splits prod.splits option.splits)

lemma vfs_open_failed:
  assumes r: "vfs_open F path flags v = Done (-1, w)"
  shows "v_mounts w = v_mounts v \<and> v_fds w = v_fds v"
proof (cases "vfs_resolve_path path v")
  case (Done q)
  obtain i p where q: "q = (i, p)" by (cases q)
  obtain h u where m: "mount_open F (v_mounts v ! i) p flags v = (h, u)" by fastforce
  with mount_open_frame [of F "v_mounts v ! i" p flags v] r Done q show ?thesis
    by (cases "first_idx (\<lambda>d. \<not> fd_in_use d) (v_fds v)"; cases h) (auto simp: vfs_open_def Let_def)
qed (use r in \<open>auto simp: vfs_open_def\<close>)

lemma vfs_open_ok:
  assumes ok: "vfs_ok v" and r: "vfs_open F path flags v = Done (fd, w)"
  shows "vfs_ok w"
proof (cases "fd = -1")
  case True
  with vfs_open_failed [of F path flags v w] r ok show ?thesis by (simp add: vfs_ok_def)
next
  case False
  from r False obtain i p h u where o: "vfs_resolve_path path v = Done (i, p)"
    "mount_open F (v_mounts v ! i) p flags v = (Some h, u)"
    "w = u\<lparr>v_fds := (v_fds u)[nat fd := \<lparr>fd_in_use = True, fd_mount_id = i, fd_offset = 0, fd_flags = flags,
        fd_private = h, fd_fstype = m_fstype (v_mounts v ! i)\<rparr>]\<rparr>"
    by (rule vfs_open_Done)
  note M = vfs_find_mount_Some [OF vfs_resolve_Done(1) [OF o(1)]]
  have u: "v_mounts u = v_mounts v" "v_fds u = v_fds v" using mount_open_frame [of F "v_mounts v ! i" p flags v] o(2) by auto
  show ?thesis
    by (rule vfs_ok_fd [OF ok]) (use M vfs_okD(1) [OF ok] u o(3) in \<open>auto simp: mount_matches_def\<close>)
qed

lemma vfs_offset_ok:
  assumes ok: "vfs_ok v" and fd: "fd_valid fd v"
  shows "vfs_ok (v\<lparr>v_fds := (v_fds v)[nat fd := (v_fds v ! nat fd)\<lparr>fd_offset := x\<rparr>]\<rparr>)"
proof (rule vfs_ok_fd [OF ok])
  have "nat fd < VFS_MAX_FDS" "fd_in_use (v_fds v ! nat fd)" using fd by (auto simp: fd_valid_def)
  from vfs_okD(3) [OF ok this]
  show "fd_mount_id ((v_fds v ! nat fd)\<lparr>fd_offset := x\<rparr>) < VFS_MAX_MOUNTS \<and>
    m_in_use (v_mounts v ! fd_mount_id ((v_fds v ! nat fd)\<lparr>fd_offset := x\<rparr>))" by simp
qed simp_all

lemma vfs_seek_ok: "vfs_ok v \<Longrightarrow> vfs_ok (snd (vfs_seek fd off v))"
  by (simp add: vfs_seek_def vfs_offset_ok)

lemma vfs_read_ok: "vfs_ok v \<Longrightarrow> vfs_read fd sz v = Done (r, w) \<Longrightarrow> vfs_ok w"
  by (auto simp: vfs_read_def Let_def vfs_offset_ok split: if_splits io.splits)

lemma vfs_write_same: "vfs_write fd b sz v = Done (-1, v)"
  by (simp add: vfs_write_def Let_def vfs_fat_write_def vfs_ramfs_write_def)

section \<open>Runs\<close>

inductive vfs_run :: "'f fat_api \<Rightarrow> 'f vfs_ctx \<Rightarrow> bool" for F where
  init: "vfs_run F (vfs_init v)"
| mount: "vfs_run F v \<Longrightarrow> vfs_run F (snd (vfs_mount mp t fs v))"
| umount: "vfs_run F v \<Longrightarrow> vfs_run F (snd (vfs_umount mp v))"
| opened: "vfs_run F v \<Longrightarrow> vfs_open F path flags v = Done (fd, w) \<Longrightarrow> vfs_run F w"
| readf: "vfs_run F v \<Longrightarrow> vfs_read fd sz v = Done (r, w) \<Longrightarrow> vfs_run F w"
| writef: "vfs_run F v \<Longrightarrow> vfs_write fd b sz v = Done (n, w) \<Longrightarrow> vfs_run F w"
| closef: "vfs_run F v \<Longrightarrow> vfs_run F (snd (vfs_close fd v))"
| seek: "vfs_run F v \<Longrightarrow> vfs_run F (snd (vfs_seek fd off v))"

lemma vfs_init_ok: "vfs_ok (vfs_init v)"
  by (simp add: vfs_ok_def vfs_init_def zero_fd_def)

lemma vfs_run_ok: "vfs_run F v \<Longrightarrow> vfs_ok v"
  by (induction rule: vfs_run.induct)
     (auto simp: vfs_write_same intro: vfs_init_ok vfs_mount_ok vfs_umount_ok vfs_open_ok vfs_read_ok vfs_close_ok vfs_seek_ok)

section \<open>Properties\<close>

text \<open>Path resolution finds the longest mount point the path lies under, and fails exactly
  when there is none.\<close>

theorem vfs_find_mount_longest:
  "(\<forall>i. vfs_find_mount path v = Some i \<longrightarrow> i < length (v_mounts v) \<and> mount_matches path (v_mounts v ! i) \<and>
      list_all (\<lambda>m. mount_matches path m \<longrightarrow> mount_len m \<le> mount_len (v_mounts v ! i)) (v_mounts v)) \<and>
   (vfs_find_mount path v = None \<longrightarrow> list_all (\<lambda>m. \<not> mount_matches path m) (v_mounts v))"
  using vfs_find_mount_Some [of path v] vfs_find_mount_None [of path v] by (auto simp: list_all_iff)

text \<open>A FAT volume on the root and an in-memory file system on \<open>/r\<close>.\<close>

definition vfs_with :: "ramfs_ctx \<Rightarrow> malloc \<Rightarrow> unit vfs_ctx" where
  "vfs_with c mal = snd (vfs_mount [47, 114] 2 5 (snd (vfs_mount [47] 1 4 (vfs_init
     \<lparr>v_mounts = [], v_fds = [], v_next_fd = 0, v_initialized = False, w_ramfs = (\<lambda>_. c),
      w_fat = (\<lambda>_. ()), w_mal = mal\<rparr>))))"

abbreviation vfs_example :: "unit vfs_ctx" where
  "vfs_example \<equiv> vfs_with ramfs_example mal_zero"

lemma vfs_mount_frame:
  "w_ramfs (snd (vfs_mount mp t fs v)) = w_ramfs v" "w_mal (snd (vfs_mount mp t fs v)) = w_mal v"
  "v_fds (snd (vfs_mount mp t fs v)) = v_fds v"
  by (auto simp: vfs_mount_def Let_def split: option.splits)

lemma vfs_with_frame:
  "w_ramfs (vfs_with c mal) x = c" "w_mal (vfs_with c mal) = mal" "v_fds (vfs_with c mal) = replicate VFS_MAX_FDS zero_fd"
  by (simp_all add: vfs_with_def vfs_mount_frame) (simp_all add: vfs_init_def)

lemma vfs_with_mounts:
  "v_mounts (vfs_with c mal) =
     [\<lparr>m_in_use = True, m_point = 47 # replicate 255 0, m_fstype = 1, m_ctx = 4\<rparr>,
      \<lparr>m_in_use = True, m_point = 47 # 114 # replicate 254 0, m_fstype = 2, m_ctx = 5\<rparr>] @ replicate 6 zero_mount"
proof -
  have "vfs_mount_point [47] (replicate 256 0) = 47 # replicate 255 0"
    "vfs_mount_point [47, 114] (replicate 256 0) = 47 # 114 # replicate 254 0"
    by code_simp+
  moreover have "replicate VFS_MAX_MOUNTS zero_mount = zero_mount # zero_mount # replicate 6 zero_mount"
    by (simp add: VFS_MAX_MOUNTS_def numeral_eq_Suc)
  ultimately show ?thesis
    by (simp add: vfs_with_def vfs_init_def vfs_mount_def zero_mount_def vfs_consts Let_def)
qed

lemma vfs_with_find: "vfs_find_mount [47, 114, 47, 97] (vfs_with c mal) = Some (Suc 0)"
  "kstrlen [47, 114, 47, 97] < VFS_MAX_PATH_LEN"
  "below_mount (mount_len (v_mounts (vfs_with c mal) ! Suc 0)) [47, 114, 47, 97] = [47, 97]"
  unfolding vfs_find_mount_def vfs_with_mounts by code_simp+

theorem vfs_find_mount_longest_witness:
  "vfs_find_mount [47, 114, 47, 97] vfs_example = Some (Suc 0) \<and>
   list_all (\<lambda>m. mount_matches [47, 114, 47, 97] m = False \<or> mount_len m \<le> mount_len (v_mounts vfs_example ! Suc 0))
     (v_mounts vfs_example)"
proof -
  note f = vfs_with_find(1) [of ramfs_example mal_zero]
  with vfs_find_mount_longest [of "[47, 114, 47, 97]" vfs_example] show ?thesis
    by (auto simp: list_all_iff)
qed

text \<open>A path shorter than the path buffer resolves without leaving the buffer: the path
  handed to the file system is the part below the mount point, starting with a slash, and fits the buffer.\<close>

theorem vfs_resolve_in_bounds:
  assumes "kstrlen path < VFS_MAX_PATH_LEN" "vfs_find_mount path v = Some i"
  shows "vfs_resolve_path path v = Done (i, below_mount (mount_len (v_mounts v ! i)) path) \<and>
    length (below_mount (mount_len (v_mounts v ! i)) path) < VFS_MAX_PATH_LEN \<and>
    hd (below_mount (mount_len (v_mounts v ! i)) path) = 47"
  using vfs_resolve_short [OF assms] by blast

theorem vfs_resolve_in_bounds_witness:
  "vfs_resolve_path [47, 114, 47, 97] vfs_example = Done (Suc 0, [47, 97])"
  using vfs_resolve_in_bounds [OF vfs_with_find(2) vfs_with_find(1) [of ramfs_example mal_zero]]
  by (simp add: vfs_with_find(3))

text \<open>A longer path below the root mount makes the prepended slash push the terminator out of the
  buffer.\<close>

lemma vfs_long_path_faults:
  assumes "256 \<le> kstrlen path" "c_at (drop 1 path) 0 \<noteq> 47"
  shows "vfs_fs_path path 1 = Fault"
proof -
  have "c_at (take k (drop 1 path)) 0 = c_at (drop 1 path) 0" if "255 \<le> k" for k
    using that by (auto simp: c_at_def)
  with assms(2) have "c_at (take k (drop (Suc 0) path)) 0 \<noteq> 47" if "255 \<le> k" for k using that by simp
  with assms(1) show ?thesis by (auto simp: vfs_fs_path_def Let_def VFS_MAX_PATH_LEN_def)
qed

text \<open>C20: Descriptors and mounts. In every run of mounts, unmounts, opens, reads, writes, seeks and
  closes, each descriptor in use belongs to a mount that is in use, and a successful open
  returns a descriptor that was not in use.\<close>

theorem vfs_descriptors_are_mounted:
  assumes run: "vfs_run F v"
  shows "(\<forall>j < VFS_MAX_FDS. fd_in_use (v_fds v ! j) \<longrightarrow> m_in_use (v_mounts v ! fd_mount_id (v_fds v ! j))) \<and>
    (\<forall>path flags fd w. vfs_open F path flags v = Done (fd, w) \<longrightarrow> fd \<noteq> -1 \<longrightarrow>
       0 \<le> fd \<and> nat fd < VFS_MAX_FDS \<and> \<not> fd_in_use (v_fds v ! nat fd))"
proof -
  from vfs_run_ok [OF run] have ok: "vfs_ok v" .
  have "0 \<le> fd \<and> nat fd < VFS_MAX_FDS \<and> \<not> fd_in_use (v_fds v ! nat fd)"
    if "vfs_open F path flags v = Done (fd, w)" "fd \<noteq> -1" for path flags fd w
    using that
  proof (rule vfs_open_Done)
    assume "0 \<le> fd" "first_idx (\<lambda>d. \<not> fd_in_use d) (v_fds v) = Some (nat fd)"
    with first_idx_facts [OF this(2)] vfs_okD(2) [OF ok] show ?thesis by simp
  qed
  with vfs_okD(3) [OF ok] show ?thesis by blast
qed

definition no_fat :: "unit fat_api" where
  "no_fat = \<lparr>fat12_reload = (\<lambda>f. f), fat12_read_file_to_ram_ex = (\<lambda>_ _. None),
     fat12_write_file_ex = (\<lambda>_ _ f. (False, f)), fat12_read_root_dir = (\<lambda>_. None), fat12_resolve_dir = (\<lambda>_ _. None),
     fat12_read_dir_cluster = (\<lambda>_ _. None), fat12_display_name = (\<lambda>_ _. [])\<rparr>"

lemma vfs_example_run: "vfs_run no_fat (vfs_with c mal)"
  unfolding vfs_with_def by (intro vfs_run.mount vfs_run.init)

lemma vfs_example_open:
  obtains w where "vfs_open no_fat [47, 114, 47, 97] 0 vfs_example = Done (0, w)" "fd_in_use (v_fds w ! 0)"
proof -
  obtain b sz where r: "ramfs_read_file mal_zero [47, 97] ramfs_example = Some (b, sz)"
    using ramfs_read_available [of ramfs_example "[47, 97]" mal_zero] ramfs_run_refines [OF ramfs_example_run]
    by (auto simp: cstr_def mal_zero_def)
  have "vfs_resolve_path [47, 114, 47, 97] vfs_example = Done (Suc 0, [47, 97])"
    using vfs_resolve_short [OF vfs_with_find(2) vfs_with_find(1) [of ramfs_example mal_zero]]
    by (simp add: vfs_with_find(3))
  moreover have "first_idx (\<lambda>d. \<not> fd_in_use d) (v_fds vfs_example) = Some 0"
    by (rule first_idx_SomeI) (simp_all add: vfs_with_frame zero_fd_def VFS_MAX_FDS_def)
  moreover have "m_fstype (v_mounts vfs_example ! Suc 0) = 2" by (simp add: vfs_with_mounts)
  ultimately show ?thesis
    using r by (intro that)
      (auto simp: vfs_open_def Let_def vfs_with_frame mount_open_def VFS_FSTYPE_FAT_def vfs_ramfs_open_def VFS_MAX_FDS_def)
qed

theorem vfs_descriptors_are_mounted_witness:
  "\<exists>w. vfs_open no_fat [47, 114, 47, 97] 0 vfs_example = Done (0, w) \<and> fd_in_use (v_fds w ! 0) \<and>
     m_in_use (v_mounts w ! fd_mount_id (v_fds w ! 0))"
proof (rule vfs_example_open)
  fix w assume w: "vfs_open no_fat [47, 114, 47, 97] 0 vfs_example = Done (0, w)" "fd_in_use (v_fds w ! 0)"
  have "vfs_run no_fat w" by (rule vfs_run.opened [OF vfs_example_run w(1)])
  from vfs_descriptors_are_mounted [OF this] w show ?thesis by (auto simp: VFS_MAX_FDS_def)
qed

end
