(* ===== verification/Fat_Table.thy ===== *)
theory Fat_Table
  imports Prelude "HOL-Library.Monad_Syntax"
begin

text \<open>
  The file allocation table as bytes: packed 12-bit entries and 16-bit entries (\<open>src/fat.c\<close>), and the
  table of entry operations (\<open>src/fatent_ops.c\<close>). An access outside the table gives \<open>None\<close>.

  The locale \<open>fat_table\<close> is what the rest of the driver relies on: an entry that was set is read back
  cut to the width of the entries, and no other entry changes. Both formats are interpretations.
\<close>

section \<open>Buffers\<close>

definition rd_at :: "u8 list \<Rightarrow> nat \<Rightarrow> u8 option" where
  "rd_at b i = (if i < length b then Some (b ! i) else None)"

definition wr_at :: "u8 list \<Rightarrow> nat \<Rightarrow> u8 \<Rightarrow> u8 list option" where
  "wr_at b i v = (if i < length b then Some (b[i := v]) else None)"

section \<open>12-bit entries\<close>

definition fat12_value :: "bool \<Rightarrow> u8 \<Rightarrow> u8 \<Rightarrow> u16" where
  "fat12_value is_odd b0 b1 =
     ((if is_odd then drop_bit 4 (ucast b0) OR push_bit 4 (ucast b1)
       else ucast b0 OR push_bit 8 (ucast b1 AND 0x0F)) AND 0x0FFF)"

definition fat12_get_entry :: "u8 list \<Rightarrow> u16 \<Rightarrow> u16 option" where
  "fat12_get_entry fat cluster =
     (let off = unat cluster + unat cluster div 2
      in do {
           b0 \<leftarrow> rd_at fat off;
           b1 \<leftarrow> rd_at fat (off + 1);
           Some (fat12_value (cluster AND 1 \<noteq> 0) b0 b1)
         })"

definition fat12_set_entry :: "u8 list \<Rightarrow> u16 \<Rightarrow> u16 \<Rightarrow> u8 list option" where
  "fat12_set_entry fat cluster v =
     (let off = unat cluster + unat cluster div 2
      in if cluster AND 1 \<noteq> 0 then do {
           b0 \<leftarrow> rd_at fat off;
           fat \<leftarrow> wr_at fat off ((b0 AND 0x0F) OR ucast (push_bit 4 (v AND 0x0F)));
           wr_at fat (off + 1) (ucast (drop_bit 4 v AND 0xFF))
         }
         else do {
           fat \<leftarrow> wr_at fat off (ucast (v AND 0xFF));
           b1 \<leftarrow> rd_at fat (off + 1);
           wr_at fat (off + 1) ((b1 AND 0xF0) OR ucast (drop_bit 8 v AND 0x0F))
         })"

section \<open>16-bit entries\<close>

definition fat16_get_entry :: "u8 list \<Rightarrow> u16 \<Rightarrow> u16 option" where
  "fat16_get_entry fat cluster =
     (let off = unat cluster * 2
      in do {
           b0 \<leftarrow> rd_at fat off;
           b1 \<leftarrow> rd_at fat (off + 1);
           Some (ucast b0 OR push_bit 8 (ucast b1))
         })"

definition fat16_set_entry :: "u8 list \<Rightarrow> u16 \<Rightarrow> u16 \<Rightarrow> u8 list option" where
  "fat16_set_entry fat cluster v =
     (let off = unat cluster * 2
      in do {
           fat \<leftarrow> wr_at fat off (ucast (v AND 0xFF));
           wr_at fat (off + 1) (ucast (drop_bit 8 v))
         })"

section \<open>The table of entry operations\<close>

definition fat12_ops_get_entry :: "u8 list \<Rightarrow> u32 \<Rightarrow> u32 option" where
  "fat12_ops_get_entry fat cluster =
     (let off = cluster + cluster div 2
      in do {
           b0 \<leftarrow> rd_at fat (unat off);
           b1 \<leftarrow> rd_at fat (unat (off + 1));
           Some (ucast (fat12_value (cluster AND 1 \<noteq> 0) b0 b1))
         })"

definition fat12_ops_set_entry :: "u8 list \<Rightarrow> u32 \<Rightarrow> u32 \<Rightarrow> u8 list option" where
  "fat12_ops_set_entry fat cluster v =
     (let off = cluster + cluster div 2
      in if cluster AND 1 \<noteq> 0 then do {
           b0 \<leftarrow> rd_at fat (unat off);
           fat \<leftarrow> wr_at fat (unat off) ((b0 AND 0x0F) OR ucast (push_bit 4 (v AND 0x0F)));
           wr_at fat (unat (off + 1)) (ucast (drop_bit 4 v AND 0xFF))
         }
         else do {
           fat \<leftarrow> wr_at fat (unat off) (ucast (v AND 0xFF));
           b1 \<leftarrow> rd_at fat (unat (off + 1));
           wr_at fat (unat (off + 1)) ((b1 AND 0xF0) OR ucast (drop_bit 8 v AND 0x0F))
         })"

text \<open>The searches for a free entry: \<open>k\<close> entries are left from \<open>i\<close>.\<close>

fun fat12_find_free_loop :: "u8 list \<Rightarrow> nat \<Rightarrow> nat \<Rightarrow> u32 option" where
  "fat12_find_free_loop fat i 0 = Some 0xFFFFFFFF"
| "fat12_find_free_loop fat i (Suc k) = do {
     v \<leftarrow> fat12_ops_get_entry fat (of_nat i);
     if v = 0 then Some (of_nat i) else fat12_find_free_loop fat (Suc i) k
   }"

definition fat12_ops_find_free :: "u8 list \<Rightarrow> u32 \<Rightarrow> u32 option" where
  "fat12_ops_find_free fat start_cluster =
     (let i = (if start_cluster \<ge> 2 then unat start_cluster else 2) in fat12_find_free_loop fat i (2880 - i))"

definition fat12_ops_is_eof :: "u32 \<Rightarrow> bool" where "fat12_ops_is_eof v \<longleftrightarrow> v \<ge> 0xFF8 \<and> v \<le> 0xFFF"
definition fat12_ops_is_bad :: "u32 \<Rightarrow> bool" where "fat12_ops_is_bad v \<longleftrightarrow> v = 0xFF7"

definition fat16_ops_get_entry :: "u8 list \<Rightarrow> u32 \<Rightarrow> u32 option" where
  "fat16_ops_get_entry fat cluster = do {
     b0 \<leftarrow> rd_at fat (unat cluster * 2);
     b1 \<leftarrow> rd_at fat (unat cluster * 2 + 1);
     Some (ucast (ucast b0 OR push_bit 8 (ucast b1) :: u16))
   }"

definition fat16_ops_set_entry :: "u8 list \<Rightarrow> u32 \<Rightarrow> u32 \<Rightarrow> u8 list option" where
  "fat16_ops_set_entry fat cluster v = do {
     fat \<leftarrow> wr_at fat (unat cluster * 2) (ucast v);
     wr_at fat (unat cluster * 2 + 1) (ucast (drop_bit 8 v))
   }"

fun fat16_find_free_loop :: "u8 list \<Rightarrow> nat \<Rightarrow> nat \<Rightarrow> u32 option" where
  "fat16_find_free_loop fat i 0 = Some 0xFFFFFFFF"
| "fat16_find_free_loop fat i (Suc k) = do {
     v \<leftarrow> fat16_ops_get_entry fat (of_nat i);
     if v = 0 then Some (of_nat i) else fat16_find_free_loop fat (Suc i) k
   }"

definition fat16_ops_find_free :: "u8 list \<Rightarrow> u32 \<Rightarrow> u32 option" where
  "fat16_ops_find_free fat start_cluster =
     (let i = (if start_cluster \<ge> 2 then unat start_cluster else 2) in fat16_find_free_loop fat i (65525 - i))"

definition fat16_ops_is_eof :: "u32 \<Rightarrow> bool" where "fat16_ops_is_eof v \<longleftrightarrow> v \<ge> 0xFFF8 \<and> v \<le> 0xFFFF"
definition fat16_ops_is_bad :: "u32 \<Rightarrow> bool" where "fat16_ops_is_bad v \<longleftrightarrow> v = 0xFFF7"

section \<open>What the driver relies on\<close>

locale fat_table =
  fixes get_entry :: "u8 list \<Rightarrow> u16 \<Rightarrow> u16 option"
    and set_entry :: "u8 list \<Rightarrow> u16 \<Rightarrow> u16 \<Rightarrow> u8 list option"
    and cut :: "u16 \<Rightarrow> u16"
    and last_byte :: "u16 \<Rightarrow> nat"
  assumes get_inside: "last_byte c < length fat \<longleftrightarrow> (\<exists>v. get_entry fat c = Some v)"
    and set_inside: "last_byte c < length fat \<longleftrightarrow> (\<exists>fat'. set_entry fat c v = Some fat')"
    and set_length: "set_entry fat c v = Some fat' \<Longrightarrow> length fat' = length fat"
    and get_set: "set_entry fat c v = Some fat' \<Longrightarrow> get_entry fat' c' = (if c' = c then Some (cut v) else get_entry fat c')"
    and get_cut: "get_entry fat c = Some v \<Longrightarrow> cut v = v"
    and cut_zero: "cut 0 = 0"
begin

lemma set_twice:
  assumes "set_entry fat c v = Some fat1" "set_entry fat1 c v' = Some fat2"
  shows "get_entry fat2 c' = (if c' = c then Some (cut v') else get_entry fat c')"
  using get_set [OF assms(1)] get_set [OF assms(2)] by auto

lemma set_commute:
  assumes "c \<noteq> d" "set_entry fat c v = Some f1" "set_entry f1 d w = Some f2"
    and "set_entry fat d w = Some g1" "set_entry g1 c v = Some g2"
  shows "get_entry f2 = get_entry g2"
  using get_set [OF assms(2)] get_set [OF assms(3)] get_set [OF assms(4)] get_set [OF assms(5)] assms(1) by auto

end

section \<open>Both formats\<close>

lemma and_1_odd: "(c AND 1 \<noteq> 0) = odd (unat (c :: u16))" "(d AND 1 \<noteq> 0) = odd (unat (d :: u32))"
  by (simp_all add: and_one_eq odd_iff_mod_2_eq_one word_unat_eq_iff unat_mod)

lemma nibble_masks:
  "(0x0F :: 'a::len word) = mask 4" "(0xF0 :: 'a word) = push_bit 4 (mask 4)" "(0xFF :: 'a word) = mask 8"
  "(0x0FFF :: 'a word) = mask 12"
  by (simp_all add: mask_eq_exp_minus_1 push_bit_eq_mult)

lemma nibbles_cases: "(n < 4 \<Longrightarrow> P) \<Longrightarrow> (4 \<le> n \<Longrightarrow> n < 8 \<Longrightarrow> P) \<Longrightarrow> (8 \<le> n \<Longrightarrow> P) \<Longrightarrow> P" for n :: nat
  by linarith

lemma fat12_value_set:
  "fat12_value True ((b AND 0x0F) OR ucast (push_bit 4 (v AND 0x0F))) (ucast (drop_bit 4 v AND 0xFF)) = v AND 0x0FFF"
  "fat12_value False (ucast (v AND 0xFF)) ((b AND 0xF0) OR ucast (drop_bit 8 v AND 0x0F)) = v AND 0x0FFF"
  unfolding fat12_value_def nibble_masks
  by (rule bit_word_eqI; rule_tac n = n in nibbles_cases; auto simp: bit_simps dest: bit_imp_le_length)+

lemma fat12_value_keep:
  "fat12_value True ((b AND 0xF0) OR ucast (drop_bit 8 (v :: u16) AND 0x0F)) b1 = fat12_value True b b1"
  "fat12_value False b0 ((b AND 0x0F) OR ucast (push_bit 4 ((v :: u16) AND 0x0F))) = fat12_value False b0 b"
  unfolding fat12_value_def nibble_masks
  by (rule bit_word_eqI; rule_tac n = n in nibbles_cases; auto simp: bit_simps dest: bit_imp_le_length)+

lemma fat16_value: "ucast (ucast (v AND 0xFF) :: u8) OR push_bit 8 (ucast (ucast (drop_bit 8 v) :: u8)) = (v :: u16)"
  unfolding nibble_masks by (rule bit_word_eqI) (auto simp: bit_simps)

lemma rd_wr_at: "rd_at b i = Some x \<longleftrightarrow> i < length b \<and> x = b ! i" "wr_at b i v = Some b' \<longleftrightarrow> i < length b \<and> b' = b[i := v]"
  by (auto simp: rd_at_def wr_at_def)

lemma fat12_get_Some:
  "fat12_get_entry fat c = Some v \<longleftrightarrow> (let off = unat c + unat c div 2 in
     off + 1 < length fat \<and> v = fat12_value (odd (unat c)) (fat ! off) (fat ! (off + 1)))"
  by (auto simp: fat12_get_entry_def Let_def bind_eq_Some_conv rd_wr_at and_1_odd)

lemma fat12_set_Some:
  "fat12_set_entry fat c v = Some fat' \<longleftrightarrow> (let off = unat c + unat c div 2 in
     off + 1 < length fat \<and>
     fat' = (if odd (unat c)
             then fat[off := (fat ! off AND 0x0F) OR ucast (push_bit 4 (v AND 0x0F)), off + 1 := ucast (drop_bit 4 v AND 0xFF)]
             else fat[off := ucast (v AND 0xFF), off + 1 := (fat ! (off + 1) AND 0xF0) OR ucast (drop_bit 8 v AND 0x0F)]))"
  by (auto simp: fat12_set_entry_def Let_def bind_eq_Some_conv rd_wr_at and_1_odd)

text \<open>Two entries share a byte only as the halves of a pair of entries.\<close>

lemma fat12_offsets:
  fixes m n :: nat
  assumes "m \<noteq> n"
  defines "p \<equiv> m + m div 2" and "q \<equiv> n + n div 2"
  shows "q \<noteq> p \<and> q + 1 \<noteq> p \<and> q \<noteq> p + 1
    \<or> (even m \<and> odd n \<and> q = p + 1)
    \<or> (odd m \<and> even n \<and> q + 1 = p)"
proof -
  obtain a r where m: "m = 2 * a + r" "r < 2" using mult_div_mod_eq [of 2 m] by (metis mod_less_divisor zero_less_numeral)
  obtain b s where n: "n = 2 * b + s" "s < 2" using mult_div_mod_eq [of 2 n] by (metis mod_less_divisor zero_less_numeral)
  have "p = 3 * a + r" "q = 3 * b + s" unfolding p_def q_def m(1) n(1) using m(2) n(2) by auto
  moreover have "(r = 0 \<or> r = 1) \<and> (s = 0 \<or> s = 1)" using m(2) n(2) by auto
  ultimately show ?thesis using assms(1) unfolding m(1) n(1) by (elim conjE disjE) presburger+
qed

lemma fat12_get_set:
  assumes "fat12_set_entry fat c v = Some fat'"
  shows "fat12_get_entry fat' d = (if d = c then Some (v AND 0x0FFF) else fat12_get_entry fat d)"
proof -
  define off where "off = unat c + unat c div 2"
  define off' where "off' = unat d + unat d div 2"
  have r: "off + 1 < length fat" and f: "fat' = (if odd (unat c)
             then fat[off := (fat ! off AND 0x0F) OR ucast (push_bit 4 (v AND 0x0F)), off + 1 := ucast (drop_bit 4 v AND 0xFF)]
             else fat[off := ucast (v AND 0xFF), off + 1 := (fat ! (off + 1) AND 0xF0) OR ucast (drop_bit 8 v AND 0x0F)])"
    using assms by (simp_all add: fat12_set_Some Let_def off_def)
  have len: "length fat' = length fat" by (simp add: f)
  have g: "fat12_get_entry x d = (if off' + 1 < length x
      then Some (fat12_value (odd (unat d)) (x ! off') (x ! (off' + 1))) else None)" for x
    using fat12_get_Some [of x d] by (auto simp: Let_def off'_def fat12_get_entry_def rd_at_def and_1_odd split: bind_splits)
  show ?thesis
  proof (cases "d = c")
    case True
    then have "off' = off" by (simp add: off_def off'_def)
    with True r show ?thesis
      unfolding g len using fat12_value_set(1) [of "fat ! off" v] fat12_value_set(2) [of v "fat ! (off + 1)"] by (auto simp: f)
  next
    case False
    then have "unat c \<noteq> unat d" by (simp add: word_unat_eq_iff)
    from fat12_offsets [OF this] consider
        (apart) "off' \<noteq> off" "off' + 1 \<noteq> off" "off' \<noteq> off + 1"
      | (up) "even (unat c)" "odd (unat d)" "off' = off + 1"
      | (down) "odd (unat c)" "even (unat d)" "off' + 1 = off"
      by (auto simp: off_def off'_def)
    then show ?thesis
    proof cases
      case apart
      with False show ?thesis unfolding g len by (auto simp: f nth_list_update)
    next
      case up
      with False r show ?thesis
        unfolding g len using fat12_value_keep(1) [of "fat ! (off + 1)" v "fat ! (off + 2)"] by (auto simp: f)
    next
      case down
      with False r show ?thesis
        unfolding g len using fat12_value_keep(2) [of "fat ! off'" "fat ! off" v] by (auto simp: f)
    qed
  qed
qed

interpretation fat12: fat_table fat12_get_entry fat12_set_entry "\<lambda>v. v AND 0x0FFF" "\<lambda>c. unat c + unat c div 2 + 1"
proof unfold_locales
  show "unat c + unat c div 2 + 1 < length fat \<longleftrightarrow> (\<exists>v. fat12_get_entry fat c = Some v)" for c fat
    by (simp add: fat12_get_Some Let_def)
  show "unat c + unat c div 2 + 1 < length fat \<longleftrightarrow> (\<exists>fat'. fat12_set_entry fat c v = Some fat')" for c fat v
    by (simp add: fat12_set_Some Let_def)
  show "fat12_set_entry fat c v = Some fat' \<Longrightarrow> length fat' = length fat" for fat c v fat'
    by (auto simp: fat12_set_Some Let_def)
  show "fat12_set_entry fat c v = Some fat' \<Longrightarrow>
      fat12_get_entry fat' c' = (if c' = c then Some (v AND 0x0FFF) else fat12_get_entry fat c')" for fat c v fat' c'
    by (rule fat12_get_set)
  show "fat12_get_entry fat c = Some v \<Longrightarrow> v AND 0x0FFF = v" for fat c v
    by (simp add: fat12_get_Some Let_def fat12_value_def and.assoc)
  show "0 AND 0x0FFF = (0 :: u16)" by simp
qed

interpretation fat16: fat_table fat16_get_entry fat16_set_entry "\<lambda>v. v" "\<lambda>c. unat c * 2 + 1"
proof unfold_locales
  have g: "fat16_get_entry fat c = (if unat c * 2 + 1 < length fat
      then Some (ucast (fat ! (unat c * 2)) OR push_bit 8 (ucast (fat ! (unat c * 2 + 1)))) else None)" for fat c
    by (auto simp: fat16_get_entry_def Let_def rd_at_def)
  have s: "fat16_set_entry fat c v = Some fat' \<longleftrightarrow> unat c * 2 + 1 < length fat \<and>
      fat' = fat[unat c * 2 := ucast (v AND 0xFF), unat c * 2 + 1 := ucast (drop_bit 8 v)]" for fat c v fat'
    by (auto simp: fat16_set_entry_def Let_def bind_eq_Some_conv rd_wr_at)
  show "unat c * 2 + 1 < length fat \<longleftrightarrow> (\<exists>v. fat16_get_entry fat c = Some v)" for c fat
    by (simp add: g)
  show "unat c * 2 + 1 < length fat \<longleftrightarrow> (\<exists>fat'. fat16_set_entry fat c v = Some fat')" for c fat v
    by (simp add: s)
  show "fat16_set_entry fat c v = Some fat' \<Longrightarrow> length fat' = length fat" for fat c v fat'
    by (auto simp: s)
  show "fat16_set_entry fat c v = Some fat' \<Longrightarrow>
      fat16_get_entry fat' c' = (if c' = c then Some v else fat16_get_entry fat c')" for fat c v fat' c'
    by (auto simp: s g nth_list_update word_unat_eq_iff fat16_value)
qed simp_all

text \<open>Setting an entry of the table inside its bytes succeeds, the entry is read back cut to its
  width, and every other entry keeps its value, for the packed 12-bit format as for the 16-bit one.\<close>

theorem fat_entry_round_trip:
  assumes "unat c + unat c div 2 + 1 < length fat" and "unat d * 2 + 1 < length fat"
  shows "(\<exists>fat'. fat12_set_entry fat c v = Some fat' \<and> length fat' = length fat \<and>
      (\<forall>e. fat12_get_entry fat' e = (if e = c then Some (v AND 0x0FFF) else fat12_get_entry fat e))) \<and>
    (\<exists>fat'. fat16_set_entry fat d v = Some fat' \<and> length fat' = length fat \<and>
      (\<forall>e. fat16_get_entry fat' e = (if e = d then Some v else fat16_get_entry fat e)))"
  using assms fat12.set_inside [of c fat v] fat12.set_length [of fat c v] fat12.get_set [of fat c v]
    fat16.set_inside [of d fat v] fat16.set_length [of fat d v] fat16.get_set [of fat d v]
  by blast

theorem fat_entry_round_trip_witness:
  "\<exists>fat'. fat12_set_entry (replicate 8 0) 3 0xABC = Some fat' \<and> fat12_get_entry fat' 3 = Some 0xABC \<and>
     fat12_get_entry fat' 2 = fat12_get_entry (replicate 8 0) 2"
  using fat_entry_round_trip [where c = 3 and fat = "replicate 8 0" and d = 3 and v = "0xABC"] by auto

section \<open>The entry operations\<close>

lemma unat_word_of_cluster:
  "unat (ucast (c :: u16) + ucast c div 2 :: u32) = unat c + unat c div 2"
  "unat (ucast (c :: u16) + ucast c div 2 + 1 :: u32) = unat c + unat c div 2 + 1"
proof -
  have "unat c < 65536" using unsigned_less [of c] by simp
  then show "unat (ucast c + ucast c div 2 :: u32) = unat c + unat c div 2"
    "unat (ucast c + ucast c div 2 + 1 :: u32) = unat c + unat c div 2 + 1"
    by (simp_all add: unat_word_ariths unat_div unat_ucast_up)
qed

lemma ucast_nibbles:
  "ucast (push_bit 4 (ucast (v :: u16) AND 0x0F :: u32)) = (ucast (push_bit 4 (v AND 0x0F)) :: u8)"
  "ucast (drop_bit 4 (ucast v :: u32) AND 0xFF) = (ucast (drop_bit 4 v AND 0xFF) :: u8)"
  "ucast (ucast v AND 0xFF :: u32) = (ucast (v AND 0xFF) :: u8)"
  "ucast (drop_bit 8 (ucast v :: u32) AND 0x0F) = (ucast (drop_bit 8 v AND 0x0F) :: u8)"
  "ucast (ucast v :: u32) = (ucast (v AND 0xFF) :: u8)"
  "ucast (drop_bit 8 (ucast v :: u32)) = (ucast (drop_bit 8 v) :: u8)"
  unfolding nibble_masks by (rule bit_word_eqI; auto simp: bit_simps dest: bit_imp_le_length)+

text \<open>The operations tables of \<open>fatent_ops.c\<close> compute the same as the functions of \<open>fat.c\<close>.\<close>

theorem fat_ops_agree:
  "fat12_ops_get_entry fat (ucast c) = map_option ucast (fat12_get_entry fat c)
   \<and> fat12_ops_set_entry fat (ucast c) (ucast v) = fat12_set_entry fat c v
   \<and> fat16_ops_get_entry fat (ucast c) = map_option ucast (fat16_get_entry fat c)
   \<and> fat16_ops_set_entry fat (ucast c) (ucast v) = fat16_set_entry fat c v"
proof (intro conjI)
  have o: "((ucast c :: u32) AND 1 \<noteq> 0) = (c AND 1 \<noteq> 0)"
    by (simp only: and_1_odd) (simp add: unat_ucast_up)
  show "fat12_ops_get_entry fat (ucast c) = map_option ucast (fat12_get_entry fat c)"
    unfolding fat12_ops_get_entry_def fat12_get_entry_def Let_def unat_word_of_cluster o map_conv_bind_option
    by (simp add: bind_assoc)
  show "fat12_ops_set_entry fat (ucast c) (ucast v) = fat12_set_entry fat c v"
    unfolding fat12_ops_set_entry_def fat12_set_entry_def Let_def unat_word_of_cluster o ucast_nibbles(1-4) ..
  show "fat16_ops_get_entry fat (ucast c) = map_option ucast (fat16_get_entry fat c)"
    unfolding fat16_ops_get_entry_def fat16_get_entry_def Let_def map_conv_bind_option
    by (simp add: bind_assoc unat_ucast_up)
  show "fat16_ops_set_entry fat (ucast c) (ucast v) = fat16_set_entry fat c v"
    unfolding fat16_ops_set_entry_def fat16_set_entry_def Let_def ucast_nibbles(5,6)
    by (simp add: unat_ucast_up)
qed

end
