(* ===== verification/Fat_Name.thy ===== *)
theory Fat_Name
  imports KString
begin

text \<open>
  File names on a FAT volume (\<open>src/fat.c\<close>): 8.3 names in directory entries of 32 bytes, and the
  long-name (LFN) entries written in front of them. A directory is the list of its bytes;
  \<open>ent_at dir i\<close> is its \<open>i\<close>-th entry, and a \<open>struct fat12_dirent\<close> is the list of its 32 bytes.
\<close>

definition FAT_ATTR_LFN :: u8 where "FAT_ATTR_LFN = 0x0F"
definition FAT_LFN_LAST :: u8 where "FAT_LFN_LAST = 0x40"

lemmas lfn_consts = FAT_ATTR_LFN_def FAT_LFN_LAST_def

section \<open>Directory entries\<close>

definition ent_at :: "u8 list \<Rightarrow> nat \<Rightarrow> u8 list" where
  "ent_at dir i = take 32 (drop (i * 32) dir)"

definition le16 :: "u16 \<Rightarrow> u8 list" where
  "le16 w = [ucast w, ucast (drop_bit 8 w)]"

definition le16_at :: "u8 list \<Rightarrow> nat \<Rightarrow> u16" where
  "le16_at e i = ucast (e ! i) OR push_bit 8 (ucast (e ! (i + 1)))"

definition le32 :: "u32 \<Rightarrow> u8 list" where
  "le32 w = [ucast w, ucast (drop_bit 8 w), ucast (drop_bit 16 w), ucast (drop_bit 24 w)]"

definition le32_at :: "u8 list \<Rightarrow> nat \<Rightarrow> u32" where
  "le32_at e i = ucast (e ! i) OR push_bit 8 (ucast (e ! (i + 1))) OR push_bit 16 (ucast (e ! (i + 2)))
     OR push_bit 24 (ucast (e ! (i + 3)))"

definition de_name :: "u8 list \<Rightarrow> u8 list" where "de_name e = take 11 e"
definition de_attr :: "u8 list \<Rightarrow> u8" where "de_attr e = e ! 11"
definition de_cluster :: "u8 list \<Rightarrow> u16" where "de_cluster e = le16_at e 26"
definition de_size :: "u8 list \<Rightarrow> u32" where "de_size e = le32_at e 28"
definition de_checksum :: "u8 list \<Rightarrow> u8" where "de_checksum e = e ! 13"

section \<open>8.3 names\<close>

fun to_83_loop :: "u8 list \<Rightarrow> bool \<Rightarrow> nat \<Rightarrow> u8 list \<Rightarrow> u8 list" where
  "to_83_loop [] in_ext o11 out11 = out11"
| "to_83_loop (c # cs) in_ext o11 out11 =
     (if c = 46 then to_83_loop cs True 8 out11
      else
        let c = (if c \<ge> 97 \<and> c \<le> 122 then c - 97 + 65 else c)
        in if \<not> in_ext then
             if o11 < 8 then to_83_loop cs in_ext (o11 + 1) (out11[o11 := c]) else to_83_loop cs in_ext o11 out11
           else
             if o11 < 11 then to_83_loop cs in_ext (o11 + 1) (out11[o11 := c]) else to_83_loop cs in_ext o11 out11)"

definition fat12_to_83 :: "u8 list \<Rightarrow> u8 list" where
  "fat12_to_83 s = to_83_loop (cstr s) False 0 (replicate 11 32)"

definition fat12_name_eq :: "u8 list \<Rightarrow> u8 list \<Rightarrow> bool" where
  "fat12_name_eq name11 target11 \<longleftrightarrow> (\<forall>i < 11. name11 ! i = target11 ! i)"

definition fat12_format_name :: "u8 list \<Rightarrow> u8 list" where
  "fat12_format_name name =
     (let base = takeWhile (\<lambda>c. c \<noteq> 32) (take 8 name);
          ext = take 3 (drop 8 name)
      in if (\<exists>c \<in> set ext. c \<noteq> 32) then base @ 46 # takeWhile (\<lambda>c. c \<noteq> 32) ext else base)"

definition to_upper :: "u8 \<Rightarrow> u8" where
  "to_upper c = (if c \<ge> 97 \<and> c \<le> 122 then c - 97 + 65 else c)"

fun kstreq_local :: "u8 list \<Rightarrow> u8 list \<Rightarrow> bool" where
  "kstreq_local (a # as) (b # bs) =
     (if a \<noteq> 0 \<and> b \<noteq> 0 then (if a \<noteq> b then False else kstreq_local as bs) else a = b)"
| "kstreq_local as bs = (c_at as 0 = c_at bs 0)"

fun kstreq_local_nocase :: "u8 list \<Rightarrow> u8 list \<Rightarrow> bool" where
  "kstreq_local_nocase (a # as) (b # bs) =
     (if a \<noteq> 0 \<and> b \<noteq> 0 then (if to_upper a \<noteq> to_upper b then False else kstreq_local_nocase as bs) else a = b)"
| "kstreq_local_nocase as bs = (c_at as 0 = c_at bs 0)"

section \<open>Long names\<close>

definition fat_lfn_checksum :: "u8 list \<Rightarrow> u8" where
  "fat_lfn_checksum name83 =
     fold (\<lambda>c s. (if s AND 1 \<noteq> 0 then 0x80 else 0) + drop_bit 1 s + c) (take 11 name83) 0"

text \<open>The 13 UTF-16 characters of a long-name entry, in their three fields.\<close>

definition lfn_wchars :: "u8 list \<Rightarrow> u16 list" where
  "lfn_wchars e = map (le16_at e) ([1, 3, 5, 7, 9] @ [14, 16, 18, 20, 22, 24] @ [28, 30])"

text \<open>The backwards count: \<open>k\<close> entries lie before the 8.3 entry or the long-name entry last seen.\<close>

fun lfn_count_back :: "u8 list \<Rightarrow> u8 \<Rightarrow> nat \<Rightarrow> nat" where
  "lfn_count_back dir expected 0 = 0"
| "lfn_count_back dir expected (Suc k) =
     (let lfn = ent_at dir k
      in if de_attr lfn \<noteq> FAT_ATTR_LFN \<or> de_checksum lfn \<noteq> expected then 0
         else if lfn ! 0 AND FAT_LFN_LAST \<noteq> 0 then 1
         else Suc (lfn_count_back dir expected k))"

fun lfn_take :: "u16 list \<Rightarrow> nat \<Rightarrow> u8 list" where
  "lfn_take [] room = []"
| "lfn_take (w # ws) room =
     (if room = 0 then [] else if w = 0 \<or> w = 0xFFFF then [] else ucast w # lfn_take ws (room - 1))"

definition fat_extract_lfn :: "u8 list \<Rightarrow> nat \<Rightarrow> nat \<Rightarrow> u8 list option" where
  "fat_extract_lfn dir i max_len =
     (let sfn = ent_at dir i;
          expected = (if de_attr sfn \<noteq> FAT_ATTR_LFN then fat_lfn_checksum (de_name sfn) else 0);
          lfn_count = lfn_count_back dir expected i
      in if lfn_count = 0 then None
         else Some (lfn_take (concat (map (\<lambda>k. lfn_wchars (ent_at dir k)) [i - lfn_count..<i])) (max_len - 1)))"

definition fat12_display_name :: "u8 list \<Rightarrow> nat \<Rightarrow> nat \<Rightarrow> u8 list" where
  "fat12_display_name dir i max_len =
     (case (if i \<ge> 1 then fat_extract_lfn dir i max_len else None) of
        Some s \<Rightarrow> s
      | None \<Rightarrow> if max_len < 13 then [] else fat12_format_name (de_name (ent_at dir i)))"

definition lfn_entry :: "u8 \<Rightarrow> u8 \<Rightarrow> u16 list \<Rightarrow> u8 list" where
  "lfn_entry seq checksum ws =
     [seq] @ concat (map le16 (take 5 ws)) @ [FAT_ATTR_LFN, 0, checksum] @
     concat (map le16 (take 6 (drop 5 ws))) @ [0, 0] @ concat (map le16 (drop 11 ws))"

text \<open>The characters from \<open>utf16_pos\<close> on, with 0xFFFF after the end of the name.\<close>

definition lfn_chunk :: "u8 list \<Rightarrow> nat \<Rightarrow> u16 list" where
  "lfn_chunk name utf16_pos =
     map (\<lambda>i. if i < length name then ucast (name ! i) else 0xFFFF) [utf16_pos..<utf16_pos + 13]"

definition lfn_slots_of :: "u8 list \<Rightarrow> nat" where
  "lfn_slots_of name = (let n = (length name + 12) div 13 in if n > 20 then 20 else n)"

definition lfn_entries_of :: "u8 list \<Rightarrow> u8 list \<Rightarrow> u8 list" where
  "lfn_entries_of name name83 =
     (let n = lfn_slots_of name
      in concat (map (\<lambda>entry. lfn_entry
            (if entry = n - 1 then of_nat (entry + 1) OR FAT_LFN_LAST else of_nat (entry + 1))
            (fat_lfn_checksum name83) (lfn_chunk name (13 * (n - 1 - entry)))) [0..<n]))"

text \<open>\<open>fat_create_lfn_entries\<close> writes at byte \<open>off\<close> of the directory; \<open>None\<close> is its result 0.\<close>

definition fat_create_lfn_entries :: "malloc \<Rightarrow> u8 list \<Rightarrow> u8 list \<Rightarrow> nat \<Rightarrow> u8 list \<Rightarrow> (nat \<times> u8 list) option" where
  "fat_create_lfn_entries mal long_name name83 off dir =
     (let name = cstr long_name
      in if name = [] then None
         else if mal (of_nat (length name + 1) * 2) = None then None
         else
           let es = lfn_entries_of name name83
           in Some (lfn_slots_of name, take off dir @ es @ drop (off + length es) dir))"

section \<open>Bytes of the entries\<close>

lemma le16_at_le16: "le16_at (xs @ le16 w @ ys) (length xs) = w"
  unfolding le16_at_def le16_def
  by (rule bit_word_eqI) (auto simp: nth_append bit_simps)

lemma le32_at_le32: "le32_at (xs @ le32 w @ ys) (length xs) = w"
proof (rule bit_word_eqI)
  fix n
  assume "n < LENGTH(32)"
  consider "n < 8" | "8 \<le> n \<and> n < 16" | "16 \<le> n \<and> n < 24" | "24 \<le> n" by linarith
  then show "bit (le32_at (xs @ le32 w @ ys) (length xs)) n = bit w n"
    using \<open>n < LENGTH(32)\<close> by cases (auto simp: le32_at_def le32_def nth_append bit_simps)
qed

lemma lfn_entry_fields:
  assumes "length ws = 13"
  shows "length (lfn_entry s ck ws) = 32" "lfn_entry s ck ws ! 0 = s" "de_attr (lfn_entry s ck ws) = FAT_ATTR_LFN"
    "de_checksum (lfn_entry s ck ws) = ck" "lfn_wchars (lfn_entry s ck ws) = ws"
proof -
  obtain a b c d e f g h i j k l m where ws: "ws = [a, b, c, d, e, f, g, h, i, j, k, l, m]"
    using assms by (auto simp: length_Suc_conv eval_nat_numeral)
  have w: "ucast (ucast x :: u8) OR push_bit 8 (ucast (ucast (drop_bit 8 x) :: u8)) = x" for x :: u16
    by (rule bit_word_eqI) (auto simp: bit_simps)
  show "length (lfn_entry s ck ws) = 32" "lfn_entry s ck ws ! 0 = s" "de_attr (lfn_entry s ck ws) = FAT_ATTR_LFN"
    "de_checksum (lfn_entry s ck ws) = ck"
    by (simp_all add: ws lfn_entry_def le16_def de_attr_def de_checksum_def)
  show "lfn_wchars (lfn_entry s ck ws) = ws"
    by (simp add: ws lfn_entry_def lfn_wchars_def le16_at_def le16_def w)
qed

lemma lfn_chunk_length [simp]: "length (lfn_chunk name p) = 13"
  by (simp add: lfn_chunk_def)

lemma ent_at_append: "length xs = 32 * k \<Longrightarrow> length e = 32 \<Longrightarrow> ent_at (xs @ e @ ys) k = e"
  by (simp add: ent_at_def mult.commute)

lemma concat_const_length: "(\<And>x. x \<in> set xs \<Longrightarrow> length (f x) = n) \<Longrightarrow> length (concat (map f xs)) = length xs * n"
  by (induction xs) auto

section \<open>What is read back of a long name\<close>

text \<open>The entry just before the 8.3 entry carries the first 13 characters and the mark of the last
  entry.\<close>

lemma lfn_entries_split:
  assumes "name \<noteq> []"
  obtains es where "lfn_entries_of name name83 =
      es @ lfn_entry (of_nat (lfn_slots_of name) OR FAT_LFN_LAST) (fat_lfn_checksum name83) (lfn_chunk name 0)"
    and "length es = 32 * (lfn_slots_of name - 1)"
proof -
  define n where "n = lfn_slots_of name"
  have n: "n \<ge> 1" using assms unfolding n_def lfn_slots_of_def Let_def by (cases name) auto
  let ?f = "\<lambda>entry. lfn_entry (if entry = n - 1 then of_nat (entry + 1) OR FAT_LFN_LAST else of_nat (entry + 1))
            (fat_lfn_checksum name83) (lfn_chunk name (13 * (n - 1 - entry)))"
  have "[0..<n] = [0..<n - 1] @ [n - 1]" using n upt_Suc_append [of 0 "n - 1"] by simp
  then have "lfn_entries_of name name83 = concat (map ?f [0..<n - 1]) @ ?f (n - 1)"
    unfolding lfn_entries_of_def Let_def n_def [symmetric] by simp
  moreover have "length (concat (map ?f [0..<n - 1])) = 32 * (n - 1)"
    by (subst concat_const_length [where n = 32]) (simp_all add: lfn_entry_fields)
  moreover have "?f (n - 1) = lfn_entry (of_nat n OR FAT_LFN_LAST) (fat_lfn_checksum name83) (lfn_chunk name 0)"
    using n by simp
  ultimately show ?thesis using that [of "concat (map ?f [0..<n - 1])"] by (simp add: n_def)
qed

lemma last_mark: "(of_nat k OR FAT_LFN_LAST :: u8) AND FAT_LFN_LAST \<noteq> 0"
proof -
  have "bit ((of_nat k OR FAT_LFN_LAST :: u8) AND FAT_LFN_LAST) 6"
    by (simp add: lfn_consts bit_simps)
  then show ?thesis by auto
qed

lemma lfn_take_chunk:
  assumes "0 \<notin> set name" "room \<ge> 13"
  shows "lfn_take (lfn_chunk name 0) room = take 13 name"
proof -
  have "lfn_take (map (\<lambda>i. if i < length name then ucast (name ! i) else 0xFFFF) [p..<p + k]) room = take k (drop p name)"
    if "k \<le> room" for p k
    using that
  proof (induction k arbitrary: p room)
    case 0
    then show ?case by simp
  next
    case (Suc k)
    have u: "[p..<p + Suc k] = p # [Suc p..<Suc p + k]" by (simp add: upt_conv_Cons)
    show ?case
    proof (cases "p < length name")
      case True
      then have "name ! p \<noteq> 0" using assms(1) by (metis nth_mem)
      moreover have v: "unat (ucast (name ! p) :: u16) = unat (name ! p)" "unat (name ! p) < 256"
        using unsigned_less [of "name ! p"] by (simp_all add: unat_ucast_up)
      moreover have "ucast (ucast (name ! p) :: u16) = name ! p"
        by (rule bit_word_eqI) (simp add: bit_simps)
      moreover from calculation have "(ucast (name ! p) :: u16) \<noteq> 0" "(ucast (name ! p) :: u16) \<noteq> 0xFFFF"
        by (simp_all add: word_unat_eq_iff)
      ultimately show ?thesis
        unfolding u using Suc.IH [of "room - 1" "Suc p"] Suc.prems True
        by (simp add: Cons_nth_drop_Suc [symmetric] del: upt_Suc)
    next
      case False
      then show ?thesis unfolding u using Suc.prems by (simp del: upt_Suc)
    qed
  qed
  from this [of 13 0] assms(2) show ?thesis by (simp add: lfn_chunk_def)
qed

lemma extract_created:
  assumes name: "name \<noteq> []" "0 \<notin> set name" and d: "length before = 32 * k"
    and e: "length sfn = 32" "de_attr sfn \<noteq> FAT_ATTR_LFN" and max: "max_len \<ge> 14"
  shows "fat_extract_lfn (before @ lfn_entries_of name (de_name sfn) @ sfn @ rest) (k + lfn_slots_of name) max_len
         = Some (take 13 name)"
proof -
  obtain es where es: "lfn_entries_of name (de_name sfn) =
      es @ lfn_entry (of_nat (lfn_slots_of name) OR FAT_LFN_LAST) (fat_lfn_checksum (de_name sfn)) (lfn_chunk name 0)"
    and les: "length es = 32 * (lfn_slots_of name - 1)"
    using lfn_entries_split [OF name(1)] by blast
  define m where "m = lfn_slots_of name - 1"
  have m: "lfn_slots_of name = Suc m"
    using name(1) unfolding m_def lfn_slots_of_def Let_def by (cases name) auto
  let ?l = "lfn_entry (of_nat (Suc m) OR FAT_LFN_LAST) (fat_lfn_checksum (de_name sfn)) (lfn_chunk name 0)"
  let ?dir = "before @ lfn_entries_of name (de_name sfn) @ sfn @ rest"
  have dir: "?dir = (before @ es) @ ?l @ sfn @ rest" "?dir = (before @ es @ ?l) @ sfn @ rest"
    unfolding es m by simp_all
  have s: "ent_at ?dir (k + Suc m) = sfn"
    unfolding dir(2) by (rule ent_at_append) (use d les e in \<open>simp_all add: m lfn_entry_fields\<close>)
  have l: "ent_at ?dir (k + m) = ?l"
    unfolding dir(1) by (rule ent_at_append) (use d les in \<open>simp_all add: m lfn_entry_fields\<close>)
  have c: "lfn_count_back ?dir (fat_lfn_checksum (de_name sfn)) (Suc (k + m)) = 1"
    using last_mark [of "Suc m"] by (simp add: l lfn_entry_fields Let_def)
  show ?thesis
    unfolding fat_extract_lfn_def m using e s c l lfn_take_chunk [OF name(2), of "max_len - 1"] max
    by (simp add: lfn_entry_fields)
qed



text \<open>Longer names do not: the search backwards stops at the mark of the last entry, which the code
  puts on the entry next to the 8.3 entry, so only the first 13 characters are read back.\<close>

lemma lfn_loses_tail:
  assumes "length long_name > 13" "0 \<notin> set long_name" "length before = 32 * k"
    and "length sfn = 32" "de_attr sfn \<noteq> FAT_ATTR_LFN"
  shows "fat_extract_lfn (before @ lfn_entries_of long_name (de_name sfn) @ sfn @ rest) (k + lfn_slots_of long_name) 256
    = Some (take 13 long_name)" "take 13 long_name \<noteq> long_name"
proof -
  have "long_name \<noteq> []" using assms(1) by auto
  then show "fat_extract_lfn (before @ lfn_entries_of long_name (de_name sfn) @ sfn @ rest) (k + lfn_slots_of long_name) 256
    = Some (take 13 long_name)" using assms(2-) by (rule extract_created) simp
  show "take 13 long_name \<noteq> long_name" using assms(1) by (metis length_take min_less_iff_conj not_less_iff_gr_or_eq)
qed

section \<open>8.3 names read back\<close>

lemma to_83_base:
  assumes "46 \<notin> set base" "length base \<le> 8 - n" "length out = 11" "n \<le> 8"
  shows "to_83_loop (base @ cs) False n out =
    to_83_loop cs False (n + length base) (take n out @ map to_upper base @ drop (n + length base) out)"
  using assms
proof (induction base arbitrary: n out)
  case Nil
  then show ?case by simp
next
  case (Cons c base)
  have "n < 8" using Cons.prems by simp
  then have "to_83_loop ((c # base) @ cs) False n out = to_83_loop (base @ cs) False (n + 1) (out[n := to_upper c])"
    using Cons.prems(1) by (simp add: to_upper_def Let_def)
  also have "\<dots> = to_83_loop cs False (n + 1 + length base)
      (take (n + 1) (out[n := to_upper c]) @ map to_upper base @ drop (n + 1 + length base) (out[n := to_upper c]))"
    using Cons.prems by (intro Cons.IH) auto
  also have "take (n + 1) (out[n := to_upper c]) = take n out @ [to_upper c]"
    using Cons.prems by (simp add: take_Suc_conv_app_nth)
  finally show ?case using Cons.prems by simp
qed

lemma to_83_ext:
  assumes "46 \<notin> set ext" "n + length ext \<le> 11" "length out = 11"
  shows "to_83_loop ext True n out = take n out @ map to_upper ext @ drop (n + length ext) out"
  using assms
proof (induction ext arbitrary: n out)
  case Nil
  then show ?case by simp
next
  case (Cons c ext)
  then have "to_83_loop (c # ext) True n out = to_83_loop ext True (n + 1) (out[n := to_upper c])"
    by (simp add: to_upper_def Let_def)
  also have "\<dots> = take (n + 1) (out[n := to_upper c]) @ map to_upper ext @ drop (n + 1 + length ext) (out[n := to_upper c])"
    using Cons.prems by (intro Cons.IH) auto
  also have "take (n + 1) (out[n := to_upper c]) = take n out @ [to_upper c]"
    using Cons.prems by (simp add: take_Suc_conv_app_nth)
  finally show ?case using Cons.prems by simp
qed

lemma takeWhile_pad: "32 \<notin> set xs \<Longrightarrow> takeWhile (\<lambda>c. c \<noteq> 32) (xs @ replicate n (32 :: u8)) = xs"
  by (induction xs) (auto simp: takeWhile_replicate)

lemma to_upper_not_space: "c \<noteq> 32 \<Longrightarrow> to_upper c \<noteq> 32"
proof -
  assume "c \<noteq> 32"
  moreover have "c - 97 + 65 \<noteq> 32" if "97 \<le> c" "c \<le> 122" for c :: u8
  proof
    assume "c - 97 + 65 = 32"
    then have "c = 64" by (simp add: algebra_simps) 
    with that show False by simp
  qed
  ultimately show ?thesis by (simp add: to_upper_def)
qed

text \<open>An 8.3 name is stored in upper case and comes back as it was typed, up to case: the stored
  form of \<open>base.ext\<close> is the padded upper-case name, its display form \<open>BASE.EXT\<close>.\<close>

theorem name_83_round_trip:
  assumes "length base \<le> 8" "1 \<le> length ext" "length ext \<le> 3"
    and "set (base @ ext) \<inter> {0, 32, 46} = {}"
  shows "fat12_to_83 (base @ 46 # ext) =
      map to_upper base @ replicate (8 - length base) 32 @ map to_upper ext @ replicate (3 - length ext) 32
    \<and> fat12_format_name (fat12_to_83 (base @ 46 # ext)) = map to_upper (base @ 46 # ext)"
proof -
  have dots: "46 \<notin> set base" "46 \<notin> set ext" and sp: "32 \<notin> set (map to_upper base)" "32 \<notin> set (map to_upper ext)"
    and nul: "0 \<notin> set (base @ 46 # ext)"
    using assms(4) by (auto simp: image_iff) (metis to_upper_not_space)+
  have "fat12_to_83 (base @ 46 # ext) = to_83_loop (base @ 46 # ext) False 0 (replicate 11 32)"
    unfolding fat12_to_83_def cstr_id [OF nul] ..
  also have "\<dots> = to_83_loop (46 # ext) False (length base) (map to_upper base @ drop (length base) (replicate 11 32))"
    using to_83_base [OF dots(1), of 0 "replicate 11 32" "46 # ext"] assms(1) by simp
  also have "\<dots> = to_83_loop ext True 8 (map to_upper base @ replicate (11 - length base) 32)"
    by simp
  also have "\<dots> = take 8 (map to_upper base @ replicate (11 - length base) 32) @ map to_upper ext @
      drop (8 + length ext) (map to_upper base @ replicate (11 - length base) 32)"
    using dots(2) assms by (intro to_83_ext) auto
  also have "\<dots> = map to_upper base @ replicate (8 - length base) 32 @ map to_upper ext @ replicate (3 - length ext) 32"
    using assms(1,3) by (simp add: min_def)
  finally have st: "fat12_to_83 (base @ 46 # ext) =
      map to_upper base @ replicate (8 - length base) 32 @ map to_upper ext @ replicate (3 - length ext) 32" .
  have t: "take 8 (fat12_to_83 (base @ 46 # ext)) = map to_upper base @ replicate (8 - length base) 32"
    "take 3 (drop 8 (fat12_to_83 (base @ 46 # ext))) = map to_upper ext @ replicate (3 - length ext) 32"
    unfolding st using assms(1,3) by simp_all
  have "\<exists>c \<in> set (map to_upper ext). c \<noteq> 32" using sp(2) assms(2) by (cases ext) auto
  then have "fat12_format_name (fat12_to_83 (base @ 46 # ext)) = map to_upper (base @ 46 # ext)"
    unfolding fat12_format_name_def t Let_def using sp by (simp add: takeWhile_pad to_upper_def bex_Un)
  with st show ?thesis by simp
qed

theorem name_83_round_trip_witness:
  "fat12_to_83 ([97, 98] @ 46 # [99]) = [65, 66] @ replicate 6 32 @ [67] @ replicate 2 32 \<and>
   fat12_format_name (fat12_to_83 ([97, 98] @ 46 # [99])) = [65, 66, 46, 67]"
  using name_83_round_trip [of "[97, 98]" "[99]"] by (simp add: to_upper_def) metis

end
