(* ===== verification/Fat.thy ===== *)
theory Fat
  imports Fat_Table Fat_Name
begin

text \<open>
  The FAT driver (\<open>src/fat.c\<close>): the context with the boot parameters, the table in memory or a cache
  of its sectors, cluster chains, directories, and reading, writing and deleting files.

  Sector access is the parameter \<open>sectors\<close> (the functions of \<open>Disk\<close>); the disk is a field of the
  context. \<open>fat12_cwd_cluster\<close> and the clock are arguments. An operation that may follow a chain of
  clusters or touch a buffer returns an option: \<open>None\<close> stands for an access outside a buffer, a
  division by zero or a loop that does not end, so that \<open>Some\<close> says that the operation returned and
  stayed inside its buffers.
\<close>

section \<open>State\<close>

definition FAT_CACHE_SIZE :: nat where "FAT_CACHE_SIZE = 32"

record fat_bpb =
  bytes_per_sector :: u16
  sectors_per_cluster :: u8
  reserved_sectors :: u16
  fat_count :: u8
  root_dir_entries :: u16
  total_sectors_short :: u16
  fat_size_sectors :: u16
  total_sectors_long :: u32

record fat_cache_entry =
  ce_sector :: u32
  ce_data :: "u8 list"
  ce_dirty :: bool
  ce_time :: u32

record 'd fat_ctx =
  c_bpb :: fat_bpb
  c_fat :: "u8 list option"
  c_fat_lba :: u32
  c_root_lba :: u32
  c_root_sectors :: u16
  c_data_lba :: u32
  c_fat_type :: nat
  c_use_cache :: bool
  c_cache :: "fat_cache_entry list"
  c_counter :: u32
  c_drive :: u8
  c_disk :: 'd

record 'd sectors =
  sec_read :: "u8 \<Rightarrow> u32 \<Rightarrow> 'd \<Rightarrow> u8 list option \<times> 'd"
  sec_write :: "u8 \<Rightarrow> u32 \<Rightarrow> u8 list \<Rightarrow> 'd \<Rightarrow> bool \<times> 'd"

definition ctx_read :: "'d sectors \<Rightarrow> u32 \<Rightarrow> 'd fat_ctx \<Rightarrow> u8 list option \<times> 'd fat_ctx" where
  "ctx_read D lba c = (let (r, d) = sec_read D (c_drive c) lba (c_disk c) in (r, c\<lparr>c_disk := d\<rparr>))"

definition ctx_write :: "'d sectors \<Rightarrow> u32 \<Rightarrow> u8 list \<Rightarrow> 'd fat_ctx \<Rightarrow> bool \<times> 'd fat_ctx" where
  "ctx_write D lba x c = (let (ok, d) = sec_write D (c_drive c) lba x (c_disk c) in (ok, c\<lparr>c_disk := d\<rparr>))"

text \<open>Reads and writes of several bytes of a buffer.\<close>

definition get_at :: "u8 list \<Rightarrow> nat \<Rightarrow> nat \<Rightarrow> u8 list option" where
  "get_at b off n = (if off + n \<le> length b then Some (take n (drop off b)) else None)"

definition put_at :: "u8 list \<Rightarrow> nat \<Rightarrow> u8 list \<Rightarrow> u8 list option" where
  "put_at b off x = (if off + length x \<le> length b then Some (take off b @ x @ drop (off + length x) b) else None)"

section \<open>Geometry\<close>

definition bpb_of :: "u8 list \<Rightarrow> fat_bpb" where
  "bpb_of s = \<lparr>bytes_per_sector = le16_at s 11, sectors_per_cluster = s ! 13, reserved_sectors = le16_at s 14,
     fat_count = s ! 16, root_dir_entries = le16_at s 17, total_sectors_short = le16_at s 19,
     fat_size_sectors = le16_at s 22, total_sectors_long = le32_at s 32\<rparr>"

definition bpb_data_sectors :: "fat_bpb \<Rightarrow> u32" where
  "bpb_data_sectors b =
     (let total_sectors = (if total_sectors_short b = 0 then total_sectors_long b else ucast (total_sectors_short b));
          root_sectors = (ucast (root_dir_entries b) * 32 + 511) div 512
      in total_sectors - ucast (reserved_sectors b) - ucast (fat_count b) * ucast (fat_size_sectors b) - root_sectors)"

definition fat_volume_cluster_count :: "'d fat_ctx \<Rightarrow> u32" where
  "fat_volume_cluster_count c =
     (if sectors_per_cluster (c_bpb c) = 0 then 0
      else bpb_data_sectors (c_bpb c) div ucast (sectors_per_cluster (c_bpb c)))"

text \<open>\<open>fat_read_bpb\<close> leaves the parameters in the context also when it refuses them.\<close>

definition fat_read_bpb :: "'d sectors \<Rightarrow> 'd fat_ctx \<Rightarrow> (bool \<times> 'd fat_ctx) option" where
  "fat_read_bpb D c =
     (let (r, c) = ctx_read D 0 c
      in case r of
           None \<Rightarrow> Some (False, c)
         | Some s \<Rightarrow>
             let b = bpb_of s; c = c\<lparr>c_bpb := b\<rparr>
             in if bytes_per_sector b \<noteq> 512 then Some (False, c)
                else if sectors_per_cluster b = 0 then None
                else
                  let total_clusters = bpb_data_sectors b div ucast (sectors_per_cluster b)
                  in Some (True, c\<lparr>c_fat_type := (if total_clusters < 4085 then 12 else 16)\<rparr>))"

definition fat12_cluster_lba :: "'d fat_ctx \<Rightarrow> u16 \<Rightarrow> u32" where
  "fat12_cluster_lba c cluster =
     (let b = c_bpb c;
          root_lba = ucast (reserved_sectors b) + ucast (fat_count b) * ucast (fat_size_sectors b);
          root_sectors = (ucast (root_dir_entries b) * 32 + 511) div 512;
          data_lba = root_lba + root_sectors
      in data_lba + (ucast cluster - 2) * ucast (sectors_per_cluster b))"

definition fat_is_eoc :: "'d fat_ctx \<Rightarrow> u16 \<Rightarrow> bool" where
  "fat_is_eoc c cluster = (if c_fat_type c = 16 then cluster \<ge> 0xFFF8 else cluster \<ge> 0xFF8)"

section \<open>Opening and closing a volume\<close>

definition no_entry :: "fat_cache_entry \<Rightarrow> fat_cache_entry" where
  "no_entry e = e\<lparr>ce_sector := 0xFFFFFFFF, ce_dirty := False, ce_time := 0\<rparr>"

text \<open>\<open>k\<close> sectors from \<open>lba\<close> on into a buffer of that many sectors.\<close>

fun read_run :: "'d sectors \<Rightarrow> u32 \<Rightarrow> nat \<Rightarrow> 'd fat_ctx \<Rightarrow> u8 list option \<times> 'd fat_ctx" where
  "read_run D lba 0 c = (Some [], c)"
| "read_run D lba (Suc k) c =
     (let (r, c) = ctx_read D lba c
      in case r of
           None \<Rightarrow> (None, c)
         | Some s \<Rightarrow> (let (rest, c) = read_run D (lba + 1) k c in (map_option (\<lambda>b. s @ b) rest, c)))"

definition fat12_init_ex :: "'d sectors \<Rightarrow> malloc \<Rightarrow> u8 \<Rightarrow> 'd fat_ctx \<Rightarrow> (bool \<times> 'd fat_ctx) option" where
  "fat12_init_ex D mal drive c = do {
     (ok, c) \<leftarrow> fat_read_bpb D (c\<lparr>c_drive := drive\<rparr>);
     if \<not> ok then Some (False, c)
     else
       let b = c_bpb c; spf = fat_size_sectors b;
           root_lba = ucast (reserved_sectors b) + ucast (fat_count b) * ucast spf;
           root_sectors = ucast ((ucast (root_dir_entries b) * 32 + 511) div 512 :: u32);
           c = c\<lparr>c_fat_lba := ucast (reserved_sectors b), c_root_lba := root_lba, c_root_sectors := root_sectors,
                 c_data_lba := root_lba + ucast root_sectors, c_use_cache := True, c_counter := 0,
                 c_cache := map no_entry (c_cache c)\<rparr>
       in if spf \<le> 16 then
            let c = c\<lparr>c_use_cache := False\<rparr>
            in if mal (ucast spf * 512) = None then Some (False, c\<lparr>c_fat := None\<rparr>)
               else
                 let (r, c) = read_run D (c_fat_lba c) (unat spf) c
                 in case r of
                      None \<Rightarrow> Some (False, c\<lparr>c_fat := None\<rparr>)
                    | Some fat \<Rightarrow> Some (True, c\<lparr>c_fat := Some fat\<rparr>)
          else Some (True, c\<lparr>c_fat := None\<rparr>)
   }"

fun flush_entries :: "'d sectors \<Rightarrow> fat_cache_entry list \<Rightarrow> 'd fat_ctx \<Rightarrow> 'd fat_ctx" where
  "flush_entries D [] c = c"
| "flush_entries D (e # es) c =
     flush_entries D es (if ce_dirty e \<and> ce_sector e \<noteq> 0xFFFFFFFF
                         then snd (ctx_write D (c_fat_lba c + ce_sector e) (ce_data e) c) else c)"

definition fat12_deinit :: "'d sectors \<Rightarrow> 'd fat_ctx \<Rightarrow> 'd fat_ctx" where
  "fat12_deinit D c = (if c_use_cache c then flush_entries D (c_cache c) c else c)"

text \<open>The reload: the sectors of the table from the \<open>i\<close>-th on, until a read fails.\<close>

fun reload_loop :: "'d sectors \<Rightarrow> nat \<Rightarrow> nat \<Rightarrow> u8 list \<Rightarrow> 'd fat_ctx \<Rightarrow> (bool \<times> 'd fat_ctx) option" where
  "reload_loop D i 0 fat c = Some (True, c\<lparr>c_fat := Some fat\<rparr>)"
| "reload_loop D i (Suc k) fat c =
     (let (r, c) = ctx_read D (c_fat_lba c + of_nat i) c
      in case r of
           None \<Rightarrow> Some (False, c\<lparr>c_fat := Some fat\<rparr>)
         | Some s \<Rightarrow> Option.bind (put_at fat (i * 512) s) (\<lambda>fat. reload_loop D (Suc i) k fat c))"

definition fat12_reload :: "'d sectors \<Rightarrow> 'd fat_ctx \<Rightarrow> 'd fat_ctx option" where
  "fat12_reload D c = do {
     (ok, c) \<leftarrow> (case c_fat c of
                   Some fat \<Rightarrow> reload_loop D 0 (unat (fat_size_sectors (c_bpb c))) fat c
                 | None \<Rightarrow> Some (True, c));
     Some (if ok then c\<lparr>c_cache := map no_entry (c_cache c)\<rparr> else c)
   }"

section \<open>The sector cache\<close>

definition fat_cache_find :: "u32 \<Rightarrow> 'd fat_ctx \<Rightarrow> nat option \<times> 'd fat_ctx" where
  "fat_cache_find sector c =
     (case first_idx (\<lambda>e. ce_sector e = sector) (c_cache c) of
        None \<Rightarrow> (None, c)
      | Some i \<Rightarrow> (Some i, c\<lparr>c_counter := c_counter c + 1,
                           c_cache := (c_cache c)[i := (c_cache c ! i)\<lparr>ce_time := c_counter c + 1\<rparr>]\<rparr>))"

fun lru_scan :: "fat_cache_entry list \<Rightarrow> nat \<Rightarrow> nat \<Rightarrow> u32 \<Rightarrow> nat" where
  "lru_scan [] i lru_idx lru_time = lru_idx"
| "lru_scan (e # es) i lru_idx lru_time =
     (if ce_time e < lru_time then lru_scan es (Suc i) i (ce_time e) else lru_scan es (Suc i) lru_idx lru_time)"

definition fat_cache_evict :: "'d sectors \<Rightarrow> 'd fat_ctx \<Rightarrow> nat \<times> 'd fat_ctx" where
  "fat_cache_evict D c =
     (let lru_idx = lru_scan (tl (c_cache c)) 1 0 (ce_time (c_cache c ! 0));
          e = c_cache c ! lru_idx
      in if ce_dirty e \<and> ce_sector e \<noteq> 0xFFFFFFFF then
           let c = snd (ctx_write D (c_fat_lba c + ce_sector e) (ce_data e) c)
           in (lru_idx, c\<lparr>c_cache := (c_cache c)[lru_idx := e\<lparr>ce_dirty := False\<rparr>]\<rparr>)
         else (lru_idx, c))"

text \<open>The pointer \<open>fat_get_sector\<close> returns: into the whole table, or into an entry of the cache.\<close>

datatype secptr = InTable nat | InCache nat

definition fat_get_sector :: "'d sectors \<Rightarrow> u32 \<Rightarrow> bool \<Rightarrow> 'd fat_ctx \<Rightarrow> secptr option \<times> 'd fat_ctx" where
  "fat_get_sector D sector for_write c =
     (if \<not> c_use_cache c then
        (if c_fat c \<noteq> None \<and> sector < ucast (fat_size_sectors (c_bpb c)) then Some (InTable (unat sector * 512)) else None, c)
      else
        let (f, c) = fat_cache_find sector c
        in case f of
             Some i \<Rightarrow>
               (Some (InCache i),
                if for_write then c\<lparr>c_cache := (c_cache c)[i := (c_cache c ! i)\<lparr>ce_dirty := True\<rparr>]\<rparr> else c)
           | None \<Rightarrow>
               let (i, c) = fat_cache_evict D c;
                   (r, c) = ctx_read D (c_fat_lba c + sector) c
               in case r of
                    None \<Rightarrow> (None, c)
                  | Some s \<Rightarrow>
                      (Some (InCache i),
                       c\<lparr>c_counter := c_counter c + 1,
                         c_cache := (c_cache c)[i := \<lparr>ce_sector = sector, ce_data = s, ce_dirty = for_write,
                                                      ce_time = c_counter c + 1\<rparr>]\<rparr>))"

definition ptr_get :: "secptr \<Rightarrow> nat \<Rightarrow> 'd fat_ctx \<Rightarrow> u8" where
  "ptr_get p rel c =
     (case p of InTable off \<Rightarrow> the (c_fat c) ! (off + rel) | InCache i \<Rightarrow> ce_data (c_cache c ! i) ! rel)"

definition ptr_put :: "secptr \<Rightarrow> nat \<Rightarrow> u8 \<Rightarrow> 'd fat_ctx \<Rightarrow> 'd fat_ctx" where
  "ptr_put p rel v c =
     (case p of
        InTable off \<Rightarrow> c\<lparr>c_fat := map_option (\<lambda>fat. fat[off + rel := v]) (c_fat c)\<rparr>
      | InCache i \<Rightarrow> c\<lparr>c_cache := (c_cache c)[i := (c_cache c ! i)\<lparr>ce_data := (ce_data (c_cache c ! i))[rel := v]\<rparr>]\<rparr>)"

definition fat12_get_fat_byte :: "'d sectors \<Rightarrow> u32 \<Rightarrow> 'd fat_ctx \<Rightarrow> u8 option \<times> 'd fat_ctx" where
  "fat12_get_fat_byte D pos c =
     (let (p, c) = fat_get_sector D (pos div 512) False c
      in (map_option (\<lambda>p. ptr_get p (unat (pos mod 512)) c) p, c))"

definition fat12_put_fat_byte :: "'d sectors \<Rightarrow> u32 \<Rightarrow> u8 \<Rightarrow> 'd fat_ctx \<Rightarrow> 'd fat_ctx" where
  "fat12_put_fat_byte D pos v c =
     (let (p, c) = fat_get_sector D (pos div 512) True c
      in case p of None \<Rightarrow> c | Some p \<Rightarrow> ptr_put p (unat (pos mod 512)) v c)"

definition fat12_get_entry_cached :: "'d sectors \<Rightarrow> u16 \<Rightarrow> 'd fat_ctx \<Rightarrow> u16 \<times> 'd fat_ctx" where
  "fat12_get_entry_cached D cluster c =
     (let o32 = ucast cluster + ucast cluster div 2;
          (b0, c) = fat12_get_fat_byte D o32 c
      in case b0 of
           None \<Rightarrow> (0xFFFF, c)
         | Some b0 \<Rightarrow>
             let (b1, c) = fat12_get_fat_byte D (o32 + 1) c
             in case b1 of
                  None \<Rightarrow> (0xFFFF, c)
                | Some b1 \<Rightarrow> (fat12_value (cluster AND 1 \<noteq> 0) b0 b1, c))"

definition fat12_set_entry_cached :: "'d sectors \<Rightarrow> u16 \<Rightarrow> u16 \<Rightarrow> 'd fat_ctx \<Rightarrow> 'd fat_ctx" where
  "fat12_set_entry_cached D cluster v c =
     (let o32 = ucast cluster + ucast cluster div 2;
          (b0, c) = fat12_get_fat_byte D o32 c
      in case b0 of
           None \<Rightarrow> c
         | Some b0 \<Rightarrow>
             let (b1, c) = fat12_get_fat_byte D (o32 + 1) c
             in case b1 of
                  None \<Rightarrow> c
                | Some b1 \<Rightarrow>
                    let (b0, b1) =
                          (if cluster AND 1 \<noteq> 0
                           then ((b0 AND 0x0F) OR ucast (push_bit 4 v AND 0xF0), ucast (drop_bit 4 v AND 0xFF))
                           else (ucast (v AND 0xFF), (b1 AND 0xF0) OR ucast (drop_bit 8 v AND 0x0F)))
                    in fat12_put_fat_byte D (o32 + 1) b1 (fat12_put_fat_byte D o32 b0 c))"

definition fat16_get_entry_cached :: "'d sectors \<Rightarrow> u16 \<Rightarrow> 'd fat_ctx \<Rightarrow> u16 \<times> 'd fat_ctx" where
  "fat16_get_entry_cached D cluster c =
     (let (p, c) = fat_get_sector D (ucast cluster div 256) False c;
          off = unat cluster mod 256 * 2
      in case p of
           None \<Rightarrow> (0xFFFF, c)
         | Some p \<Rightarrow> (ucast (ptr_get p off c) OR push_bit 8 (ucast (ptr_get p (off + 1) c)), c))"

definition fat16_set_entry_cached :: "'d sectors \<Rightarrow> u16 \<Rightarrow> u16 \<Rightarrow> 'd fat_ctx \<Rightarrow> 'd fat_ctx" where
  "fat16_set_entry_cached D cluster v c =
     (let (p, c) = fat_get_sector D (ucast cluster div 256) True c;
          off = unat cluster mod 256 * 2
      in case p of
           None \<Rightarrow> c
         | Some p \<Rightarrow> ptr_put p (off + 1) (ucast (drop_bit 8 v)) (ptr_put p off (ucast (v AND 0xFF)) c))"

section \<open>Entries and chains\<close>

definition fat_get_entry :: "'d sectors \<Rightarrow> u16 \<Rightarrow> 'd fat_ctx \<Rightarrow> (u16 \<times> 'd fat_ctx) option" where
  "fat_get_entry D cluster c =
     (if c_use_cache c then
        Some (if c_fat_type c = 16 then fat16_get_entry_cached D cluster c else fat12_get_entry_cached D cluster c)
      else
        case c_fat c of
          None \<Rightarrow> Some (0xFFFF, c)
        | Some fat \<Rightarrow>
            map_option (\<lambda>v. (v, c))
              (if c_fat_type c = 16 then fat16_get_entry fat cluster else fat12_get_entry fat cluster))"

definition fat_ctx_set_entry :: "'d sectors \<Rightarrow> u16 \<Rightarrow> u16 \<Rightarrow> 'd fat_ctx \<Rightarrow> 'd fat_ctx option" where
  "fat_ctx_set_entry D cluster v c =
     (if c_use_cache c then
        Some (if c_fat_type c = 16 then fat16_set_entry_cached D cluster v c else fat12_set_entry_cached D cluster v c)
      else
        case c_fat c of
          None \<Rightarrow> Some c
        | Some fat \<Rightarrow>
            map_option (\<lambda>fat. c\<lparr>c_fat := Some fat\<rparr>)
              (if c_fat_type c = 16 then fat16_set_entry fat cluster v else fat12_set_entry fat cluster v))"

fun find_free_loop :: "'d sectors \<Rightarrow> nat \<Rightarrow> nat \<Rightarrow> 'd fat_ctx \<Rightarrow> (u16 \<times> 'd fat_ctx) option" where
  "find_free_loop D cl 0 c = Some (0xFFFF, c)"
| "find_free_loop D cl (Suc k) c = do {
     (v, c) \<leftarrow> fat_get_entry D (of_nat cl) c;
     if v = 0 then Some (of_nat cl, c) else find_free_loop D (Suc cl) k c
   }"

definition fat_find_free_cluster :: "'d sectors \<Rightarrow> 'd fat_ctx \<Rightarrow> (u16 \<times> 'd fat_ctx) option" where
  "fat_find_free_cluster D c =
     (let n = fat_volume_cluster_count c;
          last = (if n + 1 > 0xFFFF then 0xFFFF else n + 1)
      in if n = 0 \<or> last < 2 then Some (0xFFFF, c) else find_free_loop D 2 (unat last - 1) c)"

text \<open>The counts of a chain: \<open>k\<close> is 65535 less the count so far. The two functions of the source are
  the same.\<close>

fun chain_count_loop :: "'d sectors \<Rightarrow> u16 \<Rightarrow> nat \<Rightarrow> u16 \<Rightarrow> 'd fat_ctx \<Rightarrow> (u16 \<times> 'd fat_ctx) option" where
  "chain_count_loop D cl 0 cnt c = Some (cnt, c)"
| "chain_count_loop D cl (Suc k) cnt c =
     (if cl \<ge> 2 \<and> \<not> fat_is_eoc c cl then do {
        (nx, c) \<leftarrow> fat_get_entry D cl c;
        chain_count_loop D nx k (cnt + 1) c
      }
      else Some (cnt, c))"

definition fat12_chain_count :: "'d sectors \<Rightarrow> u16 \<Rightarrow> 'd fat_ctx \<Rightarrow> (u16 \<times> 'd fat_ctx) option" where
  "fat12_chain_count D start c = chain_count_loop D start 65535 0 c"

partial_function (option) fat12_free_chain :: "'d sectors \<Rightarrow> u16 \<Rightarrow> 'd fat_ctx \<Rightarrow> 'd fat_ctx option" where
  "fat12_free_chain D cl c =
     (if cl \<ge> 2 \<and> \<not> fat_is_eoc c cl then
        if c_use_cache c then
          let (nx, c) = fat12_get_entry_cached D cl c; c = fat12_set_entry_cached D cl 0 c
          in fat12_free_chain D nx c
        else do {
          (nx, c) \<leftarrow> fat_get_entry D cl c;
          c \<leftarrow> fat_ctx_set_entry D cl 0 c;
          fat12_free_chain D nx c
        }
      else Some c)"

section \<open>Directories\<close>

definition fat12_read_root_dir :: "'d sectors \<Rightarrow> malloc \<Rightarrow> 'd fat_ctx \<Rightarrow> u8 list option \<times> 'd fat_ctx" where
  "fat12_read_root_dir D mal c =
     (if mal (ucast (c_root_sectors c) * 512) = None then (None, c)
      else read_run D (c_root_lba c) (unat (c_root_sectors c)) c)"

text \<open>The sectors of one cluster into the buffer at \<open>off\<close>.\<close>

fun read_cluster :: "'d sectors \<Rightarrow> u32 \<Rightarrow> nat \<Rightarrow> u8 list \<Rightarrow> u32 \<Rightarrow> 'd fat_ctx \<Rightarrow> ((u8 list \<times> u32) option \<times> 'd fat_ctx) option" where
  "read_cluster D lba 0 buf off c = Some (Some (buf, off), c)"
| "read_cluster D lba (Suc k) buf off c =
     (let (r, c) = ctx_read D lba c
      in case r of
           None \<Rightarrow> Some (None, c)
         | Some s \<Rightarrow> Option.bind (put_at buf (unat off) s) (\<lambda>buf. read_cluster D (lba + 1) k buf (off + 512) c))"

partial_function (option) read_dir_loop ::
  "'d sectors \<Rightarrow> u16 \<Rightarrow> u8 list \<Rightarrow> u32 \<Rightarrow> u32 \<Rightarrow> 'd fat_ctx \<Rightarrow> (u8 list option \<times> 'd fat_ctx) option" where
  "read_dir_loop D cl buf off bytes c =
     (if cl \<ge> 2 \<and> \<not> fat_is_eoc c cl \<and> off < bytes then do {
        (r, c) \<leftarrow> read_cluster D (fat12_cluster_lba c cl) (unat (sectors_per_cluster (c_bpb c))) buf off c;
        if r = None then Some (None, c)
        else do {
          (nx, c) \<leftarrow> fat_get_entry D cl c;
          read_dir_loop D nx (fst (the r)) (snd (the r)) bytes c
        }
      }
      else Some (Some buf, c))"

definition fat12_read_dir_cluster ::
  "'d sectors \<Rightarrow> malloc \<Rightarrow> u16 \<Rightarrow> 'd fat_ctx \<Rightarrow> (u8 list option \<times> 'd fat_ctx) option" where
  "fat12_read_dir_cluster D mal start_cluster c = do {
     (clusters, c) \<leftarrow> fat12_chain_count D start_cluster c;
     if clusters = 0 then Some (None, c)
     else
       let bytes = ucast clusters * ucast (sectors_per_cluster (c_bpb c)) * 512
       in case mal bytes of
            None \<Rightarrow> Some (None, c)
          | Some buf \<Rightarrow> read_dir_loop D start_cluster buf 0 bytes c
   }"

definition read_dir :: "'d sectors \<Rightarrow> malloc \<Rightarrow> u16 \<Rightarrow> 'd fat_ctx \<Rightarrow> (u8 list option \<times> 'd fat_ctx) option" where
  "read_dir D mal dir c =
     (if dir = 0 then Some (fat12_read_root_dir D mal c) else fat12_read_dir_cluster D mal dir c)"

text \<open>The scans of a directory: entries from the \<open>i\<close>-th on, up to the first that was never used;
  \<open>k\<close> entries are left.\<close>

fun dir_find :: "(nat \<Rightarrow> bool) \<Rightarrow> u8 list \<Rightarrow> nat \<Rightarrow> nat \<Rightarrow> nat option" where
  "dir_find P dir i 0 = None"
| "dir_find P dir i (Suc k) =
     (if dir ! (i * 32) = 0 then None else if P i then Some i else dir_find P dir (Suc i) k)"

definition in_use :: "u8 list \<Rightarrow> bool" where
  "in_use e \<longleftrightarrow> e ! 0 \<noteq> 0xE5 \<and> de_attr e AND 0x08 = 0 \<and> de_attr e \<noteq> FAT_ATTR_LFN"

definition fat12_find_in_dir ::
  "'d sectors \<Rightarrow> malloc \<Rightarrow> u16 \<Rightarrow> u8 list \<Rightarrow> 'd fat_ctx \<Rightarrow> (u8 list option \<times> 'd fat_ctx) option" where
  "fat12_find_in_dir D mal dir_cluster name83 c = do {
     (r, c) \<leftarrow> read_dir D mal dir_cluster c;
     case r of
       None \<Rightarrow> Some (None, c)
     | Some buf \<Rightarrow>
         Some (map_option (ent_at buf)
                 (dir_find (\<lambda>i. in_use (ent_at buf i) \<and> fat12_name_eq (de_name (ent_at buf i)) name83)
                    buf 0 (length buf div 32)), c)
   }"

text \<open>The match of a name that may be long: the long name as it is, the 8.3 name without regard to
  case.\<close>

definition name_matches :: "u8 list \<Rightarrow> nat \<Rightarrow> u8 list \<Rightarrow> bool" where
  "name_matches buf i long_name \<longleftrightarrow>
     (i > 0 \<and> (case fat_extract_lfn buf i 256 of Some s \<Rightarrow> kstreq_local s long_name | None \<Rightarrow> False)) \<or>
     kstreq_local_nocase (fat12_format_name (de_name (ent_at buf i))) long_name"

definition fat12_find_in_dir_lfn ::
  "'d sectors \<Rightarrow> malloc \<Rightarrow> u16 \<Rightarrow> u8 list \<Rightarrow> 'd fat_ctx \<Rightarrow> (u8 list option \<times> 'd fat_ctx) option" where
  "fat12_find_in_dir_lfn D mal dir_cluster long_name c = do {
     (r, c) \<leftarrow> read_dir D mal dir_cluster c;
     case r of
       None \<Rightarrow> Some (None, c)
     | Some buf \<Rightarrow>
         Some (map_option (ent_at buf)
                 (dir_find (\<lambda>i. in_use (ent_at buf i) \<and> name_matches buf i long_name) buf 0 (length buf div 32)), c)
   }"

text \<open>The segments of a path, of at most 31 characters: a longer name is taken as several.\<close>

function path_segs :: "u8 list \<Rightarrow> u8 list list" where
  "path_segs s =
     (let s = dropWhile (\<lambda>c. c = 47) s
      in if s = [] then []
         else
           let seg = take 31 (takeWhile (\<lambda>c. c \<noteq> 47) s)
           in seg # path_segs (drop (length seg) s))"
  by pat_completeness auto
termination
proof (relation "measure length")
  show "wf (measure (length :: u8 list \<Rightarrow> nat))" by simp
next
  fix s x xa :: "u8 list"
  assume x: "x = dropWhile (\<lambda>c. c = 47) s" "x \<noteq> []" and xa: "xa = take 31 (takeWhile (\<lambda>c. c \<noteq> 47) x)"
  have "hd x \<noteq> 47" using hd_dropWhile [of "\<lambda>c. c = 47" s] x by simp
  with x(2) have "takeWhile (\<lambda>c. c \<noteq> 47) x \<noteq> []" by (cases x) auto
  then have "0 < length xa" unfolding xa by simp
  moreover have "length x \<le> length s" unfolding x(1) by (rule length_dropWhile_le)
  moreover have "0 < length x" using x(2) by simp
  ultimately show "(drop (length xa) x, s) \<in> measure length"
    unfolding in_measure length_drop by linarith
qed

declare path_segs.simps [simp del]

fun resolve_segs ::
  "'d sectors \<Rightarrow> malloc \<Rightarrow> u8 list list \<Rightarrow> u16 \<Rightarrow> 'd fat_ctx \<Rightarrow> (u16 option \<times> 'd fat_ctx) option" where
  "resolve_segs D mal [] dir c = Some (Some dir, c)"
| "resolve_segs D mal (seg # segs) dir c =
     (if seg = [46] then resolve_segs D mal segs dir c
      else if seg = [46, 46] then
        (if dir = 0 then resolve_segs D mal segs dir c
         else do {
           (e, c) \<leftarrow> fat12_find_in_dir D mal dir ([46, 46] @ replicate 9 32) c;
           resolve_segs D mal segs (case e of Some ent \<Rightarrow> de_cluster ent | None \<Rightarrow> 0) c
         })
      else do {
        (e, c) \<leftarrow> fat12_find_in_dir D mal dir (fat12_to_83 seg) c;
        (case e of
           None \<Rightarrow> Some (None, c)
         | Some ent \<Rightarrow>
             if de_attr ent AND 0x10 = 0 then Some (None, c) else resolve_segs D mal segs (de_cluster ent) c)
      })"

definition fat12_resolve_dir ::
  "'d sectors \<Rightarrow> malloc \<Rightarrow> u16 \<Rightarrow> u8 list \<Rightarrow> 'd fat_ctx \<Rightarrow> (u16 option \<times> 'd fat_ctx) option" where
  "fat12_resolve_dir D mal start_dir path c =
     resolve_segs D mal (path_segs (cstr path)) (if c_at path 0 = 47 then 0 else start_dir) c"

fun write_run :: "'d sectors \<Rightarrow> u32 \<Rightarrow> nat \<Rightarrow> u8 list \<Rightarrow> 'd fat_ctx \<Rightarrow> 'd fat_ctx option" where
  "write_run D lba 0 buf c = Some c"
| "write_run D lba (Suc k) buf c = do {
     s \<leftarrow> get_at buf 0 512;
     write_run D (lba + 1) k (drop 512 buf) (snd (ctx_write D lba s c))
   }"

definition fat12_flush_fat :: "'d sectors \<Rightarrow> 'd fat_ctx \<Rightarrow> 'd fat_ctx option" where
  "fat12_flush_fat D c =
     (let spf = fat_size_sectors (c_bpb c);
          loop = fold (\<lambda>i mc. do {
            c \<leftarrow> mc;
            fat \<leftarrow> c_fat c;
            src \<leftarrow> get_at fat (i * 512) 512;
            let lba = c_fat_lba c + of_nat i; c = snd (ctx_write D lba src c)
            in Some (if fat_count (c_bpb c) > 1 then snd (ctx_write D (lba + ucast spf) src c) else c)
          }) [0..<unat spf]
      in loop (Some c))"

text \<open>One cluster of \<open>fat12_write_dir_cluster\<close>: the sectors from the \<open>s\<close>-th on.\<close>

fun write_dir_sectors ::
  "'d sectors \<Rightarrow> u32 \<Rightarrow> nat \<Rightarrow> nat \<Rightarrow> u8 list \<Rightarrow> u32 \<Rightarrow> u32 \<Rightarrow> 'd fat_ctx \<Rightarrow> (bool \<times> 'd fat_ctx) option" where
  "write_dir_sectors D lba s 0 buf off bytes c = Some (True, c)"
| "write_dir_sectors D lba s (Suc k) buf off bytes c =
     (let sector_off = off + of_nat s * 512;
          to_write = (if bytes - sector_off > 512 then 512 else bytes - sector_off)
      in do {
           x \<leftarrow> get_at buf (unat sector_off) (unat to_write);
           let (ok, c) = ctx_write D (lba + of_nat s) (x @ replicate (512 - length x) 0) c
           in if \<not> ok then Some (False, c) else write_dir_sectors D lba (Suc s) k buf off bytes c
         })"

partial_function (option) fat12_write_dir_cluster ::
  "'d sectors \<Rightarrow> u16 \<Rightarrow> u8 list \<Rightarrow> u32 \<Rightarrow> u32 \<Rightarrow> 'd fat_ctx \<Rightarrow> (bool \<times> 'd fat_ctx) option" where
  "fat12_write_dir_cluster D cl buf off bytes c =
     (if cl \<ge> 2 \<and> \<not> fat_is_eoc c cl \<and> off < bytes then do {
        (ok, c) \<leftarrow> write_dir_sectors D (fat12_cluster_lba c cl) 0 (unat (sectors_per_cluster (c_bpb c))) buf off bytes c;
        if \<not> ok then Some (False, c)
        else do {
          (nx, c) \<leftarrow> fat_get_entry D cl c;
          fat12_write_dir_cluster D nx buf (off + ucast (sectors_per_cluster (c_bpb c)) * 512) bytes c
        }
      }
      else Some (True, c))"

definition write_dir :: "'d sectors \<Rightarrow> u16 \<Rightarrow> u8 list \<Rightarrow> 'd fat_ctx \<Rightarrow> 'd fat_ctx option" where
  "write_dir D dir buf c =
     (if dir = 0 then write_run D (c_root_lba c) (unat (c_root_sectors c)) buf c
      else map_option snd (fat12_write_dir_cluster D dir buf 0 (of_nat (length buf)) c))"

end
