(* ===== verification/Datetime.thy ===== *)
theory Datetime
  imports Prelude
begin

text \<open>
  The clock (\<open>src/datetime.c\<close>) and the time stamps of directory entries. The registers of the CMOS
  clock, read while no update is in progress, are the parameter \<open>cmos\<close>. \<open>sftp_fat_unix\<close>
  (\<open>src/sftp.c\<close>) turns the stamps of an entry into seconds since 1970.
\<close>

record datetime =
  dt_sec :: u8
  dt_min :: u8
  dt_hour :: u8
  dt_day :: u8
  dt_month :: u8
  dt_year :: u16

definition bcd8 :: "u8 \<Rightarrow> u8" where
  "bcd8 x = (x AND 0x0F) + (x div 16) * 10"

definition get_datetime :: "(u8 \<Rightarrow> u8) \<Rightarrow> datetime" where
  "get_datetime cmos =
     (let dt = \<lparr>dt_sec = cmos 0x00, dt_min = cmos 0x02, dt_hour = cmos 0x04, dt_day = cmos 0x07,
                dt_month = cmos 0x08, dt_year = ucast (cmos 0x09)\<rparr>;
          status_b = cmos 0x0B;
          dt = (if status_b AND 0x04 = 0 then
                  \<lparr>dt_sec = bcd8 (dt_sec dt), dt_min = bcd8 (dt_min dt),
                   dt_hour = ((dt_hour dt AND 0x0F) + ((dt_hour dt AND 0x70) div 16) * 10) OR (dt_hour dt AND 0x80),
                   dt_day = bcd8 (dt_day dt), dt_month = bcd8 (dt_month dt),
                   dt_year = (dt_year dt AND 0x0F) + (dt_year dt div 16) * 10\<rparr>
                else dt);
          dt = (if status_b AND 0x02 = 0 \<and> dt_hour dt AND 0x80 \<noteq> 0
                then dt\<lparr>dt_hour := ucast ((ucast (dt_hour dt AND 0x7F) + 12 :: u32) mod 24)\<rparr> else dt)
      in dt\<lparr>dt_year := dt_year dt + 2000\<rparr>)"

definition datetime_to_fat_time :: "datetime \<Rightarrow> u16" where
  "datetime_to_fat_time dt =
     push_bit 11 (ucast (dt_hour dt AND 0x1F)) OR push_bit 5 (ucast (dt_min dt AND 0x3F))
     OR ucast ((dt_sec dt div 2) AND 0x1F)"

definition datetime_to_fat_date :: "datetime \<Rightarrow> u16" where
  "datetime_to_fat_date dt =
     (let y = (if dt_year dt \<ge> 1980 then dt_year dt - 1980 else 0)
      in push_bit 9 y OR push_bit 5 (ucast (dt_month dt AND 0x0F)) OR ucast (dt_day dt AND 0x1F))"

definition SFTP_DEFAULT_MTIME :: u32 where "SFTP_DEFAULT_MTIME = 1704067200"

definition mdays :: "u32 list" where
  "mdays = [0, 31, 59, 90, 120, 151, 181, 212, 243, 273, 304, 334]"

definition sftp_fat_unix :: "u16 \<Rightarrow> u16 \<Rightarrow> u32" where
  "sftp_fat_unix date time =
     (let year = 1980 + ucast (drop_bit 9 date);
          month = ucast (drop_bit 5 date AND 15);
          day = ucast (date AND 31);
          hour = ucast (drop_bit 11 time);
          minute = ucast (drop_bit 5 time AND 63);
          sec = ucast (time AND 31) * 2
      in if date = 0 then SFTP_DEFAULT_MTIME
         else
           let month = (if month < 1 \<or> month > 12 then 1 else month);
               day = (if day < 1 then 1 else day);
               days = (year - 1970) * 365 + (year - 1969) div 4;
               days = days + mdays ! unat (month - 1);
               days = (if month > 2 \<and> year mod 4 = 0 then days + 1 else days);
               days = days + (day - 1)
           in days * 86400 + hour * 3600 + minute * 60 + sec)"

end
