(* ===== verification/Fat_File.thy ===== *)
theory Fat_File
  imports Fat Datetime
begin

text \<open>
  Files of the FAT driver (\<open>src/fat.c\<close>): reading, writing and deleting files, making and removing
  directories.
\<close>

section \<open>Reading a file\<close>

text \<open>The sectors of one cluster of a file, while \<open>written < read_size\<close>.\<close>

fun read_file_sectors ::
  "'d sectors \<Rightarrow> u32 \<Rightarrow> nat \<Rightarrow> u8 list \<Rightarrow> u32 \<Rightarrow> u32 \<Rightarrow> 'd fat_ctx \<Rightarrow> ((u8 list \<times> u32) option \<times> 'd fat_ctx) option" where
  "read_file_sectors D lba 0 buf written read_size c = Some (Some (buf, written), c)"
| "read_file_sectors D lba (Suc k) buf written read_size c =
     (if written < read_size then
        let (r, c) = ctx_read D lba c
        in case r of
             None \<Rightarrow> Some (None, c)
           | Some sec \<Rightarrow>
               let to_copy = (if read_size - written > 512 then 512 else read_size - written)
               in Option.bind (put_at buf (unat written) (take (unat to_copy) sec))
                    (\<lambda>buf. read_file_sectors D (lba + 1) k buf (written + to_copy) read_size c)
      else Some (Some (buf, written), c))"

text \<open>The walk over the chain: \<open>k\<close> is \<open>hop_max\<close> less the hops so far.\<close>

fun read_file_loop ::
  "'d sectors \<Rightarrow> nat \<Rightarrow> nat \<Rightarrow> u16 \<Rightarrow> u8 list \<Rightarrow> u32 \<Rightarrow> u32 \<Rightarrow> 'd fat_ctx \<Rightarrow> ((u8 list \<times> u32) option \<times> 'd fat_ctx) option" where
  "read_file_loop D spc 0 cluster buf written read_size c = Some (Some (buf, written), c)"
| "read_file_loop D spc (Suc k) cluster buf written read_size c =
     (if cluster \<ge> 2 \<and> \<not> fat_is_eoc c cluster \<and> written < read_size then do {
        (r, c) \<leftarrow> read_file_sectors D (fat12_cluster_lba c cluster) spc buf written read_size c;
        (case r of
           None \<Rightarrow> Some (None, c)
         | Some (buf, written) \<Rightarrow> do {
             (nx, c) \<leftarrow> fat_get_entry D cluster c;
             if nx = cluster then Some (Some (buf, written), c)
             else read_file_loop D spc k nx buf written read_size c
           })
      }
      else Some (Some (buf, written), c))"

definition base_of :: "u8 list \<Rightarrow> u8 list" where
  "base_of s = rev (takeWhile (\<lambda>ch. ch \<noteq> 47) (rev s))"

definition fat12_read_file_to_ram_ex_max ::
  "'d sectors \<Rightarrow> malloc \<Rightarrow> u16 \<Rightarrow> u8 list \<Rightarrow> u32 \<Rightarrow> 'd fat_ctx \<Rightarrow> ((u8 list \<times> u32) option \<times> 'd fat_ctx) option" where
  "fat12_read_file_to_ram_ex_max D mal cwd path max_size c =
     (let p = cstr (skip_spaces path);
          dir = (if c_at p 0 = 47 then 0 else cwd);
          p = (if c_at p 0 = 47 then tl p else p);
          lastseg = base_of p
      in do {
           (dir, c) \<leftarrow> (if lastseg \<noteq> p
                       then fat12_resolve_dir D mal dir (take 63 (take (length p - length lastseg - 1) p)) c
                       else Some (Some dir, c));
           case dir of
             None \<Rightarrow> Some (None, c)
           | Some dir \<Rightarrow> do {
               (e, c) \<leftarrow> fat12_find_in_dir D mal dir (fat12_to_83 lastseg) c;
               (e, c) \<leftarrow> (if (case e of Some ent \<Rightarrow> de_attr ent AND 0x10 \<noteq> 0 | None \<Rightarrow> True)
                         then fat12_find_in_dir_lfn D mal dir lastseg c else Some (e, c));
               case e of
                 None \<Rightarrow> Some (None, c)
               | Some ent \<Rightarrow>
                   if de_attr ent AND 0x10 \<noteq> 0 then Some (None, c)
                   else
                     let default_max = 256 * 1024 * 1024;
                         max_size = (if max_size = 0 \<or> max_size > default_max then default_max else max_size);
                         read_size = (if de_size ent \<noteq> 0 then de_size ent else 1);
                         read_size = (if read_size > max_size then max_size else read_size);
                         spc = (if sectors_per_cluster (c_bpb c) = 0 then 1 else unat (sectors_per_cluster (c_bpb c)));
                         hop_max = max_size div 256 + 32;
                         hop_max = (if hop_max < 32 then 32 else hop_max);
                         hop_max = (if hop_max > 1048576 then 1048576 else hop_max)
                     in case mal read_size of
                          None \<Rightarrow> Some (None, c)
                        | Some buf \<Rightarrow> read_file_loop D spc (unat hop_max) (de_cluster ent) buf 0 read_size c
             }
         })"

definition fat12_read_file_to_ram_ex ::
  "'d sectors \<Rightarrow> malloc \<Rightarrow> u16 \<Rightarrow> u8 list \<Rightarrow> 'd fat_ctx \<Rightarrow> ((u8 list \<times> u32) option \<times> 'd fat_ctx) option" where
  "fat12_read_file_to_ram_ex D mal cwd path c = fat12_read_file_to_ram_ex_max D mal cwd path (256 * 1024 * 1024) c"

section \<open>Writing a file\<close>

text \<open>The directory a path names: the part before the last slash, from the root of the volume, when
  it has 1 to 63 characters.\<close>

definition target_dir_of ::
  "'d sectors \<Rightarrow> malloc \<Rightarrow> u16 \<Rightarrow> u8 list \<Rightarrow> 'd fat_ctx \<Rightarrow> (u16 option \<times> 'd fat_ctx) option" where
  "target_dir_of D mal cwd fn c =
     (let n = length fn - length (base_of fn);
          dir_start = (if c_at fn 0 = 47 then 1 else 0);
          dir_len = n - 1 - dir_start;
          target = (if c_at fn 0 = 47 then 0 else cwd)
      in if n > 1 \<and> dir_len > 0 \<and> dir_len < 64
         then fat12_resolve_dir D mal 0 (take dir_len (drop dir_start fn)) c
         else Some (Some target, c))"

definition needs_lfn :: "u8 list \<Rightarrow> bool" where
  "needs_lfn filename \<longleftrightarrow>
     length filename > 12 \<or> (\<exists>ch \<in> set filename. (ch \<ge> 97 \<and> ch \<le> 122) \<or> ch = 32 \<or> ch = 43 \<or> ch = 44)"

definition blit_at :: "u8 list \<Rightarrow> nat \<Rightarrow> u8 list \<Rightarrow> u8 list" where
  "blit_at b off x = take off b @ x @ drop (off + length x) b"

text \<open>Marking the long-name entries before entry \<open>i\<close> as deleted. The sequence byte that is tested for
  the mark of the last entry is the byte that was just overwritten with 0xE5.\<close>

fun lfn_mark :: "u8 list \<Rightarrow> u8 \<Rightarrow> nat \<Rightarrow> u8 list" where
  "lfn_mark dir checksum 0 = dir"
| "lfn_mark dir checksum (Suc k) =
     (let lfn = ent_at dir (Suc k)
      in if de_attr lfn = FAT_ATTR_LFN \<and> de_checksum lfn = checksum then
           let dir = dir[Suc k * 32 := 0xE5]
           in if dir ! (Suc k * 32) AND FAT_LFN_LAST \<noteq> 0 then dir else lfn_mark dir checksum k
         else dir)"

definition drop_lfn_before :: "u8 list \<Rightarrow> u8 list \<Rightarrow> nat \<Rightarrow> u8 list" where
  "drop_lfn_before dir name83 i =
     (if i > 0 \<and> de_attr (ent_at dir (i - 1)) = FAT_ATTR_LFN then lfn_mark dir (fat_lfn_checksum name83) (i - 1) else dir)"

text \<open>The search for \<open>needed\<close> free slots in a row.\<close>

fun free_run :: "u8 list \<Rightarrow> nat \<Rightarrow> nat \<Rightarrow> nat \<Rightarrow> nat \<Rightarrow> nat \<Rightarrow> nat option" where
  "free_run dir needed i 0 free_start free_count = None"
| "free_run dir needed i (Suc k) free_start free_count =
     (if dir ! (i * 32) = 0 \<or> dir ! (i * 32) = 0xE5 then
        let free_start = (if free_count = 0 then i else free_start)
        in if free_count + 1 \<ge> needed then Some free_start
           else free_run dir needed (Suc i) k free_start (free_count + 1)
      else free_run dir needed (Suc i) k free_start 0)"

fun write_file_sectors ::
  "'d sectors \<Rightarrow> u8 list \<Rightarrow> u32 \<Rightarrow> u32 \<Rightarrow> u32 \<Rightarrow> nat \<Rightarrow> nat \<Rightarrow> 'd fat_ctx \<Rightarrow> 'd fat_ctx option" where
  "write_file_sectors D data sz lba i s 0 c = Some c"
| "write_file_sectors D data sz lba i s (Suc k) c =
     (let sec_offset = i * 512 * ucast (sectors_per_cluster (c_bpb c)) + of_nat s * 512;
          copy = (if sec_offset < sz then (if sz - sec_offset > 512 then 512 else sz - sec_offset) else 0)
      in do {
           x \<leftarrow> (if sec_offset < sz then get_at data (unat sec_offset) (unat copy) else Some []);
           let c = snd (ctx_write D (lba + of_nat s) (x @ replicate (512 - length x) 0) c)
           in write_file_sectors D data sz lba i (Suc s) k c
         })"

text \<open>The clusters of the file, from the \<open>i\<close>-th on: the first cluster, or nothing when the volume is
  full.\<close>

fun write_clusters ::
  "'d sectors \<Rightarrow> u8 list \<Rightarrow> u32 \<Rightarrow> nat \<Rightarrow> nat \<Rightarrow> u16 \<Rightarrow> u16 \<Rightarrow> 'd fat_ctx \<Rightarrow> (u16 option \<times> 'd fat_ctx) option" where
  "write_clusters D data sz i 0 prev first c = Some (Some first, c)"
| "write_clusters D data sz i (Suc k) prev first c = do {
     (cl, c) \<leftarrow> fat_find_free_cluster D c;
     if cl < 2 \<or> cl = 0xFFFF then do { c \<leftarrow> fat12_free_chain D first c; Some (None, c) }
     else do {
       c \<leftarrow> fat_ctx_set_entry D cl (if c_fat_type c = 16 then 0xFFFF else 0x0FFF) c;
       c \<leftarrow> (if prev \<noteq> 0 then fat_ctx_set_entry D prev cl c else Some c);
       c \<leftarrow> write_file_sectors D data sz (fat12_cluster_lba c cl) (of_nat i) 0 (unat (sectors_per_cluster (c_bpb c))) c;
       write_clusters D data sz (Suc i) k cl (if prev \<noteq> 0 then first else cl) c
     }
   }"

text \<open>The slot of the file in its directory, with the old contents freed when the file exists.\<close>

definition write_slot ::
  "'d sectors \<Rightarrow> u8 list \<Rightarrow> nat \<Rightarrow> u8 list \<Rightarrow> 'd fat_ctx \<Rightarrow> (nat option \<times> u8 list \<times> 'd fat_ctx) option" where
  "write_slot D name83 lfn_slots dir c =
     (let entries = length dir div 32
      in case dir_find (\<lambda>i. dir ! (i * 32) \<noteq> 0xE5 \<and> de_attr (ent_at dir i) \<noteq> FAT_ATTR_LFN \<and>
                            fat12_name_eq (de_name (ent_at dir i)) name83) dir 0 entries of
           Some i \<Rightarrow> do {
             c \<leftarrow> fat12_free_chain D (de_cluster (ent_at dir i)) c;
             Some (Some i, drop_lfn_before dir name83 i, c)
           }
         | None \<Rightarrow> Some (map_option (\<lambda>f. f + lfn_slots) (free_run dir (lfn_slots + 1) 0 entries 0 0), dir, c))"

definition fat12_write_file_ex ::
  "'d sectors \<Rightarrow> malloc \<Rightarrow> u16 \<Rightarrow> datetime \<Rightarrow> u8 list \<Rightarrow> u8 list \<Rightarrow> u32 \<Rightarrow> 'd fat_ctx \<Rightarrow> (bool \<times> 'd fat_ctx) option" where
  "fat12_write_file_ex D mal cwd dt fn data sz c =
     (let fn = cstr fn; filename = base_of fn; name83 = fat12_to_83 filename
      in do {
           (target, c) \<leftarrow> target_dir_of D mal cwd fn c;
           case target of
             None \<Rightarrow> Some (False, c)
           | Some target_dir \<Rightarrow> do {
               (r, c) \<leftarrow> read_dir D mal target_dir c;
               case r of
                 None \<Rightarrow> Some (False, c)
               | Some dir \<Rightarrow>
                   let lfn_slots = (if needs_lfn filename then lfn_slots_of filename else 0)
                   in do {
                        (ent, dir, c) \<leftarrow> write_slot D name83 lfn_slots dir c;
                        case ent of
                          None \<Rightarrow> Some (False, c)
                        | Some i \<Rightarrow>
                            (case (if needs_lfn filename \<and> i \<ge> lfn_slots
                                   then fat_create_lfn_entries mal filename name83 ((i - lfn_slots) * 32) dir
                                   else Some (lfn_slots, dir)) of
                               None \<Rightarrow> Some (False, c)
                             | Some (_, dir) \<Rightarrow>
                                 let dir = blit_at dir (i * 32) (take 11 name83 @ [0]);
                                     dir = blit_at dir (i * 32 + 22) (le16 (datetime_to_fat_time dt) @ le16 (datetime_to_fat_date dt));
                                     cluster_bytes = ucast (sectors_per_cluster (c_bpb c)) * 512 :: u32
                                 in if cluster_bytes = 0 then None
                                    else
                                      let needed = (if sz = 0 then 1 else (sz + cluster_bytes - 1) div cluster_bytes)
                                      in do {
                                           (first, c) \<leftarrow> write_clusters D data sz 0 (unat needed) 0 0 c;
                                           case first of
                                             None \<Rightarrow> Some (False, c)
                                           | Some first \<Rightarrow> do {
                                               c \<leftarrow> write_dir D target_dir (blit_at dir (i * 32 + 26) (le16 first @ le32 sz)) c;
                                               c \<leftarrow> fat12_flush_fat D c;
                                               Some (True, c)
                                             }
                                         })
                      }
             }
         })"

definition fat12_write_file ::
  "'d sectors \<Rightarrow> malloc \<Rightarrow> u8 \<Rightarrow> u16 \<Rightarrow> datetime \<Rightarrow> u8 list \<Rightarrow> u8 list \<Rightarrow> u32 \<Rightarrow> 'd fat_ctx \<Rightarrow> (bool \<times> 'd fat_ctx) option" where
  "fat12_write_file D mal drive cwd dt fn data sz c = do {
     (ok, c) \<leftarrow> fat12_init_ex D mal drive c;
     if \<not> ok then Some (False, c)
     else do {
       (ok, c) \<leftarrow> fat12_write_file_ex D mal cwd dt fn data sz c;
       Some (ok, fat12_deinit D c)
     }
   }"

definition fat12_read_file_to_ram ::
  "'d sectors \<Rightarrow> malloc \<Rightarrow> u8 \<Rightarrow> u16 \<Rightarrow> u8 list \<Rightarrow> 'd fat_ctx \<Rightarrow> ((u8 list \<times> u32) option \<times> 'd fat_ctx) option" where
  "fat12_read_file_to_ram D mal drive cwd path c = do {
     (ok, c) \<leftarrow> fat12_init_ex D mal drive c;
     if \<not> ok then Some (None, c)
     else do {
       (r, c) \<leftarrow> fat12_read_file_to_ram_ex D mal cwd path c;
       Some (r, fat12_deinit D c)
     }
   }"

section \<open>Deleting a file\<close>

text \<open>Every long-name entry next to the deleted entry is marked, down to the first that is none.\<close>

fun lfn_mark_all :: "u8 list \<Rightarrow> nat \<Rightarrow> u8 list" where
  "lfn_mark_all dir 0 = dir"
| "lfn_mark_all dir (Suc j) =
     (if de_attr (ent_at dir j) \<noteq> FAT_ATTR_LFN then dir else lfn_mark_all (dir[j * 32 := 0xE5]) j)"

definition fat12_delete_file ::
  "'d sectors \<Rightarrow> malloc \<Rightarrow> u8 \<Rightarrow> u16 \<Rightarrow> u8 list \<Rightarrow> 'd fat_ctx \<Rightarrow> (bool \<times> 'd fat_ctx) option" where
  "fat12_delete_file D mal drive cwd path c = do {
     (ok, c) \<leftarrow> fat12_init_ex D mal drive c;
     if \<not> ok then Some (False, c)
     else do {
       (target, c) \<leftarrow> target_dir_of D mal cwd (cstr path) c;
       case target of
         None \<Rightarrow> Some (False, fat12_deinit D c)
       | Some target_dir \<Rightarrow> do {
           (r, c) \<leftarrow> read_dir D mal target_dir c;
           case r of
             None \<Rightarrow> Some (False, fat12_deinit D c)
           | Some dir \<Rightarrow>
               (case dir_find (\<lambda>i. in_use (ent_at dir i) \<and> name_matches dir i (base_of (cstr path))) dir 0 (length dir div 32) of
                  None \<Rightarrow> Some (False, fat12_deinit D c)
                | Some i \<Rightarrow>
                    if de_attr (ent_at dir i) AND 0x10 \<noteq> 0 then Some (False, fat12_deinit D c)
                    else do {
                      c \<leftarrow> fat12_free_chain D (de_cluster (ent_at dir i)) c;
                      c \<leftarrow> write_dir D target_dir ((lfn_mark_all dir i)[i * 32 := 0xE5]) c;
                      c \<leftarrow> fat12_flush_fat D c;
                      Some (True, fat12_deinit D c)
                    })
         }
     }
   }"

section \<open>Directories\<close>

definition dir_empty :: "u8 list \<Rightarrow> bool" where
  "dir_empty child \<longleftrightarrow>
     dir_find (\<lambda>i. in_use (ent_at child i) \<and> fat12_format_name (de_name (ent_at child i)) \<notin> {[46], [46, 46]})
       child 0 (length child div 32) = None"

definition fat12_rmdir ::
  "'d sectors \<Rightarrow> malloc \<Rightarrow> u8 \<Rightarrow> u16 \<Rightarrow> u8 list \<Rightarrow> 'd fat_ctx \<Rightarrow> (bool \<times> 'd fat_ctx) option" where
  "fat12_rmdir D mal drive cwd path c =
     (let p = cstr (skip_spaces path); filename = base_of p
      in if p = [] \<or> p = [47] \<or> p = [46] \<or> p = [46, 46] then Some (False, c)
         else do {
           (ok, c) \<leftarrow> fat12_init_ex D mal drive c;
           if \<not> ok then Some (False, c)
           else if filename = [] \<or> filename = [46] \<or> filename = [46, 46] then Some (False, fat12_deinit D c)
           else do {
             (target, c) \<leftarrow> target_dir_of D mal cwd p c;
             case target of
               None \<Rightarrow> Some (False, fat12_deinit D c)
             | Some target_dir \<Rightarrow> do {
                 (r, c) \<leftarrow> read_dir D mal target_dir c;
                 case r of
                   None \<Rightarrow> Some (False, fat12_deinit D c)
                 | Some dir \<Rightarrow>
                     (case dir_find (\<lambda>i. in_use (ent_at dir i) \<and> name_matches dir i filename) dir 0 (length dir div 32) of
                        None \<Rightarrow> Some (False, fat12_deinit D c)
                      | Some i \<Rightarrow>
                          let first = de_cluster (ent_at dir i)
                          in if de_attr (ent_at dir i) AND 0x10 = 0 then Some (False, fat12_deinit D c)
                             else do {
                               (child, c) \<leftarrow> (if first \<ge> 2 then fat12_read_dir_cluster D mal first c else Some (Some [], c));
                               case child of
                                 None \<Rightarrow> Some (False, fat12_deinit D c)
                               | Some child \<Rightarrow>
                                   if \<not> dir_empty child then Some (False, fat12_deinit D c)
                                   else do {
                                     c \<leftarrow> (if first \<ge> 2 then fat12_free_chain D first c else Some c);
                                     c \<leftarrow> write_dir D target_dir ((lfn_mark_all dir i)[i * 32 := 0xE5]) c;
                                     c \<leftarrow> fat12_flush_fat D c;
                                     Some (True, fat12_deinit D c)
                                   }
                             })
               }
           }
         })"

definition fat12_find_free_slot :: "u8 list \<Rightarrow> (nat \<times> u8 list) option" where
  "fat12_find_free_slot dir =
     map_option (\<lambda>i. (i, blit_at dir (i * 32) (replicate 32 0)))
       (first_idx (\<lambda>i. dir ! (i * 32) = 0 \<or> dir ! (i * 32) = 0xE5) [0..<length dir div 32])"

definition dir_entry :: "u8 list \<Rightarrow> u16 \<Rightarrow> u8 list" where
  "dir_entry name11 cluster = take 11 name11 @ [0x10] @ replicate 14 0 @ le16 cluster @ le32 0"

definition fat12_create_dir ::
  "'d sectors \<Rightarrow> malloc \<Rightarrow> u16 \<Rightarrow> u8 list \<Rightarrow> 'd fat_ctx \<Rightarrow> (bool \<times> 'd fat_ctx) option" where
  "fat12_create_dir D mal parent_dir name c =
     (let name83 = fat12_to_83 name
      in do {
           (existing, c) \<leftarrow> fat12_find_in_dir D mal parent_dir name83 c;
           if existing \<noteq> None then Some (False, c)
           else do {
             (new_cluster, c) \<leftarrow> fat_find_free_cluster D c;
             if new_cluster = 0xFFFF then Some (False, c)
             else do {
               c \<leftarrow> fat_ctx_set_entry D new_cluster (if c_fat_type c = 16 then 0xFFFF else 0x0FFF) c;
               (r, c) \<leftarrow> read_dir D mal parent_dir c;
               case Option.bind r fat12_find_free_slot of
                 None \<Rightarrow> do { c \<leftarrow> fat_ctx_set_entry D new_cluster 0 c; Some (False, c) }
               | Some (i, dir) \<Rightarrow> do {
                   c \<leftarrow> write_dir D parent_dir (blit_at dir (i * 32) (dir_entry name83 new_cluster)) c;
                   let dots = dir_entry ([46] @ replicate 10 32) new_cluster @ dir_entry ([46, 46] @ replicate 9 32) parent_dir
                   in Some (True, snd (ctx_write D (fat12_cluster_lba c new_cluster) (dots @ replicate (512 - length dots) 0) c))
                 }
             }
           }
         })"

text \<open>The loop of \<open>fat12_mkdir\<close>: the result and whether a directory was created.\<close>

fun mkdir_segs ::
  "'d sectors \<Rightarrow> malloc \<Rightarrow> u8 list list \<Rightarrow> u16 \<Rightarrow> bool \<Rightarrow> 'd fat_ctx \<Rightarrow> ((bool \<times> bool) \<times> 'd fat_ctx) option" where
  "mkdir_segs D mal [] dir created c = Some ((True, created), c)"
| "mkdir_segs D mal (seg # segs) dir created c = do {
     (e, c) \<leftarrow> fat12_find_in_dir D mal dir (fat12_to_83 seg) c;
     case e of
       Some ent \<Rightarrow>
         if de_attr ent AND 0x10 \<noteq> 0 then mkdir_segs D mal segs (de_cluster ent) created c
         else Some ((False, created), c)
     | None \<Rightarrow> do {
         (ok, c) \<leftarrow> fat12_create_dir D mal dir seg c;
         if \<not> ok then Some ((False, created), c)
         else do {
           (e, c) \<leftarrow> fat12_find_in_dir D mal dir (fat12_to_83 seg) c;
           case e of
             None \<Rightarrow> Some ((False, True), c)
           | Some ent \<Rightarrow> mkdir_segs D mal segs (de_cluster ent) True c
         }
       }
   }"

definition fat12_mkdir ::
  "'d sectors \<Rightarrow> malloc \<Rightarrow> u8 \<Rightarrow> u16 \<Rightarrow> u8 list \<Rightarrow> 'd fat_ctx \<Rightarrow> (bool \<times> 'd fat_ctx) option" where
  "fat12_mkdir D mal drive cwd fn c = do {
     (ok, c) \<leftarrow> fat12_init_ex D mal drive c;
     if \<not> ok then Some (False, c)
     else do {
       ((ok, created), c) \<leftarrow> mkdir_segs D mal (path_segs (cstr fn)) (if c_at fn 0 = 47 then 0 else cwd) False c;
       c \<leftarrow> (if created \<and> ok then fat12_flush_fat D c else Some c);
       Some (ok, fat12_deinit D c)
     }
   }"

section \<open>The working directory\<close>

record cwd =
  cwd_cluster :: u16
  cwd_path :: "u8 list"

definition CWD_PATH_SIZE :: nat where "CWD_PATH_SIZE = 128"

definition fat12_cwd_set_root :: "cwd \<Rightarrow> cwd" where
  "fat12_cwd_set_root w = \<lparr>cwd_cluster = 0, cwd_path = [47]\<rparr>"

text \<open>The path is its characters before the terminating zero.\<close>

definition strip_slash :: "u8 list \<Rightarrow> u8 list" where
  "strip_slash s = (if length s > 1 \<and> last s = 47 then butlast s else s)"

definition fat12_cwd_push :: "u8 list \<Rightarrow> cwd \<Rightarrow> cwd" where
  "fat12_cwd_push seg w =
     (let s = (if cwd_path w = [] then [47] else cwd_path w);
          w = w\<lparr>cwd_path := s\<rparr>
      in if cstr seg = [] then w
         else if length s + 1 \<ge> CWD_PATH_SIZE then w
         else
           let s = strip_slash s
           in let s = (if length s > 1 then s @ [47] else s)
              in w\<lparr>cwd_path := s @ take (CWD_PATH_SIZE - 1 - length s) (cstr seg)\<rparr>)"

definition fat12_cwd_pop :: "cwd \<Rightarrow> cwd" where
  "fat12_cwd_pop w =
     (let s = cwd_path w
      in if length s \<le> 1 then fat12_cwd_set_root w
         else
           let s = strip_slash s;
               s = hd s # rev (dropWhile (\<lambda>ch. ch \<noteq> 47) (rev (tl s)));
               s = (if length s > 1 then butlast s else s)
           in if hd s \<noteq> 47 then fat12_cwd_set_root w else w\<lparr>cwd_path := s\<rparr>)"

definition cmd_cd ::
  "'d sectors \<Rightarrow> malloc \<Rightarrow> u8 \<Rightarrow> u8 list \<Rightarrow> cwd \<Rightarrow> 'd fat_ctx \<Rightarrow> (cwd \<times> 'd fat_ctx) option" where
  "cmd_cd D mal drive path w c =
     (let p = cstr (skip_spaces path)
      in if p = [] then Some (fat12_cwd_set_root w, c)
         else do {
           (ok, c) \<leftarrow> fat12_init_ex D mal drive c;
           if \<not> ok then Some (w, c)
           else do {
             (r, c) \<leftarrow> fat12_resolve_dir D mal (cwd_cluster w) p c;
             case r of
               None \<Rightarrow> Some (w, fat12_deinit D c)
             | Some cluster \<Rightarrow>
                 let w = (if c_at p 0 = 47 then fat12_cwd_set_root w else w);
                     w = fold (\<lambda>seg w. if seg = [46] then w else if seg = [46, 46] then fat12_cwd_pop w
                                        else fat12_cwd_push seg w) (path_segs p) w
                 in Some (w\<lparr>cwd_cluster := cluster\<rparr>, fat12_deinit D c)
           }
         })"

section \<open>File slots\<close>

definition FILE_SLOTS :: nat where "FILE_SLOTS = 16"

record file_slot =
  fs_ptr :: "u8 list option"
  fs_size :: u32
  fs_name :: "u8 list"

definition slot_empty :: "file_slot \<Rightarrow> file_slot" where
  "slot_empty s = s\<lparr>fs_ptr := None, fs_size := 0, fs_name := []\<rparr>"

definition file_slot_init :: "file_slot list \<Rightarrow> file_slot list" where
  "file_slot_init ss = map slot_empty ss"

definition slot_find :: "u8 list \<Rightarrow> file_slot list \<Rightarrow> nat option" where
  "slot_find name = first_idx (\<lambda>s. fs_ptr s \<noteq> None \<and> kstreq name (fs_name s))"

definition file_slot_drop :: "u8 list \<Rightarrow> file_slot list \<Rightarrow> bool \<times> file_slot list" where
  "file_slot_drop name ss =
     (slot_find name ss \<noteq> None,
      map (\<lambda>s. if fs_ptr s \<noteq> None \<and> kstreq name (fs_name s) then slot_empty s else s) ss)"

definition file_slot_save :: "malloc \<Rightarrow> u8 list \<Rightarrow> u8 list \<Rightarrow> u32 \<Rightarrow> file_slot list \<Rightarrow> int \<times> file_slot list" where
  "file_slot_save mal name data sz ss =
     (case (case slot_find name ss of Some i \<Rightarrow> Some i | None \<Rightarrow> first_idx (\<lambda>s. fs_ptr s = None) ss) of
        None \<Rightarrow> (-1, ss)
      | Some i \<Rightarrow>
          (case mal (if sz \<noteq> 0 then sz else 1) of
             None \<Rightarrow> (-2, ss)
           | Some b \<Rightarrow>
               (int i, ss[i := \<lparr>fs_ptr = Some (take (unat sz) data @ drop (unat sz) b), fs_size = sz,
                                fs_name = take 39 (cstr name)\<rparr>])))"

definition file_slot_read :: "malloc \<Rightarrow> u8 list \<Rightarrow> file_slot list \<Rightarrow> int \<times> (u8 list \<times> u32) option" where
  "file_slot_read mal name ss =
     (case slot_find name ss of
        None \<Rightarrow> (0, None)
      | Some i \<Rightarrow>
          let s = fs_size (ss ! i)
          in case mal (if s \<noteq> 0 then s else 1) of
               None \<Rightarrow> (-1, None)
             | Some b \<Rightarrow> (1, Some (take (unat s) (the (fs_ptr (ss ! i))) @ drop (unat s) b, s)))"

definition file_slot_peek :: "u8 list \<Rightarrow> file_slot list \<Rightarrow> (u8 list \<times> u32) option" where
  "file_slot_peek name ss = map_option (\<lambda>i. (the (fs_ptr (ss ! i)), fs_size (ss ! i))) (slot_find name ss)"

definition cmd_freeram :: "u8 list \<Rightarrow> file_slot list \<Rightarrow> file_slot list" where
  "cmd_freeram arg ss =
     (let s = skip_spaces arg
      in if c_at s 0 = 0 then ss
         else case slot_find s ss of Some i \<Rightarrow> ss[i := slot_empty (ss ! i)] | None \<Rightarrow> ss)"

end
