(* ===== verification/Disk.thy ===== *)
theory Disk
  imports KString
begin

text \<open>
  Sector access (\<open>src/disk.c\<close>): the copy of the boot floppy the boot loader leaves at
  \<open>DISK_CACHE_BASE\<close>, the write-behind table for the sectors after it, and the routing of the other
  requests to ATA or to the BIOS. The ATA driver (port I/O) and the BIOS thunks are the parameter
  \<open>hardware\<close>. The bounce buffer of the BIOS calls, at 0x7F000, lies inside the copy of the floppy
  (0x51000 up to 0xA0000): it is the copy of sector 368.

  The locale \<open>sector_store\<close> is what a file system relies on: on a set of good sectors a read
  returns what was last written. The boot floppy and a hard disk behind ATA are its
  interpretations.
\<close>

section \<open>State\<close>

definition DISK_CACHE_SECTORS :: u32 where "DISK_CACHE_SECTORS = 632"
definition FLOPPY_WB_SLOTS :: nat where "FLOPPY_WB_SLOTS = 256"
definition CACHE_REFRESH_ROOT_START :: u32 where "CACHE_REFRESH_ROOT_START = 520"
definition CACHE_REFRESH_ROOT_END :: u32 where "CACHE_REFRESH_ROOT_END = 541"
definition ROOT_SNAPSHOT_SECTORS :: nat where "ROOT_SNAPSHOT_SECTORS = 14"

definition DISK_CACHE_BASE :: nat where "DISK_CACHE_BASE = 0x51000"
definition DISK_BOUNCE_PHYS :: nat where "DISK_BOUNCE_PHYS = 0x7F000"

definition bounce_lba :: nat where
  "bounce_lba = (DISK_BOUNCE_PHYS - DISK_CACHE_BASE) div 512"

lemmas disk_consts = DISK_CACHE_SECTORS_def FLOPPY_WB_SLOTS_def CACHE_REFRESH_ROOT_START_def
  CACHE_REFRESH_ROOT_END_def ROOT_SNAPSHOT_SECTORS_def DISK_CACHE_BASE_def DISK_BOUNCE_PHYS_def bounce_lba_def

record floppy_wb_slot =
  wb_lba :: u32
  wb_data :: "u8 list option"

record 'h disk =
  d_cache :: "u8 list list"
  d_wb :: "floppy_wb_slot list"
  ramdisk_sectors :: u16
  ramdisk_drive :: u8
  root_lba_start :: u32
  root_lba_end :: u32
  ata_available :: bool
  bios_disk_disabled :: bool
  root_snapshot :: "u8 list"
  root_snapshot_lba :: u32
  root_snapshot_bytes :: u32
  d_hw :: 'h

text \<open>\<open>ata_detect_all_devices\<close> gives the sector count of the active device. A BIOS read returns the
  status word and what it left in the bounce buffer.\<close>

record 'h hardware =
  ata_detect_all_devices :: "'h \<Rightarrow> u32 option \<times> 'h"
  ata_read_sector :: "u32 \<Rightarrow> 'h \<Rightarrow> u8 list option \<times> 'h"
  ata_write_sector :: "u32 \<Rightarrow> u8 list \<Rightarrow> 'h \<Rightarrow> bool \<times> 'h"
  bios_int13_read_chs :: "u8 \<Rightarrow> u16 \<Rightarrow> u8 \<Rightarrow> u8 \<Rightarrow> 'h \<Rightarrow> (u32 \<times> u8 list) \<times> 'h"
  bios_int13_write_chs :: "u8 \<Rightarrow> u16 \<Rightarrow> u8 \<Rightarrow> u8 \<Rightarrow> u8 list \<Rightarrow> 'h \<Rightarrow> u32 \<times> 'h"

section \<open>The write-behind table\<close>

definition wb_find :: "u32 \<Rightarrow> floppy_wb_slot list \<Rightarrow> nat option" where
  "wb_find lba = first_idx (\<lambda>s. wb_data s \<noteq> None \<and> wb_lba s = lba)"

definition floppy_wb_store :: "malloc \<Rightarrow> u32 \<Rightarrow> u8 list \<Rightarrow> floppy_wb_slot list \<Rightarrow> floppy_wb_slot list" where
  "floppy_wb_store mal lba src wb =
     (case wb_find lba wb of
        Some i \<Rightarrow> wb[i := (wb ! i)\<lparr>wb_data := Some src\<rparr>]
      | None \<Rightarrow>
          let free_slot = (case first_idx (\<lambda>s. wb_data s = None) wb of Some i \<Rightarrow> i | None \<Rightarrow> 0)
          in if wb_data (wb ! free_slot) = None \<and> mal 512 = None then wb
             else wb[free_slot := \<lparr>wb_lba = lba, wb_data = Some src\<rparr>])"

definition floppy_wb_fetch :: "u32 \<Rightarrow> floppy_wb_slot list \<Rightarrow> u8 list option" where
  "floppy_wb_fetch lba wb = Option.bind (wb_find lba wb) (\<lambda>i. wb_data (wb ! i))"

section \<open>The BIOS\<close>

definition lba_to_chs :: "u32 \<Rightarrow> u16 \<times> u8 \<times> u8" where
  "lba_to_chs lba = (ucast (lba div (2 * 18)), ucast ((lba div 18) mod 2), ucast ((lba mod 18) + 1))"

abbreviation cache_put :: "nat \<Rightarrow> u8 list \<Rightarrow> 'h disk \<Rightarrow> 'h disk" where
  "cache_put i b d \<equiv> d\<lparr>d_cache := (d_cache d)[i := b]\<rparr>"

definition bios_read_sector_lba :: "'h hardware \<Rightarrow> u8 \<Rightarrow> u32 \<Rightarrow> 'h disk \<Rightarrow> u8 list option \<times> 'h disk" where
  "bios_read_sector_lba H drive lba d =
     (if bios_disk_disabled d then (None, d)
      else
        let (cyl, head, sect) = lba_to_chs lba;
            ((rc, bounce), h) = bios_int13_read_chs H drive cyl head sect (d_hw d);
            d = cache_put bounce_lba bounce (d\<lparr>d_hw := h\<rparr>)
        in if (ucast (drop_bit 8 rc) :: u8) \<noteq> 0 then (None, d) else (Some bounce, d))"

definition bios_write_sector_lba :: "'h hardware \<Rightarrow> u8 \<Rightarrow> u32 \<Rightarrow> u8 list \<Rightarrow> 'h disk \<Rightarrow> bool \<times> 'h disk" where
  "bios_write_sector_lba H drive lba src d =
     (if bios_disk_disabled d then (False, d)
      else
        let (cyl, head, sect) = lba_to_chs lba;
            d = cache_put bounce_lba src d;
            (rc, h) = bios_int13_write_chs H drive cyl head sect src (d_hw d)
        in ((ucast (drop_bit 8 rc) :: u8) = 0, d\<lparr>d_hw := h\<rparr>))"

section \<open>Initialisation\<close>

text \<open>\<open>dir_weight\<close>: the directory entries in use at the start of a sector; \<open>root_scan\<close>: the sector
  with the most of them, the first of equals.\<close>

fun dir_weight :: "u8 list \<Rightarrow> nat \<Rightarrow> nat \<Rightarrow> nat" where
  "dir_weight sec i 0 = 0"
| "dir_weight sec i (Suc k) =
     (if sec ! (i * 32) = 0 then 0
      else (if sec ! (i * 32) \<noteq> 0xE5 then 1 else 0) + dir_weight sec (Suc i) k)"

fun root_scan :: "u8 list list \<Rightarrow> nat list \<Rightarrow> nat \<Rightarrow> nat \<Rightarrow> nat \<times> nat" where
  "root_scan cache [] best_lba best_n = (best_lba, best_n)"
| "root_scan cache (lba # lbas) best_lba best_n =
     (let n = dir_weight (cache ! lba) 0 16
      in if n > best_n then root_scan cache lbas lba n else root_scan cache lbas best_lba best_n)"

definition bpb_reserved :: "u8 list list \<Rightarrow> u16" where
  "bpb_reserved cache = ucast (cache ! 0 ! 14) OR push_bit 8 (ucast (cache ! 0 ! 15))"

definition floppy_root_range :: "'h disk \<Rightarrow> 'h disk" where
  "floppy_root_range d =
     (if ramdisk_drive d < 0x80 \<and> ramdisk_sectors d \<ge> 14 then
        let reserved = bpb_reserved (d_cache d);
            (best_lba, best_n) = root_scan (d_cache d) [528..<543] 534 0;
            root_lba = (if reserved \<noteq> 0 \<and> reserved \<le> 600 then ucast reserved + 18
                        else if best_n > 0 then of_nat best_lba else (534 :: u32))
        in if root_lba + 14 \<le> ucast (ramdisk_sectors d) \<and> root_lba + 14 \<le> DISK_CACHE_SECTORS then
             d\<lparr>root_lba_start := root_lba, root_lba_end := root_lba + 14,
               root_snapshot := concat (take ROOT_SNAPSHOT_SECTORS (drop (unat root_lba) (d_cache d))),
               root_snapshot_lba := root_lba, root_snapshot_bytes := of_nat ROOT_SNAPSHOT_SECTORS * 512\<rparr>
           else d
      else d)"

definition disk_init :: "'h hardware \<Rightarrow> u8 \<Rightarrow> u16 \<Rightarrow> 'h disk \<Rightarrow> 'h disk" where
  "disk_init H boot_drive ram_sectors d =
     (let d = d\<lparr>ramdisk_drive := boot_drive, ramdisk_sectors := ram_sectors\<rparr>;
          (dev, h) = ata_detect_all_devices H (d_hw d);
          d = d\<lparr>d_hw := h\<rparr>;
          d = (case dev of
                 None \<Rightarrow> d\<lparr>ata_available := False\<rparr>
               | Some sector_count \<Rightarrow>
                   let d = d\<lparr>ata_available := True\<rparr>
                   in if boot_drive \<ge> 0x80 then
                        let d = d\<lparr>ramdisk_drive := 0x80\<rparr>
                        in if sector_count > 0 \<and> sector_count < 0x0FFFFFFF
                           then d\<lparr>ramdisk_sectors := (if sector_count < 65535 then ucast sector_count else 65535)\<rparr>
                           else if ramdisk_sectors d < 65535 then d\<lparr>ramdisk_sectors := 65535\<rparr> else d
                      else d)
      in floppy_root_range d)"

definition disk_floppy_root_lba :: "'h disk \<Rightarrow> u32" where
  "disk_floppy_root_lba d =
     (if ramdisk_drive d \<ge> 0x80 \<or> ramdisk_sectors d < 14 then 0
      else
        let reserved = bpb_reserved (d_cache d)
        in if reserved \<noteq> 0 \<and> reserved \<le> 600 then ucast reserved + 18
           else if root_snapshot_bytes d \<noteq> 0 then root_snapshot_lba d
           else 532)"

definition disk_get_floppy_root_snapshot :: "'h disk \<Rightarrow> (u32 \<times> u8 list \<times> u32) option" where
  "disk_get_floppy_root_snapshot d =
     (if root_snapshot_bytes d = 0 then None
      else Some (root_snapshot_lba d, root_snapshot d, root_snapshot_bytes d))"

text \<open>\<open>disk_read_cache_region\<close> returns the bytes it copies (none when the region is outside).\<close>

definition disk_read_cache_region :: "u32 \<Rightarrow> u32 \<Rightarrow> 'h disk \<Rightarrow> u8 list" where
  "disk_read_cache_region lba_offset num_bytes d =
     (if lba_offset \<ge> DISK_CACHE_SECTORS \<or> num_bytes > (DISK_CACHE_SECTORS - lba_offset) * 512 then []
      else take (unat num_bytes) (concat (drop (unat lba_offset) (d_cache d))))"

section \<open>Reading and writing sectors\<close>

definition boot_floppy :: "u8 \<Rightarrow> 'h disk \<Rightarrow> bool" where
  "boot_floppy drive d \<longleftrightarrow> drive = ramdisk_drive d \<and> drive < 0x80"

definition disk_read_sector :: "'h hardware \<Rightarrow> u8 \<Rightarrow> u32 \<Rightarrow> 'h disk \<Rightarrow> u8 list option \<times> 'h disk" where
  "disk_read_sector H drive lba d =
     (if drive < 0x80 \<and> ramdisk_sectors d > 0 \<and> lba \<ge> ucast (ramdisk_sectors d) then (None, d)
      else if boot_floppy drive d \<and> root_lba_end d \<noteq> 0 \<and> lba \<ge> root_lba_start d \<and> lba < root_lba_end d \<and>
              lba < DISK_CACHE_SECTORS
      then (Some (d_cache d ! unat lba), d)
      else if boot_floppy drive d \<and> lba < DISK_CACHE_SECTORS then
        let dst = d_cache d ! unat lba
        in if list_all (\<lambda>b. b = 0) (take 16 dst) \<and>
              (lba = 0 \<or> lba \<ge> CACHE_REFRESH_ROOT_START \<and> lba \<le> CACHE_REFRESH_ROOT_END)
           then
             let (r, d) = bios_read_sector_lba H drive lba d
             in case r of
                  Some b \<Rightarrow> (Some b, cache_put (unat lba) b d)
                | None \<Rightarrow> (Some dst, d)
           else (Some dst, d)
      else
        case (if boot_floppy drive d then floppy_wb_fetch lba (d_wb d) else None) of
          Some b \<Rightarrow> (Some b, d)
        | None \<Rightarrow>
            if ata_available d \<and> drive \<ge> 0x80 then
              let (r, h) = ata_read_sector H lba (d_hw d);
                  d = d\<lparr>d_hw := h\<rparr>
              in case r of
                   Some b \<Rightarrow> (Some b, d)
                 | None \<Rightarrow> bios_read_sector_lba H drive lba d
            else bios_read_sector_lba H drive lba d)"

definition disk_write_sector :: "'h hardware \<Rightarrow> malloc \<Rightarrow> u8 \<Rightarrow> u32 \<Rightarrow> u8 list \<Rightarrow> 'h disk \<Rightarrow> bool \<times> 'h disk" where
  "disk_write_sector H mal drive lba src d =
     (let (success, d) =
            (if ata_available d \<and> drive \<ge> 0x80 then
               let (ok, h) = ata_write_sector H lba src (d_hw d) in (ok, d\<lparr>d_hw := h\<rparr>)
             else bios_write_sector_lba H drive lba src d);
          d = (if boot_floppy drive d \<and> lba < DISK_CACHE_SECTORS then cache_put (unat lba) src d else d);
          d = (if boot_floppy drive d \<and> lba \<ge> DISK_CACHE_SECTORS
               then d\<lparr>d_wb := floppy_wb_store mal lba src (d_wb d)\<rparr> else d)
      in (success, d))"

definition ramdisk_read_sector_lba :: "'h hardware \<Rightarrow> u32 \<Rightarrow> 'h disk \<Rightarrow> u8 list option \<times> 'h disk" where
  "ramdisk_read_sector_lba H lba d = disk_read_sector H (ramdisk_drive d) lba d"

definition ramdisk_write_sector_lba :: "'h hardware \<Rightarrow> malloc \<Rightarrow> u32 \<Rightarrow> u8 list \<Rightarrow> 'h disk \<Rightarrow> bool \<times> 'h disk" where
  "ramdisk_write_sector_lba H mal lba src d = disk_write_sector H mal (ramdisk_drive d) lba src d"

text \<open>\<open>disk_refresh_root_from_boot\<close>: \<open>i\<close> runs from 0 while the sector is inside the copy.\<close>

fun disk_refresh_loop :: "'h hardware \<Rightarrow> u32 \<Rightarrow> nat \<Rightarrow> nat \<Rightarrow> 'h disk \<Rightarrow> 'h disk" where
  "disk_refresh_loop H root_lba i 0 d = d"
| "disk_refresh_loop H root_lba i (Suc k) d =
     (let lba = root_lba + of_nat i
      in if lba < DISK_CACHE_SECTORS then
           let (r, d) = bios_read_sector_lba H (ramdisk_drive d) lba d
           in disk_refresh_loop H root_lba (Suc i) k
                (case r of Some b \<Rightarrow> cache_put (unat lba) b d | None \<Rightarrow> d)
         else d)"

definition disk_refresh_root_from_boot :: "'h hardware \<Rightarrow> u32 \<Rightarrow> u32 \<Rightarrow> 'h disk \<Rightarrow> 'h disk" where
  "disk_refresh_root_from_boot H root_lba root_sectors d =
     (if ramdisk_drive d \<ge> 0x80 \<or> ramdisk_sectors d = 0 \<or> bios_disk_disabled d then d
      else if root_sectors = 0 \<or> root_lba + root_sectors > ucast (ramdisk_sectors d) then d
      else disk_refresh_loop H root_lba 0 (unat root_sectors) d)"

section \<open>What a file system relies on\<close>

locale sector_store =
  fixes rd :: "u32 \<Rightarrow> 'd \<Rightarrow> u8 list option \<times> 'd"
    and wr :: "u32 \<Rightarrow> u8 list \<Rightarrow> 'd \<Rightarrow> bool \<times> 'd"
    and sound :: "'d \<Rightarrow> bool"
    and view :: "'d \<Rightarrow> u32 \<Rightarrow> u8 list"
    and good :: "u32 \<Rightarrow> bool"
  assumes rd_ok: "sound d \<Longrightarrow> good a \<Longrightarrow> rd a d = (r, d') \<Longrightarrow>
      r = Some (view d a) \<and> sound d' \<and> (\<forall>b. good b \<longrightarrow> view d' b = view d b)"
    and wr_ok: "sound d \<Longrightarrow> good a \<Longrightarrow> length x = 512 \<Longrightarrow> wr a x d = (ok, d') \<Longrightarrow>
      sound d' \<and> (\<forall>b. good b \<longrightarrow> view d' b = (if b = a then x else view d b))"
    and view_len: "sound d \<Longrightarrow> good a \<Longrightarrow> length (view d a) = 512"
begin

text \<open>A run of requests: reads give their answer, writes take effect on their own sector only.\<close>

lemma rd_fst: "sound d \<Longrightarrow> good a \<Longrightarrow> fst (rd a d) = Some (view d a)"
  using rd_ok [of d a "fst (rd a d)" "snd (rd a d)"] by simp

lemma rd_sound: "sound d \<Longrightarrow> good a \<Longrightarrow> sound (snd (rd a d))"
  using rd_ok [of d a "fst (rd a d)" "snd (rd a d)"] by simp

lemma rd_view: "sound d \<Longrightarrow> good a \<Longrightarrow> good b \<Longrightarrow> view (snd (rd a d)) b = view d b"
  using rd_ok [of d a "fst (rd a d)" "snd (rd a d)"] by simp

lemma wr_sound: "sound d \<Longrightarrow> good a \<Longrightarrow> length x = 512 \<Longrightarrow> sound (snd (wr a x d))"
  using wr_ok [of d a x "fst (wr a x d)" "snd (wr a x d)"] by simp

lemma wr_view:
  "sound d \<Longrightarrow> good a \<Longrightarrow> length x = 512 \<Longrightarrow> good b \<Longrightarrow>
   view (snd (wr a x d)) b = (if b = a then x else view d b)"
  using wr_ok [of d a x "fst (wr a x d)" "snd (wr a x d)"] by simp

lemmas store_rules = rd_fst rd_sound rd_view wr_sound wr_view

lemma read_back: "sound d \<Longrightarrow> good a \<Longrightarrow> length x = 512 \<Longrightarrow> fst (rd a (snd (wr a x d))) = Some x"
  by (simp add: store_rules)

lemma read_other:
  "sound d \<Longrightarrow> good a \<Longrightarrow> length x = 512 \<Longrightarrow> good b \<Longrightarrow> b \<noteq> a \<Longrightarrow>
   fst (rd b (snd (wr a x d))) = fst (rd b d)"
  by (simp add: store_rules)

end

section \<open>A hard disk behind ATA\<close>

text \<open>What the ATA driver is relied on for: a sector holds what was last written to it.\<close>

definition ata_stores :: "'h hardware \<Rightarrow> ('h \<Rightarrow> u32 \<Rightarrow> u8 list) \<Rightarrow> bool" where
  "ata_stores H C \<longleftrightarrow>
     (\<forall>a h. fst (ata_read_sector H a h) = Some (C h a) \<and> C (snd (ata_read_sector H a h)) = C h \<and> length (C h a) = 512) \<and>
     (\<forall>a x h. length x = 512 \<longrightarrow> C (snd (ata_write_sector H a x h)) = (C h)(a := x))"

definition hdd_sound :: "'h hardware \<Rightarrow> ('h \<Rightarrow> u32 \<Rightarrow> u8 list) \<Rightarrow> u8 \<Rightarrow> 'h disk \<Rightarrow> bool" where
  "hdd_sound H C drive d \<longleftrightarrow> ata_stores H C \<and> ata_available d \<and> drive \<ge> 0x80"

definition hdd_view :: "('h \<Rightarrow> u32 \<Rightarrow> u8 list) \<Rightarrow> 'h disk \<Rightarrow> u32 \<Rightarrow> u8 list" where
  "hdd_view C d a = C (d_hw d) a"

interpretation hdd: sector_store "disk_read_sector H drive" "disk_write_sector H mal drive"
  "hdd_sound H C drive" "hdd_view C" "\<lambda>_. True"
proof unfold_locales
  fix d d' :: "'a disk" and a r
  assume s: "hdd_sound H C drive d" and e: "disk_read_sector H drive a d = (r, d')"
  from s have g: "ata_available d" "drive \<ge> 0x80" "fst (ata_read_sector H a (d_hw d)) = Some (C (d_hw d) a)"
    by (simp_all add: hdd_sound_def ata_stores_def)
  from g(2) have "\<not> drive < 0x80" by simp
  with g have "disk_read_sector H drive a d = (Some (C (d_hw d) a), d\<lparr>d_hw := snd (ata_read_sector H a (d_hw d))\<rparr>)"
    by (simp add: disk_read_sector_def boot_floppy_def Let_def case_prod_beta)
  then show "r = Some (hdd_view C d a) \<and> hdd_sound H C drive d' \<and> (\<forall>b. True \<longrightarrow> hdd_view C d' b = hdd_view C d b)"
    using s e by (auto simp: hdd_view_def hdd_sound_def ata_stores_def)
next
  fix d d' :: "'a disk" and a and x :: "u8 list" and ok
  assume s: "hdd_sound H C drive d" and x: "length x = 512" and e: "disk_write_sector H mal drive a x d = (ok, d')"
  from s have g: "ata_available d" "drive \<ge> 0x80" by (simp_all add: hdd_sound_def)
  from g(2) have "\<not> drive < 0x80" by simp
  with g e have "d' = d\<lparr>d_hw := snd (ata_write_sector H a x (d_hw d))\<rparr>"
    by (auto simp add: disk_write_sector_def boot_floppy_def Let_def case_prod_beta)
  then show "hdd_sound H C drive d' \<and> (\<forall>b. True \<longrightarrow> hdd_view C d' b = (if b = a then x else hdd_view C d b))"
    using s x by (auto simp: hdd_view_def hdd_sound_def ata_stores_def)
next
  fix d :: "'a disk" and a
  assume "hdd_sound H C drive d"
  then show "length (hdd_view C d a) = 512"
    by (simp add: hdd_sound_def ata_stores_def hdd_view_def)
qed

section \<open>The boot floppy\<close>

text \<open>The write-behind table holds each sector once, all of them from the 256 after the copy.\<close>

definition wb_wf :: "floppy_wb_slot list \<Rightarrow> bool" where
  "wb_wf wb \<longleftrightarrow> length wb = FLOPPY_WB_SLOTS \<and> slots_unique (\<lambda>s. wb_data s \<noteq> None) wb_lba wb \<and>
     (\<forall>s \<in> set wb. wb_data s \<noteq> None \<longrightarrow> 632 \<le> unat (wb_lba s) \<and> unat (wb_lba s) < 888 \<and> length (the (wb_data s)) = 512)"

interpretation wb: slot_table "\<lambda>s. wb_data s \<noteq> None" wb_lba "\<lambda>wb lba. wb_find lba wb"
  using scan_lookup_slot_table [of "\<lambda>s. wb_data s \<noteq> None" wb_lba]
  unfolding scan_lookup_def wb_find_def .

lemma wb_full_finds:
  assumes wf: "wb_wf wb" and full: "first_idx (\<lambda>s. wb_data s = None) wb = None"
    and a: "632 \<le> unat a" "unat a < 888"
  shows "\<exists>i. wb_find a wb = Some i"
proof -
  have used: "wb_data s \<noteq> None" if "s \<in> set wb" for s
    using full that by (simp add: first_idx_None)
  have inj: "inj_on (\<lambda>i. unat (wb_lba (wb ! i))) {..<length wb}"
    using wf used unfolding wb_wf_def slots_unique_def inj_on_def by (simp flip: word_unat_eq_iff)
  let ?A = "(\<lambda>i. unat (wb_lba (wb ! i))) ` {..<length wb}"
  have "card ?A = 256"
    using card_image [OF inj] wf by (simp add: wb_wf_def FLOPPY_WB_SLOTS_def)
  moreover have "?A \<subseteq> {632..<888}"
    using wf used unfolding wb_wf_def by (auto dest: nth_mem)
  ultimately have "?A = {632..<888}"
    by (intro card_subset_eq) auto
  with a have "unat a \<in> ?A" by simp
  then obtain i where i: "i < length wb" "wb_lba (wb ! i) = a"
    by (auto simp flip: word_unat_eq_iff)
  then show ?thesis
    using first_idx_exists [of "wb ! i" wb "\<lambda>s. wb_data s \<noteq> None \<and> wb_lba s = a"] used [of "wb ! i"]
    unfolding wb_find_def by simp
qed

lemma wb_store_wf_fetch:
  assumes wf: "wb_wf wb" and m: "mal 512 \<noteq> None" and a: "632 \<le> unat a" "unat a < 888" and x: "length x = 512"
  shows "wb_wf (floppy_wb_store mal a x wb)"
    and "floppy_wb_fetch b (floppy_wb_store mal a x wb) = (if b = a then Some x else floppy_wb_fetch b wb)"
proof -
  let ?used = "\<lambda>s. wb_data s \<noteq> None"
  let ?s = "\<lparr>wb_lba = a, wb_data = Some x\<rparr>"
  from wf have u: "slots_unique ?used wb_lba wb" and len: "length wb = 256"
    and rng: "\<And>s. s \<in> set wb \<Longrightarrow> ?used s \<Longrightarrow> 632 \<le> unat (wb_lba s) \<and> unat (wb_lba s) < 888 \<and> length (the (wb_data s)) = 512"
    by (auto simp: wb_wf_def FLOPPY_WB_SLOTS_def)
  obtain i where i: "i < length wb" and own: "\<And>j. wb_find a wb = Some j \<Longrightarrow> j = i"
    and st: "floppy_wb_store mal a x wb = wb[i := ?s]"
    and old: "\<And>k. k \<noteq> a \<Longrightarrow> i < length wb \<Longrightarrow> ?used (wb ! i) \<Longrightarrow> wb_lba (wb ! i) \<noteq> k"
  proof (cases "wb_find a wb")
    case (Some j)
    from wb.lookup_Some [OF this] have j: "j < length wb" "wb_lba (wb ! j) = a" by auto
    then have "floppy_wb_store mal a x wb = wb[j := ?s]"
      using Some by (cases "wb ! j") (simp add: floppy_wb_store_def)
    with j Some show ?thesis by (intro that [of j]) auto
  next
    case None
    from wb_full_finds [OF wf _ a] None obtain k where k: "first_idx (\<lambda>s. wb_data s = None) wb = Some k"
      by fastforce
    from first_idx_SomeD [OF k] have kk: "k < length wb" "wb_data (wb ! k) = None" by auto
    have "floppy_wb_store mal a x wb = wb[k := ?s]"
      using None k m by (auto simp: floppy_wb_store_def)
    with kk None show ?thesis by (intro that [of k]) auto
  qed
  have own': "\<And>j. wb_find (wb_lba ?s) wb = Some j \<Longrightarrow> j = i" using own by simp
  have u': "slots_unique ?used wb_lba (wb[i := ?s])"
    by (rule wb.unique_store [OF u]) (use own in simp)
  show "wb_wf (floppy_wb_store mal a x wb)"
    unfolding st wb_wf_def FLOPPY_WB_SLOTS_def
    using u' len rng a x by (auto dest!: set_update_subset_insert [THEN subsetD])
  have same: "wb_find a (wb[i := ?s]) = Some i"
    using wb.lookup_store_same [OF u i, of ?s] own by simp
  have other: "wb_find k (wb[i := ?s]) = wb_find k wb" if "k \<noteq> a" for k
    using wb.lookup_store_other [OF u, of ?s i k] own old that by simp
  have "i \<noteq> j" if "wb_find k wb = Some j" "k \<noteq> a" for j k
    using wb.lookup_Some [OF that(1)] old [OF that(2)] by auto
  then show "floppy_wb_fetch b (floppy_wb_store mal a x wb) = (if b = a then Some x else floppy_wb_fetch b wb)"
    unfolding st floppy_wb_fetch_def using same other i by (cases "wb_find b wb") simp_all
qed

text \<open>What INT 13h is relied on for: it gives access to sectors addressed by cylinder, head and
  sector. A write may fail, and may lose the contents of its own sector, but of no other.\<close>

definition bios_stores :: "'h hardware \<Rightarrow> ('h \<Rightarrow> u16 \<times> u8 \<times> u8 \<Rightarrow> u8 list) \<Rightarrow> bool" where
  "bios_stores H C \<longleftrightarrow>
     (\<forall>drive c hd0 s h. fst (bios_int13_read_chs H drive c hd0 s h) = (0, C h (c, hd0, s)) \<and>
        C (snd (bios_int13_read_chs H drive c hd0 s h)) = C h \<and> length (C h (c, hd0, s)) = 512) \<and>
     (\<forall>drive c hd0 s x h t. t \<noteq> (c, hd0, s) \<longrightarrow> C (snd (bios_int13_write_chs H drive c hd0 s x h)) t = C h t)"

lemma bios_storesD:
  assumes "bios_stores H C"
  shows "fst (bios_int13_read_chs H drive c hd0 s h) = (0, C h (c, hd0, s))"
    "C (snd (bios_int13_read_chs H drive c hd0 s h)) = C h" "length (C h t) = 512"
    "t \<noteq> (c, hd0, s) \<Longrightarrow> C (snd (bios_int13_write_chs H drive c hd0 s x h)) t = C h t"
  using assms unfolding bios_stores_def by (cases t; simp)+

lemma lba_to_chs_inj:
  assumes "unat a < 888" "unat b < 888" "lba_to_chs a = lba_to_chs b"
  shows "a = b"
proof -
  have ab: "unat a < 65536" "unat b < 65536" using assms by auto
  have q: "unat (ucast (w :: u32) :: u16) = unat w mod 65536" "unat (ucast w :: u8) = unat w mod 256" for w
    by (simp_all add: unsigned_ucast_eq take_bit_eq_mod)
  from assms(3) have
    "unat (a div 36) mod 65536 = unat (b div 36) mod 65536"
    "unat (a div 18 mod 2) mod 256 = unat (b div 18 mod 2) mod 256"
    "unat (a mod 18 + 1) mod 256 = unat (b mod 18 + 1) mod 256"
    unfolding lba_to_chs_def prod.inject by (simp_all flip: q)
  moreover have "unat (w div 36) = unat w div 36" "unat (w div 18 mod 2) = unat w div 18 mod 2"
    "unat (w mod 18 + 1) = unat w mod 18 + 1" for w :: u32
    by (simp_all add: unat_div unat_mod unat_word_ariths)
  ultimately have "unat a div 36 = unat b div 36" "unat a div 18 mod 2 = unat b div 18 mod 2" "unat a mod 18 = unat b mod 18"
    using ab by (simp_all add: mod_less)
  moreover have "w = 36 * (w div 36) + (18 * (w div 18 mod 2) + w mod 18)" for w :: nat
    using mult_div_mod_eq [of "18 * 2" w] unfolding mod_mult2_eq by simp
  ultimately have "unat a = unat b" by metis
  then show ?thesis by (simp add: word_unat_eq_iff)
qed

definition floppy_sound ::
  "'h hardware \<Rightarrow> ('h \<Rightarrow> u16 \<times> u8 \<times> u8 \<Rightarrow> u8 list) \<Rightarrow> malloc \<Rightarrow> u8 \<Rightarrow> u16 \<Rightarrow> u32 \<Rightarrow> u32 \<Rightarrow> 'h disk \<Rightarrow> bool" where
  "floppy_sound H C mal drive n r0 r1 d \<longleftrightarrow>
     bios_stores H C \<and> mal 512 \<noteq> None \<and> drive < 0x80 \<and> ramdisk_drive d = drive \<and> ramdisk_sectors d = n \<and>
     \<not> bios_disk_disabled d \<and> root_lba_start d = r0 \<and> root_lba_end d = r1 \<and>
     length (d_cache d) = 632 \<and> (\<forall>s \<in> set (d_cache d). length s = 512) \<and> wb_wf (d_wb d)"

text \<open>The sectors a write sticks to: those of the drive that the copy and the write-behind table can
  hold, except the bounce buffer's, and outside the root directory those that a read does not take
  for never loaded when they start with zeros.\<close>

definition floppy_good :: "u16 \<Rightarrow> u32 \<Rightarrow> u32 \<Rightarrow> u32 \<Rightarrow> bool" where
  "floppy_good n r0 r1 a \<longleftrightarrow>
     (n = 0 \<or> a < ucast n) \<and> unat a < 888 \<and> unat a \<noteq> bounce_lba \<and>
     ((r1 \<noteq> 0 \<and> r0 \<le> a \<and> a < r1) \<or>
      (a \<noteq> 0 \<and> \<not> (CACHE_REFRESH_ROOT_START \<le> a \<and> a \<le> CACHE_REFRESH_ROOT_END)))"

definition floppy_view :: "('h \<Rightarrow> u16 \<times> u8 \<times> u8 \<Rightarrow> u8 list) \<Rightarrow> 'h disk \<Rightarrow> u32 \<Rightarrow> u8 list" where
  "floppy_view C d a =
     (if a < DISK_CACHE_SECTORS then d_cache d ! unat a
      else case floppy_wb_fetch a (d_wb d) of Some b \<Rightarrow> b | None \<Rightarrow> C (d_hw d) (lba_to_chs a))"

lemma floppy_good_ranges:
  "floppy_good n r0 r1 a \<Longrightarrow> unat a < 888" "floppy_good n r0 r1 a \<Longrightarrow> unat a \<noteq> 368"
  by (simp_all add: floppy_good_def disk_consts)

lemma bounce_368: "bounce_lba = 368"
  by (simp add: disk_consts)

lemma cache_word: "(a < DISK_CACHE_SECTORS) = (unat a < 632)"
  by (simp add: DISK_CACHE_SECTORS_def word_less_nat_alt)

lemma floppy_rd:
  assumes s: "floppy_sound H C mal drive n r0 r1 d" and g: "floppy_good n r0 r1 a"
    and e: "disk_read_sector H drive a d = (r, d')"
  shows "r = Some (floppy_view C d a) \<and> floppy_sound H C mal drive n r0 r1 d' \<and>
    (\<forall>b. floppy_good n r0 r1 b \<longrightarrow> floppy_view C d' b = floppy_view C d b)"
proof -
  have bf: "boot_floppy drive d" and dr: "drive < 0x80" "\<not> 0x80 \<le> drive" and en: "\<not> bios_disk_disabled d"
    using s by (auto simp: floppy_sound_def boot_floppy_def not_le)
  have bs: "bios_stores H C" using s by (simp add: floppy_sound_def)
  have inr: "\<not> (drive < 0x80 \<and> ramdisk_sectors d > 0 \<and> ucast (ramdisk_sectors d) \<le> a)"
    using s g by (auto simp: floppy_sound_def floppy_good_def)
  have rs: "root_lba_start d = r0" "root_lba_end d = r1" using s by (auto simp: floppy_sound_def)
  show ?thesis
  proof (cases "a < DISK_CACHE_SECTORS")
    case True
    have "disk_read_sector H drive a d = (Some (d_cache d ! unat a), d)"
      using g True bf inr rs by (auto simp: disk_read_sector_def floppy_good_def)
    with e s True show ?thesis by (auto simp: floppy_view_def)
  next
    case False
    let ?R = "case lba_to_chs a of (c, hd0, s) \<Rightarrow> bios_int13_read_chs H drive c hd0 s (d_hw d)"
    have b: "bios_read_sector_lba H drive a d =
        (Some (C (d_hw d) (lba_to_chs a)), cache_put bounce_lba (C (d_hw d) (lba_to_chs a)) (d\<lparr>d_hw := snd ?R\<rparr>))"
      and R: "C (snd ?R) = C (d_hw d)" "length (C (d_hw d) (lba_to_chs a)) = 512"
      using bios_storesD [OF bs] en unfolding bios_read_sector_lba_def
      by (simp_all add: case_prod_beta Let_def)
    show ?thesis
    proof (cases "floppy_wb_fetch a (d_wb d)")
      case (Some x)
      then have "disk_read_sector H drive a d = (Some x, d)"
        using False bf inr by (simp add: disk_read_sector_def)
      with e have "r = Some x" "d' = d" by auto
      with s False Some show ?thesis by (simp add: floppy_view_def)
    next
      case None
      have "disk_read_sector H drive a d = bios_read_sector_lba H drive a d"
        using None False bf inr dr by (auto simp: disk_read_sector_def)
      with e b have rd: "r = Some (C (d_hw d) (lba_to_chs a))"
        "d' = cache_put bounce_lba (C (d_hw d) (lba_to_chs a)) (d\<lparr>d_hw := snd ?R\<rparr>)" by auto
      have "floppy_sound H C mal drive n r0 r1 d'"
        unfolding rd(2) using s R(2)
        by (auto simp: floppy_sound_def dest!: set_update_subset_insert [THEN subsetD])
      moreover have "floppy_view C d' b = floppy_view C d b" if "floppy_good n r0 r1 b" for b
        using R(1) floppy_good_ranges(2) [OF that]
        by (auto simp: rd(2) floppy_view_def disk_consts split: option.splits)
      ultimately show ?thesis using rd(1) None False by (simp add: floppy_view_def)
    qed
  qed
qed

lemma floppy_wr:
  assumes s: "floppy_sound H C mal drive n r0 r1 d" and g: "floppy_good n r0 r1 a"
    and x: "length x = 512" and e: "disk_write_sector H mal drive a x d = (ok, d')"
  shows "floppy_sound H C mal drive n r0 r1 d' \<and>
    (\<forall>b. floppy_good n r0 r1 b \<longrightarrow> floppy_view C d' b = (if b = a then x else floppy_view C d b))"
proof -
  have bs: "bios_stores H C" using s by (simp add: floppy_sound_def)
  have bf: "boot_floppy drive d" and dr: "\<not> 0x80 \<le> drive" and en: "\<not> bios_disk_disabled d"
    and m: "mal 512 \<noteq> None" and wf: "wb_wf (d_wb d)" and lc: "length (d_cache d) = 632"
    using s by (auto simp: floppy_sound_def boot_floppy_def not_le)
  let ?h = "snd (case lba_to_chs a of (c, hd0, s) \<Rightarrow> bios_int13_write_chs H drive c hd0 s x (d_hw d))"
  let ?d = "cache_put bounce_lba x (d\<lparr>d_hw := ?h\<rparr>)"
  have b: "snd (bios_write_sector_lba H drive a x d) = ?d"
    using en by (simp add: bios_write_sector_lba_def case_prod_beta Let_def)
  have C: "C ?h (lba_to_chs b) = C (d_hw d) (lba_to_chs b)" if "unat b < 888" "b \<noteq> a" for b
  proof (cases "lba_to_chs a")
    case (fields c hd0 s)
    then have "lba_to_chs b \<noteq> (c, hd0, s)"
      using lba_to_chs_inj [OF that(1) floppy_good_ranges(1) [OF g]] that(2) by auto
    with bios_storesD(4) [OF bs] fields show ?thesis by simp
  qed
  have bf': "boot_floppy drive ?d" using bf by (auto simp add: boot_floppy_def)
  have d1: "d' = (if a < DISK_CACHE_SECTORS then cache_put (unat a) x ?d
       else ?d\<lparr>d_wb := floppy_wb_store mal a x (d_wb d)\<rparr>)"
  proof -
    from b obtain ok0 where "bios_write_sector_lba H drive a x d = (ok0, ?d)" by (metis prod.collapse)
    moreover have "boot_floppy drive (cache_put (unat a) x ?d)" using bf' by (auto simp: boot_floppy_def)
    ultimately show ?thesis
      using e dr bf' by (auto simp: disk_write_sector_def Let_def not_less)
  qed
  show ?thesis
  proof (cases "unat a < 632")
    case True
    then have d': "d' = cache_put (unat a) x ?d" using d1 by (simp add: cache_word)
    have "floppy_sound H C mal drive n r0 r1 d'"
      unfolding d' using s x
      by (auto simp: floppy_sound_def dest!: set_update_subset_insert [THEN subsetD])
    moreover have "floppy_view C d' b = (if b = a then x else floppy_view C d b)" if "floppy_good n r0 r1 b" for b
      using that True C [of b] lc floppy_good_ranges [OF that]
      by (auto simp: d' floppy_view_def cache_word nth_list_update word_unat_eq_iff bounce_368 split: option.splits)
    ultimately show ?thesis by blast
  next
    case False
    from False have lo: "632 \<le> unat a" by simp
    note W = wb_store_wf_fetch [where mal = mal, OF wf m lo floppy_good_ranges(1) [OF g] x]
    have d': "d' = ?d\<lparr>d_wb := floppy_wb_store mal a x (d_wb d)\<rparr>" using d1 False by (simp add: cache_word)
    have "floppy_sound H C mal drive n r0 r1 d'"
      unfolding d' using s x W(1) False
      by (auto simp: floppy_sound_def dest!: set_update_subset_insert [THEN subsetD])
    moreover have "floppy_view C d' b = (if b = a then x else floppy_view C d b)" if "floppy_good n r0 r1 b" for b
      using that False C [of b] floppy_good_ranges [OF that] W(2) [of b]
      by (auto simp: d' floppy_view_def cache_word bounce_368 split: option.splits)
    ultimately show ?thesis by blast
  qed
qed

lemma floppy_view_len:
  assumes s: "floppy_sound H C mal drive n r0 r1 d" and g: "floppy_good n r0 r1 a"
  shows "length (floppy_view C d a) = 512"
proof (cases "unat a < 632")
  case True
  with s show ?thesis by (auto simp: floppy_view_def cache_word floppy_sound_def)
next
  case False
  have "length x = 512" if "floppy_wb_fetch a (d_wb d) = Some x" for x
    using that s wb.lookup_Some [of a "d_wb d"] unfolding floppy_wb_fetch_def floppy_sound_def wb_wf_def
    by (force simp: bind_eq_Some_conv dest: nth_mem)
  moreover have "length (C h t) = 512" for h t
    using s unfolding floppy_sound_def bios_stores_def by (cases t) auto
  ultimately show ?thesis
    using False by (auto simp: floppy_view_def cache_word split: option.splits)
qed

interpretation floppy: sector_store "disk_read_sector H drive" "disk_write_sector H mal drive"
  "floppy_sound H C mal drive n r0 r1" "floppy_view C" "floppy_good n r0 r1"
  by unfold_locales (rule floppy_rd floppy_wr floppy_view_len; assumption)+

text \<open>C27: On the boot floppy a sector that was written is read back, and the write changes no other
  good sector, whether or not the BIOS reports the write as done: the copy in memory and the
  write-behind table make up for it.\<close>

theorem disk_floppy_reads_back:
  assumes "floppy_sound H C mal drive n r0 r1 d" and "floppy_good n r0 r1 a" and "length x = 512"
  shows "fst (disk_read_sector H drive a (snd (disk_write_sector H mal drive a x d))) = Some x \<and>
    (\<forall>b. floppy_good n r0 r1 b \<and> b \<noteq> a \<longrightarrow>
      fst (disk_read_sector H drive b (snd (disk_write_sector H mal drive a x d))) = fst (disk_read_sector H drive b d))"
  using floppy.read_back [OF assms] floppy.read_other [OF assms] by blast

text \<open>A floppy drive whose BIOS refuses every write.\<close>

definition stuck_bios :: "unit hardware" where
  "stuck_bios = \<lparr>ata_detect_all_devices = (\<lambda>h. (None, h)), ata_read_sector = (\<lambda>_ h. (None, h)),
     ata_write_sector = (\<lambda>_ _ h. (False, h)),
     bios_int13_read_chs = (\<lambda>_ _ _ _ h. ((0, replicate 512 7), h)),
     bios_int13_write_chs = (\<lambda>_ _ _ _ _ h. (0x100, h))\<rparr>"

definition blank_floppy :: "unit disk" where
  "blank_floppy = \<lparr>d_cache = replicate 632 (replicate 512 0), d_wb = replicate 256 \<lparr>wb_lba = 0, wb_data = None\<rparr>,
     ramdisk_sectors = 2880, ramdisk_drive = 0, root_lba_start = 0, root_lba_end = 0, ata_available = False,
     bios_disk_disabled = False, root_snapshot = [], root_snapshot_lba = 0, root_snapshot_bytes = 0, d_hw = ()\<rparr>"

abbreviation plenty :: malloc where
  "plenty \<equiv> \<lambda>n. Some (replicate (unat n) 0)"

lemma blank_floppy_sound: "floppy_sound stuck_bios (\<lambda>_ _. replicate 512 7) plenty 0 2880 0 0 blank_floppy"
  by (auto simp: floppy_sound_def bios_stores_def stuck_bios_def blank_floppy_def wb_wf_def FLOPPY_WB_SLOTS_def
      intro!: slots_unique_all_unused)

theorem disk_floppy_reads_back_witness:
  "fst (disk_read_sector stuck_bios 0 700 (snd (disk_write_sector stuck_bios plenty 0 700 (replicate 512 1) blank_floppy)))
   = Some (replicate 512 1)"
  using disk_floppy_reads_back [OF blank_floppy_sound, of 700 "replicate 512 1"]
  by (simp add: floppy_good_def disk_consts)

section \<open>Where a write does not stick\<close>

text \<open>The bounce buffer: any write to the floppy overwrites the copy of sector 368.\<close>

lemma write_overwrites_sector_368:
  assumes "length (d_cache d) = 632" "boot_floppy drive d" "\<not> bios_disk_disabled d" "a \<noteq> 368"
  shows "d_cache (snd (disk_write_sector H mal drive a x d)) ! 368 = x"
proof -
  have "\<not> 0x80 \<le> drive" using assms(2) by (auto simp: boot_floppy_def)
  moreover have "unat a \<noteq> 368" using assms(4) by (simp add: word_unat_eq_iff)
  ultimately show ?thesis
    using assms by (auto simp: disk_write_sector_def bios_write_sector_lba_def case_prod_beta Let_def bounce_368)
qed

text \<open>A sector of the range 520 to 541 that was written with zeros at its start is taken for one that
  was never loaded: the read returns the BIOS's sector, here the one from before the write.\<close>

lemma zero_sector_not_read_back:
  "fst (disk_read_sector stuck_bios 0 530 (snd (disk_write_sector stuck_bios plenty 0 530 (replicate 512 0) blank_floppy)))
   = Some (replicate 512 7)"
  by (simp add: disk_read_sector_def disk_write_sector_def bios_read_sector_lba_def bios_write_sector_lba_def
      stuck_bios_def blank_floppy_def boot_floppy_def disk_consts lba_to_chs_def Let_def list_all_iff)

text \<open>With the write-behind table full, a sector outside it takes the first slot: the sector the slot
  held is lost.\<close>

lemma full_table_loses_first_sector:
  assumes "wb \<noteq> []" "\<forall>s \<in> set wb. wb_data s \<noteq> None \<and> wb_lba s \<noteq> a" "slots_unique (\<lambda>s. wb_data s \<noteq> None) wb_lba wb"
  shows "floppy_wb_fetch (wb_lba (wb ! 0)) (floppy_wb_store mal a x wb) = None"
proof -
  have "wb_find a wb = None" "first_idx (\<lambda>s. wb_data s = None) wb = None"
    using assms(2) by (auto simp: wb_find_def first_idx_None)
  then have st: "floppy_wb_store mal a x wb = wb[0 := \<lparr>wb_lba = a, wb_data = Some x\<rparr>]"
    using assms(1,2) by (cases wb) (auto simp: floppy_wb_store_def)
  have "wb_find (wb_lba (wb ! 0)) (wb[0 := \<lparr>wb_lba = a, wb_data = Some x\<rparr>]) \<noteq> Some j" for j
  proof
    assume "wb_find (wb_lba (wb ! 0)) (wb[0 := \<lparr>wb_lba = a, wb_data = Some x\<rparr>]) = Some j"
    from wb.lookup_Some [OF this] have "j < length wb" "wb_lba (wb[0 := \<lparr>wb_lba = a, wb_data = Some x\<rparr>] ! j) = wb_lba (wb ! 0)"
      by auto
    then show False
      using assms slots_uniqueD [OF assms(3), of 0 j] by (cases "j = 0") (auto dest: nth_mem)
  qed
  then show ?thesis unfolding st floppy_wb_fetch_def by (metis bind.bind_lzero not_Some_eq)
qed

end
