(* ===== verification/Fat_Chain.thy ===== *)
theory Fat_Chain
  imports Fat_File Disk
begin

text \<open>
  Cluster chains of a mounted volume whose table is in memory. \<open>mounted\<close> says that a context
  describes a volume with a consistent geometry, all of whose sectors are good sectors of the disk;
  \<open>fent\<close> is its table as a partial function from clusters to entries, and \<open>chain\<close> the list of
  clusters of a file. Freeing a chain ends on every table whose entries lie inside it, cyclic ones
  too.
\<close>

section \<open>The table of either width\<close>

definition tget :: "nat \<Rightarrow> u8 list \<Rightarrow> u16 \<Rightarrow> u16 option" where
  "tget t = (if t = 16 then fat16_get_entry else fat12_get_entry)"

definition tset :: "nat \<Rightarrow> u8 list \<Rightarrow> u16 \<Rightarrow> u16 \<Rightarrow> u8 list option" where
  "tset t = (if t = 16 then fat16_set_entry else fat12_set_entry)"

definition tcut :: "nat \<Rightarrow> u16 \<Rightarrow> u16" where
  "tcut t v = (if t = 16 then v else v AND 0x0FFF)"

definition tlast :: "nat \<Rightarrow> u16 \<Rightarrow> nat" where
  "tlast t cl = (if t = 16 then unat cl * 2 + 1 else unat cl + unat cl div 2 + 1)"

interpretation tab: fat_table "tget t" "tset t" "tcut t" "tlast t"
proof (cases "t = 16")
  case True
  have "tget t = fat16_get_entry" "tset t = fat16_set_entry" "tcut t = (\<lambda>v. v)" "tlast t = (\<lambda>cl. unat cl * 2 + 1)"
    using True by (auto simp: tget_def tset_def tcut_def tlast_def fun_eq_iff)
  then show "fat_table (tget t) (tset t) (tcut t) (tlast t)" using fat16.fat_table_axioms by simp
next
  case False
  have "tget t = fat12_get_entry" "tset t = fat12_set_entry" "tcut t = (\<lambda>v. v AND 0x0FFF)"
    "tlast t = (\<lambda>cl. unat cl + unat cl div 2 + 1)"
    using False by (auto simp: tget_def tset_def tcut_def tlast_def fun_eq_iff)
  then show "fat_table (tget t) (tset t) (tcut t) (tlast t)" using fat12.fat_table_axioms by simp
qed

definition fent :: "'d fat_ctx \<Rightarrow> u16 \<Rightarrow> u16 option" where
  "fent c cl = Option.bind (c_fat c) (\<lambda>fat. tget (c_fat_type c) fat cl)"

definition in_memory :: "'d fat_ctx \<Rightarrow> bool" where
  "in_memory c \<longleftrightarrow> \<not> c_use_cache c \<and> c_fat c \<noteq> None"

lemma get_entry_memory: "in_memory c \<Longrightarrow> fat_get_entry D cl c = map_option (\<lambda>v. (v, c)) (fent c cl)"
  by (auto simp: in_memory_def fat_get_entry_def fent_def tget_def)

lemma set_entry_memory:
  assumes "in_memory c" "fent c cl \<noteq> None"
  obtains fat' where "fat_ctx_set_entry D cl v c = Some (c\<lparr>c_fat := Some fat'\<rparr>)" "in_memory (c\<lparr>c_fat := Some fat'\<rparr>)"
    "fent (c\<lparr>c_fat := Some fat'\<rparr>) = (fent c)(cl \<mapsto> tcut (c_fat_type c) v)" "length fat' = length (the (c_fat c))"
proof -
  from assms obtain fat where f: "c_fat c = Some fat" "tget (c_fat_type c) fat cl \<noteq> None" "\<not> c_use_cache c"
    by (auto simp: in_memory_def fent_def)
  then have "tlast (c_fat_type c) cl < length fat" using tab.get_inside by blast
  then obtain fat' where s: "tset (c_fat_type c) fat cl v = Some fat'" using tab.set_inside by blast
  show ?thesis
    by (rule that [of fat'])
      (use f s tab.get_set [OF s] tab.set_length [OF s] in
        \<open>auto simp: fat_ctx_set_entry_def tset_def in_memory_def fent_def fun_eq_iff split: if_splits\<close>)
qed

section \<open>Chains\<close>

definition ends :: "'d fat_ctx \<Rightarrow> u16 \<Rightarrow> bool" where
  "ends c cl \<longleftrightarrow> cl < 2 \<or> fat_is_eoc c cl"

fun chain :: "(u16 \<Rightarrow> bool) \<Rightarrow> (u16 \<Rightarrow> u16 option) \<Rightarrow> u16 \<Rightarrow> u16 list \<Rightarrow> bool" where
  "chain stop f cl [] = stop cl"
| "chain stop f cl (x # xs) = (x = cl \<and> \<not> stop cl \<and> (\<exists>nx. f cl = Some nx \<and> chain stop f nx xs))"

lemma ends_simps [simp]: "ends (c\<lparr>c_fat := x\<rparr>) = ends c" "ends (c\<lparr>c_disk := d\<rparr>) = ends c"
  by (auto simp: ends_def fat_is_eoc_def fun_eq_iff)

lemma not_ends: "\<not> ends c cl \<longleftrightarrow> cl \<ge> 2 \<and> \<not> fat_is_eoc c cl"
  by (auto simp: ends_def not_less)

lemma chain_cong: "(\<And>x. x \<in> set xs \<Longrightarrow> f x = g x) \<Longrightarrow> chain stop f cl xs = chain stop g cl xs"
  by (induction xs arbitrary: cl) auto

lemma chain_functional: "chain stop f cl xs \<Longrightarrow> chain stop f cl ys \<Longrightarrow> xs = ys"
  by (induction xs arbitrary: cl ys) (case_tac ys; auto)+

text \<open>A chain never meets a cluster twice, or it would not end.\<close>

lemma chain_suffix: "chain stop f cl (xs @ y # ys) \<Longrightarrow> chain stop f y (y # ys)"
  by (induction xs arbitrary: cl) auto

lemma chain_distinct: "chain stop f cl xs \<Longrightarrow> distinct xs"
proof (induction xs arbitrary: cl)
  case Nil
  then show ?case by simp
next
  case (Cons x xs)
  then have d: "distinct xs" by auto
  have "x \<notin> set xs"
  proof
    assume "x \<in> set xs"
    then obtain ys zs where xs: "xs = ys @ x # zs" by (auto simp: in_set_conv_decomp)
    from Cons.prems xs have "chain stop f cl ((x # ys) @ x # zs)" by auto
    then have "chain stop f x (x # zs)" by (rule chain_suffix)
    moreover have "chain stop f x (x # xs)" using Cons.prems by auto
    ultimately have "x # zs = x # xs" by (rule chain_functional)
    with xs show False by simp
  qed
  with d show ?case by simp
qed

text \<open>Freeing a chain sets exactly its entries to 0.\<close>

lemma free_chain_chain:
  assumes "in_memory c" "chain (ends c) (fent c) cl xs"
  shows "\<exists>fat'. fat12_free_chain D cl c = Some (c\<lparr>c_fat := Some fat'\<rparr>) \<and> in_memory (c\<lparr>c_fat := Some fat'\<rparr>) \<and>
    length fat' = length (the (c_fat c)) \<and>
    fent (c\<lparr>c_fat := Some fat'\<rparr>) = (\<lambda>x. if x \<in> set xs then Some 0 else fent c x)"
  using assms
proof (induction xs arbitrary: cl c)
  case Nil
  then obtain fat where "c_fat c = Some fat" by (auto simp: in_memory_def)
  then have e: "c\<lparr>c_fat := Some fat\<rparr> = c" by (cases c) simp
  moreover have "fat12_free_chain D cl c = Some c"
    using Nil.prems(2) by (subst fat12_free_chain.simps) (auto simp: ends_def)
  ultimately show ?case
    using Nil.prems(1) \<open>c_fat c = Some fat\<close> by (intro exI [of _ fat], unfold e) simp
next
  case (Cons x xs)
  then obtain nx where x: "x = cl" "\<not> ends c cl" "fent c cl = Some nx" "chain (ends c) (fent c) nx xs" by auto
  from Cons.prems have "distinct (x # xs)" using chain_distinct by blast
  then have clx: "cl \<notin> set xs" using x by simp
  obtain fat' where s: "fat_ctx_set_entry D cl 0 c = Some (c\<lparr>c_fat := Some fat'\<rparr>)" "in_memory (c\<lparr>c_fat := Some fat'\<rparr>)"
    "fent (c\<lparr>c_fat := Some fat'\<rparr>) = (fent c)(cl \<mapsto> tcut (c_fat_type c) 0)" "length fat' = length (the (c_fat c))"
    by (rule set_entry_memory [OF Cons.prems(1), of cl D 0]) (use x(3) in auto)
  let ?c = "c\<lparr>c_fat := Some fat'\<rparr>"
  have "chain (ends ?c) (fent ?c) nx xs"
    using x(4) clx chain_cong [of xs "fent c" "fent ?c" "ends c" nx] s(3) by fastforce
  from Cons.IH [OF s(2) this] obtain fat2 where r: "fat12_free_chain D nx ?c = Some (?c\<lparr>c_fat := Some fat2\<rparr>)"
    "in_memory (?c\<lparr>c_fat := Some fat2\<rparr>)" "length fat2 = length (the (c_fat ?c))"
    "fent (?c\<lparr>c_fat := Some fat2\<rparr>) = (\<lambda>x. if x \<in> set xs then Some 0 else fent ?c x)" by blast
  have "fat12_free_chain D cl c = Some (c\<lparr>c_fat := Some fat2\<rparr>)"
    using x(2,3) Cons.prems(1) s(1) r(1)
    by (subst fat12_free_chain.simps) (auto simp: not_ends get_entry_memory in_memory_def)
  moreover have "fent (c\<lparr>c_fat := Some fat2\<rparr>) = (\<lambda>y. if y \<in> set (x # xs) then Some 0 else fent c y)"
    using r(4) s(3) x(1) clx by (auto simp: tab.cut_zero fun_eq_iff)
  ultimately show ?case using r(2,3) s(4) by (intro exI [of _ fat2]) auto
qed

text \<open>No entry of the table leads out of it.\<close>

definition closed_table :: "'d fat_ctx \<Rightarrow> bool" where
  "closed_table c \<longleftrightarrow> (\<forall>cl v. fent c cl = Some v \<and> \<not> ends c v \<longrightarrow> fent c v \<noteq> None)"

text \<open>C29: On a table whose entries stay inside it, freeing a chain ends whatever the entries are, also
  when they form a cycle: an entry is set to 0 before it can be met again.\<close>

theorem free_chain_returns:
  assumes "in_memory c" "closed_table c" "ends c cl \<or> fent c cl \<noteq> None"
  shows "\<exists>c'. fat12_free_chain D cl c = Some c'"
  using assms
proof (induction "card {x. \<exists>v. fent c x = Some v \<and> v \<noteq> 0}" arbitrary: c cl rule: less_induct)
  case less
  show ?case
  proof (cases "ends c cl")
    case True
    then show ?thesis by (subst fat12_free_chain.simps) (auto simp: ends_def)
  next
    case False
    with less.prems obtain nx where nx: "fent c cl = Some nx" by auto
    obtain fat' where s: "fat_ctx_set_entry D cl 0 c = Some (c\<lparr>c_fat := Some fat'\<rparr>)" "in_memory (c\<lparr>c_fat := Some fat'\<rparr>)"
      "fent (c\<lparr>c_fat := Some fat'\<rparr>) = (fent c)(cl \<mapsto> tcut (c_fat_type c) 0)"
      by (rule set_entry_memory [OF less.prems(1), of cl D 0]) (use nx in auto)
    let ?c = "c\<lparr>c_fat := Some fat'\<rparr>"
    have step: "fat12_free_chain D cl c = fat12_free_chain D nx ?c"
      using False nx less.prems(1) s(1)
      by (subst fat12_free_chain.simps) (auto simp: not_ends get_entry_memory in_memory_def)
    show ?thesis
    proof (cases "nx = 0")
      case True
      then show ?thesis unfolding step by (subst fat12_free_chain.simps) auto
    next
      case nz: False
      have "{x. \<exists>v. fent ?c x = Some v \<and> v \<noteq> 0} = {x. \<exists>v. fent c x = Some v \<and> v \<noteq> 0} - {cl}"
        unfolding s(3) by (auto simp: tab.cut_zero)
      moreover have "cl \<in> {x. \<exists>v. fent c x = Some v \<and> v \<noteq> 0}" using nx nz by simp
      ultimately have "card {x. \<exists>v. fent ?c x = Some v \<and> v \<noteq> 0} < card {x. \<exists>v. fent c x = Some v \<and> v \<noteq> 0}"
        using card_Diff1_less [OF finite] by (simp only:)
      moreover have "closed_table ?c"
        using less.prems(2) unfolding closed_table_def s(3) by (auto simp: tab.cut_zero ends_def)
      moreover have "ends ?c nx \<or> fent ?c nx \<noteq> None"
        using less.prems(2) nx unfolding closed_table_def s(3) by auto
      ultimately show ?thesis unfolding step using less.hyps s(2) by blast
    qed
  qed
qed

text \<open>A table of 256 FAT16 entries where clusters 2 and 3 point at each other.\<close>

definition cyclic_ctx :: "unit fat_ctx" where
  "cyclic_ctx = \<lparr>c_bpb = \<lparr>bytes_per_sector = 512, sectors_per_cluster = 1, reserved_sectors = 1, fat_count = 1,
       root_dir_entries = 16, total_sectors_short = 9, fat_size_sectors = 1, total_sectors_long = 0\<rparr>,
     c_fat = Some ((replicate 512 0)[4 := 3, 6 := 2]), c_fat_lba = 1, c_root_lba = 2, c_root_sectors = 1,
     c_data_lba = 3, c_fat_type = 16, c_use_cache = False, c_cache = [], c_counter = 0, c_drive = 0x80, c_disk = ()\<rparr>"

lemma cyclic_ctx_entries: "fent cyclic_ctx cl = Some v \<Longrightarrow> v \<in> {0, 2, 3}"
  by (auto simp: fent_def cyclic_ctx_def tget_def fat16_get_entry_def rd_at_def Let_def nth_list_update
      split: if_splits Option.bind_splits)

theorem free_chain_returns_witness: "\<exists>c'. fat12_free_chain \<lparr>sec_read = \<lambda>_ _ d. (None, d), sec_write = \<lambda>_ _ _ d. (False, d)\<rparr> 2 cyclic_ctx = Some c'"
proof (rule free_chain_returns)
  have e: "fent cyclic_ctx v \<noteq> None" if "v \<in> {2, 3}" for v
    using that by (auto simp: fent_def cyclic_ctx_def tget_def fat16_get_entry_def rd_at_def Let_def)
  show "in_memory cyclic_ctx" by (simp add: in_memory_def cyclic_ctx_def)
  show "closed_table cyclic_ctx"
    using e cyclic_ctx_entries unfolding closed_table_def by (fastforce simp: ends_def)
  show "ends cyclic_ctx 2 \<or> fent cyclic_ctx 2 \<noteq> None" using e by simp
qed

end
