(* ===== verification/Fat_Store.thy ===== *)
theory Fat_Store
  imports Fat_Chain
begin

text \<open>
  What the FAT driver does to the sectors of a mounted volume: the layout of table, root directory
  and clusters, and the effect of the driver's loops on it, proved for any disk that is a
  \<open>sector_store\<close>. Sector numbers are natural numbers here, and \<open>sect\<close> is the contents of a sector.
\<close>

section \<open>Layout\<close>

definition root_size :: "fat_bpb \<Rightarrow> nat" where
  "root_size b = (unat (root_dir_entries b) * 32 + 511) div 512"

definition root_start :: "fat_bpb \<Rightarrow> nat" where
  "root_start b = unat (reserved_sectors b) + unat (fat_count b) * unat (fat_size_sectors b)"

definition data_start :: "fat_bpb \<Rightarrow> nat" where
  "data_start b = root_start b + root_size b"

definition clusters :: "'d fat_ctx \<Rightarrow> nat" where
  "clusters c = unat (fat_volume_cluster_count c)"

definition spc :: "'d fat_ctx \<Rightarrow> nat" where
  "spc c = unat (sectors_per_cluster (c_bpb c))"

definition sector_range :: "'d fat_ctx \<Rightarrow> nat set" where
  "sector_range c = {unat (reserved_sectors (c_bpb c))..<data_start (c_bpb c) + clusters c * spc c}"

definition cluster_nums :: "'d fat_ctx \<Rightarrow> nat list" where
  "cluster_nums c = [2..<clusters c + 2]"

definition lba_of :: "'d fat_ctx \<Rightarrow> nat \<Rightarrow> nat" where
  "lba_of c k = data_start (c_bpb c) + (k - 2) * spc c"

text \<open>A mounted volume: the table is in memory and covers all clusters, and every sector from the
  table to the end of the last cluster is good.\<close>

definition mounted :: "(u32 \<Rightarrow> bool) \<Rightarrow> 'd fat_ctx \<Rightarrow> bool" where
  "mounted good c \<longleftrightarrow>
     in_memory c \<and> length (the (c_fat c)) = unat (fat_size_sectors (c_bpb c)) * 512 \<and> spc c > 0 \<and>
     fat_count (c_bpb c) > 0 \<and>
     unat (c_fat_lba c) = unat (reserved_sectors (c_bpb c)) \<and> unat (c_root_lba c) = root_start (c_bpb c) \<and>
     unat (c_root_sectors c) = root_size (c_bpb c) \<and>
     data_start (c_bpb c) + clusters c * spc c < 2 ^ 32 \<and> (\<forall>a \<in> sector_range c. good (of_nat a)) \<and>
     tlast (c_fat_type c) (of_nat (clusters c + 1)) < length (the (c_fat c)) \<and>
     clusters c + 1 < (if c_fat_type c = 16 then 0xFFF7 else 0xFF7)"

definition sect :: "('d \<Rightarrow> u32 \<Rightarrow> u8 list) \<Rightarrow> 'd fat_ctx \<Rightarrow> nat \<Rightarrow> u8 list" where
  "sect view c a = view (c_disk c) (of_nat a)"

lemma layout_simps [simp]:
  "clusters (c\<lparr>c_disk := d\<rparr>) = clusters c" "clusters (c\<lparr>c_fat := f\<rparr>) = clusters c"
  "spc (c\<lparr>c_disk := d\<rparr>) = spc c" "spc (c\<lparr>c_fat := f\<rparr>) = spc c"
  "sector_range (c\<lparr>c_disk := d\<rparr>) = sector_range c" "sector_range (c\<lparr>c_fat := f\<rparr>) = sector_range c"
  "cluster_nums (c\<lparr>c_disk := d\<rparr>) = cluster_nums c" "cluster_nums (c\<lparr>c_fat := f\<rparr>) = cluster_nums c"
  "lba_of (c\<lparr>c_disk := d\<rparr>) = lba_of c" "lba_of (c\<lparr>c_fat := f\<rparr>) = lba_of c"
  "fent (c\<lparr>c_disk := d\<rparr>) = fent c" "in_memory (c\<lparr>c_disk := d\<rparr>) = in_memory c"
  "sect view (c\<lparr>c_fat := f\<rparr>) = sect view c" "fat_is_eoc (c\<lparr>c_disk := d\<rparr>) = fat_is_eoc c"
  "fat_is_eoc (c\<lparr>c_fat := f\<rparr>) = fat_is_eoc c"
  by (auto simp: clusters_def spc_def sector_range_def cluster_nums_def lba_of_def fent_def in_memory_def sect_def
      fat_volume_cluster_count_def fat_is_eoc_def fun_eq_iff)

lemma mounted_disk [simp]: "mounted good (c\<lparr>c_disk := d\<rparr>) = mounted good c"
  by (simp add: mounted_def)

lemma mounted_fat:
  "mounted good c \<Longrightarrow> length fat = length (the (c_fat c)) \<Longrightarrow> mounted good (c\<lparr>c_fat := Some fat\<rparr>)"
  by (auto simp: mounted_def in_memory_def)

lemma word_of_unat: "unat (w :: u32) = n \<Longrightarrow> w = of_nat n"
  by auto

lemma root_lba_word: "mounted good c \<Longrightarrow> c_root_lba c = of_nat (root_start (c_bpb c))"
  by (rule word_of_unat) (simp add: mounted_def)

lemma cluster_lba_word:
  assumes "2 \<le> k" "k < 65536"
  shows "fat12_cluster_lba c (of_nat k) = of_nat (lba_of c k)"
proof -
  have r: "(ucast (root_dir_entries b) * 32 + 511) div 512 = (of_nat (root_size b) :: u32)" for b
  proof -
    have "unat (root_dir_entries b) < 65536" using unsigned_less [of "root_dir_entries b"] by simp
    then have "unat ((ucast (root_dir_entries b) * 32 + 511) div 512 :: u32) = root_size b"
      by (simp add: root_size_def unat_div unat_word_ariths unat_ucast_up)
    then show ?thesis by (rule word_of_unat)
  qed
  have k: "(ucast (of_nat k :: u16) :: u32) - 2 = of_nat (k - 2)"
  proof -
    have "(ucast (of_nat k :: u16) :: u32) = of_nat k"
      using assms by (intro word_of_unat) (simp add: unat_ucast_up unat_of_nat)
    then show ?thesis using assms by (simp add: of_nat_diff)
  qed
  show ?thesis
    unfolding fat12_cluster_lba_def Let_def r k
    by (simp add: lba_of_def data_start_def root_start_def spc_def)
qed

lemma cluster_num_bounds:
  assumes "mounted good c" "k \<in> set (cluster_nums c)"
  shows "2 \<le> k" "k < 65536" "k \<le> clusters c + 1" "\<not> ends c (of_nat k)" "unat (of_nat k :: u16) = k"
    "fent c (of_nat k) \<noteq> None"
proof -
  show 2: "2 \<le> k" "k \<le> clusters c + 1" using assms(2) by (auto simp: cluster_nums_def)
  have b: "k < (if c_fat_type c = 16 then 0xFFF7 else 0xFF7)" using assms(1) 2 by (auto simp: mounted_def)
  then show lt: "k < 65536" by (auto split: if_splits)
  then show u: "unat (of_nat k :: u16) = k" by (simp add: unat_of_nat)
  show "\<not> ends c (of_nat k)"
    using b 2 lt by (auto simp: ends_def fat_is_eoc_def word_less_nat_alt word_le_nat_alt unat_of_nat split: if_splits)
  from assms(1) have "clusters c + 1 < 65536" by (auto simp: mounted_def split: if_splits)
  then have "unat (of_nat (clusters c + 1) :: u16) = clusters c + 1" by (simp only: unat_of_nat) simp
  then have "tlast (c_fat_type c) (of_nat k) \<le> tlast (c_fat_type c) (of_nat (clusters c + 1))"
    using 2 unfolding tlast_def u by (auto intro: add_le_mono div_le_mono)
  then have "tlast (c_fat_type c) (of_nat k) < length (the (c_fat c))" using assms(1) by (simp add: mounted_def)
  then obtain v where "tget (c_fat_type c) (the (c_fat c)) (of_nat k) = Some v" using tab.get_inside by blast
  then show "fent c (of_nat k) \<noteq> None"
    using assms(1) by (auto simp: mounted_def in_memory_def fent_def)
qed

lemma cluster_sectors_in_range:
  assumes "k \<in> set (cluster_nums c)" "s < spc c"
  shows "lba_of c k + s \<in> sector_range c" "data_start (c_bpb c) \<le> lba_of c k + s"
proof -
  show ge: "data_start (c_bpb c) \<le> lba_of c k + s" by (simp add: lba_of_def)
  have "(k - 2) * spc c + s < (k - 2 + 1) * spc c" using assms(2) by simp
  also have "\<dots> \<le> clusters c * spc c" using assms(1) by (intro mult_le_mono1) (auto simp: cluster_nums_def)
  finally show "lba_of c k + s \<in> sector_range c"
    using ge by (simp add: sector_range_def lba_of_def data_start_def root_start_def)
qed

lemma cluster_sectors_disjoint:
  assumes "k \<in> set (cluster_nums c)" "j \<in> set (cluster_nums c)" "s < spc c" "r < spc c"
    and "lba_of c k + s = lba_of c j + r"
  shows "k = j \<and> s = r"
proof -
  from assms(5) have e: "(k - 2) * spc c + s = (j - 2) * spc c + r" by (simp add: lba_of_def)
  then have "((k - 2) * spc c + s) div spc c = ((j - 2) * spc c + r) div spc c" by simp
  then have kj: "k - 2 = j - 2" using assms(3,4) by simp
  moreover have "2 \<le> k" "2 \<le> j" using assms(1,2) by (auto simp: cluster_nums_def)
  ultimately have "k = j" by linarith
  moreover have "s = r" using e kj by simp
  ultimately show ?thesis by simp
qed

section \<open>Free clusters\<close>

definition free_clusters :: "'d fat_ctx \<Rightarrow> nat list" where
  "free_clusters c = filter (\<lambda>k. fent c (of_nat k) = Some 0) (cluster_nums c)"

lemma find_free_loop_spec:
  assumes "in_memory c" "\<And>j. k \<le> j \<Longrightarrow> j < k + n \<Longrightarrow> fent c (of_nat j) \<noteq> None"
  shows "find_free_loop D k n c = Some (case filter (\<lambda>j. fent c (of_nat j) = Some 0) [k..<k + n] of
     [] \<Rightarrow> 0xFFFF | j # _ \<Rightarrow> of_nat j, c)"
  using assms(2)
proof (induction n arbitrary: k)
  case 0
  then show ?case by simp
next
  case (Suc n)
  from Suc.prems [of k] obtain v where v: "fent c (of_nat k) = Some v" by auto
  have u: "[k..<k + Suc n] = k # [Suc k..<Suc k + n]" by (simp add: upt_conv_Cons)
  have "find_free_loop D (Suc k) n c = Some (case filter (\<lambda>j. fent c (of_nat j) = Some 0) [Suc k..<Suc k + n] of
     [] \<Rightarrow> 0xFFFF | j # _ \<Rightarrow> of_nat j, c)"
    using Suc.prems by (intro Suc.IH) auto
  then show ?case unfolding u using v assms(1) by (simp add: get_entry_memory)
qed

lemma find_free_cluster_spec:
  assumes "mounted good c"
  shows "fat_find_free_cluster D c = Some (case free_clusters c of [] \<Rightarrow> 0xFFFF | k # _ \<Rightarrow> of_nat k, c)"
proof -
  let ?n = "fat_volume_cluster_count c"
  have cl: "clusters c + 1 < 0xFFFF" using assms by (auto simp: mounted_def split: if_splits)
  then have n: "unat ?n < 0xFFFE" by (simp add: clusters_def)
  then have u1: "unat (?n + 1) = clusters c + 1" by (simp add: unat_word_ariths clusters_def)
  have le: "\<not> ?n + 1 > 0xFFFF" using u1 cl by (simp add: word_less_nat_alt)
  show ?thesis
  proof (cases "?n = 0")
    case True
    then have "clusters c = 0" by (simp add: clusters_def)
    then have "free_clusters c = []" by (simp add: free_clusters_def cluster_nums_def)
    with True show ?thesis by (simp add: fat_find_free_cluster_def)
  next
    case False
    then have c0: "clusters c > 0" by (simp add: clusters_def unat_gt_0)
    then have l2: "\<not> ?n + 1 < 2" using u1 by (simp add: word_less_nat_alt)
    have "fat_find_free_cluster D c = find_free_loop D 2 (clusters c) c"
      using False le l2 u1 by (simp add: fat_find_free_cluster_def Let_def)
    also have "\<dots> = Some (case filter (\<lambda>j. fent c (of_nat j) = Some 0) [2..<2 + clusters c] of
        [] \<Rightarrow> 0xFFFF | j # _ \<Rightarrow> of_nat j, c)"
    proof (rule find_free_loop_spec)
      show "in_memory c" using assms by (simp add: mounted_def)
      show "fent c (of_nat j) \<noteq> None" if "2 \<le> j" "j < 2 + clusters c" for j
        using that by (intro cluster_num_bounds(6) [OF assms]) (auto simp: cluster_nums_def)
    qed
    finally show ?thesis by (simp add: free_clusters_def cluster_nums_def add.commute)
  qed
qed

section \<open>Reads and writes of runs of sectors\<close>

text \<open>\<open>disk_only c c'\<close>: \<open>c'\<close> differs from \<open>c\<close> in the disk only.\<close>

definition disk_only :: "'d fat_ctx \<Rightarrow> 'd fat_ctx \<Rightarrow> bool" where
  "disk_only c c' \<longleftrightarrow> (\<exists>d. c' = c\<lparr>c_disk := d\<rparr>)"

lemma disk_only_refl [simp]: "disk_only c c"
  unfolding disk_only_def by (rule exI [of _ "c_disk c"]) simp

lemma disk_only_upd [simp]: "disk_only c (c\<lparr>c_disk := d\<rparr>)"
  by (auto simp: disk_only_def)

lemma disk_only_trans: "disk_only c c' \<Longrightarrow> disk_only c' c'' \<Longrightarrow> disk_only c c''"
  by (auto simp: disk_only_def)

lemma disk_only_same:
  assumes "disk_only c c'"
  shows "clusters c' = clusters c" "spc c' = spc c" "sector_range c' = sector_range c" "cluster_nums c' = cluster_nums c"
    "lba_of c' = lba_of c" "fent c' = fent c" "ends c' = ends c" "c_bpb c' = c_bpb c" "c_fat c' = c_fat c"
    "mounted good c' = mounted good c" "c_fat_type c' = c_fat_type c" "c_root_lba c' = c_root_lba c"
    "c_root_sectors c' = c_root_sectors c" "c_drive c' = c_drive c" "fat_is_eoc c' = fat_is_eoc c"
    "c_fat_lba c' = c_fat_lba c" "fat12_cluster_lba c' = fat12_cluster_lba c"
  using assms by (auto simp: disk_only_def fat12_cluster_lba_def fun_eq_iff)

definition volume :: "u8 \<Rightarrow> ('d \<Rightarrow> bool) \<Rightarrow> (u32 \<Rightarrow> bool) \<Rightarrow> 'd fat_ctx \<Rightarrow> bool" where
  "volume drv sound good c \<longleftrightarrow> mounted good c \<and> c_drive c = drv \<and> sound (c_disk c)"

text \<open>\<open>sector_data data j\<close>: the \<open>j\<close>-th sector of the contents of a file, filled up with zeros.\<close>

definition sector_data :: "u8 list \<Rightarrow> nat \<Rightarrow> u8 list" where
  "sector_data data j = (let x = take 512 (drop (j * 512) data) in x @ replicate (512 - length x) 0)"

lemma sector_data_length [simp]: "length (sector_data data j) = 512"
  by (simp add: sector_data_def Let_def)

locale fat_volume = sector_store "sec_read D drv" "sec_write D drv" sound view good
  for D :: "'d sectors" and drv and sound :: "'d \<Rightarrow> bool" and view and good
begin

lemma good_of_range: "volume drv sound good c \<Longrightarrow> a \<in> sector_range c \<Longrightarrow> good (of_nat a)"
  by (simp add: volume_def mounted_def)

lemma range_words_eq:
  assumes "volume drv sound good c" "a \<in> sector_range c" "b \<in> sector_range c"
  shows "(of_nat a = (of_nat b :: u32)) = (a = b)"
proof -
  have "a < 2 ^ 32" "b < 2 ^ 32" using assms by (auto simp: volume_def mounted_def sector_range_def)
  then show ?thesis by (auto simp: word_unat_eq_iff unat_of_nat)
qed

lemma sect_length: "volume drv sound good c \<Longrightarrow> a \<in> sector_range c \<Longrightarrow> length (sect view c a) = 512"
  using view_len good_of_range by (simp add: sect_def volume_def)

lemma ctx_read_ok:
  assumes "volume drv sound good c" "a \<in> sector_range c"
  shows "\<exists>c'. ctx_read D (of_nat a) c = (Some (sect view c a), c') \<and> disk_only c c' \<and> volume drv sound good c' \<and>
    (\<forall>b \<in> sector_range c. sect view c' b = sect view c b)"
proof -
  have g: "good (of_nat b)" if "b \<in> sector_range c" for b using good_of_range [OF assms(1) that] .
  have s: "sound (c_disk c)" "c_drive c = drv" using assms(1) by (auto simp: volume_def)
  have "ctx_read D (of_nat a) c = (Some (sect view c a), c\<lparr>c_disk := snd (sec_read D drv (of_nat a) (c_disk c))\<rparr>)"
    using rd_fst [OF s(1) g [OF assms(2)]] s(2) by (simp add: ctx_read_def sect_def case_prod_beta)
  moreover have "volume drv sound good (c\<lparr>c_disk := snd (sec_read D drv (of_nat a) (c_disk c))\<rparr>)"
    using assms(1) rd_sound [OF s(1) g [OF assms(2)]] by (simp add: volume_def)
  ultimately show ?thesis using rd_view [OF s(1) g [OF assms(2)]] g by (auto simp: sect_def)
qed

lemma ctx_write_ok:
  assumes "volume drv sound good c" "a \<in> sector_range c" "length x = 512"
  shows "\<exists>ok c'. ctx_write D (of_nat a) x c = (ok, c') \<and> disk_only c c' \<and> volume drv sound good c' \<and>
    (\<forall>b \<in> sector_range c. sect view c' b = (if b = a then x else sect view c b))"
proof -
  have g: "good (of_nat b)" if "b \<in> sector_range c" for b using good_of_range [OF assms(1) that] .
  have s: "sound (c_disk c)" "c_drive c = drv" using assms(1) by (auto simp: volume_def)
  let ?d = "snd (sec_write D drv (of_nat a) x (c_disk c))"
  have "ctx_write D (of_nat a) x c = (fst (sec_write D drv (of_nat a) x (c_disk c)), c\<lparr>c_disk := ?d\<rparr>)"
    using s(2) by (simp add: ctx_write_def case_prod_beta)
  moreover have "volume drv sound good (c\<lparr>c_disk := ?d\<rparr>)"
    using assms(1) wr_sound [OF s(1) g [OF assms(2)] assms(3)] by (simp add: volume_def)
  moreover have "sect view (c\<lparr>c_disk := ?d\<rparr>) b = (if b = a then x else sect view c b)" if "b \<in> sector_range c" for b
    using wr_view [OF s(1) g [OF assms(2)] assms(3) g [OF that]] range_words_eq [OF assms(1) that assms(2)]
    by (simp add: sect_def)
  ultimately show ?thesis by auto
qed

lemma of_nat_Suc_word: "(of_nat a :: u32) + 1 = of_nat (Suc a)"
  by simp

lemma read_run_ok:
  assumes "volume drv sound good c" "{a..<a + k} \<subseteq> sector_range c"
  shows "\<exists>c'. read_run D (of_nat a) k c = (Some (concat (map (sect view c) [a..<a + k])), c') \<and>
    disk_only c c' \<and> volume drv sound good c' \<and> (\<forall>b \<in> sector_range c. sect view c' b = sect view c b)"
  using assms
proof (induction k arbitrary: a c)
  case 0
  then show ?case by auto
next
  case (Suc k)
  have a: "a \<in> sector_range c" using Suc.prems(2) by auto
  obtain c1 where c1: "ctx_read D (of_nat a) c = (Some (sect view c a), c1)" "disk_only c c1" "volume drv sound good c1"
    "\<forall>b \<in> sector_range c. sect view c1 b = sect view c b"
    using ctx_read_ok [OF Suc.prems(1) a] by blast
  have "{Suc a..<Suc a + k} \<subseteq> sector_range c1" using Suc.prems(2) by (auto simp: disk_only_same [OF c1(2)])
  from Suc.IH [OF c1(3) this] obtain c2 where
    c2: "read_run D (of_nat (Suc a)) k c1 = (Some (concat (map (sect view c1) [Suc a..<Suc a + k])), c2)"
    "disk_only c1 c2" "volume drv sound good c2" "\<forall>b \<in> sector_range c1. sect view c2 b = sect view c1 b" by blast
  have m: "map (sect view c1) [Suc a..<Suc a + k] = map (sect view c) [Suc a..<Suc a + k]"
  proof (rule map_cong [OF refl])
    fix b
    assume "b \<in> set [Suc a..<Suc a + k]"
    then have "b \<in> sector_range c" using Suc.prems(2) by (intro subsetD [OF Suc.prems(2)]) auto
    then show "sect view c1 b = sect view c b" using c1(4) by simp
  qed
  have u: "[a..<a + Suc k] = a # [Suc a..<Suc a + k]" by (simp add: upt_conv_Cons)
  have "read_run D (of_nat a) (Suc k) c = (Some (concat (map (sect view c) [a..<a + Suc k])), c2)"
    unfolding u using c1(1) c2(1) [unfolded m] by (simp add: of_nat_Suc_word del: of_nat_Suc upt_Suc)
  then show ?case
    using c1 c2 disk_only_trans [OF c1(2) c2(2)] by (auto simp: disk_only_same [OF c1(2)])
qed

lemma write_run_ok:
  assumes "volume drv sound good c" "{a..<a + k} \<subseteq> sector_range c" "k * 512 \<le> length buf"
  shows "\<exists>c'. write_run D (of_nat a) k buf c = Some c' \<and> disk_only c c' \<and> volume drv sound good c' \<and>
    (\<forall>b \<in> sector_range c. sect view c' b =
       (if a \<le> b \<and> b < a + k then take 512 (drop ((b - a) * 512) buf) else sect view c b))"
  using assms
proof (induction k arbitrary: a c buf)
  case 0
  then show ?case by auto
next
  case (Suc k)
  have a: "a \<in> sector_range c" using Suc.prems(2) by auto
  have l: "length (take 512 buf) = 512" "get_at buf 0 512 = Some (take 512 buf)"
    using Suc.prems(3) by (simp_all add: get_at_def)
  obtain ok c1 where c1: "ctx_write D (of_nat a) (take 512 buf) c = (ok, c1)" "disk_only c c1" "volume drv sound good c1"
    "\<forall>b \<in> sector_range c. sect view c1 b = (if b = a then take 512 buf else sect view c b)"
    using ctx_write_ok [OF Suc.prems(1) a l(1)] by blast
  have "{Suc a..<Suc a + k} \<subseteq> sector_range c1" "k * 512 \<le> length (drop 512 buf)"
    using Suc.prems(2,3) by (auto simp: disk_only_same [OF c1(2)])
  from Suc.IH [OF c1(3) this] obtain c2 where
    c2: "write_run D (of_nat (Suc a)) k (drop 512 buf) c1 = Some c2" "disk_only c1 c2" "volume drv sound good c2"
    "\<forall>b \<in> sector_range c1. sect view c2 b =
       (if Suc a \<le> b \<and> b < Suc a + k then take 512 (drop ((b - Suc a) * 512) (drop 512 buf)) else sect view c1 b)" by blast
  have "write_run D (of_nat a) (Suc k) buf c = Some c2"
    using l(2) c1(1) c2(1) by (simp add: of_nat_Suc_word del: of_nat_Suc)
  moreover have "sect view c2 b = (if a \<le> b \<and> b < a + Suc k then take 512 (drop ((b - a) * 512) buf) else sect view c b)"
    if "b \<in> sector_range c" for b
  proof (cases "b = a")
    case True
    then show ?thesis using c1(4) c2(4) that by (simp add: disk_only_same [OF c1(2)])
  next
    case False
    have "drop ((b - Suc a) * 512) (drop 512 buf) = drop ((b - a) * 512) buf" if "Suc a \<le> b"
    proof -
      have "(b - Suc a) * 512 + 512 = (b - a) * 512" using that by (simp add: algebra_simps)
      then show ?thesis by simp
    qed
    then show ?thesis using c1(4) c2(4) that False by (auto simp: disk_only_same [OF c1(2)])
  qed
  ultimately show ?case using c2 disk_only_trans [OF c1(2) c2(2)] by blast
qed

lemma flush_ok:
  assumes "volume drv sound good c"
  shows "\<exists>c'. fat12_flush_fat D c = Some c' \<and> disk_only c c' \<and> volume drv sound good c' \<and>
    (\<forall>b \<in> sector_range c. root_start (c_bpb c) \<le> b \<longrightarrow> sect view c' b = sect view c b) \<and>
    (\<forall>i < unat (fat_size_sectors (c_bpb c)).
       sect view c' (unat (reserved_sectors (c_bpb c)) + i) = take 512 (drop (i * 512) (the (c_fat c))))"
proof -
  define R where "R = unat (reserved_sectors (c_bpb c))"
  define spf where "spf = unat (fat_size_sectors (c_bpb c))"
  define w16 where "w16 = fat_size_sectors (c_bpb c)"
  obtain fat where fat: "c_fat c = Some fat" "length fat = spf * 512"
    using assms by (auto simp: volume_def mounted_def in_memory_def spf_def)
  have fc: "unat (fat_count (c_bpb c)) > 0"
    using assms by (simp add: volume_def mounted_def word_less_nat_alt)
  have lba: "c_fat_lba c = of_nat R"
    using assms by (intro word_of_unat) (simp add: volume_def mounted_def R_def)
  have rs: "root_start (c_bpb c) = R + unat (fat_count (c_bpb c)) * spf"
    by (simp add: root_start_def R_def spf_def)
  have rng: "R + i \<in> sector_range c" if "i < unat (fat_count (c_bpb c)) * spf" for i
    using that by (simp add: sector_range_def data_start_def rs flip: R_def)
  let ?f = "\<lambda>i mc. do {
            c \<leftarrow> mc;
            fat \<leftarrow> c_fat c;
            src \<leftarrow> get_at fat (i * 512) 512;
            let lba = c_fat_lba c + of_nat i; c = snd (ctx_write D lba src c)
            in Some (if fat_count (c_bpb c) > 1 then snd (ctx_write D (lba + ucast w16) src c) else c)
          }"
  have "\<exists>c'. fold ?f [0..<k] (Some c) = Some c' \<and> disk_only c c' \<and> volume drv sound good c' \<and>
    (\<forall>b \<in> sector_range c. root_start (c_bpb c) \<le> b \<longrightarrow> sect view c' b = sect view c b) \<and>
    (\<forall>i < k. sect view c' (R + i) = take 512 (drop (i * 512) fat))" if "k \<le> spf" for k
    using that
  proof (induction k)
    case 0
    then show ?case using assms by auto
  next
    case (Suc k)
    then obtain c1 where c1: "fold ?f [0..<k] (Some c) = Some c1" "disk_only c c1" "volume drv sound good c1"
      "\<forall>b \<in> sector_range c. root_start (c_bpb c) \<le> b \<longrightarrow> sect view c1 b = sect view c b"
      "\<forall>i < k. sect view c1 (R + i) = take 512 (drop (i * 512) fat)" by auto
    note same = disk_only_same [OF c1(2)]
    let ?src = "take 512 (drop (k * 512) fat)"
    have src: "get_at fat (k * 512) 512 = Some ?src" "length ?src = 512"
      using Suc.prems fat(2) by (auto simp: get_at_def)
    have kf: "k < unat (fat_count (c_bpb c)) * spf"
      using Suc.prems fc by (metis Suc_le_eq less_le_trans mult.commute mult_le_mono2 nat_mult_1_right One_nat_def)
    then have r1: "R + k \<in> sector_range c1" "R + k < root_start (c_bpb c)" using rng by (auto simp: same rs)
    obtain ok c2 where c2: "ctx_write D (of_nat (R + k)) ?src c1 = (ok, c2)" "disk_only c1 c2" "volume drv sound good c2"
      "\<forall>b \<in> sector_range c1. sect view c2 b = (if b = R + k then ?src else sect view c1 b)"
      using ctx_write_ok [OF c1(3) r1(1) src(2)] by blast
    note same2 = disk_only_same [OF c2(2)]
    show ?case
    proof (cases "fat_count (c_bpb c) > 1")
      case False
      then have "fold ?f [0..<Suc k] (Some c) = Some c2"
        using c1(1) c2(1) fat(1) src(1) lba by (simp add: same same2)
      then show ?thesis
        using c1 c2 r1 disk_only_trans [OF c1(2) c2(2)] rng kf
        by (intro exI [of _ c2]) (auto simp: same less_Suc_eq)
    next
      case True
      then have "2 \<le> unat (fat_count (c_bpb c))" by (simp add: word_less_nat_alt)
      then have "2 * spf \<le> unat (fat_count (c_bpb c)) * spf" by (rule mult_le_mono1)
      then have k2: "spf + k < unat (fat_count (c_bpb c)) * spf" using Suc.prems by linarith
      then have r2: "R + (spf + k) \<in> sector_range c2" "R + (spf + k) < root_start (c_bpb c)" using rng by (auto simp: same same2 rs)
      obtain ok3 c3 where c3: "ctx_write D (of_nat (R + (spf + k))) ?src c2 = (ok3, c3)" "disk_only c2 c3" "volume drv sound good c3"
        "\<forall>b \<in> sector_range c2. sect view c3 b = (if b = R + (spf + k) then ?src else sect view c2 b)"
        using ctx_write_ok [OF c2(3) r2(1) src(2)] by blast
      have w: "of_nat R + of_nat k + ucast w16 = (of_nat (R + (spf + k)) :: u32)"
        by (simp add: spf_def w16_def)
      have "fold ?f [0..<Suc k] (Some c) = Some c3"
        using True c1(1) c2(1) c3(1) fat(1) src(1) lba w by (simp add: same same2 add_ac)
      moreover have "disk_only c c3" using c1(2) c2(2) c3(2) disk_only_trans by blast
      moreover have "sect view c3 (R + i) = take 512 (drop (i * 512) fat)" if "i < Suc k" for i
      proof -
        have "R + i \<in> sector_range c" using that kf rng by simp
        then show ?thesis using that c1(5) c2(4) c3(4) Suc.prems by (auto simp: same same2 less_Suc_eq)
      qed
      ultimately show ?thesis
        using c1(4) c2(4) c3(3,4) r1 r2 by (intro exI [of _ c3]) (auto simp: same same2)
    qed
  qed
  from this [of spf] show ?thesis
    using fat(1) by (simp add: fat12_flush_fat_def Let_def R_def spf_def flip: w16_def)
qed

section \<open>The clusters of a file\<close>

lemma write_piece:
  assumes "unat (w :: u32) = n" "length data = unat sz"
  shows "(if w < sz then get_at data (unat w) (unat (if w < sz then (if sz - w > 512 then 512 else sz - w) else 0)) else Some [])
    = Some (take 512 (drop n data))"
proof (cases "w < sz")
  case True
  then have "unat (sz - w) = unat sz - n" using assms(1) by (simp add: unat_sub order_less_imp_le)
  then have "unat (if sz - w > 512 then 512 else sz - w) = min 512 (length data - n)"
    using assms(2) by (simp add: word_less_nat_alt min_def)
  then show ?thesis
    using True assms by (auto simp: get_at_def word_less_nat_alt min_def)
next
  case False
  then show ?thesis using assms by (simp add: word_less_nat_alt)
qed

lemma write_file_sectors_ok:
  assumes "volume drv sound good c" "q \<in> set (cluster_nums c)" "s + k \<le> spc c" "length data = unat sz"
    and "(i + 1) * spc c * 512 < 2 ^ 32"
  shows "\<exists>c'. write_file_sectors D data sz (of_nat (lba_of c q)) (of_nat i) s k c = Some c' \<and>
    disk_only c c' \<and> volume drv sound good c' \<and>
    (\<forall>b \<in> sector_range c. sect view c' b = (if lba_of c q + s \<le> b \<and> b < lba_of c q + s + k
       then sector_data data (i * spc c + (b - lba_of c q)) else sect view c b))"
  using assms(1-3,5)
proof (induction k arbitrary: s c)
  case 0
  then show ?case by auto
next
  case (Suc k)
  let ?n = "(i * spc c + s) * 512"
  let ?l = "lba_of c q"
  have w: "unat (of_nat i * 512 * ucast (sectors_per_cluster (c_bpb c)) + of_nat s * 512 :: u32) = ?n"
  proof -
    have "i * spc c + s \<le> (i + 1) * spc c" using Suc.prems(3) by simp
    then have "?n < 2 ^ 32" using Suc.prems(4) by (meson le_less_trans mult_le_mono1)
    moreover have "of_nat i * 512 * ucast (sectors_per_cluster (c_bpb c)) + of_nat s * 512 = (of_nat ?n :: u32)"
      by (simp add: spc_def algebra_simps)
    ultimately show ?thesis by (simp only: unat_of_nat) simp
  qed
  have r: "?l + s \<in> sector_range c" using cluster_sectors_in_range(1) [OF Suc.prems(2)] Suc.prems(3) by simp
  obtain ok c1 where c1: "ctx_write D (of_nat (?l + s)) (sector_data data (i * spc c + s)) c = (ok, c1)"
    "disk_only c c1" "volume drv sound good c1"
    "\<forall>b \<in> sector_range c. sect view c1 b = (if b = ?l + s then sector_data data (i * spc c + s) else sect view c b)"
    using ctx_write_ok [OF Suc.prems(1) r] sector_data_length by metis
  note same = disk_only_same [OF c1(2)]
  have "\<exists>c'. write_file_sectors D data sz (of_nat (lba_of c1 q)) (of_nat i) (Suc s) k c1 = Some c' \<and>
    disk_only c1 c' \<and> volume drv sound good c' \<and>
    (\<forall>b \<in> sector_range c1. sect view c' b = (if lba_of c1 q + Suc s \<le> b \<and> b < lba_of c1 q + Suc s + k
       then sector_data data (i * spc c1 + (b - lba_of c1 q)) else sect view c1 b))"
    using Suc.prems c1(3) by (intro Suc.IH) (auto simp: same)
  then obtain c2 where c2: "write_file_sectors D data sz (of_nat ?l) (of_nat i) (Suc s) k c1 = Some c2"
    "disk_only c1 c2" "volume drv sound good c2"
    "\<forall>b \<in> sector_range c. sect view c2 b = (if ?l + Suc s \<le> b \<and> b < ?l + Suc s + k
       then sector_data data (i * spc c + (b - ?l)) else sect view c1 b)" by (auto simp: same)
  have "write_file_sectors D data sz (of_nat ?l) (of_nat i) s (Suc k) c = Some c2"
    using c1(1) c2(1) write_piece [OF w assms(4)]
    by (simp add: sector_data_def Let_def del: of_nat_Suc)
  moreover have "sect view c2 b = (if ?l + s \<le> b \<and> b < ?l + s + Suc k
       then sector_data data (i * spc c + (b - ?l)) else sect view c b)" if "b \<in> sector_range c" for b
    using that c1(4) c2(4) by (cases "b = ?l + s") auto
  ultimately show ?case using c2(2,3) disk_only_trans [OF c1(2)] by blast
qed

end

end
