(* ===== verification/Fat_Roundtrip.thy ===== *)
theory Fat_Roundtrip
  imports Fat_Store
begin

text \<open>
  Writing a file and reading it back. \<open>write_clusters_ok\<close> describes the clusters a new file gets (the
  first free ones, linked in a chain), \<open>read_file_loop_ok\<close> what is read along such a chain; the
  theorems put them together with the directory of the volume.
\<close>

section \<open>Allocating and writing the clusters\<close>

definition eoc_mark :: "'d fat_ctx \<Rightarrow> u16" where
  "eoc_mark c = (if c_fat_type c = 16 then 0xFFFF else 0x0FFF)"

lemma eoc_mark_facts: "ends c (eoc_mark c)" "tcut (c_fat_type c) (eoc_mark c) = eoc_mark c" "eoc_mark c \<noteq> 0"
  by (auto simp: eoc_mark_def ends_def fat_is_eoc_def tcut_def)

lemma tcut_cluster:
  assumes "mounted good c" "k \<in> set (cluster_nums c)"
  shows "tcut (c_fat_type c) (of_nat k) = of_nat k"
proof (cases "c_fat_type c = 16")
  case True
  then show ?thesis by (simp add: tcut_def)
next
  case False
  have "k < 4096" using assms False by (auto simp: mounted_def cluster_nums_def)
  then have "unat (of_nat k :: u16) < 2 ^ 12" by (simp add: unat_of_nat)
  then have "take_bit 12 (of_nat k :: u16) = of_nat k"
    by (simp only: word_unat_eq_iff unsigned_take_bit_eq take_bit_nat_eq_self)
  moreover have "(0x0FFF :: u16) = mask 12" by (simp add: mask_eq_exp_minus_1)
  ultimately show ?thesis using False by (simp add: tcut_def take_bit_eq_mask)
qed

text \<open>\<open>fat_disk_only c c'\<close>: \<open>c'\<close> differs from \<open>c\<close> in the table and the disk only.\<close>

definition fat_disk_only :: "'d fat_ctx \<Rightarrow> 'd fat_ctx \<Rightarrow> bool" where
  "fat_disk_only c c' \<longleftrightarrow> (\<exists>f d. c' = c\<lparr>c_fat := f, c_disk := d\<rparr>)"

lemma fat_disk_only_refl: "fat_disk_only c c"
  unfolding fat_disk_only_def by (rule exI [of _ "c_fat c"], rule exI [of _ "c_disk c"]) simp

lemma fat_disk_only_intros:
  "disk_only c c' \<Longrightarrow> fat_disk_only c c'" "fat_disk_only c (c\<lparr>c_fat := f\<rparr>)"
proof -
  show "fat_disk_only c (c\<lparr>c_fat := f\<rparr>)"
    unfolding fat_disk_only_def by (rule exI [of _ f], rule exI [of _ "c_disk c"]) simp
  assume "disk_only c c'"
  then obtain d where "c' = c\<lparr>c_disk := d\<rparr>" by (auto simp: disk_only_def)
  then show "fat_disk_only c c'"
    unfolding fat_disk_only_def by (intro exI [of _ "c_fat c"] exI [of _ d]) simp
qed

lemma fat_disk_only_trans: "fat_disk_only c c' \<Longrightarrow> fat_disk_only c' c'' \<Longrightarrow> fat_disk_only c c''"
proof -
  assume "fat_disk_only c c'" "fat_disk_only c' c''"
  then obtain f d f' d' where "c' = c\<lparr>c_fat := f, c_disk := d\<rparr>" "c'' = c'\<lparr>c_fat := f', c_disk := d'\<rparr>"
    by (auto simp: fat_disk_only_def)
  then have "c'' = c\<lparr>c_fat := f', c_disk := d'\<rparr>" by simp
  then show "fat_disk_only c c''" by (auto simp: fat_disk_only_def)
qed

lemma fat_disk_only_same:
  assumes "fat_disk_only c c'"
  shows "clusters c' = clusters c" "spc c' = spc c" "sector_range c' = sector_range c" "cluster_nums c' = cluster_nums c"
    "lba_of c' = lba_of c" "ends c' = ends c" "c_bpb c' = c_bpb c" "c_fat_type c' = c_fat_type c"
    "c_root_lba c' = c_root_lba c" "c_root_sectors c' = c_root_sectors c" "eoc_mark c' = eoc_mark c"
    "fat12_cluster_lba c' = fat12_cluster_lba c"
  using assms by (auto simp: fat_disk_only_def eoc_mark_def fat12_cluster_lba_def fun_eq_iff)

lemma volume_fat:
  "volume drv sound good c \<Longrightarrow> length fat = length (the (c_fat c)) \<Longrightarrow> volume drv sound good (c\<lparr>c_fat := Some fat\<rparr>)"
  by (simp add: volume_def mounted_fat)

lemma set_entry_volume:
  assumes "volume drv sound good c" "k \<in> set (cluster_nums c)"
  obtains c' where "fat_ctx_set_entry D (of_nat k) v c = Some c'" "fat_disk_only c c'" "volume drv sound good c'"
    "fent c' = (fent c)(of_nat k \<mapsto> tcut (c_fat_type c) v)" "sect view c' = sect view c"
proof -
  have m: "mounted good c" using assms(1) by (simp add: volume_def)
  then have "in_memory c" by (simp add: mounted_def)
  from set_entry_memory [OF this cluster_num_bounds(6) [OF m assms(2)], of D v] obtain fat' where
    "fat_ctx_set_entry D (of_nat k) v c = Some (c\<lparr>c_fat := Some fat'\<rparr>)"
    "fent (c\<lparr>c_fat := Some fat'\<rparr>) = (fent c)(of_nat k \<mapsto> tcut (c_fat_type c) v)" "length fat' = length (the (c_fat c))"
    by blast
  then show ?thesis
    using that [of "c\<lparr>c_fat := Some fat'\<rparr>"] volume_fat [OF assms(1)] fat_disk_only_intros(2) by auto
qed

lemma free_clusters_subset: "set (free_clusters c) \<subseteq> set (cluster_nums c)" "distinct (free_clusters c)"
  by (auto simp: free_clusters_def cluster_nums_def)

lemma cluster_word_inj:
  "mounted good c \<Longrightarrow> j \<in> set (cluster_nums c) \<Longrightarrow> k \<in> set (cluster_nums c) \<Longrightarrow> (of_nat j = (of_nat k :: u16)) = (j = k)"
  using cluster_num_bounds(5) by metis

text \<open>\<open>holds_data\<close>: the clusters \<open>qs\<close> hold the contents from the \<open>i\<close>-th cluster of the file on.\<close>

definition holds_data :: "('d \<Rightarrow> u32 \<Rightarrow> u8 list) \<Rightarrow> 'd fat_ctx \<Rightarrow> u8 list \<Rightarrow> nat \<Rightarrow> nat list \<Rightarrow> bool" where
  "holds_data view c data i qs \<longleftrightarrow>
     (\<forall>j < length qs. \<forall>s < spc c. sect view c (lba_of c (qs ! j) + s) = sector_data data ((i + j) * spc c + s))"

definition cluster_sectors :: "'d fat_ctx \<Rightarrow> nat list \<Rightarrow> nat set" where
  "cluster_sectors c qs = (\<Union>q \<in> set qs. {lba_of c q..<lba_of c q + spc c})"

lemma cluster_sectors_disjoint_iff:
  assumes "q \<in> set (cluster_nums c)" "set qs \<subseteq> set (cluster_nums c)" "s < spc c"
  shows "lba_of c q + s \<in> cluster_sectors c qs \<longleftrightarrow> q \<in> set qs"
proof
  assume "lba_of c q + s \<in> cluster_sectors c qs"
  then obtain r where r: "r \<in> set qs" "lba_of c r \<le> lba_of c q + s" "lba_of c q + s < lba_of c r + spc c"
    by (auto simp: cluster_sectors_def)
  then have "lba_of c q + s = lba_of c r + (lba_of c q + s - lba_of c r)" "lba_of c q + s - lba_of c r < spc c" by auto
  then show "q \<in> set qs" using cluster_sectors_disjoint [OF assms(1) _ assms(3)] assms(2) r(1) by blast
next
  assume "q \<in> set qs"
  moreover have "lba_of c q + s \<in> {lba_of c q..<lba_of c q + spc c}" using assms(3) by simp
  ultimately show "lba_of c q + s \<in> cluster_sectors c qs" unfolding cluster_sectors_def by blast
qed

text \<open>One cluster: the first free cluster is marked as the end of the chain, linked to the one before,
  and filled with the file's data.\<close>

context fat_volume
begin

lemma write_one_cluster:
  assumes vol: "volume drv sound good c" and fr: "free_clusters c = q # fr'"
    and prev: "prev = 0 \<or> (\<exists>p \<in> set (cluster_nums c). prev = of_nat p \<and> fent c prev \<noteq> Some 0)"
    and dat: "length data = unat sz" "(i + 1) * spc c * 512 < 2 ^ 32"
  obtains c' where
    "write_clusters D data sz i (Suc k) prev first c =
       write_clusters D data sz (Suc i) k (of_nat q) (if prev \<noteq> 0 then first else of_nat q) c'"
    "fat_disk_only c c'" "volume drv sound good c'"
    "fent c' = (if prev \<noteq> 0 then (fent c)(of_nat q \<mapsto> eoc_mark c, prev \<mapsto> of_nat q) else (fent c)(of_nat q \<mapsto> eoc_mark c))"
    "free_clusters c' = fr'"
    "\<forall>b \<in> sector_range c. sect view c' b = (if lba_of c q \<le> b \<and> b < lba_of c q + spc c
       then sector_data data (i * spc c + (b - lba_of c q)) else sect view c b)"
proof -
  have m: "mounted good c" using vol by (simp add: volume_def)
  have q: "q \<in> set (cluster_nums c)" "fent c (of_nat q) = Some 0"
    using fr free_clusters_subset(1) [of c] by (auto simp: free_clusters_def filter_eq_Cons_iff)
  note qb = cluster_num_bounds [OF m q(1)]
  have find0: "fat_find_free_cluster D c = Some (of_nat q, c)" using find_free_cluster_spec [OF m] fr by simp
  have lt: "\<not> (of_nat q < (2 :: u16))" using qb(1,5) by (simp add: word_less_nat_alt)
  have "q < 0xFFFF" using m qb(3) by (auto simp: mounted_def split: if_splits)
  then have ff: "of_nat q \<noteq> (0xFFFF :: u16)" using qb(5) by auto
  obtain c1 where c1: "fat_ctx_set_entry D (of_nat q) (eoc_mark c) c = Some c1" "fat_disk_only c c1" "volume drv sound good c1"
    "fent c1 = (fent c)(of_nat q \<mapsto> eoc_mark c)" "sect view c1 = sect view c"
    using set_entry_volume [OF vol q(1), of D "eoc_mark c" view] by (metis eoc_mark_facts(2))
  note same1 = fat_disk_only_same [OF c1(2)]
  obtain c2 where c2: "(if prev \<noteq> 0 then fat_ctx_set_entry D prev (of_nat q) c1 else Some c1) = Some c2"
    "fat_disk_only c c2" "volume drv sound good c2" "sect view c2 = sect view c"
    "fent c2 = (if prev \<noteq> 0 then (fent c)(of_nat q \<mapsto> eoc_mark c, prev \<mapsto> of_nat q) else (fent c)(of_nat q \<mapsto> eoc_mark c))"
  proof (cases "prev = 0")
    case True
    then show ?thesis using that [of c1] c1 by simp
  next
    case False
    then obtain p where p: "p \<in> set (cluster_nums c1)" "prev = of_nat p" using prev by (auto simp: same1)
    have "mounted good c1" using c1(3) by (simp add: volume_def)
    then have "tcut (c_fat_type c1) (of_nat q) = of_nat q" using q(1) by (intro tcut_cluster) (simp_all add: same1)
    with set_entry_volume [OF c1(3) p(1), of D "of_nat q" view] obtain c2' where
      "fat_ctx_set_entry D prev (of_nat q) c1 = Some c2'" "fat_disk_only c1 c2'" "volume drv sound good c2'"
      "fent c2' = (fent c1)(prev \<mapsto> of_nat q)" "sect view c2' = sect view c1" by (metis p(2))
    then show ?thesis using that [of c2'] False c1 fat_disk_only_trans by auto
  qed
  note same2 = fat_disk_only_same [OF c2(2)]
  obtain c3 where c3: "write_file_sectors D data sz (of_nat (lba_of c2 q)) (of_nat i) 0 (spc c2) c2 = Some c3"
    "disk_only c2 c3" "volume drv sound good c3"
    "\<forall>b \<in> sector_range c2. sect view c3 b = (if lba_of c2 q + 0 \<le> b \<and> b < lba_of c2 q + 0 + spc c2
       then sector_data data (i * spc c2 + (b - lba_of c2 q)) else sect view c2 b)"
    using write_file_sectors_ok [OF c2(3), of q 0 "spc c2" data sz i] q(1) dat by (auto simp: same2)
  note same3 = disk_only_same [OF c3(2)]
  have lba: "fat12_cluster_lba c2 (of_nat q) = of_nat (lba_of c2 q)" using qb by (intro cluster_lba_word)
  have step: "write_clusters D data sz i (Suc k) prev first c =
       write_clusters D data sz (Suc i) k (of_nat q) (if prev \<noteq> 0 then first else of_nat q) c3"
    using find0 lt ff c1(1) c2(1) c3(1) by (simp add: eoc_mark_def lba spc_def)
  have nz: "of_nat q \<noteq> (0 :: u16)" using lt by auto
  have "free_clusters c3 = filter (\<lambda>j. j \<noteq> q) (free_clusters c)"
  proof -
    have "(fent c3 (of_nat j) = Some 0) = (fent c (of_nat j) = Some 0 \<and> j \<noteq> q)" if "j \<in> set (cluster_nums c)" for j
      using cluster_word_inj [OF m that q(1)] prev eoc_mark_facts(3) [of c] nz by (auto simp: same3 c2(5))
    then show ?thesis by (auto simp: free_clusters_def same3 same2 intro: filter_cong)
  qed
  then have "free_clusters c3 = fr'"
    using fr free_clusters_subset(2) [of c] by (auto simp: filter_id_conv)
  moreover have "fat_disk_only c c3" using c2(2) fat_disk_only_intros(1) [OF c3(2)] by (rule fat_disk_only_trans)
  ultimately show ?thesis
    using that [OF step] c3 c2 by (simp add: same2 same3)
qed

text \<open>All clusters: the file gets the first free clusters, in order.\<close>

lemma write_clusters_ok:
  assumes "volume drv sound good c" "k \<le> length (free_clusters c)" "length data = unat sz"
    and "(i + k) * spc c * 512 < 2 ^ 32"
    and "prev = 0 \<or> (\<exists>p \<in> set (cluster_nums c). prev = of_nat p \<and> fent c prev \<noteq> Some 0)"
  defines "qs \<equiv> take k (free_clusters c)"
  shows "\<exists>c'. write_clusters D data sz i k prev first c =
      Some (Some (if prev \<noteq> 0 \<or> k = 0 then first else of_nat (hd qs)), c') \<and>
    fat_disk_only c c' \<and> volume drv sound good c' \<and>
    (k > 0 \<longrightarrow> chain (ends c) (fent c') (of_nat (hd qs)) (map of_nat qs)) \<and>
    (k > 0 \<and> prev \<noteq> 0 \<longrightarrow> fent c' prev = Some (of_nat (hd qs))) \<and>
    (\<forall>x \<in> of_nat ` set qs. fent c' x \<noteq> Some 0) \<and>
    (\<forall>x. x \<notin> of_nat ` set qs \<and> x \<noteq> prev \<longrightarrow> fent c' x = fent c x) \<and>
    (k = 0 \<longrightarrow> c' = c) \<and> holds_data view c' data i qs \<and>
    (\<forall>b \<in> sector_range c. b \<notin> cluster_sectors c qs \<longrightarrow> sect view c' b = sect view c b)"
  using assms(1-5) unfolding qs_def
proof (induction k arbitrary: i prev first c)
  case 0
  then show ?case by (auto simp: holds_data_def fat_disk_only_refl)
next
  case (Suc k)
  note m = Suc.prems(1) [unfolded volume_def, THEN conjunct1]
  obtain q fr' where fr: "free_clusters c = q # fr'" using Suc.prems(2) by (cases "free_clusters c") auto
  have q: "q \<in> set (cluster_nums c)" "q \<notin> set fr'" "set fr' \<subseteq> set (cluster_nums c)"
    using free_clusters_subset [of c] fr by auto
  have ik: "(i + 1) * spc c * 512 < 2 ^ 32"
  proof -
    have "(i + 1) * spc c * 512 \<le> (i + Suc k) * spc c * 512" by (intro mult_le_mono1) simp
    then show ?thesis using Suc.prems(4) by linarith
  qed
  obtain c1 where c1: "write_clusters D data sz i (Suc k) prev first c =
       write_clusters D data sz (Suc i) k (of_nat q) (if prev \<noteq> 0 then first else of_nat q) c1"
    "fat_disk_only c c1" "volume drv sound good c1"
    "fent c1 = (if prev \<noteq> 0 then (fent c)(of_nat q \<mapsto> eoc_mark c, prev \<mapsto> of_nat q) else (fent c)(of_nat q \<mapsto> eoc_mark c))"
    "free_clusters c1 = fr'"
    "\<forall>b \<in> sector_range c. sect view c1 b = (if lba_of c q \<le> b \<and> b < lba_of c q + spc c
       then sector_data data (i * spc c + (b - lba_of c q)) else sect view c b)"
    using write_one_cluster [OF Suc.prems(1) fr Suc.prems(5) Suc.prems(3) ik, of k first] by blast
  note same = fat_disk_only_same [OF c1(2)]
  have qnz: "of_nat q \<noteq> (0 :: u16)" "\<not> ends c (of_nat q)" using cluster_num_bounds [OF m q(1)] by (auto simp: ends_def)
  have pq: "prev \<noteq> of_nat q"
    using Suc.prems(5) qnz(1) fr cluster_word_inj [OF m _ q(1)] by (auto simp: free_clusters_def filter_eq_Cons_iff)
  have fq: "fent c1 (of_nat q) = Some (eoc_mark c)" using pq by (auto simp: c1(4))
  define qs where "qs = take k fr'"
  have sub: "set qs \<subseteq> set (cluster_nums c)" "q \<notin> set qs" using q by (auto simp: qs_def dest: in_set_takeD)
  from Suc.IH [of c1 "Suc i" "of_nat q" "if prev \<noteq> 0 then first else of_nat q"] obtain c2 where
    c2: "write_clusters D data sz (Suc i) k (of_nat q) (if prev \<noteq> 0 then first else of_nat q) c1 =
        Some (Some (if prev \<noteq> 0 then first else of_nat q), c2)"
    "fat_disk_only c1 c2" "volume drv sound good c2"
    "k > 0 \<longrightarrow> chain (ends c) (fent c2) (of_nat (hd qs)) (map of_nat qs)"
    "k > 0 \<longrightarrow> fent c2 (of_nat q) = Some (of_nat (hd qs))"
    "\<forall>x. x \<notin> of_nat ` set qs \<and> x \<noteq> of_nat q \<longrightarrow> fent c2 x = fent c1 x"
    "k = 0 \<longrightarrow> c2 = c1" "holds_data view c2 data (Suc i) qs"
    "\<forall>b \<in> sector_range c. b \<notin> cluster_sectors c1 qs \<longrightarrow> sect view c2 b = sect view c1 b"
    "\<forall>x \<in> of_nat ` set qs. fent c2 x \<noteq> Some 0"
    using Suc.prems c1(3,5) fr q(1) fq qnz eoc_mark_facts(3) [of c] by (auto simp: same qs_def)
  note same2 = fat_disk_only_same [OF c2(2), unfolded same]
  have tk: "take (Suc k) (free_clusters c) = q # qs" by (simp add: fr qs_def)
  have cs: "cluster_sectors c1 qs = cluster_sectors c qs" by (simp add: cluster_sectors_def same)
  have nin: "of_nat q \<notin> (of_nat ` set qs :: u16 set)" using cluster_word_inj [OF m q(1)] sub by auto
  have ch: "chain (ends c) (fent c2) (of_nat q) (map of_nat (q # qs))"
  proof (cases "k = 0")
    case True
    then show ?thesis using c2(7) fq qnz(2) eoc_mark_facts(1) [of c] by (simp add: qs_def)
  next
    case False
    then show ?thesis using c2(4,5) qnz(2) by simp
  qed
  have prv: "fent c2 prev = Some (of_nat q)" if "prev \<noteq> 0"
  proof -
    from that Suc.prems(5) obtain p where p: "p \<in> set (cluster_nums c)" "prev = of_nat p" "fent c prev \<noteq> Some 0" by auto
    have "p \<notin> set fr'" using p fr by (auto simp: free_clusters_def filter_eq_Cons_iff)
    then have "prev \<notin> of_nat ` set qs" using p cluster_word_inj [OF m p(1)] sub(1) by (auto simp: qs_def dest: in_set_takeD)
    then show ?thesis using c2(6) pq that by (simp add: c1(4))
  qed
  have hd: "holds_data view c2 data i (q # qs)"
  proof -
    have "sect view c2 (lba_of c q + s) = sector_data data (i * spc c + s)" if "s < spc c" for s
      using c1(6) c2(9) cluster_sectors_in_range(1) [OF q(1) that] cluster_sectors_disjoint_iff [OF q(1) sub(1) that] sub(2) that
      by (simp add: cs)
    then show ?thesis using c2(8) by (auto simp: holds_data_def same2 nth_Cons split: nat.splits)
  qed
  have oth: "sect view c2 b = sect view c b" if "b \<in> sector_range c" "b \<notin> cluster_sectors c (q # qs)" for b
  proof -
    have "b \<notin> cluster_sectors c qs" "\<not> (lba_of c q \<le> b \<and> b < lba_of c q + spc c)"
      using that(2) by (auto simp: cluster_sectors_def)
    then show ?thesis using that(1) c1(6) c2(9) by (auto simp: cs)
  qed
  have fo: "fent c2 x = fent c x" if "x \<notin> of_nat ` set (q # qs)" "x \<noteq> prev" for x
    using that c2(6) by (auto simp: c1(4))
  have used: "fent c2 x \<noteq> Some 0" if "x \<in> of_nat ` set (q # qs)" for x
  proof (cases "x = of_nat q")
    case True
    have "hd qs \<in> set (cluster_nums c)" if "k > 0"
      using that Suc.prems(2) fr sub(1) by (intro subsetD [OF sub(1)] hd_in_set) (auto simp: qs_def)
    then have "fent c2 (of_nat q) \<noteq> Some 0"
      using c2(5,7) fq eoc_mark_facts(3) [of c] cluster_num_bounds(4) [OF m, of "hd qs"] by (cases "k = 0") (auto simp: ends_def)
    then show ?thesis using True by simp
  qed (use that c2(10) in auto)
  have "fat_disk_only c c2" using c1(2) c2(2) by (rule fat_disk_only_trans)
  then show ?case
    unfolding tk using c1(1) c2(1,3) ch prv hd oth fo used by (intro exI [of _ c2]) auto
qed

section \<open>Reading along a chain\<close>

lemma take_put_at:
  assumes "length buf = length data" "n + k \<le> length data" "take n buf = take n data"
  shows "\<exists>buf'. put_at buf n (take k (drop n data)) = Some buf' \<and> length buf' = length data \<and> take (n + k) buf' = take (n + k) data"
proof -
  have l: "length (take k (drop n data)) = k" using assms(2) by simp
  then have "put_at buf n (take k (drop n data)) = Some (take n data @ take k (drop n data) @ drop (n + k) buf)"
    using assms by (simp add: put_at_def)
  moreover have "take n data @ take k (drop n data) = take (n + k) data" by (simp add: take_add)
  ultimately show ?thesis using assms by (auto simp flip: append_assoc)
qed

lemma read_file_sectors_ok:
  assumes "volume drv sound good c" "length data = unat sz" "length buf = length data"
    and "take (min (j * 512) (length data)) buf = take (min (j * 512) (length data)) data"
    and "\<And>r. r < k \<Longrightarrow> l + r \<in> sector_range c \<and> sect view c (l + r) = sector_data data (j + r)"
  shows "\<exists>buf' c'. read_file_sectors D (of_nat l) k buf (of_nat (min (j * 512) (length data))) sz c =
      Some (Some (buf', of_nat (min ((j + k) * 512) (length data))), c') \<and> disk_only c c' \<and> volume drv sound good c' \<and>
    (\<forall>b \<in> sector_range c. sect view c' b = sect view c b) \<and> length buf' = length data \<and>
    take (min ((j + k) * 512) (length data)) buf' = take (min ((j + k) * 512) (length data)) data"
  using assms
proof (induction k arbitrary: j l c buf)
  case 0
  then show ?case by auto
next
  case (Suc k)
  let ?n = "min (j * 512) (length data)"
  have szlt: "length data < 2 ^ 32" using Suc.prems(2) unsigned_less [of sz] by simp
  then have un: "unat (of_nat ?n :: u32) = ?n" by (simp only: unat_of_nat) (simp add: min_def)
  show ?case
  proof (cases "j * 512 < length data")
    case False
    then have n: "?n = length data" "min ((j + Suc k) * 512) (length data) = length data" by auto
    have "\<not> (of_nat ?n :: u32) < sz" using un n(1) Suc.prems(2) by (simp add: word_less_nat_alt)
    then have "read_file_sectors D (of_nat l) (Suc k) buf (of_nat ?n) sz c = Some (Some (buf, of_nat ?n), c)" by simp
    then show ?thesis using Suc.prems n by (intro exI [of _ buf] exI [of _ c]) auto
  next
    case True
    then have n: "?n = j * 512" by simp
    have lt: "(of_nat ?n :: u32) < sz" using un True Suc.prems(2) by (simp add: word_less_nat_alt)
    let ?k = "min 512 (length data - j * 512)"
    let ?tc = "if sz - of_nat ?n > 512 then 512 else sz - of_nat ?n"
    have "unat (sz - of_nat ?n) = length data - j * 512"
      using lt un n Suc.prems(2) by (simp add: unat_sub order_less_imp_le)
    then have tc: "unat ?tc = ?k" by (simp add: word_less_nat_alt min_def)
    have nk: "j * 512 + ?k = min ((j + 1) * 512) (length data)" using True by auto
    have w: "of_nat ?n + ?tc = of_nat (min ((j + 1) * 512) (length data))"
    proof -
      have "?tc = of_nat ?k" by (rule word_of_unat) (rule tc)
      then show ?thesis unfolding n nk [symmetric] by (simp only: of_nat_add)
    qed
    have l0: "l \<in> sector_range c" "sect view c l = sector_data data j" using Suc.prems(5) [of 0] by auto
    obtain c1 where c1: "ctx_read D (of_nat l) c = (Some (sector_data data j), c1)" "disk_only c c1" "volume drv sound good c1"
      "\<forall>b \<in> sector_range c. sect view c1 b = sect view c b"
      using ctx_read_ok [OF Suc.prems(1) l0(1)] l0(2) by auto
    have "take ?k (sector_data data j) = take ?k (drop (j * 512) data)"
      by (simp add: sector_data_def Let_def min_def)
    moreover obtain buf1 where buf1: "put_at buf (j * 512) (take ?k (drop (j * 512) data)) = Some buf1" "length buf1 = length data"
      "take (j * 512 + ?k) buf1 = take (j * 512 + ?k) data"
    proof -
      have "j * 512 + ?k \<le> length data" using True by auto
      with take_put_at [of buf data "j * 512" ?k] Suc.prems(3,4) n that show ?thesis by auto
    qed
    ultimately have put: "put_at buf (unat (of_nat ?n :: u32)) (take (unat ?tc) (sector_data data j)) = Some buf1"
      by (simp only: un tc) (simp only: n)
    have "\<exists>buf' c'. read_file_sectors D (of_nat (Suc l)) k buf1 (of_nat (min ((j + 1) * 512) (length data))) sz c1 =
        Some (Some (buf', of_nat (min ((j + 1 + k) * 512) (length data))), c') \<and> disk_only c1 c' \<and> volume drv sound good c' \<and>
      (\<forall>b \<in> sector_range c1. sect view c' b = sect view c1 b) \<and> length buf' = length data \<and>
      take (min ((j + 1 + k) * 512) (length data)) buf' = take (min ((j + 1 + k) * 512) (length data)) data"
    proof (rule Suc.IH [OF c1(3) Suc.prems(2) buf1(2)])
      show "take (min ((j + 1) * 512) (length data)) buf1 = take (min ((j + 1) * 512) (length data)) data"
        using buf1(3) unfolding nk .
      show "Suc l + r \<in> sector_range c1 \<and> sect view c1 (Suc l + r) = sector_data data (j + 1 + r)" if "r < k" for r
        using Suc.prems(5) [of "Suc r"] that c1(4) by (auto simp: disk_only_same [OF c1(2)])
    qed
    then obtain buf' c' where r: "read_file_sectors D (of_nat (Suc l)) k buf1 (of_nat (min ((j + 1) * 512) (length data))) sz c1 =
        Some (Some (buf', of_nat (min ((j + 1 + k) * 512) (length data))), c')" "disk_only c1 c'" "volume drv sound good c'"
      "\<forall>b \<in> sector_range c1. sect view c' b = sect view c1 b" "length buf' = length data"
      "take (min ((j + 1 + k) * 512) (length data)) buf' = take (min ((j + 1 + k) * 512) (length data)) data" by blast
    have "read_file_sectors D (of_nat l) (Suc k) buf (of_nat ?n) sz c =
        read_file_sectors D (of_nat (Suc l)) k buf1 (of_nat ?n + ?tc) sz c1"
      using lt c1(1) put by (simp add: Let_def of_nat_Suc_word del: of_nat_Suc)
    then have "read_file_sectors D (of_nat l) (Suc k) buf (of_nat ?n) sz c =
        Some (Some (buf', of_nat (min ((j + Suc k) * 512) (length data))), c')"
      unfolding w r(1) by simp
    then show ?thesis
      using r disk_only_trans [OF c1(2) r(2)] c1(4) by (intro exI [of _ buf'] exI [of _ c']) (auto simp: disk_only_same [OF c1(2)])
  qed
qed

lemma read_file_loop_ok:
  assumes "volume drv sound good c" "length data = unat sz" "length buf = length data"
    and "take (min (i * spc c * 512) (length data)) buf = take (min (i * spc c * 512) (length data)) data"
    and "chain (ends c) (fent c) cl (map of_nat qs)" "set qs \<subseteq> set (cluster_nums c)" "holds_data view c data i qs"
    and "length qs \<le> k" "length data \<le> (i + length qs) * spc c * 512"
  shows "\<exists>c'. read_file_loop D (spc c) k cl buf (of_nat (min (i * spc c * 512) (length data))) sz c = Some (Some (data, sz), c') \<and>
    disk_only c c' \<and> volume drv sound good c' \<and> (\<forall>b \<in> sector_range c. sect view c' b = sect view c b)"
  using assms
proof (induction qs arbitrary: i cl c buf k)
  case Nil
  then have n: "min (i * spc c * 512) (length data) = length data" by simp
  have s: "of_nat (length data) = sz" using Nil.prems(2) by simp
  have b: "buf = data" using Nil.prems(3,4) n by simp
  have e: "ends c cl" using Nil.prems(5) by simp
  have "read_file_loop D (spc c) k cl buf (of_nat (length data)) sz c = Some (Some (data, sz), c)"
    using e b s by (cases k) (auto simp: ends_def)
  then show ?case using Nil.prems(1) n by auto
next
  case (Cons q qs)
  let ?n = "min (i * spc c * 512) (length data)"
  note m = Cons.prems(1) [unfolded volume_def, THEN conjunct1]
  have q: "q \<in> set (cluster_nums c)" using Cons.prems(6) by simp
  obtain nx where cl: "cl = of_nat q" "\<not> ends c cl" "fent c cl = Some nx" "chain (ends c) (fent c) nx (map of_nat qs)"
    using Cons.prems(5) by auto
  obtain k' where k: "k = Suc k'" "length qs \<le> k'" using Cons.prems(8) by (cases k) auto
  have szlt: "length data < 2 ^ 32" using Cons.prems(2) unsigned_less [of sz] by simp
  then have un: "unat (of_nat ?n :: u32) = ?n" by (simp only: unat_of_nat) (simp add: min_def)
  show ?case
  proof (cases "i * spc c * 512 < length data")
    case False
    then have n: "?n = length data" by simp
    have b: "buf = data" "of_nat ?n = sz" using Cons.prems(2,3,4) n by simp_all
    have "read_file_loop D (spc c) k cl buf (of_nat ?n) sz c = Some (Some (data, sz), c)"
      unfolding k(1) using b by simp
    then show ?thesis using Cons.prems(1) by auto
  next
    case True
    have lt: "(of_nat ?n :: u32) < sz" using un True Cons.prems(2) by (simp add: word_less_nat_alt)
    have sec: "lba_of c q + r \<in> sector_range c \<and> sect view c (lba_of c q + r) = sector_data data (i * spc c + r)" if "r < spc c" for r
      using that cluster_sectors_in_range(1) [OF q that] Cons.prems(7) by (force simp: holds_data_def)
    obtain buf1 c1 where r1: "read_file_sectors D (of_nat (lba_of c q)) (spc c) buf (of_nat ?n) sz c =
        Some (Some (buf1, of_nat (min ((i * spc c + spc c) * 512) (length data))), c1)" "disk_only c c1" "volume drv sound good c1"
      "\<forall>b \<in> sector_range c. sect view c1 b = sect view c b" "length buf1 = length data"
      "take (min ((i * spc c + spc c) * 512) (length data)) buf1 = take (min ((i * spc c + spc c) * 512) (length data)) data"
      using read_file_sectors_ok [OF Cons.prems(1-4) sec] by blast
    note same = disk_only_same [OF r1(2)]
    have e: "(i * spc c + spc c) * 512 = Suc i * spc c * 512" by (simp add: algebra_simps)
    have mem: "in_memory c1" using r1(3) by (simp add: volume_def mounted_def)
    have nxcl: "nx \<noteq> cl"
      using chain_distinct [OF Cons.prems(5)] cl by (cases qs) auto
    have lba: "fat12_cluster_lba c cl = of_nat (lba_of c q)"
      unfolding cl(1) using cluster_num_bounds [OF m q] by (intro cluster_lba_word)
    have step: "read_file_loop D (spc c) k cl buf (of_nat ?n) sz c =
        read_file_loop D (spc c) k' nx buf1 (of_nat (min (Suc i * spc c * 512) (length data))) sz c1"
      unfolding k(1) using cl(2,3) lt r1(1) nxcl lba
      by (simp add: not_ends get_entry_memory [OF mem] same add.commute)
    have "holds_data view c1 data (Suc i) qs"
      unfolding holds_data_def same
    proof (intro allI impI)
      fix j s
      assume j: "j < length qs" "s < spc c"
      have "qs ! j \<in> set (cluster_nums c)" using subsetD [OF Cons.prems(6), of "qs ! j"] j(1) by simp
      then have "lba_of c (qs ! j) + s \<in> sector_range c" using j(2) by (rule cluster_sectors_in_range(1))
      then show "sect view c1 (lba_of c (qs ! j) + s) = sector_data data ((Suc i + j) * spc c + s)"
        using r1(4) Cons.prems(7) [unfolded holds_data_def, rule_format, of "Suc j" s] j by simp
    qed
    then have "\<exists>c'. read_file_loop D (spc c1) k' nx buf1 (of_nat (min (Suc i * spc c1 * 512) (length data))) sz c1 = Some (Some (data, sz), c') \<and>
      disk_only c1 c' \<and> volume drv sound good c' \<and> (\<forall>b \<in> sector_range c1. sect view c' b = sect view c1 b)"
      using r1(3,5,6) cl(4) Cons.prems(2,6,9) k(2) by (intro Cons.IH) (auto simp: same add.commute)
    then obtain c2 where c2: "read_file_loop D (spc c) k' nx buf1 (of_nat (min (Suc i * spc c * 512) (length data))) sz c1 = Some (Some (data, sz), c2)"
      "disk_only c1 c2" "volume drv sound good c2" "\<forall>b \<in> sector_range c. sect view c2 b = sect view c1 b" by (auto simp: same)
    then show ?thesis using step r1(4) disk_only_trans [OF r1(2) c2(2)] by auto
  qed
qed

end

section \<open>Directories\<close>

lemma dir_find_Some:
  "dir_find P dir i k = Some j \<longleftrightarrow>
     i \<le> j \<and> j < i + k \<and> P j \<and> dir ! (j * 32) \<noteq> 0 \<and> (\<forall>l. i \<le> l \<and> l < j \<longrightarrow> dir ! (l * 32) \<noteq> 0 \<and> \<not> P l)"
proof (induction k arbitrary: i)
  case 0
  then show ?case by auto
next
  case (Suc k)
  show ?case
  proof (cases "dir ! (i * 32) = 0 \<or> P i")
    case True
    then show ?thesis by (auto simp: le_less Suc_le_eq)
  next
    case False
    have "(\<forall>l. i \<le> l \<and> l < j \<longrightarrow> dir ! (l * 32) \<noteq> 0 \<and> \<not> P l) \<longleftrightarrow>
      (\<forall>l. Suc i \<le> l \<and> l < j \<longrightarrow> dir ! (l * 32) \<noteq> 0 \<and> \<not> P l)"
      using False by (metis Suc_leD le_antisym not_less_eq_eq)
    then show ?thesis using False Suc.IH [of "Suc i"] by (auto simp: Suc_le_eq le_less)
  qed
qed

lemma dir_find_None:
  "dir_find P dir i k = None \<Longrightarrow> i \<le> j \<Longrightarrow> j < i + k \<Longrightarrow> (\<And>l. i \<le> l \<Longrightarrow> l < j \<Longrightarrow> dir ! (l * 32) \<noteq> 0) \<Longrightarrow>
   dir ! (j * 32) \<noteq> 0 \<Longrightarrow> \<not> P j"
proof (induction k arbitrary: i)
  case 0
  then show ?case by simp
next
  case (Suc k)
  show ?case
  proof (cases "i = j")
    case True
    with Suc.prems show ?thesis by (auto split: if_splits)
  next
    case False
    with Suc.prems show ?thesis by (intro Suc.IH [of "Suc i"]) (auto split: if_splits)
  qed
qed

lemma free_run_one:
  "free_run dir 1 i k f 0 = Some j \<Longrightarrow> i \<le> j \<and> j < i + k \<and> (dir ! (j * 32) = 0 \<or> dir ! (j * 32) = 0xE5) \<and>
     (\<forall>l. i \<le> l \<and> l < j \<longrightarrow> dir ! (l * 32) \<noteq> 0)"
proof (induction k arbitrary: i f)
  case 0
  then show ?case by simp
next
  case (Suc k)
  show ?case
  proof (cases "dir ! (i * 32) = 0 \<or> dir ! (i * 32) = 0xE5")
    case True
    with Suc.prems have "j = i" by (auto simp: Let_def)
    with True show ?thesis by auto
  next
    case False
    with Suc.prems have "free_run dir 1 (Suc i) k f 0 = Some j" by simp
    note ih = Suc.IH [OF this]
    have "dir ! (l * 32) \<noteq> 0" if "i \<le> l" "l < j" for l
      using ih False that by (cases "l = i") auto
    with ih show ?thesis by auto
  qed
qed

lemma ent_at_nth: "(i + 1) * 32 \<le> length dir \<Longrightarrow> k < 32 \<Longrightarrow> ent_at dir i ! k = dir ! (i * 32 + k)"
  by (simp add: ent_at_def)

lemma blit_at_length [simp]: "off + length x \<le> length b \<Longrightarrow> length (blit_at b off x) = length b"
  by (simp add: blit_at_def)

lemma blit_at_nth:
  "off + length x \<le> length b \<Longrightarrow> j < length b \<Longrightarrow>
   blit_at b off x ! j = (if off \<le> j \<and> j < off + length x then x ! (j - off) else b ! j)"
  by (auto simp: blit_at_def nth_append)

lemma nth_list_eqI: "length xs = n \<Longrightarrow> length ys = n \<Longrightarrow> (\<And>k. k < n \<Longrightarrow> xs ! k = ys ! k) \<Longrightarrow> xs = ys"
  by (simp add: list_eq_iff_nth_eq)

lemma ent_at_length: "(i + 1) * 32 \<le> length dir \<Longrightarrow> length (ent_at dir i) = 32"
  by (simp add: ent_at_def)

lemma ent_at_blit:
  assumes "k + length x \<le> 32" "(i + 1) * 32 \<le> length dir" "(j + 1) * 32 \<le> length dir"
  shows "ent_at (blit_at dir (i * 32 + k) x) j = (if j = i then blit_at (ent_at dir i) k x else ent_at dir j)"
proof (rule nth_list_eqI [of _ 32])
  have le: "i * 32 + k + length x \<le> length dir" using assms by simp
  have lb: "length (blit_at dir (i * 32 + k) x) = length dir" using le by simp
  show "length (ent_at (blit_at dir (i * 32 + k) x) j) = 32" using assms lb by (intro ent_at_length) simp
  show "length (if j = i then blit_at (ent_at dir i) k x else ent_at dir j) = 32"
    using assms by (simp add: ent_at_length)
  fix n :: nat
  assume n: "n < 32"
  have jn: "j * 32 + n < length dir" using assms(3) n by simp
  have l: "ent_at (blit_at dir (i * 32 + k) x) j ! n = blit_at dir (i * 32 + k) x ! (j * 32 + n)"
    using assms(3) lb n by (intro ent_at_nth) simp_all
  show "ent_at (blit_at dir (i * 32 + k) x) j ! n = (if j = i then blit_at (ent_at dir i) k x else ent_at dir j) ! n"
  proof (cases "j = i")
    case True
    then show ?thesis
      unfolding l blit_at_nth [OF le jn] using assms n by (simp add: blit_at_nth ent_at_length ent_at_nth)
  next
    case False
    then have "j + 1 \<le> i \<or> i + 1 \<le> j" by auto
    then have "\<not> (i * 32 + k \<le> j * 32 + n \<and> j * 32 + n < i * 32 + k + length x)" using assms(1) n by auto
    then show ?thesis unfolding l blit_at_nth [OF le jn] using False assms(3) n by (auto simp: ent_at_nth)
  qed
qed

lemma concat_chunks:
  "length buf = k * 512 \<Longrightarrow> concat (map (\<lambda>b. take 512 (drop ((b - a) * 512) buf)) [a..<a + k]) = buf"
proof (induction k arbitrary: a buf)
  case 0
  then show ?case by simp
next
  case (Suc k)
  have u: "[a..<a + Suc k] = a # [Suc a..<Suc a + k]" by (simp add: upt_conv_Cons)
  have m: "map (\<lambda>b. take 512 (drop ((b - a) * 512) buf)) [Suc a..<Suc a + k] =
      map (\<lambda>b. take 512 (drop ((b - Suc a) * 512) (drop 512 buf))) [Suc a..<Suc a + k]"
  proof (rule map_cong [OF refl])
    fix b
    assume "b \<in> set [Suc a..<Suc a + k]"
    then have "Suc a \<le> b" by auto
    then have "(b - Suc a) * 512 + 512 = (b - a) * 512" by (simp add: algebra_simps)
    then show "take 512 (drop ((b - a) * 512) buf) = take 512 (drop ((b - Suc a) * 512) (drop 512 buf))" by simp
  qed
  have "concat (map (\<lambda>b. take 512 (drop ((b - Suc a) * 512) (drop 512 buf))) [Suc a..<Suc a + k]) = drop 512 buf"
    using Suc.prems by (intro Suc.IH) simp
  then show ?case unfolding u list.map concat.simps m by simp
qed

definition root_dir :: "('d \<Rightarrow> u32 \<Rightarrow> u8 list) \<Rightarrow> 'd fat_ctx \<Rightarrow> u8 list" where
  "root_dir view c =
     concat (map (sect view c) [root_start (c_bpb c)..<root_start (c_bpb c) + root_size (c_bpb c)])"

text \<open>The entry that a write leaves in its slot.\<close>

definition new_entry :: "u8 list \<Rightarrow> u8 list \<Rightarrow> datetime \<Rightarrow> u16 \<Rightarrow> u32 \<Rightarrow> u8 list" where
  "new_entry e name83 dt first sz =
     blit_at (blit_at (blit_at e 0 (take 11 name83 @ [0])) 22 (le16 (datetime_to_fat_time dt) @ le16 (datetime_to_fat_date dt)))
       26 (le16 first @ le32 sz)"

lemma le_lengths [simp]: "length (le16 w) = 2" "length (le32 v) = 4"
  by (simp_all add: le16_def le32_def)

lemma new_entry_fields:
  assumes "length e = 32" "length name83 = 11"
  shows "de_name (new_entry e name83 dt first sz) = name83" "de_attr (new_entry e name83 dt first sz) = 0"
    "de_cluster (new_entry e name83 dt first sz) = first" "de_size (new_entry e name83 dt first sz) = sz"
    "new_entry e name83 dt first sz ! 0 = name83 ! 0" "length (new_entry e name83 dt first sz) = 32"
proof -
  let ?n = "new_entry e name83 dt first sz"
  have n: "?n = (name83 @ [0] @ take 10 (drop 12 e) @ le16 (datetime_to_fat_time dt) @ le16 (datetime_to_fat_date dt))
      @ le16 first @ le32 sz" (is "_ = ?a @ _")
    using assms by (simp add: new_entry_def blit_at_def)
  have l: "length ?a = 26" using assms by simp
  show "de_name ?n = name83" "de_attr ?n = 0" "?n ! 0 = name83 ! 0" "length ?n = 32"
    unfolding n using assms by (simp_all add: de_name_def de_attr_def nth_append)
  show "de_cluster ?n = first" unfolding de_cluster_def n using le16_at_le16 [of ?a first "le32 sz"] by (simp only: l)
  show "de_size ?n = sz"
    unfolding de_size_def n using le32_at_le32 [of "?a @ le16 first" sz "[]"] assms by simp
qed

lemma to_83_loop_length: "length (to_83_loop cs b n out) = length out"
  by (induction cs b n out rule: to_83_loop.induct) (auto simp: Let_def)

lemma to_83_length [simp]: "length (fat12_to_83 s) = 11"
  by (simp add: fat12_to_83_def to_83_loop_length)

text \<open>The mark on long-name entries reaches at most the entry before the slot.\<close>

lemma drop_lfn_before_cases:
  assumes "length dir = n * 32" "i < n"
  shows "drop_lfn_before dir name83 i = dir \<or>
    (i > 0 \<and> de_attr (ent_at dir (i - 1)) = FAT_ATTR_LFN \<and> drop_lfn_before dir name83 i = dir[(i - 1) * 32 := 0xE5])"
proof (cases "i - 1")
  case 0
  then show ?thesis by (simp add: drop_lfn_before_def)
next
  case (Suc k)
  have "Suc k * 32 < length dir" using assms Suc by simp
  then have "(dir[Suc k * 32 := 0xE5]) ! (Suc k * 32) AND FAT_LFN_LAST \<noteq> 0" by (simp add: lfn_consts)
  with Suc show ?thesis by (auto simp: drop_lfn_before_def Let_def)
qed

lemma ent_at_update:
  assumes "length dir = n * 32" "i < n" "j < n"
  shows "ent_at (dir[i * 32 := v]) j = (if j = i then (ent_at dir i)[0 := v] else ent_at dir j)"
proof -
  have "dir[i * 32 := v] = blit_at dir (i * 32 + 0) [v]"
    using assms by (simp add: blit_at_def upd_conv_take_nth_drop)
  moreover have "blit_at (ent_at dir i) 0 [v] = (ent_at dir i)[0 := v]"
    using ent_at_length [of i dir] assms by (cases "ent_at dir i") (auto simp: blit_at_def)
  moreover have "(i + 1) * 32 \<le> length dir" "(j + 1) * 32 \<le> length dir" using assms by auto
  ultimately show ?thesis using ent_at_blit [of 0 "[v]" i dir j] by simp
qed

context fat_volume
begin

lemma root_range: "{root_start (c_bpb c)..<root_start (c_bpb c) + root_size (c_bpb c)} \<subseteq> sector_range c"
  by (auto simp: sector_range_def data_start_def root_start_def)

lemma root_dir_length:
  assumes "volume drv sound good c"
  shows "length (root_dir view c) = root_size (c_bpb c) * 16 * 32"
proof -
  have "length (sect view c b) = 512" if "b \<in> set [root_start (c_bpb c)..<root_start (c_bpb c) + root_size (c_bpb c)]" for b
    using that by (intro sect_length [OF assms] subsetD [OF root_range]) auto
  then show ?thesis unfolding root_dir_def by (subst concat_const_length [where n = 512]) simp_all
qed

lemma read_root_ok:
  assumes "volume drv sound good c" "mal (ucast (c_root_sectors c) * 512) = Some b"
  shows "\<exists>c'. read_dir D mal 0 c = Some (Some (root_dir view c), c') \<and> disk_only c c' \<and> volume drv sound good c' \<and>
    (\<forall>b \<in> sector_range c. sect view c' b = sect view c b)"
proof -
  have m: "mounted good c" using assms(1) by (simp add: volume_def)
  then have "unat (c_root_sectors c) = root_size (c_bpb c)" by (simp add: mounted_def)
  with read_run_ok [OF assms(1) root_range] show ?thesis
    using assms(2) by (auto simp: read_dir_def fat12_read_root_dir_def root_dir_def root_lba_word [OF m])
qed

lemma root_dir_same:
  assumes "\<forall>b \<in> sector_range c. sect view c' b = sect view c b" "c_bpb c' = c_bpb c"
  shows "root_dir view c' = root_dir view c"
  unfolding root_dir_def assms(2) using assms(1) subsetD [OF root_range [of c]]
  by (intro arg_cong [where f = concat] map_cong) auto

lemma write_root_ok:
  assumes "volume drv sound good c" "length dir = root_size (c_bpb c) * 16 * 32"
  shows "\<exists>c'. write_dir D 0 dir c = Some c' \<and> disk_only c c' \<and> volume drv sound good c' \<and> root_dir view c' = dir \<and>
    (\<forall>b \<in> sector_range c. data_start (c_bpb c) \<le> b \<longrightarrow> sect view c' b = sect view c b)"
proof -
  have m: "mounted good c" using assms(1) by (simp add: volume_def)
  let ?a = "root_start (c_bpb c)" and ?k = "root_size (c_bpb c)"
  have "unat (c_root_sectors c) = ?k" using m by (simp add: mounted_def)
  moreover obtain c' where c': "write_run D (of_nat ?a) ?k dir c = Some c'" "disk_only c c'" "volume drv sound good c'"
    "\<forall>b \<in> sector_range c. sect view c' b = (if ?a \<le> b \<and> b < ?a + ?k then take 512 (drop ((b - ?a) * 512) dir) else sect view c b)"
    using write_run_ok [OF assms(1) root_range, of dir] assms(2) by auto
  moreover have "root_dir view c' = dir"
  proof -
    have mp: "map (sect view c') [?a..<?a + ?k] = map (\<lambda>b. take 512 (drop ((b - ?a) * 512) dir)) [?a..<?a + ?k]"
      using c'(4) subsetD [OF root_range [of c]] by (intro map_cong) auto
    show ?thesis
      unfolding root_dir_def disk_only_same [OF c'(2)] mp using concat_chunks [of dir ?k ?a] assms(2) by simp
  qed
  ultimately show ?thesis
    by (auto simp: write_dir_def root_lba_word [OF m] data_start_def)
qed

text \<open>The clusters, the directory and the table, once the slot is known.\<close>

lemma write_tail_ok:
  assumes vol: "volume drv sound good c" and dir: "length dir = root_size (c_bpb c) * 16 * 32" "i < root_size (c_bpb c) * 16"
    and dat: "length data = unat sz" "k * spc c * 512 < 2 ^ 32" and k: "0 < k" "k \<le> length (free_clusters c)"
  defines "qs \<equiv> take k (free_clusters c)"
  shows "\<exists>c1 c2 c'. write_clusters D data sz 0 k 0 0 c = Some (Some (of_nat (hd qs)), c1) \<and>
    write_dir D 0 (blit_at dir (i * 32 + 26) (le16 (of_nat (hd qs)) @ le32 sz)) c1 = Some c2 \<and> fat12_flush_fat D c2 = Some c' \<and>
    fat_disk_only c c' \<and> volume drv sound good c' \<and>
    root_dir view c' = blit_at dir (i * 32 + 26) (le16 (of_nat (hd qs)) @ le32 sz) \<and>
    chain (ends c) (fent c') (of_nat (hd qs)) (map of_nat qs) \<and> holds_data view c' data 0 qs \<and>
    (\<forall>x \<in> of_nat ` set qs. fent c' x \<noteq> Some 0) \<and>
    (\<forall>x. x \<notin> of_nat ` set qs \<and> x \<noteq> 0 \<longrightarrow> fent c' x = fent c x) \<and>
    (\<forall>b \<in> sector_range c. data_start (c_bpb c) \<le> b \<and> b \<notin> cluster_sectors c qs \<longrightarrow> sect view c' b = sect view c b)"
proof -
  have sub: "set qs \<subseteq> set (cluster_nums c)" using free_clusters_subset(1) [of c] by (auto simp: qs_def dest: in_set_takeD)
  obtain c1 where c1: "write_clusters D data sz 0 k 0 0 c = Some (Some (of_nat (hd qs)), c1)" "fat_disk_only c c1"
    "volume drv sound good c1" "chain (ends c) (fent c1) (of_nat (hd qs)) (map of_nat qs)"
    "\<forall>x. x \<notin> of_nat ` set qs \<and> x \<noteq> 0 \<longrightarrow> fent c1 x = fent c x" "holds_data view c1 data 0 qs"
    "\<forall>b \<in> sector_range c. b \<notin> cluster_sectors c qs \<longrightarrow> sect view c1 b = sect view c b"
    "\<forall>x \<in> of_nat ` set qs. fent c1 x \<noteq> Some 0"
    using write_clusters_ok [OF vol k(2) dat(1), of 0 0 0] dat(2) k(1) unfolding qs_def by auto
  note same1 = fat_disk_only_same [OF c1(2)]
  let ?dir = "blit_at dir (i * 32 + 26) (le16 (of_nat (hd qs)) @ le32 sz)"
  have "length ?dir = root_size (c_bpb c1) * 16 * 32" using dir by (simp add: same1)
  from write_root_ok [OF c1(3) this] obtain c2 where c2: "write_dir D 0 ?dir c1 = Some c2" "disk_only c1 c2"
    "volume drv sound good c2" "root_dir view c2 = ?dir"
    "\<forall>b \<in> sector_range c. data_start (c_bpb c) \<le> b \<longrightarrow> sect view c2 b = sect view c1 b" by (auto simp: same1)
  note same2 = disk_only_same [OF c2(2), unfolded same1]
  from flush_ok [OF c2(3)] obtain c' where c': "fat12_flush_fat D c2 = Some c'" "disk_only c2 c'" "volume drv sound good c'"
    "\<forall>b \<in> sector_range c. root_start (c_bpb c) \<le> b \<longrightarrow> sect view c' b = sect view c2 b" by (auto simp: same2)
  note same3 = disk_only_same [OF c'(2), unfolded same2]
  have fdo: "fat_disk_only c c'"
    using fat_disk_only_trans c1(2) fat_disk_only_intros(1) [OF c2(2)] fat_disk_only_intros(1) [OF c'(2)] by blast
  have ge: "root_start (c_bpb c) \<le> b" if "data_start (c_bpb c) \<le> b" for b using that by (simp add: data_start_def)
  have root: "root_dir view c' = ?dir"
  proof -
    have "map (sect view c') [root_start (c_bpb c)..<root_start (c_bpb c) + root_size (c_bpb c)] =
        map (sect view c2) [root_start (c_bpb c)..<root_start (c_bpb c) + root_size (c_bpb c)]"
      using c'(4) subsetD [OF root_range [of c]] by (intro map_cong) auto
    then show ?thesis using c2(4) unfolding root_dir_def same3 same2 by (simp only:)
  qed
  have hold: "holds_data view c' data 0 qs"
    unfolding holds_data_def same3
  proof (intro allI impI)
    fix j s
    assume j: "j < length qs" "s < spc c"
    have q: "qs ! j \<in> set (cluster_nums c)" using subsetD [OF sub, of "qs ! j"] j(1) by simp
    note r = cluster_sectors_in_range [OF q j(2)]
    show "sect view c' (lba_of c (qs ! j) + s) = sector_data data ((0 + j) * spc c + s)"
      using c'(4) c2(5) r ge [OF r(2)] c1(6) j by (simp add: holds_data_def same1)
  qed
  have oth: "sect view c' b = sect view c b"
    if "b \<in> sector_range c" "data_start (c_bpb c) \<le> b" "b \<notin> cluster_sectors c qs" for b
    using that ge [OF that(2)] c1(7) c2(5) c'(4) by simp
  have "fent c' = fent c1" by (simp add: same3)
  then show ?thesis
    using c1(1,4,5,8) c2(1) c'(1,3) fdo root hold oth
    by (intro exI [of _ c1] exI [of _ c2] exI [of _ c']) simp
qed

end

end
