(* ===== verification/Fat_Files.thy ===== *)
theory Fat_Files
  imports Fat_Roundtrip
begin

text \<open>
  The root directory of a FAT volume as a map from 8.3 names to files: \<open>stored\<close> says that a name has
  the given contents on the given clusters, \<open>holds_files\<close> that a whole map of files is on the volume.
  Writing a file updates the map at its name and keeps every other file; reading returns what the map
  has.
\<close>

section \<open>The slot of a directory\<close>

text \<open>The entry that writing a file takes over: the loop at the start of \<open>fat12_write_file_ex\<close>.\<close>

definition names_entry :: "u8 list \<Rightarrow> u8 list \<Rightarrow> nat \<Rightarrow> bool" where
  "names_entry name83 dir i \<longleftrightarrow>
     dir ! (i * 32) \<noteq> 0xE5 \<and> de_attr (ent_at dir i) \<noteq> FAT_ATTR_LFN \<and> fat12_name_eq (de_name (ent_at dir i)) name83"

definition existing_slot :: "u8 list \<Rightarrow> u8 list \<Rightarrow> nat option" where
  "existing_slot name83 dir = dir_find (names_entry name83 dir) dir 0 (length dir div 32)"

definition has_free_slot :: "u8 list \<Rightarrow> bool" where
  "has_free_slot dir \<longleftrightarrow> free_run dir 1 0 (length dir div 32) 0 0 \<noteq> None"

lemma existing_slot_Some:
  "existing_slot name83 dir = Some i \<longleftrightarrow>
     i < length dir div 32 \<and> names_entry name83 dir i \<and> dir ! (i * 32) \<noteq> 0 \<and>
     (\<forall>j < i. dir ! (j * 32) \<noteq> 0 \<and> \<not> names_entry name83 dir j)"
  by (auto simp: existing_slot_def dir_find_Some)

lemma existing_slot_None:
  "existing_slot name83 dir = None \<Longrightarrow> j < length dir div 32 \<Longrightarrow> (\<And>l. l \<le> j \<Longrightarrow> dir ! (l * 32) \<noteq> 0) \<Longrightarrow> \<not> names_entry name83 dir j"
  unfolding existing_slot_def by (drule dir_find_None [where j = j]) auto

text \<open>What becomes of the directory when a name is given slot \<open>i\<close>: other entries stay, but for a long-name
  entry that is marked as deleted.\<close>

definition takes_slot :: "u8 list \<Rightarrow> u8 list \<Rightarrow> u8 list \<Rightarrow> nat \<Rightarrow> bool" where
  "takes_slot name83 dir dir1 i \<longleftrightarrow>
     length dir1 = length dir \<and> i < length dir div 32 \<and> (\<forall>j < i. dir ! (j * 32) \<noteq> 0) \<and>
     (case existing_slot name83 dir of Some k \<Rightarrow> i = k | None \<Rightarrow> dir ! (i * 32) = 0 \<or> dir ! (i * 32) = 0xE5) \<and>
     (\<forall>j < length dir div 32. j \<noteq> i \<longrightarrow> ent_at dir1 j = ent_at dir j \<or>
        de_attr (ent_at dir j) = FAT_ATTR_LFN \<and> ent_at dir1 j = (ent_at dir j)[0 := 0xE5])"

lemma ent_first: "i < length dir div 32 \<Longrightarrow> dir ! (i * 32) = ent_at dir i ! 0"
  using ent_at_nth [of i dir 0] by simp

lemma names_entry_ent:
  "i < length dir div 32 \<Longrightarrow> i < length dir' div 32 \<Longrightarrow> ent_at dir' i = ent_at dir i \<Longrightarrow>
     names_entry name83 dir' i = names_entry name83 dir i \<and> dir' ! (i * 32) = dir ! (i * 32)"
  by (simp add: names_entry_def ent_first)

text \<open>An entry other than the slot names what it named, or is a deleted one.\<close>

lemma takes_slot_same:
  assumes "takes_slot name83 dir dir1 i" "j < length dir div 32" "j \<noteq> i"
    and d3: "length dir3 = length dir" "ent_at dir3 j = ent_at dir1 j"
  shows "(names_entry m dir3 j \<longrightarrow> names_entry m dir j) \<and> (dir ! (j * 32) \<noteq> 0 \<longrightarrow> dir3 ! (j * 32) \<noteq> 0)"
proof -
  have l: "j < length dir3 div 32" "length (ent_at dir j) = 32" using assms by (auto intro: ent_at_length)
  from assms consider "ent_at dir3 j = ent_at dir j" | "ent_at dir3 j = (ent_at dir j)[0 := 0xE5]"
    unfolding takes_slot_def by metis
  then show ?thesis
  proof cases
    case 1
    then show ?thesis using names_entry_ent [OF assms(2) l(1) 1] by simp
  next
    case 2
    then have "dir3 ! (j * 32) = 0xE5" using l by (simp add: ent_first)
    then show ?thesis by (simp add: names_entry_def)
  qed
qed

lemma takes_slot_new:
  assumes t: "takes_slot name83 dir dir1 i" and l: "length dir3 = length dir"
    and e: "\<And>j. j < length dir div 32 \<Longrightarrow> ent_at dir3 j = (if j = i then e else ent_at dir1 j)"
    and n: "de_name e = name83" "de_attr e = 0" "e ! 0 \<noteq> 0" "e ! 0 \<noteq> 0xE5"
  shows "existing_slot name83 dir3 = Some i"
proof -
  have i: "i < length dir div 32" "\<And>j. j < i \<Longrightarrow> dir ! (j * 32) \<noteq> 0" using t by (auto simp: takes_slot_def)
  have s: "dir3 ! (i * 32) \<noteq> 0" "names_entry name83 dir3 i"
    using e [OF i(1)] n i(1) l ent_first [of i dir3] by (auto simp: names_entry_def fat12_name_eq_def FAT_ATTR_LFN_def)
  have "dir3 ! (j * 32) \<noteq> 0 \<and> \<not> names_entry name83 dir3 j" if j: "j < i" for j
  proof -
    have "\<not> names_entry name83 dir j"
    proof (cases "existing_slot name83 dir")
      case None
      then show ?thesis using existing_slot_None [OF None, of j] i j by auto
    next
      case (Some k)
      then have "i = k" using t by (simp add: takes_slot_def)
      then show ?thesis using Some j by (simp add: existing_slot_Some)
    qed
    moreover have "j < length dir div 32" using i(1) j by simp
    ultimately show ?thesis using takes_slot_same [OF t _ _ l, of j name83] e [of j] i(2) [OF j] j by auto
  qed
  then show ?thesis using i(1) s l by (simp add: existing_slot_Some)
qed

lemma name_eq_same: "length a = 11 \<Longrightarrow> length b = 11 \<Longrightarrow> fat12_name_eq n a \<Longrightarrow> fat12_name_eq n b \<Longrightarrow> a = b"
  by (auto simp: fat12_name_eq_def list_eq_iff_nth_eq)

text \<open>The slot of a file with another name stays its slot.\<close>

lemma takes_slot_other:
  assumes t: "takes_slot name83 dir dir1 i" and l: "length dir3 = length dir"
    and e: "\<And>j. j < length dir div 32 \<Longrightarrow> ent_at dir3 j = (if j = i then e else ent_at dir1 j)"
    and n: "de_name e = name83" "e ! 0 \<noteq> 0" and m: "m \<noteq> name83" "length m = 11" "length name83 = 11"
    and k: "existing_slot m dir = Some k" "de_attr (ent_at dir k) = 0"
  shows "existing_slot m dir3 = Some k \<and> ent_at dir3 k = ent_at dir k"
proof -
  have i: "i < length dir div 32" using t by (simp add: takes_slot_def)
  note ks = k(1) [unfolded existing_slot_Some]
  have ki: "k \<noteq> i"
  proof
    assume "k = i"
    moreover have "\<not> names_entry name83 dir k"
      using ks name_eq_same [OF m(2,3)] m(1) by (auto simp: names_entry_def)
    ultimately show False using t ks
      by (cases "existing_slot name83 dir") (auto simp: takes_slot_def existing_slot_Some names_entry_def)
  qed
  have same: "ent_at dir3 k = ent_at dir k"
    using t ks ki k(2) e [of k] by (auto simp: takes_slot_def FAT_ATTR_LFN_def)
  have "dir3 ! (j * 32) \<noteq> 0 \<and> \<not> names_entry m dir3 j" if j: "j < k" for j
  proof (cases "j = i")
    case True
    have "\<not> fat12_name_eq name83 m" using m by (auto simp: fat12_name_eq_def list_eq_iff_nth_eq)
    then show ?thesis using True e [OF i] n i l ent_first [of i dir3] by (simp add: names_entry_def)
  next
    case False
    have "j < length dir div 32" using ks j by simp
    then show ?thesis using takes_slot_same [OF t _ False l, of m] e [of j] False ks j by auto
  qed
  moreover have "names_entry m dir3 k \<and> dir3 ! (k * 32) \<noteq> 0"
    using names_entry_ent [OF _ _ same, of m] ks l by simp
  ultimately show ?thesis using ks l same by (simp add: existing_slot_Some)
qed

text \<open>Finding an existing file by its name.\<close>

lemma existing_slot_found:
  assumes "existing_slot name83 dir = Some i" "de_attr (ent_at dir i) = 0"
  shows "dir_find (\<lambda>i. in_use (ent_at dir i) \<and> fat12_name_eq (de_name (ent_at dir i)) name83) dir 0 (length dir div 32) = Some i"
proof -
  have "names_entry name83 dir j" if "in_use (ent_at dir j)" "fat12_name_eq (de_name (ent_at dir j)) name83" "j < length dir div 32" for j
    using that ent_first [of j dir] by (auto simp: names_entry_def in_use_def)
  then have "\<not> (in_use (ent_at dir j) \<and> fat12_name_eq (de_name (ent_at dir j)) name83)" if "j < i" for j
    using assms(1) that by (auto simp: existing_slot_Some)
  then show ?thesis
    using assms ent_first [of i dir] by (auto simp: existing_slot_Some dir_find_Some in_use_def names_entry_def FAT_ATTR_LFN_def)
qed

section \<open>Files on the volume\<close>

text \<open>A plain name: upper case, of at most 12 characters, without spaces at the start or slashes, and
  not starting with the marks of an unused entry.\<close>

definition plain_name :: "u8 list \<Rightarrow> bool" where
  "plain_name fn \<longleftrightarrow> fn \<noteq> [] \<and> 0 \<notin> set fn \<and> 47 \<notin> set fn \<and> \<not> needs_lfn fn \<and> hd fn > 32 \<and>
     fat12_to_83 fn ! 0 \<noteq> 0 \<and> fat12_to_83 fn ! 0 \<noteq> 0xE5"

definition clusters_needed :: "'d fat_ctx \<Rightarrow> nat \<Rightarrow> nat" where
  "clusters_needed c n = (n + spc c * 512 - 1) div (spc c * 512)"

definition enough_memory :: "malloc \<Rightarrow> bool" where
  "enough_memory mal \<longleftrightarrow> (\<forall>n. \<exists>b. mal n = Some b \<and> length b = unat n)"

text \<open>The largest file that is read back whole (\<open>default_max\<close> of \<open>fat12_read_file_to_ram_ex_max\<close>).\<close>

definition file_max :: nat where "file_max = 0x10000000"

definition stored :: "('d \<Rightarrow> u32 \<Rightarrow> u8 list) \<Rightarrow> 'd fat_ctx \<Rightarrow> u8 list \<Rightarrow> u8 list \<Rightarrow> nat list \<Rightarrow> bool" where
  "stored view c name83 data qs \<longleftrightarrow>
     data \<noteq> [] \<and> length data \<le> file_max \<and> length name83 = 11 \<and>
     (\<exists>i. existing_slot name83 (root_dir view c) = Some i \<and> de_attr (ent_at (root_dir view c) i) = 0 \<and>
        de_cluster (ent_at (root_dir view c) i) = of_nat (hd qs) \<and>
        de_size (ent_at (root_dir view c) i) = of_nat (length data)) \<and>
     set qs \<subseteq> set (cluster_nums c) \<and> length qs = clusters_needed c (length data) \<and>
     chain (ends c) (fent c) (of_nat (hd qs)) (map of_nat qs) \<and> (\<forall>x \<in> of_nat ` set qs. fent c x \<noteq> Some 0) \<and>
     holds_data view c data 0 qs"

definition holds_files :: "('d \<Rightarrow> u32 \<Rightarrow> u8 list) \<Rightarrow> 'd fat_ctx \<Rightarrow> (u8 list \<rightharpoonup> u8 list \<times> nat list) \<Rightarrow> bool" where
  "holds_files view c F \<longleftrightarrow>
     (\<forall>n data qs. F n = Some (data, qs) \<longrightarrow> stored view c n data qs) \<and>
     (\<forall>n m d1 q1 d2 q2. n \<noteq> m \<and> F n = Some (d1, q1) \<and> F m = Some (d2, q2) \<longrightarrow> set q1 \<inter> set q2 = {})"

lemma holds_files_disjoint:
  "holds_files view c F \<Longrightarrow> n \<noteq> m \<Longrightarrow> F n = Some (d1, q1) \<Longrightarrow> F m = Some (d2, q2) \<Longrightarrow> set q1 \<inter> set q2 = {}"
  unfolding holds_files_def by blast

text \<open>The clusters of the file that is about to be replaced.\<close>

definition old_clusters :: "(u8 list \<rightharpoonup> u8 list \<times> nat list) \<Rightarrow> u8 list \<Rightarrow> nat list" where
  "old_clusters F name83 = (case F name83 of Some (_, qs) \<Rightarrow> qs | None \<Rightarrow> [])"

text \<open>There is room for a file of \<open>n\<close> bytes: a slot in the directory unless it replaces another file, and
  enough clusters that are free or the replaced file's.\<close>

definition room_for :: "('d \<Rightarrow> u32 \<Rightarrow> u8 list) \<Rightarrow> 'd fat_ctx \<Rightarrow> (u8 list \<rightharpoonup> u8 list \<times> nat list) \<Rightarrow> u8 list \<Rightarrow> nat \<Rightarrow> bool" where
  "room_for view c F name83 n \<longleftrightarrow>
     (F name83 = None \<longrightarrow> existing_slot name83 (root_dir view c) = None \<and> has_free_slot (root_dir view c)) \<and>
     clusters_needed c n \<le> length (filter (\<lambda>k. fent c (of_nat k) = Some 0 \<or> k \<in> set (old_clusters F name83)) (cluster_nums c))"

lemma plain_name_facts:
  assumes "plain_name fn"
  shows "cstr fn = fn" "base_of fn = fn" "\<not> needs_lfn fn" "fn \<noteq> []" "skip_spaces fn = fn" "c_at fn 0 \<noteq> 47"
    "fat12_to_83 fn ! 0 \<noteq> 0" "fat12_to_83 fn ! 0 \<noteq> 0xE5"
proof -
  show "cstr fn = fn" using assms by (intro cstr_id) (simp add: plain_name_def)
  have "takeWhile (\<lambda>ch. ch \<noteq> 47) (rev fn) = rev fn" using assms by (auto simp: takeWhile_eq_all_conv plain_name_def)
  then show "base_of fn = fn" unfolding base_of_def by (simp only: rev_rev_ident)
  show "skip_spaces fn = fn" "c_at fn 0 \<noteq> 47" using assms by (cases fn; auto simp: plain_name_def c_at_def)+
qed (use assms in \<open>auto simp: plain_name_def\<close>)

lemma clusters_needed_bounds:
  assumes "0 < n" "n \<le> file_max" "0 < spc c"
  shows "0 < clusters_needed c n" "clusters_needed c n * spc c * 512 < 2 ^ 32" "n \<le> clusters_needed c n * spc c * 512"
    "clusters_needed c n \<le> 1048576"
proof -
  let ?b = "spc c * 512"
  have spc: "spc c < 256" using unsigned_less [of "sectors_per_cluster (c_bpb c)"] by (simp add: spc_def)
  have "?b \<le> n + ?b - 1" using assms(1) by linarith
  then show "0 < clusters_needed c n" unfolding clusters_needed_def using assms(3) by (simp add: div_greater_zero_iff)
  have k: "clusters_needed c n * ?b \<le> n + ?b - 1" unfolding clusters_needed_def by (rule div_times_less_eq_dividend)
  moreover have "n + ?b - 1 < 2 ^ 32" using assms(2) spc by (simp add: file_max_def)
  ultimately show "clusters_needed c n * spc c * 512 < 2 ^ 32" by (simp only: mult.assoc)
  have "clusters_needed c n * ?b + (n + ?b - 1) mod ?b = n + ?b - 1" unfolding clusters_needed_def by (rule div_mult_mod_eq)
  moreover have "(n + ?b - 1) mod ?b < ?b" using assms(3) by simp
  ultimately show "n \<le> clusters_needed c n * spc c * 512" using assms(1) by (simp only: mult.assoc)
  have "clusters_needed c n * 512 \<le> clusters_needed c n * ?b" using assms(3) by simp
  also have "\<dots> \<le> n + ?b - 1" by (rule k)
  also have "\<dots> \<le> 0x10000000 + 256 * 512" using assms(2) spc by (simp add: file_max_def)
  finally show "clusters_needed c n \<le> 1048576" by simp
qed

lemma needed_word:
  assumes "0 < spc c" "length data = unat (sz :: u32)" "length data \<le> file_max"
  shows "ucast (sectors_per_cluster (c_bpb c)) * 512 \<noteq> (0 :: u32)"
    "unat ((sz + ucast (sectors_per_cluster (c_bpb c)) * 512 - 1) div (ucast (sectors_per_cluster (c_bpb c)) * 512)) =
       clusters_needed c (length data)"
proof -
  have spc: "spc c < 256" using unsigned_less [of "sectors_per_cluster (c_bpb c)"] by (simp add: spc_def)
  have cb: "unat (ucast (sectors_per_cluster (c_bpb c)) * 512 :: u32) = spc c * 512"
    using spc by (simp add: unat_word_ariths unat_ucast_up spc_def)
  then show "ucast (sectors_per_cluster (c_bpb c)) * 512 \<noteq> (0 :: u32)" using assms(1) by auto
  have "unat (sz + ucast (sectors_per_cluster (c_bpb c)) * 512) = length data + spc c * 512"
    using cb assms spc by (simp add: unat_word_ariths file_max_def)
  moreover have "1 \<le> sz + ucast (sectors_per_cluster (c_bpb c)) * 512" using calculation assms(1) by (simp add: word_le_nat_alt)
  ultimately have "unat (sz + ucast (sectors_per_cluster (c_bpb c)) * 512 - 1) = length data + spc c * 512 - 1"
    by (simp add: unat_sub)
  then show "unat ((sz + ucast (sectors_per_cluster (c_bpb c)) * 512 - 1) div (ucast (sectors_per_cluster (c_bpb c)) * 512)) =
       clusters_needed c (length data)" by (simp only: unat_div cb clusters_needed_def)
qed

lemma cluster_image_iff:
  assumes "mounted good c" "set qs \<subseteq> set (cluster_nums c)" "k \<in> set (cluster_nums c)"
  shows "(of_nat k \<in> (of_nat ` set qs :: u16 set)) = (k \<in> set qs)"
proof
  assume "of_nat k \<in> (of_nat ` set qs :: u16 set)"
  then obtain j where j: "j \<in> set qs" "of_nat k = (of_nat j :: u16)" by auto
  then show "k \<in> set qs" using cluster_word_inj [OF assms(1,3), of j] subsetD [OF assms(2) j(1)] by simp
qed simp

text \<open>The entry of the file after the three stores of \<open>fat12_write_file_ex\<close>.\<close>

lemma ent_at_new_entry:
  assumes "length dir = n * 32" "i < n" "j < n" "length name83 = 11"
  shows "ent_at (blit_at (blit_at (blit_at dir (i * 32) (take 11 name83 @ [0])) (i * 32 + 22)
      (le16 (datetime_to_fat_time dt) @ le16 (datetime_to_fat_date dt))) (i * 32 + 26) (le16 first @ le32 sz)) j =
    (if j = i then new_entry (ent_at dir i) name83 dt first sz else ent_at dir j)"
proof -
  let ?d1 = "blit_at dir (i * 32) (take 11 name83 @ [0])"
  let ?d2 = "blit_at ?d1 (i * 32 + 22) (le16 (datetime_to_fat_time dt) @ le16 (datetime_to_fat_date dt))"
  have a: "(i + 1) * 32 \<le> n * 32" "(j + 1) * 32 \<le> n * 32" using assms by (simp_all only: mult_le_mono1)
  have l: "length ?d1 = n * 32" "length ?d2 = n * 32" using assms by simp_all
  show ?thesis
    unfolding new_entry_def
    using ent_at_blit [of 26 "le16 first @ le32 sz" i ?d2 j] ent_at_blit [of 0 "take 11 name83 @ [0]" i dir j]
      ent_at_blit [of 22 "le16 (datetime_to_fat_time dt) @ le16 (datetime_to_fat_date dt)" i ?d1 j] a l assms
    by (cases "j = i") simp_all
qed

context fat_volume
begin

text \<open>Finding the slot: the clusters of a replaced file are freed.\<close>

lemma slot_ok:
  assumes vol: "volume drv sound good c" and len: "length dir = n * 32"
    and room: "case existing_slot name83 dir of
        Some i \<Rightarrow> chain (ends c) (fent c) (de_cluster (ent_at dir i)) xs
      | None \<Rightarrow> xs = [] \<and> has_free_slot dir"
  shows "\<exists>i dir1 c1. write_slot D name83 0 dir c = Some (Some i, dir1, c1) \<and> fat_disk_only c c1 \<and> volume drv sound good c1 \<and>
    fent c1 = (\<lambda>x. if x \<in> set xs then Some 0 else fent c x) \<and> sect view c1 = sect view c \<and> takes_slot name83 dir dir1 i"
proof -
  have n: "length dir div 32 = n" using len(1) by simp
  show ?thesis
  proof (cases "existing_slot name83 dir")
    case (Some i)
    then have i: "i < n" "\<And>j. j < i \<Longrightarrow> dir ! (j * 32) \<noteq> 0" by (simp_all add: existing_slot_Some n)
    have "chain (ends c) (fent c) (de_cluster (ent_at dir i)) xs" using room Some by simp
    moreover have "in_memory c" using vol by (simp add: volume_def mounted_def)
    ultimately obtain fat' where f: "fat12_free_chain D (de_cluster (ent_at dir i)) c = Some (c\<lparr>c_fat := Some fat'\<rparr>)"
      "length fat' = length (the (c_fat c))" "fent (c\<lparr>c_fat := Some fat'\<rparr>) = (\<lambda>x. if x \<in> set xs then Some 0 else fent c x)"
      using free_chain_chain by blast
    let ?d = "drop_lfn_before dir name83 i"
    have st: "write_slot D name83 0 dir c = Some (Some i, ?d, c\<lparr>c_fat := Some fat'\<rparr>)"
      using Some f(1) by (simp add: write_slot_def existing_slot_def names_entry_def [abs_def] Let_def)
    have "length ?d = length dir \<and> (\<forall>j < n. j \<noteq> i \<longrightarrow> ent_at ?d j = ent_at dir j \<or>
        (de_attr (ent_at dir j) = FAT_ATTR_LFN \<and> ent_at ?d j = (ent_at dir j)[0 := 0xE5]))"
      using drop_lfn_before_cases [OF len(1) i(1), of name83]
    proof
      assume "0 < i \<and> de_attr (ent_at dir (i - 1)) = FAT_ATTR_LFN \<and> ?d = dir[(i - 1) * 32 := 0xE5]"
      moreover have "i - 1 < n" using i(1) by simp
      ultimately show ?thesis using ent_at_update [OF len(1)] by auto
    qed simp
    then have "takes_slot name83 dir ?d i" using i Some n by (simp add: takes_slot_def)
    then show ?thesis
      using st fat_disk_only_intros(2) [of c "Some fat'"] volume_fat [OF vol f(2)] f(3)
      by (intro exI [of _ i] exI [of _ ?d] exI [of _ "c\<lparr>c_fat := Some fat'\<rparr>"]) simp
  next
    case None
    then obtain i where i: "free_run dir 1 0 n 0 0 = Some i" "xs = []" using room n by (auto simp: has_free_slot_def)
    have "takes_slot name83 dir dir i" using free_run_one [OF i(1)] None n by (simp add: takes_slot_def)
    moreover have "write_slot D name83 0 dir c = Some (Some i, dir, c)"
      using None i(1) by (simp add: write_slot_def existing_slot_def names_entry_def [abs_def] Let_def n)
    ultimately show ?thesis
      using i(2) vol fat_disk_only_refl [of c] by (intro exI [of _ i] exI [of _ dir] exI [of _ c]) auto
  qed
qed

lemma write_file_ok:
  assumes vol: "volume drv sound good c" and name: "plain_name fn" and mem: "enough_memory mal"
    and dat: "length data = unat sz" "data \<noteq> []" "length data \<le> file_max"
    and room: "case existing_slot (fat12_to_83 fn) (root_dir view c) of
        Some i \<Rightarrow> chain (ends c) (fent c) (de_cluster (ent_at (root_dir view c) i)) xs
      | None \<Rightarrow> xs = [] \<and> has_free_slot (root_dir view c)"
    and free: "clusters_needed c (length data) \<le>
      length (filter (\<lambda>k. fent c (of_nat k) = Some 0 \<or> of_nat k \<in> set xs) (cluster_nums c))"
  defines "qs \<equiv> take (clusters_needed c (length data))
      (filter (\<lambda>k. fent c (of_nat k) = Some 0 \<or> of_nat k \<in> set xs) (cluster_nums c))"
  shows "\<exists>i dir1 c'. fat12_write_file_ex D mal 0 dt fn data sz c = Some (True, c') \<and> fat_disk_only c c' \<and>
    volume drv sound good c' \<and> takes_slot (fat12_to_83 fn) (root_dir view c) dir1 i \<and>
    (\<forall>j < root_size (c_bpb c) * 16. ent_at (root_dir view c') j =
       (if j = i then new_entry (ent_at dir1 i) (fat12_to_83 fn) dt (of_nat (hd qs)) sz else ent_at dir1 j)) \<and>
    chain (ends c) (fent c') (of_nat (hd qs)) (map of_nat qs) \<and> holds_data view c' data 0 qs \<and>
    (\<forall>x \<in> of_nat ` set qs. fent c' x \<noteq> Some 0) \<and>
    (\<forall>x. x \<notin> of_nat ` set qs \<and> x \<noteq> 0 \<and> x \<notin> set xs \<longrightarrow> fent c' x = fent c x) \<and>
    (\<forall>b \<in> sector_range c. data_start (c_bpb c) \<le> b \<and> b \<notin> cluster_sectors c qs \<longrightarrow> sect view c' b = sect view c b)"
proof -
  let ?n83 = "fat12_to_83 fn" and ?n = "root_size (c_bpb c) * 16" and ?k = "clusters_needed c (length data)"
  note nm = plain_name_facts [OF name]
  have tgt: "target_dir_of D mal 0 fn c = Some (Some 0, c)" by (simp add: target_dir_of_def nm Let_def)
  obtain b where b: "mal (ucast (c_root_sectors c) * 512) = Some b" using mem by (auto simp: enough_memory_def)
  obtain c0 where c0: "read_dir D mal 0 c = Some (Some (root_dir view c), c0)" "disk_only c c0" "volume drv sound good c0"
    "\<forall>b \<in> sector_range c. sect view c0 b = sect view c b" using read_root_ok [where mal = mal, OF vol b] by blast
  note same0 = disk_only_same [OF c0(2)]
  have len: "length (root_dir view c) = ?n * 32" using root_dir_length [OF vol] .
  obtain i dir1 c1 where s: "write_slot D ?n83 0 (root_dir view c) c0 = Some (Some i, dir1, c1)" "fat_disk_only c0 c1"
    "volume drv sound good c1" "fent c1 = (\<lambda>x. if x \<in> set xs then Some 0 else fent c x)" "sect view c1 = sect view c0"
    "takes_slot ?n83 (root_dir view c) dir1 i"
    using slot_ok [of c0 "root_dir view c" ?n xs ?n83, OF c0(3) len] room unfolding same0 by blast
  note same1 = fat_disk_only_same [OF s(2), unfolded same0]
  have i: "i < ?n" "length dir1 = ?n * 32" using s(6) len by (auto simp: takes_slot_def)
  have spc0: "0 < spc c" using vol by (simp add: volume_def mounted_def)
  have ld: "0 < length data" using dat(2) by simp
  note k = clusters_needed_bounds [OF ld dat(3) spc0] and need = needed_word [OF spc0 dat(1,3)]
  have qs: "qs = take ?k (free_clusters c1)" "?k \<le> length (free_clusters c1)"
  proof -
    have "free_clusters c1 = filter (\<lambda>k. fent c (of_nat k) = Some 0 \<or> of_nat k \<in> set xs) (cluster_nums c)"
      unfolding free_clusters_def same1 s(4) by (rule filter_cong) auto
    then show "qs = take ?k (free_clusters c1)" "?k \<le> length (free_clusters c1)" using free by (simp_all add: qs_def)
  qed
  define dir2 where "dir2 = blit_at (blit_at dir1 (i * 32) (take 11 ?n83 @ [0])) (i * 32 + 22)
      (le16 (datetime_to_fat_time dt) @ le16 (datetime_to_fat_date dt))"
  define dir3 where "dir3 = blit_at dir2 (i * 32 + 26) (le16 (of_nat (hd qs)) @ le32 sz)"
  have l2: "length dir2 = ?n * 32" using i by (simp add: dir2_def)
  obtain c2 c3 c' where t: "write_clusters D data sz 0 ?k 0 0 c1 = Some (Some (of_nat (hd qs)), c2)"
    "write_dir D 0 dir3 c2 = Some c3" "fat12_flush_fat D c3 = Some c'" "fat_disk_only c1 c'" "volume drv sound good c'"
    "root_dir view c' = dir3" "chain (ends c) (fent c') (of_nat (hd qs)) (map of_nat qs)" "holds_data view c' data 0 qs"
    "\<forall>x \<in> of_nat ` set qs. fent c' x \<noteq> Some 0" "\<forall>x. x \<notin> of_nat ` set qs \<and> x \<noteq> 0 \<longrightarrow> fent c' x = fent c1 x"
    "\<forall>b \<in> sector_range c. data_start (c_bpb c) \<le> b \<and> b \<notin> cluster_sectors c1 qs \<longrightarrow> sect view c' b = sect view c1 b"
    using write_tail_ok [OF s(3), of dir2 i data sz ?k, folded qs(1), unfolded same1, OF l2 i(1) dat(1) k(2,1) qs(2)]
    unfolding dir3_def by blast
  have "sz \<noteq> 0" using dat by auto
  then have run: "fat12_write_file_ex D mal 0 dt fn data sz c = Some (True, c')"
    using tgt c0(1) s(1) t(1-3) need
    by (simp add: fat12_write_file_ex_def nm Let_def same1 dir2_def dir3_def)
  have e: "\<forall>j < ?n. ent_at dir3 j = (if j = i then new_entry (ent_at dir1 i) ?n83 dt (of_nat (hd qs)) sz else ent_at dir1 j)"
    unfolding dir3_def dir2_def using ent_at_new_entry [OF i(2,1)] by simp
  have cs: "cluster_sectors c1 qs = cluster_sectors c qs" by (simp add: cluster_sectors_def same1)
  have fo: "fent c' x = fent c x" if "x \<notin> of_nat ` set qs" "x \<noteq> 0" "x \<notin> set xs" for x using that t(10) by (simp add: s(4))
  have so: "sect view c' b = sect view c b" if "b \<in> sector_range c" "data_start (c_bpb c) \<le> b" "b \<notin> cluster_sectors c qs" for b
    using that t(11) c0(4) by (simp add: cs s(5))
  have fdo: "fat_disk_only c c'"
    using fat_disk_only_trans [OF fat_disk_only_trans [OF fat_disk_only_intros(1) [OF c0(2)] s(2)] t(4)] .
  show ?thesis
    using run fdo t(5,7-9) s(6) e fo so by (intro exI [of _ i] exI [of _ dir1] exI [of _ c']) (simp add: t(6))
qed

text \<open>Writing a file as an update of the map of files.\<close>

lemma stored_write:
  assumes vol: "volume drv sound good c" and st: "stored view c m d q" and n: "m \<noteq> name83" "length name83 = 11"
    and dj: "set q \<inter> set qs = {}" "of_nat ` set q \<inter> set xs = {}" "set qs \<subseteq> set (cluster_nums c)"
    and fdo: "fat_disk_only c c'" and vol': "volume drv sound good c'"
    and slot: "takes_slot name83 (root_dir view c) dir1 i"
      "\<forall>j < root_size (c_bpb c) * 16. ent_at (root_dir view c') j = (if j = i then e else ent_at dir1 j)"
      "de_name e = name83" "e ! 0 \<noteq> 0"
    and fo: "\<forall>x. x \<notin> of_nat ` set qs \<and> x \<noteq> 0 \<and> x \<notin> set xs \<longrightarrow> fent c' x = fent c x"
    and so: "\<forall>b \<in> sector_range c. data_start (c_bpb c) \<le> b \<and> b \<notin> cluster_sectors c qs \<longrightarrow> sect view c' b = sect view c b"
  shows "stored view c' m d q"
proof -
  note same = fat_disk_only_same [OF fdo] and m = vol [unfolded volume_def, THEN conjunct1]
  have len: "length (root_dir view c) = root_size (c_bpb c) * 16 * 32" "length (root_dir view c') = root_size (c_bpb c) * 16 * 32"
    using root_dir_length [OF vol] root_dir_length [OF vol'] by (simp_all add: same)
  obtain k where k: "existing_slot m (root_dir view c) = Some k" "de_attr (ent_at (root_dir view c) k) = 0"
    "de_cluster (ent_at (root_dir view c) k) = of_nat (hd q)" "de_size (ent_at (root_dir view c) k) = of_nat (length d)"
    using st by (auto simp: stored_def)
  have k': "existing_slot m (root_dir view c') = Some k \<and> ent_at (root_dir view c') k = ent_at (root_dir view c) k"
    using takes_slot_other [OF slot(1) _ _ slot(3,4) n(1) _ n(2) k(1,2)] slot(2) len st by (simp add: stored_def)
  have sub: "set q \<subseteq> set (cluster_nums c)" using st by (simp add: stored_def)
  have fq: "fent c' x = fent c x" if x: "x \<in> of_nat ` set q" for x
  proof -
    obtain k where k: "x = of_nat k" "k \<in> set q" "k \<in> set (cluster_nums c)" using x sub by auto
    have "x \<notin> of_nat ` set qs" using cluster_image_iff [OF m dj(3) k(3)] dj(1) k(1,2) by auto
    moreover have "x \<noteq> 0" "x \<notin> set xs" using cluster_num_bounds(4) [OF m k(3)] dj(2) x k(1) by (auto simp: ends_def)
    ultimately show ?thesis using fo by simp
  qed
  have "chain (ends c) (fent c') (of_nat (hd q)) (map of_nat q)"
    using st chain_cong [of "map of_nat q" "fent c'" "fent c" "ends c"] fq by (simp add: stored_def)
  moreover have "holds_data view c' d 0 q"
    unfolding holds_data_def same
  proof (intro allI impI)
    fix j s
    assume j: "j < length q" "s < spc c"
    have "q ! j \<in> set q" using j(1) by simp
    then have q: "q ! j \<in> set (cluster_nums c)" "q ! j \<notin> set qs" using sub dj(1) by auto
    show "sect view c' (lba_of c (q ! j) + s) = sector_data d ((0 + j) * spc c + s)"
      using so cluster_sectors_in_range [OF q(1) j(2)] cluster_sectors_disjoint_iff [OF q(1) dj(3) j(2)] q(2) st j
      by (simp add: stored_def holds_data_def)
  qed
  ultimately show ?thesis
    using st k k' fq by (auto simp: stored_def same clusters_needed_def)
qed

lemma write_updates_files:
  assumes vol: "volume drv sound good c" and F: "holds_files view c F" and name: "plain_name fn" and mem: "enough_memory mal"
    and dat: "data \<noteq> []" "length data \<le> file_max" and room: "room_for view c F (fat12_to_83 fn) (length data)"
  shows "\<exists>qs c'. fat12_write_file_ex D mal 0 dt fn data (of_nat (length data)) c = Some (True, c') \<and>
    fat_disk_only c c' \<and> volume drv sound good c' \<and> holds_files view c' (F(fat12_to_83 fn \<mapsto> (data, qs)))"
proof -
  let ?n = "fat12_to_83 fn" and ?sz = "of_nat (length data) :: u32"
  let ?old = "old_clusters F ?n" and ?k = "clusters_needed c (length data)"
  let ?xs = "map of_nat ?old :: u16 list"
  note m = vol [unfolded volume_def, THEN conjunct1]
  have sz: "length data = unat ?sz" using dat(2) by (simp add: unat_of_nat file_max_def)
  have st: "stored view c n d q" if "F n = Some (d, q)" for n d q using F that by (simp add: holds_files_def)
  have olds: "set ?old \<subseteq> set (cluster_nums c)" using st [of ?n] by (cases "F ?n") (auto simp: old_clusters_def stored_def)
  have slot: "case existing_slot ?n (root_dir view c) of
      Some i \<Rightarrow> chain (ends c) (fent c) (de_cluster (ent_at (root_dir view c) i)) ?xs
    | None \<Rightarrow> ?xs = [] \<and> has_free_slot (root_dir view c)"
    using room st [of ?n] by (cases "F ?n") (auto simp: room_for_def old_clusters_def stored_def)
  have fl: "filter (\<lambda>k. fent c (of_nat k) = Some 0 \<or> of_nat k \<in> set ?xs) (cluster_nums c) =
      filter (\<lambda>k. fent c (of_nat k) = Some 0 \<or> k \<in> set ?old) (cluster_nums c)" (is "_ = ?fr")
    using cluster_image_iff [OF m olds] by (intro filter_cong) simp_all
  let ?qs = "take ?k ?fr"
  have room': "?k \<le> length ?fr" using room by (simp add: room_for_def)
  obtain i dir1 c' where w: "fat12_write_file_ex D mal 0 dt fn data ?sz c = Some (True, c')" "fat_disk_only c c'"
    "volume drv sound good c'" "takes_slot ?n (root_dir view c) dir1 i"
    "\<forall>j < root_size (c_bpb c) * 16. ent_at (root_dir view c') j =
       (if j = i then new_entry (ent_at dir1 i) ?n dt (of_nat (hd ?qs)) ?sz else ent_at dir1 j)"
    "chain (ends c) (fent c') (of_nat (hd ?qs)) (map of_nat ?qs)" "holds_data view c' data 0 ?qs"
    "\<forall>x \<in> of_nat ` set ?qs. fent c' x \<noteq> Some 0"
    "\<forall>x. x \<notin> of_nat ` set ?qs \<and> x \<noteq> 0 \<and> x \<notin> set ?xs \<longrightarrow> fent c' x = fent c x"
    "\<forall>b \<in> sector_range c. data_start (c_bpb c) \<le> b \<and> b \<notin> cluster_sectors c ?qs \<longrightarrow> sect view c' b = sect view c b"
    using write_file_ok [OF vol name mem sz dat slot, unfolded fl, OF room'] by blast
  note same = fat_disk_only_same [OF w(2)]
  have len: "length (root_dir view c) = root_size (c_bpb c) * 16 * 32" "length (root_dir view c') = root_size (c_bpb c) * 16 * 32"
    using root_dir_length [OF vol] root_dir_length [OF w(3)] by (simp_all add: same)
  have i: "i < root_size (c_bpb c) * 16" "length (ent_at dir1 i) = 32"
    using w(4) len(1) by (auto simp: takes_slot_def intro!: ent_at_length)
  note e = new_entry_fields [OF i(2) to_83_length [of fn], of dt "of_nat (hd ?qs)" ?sz]
  note first = plain_name_facts(7,8) [OF name]
  have qs: "set ?qs \<subseteq> set (cluster_nums c)" "\<And>k. k \<in> set ?qs \<Longrightarrow> fent c (of_nat k) = Some 0 \<or> k \<in> set ?old"
    by (auto dest: in_set_takeD)
  have new: "stored view c' ?n data ?qs"
  proof -
    have "existing_slot ?n (root_dir view c') = Some i"
      using takes_slot_new [OF w(4) _ _ e(1,2)] w(5) len e(5) first by simp
    then show ?thesis using w(5-8) i(1) e dat qs(1) room' by (auto simp: stored_def same clusters_needed_def)
  qed
  have dj: "set q \<inter> set ?qs = {} \<and> of_nat ` set q \<inter> set ?xs = {}" if "F n = Some (d, q)" "n \<noteq> ?n" for n d q
  proof -
    have o: "set q \<inter> set ?old = {}"
    proof (cases "F ?n")
      case (Some p)
      then show ?thesis using holds_files_disjoint [OF F that(2,1)] by (cases p) (simp add: old_clusters_def)
    qed (simp add: old_clusters_def)
    have u: "\<forall>x \<in> of_nat ` set q. fent c x \<noteq> Some 0" "set q \<subseteq> set (cluster_nums c)" using st [OF that(1)] by (simp_all add: stored_def)
    have "set q \<inter> set ?qs = {}" using o u(1) qs(2) by blast
    moreover have "of_nat ` set q \<inter> set ?xs = {}" using o cluster_image_iff [OF m olds] subsetD [OF u(2)] by (auto simp del: image_iff)
    ultimately show ?thesis ..
  qed
  have oth: "stored view c' n d q" if "F n = Some (d, q)" "n \<noteq> ?n" for n d q
    using stored_write [OF vol st [OF that(1)] that(2) _ _ _ qs(1) w(2-5) e(1) _ w(9,10)] dj [OF that] e(5) first by simp
  have "holds_files view c' (F(?n \<mapsto> (data, ?qs)))"
    unfolding holds_files_def
  proof (intro conjI allI impI)
    fix n d q
    assume "(F(?n \<mapsto> (data, ?qs))) n = Some (d, q)"
    then show "stored view c' n d q" using new oth by (cases "n = ?n") auto
  next
    fix n m d1 q1 d2 q2
    assume a: "n \<noteq> m \<and> (F(?n \<mapsto> (data, ?qs))) n = Some (d1, q1) \<and> (F(?n \<mapsto> (data, ?qs))) m = Some (d2, q2)"
    consider "n = ?n" "F m = Some (d2, q2)" "q1 = ?qs" "m \<noteq> ?n" | "m = ?n" "F n = Some (d1, q1)" "q2 = ?qs" "n \<noteq> ?n"
      | "F n = Some (d1, q1)" "F m = Some (d2, q2)" using a by (auto split: if_splits)
    then show "set q1 \<inter> set q2 = {}"
    proof cases
      case 3
      then show ?thesis using holds_files_disjoint [OF F] a by blast
    qed (use dj in blast)+
  qed
  then show ?thesis using w(1-3) by blast
qed

text \<open>Reading a file.\<close>

lemma stored_same:
  assumes "volume drv sound good c" "disk_only c c'" "\<forall>b \<in> sector_range c. sect view c' b = sect view c b" "stored view c n d q"
  shows "stored view c' n d q"
proof -
  note same = disk_only_same [OF assms(2)]
  have r: "root_dir view c' = root_dir view c" using assms(3) by (rule root_dir_same) (simp add: same)
  have sub: "set q \<subseteq> set (cluster_nums c)" using assms(4) by (simp add: stored_def)
  have "holds_data view c' d 0 q"
    unfolding holds_data_def same
  proof (intro allI impI)
    fix j s
    assume j: "j < length q" "s < spc c"
    have "lba_of c (q ! j) + s \<in> sector_range c"
      using subsetD [OF sub, of "q ! j"] j by (intro cluster_sectors_in_range(1)) simp_all
    then show "sect view c' (lba_of c (q ! j) + s) = sector_data d ((0 + j) * spc c + s)"
      using assms(3,4) j by (simp add: stored_def holds_data_def)
  qed
  then show ?thesis using assms(4) by (simp add: stored_def same r clusters_needed_def)
qed

lemma read_file_ok:
  assumes vol: "volume drv sound good c" and name: "plain_name fn" and mem: "enough_memory mal"
    and st: "stored view c (fat12_to_83 fn) data qs"
  shows "\<exists>c'. fat12_read_file_to_ram_ex D mal 0 fn c = Some (Some (data, of_nat (length data)), c') \<and> disk_only c c' \<and>
    volume drv sound good c' \<and> (\<forall>b \<in> sector_range c. sect view c' b = sect view c b)"
proof -
  let ?n83 = "fat12_to_83 fn" and ?sz = "of_nat (length data) :: u32"
  note nm = plain_name_facts [OF name]
  have dat: "0 < length data" "length data \<le> file_max" using st by (auto simp: stored_def)
  then have sz: "length data = unat ?sz" "?sz \<noteq> 0" "\<not> 0x10000000 < ?sz"
    by (auto simp: unat_of_nat file_max_def word_less_nat_alt word_unat_eq_iff simp del: length_greater_0_conv)
  obtain b where b: "mal (ucast (c_root_sectors c) * 512) = Some b" using mem by (auto simp: enough_memory_def)
  obtain c0 where c0: "read_dir D mal 0 c = Some (Some (root_dir view c), c0)" "disk_only c c0" "volume drv sound good c0"
    "\<forall>b \<in> sector_range c. sect view c0 b = sect view c b" using read_root_ok [where mal = mal, OF vol b] by blast
  note same0 = disk_only_same [OF c0(2)]
  have st0: "stored view c0 ?n83 data qs" using stored_same [OF vol c0(2,4) st] .
  obtain i where i: "existing_slot ?n83 (root_dir view c) = Some i" "de_attr (ent_at (root_dir view c) i) = 0"
    "de_cluster (ent_at (root_dir view c) i) = of_nat (hd qs)" "de_size (ent_at (root_dir view c) i) = ?sz"
    using st by (auto simp: stored_def)
  have fnd: "fat12_find_in_dir D mal 0 ?n83 c = Some (Some (ent_at (root_dir view c) i), c0)"
    using existing_slot_found [OF i(1,2)] c0(1) by (simp add: fat12_find_in_dir_def)
  obtain buf where buf: "mal ?sz = Some buf" "length buf = length data" 
    using mem sz(1) unfolding enough_memory_def by metis
  have spc0: "0 < spc c" using vol by (simp add: volume_def mounted_def)
  then have spcw: "sectors_per_cluster (c_bpb c) \<noteq> 0" by (auto simp: spc_def)
  note k = clusters_needed_bounds [OF dat spc0]
  have "\<exists>c'. read_file_loop D (spc c0) 1048576 (of_nat (hd qs)) buf (of_nat (min (0 * spc c0 * 512) (length data))) ?sz c0 =
      Some (Some (data, ?sz), c') \<and> disk_only c0 c' \<and> volume drv sound good c' \<and> (\<forall>b \<in> sector_range c0. sect view c' b = sect view c0 b)"
    using st0 k(3,4) buf(2) sz(1) by (intro read_file_loop_ok [OF c0(3)]) (auto simp: stored_def same0 clusters_needed_def)
  then obtain c' where c': "read_file_loop D (spc c) 1048576 (of_nat (hd qs)) buf 0 ?sz c0 = Some (Some (data, ?sz), c')"
    "disk_only c0 c'" "volume drv sound good c'" "\<forall>b \<in> sector_range c. sect view c' b = sect view c0 b" by (auto simp: same0)
  have "fat12_read_file_to_ram_ex D mal 0 fn c = Some (Some (data, ?sz), c')"
    using fnd i(2-4) sz buf(1) c'(1) spcw nm
    by (simp add: fat12_read_file_to_ram_ex_def fat12_read_file_to_ram_ex_max_def Let_def same0 spc_def)
  then show ?thesis using disk_only_trans [OF c0(2) c'(2)] c'(3,4) c0(4) by auto
qed

lemma read_keeps_files:
  assumes "volume drv sound good c" "holds_files view c F" "plain_name fn" "enough_memory mal"
    and "F (fat12_to_83 fn) = Some (data, qs)"
  shows "\<exists>c'. fat12_read_file_to_ram_ex D mal 0 fn c = Some (Some (data, of_nat (length data)), c') \<and> disk_only c c' \<and>
    volume drv sound good c' \<and> holds_files view c' F"
proof -
  have st: "stored view c (fat12_to_83 fn) data qs" using assms(2,5) by (simp add: holds_files_def)
  obtain c' where c': "fat12_read_file_to_ram_ex D mal 0 fn c = Some (Some (data, of_nat (length data)), c')" "disk_only c c'"
    "volume drv sound good c'" "\<forall>b \<in> sector_range c. sect view c' b = sect view c b"
    using read_file_ok [OF assms(1,3,4) st] by blast
  have "holds_files view c' F" using assms(2) stored_same [OF assms(1) c'(2,4)] unfolding holds_files_def by blast
  then show ?thesis using c'(1-3) by blast
qed

end

end
