(* ===== verification/Fat_Volumes.thy ===== *)
theory Fat_Volumes
  imports Fat_Files Disk
begin

text \<open>
  The FAT driver on the disks of \<open>src/disk.c\<close>: \<open>disk_sectors\<close> instantiates its disk with the sector
  routines of the kernel. The theory of \<open>Fat_Files\<close> holds on a hard disk behind ATA, where every
  sector is good, and on the boot floppy, for volumes on its good sectors.
\<close>

definition disk_sectors :: "'h hardware \<Rightarrow> malloc \<Rightarrow> 'h disk sectors" where
  "disk_sectors H mal = \<lparr>sec_read = disk_read_sector H, sec_write = disk_write_sector H mal\<rparr>"

interpretation hdd_fat: fat_volume "disk_sectors H mal" drive "hdd_sound H C drive" "hdd_view C" "\<lambda>_. True"
  by (simp add: fat_volume_def disk_sectors_def hdd.sector_store_axioms)

interpretation floppy_fat: fat_volume "disk_sectors H mal" drive "floppy_sound H C mal drive n r0 r1" "floppy_view C"
    "floppy_good n r0 r1"
  by (simp add: fat_volume_def disk_sectors_def floppy.sector_store_axioms)

abbreviation hdd_volume where
  "hdd_volume H C drive \<equiv> volume drive (hdd_sound H C drive) (\<lambda>_. True)"

abbreviation floppy_volume where
  "floppy_volume H C mal drive n r0 r1 \<equiv> volume drive (floppy_sound H C mal drive n r0 r1) (floppy_good n r0 r1)"

section \<open>Files on a hard disk\<close>


text \<open>C31: Reading a file of the map returns its contents, the loop over its cluster chain ends, and the
  files of the volume stay as they are.\<close>

theorem fat_read_refines_lookup:
  assumes "hdd_volume H C drive c" "holds_files (hdd_view C) c F" "plain_name fn" "enough_memory mal"
    and "F (fat12_to_83 fn) = Some (data, qs)"
  shows "\<exists>c'. fat12_read_file_to_ram_ex (disk_sectors H mal) mal 0 fn c = Some (Some (data, of_nat (length data)), c') \<and>
    hdd_volume H C drive c' \<and> holds_files (hdd_view C) c' F"
  using hdd_fat.read_keeps_files [OF assms] by blast

text \<open>A hard disk in memory, of 256 FAT16 entries and 6 clusters, with no files.\<close>

definition ram_ata :: "(u32 \<Rightarrow> u8 list) hardware" where
  "ram_ata = \<lparr>ata_detect_all_devices = (\<lambda>h. (Some 100, h)), ata_read_sector = (\<lambda>a h. (Some (take 512 (h a @ replicate 512 0)), h)),
     ata_write_sector = (\<lambda>a x h. (True, h(a := x))),
     bios_int13_read_chs = (\<lambda>_ _ _ _ h. ((1, []), h)), bios_int13_write_chs = (\<lambda>_ _ _ _ _ h. (1, h))\<rparr>"

definition ram_view :: "(u32 \<Rightarrow> u8 list) \<Rightarrow> u32 \<Rightarrow> u8 list" where
  "ram_view h a = take 512 (h a @ replicate 512 0)"

definition small_bpb :: "u16 \<Rightarrow> fat_bpb" where
  "small_bpb reserved = \<lparr>bytes_per_sector = 512, sectors_per_cluster = 1, reserved_sectors = reserved, fat_count = 1,
     root_dir_entries = 16, total_sectors_short = reserved + 8, fat_size_sectors = 1, total_sectors_long = 0\<rparr>"

definition empty_hdd :: "(u32 \<Rightarrow> u8 list) disk fat_ctx" where
  "empty_hdd = \<lparr>c_bpb = small_bpb 1, c_fat = Some (replicate 512 0), c_fat_lba = 1, c_root_lba = 2, c_root_sectors = 1,
     c_data_lba = 3, c_fat_type = 16, c_use_cache = False, c_cache = [], c_counter = 0, c_drive = 0x80,
     c_disk = \<lparr>d_cache = [], d_wb = [], ramdisk_sectors = 0, ramdisk_drive = 0, root_lba_start = 0, root_lba_end = 0,
       ata_available = True, bios_disk_disabled = False, root_snapshot = [], root_snapshot_lba = 0, root_snapshot_bytes = 0,
       d_hw = (\<lambda>_. replicate 512 0)\<rparr>\<rparr>"

lemma ram_ata_stores: "ata_stores ram_ata ram_view"
  by (auto simp: ata_stores_def ram_ata_def ram_view_def)

lemma empty_hdd_clusters: "clusters empty_hdd = 6"
  by (simp add: clusters_def fat_volume_cluster_count_def bpb_data_sectors_def empty_hdd_def small_bpb_def Let_def)

lemma empty_hdd_volume: "hdd_volume ram_ata ram_view 0x80 empty_hdd"
proof -
  have "in_memory empty_hdd" "spc empty_hdd = 1" by (simp_all add: in_memory_def spc_def empty_hdd_def small_bpb_def)
  then show ?thesis
    using ram_ata_stores empty_hdd_clusters
    by (simp add: volume_def mounted_def hdd_sound_def root_start_def root_size_def data_start_def tlast_def)
      (simp add: empty_hdd_def small_bpb_def)
qed

text \<open>An empty volume has room for a file of three bytes; the file of the witnesses is called A.\<close>

lemma plain_name_A: "plain_name [65]"
  by (simp add: plain_name_def needs_lfn_def) (code_simp)

lemma enough_plenty: "enough_memory plenty"
  by (simp add: enough_memory_def)

lemma no_files: "holds_files view c Map.empty"
  by (simp add: holds_files_def)

lemma empty_volume_room:
  assumes "root_dir view c = replicate 512 0" "clusters c = 6" "spc c = 1"
    and "\<And>k. k \<in> set (cluster_nums c) \<Longrightarrow> fent c (of_nat k) = Some 0"
  shows "room_for view c Map.empty n (length [7, 8, 9 :: u8])"
proof -
  have k: "length (root_dir view c) div 32 = Suc 15" unfolding assms(1) by simp
  have "existing_slot n (root_dir view c) = None" "has_free_slot (root_dir view c)"
    unfolding existing_slot_def has_free_slot_def k dir_find.simps free_run.simps by (simp_all add: assms(1))
  moreover have "filter (\<lambda>k. fent c (of_nat k) = Some 0 \<or> k \<in> {}) (cluster_nums c) = cluster_nums c"
    using assms(4) by (simp add: filter_id_conv)
  moreover have "clusters_needed c 3 = 1" "length (cluster_nums c) = 6"
    using assms(2,3) by (simp_all add: clusters_needed_def cluster_nums_def)
  moreover have "length [7, 8, 9 :: u8] = 3" by simp
  ultimately show ?thesis unfolding room_for_def by (simp only: old_clusters_def) simp
qed

lemma empty_hdd_room: "room_for (hdd_view ram_view) empty_hdd Map.empty n (length [7, 8, 9 :: u8])"
proof (rule empty_volume_room [OF _ empty_hdd_clusters])
  show "root_dir (hdd_view ram_view) empty_hdd = replicate 512 0"
    by (simp add: root_dir_def root_start_def root_size_def sect_def hdd_view_def ram_view_def empty_hdd_def small_bpb_def)
  show "spc empty_hdd = 1" by (simp add: spc_def empty_hdd_def small_bpb_def)
  fix k
  assume "k \<in> set (cluster_nums empty_hdd)"
  then have "k \<in> {2, 3, 4, 5, 6, 7}" by (auto simp: cluster_nums_def empty_hdd_clusters)
  then show "fent empty_hdd (of_nat k) = Some 0"
    by (auto simp: fent_def empty_hdd_def tget_def fat16_get_entry_def rd_at_def Let_def)
qed

definition new_year :: datetime where
  "new_year = \<lparr>dt_sec = 0, dt_min = 0, dt_hour = 0, dt_day = 1, dt_month = 1, dt_year = 2026\<rparr>"

lemma file_of_three: "[7, 8, 9 :: u8] \<noteq> []" "length [7, 8, 9 :: u8] \<le> file_max"
  by (simp_all add: file_max_def)


theorem fat_read_refines_lookup_witness:
  "\<exists>c c'. fat12_read_file_to_ram_ex (disk_sectors ram_ata plenty) plenty 0 [65] c = Some (Some ([7, 8, 9], 3), c')"
proof -
  obtain qs c where "hdd_volume ram_ata ram_view 0x80 c" "holds_files (hdd_view ram_view) c [fat12_to_83 [65] \<mapsto> ([7, 8, 9], qs)]"
    using hdd_fat.write_updates_files [where dt = new_year, OF empty_hdd_volume no_files plain_name_A enough_plenty file_of_three empty_hdd_room]
    by blast
  from fat_read_refines_lookup [OF this plain_name_A enough_plenty] show ?thesis by fastforce
qed

section \<open>Files on the boot floppy\<close>


definition empty_floppy :: "unit disk fat_ctx" where
  "empty_floppy = \<lparr>c_bpb = small_bpb 600, c_fat = Some (replicate 512 0), c_fat_lba = 600, c_root_lba = 601, c_root_sectors = 1,
     c_data_lba = 602, c_fat_type = 12, c_use_cache = False, c_cache = [], c_counter = 0, c_drive = 0, c_disk = blank_floppy\<rparr>"

lemma empty_floppy_clusters: "clusters empty_floppy = 6"
  by (simp add: clusters_def fat_volume_cluster_count_def bpb_data_sectors_def empty_floppy_def small_bpb_def Let_def)

lemma empty_floppy_volume: "floppy_volume stuck_bios (\<lambda>_ _. replicate 512 7) plenty 0 2880 0 0 empty_floppy"
proof -
  have s: "in_memory empty_floppy" "spc empty_floppy = 1" by (simp_all add: in_memory_def spc_def empty_floppy_def small_bpb_def)
  have g: "floppy_good 2880 0 0 (of_nat a)" if "a \<in> sector_range empty_floppy" for a
  proof -
    have a: "a \<in> {600..<608}"
      using that s(2) empty_floppy_clusters by (simp add: sector_range_def data_start_def root_start_def root_size_def) (simp add: empty_floppy_def small_bpb_def)
    then have "unat (of_nat a :: u32) = a" by (simp add: unat_of_nat)
    then show ?thesis using a
      by (auto simp: floppy_good_def disk_consts word_less_nat_alt word_le_nat_alt word_unat_eq_iff)
  qed
  show ?thesis
    using s empty_floppy_clusters g
    by (simp add: volume_def mounted_def root_start_def root_size_def data_start_def tlast_def)
      (simp add: empty_floppy_def small_bpb_def blank_floppy_sound)
qed

lemma empty_floppy_room: "room_for (floppy_view (\<lambda>_ _. replicate 512 7)) empty_floppy Map.empty n (length [7, 8, 9 :: u8])"
proof (rule empty_volume_room [OF _ empty_floppy_clusters])
  show "root_dir (floppy_view (\<lambda>_ _. replicate 512 7)) empty_floppy = replicate 512 0"
    by (simp add: root_dir_def root_start_def root_size_def sect_def floppy_view_def blank_floppy_def disk_consts empty_floppy_def small_bpb_def)
  show "spc empty_floppy = 1" by (simp add: spc_def empty_floppy_def small_bpb_def)
  fix k
  assume "k \<in> set (cluster_nums empty_floppy)"
  then have "k \<in> {2, 3, 4, 5, 6, 7}" by (auto simp: cluster_nums_def empty_floppy_clusters)
  then show "fent empty_floppy (of_nat k) = Some 0"
    by (auto simp: fent_def empty_floppy_def tget_def fat12_get_entry_def fat12_value_def rd_at_def Let_def)
qed


end
