(* ===== verification/Montgomery.thy ===== *)
theory Montgomery
  imports Prelude
begin

text \<open>
  The 2048-bit arithmetic of \<open>src/crypto.c\<close>: numbers as 64 limbs of 32 bits, least significant first,
  Montgomery multiplication and exponentiation. \<open>le_val\<close> and \<open>be_val\<close> are the numbers that limbs and bytes
  stand for; the theorems say what the routines compute on them.
\<close>

section \<open>The code\<close>

definition MONT_LIMBS :: nat where "MONT_LIMBS = 64"
definition RSA_KEY_SIZE :: nat where "RSA_KEY_SIZE = 256"

definition be256_to_le32 :: "u8 list \<Rightarrow> u32 list" where
  "be256_to_le32 be = map (\<lambda>i. let off = RSA_KEY_SIZE - 4 - i * 4
     in push_bit 24 (ucast (be ! off)) OR push_bit 16 (ucast (be ! (off + 1))) OR push_bit 8 (ucast (be ! (off + 2))) OR
        ucast (be ! (off + 3))) [0..<MONT_LIMBS]"

text \<open>The loop stores the bytes of limb \<open>i\<close> at \<open>252 - 4 i\<close>: the bytes of the limbs from the last to the
  first.\<close>

definition limb_bytes :: "u32 \<Rightarrow> u8 list" where
  "limb_bytes w = [ucast (drop_bit 24 w), ucast (drop_bit 16 w), ucast (drop_bit 8 w), ucast w]"

definition le32_to_be256 :: "u32 list \<Rightarrow> u8 list" where
  "le32_to_be256 le = concat (map limb_bytes (rev le))"

fun ge_from :: "nat \<Rightarrow> u32 list \<Rightarrow> u32 list \<Rightarrow> bool" where
  "ge_from 0 a b = True"
| "ge_from (Suc i) a b = (if a ! i > b ! i then True else if a ! i < b ! i then False else ge_from i a b)"

definition le32_ge :: "u32 list \<Rightarrow> u32 list \<Rightarrow> bool" where
  "le32_ge a b = ge_from MONT_LIMBS a b"

fun sub_row :: "u64 \<Rightarrow> u32 list \<Rightarrow> u32 list \<Rightarrow> u32 list" where
  "sub_row borrow (a # as) (b # bs) =
     (let d = ucast a - ucast b - borrow in ucast d # sub_row (drop_bit 63 d AND 1) as bs)"
| "sub_row borrow as bs = as"

definition le32_sub :: "u32 list \<Rightarrow> u32 list \<Rightarrow> u32 list" where
  "le32_sub a b = sub_row 0 a b"

fun newton :: "nat \<Rightarrow> u32 \<Rightarrow> u32 \<Rightarrow> u32" where
  "newton 0 n0 x = x"
| "newton (Suc k) n0 x = newton k n0 (ucast (ucast x * (2 - ucast n0 * ucast x) :: u64))"

definition mont_n0inv32 :: "u32 \<Rightarrow> u32" where
  "mont_n0inv32 n0 = 0 - newton 5 n0 1"

text \<open>One pass over the limbs: \<open>t += a * x\<close>, with the carry left at the end.\<close>

fun mac_row :: "u64 \<Rightarrow> u32 list \<Rightarrow> u32 list \<Rightarrow> u32 \<Rightarrow> u32 list \<times> u64" where
  "mac_row carry (t # ts) (a # as) x =
     (let uv = ucast t + ucast a * ucast x + carry;
          (ts', c) = mac_row (drop_bit 32 uv) ts as x
      in (ucast uv # ts', c))"
| "mac_row carry ts as x = (ts, carry)"

text \<open>One iteration of \<open>mont_mul_2048\<close>. The limb \<open>t[64]\<close> is overwritten with the carry of the first pass.\<close>

definition mont_round :: "u32 list \<Rightarrow> u32 \<Rightarrow> u32 list \<Rightarrow> u32 \<Rightarrow> u32 list \<Rightarrow> u32 list" where
  "mont_round n n0inv a bi t =
     (let (lo, carry) = mac_row 0 (take MONT_LIMBS t) a bi;
          top = ucast carry :: u32;
          m = ucast (ucast (lo ! 0) * ucast n0inv :: u64);
          (lo, carry) = mac_row 0 lo n m;
          uvn = ucast top + carry;
          top = ucast uvn;
          carry2 = ucast (drop_bit 32 uvn)
      in tl lo @ [top, carry2])"

definition mont_mul_2048 :: "u32 list \<Rightarrow> u32 \<Rightarrow> u32 list \<Rightarrow> u32 list \<Rightarrow> u32 list" where
  "mont_mul_2048 n n0inv a b =
     (let t = fold (mont_round n n0inv a) b (replicate (MONT_LIMBS + 1) 0);
          out = take MONT_LIMBS t
      in if le32_ge out n then le32_sub out n else out)"

text \<open>The exponent's bits from the most significant one.\<close>

definition mont_bit :: "u32 list \<Rightarrow> u32 \<Rightarrow> u32 list \<Rightarrow> bool \<Rightarrow> u32 list \<Rightarrow> u32 list" where
  "mont_bit n n0inv a b acc =
     (let acc = mont_mul_2048 n n0inv acc acc in if b then mont_mul_2048 n n0inv acc a else acc)"

definition byte_bits :: "u8 \<Rightarrow> bool list" where
  "byte_bits eb = map (\<lambda>i. eb AND push_bit i 1 \<noteq> 0) (rev [0..<8])"

text \<open>The exponentiation, once the context is there. Its buffers are written before they are read.\<close>

definition mont_modexp :: "u8 list \<Rightarrow> u8 list \<Rightarrow> u8 list \<Rightarrow> u8 list \<Rightarrow> u8 list" where
  "mont_modexp base_be exp_be mod_be r2_be =
     (let n = be256_to_le32 mod_be;
          r2 = be256_to_le32 r2_be;
          n0inv = mont_n0inv32 (n ! 0);
          one = (replicate MONT_LIMBS 0)[0 := 1];
          acc = mont_mul_2048 n n0inv one r2;
          a = mont_mul_2048 n n0inv (be256_to_le32 base_be) r2;
          acc = fold (mont_bit n n0inv a) (concat (map byte_bits exp_be)) acc
      in le32_to_be256 (mont_mul_2048 n n0inv acc one))"

section \<open>Numbers\<close>

fun le_val :: "u32 list \<Rightarrow> nat" where
  "le_val [] = 0"
| "le_val (x # xs) = unat x + 2 ^ 32 * le_val xs"

definition be_val :: "u8 list \<Rightarrow> nat" where
  "be_val bs = fold (\<lambda>b v. 256 * v + unat b) bs 0"

lemma le_val_append: "le_val (xs @ ys) = le_val xs + 2 ^ (32 * length xs) * le_val ys"
  by (induction xs) (simp_all add: power_add algebra_simps)

lemma le_val_less: "le_val xs < 2 ^ (32 * length xs)"
proof (induction xs)
  case (Cons x xs)
  have "unat x < 2 ^ 32" using unsigned_less [of x] by simp
  moreover have "2 ^ 32 * (le_val xs + 1) \<le> 2 ^ 32 * 2 ^ (32 * length xs)" using Cons by (intro mult_le_mono2) simp
  ultimately show ?case by (simp add: power_add algebra_simps)
qed simp

lemma le_val_zeros [simp]: "le_val (replicate k 0) = 0"
  by (induction k) simp_all

lemma unat_ucast_32_64 [simp]: "unat (ucast (w :: u32) :: u64) = unat w"
  by (simp add: unat_ucast_up)

lemma unat_ucast_64_32: "unat (ucast (w :: u64) :: u32) = unat w mod 2 ^ 32"
  by (simp add: unsigned_ucast_eq take_bit_eq_mod)

lemma word32_less: "unat (w :: u32) < 2 ^ 32"
  using unsigned_less [of w] by simp

section \<open>A pass over the limbs\<close>

lemma mac_step:
  fixes t a x :: u32 and carry :: u64
  assumes "unat carry < 2 ^ 32"
  defines "uv \<equiv> ucast t + ucast a * ucast x + carry :: u64"
  shows "unat uv = unat t + unat a * unat x + unat carry"
    "unat (ucast uv :: u32) + 2 ^ 32 * unat (drop_bit 32 uv) = unat uv" "unat (drop_bit 32 uv) < 2 ^ 32"
proof -
  have "unat a * unat x \<le> (2 ^ 32 - 1) * (2 ^ 32 - 1)" using word32_less [of a] word32_less [of x] by (intro mult_le_mono) simp_all
  then have "unat t + unat a * unat x + unat carry < 2 ^ 64" using assms(1) word32_less [of t] by simp
  then show "unat uv = unat t + unat a * unat x + unat carry"
    by (simp add: uv_def unat_word_ariths)
  have d: "unat (drop_bit 32 uv) = unat uv div 2 ^ 32" using unat_drop_bit_eq [of 32 uv] by (simp only: drop_bit_eq_div [of 32 "unat uv"])
  then show "unat (ucast uv :: u32) + 2 ^ 32 * unat (drop_bit 32 uv) = unat uv"
    using mod_mult_div_eq [of "unat uv" "2 ^ 32"] by (simp add: unat_ucast_64_32)
  have "unat uv < 2 ^ 32 * 2 ^ 32" using unsigned_less [of uv] by simp
  then show "unat (drop_bit 32 uv) < 2 ^ 32" unfolding d by (rule less_mult_imp_div_less)
qed

lemma mac_row_val:
  "length ts = length as \<Longrightarrow> unat carry < 2 ^ 32 \<Longrightarrow> mac_row carry ts as x = (r, c) \<Longrightarrow>
     length r = length ts \<and> unat c < 2 ^ 32 \<and>
     le_val r + 2 ^ (32 * length ts) * unat c = le_val ts + le_val as * unat x + unat carry"
proof (induction carry ts as x arbitrary: r c rule: mac_row.induct)
  case (1 carry t ts a as x)
  let ?uv = "ucast t + ucast a * ucast x + carry :: u64"
  obtain r' where r: "mac_row (drop_bit 32 ?uv) ts as x = (r', c)" "r = ucast ?uv # r'"
    using 1(4) by (auto simp: Let_def split: prod.splits)
  note s = mac_step [OF 1(3), of t a x]
  have i: "length r' = length ts" "unat c < 2 ^ 32"
    "le_val r' + 2 ^ (32 * length ts) * unat c = le_val ts + le_val as * unat x + unat (drop_bit 32 ?uv)"
    using 1(1) [OF refl _ s(3) r(1)] 1(2) by auto
  have "le_val r + 2 ^ (32 * length (t # ts)) * unat c =
      unat (ucast ?uv :: u32) + 2 ^ 32 * (le_val r' + 2 ^ (32 * length ts) * unat c)"
    unfolding r(2) by (simp add: power_add algebra_simps)
  also have "\<dots> = unat ?uv + 2 ^ 32 * (le_val ts + le_val as * unat x)"
    unfolding i(3) using s(2) by (simp only: distrib_left)
  also have "\<dots> = le_val (t # ts) + le_val (a # as) * unat x + unat carry"
    unfolding s(1) by (simp add: algebra_simps)
  finally show ?case using i r(2) by simp
qed auto

section \<open>One iteration\<close>

definition mont_R :: nat where "mont_R = 2 ^ (32 * 64)"

text \<open>The factor: \<open>n0inv\<close> is the negated inverse of the lowest limb, so adding \<open>m n\<close> clears the lowest
  limb of \<open>t\<close>.\<close>

lemma ucast_mult_64_32: "(ucast (ucast x * ucast y :: u64) :: u32) = x * y"
proof -
  have "unat x * unat y < 2 ^ 32 * 2 ^ 32" using word32_less [of x] word32_less [of y] by (intro mult_strict_mono) simp_all
  then have "unat (ucast x * ucast y :: u64) = unat x * unat y" by (simp add: unat_word_ariths)
  then show ?thesis by (simp add: word_unat_eq_iff unat_ucast_64_32 unat_word_ariths)
qed

lemma le_val_take64:
  assumes "length t = 65" "le_val t < mont_R"
  shows "le_val (take 64 t) = le_val t"
proof -
  have "t = take 64 t @ [t ! 64]" using assms(1) take_Suc_conv_app_nth [of 64 t] by simp
  then have "le_val t = le_val (take 64 t) + mont_R * unat (t ! 64)"
    using le_val_append [of "take 64 t" "[t ! 64]"] assms(1) by (simp add: mont_R_def)
  then show ?thesis using assms(2) by (cases "unat (t ! 64)") auto
qed

lemma mont_round_val:
  assumes n: "length n = 64" "n ! 0 * n0inv = - 1" and a: "length a = 64"
    and t: "length t = 65" "le_val t < mont_R"
  shows "length (mont_round n n0inv a bi t) = 65 \<and>
    (\<exists>m < 2 ^ 32. 2 ^ 32 * le_val (mont_round n n0inv a bi t) = le_val t + le_val a * unat bi + m * le_val n)"
proof -
  let ?t = "take 64 t"
  have tt: "t = ?t @ [t ! 64]" "length ?t = 64" using t(1) take_Suc_conv_app_nth [of 64 t] by simp_all
  have v: "le_val t = le_val ?t" using le_val_take64 [OF t] by simp
  obtain lo1 c1 where r1: "mac_row 0 ?t a bi = (lo1, c1)" by fastforce
  have 1: "length lo1 = 64" "unat c1 < 2 ^ 32" "le_val lo1 + mont_R * unat c1 = le_val t + le_val a * unat bi"
    using mac_row_val [OF _ _ r1] tt(2) a v by (auto simp: mont_R_def)
  define m where "m = lo1 ! 0 * n0inv"
  obtain lo2 c2 where r2: "mac_row 0 lo1 n m = (lo2, c2)" by fastforce
  have 2: "length lo2 = 64" "unat c2 < 2 ^ 32" "le_val lo2 + mont_R * unat c2 = le_val lo1 + le_val n * unat m"
    using mac_row_val [OF _ _ r2] 1(1) n(1) by (auto simp: mont_R_def)
  have z: "lo2 ! 0 = 0"
  proof -
    obtain x xs y ys where l: "lo1 = x # xs" "n = y # ys" using 1(1) n(1) by (cases lo1; cases n) auto
    have "lo2 ! 0 = ucast (ucast x + ucast y * ucast m :: u64)" using r2 l by (auto simp: Let_def split: prod.splits)
    also have "\<dots> = x + y * m"
      using mac_step(1) [of 0 x y m] by (simp add: word_unat_eq_iff unat_ucast_64_32 unat_word_ariths mod_add_right_eq)
    also have "\<dots> = x + x * (y * n0inv)" by (simp add: m_def l)
    also have "\<dots> = 0" using n(2) l by simp
    finally show ?thesis .
  qed
  let ?uvn = "ucast (ucast c1 :: u32) + c2 :: u64"
  let ?top = "[ucast ?uvn, ucast (drop_bit 32 ?uvn)] :: u32 list"
  have top: "le_val ?top = unat c1 + unat c2"
  proof -
    have c: "unat (ucast c1 :: u32) = unat c1" using 1(2) by (simp add: unat_ucast_64_32)
    have u: "unat ?uvn = unat c1 + unat c2" using c 1(2) 2(2) by (simp add: unat_word_ariths)
    have "unat ?uvn div 2 ^ 32 < 2 ^ 32" unfolding u using 1(2) 2(2) by simp
    then have "unat (ucast (drop_bit 32 ?uvn) :: u32) = unat ?uvn div 2 ^ 32"
      using unat_drop_bit_eq [of 32 ?uvn] unfolding unat_ucast_64_32 by (simp only: drop_bit_eq_div [of 32 "unat ?uvn"] mod_less)
    then show ?thesis using mod_mult_div_eq [of "unat ?uvn" "2 ^ 32"] by (simp add: unat_ucast_64_32 u)
  qed
  have res: "mont_round n n0inv a bi t = tl lo2 @ ?top"
    using r1 r2 ucast_mult_64_32 [of "lo1 ! 0" n0inv] by (simp add: mont_round_def MONT_LIMBS_def m_def Let_def)
  obtain zs where lo2: "lo2 = 0 # zs" "length zs = 63" using z 2(1) by (cases lo2) auto
  have "2 ^ 32 * le_val (tl lo2 @ ?top) = 2 ^ 32 * le_val zs + 2 ^ 32 * 2 ^ (32 * 63) * le_val ?top"
    using le_val_append [of zs ?top] lo2 by (simp only: list.sel) (simp only: distrib_left mult.assoc)
  also have "2 ^ 32 * 2 ^ (32 * 63) = mont_R" by (simp add: mont_R_def)
  also have "2 ^ 32 * le_val zs = le_val lo2" using lo2(1) by simp
  also have "le_val lo2 + mont_R * le_val ?top = (le_val lo2 + mont_R * unat c2) + mont_R * unat c1"
    unfolding top by (simp add: algebra_simps)
  also have "\<dots> = (le_val lo1 + mont_R * unat c1) + le_val n * unat m" unfolding 2(3) by simp
  also have "\<dots> = le_val t + le_val a * unat bi + unat m * le_val n" unfolding 1(3) by simp
  finally show ?thesis using word32_less [of m] lo2 unfolding res by auto
qed


section \<open>The product\<close>

lemma mont_round_less:
  assumes "length n = 64" "n ! 0 * n0inv = - 1" "length a = 64" "length t = 65"
    "le_val t < le_val n + le_val a" "le_val n + le_val a \<le> mont_R"
  shows "le_val (mont_round n n0inv a bi t) < le_val n + le_val a"
proof -
  obtain m where m: "m < 2 ^ 32" "2 ^ 32 * le_val (mont_round n n0inv a bi t) = le_val t + le_val a * unat bi + m * le_val n"
    using mont_round_val [of n n0inv a t bi] assms by auto
  have "le_val a * unat bi + le_val a \<le> 2 ^ 32 * le_val a" "m * le_val n + le_val n \<le> 2 ^ 32 * le_val n"
    using mult_le_mono2 [of "unat bi + 1" "2 ^ 32" "le_val a"] mult_le_mono1 [of "m + 1" "2 ^ 32" "le_val n"]
      word32_less [of bi] m(1) by (simp_all only: Suc_eq_plus1 [symmetric] Suc_leI) (simp_all add: mult.commute)
  then have "2 ^ 32 * le_val (mont_round n n0inv a bi t) < 2 ^ 32 * le_val n + 2 ^ 32 * le_val a"
    unfolding m(2) using assms(5) by linarith
  then show ?thesis by simp
qed

lemma mont_rounds_val:
  assumes "length n = 64" "n ! 0 * n0inv = - 1" "length a = 64" "le_val n + le_val a \<le> mont_R"
  shows "length t = 65 \<Longrightarrow> le_val t < le_val n + le_val a \<Longrightarrow>
    length (fold (mont_round n n0inv a) b t) = 65 \<and> le_val (fold (mont_round n n0inv a) b t) < le_val n + le_val a \<and>
    (\<exists>m. 2 ^ (32 * length b) * le_val (fold (mont_round n n0inv a) b t) = le_val t + le_val a * le_val b + m * le_val n)"
proof (induction b arbitrary: t)
  case (Cons x b)
  let ?t = "mont_round n n0inv a x t"
  obtain m where m: "2 ^ 32 * le_val ?t = le_val t + le_val a * unat x + m * le_val n" and l: "length ?t = 65"
    using mont_round_val [of n n0inv a t x] assms Cons.prems by auto
  note i = Cons.IH [OF l mont_round_less [OF assms(1-3) Cons.prems assms(4), of x]]
  then obtain k where k: "2 ^ (32 * length b) * le_val (fold (mont_round n n0inv a) b ?t) = le_val ?t + le_val a * le_val b + k * le_val n"
    by blast
  have "2 ^ (32 * length (x # b)) * le_val (fold (mont_round n n0inv a) (x # b) t) =
      2 ^ 32 * (2 ^ (32 * length b) * le_val (fold (mont_round n n0inv a) b ?t))"
    by (simp add: power_add mult.assoc)
  also have "\<dots> = 2 ^ 32 * le_val ?t + 2 ^ 32 * (le_val a * le_val b + k * le_val n)" unfolding k by (simp only: distrib_left add.assoc)
  also have "\<dots> = le_val t + le_val a * le_val (x # b) + (m + 2 ^ 32 * k) * le_val n" unfolding m by (simp add: algebra_simps)
  finally show ?case using i by auto
qed auto

lemma ge_from_le_val:
  "i \<le> length a \<Longrightarrow> i \<le> length b \<Longrightarrow> ge_from i a b \<longleftrightarrow> le_val (take i b) \<le> le_val (take i a)"
proof (induction i)
  case (Suc i)
  have split: "le_val (take (Suc i) xs) = le_val (take i xs) + 2 ^ (32 * i) * unat (xs ! i)" if "Suc i \<le> length xs" for xs
    using that le_val_append [of "take i xs" "[xs ! i]"] by (simp add: take_Suc_conv_app_nth min_absorb2)
  have lt: "le_val (take i xs) < 2 ^ (32 * i)" if "Suc i \<le> length xs" for xs
    using le_val_less [of "take i xs"] that by (simp add: min_absorb2)
  have less: "p + 2 ^ (32 * i) * x < q + 2 ^ (32 * i) * y" if "x < y" "p < 2 ^ (32 * i)" for p q x y :: nat
  proof -
    have "2 ^ (32 * i) * (x + 1) \<le> 2 ^ (32 * i) * y" using that(1) by (intro mult_le_mono2) simp
    then show ?thesis using that(2) by simp
  qed
  consider "a ! i > b ! i" | "a ! i < b ! i" | "a ! i = b ! i" by fastforce
  then show ?case
  proof cases
    case 1
    then show ?thesis using less [of "unat (b ! i)" "unat (a ! i)"] lt [of b] Suc.prems split [of a] split [of b]
      by (simp add: word_less_nat_alt less_imp_le)
  next
    case 2
    then have "\<not> a ! i > b ! i" by simp
    then show ?thesis using 2 less [of "unat (a ! i)" "unat (b ! i)"] lt [of a] Suc.prems split [of a] split [of b]
      by (simp add: word_less_nat_alt not_le)
  next
    case 3
    then show ?thesis using Suc split [of a] split [of b] by simp
  qed
qed simp

lemma int_diff_bounds:
  fixes a b c :: nat
  assumes "a < 2 ^ 32" "b < 2 ^ 32" "c \<le> 1"
  shows "- (2 ^ 32) \<le> int a - int b - int c" "int a - int b - int c < 2 ^ 32"
  using assms by simp_all

lemma borrow_step:
  fixes a b :: u32 and borrow :: u64
  assumes "unat borrow \<le> 1"
  defines "d \<equiv> ucast a - ucast b - borrow :: u64"
  shows "unat (ucast d :: u32) + unat b + unat borrow = unat a + 2 ^ 32 * unat (drop_bit 63 d AND 1)"
    "unat (drop_bit 63 d AND 1) \<le> 1"
proof -
  have "unat (drop_bit 63 d AND 1) = unat (drop_bit 63 d) mod 2"
    by (simp add: and_one_eq unat_mod)
  also have "unat (drop_bit 63 d) = unat d div 2 ^ 63"
    using unat_drop_bit_eq [of 63 d] by (simp only: drop_bit_eq_div [of 63 "unat d"])
  finally have c: "unat (drop_bit 63 d AND 1) = (unat d div 2 ^ 63) mod 2" .
  show "unat (drop_bit 63 d AND 1) \<le> 1" unfolding c by simp
  define z where "z = int (unat a) - int (unat b) - int (unat borrow)"
  have "int (unat d) = z mod 2 ^ 64"
    by (simp add: d_def z_def uint_word_ariths mod_diff_left_eq flip: unat_ucast_32_64)
  moreover have "z mod 2 ^ 64 = (if 0 \<le> z then z else z + 2 ^ 64)" "- (2 ^ 32) \<le> z" "z < 2 ^ 32"
  proof -
    show r: "- (2 ^ 32) \<le> z" "z < 2 ^ 32" using int_diff_bounds [OF word32_less [of a] word32_less [of b] assms(1)] unfolding z_def by simp_all
    have "(z + 2 ^ 64) mod 2 ^ 64 = z + 2 ^ 64" if "z < 0" using that r(1) by (intro mod_pos_pos_trivial) simp_all
    then show "z mod 2 ^ 64 = (if 0 \<le> z then z else z + 2 ^ 64)"
      using r(2) mod_add_self2 [of z "2 ^ 64"] by (auto intro: mod_pos_pos_trivial simp del: mod_add_self2)
  qed
  ultimately have d: "int (unat d) = (if 0 \<le> z then z else z + 2 ^ 64)" "- (2 ^ 32) \<le> z" "z < 2 ^ 32" by simp_all
  show "unat (ucast d :: u32) + unat b + unat borrow = unat a + 2 ^ 32 * unat (drop_bit 63 d AND 1)"
  proof (cases "0 \<le> z")
    case True
    then have i: "int (unat d) = z" using d(1) by (simp only: if_True)
    have "unat d + unat b + unat borrow = unat a" using i unfolding z_def by linarith
    moreover have "unat d < 2 ^ 32"
    proof -
      have "int (unat d) < int (2 ^ 32)" unfolding i using d(3) by simp
      then show ?thesis unfolding of_nat_less_iff .
    qed
    ultimately show ?thesis unfolding c unat_ucast_64_32 by simp
  next
    case False
    then have i: "int (unat d) = z + 2 ^ 64" using d(1) by (simp only: if_False)
    then have e: "unat d + unat b + unat borrow = unat a + 2 ^ 64"
    proof -
      have "int (unat d + unat b + unat borrow) = int (unat a + 2 ^ 64)"
        unfolding of_nat_add i z_def of_nat_power of_nat_numeral by linarith
      then show ?thesis unfolding of_nat_eq_iff .
    qed
    have g1: "2 ^ 64 - 2 ^ 32 \<le> unat d"
    proof -
      have "int (2 ^ 64 - 2 ^ 32) \<le> int (unat d)" unfolding i using d(2) by simp
      then show ?thesis unfolding of_nat_le_iff .
    qed
    have g2: "unat d < 2 ^ 64" using unsigned_less [of d] by simp
    note g = g1 g2
    have "unat d div 2 ^ 63 = 1" "unat d mod 2 ^ 32 = unat d - (2 ^ 64 - 2 ^ 32)"
    proof -
      show "unat d div 2 ^ 63 = 1" using g by (intro div_nat_eqI) simp_all
      have "unat d mod 2 ^ 32 = (unat d - (2 ^ 64 - 2 ^ 32) + 2 ^ 32 * (2 ^ 32 - 1)) mod 2 ^ 32" using g(1) by simp
      also have "\<dots> = (unat d - (2 ^ 64 - 2 ^ 32)) mod 2 ^ 32" by (rule mod_mult_self2)
      finally show "unat d mod 2 ^ 32 = unat d - (2 ^ 64 - 2 ^ 32)" using g by simp
    qed
    then show ?thesis unfolding c unat_ucast_64_32 using e g by simp
  qed
qed

lemma sub_row_val:
  "length as = length bs \<Longrightarrow> unat borrow \<le> 1 \<Longrightarrow> length (sub_row borrow as bs) = length as \<and>
     (\<exists>c. le_val (sub_row borrow as bs) + le_val bs + unat borrow = le_val as + 2 ^ (32 * length as) * c)"
proof (induction borrow as bs rule: sub_row.induct)
  case (1 borrow a as b bs)
  let ?d = "ucast a - ucast b - borrow :: u64"
  let ?c = "drop_bit 63 ?d AND 1 :: u64"
  have d: "unat (ucast ?d :: u32) + unat b + unat borrow = unat a + 2 ^ 32 * unat ?c" "unat ?c \<le> 1"
    using borrow_step [OF 1(3)] by simp_all
  then obtain c where c: "length (sub_row ?c as bs) = length as"
     "le_val (sub_row ?c as bs) + le_val bs + unat ?c = le_val as + 2 ^ (32 * length as) * c"
    using 1 by auto
  have "le_val (sub_row borrow (a # as) (b # bs)) + le_val (b # bs) + unat borrow + 2 ^ 32 * unat ?c =
     (unat (ucast ?d :: u32) + unat b + unat borrow) + 2 ^ 32 * (le_val (sub_row ?c as bs) + le_val bs + unat ?c)"
    by (simp add: Let_def algebra_simps)
  also have "\<dots> = le_val (a # as) + 2 ^ (32 * length (a # as)) * c + 2 ^ 32 * unat ?c"
    unfolding c(2) d(1) by (simp add: power_add algebra_simps)
  finally show ?case using c(1) by (auto simp: Let_def)
qed auto


lemma le32_sub_val:
  assumes "length a = 64" "length b = 64" "le_val b \<le> le_val a"
  shows "length (le32_sub a b) = 64 \<and> le_val (le32_sub a b) = le_val a - le_val b"
proof -
  obtain c where c: "length (le32_sub a b) = 64" "le_val (le32_sub a b) + le_val b = le_val a + mont_R * c"
    using sub_row_val [of a b 0] assms by (auto simp: le32_sub_def mont_R_def)
  have "le_val (le32_sub a b) < mont_R" using le_val_less [of "le32_sub a b"] c(1) by (simp add: mont_R_def)
  then have "c = 0" using c(2) assms(3) by (cases c) auto
  then show ?thesis using c by simp
qed

text \<open>What \<open>mont_mul_2048\<close> computes. The carry that the first pass overwrites is 0 because the sum of the modulus
  and the first factor stays below the radix.\<close>

lemma mont_mul_val:
  assumes n: "length n = 64" "n ! 0 * n0inv = - 1" and a: "length a = 64" and b: "length b = 64"
    and lt: "le_val a < le_val n" "2 * le_val n \<le> mont_R"
  shows "length (mont_mul_2048 n n0inv a b) = 64 \<and> le_val (mont_mul_2048 n n0inv a b) < le_val n \<and>
    (mont_R * le_val (mont_mul_2048 n n0inv a b)) mod le_val n = (le_val a * le_val b) mod le_val n"
proof -
  define t where "t = fold (mont_round n n0inv a) b (replicate 65 0)"
  have z: "le_val n + le_val a \<le> mont_R" "le_val (replicate 65 0) < le_val n + le_val a" "length (replicate 65 (0 :: u32)) = 65"
    using lt by simp_all
  obtain m where t: "length t = 65" "le_val t < le_val n + le_val a" "mont_R * le_val t = le_val a * le_val b + m * le_val n"
    using mont_rounds_val [OF n a z(1) z(3) z(2), of b] b unfolding t_def by (auto simp: mont_R_def)
  let ?o = "take 64 t"
  have o: "length ?o = 64" "le_val ?o = le_val t" using le_val_take64 [OF t(1)] t(1,2) z(1) by simp_all
  have ge: "le32_ge ?o n \<longleftrightarrow> le_val n \<le> le_val t"
    using ge_from_le_val [of 64 ?o n] o n(1) by (simp add: le32_ge_def MONT_LIMBS_def)
  have r: "mont_mul_2048 n n0inv a b = (if le_val n \<le> le_val t then le32_sub ?o n else ?o)"
    using ge by (simp add: mont_mul_2048_def t_def MONT_LIMBS_def Let_def)
  have v: "length (mont_mul_2048 n n0inv a b) = 64"
    "le_val (mont_mul_2048 n n0inv a b) = (if le_val n \<le> le_val t then le_val t - le_val n else le_val t)"
    using le32_sub_val [of ?o n] o n(1) unfolding r by auto
  have "(mont_R * le_val (mont_mul_2048 n n0inv a b)) mod le_val n = (mont_R * le_val t) mod le_val n"
  proof (cases "le_val n \<le> le_val t")
    case True
    then have "mont_R * le_val t = mont_R * le_val (mont_mul_2048 n n0inv a b) + mont_R * le_val n"
      using v(2) by (simp add: distrib_left [symmetric])
    then show ?thesis by simp
  qed (simp add: v(2))
  moreover have "le_val (mont_mul_2048 n n0inv a b) < le_val n" unfolding v(2) using t(2) lt(1) by auto
  ultimately show ?thesis using v(1) unfolding t(3) by simp
qed

section \<open>The inverse of the lowest limb\<close>

lemma down_ring:
  fixes p q :: u64
  shows "(ucast (p * q) :: u32) = ucast p * ucast q" "(ucast (p - q) :: u32) = ucast p - ucast q"
  by (simp_all add: word_uint_eq_iff uint_word_ariths unsigned_ucast_eq take_bit_eq_mod mod_mod_cancel mod_mult_eq mod_diff_eq)

lemma up_down: "(ucast (ucast w :: u64) :: u32) = w"
  using word32_less [of w] by (simp add: word_unat_eq_iff unat_ucast_64_32)

lemma newton_step: "ucast (ucast x * (2 - ucast n0 * ucast x) :: u64) = (x * (2 - n0 * x) :: u32)"
  unfolding down_ring by (simp add: up_down)

lemma newton_square: "1 - n0 * newton k n0 x = (1 - n0 * x) ^ 2 ^ k"
proof (induction k arbitrary: x)
  case (Suc k)
  have "1 - n0 * (x * (2 - n0 * x)) = (1 - n0 * x) ^ 2" by (simp add: power2_eq_square algebra_simps)
  then show ?case unfolding newton.simps newton_step Suc by (simp add: power_mult [symmetric])
qed simp

theorem mont_n0inv32_inverse:
  assumes "odd n0"
  shows "n0 * mont_n0inv32 n0 = - 1"
proof -
  obtain j where "n0 = 2 * j + 1" using assms by (rule oddE)
  then have "1 - n0 * newton 5 n0 1 = (2 * - j) ^ 32" unfolding newton_square by simp
  also have "\<dots> = 2 ^ 32 * (- j) ^ 32" by (rule power_mult_distrib)
  also have "(2 ^ 32 :: u32) = 0" using word_exp_length_eq_0 [where 'a = 32] by simp
  finally have "1 - n0 * newton 5 n0 1 = 0" by (simp only: mult_zero_left)
  then show ?thesis by (simp add: mont_n0inv32_def)
qed

lemma le_val_odd: "xs \<noteq> [] \<Longrightarrow> odd (le_val xs) \<longleftrightarrow> odd (xs ! 0)"
  by (cases xs) (simp_all add: bit_unsigned_iff flip: bit_0)

section \<open>Numbers and bytes\<close>


lemma be_val_append: "be_val (xs @ ys) = 256 ^ length ys * be_val xs + be_val ys"
proof -
  have "fold (\<lambda>b v. 256 * v + unat b) ys k = 256 ^ length ys * k + fold (\<lambda>b v. 256 * v + unat b) ys 0" for k
  proof (induction ys arbitrary: k)
    case (Cons y ys)
    show ?case using Cons [of "256 * k + unat y"] Cons [of "unat y"] by (simp add: algebra_simps)
  qed simp
  from this [of "be_val xs"] show ?thesis by (simp add: be_val_def)
qed

lemma be_val_single [simp]: "be_val [b] = unat b" "be_val [] = 0"
  by (simp_all add: be_val_def)

lemma byte_less: "unat (b :: u8) < 256"
  using unsigned_less [of b] by simp

lemma be_val_less: "be_val bs < 256 ^ length bs"
proof (induction bs rule: rev_induct)
  case (snoc b bs)
  have "256 * (be_val bs + 1) \<le> 256 * 256 ^ length bs" using snoc by (intro mult_le_mono2) simp
  then show ?case using byte_less [of b] by (simp add: be_val_append)
qed simp

lemma be_val_limb_bytes: "be_val (limb_bytes w) = unat w"
proof -
  have d: "unat (ucast (drop_bit k w) :: u8) = unat w div 2 ^ k mod 256" for k
    using unat_drop_bit_eq [of k w] by (simp only: unsigned_ucast_eq take_bit_eq_mod drop_bit_eq_div [of k "unat w"]) simp
  have "unat w div 2 ^ 24 < 256" using word32_less [of w] by (intro less_mult_imp_div_less) simp
  then have "be_val (limb_bytes w) =
      ((unat w div 256 div 256 div 256 * 256 + unat w div 256 div 256 mod 256) * 256 + unat w div 256 mod 256) * 256 + unat w mod 256"
    using d [of 24] d [of 16] d [of 8] d [of 0] by (simp add: be_val_def limb_bytes_def div_mult2_eq [symmetric])
  then show ?thesis unfolding div_mult_mod_eq .
qed

lemma le32_to_be256_val: "be_val (le32_to_be256 le) = le_val le"
proof (induction le)
  case (Cons w le)
  then show ?case
    by (simp add: le32_to_be256_def be_val_append be_val_limb_bytes) (simp add: limb_bytes_def)
qed (simp add: le32_to_be256_def)

lemma le32_to_be256_length: "length le = 64 \<Longrightarrow> length (le32_to_be256 le) = 256"
  by (simp add: le32_to_be256_def length_concat comp_def limb_bytes_def sum_list_triv)

lemma byte_high: "8 \<le> k \<Longrightarrow> \<not> bit (b :: u8) k"
  using bit_imp_le_length [of b k] by auto

lemma limb_bytes_or:
  "limb_bytes (push_bit 24 (ucast a) OR push_bit 16 (ucast b) OR push_bit 8 (ucast c) OR ucast d) = [a, b, c, d]"
  by (auto simp: limb_bytes_def bit_simps byte_high intro!: bit_eqI)

lemma drop_four:
  assumes "j + 3 < length xs"
  shows "drop j xs = [xs ! j, xs ! (j + 1), xs ! (j + 2), xs ! (j + 3)] @ drop (j + 4) xs"
proof -
  have e: "j + 1 = Suc j" "j + 2 = Suc (Suc j)" "j + 3 = Suc (Suc (Suc j))" "j + 4 = Suc (Suc (Suc (Suc j)))" by simp_all
  show ?thesis using assms unfolding e by (simp add: Cons_nth_drop_Suc)
qed

lemma be256_to_le32_val:
  assumes "length be = 256"
  shows "length (be256_to_le32 be) = 64" "le_val (be256_to_le32 be) = be_val be"
proof -
  show "length (be256_to_le32 be) = 64" by (simp add: be256_to_le32_def MONT_LIMBS_def)
  define f :: "nat \<Rightarrow> u32" where "f = (\<lambda>i. let off = 252 - i * 4
     in push_bit 24 (ucast (be ! off)) OR push_bit 16 (ucast (be ! (off + 1))) OR push_bit 8 (ucast (be ! (off + 2))) OR
        ucast (be ! (off + 3)))"
  have f: "unat (f i) = be_val [be ! (252 - i * 4), be ! (252 - i * 4 + 1), be ! (252 - i * 4 + 2), be ! (252 - i * 4 + 3)]" for i
    using be_val_limb_bytes [of "f i"] by (simp only: f_def Let_def limb_bytes_or)
  have "k \<le> 64 \<Longrightarrow> le_val (map f [0..<k]) = be_val (drop (256 - 4 * k) be)" for k
  proof (induction k)
    case 0
    then show ?case using assms by simp
  next
    case (Suc k)
    define j where "j = 252 - 4 * k"
    have j: "256 - 4 * Suc k = j" "256 - 4 * k = j + 4" "j + 3 < 256" using Suc.prems by (simp_all add: j_def)
    have "drop j be = [be ! j, be ! (j + 1), be ! (j + 2), be ! (j + 3)] @ drop (j + 4) be"
      using drop_four [of j be] j(3) assms by simp
    moreover have "length (drop (j + 4) be) = 4 * k" using assms Suc.prems by (simp_all add: j_def)
    ultimately have "be_val (drop j be) = 256 ^ (4 * k) * unat (f k) + be_val (drop (j + 4) be)"
      unfolding f j_def [symmetric] mult.commute [of k 4] by (simp only: be_val_append)
    also have "(256 :: nat) ^ (4 * k) = 2 ^ (32 * k)" by (simp add: power_mult)
    finally show ?case using Suc j le_val_append [of "map f [0..<k]" "[f k]"] by simp
  qed
  from this [of 64] show "le_val (be256_to_le32 be) = be_val be"
    by (simp add: be256_to_le32_def f_def MONT_LIMBS_def RSA_KEY_SIZE_def)
qed


section \<open>Exponentiation\<close>

text \<open>The limbs \<open>xs\<close> stand for \<open>x\<close> in the Montgomery domain of the modulus \<open>n\<close>.\<close>

definition mont_rep :: "u32 list \<Rightarrow> u32 list \<Rightarrow> nat \<Rightarrow> bool" where
  "mont_rep n xs x \<longleftrightarrow> length xs = 64 \<and> le_val xs < le_val n \<and> le_val xs mod le_val n = (x * mont_R) mod le_val n"

lemma mont_R_coprime:
  assumes "odd N"
  shows "(a * mont_R) mod N = (b * mont_R) mod N \<longleftrightarrow> a mod N = b mod N"
proof -
  have c: "coprime (int N) (int mont_R)" 
    unfolding mont_R_def of_nat_power of_nat_numeral using assms by (intro coprime_power_right_iff [THEN iffD2] disjI1) simp
  have e: "(x mod N = y mod N) \<longleftrightarrow> int N dvd int x - int y" for x y
    by (metis mod_eq_dvd_iff of_nat_eq_iff zmod_int)
  have "int (a * mont_R) - int (b * mont_R) = (int a - int b) * int mont_R" by (simp add: left_diff_distrib)
  then show ?thesis unfolding e using c by (simp add: coprime_dvd_mult_left_iff)
qed

definition mont_modulus :: "u32 list \<Rightarrow> u32 \<Rightarrow> bool" where
  "mont_modulus n n0inv \<longleftrightarrow> length n = 64 \<and> n ! 0 * n0inv = - 1 \<and> odd (le_val n) \<and> 2 * le_val n \<le> mont_R"

lemma mont_rep_mul:
  assumes "mont_modulus n n0inv" "mont_rep n xs x" "mont_rep n ys y"
  shows "mont_rep n (mont_mul_2048 n n0inv xs ys) (x * y)"
proof -
  let ?r = "mont_mul_2048 n n0inv xs ys" and ?N = "le_val n"
  have r: "length ?r = 64" "le_val ?r < ?N" "(mont_R * le_val ?r) mod ?N = (le_val xs * le_val ys) mod ?N"
    using mont_mul_val [of n n0inv xs ys] assms by (simp_all add: mont_modulus_def mont_rep_def)
  have "(le_val ?r * mont_R) mod ?N = ((le_val xs mod ?N) * (le_val ys mod ?N)) mod ?N"
    using r(3) by (simp add: mult.commute mod_mult_eq)
  also have "\<dots> = ((x * mont_R) * (y * mont_R)) mod ?N"
    using assms(2,3) by (simp add: mont_rep_def mod_mult_eq del: mod_less)
  also have "(x * mont_R) * (y * mont_R) = (x * y * mont_R) * mont_R" by (simp only: ac_simps)
  finally have "le_val ?r mod ?N = (x * y * mont_R) mod ?N"
    using assms(1) unfolding mont_modulus_def by (simp add: mont_R_coprime)
  then show ?thesis using r(1,2) by (simp add: mont_rep_def)
qed

text \<open>Into the domain, by a multiplication with \<open>R^2\<close>, and out of it, by one with 1.\<close>

lemma mont_rep_enter:
  assumes "mont_modulus n n0inv" "length xs = 64" "le_val xs < le_val n" "length r2 = 64"
    "le_val r2 mod le_val n = (mont_R * mont_R) mod le_val n"
  shows "mont_rep n (mont_mul_2048 n n0inv xs r2) (le_val xs)"
proof -
  let ?r = "mont_mul_2048 n n0inv xs r2" and ?N = "le_val n"
  have r: "length ?r = 64" "le_val ?r < ?N" "(mont_R * le_val ?r) mod ?N = (le_val xs * le_val r2) mod ?N"
    using mont_mul_val [of n n0inv xs r2] assms by (simp_all add: mont_modulus_def)
  have "(le_val ?r * mont_R) mod ?N = (le_val xs * (le_val r2 mod ?N)) mod ?N"
    using r(3) by (simp add: mult.commute mod_mult_right_eq)
  also have "\<dots> = (le_val xs * mont_R * mont_R) mod ?N" unfolding assms(5) by (simp add: mod_mult_right_eq mult.assoc)
  finally have "le_val ?r mod ?N = (le_val xs * mont_R) mod ?N"
    using assms(1) unfolding mont_modulus_def by (simp add: mont_R_coprime)
  then show ?thesis using r(1,2) by (simp add: mont_rep_def)
qed

lemma mont_rep_leave:
  assumes "mont_modulus n n0inv" "mont_rep n xs x" "length one = 64" "le_val one = 1"
  shows "length (mont_mul_2048 n n0inv xs one) = 64" "le_val (mont_mul_2048 n n0inv xs one) = x mod le_val n"
proof -
  let ?r = "mont_mul_2048 n n0inv xs one" and ?N = "le_val n"
  have r: "length ?r = 64" "le_val ?r < ?N" "(mont_R * le_val ?r) mod ?N = (le_val xs * le_val one) mod ?N"
    using mont_mul_val [of n n0inv xs one] assms by (simp_all add: mont_modulus_def mont_rep_def del: mod_less)
  show "length ?r = 64" by (rule r)
  have "(le_val ?r * mont_R) mod ?N = (x * mont_R) mod ?N" 
    using r(3) assms(2) unfolding assms(4) mont_rep_def by (simp only: mult_1_right mult.commute [of mont_R])
  then have "le_val ?r mod ?N = x mod ?N" using assms(1) unfolding mont_modulus_def by (simp add: mont_R_coprime)
  then show "le_val ?r = x mod ?N" using r(2) by simp
qed

definition bits_val :: "bool list \<Rightarrow> nat \<Rightarrow> nat" where
  "bits_val bs v = fold (\<lambda>b v. 2 * v + of_bool b) bs v"

lemma mont_bits:
  assumes "mont_modulus n n0inv" "mont_rep n a x"
  shows "mont_rep n acc (x ^ v) \<Longrightarrow> mont_rep n (fold (mont_bit n n0inv a) bs acc) (x ^ bits_val bs v)"
proof (induction bs arbitrary: acc v)
  case (Cons b bs)
  have s: "mont_rep n (mont_mul_2048 n n0inv acc acc) (x ^ (2 * v))"
    using mont_rep_mul [OF assms(1) Cons.prems Cons.prems] by (simp add: mult_2 power_add)
  have "mont_rep n (mont_bit n n0inv a b acc) (x ^ (2 * v + of_bool b))"
    using s mont_rep_mul [OF assms(1) s assms(2)] by (simp add: mont_bit_def Let_def mult.commute)
  then show ?case using Cons.IH by (simp add: bits_val_def)
qed (simp add: bits_val_def)

lemma byte_bits_val: "bits_val (byte_bits b) v = 256 * v + unat b"
proof -
  have "bits_val (map f (rev [0..<k])) v = 2 ^ k * v + horner_sum of_bool 2 (map f [0..<k])" for f :: "nat \<Rightarrow> bool" and k
  proof (induction k arbitrary: v)
    case (Suc k)
    have "horner_sum of_bool (2 :: nat) (map f [0..<Suc k]) = horner_sum of_bool 2 (map f [0..<k]) + 2 ^ k * of_bool (f k)"
      by (simp add: horner_sum_append)
    then show ?case using Suc [of "2 * v + of_bool (f k)"] by (simp add: bits_val_def algebra_simps)
  qed (simp add: bits_val_def)
  moreover have "byte_bits b = map (bit (unat b)) (rev [0..<8])"
    unfolding byte_bits_def
    by (intro map_cong refl) (subst bit_iff_and_push_bit_not_eq_0 [symmetric], simp add: bit_unsigned_iff)
  moreover have "take_bit 8 (unat b) = unat b" using byte_less [of b] by (simp add: take_bit_nat_eq_self)
  ultimately show ?thesis by (simp only: horner_sum_bit_eq_take_bit) simp
qed

lemma bytes_bits_val: "bits_val (concat (map byte_bits bs)) v = 256 ^ length bs * v + be_val bs"
proof (induction bs arbitrary: v)
  case (Cons b bs)
  have "bits_val (concat (map byte_bits (b # bs))) v = bits_val (concat (map byte_bits bs)) (bits_val (byte_bits b) v)"
    by (simp add: bits_val_def)
  then show ?case unfolding Cons byte_bits_val using be_val_append [of "[b]" bs] by (simp add: algebra_simps)
qed (simp add: bits_val_def)

theorem mont_modexp_val:
  assumes "length base = 256" "length m = 256" "length r2 = 256"
    and "odd (be_val m)" "1 < be_val m" "2 * be_val m \<le> 2 ^ 2048" "be_val base < be_val m"
    and "be_val r2 mod be_val m = 2 ^ 4096 mod be_val m"
  shows "length (mont_modexp base e m r2) = 256 \<and>
    be_val (mont_modexp base e m r2) = be_val base ^ be_val e mod be_val m"
proof -
  let ?n = "be256_to_le32 m" and ?r = "be256_to_le32 r2" and ?b = "be256_to_le32 base"
  let ?i = "mont_n0inv32 (?n ! 0)" and ?one = "(replicate MONT_LIMBS 0)[0 := 1] :: u32 list"
  note v = be256_to_le32_val [OF assms(1)] be256_to_le32_val [OF assms(2)] be256_to_le32_val [OF assms(3)]
  have R: "mont_R = 2 ^ 2048" "mont_R * mont_R = 2 ^ 4096" 
    unfolding mont_R_def power_add [symmetric] by (rule arg_cong [where f = "(^) 2"], simp)+
  have "?n \<noteq> []" using v(3) by (metis list.size(3) zero_neq_numeral)
  from le_val_odd [OF this] have "odd (?n ! 0)" using assms(4) unfolding v(4) by blast
  then have "?n ! 0 * ?i = - 1" by (rule mont_n0inv32_inverse)
  then have M: "mont_modulus ?n ?i"
    unfolding mont_modulus_def R(1) v(4) by (intro conjI v(3) assms(4,6))
  have one: "length ?one = 64" "le_val ?one = 1"
    using le_val_zeros [of 63] replicate_Suc [of 63 "0 :: u32"] by (simp_all add: MONT_LIMBS_def del: replicate.simps)
  have r2: "le_val ?r mod le_val ?n = (mont_R * mont_R) mod le_val ?n" unfolding R(2) v by (rule assms(8))
  have "mont_rep ?n (mont_mul_2048 ?n ?i ?one ?r) (le_val ?b ^ 0)"
    using mont_rep_enter [OF M one(1) _ v(5) r2] one(2) v assms(5) by simp
  moreover have a: "mont_rep ?n (mont_mul_2048 ?n ?i ?b ?r) (le_val ?b)"
    using mont_rep_enter [OF M v(1) _ v(5) r2] v assms(7) by simp
  ultimately have "mont_rep ?n (fold (mont_bit ?n ?i (mont_mul_2048 ?n ?i ?b ?r)) (concat (map byte_bits e))
      (mont_mul_2048 ?n ?i ?one ?r)) (le_val ?b ^ be_val e)"
    using mont_bits [OF M a, of _ 0 "concat (map byte_bits e)"] by (simp add: bytes_bits_val)
  from mont_rep_leave [OF M this one] show ?thesis
    by (simp add: mont_modexp_def Let_def le32_to_be256_val le32_to_be256_length v)
qed


end
