(* ===== verification/Bigint.thy ===== *)
theory Bigint
  imports Montgomery
begin

text \<open>
  The byte-wise 2048-bit arithmetic of \<open>src/crypto.c\<close> behind the Diffie-Hellman exchange: numbers are arrays of
  256 bytes, most significant first. The loops run from the last byte to the first, so the model walks the
  reversed arrays.
\<close>

section \<open>The code\<close>

fun add_row :: "u16 \<Rightarrow> u8 list \<Rightarrow> u8 list \<Rightarrow> u8 list" where
  "add_row carry (a # as) (b # bs) =
     (let sum = ucast a + ucast b + carry in ucast (sum AND 0xFF) # add_row (drop_bit 8 sum) as bs)"
| "add_row carry as bs = []"

definition bigint_add :: "u8 list \<Rightarrow> u8 list \<Rightarrow> u8 list" where
  "bigint_add a b = rev (add_row 0 (rev a) (rev b))"

text \<open>\<open>diff\<close> is a signed 16-bit number between -256 and 255, so an integer. The row also says whether a borrow
  is left.\<close>

fun diff_row :: "bool \<Rightarrow> u8 list \<Rightarrow> u8 list \<Rightarrow> u8 list \<times> bool" where
  "diff_row borrow (a # as) (b # bs) =
     (let diff = uint a - uint b - of_bool borrow;
          borrow = (diff < 0);
          diff = (if borrow then diff + 256 else diff);
          (r, borrow) = diff_row borrow as bs
      in (word_of_int diff # r, borrow))"
| "diff_row borrow as bs = ([], borrow)"

definition bigint_sub :: "u8 list \<Rightarrow> u8 list \<Rightarrow> u8 list" where
  "bigint_sub a b = rev (fst (diff_row False (rev a) (rev b)))"

fun bigint_cmp :: "u8 list \<Rightarrow> u8 list \<Rightarrow> int" where
  "bigint_cmp (a # as) (b # bs) = (if a < b then - 1 else if a > b then 1 else bigint_cmp as bs)"
| "bigint_cmp as bs = 0"

definition bigint_is_zero :: "u8 list \<Rightarrow> bool" where
  "bigint_is_zero a = list_all (\<lambda>x. x = 0) a"

fun shl_row :: "u8 \<Rightarrow> u8 list \<Rightarrow> u8 list" where
  "shl_row carry (a # as) =
     (let val = push_bit 1 (ucast a) OR ucast carry :: u16
      in ucast (val AND 0xFF) # shl_row (ucast (drop_bit 8 val AND 1)) as)"
| "shl_row carry [] = []"

definition bigint_shl1 :: "u8 list \<Rightarrow> u8 \<times> u8 list" where
  "bigint_shl1 a = (drop_bit 7 (a ! 0) AND 1, rev (shl_row 0 (rev a)))"

fun shr_row :: "u8 \<Rightarrow> u8 list \<Rightarrow> u8 list" where
  "shr_row carry (a # as) =
     (let val = ucast a OR push_bit 8 (ucast carry) :: u16
      in ucast (drop_bit 1 val AND 0xFF) # shr_row (ucast (val AND 1)) as)"
| "shr_row carry [] = []"

definition bigint_shr1 :: "u8 list \<Rightarrow> u8 list" where
  "bigint_shr1 a = rev (shr_row 0 (rev a))"

text \<open>A row of the product: \<open>result += x * b\<close> from the position of \<open>x\<close> on, then the carry.\<close>

fun mul_row :: "u16 \<Rightarrow> u8 \<Rightarrow> u8 list \<Rightarrow> u8 list \<Rightarrow> u8 list \<times> u16" where
  "mul_row carry x (b # bs) (r # rs) =
     (let prod = ucast x * ucast b + ucast r + ucast carry :: u32;
          (rs, c) = mul_row (ucast (drop_bit 8 prod)) x bs rs
      in (ucast (prod AND 0xFF) # rs, c))"
| "mul_row carry x bs rs = ([], carry)"

fun carry_up :: "u16 \<Rightarrow> u8 list \<Rightarrow> u8 list" where
  "carry_up carry (r # rs) =
     (if carry > 0 then
        let sum = ucast r + ucast carry :: u32
        in ucast (sum AND 0xFF) # carry_up (ucast (drop_bit 8 sum)) rs
      else r # rs)"
| "carry_up carry [] = []"

text \<open>Once its row is done a byte of the result is not touched again.\<close>

fun mul_rows :: "u8 list \<Rightarrow> u8 list \<Rightarrow> u8 list \<Rightarrow> u8 list" where
  "mul_rows (x # as) b r =
     (let (lo, carry) = mul_row 0 x b r;
          r = lo @ carry_up carry (drop (length b) r)
      in hd r # mul_rows as b (tl r))"
| "mul_rows [] b r = r"

definition bigint_mul :: "u8 list \<Rightarrow> u8 list \<Rightarrow> u8 list" where
  "bigint_mul a b = rev (mul_rows (rev a) (rev b) (replicate (RSA_KEY_SIZE * 2) 0))"

fun sub_loop :: "nat \<Rightarrow> u8 list \<Rightarrow> u8 list \<Rightarrow> u8 list" where
  "sub_loop 0 n r = r"
| "sub_loop (Suc k) n r = (if bigint_cmp r n \<ge> 0 then sub_loop k n (bigint_sub r n) else r)"

text \<open>One bit of the slow path of \<open>bigint_mod\<close>: the remainder has an extra byte at the front.\<close>

definition rem_bit :: "u8 list \<Rightarrow> bool \<Rightarrow> u8 list \<Rightarrow> u8 list" where
  "rem_bit n b rem =
     (let rem = rev (shl_row 0 (rev rem));
          rem = (if b then rem[RSA_KEY_SIZE := rem ! RSA_KEY_SIZE OR 1] else rem);
          ge_n = (if rem ! 0 \<noteq> 0 then True else bigint_cmp (tl rem) n \<ge> 0)
      in if ge_n then
           let (low, borrow) = diff_row False (rev (tl rem)) (rev n)
           in (if borrow then (if rem ! 0 > 0 then rem ! 0 - 1 else 0) else rem ! 0) # rev low
         else rem)"

definition msb_bits :: "u8 \<Rightarrow> bool list" where
  "msb_bits byte = map (\<lambda>i. drop_bit i byte AND 1 \<noteq> 0) (rev [0..<8])"

definition bigint_mod :: "u8 list \<Rightarrow> u8 list \<Rightarrow> u8 list" where
  "bigint_mod a n =
     (if list_all (\<lambda>x. x = 0) (take RSA_KEY_SIZE a) then sub_loop 1000 n (drop RSA_KEY_SIZE a)
      else
        let start_byte = (case first_idx (\<lambda>x. x \<noteq> 0) a of Some i \<Rightarrow> i | None \<Rightarrow> 0);
            rem = fold (rem_bit n) (concat (map msb_bits (drop start_byte a))) (replicate (RSA_KEY_SIZE + 1) 0)
        in sub_loop 10 n (tl rem))"

definition is_one :: "u8 list \<Rightarrow> bool" where
  "is_one a = (list_all (\<lambda>x. x = 0) (butlast a) \<and> last a = 1)"

definition big_one :: "u8 list" where
  "big_one = replicate (RSA_KEY_SIZE - 1) 0 @ [1]"

definition bigint_mod_mul :: "u8 list \<Rightarrow> u8 list \<Rightarrow> u8 list \<Rightarrow> u8 list" where
  "bigint_mod_mul a b n =
     (if is_one a \<and> is_one b then big_one
      else if is_one a then bigint_mod (replicate RSA_KEY_SIZE 0 @ b) n
      else if is_one b then bigint_mod (replicate RSA_KEY_SIZE 0 @ a) n
      else
        let product = bigint_mul a b
        in if is_one product then big_one else bigint_mod product n)"

definition exp_bit :: "u8 list \<Rightarrow> u8 list \<Rightarrow> bool \<Rightarrow> u8 list \<Rightarrow> u8 list" where
  "exp_bit m base b result =
     (let result = bigint_mod_mul result result m in if b then bigint_mod_mul result base m else result)"

text \<open>\<open>mem\<close>: whether the buffer for the reduced base is granted.\<close>

definition bigint_mod_exp :: "bool \<Rightarrow> u8 list \<Rightarrow> u8 list \<Rightarrow> u8 list \<Rightarrow> u8 list" where
  "bigint_mod_exp mem base exp m =
     (if \<not> mem then big_one
      else
        let base_reduced = bigint_mod (replicate RSA_KEY_SIZE 0 @ base) m
        in if bigint_is_zero base_reduced then big_one
           else if bigint_is_zero exp then big_one
           else fold (exp_bit m base_reduced) (concat (map byte_bits exp)) big_one)"

section \<open>Values\<close>


text \<open>The value of a reversed array.\<close>

fun le8 :: "u8 list \<Rightarrow> nat" where
  "le8 [] = 0"
| "le8 (x # xs) = unat x + 256 * le8 xs"

lemma le8_rev: "le8 xs = be_val (rev xs)"
  by (induction xs) (simp_all add: be_val_append)

lemma be_val_rev: "be_val xs = le8 (rev xs)"
  by (simp add: le8_rev)

lemma le8_append: "le8 (xs @ ys) = le8 xs + 256 ^ length xs * le8 ys"
  by (induction xs) (simp_all add: algebra_simps)

lemma le8_less: "le8 xs < 256 ^ length xs"
  using be_val_less [of "rev xs"] by (simp add: le8_rev)

lemma le8_zeros [simp]: "le8 (replicate k 0) = 0"
  by (induction k) simp_all

lemma be_val_zeros: "be_val (replicate k 0 @ xs) = be_val xs"
  by (simp add: be_val_rev le8_append)

lemma be_val_zero_iff: "be_val xs = 0 \<longleftrightarrow> list_all (\<lambda>x. x = 0) xs"
proof -
  have "le8 xs = 0 \<longleftrightarrow> list_all (\<lambda>x. x = 0) xs" for xs
    by (induction xs) (auto simp: unat_eq_zero)
  then show ?thesis by (simp add: be_val_rev)
qed

lemma be_val_Cons: "be_val (x # xs) = unat x * 256 ^ length xs + be_val xs"
  using be_val_append [of "[x]" xs] by simp

lemma be_val_all_zeros [simp]: "be_val (replicate k 0) = 0"
  using be_val_zeros [of k "[]"] by simp

section \<open>Addition, subtraction and comparison\<close>

lemma unat_low_byte: "unat (ucast ((w :: u32) AND 0xFF) :: u8) = unat w mod 256" "unat (ucast ((v :: u16) AND 0xFF) :: u8) = unat v mod 256"
proof -
  have "(w AND 0xFF) = take_bit 8 w" for w :: u32 by (simp add: take_bit_eq_mask mask_eq_exp_minus_1)
  moreover have "(v AND 0xFF) = take_bit 8 v" for v :: u16 by (simp add: take_bit_eq_mask mask_eq_exp_minus_1)
  ultimately show "unat (ucast ((w :: u32) AND 0xFF) :: u8) = unat w mod 256" "unat (ucast ((v :: u16) AND 0xFF) :: u8) = unat v mod 256"
    by (simp_all add: unsigned_ucast_eq take_bit_eq_mod unat_mod)
qed

lemma unat_high_byte: "unat (ucast (drop_bit 8 (w :: u32)) :: u16) = unat w div 256 mod 2 ^ 16" "unat (drop_bit 8 (v :: u16)) = unat v div 256"
  using unat_drop_bit_eq [of 8 w] unat_drop_bit_eq [of 8 v]
  by (simp_all only: unsigned_ucast_eq take_bit_eq_mod drop_bit_eq_div [of 8 "unat w"] drop_bit_eq_div [of 8 "unat v"]) simp_all

lemma unat_ucast_8 [simp]: "unat (ucast (b :: u8) :: u16) = unat b" "unat (ucast (b :: u8) :: u32) = unat b"
  "unat (ucast (c :: u16) :: u32) = unat c"
  by (simp_all add: unat_ucast_up)

lemma add_row_val:
  "length as = length bs \<Longrightarrow> unat carry \<le> 1 \<Longrightarrow> length (add_row carry as bs) = length as \<and>
     (\<exists>c. le8 as + le8 bs + unat carry = le8 (add_row carry as bs) + 256 ^ length as * c)"
proof (induction carry as bs rule: add_row.induct)
  case (1 carry a as b bs)
  let ?s = "ucast a + ucast b + carry :: u16"
  have s: "unat ?s = unat a + unat b + unat carry"
    using byte_less [of a] byte_less [of b] 1(3) by (simp add: unat_word_ariths)
  have h: "unat (drop_bit 8 ?s) = (unat a + unat b + unat carry) div 256" unfolding unat_high_byte(2) s by (rule refl)
  then have "unat (drop_bit 8 ?s) \<le> 1" using byte_less [of a] byte_less [of b] 1(3) by simp
  then obtain c where c: "length (add_row (drop_bit 8 ?s) as bs) = length as"
      "le8 as + le8 bs + unat (drop_bit 8 ?s) = le8 (add_row (drop_bit 8 ?s) as bs) + 256 ^ length as * c"
    using 1 by auto
  have "le8 (a # as) + le8 (b # bs) + unat carry = (unat a + unat b + unat carry) mod 256 +
      256 * (le8 as + le8 bs + (unat a + unat b + unat carry) div 256)"
    using mod_mult_div_eq [of "unat a + unat b + unat carry" 256] by (simp add: algebra_simps)
  also have "\<dots> = (unat a + unat b + unat carry) mod 256 + 256 * (le8 (add_row (drop_bit 8 ?s) as bs) + 256 ^ length as * c)"
    using c(2) unfolding h by simp
  finally have "le8 (a # as) + le8 (b # bs) + unat carry = le8 (add_row carry (a # as) (b # bs)) + 256 ^ length (a # as) * c"
    by (simp add: Let_def unat_low_byte s distrib_left mult.assoc)
  then show ?case using c(1) by (auto simp: Let_def)
qed auto

lemma byte_of_int: "0 \<le> k \<Longrightarrow> k < 256 \<Longrightarrow> int (unat (word_of_int k :: u8)) = k"
  by (simp add: uint_word_of_int_eq take_bit_int_eq_self)

lemma diff_range:
  fixes p q :: int
  assumes "0 \<le> p" "p < 256" "0 \<le> q" "q < 256"
  shows "0 \<le> (if p - q - of_bool b < 0 then p - q - of_bool b + 256 else p - q - of_bool b)"
    "(if p - q - of_bool b < 0 then p - q - of_bool b + 256 else p - q - of_bool b) < 256"
  using assms by (cases b; simp)+

lemma diff_byte:
  fixes x y :: u8
  shows "unat (word_of_int (if uint x - uint y - of_bool b < 0 then uint x - uint y - of_bool b + 256 else uint x - uint y - of_bool b) :: u8)
    + unat y + of_bool b = unat x + 256 * of_bool (uint x - uint y - of_bool b < 0)"
proof -
  define d where "d = uint x - uint y - of_bool b"
  have r: "0 \<le> uint x" "uint x < 256" "0 \<le> uint y" "uint y < 256" using uint_bounded [of x] uint_bounded [of y] by simp_all
  have "int (unat (word_of_int (if d < 0 then d + 256 else d) :: u8)) = (if d < 0 then d + 256 else d)"
    using diff_range [OF r, of b] unfolding d_def by (intro byte_of_int) blast+
  then have "int (unat (word_of_int (if d < 0 then d + 256 else d) :: u8) + unat y + of_bool b) = int (unat x + 256 * of_bool (d < 0))"
    unfolding of_nat_add by (simp only:) (simp add: d_def)
  then show ?thesis unfolding of_nat_eq_iff d_def .
qed

lemma diff_row_val:
  "length as = length bs \<Longrightarrow> diff_row borrow as bs = (r, b) \<Longrightarrow> length r = length as \<and>
     le8 r + le8 bs + of_bool borrow = le8 as + 256 ^ length as * of_bool b"
proof (induction borrow as bs arbitrary: r b rule: diff_row.induct)
  case (1 borrow x as y bs)
  let ?d = "uint x - uint y - of_bool borrow" and ?neg = "uint x - uint y - of_bool borrow < 0"
  obtain r' where r: "diff_row ?neg as bs = (r', b)" "r = word_of_int (if ?neg then ?d + 256 else ?d) # r'"
    using 1(3) by (auto simp: Let_def split: prod.splits if_splits)
  have i: "length r' = length as" "le8 r' + le8 bs + of_bool ?neg = le8 as + 256 ^ length as * of_bool b"
    using 1(1) [OF refl refl refl _ r(1)] 1(2) by auto
  have u: "unat (word_of_int (if ?neg then ?d + 256 else ?d) :: u8) + unat y + of_bool borrow = unat x + 256 * of_bool ?neg"
    by (rule diff_byte)
  have "le8 r + le8 (y # bs) + of_bool borrow + 256 * of_bool ?neg =
      (unat (word_of_int (if ?neg then ?d + 256 else ?d) :: u8) + unat y + of_bool borrow) + 256 * (le8 r' + le8 bs + of_bool ?neg)"
    unfolding r(2) by (simp add: algebra_simps)
  also have "\<dots> = le8 (x # as) + 256 ^ length (x # as) * of_bool b + 256 * of_bool ?neg"
    unfolding i(2) u by (simp add: algebra_simps)
  finally show ?case using i(1) r(2) by simp
qed auto

lemma bigint_cmp_val:
  "length a = length b \<Longrightarrow> bigint_cmp a b = (if be_val a < be_val b then - 1 else if be_val b < be_val a then 1 else 0)"
proof (induction a b rule: bigint_cmp.induct)
  case (1 x as y bs)
  have lt: "be_val (x # as) < be_val (y # bs)" if "x < y" "length as = length bs" for x y :: u8 and as bs
  proof -
    have "(unat x + 1) * 256 ^ length as \<le> unat y * 256 ^ length as"
      using that(1) by (intro mult_le_mono1) (simp add: word_less_nat_alt)
    then show ?thesis using be_val_less [of as] that(2) by (simp add: be_val_Cons algebra_simps)
  qed
  have l: "length as = length bs" using 1 by simp
  consider "x < y" | "y < x" | "x = y" by fastforce
  then show ?case
  proof cases
    case 1
    then show ?thesis using lt [of x y as bs] l by simp
  next
    case 2
    then show ?thesis using lt [of y x bs as] l by auto
  next
    case 3
    then show ?thesis using 1 l by (simp add: be_val_Cons)
  qed
qed auto


lemma diff_row_sub:
  assumes "length as = length bs" "diff_row False as bs = (r, b)"
  shows "length r = length as" "b \<longleftrightarrow> le8 as < le8 bs" "\<not> b \<Longrightarrow> le8 r = le8 as - le8 bs" "b \<Longrightarrow> le8 r + le8 bs = le8 as + 256 ^ length as"
proof -
  have d: "length r = length as" "le8 r + le8 bs = le8 as + 256 ^ length as * of_bool b"
    using diff_row_val [OF assms] by simp_all
  have lt: "le8 r < 256 ^ length as" using le8_less [of r] d(1) by simp
  show "length r = length as" by (rule d)
  show "b \<longleftrightarrow> le8 as < le8 bs" using d(2) lt by (cases b) auto
  show "\<not> b \<Longrightarrow> le8 r = le8 as - le8 bs" "b \<Longrightarrow> le8 r + le8 bs = le8 as + 256 ^ length as" using d(2) by simp_all
qed

lemma bigint_sub_val:
  assumes "length a = length b" "be_val b \<le> be_val a"
  shows "length (bigint_sub a b) = length a" "be_val (bigint_sub a b) = be_val a - be_val b"
proof -
  obtain r c where r: "diff_row False (rev a) (rev b) = (r, c)" by fastforce
  have "\<not> c" using diff_row_sub(2) [OF _ r] assms by (simp add: le8_rev)
  then show "length (bigint_sub a b) = length a" "be_val (bigint_sub a b) = be_val a - be_val b"
    using diff_row_sub(1,3) [OF _ r] assms by (simp_all add: bigint_sub_def r le8_rev)
qed

lemma bigint_add_val:
  assumes "length a = length b"
  shows "length (bigint_add a b) = length a" "be_val (bigint_add a b) = (be_val a + be_val b) mod 256 ^ length a"
proof -
  obtain c where c: "length (add_row 0 (rev a) (rev b)) = length a"
      "le8 (rev a) + le8 (rev b) = le8 (add_row 0 (rev a) (rev b)) + 256 ^ length a * c"
    using add_row_val [of "rev a" "rev b" 0] assms by auto
  show "length (bigint_add a b) = length a" using c(1) by (simp add: bigint_add_def)
  show "be_val (bigint_add a b) = (be_val a + be_val b) mod 256 ^ length a"
    using c le8_less [of "add_row 0 (rev a) (rev b)"] by (simp add: bigint_add_def le8_rev)
qed

section \<open>The product\<close>

lemma mul_row_val:
  "length bs \<le> length rs \<Longrightarrow> unat carry < 256 \<Longrightarrow> mul_row carry x bs rs = (lo, c) \<Longrightarrow>
     length lo = length bs \<and> unat c < 256 \<and>
     le8 lo + 256 ^ length bs * unat c = le8 (take (length bs) rs) + unat x * le8 bs + unat carry"
proof (induction carry x bs rs arbitrary: lo c rule: mul_row.induct)
  case (1 carry x b bs r rs)
  let ?p = "ucast x * ucast b + ucast r + ucast carry :: u32"
  have "unat x * unat b \<le> 255 * 255" using byte_less [of x] byte_less [of b] by (intro mult_le_mono) simp_all
  then have p: "unat ?p = unat x * unat b + unat r + unat carry" and lt: "unat x * unat b + unat r + unat carry < 65536"
    using byte_less [of r] 1(3) by (simp_all add: unat_word_ariths)
  obtain lo' where lo: "mul_row (ucast (drop_bit 8 ?p)) x bs rs = (lo', c)" "lo = ucast (?p AND 0xFF) # lo'"
    using 1(4) by (auto simp: Let_def split: prod.splits)
  have h: "unat (ucast (drop_bit 8 ?p) :: u16) = (unat x * unat b + unat r + unat carry) div 256"
    unfolding unat_high_byte p using lt by simp
  then have "unat (ucast (drop_bit 8 ?p) :: u16) < 256" using lt by simp
  then have i: "length lo' = length bs" "unat c < 256"
      "le8 lo' + 256 ^ length bs * unat c = le8 (take (length bs) rs) + unat x * le8 bs + (unat x * unat b + unat r + unat carry) div 256"
    using 1(1) [OF refl _ _ lo(1)] 1(2) h by auto
  have "le8 lo + 256 ^ length (b # bs) * unat c =
      (unat x * unat b + unat r + unat carry) mod 256 + 256 * (le8 lo' + 256 ^ length bs * unat c)"
    unfolding lo(2) le8.simps unat_low_byte p by (simp add: algebra_simps)
  also have "\<dots> = (unat x * unat b + unat r + unat carry) + 256 * (le8 (take (length bs) rs) + unat x * le8 bs)"
    unfolding i(3) distrib_left using mod_mult_div_eq [of "unat x * unat b + unat r + unat carry" 256] by simp
  also have "\<dots> = le8 (take (length (b # bs)) (r # rs)) + unat x * le8 (b # bs) + unat carry"
    by (simp add: algebra_simps)
  finally show ?case using i lo(2) by simp
qed auto

lemma carry_up_val:
  "le8 rs + unat carry < 256 ^ length rs \<Longrightarrow> length (carry_up carry rs) = length rs \<and> le8 (carry_up carry rs) = le8 rs + unat carry"
proof (induction carry rs rule: carry_up.induct)
  case (1 carry r rs)
  show ?case
  proof (cases "carry > 0")
    case True
    let ?s = "ucast r + ucast carry :: u32"
    have s: "unat ?s = unat r + unat carry" and lt: "unat r + unat carry < 2 ^ 24"
      using byte_less [of r] unsigned_less [of carry, where ?'a = nat] by (simp_all add: unat_word_ariths)
    have h: "unat (ucast (drop_bit 8 ?s) :: u16) = (unat r + unat carry) div 256"
      unfolding unat_high_byte s using lt by (simp add: less_mult_imp_div_less)
    have e: "unat r + unat carry = (unat r + unat carry) mod 256 + 256 * ((unat r + unat carry) div 256)"
      by simp
    have "256 * (le8 rs + (unat r + unat carry) div 256) < 256 * 256 ^ length rs"
      using 1(2) e unfolding distrib_left by simp
    then have "length (carry_up (ucast (drop_bit 8 ?s)) rs) = length rs"
      "le8 (carry_up (ucast (drop_bit 8 ?s)) rs) = le8 rs + (unat r + unat carry) div 256"
      using 1(1) [OF True refl] h by simp_all
    then show ?thesis using True e by (simp add: Let_def unat_low_byte s)
  next
    case False
    then have "carry = 0" by (simp add: word_gt_0)
    then show ?thesis by simp
  qed
qed simp

lemma mul_rows_val:
  "length r = length as + length b \<Longrightarrow> le8 r < 256 ^ length b \<Longrightarrow>
     length (mul_rows as b r) = length r \<and> le8 (mul_rows as b r) = le8 r + le8 as * le8 b"
proof (induction as b r rule: mul_rows.induct)
  case (1 x as b r)
  obtain lo c where lo: "mul_row 0 x b r = (lo, c)" by fastforce
  let ?hi = "drop (length b) r"
  have l: "length lo = length b" "unat c < 256" "le8 lo + 256 ^ length b * unat c = le8 (take (length b) r) + unat x * le8 b"
    using mul_row_val [OF _ _ lo] 1(2) by simp_all
  have split: "le8 r = le8 (take (length b) r) + 256 ^ length b * le8 ?hi"
    using le8_append [of "take (length b) r" ?hi] 1(2) by simp
  then have z: "le8 ?hi = 0" using 1(3) by (cases "le8 ?hi") auto
  have "(256 :: nat) ^ 1 \<le> 256 ^ length ?hi" using 1(2) by (intro power_increasing) auto
  then have u: "length (carry_up c ?hi) = length ?hi" "le8 (carry_up c ?hi) = unat c"
    using carry_up_val [of ?hi c] z l(2) by simp_all
  let ?r = "lo @ carry_up c ?hi"
  have r: "length ?r = length r" "le8 ?r = le8 r + unat x * le8 b"
    using u l(1,3) split z 1(2) by (simp_all add: le8_append)
  then obtain h t where t: "?r = h # t" using 1(2) by (cases ?r) auto
  then have e: "unat h + 256 * le8 t = le8 r + unat x * le8 b" "length t = length as + length b" using r 1(2) by simp_all
  have "unat x * le8 b \<le> 255 * 256 ^ length b" using byte_less [of x] le8_less [of b] by (intro mult_le_mono) simp_all
  then have "256 * le8 t < 256 * 256 ^ length b" using e(1) 1(3) by simp
  then have "le8 t < 256 ^ length b" by simp
  then have i: "length (mul_rows as b t) = length t" "le8 (mul_rows as b t) = le8 t + le8 as * le8 b"
    using 1(1) [OF lo [symmetric] refl] t e(2) by simp_all
  have m: "mul_rows (x # as) b r = h # mul_rows as b t" using lo t by simp
  show ?case using i e r t unfolding m by (simp add: algebra_simps)
qed simp

lemma bigint_mul_val:
  assumes "length a = 256" "length b = 256"
  shows "length (bigint_mul a b) = 512" "be_val (bigint_mul a b) = be_val a * be_val b"
  using mul_rows_val [of "replicate 512 0" "rev a" "rev b"] assms
  by (simp_all add: bigint_mul_def RSA_KEY_SIZE_def le8_rev)


section \<open>The remainder\<close>

lemma sub_loop_val:
  "length r = length n \<Longrightarrow> 0 < be_val n \<Longrightarrow> be_val r < (k + 1) * be_val n \<Longrightarrow>
     length (sub_loop k n r) = length n \<and> be_val (sub_loop k n r) = be_val r mod be_val n"
proof (induction k n r rule: sub_loop.induct)
  case (2 k n r)
  show ?case
  proof (cases "be_val n \<le> be_val r")
    case True
    have s: "length (bigint_sub r n) = length n" "be_val (bigint_sub r n) = be_val r - be_val n"
      using bigint_sub_val [OF 2(2) True] 2(2) by simp_all
    have c: "bigint_cmp r n \<ge> 0" using True bigint_cmp_val [OF 2(2)] by simp
    have "be_val (bigint_sub r n) < (k + 1) * be_val n" using 2(4) True unfolding s(2) by (simp add: algebra_simps)
    then show ?thesis using 2(1) [OF c s(1) 2(3)] c s(2) True by (simp add: le_mod_geq)
  next
    case False
    then show ?thesis using 2 bigint_cmp_val [OF 2(2)] by simp
  qed
qed simp

lemma shl_byte:
  fixes a c :: u8
  assumes "unat c \<le> 1"
  defines "val \<equiv> push_bit 1 (ucast a) OR ucast c :: u16"
  shows "unat (ucast (val AND 0xFF) :: u8) = (2 * unat a + unat c) mod 256"
    "unat (ucast (drop_bit 8 val AND 1) :: u8) = (2 * unat a + unat c) div 256"
proof -
  have c: "c = 0 \<or> c = 1" using assms(1) by (auto simp: word_unat_eq_iff le_Suc_eq)
  have p: "unat (push_bit 1 (ucast a) :: u16) = 2 * unat a" "even (push_bit 1 (ucast a) :: u16)"
    using byte_less [of a] by (simp_all add: unat_word_ariths)
  have v: "unat val = 2 * unat a + unat c"
    using c p byte_less [of a] by (auto simp: val_def or_one_eq unat_word_ariths)
  show "unat (ucast (val AND 0xFF) :: u8) = (2 * unat a + unat c) mod 256" unfolding unat_low_byte v by (rule refl)
  have h: "unat (drop_bit 8 val) = (2 * unat a + unat c) div 256" unfolding unat_high_byte(2) v by (rule refl)
  then have "unat (drop_bit 8 val) \<le> 1" using byte_less [of a] assms(1) by simp
  then have "drop_bit 8 val = 0 \<or> drop_bit 8 val = 1" by (auto simp: word_unat_eq_iff le_Suc_eq)
  then have "unat (ucast (drop_bit 8 val AND 1) :: u8) = unat (drop_bit 8 val)" by auto
  then show "unat (ucast (drop_bit 8 val AND 1) :: u8) = (2 * unat a + unat c) div 256" unfolding h .
qed

lemma shl_row_val:
  "unat c \<le> 1 \<Longrightarrow> length (shl_row c xs) = length xs \<and> (\<exists>k. 2 * le8 xs + unat c = le8 (shl_row c xs) + 256 ^ length xs * k)"
proof (induction c xs rule: shl_row.induct)
  case (1 c a as)
  let ?v = "push_bit 1 (ucast a) OR ucast c :: u16" and ?n = "(2 * unat a + unat c) div 256"
  note b = shl_byte [OF 1(2), of a]
  have "?n \<le> 1" using byte_less [of a] 1(2) by simp
  then obtain k where k: "length (shl_row (ucast (drop_bit 8 ?v AND 1)) as) = length as"
      "2 * le8 as + ?n = le8 (shl_row (ucast (drop_bit 8 ?v AND 1)) as) + 256 ^ length as * k"
    using 1(1) [OF refl] b(2) by auto
  have "2 * le8 (a # as) + unat c = (2 * unat a + unat c) mod 256 + 256 * (2 * le8 as + ?n)"
    using mod_mult_div_eq [of "2 * unat a + unat c" 256] by (simp add: algebra_simps)
  also have "\<dots> = le8 (shl_row c (a # as)) + 256 ^ length (a # as) * k"
    unfolding k(2) shl_row.simps Let_def le8.simps b(1) by (simp add: algebra_simps)
  finally show ?case using k(1) by (auto simp: Let_def)
qed simp

lemma bigint_shl1_val:
  assumes "length a = 256"
  shows "length (snd (bigint_shl1 a)) = 256" "be_val (snd (bigint_shl1 a)) = 2 * be_val a mod 256 ^ 256"
proof -
  obtain k where k: "length (shl_row 0 (rev a)) = 256" "2 * le8 (rev a) = le8 (shl_row 0 (rev a)) + 256 ^ 256 * k"
    using shl_row_val [of 0 "rev a"] assms by auto
  show "length (snd (bigint_shl1 a)) = 256" using k by (simp add: bigint_shl1_def)
  have "le8 (shl_row 0 (rev a)) < 256 ^ 256" using le8_less [of "shl_row 0 (rev a)"] k(1) by simp
  then have "2 * le8 (rev a) mod 256 ^ 256 = le8 (shl_row 0 (rev a))" unfolding k(2) by (simp only: mod_mult_self2 mod_less)
  then show "be_val (snd (bigint_shl1 a)) = 2 * be_val a mod 256 ^ 256" by (simp only: bigint_shl1_def snd_conv le8_rev rev_rev_ident)
qed

lemma even_unat: "even (unat (w :: u8)) \<longleftrightarrow> even w"
proof -
  have "odd (unat w) \<longleftrightarrow> odd w" by (simp add: bit_unsigned_iff flip: bit_0)
  then show ?thesis by blast
qed

lemma rem_shift:
  fixes b :: bool
  assumes "length rem = 257" "be_val rem < 256 ^ 256"
  defines "r \<equiv> rev (shl_row 0 (rev rem))"
  defines "r' \<equiv> (if b then r[RSA_KEY_SIZE := r ! RSA_KEY_SIZE OR 1] else r)"
  shows "length r' = 257" "be_val r' = 2 * be_val rem + of_bool b"
proof -
  obtain k where k: "length (shl_row 0 (rev rem)) = 257" "2 * le8 (rev rem) = le8 (shl_row 0 (rev rem)) + 256 ^ 257 * k"
    using shl_row_val [of 0 "rev rem"] assms(1) by auto
  have "k = 0"
  proof (rule ccontr)
    assume "k \<noteq> 0"
    then have "(256 :: nat) ^ 257 * 1 \<le> 256 ^ 257 * k" by (intro mult_le_mono2) simp
    moreover have "2 * le8 (rev rem) < 256 * 256 ^ 256" using assms(2) by (simp only: le8_rev rev_rev_ident)
    moreover have "(256 :: nat) ^ 257 = 256 * 256 ^ 256" by (simp only: power_Suc [symmetric]) simp
    ultimately show False using k(2) by linarith
  qed
  then have r: "length r = 257" "be_val r = 2 * be_val rem"
    using k by (simp_all add: r_def le8_rev)
  then have "r \<noteq> []" by auto
  then obtain xs x where x: "r = xs @ [x]" by (metis rev_exhaust)
  have "256 * be_val xs + unat x = 2 * be_val rem" using r(2) by (simp add: x be_val_append)
  then have e: "even (unat x)" by presburger
  then have "unat x + 1 < 256" using byte_less [of x] by presburger
  then have "unat (x OR 1) = unat x + 1" using e by (simp add: even_unat or_one_eq unat_word_ariths)
  then show "length r' = 257" "be_val r' = 2 * be_val rem + of_bool b"
    using r x list_update_length [of xs x "[]" "x OR 1"] by (auto simp: r'_def RSA_KEY_SIZE_def be_val_append nth_append)
qed


lemma rem_bit_val:
  assumes n: "length n = 256" and r: "length rem = 257" "be_val rem < be_val n"
  shows "length (rem_bit n b rem) = 257" "be_val (rem_bit n b rem) = (2 * be_val rem + of_bool b) mod be_val n"
proof -
  let ?B = "(256 :: nat) ^ 256"
  define v where "v = 2 * be_val rem + of_bool b"
  define r0 where "r0 = rev (shl_row 0 (rev rem))"
  define r1 where "r1 = (if b then r0[RSA_KEY_SIZE := r0 ! RSA_KEY_SIZE OR 1] else r0)"
  have nB: "be_val n < ?B" using be_val_less [of n] n by (simp only:)
  have s: "length r1 = 257" "be_val r1 = v"
    using rem_shift [OF r(1) less_trans [OF r(2) nB], of b] by (simp_all only: r0_def r1_def v_def)
  have v: "v < 2 * be_val n" using r(2) by (cases b) (simp_all add: v_def)
  obtain x xs where x: "r1 = x # xs" using s(1) by (cases r1) auto
  have xs: "length xs = 256" "unat x * ?B + be_val xs = v" using s x be_val_Cons [of x xs] by (simp_all only: list.size) simp_all
  have lt: "be_val xs < ?B" using be_val_less [of xs] xs(1) by (simp only:)
  have ge: "(if r1 ! 0 \<noteq> 0 then True else bigint_cmp (tl r1) n \<ge> 0) \<longleftrightarrow> be_val n \<le> v"
  proof (cases "x = 0")
    case True
    then show ?thesis using x xs bigint_cmp_val [of xs n] n by simp
  next
    case False
    then have "?B * 1 \<le> unat x * ?B" by (simp add: unat_gt_0 Suc_le_eq)
    then have "be_val n \<le> v" using xs(2) nB by linarith
    then show ?thesis using False x by simp
  qed
  obtain low borrow where low: "diff_row False (rev xs) (rev n) = (low, borrow)" by fastforce
  have l: "length low = 256" "borrow \<longleftrightarrow> be_val xs < be_val n" "\<not> borrow \<Longrightarrow> le8 low = be_val xs - be_val n"
    "borrow \<Longrightarrow> le8 low + be_val n = be_val xs + ?B"
    using diff_row_sub [OF _ low] xs(1) n unfolding le8_rev by simp_all
  define top where "top = (if borrow then (if x > 0 then x - 1 else 0) else x)"
  have eq: "rem_bit n b rem = (if be_val n \<le> v then top # rev low else r1)"
    unfolding rem_bit_def r0_def [symmetric] Let_def r1_def [symmetric] ge by (simp add: x low top_def)
  have sub: "be_val (top # rev low) = v - be_val n" if "be_val n \<le> v"
  proof (cases borrow)
    case True
    then have "x \<noteq> 0" using l(2) xs(2) that by auto
    then have u: "0 < unat x" by (simp add: unat_gt_0)
    have "unat x < 2"
    proof (rule ccontr)
      assume "\<not> unat x < 2"
      then have "2 * ?B \<le> unat x * ?B" by (intro mult_le_mono1) simp
      then show False using xs(2) v nB by linarith
    qed
    then have "x = 1" using u by (simp add: word_unat_eq_iff)
    then have "top = 0" using True by (simp add: top_def word_gt_0)
    moreover have "v = ?B + be_val xs" using xs(2) \<open>x = 1\<close> by simp
    moreover have "le8 low + be_val n = be_val xs + ?B" by (rule l(4) [OF True])
    ultimately show ?thesis by (simp only: be_val_Cons le8_rev rev_rev_ident unsigned_0)
  next
    case False
    have "unat x = 0"
    proof (rule ccontr)
      assume "unat x \<noteq> 0"
      then have "1 * ?B \<le> unat x * ?B" by (intro mult_le_mono1) simp
      moreover have "be_val n \<le> be_val xs" using l(2) False by simp
      ultimately show False using xs(2) v nB by linarith
    qed
    then show ?thesis using False l(3) xs(2) l(1) by (simp add: top_def be_val_Cons le8_rev)
  qed
  show "length (rem_bit n b rem) = 257" using eq l(1) s(1) by simp
  have "be_val (rem_bit n b rem) = (if be_val n \<le> v then v - be_val n else v)" unfolding eq using sub s(2) by simp
  also have "\<dots> = v mod be_val n" using v by (auto simp: le_mod_geq)
  finally show "be_val (rem_bit n b rem) = (2 * be_val rem + of_bool b) mod be_val n" by (simp add: v_def)
qed

lemma rem_bits_val:
  assumes n: "length n = 256" "0 < be_val n"
  shows "length rem = 257 \<Longrightarrow> be_val rem = v mod be_val n \<Longrightarrow>
    length (fold (rem_bit n) bs rem) = 257 \<and> be_val (fold (rem_bit n) bs rem) = bits_val bs v mod be_val n"
proof (induction bs arbitrary: rem v)
  case (Cons b bs)
  have "be_val rem < be_val n" using n Cons.prems(2) by simp
  note r = rem_bit_val [OF n(1) Cons.prems(1) this, of b]
  have "be_val (rem_bit n b rem) = (2 * v + of_bool b) mod be_val n"
    unfolding r(2) Cons.prems(2) by (metis mod_add_left_eq mod_mult_right_eq)
  from Cons.IH [OF r(1) this] show ?case by (simp add: bits_val_def)
qed (simp add: bits_val_def)

lemma msb_bits_eq: "msb_bits b = byte_bits b"
  unfolding msb_bits_def byte_bits_def
  by (intro map_cong refl) (subst bit_iff_and_push_bit_not_eq_0 [symmetric], simp add: and_one_eq bit_iff_odd_drop_bit mod2_eq_if)

lemma be_val_skip_zeros:
  assumes "first_idx (\<lambda>x. x \<noteq> 0) a = Some i"
  shows "be_val (drop i a) = be_val a"
proof -
  have "take i a = replicate i 0" using first_idx_SomeD [OF assms] by (intro nth_equalityI) auto
  then show ?thesis using be_val_zeros [of i "drop i a"] by (metis append_take_drop_id)
qed

lemma bigint_mod_val:
  assumes a: "length a = 512" and n: "length n = 256" "0 < be_val n"
    and small: "be_val a < 256 ^ 256 \<Longrightarrow> be_val a < 1001 * be_val n"
  shows "length (bigint_mod a n) = 256" "be_val (bigint_mod a n) = be_val a mod be_val n"
proof -
  have split: "be_val a = 256 ^ 256 * be_val (take 256 a) + be_val (drop 256 a)"
    using be_val_append [of "take 256 a" "drop 256 a"] a by simp
  have "length (bigint_mod a n) = 256 \<and> be_val (bigint_mod a n) = be_val a mod be_val n"
  proof (cases "list_all (\<lambda>x. x = 0) (take 256 a)")
    case True
    then have e: "be_val a = be_val (drop 256 a)" using split be_val_zero_iff [of "take 256 a"] by simp
    have l: "length (drop 256 a) = length n" using a n(1) by simp
    have "be_val (drop 256 a) < 256 ^ 256" using be_val_less [of "drop 256 a"] l n(1) by (simp only:)
    then show ?thesis using True sub_loop_val [OF l n(2), of 1000] small n(1) e by (simp add: bigint_mod_def RSA_KEY_SIZE_def)
  next
    case False
    define start where "start = (case first_idx (\<lambda>x. x \<noteq> 0) a of Some i \<Rightarrow> i | None \<Rightarrow> 0)"
    define rem where "rem = fold (rem_bit n) (concat (map msb_bits (drop start a))) (replicate 257 0)"
    have "be_val (drop start a) = be_val a" by (simp add: start_def be_val_skip_zeros split: option.split)
    then have r: "length rem = 257" "be_val rem = be_val a mod be_val n"
      using rem_bits_val [OF n, of "replicate 257 0" 0 "concat (map byte_bits (drop start a))"]
      by (simp_all add: rem_def msb_bits_eq [abs_def] bytes_bits_val)
    have m: "bigint_mod a n = sub_loop 10 n (tl rem)"
      using False by (simp add: bigint_mod_def RSA_KEY_SIZE_def start_def [symmetric] rem_def Let_def)
    obtain x xs where x: "rem = x # xs" "length xs = 256" using r(1) by (cases rem) auto
    have lt: "be_val a mod be_val n < be_val n" "be_val n < 256 ^ 256"
      using n(2) be_val_less [of n] n(1) by simp_all
    have "be_val xs = be_val a mod be_val n"
    proof -
      have e: "unat x * 256 ^ 256 + be_val xs = be_val a mod be_val n" using be_val_Cons [of x xs] r(2) x by simp
      have "unat x = 0"
      proof (rule ccontr)
        assume "unat x \<noteq> 0"
        then have "1 * 256 ^ 256 \<le> unat x * 256 ^ 256" by (intro mult_le_mono1) simp
        then show False using e lt by linarith
      qed
      then show ?thesis using e by simp
    qed
    then show ?thesis using sub_loop_val [of xs n 10] x n lt unfolding m by simp
  qed
  then show "length (bigint_mod a n) = 256" "be_val (bigint_mod a n) = be_val a mod be_val n" by blast+
qed


section \<open>Exponentiation\<close>

lemma is_one_val: "a \<noteq> [] \<Longrightarrow> is_one a \<longleftrightarrow> be_val a = 1"
proof -
  assume "a \<noteq> []"
  then obtain xs x where a: "a = xs @ [x]" by (metis rev_exhaust)
  have "256 * be_val xs + unat x = 1 \<longleftrightarrow> be_val xs = 0 \<and> unat x = 1" by (cases "be_val xs") simp_all
  moreover have "unat x = 1 \<longleftrightarrow> x = 1" by (simp add: word_unat_eq_iff)
  ultimately show ?thesis using be_val_zero_iff [of xs] by (simp add: a is_one_def be_val_append)
qed

lemma big_one_val: "length big_one = 256" "be_val big_one = 1"
  by (simp_all add: big_one_def RSA_KEY_SIZE_def be_val_zeros)

text \<open>The fast path of \<open>bigint_mod\<close> subtracts at most 1000 times, which is enough for moduli of nearly the full
  2048 bits, and for tiny ones.\<close>

definition mod_fits :: "nat \<Rightarrow> bool" where
  "mod_fits N \<longleftrightarrow> 256 ^ 256 \<le> 1001 * N \<or> N \<le> 1001"

lemma mod_fits_small:
  assumes "mod_fits N" "x < N" "y < N" "x * y < 256 ^ 256"
  shows "x * y < 1001 * N"
proof (cases "256 ^ 256 \<le> 1001 * N")
  case False
  then have N: "N \<le> 1001" using assms(1) unfolding mod_fits_def by blast
  have "x * y \<le> x * N" using assms(3) by simp
  also have "\<dots> < N * N" using assms(2) by simp
  also have "\<dots> \<le> 1001 * N" using N by (rule mult_le_mono1)
  finally show ?thesis .
qed (use assms(4) in linarith)

lemma bigint_reduce_val:
  assumes "length a = 256" "length n = 256" "0 < be_val n" "be_val a < 1001 * be_val n"
  shows "length (bigint_mod (replicate RSA_KEY_SIZE 0 @ a) n) = 256"
    "be_val (bigint_mod (replicate RSA_KEY_SIZE 0 @ a) n) = be_val a mod be_val n"
  using bigint_mod_val [of "replicate RSA_KEY_SIZE 0 @ a" n] assms by (simp_all add: RSA_KEY_SIZE_def be_val_zeros)

lemma bigint_mod_mul_val:
  assumes a: "length a = 256" "be_val a < be_val n" and b: "length b = 256" "be_val b < be_val n"
    and n: "length n = 256" "1 < be_val n" "mod_fits (be_val n)"
  shows "length (bigint_mod_mul a b n) = 256 \<and> be_val (bigint_mod_mul a b n) = be_val a * be_val b mod be_val n"
proof -
  have ne: "a \<noteq> []" "b \<noteq> []" using a(1) b(1) by auto
  have lt: "be_val a < 1001 * be_val n" "be_val b < 1001 * be_val n" using a(2) b(2) by linarith+
  note p = bigint_mul_val [OF a(1) b(1)]
  have pne: "bigint_mul a b \<noteq> []" using p(1) by auto
  have pm: "length (bigint_mod (bigint_mul a b) n) = 256"
    "be_val (bigint_mod (bigint_mul a b) n) = be_val a * be_val b mod be_val n"
    using bigint_mod_val [OF p(1) n(1)] mod_fits_small [OF n(3) a(2) b(2)] n(2) unfolding p(2) by simp_all
  note ra = bigint_reduce_val [OF a(1) n(1) _ lt(1)] and rb = bigint_reduce_val [OF b(1) n(1) _ lt(2)]
  consider (both) "is_one a" "is_one b" | (fst) "is_one a" "\<not> is_one b" | (snd) "\<not> is_one a" "is_one b"
    | (prod) "\<not> is_one a" "\<not> is_one b" "is_one (bigint_mul a b)" | (gen) "\<not> is_one a" "\<not> is_one b" "\<not> is_one (bigint_mul a b)"
    by blast
  then show ?thesis
  proof cases
    case both
    then show ?thesis using is_one_val [OF ne(1)] is_one_val [OF ne(2)] big_one_val n(2) by (simp add: bigint_mod_mul_def)
  next
    case fst
    then show ?thesis using is_one_val [OF ne(1)] rb n(2) by (simp add: bigint_mod_mul_def)
  next
    case snd
    then show ?thesis using is_one_val [OF ne(2)] ra n(2) by (simp add: bigint_mod_mul_def)
  next
    case prod
    then show ?thesis using is_one_val [OF pne] p(2) big_one_val n(2) by (simp add: bigint_mod_mul_def)
  next
    case gen
    then show ?thesis using pm by (simp add: bigint_mod_mul_def)
  qed
qed

lemma exp_bits_val:
  assumes b: "length base = 256" "be_val base = x mod be_val n"
    and n: "length n = 256" "1 < be_val n" "mod_fits (be_val n)"
  shows "length r = 256 \<Longrightarrow> be_val r = x ^ v mod be_val n \<Longrightarrow>
    length (fold (exp_bit n base) bs r) = 256 \<and> be_val (fold (exp_bit n base) bs r) = x ^ bits_val bs v mod be_val n"
proof (induction bs arbitrary: r v)
  case (Cons b bs)
  have lt: "be_val r < be_val n" "be_val base < be_val n" using Cons.prems(2) b(2) n(2) by simp_all
  have s: "length (bigint_mod_mul r r n) = 256" "be_val (bigint_mod_mul r r n) = x ^ (2 * v) mod be_val n"
    using bigint_mod_mul_val [OF Cons.prems(1) lt(1) Cons.prems(1) lt(1) n] unfolding Cons.prems(2)
    by (simp_all add: mod_mult_eq mult_2 power_add)
  then have l: "be_val (bigint_mod_mul r r n) < be_val n" using n(2) by simp
  have t: "length (bigint_mod_mul (bigint_mod_mul r r n) base n) = 256"
      "be_val (bigint_mod_mul (bigint_mod_mul r r n) base n) = x ^ (2 * v + 1) mod be_val n"
    using bigint_mod_mul_val [OF s(1) l b(1) lt(2) n] unfolding s(2) b(2) by (simp_all add: mod_mult_eq mult.commute)
  have "length (exp_bit n base b r) = 256" "be_val (exp_bit n base b r) = x ^ (2 * v + of_bool b) mod be_val n"
    using s t by (simp_all add: exp_bit_def Let_def)
  from Cons.IH [OF this] show ?case by (simp add: bits_val_def)
qed (simp add: bits_val_def)



text \<open>A multiple of the modulus gives 1 instead of 0.\<close>

lemma bigint_mod_exp_zero_base:
  assumes "length base = 256" "length m = 256" "0 < be_val m" "be_val base < 1001 * be_val m" "be_val base mod be_val m = 0"
  shows "bigint_mod_exp mem base exp m = big_one"
proof -
  have "bigint_is_zero (bigint_mod (replicate RSA_KEY_SIZE 0 @ base) m)"
    unfolding bigint_is_zero_def be_val_zero_iff [symmetric] using bigint_reduce_val [OF assms(1-4)] assms(5) by simp
  then show ?thesis by (simp add: bigint_mod_exp_def Let_def)
qed

text \<open>A shift to the right moves the carry the wrong way: 256 becomes a number of three bytes.\<close>

lemma bigint_shr1_wrong: "be_val (bigint_shr1 [0, 0, 1, 0]) = 2 ^ 23"
  by (simp add: bigint_shr1_def be_val_def)

section \<open>The two exponentiations\<close>

lemma be_val_inj: "length a = length b \<Longrightarrow> be_val a = be_val b \<Longrightarrow> a = b"
proof -
  have "length a = length b \<Longrightarrow> le8 a = le8 b \<Longrightarrow> a = b" for a b
  proof (induction a b rule: list_induct2)
    case (Cons x xs y ys)
    have "unat x = unat y" "le8 xs = le8 ys"
      using Cons.prems byte_less [of x] byte_less [of y] by (auto dest: arg_cong [where f = "\<lambda>k. k mod 256"] arg_cong [where f = "\<lambda>k. k div 256"])
    then show ?case using Cons.IH by (simp add: word_unat_eq_iff)
  qed simp
  from this [of "rev a" "rev b"] show "length a = length b \<Longrightarrow> be_val a = be_val b \<Longrightarrow> a = b" by (simp add: be_val_rev)
qed



lemma be_val_ones: "be_val (replicate k 255) + 1 = 256 ^ k"
proof (induction k)
  case (Suc k)
  show ?case using Suc be_val_Cons [of 255 "replicate k 255"] by simp
qed simp


end
