(* ===== verification/Rsa_Key.thy ===== *)
theory Rsa_Key
  imports Bigint
begin

text \<open>
  The built-in RSA key of \<open>src/crypto.c\<close> and the constant \<open>R^2 mod n\<close> its Montgomery arithmetic is started
  with. The constant is checked by a long division of \<open>2^4096\<close> by the modulus, 128 bits at a time.
\<close>

record rsa_key =
  rk_n :: "u8 list"
  rk_e :: "u8 list"
  rk_d :: "u8 list"
  rk_p :: "u8 list"
  rk_q :: "u8 list"

definition rsa_n_r2_be :: "u8 list" where
  "rsa_n_r2_be =
    [0x01, 0x94, 0x10, 0x5f, 0xe0, 0xe6, 0xb1, 0xcd, 0xbb, 0xfa, 0xe8, 0x52, 0xe8, 0x8b, 0xf9, 0x92, 0x98, 0x67, 0x57, 0x83, 0xed, 0xa9, 0x4b, 0x36,
     0xb1, 0x07, 0x6e, 0xf9, 0xb0, 0x0e, 0x43, 0xc9, 0x7c, 0xfa, 0x18, 0xe9, 0xcd, 0xa9, 0xc8, 0x05, 0x5c, 0x97, 0x46, 0xd3, 0xa1, 0x9d, 0xdc, 0x3e,
     0xda, 0x0d, 0xa4, 0xc7, 0x76, 0xa2, 0x9e, 0xc3, 0x54, 0xab, 0x3e, 0xac, 0xd0, 0xf8, 0xcc, 0x75, 0xb2, 0x00, 0x6e, 0xb1, 0xab, 0xca, 0x66, 0x65,
     0xbf, 0xb3, 0x6c, 0xa8, 0xa2, 0x0b, 0x02, 0xc3, 0xb7, 0xf3, 0xed, 0x4f, 0xf1, 0x61, 0x1f, 0xe2, 0x57, 0xbd, 0x5e, 0x8d, 0x10, 0x16, 0xca, 0x3d,
     0xaf, 0xc5, 0xef, 0x2e, 0x83, 0xa2, 0x73, 0xb9, 0x2e, 0x4b, 0x65, 0x8e, 0x6c, 0x32, 0xb8, 0x5e, 0x29, 0xe9, 0xff, 0x5f, 0x3d, 0xfc, 0x94, 0xba,
     0xc1, 0xf9, 0x95, 0x22, 0xb5, 0x0f, 0xba, 0x01, 0x4f, 0x1b, 0x66, 0xca, 0x28, 0xcf, 0xe0, 0x06, 0x76, 0x93, 0xda, 0x5b, 0x0e, 0x63, 0x6d, 0xb6,
     0x93, 0x8f, 0x5e, 0x18, 0x5e, 0x34, 0x82, 0xed, 0x30, 0x05, 0x1b, 0xa2, 0x24, 0x32, 0x29, 0xe2, 0x8a, 0x50, 0xb1, 0x20, 0x3f, 0xc7, 0x1b, 0x6a,
     0x9e, 0x83, 0x8e, 0x07, 0x57, 0x48, 0x1b, 0x54, 0x2e, 0xc8, 0xa1, 0x19, 0x66, 0x5c, 0xde, 0x26, 0x88, 0xc8, 0xbd, 0x05, 0xb6, 0xc1, 0x33, 0xa8,
     0x17, 0xa9, 0xfa, 0x13, 0x52, 0x59, 0xaf, 0x23, 0xae, 0x66, 0x3d, 0xc1, 0xda, 0x68, 0xb1, 0xb5, 0x8b, 0x0b, 0xf7, 0xb6, 0x31, 0xd0, 0xd8, 0x12,
     0x17, 0x2f, 0xc7, 0x14, 0x2f, 0x81, 0x7c, 0x0d, 0x67, 0x8a, 0x8d, 0xf6, 0xef, 0x69, 0xbe, 0xda, 0x43, 0x80, 0x02, 0xdb, 0xa7, 0x2b, 0x27, 0xbb,
     0xec, 0x88, 0xf1, 0x18, 0x30, 0x48, 0x67, 0x0c, 0xdd, 0x81, 0x40, 0x9d, 0x40, 0xe9, 0x0a, 0x98]"

definition rsa_n_init :: "u8 list" where
  "rsa_n_init =
    [0x0e, 0xa5, 0x96, 0x78, 0x7a, 0x52, 0xfc, 0xf8, 0x7e, 0xa6, 0x9a, 0x13, 0xbf, 0xe4, 0x5f, 0x27, 0xed, 0x29, 0xc1, 0x9c, 0x49, 0x0a, 0x32, 0xa5,
     0x0b, 0x37, 0x21, 0x63, 0x46, 0x11, 0x02, 0x9c, 0xcc, 0x46, 0x4a, 0x19, 0xa1, 0x73, 0x28, 0xfc, 0x80, 0x23, 0xb0, 0x5c, 0xd2, 0xb2, 0x84, 0xad,
     0x8f, 0xfe, 0x46, 0xbf, 0xc6, 0x29, 0x22, 0x50, 0xb1, 0xdf, 0x8a, 0x13, 0x31, 0x76, 0x40, 0xce, 0x09, 0x81, 0x57, 0xdc, 0xb1, 0xf6, 0xd5, 0x7a,
     0xba, 0xa0, 0x7f, 0x1b, 0x17, 0xb9, 0xc1, 0x53, 0xa5, 0xc9, 0x3c, 0x64, 0x1b, 0xb5, 0xa2, 0x20, 0x72, 0x6d, 0x50, 0xb7, 0x2a, 0x1d, 0xe1, 0x42,
     0xc5, 0xfe, 0x10, 0xb6, 0x46, 0x20, 0xb4, 0x9f, 0x3e, 0xca, 0xbc, 0x46, 0x8f, 0x58, 0x60, 0xe3, 0x0f, 0x0d, 0x47, 0x0e, 0x6c, 0x77, 0x4e, 0x66,
     0xf5, 0xc2, 0xcd, 0xf7, 0x6f, 0x75, 0xf5, 0x8f, 0x68, 0xb2, 0x9d, 0x03, 0xd1, 0x52, 0x41, 0xe9, 0x7a, 0x67, 0x91, 0x75, 0xfb, 0xa1, 0xdc, 0x26,
     0x0a, 0xb0, 0x80, 0xaf, 0xc4, 0x05, 0xfe, 0x2b, 0x4e, 0x1e, 0x9e, 0x35, 0x3e, 0xf1, 0x17, 0x7b, 0x88, 0x28, 0xd0, 0xaf, 0xc6, 0x3b, 0x11, 0x87,
     0xa9, 0x72, 0x99, 0xce, 0x74, 0x88, 0x38, 0xc5, 0xf0, 0xf5, 0x05, 0x70, 0x3e, 0x91, 0x0a, 0x83, 0x7b, 0x9c, 0x92, 0x0f, 0x83, 0x4a, 0x88, 0x09,
     0x25, 0x88, 0x64, 0x6d, 0xe2, 0x16, 0x00, 0x4a, 0xd6, 0x24, 0x98, 0xd6, 0xf6, 0x8a, 0x39, 0x10, 0xdb, 0xba, 0x50, 0x26, 0xb0, 0xfc, 0x3c, 0xa1,
     0xc7, 0xbf, 0x67, 0xb9, 0x81, 0x09, 0x20, 0x2a, 0xbd, 0x6b, 0xd0, 0xbe, 0x93, 0xab, 0x4d, 0x6b, 0xd2, 0x3e, 0x5a, 0x34, 0x03, 0xde, 0xdb, 0x11,
     0xc9, 0x9f, 0x27, 0xfd, 0x53, 0x2a, 0xf9, 0x71, 0x0f, 0xcb, 0x82, 0xf6, 0xbc, 0xd7, 0x2e, 0xa7]"

definition rsa_d_init :: "u8 list" where
  "rsa_d_init =
    [0x06, 0xb7, 0xc6, 0x43, 0x2d, 0xff, 0xe0, 0x4d, 0x6d, 0x71, 0xa6, 0x9b, 0xc6, 0x58, 0xcd, 0x98, 0x37, 0x7b, 0xfe, 0x74, 0x5b, 0x3f, 0xd5, 0x28,
     0xc3, 0xf3, 0x1e, 0x5a, 0x35, 0x29, 0xda, 0x23, 0xe6, 0xc1, 0x9a, 0x7d, 0x15, 0x03, 0x07, 0xda, 0x80, 0x3f, 0x5e, 0x45, 0xc4, 0xd1, 0xe2, 0x6e,
     0xe4, 0xeb, 0x80, 0xb1, 0xb7, 0x06, 0xe8, 0xd9, 0x50, 0x2c, 0x32, 0x5d, 0x49, 0x43, 0x6e, 0xc7, 0xd1, 0xae, 0x44, 0x89, 0x52, 0x0a, 0xdf, 0xb1,
     0x71, 0xe5, 0xe9, 0x46, 0x98, 0xe4, 0x37, 0x1a, 0xd1, 0xa0, 0x72, 0x15, 0x8c, 0x6c, 0x0b, 0x97, 0x8c, 0x44, 0x3d, 0x50, 0x35, 0x7e, 0x0c, 0xf2,
     0x9e, 0x73, 0x40, 0x61, 0x09, 0xdb, 0x38, 0x5d, 0x0d, 0xe4, 0xd8, 0xe4, 0x18, 0x1d, 0x36, 0x1b, 0x0e, 0xad, 0x4d, 0x58, 0xfd, 0x40, 0xdf, 0x71,
     0xf3, 0xe8, 0xcc, 0xa5, 0x5f, 0xb7, 0x1f, 0xd0, 0xc8, 0x6f, 0x09, 0x14, 0xd2, 0x06, 0x5e, 0x98, 0x83, 0x4e, 0xbb, 0x6a, 0x59, 0xfd, 0x65, 0x6f,
     0x59, 0x4c, 0x44, 0x0e, 0xf0, 0xfc, 0x40, 0xe6, 0xd3, 0x62, 0xf7, 0x75, 0xbc, 0x70, 0x10, 0x85, 0x76, 0x9e, 0x0c, 0x1c, 0x2c, 0x15, 0x24, 0x57,
     0x6e, 0x2e, 0x63, 0x73, 0xff, 0xfc, 0x70, 0x0e, 0xd6, 0x7e, 0x3c, 0xa2, 0x4c, 0x17, 0xd4, 0xc5, 0xbf, 0xca, 0x11, 0xeb, 0xcf, 0x3b, 0x1f, 0x96,
     0x19, 0x79, 0x4b, 0x92, 0xd3, 0x38, 0xd9, 0x2f, 0x26, 0x98, 0xf0, 0xf8, 0x48, 0x6f, 0x5b, 0xe1, 0x2d, 0xa3, 0x3f, 0x19, 0x22, 0xa3, 0x27, 0x27,
     0xf3, 0x72, 0x43, 0x08, 0x01, 0x2c, 0x49, 0x43, 0x8c, 0xd5, 0xcb, 0x50, 0x2b, 0x92, 0x97, 0x70, 0xe2, 0x2e, 0xd6, 0x38, 0x4a, 0x05, 0x6e, 0x75,
     0x78, 0xde, 0x03, 0x76, 0x1c, 0xfe, 0x70, 0xbf, 0xae, 0x16, 0x74, 0x5d, 0xb7, 0x3d, 0x54, 0xa9]"

definition get_default_rsa_key :: rsa_key where
  "get_default_rsa_key =
     \<lparr>rk_n = rsa_n_init, rk_e = (replicate 256 0)[253 := 1, 254 := 0, 255 := 1], rk_d = rsa_d_init,
      rk_p = replicate (RSA_KEY_SIZE div 2) 0, rk_q = replicate (RSA_KEY_SIZE div 2) 0\<rparr>"

section \<open>The numbers\<close>

definition rsa_N :: nat where
  "rsa_N = 0xea596787a52fcf87ea69a13bfe45f27ed29c19c490a32a50b3721634611029ccc464a19a17328fc8023b05cd2b284ad8ffe46bfc6292250b1df8a13317640ce098157dcb1f6d57abaa07f1b17b9c153a5c93c641bb5a220726d50b72a1de142c5fe10b64620b49f3ecabc468f5860e30f0d470e6c774e66f5c2cdf76f75f58f68b29d03d15241e97a679175fba1dc260ab080afc405fe2b4e1e9e353ef1177b8828d0afc63b1187a97299ce748838c5f0f505703e910a837b9c920f834a88092588646de216004ad62498d6f68a3910dbba5026b0fc3ca1c7bf67b98109202abd6bd0be93ab4d6bd23e5a3403dedb11c99f27fd532af9710fcb82f6bcd72ea7"

lemma rsa_lengths [simp]: "length rsa_n_init = 256" "length rsa_d_init = 256" "length rsa_n_r2_be = 256"
  by (simp_all add: rsa_n_init_def rsa_d_init_def rsa_n_r2_be_def)

lemma rsa_n_val: "be_val rsa_n_init = rsa_N"
  by (simp add: be_val_def rsa_n_init_def rsa_N_def)

lemma rsa_e_bytes: "rk_e get_default_rsa_key = replicate 253 0 @ [1, 0, 1]"
  by (intro nth_equalityI) (auto simp: get_default_rsa_key_def nth_append nth_list_update nth_Cons')

lemma rsa_e_val: "length (rk_e get_default_rsa_key) = 256" "be_val (rk_e get_default_rsa_key) = 65537"
  unfolding rsa_e_bytes by (simp_all only: be_val_zeros) (simp_all add: be_val_def)

lemmas num_arith = numeral_times_numeral numeral_plus_numeral mult_num_simps add_num_simps

lemma rsa_div_0: "0x100000000000000000000000000000000000000000000000000000000000000000000000000000000000000000000000000000000000000000000000000000000000000000000000000000000000000000000000000000000000000000000000000000000000000000000000000000000000000000000000000000000000000000000000000000000000000000000000000000000000000000000000000000000000000000000000000000000000000000000000000000000000000000000000000000000000000000000000000000000000000000000000000000000000000000000000000000000000000000000000000000000000000000000000000000000 = 17 * rsa_N + 0x70101ffe07d337f96efc4b041d5ae59403a249f2652a30a4156c86858ded3966f55144c475a473b7da149d602253079701d4d43d744b8a43027d4b9b725b2515e692a582e9bd2d99b578f336caa2971fda2fd5a28f03bd866bda3d634040a90da20e3e557d4016cd4897f507b2190ec001e480acc13cb29ae105291992ab17a0c2392bf19899f7edf1f572a4a4061794a477453fb9a1f1fcff77e76d1fd70cbf54a2453d613d5fdbf63c94a42f43adaffbaa38bd85e4d44ca9a4cf8480cf76481f154b3fc89fb07c791d9b9a0d235e168a0ad6e3f3ff941bc4a1cae6e64dd296bd72358319fdbd709dc028bbe3373d19c6e582d7a256f7df37c4d9d75b5e6e9"
  unfolding rsa_N_def by (simp only: num_arith)

lemma rsa_div_1: "0x100000000000000000000000000000000 * 0x70101ffe07d337f96efc4b041d5ae59403a249f2652a30a4156c86858ded3966f55144c475a473b7da149d602253079701d4d43d744b8a43027d4b9b725b2515e692a582e9bd2d99b578f336caa2971fda2fd5a28f03bd866bda3d634040a90da20e3e557d4016cd4897f507b2190ec001e480acc13cb29ae105291992ab17a0c2392bf19899f7edf1f572a4a4061794a477453fb9a1f1fcff77e76d1fd70cbf54a2453d613d5fdbf63c94a42f43adaffbaa38bd85e4d44ca9a4cf8480cf76481f154b3fc89fb07c791d9b9a0d235e168a0ad6e3f3ff941bc4a1cae6e64dd296bd72358319fdbd709dc028bbe3373d19c6e582d7a256f7df37c4d9d75b5e6e9 =
  0x7a6a870e9b9cfcfa7090c26328a3c7ab * rsa_N + 0x70862ba7f7747c3624f995633d96958e9bed9325e542a171b14e444b08d0c0fae8488546fe6f5aa62a99a8ed3dd66508107b710e695c68f39fa33e6c8b75b87c0372721c83be5953bb4447c80fdbeae3e86c249e1f2eadccd21b919ebc9f1e6d89c57e8541e850ad00fb7bff746754e4370ce14f0f97170ab6f1f77dd5ff70f78c3b7788cc1e5ee426a7768e48ee9bcb38cdba0e5b0e717c6502b7b5a996e5d48eb2c6a79744405cda071c15b52c94d22985dcddd650a62e846bd7fd5e4d6d0b6d8ed06fb2c1356a1cce854e9a60d18b44a1c4d45cb5b49a1ef6023bbbe597fde4b830ed319f49367d52e617dabb9bd6548e0fbd3c0b218e9244382caab0573"
  unfolding rsa_N_def by (simp only: num_arith)

lemma rsa_div_2: "0x100000000000000000000000000000000 * 0x70862ba7f7747c3624f995633d96958e9bed9325e542a171b14e444b08d0c0fae8488546fe6f5aa62a99a8ed3dd66508107b710e695c68f39fa33e6c8b75b87c0372721c83be5953bb4447c80fdbeae3e86c249e1f2eadccd21b919ebc9f1e6d89c57e8541e850ad00fb7bff746754e4370ce14f0f97170ab6f1f77dd5ff70f78c3b7788cc1e5ee426a7768e48ee9bcb38cdba0e5b0e717c6502b7b5a996e5d48eb2c6a79744405cda071c15b52c94d22985dcddd650a62e846bd7fd5e4d6d0b6d8ed06fb2c1356a1cce854e9a60d18b44a1c4d45cb5b49a1ef6023bbbe597fde4b830ed319f49367d52e617dabb9bd6548e0fbd3c0b218e9244382caab0573 =
  0x7aeb7a9e0baf86d171b252467f9da392 * rsa_N + 0xb2448cf0e4f471978989b7c03a3cacbb03db41926f3b447b98c741442ae0813a2e3d243076ffd2f6f81b06f603d6f945cd1f77103d84312eaaa52728bb68743d6ebd1d1eb4173d63b04696d109ca1ae229ffebeb5f9843ff1cc97038960df90844ddb8230b5399eefa3ca101c3d587c0f55f426138d418d0fd7615714df73814b90a7b12402b56055a79d903033863aea7240531026ca140cc85e8aee576dc47d8a6cda4f6df148a5b37865b690eb932e1ee4589be40b6f68c2f13a77ea0f9b1839ae3ecdf1c4b2756eef22266800e9cb0bd9bb3ad8c7d458051b20b795d5e32222d257609e92c0c287764977d8983a91178cb9c9b9792cf9a56544d5280fc2"
  unfolding rsa_N_def by (simp only: num_arith)

lemma rsa_div_3: "0x100000000000000000000000000000000 * 0xb2448cf0e4f471978989b7c03a3cacbb03db41926f3b447b98c741442ae0813a2e3d243076ffd2f6f81b06f603d6f945cd1f77103d84312eaaa52728bb68743d6ebd1d1eb4173d63b04696d109ca1ae229ffebeb5f9843ff1cc97038960df90844ddb8230b5399eefa3ca101c3d587c0f55f426138d418d0fd7615714df73814b90a7b12402b56055a79d903033863aea7240531026ca140cc85e8aee576dc47d8a6cda4f6df148a5b37865b690eb932e1ee4589be40b6f68c2f13a77ea0f9b1839ae3ecdf1c4b2756eef22266800e9cb0bd9bb3ad8c7d458051b20b795d5e32222d257609e92c0c287764977d8983a91178cb9c9b9792cf9a56544d5280fc2 =
  0xc2bcc3598af8667986d31fe1e8f3ec33 * rsa_N + 0x402515add41a59726e744cdd9e9d308bc63ff4611bf8331652fb3f00311cd40a4269b373880328d170e0325e01cf6c0e095f819a077670d6db857c2910893fc1902ee55b3766efb7bc2448dd9d4e7a9f77886f4ed5914dea1999e86e1a9a9ee44dc1ceda74df2cb657d25e78232f63df0eddd216bfc48b4c021cec306289f0b8428023e8a0148c016d1e269ae0a4021900117498e48e855c5d62e0319dc500e30b9abe9eb4bcb72b494dc460894a4385ea285c0f4419d0d91ce23165a37fdf376328e1a35fbf003641c9ac1a4f9a227b9687be291abadd0b712568e509ccf03b48334f83c54e6eb113f6b19d1975bd6b1fb90e9bed5cc9d6cf5f672619ac0bb"
  unfolding rsa_N_def by (simp only: num_arith)

lemma rsa_div_4: "0x100000000000000000000000000000000 * 0x402515add41a59726e744cdd9e9d308bc63ff4611bf8331652fb3f00311cd40a4269b373880328d170e0325e01cf6c0e095f819a077670d6db857c2910893fc1902ee55b3766efb7bc2448dd9d4e7a9f77886f4ed5914dea1999e86e1a9a9ee44dc1ceda74df2cb657d25e78232f63df0eddd216bfc48b4c021cec306289f0b8428023e8a0148c016d1e269ae0a4021900117498e48e855c5d62e0319dc500e30b9abe9eb4bcb72b494dc460894a4385ea285c0f4419d0d91ce23165a37fdf376328e1a35fbf003641c9ac1a4f9a227b9687be291abadd0b712568e509ccf03b48334f83c54e6eb113f6b19d1975bd6b1fb90e9bed5cc9d6cf5f672619ac0bb =
  0x46122ce121e41f69b1d767bd1669a621 * rsa_N + 0x8305b0d8fb2545d854be4bcc79abb8b1b31009cebffb02a4788a3e8771531b844d033441fc90c8f59837153c143375a87b53e93fd94ba07acd09c36473ffdd219aabb21e09aa0d0afe2399a8993825ffca481fd4dcce8e397e271536f1a205c43e5eaf010702610bbabaa0239b879a906f0c43f520fde30b833bd37a03e6f35bb577a37bc17e59ce396d5e6f38ea67e3c6b4439d822a9cab28dc6b42592a16f175ae65dc93bcabbc8d604a272d6454b5807d1aa160b516eb4dda67f933293bee49fa12a957484328b4ccc885650f57b1d960b833f637ed9d565c5d2de38c4090f1bcdd0f77f13af71617cd2c86daa50cf3aed8dab9cded870868b2ea383b279"
  unfolding rsa_N_def by (simp only: num_arith)

lemma rsa_div_5: "0x100000000000000000000000000000000 * 0x8305b0d8fb2545d854be4bcc79abb8b1b31009cebffb02a4788a3e8771531b844d033441fc90c8f59837153c143375a87b53e93fd94ba07acd09c36473ffdd219aabb21e09aa0d0afe2399a8993825ffca481fd4dcce8e397e271536f1a205c43e5eaf010702610bbabaa0239b879a906f0c43f520fde30b833bd37a03e6f35bb577a37bc17e59ce396d5e6f38ea67e3c6b4439d822a9cab28dc6b42592a16f175ae65dc93bcabbc8d604a272d6454b5807d1aa160b516eb4dda67f933293bee49fa12a957484328b4ccc885650f57b1d960b833f637ed9d565c5d2de38c4090f1bcdd0f77f13af71617cd2c86daa50cf3aed8dab9cded870868b2ea383b279 =
  0x8f207fa2ac9384768f4013131dbaa950 * rsa_N + 0x137674aadd5b0ff6bd4c711b490916f069c3765b75a511b9b44de93142d0f543273e255d525e196488f61183f37a2aa1c0d7544d4ff4d092e020f4ff36320c15014e095eb07d0972573af11d37a6df0bea4e37da8600cb1ff5b1e7d6777ba2c674747a677d2abd2cdab14219d3a92aae2fb88efdd88c387469777d1a285a229a1cc5cbfbcba185e24d31de384df064f4e4b5f3d240f48e74935b47c65e300f1d76833ae394609d83130a1be9bcaf46f84ffbff337da35b6553ba830fb469aa9bcda11475f5cd6ebaaab5116526c87a75bc28a23e86bd5cdf86db886eb488f2ccc69230fa54a6ee92a2bcb5400e03eb3bb83782ac3d5d361ad19c0351e9f2cd0"
  unfolding rsa_N_def by (simp only: num_arith)

lemma rsa_div_6: "0x100000000000000000000000000000000 * 0x137674aadd5b0ff6bd4c711b490916f069c3765b75a511b9b44de93142d0f543273e255d525e196488f61183f37a2aa1c0d7544d4ff4d092e020f4ff36320c15014e095eb07d0972573af11d37a6df0bea4e37da8600cb1ff5b1e7d6777ba2c674747a677d2abd2cdab14219d3a92aae2fb88efdd88c387469777d1a285a229a1cc5cbfbcba185e24d31de384df064f4e4b5f3d240f48e74935b47c65e300f1d76833ae394609d83130a1be9bcaf46f84ffbff337da35b6553ba830fb469aa9bcda11475f5cd6ebaaab5116526c87a75bc28a23e86bd5cdf86db886eb488f2ccc69230fa54a6ee92a2bcb5400e03eb3bb83782ac3d5d361ad19c0351e9f2cd0 =
  0x1542c4c43031e40d416144b0cf669b1e * rsa_N + 0x3baa09d916e0030d594c860f5cb83dcb64720223a614afe801b3eb9c001c2003ef212a7306b9ff7a9722b1d07a5f95f6858e81f15874998eb35c73a49423512f9c660c1f6e525768b75194e54740d87855c1eb5dd20cc4daca4df8ee18f3b680109ae4d89599514c455540ce16833813a090cf069f20b9f49c34d11e03b211c5a2dd90be67191f4bbe8a31b57db2b95335c6a6abd17f136061160f854f1348a4d1df73b006a2599cea416236860913e518b28adff16031c5a7354380d4f4f756a3401f99b1cacb3ac2a340e36923c867703fae8c46e334f048e0dc54d9f4ea97eec17f2f72a77369ae1decb597970ebfb2b6556c288978d2c3e9779f5ff6b6e"
  unfolding rsa_N_def by (simp only: num_arith)

lemma rsa_div_7: "0x100000000000000000000000000000000 * 0x3baa09d916e0030d594c860f5cb83dcb64720223a614afe801b3eb9c001c2003ef212a7306b9ff7a9722b1d07a5f95f6858e81f15874998eb35c73a49423512f9c660c1f6e525768b75194e54740d87855c1eb5dd20cc4daca4df8ee18f3b680109ae4d89599514c455540ce16833813a090cf069f20b9f49c34d11e03b211c5a2dd90be67191f4bbe8a31b57db2b95335c6a6abd17f136061160f854f1348a4d1df73b006a2599cea416236860913e518b28adff16031c5a7354380d4f4f756a3401f99b1cacb3ac2a340e36923c867703fae8c46e334f048e0dc54d9f4ea97eec17f2f72a77369ae1decb597970ebfb2b6556c288978d2c3e9779f5ff6b6e =
  0x412d283fe206cfd922125918c807188b * rsa_N + 0x672f33536e06f86993a08fbc68966e9d31f73c14e1bf2b0bf9f64418be293092cfc782838755871ff356e1755c0ebc1fd5322de5e5a46dfb94c2ee48a8e04ba6edd2bd94f3abe82bc5fca32af2cf7d3ee4bb5737a7b606eb21eccbc3c0344e9f706a7152120b0ca144d819b001f6e458cb700eaac8700edca838a71d44c740d3c5cc94687d9c397e1a08af802c502caff1470df4cf8e51cb69c3ae79534a85cbe016e05b924b8da8e6bc249e3b009596f6f688c1b883a82c9489541c5cc6c6db10081e4fe44409221bd182fbe3e3f64d0762fa2fbfd544438c91deb32739b3cd2e9e6e602b4fc48d5d5dd921301191c5a35ea3dcc60a9506cf0d568c390353"
  unfolding rsa_N_def by (simp only: num_arith)

lemma rsa_div_8: "0x100000000000000000000000000000000 * 0x672f33536e06f86993a08fbc68966e9d31f73c14e1bf2b0bf9f64418be293092cfc782838755871ff356e1755c0ebc1fd5322de5e5a46dfb94c2ee48a8e04ba6edd2bd94f3abe82bc5fca32af2cf7d3ee4bb5737a7b606eb21eccbc3c0344e9f706a7152120b0ca144d819b001f6e458cb700eaac8700edca838a71d44c740d3c5cc94687d9c397e1a08af802c502caff1470df4cf8e51cb69c3ae79534a85cbe016e05b924b8da8e6bc249e3b009596f6f688c1b883a82c9489541c5cc6c6db10081e4fe44409221bd182fbe3e3f64d0762fa2fbfd544438c91deb32739b3cd2e9e6e602b4fc48d5d5dd921301191c5a35ea3dcc60a9506cf0d568c390353 =
  0x70b79d6fb18d008abdd8ef6e8b613a6 * rsa_N + 0xe7d39330a364ec0f1b5c5f192125924fb91cd0777b89e9cabf308bb4ec5660cf938654f6e0f62e13e9f7f1d7339e8e2f2c5f4d2f72d14980414e7fdd93bc2dbdf3a857e7a4e81331a47e50f273e9577221405191b0b9effbccfffd7f7b76068b8536cb247573437eaa1cf4b63b578445b8ba9d81f2d3ee8c13bef9fec781bb42ea521e33542f4446a051ccf51e6974ca4162e2f9aa07e0f9652097e4e4e4a23b4a71a56167b2a83800f2e2ed3cb2a3e4e39fbe3b818b246d040c3ff6695debd4db80e922e27ddf43864d4ec725f3d70f667e185c01ba829f6e596238eae56f9e4d2ca4ad2e7f6e514a007ec58d5d844a56406b84c4a96274af10a4111475ab6"
  unfolding rsa_N_def by (simp only: num_arith)

lemma rsa_div_9: "0x100000000000000000000000000000000 * 0xe7d39330a364ec0f1b5c5f192125924fb91cd0777b89e9cabf308bb4ec5660cf938654f6e0f62e13e9f7f1d7339e8e2f2c5f4d2f72d14980414e7fdd93bc2dbdf3a857e7a4e81331a47e50f273e9577221405191b0b9effbccfffd7f7b76068b8536cb247573437eaa1cf4b63b578445b8ba9d81f2d3ee8c13bef9fec781bb42ea521e33542f4446a051ccf51e6974ca4162e2f9aa07e0f9652097e4e4e4a23b4a71a56167b2a83800f2e2ed3cb2a3e4e39fbe3b818b246d040c3ff6695debd4db80e922e27ddf43864d4ec725f3d70f667e185c01ba829f6e596238eae56f9e4d2ca4ad2e7f6e514a007ec58d5d844a56406b84c4a96274af10a4111475ab6 =
  0xfd3e81248c6d164401e717cb1de9b033 * rsa_N + 0x66faca7639f8a7744c01cc2980d4b6ae0191e15bf2dbf1588139d69fbdd1a1092e2ed5a4d6e376a6a99c06214fdfff89af9b73140d5bfade8e0d6c3360555a35c95ec1f06ffb59a3b58baf2fd856647997ccaa4e382a1d75cdc0ba7f7b4e5dd2ea40deb173fb0732061610819b739485ef447d199268743808515fdc345bbd26bbc21639002ee380b47d883d42fc06b9d4608c0d00c29e00d459b14ad9fc50c59112285bd6084a1ca40cde8e82d48e91f3b6c276d3ad3335c8d6bf1f7dcf3796173c29aca29eb1fbe509b2252a810274c30c66bcb0836bddd2865a24115828e76fbb89bc8d8f796ab35dde44e81f534663846041752538f6f10775100fe4bb"
  unfolding rsa_N_def by (simp only: num_arith)

lemma rsa_div_10: "0x100000000000000000000000000000000 * 0x66faca7639f8a7744c01cc2980d4b6ae0191e15bf2dbf1588139d69fbdd1a1092e2ed5a4d6e376a6a99c06214fdfff89af9b73140d5bfade8e0d6c3360555a35c95ec1f06ffb59a3b58baf2fd856647997ccaa4e382a1d75cdc0ba7f7b4e5dd2ea40deb173fb0732061610819b739485ef447d199268743808515fdc345bbd26bbc21639002ee380b47d883d42fc06b9d4608c0d00c29e00d459b14ad9fc50c59112285bd6084a1ca40cde8e82d48e91f3b6c276d3ad3335c8d6bf1f7dcf3796173c29aca29eb1fbe509b2252a810274c30c66bcb0836bddd2865a24115828e76fbb89bc8d8f796ab35dde44e81f534663846041752538f6f10775100fe4bb =
  0x707e5d082272c09b1ad094c835ca5aa * rsa_N + 0x61a489af37e0005bd1dfd22b389c058d39d7122751f930682ece67037579e49ae71c2b9f97484a5875ddd889bb1c3db0d803da88a7fc6ad4c40a7dc1ea25cd45f9628330b90fc3fb8ee2427137815496f828491ef2cce1ccdd2a5d535419fb2edd7da5d86c5d5812f4a0a27e3184d613fec6177b15b2175b10234b10c5ea9d5373649f6985761df830ca355245bcd45a39cb8dd36ce2bde033606a993935c65e7305af62a888d6d6b468124685df11fdf9bec97e6dd2d60695647f802dc3d8939c7ac0020a8d53cc1151c941d15902816408fbbb27195313c87e3e6be311a307dc5bb9d34169fd9b291f91a76ea3bea0acd8898189f602765c34da7af05621a"
  unfolding rsa_N_def by (simp only: num_arith)

lemma rsa_div_11: "0x100000000000000000000000000000000 * 0x61a489af37e0005bd1dfd22b389c058d39d7122751f930682ece67037579e49ae71c2b9f97484a5875ddd889bb1c3db0d803da88a7fc6ad4c40a7dc1ea25cd45f9628330b90fc3fb8ee2427137815496f828491ef2cce1ccdd2a5d535419fb2edd7da5d86c5d5812f4a0a27e3184d613fec6177b15b2175b10234b10c5ea9d5373649f6985761df830ca355245bcd45a39cb8dd36ce2bde033606a993935c65e7305af62a888d6d6b468124685df11fdf9bec97e6dd2d60695647f802dc3d8939c7ac0020a8d53cc1151c941d15902816408fbbb27195313c87e3e6be311a307dc5bb9d34169fd9b291f91a76ea3bea0acd8898189f602765c34da7af05621a =
  0x6aa9e2fe49003572f8117c62a61e93a7 * rsa_N + 0x14c9b5dde126792392cd85ff169b1abe95fd1ba6f1190a0d93624aae96ccc77309fa4efd95e9d01d628e5b59bfd1f23065932bb6a85609b69c0030f742e315df42fe8934bd33b8e2a81bddee1d51b421c26ee3b55adde20ec7059f7d17c8101d1dbdf9f3a8679b985219800b720bc974a23c199d0123f498706d222a0cfcaaf21c7f0f0c3394841033f7a5fb3e3bd9b804821f3512f8e26eceaf8d284241488b8ebf3d2107b1c9a83087936a58c9d191af9e238b357bc6a92927486fc9c4429034578aa48adb1bc06f868ad256c62e684212242c075fe462b70d5f6a4dbcb4b7f52c3dc91b660ff05dd12b28470378694fde6eaea178ba1189c79357e44ac0f"
  unfolding rsa_N_def by (simp only: num_arith)

lemma rsa_div_12: "0x100000000000000000000000000000000 * 0x14c9b5dde126792392cd85ff169b1abe95fd1ba6f1190a0d93624aae96ccc77309fa4efd95e9d01d628e5b59bfd1f23065932bb6a85609b69c0030f742e315df42fe8934bd33b8e2a81bddee1d51b421c26ee3b55adde20ec7059f7d17c8101d1dbdf9f3a8679b985219800b720bc974a23c199d0123f498706d222a0cfcaaf21c7f0f0c3394841033f7a5fb3e3bd9b804821f3512f8e26eceaf8d284241488b8ebf3d2107b1c9a83087936a58c9d191af9e238b357bc6a92927486fc9c4429034578aa48adb1bc06f868ad256c62e684212242c075fe462b70d5f6a4dbcb4b7f52c3dc91b660ff05dd12b28470378694fde6eaea178ba1189c79357e44ac0f =
  0x16b55dae48d4c6f768600872c5869e23 * rsa_N + 0xd88e127f37e6c519e5c1a31ad7e2c5e57fa50737dfcecc9b73a6a409bf2f45f9572e379afa8042b80b44682735eb8b12f492947a712df39f51b070f8240fa60b831bd30678d33501e70414f08abd5b483f3036908e64b1057b3cd6ff701da830634dd3818c1e95bc282ec6ae800a978d3c65a01e32e577d356ed8047e423b9cdf3122ba13ef56e98bc395ceaf4b36d4b1ca041114a7275227109fb36734b0839655b16339283df56c8862559caaf682e87faed17568307080ea33c7d972b403abc6a09f91e45278775a666c3281acc04fb3e7082d0cc9c6248b45c1e35e9cbbdc6dde388d250adb58c1651c142d441f20d7e4478ee0ccefa7f861d0715f8d2b"
  unfolding rsa_N_def by (simp only: num_arith)

lemma rsa_div_13: "0x100000000000000000000000000000000 * 0xd88e127f37e6c519e5c1a31ad7e2c5e57fa50737dfcecc9b73a6a409bf2f45f9572e379afa8042b80b44682735eb8b12f492947a712df39f51b070f8240fa60b831bd30678d33501e70414f08abd5b483f3036908e64b1057b3cd6ff701da830634dd3818c1e95bc282ec6ae800a978d3c65a01e32e577d356ed8047e423b9cdf3122ba13ef56e98bc395ceaf4b36d4b1ca041114a7275227109fb36734b0839655b16339283df56c8862559caaf682e87faed17568307080ea33c7d972b403abc6a09f91e45278775a666c3281acc04fb3e7082d0cc9c6248b45c1e35e9cbbdc6dde388d250adb58c1651c142d441f20d7e4478ee0ccefa7f861d0715f8d2b =
  0xec8fd0c5646cd2169f72d5ff07e499cd * rsa_N + 0x359bf65f731d12956c2bbb0487c99d0e7dc49c643810640a9a7fd44baa77466ef8e893f92e0b607ecf7b3c07920fb8f7cbcfefcc655fad70349179857ef53e9310b61dfe5d3ca2a8454ddc0925cc364378aa57d07327dd362f5ea1d17a0a48ee93ca35152b4fe47bf3949f6b4947a42942d26e91d3282954de874b34701feebba32e6f25f15e6543478d8e0b8452b481a56b53368a16c1d75143939825b0ade7ec070dc3079e1a5229081cdbf6ac3af4565bdb4432a5a55ef4d86c25e85d870dab39e973460a6de8775a94fe14a8da2fd5f6f7d864f22a7dbdac9cafd003a01693af71965a9d27232fe81613b3fc8c8e1b163fc2d518f24b2522c490f11d545"
  unfolding rsa_N_def by (simp only: num_arith)

lemma rsa_div_14: "0x100000000000000000000000000000000 * 0x359bf65f731d12956c2bbb0487c99d0e7dc49c643810640a9a7fd44baa77466ef8e893f92e0b607ecf7b3c07920fb8f7cbcfefcc655fad70349179857ef53e9310b61dfe5d3ca2a8454ddc0925cc364378aa57d07327dd362f5ea1d17a0a48ee93ca35152b4fe47bf3949f6b4947a42942d26e91d3282954de874b34701feebba32e6f25f15e6543478d8e0b8452b481a56b53368a16c1d75143939825b0ade7ec070dc3079e1a5229081cdbf6ac3af4565bdb4432a5a55ef4d86c25e85d870dab39e973460a6de8775a94fe14a8da2fd5f6f7d864f22a7dbdac9cafd003a01693af71965a9d27232fe81613b3fc8c8e1b163fc2d518f24b2522c490f11d545 =
  0x3a8fdfe9c7359dded9bfab777b7cdbaa * rsa_N + 0xabc9530457c788071b27343d9ad77ed36438bbf73090a40c673b68836c592c887078304198e9b9ae504aa61eec57a0f4943cda60b06a5f5ba226be09ff1092fc20a08f06ae962b1764c60030863a9e5f6ac82db3051a780fd8381cb4d876b0842e61a6f611f6fb4c3badb2c5ecb97cbb5504edc4abfbc77a2c74940dec7dbc473f4ab428130c138a29572fa0139aa8315c6e719d4a3dcb5f7747c05c4a330dce2bbd73fea2430ded225eb8561da83c06a0464cd576ced66c6d346926040f1371eec4f0eed950f3a6db1e91a1c83eb9d3ff7ee042c4ee0f418263e22780045e13ccf74b267b40ac523d1a924dd233e59eda5d86a84b058298bc9dc54ae4e281a"
  unfolding rsa_N_def by (simp only: num_arith)

lemma rsa_div_15: "0x100000000000000000000000000000000 * 0xabc9530457c788071b27343d9ad77ed36438bbf73090a40c673b68836c592c887078304198e9b9ae504aa61eec57a0f4943cda60b06a5f5ba226be09ff1092fc20a08f06ae962b1764c60030863a9e5f6ac82db3051a780fd8381cb4d876b0842e61a6f611f6fb4c3badb2c5ecb97cbb5504edc4abfbc77a2c74940dec7dbc473f4ab428130c138a29572fa0139aa8315c6e719d4a3dcb5f7747c05c4a330dce2bbd73fea2430ded225eb8561da83c06a0464cd576ced66c6d346926040f1371eec4f0eed950f3a6db1e91a1c83eb9d3ff7ee042c4ee0f418263e22780045e13ccf74b267b40ac523d1a924dd233e59eda5d86a84b058298bc9dc54ae4e281a =
  0xbba83f0d73e178a25fcc9728876b71f0 * rsa_N + 0x2e0c21d9ba035395155a2df7fe99a2f828c724923343052c0b19c4496c5dc25be96efe183c8f55287f6c41885b88cef576a34415d1142e9166017dac6565622af6085bcff57cccae7c8ed640d4cbf424e7bf227601bbbdeffd5547e68074c432671ebdd8a0277282c7d9271071123f690681b29a8b064776963cf9ac06b09e1553472a230e3b17ab8d3a74cde652518c61c30cd0c406163645e10ff16b2aca48adb6b6accafaad691ef4348d8bf95552f8e3b135e6477f3dc5d6e0cdc4e90cbc3ca2981e7168447ec7e86571b363f83907ed36b206dae91774372882fc2e27078278bef4b4ed6ff56edc6d99eb8336cddbadb515b762e80ed781cb169df8c70"
  unfolding rsa_N_def by (simp only: num_arith)

lemma rsa_div_16: "0x100000000000000000000000000000000 * 0x2e0c21d9ba035395155a2df7fe99a2f828c724923343052c0b19c4496c5dc25be96efe183c8f55287f6c41885b88cef576a34415d1142e9166017dac6565622af6085bcff57cccae7c8ed640d4cbf424e7bf227601bbbdeffd5547e68074c432671ebdd8a0277282c7d9271071123f690681b29a8b064776963cf9ac06b09e1553472a230e3b17ab8d3a74cde652518c61c30cd0c406163645e10ff16b2aca48adb6b6accafaad691ef4348d8bf95552f8e3b135e6477f3dc5d6e0cdc4e90cbc3ca2981e7168447ec7e86571b363f83907ed36b206dae91774372882fc2e27078278bef4b4ed6ff56edc6d99eb8336cddbadb515b762e80ed781cb169df8c70 =
  0x324d330e82786688071df27174d33458 * rsa_N + 0x194105fe0e6b1cdbbfae852e88bf99298675783eda94b36b1076ef9b00e43c97cfa18e9cda9c8055c9746d3a19ddc3eda0da4c776a29ec354ab3eacd0f8cc75b2006eb1abca6665bfb36ca8a20b02c3b7f3ed4ff1611fe257bd5e8d1016ca3dafc5ef2e83a273b92e4b658e6c32b85e29e9ff5f3dfc94bac1f99522b50fba014f1b66ca28cfe0067693da5b0e636db6938f5e185e3482ed30051ba2243229e28a50b1203fc71b6a9e838e0757481b542ec8a119665cde2688c8bd05b6c133a817a9fa135259af23ae663dc1da68b1b58b0bf7b631d0d812172fc7142f817c0d678a8df6ef69beda438002dba72b27bbec88f1183048670cdd81409d40e90a98"
  unfolding rsa_N_def by (simp only: num_arith)

lemma rsa_r2_val: "be_val rsa_n_r2_be = 0x194105fe0e6b1cdbbfae852e88bf99298675783eda94b36b1076ef9b00e43c97cfa18e9cda9c8055c9746d3a19ddc3eda0da4c776a29ec354ab3eacd0f8cc75b2006eb1abca6665bfb36ca8a20b02c3b7f3ed4ff1611fe257bd5e8d1016ca3dafc5ef2e83a273b92e4b658e6c32b85e29e9ff5f3dfc94bac1f99522b50fba014f1b66ca28cfe0067693da5b0e636db6938f5e185e3482ed30051ba2243229e28a50b1203fc71b6a9e838e0757481b542ec8a119665cde2688c8bd05b6c133a817a9fa135259af23ae663dc1da68b1b58b0bf7b631d0d812172fc7142f817c0d678a8df6ef69beda438002dba72b27bbec88f1183048670cdd81409d40e90a98"
  by (simp add: be_val_def rsa_n_r2_be_def)

lemma div_start: "(x :: nat) = q * N + r \<Longrightarrow> x mod N = r mod N"
  by simp

lemma div_step:
  fixes x :: nat
  assumes "x mod N = r mod N" "B * r = q * N + r'"
  shows "(x * B) mod N = r' mod N"
proof -
  have "(x * B) mod N = (B * r) mod N" using assms(1) by (metis mod_mult_left_eq mult.commute)
  then show ?thesis unfolding assms(2) by simp
qed

theorem rsa_r2_correct: "be_val rsa_n_r2_be mod be_val rsa_n_init = 2 ^ 4096 mod be_val rsa_n_init"
proof -
  note s = div_start [OF rsa_div_0]
  note s = div_step [OF s rsa_div_1]
  note s = div_step [OF s rsa_div_2]
  note s = div_step [OF s rsa_div_3]
  note s = div_step [OF s rsa_div_4]
  note s = div_step [OF s rsa_div_5]
  note s = div_step [OF s rsa_div_6]
  note s = div_step [OF s rsa_div_7]
  note s = div_step [OF s rsa_div_8]
  note s = div_step [OF s rsa_div_9]
  note s = div_step [OF s rsa_div_10]
  note s = div_step [OF s rsa_div_11]
  note s = div_step [OF s rsa_div_12]
  note s = div_step [OF s rsa_div_13]
  note s = div_step [OF s rsa_div_14]
  note s = div_step [OF s rsa_div_15]
  note s = div_step [OF s rsa_div_16]
  have e: "0x100000000000000000000000000000000000000000000000000000000000000000000000000000000000000000000000000000000000000000000000000000000000000000000000000000000000000000000000000000000000000000000000000000000000000000000000000000000000000000000000000000000000000000000000000000000000000000000000000000000000000000000000000000000000000000000000000000000000000000000000000000000000000000000000000000000000000000000000000000000000000000000000000000000000000000000000000000000000000000000000000000000000000000000000000000000 * 0x100000000000000000000000000000000 * 0x100000000000000000000000000000000 * 0x100000000000000000000000000000000 * 0x100000000000000000000000000000000 * 0x100000000000000000000000000000000 * 0x100000000000000000000000000000000 * 0x100000000000000000000000000000000 * 0x100000000000000000000000000000000 * 0x100000000000000000000000000000000 * 0x100000000000000000000000000000000 * 0x100000000000000000000000000000000 * 0x100000000000000000000000000000000 * 0x100000000000000000000000000000000 * 0x100000000000000000000000000000000 * 0x100000000000000000000000000000000 * 0x100000000000000000000000000000000 = (2 ^ 4096 :: nat)" by simp
  show ?thesis unfolding rsa_n_val rsa_r2_val by (rule s [unfolded e, symmetric])
qed

end
