(* ===== verification/Sha256.thy ===== *)
theory Sha256
  imports Prelude
begin

text \<open>
  SHA-256 and HMAC of \<open>src/crypto.c\<close>. The context of the code takes the message byte by byte and
  compresses its buffer whenever it is full; the specification pads the whole message and folds the
  compression function over its blocks (FIPS 180-4). \<open>absorb\<close> is the part both share, for any block
  size: what compressing the full blocks of a message leaves.
\<close>

section \<open>Absorbing a message in blocks\<close>

function absorb :: "nat \<Rightarrow> ('s \<Rightarrow> u8 list \<Rightarrow> 's) \<Rightarrow> 's \<Rightarrow> u8 list \<Rightarrow> 's \<times> u8 list" where
  "absorb B f st m =
     (if B = 0 \<or> length m < B then (st, m) else absorb B f (f st (take B m)) (drop B m))"
  by pat_completeness auto
termination by (relation "measure (\<lambda>(B, f, st, m). length m)") auto

declare absorb.simps [simp del]

lemma absorb_short: "length m < B \<Longrightarrow> absorb B f st m = (st, m)"
  by (simp add: absorb.simps)

lemma absorb_block: "0 < B \<Longrightarrow> length b = B \<Longrightarrow> absorb B f st (b @ m) = absorb B f (f st b) m"
  by (subst absorb.simps) simp

lemma absorb_append:
  assumes "0 < B"
  shows "absorb B f st (m @ x) = (case absorb B f st m of (st', r) \<Rightarrow> absorb B f st' (r @ x))"
proof (induction m arbitrary: st rule: length_induct)
  case (1 m)
  show ?case
  proof (cases "length m < B")
    case False
    have "absorb B f st (m @ x) = absorb B f (f st (take B m)) (drop B m @ x)"
      using absorb_block [OF assms, of "take B m" f st "drop B m @ x"] False
      by (simp flip: append_assoc)
    moreover have "absorb B f st m = absorb B f (f st (take B m)) (drop B m)"
      using False assms by (subst absorb.simps) simp
    moreover have "length (drop B m) < length m" using False assms by simp
    ultimately show ?thesis using 1 by simp
  qed (simp add: absorb_short)
qed

lemma absorb_rest: "0 < B \<Longrightarrow> length (snd (absorb B f st m)) = length m mod B"
proof (induction m arbitrary: st rule: length_induct)
  case (1 m)
  show ?case
  proof (cases "length m < B")
    case False
    have "length (drop B m) < length m" using False 1(2) by simp
    with 1 have "length (snd (absorb B f (f st (take B m)) (drop B m))) = length (drop B m) mod B" by blast
    then show ?thesis using False 1(2) by (subst absorb.simps) (simp add: le_mod_geq)
  qed (simp add: absorb_short)
qed

lemma absorb_one:
  assumes "0 < B" "absorb B f st m = (st', r)"
  shows "absorb B f st (m @ [x]) = (if length r + 1 = B then (f st' (r @ [x]), []) else (st', r @ [x]))"
proof -
  have "length r < B" using absorb_rest [OF assms(1), of f st m] assms by simp
  then show ?thesis
    using absorb_append [OF assms(1), of f st m "[x]"] absorb_block [OF assms(1), of "r @ [x]" f st' "[]"] assms
    by (auto simp: absorb_short)
qed

section \<open>The code\<close>

record sha256_ctx =
  sha_state :: "u32 list"
  sha_count :: u64
  sha_buffer :: "u8 list"

text \<open>The table of the code, in decimal.\<close>

definition sha256_k :: "u32 list" where
  "sha256_k =
    [1116352408, 1899447441, 3049323471, 3921009573, 961987163, 1508970993, 2453635748, 2870763221,
     3624381080, 310598401, 607225278, 1426881987, 1925078388, 2162078206, 2614888103, 3248222580,
     3835390401, 4022224774, 264347078, 604807628, 770255983, 1249150122, 1555081692, 1996064986,
     2554220882, 2821834349, 2952996808, 3210313671, 3336571891, 3584528711, 113926993, 338241895,
     666307205, 773529912, 1294757372, 1396182291, 1695183700, 1986661051, 2177026350, 2456956037,
     2730485921, 2820302411, 3259730800, 3345764771, 3516065817, 3600352804, 4094571909, 275423344,
     430227734, 506948616, 659060556, 883997877, 958139571, 1322822218, 1537002063, 1747873779,
     1955562222, 2024104815, 2227730452, 2361852424, 2428436474, 2756734187, 3204031479, 3329325298]"

definition rotr32 :: "u32 \<Rightarrow> nat \<Rightarrow> u32" where
  "rotr32 x n = drop_bit n x OR push_bit (32 - n) x"

definition load32 :: "u8 list \<Rightarrow> nat \<Rightarrow> u32" where
  "load32 data i = push_bit 24 (ucast (data ! (i * 4))) OR push_bit 16 (ucast (data ! (i * 4 + 1))) OR
     push_bit 8 (ucast (data ! (i * 4 + 2))) OR ucast (data ! (i * 4 + 3))"

definition sched_s0 :: "u32 \<Rightarrow> u32" where
  "sched_s0 x = rotr32 x 7 XOR rotr32 x 18 XOR drop_bit 3 x"

definition sched_s1 :: "u32 \<Rightarrow> u32" where
  "sched_s1 x = rotr32 x 17 XOR rotr32 x 19 XOR drop_bit 10 x"

definition sha256_schedule :: "u8 list \<Rightarrow> u32 list" where
  "sha256_schedule data =
     fold (\<lambda>i w. w @ [w ! (i - 16) + sched_s0 (w ! (i - 15)) + w ! (i - 7) + sched_s1 (w ! (i - 2))])
       [16..<64] (map (load32 data) [0..<16])"

fun sha256_round :: "u32 list \<Rightarrow> nat \<Rightarrow> u32 list \<Rightarrow> u32 list" where
  "sha256_round w i [a, b, c, d, e, f, g, h] =
     (let S1 = rotr32 e 6 XOR rotr32 e 11 XOR rotr32 e 25;
          ch = (e AND f) XOR (NOT e AND g);
          temp1 = h + S1 + ch + sha256_k ! i + w ! i;
          S0 = rotr32 a 2 XOR rotr32 a 13 XOR rotr32 a 22;
          maj = (a AND b) XOR (a AND c) XOR (b AND c);
          temp2 = S0 + maj
      in [temp1 + temp2, a, b, c, d + temp1, e, f, g])"
| "sha256_round w i v = v"

definition sha256_transform :: "u8 list \<Rightarrow> sha256_ctx \<Rightarrow> sha256_ctx" where
  "sha256_transform data ctx =
     (let w = sha256_schedule data;
          v = fold (sha256_round w) [0..<64] (sha_state ctx)
      in ctx\<lparr>sha_state := map2 (+) (sha_state ctx) v\<rparr>)"

text \<open>\<open>sha256_init\<close> leaves the buffer as it is: the context is on the stack, its buffer has any
  contents.\<close>

definition sha256_init :: "sha256_ctx \<Rightarrow> sha256_ctx" where
  "sha256_init ctx = ctx\<lparr>sha_state := [0x6a09e667, 0xbb67ae85, 0x3c6ef372, 0xa54ff53a, 0x510e527f, 0x9b05688c, 0x1f83d9ab, 0x5be0cd19],
     sha_count := 0\<rparr>"

definition sha256_byte :: "u8 \<Rightarrow> sha256_ctx \<Rightarrow> sha256_ctx" where
  "sha256_byte x ctx =
     (let ctx = ctx\<lparr>sha_buffer := (sha_buffer ctx)[unat (sha_count ctx mod 64) := x]\<rparr>;
          ctx = ctx\<lparr>sha_count := sha_count ctx + 1\<rparr>
      in if sha_count ctx mod 64 = 0 then sha256_transform (sha_buffer ctx) ctx else ctx)"

definition sha256_update :: "u8 list \<Rightarrow> sha256_ctx \<Rightarrow> sha256_ctx" where
  "sha256_update data ctx = fold sha256_byte data ctx"

lemma sha256_byte_count [simp]: "sha_count (sha256_byte x ctx) = sha_count ctx + 1"
  by (simp add: sha256_byte_def sha256_transform_def Let_def)

lemma unat_mod_64: "unat (w mod 64 :: u64) = unat w mod 64"
  by (simp add: unat_mod)

lemma of_nat_mod_64: "unat (of_nat n mod 64 :: u64) = n mod 64"
proof -
  have "(64 :: nat) dvd 2 ^ 64" by simp
  then show ?thesis by (simp add: unat_mod_64 unat_of_nat mod_mod_cancel)
qed

lemma of_nat_mod_64_eq:
  assumes "k < 64"
  shows "(of_nat n mod 64 = (of_nat k :: u64)) = (n mod 64 = k)"
proof -
  have "unat (of_nat k :: u64) = k" using assms by (simp add: unat_of_nat)
  then show ?thesis unfolding word_unat_eq_iff of_nat_mod_64 by simp
qed

lemmas count_mod_simps = of_nat_mod_64_eq [of 56, simplified] of_nat_mod_64_eq [of 0, simplified]

lemma pad_measure:
  "r < 64 \<Longrightarrow> r \<noteq> 56 \<Longrightarrow> (120 - (if Suc r = 64 then 0 else Suc r)) mod 64 < (120 - r) mod (64 :: nat)"
  by (cases "r < 56") (auto simp: le_mod_geq)

text \<open>The loop of \<open>sha256_final\<close> that fills up with zeros.\<close>

function sha256_pad_zeros :: "sha256_ctx \<Rightarrow> sha256_ctx" where
  "sha256_pad_zeros ctx = (if sha_count ctx mod 64 \<noteq> 56 then sha256_pad_zeros (sha256_update [0] ctx) else ctx)"
  by pat_completeness auto
termination
proof (relation "measure (\<lambda>ctx. (120 - unat (sha_count ctx mod 64)) mod 64)")
  fix ctx :: sha256_ctx
  assume a: "sha_count ctx mod 64 \<noteq> 56"
  define k where "k = unat (sha_count ctx)"
  have c: "sha_count ctx = of_nat k" by (simp add: k_def)
  have ne: "k mod 64 \<noteq> 56" using a unfolding c word_unat_eq_iff of_nat_mod_64 by simp
  have s: "sha_count (sha256_update [0] ctx) = of_nat (Suc k)" by (simp add: sha256_update_def c)
  have "(120 - Suc k mod 64) mod 64 < (120 - k mod 64) mod (64 :: nat)"
    using pad_measure [of "k mod 64"] ne by (simp add: mod_Suc)
  then show "(sha256_update [0] ctx, ctx) \<in> measure (\<lambda>ctx. (120 - unat (sha_count ctx mod 64)) mod 64)"
    by (simp only: in_measure s c of_nat_mod_64)
qed simp

declare sha256_pad_zeros.simps [simp del]

definition be32_bytes :: "u32 \<Rightarrow> u8 list" where
  "be32_bytes w = [ucast (drop_bit 24 w), ucast (drop_bit 16 w), ucast (drop_bit 8 w), ucast w]"

definition be64_bytes :: "u64 \<Rightarrow> u8 list" where
  "be64_bytes w = map (\<lambda>i. ucast (drop_bit (56 - i * 8) w)) [0..<8]"

definition sha256_final :: "sha256_ctx \<Rightarrow> u8 list \<times> sha256_ctx" where
  "sha256_final ctx =
     (let bit_len = sha_count ctx * 8;
          ctx = sha256_update [0x80] ctx;
          ctx = sha256_pad_zeros ctx;
          ctx = sha256_update (be64_bytes bit_len) ctx
      in (concat (map be32_bytes (sha_state ctx)), ctx))"

text \<open>\<open>stack\<close> is the uninitialised context.\<close>

definition sha256 :: "sha256_ctx \<Rightarrow> u8 list \<Rightarrow> u8 list" where
  "sha256 stack data = fst (sha256_final (sha256_update data (sha256_init stack)))"

text \<open>HMAC: the code reads the bytes of the key below 64 only.\<close>

definition hmac_pad :: "u8 list \<Rightarrow> u8 \<Rightarrow> u8 list" where
  "hmac_pad key x = map (\<lambda>i. (if i < length key then key ! i else 0) XOR x) [0..<64]"

definition ssh_hmac_sha256 :: "sha256_ctx \<Rightarrow> u8 list \<Rightarrow> u8 list \<Rightarrow> u8 list" where
  "ssh_hmac_sha256 stack key msg =
     (let ctx = sha256_update msg (sha256_update (hmac_pad key 0x36) (sha256_init stack));
          (inner, ctx) = sha256_final ctx
      in fst (sha256_final (sha256_update inner (sha256_update (hmac_pad key 0x5c) (sha256_init ctx)))))"

definition ssh_hmac_sha256_two :: "sha256_ctx \<Rightarrow> u8 list \<Rightarrow> u8 list \<Rightarrow> u8 list \<Rightarrow> u8 list" where
  "ssh_hmac_sha256_two stack key msg1 msg2 =
     (let ctx = sha256_update msg2 (sha256_update msg1 (sha256_update (hmac_pad key 0x36) (sha256_init stack)));
          (inner, ctx) = sha256_final ctx
      in fst (sha256_final (sha256_update inner (sha256_update (hmac_pad key 0x5c) (sha256_init ctx)))))"

section \<open>FIPS 180-4\<close>

definition big_sigma0 :: "u32 \<Rightarrow> u32" where "big_sigma0 x = word_rotr 2 x XOR word_rotr 13 x XOR word_rotr 22 x"
definition big_sigma1 :: "u32 \<Rightarrow> u32" where "big_sigma1 x = word_rotr 6 x XOR word_rotr 11 x XOR word_rotr 25 x"
definition small_sigma0 :: "u32 \<Rightarrow> u32" where "small_sigma0 x = word_rotr 7 x XOR word_rotr 18 x XOR drop_bit 3 x"
definition small_sigma1 :: "u32 \<Rightarrow> u32" where "small_sigma1 x = word_rotr 17 x XOR word_rotr 19 x XOR drop_bit 10 x"

text \<open>The message schedule as a recurrence, and the words of a block.\<close>

fun sched :: "(nat \<Rightarrow> u32) \<Rightarrow> nat \<Rightarrow> u32" where
  "sched M t =
     (if t < 16 then M t
      else small_sigma1 (sched M (t - 2)) + sched M (t - 7) + small_sigma0 (sched M (t - 15)) + sched M (t - 16))"

declare sched.simps [simp del]

definition be_word :: "u8 list \<Rightarrow> u32" where
  "be_word bs = fold (\<lambda>b w. push_bit 8 w OR ucast b) bs 0"

definition fips_round :: "(nat \<Rightarrow> u32) \<Rightarrow> nat \<Rightarrow> u32 list \<Rightarrow> u32 list" where
  "fips_round W t v =
     (let T1 = v ! 7 + big_sigma1 (v ! 4) + ((v ! 4 AND v ! 5) XOR (NOT (v ! 4) AND v ! 6)) + sha256_k ! t + W t;
          T2 = big_sigma0 (v ! 0) + ((v ! 0 AND v ! 1) XOR (v ! 0 AND v ! 2) XOR (v ! 1 AND v ! 2))
      in [T1 + T2, v ! 0, v ! 1, v ! 2, v ! 3 + T1, v ! 4, v ! 5, v ! 6])"

definition sha256_compress :: "u32 list \<Rightarrow> u8 list \<Rightarrow> u32 list" where
  "sha256_compress H data =
     map2 (+) H (fold (fips_round (sched (\<lambda>t. be_word (take 4 (drop (4 * t) data))))) [0..<64] H)"

definition sha256_H0 :: "u32 list" where
  "sha256_H0 = [0x6a09e667, 0xbb67ae85, 0x3c6ef372, 0xa54ff53a, 0x510e527f, 0x9b05688c, 0x1f83d9ab, 0x5be0cd19]"

text \<open>Padding to a multiple of \<open>B\<close> bytes with the bit 1, zeros and the length field.\<close>

definition sha_pad :: "nat \<Rightarrow> u8 list \<Rightarrow> u8 list \<Rightarrow> u8 list" where
  "sha_pad B lenf m = m @ [0x80] @ replicate ((B - (length m + 1 + length lenf) mod B) mod B) 0 @ lenf"

definition sha256_spec :: "u8 list \<Rightarrow> u8 list" where
  "sha256_spec m = concat (map be32_bytes (fst (absorb 64 sha256_compress sha256_H0
     (sha_pad 64 (be64_bytes (of_nat (8 * length m))) m))))"

definition hmac_spec :: "u8 list \<Rightarrow> u8 list \<Rightarrow> u8 list" where
  "hmac_spec key m =
     (let K0 = key @ replicate (64 - length key) 0
      in sha256_spec (map (\<lambda>b. b XOR 0x5c) K0 @ sha256_spec (map (\<lambda>b. b XOR 0x36) K0 @ m)))"

section \<open>The compression function\<close>

lemma rotr32_rotr: "0 < n \<Longrightarrow> n < 32 \<Longrightarrow> rotr32 x n = word_rotr n x"
proof (rule bit_word_eqI)
  fix k
  assume n: "0 < n" "n < 32" and k: "k < LENGTH(32)"
  show "bit (rotr32 x n) k = bit (word_rotr n x) k"
  proof (cases "k + n < 32")
    case True
    then show ?thesis using n k by (auto simp: rotr32_def bit_word_rotr_iff bit_simps add.commute)
  next
    case False
    then have "\<not> bit x (n + k)" "(k + n) mod 32 = k + n - 32"
      using n k bit_imp_le_length [of x "n + k"] by (auto simp: mod_if)
    then show ?thesis using False n k by (auto simp: rotr32_def bit_word_rotr_iff bit_simps)
  qed
qed

lemma sched_sigmas: "sched_s0 x = small_sigma0 x" "sched_s1 x = small_sigma1 x"
  by (simp_all add: sched_s0_def sched_s1_def small_sigma0_def small_sigma1_def rotr32_rotr)

lemma load32_be_word:
  assumes "4 * i + 4 \<le> length data"
  shows "load32 data i = be_word (take 4 (drop (4 * i) data))"
proof -
  have "take 4 (drop (4 * i) data) = [data ! (i * 4), data ! (i * 4 + 1), data ! (i * 4 + 2), data ! (i * 4 + 3)]"
    using assms by (intro nth_equalityI) (auto simp: less_Suc_eq numeral_eq_Suc nth_Cons' algebra_simps)
  then show ?thesis
    unfolding load32_def be_word_def by (intro bit_word_eqI) (auto simp: bit_simps)
qed

lemma schedule_sched:
  assumes "length data = 64"
  defines "M \<equiv> \<lambda>t. be_word (take 4 (drop (4 * t) data))"
  shows "length (sha256_schedule data) = 64 \<and> (\<forall>t < 64. sha256_schedule data ! t = sched M t)"
proof -
  let ?step = "\<lambda>i w. w @ [w ! (i - 16) + sched_s0 (w ! (i - 15)) + w ! (i - 7) + sched_s1 (w ! (i - 2))]"
  have "length (fold ?step [16..<16 + n] (map (load32 data) [0..<16])) = 16 + n \<and>
      (\<forall>t < 16 + n. fold ?step [16..<16 + n] (map (load32 data) [0..<16]) ! t = sched M t)" if "n \<le> 48" for n
    using that
  proof (induction n)
    case 0
    have "load32 data t = sched M t" if "t < 16" for t
      using that assms(1) load32_be_word [of t data] by (subst sched.simps) (simp add: M_def)
    then show ?case by (simp del: upt_Suc)
  next
    case (Suc n)
    let ?w = "fold ?step [16..<16 + n] (map (load32 data) [0..<16])"
    have l: "length ?w = 16 + n" and w: "\<And>t. t < 16 + n \<Longrightarrow> ?w ! t = sched M t" using Suc by auto
    have u: "[16..<16 + Suc n] = [16..<16 + n] @ [16 + n]" using upt_Suc_append [of 16 "16 + n"] by simp
    have "fold ?step [16..<16 + Suc n] (map (load32 data) [0..<16]) = ?step (16 + n) ?w" unfolding u by (simp del: upt_Suc)
    moreover have "sched M (16 + n) = ?w ! (16 + n - 16) + sched_s0 (?w ! (16 + n - 15)) + ?w ! (16 + n - 7) + sched_s1 (?w ! (16 + n - 2))"
      using w by (subst sched.simps) (simp add: sched_sigmas add_ac)
    ultimately have e: "fold ?step [16..<16 + Suc n] (map (load32 data) [0..<16]) = ?w @ [sched M (16 + n)]" by simp
    have "(?w @ [sched M (16 + n)]) ! t = sched M t" if "t < 16 + Suc n" for t
      using l w that by (cases "t = 16 + n") (simp_all add: nth_append)
    then show ?case unfolding e using l by simp
  qed
  note step = this
  have n: "16 + 48 = (64 :: nat)" by simp
  show ?thesis using step [of 48, unfolded n] unfolding sha256_schedule_def by blast
qed

lemma round_fips:
  assumes "length v = 8" "w ! i = W i"
  shows "sha256_round w i v = fips_round W i v" "length (fips_round W i v) = 8"
proof -
  obtain a b c d e f g h where v: "v = [a, b, c, d, e, f, g, h]"
    using assms(1) by (auto simp: numeral_eq_Suc length_Suc_conv)
  show "sha256_round w i v = fips_round W i v"
    using assms(2) by (simp add: v fips_round_def Let_def rotr32_rotr big_sigma0_def big_sigma1_def)
qed (simp add: fips_round_def Let_def)

lemma rounds_fips:
  "length v = 8 \<Longrightarrow> (\<And>i. i \<in> set is \<Longrightarrow> w ! i = W i) \<Longrightarrow>
   fold (sha256_round w) is v = fold (fips_round W) is v \<and> length (fold (fips_round W) is v) = 8"
proof (induction "is" arbitrary: v)
  case (Cons i "is")
  then show ?case using round_fips [of v w i W] by simp
qed simp

lemma transform_compress:
  assumes "length data = 64" "length (sha_state ctx) = 8"
  shows "sha256_transform data ctx = ctx\<lparr>sha_state := sha256_compress (sha_state ctx) data\<rparr>"
    "length (sha256_compress (sha_state ctx) data) = 8"
  using rounds_fips [of "sha_state ctx" "[0..<64]" "sha256_schedule data" "sched (\<lambda>t. be_word (take 4 (drop (4 * t) data)))"]
    schedule_sched [OF assms(1)] assms(2)
  unfolding sha256_transform_def sha256_compress_def by (simp_all add: Let_def del: upt_Suc)

section \<open>The streaming interface\<close>

text \<open>The context after the message \<open>m\<close>.\<close>

definition sha_holds :: "u8 list \<Rightarrow> sha256_ctx \<Rightarrow> bool" where
  "sha_holds m ctx \<longleftrightarrow>
     length (sha_buffer ctx) = 64 \<and> length (sha_state ctx) = 8 \<and> sha_count ctx = of_nat (length m) \<and>
     absorb 64 sha256_compress sha256_H0 m = (sha_state ctx, take (length m mod 64) (sha_buffer ctx))"

lemma sha_holds_init: "length (sha_buffer ctx) = 64 \<Longrightarrow> sha_holds [] (sha256_init ctx)"
  by (simp add: sha_holds_def sha256_init_def absorb_short sha256_H0_def)

lemma sha_holds_byte:
  assumes h: "sha_holds m ctx"
  shows "sha_holds (m @ [x]) (sha256_byte x ctx)"
proof -
  let ?p = "length m mod 64"
  let ?b = "(sha_buffer ctx)[?p := x]"
  note h = h [unfolded sha_holds_def]
  have p: "?p < 64" by simp
  have i: "unat (sha_count ctx mod 64) = ?p" using h of_nat_mod_64 by simp
  have tb: "take ?p (sha_buffer ctx) @ [x] = take (Suc ?p) ?b"
    using h p by (simp add: take_Suc_conv_app_nth)
  have c: "(sha_count ctx + 1) mod 64 = 0 \<longleftrightarrow> Suc ?p = 64"
  proof -
    have "sha_count ctx + 1 = of_nat (Suc (length m))" using h by simp
    then have "(sha_count ctx + 1) mod 64 = 0 \<longleftrightarrow> Suc (length m) mod 64 = 0"
      by (simp only: count_mod_simps)
    then show ?thesis using p by (simp add: mod_Suc)
  qed
  have one: "absorb 64 sha256_compress sha256_H0 (m @ [x]) =
      (if Suc ?p = 64 then (sha256_compress (sha_state ctx) ?b, []) else (sha_state ctx, take (Suc ?p) ?b))"
    using absorb_one [of 64 sha256_compress sha256_H0 m "sha_state ctx" "take ?p (sha_buffer ctx)" x] h p tb
    by (auto simp: min_def)
  show ?thesis
  proof (cases "Suc ?p = 64")
    case True
    let ?c = "ctx\<lparr>sha_buffer := ?b, sha_count := sha_count ctx + 1\<rparr>"
    have "sha256_byte x ctx = sha256_transform ?b ?c" using c True i by (simp add: sha256_byte_def Let_def)
    also have "\<dots> = ?c\<lparr>sha_state := sha256_compress (sha_state ctx) ?b\<rparr>"
      using transform_compress(1) [of ?b ?c] h by simp
    finally show ?thesis
      using transform_compress(2) [of ?b ctx] h one True by (simp add: sha_holds_def mod_Suc)
  next
    case False
    then have "sha256_byte x ctx = ctx\<lparr>sha_buffer := ?b, sha_count := sha_count ctx + 1\<rparr>"
      using c i by (simp add: sha256_byte_def Let_def)
    then show ?thesis using h one False by (simp add: sha_holds_def mod_Suc)
  qed
qed

lemma sha_holds_update: "sha_holds m ctx \<Longrightarrow> sha_holds (m @ x) (sha256_update x ctx)"
proof (induction x arbitrary: m ctx)
  case (Cons b x)
  from Cons.IH [OF sha_holds_byte [OF Cons.prems]] show ?case by (simp add: sha256_update_def)
qed (simp add: sha256_update_def)

lemma pad_zeros_update:
  "sha_holds m ctx \<Longrightarrow> k < 64 \<Longrightarrow> (length m + k) mod 64 = 56 \<Longrightarrow> sha256_pad_zeros ctx = sha256_update (replicate k 0) ctx"
proof (induction k arbitrary: m ctx)
  case 0
  have "sha_count ctx mod 64 = 56"
    using 0 by (simp add: sha_holds_def count_mod_simps)
  then show ?case by (subst sha256_pad_zeros.simps) (simp add: sha256_update_def)
next
  case (Suc k)
  have "length m mod 64 \<noteq> 56"
  proof
    assume "length m mod 64 = 56"
    then have "(length m + Suc k) mod 64 = (56 + Suc k) mod 64" by (metis mod_add_left_eq)
    with Suc.prems(2,3) show False by (auto simp: mod_if split: if_splits)
  qed
  then have "sha_count ctx mod 64 \<noteq> 56"
    using Suc.prems(1) by (simp add: sha_holds_def count_mod_simps)
  moreover have "sha_holds (m @ [0]) (sha256_update [0] ctx)" using sha_holds_update Suc.prems(1) by blast
  moreover have "(length (m @ [0]) + k) mod 64 = 56" using Suc.prems(3) by simp
  ultimately show ?case
    using Suc.IH [of "m @ [0]" "sha256_update [0] ctx"] Suc.prems(2)
    by (subst sha256_pad_zeros.simps) (simp add: sha256_update_def)
qed

lemma pad_56: "(r + 8) mod 64 = 0 \<Longrightarrow> r < 64 \<Longrightarrow> r = (56 :: nat)"
proof -
  assume a: "(r + 8) mod 64 = 0" "r < 64"
  have "(r + 8) mod 64 = (if r + 8 < 64 then r + 8 else r + 8 - 64)" using a(2) by (simp add: mod_if)
  with a show "r = 56" by (simp split: if_splits)
qed

lemma pad_multiple: "0 < B \<Longrightarrow> (n + (B - n mod B) mod B) mod B = (0 :: nat)"
proof -
  assume B: "0 < B"
  have "(n + (B - n mod B) mod B) mod B = (n mod B + (B - n mod B)) mod B" by (simp add: mod_add_eq mod_add_right_eq mod_add_left_eq)
  also have "n mod B + (B - n mod B) = B" using mod_less_divisor [OF B, of n] by simp
  finally show ?thesis by simp
qed

lemma sha256_final_spec:
  assumes "sha_holds m ctx"
  shows "fst (sha256_final ctx) = sha256_spec m" "length (sha_buffer (snd (sha256_final ctx))) = 64"
proof -
  let ?k = "(64 - (length m + 1 + 8) mod 64) mod 64 :: nat"
  let ?len = "be64_bytes (sha_count ctx * 8)"
  have len: "length ?len = 8" "sha_count ctx * 8 = of_nat (8 * length m)"
    using assms by (simp_all add: be64_bytes_def sha_holds_def)
  have k: "?k < 64" "(length (m @ [0x80]) + ?k) mod 64 = 56"
  proof -
    have "(length m + 1 + 8 + ?k) mod 64 = 0" by (rule pad_multiple) simp
    then have "(length m + 1 + ?k + 8) mod 64 = 0" by (simp only: add_ac)
    then have "((length m + 1 + ?k) mod 64 + 8) mod 64 = 0" by (simp only: mod_add_left_eq)
    then have "(length m + 1 + ?k) mod 64 = 56" by (rule pad_56) simp
    then show "(length (m @ [0x80]) + ?k) mod 64 = 56" by simp
  qed simp
  let ?c1 = "sha256_update [0x80] ctx"
  have h1: "sha_holds (m @ [0x80]) ?c1" using sha_holds_update [OF assms] .
  have h2: "sha_holds ((m @ [0x80]) @ replicate ?k 0) (sha256_pad_zeros ?c1)"
    unfolding pad_zeros_update [OF h1 k] by (rule sha_holds_update [OF h1])
  have "sha_holds (((m @ [0x80]) @ replicate ?k 0) @ ?len) (sha256_update ?len (sha256_pad_zeros ?c1))"
    using sha_holds_update [OF h2] .
  moreover have "sha_pad 64 ?len m = ((m @ [0x80]) @ replicate ?k 0) @ ?len"
    unfolding sha_pad_def len(1) by simp
  ultimately show "fst (sha256_final ctx) = sha256_spec m" "length (sha_buffer (snd (sha256_final ctx))) = 64"
    unfolding sha256_final_def sha256_spec_def Let_def len(2) [symmetric] by (simp_all only: sha_holds_def fst_conv snd_conv)
qed

section \<open>Hash functions fed in pieces\<close>

text \<open>What HMAC, the key derivation and the signatures rely on: a context is started, fed and finished,
  and the digest is a function of the whole message.\<close>

locale stream_hash =
  fixes init :: "'c \<Rightarrow> 'c" and upd :: "u8 list \<Rightarrow> 'c \<Rightarrow> 'c" and fin :: "'c \<Rightarrow> u8 list"
    and holds :: "u8 list \<Rightarrow> 'c \<Rightarrow> bool" and ready :: "'c \<Rightarrow> bool" and small :: "u8 list \<Rightarrow> bool" and spec :: "u8 list \<Rightarrow> u8 list"
  assumes start: "ready c \<Longrightarrow> holds [] (init c)"
    and update: "holds m c \<Longrightarrow> small x \<Longrightarrow> holds (m @ x) (upd x c)"
    and finish: "holds m c \<Longrightarrow> fin c = spec m"
begin

lemma pieces_hold: "holds m c \<Longrightarrow> \<forall>x \<in> set xs. small x \<Longrightarrow> holds (m @ concat xs) (fold upd xs c)"
proof (induction xs arbitrary: m c)
  case (Cons x xs)
  have "small x" using Cons.prems(2) by simp
  from Cons.IH [OF update [OF Cons.prems(1) this]] Cons.prems(2) show ?case by simp
qed simp

lemma pieces: "ready c \<Longrightarrow> \<forall>x \<in> set xs. small x \<Longrightarrow> fin (fold upd xs (init c)) = spec (concat xs)"
  using finish [OF pieces_hold [OF start]] by simp

end

interpretation sha256: stream_hash sha256_init sha256_update "\<lambda>c. fst (sha256_final c)" sha_holds
    "\<lambda>c. length (sha_buffer c) = 64" "\<lambda>_. True" sha256_spec
  by unfold_locales (simp_all add: sha_holds_init sha_holds_update sha256_final_spec)

text \<open>C33: The streaming SHA-256 of the code, whatever the uninitialised buffer on the stack holds and however the
  message is cut into calls of \<open>sha256_update\<close>, is the function of FIPS 180-4 (with the message schedule
  as a recurrence, rotations of the word library and the whole message padded at once).\<close>

theorem sha256_is_fips_180_4:
  assumes "length (sha_buffer stack) = 64"
  shows "fst (sha256_final (fold sha256_update pieces (sha256_init stack))) = sha256_spec (concat pieces)"
  using sha256.pieces [OF assms, of pieces] by simp

definition clean_stack :: sha256_ctx where
  "clean_stack = \<lparr>sha_state = [], sha_count = 0, sha_buffer = replicate 64 0\<rparr>"

theorem sha256_is_fips_180_4_witness:
  "fst (sha256_final (fold sha256_update [[97], [98, 99]] (sha256_init clean_stack))) = sha256_spec [97, 98, 99]"
  using sha256_is_fips_180_4 [of clean_stack "[[97], [98, 99]]"] by (simp add: clean_stack_def)

section \<open>The length of a digest\<close>

lemma absorb_state_length:
  "(\<And>s b. length s = n \<Longrightarrow> length (f s b) = n) \<Longrightarrow> length s = n \<Longrightarrow> length (fst (absorb B f s m)) = n"
proof (induction B f s m rule: absorb.induct)
  case (1 B f s m)
  show ?case
  proof (cases "B = 0 \<or> length m < B")
    case True
    then show ?thesis using 1(3) by (simp add: absorb.simps [of B f s m])
  next
    case False
    then have "absorb B f s m = absorb B f (f s (take B m)) (drop B m)" by (simp add: absorb.simps [of B f s m])
    then show ?thesis using 1(1) [OF False 1(2) 1(2) [OF 1(3)]] by simp
  qed
qed


lemma fold_length: "xs \<noteq> [] \<Longrightarrow> (\<And>x v. length (f x v) = n) \<Longrightarrow> length (fold f xs v) = n"
  by (cases xs rule: rev_cases) simp_all

lemma concat_length: "(\<And>x. length (f x) = k) \<Longrightarrow> length (concat (map f xs)) = k * length xs"
  by (induction xs) simp_all

lemma sha256_spec_length: "length (sha256_spec m) = 32"
proof -
  have "length (sha256_compress s b) = 8" if "length s = 8" for s b
    using that fold_length [of "[0..<64]" "fips_round W" 8 s for W] by (simp add: sha256_compress_def fips_round_def Let_def)
  then have "length (fst (absorb 64 sha256_compress sha256_H0 x)) = 8" for x
    by (intro absorb_state_length) (simp_all add: sha256_H0_def)
  then show ?thesis by (simp add: sha256_spec_def concat_length [of be32_bytes 4] be32_bytes_def [abs_def] length_concat comp_def sum_list_triv)
qed

section \<open>HMAC\<close>

lemma hmac_pad_spec: "length key \<le> 64 \<Longrightarrow> hmac_pad key x = map (\<lambda>b. b XOR x) (key @ replicate (64 - length key) 0)"
  by (intro nth_equalityI) (auto simp: hmac_pad_def nth_append)

lemma sha256_two:
  "length (sha_buffer ctx) = 64 \<Longrightarrow> fst (sha256_final (sha256_update b (sha256_update a (sha256_init ctx)))) = sha256_spec (a @ b)"
  "length (sha_buffer ctx) = 64 \<Longrightarrow> length (sha_buffer (snd (sha256_final (sha256_update b (sha256_update a (sha256_init ctx)))))) = 64"
  using sha256_final_spec [OF sha256.pieces_hold [OF sha256.start], of ctx "[a, b]"] by simp_all

lemma sha256_init_buffer [simp]: "sha_buffer (sha256_init ctx) = sha_buffer ctx"
  by (simp add: sha256_init_def)

text \<open>The HMAC of a message in two parts is the HMAC of their concatenation, and for keys of at most
  64 bytes both are the HMAC of RFC 2104 over the SHA-256 of FIPS 180-4.\<close>

theorem hmac_is_rfc_2104:
  assumes "length (sha_buffer stack) = 64" and "length key \<le> 64"
  shows "ssh_hmac_sha256 stack key (msg1 @ msg2) = hmac_spec key (msg1 @ msg2) \<and>
    ssh_hmac_sha256_two stack key msg1 msg2 = hmac_spec key (msg1 @ msg2)"
proof -
  have one: "ssh_hmac_sha256 stack key m = hmac_spec key m" for m
    using assms by (simp add: ssh_hmac_sha256_def hmac_spec_def Let_def case_prod_beta sha256_two hmac_pad_spec)
  have "sha256_update msg2 (sha256_update msg1 c) = sha256_update (msg1 @ msg2) c" for c
    by (simp add: sha256_update_def)
  then have "ssh_hmac_sha256_two stack key msg1 msg2 = ssh_hmac_sha256 stack key (msg1 @ msg2)"
    by (simp add: ssh_hmac_sha256_def ssh_hmac_sha256_two_def)
  with one show ?thesis by simp
qed

theorem hmac_is_rfc_2104_witness:
  "ssh_hmac_sha256_two clean_stack [1, 2, 3] [4] [5] = hmac_spec [1, 2, 3] [4, 5]"
  using hmac_is_rfc_2104 [of clean_stack "[1, 2, 3]" "[4]" "[5]"] by (simp add: clean_stack_def)

text \<open>A longer key is cut off at 64 bytes, where RFC 2104 hashes it first.\<close>

lemma hmac_cuts_long_keys: "64 \<le> length key \<Longrightarrow> ssh_hmac_sha256 stack (key @ rest) msg = ssh_hmac_sha256 stack key msg"
proof -
  assume "64 \<le> length key"
  then have "hmac_pad (key @ rest) x = hmac_pad key x" for x by (auto simp: hmac_pad_def nth_append)
  then show ?thesis by (simp add: ssh_hmac_sha256_def)
qed

section \<open>The constants\<close>

text \<open>The constants are the first 32 bits of the fractional parts of the cube roots of the first 64
  primes, the initial state those of the square roots of the first eight.\<close>

definition first_primes :: "int list" where
  "first_primes =
   [2, 3, 5, 7, 11, 13, 17, 19, 23, 29, 31, 37, 41, 43, 47, 53, 59, 61, 67, 71, 73, 79, 83, 89, 97, 101, 103, 107, 109, 113, 127, 131,
    137, 139, 149, 151, 157, 163, 167, 173, 179, 181, 191, 193, 197, 199, 211, 223, 227, 229, 233, 239, 241, 251, 257, 263, 269,
    271, 277, 281, 283, 293, 307, 311]"

definition cube_root_floor :: "int \<Rightarrow> int" where
  "cube_root_floor p = (if p < 8 then 1 else if p < 27 then 2 else if p < 64 then 3 else if p < 125 then 4 else if p < 216 then 5 else 6)"

definition cube_root_bits :: "int \<Rightarrow> u32 \<Rightarrow> bool" where
  "cube_root_bits p k \<longleftrightarrow>
     (let x = 0x100000000 * cube_root_floor p + uint k; y = p * 0x1000000000000000000000000 in x * x * x \<le> y \<and> y < (x + 1) * (x + 1) * (x + 1))"

lemma sha256_k_cube_roots: "list_all2 cube_root_bits first_primes sha256_k"
  unfolding first_primes_def sha256_k_def by (simp add: cube_root_bits_def cube_root_floor_def)

end
