(* ===== verification/Sha512.thy ===== *)
theory Sha512
  imports Sha256
begin

text \<open>
  SHA-512 of \<open>src/crypto.c\<close>: the code keeps 16 words of the message schedule and overwrites them, takes
  whole blocks from the caller's data and fills its buffer with the rest only. The specification is
  FIPS 180-4 as in \<open>Sha256\<close>.
\<close>

section \<open>The code\<close>

record sha512_ctx =
  s5_state :: "u64 list"
  s5_count0 :: u64
  s5_count1 :: u64
  s5_buffer :: "u8 list"

text \<open>The table of the code, in decimal.\<close>

definition sha512_k :: "u64 list" where
  "sha512_k =
    [4794697086780616226, 8158064640168781261, 13096744586834688815, 16840607885511220156,
     4131703408338449720, 6480981068601479193, 10538285296894168987, 12329834152419229976,
     15566598209576043074, 1334009975649890238, 2608012711638119052, 6128411473006802146,
     8268148722764581231, 9286055187155687089, 11230858885718282805, 13951009754708518548,
     16472876342353939154, 17275323862435702243, 1135362057144423861, 2597628984639134821,
     3308224258029322869, 5365058923640841347, 6679025012923562964, 8573033837759648693,
     10970295158949994411, 12119686244451234320, 12683024718118986047, 13788192230050041572,
     14330467153632333762, 15395433587784984357, 489312712824947311, 1452737877330783856,
     2861767655752347644, 3322285676063803686, 5560940570517711597, 5996557281743188959,
     7280758554555802590, 8532644243296465576, 9350256976987008742, 10552545826968843579,
     11727347734174303076, 12113106623233404929, 14000437183269869457, 14369950271660146224,
     15101387698204529176, 15463397548674623760, 17586052441742319658, 1182934255886127544,
     1847814050463011016, 2177327727835720531, 2830643537854262169, 3796741975233480872,
     4115178125766777443, 5681478168544905931, 6601373596472566643, 7507060721942968483,
     8399075790359081724, 8693463985226723168, 9568029438360202098, 10144078919501101548,
     10430055236837252648, 11840083180663258601, 13761210420658862357, 14299343276471374635,
     14566680578165727644, 15097957966210449927, 16922976911328602910, 17689382322260857208,
     500013540394364858, 748580250866718886, 1242879168328830382, 1977374033974150939,
     2944078676154940804, 3659926193048069267, 4368137639120453308, 4836135668995329356,
     5532061633213252278, 6448918945643986474, 6902733635092675308, 7801388544844847127]"

definition S64 :: "nat \<Rightarrow> u64 \<Rightarrow> u64" where
  "S64 b x = drop_bit b x OR push_bit (64 - b) x"

definition sigma0_512 :: "u64 \<Rightarrow> u64" where "sigma0_512 x = S64 1 x XOR S64 8 x XOR drop_bit 7 x"
definition sigma1_512 :: "u64 \<Rightarrow> u64" where "sigma1_512 x = S64 19 x XOR S64 61 x XOR drop_bit 6 x"

definition be64_load :: "u8 list \<Rightarrow> u64" where
  "be64_load cp = ucast (cp ! 7) OR push_bit 8 (ucast (cp ! 6)) OR push_bit 16 (ucast (cp ! 5)) OR push_bit 24 (ucast (cp ! 4)) OR
     push_bit 32 (ucast (cp ! 3)) OR push_bit 40 (ucast (cp ! 2)) OR push_bit 48 (ucast (cp ! 1)) OR push_bit 56 (ucast (cp ! 0))"

fun sha512_step :: "nat \<Rightarrow> u64 \<Rightarrow> u64 list \<Rightarrow> u64 list" where
  "sha512_step j wj [a, b, c, d, e, f, g, h] =
     (let T1 = h + (S64 14 e XOR S64 18 e XOR S64 41 e) + ((e AND f) XOR (NOT e AND g)) + sha512_k ! j + wj;
          T2 = (S64 28 a XOR S64 34 a XOR S64 39 a) + ((a AND b) XOR (a AND c) XOR (b AND c))
      in [T1 + T2, a, b, c, d + T1, e, f, g])"
| "sha512_step j wj v = v"

text \<open>The two loops: the first 16 words are those of the block, each later one replaces the word 16 steps
  before it.\<close>

definition sha512_roll :: "nat \<Rightarrow> u64 list \<times> u64 list \<Rightarrow> u64 list \<times> u64 list" where
  "sha512_roll j = (\<lambda>(W, v).
     let s0 = sigma0_512 (W ! ((j + 1) mod 16));
         s1 = sigma1_512 (W ! ((j + 14) mod 16));
         W = W[j mod 16 := W ! (j mod 16) + (s1 + W ! ((j + 9) mod 16) + s0)]
     in (W, sha512_step j (W ! (j mod 16)) v))"

definition sha512_transform :: "u8 list \<Rightarrow> sha512_ctx \<Rightarrow> sha512_ctx" where
  "sha512_transform data ctx =
     (let W = map (\<lambda>j. be64_load (drop (8 * j) data)) [0..<16];
          v = fold (\<lambda>j. sha512_step j (W ! j)) [0..<16] (s5_state ctx);
          (W, v) = fold sha512_roll [16..<80] (W, v)
      in ctx\<lparr>s5_state := map2 (+) (s5_state ctx) v\<rparr>)"

definition sha512_init :: "sha512_ctx \<Rightarrow> sha512_ctx" where
  "sha512_init ctx = ctx\<lparr>s5_state := [0x6a09e667f3bcc908, 0xbb67ae8584caa73b, 0x3c6ef372fe94f82b, 0xa54ff53a5f1d36f1,
       0x510e527fade682d1, 0x9b05688c2b3e6c1f, 0x1f83d9abfb41bd6b, 0x5be0cd19137e2179],
     s5_count0 := 0, s5_count1 := 0\<rparr>"

definition mem_put :: "u8 list \<Rightarrow> nat \<Rightarrow> u8 list \<Rightarrow> u8 list" where
  "mem_put buf off x = take off buf @ x @ drop (off + length x) buf"

function sha512_blocks :: "u8 list \<Rightarrow> sha512_ctx \<Rightarrow> u8 list \<times> sha512_ctx" where
  "sha512_blocks data ctx =
     (if length data \<ge> 128 then sha512_blocks (drop 128 data) (sha512_transform (take 128 data) ctx) else (data, ctx))"
  by pat_completeness auto
termination by (relation "measure (\<lambda>(data, ctx). length data)") auto

declare sha512_blocks.simps [simp del]

definition s5_used :: "sha512_ctx \<Rightarrow> nat" where
  "s5_used ctx = unat (drop_bit 3 (s5_count0 ctx) mod 128)"

definition sha512_update :: "u8 list \<Rightarrow> sha512_ctx \<Rightarrow> sha512_ctx" where
  "sha512_update data ctx =
     (if data = [] then ctx
      else
        let used = s5_used ctx;
            len = of_nat (length data) :: u64;
            bit_len = push_bit 3 len;
            ctx = ctx\<lparr>s5_count0 := s5_count0 ctx + bit_len\<rparr>;
            ctx = (if s5_count0 ctx < bit_len then ctx\<lparr>s5_count1 := s5_count1 ctx + 1\<rparr> else ctx);
            ctx = ctx\<lparr>s5_count1 := s5_count1 ctx + drop_bit 61 len\<rparr>;
            free = 128 - used
        in if used > 0 \<and> length data < free then ctx\<lparr>s5_buffer := mem_put (s5_buffer ctx) used data\<rparr>
           else
             let (data, ctx) =
                   (if used > 0 then
                      let ctx = ctx\<lparr>s5_buffer := mem_put (s5_buffer ctx) used (take free data)\<rparr>
                      in (drop free data, sha512_transform (s5_buffer ctx) ctx)
                    else (data, ctx));
                 (data, ctx) = sha512_blocks data ctx
             in if data \<noteq> [] then ctx\<lparr>s5_buffer := mem_put (s5_buffer ctx) 0 data\<rparr> else ctx)"

definition sha512_final :: "sha512_ctx \<Rightarrow> u8 list" where
  "sha512_final ctx =
     (let used = s5_used ctx;
          ctx = (if used > 0 then
                   let ctx = ctx\<lparr>s5_buffer := (s5_buffer ctx)[used := 0x80]\<rparr>;
                       used = used + 1
                   in if used \<le> 112 then ctx\<lparr>s5_buffer := mem_put (s5_buffer ctx) used (replicate (112 - used) 0)\<rparr>
                      else
                        let ctx = ctx\<lparr>s5_buffer := mem_put (s5_buffer ctx) used (replicate (128 - used) 0)\<rparr>;
                            ctx = sha512_transform (s5_buffer ctx) ctx
                        in ctx\<lparr>s5_buffer := mem_put (s5_buffer ctx) 0 (replicate 112 0)\<rparr>
                 else ctx\<lparr>s5_buffer := (mem_put (s5_buffer ctx) 0 (replicate 112 0))[0 := 0x80]\<rparr>);
          ctx = ctx\<lparr>s5_buffer := mem_put (s5_buffer ctx) 112 (be64_bytes (s5_count1 ctx))\<rparr>;
          ctx = ctx\<lparr>s5_buffer := mem_put (s5_buffer ctx) 120 (be64_bytes (s5_count0 ctx))\<rparr>;
          ctx = sha512_transform (s5_buffer ctx) ctx
      in concat (map be64_bytes (s5_state ctx)))"

text \<open>\<open>sha512\<close>, without its one-time self test, which only logs.\<close>

definition sha512 :: "sha512_ctx \<Rightarrow> u8 list \<Rightarrow> u8 list" where
  "sha512 stack data = sha512_final (sha512_update data (sha512_init stack))"

section \<open>FIPS 180-4\<close>

definition fsigma0 :: "u64 \<Rightarrow> u64" where "fsigma0 x = word_rotr 1 x XOR word_rotr 8 x XOR drop_bit 7 x"
definition fsigma1 :: "u64 \<Rightarrow> u64" where "fsigma1 x = word_rotr 19 x XOR word_rotr 61 x XOR drop_bit 6 x"

fun sched512 :: "(nat \<Rightarrow> u64) \<Rightarrow> nat \<Rightarrow> u64" where
  "sched512 M t =
     (if t < 16 then M t
      else fsigma1 (sched512 M (t - 2)) + sched512 M (t - 7) + fsigma0 (sched512 M (t - 15)) + sched512 M (t - 16))"

declare sched512.simps [simp del]

definition be_word64 :: "u8 list \<Rightarrow> u64" where
  "be_word64 bs = fold (\<lambda>b w. push_bit 8 w OR ucast b) bs 0"

definition fips_round512 :: "(nat \<Rightarrow> u64) \<Rightarrow> nat \<Rightarrow> u64 list \<Rightarrow> u64 list" where
  "fips_round512 W t v =
     (let T1 = v ! 7 + (word_rotr 14 (v ! 4) XOR word_rotr 18 (v ! 4) XOR word_rotr 41 (v ! 4)) +
            ((v ! 4 AND v ! 5) XOR (NOT (v ! 4) AND v ! 6)) + sha512_k ! t + W t;
          T2 = (word_rotr 28 (v ! 0) XOR word_rotr 34 (v ! 0) XOR word_rotr 39 (v ! 0)) +
            ((v ! 0 AND v ! 1) XOR (v ! 0 AND v ! 2) XOR (v ! 1 AND v ! 2))
      in [T1 + T2, v ! 0, v ! 1, v ! 2, v ! 3 + T1, v ! 4, v ! 5, v ! 6])"

definition sha512_compress :: "u64 list \<Rightarrow> u8 list \<Rightarrow> u64 list" where
  "sha512_compress H data =
     map2 (+) H (fold (fips_round512 (sched512 (\<lambda>t. be_word64 (take 8 (drop (8 * t) data))))) [0..<80] H)"

definition sha512_H0 :: "u64 list" where
  "sha512_H0 = [0x6a09e667f3bcc908, 0xbb67ae8584caa73b, 0x3c6ef372fe94f82b, 0xa54ff53a5f1d36f1,
       0x510e527fade682d1, 0x9b05688c2b3e6c1f, 0x1f83d9abfb41bd6b, 0x5be0cd19137e2179]"

definition bit_length :: "u8 list \<Rightarrow> u8 list" where
  "bit_length m = be64_bytes (of_nat (8 * length m div 2 ^ 64)) @ be64_bytes (of_nat (8 * length m))"

definition sha512_spec :: "u8 list \<Rightarrow> u8 list" where
  "sha512_spec m = concat (map be64_bytes (fst (absorb 128 sha512_compress sha512_H0 (sha_pad 128 (bit_length m) m))))"

section \<open>The compression function\<close>

lemma S64_rotr: "0 < n \<Longrightarrow> n < 64 \<Longrightarrow> S64 n x = word_rotr n x"
proof (rule bit_word_eqI)
  fix k
  assume n: "0 < n" "n < 64" and k: "k < LENGTH(64)"
  show "bit (S64 n x) k = bit (word_rotr n x) k"
  proof (cases "k + n < 64")
    case True
    then show ?thesis using n k by (auto simp: S64_def bit_word_rotr_iff bit_simps add.commute)
  next
    case False
    then have "\<not> bit x (n + k)" "(k + n) mod 64 = k + n - 64"
      using n k bit_imp_le_length [of x "n + k"] by (auto simp: mod_if)
    then show ?thesis using False n k by (auto simp: S64_def bit_word_rotr_iff bit_simps)
  qed
qed

lemma fsigmas: "sigma0_512 x = fsigma0 x" "sigma1_512 x = fsigma1 x"
  by (simp_all add: sigma0_512_def sigma1_512_def fsigma0_def fsigma1_def S64_rotr)

lemma load64_be_word:
  assumes "i + 8 \<le> length data"
  shows "be64_load (drop i data) = be_word64 (take 8 (drop i data))"
proof -
  have "take 8 (drop i data) = [data ! i, data ! (i + 1), data ! (i + 2), data ! (i + 3), data ! (i + 4), data ! (i + 5), data ! (i + 6), data ! (i + 7)]"
    using assms by (intro nth_equalityI) (auto simp: less_Suc_eq numeral_eq_Suc nth_Cons' algebra_simps)
  then show ?thesis
    using assms unfolding be64_load_def be_word64_def by (intro bit_word_eqI) (auto simp: bit_simps)
qed

lemma step_fips:
  assumes "length v = 8" "wj = W j"
  shows "sha512_step j wj v = fips_round512 W j v" "length (fips_round512 W j v) = 8"
proof -
  obtain a b c d e f g h where v: "v = [a, b, c, d, e, f, g, h]"
    using assms(1) by (auto simp: numeral_eq_Suc length_Suc_conv)
  show "sha512_step j wj v = fips_round512 W j v"
    using assms(2) by (simp add: v fips_round512_def Let_def S64_rotr)
qed (simp add: fips_round512_def Let_def)

lemma fips_rounds_length: "length v = 8 \<Longrightarrow> length (fold (fips_round512 W) is v) = 8"
  by (induction "is" arbitrary: v) (simp_all add: fips_round512_def Let_def)

lemma steps_fips:
  "length v = 8 \<Longrightarrow> (\<And>j. j \<in> set is \<Longrightarrow> W ! j = S j) \<Longrightarrow> fold (\<lambda>j. sha512_step j (W ! j)) is v = fold (fips_round512 S) is v"
proof (induction "is" arbitrary: v)
  case (Cons i "is")
  then show ?case using step_fips [of v "W ! i" S i] by simp
qed simp

text \<open>The rolling schedule: before step \<open>j\<close> the array holds the words \<open>j - 16\<close> to \<open>j - 1\<close>.\<close>

definition rolled :: "(nat \<Rightarrow> u64) \<Rightarrow> nat \<Rightarrow> u64 list \<Rightarrow> bool" where
  "rolled M j W \<longleftrightarrow> length W = 16 \<and> (\<forall>t. j \<le> t + 16 \<and> t < j \<longrightarrow> W ! (t mod 16) = sched512 M t)"

lemma roll_step:
  assumes r: "rolled M j W" and j: "16 \<le> j" and v: "length v = 8"
  shows "rolled M (Suc j) (fst (sha512_roll j (W, v))) \<and> snd (sha512_roll j (W, v)) = fips_round512 (sched512 M) j v"
proof -
  have w: "W ! ((j + k) mod 16) = sched512 M (j + k - 16)" if "k < 16" for k
  proof -
    have "(j + k) mod 16 = (j + k - 16) mod 16" using j by (metis le_add1 le_mod_geq le_trans)
    then show ?thesis using r that j by (auto simp: rolled_def)
  qed
  let ?x = "W ! (j mod 16) + (sigma1_512 (W ! ((j + 14) mod 16)) + W ! ((j + 9) mod 16) + sigma0_512 (W ! ((j + 1) mod 16)))"
  have x: "?x = sched512 M j"
    using w [of 0] w [of 1] w [of 9] w [of 14] j by (subst sched512.simps) (simp add: fsigmas add_ac numeral_2_eq_2)
  have l: "length W = 16" using r by (simp add: rolled_def)
  have roll: "sha512_roll j (W, v) = (W[j mod 16 := ?x], sha512_step j ?x v)"
    using l by (simp add: sha512_roll_def Let_def)
  have "W[j mod 16 := ?x] ! (t mod 16) = sched512 M t" if t: "Suc j \<le> t + 16" "t < Suc j" for t
  proof (cases "t = j")
    case True
    then show ?thesis using x l by simp
  next
    case False
    have "t mod 16 \<noteq> j mod 16"
    proof
      assume "t mod 16 = j mod 16"
      then have "16 dvd j - t" by (metis mod_eq_dvd_iff_nat that(2) less_Suc_eq_le)
      moreover have "0 < j - t" "j - t < 16" using False t by auto
      ultimately show False by (simp add: nat_dvd_not_less)
    qed
    then show ?thesis using r t False by (simp add: rolled_def)
  qed
  then show ?thesis
    using roll l x step_fips [OF v, of ?x "sched512 M" j] by (simp add: rolled_def)
qed

lemma rolls_fips:
  assumes "rolled M 16 W" "length v = 8" "16 \<le> n"
  shows "rolled M n (fst (fold sha512_roll [16..<n] (W, v))) \<and>
    snd (fold sha512_roll [16..<n] (W, v)) = fold (fips_round512 (sched512 M)) [16..<n] v"
  using assms(3)
proof (induction rule: dec_induct)
  case (step n)
  let ?r = "fold sha512_roll [16..<n] (W, v)"
  have u: "[16..<Suc n] = [16..<n] @ [n]" using step by simp
  obtain W' v' where r: "?r = (W', v')" by (cases ?r)
  have "length v' = 8" using step.IH fips_rounds_length [OF assms(2)] r by simp
  then show ?case
    using roll_step [of M n W' v'] step.IH step.hyps r unfolding u by (simp del: upt_Suc)
qed (use assms in simp)

lemma transform512_compress:
  assumes "length data = 128" "length (s5_state ctx) = 8"
  shows "sha512_transform data ctx = ctx\<lparr>s5_state := sha512_compress (s5_state ctx) data\<rparr>"
    "length (sha512_compress (s5_state ctx) data) = 8"
proof -
  let ?M = "\<lambda>t. be_word64 (take 8 (drop (8 * t) data))"
  let ?W = "map (\<lambda>j. be64_load (drop (8 * j) data)) [0..<16]"
  have w: "?W ! t = sched512 ?M t" if "t < 16" for t
    using that assms(1) load64_be_word [of "8 * t" data] by (subst sched512.simps) simp
  have r: "rolled ?M 16 ?W" using w by (auto simp: rolled_def simp del: upt_Suc)
  let ?v = "fold (\<lambda>j. sha512_step j (?W ! j)) [0..<16] (s5_state ctx)"
  have v: "?v = fold (fips_round512 (sched512 ?M)) [0..<16] (s5_state ctx)"
    by (rule steps_fips [OF assms(2)]) (use w in simp)
  have lv: "length ?v = 8" unfolding v using assms(2) by (rule fips_rounds_length)
  have "snd (fold sha512_roll [16..<80] (?W, ?v)) = fold (fips_round512 (sched512 ?M)) [16..<80] ?v"
    using rolls_fips [OF r lv, of 80] by simp
  also have "\<dots> = fold (fips_round512 (sched512 ?M)) ([0..<16] @ [16..<80]) (s5_state ctx)" unfolding v by simp
  also have "[0..<16] @ [16..<80] = [0..<80]" using upt_add_eq_append [of 0 16 64] by simp
  finally show "sha512_transform data ctx = ctx\<lparr>s5_state := sha512_compress (s5_state ctx) data\<rparr>"
    unfolding sha512_transform_def sha512_compress_def Let_def by (simp add: case_prod_beta del: upt_Suc)
  show "length (sha512_compress (s5_state ctx) data) = 8"
    using fips_rounds_length [OF assms(2)] assms(2) by (simp add: sha512_compress_def del: upt_Suc)
qed

section \<open>The streaming interface\<close>

lemma blocks_absorb:
  "length (s5_state ctx) = 8 \<Longrightarrow>
   sha512_blocks data ctx = (snd (absorb 128 sha512_compress (s5_state ctx) data),
     ctx\<lparr>s5_state := fst (absorb 128 sha512_compress (s5_state ctx) data)\<rparr>) \<and>
   length (fst (absorb 128 sha512_compress (s5_state ctx) data)) = 8"
proof (induction data ctx rule: sha512_blocks.induct)
  case (1 data ctx)
  show ?case
  proof (cases "length data < 128")
    case False
    let ?c = "sha512_transform (take 128 data) ctx"
    have c: "?c = ctx\<lparr>s5_state := sha512_compress (s5_state ctx) (take 128 data)\<rparr>"
      "length (sha512_compress (s5_state ctx) (take 128 data)) = 8"
      using transform512_compress [of "take 128 data" ctx] 1(2) False by simp_all
    have "absorb 128 sha512_compress (s5_state ctx) data = absorb 128 sha512_compress (s5_state ?c) (drop 128 data)"
      using False c by (subst absorb.simps) simp
    moreover have "sha512_blocks data ctx = sha512_blocks (drop 128 data) ?c" using False by (subst sha512_blocks.simps) simp
    ultimately show ?thesis using 1(1) False c by simp
  qed (use 1(2) in \<open>simp add: absorb_short sha512_blocks.simps\<close>)
qed

lemma mem_put_length [simp]: "off + length x \<le> length buf \<Longrightarrow> length (mem_put buf off x) = length buf"
  by (simp add: mem_put_def)

lemma take_mem_put: "off + length x \<le> length buf \<Longrightarrow> take (off + length x) (mem_put buf off x) = take off buf @ x"
  by (simp add: mem_put_def)

text \<open>The 128-bit count of bits.\<close>

definition counts :: "nat \<Rightarrow> u64 \<Rightarrow> u64 \<Rightarrow> bool" where
  "counts n c0 c1 \<longleftrightarrow> c0 = of_nat (8 * n) \<and> c1 = of_nat (8 * n div 2 ^ 64)"

definition holds512 :: "u8 list \<Rightarrow> sha512_ctx \<Rightarrow> bool" where
  "holds512 m ctx \<longleftrightarrow>
     length (s5_buffer ctx) = 128 \<and> length (s5_state ctx) = 8 \<and> counts (length m) (s5_count0 ctx) (s5_count1 ctx) \<and>
     absorb 128 sha512_compress sha512_H0 m = (s5_state ctx, take (length m mod 128) (s5_buffer ctx))"

lemma holds512_init: "length (s5_buffer ctx) = 128 \<Longrightarrow> holds512 [] (sha512_init ctx)"
  by (simp add: holds512_def counts_def sha512_init_def absorb_short sha512_H0_def)

lemma used_mod:
  assumes "counts n (s5_count0 ctx) c1"
  shows "s5_used ctx = n mod 128"
proof -
  have c: "s5_count0 ctx = of_nat (8 * n)" using assms unfolding counts_def by blast
  have "8 * n mod 2 ^ 64 = 8 * (n mod 2 ^ 61)" using mult_mod_right [of 8 n "2 ^ 61"] by simp
  then have "unat (s5_count0 ctx) = 8 * (n mod 2 ^ 61)" unfolding c by (simp only: unat_of_nat) simp
  then have "drop_bit 3 (unat (s5_count0 ctx)) = n mod 2 ^ 61"
    unfolding drop_bit_eq_div by simp
  then have "unat (drop_bit 3 (s5_count0 ctx)) = n mod 2 ^ 61" by (simp only: unat_drop_bit_eq)
  moreover have "(128 :: nat) dvd 2 ^ 61" by simp
  ultimately show ?thesis by (simp only: s5_used_def unat_mod) (simp add: mod_mod_cancel)
qed

lemma len64: "LENGTH(64) = 64"
  by simp

lemma counts_add:
  assumes c: "counts n c0 c1" and l: "l < 2 ^ 32"
  defines "len \<equiv> of_nat l :: u64"
  shows "counts (n + l) (c0 + push_bit 3 len) ((if c0 + push_bit 3 len < push_bit 3 len then c1 + 1 else c1) + drop_bit 61 len)"
proof -
  have u: "unat len = l" using l by (simp add: len_def unat_of_nat)
  have "drop_bit 61 l = (0 :: nat)" using l by (simp add: drop_bit_eq_div)
  then have "unat (drop_bit 61 len) = 0" by (simp only: unat_drop_bit_eq u)
  then have "drop_bit 61 len = 0" by (simp only: unat_eq_zero)
  moreover have b: "push_bit 3 len = of_nat (8 * l)" by (simp add: len_def push_bit_eq_mult)
  moreover have c0': "c0 + push_bit 3 len = of_nat (8 * (n + l))" using c b by (simp add: counts_def algebra_simps)
  moreover have "(c0 + push_bit 3 len < push_bit 3 len) = (2 ^ 64 \<le> 8 * n mod 2 ^ 64 + 8 * l)"
  proof -
    have "unat (of_nat (8 * l) :: u64) = 8 * l" using l by (simp only: unat_of_nat) simp
    then have "unat (push_bit 3 len) = 8 * l" unfolding b .
    moreover have "unat (c0 + push_bit 3 len) = (8 * n mod 2 ^ 64 + 8 * l) mod 2 ^ 64"
    proof -
      have "8 * (n + l) mod 2 ^ 64 = (8 * n mod 2 ^ 64 + 8 * l) mod 2 ^ 64"
        unfolding mod_add_left_eq by (simp only: distrib_left)
      then show ?thesis unfolding c0' by (simp only: unat_of_nat len64)
    qed
    moreover have "((r + 8 * l) mod 2 ^ 64 < 8 * l) = (2 ^ 64 \<le> r + 8 * l)" if "r < 2 ^ 64" for r
    proof (cases "r + 8 * l < 2 ^ 64")
      case False
      have "8 * l < 2 ^ 64" using l by simp
      then have "(r + 8 * l) mod 2 ^ 64 = r + 8 * l - 2 ^ 64" using False that by (intro mod_nat_eqI) auto
      then show ?thesis using False that by auto
    qed simp
    ultimately show ?thesis by (simp add: word_less_nat_alt)
  qed
  moreover have "8 * (n + l) div 2 ^ 64 = 8 * n div 2 ^ 64 + (if 2 ^ 64 \<le> 8 * n mod 2 ^ 64 + 8 * l then 1 else 0)"
  proof -
    have "8 * (n + l) = 8 * n div 2 ^ 64 * 2 ^ 64 + (8 * n mod 2 ^ 64 + 8 * l)"
      using div_mult_mod_eq [of "8 * n" "2 ^ 64"] by simp
    then have "8 * (n + l) div 2 ^ 64 = 8 * n div 2 ^ 64 + (8 * n mod 2 ^ 64 + 8 * l) div 2 ^ 64" by simp
    moreover have "r div 2 ^ 64 = (if 2 ^ 64 \<le> r then 1 else 0)" if "r < 2 * 2 ^ 64" for r :: nat
      using that by (cases "r < 2 ^ 64") (auto intro!: div_nat_eqI)
    moreover have "8 * n mod 2 ^ 64 + 8 * l < 2 * 2 ^ 64"
      using l mod_less_divisor [of "2 ^ 64" "8 * n"] by (simp only: mult_2) simp
    ultimately show ?thesis by simp
  qed
  ultimately show ?thesis using c by (simp add: counts_def)
qed

lemma holds512_update:
  assumes h: "holds512 m ctx" and l: "length x < 2 ^ 32"
  shows "holds512 (m @ x) (sha512_update x ctx)"
proof (cases "x = []")
  case True
  then show ?thesis using h by (simp add: sha512_update_def)
next
  case False
  note h = h [unfolded holds512_def]
  let ?u = "length m mod 128"
  let ?bit = "push_bit 3 (of_nat (length x) :: u64)"
  let ?c0 = "s5_count0 ctx + ?bit"
  let ?c1 = "(if ?c0 < ?bit then s5_count1 ctx + 1 else s5_count1 ctx) + drop_bit 61 (of_nat (length x))"
  define c where "c = ctx\<lparr>s5_count0 := ?c0, s5_count1 := ?c1\<rparr>"
  have used: "s5_used ctx = ?u" using used_mod h by blast
  have cnt: "counts (length (m @ x)) ?c0 ?c1" using counts_add [OF _ l] h by simp
  have u: "?u < 128" by simp
  have full: "absorb 128 sha512_compress sha512_H0 (m @ x) = absorb 128 sha512_compress (s5_state ctx) (take ?u (s5_buffer ctx) @ x)"
    using absorb_append [of 128 sha512_compress sha512_H0 m x] h by simp
  have rest: "length (snd (absorb 128 sha512_compress sha512_H0 (m @ x))) = length (m @ x) mod 128"
    by (rule absorb_rest) simp
  have cc: "(if ?c0 < ?bit then ctx\<lparr>s5_count0 := ?c0, s5_count1 := s5_count1 ctx + 1\<rparr> else ctx\<lparr>s5_count0 := ?c0\<rparr>)
      \<lparr>s5_count1 := ?c1\<rparr> = c" by (simp add: c_def)
  have fields: "s5_buffer c = s5_buffer ctx" "s5_state c = s5_state ctx" "s5_count0 c = ?c0" "s5_count1 c = ?c1"
    by (simp_all add: c_def)
  show ?thesis
  proof (cases "?u > 0 \<and> length x < 128 - ?u")
    case True
    have e: "sha512_update x ctx = c\<lparr>s5_buffer := mem_put (s5_buffer c) ?u x\<rparr>"
      using True False used unfolding sha512_update_def Let_def by (simp add: c_def)
    have lt: "?u + length x < 128" using True by linarith
    have "length (m @ x) mod 128 = ?u + length x"
    proof -
      from lt have "(?u + length x) mod 128 = ?u + length x" by (rule mod_less)
      then show ?thesis by (simp only: mod_add_left_eq length_append)
    qed
    moreover have "absorb 128 sha512_compress sha512_H0 (m @ x) = (s5_state ctx, take ?u (s5_buffer ctx) @ x)"
      unfolding full using lt conjunct1 [OF h] by (intro absorb_short) (simp add: min_def)
    moreover have "take (?u + length x) (mem_put (s5_buffer ctx) ?u x) = take ?u (s5_buffer ctx) @ x"
    proof (intro take_mem_put)
      show "?u + length x \<le> length (s5_buffer ctx)" using conjunct2 [OF True] conjunct1 [OF h] by linarith
    qed
    ultimately show ?thesis using e cnt h True by (simp add: holds512_def fields)
  next
    case F: False
    define c2 where "c2 = (if ?u > 0 then sha512_transform (mem_put (s5_buffer c) ?u (take (128 - ?u) x))
        (c\<lparr>s5_buffer := mem_put (s5_buffer c) ?u (take (128 - ?u) x)\<rparr>) else c)"
    define y where "y = (if ?u > 0 then drop (128 - ?u) x else x)"
    have s2: "length (s5_state c2) = 8" "length (s5_buffer c2) = 128" "s5_count0 c2 = ?c0" "s5_count1 c2 = ?c1"
      "absorb 128 sha512_compress sha512_H0 (m @ x) = absorb 128 sha512_compress (s5_state c2) y"
    proof -
      have "length (s5_state c2) = 8 \<and> length (s5_buffer c2) = 128 \<and> s5_count0 c2 = ?c0 \<and> s5_count1 c2 = ?c1 \<and>
        absorb 128 sha512_compress sha512_H0 (m @ x) = absorb 128 sha512_compress (s5_state c2) y"
      proof (cases "?u > 0")
        case True
        let ?b = "mem_put (s5_buffer c) ?u (take (128 - ?u) x)"
        have lx: "128 - ?u \<le> length x" using F True by simp
        have b: "?b = take ?u (s5_buffer ctx) @ take (128 - ?u) x" "length ?b = 128"
          using lx h u by (simp_all add: mem_put_def fields min_def)
        note t = transform512_compress [of ?b "c\<lparr>s5_buffer := ?b\<rparr>"]
        have "take ?u (s5_buffer ctx) @ x = ?b @ drop (128 - ?u) x" unfolding b(1) by simp
        then have "absorb 128 sha512_compress sha512_H0 (m @ x) =
            absorb 128 sha512_compress (sha512_compress (s5_state ctx) ?b) (drop (128 - ?u) x)"
          unfolding full using absorb_block [of 128 ?b] b(2) by simp
        then show ?thesis using t b(2) h True by (simp add: c2_def y_def fields)
      next
        case u0: False
        then show ?thesis using full h by (simp add: c2_def y_def fields)
      qed
      then show "length (s5_state c2) = 8" "length (s5_buffer c2) = 128" "s5_count0 c2 = ?c0" "s5_count1 c2 = ?c1"
        "absorb 128 sha512_compress sha512_H0 (m @ x) = absorb 128 sha512_compress (s5_state c2) y" by auto
    qed
    let ?A = "absorb 128 sha512_compress (s5_state c2) y"
    note bl = blocks_absorb [OF s2(1), of y]
    have e: "sha512_update x ctx = (if snd ?A \<noteq> [] then c2\<lparr>s5_state := fst ?A, s5_buffer := mem_put (s5_buffer c2) 0 (snd ?A)\<rparr>
        else c2\<lparr>s5_state := fst ?A\<rparr>)"
    proof -
      have "sha512_update x ctx = (let (data, ctx) = sha512_blocks y c2
             in if data \<noteq> [] then ctx\<lparr>s5_buffer := mem_put (s5_buffer ctx) 0 data\<rparr> else ctx)"
        using F False used unfolding sha512_update_def Let_def y_def c2_def by (auto simp: c_def)
      then show ?thesis using bl by (simp add: Let_def)
    qed
    have l: "length (snd ?A) = length (m @ x) mod 128" using rest s2(5) by simp
    have lt: "length (m @ x) mod 128 < 128" by simp
    have "take (length (m @ x) mod 128) (mem_put (s5_buffer c2) 0 (snd ?A)) = snd ?A"
      using take_mem_put [of 0 "snd ?A" "s5_buffer c2"] l lt s2(2) by simp
    then show ?thesis
      using e bl s2 cnt l lt by (cases "snd ?A = []") (simp_all add: holds512_def prod_eq_iff)
  qed
qed

lemma pad_zeros_128:
  "(128 - (n + 1 + 16) mod 128) mod 128 = (if n mod 128 \<le> 111 then 111 - n mod 128 else 239 - n mod 128)" for n :: nat
proof -
  define u where "u = n mod 128"
  have u: "u < 128" by (simp add: u_def)
  have "(n + 1 + 16) mod 128 = (u + 17) mod 128" using mod_add_left_eq [of n 128 17] by (simp add: u_def add_ac)
  also have "\<dots> = (if u \<le> 110 then u + 17 else u - 111)" using u by (auto simp: mod_if)
  finally show ?thesis using u unfolding u_def [symmetric] by (auto simp: mod_if)
qed

lemma be64_length [simp]: "length (be64_bytes w) = 8"
  by (simp add: be64_bytes_def)

text \<open>The last two stores put the bit count at the end of the block.\<close>

lemma put_counts:
  "length buf = 128 \<Longrightarrow> mem_put (mem_put buf 112 (be64_bytes hi)) 120 (be64_bytes lo) = take 112 buf @ be64_bytes hi @ be64_bytes lo"
  by (simp add: mem_put_def)

lemma final_block:
  assumes "length b = 128" "length (s5_state ctx) = 8"
  shows "s5_state (sha512_transform b ctx) = fst (absorb 128 sha512_compress (s5_state ctx) b)"
  using transform512_compress [OF assms] absorb_block [of 128 b sha512_compress "s5_state ctx" "[]"] assms(1)
  by (simp add: absorb_short)

lemma sha512_final_spec:
  assumes h: "holds512 m ctx"
  shows "sha512_final ctx = sha512_spec m"
proof -
  note h = h [unfolded holds512_def]
  let ?u = "length m mod 128" and ?len = "be64_bytes (s5_count1 ctx) @ be64_bytes (s5_count0 ctx)"
  let ?r = "take ?u (s5_buffer ctx)"
  have u: "?u < 128" by simp
  have used: "s5_used ctx = ?u" using used_mod h by blast
  have len: "bit_length m = ?len" using h by (simp add: counts_def bit_length_def)
  have pad: "absorb 128 sha512_compress sha512_H0 (sha_pad 128 (bit_length m) m) =
      absorb 128 sha512_compress (s5_state ctx) (?r @ [0x80] @ replicate (if ?u \<le> 111 then 111 - ?u else 239 - ?u) 0 @ ?len)"
    using absorb_append [of 128 sha512_compress sha512_H0 m] h pad_zeros_128 [of "length m"]
    unfolding sha_pad_def len by simp
  have s: "concat (map be64_bytes (s5_state (sha512_transform b c))) = sha512_spec m"
    if "length b = 128" "length (s5_state c) = 8"
      "absorb 128 sha512_compress (s5_state c) b = absorb 128 sha512_compress sha512_H0 (sha_pad 128 (bit_length m) m)" for b c
    using final_block [OF that(1,2)] that(3) by (simp add: sha512_spec_def)
  consider "?u = 0" | "0 < ?u" "?u \<le> 111" | "111 < ?u" by linarith
  then show ?thesis
  proof cases
    case 1
    let ?b = "[0x80] @ replicate 111 0 @ ?len"
    have "take 112 ((mem_put (s5_buffer ctx) 0 (replicate 112 0))[0 := 0x80]) = [0x80] @ replicate 111 (0 :: u8)"
    proof -
      have z: "replicate 112 (0 :: u8) = 0 # replicate 111 0" by (simp flip: replicate_Suc)
      show ?thesis using h unfolding mem_put_def z by simp
    qed
    then have "sha512_final ctx = concat (map be64_bytes (s5_state (sha512_transform ?b (ctx\<lparr>s5_buffer := ?b\<rparr>))))"
      using 1 used h put_counts [of "(mem_put (s5_buffer ctx) 0 (replicate 112 0))[0 := 0x80]"]
      by (simp add: sha512_final_def Let_def)
    also have "\<dots> = sha512_spec m" using 1 h pad by (intro s) simp_all
    finally show ?thesis .
  next
    case 2
    let ?b = "?r @ [0x80] @ replicate (111 - ?u) 0 @ ?len"
    have "take 112 (mem_put ((s5_buffer ctx)[?u := 0x80]) (?u + 1) (replicate (112 - (?u + 1)) 0)) = ?r @ [0x80] @ replicate (111 - ?u) 0"
    proof -
      obtain k where k: "112 - ?u = Suc k" "111 - ?u = k" using 2 by (cases "112 - ?u") auto
      show ?thesis using h 2 k by (simp add: mem_put_def take_Suc_conv_app_nth)
    qed
    then have "sha512_final ctx = concat (map be64_bytes (s5_state (sha512_transform ?b (ctx\<lparr>s5_buffer := ?b\<rparr>))))"
      using 2 used h put_counts [of "mem_put ((s5_buffer ctx)[?u := 0x80]) (?u + 1) (replicate (112 - (?u + 1)) 0)"]
      by (simp add: sha512_final_def Let_def)
    also have "\<dots> = sha512_spec m" using 2 h pad by (intro s) (simp_all add: min_def)
    finally show ?thesis .
  next
    case 3
    let ?b1 = "?r @ [0x80] @ replicate (127 - ?u) 0" and ?b2 = "replicate 112 0 @ ?len"
    let ?c1 = "sha512_transform ?b1 (ctx\<lparr>s5_buffer := ?b1\<rparr>)"
    have b1: "mem_put ((s5_buffer ctx)[?u := 0x80]) (?u + 1) (replicate (128 - (?u + 1)) 0) = ?b1" "length ?b1 = 128"
      using h 3 u by (simp_all add: mem_put_def take_Suc_conv_app_nth min_def)
    have c1: "s5_state ?c1 = sha512_compress (s5_state ctx) ?b1" "length (s5_state ?c1) = 8" "s5_buffer ?c1 = ?b1"
      "s5_count0 ?c1 = s5_count0 ctx" "s5_count1 ?c1 = s5_count1 ctx"
      using transform512_compress [OF b1(2), of "ctx\<lparr>s5_buffer := ?b1\<rparr>"] h by simp_all
    have "take 112 (mem_put ?b1 0 (replicate 112 0)) = replicate 112 (0 :: u8)" by (simp add: mem_put_def)
    then have "sha512_final ctx = concat (map be64_bytes (s5_state (sha512_transform ?b2 (?c1\<lparr>s5_buffer := ?b2\<rparr>))))"
      using 3 used b1 c1(3-5) put_counts [of "mem_put ?b1 0 (replicate 112 0)"]
      unfolding sha512_final_def Let_def by (simp only: if_True if_False) simp
    also have "\<dots> = sha512_spec m"
    proof (intro s)
      have z: "replicate (239 - ?u) (0 :: u8) = replicate (127 - ?u) 0 @ replicate 112 0"
        using u by (simp flip: replicate_add)
      have "absorb 128 sha512_compress sha512_H0 (sha_pad 128 (bit_length m) m) =
          absorb 128 sha512_compress (s5_state ctx) (?r @ [0x80] @ replicate (239 - ?u) 0 @ ?len)" using pad 3 by simp
      also have "?r @ [0x80] @ replicate (239 - ?u) 0 @ ?len = ?b1 @ ?b2" unfolding z by simp
      also have "absorb 128 sha512_compress (s5_state ctx) (?b1 @ ?b2) = absorb 128 sha512_compress (s5_state ?c1) ?b2"
        unfolding c1(1) by (rule absorb_block [OF _ b1(2)]) simp
      finally show "absorb 128 sha512_compress (s5_state (?c1\<lparr>s5_buffer := ?b2\<rparr>)) ?b2 =
          absorb 128 sha512_compress sha512_H0 (sha_pad 128 (bit_length m) m)" by simp
    qed (use c1(2) in simp_all)
    finally show ?thesis .
  qed
qed

interpretation sha512: stream_hash sha512_init sha512_update sha512_final holds512
    "\<lambda>c. length (s5_buffer c) = 128" "\<lambda>x. length x < 2 ^ 32" sha512_spec
  by unfold_locales (simp_all add: holds512_init holds512_update sha512_final_spec)

text \<open>The buffered SHA-512 of the code, whatever its uninitialised buffer holds and however the message is
  cut into calls, is the function of FIPS 180-4, with the message length counted in 128 bits.\<close>

theorem sha512_is_fips_180_4:
  assumes "length (s5_buffer stack) = 128" and "\<forall>x \<in> set pieces. length x < 2 ^ 32"
  shows "sha512_final (fold sha512_update pieces (sha512_init stack)) = sha512_spec (concat pieces)"
  using assms by (rule sha512.pieces)

theorem sha512_is_fips_180_4_witness:
  "sha512_final (fold sha512_update [[97], [98, 99]] (sha512_init \<lparr>s5_state = [], s5_count0 = 0, s5_count1 = 0, s5_buffer = replicate 128 0\<rparr>))
   = sha512_spec [97, 98, 99]"
  using sha512_is_fips_180_4 [of "\<lparr>s5_state = [], s5_count0 = 0, s5_count1 = 0, s5_buffer = replicate 128 0\<rparr>" "[[97], [98, 99]]"]
  by simp

lemma sha512_spec_length: "length (sha512_spec m) = 64"
proof -
  have "length (sha512_compress s b) = 8" if "length s = 8" for s b
    using that fold_length [of "[0..<80]" "fips_round512 W" 8 s for W] by (simp add: sha512_compress_def fips_round512_def Let_def)
  then have "length (fst (absorb 128 sha512_compress sha512_H0 x)) = 8" for x
    by (intro absorb_state_length) (simp_all add: sha512_H0_def)
  then show ?thesis by (simp add: sha512_spec_def concat_length [of be64_bytes 8] be64_bytes_def [abs_def] length_concat comp_def sum_list_triv)
qed

end
