(* ===== verification/Rsa.thy ===== *)
theory Rsa
  imports Rsa_Key Sha512
begin

text \<open>
  RSA signatures of \<open>src/crypto.c\<close>: PKCS#1 v1.5 padding, the signature with its self check, the signature for
  TLS and the public key as an SSH blob. \<open>kmalloc\<close> is a flag for every allocation; logging is left out.
\<close>

section \<open>The code\<close>

text \<open>\<open>strncmp(s, pre, n) = 0\<close> for the \<open>n\<close> characters of a literal.\<close>

definition has_prefix :: "u8 list \<Rightarrow> u8 list \<Rightarrow> bool" where
  "has_prefix pre s \<longleftrightarrow> take (length pre) s = pre"

definition str_sha512 :: "u8 list" where "str_sha512 = [115, 104, 97, 53, 49, 50]"
definition str_sha256 :: "u8 list" where "str_sha256 = [115, 104, 97, 50, 53, 54]"

text \<open>The table of the code, in decimal.\<close>

definition sha512_der :: "u8 list" where
  "sha512_der = [48, 81, 48, 13, 6, 9, 96, 134, 72, 1, 101, 3, 4, 2, 3, 5, 0, 4, 64]"

definition sha256_der :: "u8 list" where
  "sha256_der = [48, 49, 48, 13, 6, 9, 96, 134, 72, 1, 101, 3, 4, 2, 1, 5, 0, 4, 32]"

definition pad_der :: "u8 list option \<Rightarrow> u8 list" where
  "pad_der hash_algorithm = (case hash_algorithm of
     Some a \<Rightarrow> if has_prefix str_sha512 a then sha512_der else sha256_der
   | None \<Rightarrow> sha256_der)"

text \<open>A hash that passes the length check but does not fit beside its header makes \<open>padding_len\<close> wrap
  around: the loop then writes far beyond the block.\<close>

datatype pad_result = Pad_Refused | Pad_Overrun | Pad_Done "u8 list"

definition pkcs1_v15_pad :: "u8 list \<Rightarrow> u8 list option \<Rightarrow> nat \<Rightarrow> pad_result" where
  "pkcs1_v15_pad hash hash_algorithm padded_len =
     (if padded_len < length hash + 11 then Pad_Refused
      else
        let der = pad_der hash_algorithm
        in if padded_len < length hash + length der + 3 then Pad_Overrun
           else Pad_Done ([0x00, 0x01] @ replicate (padded_len - length hash - length der - 3) 0xFF @ [0x00] @ der @ hash))"

definition mont_modexp_be256 :: "bool \<Rightarrow> u8 list \<Rightarrow> u8 list \<Rightarrow> u8 list \<Rightarrow> u8 list" where
  "mont_modexp_be256 ctx base_be exp_be mod_be =
     (if ctx then mont_modexp base_be exp_be mod_be rsa_n_r2_be else replicate RSA_KEY_SIZE 0)"

text \<open>Which buffers \<open>kmalloc\<close> grants; the context of the exponentiation is allocated once.\<close>

record rsa_mem =
  m_padded :: bool
  m_sig_temp :: bool
  m_ctx :: bool
  m_verify :: bool

text \<open>The result is moved behind its leading zeros.\<close>

definition place_signature :: "u8 list \<Rightarrow> u8 list option" where
  "place_signature sig_temp =
     (let sig_start = (case first_idx (\<lambda>x. x \<noteq> 0) sig_temp of Some i \<Rightarrow> i | None \<Rightarrow> 0);
          sig_len = RSA_KEY_SIZE - sig_start
      in if sig_start = RSA_KEY_SIZE then None
         else if sig_len < RSA_KEY_SIZE
         then Some (replicate (RSA_KEY_SIZE - sig_len) 0 @ take sig_len (drop sig_start sig_temp))
         else Some sig_temp)"

definition rsa_sign :: "rsa_mem \<Rightarrow> u8 list \<Rightarrow> u8 list option \<Rightarrow> rsa_key \<Rightarrow> (nat \<times> u8 list) option" where
  "rsa_sign m hash hash_algorithm key =
     (let zeros = replicate RSA_KEY_SIZE 0 in
      if \<not> m_padded m then Some (0, zeros)
      else
        case (if rk_n key ! (RSA_KEY_SIZE - 1) = 0x21 then Pad_Done ((replicate RSA_KEY_SIZE 0)[RSA_KEY_SIZE - 1 := 2])
              else pkcs1_v15_pad hash hash_algorithm RSA_KEY_SIZE) of
          Pad_Overrun \<Rightarrow> None
        | Pad_Refused \<Rightarrow> Some (0, zeros)
        | Pad_Done padded \<Rightarrow>
            if \<not> m_sig_temp m then Some (0, zeros)
            else
              case place_signature (mont_modexp_be256 (m_ctx m) padded (rk_d key) (rk_n key)) of
                None \<Rightarrow> Some (0, zeros)
              | Some signature \<Rightarrow>
                  if list_all (\<lambda>x. x = 0) signature then Some (0, signature)
                  else if \<not> m_verify m then Some (0, signature)
                  else if mont_modexp_be256 (m_ctx m) signature (rk_e key) (rk_n key) \<noteq> padded then Some (0, signature)
                  else Some (RSA_KEY_SIZE, signature))"

text \<open>\<open>sig_out\<close> is the caller's buffer.\<close>

definition tls_rsa_sign_sha256 :: "bool \<Rightarrow> rsa_mem \<Rightarrow> u8 list \<Rightarrow> u8 list \<Rightarrow> (nat \<times> u8 list) option" where
  "tls_rsa_sign_sha256 mem m hash sig_out =
     (if \<not> mem then Some (0, sig_out) else rsa_sign m hash (Some str_sha256) get_default_rsa_key)"

text \<open>The two multiple-precision integers of the public key are written by the same code.\<close>

definition put_mpint :: "u8 list \<Rightarrow> u8 list" where
  "put_mpint a =
     (let start = (case first_idx (\<lambda>x. x \<noteq> 0) a of Some i \<Rightarrow> i | None \<Rightarrow> 0);
          len = 256 - start
      in if a ! start \<ge> 0x80 then be32_bytes (of_nat (len + 1)) @ [0x00] @ take len (drop start a)
         else be32_bytes (of_nat len) @ take len (drop start a))"

definition ssh_get_rsa_public_key_blob :: "bool \<Rightarrow> nat \<Rightarrow> u8 list option" where
  "ssh_get_rsa_public_key_blob mem output_len =
     (if output_len < 300 then None
      else if \<not> mem then None
      else Some ([0, 0, 0, 7] @ [115, 115, 104, 45, 114, 115, 97] @ put_mpint (rk_e get_default_rsa_key) @ put_mpint (rk_n get_default_rsa_key)))"

section \<open>The built-in key\<close>

lemma rsa_key_fields: "rk_n get_default_rsa_key = rsa_n_init" "rk_d get_default_rsa_key = rsa_d_init"
  by (simp_all add: get_default_rsa_key_def)

lemma rsa_N_facts: "odd rsa_N" "1 < rsa_N" "2 * rsa_N \<le> 2 ^ 2048" "2 * 256 ^ 254 \<le> rsa_N"
  by (simp_all add: rsa_N_def)

lemma rsa_exponentiation:
  assumes "length x = 256" "be_val x < rsa_N"
  shows "length (mont_modexp_be256 True x e rsa_n_init) = 256"
    "be_val (mont_modexp_be256 True x e rsa_n_init) = be_val x ^ be_val e mod rsa_N"
  using mont_modexp_val [OF assms(1) rsa_lengths(1,3) _ _ _ _ rsa_r2_correct, unfolded rsa_n_val, OF rsa_N_facts(1-3) assms(2), of e]
  by (simp_all add: mont_modexp_be256_def)

section \<open>Signatures\<close>

text \<open>The encoded message of PKCS#1 (RFC 8017, EMSA-PKCS1-v1_5) for a block of 256 bytes.\<close>

definition emsa_pkcs1 :: "u8 list \<Rightarrow> u8 list \<Rightarrow> u8 list" where
  "emsa_pkcs1 der hash = [0, 1] @ replicate (256 - 3 - length der - length hash) 0xFF @ [0] @ der @ hash"

lemma pad_emsa:
  assumes "length hash \<le> 64"
  shows "pkcs1_v15_pad hash alg RSA_KEY_SIZE = Pad_Done (emsa_pkcs1 (pad_der alg) hash)"
    "length (emsa_pkcs1 (pad_der alg) hash) = 256"
proof -
  have "length (pad_der alg) = 19" by (simp add: pad_der_def sha512_der_def sha256_der_def split: option.split)
  with assms show "pkcs1_v15_pad hash alg RSA_KEY_SIZE = Pad_Done (emsa_pkcs1 (pad_der alg) hash)"
    "length (emsa_pkcs1 (pad_der alg) hash) = 256"
    by (simp_all add: pkcs1_v15_pad_def emsa_pkcs1_def RSA_KEY_SIZE_def Let_def)
qed

lemma emsa_less:
  assumes "length (emsa_pkcs1 der hash) = 256"
  shows "be_val (emsa_pkcs1 der hash) < rsa_N" "0 < be_val (emsa_pkcs1 der hash)"
proof -
  define xs where "xs = replicate (256 - 3 - length der - length hash) 0xFF @ [0] @ der @ hash"
  have e: "emsa_pkcs1 der hash = 0 # 1 # xs" by (simp add: emsa_pkcs1_def xs_def)
  have l: "length xs = 254" using assms unfolding e by simp
  have v: "be_val (emsa_pkcs1 der hash) = 256 ^ 254 + be_val xs" unfolding e be_val_Cons l by simp
  have "be_val xs < 256 ^ 254" using be_val_less [of xs] unfolding l .
  then show "be_val (emsa_pkcs1 der hash) < rsa_N" using rsa_N_facts(4) unfolding v by linarith
  show "0 < be_val (emsa_pkcs1 der hash)" unfolding v by simp
qed

text \<open>The search for leading zeros and the padding leave the signature as it is.\<close>

lemma place_signature_id:
  assumes "length s = 256"
  shows "place_signature s = Some s"
proof (cases "first_idx (\<lambda>x. x \<noteq> 0) s")
  case (Some i)
  then have i: "i < 256" and z: "take i s = replicate i 0" using first_idx_SomeD [OF Some] assms by (auto intro!: nth_equalityI)
  have "replicate i 0 @ drop i s = s" using z append_take_drop_id [of i s] by simp
  then show ?thesis using Some assms i by (simp add: place_signature_def RSA_KEY_SIZE_def Let_def)
qed (simp add: place_signature_def RSA_KEY_SIZE_def)

definition rsa_signature :: "u8 list \<Rightarrow> u8 list" where
  "rsa_signature em = mont_modexp_be256 True em rsa_d_init rsa_n_init"

definition rsa_verifies :: "u8 list \<Rightarrow> u8 list \<Rightarrow> bool" where
  "rsa_verifies em s \<longleftrightarrow> length s = 256 \<and> be_val s < rsa_N \<and> be_val s ^ 65537 mod rsa_N = be_val em"

text \<open>Whatever memory is granted, the signer answers 256 exactly with a signature that verifies under the
  public key.\<close>

lemma rsa_sign_cases:
  fixes alg :: "u8 list option"
  assumes h: "length hash \<le> 64"
  defines "em \<equiv> emsa_pkcs1 (pad_der alg) hash"
  shows "rsa_sign m hash alg get_default_rsa_key =
    (if m_padded m \<and> m_sig_temp m \<and> m_ctx m \<and> m_verify m \<and> rsa_verifies em (rsa_signature em) then Some (256, rsa_signature em)
     else if m_padded m \<and> m_sig_temp m \<and> m_ctx m then Some (0, rsa_signature em)
     else Some (0, replicate 256 0))"
proof -
  let ?s = "rsa_signature em"
  have em: "length em = 256" "be_val em < rsa_N" "0 < be_val em"
    using pad_emsa(2) [OF h, of alg] emsa_less [of "pad_der alg" hash] unfolding em_def by simp_all
  have s: "length ?s = 256" "be_val ?s < rsa_N"
    using rsa_exponentiation [OF em(1,2), of rsa_d_init] rsa_N_facts(2) by (simp_all add: rsa_signature_def)
  have v: "mont_modexp_be256 True ?s (rk_e get_default_rsa_key) rsa_n_init = em \<longleftrightarrow> rsa_verifies em ?s"
  proof -
    note e = rsa_exponentiation [OF s, of "rk_e get_default_rsa_key", unfolded rsa_e_val]
    show ?thesis using e s em(1) be_val_inj [of _ em] unfolding rsa_verifies_def by (metis (no_types, lifting))
  qed
  have nz: "list_all (\<lambda>x. x = 0) ?s \<Longrightarrow> \<not> rsa_verifies em ?s"
    using em(3) by (auto simp: rsa_verifies_def be_val_zero_iff [symmetric])
  have n: "rsa_n_init ! 255 \<noteq> 0x21" by (simp add: rsa_n_init_def)
  have z: "list_all (\<lambda>x. x = 0) (replicate k (0 :: u8))" for k by (simp add: list_all_iff)
  have p: "place_signature ?s = Some ?s" "place_signature (replicate 256 0) = Some (replicate 256 0)"
    using s(1) by (simp_all add: place_signature_id)
  show ?thesis
    using p v nz n z [of 256] unfolding rsa_sign_def rsa_key_fields pad_emsa(1) [OF h] em_def [symmetric] rsa_signature_def
    by (cases "m_ctx m") (simp_all add: RSA_KEY_SIZE_def Let_def mont_modexp_be256_def)
qed


text \<open>C36: Whatever memory is granted, a signature the TLS signer reports is the RSA signature of the digest:
  256 bytes that the public key 65537 takes back to the PKCS#1 block. With memory the result is the power of
  the private exponent, and it is reported exactly when it verifies.\<close>

theorem tls_rsa_signature:
  assumes "length hash = 32"
  shows "\<exists>len s. tls_rsa_sign_sha256 mem m hash out = Some (len, s) \<and>
    (len = 0 \<or> len = 256 \<and> rsa_verifies (emsa_pkcs1 sha256_der hash) s) \<and>
    (mem \<and> m_padded m \<and> m_sig_temp m \<and> m_ctx m \<and> m_verify m \<longrightarrow>
       be_val s = be_val (emsa_pkcs1 sha256_der hash) ^ be_val rsa_d_init mod rsa_N \<and>
       (len = 256 \<longleftrightarrow> be_val s ^ 65537 mod rsa_N = be_val (emsa_pkcs1 sha256_der hash)))"
proof -
  let ?em = "emsa_pkcs1 sha256_der hash"
  have der: "pad_der (Some str_sha256) = sha256_der" by (simp add: pad_der_def has_prefix_def str_sha256_def str_sha512_def)
  have h: "length hash \<le> 64" using assms by simp
  have em: "length ?em = 256" "be_val ?em < rsa_N" using pad_emsa(2) [OF h, of "Some str_sha256"] emsa_less(1) [of sha256_der hash] der by simp_all
  have s: "length (rsa_signature ?em) = 256" "be_val (rsa_signature ?em) = be_val ?em ^ be_val rsa_d_init mod rsa_N"
    using rsa_exponentiation [OF em, of rsa_d_init] by (simp_all add: rsa_signature_def)
  then have lt: "be_val (rsa_signature ?em) < rsa_N" using rsa_N_facts(2) by simp
  show ?thesis
    using rsa_sign_cases [OF h, of m "Some str_sha256"] s lt unfolding der
    by (auto simp: tls_rsa_sign_sha256_def rsa_verifies_def)
qed

theorem tls_rsa_signature_witness:
  "\<exists>len s. tls_rsa_sign_sha256 True (rsa_mem.make True True True True) (replicate 32 7) [] = Some (len, s) \<and>
    be_val s = be_val (emsa_pkcs1 sha256_der (replicate 32 7)) ^ be_val rsa_d_init mod rsa_N"
  using tls_rsa_signature [of "replicate 32 7" True "rsa_mem.make True True True True" "[]"] by (auto simp: rsa_mem.make_def)

section \<open>The public key\<close>

text \<open>The multiple-precision integers of RFC 4251: a length and the shortest two's complement form.\<close>

definition is_mpint :: "u8 list \<Rightarrow> nat \<Rightarrow> bool" where
  "is_mpint bs v \<longleftrightarrow> (\<exists>b body. bs = be32_bytes (of_nat (length (b # body))) @ b # body \<and> be_val (b # body) = v \<and>
     b < 0x80 \<and> (b = 0 \<longrightarrow> (\<exists>c rest. body = c # rest \<and> c \<ge> 0x80)))"

lemma put_mpint_is_mpint:
  assumes "length a = 256" "be_val a \<noteq> 0"
  shows "is_mpint (put_mpint a) (be_val a)"
proof -
  have "\<exists>x \<in> set a. x \<noteq> 0" using assms(2) by (auto simp: be_val_zero_iff list_all_iff)
  then obtain i where i: "first_idx (\<lambda>x. x \<noteq> 0) a = Some i" using first_idx_None [of "\<lambda>x. x \<noteq> 0" a] by fastforce
  note d = first_idx_SomeD [OF i]
  then have c: "drop i a = a ! i # drop (Suc i) a" using Cons_nth_drop_Suc [of i a] by simp
  have v: "be_val (a ! i # drop (Suc i) a) = be_val a" using be_val_skip_zeros [OF i] c by simp
  have "take (256 - i) (drop i a) = drop i a" using assms(1) by simp
  then have t: "take (256 - i) (drop i a) = a ! i # drop (Suc i) a" "length (drop (Suc i) a) = 255 - i"
    using c assms(1) by simp_all
  show ?thesis
  proof (cases "a ! i \<ge> 0x80")
    case True
    then have "put_mpint a = be32_bytes (of_nat (length (0 # a ! i # drop (Suc i) a))) @ 0 # a ! i # drop (Suc i) a"
      using d assms(1) by (simp add: put_mpint_def i t(1) Let_def)
    moreover have "be_val (0 # a ! i # drop (Suc i) a) = be_val a" using v by (simp add: be_val_Cons)
    ultimately show ?thesis using True unfolding is_mpint_def by (intro exI [of _ 0] exI [of _ "a ! i # drop (Suc i) a"]) simp
  next
    case False
    then have "put_mpint a = be32_bytes (of_nat (length (a ! i # drop (Suc i) a))) @ a ! i # drop (Suc i) a"
      using d assms(1) by (simp add: put_mpint_def i t(1) Let_def)
    then show ?thesis using False v d unfolding is_mpint_def by (intro exI [of _ "a ! i"] exI [of _ "drop (Suc i) a"]) (simp add: not_le)
  qed
qed

text \<open>The public key blob is the name \<open>ssh-rsa\<close> and the exponent and modulus the signatures verify under, as the
  integers of RFC 4251; it fits the buffer.\<close>

theorem rsa_public_blob_encodes_key:
  "\<exists>e n. ssh_get_rsa_public_key_blob True 300 = Some ([0, 0, 0, 7] @ [115, 115, 104, 45, 114, 115, 97] @ e @ n) \<and>
    is_mpint e 65537 \<and> is_mpint n rsa_N \<and> length ([0, 0, 0, 7] @ [115, 115, 104, 45, 114, 115, 97] @ e @ n) \<le> 300"
proof -
  have e: "is_mpint (put_mpint (rk_e get_default_rsa_key)) 65537"
    using put_mpint_is_mpint [OF rsa_e_val(1)] unfolding rsa_e_val(2) by simp
  have n: "is_mpint (put_mpint (rk_n get_default_rsa_key)) rsa_N"
    using put_mpint_is_mpint [OF rsa_lengths(1)] rsa_N_facts(2) unfolding rsa_n_val rsa_key_fields by simp
  have "first_idx (\<lambda>x. x \<noteq> 0) (replicate 253 0 @ [1, 0, 1 :: u8]) = Some 253" by (rule first_idx_SomeI) (simp_all add: nth_append)
  then have ne: "put_mpint (rk_e get_default_rsa_key) = [0, 0, 0, 3, 1, 0, 1]"
    unfolding rsa_e_bytes by (simp add: put_mpint_def be32_bytes_def nth_append word_le_nat_alt)
  have f: "first_idx (\<lambda>x. x \<noteq> 0) rsa_n_init = Some 0" "rsa_n_init ! 0 = 0x0e" by (simp_all add: rsa_n_init_def)
  have "length (put_mpint (rk_n get_default_rsa_key)) = 260"
    unfolding rsa_key_fields put_mpint_def f(1) using f(2) by (simp add: be32_bytes_def Let_def)
  then show ?thesis
    using e n ne
    by (intro exI [of _ "put_mpint (rk_e get_default_rsa_key)"] exI [of _ "put_mpint (rk_n get_default_rsa_key)"])
      (simp add: ssh_get_rsa_public_key_blob_def)
qed

end
