(* ===== verification/Ssh_Kex.thy ===== *)
theory Ssh_Kex
  imports Rsa
begin

text \<open>
  The SSH key exchange functions of \<open>src/crypto.c\<close>: the exchange hash, the keys derived from it and the signature
  blob of the host key. \<open>stack\<close> stands for the uninitialised hash contexts on the stack.
\<close>

section \<open>The code\<close>

definition sha256_put_u32be :: "u32 \<Rightarrow> sha256_ctx \<Rightarrow> sha256_ctx" where
  "sha256_put_u32be x ctx = sha256_update (be32_bytes x) ctx"

definition sha256_put_string :: "u8 list \<Rightarrow> sha256_ctx \<Rightarrow> sha256_ctx" where
  "sha256_put_string s ctx =
     (let ctx = sha256_put_u32be (of_nat (length s)) ctx in if s \<noteq> [] then sha256_update s ctx else ctx)"

definition put_raw :: "u8 list \<Rightarrow> sha256_ctx \<Rightarrow> sha256_ctx" where
  "put_raw s ctx = (if s \<noteq> [] then sha256_update s ctx else ctx)"

text \<open>The arguments of the exchange hash, in the order of the parameters.\<close>

record kex =
  v_c :: "u8 list"
  v_s :: "u8 list"
  i_c :: "u8 list"
  i_s :: "u8 list"
  k_s :: "u8 list"
  kex_min :: u32
  kex_n :: u32
  kex_max :: u32
  kex_p :: "u8 list"
  kex_g :: "u8 list"
  kex_e :: "u8 list"
  kex_f :: "u8 list"
  kex_k :: "u8 list"

definition ssh_compute_exchange_hash :: "sha256_ctx \<Rightarrow> kex \<Rightarrow> u8 list" where
  "ssh_compute_exchange_hash stack x =
     (let ctx = sha256_init stack;
          ctx = sha256_put_string (v_c x) ctx;
          ctx = sha256_put_string (v_s x) ctx;
          ctx = sha256_put_string (i_c x) ctx;
          ctx = sha256_put_string (i_s x) ctx;
          ctx = put_raw (k_s x) ctx;
          ctx = (if kex_min x \<noteq> 0xFFFFFFFF then sha256_put_u32be (kex_min x) ctx else ctx);
          ctx = sha256_put_u32be (kex_n x) ctx;
          ctx = (if kex_max x \<noteq> 0xFFFFFFFF then sha256_put_u32be (kex_max x) ctx else ctx);
          ctx = put_raw (kex_p x) ctx;
          ctx = put_raw (kex_g x) ctx;
          ctx = put_raw (kex_e x) ctx;
          ctx = put_raw (kex_f x) ctx;
          ctx = put_raw (kex_k x) ctx
      in fst (sha256_final ctx))"

definition ssh_kdf_one_32 :: "sha256_ctx \<Rightarrow> u8 list \<Rightarrow> u8 list \<Rightarrow> u8 \<Rightarrow> u8 list" where
  "ssh_kdf_one_32 stack k_mpint h letter =
     (let ctx = sha256_init stack;
          ctx = sha256_update k_mpint ctx;
          ctx = sha256_update (take 32 h) ctx;
          ctx = sha256_update [letter] ctx;
          ctx = sha256_update (take 32 h) ctx
      in fst (sha256_final ctx))"

definition ssh_kdf_one :: "sha256_ctx \<Rightarrow> u8 list \<Rightarrow> u8 list \<Rightarrow> u8 \<Rightarrow> u8 list" where
  "ssh_kdf_one stack k_mpint h letter =
     (let ctx = sha256_init stack;
          ctx = sha256_update k_mpint ctx;
          ctx = sha256_update (take 32 h) ctx;
          ctx = sha256_update [letter] ctx;
          ctx = sha256_update (take 32 h) ctx;
          digest = fst (sha256_final ctx)
      in take 16 digest)"

record transport_keys =
  recv_iv :: "u8 list"
  send_iv :: "u8 list"
  recv_key :: "u8 list"
  send_key :: "u8 list"
  recv_mac_key :: "u8 list option"
  send_mac_key :: "u8 list option"

text \<open>\<open>recv_mac\<close> and \<open>send_mac\<close>: whether the caller wants the MAC keys (its pointers are not null).\<close>

definition ssh_derive_transport_keys :: "sha256_ctx \<Rightarrow> u8 list \<Rightarrow> u8 list \<Rightarrow> bool \<Rightarrow> bool \<Rightarrow> transport_keys" where
  "ssh_derive_transport_keys stack exchange_hash k_mpint recv_mac send_mac =
     \<lparr>recv_iv = ssh_kdf_one stack k_mpint exchange_hash 65,
      send_iv = ssh_kdf_one stack k_mpint exchange_hash 66,
      recv_key = ssh_kdf_one stack k_mpint exchange_hash 67,
      send_key = ssh_kdf_one stack k_mpint exchange_hash 68,
      recv_mac_key = (if recv_mac then Some (ssh_kdf_one_32 stack k_mpint exchange_hash 69) else None),
      send_mac_key = (if send_mac then Some (ssh_kdf_one_32 stack k_mpint exchange_hash 70) else None)\<rparr>"

definition str_rsa_sha2_512 :: "u8 list" where "str_rsa_sha2_512 = [114, 115, 97, 45, 115, 104, 97, 50, 45, 53, 49, 50]"
definition str_rsa_sha2_256 :: "u8 list" where "str_rsa_sha2_256 = [114, 115, 97, 45, 115, 104, 97, 50, 45, 50, 53, 54]"
definition str_sha1 :: "u8 list" where "str_sha1 = [115, 104, 97, 49]"

text \<open>\<open>algorithm\<close> is the text before the NUL; at most 32 characters of it are used.\<close>

definition ssh_encode_signature :: "u8 list \<Rightarrow> u8 list \<Rightarrow> nat \<Rightarrow> u8 list option" where
  "ssh_encode_signature signature algorithm output_len =
     (let alg_len = min (length algorithm) 32
      in if output_len < 4 + alg_len + 4 + length signature then None
         else Some (be32_bytes (of_nat alg_len) @ take alg_len algorithm @ be32_bytes (of_nat (length signature)) @ signature))"

text \<open>The digest that is signed and the algorithm named in its header.\<close>

definition hash_to_sign :: "sha256_ctx \<Rightarrow> sha512_ctx \<Rightarrow> u8 list option \<Rightarrow> u8 list \<Rightarrow> u8 list \<times> u8 list" where
  "hash_to_sign stack stack5 signature_algorithm h =
     (case signature_algorithm of
        Some a \<Rightarrow>
          if has_prefix str_rsa_sha2_512 a then (sha512 stack5 h, str_sha512)
          else if has_prefix str_rsa_sha2_256 a then (h, str_sha256)
          else (sha256 stack h, str_sha1)
      | None \<Rightarrow> (sha256 stack h, str_sha1))"

text \<open>\<open>mem\<close>: whether the key is granted. The result is None where the signer overruns its block.\<close>

definition ssh_sign_exchange_hash ::
  "sha256_ctx \<Rightarrow> sha512_ctx \<Rightarrow> bool \<Rightarrow> rsa_mem \<Rightarrow> kex \<Rightarrow> u8 list option \<Rightarrow> nat \<Rightarrow> u8 list option option" where
  "ssh_sign_exchange_hash stack stack5 mem m x signature_algorithm output_len =
     (let h = ssh_compute_exchange_hash stack x
      in if \<not> mem then Some None
         else
           let (hash, der_algorithm) = hash_to_sign stack stack5 signature_algorithm h
           in case rsa_sign m hash (Some der_algorithm) get_default_rsa_key of
                None \<Rightarrow> None
              | Some (sig_len, raw_signature) \<Rightarrow>
                  if sig_len = 0 then Some None
                  else if sig_len \<noteq> RSA_KEY_SIZE then Some None
                  else if list_all (\<lambda>b. b = 0) raw_signature then Some None
                  else Some (ssh_encode_signature raw_signature
                    (case signature_algorithm of Some a \<Rightarrow> a | None \<Rightarrow> str_rsa_sha2_512) output_len))"

section \<open>The exchange hash\<close>

definition ssh_string :: "u8 list \<Rightarrow> u8 list" where
  "ssh_string s = be32_bytes (of_nat (length s)) @ s"

text \<open>The transcript of RFC 4419; the integers and the host key come with their lengths.\<close>

definition kex_transcript :: "kex \<Rightarrow> u8 list" where
  "kex_transcript x = ssh_string (v_c x) @ ssh_string (v_s x) @ ssh_string (i_c x) @ ssh_string (i_s x) @ k_s x @
     (if kex_min x = 0xFFFFFFFF then [] else be32_bytes (kex_min x)) @ be32_bytes (kex_n x) @
     (if kex_max x = 0xFFFFFFFF then [] else be32_bytes (kex_max x)) @
     kex_p x @ kex_g x @ kex_e x @ kex_f x @ kex_k x"

lemma sha256_update_append: "sha256_update b (sha256_update a c) = sha256_update (a @ b) c"
  by (simp add: sha256_update_def)

lemma sha256_update_Nil [simp]: "sha256_update [] c = c"
  by (simp add: sha256_update_def)

lemma put_updates:
  "sha256_put_u32be w c = sha256_update (be32_bytes w) c" "sha256_put_string s c = sha256_update (ssh_string s) c"
  "put_raw s c = sha256_update s c"
  by (auto simp: sha256_put_u32be_def sha256_put_string_def put_raw_def ssh_string_def sha256_update_append Let_def)

lemma sha256_one: "length (sha_buffer stack) = 64 \<Longrightarrow> fst (sha256_final (sha256_update m (sha256_init stack))) = sha256_spec m"
  using sha256_two [of stack m "[]"] by simp

lemma if_update: "(if b then sha256_update s c else c) = sha256_update (if b then s else []) c"
  by simp

lemma exchange_hash_spec:
  assumes "length (sha_buffer stack) = 64"
  shows "ssh_compute_exchange_hash stack x = sha256_spec (kex_transcript x)"
proof -
  have f: "(if m \<noteq> 0xFFFFFFFF then be32_bytes m else []) = (if m = 0xFFFFFFFF then [] else be32_bytes m)" for m by simp
  show ?thesis
    unfolding ssh_compute_exchange_hash_def Let_def put_updates if_update sha256_update_append sha256_one [OF assms]
      kex_transcript_def f append_assoc ..
qed


section \<open>The derived keys\<close>

lemma kdf_spec:
  assumes "length (sha_buffer stack) = 64" and "length h = 32"
  shows "ssh_kdf_one_32 stack k h c = sha256_spec (k @ h @ [c] @ h)" "ssh_kdf_one stack k h c = take 16 (sha256_spec (k @ h @ [c] @ h))"
  using assms(2) by (simp_all add: ssh_kdf_one_def ssh_kdf_one_32_def Let_def sha256_update_append sha256_one [OF assms(1)])

text \<open>The transport keys are those of RFC 4253, section 7.2, with the exchange hash as the session identifier:
  initial vectors from the letters A and B, cipher keys from C and D, cut to 16 bytes, MAC keys from E and F.\<close>

theorem transport_keys_are_rfc_4253:
  assumes "length (sha_buffer stack) = 64" and "length h = 32"
  shows "ssh_derive_transport_keys stack h k True True =
    (let key = (\<lambda>letter. sha256_spec (k @ h @ [letter] @ h))
     in \<lparr>recv_iv = take 16 (key 65), send_iv = take 16 (key 66), recv_key = take 16 (key 67), send_key = take 16 (key 68),
         recv_mac_key = Some (key 69), send_mac_key = Some (key 70)\<rparr>)"
  by (simp add: ssh_derive_transport_keys_def kdf_spec [OF assms])

theorem transport_keys_are_rfc_4253_witness:
  "recv_iv (ssh_derive_transport_keys clean_stack (replicate 32 0) [0, 0, 0, 1, 1] True True) =
   take 16 (sha256_spec ([0, 0, 0, 1, 1] @ replicate 32 0 @ [65] @ replicate 32 0))"
  using transport_keys_are_rfc_4253 [of clean_stack "replicate 32 0" "[0, 0, 0, 1, 1]"] by (simp add: clean_stack_def Let_def)

section \<open>The signature of the host key\<close>

lemma sha512_one:
  assumes "length (s5_buffer stack) = 128" "length m < 2 ^ 32"
  shows "sha512 stack m = sha512_spec m"
  using sha512.pieces [of stack "[m]"] assms by (simp add: sha512_def)

lemma sha256_one_call: "length (sha_buffer stack) = 64 \<Longrightarrow> sha256 stack m = sha256_spec m"
  by (simp add: sha256_def sha256_one)

text \<open>C37: The signature blob for \<open>rsa-sha2-512\<close>, if there is one, is the algorithm's name and an RSA signature, each as
  an SSH string; the signature verifies under the host key for the SHA-512 digest of the SHA-256 exchange hash
  of the transcript of RFC 4419.\<close>

theorem host_key_signature:
  assumes "length (sha_buffer stack) = 64" and "length (s5_buffer stack5) = 128" and "284 \<le> output_len"
  shows "ssh_sign_exchange_hash stack stack5 mem m x (Some str_rsa_sha2_512) output_len = Some None \<or>
    (\<exists>s. ssh_sign_exchange_hash stack stack5 mem m x (Some str_rsa_sha2_512) output_len = Some (Some (ssh_string str_rsa_sha2_512 @ ssh_string s)) \<and>
      rsa_verifies (emsa_pkcs1 sha512_der (sha512_spec (sha256_spec (kex_transcript x)))) s)"
proof -
  let ?h = "sha512_spec (sha256_spec (kex_transcript x))"
  have p: "has_prefix str_rsa_sha2_512 str_rsa_sha2_512" by (simp add: has_prefix_def)
  have d: "pad_der (Some str_sha512) = sha512_der" by (simp add: pad_der_def has_prefix_def)
  have h: "hash_to_sign stack stack5 (Some str_rsa_sha2_512) (ssh_compute_exchange_hash stack x) = (?h, str_sha512)"
    using exchange_hash_spec [OF assms(1), of x] sha512_one [OF assms(2)] p by (simp add: hash_to_sign_def sha256_spec_length)
  have e: "ssh_encode_signature s str_rsa_sha2_512 output_len = Some (ssh_string str_rsa_sha2_512 @ ssh_string s)" if "length s = 256" for s
    using that assms(3) by (simp add: ssh_encode_signature_def ssh_string_def str_rsa_sha2_512_def)
  let ?em = "emsa_pkcs1 sha512_der ?h"
  have c: "rsa_sign m ?h (Some str_sha512) get_default_rsa_key =
    (if m_padded m \<and> m_sig_temp m \<and> m_ctx m \<and> m_verify m \<and> rsa_verifies ?em (rsa_signature ?em) then Some (256, rsa_signature ?em)
     else if m_padded m \<and> m_sig_temp m \<and> m_ctx m then Some (0, rsa_signature ?em) else Some (0, replicate 256 0))"
    using rsa_sign_cases [of ?h m "Some str_sha512"] unfolding d sha512_spec_length by simp
  show ?thesis
    using e [of "rsa_signature ?em"] unfolding ssh_sign_exchange_hash_def Let_def h prod.case c
    by (auto simp: RSA_KEY_SIZE_def rsa_verifies_def)
qed

definition no_kex :: kex where
  "no_kex = \<lparr>v_c = [], v_s = [], i_c = [], i_s = [], k_s = [], kex_min = 0, kex_n = 0, kex_max = 0, kex_p = [], kex_g = [], kex_e = [],
     kex_f = [], kex_k = []\<rparr>"

theorem host_key_signature_witness:
  "ssh_sign_exchange_hash clean_stack \<lparr>s5_state = [], s5_count0 = 0, s5_count1 = 0, s5_buffer = replicate 128 0\<rparr> True
     (rsa_mem.make True True True True) no_kex (Some str_rsa_sha2_512) 300 = Some None \<or>
   (\<exists>s. rsa_verifies (emsa_pkcs1 sha512_der (sha512_spec (sha256_spec (kex_transcript no_kex)))) s)"
  using host_key_signature [of clean_stack "\<lparr>s5_state = [], s5_count0 = 0, s5_count1 = 0, s5_buffer = replicate 128 0\<rparr>" 300 True
      "rsa_mem.make True True True True" no_kex]
  by (auto simp: clean_stack_def)

text \<open>For \<open>rsa-sha2-256\<close> the exchange hash itself takes the place of its digest, where RFC 8332 signs the SHA-256
  digest of it.\<close>

lemma rsa_sha2_256_signs_hash_itself: "hash_to_sign stack stack5 (Some str_rsa_sha2_256) h = (h, str_sha256)"
  by (simp add: hash_to_sign_def has_prefix_def str_rsa_sha2_512_def str_rsa_sha2_256_def)

end
