(* ===== verification/Aes.thy ===== *)
theory Aes
  imports Montgomery
begin

text \<open>
  AES-128 of \<open>src/crypto.c\<close>: the block cipher, the counter mode of the SSH transport and the key stream with
  its cached key schedule; FIPS 197 as the specification.
\<close>

section \<open>The code\<close>

definition aes_sbox :: "u8 list" where
  "aes_sbox =
    [0x63, 0x7c, 0x77, 0x7b, 0xf2, 0x6b, 0x6f, 0xc5, 0x30, 0x01, 0x67, 0x2b, 0xfe, 0xd7, 0xab, 0x76, 0xca, 0x82, 0xc9, 0x7d,
     0xfa, 0x59, 0x47, 0xf0, 0xad, 0xd4, 0xa2, 0xaf, 0x9c, 0xa4, 0x72, 0xc0, 0xb7, 0xfd, 0x93, 0x26, 0x36, 0x3f, 0xf7, 0xcc,
     0x34, 0xa5, 0xe5, 0xf1, 0x71, 0xd8, 0x31, 0x15, 0x04, 0xc7, 0x23, 0xc3, 0x18, 0x96, 0x05, 0x9a, 0x07, 0x12, 0x80, 0xe2,
     0xeb, 0x27, 0xb2, 0x75, 0x09, 0x83, 0x2c, 0x1a, 0x1b, 0x6e, 0x5a, 0xa0, 0x52, 0x3b, 0xd6, 0xb3, 0x29, 0xe3, 0x2f, 0x84,
     0x53, 0xd1, 0x00, 0xed, 0x20, 0xfc, 0xb1, 0x5b, 0x6a, 0xcb, 0xbe, 0x39, 0x4a, 0x4c, 0x58, 0xcf, 0xd0, 0xef, 0xaa, 0xfb,
     0x43, 0x4d, 0x33, 0x85, 0x45, 0xf9, 0x02, 0x7f, 0x50, 0x3c, 0x9f, 0xa8, 0x51, 0xa3, 0x40, 0x8f, 0x92, 0x9d, 0x38, 0xf5,
     0xbc, 0xb6, 0xda, 0x21, 0x10, 0xff, 0xf3, 0xd2, 0xcd, 0x0c, 0x13, 0xec, 0x5f, 0x97, 0x44, 0x17, 0xc4, 0xa7, 0x7e, 0x3d,
     0x64, 0x5d, 0x19, 0x73, 0x60, 0x81, 0x4f, 0xdc, 0x22, 0x2a, 0x90, 0x88, 0x46, 0xee, 0xb8, 0x14, 0xde, 0x5e, 0x0b, 0xdb,
     0xe0, 0x32, 0x3a, 0x0a, 0x49, 0x06, 0x24, 0x5c, 0xc2, 0xd3, 0xac, 0x62, 0x91, 0x95, 0xe4, 0x79, 0xe7, 0xc8, 0x37, 0x6d,
     0x8d, 0xd5, 0x4e, 0xa9, 0x6c, 0x56, 0xf4, 0xea, 0x65, 0x7a, 0xae, 0x08, 0xba, 0x78, 0x25, 0x2e, 0x1c, 0xa6, 0xb4, 0xc6,
     0xe8, 0xdd, 0x74, 0x1f, 0x4b, 0xbd, 0x8b, 0x8a, 0x70, 0x3e, 0xb5, 0x66, 0x48, 0x03, 0xf6, 0x0e, 0x61, 0x35, 0x57, 0xb9,
     0x86, 0xc1, 0x1d, 0x9e, 0xe1, 0xf8, 0x98, 0x11, 0x69, 0xd9, 0x8e, 0x94, 0x9b, 0x1e, 0x87, 0xe9, 0xce, 0x55, 0x28, 0xdf,
     0x8c, 0xa1, 0x89, 0x0d, 0xbf, 0xe6, 0x42, 0x68, 0x41, 0x99, 0x2d, 0x0f, 0xb0, 0x54, 0xbb, 0x16]"

definition aes_rcon :: "u8 list" where
  "aes_rcon = [0x00, 0x01, 0x02, 0x04, 0x08, 0x10, 0x20, 0x40, 0x80, 0x1b, 0x36]"

definition sbox :: "u8 \<Rightarrow> u8" where
  "sbox x = aes_sbox ! unat x"

fun gf2_loop :: "nat \<Rightarrow> u8 \<Rightarrow> u8 \<Rightarrow> u8 \<Rightarrow> u8" where
  "gf2_loop 0 p a b = p"
| "gf2_loop (Suc i) p a b =
     gf2_loop i (if b AND 1 \<noteq> 0 then p XOR a else p)
       (if a AND 0x80 \<noteq> 0 then push_bit 1 a XOR 0x1b else push_bit 1 a) (drop_bit 1 b)"

definition aes_gf2_mul :: "u8 \<Rightarrow> u8 \<Rightarrow> u8" where
  "aes_gf2_mul a b = gf2_loop 8 0 a b"

text \<open>The 16 bytes of the next round key, from those of the previous one.\<close>

definition ks_next :: "nat \<Rightarrow> u8 list \<Rightarrow> u8 list" where
  "ks_next i base =
     fold (\<lambda>j next. next @ [base ! (4 + j) XOR next ! j]) [0..<12]
       [sbox (base ! 13) XOR base ! 0 XOR aes_rcon ! i, sbox (base ! 14) XOR base ! 1,
        sbox (base ! 15) XOR base ! 2, sbox (base ! 12) XOR base ! 3]"

definition aes128_keyschedule :: "u8 list \<Rightarrow> u8 list" where
  "aes128_keyschedule key = fold (\<lambda>i round_keys. round_keys @ ks_next i (drop ((i - 1) * 16) round_keys)) [1..<11] (take 16 key)"

definition mix_column :: "nat \<Rightarrow> u8 list \<Rightarrow> u8 list" where
  "mix_column c s =
     (let b = 4 * c; t0 = s ! b; t1 = s ! (b + 1); t2 = s ! (b + 2); t3 = s ! (b + 3);
          s = s[b := aes_gf2_mul t0 2 XOR aes_gf2_mul t1 3 XOR t2 XOR t3];
          s = s[b + 1 := t0 XOR aes_gf2_mul t1 2 XOR aes_gf2_mul t2 3 XOR t3];
          s = s[b + 2 := t0 XOR t1 XOR aes_gf2_mul t2 2 XOR aes_gf2_mul t3 3];
          s = s[b + 3 := aes_gf2_mul t0 3 XOR t1 XOR t2 XOR aes_gf2_mul t3 2]
      in s)"

definition aes_mixcolumns :: "u8 list \<Rightarrow> u8 list" where
  "aes_mixcolumns s = fold mix_column [0..<4] s"

text \<open>The rows are shifted in place.\<close>

definition shift_in_place :: "u8 list \<Rightarrow> u8 list" where
  "shift_in_place s =
     (let t = s ! 1; s = s[1 := s ! 5]; s = s[5 := s ! 9]; s = s[9 := s ! 13]; s = s[13 := t];
          t = s ! 2; s = s[2 := s ! 10]; s = s[10 := t];
          t = s ! 6; s = s[6 := s ! 14]; s = s[14 := t];
          t = s ! 3; s = s[3 := s ! 15]; s = s[15 := s ! 11]; s = s[11 := s ! 7]; s = s[7 := t]
      in s)"

definition add_key :: "u8 list \<Rightarrow> nat \<Rightarrow> u8 list \<Rightarrow> u8 list" where
  "add_key round_keys r s = map (\<lambda>i. s ! i XOR round_keys ! (r * 16 + i)) [0..<16]"

definition aes_round :: "u8 list \<Rightarrow> nat \<Rightarrow> u8 list \<Rightarrow> u8 list" where
  "aes_round round_keys r s = add_key round_keys r (aes_mixcolumns (shift_in_place (map sbox s)))"

definition aes128_encrypt_block :: "u8 list \<Rightarrow> u8 list \<Rightarrow> u8 list" where
  "aes128_encrypt_block round_keys inp =
     (let s = add_key round_keys 0 inp;
          s = fold (aes_round round_keys) [1..<10] s
      in add_key round_keys 10 (shift_in_place (map sbox s)))"

record ks_cache =
  ks_key :: "u8 list"
  ks_rk :: "u8 list"
  ks_valid :: bool

definition aes128_ctr_keystream_block :: "u8 list \<Rightarrow> u8 list \<Rightarrow> ks_cache \<Rightarrow> u8 list \<times> ks_cache" where
  "aes128_ctr_keystream_block key ctr ks =
     (let stale = \<not> ks_valid ks;
          stale = (if \<not> stale then list_ex (\<lambda>i. ks_key ks ! i \<noteq> key ! i) [0..<16] else stale);
          ks = (if stale then ks\<lparr>ks_rk := aes128_keyschedule key, ks_key := take 16 key, ks_valid := True\<rparr> else ks)
      in (aes128_encrypt_block (ks_rk ks) ctr, ks))"

text \<open>The counter is incremented from its last byte on.\<close>

fun inc_bytes :: "u8 list \<Rightarrow> u8 list" where
  "inc_bytes (x # xs) = (x + 1) # (if x + 1 \<noteq> 0 then xs else inc_bytes xs)"
| "inc_bytes [] = []"

definition ctr_inc :: "u8 list \<Rightarrow> u8 list" where
  "ctr_inc ctr = rev (inc_bytes (rev ctr))"

function ctr_loop :: "u8 list \<Rightarrow> u8 list \<Rightarrow> u8 list \<Rightarrow> u8 list \<times> u8 list" where
  "ctr_loop round_keys ctr data =
     (if data = [] then ([], ctr)
      else
        let block = aes128_encrypt_block round_keys ctr;
            n = (if length data < 16 then length data else 16);
            out = map2 (XOR) (take n data) block;
            (rest, ctr) = ctr_loop round_keys (ctr_inc ctr) (drop n data)
        in (out @ rest, ctr))"
  by pat_completeness auto
termination by (relation "measure (\<lambda>(rk, ctr, data). length data)") auto

declare ctr_loop.simps [simp del]

definition aes128_ctr_crypt :: "u8 list \<Rightarrow> u8 list \<Rightarrow> u8 list \<Rightarrow> u8 list \<times> u8 list" where
  "aes128_ctr_crypt key ctr data = ctr_loop (aes128_keyschedule key) ctr data"

section \<open>FIPS 197\<close>

definition xtime :: "u8 \<Rightarrow> u8" where
  "xtime a = push_bit 1 a XOR (if bit a 7 then 0x1b else 0)"

text \<open>Multiplication of polynomials over GF(2), modulo \<open>x^8 + x^4 + x^3 + x + 1\<close>.\<close>

definition gf_times :: "u8 \<Rightarrow> u8 \<Rightarrow> u8" where
  "gf_times a b = fold (XOR) (map (\<lambda>i. if bit b i then (xtime ^^ i) a else 0) [0..<8]) 0"

definition fips_shift_rows :: "u8 list \<Rightarrow> u8 list" where
  "fips_shift_rows s = map (\<lambda>k. let r = k mod 4; c = k div 4 in s ! (r + 4 * ((c + r) mod 4))) [0..<16]"

definition fips_mix_columns :: "u8 list \<Rightarrow> u8 list" where
  "fips_mix_columns s = map (\<lambda>k. let r = k mod 4; c = k div 4; a = (\<lambda>i. s ! ((r + i) mod 4 + 4 * c))
     in gf_times (a 0) 2 XOR gf_times (a 1) 3 XOR a 2 XOR a 3) [0..<16]"

text \<open>The key expansion, word by word.\<close>

fun fips_word :: "u8 list \<Rightarrow> nat \<Rightarrow> u8 list" where
  "fips_word key i =
     (if i < 4 then take 4 (drop (4 * i) key)
      else
        let temp = fips_word key (i - 1);
            temp = (if i mod 4 = 0 then map2 (XOR) (map sbox (rotate1 temp)) [(xtime ^^ (i div 4 - 1)) 1, 0, 0, 0] else temp)
        in map2 (XOR) (fips_word key (i - 4)) temp)"

declare fips_word.simps [simp del]

definition fips_round_key :: "u8 list \<Rightarrow> nat \<Rightarrow> u8 list" where
  "fips_round_key key r = concat (map (fips_word key) [4 * r..<4 * r + 4])"

definition fips_cipher :: "u8 list \<Rightarrow> u8 list \<Rightarrow> u8 list" where
  "fips_cipher key inp =
     (let s = map2 (XOR) inp (fips_round_key key 0);
          s = fold (\<lambda>r s. map2 (XOR) (fips_mix_columns (fips_shift_rows (map sbox s))) (fips_round_key key r)) [1..<10] s
      in map2 (XOR) (fips_shift_rows (map sbox s)) (fips_round_key key 10))"

section \<open>The block cipher\<close>

lemma length_16_cases:
  assumes "length s = 16"
  obtains s0 s1 s2 s3 s4 s5 s6 s7 s8 s9 s10 s11 s12 s13 s14 s15
  where "s = [s0, s1, s2, s3, s4, s5, s6, s7, s8, s9, s10, s11, s12, s13, s14, s15]"
  using assms by (auto simp: numeral_eq_Suc length_Suc_conv)

lemma shift_in_place_fips: "length s = 16 \<Longrightarrow> shift_in_place s = fips_shift_rows s"
  by (erule length_16_cases) (simp add: shift_in_place_def fips_shift_rows_def upt_rec)


lemma gf2_loop_sum: "gf2_loop n p a b = fold (XOR) (map (\<lambda>i. if bit b i then (xtime ^^ i) a else 0) [0..<n]) p"
proof (induction n arbitrary: p a b)
  case (Suc n)
  have u: "[0..<Suc n] = 0 # map Suc [0..<n]" by (simp add: map_Suc_upt upt_conv_Cons)
  have x: "(if a AND 0x80 \<noteq> 0 then push_bit 1 a XOR 0x1b else push_bit 1 a) = xtime a"
    using bit_iff_and_push_bit_not_eq_0 [of a 7] by (simp add: xtime_def)
  have o: "b AND 1 \<noteq> 0 \<longleftrightarrow> bit b 0" by (simp add: and_one_eq bit_0 mod2_eq_if)
  have d: "bit (drop_bit 1 b) i \<longleftrightarrow> bit b (Suc i)" for i by (simp add: bit_drop_bit_eq)
  have m: "map (\<lambda>i. if bit b i then (xtime ^^ i) a else 0) (map Suc [0..<n]) =
      map (\<lambda>i. if bit (drop_bit 1 b) i then (xtime ^^ i) (xtime a) else 0) [0..<n]"
    unfolding d by (simp add: funpow_swap1)
  show ?case
    unfolding gf2_loop.simps x o Suc u by (simp only: list.map(2) m fold_simps funpow_0) (simp add: xor.commute)
qed simp

lemma aes_gf2_mul_fips: "aes_gf2_mul a b = gf_times a b"
  by (simp only: aes_gf2_mul_def gf_times_def gf2_loop_sum)

lemmas xor_ac = xor.assoc xor.commute xor.left_commute

lemma mix_columns_fips: "length s = 16 \<Longrightarrow> aes_mixcolumns s = fips_mix_columns s"
  by (erule length_16_cases)
    (simp add: aes_mixcolumns_def mix_column_def fips_mix_columns_def upt_rec Let_def aes_gf2_mul_fips xor_ac)

lemma fips_lengths [simp]: "length (fips_shift_rows s) = 16" "length (fips_mix_columns s) = 16"
  by (simp_all add: fips_shift_rows_def fips_mix_columns_def)

lemma fips_word_length: "length key = 16 \<Longrightarrow> length (fips_word key i) = 4"
proof (induction key i rule: fips_word.induct)
  case (1 key i)
  then show ?case by (subst fips_word.simps) (auto simp: Let_def)
qed

lemma fips_round_key_length: "length key = 16 \<Longrightarrow> length (fips_round_key key r) = 16"
  by (simp add: fips_round_key_def length_concat comp_def fips_word_length sum_list_triv)

lemma fips_round_key_0: "length key = 16 \<Longrightarrow> fips_round_key key 0 = key"
  by (erule length_16_cases) (simp add: fips_round_key_def upt_rec fips_word.simps numeral_eq_Suc)

lemma length_4_cases:
  assumes "length s = 4"
  obtains a b c d where "s = [a, b, c, d]"
  using assms by (auto simp: numeral_eq_Suc length_Suc_conv)

lemma aes_rcon_fips: "i \<in> set [1..<11] \<Longrightarrow> aes_rcon ! i = (xtime ^^ (i - 1)) 1"
proof -
  have "\<forall>i \<in> set [1..<11]. aes_rcon ! i = (xtime ^^ (i - 1)) 1" by code_simp
  then show "i \<in> set [1..<11] \<Longrightarrow> aes_rcon ! i = (xtime ^^ (i - 1)) 1" by blast
qed

lemma ks_next_fips:
  assumes k: "length key = 16" and i: "1 \<le> i" "i < 11"
  shows "ks_next i (fips_round_key key (i - 1)) = fips_round_key key i"
proof -
  obtain j where j: "i = Suc j" using i by (cases i) auto
  let ?w = "fips_word key"
  obtain a0 a1 a2 a3 where a: "?w (4 * j) = [a0, a1, a2, a3]" using length_4_cases [OF fips_word_length [OF k]] by metis
  obtain b0 b1 b2 b3 where b: "?w (4 * j + 1) = [b0, b1, b2, b3]" using length_4_cases [OF fips_word_length [OF k]] by metis
  obtain c0 c1 c2 c3 where c: "?w (4 * j + 2) = [c0, c1, c2, c3]" using length_4_cases [OF fips_word_length [OF k]] by metis
  obtain d0 d1 d2 d3 where d: "?w (4 * j + 3) = [d0, d1, d2, d3]" using length_4_cases [OF fips_word_length [OF k]] by metis
  have r: "aes_rcon ! i = (xtime ^^ j) 1" using aes_rcon_fips [of i] i j by simp
  have w4: "?w (4 * j + 4) = map2 (XOR) [a0, a1, a2, a3] (map2 (XOR) (map sbox (rotate1 [d0, d1, d2, d3])) [(xtime ^^ j) 1, 0, 0, 0])"
    using fips_word.simps [of key "4 * j + 4"] a d by (simp add: algebra_simps)
  have m: "(4 * j + 5) mod 4 \<noteq> 0" "(4 * j + 6) mod 4 \<noteq> 0" "(4 * j + 7) mod 4 \<noteq> 0" by presburger+
  have w5: "?w (4 * j + 5) = map2 (XOR) [b0, b1, b2, b3] (?w (4 * j + 4))"
    using fips_word.simps [of key "4 * j + 5"] b m by (simp add: algebra_simps)
  have w6: "?w (4 * j + 6) = map2 (XOR) [c0, c1, c2, c3] (?w (4 * j + 5))"
    using fips_word.simps [of key "4 * j + 6"] c m by (simp add: algebra_simps)
  have w7: "?w (4 * j + 7) = map2 (XOR) [d0, d1, d2, d3] (?w (4 * j + 6))"
    using fips_word.simps [of key "4 * j + 7"] d m by (simp add: algebra_simps)
  have l: "[4 * j..<4 * j + 4] = [4 * j, 4 * j + 1, 4 * j + 2, 4 * j + 3]"
    "[4 * i..<4 * i + 4] = [4 * j + 4, 4 * j + 5, 4 * j + 6, 4 * j + 7]"
    by (simp_all add: j upt_rec)
  have p: "fips_round_key key (i - 1) = [a0, a1, a2, a3, b0, b1, b2, b3, c0, c1, c2, c3, d0, d1, d2, d3]"
    by (simp only: fips_round_key_def j diff_Suc_1 l(1) list.map concat.simps a b c d append.simps)
  show ?thesis
    unfolding p unfolding ks_next_def r fips_round_key_def l by (simp add: w4 w5 w6 w7 upt_rec xor_ac)
qed


lemma concat_slice:
  "(\<And>x. x \<in> set xs \<Longrightarrow> length (f x) = n) \<Longrightarrow> r < length xs \<Longrightarrow> take n (drop (n * r) (concat (map f xs))) = f (xs ! r)"
proof (induction xs arbitrary: r)
  case (Cons x xs)
  then show ?case by (cases r) (simp_all add: add.commute)
qed simp

lemma keyschedule_fips:
  assumes "length key = 16"
  shows "aes128_keyschedule key = concat (map (fips_round_key key) [0..<11])"
proof -
  have "k \<le> 10 \<Longrightarrow> fold (\<lambda>i rk. rk @ ks_next i (drop ((i - 1) * 16) rk)) [1..<Suc k] (take 16 key) =
      concat (map (fips_round_key key) [0..<Suc k])" for k
  proof (induction k)
    case 0
    then show ?case using assms by (simp add: fips_round_key_0)
  next
    case (Suc k)
    let ?rk = "concat (map (fips_round_key key) [0..<Suc k])"
    have "?rk = concat (map (fips_round_key key) [0..<k]) @ fips_round_key key k" by simp
    moreover have "length (concat (map (fips_round_key key) [0..<k])) = k * 16"
      by (simp add: length_concat comp_def fips_round_key_length [OF assms] sum_list_triv)
    ultimately have "drop (k * 16) ?rk = fips_round_key key k" by simp
    then have "ks_next (Suc k) (drop ((Suc k - 1) * 16) ?rk) = fips_round_key key (Suc k)"
      using ks_next_fips [OF assms, of "Suc k"] Suc.prems by simp
    then show ?case using Suc by simp
  qed
  from this [of 10] show ?thesis by (simp add: aes128_keyschedule_def del: upt_Suc)
qed

lemma add_key_fips:
  assumes "length key = 16" "length s = 16" "r < 11"
  shows "add_key (aes128_keyschedule key) r s = map2 (XOR) s (fips_round_key key r)"
proof -
  let ?rk = "aes128_keyschedule key"
  have l: "length ?rk = 176"
    by (simp add: keyschedule_fips [OF assms(1)] length_concat comp_def fips_round_key_length [OF assms(1)] sum_list_triv del: upt_Suc)
  have k: "fips_round_key key r = take 16 (drop (16 * r) ?rk)"
    using concat_slice [of "[0..<11]" "fips_round_key key" 16 r] assms unfolding keyschedule_fips [OF assms(1)]
    by (simp add: fips_round_key_length del: upt_Suc)
  show ?thesis using assms l unfolding k by (intro nth_equalityI) (auto simp: add_key_def mult.commute)
qed

lemma aes128_is_fips_block:
  assumes "length key = 16" and "length inp = 16"
  shows "aes128_encrypt_block (aes128_keyschedule key) inp = fips_cipher key inp"
proof -
  let ?rk = "aes128_keyschedule key"
  let ?f = "\<lambda>r s. map2 (XOR) (fips_mix_columns (fips_shift_rows (map sbox s))) (fips_round_key key r)"
  have kl: "length (fips_round_key key r) = 16" for r by (rule fips_round_key_length [OF assms(1)])
  have round: "aes_round ?rk r s = ?f r s" if "length s = 16" "r < 11" for r s
    using that by (simp add: aes_round_def shift_in_place_fips mix_columns_fips add_key_fips [OF assms(1)])
  have "fold (aes_round ?rk) rs s = fold ?f rs s \<and> length (fold ?f rs s) = 16" if "length s = 16" "\<forall>r \<in> set rs. r < 11" for rs s
    using that by (induction rs arbitrary: s) (simp_all add: round kl)
  from this [of "add_key ?rk 0 inp" "[1..<10]"]
  have "fold (aes_round ?rk) [1..<10] (add_key ?rk 0 inp) = fold ?f [1..<10] (map2 (XOR) inp (fips_round_key key 0)) \<and>
      length (fold ?f [1..<10] (map2 (XOR) inp (fips_round_key key 0))) = 16"
    using assms by (simp add: add_key_fips kl del: upt_Suc)
  then show ?thesis
    using assms by (simp add: aes128_encrypt_block_def fips_cipher_def Let_def shift_in_place_fips add_key_fips del: upt_Suc)
qed




section \<open>The key stream\<close>

lemma fips_cipher_length: "length key = 16 \<Longrightarrow> length inp = 16 \<Longrightarrow> length (fips_cipher key inp) = 16"
  by (simp add: aes128_is_fips_block [symmetric] aes128_encrypt_block_def add_key_def Let_def)

text \<open>What the cache holds once it is valid.\<close>

definition cache_ok :: "ks_cache \<Rightarrow> bool" where
  "cache_ok ks \<longleftrightarrow> (ks_valid ks \<longrightarrow> length (ks_key ks) = 16 \<and> ks_rk ks = aes128_keyschedule (ks_key ks))"

lemma keystream_block_ok:
  assumes "cache_ok ks" "length key = 16" "length ctr = 16"
  shows "\<exists>ks'. aes128_ctr_keystream_block key ctr ks = (fips_cipher key ctr, ks') \<and> cache_ok ks'"
proof -
  have same: "ks_key ks = key" if "ks_valid ks" "\<not> list_ex (\<lambda>i. ks_key ks ! i \<noteq> key ! i) [0..<16]"
    using that assms(1,2) by (intro nth_equalityI) (auto simp: list_ex_iff cache_ok_def)
  show ?thesis
  proof (cases "\<not> ks_valid ks \<or> list_ex (\<lambda>i. ks_key ks ! i \<noteq> key ! i) [0..<16]")
    case True
    then have "aes128_ctr_keystream_block key ctr ks =
      (aes128_encrypt_block (aes128_keyschedule key) ctr, ks\<lparr>ks_rk := aes128_keyschedule key, ks_key := take 16 key, ks_valid := True\<rparr>)"
      by (auto simp: aes128_ctr_keystream_block_def Let_def simp del: upt_Suc)
    then show ?thesis using assms(2,3) by (auto simp: aes128_is_fips_block cache_ok_def)
  next
    case False
    then have "aes128_ctr_keystream_block key ctr ks = (aes128_encrypt_block (ks_rk ks) ctr, ks)"
      by (simp add: aes128_ctr_keystream_block_def Let_def del: upt_Suc)
    moreover have "ks_rk ks = aes128_keyschedule key" using False same assms(1) by (auto simp: cache_ok_def)
    ultimately show ?thesis using assms by (auto simp: aes128_is_fips_block)
  qed
qed

fun keystream_calls :: "(u8 list \<times> u8 list) list \<Rightarrow> ks_cache \<Rightarrow> u8 list list" where
  "keystream_calls [] ks = []"
| "keystream_calls ((key, ctr) # calls) ks =
     (let (out, ks) = aes128_ctr_keystream_block key ctr ks in out # keystream_calls calls ks)"

lemma keystream_calls_ok:
  "cache_ok ks \<Longrightarrow> \<forall>(key, ctr) \<in> set calls. length key = 16 \<and> length ctr = 16 \<Longrightarrow>
     keystream_calls calls ks = map (\<lambda>(key, ctr). fips_cipher key ctr) calls"
proof (induction calls ks rule: keystream_calls.induct)
  case (2 key ctr calls ks)
  then obtain ks' where "aes128_ctr_keystream_block key ctr ks = (fips_cipher key ctr, ks')" "cache_ok ks'"
    using keystream_block_ok [of ks key ctr] by auto
  then show ?case using 2 by simp
qed simp

text \<open>The cached key schedule is never stale: whatever the sequence of keys and counters, each block of key stream is
  the AES encryption of its counter under its key.\<close>

theorem keystream_cache_transparent:
  assumes "\<not> ks_valid ks" and "\<forall>(key, ctr) \<in> set calls. length key = 16 \<and> length ctr = 16"
  shows "keystream_calls calls ks = map (\<lambda>(key, ctr). fips_cipher key ctr) calls"
  by (rule keystream_calls_ok) (use assms in \<open>auto simp: cache_ok_def\<close>)

theorem keystream_cache_transparent_witness:
  "keystream_calls [(replicate 16 1, replicate 16 0), (replicate 16 2, replicate 16 0)] \<lparr>ks_key = [], ks_rk = [], ks_valid = False\<rparr> =
   [fips_cipher (replicate 16 1) (replicate 16 0), fips_cipher (replicate 16 2) (replicate 16 0)]"
  using keystream_cache_transparent [of "\<lparr>ks_key = [], ks_rk = [], ks_valid = False\<rparr>"
      "[(replicate 16 1, replicate 16 0), (replicate 16 2, replicate 16 0)]"] by simp

section \<open>Counter mode\<close>

lemma inc_bytes_length [simp]: "length (inc_bytes xs) = length xs"
  by (induction xs) auto

lemma ctr_inc_length [simp]: "length (ctr_inc c) = length c"
  by (simp add: ctr_inc_def)

lemma ctr_inc_val: "be_val (ctr_inc c) = (be_val c + 1) mod 256 ^ length c"
proof -
  have "be_val (rev (inc_bytes xs)) = (be_val (rev xs) + 1) mod 256 ^ length xs" for xs
  proof (induction xs)
    case (Cons x xs)
    have lt: "be_val (rev xs) < 256 ^ length xs" using be_val_less [of "rev xs"] by simp
    show ?case
    proof (cases "x + 1 = 0")
      case True
      then have "x = - 1" by (simp add: eq_neg_iff_add_eq_0)
      then have x: "unat x = 255" by (simp add: unsigned_minus_1_eq_mask mask_eq_exp_minus_1)
      have "be_val (rev (inc_bytes (x # xs))) = 256 * ((be_val (rev xs) + 1) mod 256 ^ length xs)"
        using True Cons by (simp add: be_val_append)
      also have "\<dots> = (256 * (be_val (rev xs) + 1)) mod 256 ^ length (x # xs)" by (simp add: mult_mod_right)
      also have "256 * (be_val (rev xs) + 1) = be_val (rev (x # xs)) + 1" using x by (simp add: be_val_append)
      finally show ?thesis .
    next
      case False
      then have "unat (x + 1) = unat x + 1" using unatSuc [of x] by (simp add: add.commute)
      then have v: "be_val (rev (inc_bytes (x # xs))) = be_val (rev (x # xs)) + 1" using False by (simp add: be_val_append)
      have "be_val (rev (inc_bytes (x # xs))) < 256 ^ length (x # xs)"
        using be_val_less [of "rev (inc_bytes (x # xs))"] by (simp only: length_rev inc_bytes_length)
      then show ?thesis unfolding v by simp
    qed
  qed simp
  from this [of "rev c"] show ?thesis by (simp add: ctr_inc_def)
qed


lemma ctr_iter: "length ((ctr_inc ^^ k) c) = length c" "be_val ((ctr_inc ^^ k) c) = (be_val c + k) mod 256 ^ length c"
proof -
  show l: "length ((ctr_inc ^^ k) c) = length c" for k by (induction k) simp_all
  show "be_val ((ctr_inc ^^ k) c) = (be_val c + k) mod 256 ^ length c"
  proof (induction k)
    case 0
    then show ?case using be_val_less [of c] by simp
  next
    case (Suc k)
    then show ?case using ctr_inc_val [of "(ctr_inc ^^ k) c"] l [of k] by (simp add: mod_simps)
  qed
qed

lemma ctr_loop_spec:
  "length ctr = 16 \<Longrightarrow> length key = 16 \<Longrightarrow> ctr_loop (aes128_keyschedule key) ctr data = (out, ctr') \<Longrightarrow>
     length out = length data \<and> ctr' = (ctr_inc ^^ ((length data + 15) div 16)) ctr \<and>
     (\<forall>i < length data. out ! i = data ! i XOR fips_cipher key ((ctr_inc ^^ (i div 16)) ctr) ! (i mod 16))"
proof (induction "length data" arbitrary: ctr data out rule: less_induct)
  case less
  show ?case
  proof (cases "data = []")
    case True
    then show ?thesis using less.prems(3) by (simp add: ctr_loop.simps)
  next
    case False
    define n where "n = (if length data < 16 then length data else 16)"
    have n: "n \<le> length data" "n \<le> 16" "0 < n" using False by (auto simp: n_def)
    define block where "block = fips_cipher key ctr"
    have bl: "length block = 16" using less.prems by (simp add: block_def fips_cipher_length)
    obtain rest where r: "ctr_loop (aes128_keyschedule key) (ctr_inc ctr) (drop n data) = (rest, ctr')"
        and o: "out = map2 (XOR) (take n data) block @ rest"
      using less.prems(3) False unfolding ctr_loop.simps [of "aes128_keyschedule key" ctr data] aes128_is_fips_block [OF less.prems(2,1)]
      by (auto simp: Let_def n_def [symmetric] block_def [symmetric] split: prod.splits)
    have i: "length rest = length (drop n data)" "ctr' = (ctr_inc ^^ ((length (drop n data) + 15) div 16)) (ctr_inc ctr)"
      "\<forall>i < length (drop n data). rest ! i = drop n data ! i XOR fips_cipher key ((ctr_inc ^^ (i div 16)) (ctr_inc ctr)) ! (i mod 16)"
      using less.hyps [OF _ _ less.prems(2) r] less.prems(1) n by auto
    have c: "(length data + 15) div 16 = Suc ((length (drop n data) + 15) div 16)"
      using n by (cases "length data < 16") (auto simp: n_def div_if)
    have l: "length out = length data" using o i(1) n bl by simp
    have "out ! j = data ! j XOR fips_cipher key ((ctr_inc ^^ (j div 16)) ctr) ! (j mod 16)" if "j < length data" for j
    proof (cases "j < n")
      case True
      then show ?thesis using o n bl that by (simp add: nth_append block_def)
    next
      case False
      then have n16: "n = 16" using that by (auto simp: n_def split: if_splits)
      then have "j div 16 = Suc ((j - n) div 16)" "j mod 16 = (j - n) mod 16" using False by (simp_all add: le_div_geq le_mod_geq)
      then show ?thesis using i(3) [rule_format, of "j - n"] o n bl that False by (simp add: nth_append funpow_swap1)
    qed
    then show ?thesis using l i(2) c by (simp add: funpow_swap1)
  qed
qed

text \<open>Counter mode: each byte is combined with the byte of the AES block of the counter it falls under, the
  counter advances by the number of blocks begun, modulo \<open>2^128\<close>, and the same call takes the result back.\<close>

theorem ctr_mode_round_trip:
  assumes "length key = 16" and "length ctr = 16" and "aes128_ctr_crypt key ctr data = (out, ctr')"
  shows "(\<forall>i < length data. out ! i = data ! i XOR fips_cipher key ((ctr_inc ^^ (i div 16)) ctr) ! (i mod 16)) \<and>
    be_val ctr' = (be_val ctr + (length data + 15) div 16) mod 256 ^ 16 \<and> aes128_ctr_crypt key ctr out = (data, ctr')"
proof -
  have s: "length out = length data" "ctr' = (ctr_inc ^^ ((length data + 15) div 16)) ctr"
    "\<forall>i < length data. out ! i = data ! i XOR fips_cipher key ((ctr_inc ^^ (i div 16)) ctr) ! (i mod 16)"
    using ctr_loop_spec [OF assms(2,1)] assms(3) unfolding aes128_ctr_crypt_def by blast+
  obtain data2 c where b: "aes128_ctr_crypt key ctr out = (data2, c)" by fastforce
  have t: "length data2 = length out" "c = (ctr_inc ^^ ((length out + 15) div 16)) ctr"
    "\<forall>i < length out. data2 ! i = out ! i XOR fips_cipher key ((ctr_inc ^^ (i div 16)) ctr) ! (i mod 16)"
    using ctr_loop_spec [OF assms(2,1)] b unfolding aes128_ctr_crypt_def by blast+
  have "data2 = data" using s t by (intro nth_equalityI) (simp_all add: xor.assoc)
  then show ?thesis using s t b ctr_iter(2) [of "(length data + 15) div 16" ctr] assms(2) by simp
qed

definition last_counter :: "u8 list" where
  "last_counter = [255, 255, 255, 255, 255, 255, 255, 255, 255, 255, 255, 255, 255, 255, 255, 255]"

theorem ctr_mode_round_trip_witness:
  "\<exists>out ctr'. aes128_ctr_crypt (replicate 16 1) last_counter [1, 2, 3] = (out, ctr') \<and> be_val ctr' = 0 \<and>
     aes128_ctr_crypt (replicate 16 1) last_counter out = ([1, 2, 3], ctr')"
proof -
  obtain out ctr' where o: "aes128_ctr_crypt (replicate 16 1) last_counter [1, 2, 3] = (out, ctr')" by fastforce
  have l: "length last_counter = 16" "be_val last_counter + 1 = 256 ^ 16" by (simp_all add: last_counter_def be_val_def)
  then have z: "(be_val last_counter + 1) mod 256 ^ 16 = 0" by (simp only: mod_self)
  have "be_val ctr' = (be_val last_counter + (length [1, 2, 3 :: u8] + 15) div 16) mod 256 ^ 16 \<and>
      aes128_ctr_crypt (replicate 16 1) last_counter out = ([1, 2, 3], ctr')"
    using ctr_mode_round_trip [OF _ l(1) o] by simp
  moreover have "(length [1, 2, 3 :: u8] + 15) div 16 = 1" by simp
  ultimately show ?thesis using z o by (simp only:) blast
qed

end
