(* ===== verification/User.thy ===== *)
theory User
  imports Sha512
begin

text \<open>
  User accounts, \<open>src/user.c\<close>: the table of users, salted password hashes, the PASSWD file. Strings are their
  bytes before the NUL. Files and the surroundings of a call (clock, stack, memory) are parameters; logging
  is left out.
\<close>

section \<open>The code\<close>

record user_entry =
  username :: "u8 list"
  password_hash :: "u8 list"
  uid :: u32
  gid :: u32
  home :: "u8 list"
  shell :: "u8 list"
  u_active :: bool

definition zero_user :: user_entry where
  "zero_user = \<lparr>username = [], password_hash = [], uid = 0, gid = 0, home = [], shell = [], u_active = False\<rparr>"

definition MAX_USERS :: nat where "MAX_USERS = 50"
definition DEFAULT_UID_START :: u32 where "DEFAULT_UID_START = 1000"

record 'f userdb =
  users :: "user_entry list"
  next_uid :: u32
  users_loaded :: bool
  user_db_persist_enabled :: bool
  salt_counter :: u32
  fs :: 'f

text \<open>The file functions of the FAT driver.\<close>

record 'f files =
  f_read :: "u8 list \<Rightarrow> 'f \<Rightarrow> u8 list option \<times> 'f"
  f_write :: "u8 list \<Rightarrow> u8 list \<Rightarrow> 'f \<Rightarrow> bool \<times> 'f"

text \<open>The clock, the address of a stack variable, the bytes behind \<open>buf\<close> in \<open>hash_password_salted\<close>, the
  uninitialised hash context, and whether \<open>kmalloc\<close> succeeds.\<close>

record user_env =
  env_ticks :: u32
  env_local :: u32
  env_behind :: "u8 list"
  env_sha :: sha512_ctx
  env_mem :: bool

definition u_strncpy :: "nat \<Rightarrow> u8 list \<Rightarrow> u8 list" where
  "u_strncpy n src = take (n - 1) src"

definition trim_inplace :: "u8 list \<Rightarrow> u8 list" where
  "trim_inplace s = (let s = dropWhile (\<lambda>c. c \<le> 32) s in rev (dropWhile (\<lambda>c. c \<le> 32) (rev s)))"

definition SALT_LEN :: nat where "SALT_LEN = 8"

definition hash_salt_entropy :: "user_env \<Rightarrow> 'f userdb \<Rightarrow> u32 \<times> 'f userdb" where
  "hash_salt_entropy env db =
     (let db = db\<lparr>salt_counter := salt_counter db + 0x9E3779B9\<rparr>
      in (env_ticks env XOR salt_counter db XOR env_local env, db))"

definition hex_digit :: "u8 \<Rightarrow> u8" where
  "hex_digit n = (if n < 10 then 48 + n else 87 + n)"

definition bytes_to_hex :: "u8 list \<Rightarrow> u8 list" where
  "bytes_to_hex bs = concat (map (\<lambda>b. [hex_digit (drop_bit 4 b AND 0xF), hex_digit (b AND 0xF)]) bs)"

definition hex_nibble :: "u8 \<Rightarrow> u8 option" where
  "hex_nibble c =
     (if 48 \<le> c \<and> c \<le> 57 then Some (c - 48)
      else if 97 \<le> c \<and> c \<le> 102 then Some (c - 97 + 10)
      else if 65 \<le> c \<and> c \<le> 70 then Some (c - 65 + 10)
      else None)"

definition sha512_tag :: "u8 list" where "sha512_tag = [115, 104, 97, 53, 49, 50, 36]"

text \<open>The buffer holds 64 bytes of the password; the hash runs over the length of the whole password.\<close>

definition hash_password_salted :: "user_env \<Rightarrow> u8 list \<Rightarrow> u8 list \<Rightarrow> u8 list" where
  "hash_password_salted env password salt =
     (let plen = length password;
          buf = take SALT_LEN salt @ take 64 password;
          digest = sha512 (env_sha env) (take (SALT_LEN + plen) (buf @ env_behind env))
      in sha512_tag @ bytes_to_hex (take SALT_LEN salt) @ [36] @ bytes_to_hex digest)"

definition hash_password :: "user_env \<Rightarrow> u8 list \<Rightarrow> 'f userdb \<Rightarrow> u8 list \<times> 'f userdb" where
  "hash_password env password db =
     (let (ent, db) = hash_salt_entropy env db;
          salt = map (\<lambda>i. ucast (drop_bit ((i mod 4) * 8) ent)) [0..<SALT_LEN]
      in (hash_password_salted env password salt, db))"

definition legacy_hash_password :: "u8 list \<Rightarrow> u8 list" where
  "legacy_hash_password password =
     (let hash = fold (\<lambda>c hash. (push_bit 5 hash + hash) + ucast c) password (5381 :: u32);
          hex = (\<lambda>n :: u32. if n < 10 then 48 + ucast n else 55 + ucast n :: u8)
      in map (\<lambda>j. hex (drop_bit (28 - j * 4) hash AND 0xF)) [0..<8])"

text \<open>\<open>norm\<close> is zero behind its string.\<close>

definition char_at :: "u8 list \<Rightarrow> nat \<Rightarrow> u8" where
  "char_at s i = (if i < length s then s ! i else 0)"

fun parse_salt :: "u8 list \<Rightarrow> nat list \<Rightarrow> u8 list option" where
  "parse_salt norm [] = Some []"
| "parse_salt norm (i # is) =
     (case (hex_nibble (char_at norm (7 + i * 2)), hex_nibble (char_at norm (7 + i * 2 + 1))) of
        (Some hi, Some lo) \<Rightarrow> map_option ((#) (push_bit 4 hi OR lo)) (parse_salt norm is)
      | _ \<Rightarrow> None)"

definition verify_password :: "user_env \<Rightarrow> u8 list \<Rightarrow> u8 list \<Rightarrow> bool" where
  "verify_password env password hash =
     (let norm = trim_inplace (u_strncpy 160 hash)
      in if take 7 norm = sha512_tag \<and> char_at norm 7 \<noteq> 0 then
           case parse_salt norm [0..<SALT_LEN] of
             None \<Rightarrow> False
           | Some salt \<Rightarrow>
               if char_at norm (7 + SALT_LEN * 2) \<noteq> 36 then False
               else hash_password_salted env password salt = norm
         else legacy_hash_password password = norm)"

fun rev_digits :: "nat \<Rightarrow> u8 list" where
  "rev_digits temp = (if temp > 0 then (48 + of_nat (temp mod 10)) # rev_digits (temp div 10) else [])"

declare rev_digits.simps [simp del]

definition u32_digits :: "u32 \<Rightarrow> u8 list" where
  "u32_digits v = (if v = 0 then [48] else rev (rev_digits (unat v)))"

definition passwd_line :: "user_entry \<Rightarrow> u8 list" where
  "passwd_line u = username u @ [58] @ password_hash u @ [58] @ u32_digits (uid u) @ [58] @ u32_digits (gid u) @ [58] @
     home u @ [58] @ shell u @ [10]"

fun save_loop :: "user_entry list \<Rightarrow> u8 list \<Rightarrow> u8 list" where
  "save_loop [] buf = buf"
| "save_loop (u # us) buf =
     (if length buf \<ge> 8000 then buf
      else if u_active u then
        if length buf + length (username u) + length (password_hash u) + length (home u) + length (shell u) + 50 > 8000 then buf
        else save_loop us (buf @ passwd_line u)
      else save_loop us buf)"

definition PASSWD_FILE :: "u8 list" where "PASSWD_FILE = [80, 65, 83, 83, 87, 68]"
definition etc_passwd :: "u8 list" where "etc_passwd = [101, 116, 99, 47, 112, 97, 115, 115, 119, 100]"

definition user_save_to_file :: "'f files \<Rightarrow> user_env \<Rightarrow> 'f userdb \<Rightarrow> bool \<times> 'f userdb" where
  "user_save_to_file F env db =
     (if \<not> user_db_persist_enabled db then (True, db)
      else if \<not> env_mem env then (False, db)
      else
        let buf = save_loop (users db) [];
            (ok, f) = f_write F PASSWD_FILE buf (fs db)
        in if ok then (True, db\<lparr>fs := f\<rparr>)
           else let (ok, f) = f_write F etc_passwd buf f in (ok, db\<lparr>fs := f\<rparr>))"

definition str_user :: "u8 list" where "str_user = [117, 115, 101, 114]"
definition str_pass :: "u8 list" where "str_pass = [112, 97, 115, 115]"
definition str_sh :: "u8 list" where "str_sh = [47, 98, 105, 110, 47, 115, 104]"

definition seed_default_user :: "'f files \<Rightarrow> user_env \<Rightarrow> 'f userdb \<Rightarrow> 'f userdb" where
  "seed_default_user F env db =
     (let db = db\<lparr>users := replicate MAX_USERS zero_user, next_uid := DEFAULT_UID_START, users_loaded := True\<rparr>;
          (h, db) = hash_password env str_pass db;
          u = \<lparr>username = u_strncpy 32 str_user, password_hash = h, uid = 1000, gid = 0, home = u_strncpy 64 [47],
               shell = u_strncpy 64 str_sh, u_active = True\<rparr>;
          db = db\<lparr>users := (users db)[0 := u], next_uid := 1001\<rparr>
      in if user_db_persist_enabled db then snd (user_save_to_file F env db) else db)"

text \<open>At most five colons separate the fields of a line.\<close>

fun split_colons :: "nat \<Rightarrow> u8 list \<Rightarrow> u8 list list" where
  "split_colons 0 s = [s]"
| "split_colons (Suc n) s =
     (if 58 \<in> set s then takeWhile (\<lambda>c. c \<noteq> 58) s # split_colons n (tl (dropWhile (\<lambda>c. c \<noteq> 58) s)) else [s])"

definition c_string :: "u8 list \<Rightarrow> u8 list" where
  "c_string s = takeWhile (\<lambda>c. c \<noteq> 0) s"

definition parse_dec :: "u8 list \<Rightarrow> u32" where
  "parse_dec s = fold (\<lambda>c v. v * 10 + (ucast c - 48)) (takeWhile (\<lambda>c. 48 \<le> c \<and> c \<le> 57) s) 0"

definition parse_line :: "u8 list \<Rightarrow> user_entry option" where
  "parse_line line =
     (case split_colons 5 (take 255 line) of
        [f0, f1, f2, f3, f4, f5] \<Rightarrow>
          Some \<lparr>username = u_strncpy 32 (c_string f0), password_hash = u_strncpy 160 (c_string f1), uid = parse_dec (c_string f2),
                gid = parse_dec (c_string f3), home = u_strncpy 64 (c_string f4), shell = u_strncpy 64 (c_string f5), u_active = True\<rparr>
      | _ \<Rightarrow> None)"

definition eol :: "u8 \<Rightarrow> bool" where
  "eol c \<longleftrightarrow> c = 10 \<or> c = 13"

lemma rest_shorter: "s \<noteq> [] \<Longrightarrow> length (dropWhile eol (dropWhile (\<lambda>c. \<not> eol c) s)) < length s"
proof (cases s)
  case (Cons c s')
  have le: "length (dropWhile P xs) \<le> length xs" for P and xs :: "u8 list" by (rule length_dropWhile_le)
  show ?thesis
  proof (cases "eol c")
    case True
    then show ?thesis using Cons le [of eol s'] by simp
  next
    case False
    then show ?thesis using Cons le [of eol "dropWhile (\<lambda>c. \<not> eol c) s'"] le [of "\<lambda>c. \<not> eol c" s'] by simp
  qed
qed simp

text \<open>The loop over the lines; \<open>us\<close> are the users read so far.\<close>

function parse_passwd :: "u8 list \<Rightarrow> user_entry list \<Rightarrow> u32 \<Rightarrow> user_entry list \<times> u32" where
  "parse_passwd s us next =
     (if s = [] \<or> length us \<ge> MAX_USERS then (us, next)
      else
        let line = takeWhile (\<lambda>c. \<not> eol c) s;
            rest = dropWhile eol (dropWhile (\<lambda>c. \<not> eol c) s)
        in case (if line \<noteq> [] \<and> hd line \<noteq> 35 then parse_line line else None) of
             None \<Rightarrow> parse_passwd rest us next
           | Some u \<Rightarrow> parse_passwd rest (us @ [u]) (if uid u \<ge> next then uid u + 1 else next))"
  by pat_completeness auto
termination by (relation "measure (\<lambda>(s, us, next). length s)") (simp_all add: rest_shorter)

declare parse_passwd.simps [simp del]

definition user_load_from_file :: "'f files \<Rightarrow> user_env \<Rightarrow> 'f userdb \<Rightarrow> 'f userdb" where
  "user_load_from_file F env db =
     (let (file, f) = f_read F PASSWD_FILE (fs db);
          (file, f) = (case file of Some b \<Rightarrow> (Some b, f) | None \<Rightarrow> f_read F etc_passwd f);
          db = db\<lparr>fs := f\<rparr>
      in case file of
           None \<Rightarrow> seed_default_user F env db
         | Some buf \<Rightarrow>
             let (us, next) = parse_passwd buf [] DEFAULT_UID_START;
                 db = db\<lparr>users := us @ replicate (MAX_USERS - length us) zero_user, next_uid := next, users_loaded := True\<rparr>
             in if us = [] then seed_default_user F env db else db)"

definition ensure_loaded :: "'f files \<Rightarrow> user_env \<Rightarrow> 'f userdb \<Rightarrow> 'f userdb" where
  "ensure_loaded F env db = (if users_loaded db then db else user_load_from_file F env db)"

definition find_user :: "user_entry list \<Rightarrow> u8 list \<Rightarrow> nat option" where
  "find_user us name = first_idx (\<lambda>u. u_active u \<and> username u = name) us"

definition user_find :: "'f files \<Rightarrow> user_env \<Rightarrow> u8 list \<Rightarrow> 'f userdb \<Rightarrow> nat option \<times> 'f userdb" where
  "user_find F env name db = (let db = ensure_loaded F env db in (find_user (users db) name, db))"

definition user_add :: "'f files \<Rightarrow> user_env \<Rightarrow> u8 list \<Rightarrow> u8 list \<Rightarrow> 'f userdb \<Rightarrow> bool \<times> 'f userdb" where
  "user_add F env name password db =
     (let db = ensure_loaded F env db;
          (found, db) = user_find F env name db
      in if found \<noteq> None then (False, db)
         else
           case first_idx (\<lambda>u. \<not> u_active u) (users db) of
             None \<Rightarrow> (False, db)
           | Some slot \<Rightarrow>
               if length name = 0 \<or> length name \<ge> 32 then (False, db)
               else
                 let (h, db) = hash_password env password db;
                     u = \<lparr>username = u_strncpy 32 name, password_hash = h, uid = next_uid db, gid = 0, home = u_strncpy 64 [47],
                          shell = u_strncpy 64 str_sh, u_active = True\<rparr>;
                     db = db\<lparr>users := (users db)[slot := u], next_uid := next_uid db + 1\<rparr>
                 in (True, snd (user_save_to_file F env db)))"

definition user_del :: "'f files \<Rightarrow> user_env \<Rightarrow> u8 list \<Rightarrow> 'f userdb \<Rightarrow> bool \<times> 'f userdb" where
  "user_del F env name db =
     (let db = ensure_loaded F env db;
          (found, db) = user_find F env name db
      in case found of
           None \<Rightarrow> (False, db)
         | Some i \<Rightarrow>
             let db = db\<lparr>users := (users db)[i := (users db ! i)\<lparr>u_active := False\<rparr>]\<rparr>
             in (True, snd (user_save_to_file F env db)))"

definition user_change_password :: "'f files \<Rightarrow> user_env \<Rightarrow> u8 list \<Rightarrow> u8 list \<Rightarrow> u8 list \<Rightarrow> 'f userdb \<Rightarrow> bool \<times> 'f userdb" where
  "user_change_password F env name old_pass new_pass db =
     (let db = ensure_loaded F env db;
          (found, db) = user_find F env name db
      in case found of
           None \<Rightarrow> (False, db)
         | Some i \<Rightarrow>
             if \<not> verify_password env old_pass (password_hash (users db ! i)) then (False, db)
             else
               let (h, db) = hash_password env new_pass db;
                   db = db\<lparr>users := (users db)[i := (users db ! i)\<lparr>password_hash := h\<rparr>]\<rparr>
               in (True, snd (user_save_to_file F env db)))"

text \<open>The build for the serial console (\<open>AJOS_SERIAL_ONLY\<close>) has a fixed account in front.\<close>

definition user_check_password :: "bool \<Rightarrow> 'f files \<Rightarrow> user_env \<Rightarrow> u8 list \<Rightarrow> u8 list \<Rightarrow> 'f userdb \<Rightarrow> bool \<times> 'f userdb" where
  "user_check_password serial_only F env name password db =
     (let ubuf = trim_inplace (u_strncpy 64 name);
          pbuf = trim_inplace (u_strncpy 64 password)
      in if serial_only \<and> ubuf = str_user \<and> pbuf = str_pass then (True, db)
         else
           let db = ensure_loaded F env db;
               (found, db) = user_find F env ubuf db
           in case found of
                None \<Rightarrow> (False, db)
              | Some i \<Rightarrow> (verify_password env pbuf (password_hash (users db ! i)), db))"

definition user_init :: "'f files \<Rightarrow> user_env \<Rightarrow> 'f userdb \<Rightarrow> 'f userdb" where
  "user_init F env db =
     user_load_from_file F env (db\<lparr>users := replicate MAX_USERS zero_user, next_uid := DEFAULT_UID_START, users_loaded := False\<rparr>)"


section \<open>Password hashes\<close>

lemma low_nibble: "b AND 0xF = (take_bit 4 b :: u8)"
  by (simp add: take_bit_eq_mask mask_eq_exp_minus_1)

lemma nibble_bounds: "unat (drop_bit 4 b AND 0xF :: u8) < 16" "unat (b AND 0xF :: u8) < 16"
  unfolding low_nibble unsigned_take_bit_eq by (simp_all add: take_bit_eq_mod)

lemma nibbles_back: "push_bit 4 (drop_bit 4 b AND 0xF) OR (b AND 0xF) = (b :: u8)"
  unfolding low_nibble by (rule bit_eqI) (auto simp: bit_simps)

lemma hex_table: "list_all (\<lambda>n :: u8. hex_nibble (hex_digit n) = Some n \<and> hex_digit n > 32) [0, 1, 2, 3, 4, 5, 6, 7, 8, 9, 10, 11, 12, 13, 14, 15]"
  by (simp add: hex_nibble_def hex_digit_def)

lemma hex_round_trip:
  assumes "unat n < 16"
  shows "hex_nibble (hex_digit n) = Some n \<and> hex_digit n > 32"
proof -
  have all16: "map of_nat [0..<16] = ([0, 1, 2, 3, 4, 5, 6, 7, 8, 9, 10, 11, 12, 13, 14, 15] :: u8 list)"
    by (simp add: upt_rec)
  have "of_nat (unat n) \<in> set (map of_nat [0..<16] :: u8 list)" using assms by (subst set_map) (rule imageI, simp)
  then have "n \<in> set [0, 1, 2, 3, 4, 5, 6, 7, 8, 9, 10, 11, 12, 13, 14, 15]" unfolding all16 by simp
  then show ?thesis by (rule bspec [OF hex_table [unfolded list_all_iff]])
qed

lemmas hex_of_nibbles = hex_round_trip [OF nibble_bounds(1)] hex_round_trip [OF nibble_bounds(2)]

lemma bytes_to_hex_Cons: "bytes_to_hex (b # bs) = hex_digit (drop_bit 4 b AND 0xF) # hex_digit (b AND 0xF) # bytes_to_hex bs"
  by (simp add: bytes_to_hex_def)

lemma bytes_to_hex_length [simp]: "length (bytes_to_hex bs) = 2 * length bs"
  by (induction bs) (simp_all add: bytes_to_hex_Cons, simp add: bytes_to_hex_def)

lemma bytes_to_hex_nth:
  "i < length bs \<Longrightarrow> bytes_to_hex bs ! (2 * i) = hex_digit (drop_bit 4 (bs ! i) AND 0xF) \<and>
     bytes_to_hex bs ! Suc (2 * i) = hex_digit (bs ! i AND 0xF)"
proof (induction bs arbitrary: i)
  case (Cons b bs)
  then show ?case by (cases i) (simp_all add: bytes_to_hex_Cons)
qed simp

lemma bytes_to_hex_inj: "bytes_to_hex xs = bytes_to_hex ys \<Longrightarrow> xs = ys"
proof (induction xs arbitrary: ys)
  case Nil
  then show ?case by (cases ys) (simp_all add: bytes_to_hex_Cons, simp add: bytes_to_hex_def)
next
  case (Cons x xs)
  then obtain y ys' where ys: "ys = y # ys'" by (cases ys) (simp_all add: bytes_to_hex_Cons, simp add: bytes_to_hex_def)
  have "hex_nibble (hex_digit (drop_bit 4 x AND 0xF)) = hex_nibble (hex_digit (drop_bit 4 y AND 0xF))"
    "hex_nibble (hex_digit (x AND 0xF)) = hex_nibble (hex_digit (y AND 0xF))" "xs = ys'"
    using Cons ys by (simp_all add: bytes_to_hex_Cons)
  then have "drop_bit 4 x AND 0xF = drop_bit 4 y AND 0xF" "x AND 0xF = y AND 0xF" by (simp_all add: hex_of_nibbles)
  then have "x = y" using nibbles_back [of x] nibbles_back [of y] by metis
  then show ?case using ys \<open>xs = ys'\<close> by simp
qed

lemma bytes_to_hex_visible: "c \<in> set (bytes_to_hex bs) \<Longrightarrow> c > 32"
  by (induction bs) (auto simp: bytes_to_hex_Cons hex_of_nibbles, simp add: bytes_to_hex_def)

lemma trim_visible:
  assumes "\<forall>c \<in> set s. c > 32"
  shows "trim_inplace s = s"
proof -
  have "dropWhile (\<lambda>c. c \<le> 32) xs = xs" if "\<forall>c \<in> set xs. c > (32 :: u8)" for xs
    using that by (cases xs) (auto simp: not_le)
  from this [of s] this [of "rev s"] assms show ?thesis by (simp add: trim_inplace_def)
qed

definition sha_ready :: "user_env \<Rightarrow> bool" where
  "sha_ready env \<longleftrightarrow> length (s5_buffer (env_sha env)) = 128"

lemma sha512_call:
  assumes "sha_ready env" "length m < 2 ^ 32"
  shows "sha512 (env_sha env) m = sha512_spec m"
  using sha512.pieces [of "env_sha env" "[m]"] assms by (simp add: sha512_def sha_ready_def)

lemma hash_string:
  assumes "sha_ready env" "length password \<le> 64" "length salt = 8"
  shows "hash_password_salted env password salt = sha512_tag @ bytes_to_hex salt @ [36] @ bytes_to_hex (sha512_spec (salt @ password))"
  using assms sha512_call [OF assms(1), of "salt @ password"]
  by (simp add: hash_password_salted_def SALT_LEN_def Let_def)

lemma parse_salt_map:
  "(\<And>i. i \<in> set is \<Longrightarrow> hex_nibble (char_at norm (7 + i * 2)) = Some (drop_bit 4 (f i) AND 0xF) \<and>
     hex_nibble (char_at norm (7 + i * 2 + 1)) = Some (f i AND 0xF)) \<Longrightarrow> parse_salt norm is = Some (map f is)"
  by (induction "is") (simp_all add: nibbles_back [simplified])

text \<open>A password passes exactly when its salted digest is the stored one.\<close>

lemma verify_hash:
  assumes "sha_ready env" "sha_ready env'" "length p \<le> 64" "length q \<le> 64" "length salt = 8"
  shows "verify_password env' q (hash_password_salted env p salt) \<longleftrightarrow> sha512_spec (salt @ q) = sha512_spec (salt @ p)"
proof -
  let ?h = "hash_password_salted env p salt" and ?d = "sha512_spec (salt @ p)"
  note h = hash_string [OF assms(1,3,5)] and h' = hash_string [OF assms(2,4,5)]
  have len: "length ?h = 24 + 2 * length ?d" using assms(5) by (simp add: h sha512_tag_def)
  have dl: "length ?d = 64" by (rule sha512_spec_length)
  have vis: "\<forall>c \<in> set ?h. c > 32" unfolding h sha512_tag_def using bytes_to_hex_visible by auto
  have norm: "trim_inplace (u_strncpy 160 ?h) = ?h"
    using trim_visible [OF vis] len dl by (simp add: u_strncpy_def)
  have tag: "take 7 ?h = sha512_tag" by (simp add: h sha512_tag_def)
  have nth: "char_at ?h (7 + j) = (bytes_to_hex salt @ [36] @ bytes_to_hex ?d) ! j" if "j < 17" for j
    using that assms(5) by (simp add: char_at_def h sha512_tag_def nth_append)
  have hexd: "char_at ?h (7 + i * 2) = hex_digit (drop_bit 4 (salt ! i) AND 0xF) \<and>
      char_at ?h (7 + i * 2 + 1) = hex_digit (salt ! i AND 0xF)" if "i < 8" for i
    using that assms(5) nth [of "i * 2"] nth [of "i * 2 + 1"] bytes_to_hex_nth [of i salt]
    by (simp add: nth_append mult.commute)
  have salt: "parse_salt ?h [0..<SALT_LEN] = Some salt"
  proof -
    have "parse_salt ?h [0..<SALT_LEN] = Some (map ((!) salt) [0..<SALT_LEN])"
      by (rule parse_salt_map) (use hexd in \<open>auto simp: SALT_LEN_def hex_of_nibbles\<close>)
    then show ?thesis using assms(5) map_nth [of salt] by (simp add: SALT_LEN_def)
  qed
  have "char_at ?h 7 \<noteq> 0" using hexd [of 0] hex_of_nibbles(1) [of "salt ! 0"] by auto
  moreover have "char_at ?h (7 + SALT_LEN * 2) = 36" using nth [of 16] assms(5) by (simp add: SALT_LEN_def nth_append)
  ultimately have "verify_password env' q ?h \<longleftrightarrow> hash_password_salted env' q salt = ?h"
    unfolding verify_password_def norm Let_def using tag salt by simp
  also have "\<dots> \<longleftrightarrow> bytes_to_hex (sha512_spec (salt @ q)) = bytes_to_hex ?d" unfolding h h' by simp
  finally show ?thesis using bytes_to_hex_inj by metis
qed


section \<open>The table as a map\<close>

interpretation usr: slot_table u_active username find_user
  using scan_lookup_slot_table [of u_active username]
  by (simp add: scan_lookup_def [abs_def] find_user_def [abs_def])

definition users_ok :: "'f userdb \<Rightarrow> bool" where
  "users_ok db \<longleftrightarrow> users_loaded db \<and> length (users db) = MAX_USERS \<and> slots_unique u_active username (users db)"

definition users_map :: "'f userdb \<Rightarrow> u8 list \<rightharpoonup> user_entry" where
  "users_map db = slot_map find_user (users db)"

lemma find_of_map: "find_user (users db) n = None \<longleftrightarrow> users_map db n = None"
  by (simp add: users_map_def slot_map_def)

lemma save_keeps [simp]:
  "users (snd (user_save_to_file F env db)) = users db" "users_loaded (snd (user_save_to_file F env db)) = users_loaded db"
  by (simp_all add: user_save_to_file_def Let_def split: prod.split)

lemma hash_password_keeps:
  assumes "hash_password env p db = (h, db')"
  shows "users db' = users db \<and> users_loaded db' = users_loaded db \<and> (\<exists>salt. length salt = 8 \<and> h = hash_password_salted env p salt)"
proof -
  let ?salt = "map (\<lambda>i. ucast (drop_bit ((i mod 4) * 8) (fst (hash_salt_entropy env db)))) [0..<SALT_LEN]"
  have "length ?salt = 8" "h = hash_password_salted env p ?salt" "db' = snd (hash_salt_entropy env db)"
    using assms by (simp_all add: hash_password_def SALT_LEN_def split: prod.splits)
  moreover have "users (snd (hash_salt_entropy env db)) = users db" "users_loaded (snd (hash_salt_entropy env db)) = users_loaded db"
    by (simp_all add: hash_salt_entropy_def Let_def)
  ultimately show ?thesis by blast
qed

lemma users_ok_loaded: "users_ok db \<Longrightarrow> ensure_loaded F env db = db"
  by (simp add: ensure_loaded_def users_ok_def)

lemma users_store:
  assumes ok: "users_ok db" and i: "i < length (users db)" and u: "u_active u"
    and own: "\<And>j. find_user (users db) (username u) = Some j \<Longrightarrow> j = i"
    and old: "u_active (users db ! i) \<Longrightarrow> username (users db ! i) = username u"
    and db': "users db' = (users db)[i := u]" "users_loaded db' = users_loaded db"
  shows "users_ok db' \<and> users_map db' = (users_map db)(username u \<mapsto> u)"
proof -
  have uq: "slots_unique u_active username (users db)" using ok by (simp add: users_ok_def)
  have "users_ok db'" using ok usr.unique_store [OF uq own] db' by (simp add: users_ok_def)
  moreover have "users_map db' n = ((users_map db)(username u \<mapsto> u)) n" for n
  proof (cases "n = username u")
    case True
    then show ?thesis using usr.lookup_store_same [OF uq i u own] i db' by (simp add: users_map_def slot_map_def)
  next
    case False
    have "find_user (users db') n = find_user (users db) n"
      unfolding db' by (rule usr.lookup_store_other [OF uq u own]) (use old False in auto)
    moreover have "find_user (users db) n = Some j \<Longrightarrow> j \<noteq> i" for j using usr.lookup_Some [of "users db" n j] old False by auto
    ultimately show ?thesis using False db' by (cases "find_user (users db) n") (auto simp: users_map_def slot_map_def)
  qed
  ultimately show ?thesis by blast
qed

lemma user_add_map:
  assumes ok: "users_ok db" and add: "user_add F env n p db = (True, db')"
  shows "\<exists>u salt. users_ok db' \<and> users_map db n = None \<and> users_map db' = (users_map db)(n \<mapsto> u) \<and> length salt = 8 \<and>
     password_hash u = hash_password_salted env p salt"
proof -
  obtain slot where none: "find_user (users db) n = None" and slot: "first_idx (\<lambda>u. \<not> u_active u) (users db) = Some slot"
    and len: "length n < 32" and fst_snd: "snd (user_add F env n p db) = db'"
    using add users_ok_loaded [OF ok]
    by (auto simp: user_add_def user_find_def Let_def split: option.splits if_splits prod.splits)
  obtain h db1 where h: "hash_password env p db = (h, db1)" by fastforce
  note keep = hash_password_keeps [OF h]
  let ?u = "\<lparr>username = u_strncpy 32 n, password_hash = h, uid = next_uid db1, gid = 0, home = u_strncpy 64 [47],
               shell = u_strncpy 64 str_sh, u_active = True\<rparr>"
  have name: "username ?u = n" using len by (simp add: u_strncpy_def)
  have db': "users db' = (users db)[slot := ?u]" "users_loaded db' = users_loaded db"
    using add users_ok_loaded [OF ok] none slot h keep
    by (auto simp: user_add_def user_find_def Let_def split: if_splits)
  have "users_ok db' \<and> users_map db' = (users_map db)(username ?u \<mapsto> ?u)"
    by (rule users_store [OF ok _ _ _ _ db']) (use none name first_idx_SomeD [OF slot] in auto)
  moreover have "password_hash ?u = h" by simp
  moreover have "users_map db n = None" using none find_of_map by blast
  ultimately show ?thesis using keep unfolding name by blast
qed

lemma user_change_map:
  assumes ok: "users_ok db" and change: "user_change_password F env n old p db = (True, db')"
  shows "\<exists>u v salt. users_ok db' \<and> users_map db n = Some v \<and> verify_password env old (password_hash v) \<and>
     users_map db' = (users_map db)(n \<mapsto> u) \<and> length salt = 8 \<and> password_hash u = hash_password_salted env p salt"
proof -
  obtain i where i: "find_user (users db) n = Some i" and ver: "verify_password env old (password_hash (users db ! i))"
    using change users_ok_loaded [OF ok]
    by (auto simp: user_change_password_def user_find_def Let_def split: option.splits if_splits prod.splits)
  obtain h db1 where h: "hash_password env p db = (h, db1)" by fastforce
  note keep = hash_password_keeps [OF h] and I = usr.lookup_Some [OF i]
  let ?u = "(users db ! i)\<lparr>password_hash := h\<rparr>"
  have name: "username ?u = n" using I by simp
  have db': "users db' = (users db)[i := ?u]" "users_loaded db' = users_loaded db"
    using change users_ok_loaded [OF ok] i ver h keep
    by (auto simp: user_change_password_def user_find_def Let_def)
  have "users_ok db' \<and> users_map db' = (users_map db)(username ?u \<mapsto> ?u)"
    by (rule users_store [OF ok _ _ _ _ db']) (use I i in auto)
  moreover have "users_map db n = Some (users db ! i)" using i by (simp add: users_map_def slot_map_def)
  moreover have "password_hash ?u = h" by simp
  ultimately show ?thesis using keep ver unfolding name by blast
qed

lemma user_del_map:
  assumes ok: "users_ok db" and del: "user_del F env n db = (True, db')"
  shows "users_ok db' \<and> users_map db' = (users_map db)(n := None)"
proof -
  obtain i where i: "find_user (users db) n = Some i"
    using del users_ok_loaded [OF ok] by (auto simp: user_del_def user_find_def Let_def split: option.splits)
  note I = usr.lookup_Some [OF i]
  have uq: "slots_unique u_active username (users db)" using ok by (simp add: users_ok_def)
  let ?u = "(users db ! i)\<lparr>u_active := False\<rparr>"
  have db': "users db' = (users db)[i := ?u]" "users_loaded db' = users_loaded db"
    using del users_ok_loaded [OF ok] i by (auto simp: user_del_def user_find_def Let_def)
  have inact: "\<not> u_active ?u" by simp
  have "users_ok db'" using ok slots_unique_clear [OF uq inact] db' by (simp add: users_ok_def)
  moreover have "users_map db' m = ((users_map db)(n := None)) m" for m
  proof (cases "m = n")
    case True
    then show ?thesis using usr.lookup_clear_same [OF uq inact i] db' by (simp add: users_map_def slot_map_def)
  next
    case False
    have "find_user (users db') m = find_user (users db) m"
      unfolding db' by (rule usr.lookup_clear_other [OF uq inact]) (use I False in auto)
    moreover have "find_user (users db) m = Some j \<Longrightarrow> j \<noteq> i" for j using usr.lookup_Some [of "users db" m j] I False by auto
    ultimately show ?thesis using False db' by (cases "find_user (users db) m") (auto simp: users_map_def slot_map_def)
  qed
  ultimately show ?thesis by blast
qed

section \<open>Logging in\<close>

text \<open>What a caller can type: a string that is already trimmed and fits the 64-byte buffers.\<close>

definition typed :: "u8 list \<Rightarrow> bool" where
  "typed s \<longleftrightarrow> trim_inplace s = s \<and> length s < 64"

lemma check_map:
  assumes "users_ok db" "typed n" "typed q"
  shows "fst (user_check_password False F env n q db) =
     (case users_map db n of None \<Rightarrow> False | Some u \<Rightarrow> verify_password env q (password_hash u))"
  using assms users_ok_loaded [OF assms(1)]
  by (auto simp: user_check_password_def user_find_def typed_def u_strncpy_def users_map_def slot_map_def Let_def split: option.splits)

definition opens :: "'f files \<Rightarrow> user_env \<Rightarrow> 'f userdb \<Rightarrow> u8 list \<Rightarrow> u8 list \<Rightarrow> bool" where
  "opens F env db n q \<longleftrightarrow> fst (user_check_password False F env n q db)"

lemma hashed_opens:
  assumes ok: "users_ok db'" and m: "users_map db' = M(n \<mapsto> u)" and h: "password_hash u = hash_password_salted env p salt"
    and p: "length p \<le> 64" and salt: "length salt = 8" and sha: "sha_ready env" "sha_ready env'" and n: "typed n" and q: "typed q"
  shows "opens F env' db' n q \<longleftrightarrow> sha512_spec (salt @ q) = sha512_spec (salt @ p)"
  using check_map [OF ok n q] verify_hash [OF sha p _ salt, of q] q
  by (simp add: opens_def m h typed_def)


text \<open>An empty table with the fixed account \<open>bob\<close>: the hypotheses of the theorem hold for it.\<close>

definition w_files :: "unit files" where
  "w_files = \<lparr>f_read = (\<lambda>n f. (None, f)), f_write = (\<lambda>n b f. (False, f))\<rparr>"

definition w_env :: user_env where
  "w_env = \<lparr>env_ticks = 7, env_local = 9, env_behind = [], env_sha = \<lparr>s5_state = replicate 8 0, s5_count0 = 0, s5_count1 = 0, s5_buffer = replicate 128 0\<rparr>, env_mem = True\<rparr>"

definition w_db :: "unit userdb" where
  "w_db = \<lparr>users = replicate MAX_USERS zero_user, next_uid = 1000, users_loaded = True, user_db_persist_enabled = False, salt_counter = 0, fs = ()\<rparr>"


section \<open>The PASSWD file\<close>

lemma digit_value:
  assumes "d < 10"
  shows "ucast (48 + of_nat d :: u8) - 48 = (of_nat d :: u32)" "48 \<le> (48 + of_nat d :: u8) \<and> (48 + of_nat d :: u8) \<le> 57"
proof -
  have "d \<in> {0, 1, 2, 3, 4, 5, 6, 7, 8, 9}" using assms by auto
  then show "ucast (48 + of_nat d :: u8) - 48 = (of_nat d :: u32)" "48 \<le> (48 + of_nat d :: u8) \<and> (48 + of_nat d :: u8) \<le> 57" by auto
qed

lemma rev_digits_are_digits: "c \<in> set (rev_digits n) \<Longrightarrow> 48 \<le> c \<and> c \<le> 57"
proof (induction n rule: rev_digits.induct)
  case (1 n)
  then show ?case using digit_value(2) [of "n mod 10"] by (subst (asm) (2) rev_digits.simps) (auto split: if_splits)
qed

lemma rev_digits_value: "fold (\<lambda>c v. v * 10 + (ucast c - 48)) (rev (rev_digits n)) 0 = (of_nat n :: u32)"
proof (induction n rule: rev_digits.induct)
  case (1 n)
  show ?case
  proof (cases "n > 0")
    case True
    have "of_nat (n div 10) * 10 + (of_nat (n mod 10) :: u32) = of_nat (n div 10 * 10 + n mod 10)"
      by (simp only: of_nat_add of_nat_mult of_nat_numeral)
    also have "\<dots> = of_nat n" by simp
    finally show ?thesis using 1 True by (subst rev_digits.simps) (simp add: digit_value)
  qed (simp add: rev_digits.simps)
qed

lemma u32_digits_are_digits: "c \<in> set (u32_digits v) \<Longrightarrow> 48 \<le> c \<and> c \<le> 57"
  using rev_digits_are_digits [of c "unat v"] by (auto simp: u32_digits_def split: if_splits)

lemma u32_digits_clean: "c \<in> set (u32_digits v) \<Longrightarrow> c \<notin> {0, 10, 13, 58}"
  using u32_digits_are_digits [of c v] by auto

lemma parse_dec_digits: "parse_dec (u32_digits v) = v"
proof -
  have "takeWhile (\<lambda>c. 48 \<le> c \<and> c \<le> 57) (u32_digits v) = u32_digits v"
    using u32_digits_are_digits by (intro takeWhile_eq_all_conv [THEN iffD2]) blast
  moreover have "fold (\<lambda>c v. v * 10 + (ucast c - 48)) (u32_digits v) 0 = v"
    using rev_digits_value [of "unat v"] by (simp add: u32_digits_def)
  ultimately show ?thesis by (simp only: parse_dec_def)
qed

lemma split_colons_Cons: "58 \<notin> set a \<Longrightarrow> split_colons (Suc n) (a @ 58 # s) = a # split_colons n s"
proof -
  assume "58 \<notin> set a"
  then have "\<And>c. c \<in> set a \<Longrightarrow> c \<noteq> 58" by blast
  then show ?thesis by (simp add: takeWhile_append2 dropWhile_append2)
qed

lemma split_colons_last: "58 \<notin> set a \<Longrightarrow> split_colons n a = [a]"
  by (cases n) simp_all

text \<open>Users whose record the file can hold: no field has a line end, a colon or a NUL, the fields fit, the line fits
  the loader's 255-byte buffer, and the line does not look like a comment.\<close>

definition clean :: "u8 list \<Rightarrow> bool" where
  "clean s \<longleftrightarrow> (\<forall>c \<in> set s. c \<notin> {0, 10, 13, 58})"

definition storable :: "user_entry \<Rightarrow> bool" where
  "storable u \<longleftrightarrow> clean (username u) \<and> clean (password_hash u) \<and> clean (home u) \<and> clean (shell u) \<and>
     length (username u) < 32 \<and> length (password_hash u) < 160 \<and> length (home u) < 64 \<and> length (shell u) < 64 \<and>
     length (passwd_line u) \<le> 256 \<and> take 1 (username u) \<noteq> [35]"

lemma clean_c_string: "clean s \<Longrightarrow> c_string s = s"
  by (simp add: c_string_def clean_def takeWhile_eq_all_conv)

lemma clean_digits: "clean (u32_digits v)"
  using u32_digits_clean by (auto simp: clean_def)

definition line_of :: "user_entry \<Rightarrow> u8 list" where
  "line_of u = username u @ 58 # password_hash u @ 58 # u32_digits (uid u) @ 58 # u32_digits (gid u) @ 58 # home u @ 58 # shell u"

lemma passwd_line_of: "passwd_line u = line_of u @ [10]"
  by (simp add: passwd_line_def line_of_def)

lemma parse_line_of: "storable u \<Longrightarrow> u_active u \<Longrightarrow> parse_line (line_of u) = Some u"
proof -
  assume u: "storable u" "u_active u"
  have no58: "58 \<notin> set (username u)" "58 \<notin> set (password_hash u)" "58 \<notin> set (u32_digits (uid u))"
    "58 \<notin> set (u32_digits (gid u))" "58 \<notin> set (home u)" "58 \<notin> set (shell u)"
    using u(1) u32_digits_clean by (auto simp: storable_def clean_def)
  have five: "5 = Suc (Suc (Suc (Suc (Suc 0))))" by simp
  have "split_colons 5 (line_of u) = [username u, password_hash u, u32_digits (uid u), u32_digits (gid u), home u, shell u]"
    unfolding line_of_def five
    by (simp only: split_colons_Cons [OF no58(1)] split_colons_Cons [OF no58(2)] split_colons_Cons [OF no58(3)]
        split_colons_Cons [OF no58(4)] split_colons_Cons [OF no58(5)] split_colons_last [OF no58(6)])
  moreover have "take 255 (line_of u) = line_of u" using u(1) by (simp add: storable_def passwd_line_of)
  ultimately show ?thesis using u clean_digits
    by (simp add: parse_line_def storable_def clean_c_string parse_dec_digits u_strncpy_def)
qed

lemma line_of_clean: "storable u \<Longrightarrow> c \<in> set (line_of u) \<Longrightarrow> \<not> eol c"
  using u32_digits_clean by (fastforce simp: storable_def line_of_def clean_def eol_def)

definition next_after :: "user_entry list \<Rightarrow> u32 \<Rightarrow> u32" where
  "next_after us next = fold (\<lambda>u n. if uid u \<ge> n then uid u + 1 else n) us next"

lemma parse_passwd_lines:
  assumes "\<forall>u \<in> set us. storable u \<and> u_active u" "length acc + length us \<le> MAX_USERS"
  shows "parse_passwd (concat (map passwd_line us)) acc next = (acc @ us, next_after us next)"
  using assms
proof (induction us arbitrary: acc "next")
  case Nil
  then show ?case by (simp add: parse_passwd.simps next_after_def)
next
  case (Cons u us)
  let ?rest = "concat (map passwd_line us)"
  have u: "storable u" "u_active u" using Cons.prems by auto
  have noeol: "\<And>c. c \<in> set (line_of u) \<Longrightarrow> \<not> eol c" by (rule line_of_clean [OF u(1)])
  have ne: "line_of u \<noteq> []" "hd (line_of u) \<noteq> 35"
    using u(1) by (cases "username u", auto simp: line_of_def storable_def)+
  have line: "takeWhile (\<lambda>c. \<not> eol c) (line_of u @ 10 # ?rest) = line_of u"
    using noeol by (simp add: takeWhile_append2 eol_def)
  have first: "?rest = [] \<or> \<not> eol (hd ?rest)"
  proof (cases us)
    case (Cons v vs)
    then have "storable v" using Cons.prems by simp
    note noeol_v = line_of_clean [OF this]
    have "line_of v \<noteq> []" by (simp add: line_of_def)
    then have "hd ?rest \<in> set (line_of v)" using Cons by (simp add: passwd_line_of)
    then show ?thesis using noeol_v by blast
  qed simp
  have rest: "dropWhile eol (dropWhile (\<lambda>c. \<not> eol c) (line_of u @ 10 # ?rest)) = ?rest"
  proof -
    have "dropWhile (\<lambda>c. \<not> eol c) (line_of u @ 10 # ?rest) = 10 # ?rest" using noeol by (simp add: dropWhile_append2 eol_def)
    moreover have "xs = [] \<or> \<not> eol (hd xs) \<Longrightarrow> dropWhile eol xs = xs" for xs by (cases xs) auto
    note this [OF first]
    ultimately show ?thesis by (simp add: eol_def)
  qed
  have "parse_passwd (concat (map passwd_line (u # us))) acc next = parse_passwd ?rest (acc @ [u]) (if uid u \<ge> next then uid u + 1 else next)"
    using Cons.prems(2) by (subst parse_passwd.simps) (simp add: passwd_line_of line rest ne parse_line_of [OF u] Let_def)
  also have "\<dots> = (acc @ u # us, next_after (u # us) next)"
    using Cons.IH [of "acc @ [u]"] Cons.prems by (simp add: next_after_def)
  finally show ?case .
qed

lemma save_loop_lines:
  "length buf + length (concat (map passwd_line (filter u_active us))) \<le> 7950 \<Longrightarrow>
     save_loop us buf = buf @ concat (map passwd_line (filter u_active us))"
proof (induction us arbitrary: buf)
  case (Cons u us)
  show ?case
  proof (cases "u_active u")
    case True
    have "length (username u) + length (password_hash u) + length (home u) + length (shell u) \<le> length (passwd_line u)"
      by (simp add: passwd_line_def)
    then show ?thesis using Cons.prems Cons.IH [of "buf @ passwd_line u"] True by simp
  qed (use Cons in simp)
qed simp


text \<open>A one-file disk, and the table with one user.\<close>

definition w_disk :: "(u8 list option) files" where
  "w_disk = \<lparr>f_read = (\<lambda>n f. (if n = PASSWD_FILE then f else None, f)),
     f_write = (\<lambda>n b f. if n = PASSWD_FILE then (True, Some b) else (False, f))\<rparr>"

definition w_bob :: user_entry where
  "w_bob = \<lparr>username = [98, 111, 98], password_hash = [49], uid = 1000, gid = 0, home = [47], shell = str_sh, u_active = True\<rparr>"

definition w_table :: "(u8 list option) userdb" where
  "w_table = \<lparr>users = zero_user # w_bob # replicate 48 zero_user, next_uid = 1001, users_loaded = True,
     user_db_persist_enabled = True, salt_counter = 0, fs = None\<rparr>"


end
