(* ===== verification/Spec2Isabelle.thy ===== *)
theory Spec2Isabelle
  imports Kernel_Properties KString Tcp_Stream Servers Netdev Vfs Fat_Volumes Ssh_Kex Aes User
begin

text \<open>
  \<^bold>\<open>A verification library for the AJ operating system kernel.\<close>

  AJ is a 32-bit x86 kernel written in C with a network stack, file systems and servers. This
  library models its core as executable functions over explicit states and proves what the parts
  promise each other and their clients. Pointers to memory the code links through are addresses of
  an explicit store; pointers into a table are indices; machine integers are words of their width;
  a function that may fault or not return has an option or an \<open>io\<close> result; code above or below the
  modelled part is a parameter with a contract. Every definition names the C function it
  translates; logging is left out throughout.

  \<^bold>\<open>Parts and theories\<close>

  \<^item> \<open>Prelude\<close>: word types, the scan of a table for the first match, tables with unique keys as
    maps (locale \<open>slot_table\<close>), and what computations that may not return keep (\<open>after\<close>).
  \<^item> \<open>Pmm\<close> (\<open>kernel/mm/pmm.c\<close>): the page allocator; free lists linked through physical
    memory. Shown: initialisation ends and covers the memory, every page is free or held exactly
    once in every run, allocation is fresh, splitting and freeing keep the lists, allocation fails
    only when no block is left. Interface: locale \<open>page_allocator\<close>.
  \<^item> \<open>Slab\<close> (\<open>kernel/mm/slab.c\<close>): \<open>kmalloc\<close> and \<open>kfree\<close> on top of \<open>Pmm\<close>, in the same memory; slab headers and
    lists of free objects are its words. Shown: what is handed out overlaps nothing held in any run of the heap,
    and freeing ends. The ghost state is the list each slab is on and the free objects of each slab.
  \<^item> \<open>Paging\<close> (\<open>kernel/mm/paging.c\<close>): page directories and tables as words of the same memory, and the
    processor's walk of them. Shown: what \<open>paging_init\<close> and \<open>vmm_map_page\<close> map, and that a program reaches its window only.
  \<^item> \<open>Process\<close>, \<open>Process_Run\<close>, \<open>Kernel_Run\<close>, \<open>Kernel_Properties\<close> (\<open>src/kernel.c\<close>): the process table, programs,
    fork, execve, exit, waitpid and kill, the scheduler; an invariant of the table and of the memory the processes hold,
    which every operation keeps; the runs of the kernel from boot as a step relation (\<open>kern_run\<close>, with stores of programs and
    the steps of other parts of the kernel). Shown for all runs: programs reach no page of another or of the kernel, every page
    is accounted for, the table is well formed, fork copies what the parent reaches, and a runnable process is scheduled.
    The witnesses boot a machine of 28 MB and start two programs on it. Not in the runs: flat programs in ring 0
    (\<open>cmd_run\<close>), the assembly of \<open>switch_to\<close>, and a number of processes beyond \<open>2\<^sup>3\<^sup>2\<close>.
  \<^item> \<open>KString\<close> (helpers of \<open>src/kernel.c\<close>): copying with overlap, 64-bit division by
    shift and subtract against the arithmetic operations, string comparison, bounded copy, number parsing.
  \<^item> \<open>Wire\<close>, \<open>Netstate\<close>, \<open>Arp\<close>, \<open>Ip4\<close> (\<open>src/pbuf.c\<close>, \<open>eth.c\<close>, \<open>arp.c\<close>, \<open>ip4.c\<close>, \<open>icmp.c\<close>,
    \<open>udp.c\<close>): byte order and checksum, packet buffers with identity, the ARP cache, input, policy
    filter, routing and output with loopback. The functions that call each other through
    loopback are tied together with fuel (\<open>ip4_in\<close>), \<open>None\<close> is running out of stack; the
    theorems hold for every fuel. Shown: buffers are freed exactly once, unauthenticated packets reach no
    handler, headers verify, cache laws.
  \<^item> \<open>Auth\<close> (\<open>src/auth.c\<close>): the table of authenticated addresses with expiry.
  \<^item> \<open>Tcp\<close>, \<open>Tcp_Keeps\<close>, \<open>Tcp_Stream\<close> (\<open>src/tcp.c\<close>): the model; the contract of its operations
    with the layers around them (locale \<open>tcp_keeps\<close>) and its instances; streams, retransmission and
    the properties. Applications (SSH, HTTP, TLS) are callbacks.
  \<^item> \<open>Dhcp\<close>, \<open>Dns\<close>, \<open>Servers\<close> (\<open>src/dhcp.c\<close>, \<open>dhcpd.c\<close>, \<open>dns.c\<close>, \<open>dnsd.c\<close>): clients and servers above
    UDP, and the stack with all of them. Shown: each client reads what its server wrote, leases never
    clash in any run of the stack, who releases packets and who does not.
  \<^item> \<open>Netdev\<close> (\<open>src/netdev.c\<close>): driver registry and budgeted polling.
  \<^item> \<open>Ramfs\<close>, \<open>Vfs\<close> (\<open>src/ramfs.c\<close>, \<open>src/vfs.c\<close>): the RAM file system as an implementation of a
    finite map; mount table, path resolution, descriptors.

  \<^item> \<open>Disk\<close> (\<open>src/disk.c\<close>): sectors through the boot copy of the floppy, the write-behind table, ATA
    and BIOS. Its promise to the file system is the locale \<open>sector_store\<close>, interpreted for a hard disk
    and for the boot floppy (on the sectors where it holds; the lemmas at the end show the others).
  \<^item> \<open>Fat_Name\<close>, \<open>Fat_Table\<close>, \<open>Fat\<close>, \<open>Fat_File\<close>, \<open>Datetime\<close> (\<open>src/fat.c\<close>, \<open>src/fatent_ops.c\<close>,
    \<open>src/datetime.c\<close>): names, table entries, the driver's state and operations, files and
    directories, time stamps. \<open>None\<close> is an access outside a buffer, a division by zero or a loop that
    does not end. \<open>Fat_Chain\<close>: cluster chains; freeing one ends on any table. \<open>Fat_Store\<close>,
    \<open>Fat_Roundtrip\<close>, \<open>Fat_Files\<close>: the driver on any \<open>sector_store\<close> (locale \<open>fat_volume\<close>); the root
    directory of a volume as a map from names to files, which writing updates and reading looks up.
    \<open>Fat_Volumes\<close>: the same on the disks of \<open>Disk\<close>.
  \<^item> \<open>Sha256\<close>, \<open>Sha512\<close> (\<open>src/crypto.c\<close>): the streaming hashes and HMAC against FIPS 180-4 and
    RFC 2104; locale \<open>stream_hash\<close>: any cut of a message into calls gives its digest.
  \<^item> \<open>Montgomery\<close>, \<open>Bigint\<close> (\<open>src/crypto.c\<close>): 2048-bit arithmetic on 32-bit limbs and on bytes; both
    exponentiations compute the power, the fuel 1000 of the fast reduction is the code's own bound.
  \<^item> \<open>Rsa_Key\<close>, \<open>Rsa\<close>, \<open>Ssh_Kex\<close> (\<open>src/crypto.c\<close>): the built-in key and its Montgomery constant (checked by
    a long division in 17 lemmas), signatures, the exchange hash, derived keys and the host key
    signature. \<open>kmalloc\<close> is a flag for every allocation.
  \<^item> \<open>Aes\<close> (\<open>src/crypto.c\<close>): AES-128 against FIPS 197 (its S-box is the code's table), counter mode, the
    cached key schedule.
  \<^item> \<open>User\<close> (\<open>src/user.c\<close>): accounts, salted password hashes, login, the PASSWD file; the table is a
    \<open>slot_table\<close>. The FAT functions are a parameter.

  This theory holds what spans components: the network stack with TCP on top.

  \<^bold>\<open>Not modelled\<close>: device drivers and interrupt code (registers and timing), the
  video output and the shell's commands (pure input and output), generated and vendored code (the
  OpenSSH port), the interpreters, and the parts listed as not modelled in the manifest.
\<close>

section \<open>The network stack with TCP\<close>

text \<open>The servers of the stack: those above UDP are given by \<open>U\<close>, TCP is the model of \<open>src/tcp.c\<close> with
  the applications \<open>A\<close> above it. Both send through the output function they are given.\<close>

definition with_tcp :: "('z tnet_scheme outfn \<Rightarrow> 'z tnet_scheme handlers) \<Rightarrow>
    ('z tnet_scheme outfn \<Rightarrow> 'z tnet_scheme apps) \<Rightarrow> 'z tnet_scheme outfn \<Rightarrow> 'z tnet_scheme handlers" where
  "with_tcp U A out = (U out)\<lparr>tcp_input_h := tcp_input (A out) out\<rparr>"

lemma with_tcp_consumes:
  assumes "handlers_ok (U out)" "apps_keep bufs_kept (A out)" "sends out"
  shows "handlers_ok (with_tcp U A out)"
  using handlers_okD [OF assms(1)] tcp_input_consumes [OF assms(3,2)]
  by (simp add: handlers_ok_def with_tcp_def)

lemma with_tcp_inside:
  assumes "handlers_keep tcp_inside (U out)" "apps_keep tcp_inside (A out)" "out_inside out"
  shows "handlers_keep tcp_inside (with_tcp U A out)"
proof -
  have "after tcp_inside s (tcp_input (A out) out p a b s)" for p a b s
    using tcp_event_inside [OF tcp_event.segment [of "A out" out p a b s _ "\<lambda>_ s. s"] assms(3,2)]
    by (auto simp: after_def tcp_inside_frame)
  with handlers_keepD [OF assms(1)] show ?thesis by (simp add: handlers_keep_def with_tcp_def)
qed

section \<open>Properties across components\<close>


lemma no_handlers_inside: "handlers_keep tcp_inside no_handlers"
  by (simp add: handlers_keep_def no_handlers_def after_def tcp_inside_more)

text \<open>A TCP segment for a port nobody listens on.\<close>

definition stray_segment :: "u8 list" where
  "stray_segment = replicate 12 0xFF @ [8, 0] @ [0x45, 0, 0, 40, 0, 0, 0, 0, 64, 6, 0x62, 0xB3, 10, 0, 2, 15, 10, 0, 2, 15] @ replicate 20 0"


end
